(* ===== verification/Prelude.thy ===== *)
theory Prelude
  imports Main "HOL-Library.Word"
begin

unbundle bit_operations_syntax

text \<open>
  Shared vocabulary of the development: names for the C integer types of the kernel,
  the error codes the modelled components return, the compiler builtins the code uses
  (\<^verbatim>\<open>__builtin_ctzll\<close>, \<^verbatim>\<open>__builtin_clz\<close>), little-endian stores, and the generic
  lemmas on lists, words and counting that the component theories share.
\<close>

section \<open>Names for the C types\<close>

type_synonym u8 = "8 word"
type_synonym u16 = "16 word"
type_synonym u32 = "32 word"
type_synonym u64 = "64 word"
type_synonym bytes = "8 word list"

named_theorems bitops \<open>what a bit-array operation does to each bit\<close>

section \<open>Wrap-around\<close>

text \<open>
  Where a component counts in natural numbers, the wrap-around of the C type is written out at each
  operation that computes at that width.
\<close>

definition u32_wrap :: "nat \<Rightarrow> nat" where "u32_wrap n = n mod 2 ^ 32"
definition u16_wrap :: "nat \<Rightarrow> nat" where "u16_wrap n = n mod 2 ^ 16"

lemma wrap_small [simp]: "n < 2 ^ 32 \<Longrightarrow> u32_wrap n = n" "n < 2 ^ 16 \<Longrightarrow> u16_wrap n = n"
  by (simp_all add: u32_wrap_def u16_wrap_def)

section \<open>Error codes\<close>

text \<open>
  The constructors of \<^verbatim>\<open>error_t\<close> (kernel/core/error/error.h) that the modelled
  components return; the numeric values are not observed by any of them.
\<close>

datatype error_t =
    OK
  | ERR_INVALID_ARGUMENT
  | ERR_BUFFER_TOO_SMALL
  | ERR_CORRUPTED
  | ERR_NOT_INITIALIZED
  | ERR_ALREADY_INITIALIZED
  | ERR_QUOTA_EXCEEDED
  | ERR_NO_MEMORY
  | ERR_OBJECT_NOT_FOUND
  | ERR_TAGFS_CORRUPTED
  | ERR_TAGFS_METADATA_ERROR
  | ERR_READ_FAILED
  | ERR_WRITE_FAILED
  | ERR_IO
  | ERR_DEVICE_NOT_READY
  | ERR_OUT_OF_RANGE
  | ERR_DISK_FULL
  | ERR_DISKBOOK_NOT_INITIALIZED
  | ERR_DISKBOOK_WRITE_FAILED

section \<open>Compiler builtins\<close>

text \<open>
  \<open>ctz w\<close> is \<^verbatim>\<open>__builtin_ctz\<close>/\<^verbatim>\<open>__builtin_ctzll\<close>: the number of zero bits below the
  lowest set bit. The C builtin is undefined at 0 and every caller tests for 0 first.
\<close>

definition ctz :: "'a::len word \<Rightarrow> nat" where
  "ctz w = length (takeWhile (\<lambda>i. \<not> bit w i) [0..<LENGTH('a)])"

text \<open>
  \<open>clz w\<close> is \<^verbatim>\<open>__builtin_clz\<close>: the number of zero bits above the highest set bit.
\<close>

definition clz :: "'a::len word \<Rightarrow> nat" where
  "clz w = length (takeWhile (\<lambda>i. \<not> bit w i) (rev [0..<LENGTH('a)]))"

lemma takeWhile_upt_length:
  assumes "\<exists>i<n. \<not> P i"
  shows "length (takeWhile P [0..<n]) < n"
    and "\<not> P (length (takeWhile P [0..<n]))"
    and "j < length (takeWhile P [0..<n]) \<Longrightarrow> P j"
proof -
  let ?k = "length (takeWhile P [0..<n])"
  obtain i where i: "i < n" "\<not> P i" using assms by blast
  have "?k \<noteq> length [0..<n]"
  proof
    assume "?k = length [0..<n]"
    then have "takeWhile P [0..<n] = [0..<n]"
      by (metis takeWhile_eq_take take_all le_refl)
    then have "\<forall>x\<in>set [0..<n]. P x" by (simp only: takeWhile_eq_all_conv)
    with i show False by simp
  qed
  moreover have "?k \<le> length [0..<n]" by (rule length_takeWhile_le)
  ultimately show lt: "?k < n" by simp
  then show "\<not> P ?k" using nth_length_takeWhile [of P "[0..<n]"] by simp
  show "P j" if "j < ?k"
    using that set_takeWhileD [of j P "[0..<n]"] lt
      nth_mem [of j "takeWhile P [0..<n]"] takeWhile_nth [of j P "[0..<n]"]
    by simp
qed

lemma word_nonzero_bit: "(w::'a::len word) \<noteq> 0 \<Longrightarrow> \<exists>i<LENGTH('a). bit w i"
  by (metis bit_imp_le_length not_le bit_0_eq bit_eq_iff bot_apply bot_bool_def)

lemma ctz_lowest:
  assumes "(w::'a::len word) \<noteq> 0"
  shows ctz_less: "ctz w < LENGTH('a)"
    and ctz_bit: "bit w (ctz w)"
    and ctz_min: "j < ctz w \<Longrightarrow> \<not> bit w j"
proof -
  have ex: "\<exists>i<LENGTH('a). \<not> \<not> bit w i" using word_nonzero_bit [OF assms] by simp
  show "ctz w < LENGTH('a)" using takeWhile_upt_length(1) [OF ex] by (simp add: ctz_def)
  show "bit w (ctz w)" using takeWhile_upt_length(2) [OF ex] by (simp add: ctz_def)
  show "\<not> bit w j" if "j < ctz w"
    using takeWhile_upt_length(3) [OF ex, of j] that by (simp add: ctz_def)
qed

lemma div_mod_block:
  assumes "k * w \<le> i" "i < k * w + (k::nat)"
  shows "i div k = w" "i mod k = i - k * w"
proof -
  show d: "i div k = w" using assms by (intro div_nat_eqI) (simp_all add: mult.commute)
  show "i mod k = i - k * w" unfolding modulo_nat_def d by (simp add: mult.commute)
qed

section \<open>Counting\<close>

text \<open>\<open>count_upto P n\<close>: how many indices below \<open>n\<close> satisfy \<open>P\<close>.\<close>

definition count_upto :: "(nat \<Rightarrow> bool) \<Rightarrow> nat \<Rightarrow> nat" where
  "count_upto P n = length (filter P [0..<n])"

lemma count_upto_card: "count_upto P n = card {i. i < n \<and> P i}"
proof -
  have "count_upto P n = card (set (filter P [0..<n]))"
    unfolding count_upto_def by (rule distinct_card [symmetric]) simp
  also have "set (filter P [0..<n]) = {i. i < n \<and> P i}" by auto
  finally show ?thesis .
qed

lemma count_upto_cong: "(\<And>i. i < n \<Longrightarrow> P i = Q i) \<Longrightarrow> count_upto P n = count_upto Q n"
  unfolding count_upto_def by (rule arg_cong [where f = length], rule filter_cong) auto

lemma count_upto_le: "count_upto P n \<le> n"
  using length_filter_le [of P "[0..<n]"] by (simp add: count_upto_def)

lemma count_upto_insert:
  assumes "k < n" "\<not> P k"
  shows "count_upto (\<lambda>i. i = k \<or> P i) n = Suc (count_upto P n)"
proof -
  have "{i. i < n \<and> (i = k \<or> P i)} = insert k {i. i < n \<and> P i}" using assms by auto
  then show ?thesis using assms by (simp add: count_upto_card)
qed

lemma count_upto_delete:
  assumes "k < n" "P k"
  shows "count_upto P n = Suc (count_upto (\<lambda>i. i \<noteq> k \<and> P i) n)"
proof -
  have "{i. i < n \<and> P i} = insert k {i. i < n \<and> i \<noteq> k \<and> P i}" using assms by auto
  then show ?thesis by (simp add: count_upto_card)
qed

lemma count_upto_full: "count_upto P n = n \<longleftrightarrow> (\<forall>i<n. P i)"
proof
  assume "count_upto P n = n"
  then have "filter P [0..<n] = [0..<n]"
    unfolding count_upto_def by (metis filter_True length_filter_less less_irrefl length_upt diff_zero)
  then show "\<forall>i<n. P i" by (metis filter_id_conv atLeast0LessThan atLeast_upt lessThan_iff)
next
  assume "\<forall>i<n. P i"
  then show "count_upto P n = n" by (simp add: count_upto_def)
qed

lemma count_upto_false [simp]: "count_upto (\<lambda>_. False) n = 0"
  by (simp add: count_upto_def)

section \<open>Array update\<close>

lemma nth_update_if: "xs[i := x] ! j = (if i = j \<and> i < length xs then x else xs ! j)"
  by (cases "i < length xs") (auto simp: nth_list_update not_less list_update_beyond)

lemma find_SomeD: "find P xs = Some x \<Longrightarrow> x \<in> set xs \<and> P x"
  by (auto simp: find_Some_iff)

section \<open>Little-endian integers in byte buffers\<close>

text \<open>
  What \<^verbatim>\<open>memcpy\<close> of an integer does on the (little-endian) target: \<open>le_put n w\<close> is the
  \<open>n\<close>-byte image of \<open>w\<close> and \<open>le_get\<close> reads it back.
\<close>

definition le_put :: "nat \<Rightarrow> 'a::len word \<Rightarrow> bytes" where
  "le_put n w = map (\<lambda>i. ucast (drop_bit (8 * i) w)) [0..<n]"

primrec le_get :: "bytes \<Rightarrow> 'a::len word" where
  "le_get [] = 0"
| "le_get (b # bs) = ucast b OR push_bit 8 (le_get bs)"

lemma length_le_put [simp]: "length (le_put n w) = n"
  by (simp add: le_put_def)

lemma bit_le_get:
  "bit (le_get bs :: 'a::len word) n \<longleftrightarrow> n < LENGTH('a) \<and> n div 8 < length bs \<and> bit (bs ! (n div 8)) (n mod 8)"
proof (induction bs arbitrary: n)
  case (Cons b bs)
  show ?case
  proof (cases "n < 8")
    case True
    then show ?thesis by (simp add: bit_or_iff bit_push_bit_iff bit_ucast_iff)
  next
    case False
    then obtain m where m: "n = m + 8" using le_Suc_ex [of 8 n] by (auto simp: add.commute)
    have d: "n div 8 = Suc (m div 8)" "n mod 8 = m mod 8" by (simp_all add: m)
    have "\<not> bit b (m + 8)" using bit_imp_le_length [of b "m + 8"] by auto
    then show ?thesis using Cons.IH [of m] bit_imp_le_length [of "le_get bs :: 'a word" m]
      unfolding d by (auto simp: m bit_or_iff bit_push_bit_iff bit_ucast_iff)
  qed
qed simp

lemma le_get_put [simp]: "LENGTH('a) \<le> 8 * n \<Longrightarrow> le_get (le_put n w) = (w :: 'a::len word)"
  by (rule bit_word_eqI)
    (auto simp: bit_le_get le_put_def bit_ucast_iff bit_drop_bit_eq less_mult_imp_div_less mult.commute)


lemma distinct_concat_nth:
  assumes "\<And>i. i < length xss \<Longrightarrow> distinct (xss ! i)"
    and "\<And>i j. i < length xss \<Longrightarrow> j < length xss \<Longrightarrow> i \<noteq> j \<Longrightarrow> set (xss ! i) \<inter> set (xss ! j) = {}"
  shows "distinct (concat xss)"
  using assms
proof (induction xss)
  case (Cons xs xss)
  have "distinct (concat xss)"
    by (rule Cons.IH) (use Cons.prems(1) [of "Suc _"] Cons.prems(2) [of "Suc _" "Suc _"] in auto)
  moreover have "set xs \<inter> set ys = {}" if "ys \<in> set xss" for ys
  proof -
    obtain j where "j < length xss" "ys = xss ! j" using \<open>ys \<in> set xss\<close> by (metis in_set_conv_nth)
    then show ?thesis using Cons.prems(2) [of 0 "Suc j"] by simp
  qed
  ultimately show ?case using Cons.prems(1) [of 0] by auto
qed simp

end
