(* ===== verification/BitArray.thy ===== *)
theory BitArray
  imports Prelude
begin

text \<open>
  The bit arrays of the kernel. Three components keep one: the PID allocator (an array of
  64-bit words), the buddy allocator's \<^verbatim>\<open>alloc_map\<close> and the tag bitmaps of TagFS (arrays
  of bytes). The locale \<open>bit_array\<close> states what all of them rely on; the lemmas about
  counting and about marking a range are proved once inside it. It is interpreted here on
  arrays of machine words of any width, and the components' own set/clear/test
  operations are instances.
\<close>

locale bit_array =
  fixes test :: "'b \<Rightarrow> nat \<Rightarrow> bool"
    and setb :: "'b \<Rightarrow> nat \<Rightarrow> 'b"
    and clearb :: "'b \<Rightarrow> nat \<Rightarrow> 'b"
    and nbits :: "'b \<Rightarrow> nat"
  assumes test_setb: "i < nbits b \<Longrightarrow> test (setb b i) j = (j = i \<or> test b j)"
    and test_clearb: "i < nbits b \<Longrightarrow> test (clearb b i) j = (j \<noteq> i \<and> test b j)"
    and nbits_setb: "nbits (setb b i) = nbits b"
    and nbits_clearb: "nbits (clearb b i) = nbits b"
begin

lemma count_setb:
  assumes "i < nbits b" "i < n" "\<not> test b i"
  shows "count_upto (test (setb b i)) n = Suc (count_upto (test b) n)"
proof -
  have "count_upto (test (setb b i)) n = count_upto (\<lambda>j. j = i \<or> test b j) n"
    using assms(1) by (intro count_upto_cong) (simp add: test_setb)
  then show ?thesis using assms by (simp add: count_upto_insert)
qed

lemma count_clearb:
  assumes "i < nbits b" "i < n" "test b i"
  shows "count_upto (test b) n = Suc (count_upto (test (clearb b i)) n)"
proof -
  have "count_upto (test (clearb b i)) n = count_upto (\<lambda>j. j \<noteq> i \<and> test b j) n"
    using assms(1) by (intro count_upto_cong) (simp add: test_clearb)
  then show ?thesis using assms count_upto_delete [of i n "test b"] by simp
qed

lemma fold_setb:
  assumes "\<And>i. i \<in> set is \<Longrightarrow> i < nbits b"
  shows "nbits (foldl setb b is) = nbits b \<and> test (foldl setb b is) j = (j \<in> set is \<or> test b j)"
  using assms by (induction "is" arbitrary: b) (auto simp: nbits_setb test_setb)

lemma fold_clearb:
  assumes "\<And>i. i \<in> set is \<Longrightarrow> i < nbits b"
  shows "nbits (foldl clearb b is) = nbits b \<and> test (foldl clearb b is) j = (j \<notin> set is \<and> test b j)"
  using assms by (induction "is" arbitrary: b) (auto simp: nbits_clearb test_clearb)

end

section \<open>Arrays of machine words\<close>

text \<open>
  Bit \<open>i\<close> of an array of \<open>w\<close>-bit words is bit \<open>i mod w\<close> of word \<open>i div w\<close>; the C code
  writes \<^verbatim>\<open>a[i / 8] |= 1 << (i % 8)\<close> or \<^verbatim>\<open>a[i >> 6] |= 1ULL << (i & 63)\<close>.
\<close>

definition wa_test :: "'w::len word list \<Rightarrow> nat \<Rightarrow> bool" where
  "wa_test a i = ((a ! (i div LENGTH('w))) AND push_bit (i mod LENGTH('w)) 1 \<noteq> 0)"

definition wa_set :: "'w::len word list \<Rightarrow> nat \<Rightarrow> 'w word list" where
  "wa_set a i = a[i div LENGTH('w) := a ! (i div LENGTH('w)) OR push_bit (i mod LENGTH('w)) 1]"

definition wa_clear :: "'w::len word list \<Rightarrow> nat \<Rightarrow> 'w word list" where
  "wa_clear a i =
     a[i div LENGTH('w) := a ! (i div LENGTH('w)) AND NOT (push_bit (i mod LENGTH('w)) 1)]"

definition wa_bits :: "'w::len word list \<Rightarrow> nat" where
  "wa_bits a = LENGTH('w) * length a"

lemma and_push_bit_nonzero:
  assumes "n < LENGTH('w)"
  shows "((w::'w::len word) AND 2 ^ n \<noteq> 0) = bit w n"
proof
  assume "w AND 2 ^ n \<noteq> 0"
  then obtain i where "i < LENGTH('w)" "bit (w AND 2 ^ n) i" using word_nonzero_bit by blast
  then show "bit w n" by (auto simp: bit_and_iff bit_exp_iff)
next
  assume "bit w n"
  with assms have "bit (w AND 2 ^ n) n" by (simp add: bit_and_iff bit_exp_iff)
  then show "w AND 2 ^ n \<noteq> 0" by auto
qed

lemma wa_test_bit: "wa_test (a::'w::len word list) i = bit (a ! (i div LENGTH('w))) (i mod LENGTH('w))"
  by (simp add: wa_test_def and_push_bit_nonzero)

lemma wa_bits_div: "i < wa_bits (a::'w::len word list) \<Longrightarrow> i div LENGTH('w) < length a"
  by (simp add: wa_bits_def less_mult_imp_div_less mult.commute)

lemma div_mod_inj: "(i::nat) div k = j div k \<Longrightarrow> i mod k = j mod k \<Longrightarrow> i = j"
  by (metis div_mult_mod_eq)

lemma div_mod_eq_iff: "(i::nat) = j \<longleftrightarrow> i div k = j div k \<and> i mod k = j mod k"
  using div_mod_inj by blast

lemma wa_test_set:
  assumes "i < wa_bits (a::'w::len word list)"
  shows "wa_test (wa_set a i) j = (j = i \<or> wa_test a j)"
proof (cases "j div LENGTH('w) = i div LENGTH('w)")
  case True
  then show ?thesis using wa_bits_div [OF assms]
    by (auto simp: wa_test_bit wa_set_def bit_or_iff bit_exp_iff div_mod_eq_iff [of j i "LENGTH('w)"])
next
  case False
  then show ?thesis by (auto simp: wa_test_bit wa_set_def)
qed

lemma wa_test_clear:
  assumes "i < wa_bits (a::'w::len word list)"
  shows "wa_test (wa_clear a i) j = (j \<noteq> i \<and> wa_test a j)"
proof (cases "j div LENGTH('w) = i div LENGTH('w)")
  case True
  then show ?thesis using wa_bits_div [OF assms]
    by (auto simp: wa_test_bit wa_clear_def bit_and_iff bit_not_iff bit_exp_iff
        div_mod_eq_iff [of j i "LENGTH('w)"])
next
  case False
  then show ?thesis by (auto simp: wa_test_bit wa_clear_def)
qed

interpretation wa: bit_array wa_test wa_set wa_clear wa_bits
  by unfold_locales (simp_all add: wa_test_set wa_test_clear, simp_all add: wa_bits_def wa_set_def wa_clear_def)

lemmas [bitops] = wa_test_set wa_test_clear

lemma wa_len [simp]: "length (wa_set a i) = length a" "length (wa_clear a i) = length a"
  by (simp_all add: wa_set_def wa_clear_def)

lemma wa_test_replicate0: "i < LENGTH('w) * n \<Longrightarrow> \<not> wa_test (replicate n (0::'w::len word)) i"
  using wa_bits_div [of i "replicate n (0::'w word)"] by (simp add: wa_test_bit wa_bits_def)

end
