(* ===== verification/IdPool.thy ===== *)
theory IdPool
  imports Prelude
begin

text \<open>
  The contract of an identifier pool, as the process layer relies on it: an allocation
  either fails and changes nothing, which happens only when all \<open>capacity\<close> identifiers are
  live, or returns one that was not live and makes it live; a release takes exactly the
  given identifier out. What a client may conclude for a whole run of operations is
  proved here once.
\<close>

datatype 'i pool_op = Alloc | Release 'i

locale id_pool =
  fixes invar :: "'s \<Rightarrow> bool"
    and live :: "'s \<Rightarrow> 'i set"
    and alloc :: "'s \<Rightarrow> 'i option \<times> 's"
    and release :: "'s \<Rightarrow> 'i \<Rightarrow> 's"
    and capacity :: nat
  assumes invar_alloc: "invar s \<Longrightarrow> invar (snd (alloc s))"
    and invar_release: "invar s \<Longrightarrow> invar (release s i)"
    and alloc_some: "invar s \<Longrightarrow> alloc s = (Some i, t) \<Longrightarrow> i \<notin> live s \<and> live t = insert i (live s)"
    and alloc_none: "invar s \<Longrightarrow> alloc s = (None, t) \<Longrightarrow> t = s \<and> card (live s) = capacity"
    and live_release: "invar s \<Longrightarrow> live (release s i) = live s - {i}"
    and finite_live: "invar s \<Longrightarrow> finite (live s)"
begin

primrec alloc_many :: "nat \<Rightarrow> 's \<Rightarrow> 'i list \<times> 's" where
  "alloc_many 0 s = ([], s)"
| "alloc_many (Suc n) s =
     (case alloc s of
        (None, t) \<Rightarrow> ([], t)
      | (Some i, t) \<Rightarrow> (let (js, u) = alloc_many n t in (i # js, u)))"

lemma alloc_many_spec:
  assumes "invar s" "alloc_many n s = (is, t)"
  shows "invar t \<and> distinct is \<and> set is \<inter> live s = {} \<and> live t = set is \<union> live s \<and>
         (length is < n \<longrightarrow> card (live t) = capacity)"
  using assms
proof (induction n arbitrary: s "is" t)
  case (Suc n)
  show ?case
  proof (cases "alloc s")
    case (Pair r u)
    show ?thesis
    proof (cases r)
      case None
      then have "u = s" "card (live s) = capacity" using alloc_none Suc.prems Pair by auto
      then show ?thesis using Suc.prems Pair None by auto
    next
      case (Some i)
      obtain js v where js: "alloc_many n u = (js, v)" by fastforce
      have "invar u" using invar_alloc [OF Suc.prems(1)] Pair by simp
      moreover have "i \<notin> live s" "live u = insert i (live s)"
        using alloc_some Suc.prems(1) Pair Some by blast+
      ultimately show ?thesis using Suc.IH [of u js v] js Suc.prems Pair Some by auto
    qed
  qed
qed simp

lemma alloc_many_total:
  assumes "invar s" "card (live s) + n \<le> capacity" "alloc_many n s = (is, t)"
  shows "length is = n"
proof (rule ccontr)
  assume ne: "length is \<noteq> n"
  have "length is \<le> n" using assms(3)
    by (induction n arbitrary: s "is" t) (auto split: option.splits prod.splits)
  with ne have lt: "length is < n" by simp
  note sp = alloc_many_spec [OF assms(1,3)]
  have "card (live t) = length is + card (live s)"
    using sp finite_live [OF assms(1)] by (simp add: card_Un_disjoint distinct_card)
  with sp lt assms(2) show False by simp
qed

text \<open>A run of operations, with the identifiers it issued.\<close>

fun run :: "'i pool_op list \<Rightarrow> 's \<Rightarrow> 's" where
  "run [] s = s"
| "run (Alloc # ops) s = run ops (snd (alloc s))"
| "run (Release i # ops) s = run ops (release s i)"

lemma invar_run: "invar s \<Longrightarrow> invar (run ops s)"
  by (induction ops s rule: run.induct) (auto simp: invar_alloc invar_release)

text \<open>An identifier that is live stays live, and is not issued again, until it is released.\<close>

lemma live_until_release:
  assumes "invar s" "i \<in> live s" "Release i \<notin> set ops"
  shows "i \<in> live (run ops s)" "alloc (run ops s) \<noteq> (Some i, t)"
proof -
  show l: "i \<in> live (run ops s)"
    using assms
  proof (induction ops s rule: run.induct)
    case (2 ops s)
    obtain r u where a: "alloc s = (r, u)" by fastforce
    then have "i \<in> live u" "invar u"
      using 2 alloc_some [of s _ u] alloc_none [of s u] invar_alloc [of s] by (cases r; auto)+
    then show ?case using 2 a by auto
  next
    case (3 j ops s)
    then show ?case by (auto simp: live_release invar_release)
  qed simp
  show "alloc (run ops s) \<noteq> (Some i, t)"
    using alloc_some [OF invar_run [OF assms(1)]] l by blast
qed

end

end
