(* ===== verification/PidAllocator.thy ===== *)
theory PidAllocator
  imports BitArray IdPool
begin

unbundle bit_operations_syntax

text \<open>
  The process identifier allocator, kernel/core/process/allocator/pid_allocator.c.
  A PID is \<open>index + 1\<close> for an index into a bitmap of \<open>PID_MAX_COUNT\<close> bits; each index
  carries a generation that is bumped at every allocation, and \<open>pid_life\<close> compares a
  remembered generation with the slot's. Every operation takes \<^verbatim>\<open>g_allocator.lock\<close> for its
  whole access to the state, so each is one atomic step here. The debug prints are left out.
\<close>

section \<open>State and operations\<close>

definition PID_MAX_COUNT :: nat where
  "PID_MAX_COUNT = 4096"

record pid_allocator_t =
  pa_bitmap :: "u64 list"
  pa_generation :: "u32 list"
  pa_allocated_count :: u32

definition bitmap_set :: "u64 list \<Rightarrow> nat \<Rightarrow> u64 list" where
  "bitmap_set bitmap index =
     bitmap[index div 64 := bitmap ! (index div 64) OR push_bit (index mod 64) 1]"

definition bitmap_clear :: "u64 list \<Rightarrow> nat \<Rightarrow> u64 list" where
  "bitmap_clear bitmap index =
     bitmap[index div 64 := bitmap ! (index div 64) AND NOT (push_bit (index mod 64) 1)]"

definition bitmap_test :: "u64 list \<Rightarrow> nat \<Rightarrow> bool" where
  "bitmap_test bitmap index = (bitmap ! (index div 64) AND push_bit (index mod 64) 1 \<noteq> 0)"

function bitmap_find_free_from :: "u64 list \<Rightarrow> nat \<Rightarrow> nat \<Rightarrow> nat \<Rightarrow> nat" where
  "bitmap_find_free_from bitmap max_bits qwords w =
     (if w < qwords then
        (let v = bitmap ! w in
         if v \<noteq> NOT 0 then
           (let index = 64 * w + ctz (NOT v) in if index < max_bits then index else max_bits)
         else bitmap_find_free_from bitmap max_bits qwords (Suc w))
      else max_bits)"
  by pat_completeness auto
termination
  by (relation "measure (\<lambda>(bitmap, max_bits, qwords, w). qwords - w)") auto

declare bitmap_find_free_from.simps [simp del]

definition bitmap_find_free :: "u64 list \<Rightarrow> nat \<Rightarrow> nat" where
  "bitmap_find_free bitmap max_bits = bitmap_find_free_from bitmap max_bits ((max_bits + 63) div 64) 0"

definition pid_allocator_init :: pid_allocator_t where
  "pid_allocator_init =
     \<lparr>pa_bitmap = replicate ((PID_MAX_COUNT + 63) div 64) 0,
      pa_generation = replicate PID_MAX_COUNT 0,
      pa_allocated_count = 0\<rparr>"

definition PID_INVALID :: u32 where
  "PID_INVALID = 0"

definition next_generation :: "u32 \<Rightarrow> u32" where
  "next_generation g = (if g + 1 > 0xFFFF then 1 else g + 1)"

definition pid_alloc :: "pid_allocator_t \<Rightarrow> u32 \<times> pid_allocator_t" where
  "pid_alloc s =
     (let index = bitmap_find_free (pa_bitmap s) PID_MAX_COUNT in
      if index \<ge> PID_MAX_COUNT then (PID_INVALID, s)
      else
        let bm = bitmap_set (pa_bitmap s) index;
            g = next_generation (pa_generation s ! index)
        in (of_nat index + 1,
            s\<lparr>pa_bitmap := bm, pa_generation := (pa_generation s)[index := g],
              pa_allocated_count := pa_allocated_count s + 1\<rparr>))"

definition pid_free :: "pid_allocator_t \<Rightarrow> u32 \<Rightarrow> pid_allocator_t" where
  "pid_free s pid =
     (if pid = PID_INVALID then s
      else let index = unat (pid - 1) in
        if index \<ge> PID_MAX_COUNT then s
        else if \<not> bitmap_test (pa_bitmap s) index then s
        else s\<lparr>pa_bitmap := bitmap_clear (pa_bitmap s) index,
               pa_allocated_count := pa_allocated_count s - 1\<rparr>)"

definition pid_validate :: "pid_allocator_t \<Rightarrow> u32 \<Rightarrow> bool" where
  "pid_validate s pid =
     (if pid = PID_INVALID then False
      else let index = unat (pid - 1) in
        if index \<ge> PID_MAX_COUNT then False else bitmap_test (pa_bitmap s) index)"

definition pid_generation :: "pid_allocator_t \<Rightarrow> u32 \<Rightarrow> u32" where
  "pid_generation s pid =
     (if pid = PID_INVALID then 0
      else let index = unat (pid - 1) in
        if index \<ge> PID_MAX_COUNT then 0 else pa_generation s ! index)"

definition pid_allocated_count :: "pid_allocator_t \<Rightarrow> u32" where
  "pid_allocated_count s = pa_allocated_count s"

datatype PidLife = PID_LIFE_NEVER | PID_LIFE_LIVE | PID_LIFE_DEPARTED

definition pid_life :: "pid_allocator_t \<Rightarrow> u32 \<Rightarrow> u32 \<Rightarrow> PidLife" where
  "pid_life s pid generation =
     (if pid = PID_INVALID \<or> generation = 0 then PID_LIFE_NEVER
      else let index = unat (pid - 1) in
        if index \<ge> PID_MAX_COUNT then PID_LIFE_NEVER
        else
          let slot_gen = pa_generation s ! index; allocated = bitmap_test (pa_bitmap s) index in
          if generation > slot_gen then PID_LIFE_NEVER
          else if generation < slot_gen then PID_LIFE_DEPARTED
          else if allocated then PID_LIFE_LIVE else PID_LIFE_DEPARTED)"

section \<open>The bitmap is a bit array\<close>

definition pid_bits :: "u64 list \<Rightarrow> nat" where
  "pid_bits b = 64 * length b"

lemma pid_bitmap_wa:
  "bitmap_set = wa_set" "bitmap_clear = wa_clear" "bitmap_test = wa_test" "pid_bits = wa_bits"
  by (simp_all add: fun_eq_iff bitmap_set_def bitmap_clear_def bitmap_test_def pid_bits_def
      wa_set_def wa_clear_def wa_test_def wa_bits_def)

interpretation pidbm: bit_array bitmap_test bitmap_set bitmap_clear pid_bits
  unfolding pid_bitmap_wa by (rule wa.bit_array_axioms)

lemma bitmap_test_bit: "bitmap_test b i = bit (b ! (i div 64)) (i mod 64)"
  unfolding pid_bitmap_wa by (simp add: wa_test_bit)

lemma not_all_ones: "(v::u64) \<noteq> NOT 0 \<Longrightarrow> NOT v \<noteq> 0"
  by (metis bit.double_compl)

text \<open>The word-wise scan finds the lowest clear bit, or reports that there is none.\<close>

lemma bitmap_find_free_from_spec:
  assumes "max_bits = 64 * qwords" "\<And>i. i < 64 * w \<Longrightarrow> bitmap_test b i" "w \<le> qwords"
  shows "let r = bitmap_find_free_from b max_bits qwords w in
           r \<le> max_bits \<and> (r < max_bits \<longrightarrow> \<not> bitmap_test b r) \<and> (\<forall>i<r. bitmap_test b i)"
  using assms
proof (induction b max_bits qwords w rule: bitmap_find_free_from.induct)
  case (1 b max_bits qwords w)
  note unfold = bitmap_find_free_from.simps [of b max_bits qwords w]
  show ?case
  proof (cases "w < qwords \<and> b ! w \<noteq> NOT 0")
    case True
    let ?c = "ctz (NOT (b ! w))"
    have nz: "NOT (b ! w) \<noteq> 0" using True not_all_ones by blast
    have c: "?c < 64" "\<not> bit (b ! w) ?c" "\<And>j. j < ?c \<Longrightarrow> bit (b ! w) j"
      using ctz_less [OF nz] ctz_bit [OF nz] ctz_min [OF nz]
      by (auto simp: bit_not_iff dest: order.strict_trans)
    have idx: "64 * w + ?c < max_bits" using True 1(2) c(1) by (simp add: "1.prems"(1))
    have low: "bitmap_test b i" if "i < 64 * w + ?c" for i
    proof (cases "i < 64 * w")
      case False
      then have "i div 64 = w" "i mod 64 = i - 64 * w" "i - 64 * w < ?c"
        using that c(1) div_mod_block [of 64 w i] by auto
      then show ?thesis using c(3) by (simp add: bitmap_test_bit)
    qed (use "1.prems"(2) in auto)
    have "\<not> bitmap_test b (64 * w + ?c)" using c by (simp add: bitmap_test_bit)
    then show ?thesis using True idx low unfold by (simp add: Let_def)
  next
    case False
    show ?thesis
    proof (cases "w < qwords")
      case True
      with False have full: "b ! w = NOT 0" by simp
      have "bitmap_test b i" if "i < 64 * Suc w" for i
      proof (cases "i < 64 * w")
        case False
        then have "i div 64 = w" using that by (auto simp: div_nat_eqI)
        then show ?thesis using full by (simp add: bitmap_test_bit bit_not_iff)
      qed (use "1.prems"(2) in auto)
      then show ?thesis using "1.IH" [OF True refl] full "1.prems"(1) True unfold by (simp add: Let_def)
    next
      case False
      then show ?thesis using "1.prems" unfold by (simp add: Let_def)
    qed
  qed
qed

lemma bitmap_find_free_spec:
  fixes b
  defines "r \<equiv> bitmap_find_free b PID_MAX_COUNT"
  shows "r \<le> PID_MAX_COUNT" "r < PID_MAX_COUNT \<Longrightarrow> \<not> bitmap_test b r" "i < r \<Longrightarrow> bitmap_test b i"
  using bitmap_find_free_from_spec [of 4096 64 0 b]
  by (auto simp: r_def bitmap_find_free_def PID_MAX_COUNT_def Let_def)

section \<open>Invariant and reachable states\<close>

definition pid_inv :: "pid_allocator_t \<Rightarrow> bool" where
  "pid_inv s \<longleftrightarrow>
     length (pa_bitmap s) = 64 \<and> length (pa_generation s) = PID_MAX_COUNT \<and>
     unat (pa_allocated_count s) = count_upto (bitmap_test (pa_bitmap s)) PID_MAX_COUNT \<and>
     (\<forall>i<PID_MAX_COUNT. pa_generation s ! i \<le> 0xFFFF \<and>
        (bitmap_test (pa_bitmap s) i \<longrightarrow> 1 \<le> pa_generation s ! i))"

inductive pid_step :: "pid_allocator_t \<Rightarrow> pid_allocator_t \<Rightarrow> bool" where
  step_alloc: "pid_step s (snd (pid_alloc s))"
| step_free: "pid_step s (pid_free s pid)"

inductive pid_reachable :: "pid_allocator_t \<Rightarrow> bool" where
  reach_init: "pid_reachable pid_allocator_init"
| reach_step: "pid_reachable s \<Longrightarrow> pid_step s t \<Longrightarrow> pid_reachable t"

inductive_simps pid_step_iff: "pid_step s t"

lemma pid_inv_init: "pid_inv pid_allocator_init"
proof -
  have "count_upto (bitmap_test (replicate 64 0)) PID_MAX_COUNT = count_upto (\<lambda>_. False) PID_MAX_COUNT"
    by (rule count_upto_cong) (simp add: pid_bitmap_wa wa_test_replicate0 PID_MAX_COUNT_def)
  moreover have "\<not> bitmap_test (replicate 64 0) i" if "i < 4096" for i
    using that by (simp add: pid_bitmap_wa wa_test_replicate0)
  ultimately show ?thesis
    by (simp add: pid_inv_def pid_allocator_init_def PID_MAX_COUNT_def)
qed

text \<open>The index of a PID, and that distinct valid indices give distinct PIDs.\<close>

lemma pid_index [simp]:
  "i < PID_MAX_COUNT \<Longrightarrow> unat ((of_nat i + 1 :: u32) - 1) = i"
  "i < PID_MAX_COUNT \<Longrightarrow> (of_nat i + 1 :: u32) \<noteq> 0"
proof -
  assume i: "i < PID_MAX_COUNT"
  show "unat ((of_nat i + 1 :: u32) - 1) = i"
    using i by (simp add: PID_MAX_COUNT_def unat_of_nat)
  have "unat (of_nat i + 1 :: u32) = i + 1"
    using i by (simp add: PID_MAX_COUNT_def unat_word_ariths unat_of_nat)
  then show "(of_nat i + 1 :: u32) \<noteq> 0" by (metis add_is_0 unat_0 zero_neq_one)
qed

lemma next_generation_bounds:
  "g \<le> 0xFFFF \<Longrightarrow> next_generation g \<le> 0xFFFF \<and> 1 \<le> next_generation g"
  by (auto simp: next_generation_def word_le_nat_alt word_less_nat_alt unat_word_ariths)

lemma next_generation_less: "g < 0xFFFF \<Longrightarrow> g < next_generation g"
  by (auto simp: next_generation_def word_le_nat_alt word_less_nat_alt unat_word_ariths)

lemma bitmap_len [simp]:
  "length (bitmap_set b i) = length b" "length (bitmap_clear b i) = length b"
  by (simp_all add: bitmap_set_def bitmap_clear_def)

text \<open>
  A successful allocation, as one equation: the index is the lowest clear bit, and every
  bit, generation and count of the new state is given in terms of the old one.
\<close>

lemma pid_alloc_cases:
  assumes "pid_inv s"
  obtains (full) "pid_alloc s = (PID_INVALID, s)" "\<And>i. i < PID_MAX_COUNT \<Longrightarrow> bitmap_test (pa_bitmap s) i"
  | (some) r where "r < PID_MAX_COUNT" "r < pid_bits (pa_bitmap s)" "\<not> bitmap_test (pa_bitmap s) r"
      "\<And>i. i < r \<Longrightarrow> bitmap_test (pa_bitmap s) i"
      "pid_alloc s = (of_nat r + 1, s\<lparr>pa_bitmap := bitmap_set (pa_bitmap s) r,
         pa_generation := (pa_generation s)[r := next_generation (pa_generation s ! r)],
         pa_allocated_count := pa_allocated_count s + 1\<rparr>)"
proof -
  define r where "r = bitmap_find_free (pa_bitmap s) PID_MAX_COUNT"
  note spec = bitmap_find_free_spec [where b = "pa_bitmap s", folded r_def]
  show thesis
  proof (cases "r < PID_MAX_COUNT")
    case True
    then have "r < pid_bits (pa_bitmap s)"
      using assms by (simp add: pid_bits_def pid_inv_def PID_MAX_COUNT_def)
    then show thesis using True spec
      by (intro some [of r]) (auto simp: pid_alloc_def r_def [symmetric] Let_def)
  next
    case False
    then show thesis using spec
      by (intro full) (auto simp: pid_alloc_def r_def [symmetric] Let_def)
  qed
qed

lemma pid_inv_alloc:
  assumes inv: "pid_inv s"
  shows "pid_inv (snd (pid_alloc s))"
  using inv
proof (cases s rule: pid_alloc_cases)
  case (some r)
  have cnt: "count_upto (bitmap_test (bitmap_set (pa_bitmap s) r)) PID_MAX_COUNT
      = Suc (count_upto (bitmap_test (pa_bitmap s)) PID_MAX_COUNT)"
    using pidbm.count_setb some by blast
  have "unat (pa_allocated_count s + 1) = Suc (unat (pa_allocated_count s))"
    using inv count_upto_le [of "bitmap_test (pa_bitmap s)" PID_MAX_COUNT]
    by (simp add: unat_word_ariths pid_inv_def PID_MAX_COUNT_def)
  then show ?thesis using inv some cnt
    by (auto simp: pid_inv_def nth_list_update pidbm.test_setb next_generation_bounds)
qed (use inv in simp)

lemma pid_inv_free:
  assumes inv: "pid_inv s"
  shows "pid_inv (pid_free s pid)"
proof (cases "pid \<noteq> PID_INVALID \<and> unat (pid - 1) < PID_MAX_COUNT \<and> bitmap_test (pa_bitmap s) (unat (pid - 1))")
  case True
  define r where "r = unat (pid - 1)"
  have bits: "r < pid_bits (pa_bitmap s)" "r < PID_MAX_COUNT" "bitmap_test (pa_bitmap s) r"
    using True inv by (auto simp: r_def pid_bits_def pid_inv_def PID_MAX_COUNT_def)
  have cnt: "count_upto (bitmap_test (pa_bitmap s)) PID_MAX_COUNT
      = Suc (count_upto (bitmap_test (bitmap_clear (pa_bitmap s) r)) PID_MAX_COUNT)"
    using pidbm.count_clearb bits by blast
  then have "pa_allocated_count s \<noteq> 0" using inv by (auto simp: pid_inv_def)
  then have "unat (pa_allocated_count s - 1) = unat (pa_allocated_count s) - 1"
    by (rule unat_minus_one)
  then show ?thesis using inv True bits cnt
    by (auto simp: pid_free_def r_def [symmetric] Let_def pid_inv_def
        pidbm.test_clearb [OF bits(1)])
next
  case False
  then show ?thesis using inv by (auto simp: pid_free_def Let_def)
qed

lemma pid_inv_step: "pid_step s t \<Longrightarrow> pid_inv s \<Longrightarrow> pid_inv t"
  by (auto simp: pid_step_iff pid_inv_alloc pid_inv_free)

lemma pid_reachable_inv: "pid_reachable s \<Longrightarrow> pid_inv s"
  by (induction rule: pid_reachable.induct) (auto simp: pid_inv_init pid_inv_step)

section \<open>The allocator is an identifier pool\<close>

definition pid_live :: "pid_allocator_t \<Rightarrow> u32 set" where
  "pid_live s = {p. pid_validate s p}"

definition pid_alloc_opt :: "pid_allocator_t \<Rightarrow> u32 option \<times> pid_allocator_t" where
  "pid_alloc_opt s = (let (p, t) = pid_alloc s in (if p = PID_INVALID then None else Some p, t))"

lemma pid_alloc_opt_eq: "pid_alloc_opt s =
    (if fst (pid_alloc s) = PID_INVALID then None else Some (fst (pid_alloc s)), snd (pid_alloc s))"
  by (simp add: pid_alloc_opt_def split: prod.splits)

lemma snd_pid_alloc_opt [simp]: "snd (pid_alloc_opt s) = snd (pid_alloc s)"
  by (simp add: pid_alloc_opt_eq)

definition pid_of :: "nat \<Rightarrow> u32" where
  "pid_of i = of_nat i + 1"

lemma pid_of_index:
  assumes "i < PID_MAX_COUNT"
  shows "unat (pid_of i - 1) = i" "pid_of i \<noteq> PID_INVALID" "unat (pid_of i) = Suc i"
  using assms pid_index [OF assms]
  by (simp_all add: pid_of_def PID_INVALID_def PID_MAX_COUNT_def unat_word_ariths unat_of_nat)

lemma pid_of_inj: "inj_on pid_of {..<PID_MAX_COUNT}"
  by (rule inj_onI) (metis lessThan_iff pid_of_index(1))

text \<open>A non-zero PID with an index in range is \<open>pid_of\<close> its index.\<close>

lemma pid_of_unat: "p \<noteq> PID_INVALID \<Longrightarrow> pid_of (unat (p - 1)) = p"
  by (simp add: pid_of_def)

lemma pid_validate_iff:
  "pid_validate s p \<longleftrightarrow> (\<exists>i<PID_MAX_COUNT. p = pid_of i \<and> bitmap_test (pa_bitmap s) i)"
proof (cases "p = PID_INVALID")
  case True
  then show ?thesis using pid_of_index(2) by (metis pid_validate_def)
next
  case False
  then have "pid_of (unat (p - 1)) = p" by (rule pid_of_unat)
  with False show ?thesis using pid_of_index(1) by (auto simp: pid_validate_def Let_def not_le)
qed

lemma pid_validate_of: "i < PID_MAX_COUNT \<Longrightarrow> pid_validate s (pid_of i) = bitmap_test (pa_bitmap s) i"
  using pid_of_index [of i] by (simp add: pid_validate_def)

lemma pid_live_image: "pid_live s = pid_of ` {i. i < PID_MAX_COUNT \<and> bitmap_test (pa_bitmap s) i}"
  by (auto simp: pid_live_def pid_validate_iff)

lemma card_pid_live: "card (pid_live s) = count_upto (bitmap_test (pa_bitmap s)) PID_MAX_COUNT"
  unfolding pid_live_image count_upto_card
  by (rule card_image, rule inj_on_subset [OF pid_of_inj]) auto

lemma finite_pid_live: "finite (pid_live s)"
  unfolding pid_live_image by simp

lemma pid_alloc_live:
  assumes inv: "pid_inv s" and a: "pid_alloc s = (p, t)" and p0: "p \<noteq> PID_INVALID"
  shows "p \<notin> pid_live s" "pid_live t = insert p (pid_live s)"
    and "\<And>q. q \<noteq> 0 \<Longrightarrow> q < p \<Longrightarrow> q \<in> pid_live s"
proof -
  obtain r where r: "r < PID_MAX_COUNT" "\<not> bitmap_test (pa_bitmap s) r"
      "\<And>i. i < r \<Longrightarrow> bitmap_test (pa_bitmap s) i" and p: "p = pid_of r"
    and t: "\<And>i. bitmap_test (pa_bitmap t) i = (i = r \<or> bitmap_test (pa_bitmap s) i)"
    using inv
  proof (cases s rule: pid_alloc_cases)
    case full
    then show ?thesis using a p0 by simp
  next
    case (some r)
    then show ?thesis using a by (intro that [of r]) (auto simp: pid_of_def pidbm.test_setb)
  qed
  show "p \<notin> pid_live s" using r by (simp add: p pid_live_def pid_validate_of)
  show "pid_live t = insert p (pid_live s)" using r(1) by (auto simp: p t pid_live_image)
  show "q \<in> pid_live s" if q: "q \<noteq> 0" "q < p" for q
  proof -
    have "Suc (unat (q - 1)) = unat q" using q(1) by (simp add: unat_minus_one unat_gt_0)
    also have "unat q < Suc r" using q(2) r(1) by (simp add: p word_less_nat_alt pid_of_index)
    finally have i: "unat (q - 1) < r" by simp
    then have "bitmap_test (pa_bitmap s) (unat (q - 1))" using r(3) by blast
    moreover have "pid_of (unat (q - 1)) = q" using pid_of_unat q(1) by (simp add: PID_INVALID_def)
    ultimately show ?thesis
      using i r(1) pid_validate_of [of "unat (q - 1)" s] by (simp add: pid_live_def)
  qed
qed

lemma pid_free_live: "pid_inv s \<Longrightarrow> pid_live (pid_free s p) = pid_live s - {p}"
proof (cases "pid_validate s p")
  case True
  assume inv: "pid_inv s"
  from True obtain i where i: "i < PID_MAX_COUNT" "p = pid_of i" "bitmap_test (pa_bitmap s) i"
    by (auto simp: pid_validate_iff)
  have bits: "i < pid_bits (pa_bitmap s)" using inv i(1) by (simp add: pid_inv_def pid_bits_def PID_MAX_COUNT_def)
  have "bitmap_test (pa_bitmap (pid_free s p)) j = (j \<noteq> i \<and> bitmap_test (pa_bitmap s) j)" for j
    using i pid_of_index [OF i(1)] by (simp add: pid_free_def pidbm.test_clearb [OF bits])
  then show ?thesis using i by (auto simp: pid_live_image dest: inj_onD [OF pid_of_inj])
next
  case False
  then have "pid_free s p = s" by (auto simp: pid_free_def pid_validate_def Let_def)
  then show ?thesis using False by (simp add: pid_live_def)
qed

interpretation pids: id_pool pid_inv pid_live pid_alloc_opt pid_free PID_MAX_COUNT
proof unfold_locales
  show "pid_inv (snd (pid_alloc_opt s))" if "pid_inv s" for s
    using pid_inv_alloc [OF that] by (auto simp: pid_alloc_opt_def split: prod.splits)
  show "i \<notin> pid_live s \<and> pid_live t = insert i (pid_live s)"
    if "pid_inv s" "pid_alloc_opt s = (Some i, t)" for s i t
    using that pid_alloc_live [OF that(1), of i t]
    by (auto simp: pid_alloc_opt_def split: prod.splits if_splits)
  show "t = s \<and> card (pid_live s) = PID_MAX_COUNT"
    if inv: "pid_inv s" and none: "pid_alloc_opt s = (None, t)" for s t
    using inv
  proof (cases s rule: pid_alloc_cases)
    case full
    then show ?thesis using none
      by (simp add: pid_alloc_opt_def card_pid_live count_upto_full)
  next
    case (some r)
    then show ?thesis using none pid_of_index(2) [of r]
      by (auto simp: pid_alloc_opt_def pid_of_def split: if_splits)
  qed
qed (simp_all add: pid_inv_free pid_free_live finite_pid_live)

fun pid_run :: "u32 pool_op list \<Rightarrow> pid_allocator_t \<Rightarrow> pid_allocator_t" where
  "pid_run [] s = s"
| "pid_run (Alloc # ops) s = pid_run ops (snd (pid_alloc s))"
| "pid_run (Release p # ops) s = pid_run ops (pid_free s p)"

lemma pid_run_pool: "pid_run ops s = pids.run ops s"
  by (induction ops s rule: pid_run.induct) simp_all

section \<open>Lives of a PID\<close>

text \<open>What one step does to the slot of a PID.\<close>

lemma pid_life_of:
  "i < PID_MAX_COUNT \<Longrightarrow> pid_life s (pid_of i) g =
     (if g = 0 \<or> g > pa_generation s ! i then PID_LIFE_NEVER
      else if g < pa_generation s ! i then PID_LIFE_DEPARTED
      else if bitmap_test (pa_bitmap s) i then PID_LIFE_LIVE else PID_LIFE_DEPARTED)"
  using pid_of_index [of i] by (simp add: pid_life_def Let_def)

lemma pid_slot_step:
  assumes inv: "pid_inv s" and st: "pid_step s t" and i: "i < PID_MAX_COUNT"
  shows "pa_generation t ! i = pa_generation s ! i \<and>
           (bitmap_test (pa_bitmap t) i = bitmap_test (pa_bitmap s) i \<or>
            bitmap_test (pa_bitmap s) i \<and> t = pid_free s (pid_of i)) \<or>
         \<not> bitmap_test (pa_bitmap s) i \<and> bitmap_test (pa_bitmap t) i \<and>
           pa_generation t ! i = next_generation (pa_generation s ! i)"
  using st
proof (cases rule: pid_step.cases)
  case step_alloc
  from inv show ?thesis
  proof (cases s rule: pid_alloc_cases)
    case (some r)
    then show ?thesis using step_alloc inv i
      by (cases "i = r") (auto simp: pidbm.test_setb pid_inv_def)
  qed (use step_alloc in simp)
next
  case (step_free p)
  show ?thesis
  proof (cases "pid_validate s p")
    case True
    then obtain j where j: "j < PID_MAX_COUNT" "p = pid_of j" by (auto simp: pid_validate_iff)
    have bits: "j < pid_bits (pa_bitmap s)"
      using inv j(1) by (simp add: pid_inv_def pid_bits_def PID_MAX_COUNT_def)
    show ?thesis using step_free j i True pid_of_index [OF j(1)] pidbm.test_clearb [OF bits]
      by (cases "i = j") (auto simp: pid_free_def pid_validate_of [OF j(1)])
  next
    case False
    then have "t = s" using step_free by (auto simp: pid_free_def pid_validate_def Let_def)
    then show ?thesis by simp
  qed
qed

section \<open>Properties\<close>

text \<open>
  C25. In every state reachable by allocations and frees, \<^verbatim>\<open>allocated_count\<close> is the number of
  PIDs that \<open>pid_validate\<close> accepts, so it is at most 4096 and never wraps; every slot's
  generation fits in 16 bits and a live slot's generation is at least 1. PID 0 is never live and never
  issued: \<open>pid_alloc\<close> returns 0 exactly when the count is 4096, and otherwise a PID from 1 to 4096.
\<close>

theorem pid_reachable_accounting:
  assumes "pid_reachable s"
  shows "unat (pid_allocated_count s) = card {p. pid_validate s p} \<and>
         unat (pid_allocated_count s) \<le> PID_MAX_COUNT \<and>
         (\<forall>p. pid_generation s p \<le> 0xFFFF \<and> (pid_validate s p \<longrightarrow> 1 \<le> pid_generation s p)) \<and>
         \<not> pid_validate s 0 \<and> (fst (pid_alloc s) = 0 \<longleftrightarrow> unat (pid_allocated_count s) = PID_MAX_COUNT) \<and>
         unat (fst (pid_alloc s)) \<le> PID_MAX_COUNT"
proof -
  have inv: "pid_inv s" using assms by (rule pid_reachable_inv)
  have "pid_generation s p \<le> 0xFFFF \<and> (pid_validate s p \<longrightarrow> 1 \<le> pid_generation s p)" for p
    using inv by (auto simp: pid_generation_def pid_validate_def pid_inv_def Let_def)
  moreover have "\<not> pid_validate s 0" by (simp add: pid_validate_def PID_INVALID_def)
  moreover have "(fst (pid_alloc s) = 0 \<longleftrightarrow> unat (pid_allocated_count s) = PID_MAX_COUNT) \<and> unat (fst (pid_alloc s)) \<le> PID_MAX_COUNT"
  proof -
    have full: "unat (pid_allocated_count s) = PID_MAX_COUNT \<longleftrightarrow> (\<forall>i<PID_MAX_COUNT. bitmap_test (pa_bitmap s) i)"
      using inv count_upto_full [of "bitmap_test (pa_bitmap s)" PID_MAX_COUNT] by (simp add: pid_inv_def pid_allocated_count_def)
    from inv show ?thesis
    proof (cases rule: pid_alloc_cases)
      case (some r)
      have "unat (of_nat r + 1 :: u32) = r + 1" using some(1) by (simp add: unat_of_nat unat_word_ariths PID_MAX_COUNT_def)
      then show ?thesis using full some(1,3,5) by auto
    qed (use full in \<open>simp add: PID_INVALID_def\<close>)
  qed
  ultimately show ?thesis
    using inv card_pid_live [of s] count_upto_le [of "bitmap_test (pa_bitmap s)" PID_MAX_COUNT]
    by (auto simp: pid_inv_def pid_allocated_count_def pid_live_def)
qed

theorem pid_reachable_accounting_witness:
  "pid_reachable (snd (pid_alloc pid_allocator_init)) \<and>
   unat (pid_allocated_count (snd (pid_alloc pid_allocator_init)))
     = card {p. pid_validate (snd (pid_alloc pid_allocator_init)) p}"
  using pid_reachable_accounting [of "snd (pid_alloc pid_allocator_init)"]
    reach_step [OF reach_init step_alloc] by blast

text \<open>
  C26. \<open>pid_alloc\<close> returns the lowest PID that is not live, makes exactly that one live and
  changes the liveness of no other; it returns \<open>PID_INVALID\<close>, leaving the state alone, only
  when all 4096 PIDs are live.
\<close>

theorem pid_alloc_lowest_free:
  assumes "pid_reachable s"
  shows "case pid_alloc s of (p, t) \<Rightarrow>
           if p = PID_INVALID then t = s \<and> card {q. pid_validate s q} = PID_MAX_COUNT
           else \<not> pid_validate s p \<and> (\<forall>q. pid_validate t q = (q = p \<or> pid_validate s q)) \<and>
                (\<forall>q. q \<noteq> 0 \<and> q < p \<longrightarrow> pid_validate s q)"
proof -
  have inv: "pid_inv s" using assms by (rule pid_reachable_inv)
  obtain p t where a: "pid_alloc s = (p, t)" by fastforce
  show ?thesis
  proof (cases "p = PID_INVALID")
    case True
    then show ?thesis using pids.alloc_none [OF inv, of t] a by (simp add: pid_alloc_opt_def pid_live_def)
  next
    case False
    then show ?thesis using pid_alloc_live [OF inv a False] a by (auto simp: pid_live_def)
  qed
qed

theorem pid_alloc_lowest_free_witness:
  "case pid_alloc pid_allocator_init of (p, t) \<Rightarrow>
     if p = PID_INVALID then t = pid_allocator_init \<and> card {q. pid_validate pid_allocator_init q} = PID_MAX_COUNT
     else \<not> pid_validate pid_allocator_init p \<and>
          (\<forall>q. pid_validate t q = (q = p \<or> pid_validate pid_allocator_init q)) \<and>
          (\<forall>q. q \<noteq> 0 \<and> q < p \<longrightarrow> pid_validate pid_allocator_init q)"
  by (rule pid_alloc_lowest_free [OF reach_init])

text \<open>
  C17. A PID that is live is neither lost nor handed out a second time: along any sequence
  of allocations and frees that does not free it, it stays valid and \<open>pid_alloc\<close> never
  returns it.
\<close>

theorem pid_not_reissued:
  assumes "pid_reachable s" "pid_validate s p" "Release p \<notin> set ops"
  shows "pid_validate (pid_run ops s) p \<and> fst (pid_alloc (pid_run ops s)) \<noteq> p"
proof -
  have inv: "pid_inv s" and p: "p \<in> pid_live s"
    using assms pid_reachable_inv by (auto simp: pid_live_def)
  note l = pids.live_until_release [OF inv p assms(3), folded pid_run_pool]
  have "p \<noteq> PID_INVALID" using assms(2) by (auto simp: pid_validate_def)
  then have "fst (pid_alloc (pid_run ops s)) \<noteq> p"
    using l(2) [of "snd (pid_alloc (pid_run ops s))"] by (auto simp: pid_alloc_opt_eq)
  then show ?thesis using l(1) by (simp add: pid_live_def)
qed

lemma pid_alloc_init: "pid_alloc pid_allocator_init =
    (1, pid_allocator_init\<lparr>pa_bitmap := bitmap_set (replicate 64 0) 0,
       pa_generation := (replicate PID_MAX_COUNT 0)[0 := 1], pa_allocated_count := 1\<rparr>)"
proof -
  have "ctz (NOT 0 :: u64) = 0" by (simp add: ctz_def upt_conv_Cons)
  moreover have "(NOT 0 :: u64) \<noteq> 0" by simp
  ultimately have "bitmap_find_free (pa_bitmap pid_allocator_init) PID_MAX_COUNT = 0"
    by (simp add: bitmap_find_free_def pid_allocator_init_def PID_MAX_COUNT_def
        bitmap_find_free_from.simps [of _ _ _ 0] del: bit.compl_zero)
  then show ?thesis
    by (simp add: pid_alloc_def pid_allocator_init_def PID_MAX_COUNT_def next_generation_def)
qed

lemma pid_first_valid: "pid_validate (snd (pid_alloc pid_allocator_init)) 1"
proof -
  have "bitmap_test (bitmap_set (replicate 64 0) 0) 0"
    by (simp add: pidbm.test_setb pid_bits_def)
  then show ?thesis by (simp add: pid_alloc_init pid_validate_def PID_INVALID_def PID_MAX_COUNT_def)
qed

theorem pid_not_reissued_witness:
  "let s = snd (pid_alloc pid_allocator_init) in
   pid_validate s 1 \<and> pid_validate (pid_run [Alloc, Release 2, Alloc] s) 1 \<and>
   fst (pid_alloc (pid_run [Alloc, Release 2, Alloc] s)) \<noteq> 1"
  using pid_not_reissued [OF reach_step [OF reach_init step_alloc] pid_first_valid,
      of "[Alloc, Release 2, Alloc]"] pid_first_valid
  by (simp add: Let_def)

text \<open>
  Lives of a process identity, as \<open>pid_life\<close> reports them. While a slot's generation has
  not reached its 16-bit limit, one allocator step keeps a departed identity departed, and
  a live identity stays live unless the step is the free of that very PID, which makes it
  departed.
\<close>

theorem pid_life_transitions:
  assumes "pid_reachable s" "pid_step s t" "pid_generation s p < 0xFFFF"
  shows "(pid_life s p g = PID_LIFE_DEPARTED \<longrightarrow> pid_life t p g = PID_LIFE_DEPARTED) \<and>
         (pid_life s p g = PID_LIFE_LIVE \<longrightarrow>
            pid_life t p g = PID_LIFE_LIVE \<or>
            pid_life t p g = PID_LIFE_DEPARTED \<and> t = pid_free s p)"
proof (cases "p = PID_INVALID \<or> unat (p - 1) \<ge> PID_MAX_COUNT")
  case True
  then show ?thesis by (auto simp: pid_life_def Let_def)
next
  case False
  define i where "i = unat (p - 1)"
  have i: "i < PID_MAX_COUNT" and p: "p = pid_of i" using False pid_of_unat [of p] by (auto simp: i_def)
  have inv: "pid_inv s" using assms(1) by (rule pid_reachable_inv)
  have lim: "pa_generation s ! i < 0xFFFF" using assms(3) False by (simp add: pid_generation_def i_def)
  note less = next_generation_less [OF lim]
  show ?thesis using pid_slot_step [OF inv assms(2) i]
  proof
    assume "\<not> bitmap_test (pa_bitmap s) i \<and> bitmap_test (pa_bitmap t) i \<and>
      pa_generation t ! i = next_generation (pa_generation s ! i)"
    then show ?thesis using less by (auto simp: p pid_life_of [OF i] split: if_splits)
  qed (auto simp: p pid_life_of [OF i] split: if_splits)
qed

theorem pid_life_transitions_witness:
  "let s = snd (pid_alloc pid_allocator_init) in
   pid_life s 1 1 = PID_LIFE_LIVE \<and>
   (pid_life (pid_free s 1) 1 1 = PID_LIFE_LIVE \<or>
    pid_life (pid_free s 1) 1 1 = PID_LIFE_DEPARTED \<and> pid_free s 1 = pid_free s 1)"
proof -
  let ?s = "snd (pid_alloc pid_allocator_init)"
  have g: "pid_generation ?s 1 = 1"
    by (simp add: pid_alloc_init pid_generation_def PID_INVALID_def PID_MAX_COUNT_def)
  have "pid_life ?s 1 1 = PID_LIFE_LIVE"
    using pid_first_valid g
    by (simp add: pid_life_def pid_validate_def pid_generation_def PID_INVALID_def Let_def split: if_splits)
  then show ?thesis
    using pid_life_transitions [OF reach_step [OF reach_init step_alloc] step_free, of 1 1 1] g
    by (simp add: Let_def)
qed

end
