(* ===== verification/Crypto.thy ===== *)
theory Crypto
  imports Prelude
begin

unbundle bit_operations_syntax

text \<open>
  The kernel's checksum and hash library, lib/kernel/crypto.c: CRC-32 and CRC-16, SHA-256 with its
  streaming interface, the additive checksums, FNV-1a and the Murmur3 finaliser. Loops over
  a byte buffer are folds; the eight working variables of SHA-256 are an eight-tuple.
\<close>

section \<open>Cyclic redundancy checks\<close>

definition crc32_bit :: "u32 \<Rightarrow> u32" where
  "crc32_bit crc = drop_bit 1 crc XOR (0xEDB88320 AND (- (crc AND 1)))"

definition crc32_byte :: "u32 \<Rightarrow> u8 \<Rightarrow> u32" where
  "crc32_byte crc b = (crc32_bit ^^ 8) (crc XOR ucast b)"

definition KCrc32 :: "bytes \<Rightarrow> u32" where
  "KCrc32 data = NOT (foldl crc32_byte 0xFFFFFFFF data)"

definition crc16_bit :: "u16 \<Rightarrow> u16" where
  "crc16_bit crc = (if crc AND 0x8000 \<noteq> 0 then push_bit 1 crc XOR 0x1021 else push_bit 1 crc)"

definition crc16_byte :: "u16 \<Rightarrow> u8 \<Rightarrow> u16" where
  "crc16_byte crc b = (crc16_bit ^^ 8) (crc XOR push_bit 8 (ucast b))"

definition KCrc16 :: "bytes \<Rightarrow> u16" where
  "KCrc16 data = foldl crc16_byte 0xFFFF data"

section \<open>SHA-256\<close>

definition K_SHA256_K :: "u32 list" where
  "K_SHA256_K = concat
     [[0x428a2f98, 0x71374491, 0xb5c0fbcf, 0xe9b5dba5],
      [0x3956c25b, 0x59f111f1, 0x923f82a4, 0xab1c5ed5],
      [0xd807aa98, 0x12835b01, 0x243185be, 0x550c7dc3],
      [0x72be5d74, 0x80deb1fe, 0x9bdc06a7, 0xc19bf174],
      [0xe49b69c1, 0xefbe4786, 0x0fc19dc6, 0x240ca1cc],
      [0x2de92c6f, 0x4a7484aa, 0x5cb0a9dc, 0x76f988da],
      [0x983e5152, 0xa831c66d, 0xb00327c8, 0xbf597fc7],
      [0xc6e00bf3, 0xd5a79147, 0x06ca6351, 0x14292967],
      [0x27b70a85, 0x2e1b2138, 0x4d2c6dfc, 0x53380d13],
      [0x650a7354, 0x766a0abb, 0x81c2c92e, 0x92722c85],
      [0xa2bfe8a1, 0xa81a664b, 0xc24b8b70, 0xc76c51a3],
      [0xd192e819, 0xd6990624, 0xf40e3585, 0x106aa070],
      [0x19a4c116, 0x1e376c08, 0x2748774c, 0x34b0bcb5],
      [0x391c0cb3, 0x4ed8aa4a, 0x5b9cca4f, 0x682e6ff3],
      [0x748f82ee, 0x78a5636f, 0x84c87814, 0x8cc70208],
      [0x90befffa, 0xa4506ceb, 0xbef9a3f7, 0xc67178f2]]"

definition K_ROTR :: "u32 \<Rightarrow> nat \<Rightarrow> u32" where
  "K_ROTR x n = drop_bit n x OR push_bit (32 - n) x"

definition K_CH :: "u32 \<Rightarrow> u32 \<Rightarrow> u32 \<Rightarrow> u32" where
  "K_CH x y z = (x AND y) XOR (NOT x AND z)"

definition K_MAJ :: "u32 \<Rightarrow> u32 \<Rightarrow> u32 \<Rightarrow> u32" where
  "K_MAJ x y z = (x AND y) XOR (x AND z) XOR (y AND z)"

definition K_SIGMA0 :: "u32 \<Rightarrow> u32" where
  "K_SIGMA0 x = K_ROTR x 2 XOR K_ROTR x 13 XOR K_ROTR x 22"

definition K_SIGMA1 :: "u32 \<Rightarrow> u32" where
  "K_SIGMA1 x = K_ROTR x 6 XOR K_ROTR x 11 XOR K_ROTR x 25"

definition K_SIGMA2 :: "u32 \<Rightarrow> u32" where
  "K_SIGMA2 x = K_ROTR x 7 XOR K_ROTR x 18 XOR drop_bit 3 x"

definition K_SIGMA3 :: "u32 \<Rightarrow> u32" where
  "K_SIGMA3 x = K_ROTR x 17 XOR K_ROTR x 19 XOR drop_bit 10 x"

text \<open>The message schedule: sixteen big-endian words of the block, extended to 64.\<close>

definition sha_load :: "bytes \<Rightarrow> nat \<Rightarrow> u32" where
  "sha_load block i =
     push_bit 24 (ucast (block ! (i * 4))) OR push_bit 16 (ucast (block ! (i * 4 + 1))) OR
     push_bit 8 (ucast (block ! (i * 4 + 2))) OR ucast (block ! (i * 4 + 3))"

definition sha_extend :: "u32 list \<Rightarrow> nat \<Rightarrow> u32 list" where
  "sha_extend w i = w @ [K_SIGMA3 (w ! (i - 2)) + w ! (i - 7) + K_SIGMA2 (w ! (i - 15)) + w ! (i - 16)]"

definition sha_schedule :: "bytes \<Rightarrow> u32 list" where
  "sha_schedule block = foldl sha_extend (map (sha_load block) [0..<16]) [16..<64]"

type_synonym sha_vars = "u32 \<times> u32 \<times> u32 \<times> u32 \<times> u32 \<times> u32 \<times> u32 \<times> u32"

fun sha_round :: "u32 list \<Rightarrow> sha_vars \<Rightarrow> nat \<Rightarrow> sha_vars" where
  "sha_round w (a, b, c, d, e, f, g, h) i =
     (let t1 = h + K_SIGMA1 e + K_CH e f g + K_SHA256_K ! i + w ! i;
          t2 = K_SIGMA0 a + K_MAJ a b c
      in (t1 + t2, a, b, c, d + t1, e, f, g))"

fun sha_add :: "sha_vars \<Rightarrow> sha_vars \<Rightarrow> sha_vars" where
  "sha_add (a, b, c, d, e, f, g, h) (a', b', c', d', e', f', g', h') =
     (a + a', b + b', c + c', d + d', e + e', f + f', g + g', h + h')"

definition KSha256Transform :: "sha_vars \<Rightarrow> bytes \<Rightarrow> sha_vars" where
  "KSha256Transform state block =
     sha_add state (foldl (sha_round (sha_schedule block)) state [0..<64])"

text \<open>
  The streaming context. \<open>ks_buffer\<close> holds the bytes waiting for a full block, the first
  \<^verbatim>\<open>buffer_len\<close> of the C array.
\<close>

record KSha256Ctx =
  ks_state :: sha_vars
  ks_total_bits :: u64
  ks_buffer :: bytes

definition sha_iv :: sha_vars where
  "sha_iv = (0x6a09e667, 0xbb67ae85, 0x3c6ef372, 0xa54ff53a,
             0x510e527f, 0x9b05688c, 0x1f83d9ab, 0x5be0cd19)"

definition KSha256Init :: KSha256Ctx where
  "KSha256Init = \<lparr>ks_state = sha_iv, ks_total_bits = 0, ks_buffer = []\<rparr>"

text \<open>\<^verbatim>\<open>while (len >= 64)\<close>: absorb whole blocks; what is left is shorter than a block.\<close>

function absorb :: "('s \<Rightarrow> bytes \<Rightarrow> 's) \<Rightarrow> 's \<Rightarrow> bytes \<Rightarrow> 's \<times> bytes" where
  "absorb step state data =
     (if length data \<ge> 64 then absorb step (step state (take 64 data)) (drop 64 data) else (state, data))"
  by pat_completeness auto
termination
  by (relation "measure (\<lambda>(step, state, data). length data)") auto

declare absorb.simps [simp del]

definition KSha256Update :: "KSha256Ctx \<Rightarrow> bytes \<Rightarrow> KSha256Ctx" where
  "KSha256Update ctx data =
     (let bits = ks_total_bits ctx + of_nat (length data) * 8;
          want = (if ks_buffer ctx \<noteq> [] then min (64 - length (ks_buffer ctx)) (length data) else 0);
          buffer = ks_buffer ctx @ take want data;
          (state1, buffer1) =
             (if ks_buffer ctx \<noteq> [] \<and> length buffer = 64
              then (KSha256Transform (ks_state ctx) buffer, []) else (ks_state ctx, buffer));
          (state2, rest) = absorb KSha256Transform state1 (drop want data)
      in \<lparr>ks_state = state2, ks_total_bits = bits,
          ks_buffer = (if rest \<noteq> [] then rest else buffer1)\<rparr>)"

definition be64 :: "u64 \<Rightarrow> bytes" where
  "be64 n = map (\<lambda>i. ucast (drop_bit (56 - i * 8) n AND 0xFF)) [0..<8]"

definition be32 :: "u32 \<Rightarrow> bytes" where
  "be32 n = map (\<lambda>i. ucast (drop_bit (24 - i * 8) n AND 0xFF)) [0..<4]"

fun sha_digest :: "sha_vars \<Rightarrow> bytes" where
  "sha_digest (a, b, c, d, e, f, g, h) = concat (map be32 [a, b, c, d, e, f, g, h])"

definition sha_finish :: "KSha256Ctx \<Rightarrow> bytes" where
  "sha_finish ctx =
     (let tail = ks_buffer ctx @ [0x80];
          (state, tail1) =
             (if length tail > 56
              then (KSha256Transform (ks_state ctx) (tail @ replicate (64 - length tail) 0), [])
              else (ks_state ctx, tail));
          tail2 = tail1 @ replicate (56 - length tail1) 0 @ be64 (ks_total_bits ctx)
      in sha_digest (KSha256Transform state tail2))"

text \<open>The digest is written out and the context is wiped.\<close>

definition KSha256Final :: "KSha256Ctx \<Rightarrow> KSha256Ctx \<times> bytes" where
  "KSha256Final ctx =
     (\<lparr>ks_state = (0, 0, 0, 0, 0, 0, 0, 0), ks_total_bits = 0, ks_buffer = []\<rparr>, sha_finish ctx)"

definition KSha256 :: "bytes \<Rightarrow> bytes" where
  "KSha256 data = snd (KSha256Final (KSha256Update KSha256Init data))"

section \<open>Checksums and small hashes\<close>

definition KChecksum8 :: "bytes \<Rightarrow> u8" where
  "KChecksum8 data = foldl (\<lambda>s b. s + b) 0 data"

definition KChecksum16 :: "bytes \<Rightarrow> u16" where
  "KChecksum16 data = foldl (\<lambda>s b. s + ucast b) 0 data"

definition KChecksum32 :: "bytes \<Rightarrow> u32" where
  "KChecksum32 data = foldl (\<lambda>s b. s + ucast b) 0 data"

definition KFnv1a :: "bytes \<Rightarrow> u32" where
  "KFnv1a data = foldl (\<lambda>h b. (h XOR ucast b) * 16777619) 2166136261 data"

definition KMurmur3Finalize :: "u32 \<Rightarrow> u32" where
  "KMurmur3Finalize h =
     (let h1 = h XOR drop_bit 16 h;
          h2 = h1 * 0x85ebca6b;
          h3 = h2 XOR drop_bit 13 h2;
          h4 = h3 * 0xc2b2ae35
      in h4 XOR drop_bit 16 h4)"

section \<open>The streaming interface computes the padded hash\<close>

text \<open>
  The reference: pad the whole message (one 1 bit, zeros, the bit length in 64 bits) to a
  multiple of the block size and run the compression function over its blocks.
\<close>

definition sha_pad :: "bytes \<Rightarrow> bytes" where
  "sha_pad msg = msg @ [0x80] @ replicate ((119 - length msg mod 64) mod 64) 0
                   @ be64 (of_nat (length msg) * 8)"

definition sha256_reference :: "bytes \<Rightarrow> bytes" where
  "sha256_reference msg = sha_digest (fst (absorb KSha256Transform sha_iv (sha_pad msg)))"

lemma absorb_short: "length data < 64 \<Longrightarrow> absorb step state data = (state, data)"
  by (simp add: absorb.simps [of step state data])

lemma absorb_block:
  "length block = 64 \<Longrightarrow> absorb step state (block @ data) = absorb step (step state block) data"
  by (simp add: absorb.simps [of step state "block @ data"])

lemma absorb_rest_length: "length (snd (absorb step state data)) = length data mod 64"
proof (induction step state data rule: absorb.induct)
  case (1 step state data)
  then show ?case
    using absorb.simps [of step state data] by (auto simp: le_mod_geq)
qed

lemma absorb_append:
  "absorb step state (xs @ ys) = absorb step (fst (absorb step state xs)) (snd (absorb step state xs) @ ys)"
proof (induction step state xs rule: absorb.induct)
  case (1 step state xs)
  show ?case
  proof (cases "length xs \<ge> 64")
    case True
    then show ?thesis
      using 1 absorb.simps [of step state xs] absorb.simps [of step state "xs @ ys"] by simp
  qed (simp add: absorb_short)
qed

text \<open>\<open>sha_holds ctx msg\<close>: the context is what is left after feeding it \<open>msg\<close>.\<close>

definition sha_holds :: "KSha256Ctx \<Rightarrow> bytes \<Rightarrow> bool" where
  "sha_holds ctx msg \<longleftrightarrow>
     (ks_state ctx, ks_buffer ctx) = absorb KSha256Transform sha_iv msg \<and>
     ks_total_bits ctx = of_nat (length msg) * 8"

lemma sha_holds_init: "sha_holds KSha256Init []"
  by (simp add: sha_holds_def KSha256Init_def absorb_short)

lemma KSha256Update_absorb:
  assumes "length (ks_buffer ctx) < 64"
  shows "(ks_state (KSha256Update ctx data), ks_buffer (KSha256Update ctx data))
           = absorb KSha256Transform (ks_state ctx) (ks_buffer ctx @ data)"
proof (cases "ks_buffer ctx = []")
  case True
  then show ?thesis by (simp add: KSha256Update_def split: prod.splits)
next
  case ne: False
  define b where "b = ks_buffer ctx"
  show ?thesis
  proof (cases "length b + length data \<ge> 64")
    case True
    define n where "n = 64 - length b"
    have n: "min (64 - length b) (length data) = n" "length (b @ take n data) = 64"
      using True assms by (auto simp: n_def b_def)
    have "absorb KSha256Transform (ks_state ctx) (b @ data)
        = absorb KSha256Transform (KSha256Transform (ks_state ctx) (b @ take n data)) (drop n data)"
      using absorb_block [OF n(2), of KSha256Transform "ks_state ctx" "drop n data"] by simp
    then show ?thesis using ne n by (simp add: KSha256Update_def b_def Let_def split: prod.splits)
  next
    case False
    then show ?thesis using ne by (simp add: KSha256Update_def b_def Let_def absorb_short)
  qed
qed

lemma KSha256Update_bits:
  "ks_total_bits (KSha256Update ctx data) = ks_total_bits ctx + of_nat (length data) * 8"
  by (simp add: KSha256Update_def Let_def split: prod.splits)

lemma sha_holds_update:
  assumes "sha_holds ctx msg"
  shows "sha_holds (KSha256Update ctx data) (msg @ data)"
proof -
  have ab: "absorb KSha256Transform sha_iv msg = (ks_state ctx, ks_buffer ctx)"
    and bits: "ks_total_bits ctx = of_nat (length msg) * 8"
    using assms by (simp_all add: sha_holds_def)
  have "length (ks_buffer ctx) < 64"
    using absorb_rest_length [of KSha256Transform sha_iv msg] unfolding ab by simp
  from KSha256Update_absorb [OF this, of data] show ?thesis
    unfolding sha_holds_def KSha256Update_bits bits absorb_append [of _ _ msg] ab
    by (simp add: distrib_right)
qed

lemma sha_holds_final:
  assumes "sha_holds ctx msg"
  shows "sha_finish ctx = sha256_reference msg"
proof -
  let ?T = KSha256Transform and ?b = "ks_buffer ctx" and ?n = "length msg mod 64"
  have ab: "absorb ?T sha_iv msg = (ks_state ctx, ?b)" and len: "length ?b = ?n"
    using assms absorb_rest_length [of ?T sha_iv msg] by (simp_all add: sha_holds_def) (metis snd_conv)
  have be: "length (be64 x) = 8" for x by (simp add: be64_def)
  have n: "?n < 64" by simp
  have ref: "absorb ?T sha_iv (sha_pad msg) = absorb ?T (ks_state ctx)
      (?b @ [0x80] @ replicate ((119 - ?n) mod 64) 0 @ be64 (ks_total_bits ctx))"
    using assms by (simp only: sha_pad_def absorb_append [of _ _ msg] ab fst_conv snd_conv)
      (simp add: sha_holds_def)
  show ?thesis
  proof (cases "?n \<ge> 56")
    case True
    then have k: "(119 - ?n) mod 64 = (63 - ?n) + 56" using n by (simp add: mod_less)
    let ?blk = "?b @ [0x80] @ replicate (63 - ?n) 0"
    have "?b @ [0x80] @ replicate ((119 - ?n) mod 64) 0 @ be64 (ks_total_bits ctx)
        = ?blk @ (replicate 56 0 @ be64 (ks_total_bits ctx)) @ []"
      by (simp only: k replicate_add append_assoc append_Nil2)
    moreover have "length ?blk = 64" "length (replicate 56 0 @ be64 (ks_total_bits ctx)) = 64"
      using n len be by auto
    ultimately have "absorb ?T sha_iv (sha_pad msg)
        = (?T (?T (ks_state ctx) ?blk) (replicate 56 0 @ be64 (ks_total_bits ctx)), [])"
      by (simp only: ref absorb_block) (simp add: absorb_short)
    then show ?thesis using True len
      by (simp add: sha256_reference_def sha_finish_def Let_def)
  next
    case False
    then have k: "(119 - ?n) mod 64 = 55 - ?n" using n by (simp add: le_mod_geq)
    let ?blk = "?b @ [0x80] @ replicate (55 - ?n) 0 @ be64 (ks_total_bits ctx)"
    have "length ?blk = 64" using False len be by auto
    then have "absorb ?T sha_iv (sha_pad msg) = (?T (ks_state ctx) ?blk, [])"
      using absorb_block [of ?blk ?T "ks_state ctx" "[]"] by (simp add: ref k absorb_short)
    then show ?thesis using False len
      by (simp add: sha256_reference_def sha_finish_def Let_def)
  qed
qed

lemma sha_stream: "sha_holds (foldl KSha256Update ctx chunks) (msg @ concat chunks)" if "sha_holds ctx msg"
  using that by (induction chunks arbitrary: ctx msg) (auto dest: sha_holds_update simp flip: append_assoc)

section \<open>What the CRC detects\<close>

text \<open>One shift step loses nothing: the generator's top bit records the bit shifted out.\<close>

lemma xor_cancel:
  fixes x y z :: "'a::len word"
  shows "x XOR z = y XOR z \<longleftrightarrow> x = y" and "z XOR x = z XOR y \<longleftrightarrow> x = y"
  by (metis xor.assoc xor.right_neutral word_bw_same(3))+

lemma crc32_bit_cases:
  "crc32_bit x = (if bit x 0 then drop_bit 1 x XOR 0xEDB88320 else drop_bit 1 x)"
proof -
  have "x AND 1 = (if bit x 0 then 1 else 0)"
    by (simp only: and_one_eq bit_0 mod2_eq_if if_not_P not_not split: if_splits) simp
  then show ?thesis by (simp add: crc32_bit_def)
qed

lemma crc32_bit_top: "bit (crc32_bit x) 31 = bit x 0"
proof -
  have "bit (0xEDB88320 :: u32) 31" by (simp add: bit_numeral_rec)
  moreover have "\<not> bit (drop_bit 1 x) 31" using bit_imp_le_length [of x 32] by (auto simp: bit_drop_bit_eq)
  ultimately show ?thesis by (simp add: crc32_bit_cases bit_xor_iff)
qed

lemma crc32_bit_inj: "inj crc32_bit"
proof (rule injI)
  fix x y :: u32
  assume eq: "crc32_bit x = crc32_bit y"
  then have b0: "bit x 0 = bit y 0" using crc32_bit_top by metis
  with eq have "drop_bit 1 x XOR g = drop_bit 1 y XOR g \<or> drop_bit 1 x = drop_bit 1 y" if "g = 0xEDB88320" for g
    using that unfolding crc32_bit_cases by (cases "bit x 0") simp_all
  then have d: "drop_bit 1 x = drop_bit 1 y" using xor_cancel by blast
  show "x = y"
  proof (rule bit_word_eqI)
    fix n assume "n < LENGTH(32)"
    show "bit x n = bit y n"
      using b0 d by (cases n) (simp, metis bit_drop_bit_eq comp_apply plus_1_eq_Suc)
  qed
qed

lemma crc32_byte_inj:
  shows crc32_byte_state: "crc32_byte c b = crc32_byte c' b \<longleftrightarrow> c = c'"
    and crc32_byte_data: "crc32_byte c b = crc32_byte c b' \<longleftrightarrow> b = b'"
proof -
  have i: "inj (crc32_bit ^^ 8)" using crc32_bit_inj by (rule inj_fn)
  show "crc32_byte c b = crc32_byte c' b \<longleftrightarrow> c = c'"
    by (simp add: crc32_byte_def inj_eq [OF i] xor_cancel)
  have "ucast (ucast a :: u32) = a" for a :: u8 by (simp add: ucast_up_ucast_id is_up)
  then have "ucast b = (ucast b' :: u32) \<longleftrightarrow> b = b'" by metis
  then show "crc32_byte c b = crc32_byte c b' \<longleftrightarrow> b = b'"
    by (simp add: crc32_byte_def inj_eq [OF i] xor_cancel)
qed

lemma crc32_fold_inj: "foldl crc32_byte c data = foldl crc32_byte c' data \<longleftrightarrow> c = c'"
  by (induction data arbitrary: c c') (simp_all add: crc32_byte_state)

lemma KCrc32_byte_iff: "KCrc32 (pre @ [a] @ post) = KCrc32 (pre @ [b] @ post) \<longleftrightarrow> a = b"
  by (simp add: KCrc32_def crc32_fold_inj crc32_byte_data)

lemma KCrc32_update_neq: "i < length xs \<Longrightarrow> b \<noteq> xs ! i \<Longrightarrow> KCrc32 (xs[i := b]) \<noteq> KCrc32 xs"
  using KCrc32_byte_iff [of "take i xs" b "drop (Suc i) xs" "xs ! i"]
  by (simp add: upd_conv_take_nth_drop id_take_nth_drop [symmetric])

section \<open>Properties\<close>

text \<open>
  C16. SHA-256 in pieces: however a message is cut into chunks, feeding the chunks to
  \<^verbatim>\<open>KSha256Update\<close> one by one and finishing gives the hash of the whole message as the
  standard defines it (pad the message, run the compression function over its 64-byte blocks).
\<close>

theorem sha256_streaming:
  "snd (KSha256Final (foldl KSha256Update KSha256Init chunks)) = sha256_reference (concat chunks)"
  using sha_holds_final [OF sha_stream [OF sha_holds_init, of chunks]] by (simp add: KSha256Final_def)

text \<open>
  CRC-32 error detection: two buffers of the same length that differ in exactly one byte
  never have the same checksum, wherever the byte is and however it changed.
\<close>

theorem crc32_detects_byte:
  "KCrc32 (pre @ [a] @ post) = KCrc32 (pre @ [b] @ post) \<longleftrightarrow> a = b"
  by (rule KCrc32_byte_iff)

end
