(* ===== verification/Fips180.thy ===== *)
theory Fips180
  imports Crypto Complex_Main
begin

unbundle bit_operations_syntax

text \<open>
  SHA-256 as the standard (FIPS 180-4) describes it, written without the functions of the kernel: the
  constants from the roots of the first primes, rotation as rotation, the message schedule and the working
  variables by recursion on the round, padding to 448 modulo 512 bits. The compression function and the
  constants of kernel/lib/crypto.c are shown to be those of the standard.
\<close>

section \<open>The standard\<close>

definition fips_primes :: "int list" where
  "fips_primes = [2, 3, 5, 7, 11, 13, 17, 19, 23, 29, 31, 37, 41, 43, 47, 53, 59, 61, 67, 71, 73, 79, 83, 89, 97, 101, 103, 107, 109,
     113, 127, 131, 137, 139, 149, 151, 157, 163, 167, 173, 179, 181, 191, 193, 197, 199, 211, 223, 227, 229, 233, 239, 241, 251,
     257, 263, 269, 271, 277, 281, 283, 293, 307, 311]"

text \<open>The constants are the first 32 bits of the fractional parts of the cube and square roots.\<close>

definition root_bits :: "nat \<Rightarrow> int \<Rightarrow> u32" where
  "root_bits k p = word_of_int \<lfloor>root k (real_of_int p) * 2 ^ 32\<rfloor>"

definition fips_K :: "u32 list" where
  "fips_K = map (root_bits 3) fips_primes"

definition fips_IV :: "u32 list" where
  "fips_IV = map (root_bits 2) (take 8 fips_primes)"

definition fips_Sum :: "nat \<Rightarrow> nat \<Rightarrow> nat \<Rightarrow> u32 \<Rightarrow> u32" where
  "fips_Sum i j k x = word_rotr i x XOR word_rotr j x XOR word_rotr k x"

definition fips_sigma :: "nat \<Rightarrow> nat \<Rightarrow> nat \<Rightarrow> u32 \<Rightarrow> u32" where
  "fips_sigma i j k x = word_rotr i x XOR word_rotr j x XOR drop_bit k x"

text \<open>A big-endian number of \<open>n\<close> bytes, and the words of a block.\<close>

definition big_endian :: "nat \<Rightarrow> nat \<Rightarrow> bytes" where
  "big_endian n x = map (\<lambda>i. word_of_nat (x div 256 ^ (n - 1 - i))) [0..<n]"

definition fips_word :: "bytes \<Rightarrow> nat \<Rightarrow> u32" where
  "fips_word block t = foldl (\<lambda>w b. w * 256 + ucast b) 0 (take 4 (drop (4 * t) block))"

fun fips_W :: "bytes \<Rightarrow> nat \<Rightarrow> u32" where
  "fips_W block t =
     (if t < 16 then fips_word block t
      else fips_sigma 17 19 10 (fips_W block (t - 2)) + fips_W block (t - 7) + fips_sigma 7 18 3 (fips_W block (t - 15)) + fips_W block (t - 16))"

declare fips_W.simps [simp del]

primrec fips_vars :: "bytes \<Rightarrow> sha_vars \<Rightarrow> nat \<Rightarrow> sha_vars" where
  "fips_vars block H 0 = H"
| "fips_vars block H (Suc t) =
     (case fips_vars block H t of (a, b, c, d, e, f, g, h) \<Rightarrow>
        let T1 = h + fips_Sum 6 11 25 e + ((e AND f) XOR (NOT e AND g)) + fips_K ! t + fips_W block t;
            T2 = fips_Sum 2 13 22 a + ((a AND b) XOR (a AND c) XOR (b AND c))
        in (T1 + T2, a, b, c, d + T1, e, f, g))"

definition fips_step :: "sha_vars \<Rightarrow> bytes \<Rightarrow> sha_vars" where
  "fips_step H block =
     (case (H, fips_vars block H 64) of ((a, b, c, d, e, f, g, h), (a', b', c', d', e', f', g', h')) \<Rightarrow>
        (a' + a, b' + b, c' + c, d' + d, e' + e, f' + f, g' + g, h' + h))"

text \<open>Padding: a one bit, the fewest zero bits that lead to 448 modulo 512 bits (56 modulo 64 bytes), and the length in bits.\<close>

definition fips_pad :: "bytes \<Rightarrow> bytes" where
  "fips_pad msg = msg @ [0x80] @ replicate (nat ((55 - int (length msg)) mod 64)) 0 @ big_endian 8 (8 * length msg)"

function fips_blocks :: "bytes \<Rightarrow> bytes list" where
  "fips_blocks xs = (if xs = [] then [] else take 64 xs # fips_blocks (drop 64 xs))"
  by pat_completeness auto
termination
  by (relation "measure length") auto

declare fips_blocks.simps [simp del]

definition fips_sha256 :: "bytes \<Rightarrow> bytes" where
  "fips_sha256 msg =
     (case foldl fips_step (fips_IV ! 0, fips_IV ! 1, fips_IV ! 2, fips_IV ! 3, fips_IV ! 4, fips_IV ! 5, fips_IV ! 6, fips_IV ! 7)
         (fips_blocks (fips_pad msg)) of
        (a, b, c, d, e, f, g, h) \<Rightarrow> concat (map (\<lambda>w. big_endian 4 (unat w)) [a, b, c, d, e, f, g, h]))"

section \<open>The kernel's SHA-256 is the standard's\<close>

text \<open>The tables of the kernel hold the digits of the roots.\<close>

lemma root_floor:
  assumes "0 < k" "0 \<le> m" "m ^ k \<le> p * (2 ^ 32) ^ k" "p * (2 ^ 32) ^ k < (m + 1) ^ k"
  shows "\<lfloor>root k (real_of_int p) * 2 ^ 32\<rfloor> = m"
proof -
  let ?r = "root k (real_of_int p) * 2 ^ 32"
  have "?r = root k (real_of_int (p * (2 ^ 32) ^ k))"
    using assms(1) by (simp add: real_root_mult real_root_power_cancel)
  then have r: "?r = root k (real_of_int (p * (2 ^ 32) ^ k))" .
  have "real_of_int m = root k (real_of_int (m ^ k))" using assms(1,2) by (simp add: real_root_power_cancel)
  also have "\<dots> \<le> ?r" unfolding r using assms(1,3) by (intro real_root_le_mono) linarith+
  finally have lo: "real_of_int m \<le> ?r" .
  have "?r < root k (real_of_int ((m + 1) ^ k))" unfolding r using assms(1,4) by (intro real_root_less_mono) linarith+
  also have "\<dots> = real_of_int m + 1" using assms(1,2) by (simp add: real_root_power_cancel)
  finally show ?thesis using lo by (intro floor_unique) simp_all
qed

lemma root_table:
  assumes "0 < k" "list_all2 (\<lambda>p m. 0 \<le> m \<and> m ^ k \<le> p * (2 ^ 32) ^ k \<and> p * (2 ^ 32) ^ k < (m + 1) ^ k) ps ms"
  shows "map (root_bits k) ps = map word_of_int ms"
  using assms(2)
proof (induction rule: list_all2_induct)
  case (Cons p ps m ms)
  then show ?case using root_floor [OF assms(1), of m p] by (simp only: root_bits_def list.map)
qed simp

lemma sha_constants: "fips_K = K_SHA256_K"
proof -
  have "map (root_bits 3) fips_primes = map word_of_int
     [0x1428a2f98, 0x171374491, 0x1b5c0fbcf, 0x1e9b5dba5, 0x23956c25b, 0x259f111f1, 0x2923f82a4, 0x2ab1c5ed5,
      0x2d807aa98, 0x312835b01, 0x3243185be, 0x3550c7dc3, 0x372be5d74, 0x380deb1fe, 0x39bdc06a7, 0x3c19bf174,
      0x3e49b69c1, 0x3efbe4786, 0x40fc19dc6, 0x4240ca1cc, 0x42de92c6f, 0x44a7484aa, 0x45cb0a9dc, 0x476f988da,
      0x4983e5152, 0x4a831c66d, 0x4b00327c8, 0x4bf597fc7, 0x4c6e00bf3, 0x4d5a79147, 0x506ca6351, 0x514292967,
      0x527b70a85, 0x52e1b2138, 0x54d2c6dfc, 0x553380d13, 0x5650a7354, 0x5766a0abb, 0x581c2c92e, 0x592722c85,
      0x5a2bfe8a1, 0x5a81a664b, 0x5c24b8b70, 0x5c76c51a3, 0x5d192e819, 0x5d6990624, 0x5f40e3585, 0x6106aa070,
      0x619a4c116, 0x61e376c08, 0x62748774c, 0x634b0bcb5, 0x6391c0cb3, 0x64ed8aa4a, 0x65b9cca4f, 0x6682e6ff3,
      0x6748f82ee, 0x678a5636f, 0x684c87814, 0x68cc70208, 0x690befffa, 0x6a4506ceb, 0x6bef9a3f7, 0x6c67178f2]"
    unfolding fips_primes_def by (rule root_table) simp_all
  then show ?thesis by (simp add: fips_K_def K_SHA256_K_def)
qed

lemma sha_iv_roots:
  "(fips_IV ! 0, fips_IV ! 1, fips_IV ! 2, fips_IV ! 3, fips_IV ! 4, fips_IV ! 5, fips_IV ! 6, fips_IV ! 7) = sha_iv"
proof -
  have "map (root_bits 2) (take 8 fips_primes) = map word_of_int
     [0x16a09e667, 0x1bb67ae85, 0x23c6ef372, 0x2a54ff53a, 0x3510e527f, 0x39b05688c, 0x41f83d9ab, 0x45be0cd19]"
    unfolding fips_primes_def by (rule root_table) simp_all
  then show ?thesis by (simp add: fips_IV_def sha_iv_def)
qed

lemma rotr_rotates:
  assumes "0 < n" "n < 32"
  shows "K_ROTR x n = word_rotr n x"
proof (rule bit_word_eqI)
  fix i
  assume i: "i < LENGTH(32)"
  have out: "\<not> bit x j" if "32 \<le> j" for j using that bit_imp_le_length [of x j] by auto
  show "bit (K_ROTR x n) i = bit (word_rotr n x) i"
  proof (cases "i + n < 32")
    case True
    then have "\<not> 32 - n \<le> i" by simp
    then show ?thesis using assms i True
      by (simp add: K_ROTR_def bit_or_iff bit_drop_bit_eq bit_push_bit_iff bit_word_rotr_iff add.commute)
  next
    case False
    then have "(i + n) mod 32 = i + n - 32" using assms i by (simp add: mod_if)
    moreover have "32 - n \<le> i" using False assms by simp
    ultimately show ?thesis using assms i False out [of "n + i"]
      by (simp add: K_ROTR_def bit_or_iff bit_drop_bit_eq bit_push_bit_iff bit_word_rotr_iff)
  qed
qed

lemma sigmas:
  "K_SIGMA0 x = fips_Sum 2 13 22 x" "K_SIGMA1 x = fips_Sum 6 11 25 x"
  "K_SIGMA2 x = fips_sigma 7 18 3 x" "K_SIGMA3 x = fips_sigma 17 19 10 x"
  by (simp_all add: K_SIGMA0_def K_SIGMA1_def K_SIGMA2_def K_SIGMA3_def fips_Sum_def fips_sigma_def rotr_rotates)

lemma append_byte: "w * 256 + ucast b = push_bit 8 w OR ucast b" for w :: u32 and b :: u8
proof -
  have "push_bit 8 w AND ucast b = 0"
    by (rule bit_word_eqI) (auto simp: bit_and_iff bit_push_bit_iff bit_ucast_iff dest: bit_imp_le_length)
  then show ?thesis using disjunctive_add_eq_or [of "push_bit 8 w" "ucast b"] by (simp add: push_bit_eq_mult)
qed

lemma load_word:
  assumes "length block = 64" "t < 16"
  shows "sha_load block t = fips_word block t"
proof -
  have "take 4 (drop (4 * t) block) = [block ! (t * 4), block ! (t * 4 + 1), block ! (t * 4 + 2), block ! (t * 4 + 3)]"
    using assms by (intro nth_equalityI) (auto simp: less_Suc_eq numeral_eq_Suc mult.commute)
  moreover have "((ucast a * 256 + ucast b) * 256 + ucast c) * 256 + ucast d =
      push_bit 24 (ucast a) OR push_bit 16 (ucast b) OR push_bit 8 (ucast c) OR (ucast d :: u32)" for a b c d :: u8
    by (simp add: append_byte push_bit_or push_bit_push_bit or.assoc)
  ultimately show ?thesis by (simp add: fips_word_def sha_load_def)
qed

lemma schedule_grows:
  assumes "length block = 64"
  shows "foldl sha_extend (map (sha_load block) [0..<16]) [16..<16 + n] = map (fips_W block) [0..<16 + n]"
proof (induction n)
  case 0
  then show ?case using load_word [OF assms] by (simp add: fips_W.simps)
next
  case (Suc n)
  have "fips_W block (16 + n) = fips_sigma 17 19 10 (fips_W block (14 + n)) + fips_W block (9 + n) + fips_sigma 7 18 3 (fips_W block (n + 1)) + fips_W block n"
    by (subst fips_W.simps) (simp add: numeral_eq_Suc)
  moreover have "[16..<16 + Suc n] = [16..<16 + n] @ [16 + n]" "[0..<16 + Suc n] = [0..<16 + n] @ [16 + n]"
    unfolding add_Suc_right by (rule upt_Suc_append, simp)+
  ultimately show ?case using Suc by (simp only: foldl_append foldl.simps map_append list.map sha_extend_def sigmas) simp
qed

lemma schedule_nth: "length block = 64 \<Longrightarrow> t < 64 \<Longrightarrow> sha_schedule block ! t = fips_W block t"
  using schedule_grows [of block 48] by (simp add: sha_schedule_def)

lemma rounds:
  assumes "length block = 64" "n \<le> 64"
  shows "foldl (sha_round (sha_schedule block)) H [0..<n] = fips_vars block H n"
  using assms(2)
proof (induction n)
  case (Suc n)
  obtain a b c d e f g h where v: "fips_vars block H n = (a, b, c, d, e, f, g, h)" using prod.exhaust by metis
  then show ?case using Suc schedule_nth [OF assms(1), of n]
    by (simp add: Let_def sigmas K_CH_def K_MAJ_def sha_constants)
qed simp

lemma transform_step: "length block = 64 \<Longrightarrow> KSha256Transform H block = fips_step H block"
  using rounds [of block 64 H]
  by (simp add: KSha256Transform_def fips_step_def add.commute split: prod.splits)

lemma byte_of_number:
  assumes "8 * k + 8 \<le> LENGTH('a)"
  shows "(word_of_nat (x div 256 ^ k) :: u8) = ucast (drop_bit (8 * k) (word_of_nat x :: 'a::len word) AND 0xFF)"
proof (rule bit_word_eqI)
  fix n
  assume n: "n < LENGTH(8)"
  have "x div 256 ^ k = drop_bit (8 * k) x" by (simp add: drop_bit_eq_div power_mult)
  moreover have "bit (0xFF :: 'a word) n"
    using n assms bit_mask_iff [of 8 n, where 'a = "'a word"] by (simp add: mask_eq_exp_minus_1)
  ultimately show "bit (word_of_nat (x div 256 ^ k) :: u8) n = bit (ucast (drop_bit (8 * k) (word_of_nat x :: 'a word) AND 0xFF) :: u8) n"
    using n assms by (simp add: bit_ucast_iff bit_and_iff bit_drop_bit_eq bit_of_nat_iff)
qed

lemma be_big_endian: "be64 (of_nat m) = big_endian 8 m" "be32 w = big_endian 4 (unat w)"
proof -
  have "big_endian 8 m = map (\<lambda>i. ucast (drop_bit (8 * (7 - i)) (word_of_nat m :: u64) AND 0xFF)) [0..<8]"
    by (auto simp: big_endian_def byte_of_number [where 'a = 64])
  then show "be64 (of_nat m) = big_endian 8 m" by (simp add: be64_def diff_mult_distrib2 mult.commute)
  have "big_endian 4 (unat w) = map (\<lambda>i. ucast (drop_bit (8 * (3 - i)) w AND 0xFF)) [0..<4]"
    by (auto simp: big_endian_def byte_of_number [where 'a = 32])
  then show "be32 w = big_endian 4 (unat w)" by (simp add: be32_def diff_mult_distrib2 mult.commute [of 8])
qed

lemma pad_zeros: "nat ((55 - int n) mod 64) = (119 - n mod 64) mod 64" "64 dvd n + (9 + (119 - n mod 64) mod 64)"
proof -
  have lt: "n mod 64 < 64" by simp
  have "int ((119 - n mod 64) mod 64) = (119 - int n mod 64) mod 64" using lt by (simp add: of_nat_mod of_nat_diff)
  also have "\<dots> = (55 - int n + 64) mod 64" by (simp add: mod_diff_right_eq)
  also have "\<dots> = (55 - int n) mod 64" by (rule mod_add_self2)
  finally show "nat ((55 - int n) mod 64) = (119 - n mod 64) mod 64" by (metis nat_int)
  have "(n + (9 + (119 - n mod 64) mod 64)) mod 64 = (n + (9 + (119 - n mod 64))) mod 64" by (metis mod_add_right_eq)
  also have "n + (9 + (119 - n mod 64)) = 128 + 64 * (n div 64)"
    using lt div_mult_mod_eq [of n 64] by linarith
  also have "\<dots> mod 64 = 0" by simp
  finally show "64 dvd n + (9 + (119 - n mod 64) mod 64)" by (rule mod_0_imp_dvd)
qed

lemma pad_standard: "sha_pad msg = fips_pad msg"
  using be_big_endian(1) [of "8 * length msg"] by (simp add: sha_pad_def fips_pad_def mult.commute pad_zeros(1))

lemma absorb_blocks:
  "64 dvd length xs \<Longrightarrow> fst (absorb KSha256Transform H xs) = foldl fips_step H (fips_blocks xs)"
proof (induction xs arbitrary: H rule: fips_blocks.induct)
  case (1 xs)
  show ?case
  proof (cases "xs = []")
    case False
    then have "64 \<le> length xs" using 1(2) by (auto dest: dvd_imp_le)
    then show ?thesis using 1 False absorb.simps [of KSha256Transform H xs] fips_blocks.simps [of xs]
      by (simp add: transform_step dvd_diff_nat)
  qed (simp add: absorb_short fips_blocks.simps [of "[]"])
qed

lemma pad_blocks: "64 dvd length (fips_pad msg)"
  using pad_zeros(2) [of "length msg"] by (simp add: fips_pad_def big_endian_def pad_zeros(1))

text \<open>The reference of the streaming interface is the standard's SHA-256.\<close>

lemma reference_is_standard: "sha256_reference msg = fips_sha256 msg"
  unfolding sha256_reference_def fips_sha256_def sha_iv_roots pad_standard absorb_blocks [OF pad_blocks]
  by (simp add: be_big_endian split: prod.splits)

section \<open>A published test vector\<close>

text \<open>The message \<open>abc\<close> of the standard's appendix, evaluated sixteen rounds at a time.\<close>

definition abc_block :: bytes where
  "abc_block = [0x61, 0x62, 0x63, 0x80] @ replicate 59 0 @ [24]"

definition abc_words :: "u32 list" where
  "abc_words = [0x61626380, 0x0, 0x0, 0x0, 0x0, 0x0, 0x0, 0x0,
      0x0, 0x0, 0x0, 0x0, 0x0, 0x0, 0x0, 0x18,
      0x61626380, 0xf0000, 0x7da86405, 0x600003c6, 0x3e9d7b78, 0x183fc00, 0x12dcbfdb, 0xe2e2c38e,
      0xc8215c1a, 0xb73679a2, 0xe5bc3909, 0x32663c5b, 0x9d209d67, 0xec8726cb, 0x702138a4, 0xd3b7973b,
      0x93f5997f, 0x3b68ba73, 0xaff4ffc1, 0xf10a5c62, 0xa8b3996, 0x72af830a, 0x9409e33e, 0x24641522,
      0x9f47bf94, 0xf0a64f5a, 0x3e246a79, 0x27333ba3, 0xc4763f2, 0x840abf27, 0x7a290d5d, 0x65c43da,
      0xfb3e89cb, 0xcc7617db, 0xb9e66c34, 0xa9993667, 0x84badedd, 0xc21462bc, 0x1487472c, 0xb20f7a99,
      0xef57b9cd, 0xebe6b238, 0x9fe3095e, 0x78bc8d4b, 0xa43fcf15, 0x668b2ff8, 0xeeaba2cc, 0x12b1edeb]"

lemma abc_schedule: "sha_schedule abc_block = abc_words"
  by code_simp

lemma abc_rounds0:
  "foldl (sha_round abc_words)
     (0x6a09e667, 0xbb67ae85, 0x3c6ef372, 0xa54ff53a, 0x510e527f, 0x9b05688c, 0x1f83d9ab, 0x5be0cd19) [0..<16] =
     (0xb0fa238e, 0xc0645fde, 0xd932eb16, 0x87912990, 0x7590dcd, 0xb92f20c, 0x745a48de, 0x1e578218)"
  by code_simp

lemma abc_rounds16:
  "foldl (sha_round abc_words)
     (0xb0fa238e, 0xc0645fde, 0xd932eb16, 0x87912990, 0x7590dcd, 0xb92f20c, 0x745a48de, 0x1e578218) [16..<32] =
     (0x73b33bf5, 0xea992a22, 0xa0060b30, 0x363482c9, 0xba591112, 0x109ab3a, 0xade79437, 0x6112a3b7)"
  by code_simp

lemma abc_rounds32:
  "foldl (sha_round abc_words)
     (0x73b33bf5, 0xea992a22, 0xa0060b30, 0x363482c9, 0xba591112, 0x109ab3a, 0xade79437, 0x6112a3b7) [32..<48] =
     (0x4172328d, 0xa14c14b0, 0x72ab4b91, 0x26628815, 0xfecf0bc6, 0xd57b94a9, 0xb7755da1, 0xa80f11f0)"
  by code_simp

lemma abc_rounds48:
  "foldl (sha_round abc_words)
     (0x4172328d, 0xa14c14b0, 0x72ab4b91, 0x26628815, 0xfecf0bc6, 0xd57b94a9, 0xb7755da1, 0xa80f11f0) [48..<64] =
     (0x506e3058, 0xd39a2165, 0x4d24d6c, 0xb85e2ce9, 0x5ef50f24, 0xfb121210, 0x948d25b6, 0x961f4894)"
  by code_simp

lemmas abc_rounds = abc_rounds0 abc_rounds16 abc_rounds32 abc_rounds48

lemma abc_transform: "KSha256Transform sha_iv abc_block = (0xba7816bf, 0x8f01cfea, 0x414140de, 0x5dae2223, 0xb00361a3, 0x96177a9c, 0xb410ff61, 0xf20015ad)"
proof -
  have rounds: "[0..<64] = [0..<16] @ [16..<32] @ [32..<48] @ [48..<64 :: nat]" by code_simp
  show ?thesis unfolding KSha256Transform_def abc_schedule sha_iv_def rounds foldl_append abc_rounds by simp
qed

lemma abc_digest:
  "fips_sha256 [0x61, 0x62, 0x63] =
     [0xba, 0x78, 0x16, 0xbf, 0x8f, 0x01, 0xcf, 0xea, 0x41, 0x41, 0x40, 0xde, 0x5d, 0xae, 0x22, 0x23,
      0xb0, 0x03, 0x61, 0xa3, 0x96, 0x17, 0x7a, 0x9c, 0xb4, 0x10, 0xff, 0x61, 0xf2, 0x00, 0x15, 0xad]"
proof -
  have "sha_pad [0x61, 0x62, 0x63] = abc_block" by code_simp
  then have "fips_sha256 [0x61, 0x62, 0x63] = sha_digest (KSha256Transform sha_iv abc_block)"
    using absorb_block [of abc_block KSha256Transform sha_iv "[]"]
    by (simp add: reference_is_standard [symmetric] sha256_reference_def absorb_short abc_block_def)
  also have "\<dots> = sha_digest (0xba7816bf, 0x8f01cfea, 0x414140de, 0x5dae2223, 0xb00361a3, 0x96177a9c, 0xb410ff61, 0xf20015ad)" by (simp only: abc_transform)
  also have "\<dots> = [0xba, 0x78, 0x16, 0xbf, 0x8f, 0x01, 0xcf, 0xea, 0x41, 0x41, 0x40, 0xde, 0x5d, 0xae, 0x22, 0x23,
      0xb0, 0x03, 0x61, 0xa3, 0x96, 0x17, 0x7a, 0x9c, 0xb4, 0x10, 0xff, 0x61, 0xf2, 0x00, 0x15, 0xad]"
    by code_simp
  finally show ?thesis .
qed

end
