(* ===== verification/BoxHash.thy ===== *)
theory BoxHash
  imports Fips180 "HOL-Library.Monad_Syntax"
begin

unbundle bit_operations_syntax

text \<open>
  TagFS content hashing, kernel/tagfs/box\_hash/box\_hash.c: the wyhash-style 64-bit mixer with
  its four-lane content hash, the one-shot SHA-256 of a box, the constant-time comparison and the
  hexadecimal printer. Reads of the input buffer are checked (\<open>None\<close> is a read outside the
  buffer), so that a theorem giving \<open>Some\<close> is a memory-safety theorem.
\<close>

section \<open>The 64-bit mixer\<close>

definition SECRET :: "u64 list" where
  "SECRET = [0x9e3779b97f4a7c15, 0xbf58476d1ce4e5b9, 0x94d049bb133111eb,
             0x4cf5ad432745937f, 0x3a478be4ac9e0d17]"

definition wide_mul :: "u64 \<Rightarrow> u64 \<Rightarrow> 128 word" where
  "wide_mul a b = ucast a * ucast b"

definition WyMix :: "u64 \<Rightarrow> u64 \<Rightarrow> u64" where
  "WyMix a b = (let r = wide_mul a b in ucast r XOR ucast (drop_bit 64 r))"

text \<open>A little-endian load of \<open>n\<close> bytes.\<close>

definition load :: "bytes \<Rightarrow> nat \<Rightarrow> nat \<Rightarrow> u64 option" where
  "load p n off = (if off + n \<le> length p then Some (le_get (take n (drop off p))) else None)"

definition Read64 :: "bytes \<Rightarrow> nat \<Rightarrow> u64 option" where
  "Read64 p off = load p 8 off"

definition Read32 :: "bytes \<Rightarrow> nat \<Rightarrow> u64 option" where
  "Read32 p off = load p 4 off"

definition ReadSmall :: "bytes \<Rightarrow> nat \<Rightarrow> u64 option" where
  "ReadSmall p k = do {
     b0 \<leftarrow> load p 1 0;
     b1 \<leftarrow> load p 1 (k div 2);
     b2 \<leftarrow> load p 1 (k - 1);
     Some (push_bit 16 b0 OR push_bit 8 b1 OR b2)
   }"

definition wy_lane :: "bytes \<Rightarrow> nat \<Rightarrow> nat \<Rightarrow> u64 \<Rightarrow> u64 option" where
  "wy_lane p off k s = do {
     x \<leftarrow> Read64 p off;
     y \<leftarrow> Read64 p (off + 8);
     Some (WyMix (x XOR SECRET ! k) (y XOR s))
   }"

text \<open>
  The do-while loop over 48-byte stripes (entered with \<open>i > 48\<close>) and the loop over 16-byte
  stripes; \<open>q\<close> is the offset of the C pointer \<^verbatim>\<open>q\<close> in the buffer.
\<close>

function wy_loop48 :: "bytes \<Rightarrow> nat \<Rightarrow> nat \<Rightarrow> u64 \<Rightarrow> u64 \<Rightarrow> u64 \<Rightarrow> (nat \<times> nat \<times> u64) option" where
  "wy_loop48 p q i seed s1 s2 =
     (if i > 48 then do {
        seed' \<leftarrow> wy_lane p q 1 seed;
        s1' \<leftarrow> wy_lane p (q + 16) 2 s1;
        s2' \<leftarrow> wy_lane p (q + 32) 3 s2;
        wy_loop48 p (q + 48) (i - 48) seed' s1' s2'
      } else Some (q, i, seed XOR (s1 XOR s2)))"
  by pat_completeness auto
termination
  by (relation "measure (\<lambda>(p, q, i, seed, s1, s2). i)") auto

function wy_loop16 :: "bytes \<Rightarrow> nat \<Rightarrow> nat \<Rightarrow> u64 \<Rightarrow> (nat \<times> nat \<times> u64) option" where
  "wy_loop16 p q i seed =
     (if i > 16 then do {
        seed' \<leftarrow> wy_lane p q 1 seed;
        wy_loop16 p (q + 16) (i - 16) seed'
      } else Some (q, i, seed))"
  by pat_completeness auto
termination
  by (relation "measure (\<lambda>(p, q, i, seed). i)") auto

declare wy_loop48.simps [simp del] wy_loop16.simps [simp del]

text \<open>\<open>wy_tail\<close> yields the pair \<^verbatim>\<open>a, b\<close> and the seed at line 62 of the source.\<close>

definition wy_short :: "bytes \<Rightarrow> (u64 \<times> u64) option" where
  "wy_short p = (let len = length p in
     if len \<ge> 4 then do {
       let off = len div 8 * 4;
       a1 \<leftarrow> Read32 p 0;
       a2 \<leftarrow> Read32 p off;
       b1 \<leftarrow> Read32 p (len - 4);
       b2 \<leftarrow> Read32 p (len - 4 - off);
       Some (push_bit 32 a1 OR a2, push_bit 32 b1 OR b2)
     } else if len > 0 then do { a \<leftarrow> ReadSmall p len; Some (a, 0) }
     else Some (0, 0))"

definition wy_long :: "bytes \<Rightarrow> u64 \<Rightarrow> (u64 \<times> u64 \<times> u64) option" where
  "wy_long p seed = do {
     (q1, i1, seed1) \<leftarrow> (if length p > 48 then wy_loop48 p 0 (length p) seed seed seed
                          else Some (0, length p, seed));
     (q2, i2, seed2) \<leftarrow> wy_loop16 p q1 i1 seed1;
     a \<leftarrow> Read64 p (q2 + i2 - 16);
     b \<leftarrow> Read64 p (q2 + i2 - 8);
     Some (a, b, seed2)
   }"

definition WyHash64 :: "bytes \<Rightarrow> u64 \<Rightarrow> u64 option" where
  "WyHash64 p seed0 = do {
     let seed = seed0 XOR WyMix (seed0 XOR SECRET ! 0) (SECRET ! 1);
     (a, b, seed') \<leftarrow> (if length p \<le> 16 then do { (a, b) \<leftarrow> wy_short p; Some (a, b, seed) }
                        else wy_long p seed);
     let r = wide_mul (a XOR SECRET ! 1) (b XOR seed');
     Some (WyMix (ucast r XOR SECRET ! 0 XOR of_nat (length p)) (ucast (drop_bit 64 r) XOR SECRET ! 1))
   }"

section \<open>Keyed contexts and the content hash\<close>

type_synonym BoxHashContext = "u64 list"

definition box_mix :: "u64 \<Rightarrow> nat \<Rightarrow> u64" where
  "box_mix base j = WyMix (base XOR SECRET ! (j mod 5)) (SECRET ! ((j + 1) mod 5))"

text \<open>\<open>seed = None\<close> is the NULL pointer.\<close>

definition BoxHashInit :: "bytes option \<Rightarrow> BoxHashContext option" where
  "BoxHashInit seed = do {
     base \<leftarrow> (case seed of Some s \<Rightarrow> if s \<noteq> [] then WyHash64 s (SECRET ! 0) else Some (SECRET ! 0)
                          | None \<Rightarrow> Some (SECRET ! 0));
     let s0 = box_mix base 0;
     let s1 = box_mix s0 1;
     let s2 = box_mix s1 2;
     let s3 = box_mix s2 3;
     Some [s0, s1, s2, s3]
   }"

definition BoxHashIntegrity :: "bytes option \<Rightarrow> BoxHashContext option \<Rightarrow> u64 option" where
  "BoxHashIntegrity data ctx =
     (case data of None \<Rightarrow> Some 0
      | Some d \<Rightarrow> if d = [] then Some 0
                  else WyHash64 d (case ctx of Some c \<Rightarrow> c ! 0 | None \<Rightarrow> SECRET ! 0))"

definition lane_seed :: "BoxHashContext option \<Rightarrow> nat \<Rightarrow> u64" where
  "lane_seed ctx j =
     (case ctx of Some c \<Rightarrow> c ! j | None \<Rightarrow> SECRET ! (j mod 5)) XOR SECRET ! ((j + 2) mod 5)"

definition BoxHashContent :: "bytes option \<Rightarrow> BoxHashContext option \<Rightarrow> bytes option" where
  "BoxHashContent data ctx =
     (case data of None \<Rightarrow> Some (replicate 32 0)
      | Some d \<Rightarrow> if d = [] then Some (replicate 32 0)
                  else do {
                    l0 \<leftarrow> WyHash64 d (lane_seed ctx 0);
                    l1 \<leftarrow> WyHash64 d (lane_seed ctx 1);
                    l2 \<leftarrow> WyHash64 d (lane_seed ctx 2);
                    l3 \<leftarrow> WyHash64 d (lane_seed ctx 3);
                    Some (le_put 8 l0 @ le_put 8 l1 @ le_put 8 l2 @ le_put 8 l3)
                  })"

section \<open>The one-shot SHA-256\<close>

definition Rotr32 :: "u32 \<Rightarrow> nat \<Rightarrow> u32" where
  "Rotr32 x r = drop_bit r x OR push_bit (32 - r) x"

definition Sha_Ch :: "u32 \<Rightarrow> u32 \<Rightarrow> u32 \<Rightarrow> u32" where
  "Sha_Ch x y z = (x AND y) XOR (NOT x AND z)"

definition Sha_Maj :: "u32 \<Rightarrow> u32 \<Rightarrow> u32 \<Rightarrow> u32" where
  "Sha_Maj x y z = (x AND y) XOR (x AND z) XOR (y AND z)"

definition Sha_S0 :: "u32 \<Rightarrow> u32" where
  "Sha_S0 x = Rotr32 x 2 XOR Rotr32 x 13 XOR Rotr32 x 22"

definition Sha_S1 :: "u32 \<Rightarrow> u32" where
  "Sha_S1 x = Rotr32 x 6 XOR Rotr32 x 11 XOR Rotr32 x 25"

definition Sha_s0 :: "u32 \<Rightarrow> u32" where
  "Sha_s0 x = Rotr32 x 7 XOR Rotr32 x 18 XOR drop_bit 3 x"

definition Sha_s1 :: "u32 \<Rightarrow> u32" where
  "Sha_s1 x = Rotr32 x 17 XOR Rotr32 x 19 XOR drop_bit 10 x"

definition SHA256_K :: "u32 list" where
  "SHA256_K = concat
     [[0x428a2f98, 0x71374491, 0xb5c0fbcf, 0xe9b5dba5, 0x3956c25b, 0x59f111f1],
      [0x923f82a4, 0xab1c5ed5, 0xd807aa98, 0x12835b01, 0x243185be, 0x550c7dc3],
      [0x72be5d74, 0x80deb1fe, 0x9bdc06a7, 0xc19bf174, 0xe49b69c1, 0xefbe4786],
      [0x0fc19dc6, 0x240ca1cc, 0x2de92c6f, 0x4a7484aa, 0x5cb0a9dc, 0x76f988da],
      [0x983e5152, 0xa831c66d, 0xb00327c8, 0xbf597fc7, 0xc6e00bf3, 0xd5a79147],
      [0x06ca6351, 0x14292967, 0x27b70a85, 0x2e1b2138, 0x4d2c6dfc, 0x53380d13],
      [0x650a7354, 0x766a0abb, 0x81c2c92e, 0x92722c85, 0xa2bfe8a1, 0xa81a664b],
      [0xc24b8b70, 0xc76c51a3, 0xd192e819, 0xd6990624, 0xf40e3585, 0x106aa070],
      [0x19a4c116, 0x1e376c08, 0x2748774c, 0x34b0bcb5, 0x391c0cb3, 0x4ed8aa4a],
      [0x5b9cca4f, 0x682e6ff3, 0x748f82ee, 0x78a5636f, 0x84c87814, 0x8cc70208],
      [0x90befffa, 0xa4506ceb, 0xbef9a3f7, 0xc67178f2]]"

definition block_extend :: "u32 list \<Rightarrow> nat \<Rightarrow> u32 list" where
  "block_extend w i = w @ [Sha_s1 (w ! (i - 2)) + w ! (i - 7) + Sha_s0 (w ! (i - 15)) + w ! (i - 16)]"

fun block_round :: "u32 list \<Rightarrow> sha_vars \<Rightarrow> nat \<Rightarrow> sha_vars" where
  "block_round w (a, b, c, d, e, f, g, hh) i =
     (let t1 = hh + Sha_S1 e + Sha_Ch e f g + SHA256_K ! i + w ! i;
          t2 = Sha_S0 a + Sha_Maj a b c
      in (t1 + t2, a, b, c, d + t1, e, f, g))"

definition Sha256Block :: "sha_vars \<Rightarrow> bytes \<Rightarrow> sha_vars" where
  "Sha256Block h chunk =
     (let w = foldl block_extend (map (sha_load chunk) [0..<16]) [16..<64]
      in sha_add h (foldl (block_round w) h [0..<64]))"

text \<open>
  \<^verbatim>\<open>while (pos + 64 <= size)\<close> with \<open>pos\<close> and \<open>size\<close> at their 32 bits: the addition wraps,
  so the loop is a partial function and \<open>None\<close> is a run that does not end.
\<close>

partial_function (option) secure_loop :: "bytes \<Rightarrow> u32 \<Rightarrow> u32 \<Rightarrow> sha_vars \<Rightarrow> (u32 \<times> sha_vars) option" where
  "secure_loop data sz pos h =
     (if pos + 64 \<le> sz
      then secure_loop data sz (pos + 64) (Sha256Block h (take 64 (drop (unat pos) data)))
      else Some (pos, h))"

definition be_digit :: "u32 \<Rightarrow> bytes" where
  "be_digit x = [ucast (drop_bit 24 x), ucast (drop_bit 16 x), ucast (drop_bit 8 x), ucast x]"

fun box_digest :: "sha_vars \<Rightarrow> bytes" where
  "box_digest (a, b, c, d, e, f, g, h) = concat (map be_digit [a, b, c, d, e, f, g, h])"

definition secure_tail :: "sha_vars \<Rightarrow> bytes \<Rightarrow> u64 \<Rightarrow> bytes" where
  "secure_tail h rest bit_len =
     (let chunk = (rest @ replicate (64 - length rest) 0)[length rest := 0x80];
          (h', chunk') = (if length rest \<ge> 56 then (Sha256Block h chunk, replicate 64 0) else (h, chunk));
          chunk2 = take 56 chunk' @ map (\<lambda>i. ucast (drop_bit (56 - i * 8) bit_len)) [0..<8]
      in box_digest (Sha256Block h' chunk2))"

text \<open>\<open>data\<close> and \<open>size\<close> are separate arguments; with a NULL \<open>data\<close> the size is still hashed.\<close>

definition BoxHashSecure :: "bytes option \<Rightarrow> u32 \<Rightarrow> bytes option" where
  "BoxHashSecure data sz =
     (case data of
        None \<Rightarrow> Some (secure_tail sha_iv [] (ucast sz * 8))
      | Some d \<Rightarrow> do {
          (pos, h) \<leftarrow> secure_loop d sz 0 sha_iv;
          Some (secure_tail h (take (unat (sz - pos)) (drop (unat pos) d)) (ucast sz * 8))
        })"

section \<open>Comparison and printing\<close>

definition BoxHashEqual :: "bytes option \<Rightarrow> bytes option \<Rightarrow> bool" where
  "BoxHashEqual a b =
     (case (a, b) of
        (Some x, Some y) \<Rightarrow> foldl (\<lambda>diff i. diff OR (x ! i XOR y ! i)) 0 [0..<32] = 0
      | _ \<Rightarrow> False)"

definition hex_digit :: "u8 \<Rightarrow> char" where
  "hex_digit n = ''0123456789abcdef'' ! unat n"

text \<open>What is written to \<^verbatim>\<open>out\<close>, without the terminating NUL; \<open>None\<close> when nothing is.\<close>

definition BoxHashToHex :: "bytes \<Rightarrow> nat \<Rightarrow> string option" where
  "BoxHashToHex hash out_size =
     (if out_size < 32 * 2 + 1 then None
      else Some (concat (map (\<lambda>b. [hex_digit (drop_bit 4 b AND 0xF), hex_digit (b AND 0xF)]) hash)))"

section \<open>Reads stay inside the buffer\<close>

lemma load_ok: "off + n \<le> length p \<Longrightarrow> \<exists>x. load p n off = Some x"
  by (simp add: load_def)

lemma wy_lane_ok: "off + 16 \<le> length p \<Longrightarrow> \<exists>x. wy_lane p off k s = Some x"
  using load_ok [of off 8 p] load_ok [of "off + 8" 8 p] by (auto simp: wy_lane_def Read64_def)

lemma wy_loop48_ok:
  "q + i = length p \<Longrightarrow> \<exists>q' i' s. wy_loop48 p q i seed s1 s2 = Some (q', i', s) \<and> q' + i' = length p"
proof (induction p q i seed s1 s2 rule: wy_loop48.induct)
  case (1 p q i seed s1 s2)
  show ?case
  proof (cases "i > 48")
    case True
    obtain x y z where "wy_lane p q 1 seed = Some x" "wy_lane p (q + 16) 2 s1 = Some y"
        "wy_lane p (q + 32) 3 s2 = Some z"
      using wy_lane_ok [of q p 1 seed] wy_lane_ok [of "q + 16" p 2 s1] wy_lane_ok [of "q + 32" p 3 s2]
        True 1(2) by auto
    then show ?thesis using 1(1) [OF True, of x y z] 1(2) True
      by (simp add: wy_loop48.simps [of p q])
  qed (use 1(2) in \<open>simp add: wy_loop48.simps [of p q]\<close>)
qed

lemma wy_loop16_ok:
  "q + i = length p \<Longrightarrow> \<exists>q' i' s. wy_loop16 p q i seed = Some (q', i', s) \<and> q' + i' = length p"
proof (induction p q i seed rule: wy_loop16.induct)
  case (1 p q i seed)
  show ?case
  proof (cases "i > 16")
    case True
    obtain x where "wy_lane p q 1 seed = Some x"
      using wy_lane_ok [of q p 1 seed] True 1(2) by auto
    then show ?thesis using 1(1) [OF True, of x] 1(2) True by (simp add: wy_loop16.simps [of p q])
  qed (use 1(2) in \<open>simp add: wy_loop16.simps [of p q]\<close>)
qed

lemma wy_short_ok: "length p \<le> 16 \<Longrightarrow> \<exists>a b. wy_short p = Some (a, b)"
proof -
  assume len: "length p \<le> 16"
  have "length p div 8 * 4 + 4 \<le> length p" if "length p \<ge> 4" using that len by presburger
  with len show ?thesis
    by (cases p) (auto simp: wy_short_def Read32_def ReadSmall_def load_def Let_def)
qed

lemma wy_long_ok: "length p > 16 \<Longrightarrow> \<exists>r. wy_long p seed = Some r"
proof -
  assume len: "length p > 16"
  obtain q1 i1 s1 where 1: "(if length p > 48 then wy_loop48 p 0 (length p) seed seed seed
                          else Some (0, length p, seed)) = Some (q1, i1, s1)" "q1 + i1 = length p"
    using wy_loop48_ok [of 0 "length p" p seed seed seed] that by (cases "length p > 48") auto
  obtain q2 i2 s2 where 2: "wy_loop16 p q1 i1 s1 = Some (q2, i2, s2)" "q2 + i2 = length p"
    using wy_loop16_ok [OF 1(2)] by blast
  show ?thesis using len by (simp add: wy_long_def 1 2 Read64_def load_def)
qed

lemma WyHash64_total: "\<exists>h. WyHash64 p seed = Some h"
proof (cases "length p \<le> 16")
  case True
  with wy_short_ok [of p] show ?thesis by (auto simp: WyHash64_def Let_def)
next
  case False
  then obtain a b s where "wy_long p (seed XOR WyMix (seed XOR SECRET ! 0) (SECRET ! 1)) = Some (a, b, s)"
    using wy_long_ok [of p] by fastforce
  with False show ?thesis by (simp add: WyHash64_def Let_def)
qed

section \<open>The one-shot hash is the streaming hash\<close>

lemma sha_vars_exhaust: "\<exists>a b c d e f g h. (v :: sha_vars) = (a, b, c, d, e, f, g, h)"
  by (metis surj_pair)

lemma Sha256Block_eq: "Sha256Block = KSha256Transform"
proof -
  have e: "block_extend = sha_extend"
    by (simp add: fun_eq_iff block_extend_def sha_extend_def Sha_s1_def Sha_s0_def K_SIGMA2_def K_SIGMA3_def
      Rotr32_def K_ROTR_def)
  have r: "block_round w v i = sha_round w v i" for w v i
    using sha_vars_exhaust [of v] by (auto simp: Sha_S1_def Sha_S0_def K_SIGMA0_def K_SIGMA1_def Rotr32_def K_ROTR_def
      Sha_Ch_def K_CH_def Sha_Maj_def K_MAJ_def SHA256_K_def K_SHA256_K_def)
  then have R: "block_round = sha_round" by (intro ext)
  show ?thesis
    by (intro ext) (simp only: Sha256Block_def KSha256Transform_def sha_schedule_def e R Let_def)
qed

lemma ucast_mask8: "ucast (x AND 0xFF) = (ucast x :: u8)"
  by (rule bit_word_eqI) (auto simp: bit_ucast_iff bit_and_iff bit_numeral_rec less_Suc_eq numeral_eq_Suc
    dest: bit_imp_le_length)

lemma be_digit_eq: "be_digit x = be32 x"
  by (simp add: be_digit_def be32_def upt_rec ucast_mask8)

lemma box_digest_eq: "box_digest v = sha_digest v"
  using sha_vars_exhaust [of v] by (auto simp: be_digit_eq)

lemma secure_loop_absorb:
  assumes "length d = unat sz" "unat sz < 2 ^ 32 - 64" "unat pos \<le> unat sz"
  shows "\<exists>pos' h'. secure_loop d sz pos h = Some (pos', h') \<and> unat pos' \<le> unat sz \<and>
           absorb Sha256Block h (drop (unat pos) d) = (h', drop (unat pos') d)"
  using assms(3)
proof (induction "unat sz - unat pos" arbitrary: pos h rule: less_induct)
  case less
  have add: "unat (pos + 64) = unat pos + 64"
    using less.prems assms(2) by (simp add: unat_word_ariths)
  have test: "pos + 64 \<le> sz \<longleftrightarrow> 64 \<le> length (drop (unat pos) d)"
    using less.prems assms(1) by (simp add: word_le_nat_alt add) linarith
  show ?case
  proof (cases "pos + 64 \<le> sz")
    case True
    then have "unat pos + 64 \<le> unat sz" by (simp add: word_le_nat_alt add)
    then show ?thesis
      using less.hyps [of "pos + 64" "Sha256Block h (take 64 (drop (unat pos) d))"] True test
      by (simp add: secure_loop.simps [of d sz pos] absorb.simps [of _ _ "drop (unat pos) d"] add add.commute)
  next
    case False
    then show ?thesis using less.prems test
      by (simp add: secure_loop.simps [of d sz pos] absorb.simps [of _ _ "drop (unat pos) d"])
  qed
qed

lemma secure_tail_final:
  assumes "length rest < 64"
  shows "secure_tail h rest bits = sha_finish \<lparr>ks_state = h, ks_total_bits = bits, ks_buffer = rest\<rparr>"
proof -
  have pad: "(rest @ replicate (64 - length rest) 0)[length rest := 0x80]
      = rest @ [0x80] @ replicate (63 - length rest) 0"
  proof -
    have "64 - length rest = Suc (63 - length rest)" using assms by simp
    then show ?thesis by (simp only: replicate_Suc) (simp add: list_update_append)
  qed
  have be: "map (\<lambda>i. ucast (drop_bit (56 - i * 8) bits)) [0..<8] = be64 bits"
    by (simp add: be64_def ucast_mask8)
  show ?thesis
  proof (cases "length rest \<ge> 56")
    case True
    then show ?thesis
      by (simp add: secure_tail_def sha_finish_def pad be box_digest_eq Sha256Block_eq)
  next
    case False
    moreover have "take 56 (rest @ [0x80] @ replicate (63 - length rest) 0)
        = rest @ [0x80] @ replicate (55 - length rest) 0"
      using False by (simp add: take_Cons' min_def)
    ultimately show ?thesis
      by (simp add: secure_tail_def sha_finish_def pad be box_digest_eq Sha256Block_eq)
  qed
qed

lemma KSha256_eq_reference: "KSha256 data = sha256_reference data"
  using sha_holds_final [OF sha_holds_update [OF sha_holds_init, of data]] by (simp add: KSha256_def KSha256Final_def)

lemma BoxHashSecure_eq:
  assumes "length d = unat sz" "unat sz < 2 ^ 32 - 64"
  shows "BoxHashSecure (Some d) sz = Some (KSha256 d)"
proof -
  obtain pos h where l: "secure_loop d sz 0 sha_iv = Some (pos, h)" "unat pos \<le> unat sz"
      and ab: "absorb KSha256Transform sha_iv d = (h, drop (unat pos) d)"
    using secure_loop_absorb [OF assms, of 0 sha_iv] by (auto simp: Sha256Block_eq)
  have rest: "length (drop (unat pos) d) < 64"
    using absorb_rest_length [of KSha256Transform sha_iv d] unfolding ab by simp
  have take: "take (unat (sz - pos)) (drop (unat pos) d) = drop (unat pos) d"
    using l(2) assms(1) by (simp add: unat_sub_if_size)
  let ?ctx = "\<lparr>ks_state = h, ks_total_bits = ucast sz * 8, ks_buffer = drop (unat pos) d\<rparr>"
  have "sha_holds ?ctx d"
    using ab assms(1) by (simp add: sha_holds_def)
  from sha_holds_final [OF this] show ?thesis
    by (simp add: BoxHashSecure_def l take secure_tail_final [OF rest] KSha256_eq_reference)
qed

section \<open>Comparison and hexadecimal\<close>

lemma or_fold_zero: "foldl (\<lambda>d i. d OR f i) (z :: u8) is = 0 \<longleftrightarrow> z = 0 \<and> (\<forall>i\<in>set is. f i = 0)"
  by (induction "is" arbitrary: z) (auto simp: or_eq_0_iff)

lemma BoxHashEqual_iff:
  assumes "length x = 32" "length y = 32"
  shows "BoxHashEqual (Some x) (Some y) \<longleftrightarrow> x = y"
proof -
  have "x ! i XOR y ! i = 0 \<longleftrightarrow> x ! i = y ! i" for i
    using xor_cancel(1) [of "x ! i" "y ! i" "y ! i"] by simp
  then show ?thesis using assms
    by (simp only: BoxHashEqual_def or_fold_zero) (auto simp: list_eq_iff_nth_eq)
qed

lemma hex_digit_inj: "hex_digit x = hex_digit y \<longleftrightarrow> x = y" if "unat x < 16" "unat y < 16"
proof -
  have "distinct ''0123456789abcdef''" "length ''0123456789abcdef'' = 16" by simp_all
  then have "''0123456789abcdef'' ! unat x = ''0123456789abcdef'' ! unat y \<longleftrightarrow> unat x = unat y"
    using that nth_eq_iff_index_eq by metis
  then show ?thesis by (simp only: hex_digit_def word_unat_eq_iff)
qed

lemma nibble_low: "unat (b AND 0xF) = unat b mod 16" for b :: u8
proof -
  have "b AND 0xF = take_bit 4 b" by (simp add: take_bit_eq_mask mask_eq_exp_minus_1)
  then show ?thesis by (simp add: take_bit_eq_mod unat_mod)
qed

lemma nibble_high: "unat (drop_bit 4 b AND 0xF) = unat b div 16" for b :: u8
proof -
  have "unat b < 256" using unsigned_less [of b] by simp
  then show ?thesis by (simp only: nibble_low) (simp add: drop_bit_eq_div unat_div)
qed

lemma hex_byte_inj:
  "hex_digit (drop_bit 4 a AND 0xF) = hex_digit (drop_bit 4 b AND 0xF) \<and>
   hex_digit (a AND 0xF) = hex_digit (b AND 0xF) \<longleftrightarrow> a = b" for a b :: u8
proof -
  have lt: "unat (drop_bit 4 c AND 0xF) < 16" "unat (c AND 0xF) < 16" for c :: u8
    using unsigned_less [of c] unfolding nibble_high nibble_low by auto
  have "unat a div 16 = unat b div 16 \<and> unat a mod 16 = unat b mod 16 \<longleftrightarrow> a = b"
    by (metis div_mult_mod_eq word_unat_eq_iff)
  then show ?thesis
    unfolding hex_digit_inj [OF lt(1) lt(1)] hex_digit_inj [OF lt(2) lt(2)]
      word_unat_eq_iff [of "drop_bit 4 a AND 0xF"] word_unat_eq_iff [of "a AND 0xF"]
    by (simp only: nibble_low nibble_high [unfolded nibble_low])
qed

lemma hex_inj:
  "concat (map (\<lambda>b. [hex_digit (drop_bit 4 b AND 0xF), hex_digit (b AND 0xF)]) xs) =
   concat (map (\<lambda>b. [hex_digit (drop_bit 4 b AND 0xF), hex_digit (b AND 0xF)]) ys) \<longleftrightarrow> xs = ys"
proof (induction xs arbitrary: ys)
  case (Cons x xs)
  then show ?case using hex_byte_inj by (cases ys) auto
qed (auto simp: concat_eq_Nil_conv)

section \<open>Properties\<close>

text \<open>
  C27. The one-shot SHA-256 of TagFS agrees with the standard: for a buffer of any size below
  \<open>2^32 - 64\<close> the loop of \<^verbatim>\<open>BoxHashSecure\<close> ends and the result is the SHA-256 of
  the buffer as FIPS 180-4 defines it, with the constants taken from the roots of the first primes; the
  kernel library's \<^verbatim>\<open>KSha256\<close> gives the same for every buffer. The witness evaluates to the
  digest of \<open>abc\<close> that the standard publishes.
\<close>

theorem box_hash_secure_sha256:
  assumes "length d = unat sz" and "unat sz < 2 ^ 32 - 64"
  shows "BoxHashSecure (Some d) sz = Some (fips_sha256 d) \<and> (\<forall>msg. KSha256 msg = fips_sha256 msg)"
  using BoxHashSecure_eq [OF assms] by (simp add: KSha256_eq_reference reference_is_standard)

theorem box_hash_secure_sha256_witness:
  "BoxHashSecure (Some [0x61, 0x62, 0x63]) 3 = Some
     [0xba, 0x78, 0x16, 0xbf, 0x8f, 0x01, 0xcf, 0xea, 0x41, 0x41, 0x40, 0xde, 0x5d, 0xae, 0x22, 0x23,
      0xb0, 0x03, 0x61, 0xa3, 0x96, 0x17, 0x7a, 0x9c, 0xb4, 0x10, 0xff, 0x61, 0xf2, 0x00, 0x15, 0xad]"
  using box_hash_secure_sha256 [of "[0x61, 0x62, 0x63]" 3] by (simp add: abc_digest)

lemma BoxHashContent_total: "\<exists>h. BoxHashContent data ctx = Some h \<and> length h = 32"
proof (cases data)
  case (Some d)
  obtain l0 l1 l2 l3 where "WyHash64 d (lane_seed ctx 0) = Some l0" "WyHash64 d (lane_seed ctx 1) = Some l1"
      "WyHash64 d (lane_seed ctx 2) = Some l2" "WyHash64 d (lane_seed ctx 3) = Some l3"
    using WyHash64_total by metis
  then show ?thesis using Some by (simp add: BoxHashContent_def)
qed (simp add: BoxHashContent_def)

text \<open>
  C40. The content hash never reads outside its buffer: for every buffer, of every length (the
  short, the 16-byte-stripe and the 48-byte-stripe cases alike), and every context, all reads of
  \<^verbatim>\<open>WyHash64\<close> are in bounds and the result has exactly the 32 bytes of a BoxHash.
\<close>

theorem box_hash_content_in_bounds:
  "\<exists>h i. BoxHashContent data ctx = Some h \<and> length h = 32 \<and> BoxHashIntegrity data ctx = Some i"
proof -
  obtain h where "BoxHashContent data ctx = Some h" "length h = 32" using BoxHashContent_total by blast
  moreover have "\<exists>i. BoxHashIntegrity data ctx = Some i"
    using WyHash64_total by (cases data) (simp_all add: BoxHashIntegrity_def)
  ultimately show ?thesis by blast
qed

text \<open>
  Identity of hashes: the constant-time comparison of two 32-byte hashes is equality, and two
  hashes print to the same hexadecimal text exactly when they are equal.
\<close>

theorem box_hash_identity:
  assumes "length x = 32" and "length y = 32" and "out_size \<ge> 65"
  shows "(BoxHashEqual (Some x) (Some y) \<longleftrightarrow> x = y) \<and>
         (BoxHashToHex x out_size = BoxHashToHex y out_size \<longleftrightarrow> x = y)"
  using assms BoxHashEqual_iff [of x y] hex_inj [of x y] by (simp add: BoxHashToHex_def)

theorem box_hash_identity_witness:
  "\<not> BoxHashEqual (Some (replicate 32 0)) (Some (replicate 31 0 @ [1])) \<and>
   BoxHashToHex (replicate 32 0) 65 \<noteq> BoxHashToHex (replicate 31 0 @ [1]) 65"
  using box_hash_identity [of "replicate 32 0" "replicate 31 0 @ [1]" 65] by (simp add: eval_nat_numeral)

end
