(* ===== verification/Codec.thy ===== *)
theory Codec
  imports Prelude
begin

text \<open>
  The interface between a block compressor and the code that stores its output. A codec
  is a pair of an encoder and a decoder over byte strings, both parametrised by a context
  (the dictionary of the LZ codec; unused by RLE). The encoder reports an error code and
  the bytes written; the decoder is told how many bytes to produce. The law is a round
  trip on the inputs the codec is \<open>good\<close> for.

  The client lemma is about the way the kernel stores a block: compressed if the encoder
  succeeded and saved space, verbatim otherwise.
\<close>

locale codec =
  fixes enc :: "'c \<Rightarrow> bytes \<Rightarrow> error_t \<times> bytes"
    and dec :: "'c \<Rightarrow> nat \<Rightarrow> bytes \<Rightarrow> error_t \<times> bytes"
    and good :: "'c \<Rightarrow> bytes \<Rightarrow> bool"
  assumes round_trip: "good c inp \<Longrightarrow> enc c inp = (OK, out) \<Longrightarrow> dec c (length inp) out = (OK, inp)"
begin

text \<open>What is stored for an input: the bytes, and whether they are compressed.\<close>

definition pack :: "'c \<Rightarrow> bytes \<Rightarrow> bool \<times> bytes" where
  "pack c inp = (let (e, out) = enc c inp in
     if e \<noteq> OK \<or> length inp \<le> length out then (False, inp) else (True, out))"

definition unpack :: "'c \<Rightarrow> nat \<Rightarrow> bool \<times> bytes \<Rightarrow> error_t \<times> bytes" where
  "unpack c n = (\<lambda>(compressed, stored). if compressed then dec c n stored else (OK, take n stored))"

lemma pack_no_longer: "length (snd (pack c inp)) \<le> length inp"
  by (auto simp: pack_def split: prod.splits)

lemma unpack_pack: "good c inp \<Longrightarrow> unpack c (length inp) (pack c inp) = (OK, inp)"
  by (auto simp: pack_def unpack_def round_trip split: prod.splits)

end

end
