(* ===== verification/BcdcRle.thy ===== *)
theory BcdcRle
  imports Codec
begin

text \<open>
  The run-length codec of kernel/tagfs/bcdc/bcdc.c (\<^verbatim>\<open>BcdcRLE_Compress\<close>,
  \<^verbatim>\<open>BcdcRLE_Decompress\<close>). The input arrays are byte lists; the position \<^verbatim>\<open>in_pos\<close> is
  represented by the suffix of the input still to be read, and \<^verbatim>\<open>out_pos\<close> is the length
  of the output written so far. All positions are at most the 16-bit sizes passed in, so the
  \<^verbatim>\<open>uint16_t\<close> counters do not wrap.
\<close>

definition BCDC_BLOCK_SIZE :: nat where "BCDC_BLOCK_SIZE = 4096"
definition BCDC_HEADER_SIZE :: nat where "BCDC_HEADER_SIZE = 24"
definition BCDC_MAX_COMPRESSED :: nat where "BCDC_MAX_COMPRESSED = BCDC_BLOCK_SIZE - BCDC_HEADER_SIZE"
definition BCDC_RLE_MIN_RUN :: nat where "BCDC_RLE_MIN_RUN = 3"
definition BCDC_RLE_ESCAPE :: u8 where "BCDC_RLE_ESCAPE = 0xFE"

section \<open>Compression\<close>

text \<open>The inner loop: extend the run of \<open>byte\<close> while the next byte is equal and the run is below 255.\<close>

fun rle_run :: "u8 \<Rightarrow> bytes \<Rightarrow> nat \<Rightarrow> nat" where
  "rle_run byte [] run_length = run_length"
| "rle_run byte (x # xs) run_length =
     (if x = byte \<and> run_length < 255 then rle_run byte xs (Suc run_length) else run_length)"

lemma rle_run_ge: "n \<le> rle_run byte xs n"
  by (induction byte xs n rule: rle_run.induct) auto

text \<open>
  The outer loop. It returns the input it has not consumed and the output: a \<^verbatim>\<open>break\<close>
  leaves a non-empty rest, which the caller reports as \<open>ERR_BUFFER_TOO_SMALL\<close>.
\<close>

function rle_compress_loop :: "bytes \<Rightarrow> bytes \<Rightarrow> bytes \<times> bytes" where
  "rle_compress_loop inp out =
     (if inp \<noteq> [] \<and> length out < BCDC_MAX_COMPRESSED then
        (let byte = hd inp; run_length = rle_run byte (tl inp) 1 in
         if run_length \<ge> BCDC_RLE_MIN_RUN then
           (if length out + 3 > BCDC_MAX_COMPRESSED then (inp, out)
            else rle_compress_loop (drop run_length inp) (out @ [BCDC_RLE_ESCAPE, byte, of_nat run_length]))
         else if byte = BCDC_RLE_ESCAPE then
           (if length out + 2 > BCDC_MAX_COMPRESSED then (inp, out)
            else rle_compress_loop (tl inp) (out @ [BCDC_RLE_ESCAPE, BCDC_RLE_ESCAPE]))
         else
           (if length out + 1 > BCDC_MAX_COMPRESSED then (inp, out)
            else rle_compress_loop (tl inp) (out @ [byte])))
      else (inp, out))"
  by pat_completeness auto
termination
  by (relation "measure (\<lambda>(inp, out). length inp)")
    (auto simp: Let_def BCDC_RLE_MIN_RUN_def)

declare rle_compress_loop.simps [simp del]

definition BcdcRLE_Compress :: "bytes \<Rightarrow> error_t \<times> bytes" where
  "BcdcRLE_Compress inp =
     (if length inp = 0 then (ERR_INVALID_ARGUMENT, [])
      else let (rest, out) = rle_compress_loop inp [] in
        (if rest \<noteq> [] then ERR_BUFFER_TOO_SMALL else OK, out))"

section \<open>Decompression\<close>

text \<open>
  \<open>cap\<close> is the value of \<^verbatim>\<open>*output_size\<close> at entry, the number of bytes wanted. On a corrupt
  input the function returns early and \<^verbatim>\<open>*output_size\<close> is left at \<open>cap\<close>; the output bytes
  written so far are returned with the error.
\<close>

fun rle_decompress_loop :: "nat \<Rightarrow> bytes \<Rightarrow> bytes \<Rightarrow> error_t \<times> bytes" where
  "rle_decompress_loop cap [] out = (OK, out)"
| "rle_decompress_loop cap (byte # inp) out =
     (if length out < cap then
        (if byte = BCDC_RLE_ESCAPE then
           (case inp of
              [] \<Rightarrow> (ERR_CORRUPTED, out)
            | run_byte # inp1 \<Rightarrow>
                if run_byte = BCDC_RLE_ESCAPE then
                  (if length out \<ge> cap then (ERR_BUFFER_TOO_SMALL, out)
                   else rle_decompress_loop cap inp1 (out @ [BCDC_RLE_ESCAPE]))
                else
                  (case inp1 of
                     [] \<Rightarrow> (ERR_CORRUPTED, out)
                   | run_length # inp2 \<Rightarrow>
                       rle_decompress_loop cap inp2
                         (out @ replicate (min (unat run_length) (cap - length out)) run_byte)))
         else
           (if length out \<ge> cap then (ERR_BUFFER_TOO_SMALL, out)
            else rle_decompress_loop cap inp (out @ [byte])))
      else (OK, out))"

definition BcdcRLE_Decompress :: "nat \<Rightarrow> bytes \<Rightarrow> error_t \<times> bytes" where
  "BcdcRLE_Decompress cap inp =
     (if length inp = 0 then (ERR_INVALID_ARGUMENT, [])
      else rle_decompress_loop cap inp [])"

section \<open>Round trip\<close>

text \<open>Something comes out of every input that is not empty.\<close>

lemma rle_loop_grows: "out \<noteq> [] \<Longrightarrow> snd (rle_compress_loop inp out) \<noteq> []"
proof (induction inp out rule: rle_compress_loop.induct)
  case (1 inp out)
  then show ?case
    by (subst rle_compress_loop.simps) (cases "BCDC_RLE_MIN_RUN \<le> rle_run (hd inp) (tl inp) (Suc 0)";
      cases "hd inp = BCDC_RLE_ESCAPE"; simp add: Let_def)
qed

lemma rle_output: "BcdcRLE_Compress inp = (OK, out) \<Longrightarrow> out \<noteq> []"
proof
  assume "BcdcRLE_Compress inp = (OK, out)" "out = []"
  then have r: "rle_compress_loop inp [] = ([], [])" "inp \<noteq> []" by (auto simp: BcdcRLE_Compress_def split: prod.splits if_splits)
  have "snd (rle_compress_loop xs ys) \<noteq> []" if "ys \<noteq> []" for xs ys using rle_loop_grows [OF that] .
  then have "rle_compress_loop xs ys \<noteq> ([], [])" if "ys \<noteq> []" for xs ys using that by (metis snd_conv)
  then show False using r by (subst (asm) rle_compress_loop.simps) (auto simp: Let_def split: if_splits)
qed

text \<open>
  The encoder writes a run of three or more escape bytes as \<open>FE FE n\<close>, which the decoder reads
  as one literal escape followed by the byte \<open>n\<close>. \<open>no_escape_run\<close> excludes exactly these
  runs.
\<close>

fun no_escape_run :: "bytes \<Rightarrow> bool" where
  "no_escape_run (a # b # c # xs) =
     (\<not> (a = BCDC_RLE_ESCAPE \<and> b = BCDC_RLE_ESCAPE \<and> c = BCDC_RLE_ESCAPE) \<and> no_escape_run (b # c # xs))"
| "no_escape_run _ = True"

lemma no_escape_run_drop: "no_escape_run xs \<Longrightarrow> no_escape_run (drop n xs)"
proof (induction xs arbitrary: n rule: no_escape_run.induct)
  case (1 a b c xs)
  then show ?case by (cases n) auto
qed (auto simp: drop_Cons split: nat.splits)

lemma rle_run_le: "n \<le> 255 \<Longrightarrow> rle_run byte xs n \<le> 255"
  by (induction byte xs n rule: rle_run.induct) auto

text \<open>The run really is a run: the bytes it covers all equal \<open>byte\<close>.\<close>

lemma rle_run_replicate:
  "rle_run byte xs n \<le> n + length xs \<and> take (rle_run byte xs n - n) xs = replicate (rle_run byte xs n - n) byte"
proof (induction byte xs n rule: rle_run.induct)
  case (2 byte x xs n)
  show ?case
  proof (cases "x = byte \<and> n < 255")
    case True
    then have "rle_run byte xs (Suc n) - n = Suc (rle_run byte xs (Suc n) - Suc n)"
      using rle_run_ge [of "Suc n" byte xs] by simp
    then show ?thesis using 2 True by simp
  qed auto
qed simp

lemma rle_run_split:
  assumes "inp \<noteq> []"
  defines "r \<equiv> rle_run (hd inp) (tl inp) 1"
  shows "1 \<le> r" "r \<le> 255" "r \<le> length inp" "inp = replicate r (hd inp) @ drop r inp"
proof -
  show r1: "1 \<le> r" and "r \<le> 255" using rle_run_ge rle_run_le by (auto simp: r_def)
  obtain b xs where inp: "inp = b # xs" using assms by (cases inp) auto
  note rr = rle_run_replicate [of b xs 1]
  show "r \<le> length inp" using rr by (simp add: r_def inp)
  have "replicate r b = b # replicate (r - 1) b" using r1 by (cases r) auto
  also have "replicate (r - 1) b = take (r - 1) xs" using rr by (simp add: r_def inp)
  also have "b # take (r - 1) xs = take r inp" using r1 by (cases r) (auto simp: inp)
  finally show "inp = replicate r (hd inp) @ drop r inp" by (simp add: inp flip: append_take_drop_id)
qed

lemma no_escape_run_head:
  assumes "inp \<noteq> []" "no_escape_run inp" "3 \<le> rle_run (hd inp) (tl inp) 1"
  shows "hd inp \<noteq> BCDC_RLE_ESCAPE"
proof
  assume esc: "hd inp = BCDC_RLE_ESCAPE"
  define r where "r = rle_run (hd inp) (tl inp) 1"
  have "inp = replicate r BCDC_RLE_ESCAPE @ drop r inp" "3 \<le> r"
    using rle_run_split(4) [OF assms(1)] assms(3) esc by (auto simp: r_def)
  then have "no_escape_run (replicate 3 BCDC_RLE_ESCAPE @ replicate (r - 3) BCDC_RLE_ESCAPE @ drop r inp)"
    using assms(2) by (metis append_assoc le_add_diff_inverse replicate_add)
  then show False by (simp add: numeral_eq_Suc)
qed

text \<open>
  Decoding what one iteration of the encoder wrote, in front of anything: a literal, an
  escaped escape, or a run, as long as there is room for it.
\<close>

lemma rle_decode_literal:
  "length out < cap \<Longrightarrow> byte \<noteq> BCDC_RLE_ESCAPE \<Longrightarrow>
     rle_decompress_loop cap (byte # rest) out = rle_decompress_loop cap rest (out @ [byte])"
  by simp

lemma rle_decode_escape:
  "length out < cap \<Longrightarrow>
     rle_decompress_loop cap (BCDC_RLE_ESCAPE # BCDC_RLE_ESCAPE # rest) out
       = rle_decompress_loop cap rest (out @ [BCDC_RLE_ESCAPE])"
  by simp

lemma rle_decode_run:
  assumes "1 \<le> r" "r \<le> 255" "length out + r \<le> cap" "byte \<noteq> BCDC_RLE_ESCAPE"
  shows "rle_decompress_loop cap (BCDC_RLE_ESCAPE # byte # of_nat r # rest) out
           = rle_decompress_loop cap rest (out @ replicate r byte)"
proof -
  have "unat (of_nat r :: u8) = r" using assms(2) by (simp add: unat_of_nat)
  then show ?thesis using assms by simp
qed

text \<open>
  One iteration of the encoder that does not run out of room: it consumes a segment and
  writes code that the decoder turns back into that segment.
\<close>

lemma rle_iteration:
  assumes ne: "inp \<noteq> []" and res: "rle_compress_loop inp out = ([], out')" and ok: "no_escape_run inp"
  obtains seg code rest where "inp = seg @ rest" "seg \<noteq> []"
    "rle_compress_loop rest (out @ code) = ([], out')"
    "\<And>cap prefix more. length prefix + length seg \<le> cap \<Longrightarrow>
       rle_decompress_loop cap (code @ more) prefix = rle_decompress_loop cap more (prefix @ seg)"
proof -
  define r where "r = rle_run (hd inp) (tl inp) 1"
  note r = rle_run_split [OF ne, folded r_def]
  note step = res [unfolded rle_compress_loop.simps [of inp out] Let_def, folded r_def]
  have lt: "length out < BCDC_MAX_COMPRESSED" using step ne by (auto split: if_splits)
  obtain b xs where inp: "inp = b # xs" using ne by (cases inp) auto
  consider "BCDC_RLE_MIN_RUN \<le> r" | "r < BCDC_RLE_MIN_RUN" "b = BCDC_RLE_ESCAPE"
    | "r < BCDC_RLE_MIN_RUN" "b \<noteq> BCDC_RLE_ESCAPE" by linarith
  then show thesis
  proof cases
    case 1
    then have go: "rle_compress_loop (drop r inp) (out @ [BCDC_RLE_ESCAPE, b, of_nat r]) = ([], out')"
      using step lt by (auto simp: inp split: if_splits)
    have "b \<noteq> BCDC_RLE_ESCAPE"
      using no_escape_run_head [OF ne ok] 1 by (simp add: r_def inp BCDC_RLE_MIN_RUN_def)
    then show thesis using go r rle_decode_run [of r _ _ b]
      by (intro that [of "replicate r b" "drop r inp" "[BCDC_RLE_ESCAPE, b, of_nat r]"]) (auto simp: inp)
  next
    case 2
    then have "rle_compress_loop xs (out @ [BCDC_RLE_ESCAPE, BCDC_RLE_ESCAPE]) = ([], out')"
      using step lt by (auto simp: inp split: if_splits)
    then show thesis using 2
      by (intro that [of "[b]" xs "[BCDC_RLE_ESCAPE, BCDC_RLE_ESCAPE]"]) (auto simp: inp)
  next
    case 3
    then have "rle_compress_loop xs (out @ [b]) = ([], out')"
      using step lt by (auto simp: inp split: if_splits)
    then show thesis using 3 by (intro that [of "[b]" xs "[b]"]) (auto simp: inp)
  qed
qed

lemma rle_loop_round_trip:
  assumes "rle_compress_loop inp out = ([], out')" "no_escape_run inp" "length prefix + length inp \<le> cap"
  shows "\<exists>code. out' = out @ code \<and> rle_decompress_loop cap code prefix = (OK, prefix @ inp)"
  using assms
proof (induction "length inp" arbitrary: inp out prefix rule: less_induct)
  case less
  show ?case
  proof (cases "inp = []")
    case True
    then show ?thesis using less.prems(1) by (simp add: rle_compress_loop.simps)
  next
    case False
    obtain seg code rest where seg: "inp = seg @ rest" "seg \<noteq> []"
      and go: "rle_compress_loop rest (out @ code) = ([], out')"
      and dec: "\<And>cap prefix more. length prefix + length seg \<le> cap \<Longrightarrow>
        rle_decompress_loop cap (code @ more) prefix = rle_decompress_loop cap more (prefix @ seg)"
      using rle_iteration [OF False less.prems(1,2)] by blast
    have "no_escape_run rest" using no_escape_run_drop [OF less.prems(2), of "length seg"] by (simp add: seg)
    then obtain code' where "out' = (out @ code) @ code'"
      "rle_decompress_loop cap code' (prefix @ seg) = (OK, (prefix @ seg) @ rest)"
      using less.hyps [of rest "out @ code" "prefix @ seg"] seg go less.prems(3) by auto
    then show ?thesis using dec [of prefix cap code'] less.prems(3) seg
      by (intro exI [of _ "code @ code'"]) simp
  qed
qed

lemma rle_round_trip_ok:
  assumes "no_escape_run inp" "BcdcRLE_Compress inp = (OK, out)"
  shows "BcdcRLE_Decompress (length inp) out = (OK, inp)"
proof -
  from assms(2) have ne: "inp \<noteq> []" and l: "rle_compress_loop inp [] = ([], out)"
    by (auto simp: BcdcRLE_Compress_def split: if_splits prod.splits)
  obtain code where "out = [] @ code" and d: "rle_decompress_loop (length inp) out [] = (OK, inp)"
    using rle_loop_round_trip [OF l assms(1), of "[]" "length inp"] by auto
  from d ne have "out \<noteq> []" by auto
  with d show ?thesis by (simp add: BcdcRLE_Decompress_def)
qed

interpretation rle: codec "\<lambda>_. BcdcRLE_Compress" "\<lambda>_. BcdcRLE_Decompress" "\<lambda>_. no_escape_run"
  by unfold_locales (rule rle_round_trip_ok)

section \<open>Bounds\<close>

text \<open>Neither direction writes past its limit, whatever the input.\<close>

lemma rle_compress_loop_bound:
  "length out \<le> BCDC_MAX_COMPRESSED \<Longrightarrow> length (snd (rle_compress_loop inp out)) \<le> BCDC_MAX_COMPRESSED"
proof (induction inp out rule: rle_compress_loop.induct)
  case (1 inp out)
  then show ?case using rle_compress_loop.simps [of inp out] by (auto simp: Let_def)
qed

lemma rle_compress_bound: "length (snd (BcdcRLE_Compress inp)) \<le> BCDC_MAX_COMPRESSED"
  using rle_compress_loop_bound [of "[]" inp]
  by (auto simp: BcdcRLE_Compress_def split: prod.splits)

lemma rle_decompress_loop_bound:
  "length out \<le> cap \<Longrightarrow> length (snd (rle_decompress_loop cap inp out)) \<le> cap"
  by (induction cap inp out rule: rle_decompress_loop.induct) (auto split: list.splits)

lemma rle_decompress_bound: "length (snd (BcdcRLE_Decompress cap inp)) \<le> cap"
  by (simp add: BcdcRLE_Decompress_def rle_decompress_loop_bound)

end
