(* ===== verification/BcdcLz.thy ===== *)
theory BcdcLz
  imports BcdcRle
begin

unbundle bit_operations_syntax

text \<open>
  The LZ codec of kernel/tagfs/bcdc/bcdc.c (\<^verbatim>\<open>BcdcLZ_Compress\<close>, \<^verbatim>\<open>BcdcLZ_Decompress\<close>), with
  its hash chains and its optional preset dictionary. \<^verbatim>\<open>in_pos\<close> is an index into the input
  list, \<^verbatim>\<open>out_pos\<close> the length of the output. The chain array is allocated and not
  initialised by the code: its contents are an argument, and every lemma holds for all of
  them. A dictionary pointer is a \<open>bytes option\<close>. Masks, shifts and the OR of disjoint bit
  fields are written with \<open>mod\<close>, \<open>div\<close> and \<open>+\<close>. The \<^verbatim>\<open>level\<close> argument is ignored by the
  code and left out.
\<close>

definition BCDC_LZ_MIN_MATCH :: nat where "BCDC_LZ_MIN_MATCH = 3"
definition BCDC_LZ_MAX_MATCH :: nat where "BCDC_LZ_MAX_MATCH = 258"
definition BCDC_LZ_WINDOW_SIZE :: nat where "BCDC_LZ_WINDOW_SIZE = 4096"
definition BCDC_LZ_HASH_SIZE :: nat where "BCDC_LZ_HASH_SIZE = 4096"

lemmas lz_consts = BCDC_LZ_MIN_MATCH_def BCDC_LZ_MAX_MATCH_def BCDC_LZ_WINDOW_SIZE_def BCDC_LZ_HASH_SIZE_def

section \<open>Hash chains\<close>

definition bcdc_lz_hash :: "bytes \<Rightarrow> nat \<Rightarrow> nat" where
  "bcdc_lz_hash p i =
     (let h0 = ucast (p ! i) :: u32;
          h1 = (h0 * 2654435761) XOR ucast (p ! (i + 1));
          h2 = (h1 * 2654435761) XOR ucast (p ! (i + 2))
      in unat (h2 AND 0xFFF))"

record BcdcLZWork =
  lz_head :: "int list"
  lz_chain :: "int list"

definition bcdc_lz_chain_insert :: "BcdcLZWork \<Rightarrow> bytes \<Rightarrow> nat \<Rightarrow> BcdcLZWork" where
  "bcdc_lz_chain_insert w src pos =
     (let h = bcdc_lz_hash src pos in
      w\<lparr>lz_chain := (lz_chain w)[pos := lz_head w ! h], lz_head := (lz_head w)[h := int pos]\<rparr>)"

section \<open>Compression\<close>

text \<open>\<^verbatim>\<open>while (len < max_len && cand[len] == in[in_pos + len]) len++;\<close>\<close>

function lz_common :: "bytes \<Rightarrow> nat \<Rightarrow> bytes \<Rightarrow> nat \<Rightarrow> nat \<Rightarrow> nat \<Rightarrow> nat" where
  "lz_common a i b j max_len len =
     (if len < max_len \<and> a ! (i + len) = b ! (j + len) then lz_common a i b j max_len (Suc len) else len)"
  by pat_completeness auto
termination
  by (relation "measure (\<lambda>(a, i, b, j, max_len, len). max_len - len)") auto

declare lz_common.simps [simp del]

text \<open>
  The walk along the hash chain from \<open>cur\<close>, at most \<open>chain_budget\<close> candidates. The pair is
  \<open>(best_offset, best_length)\<close>.
\<close>

primrec lz_search_chain :: "bytes \<Rightarrow> nat \<Rightarrow> int list \<Rightarrow> nat \<Rightarrow> int \<Rightarrow> nat \<times> nat \<Rightarrow> nat \<times> nat" where
  "lz_search_chain inp in_pos chain 0 cur best = best"
| "lz_search_chain inp in_pos chain (Suc chain_budget) cur best =
     (if 0 \<le> cur \<and> cur < int in_pos then
        (let offset = in_pos - nat cur in
         if offset > BCDC_LZ_WINDOW_SIZE then best
         else
           let max_len = min (min (length inp - in_pos) BCDC_LZ_MAX_MATCH) offset;
               len = lz_common inp (nat cur) inp in_pos max_len 0
           in if len \<ge> BCDC_LZ_MIN_MATCH \<and> len > snd best then
                (if len = BCDC_LZ_MAX_MATCH then (offset, len)
                 else lz_search_chain inp in_pos chain chain_budget (chain ! nat cur) (offset, len))
              else lz_search_chain inp in_pos chain chain_budget (chain ! nat cur) best)
      else best)"

text \<open>
  The scan of the preset dictionary: the body of its loop at position \<open>p\<close>, which returns
  whether the loop breaks and the best match so far, and the loop.
\<close>

definition lz_dict_try :: "bytes \<Rightarrow> nat \<Rightarrow> bytes \<Rightarrow> nat \<Rightarrow> nat \<times> nat \<Rightarrow> bool \<times> nat \<times> nat" where
  "lz_dict_try inp in_pos dict p best =
     (if dict ! p \<noteq> inp ! in_pos \<or> dict ! (p + 1) \<noteq> inp ! (in_pos + 1) then (False, best)
      else
        let encoded_offset = in_pos + (length dict - p) in
        if encoded_offset = 0 \<or> encoded_offset > 0x1FFF then (False, best)
        else
          let max_len = min (length inp - in_pos) BCDC_LZ_MAX_MATCH;
              cap = min (length dict - p) max_len;
              len = lz_common dict p inp in_pos cap 0
          in if len \<ge> BCDC_LZ_MIN_MATCH \<and> len > snd best
             then (len = BCDC_LZ_MAX_MATCH, encoded_offset, len) else (False, best))"

function lz_search_dict :: "bytes \<Rightarrow> nat \<Rightarrow> bytes \<Rightarrow> nat \<Rightarrow> nat \<times> nat \<Rightarrow> nat \<times> nat" where
  "lz_search_dict inp in_pos dict p best =
     (if p + 1 < length dict then
        (let r = lz_dict_try inp in_pos dict p best in
         if fst r then snd r else lz_search_dict inp in_pos dict (Suc p) (snd r))
      else best)"
  by pat_completeness auto
termination
  by (relation "measure (\<lambda>(inp, in_pos, dict, p, best). length dict - p)") auto

declare lz_search_dict.simps [simp del]

definition lz_best :: "bytes \<Rightarrow> bytes option \<Rightarrow> nat \<Rightarrow> BcdcLZWork \<Rightarrow> nat \<times> nat" where
  "lz_best inp dictionary in_pos w =
     (let best = lz_search_chain inp in_pos (lz_chain w) 64 (lz_head w ! bcdc_lz_hash inp in_pos) (0, 0) in
      case dictionary of
        Some dict \<Rightarrow>
          if length dict > 0 \<and> snd best < BCDC_LZ_MAX_MATCH then lz_search_dict inp in_pos dict 0 best else best
      | None \<Rightarrow> best)"

text \<open>
  The loop that advances over a match and inserts the positions it passes; \<open>k\<close> counts the
  iterations left.
\<close>

fun lz_advance :: "bytes \<Rightarrow> nat \<Rightarrow> BcdcLZWork \<Rightarrow> nat \<Rightarrow> BcdcLZWork \<times> nat" where
  "lz_advance inp 0 w in_pos = (w, in_pos)"
| "lz_advance inp (Suc k) w in_pos =
     (if in_pos < length inp then
        lz_advance inp k
          (if in_pos + 3 \<le> length inp then bcdc_lz_chain_insert w inp in_pos else w) (Suc in_pos)
      else (w, in_pos))"

lemma lz_advance_pos: "in_pos \<le> length inp \<Longrightarrow> snd (lz_advance inp k w in_pos) = min (length inp) (in_pos + k)"
  by (induction inp k w in_pos rule: lz_advance.induct) auto

text \<open>The three bytes of a match: length in 8 bits, offset in 13.\<close>

definition lz_token :: "nat \<Rightarrow> nat \<Rightarrow> bytes" where
  "lz_token enc_len best_offset =
     [of_nat (128 + enc_len mod 128), of_nat (best_offset mod 256),
      of_nat (128 * (enc_len div 128 mod 2) + best_offset div 256 mod 32)]"

text \<open>The last one or two bytes of the input are copied as they are.\<close>

definition lz_copy_tail :: "bytes \<Rightarrow> nat \<Rightarrow> bytes \<Rightarrow> nat \<times> bytes" where
  "lz_copy_tail inp in_pos out =
     (let n = min (length inp - in_pos) (BCDC_MAX_COMPRESSED - length out)
      in (in_pos + n, out @ take n (drop in_pos inp)))"

function lz_compress_loop :: "bytes \<Rightarrow> bytes option \<Rightarrow> nat \<Rightarrow> bytes \<Rightarrow> BcdcLZWork \<Rightarrow> nat \<times> bytes" where
  "lz_compress_loop inp dictionary in_pos out w =
     (if in_pos < length inp \<and> length out < BCDC_MAX_COMPRESSED then
        (if in_pos + 3 > length inp then lz_copy_tail inp in_pos out
         else
           let best = lz_best inp dictionary in_pos w; best_offset = fst best; best_length = snd best in
           if best_length \<ge> BCDC_LZ_MIN_MATCH \<and> best_offset > 0 \<and> best_offset \<le> 0x1FFF then
             (if length out + 3 > BCDC_MAX_COMPRESSED then (in_pos, out)
              else
                let enc_len = min (best_length - BCDC_LZ_MIN_MATCH) 255;
                    adv = lz_advance inp (BCDC_LZ_MIN_MATCH + enc_len) w in_pos
                in lz_compress_loop inp dictionary (snd adv) (out @ lz_token enc_len best_offset) (fst adv))
           else
             (if length out + 1 \<ge> BCDC_MAX_COMPRESSED then (in_pos, out)
              else lz_compress_loop inp dictionary (Suc in_pos) (out @ [inp ! in_pos])
                     (bcdc_lz_chain_insert w inp in_pos)))
      else (in_pos, out))"
  by pat_completeness auto
termination
  by (relation "measure (\<lambda>(inp, dictionary, in_pos, out, w). length inp - in_pos)")
    (auto simp: Let_def lz_advance_pos lz_consts)

declare lz_compress_loop.simps [simp del]

text \<open>
  \<open>mem_ok\<close> says whether the two allocations succeed and \<open>chain0\<close> is what the chain array
  holds when it is allocated.
\<close>

definition BcdcLZ_Compress :: "bool \<Rightarrow> int list \<Rightarrow> bytes option \<Rightarrow> bytes \<Rightarrow> error_t \<times> bytes" where
  "BcdcLZ_Compress mem_ok chain0 dictionary inp =
     (if length inp = 0 then (ERR_INVALID_ARGUMENT, [])
      else if \<not> mem_ok then (ERR_NO_MEMORY, [])
      else
        let (in_pos, out) = lz_compress_loop inp dictionary 0 []
              \<lparr>lz_head = replicate BCDC_LZ_HASH_SIZE (- 1), lz_chain = chain0\<rparr>
        in (if in_pos < length inp then ERR_BUFFER_TOO_SMALL else OK, out))"

section \<open>Decompression\<close>

text \<open>The two copy loops: from the dictionary (running on into the output) and from the window.\<close>

function lz_copy_dict :: "bytes \<Rightarrow> nat \<Rightarrow> nat \<Rightarrow> nat \<Rightarrow> nat \<Rightarrow> bytes \<Rightarrow> error_t \<times> bytes" where
  "lz_copy_dict dictionary dict_offset match_len cap i out =
     (if i < match_len \<and> length out < cap then
        (let src = (dict_offset + i) mod 65536 in
         if src < length dictionary then
           lz_copy_dict dictionary dict_offset match_len cap (Suc i) (out @ [dictionary ! src])
         else
           let out_src = src - length dictionary in
           if out_src \<ge> length out then (ERR_CORRUPTED, out)
           else lz_copy_dict dictionary dict_offset match_len cap (Suc i) (out @ [out ! out_src]))
      else (OK, out))"
  by pat_completeness auto
termination
  by (relation "measure (\<lambda>(dictionary, dict_offset, match_len, cap, i, out). match_len - i)") auto

declare lz_copy_dict.simps [simp del]

fun lz_copy_window :: "nat \<Rightarrow> nat \<Rightarrow> nat \<Rightarrow> bytes \<Rightarrow> bytes" where
  "lz_copy_window match_offset cap 0 out = out"
| "lz_copy_window match_offset cap (Suc n) out =
     (if length out < cap then lz_copy_window match_offset cap n (out @ [out ! (length out - match_offset)])
      else out)"

text \<open>One match token, given its three bytes.\<close>

definition lz_decode_match :: "bytes option \<Rightarrow> nat \<Rightarrow> u8 \<Rightarrow> u8 \<Rightarrow> u8 \<Rightarrow> bytes \<Rightarrow> error_t \<times> bytes" where
  "lz_decode_match dictionary cap token offset_lo byte2 out =
     (let match_len = unat token mod 128 + 128 * (unat byte2 div 128) + BCDC_LZ_MIN_MATCH;
          match_offset = unat offset_lo + 256 * (unat byte2 mod 32)
      in
      if match_offset = 0 then (ERR_CORRUPTED, out)
      else if match_offset > length out then
        (case dictionary of
           None \<Rightarrow> (ERR_CORRUPTED, out)
         | Some dict \<Rightarrow>
             if length dict = 0 then (ERR_CORRUPTED, out)
             else
               let back = match_offset - length out in
               if back > length dict then (ERR_CORRUPTED, out)
               else lz_copy_dict dict (length dict - back) match_len cap 0 out)
      else (OK, lz_copy_window match_offset cap match_len out))"

function lz_decompress_loop :: "bytes option \<Rightarrow> nat \<Rightarrow> bytes \<Rightarrow> bytes \<Rightarrow> error_t \<times> bytes" where
  "lz_decompress_loop dictionary cap inp out =
     (if inp \<noteq> [] \<and> length out < cap then
        (let token = hd inp; rest = tl inp in
         if unat token \<ge> 128 then
           (if length rest < 2 then (ERR_CORRUPTED, out)
            else
              let r = lz_decode_match dictionary cap token (rest ! 0) (rest ! 1) out in
              if fst r \<noteq> OK then r else lz_decompress_loop dictionary cap (drop 2 rest) (snd r))
         else
           (if length out \<ge> cap then (ERR_BUFFER_TOO_SMALL, out)
            else lz_decompress_loop dictionary cap rest (out @ [token])))
      else (OK, out))"
  by pat_completeness auto
termination
  by (relation "measure (\<lambda>(dictionary, cap, inp, out). length inp)") auto

declare lz_decompress_loop.simps [simp del]

definition BcdcLZ_Decompress :: "bytes option \<Rightarrow> nat \<Rightarrow> bytes \<Rightarrow> error_t \<times> bytes" where
  "BcdcLZ_Decompress dictionary cap inp =
     (if length inp = 0 then (ERR_INVALID_ARGUMENT, [])
      else lz_decompress_loop dictionary cap inp [])"

section \<open>What the match finder returns\<close>

text \<open>
  \<open>lz_match_ok\<close>: a match \<open>(offset, length)\<close> at \<open>in_pos\<close> is absent, or it names bytes that
  equal the input at \<open>in_pos\<close>: in the window before \<open>in_pos\<close>, without overlap, or inside the
  dictionary that is thought to precede the output.
\<close>

definition lz_match_ok :: "bytes \<Rightarrow> bytes option \<Rightarrow> nat \<Rightarrow> nat \<times> nat \<Rightarrow> bool" where
  "lz_match_ok inp dictionary in_pos best \<longleftrightarrow>
     (let off = fst best; len = snd best in
      len = 0 \<or>
      BCDC_LZ_MIN_MATCH \<le> len \<and> len \<le> BCDC_LZ_MAX_MATCH \<and> in_pos + len \<le> length inp \<and> 0 < off \<and> off \<le> 0x1FFF \<and>
      (if off \<le> in_pos then len \<le> off \<and> (\<forall>k<len. inp ! (in_pos - off + k) = inp ! (in_pos + k))
       else case dictionary of
              None \<Rightarrow> False
            | Some d \<Rightarrow> off - in_pos \<le> length d \<and> len \<le> off - in_pos \<and>
                (\<forall>k<len. d ! (length d - (off - in_pos) + k) = inp ! (in_pos + k))))"

lemma lz_common_spec:
  assumes "len \<le> max_len" "\<forall>k<len. a ! (i + k) = b ! (j + k)"
  shows "lz_common a i b j max_len len \<le> max_len \<and>
         (\<forall>k<lz_common a i b j max_len len. a ! (i + k) = b ! (j + k))"
  using assms
proof (induction a i b j max_len len rule: lz_common.induct)
  case (1 a i b j max_len len)
  show ?case
  proof (cases "len < max_len \<and> a ! (i + len) = b ! (j + len)")
    case True
    then have "lz_common a i b j max_len len = lz_common a i b j max_len (Suc len)"
      by (simp add: lz_common.simps [of a i b j max_len len])
    then show ?thesis using "1.IH" [OF True] True "1.prems" by (simp add: less_Suc_eq)
  next
    case False
    then have "lz_common a i b j max_len len = len" by (auto simp: lz_common.simps [of a i b j max_len len])
    then show ?thesis using "1.prems" by simp
  qed
qed

lemmas lz_common_0 = lz_common_spec [of 0, simplified]

lemma lz_search_chain_ok:
  assumes "lz_match_ok inp dictionary in_pos best" "in_pos \<le> length inp"
  shows "lz_match_ok inp dictionary in_pos (lz_search_chain inp in_pos chain budget cur best)"
  using assms
proof (induction budget arbitrary: cur best)
  case (Suc budget)
  show ?case
  proof (cases "0 \<le> cur \<and> cur < int in_pos \<and> in_pos - nat cur \<le> BCDC_LZ_WINDOW_SIZE")
    case True
    define off where "off = in_pos - nat cur"
    define max_len where "max_len = min (min (length inp - in_pos) BCDC_LZ_MAX_MATCH) off"
    define len where "len = lz_common inp (nat cur) inp in_pos max_len 0"
    have cur: "nat cur = in_pos - off" "0 < off" "off \<le> in_pos" "off \<le> BCDC_LZ_WINDOW_SIZE"
      using True by (auto simp: off_def)
    have len: "len \<le> max_len" "\<forall>k<len. inp ! (in_pos - off + k) = inp ! (in_pos + k)"
      using lz_common_0 [where a = inp and i = "nat cur" and b = inp and j = in_pos and max_len = max_len] cur
      by (auto simp: len_def)
    have new: "lz_match_ok inp dictionary in_pos (off, len)" if "BCDC_LZ_MIN_MATCH \<le> len"
      using that len cur Suc.prems(2) by (auto simp: lz_match_ok_def max_len_def lz_consts)
    show ?thesis using True Suc new
      by (auto simp: Let_def off_def [symmetric] max_len_def [symmetric] len_def [symmetric])
  next
    case False
    then show ?thesis using Suc.prems by (auto simp: Let_def)
  qed
qed simp

lemma lz_dict_try_ok:
  assumes "lz_match_ok inp (Some dict) in_pos best" "in_pos \<le> length inp" "p + 1 < length dict"
  shows "lz_match_ok inp (Some dict) in_pos (snd (lz_dict_try inp in_pos dict p best))"
proof -
  define max_len where "max_len = min (length dict - p) (min (length inp - in_pos) BCDC_LZ_MAX_MATCH)"
  define len where "len = lz_common dict p inp in_pos max_len 0"
  have len: "len \<le> max_len" "\<forall>k<len. dict ! (p + k) = inp ! (in_pos + k)"
    using lz_common_0 [where a = dict and i = p and b = inp and j = in_pos and max_len = max_len]
    by (auto simp: len_def)
  have new: "lz_match_ok inp (Some dict) in_pos (in_pos + (length dict - p), len)"
    if "BCDC_LZ_MIN_MATCH \<le> len" "in_pos + (length dict - p) \<le> 0x1FFF"
    using that len assms(2,3) by (auto simp: lz_match_ok_def Let_def max_len_def lz_consts)
  show ?thesis using assms(1) new
    by (simp add: lz_dict_try_def Let_def max_len_def [symmetric] len_def [symmetric])
qed

lemma lz_search_dict_ok:
  assumes "lz_match_ok inp (Some dict) in_pos best" "in_pos \<le> length inp"
  shows "lz_match_ok inp (Some dict) in_pos (lz_search_dict inp in_pos dict p best)"
  using assms
proof (induction inp in_pos dict p best rule: lz_search_dict.induct)
  case (1 inp in_pos dict p best)
  then show ?case
    using lz_dict_try_ok [of inp dict in_pos best p] lz_search_dict.simps [of inp in_pos dict p best]
    by (simp add: Let_def)
qed

lemma lz_best_ok: "in_pos \<le> length inp \<Longrightarrow> lz_match_ok inp dictionary in_pos (lz_best inp dictionary in_pos w)"
proof -
  assume pos: "in_pos \<le> length inp"
  have "lz_match_ok inp dictionary in_pos (0, 0)" by (simp add: lz_match_ok_def)
  from lz_search_chain_ok [OF this pos] pos show ?thesis
    by (auto simp: lz_best_def Let_def intro: lz_search_dict_ok split: option.splits)
qed

section \<open>Decoding a token\<close>

lemma lz_token_fields:
  assumes "enc_len \<le> 255" "off \<le> 0x1FFF"
  defines "b0 \<equiv> (of_nat (128 + enc_len mod 128) :: u8)"
    and "b1 \<equiv> (of_nat (off mod 256) :: u8)"
    and "b2 \<equiv> (of_nat (128 * (enc_len div 128 mod 2) + off div 256 mod 32) :: u8)"
  shows "128 \<le> unat b0" "unat b0 mod 128 + 128 * (unat b2 div 128) = enc_len"
    "unat b1 + 256 * (unat b2 mod 32) = off"
proof -
  have l: "enc_len div 128 < 2" "off div 256 < 32" using assms(1,2) by auto
  have b0: "unat b0 = 128 + enc_len mod 128" by (simp only: b0_def unat_of_nat) simp
  have b1: "unat b1 = off mod 256" by (simp only: b1_def unat_of_nat) simp
  have b2: "unat b2 = 128 * (enc_len div 128) + off div 256"
    using l by (simp only: b2_def unat_of_nat) simp
  show "128 \<le> unat b0" by (simp add: b0)
  have "unat b2 div 128 = enc_len div 128" unfolding b2 using l by (simp add: div_add1_eq)
  then show "unat b0 mod 128 + 128 * (unat b2 div 128) = enc_len" unfolding b0 by simp
  have "unat b2 mod 32 = off div 256" unfolding b2 using l by (simp add: mod_add_eq [symmetric])
  then show "unat b1 + 256 * (unat b2 mod 32) = off" unfolding b1 by simp
qed

lemma lz_copy_window_from:
  fixes out off
  defines "src \<equiv> drop (length out - off) out"
  assumes "off \<le> length out" "m + n \<le> off" "length out + m + n \<le> cap"
  shows "lz_copy_window off cap n (out @ take m src) = out @ take (m + n) src"
  using assms(3,4)
proof (induction n arbitrary: m)
  case (Suc n)
  have len: "length (out @ take m src) = length out + m" using Suc.prems assms(2) by (simp add: src_def)
  have "length out + m - off < length out" using Suc.prems assms(2) by linarith
  then have "(out @ take m src) ! (length out + m - off) = out ! (length out + m - off)"
    by (simp add: nth_append)
  also have "\<dots> = src ! m" using Suc.prems assms(2) by (simp add: src_def)
  finally have "lz_copy_window off cap (Suc n) (out @ take m src)
      = lz_copy_window off cap n (out @ take m src @ [src ! m])"
    using len Suc.prems by simp
  also have "take m src @ [src ! m] = take (Suc m) src"
    using Suc.prems assms(2) by (simp add: take_Suc_conv_app_nth src_def)
  finally show ?case using Suc.IH [of "Suc m"] Suc.prems by simp
qed simp

lemma lz_copy_window_spec:
  assumes "off \<le> length out" "length out + n \<le> cap" "n \<le> off"
  shows "lz_copy_window off cap n out = out @ take n (drop (length out - off) out)"
  using lz_copy_window_from [of off out 0 n cap] assms by simp

lemma lz_copy_dict_spec:
  assumes "dict_offset + match_len \<le> length dictionary" "length dictionary < 65536"
    "length out + (match_len - i) \<le> cap"
  shows "lz_copy_dict dictionary dict_offset match_len cap i out
           = (OK, out @ take (match_len - i) (drop (dict_offset + i) dictionary))"
  using assms
proof (induction dictionary dict_offset match_len cap i out rule: lz_copy_dict.induct)
  case (1 dictionary dict_offset match_len cap i out)
  show ?case
  proof (cases "i < match_len")
    case True
    have src: "(dict_offset + i) mod 65536 = dict_offset + i" "dict_offset + i < length dictionary"
      using True "1.prems" by auto
    have "take (match_len - i) (drop (dict_offset + i) dictionary) =
        dictionary ! (dict_offset + i) # take (match_len - Suc i) (drop (dict_offset + Suc i) dictionary)"
      using src(2) True by (metis Cons_nth_drop_Suc Suc_diff_Suc add_Suc_right take_Suc_Cons)
    then show ?thesis using "1.IH"(1) [OF _ refl] True src "1.prems"
        lz_copy_dict.simps [of dictionary dict_offset match_len cap i out]
      by (simp add: Let_def)
  next
    case False
    then show ?thesis using lz_copy_dict.simps [of dictionary dict_offset match_len cap i out] by simp
  qed
qed

text \<open>A good match, encoded and decoded where the decoder has produced the input up to \<open>in_pos\<close>.\<close>

lemma take_extend:
  assumes "in_pos + len \<le> length inp"
    "length src \<ge> len" "\<forall>k<len. src ! k = inp ! (in_pos + k)"
  shows "take in_pos inp @ take len src = take (in_pos + len) inp"
proof -
  have "take len src = take len (drop in_pos inp)"
    using assms by (intro nth_equalityI) auto
  then show ?thesis by (simp add: take_add)
qed

lemma lz_decode_match_ok:
  assumes ok: "lz_match_ok inp dictionary in_pos (off, len)" and len: "BCDC_LZ_MIN_MATCH \<le> len"
    and dsz: "\<And>d. dictionary = Some d \<Longrightarrow> length d < 65536"
    and fields: "unat b0 mod 128 + 128 * (unat b2 div 128) = len - BCDC_LZ_MIN_MATCH"
      "unat b1 + 256 * (unat b2 mod 32) = off"
    and cap: "length inp \<le> cap"
  shows "lz_decode_match dictionary cap b0 b1 b2 (take in_pos inp) = (OK, take (in_pos + len) inp)"
proof -
  have m: "in_pos + len \<le> length inp" "0 < off" "len \<noteq> 0"
    using ok len by (auto simp: lz_match_ok_def Let_def lz_consts)
  then have pos: "length (take in_pos inp) = in_pos" by simp
  have mlen: "unat b0 mod 128 + 128 * (unat b2 div 128) + BCDC_LZ_MIN_MATCH = len"
    using fields(1) len by simp
  show ?thesis
  proof (cases "off \<le> in_pos")
    case True
    then have w: "len \<le> off" "\<forall>k<len. inp ! (in_pos - off + k) = inp ! (in_pos + k)"
      using ok m by (auto simp: lz_match_ok_def Let_def)
    have "take in_pos inp @ take len (drop (in_pos - off) (take in_pos inp)) = take (in_pos + len) inp"
      using m w True by (intro take_extend) auto
    then have "lz_copy_window off cap len (take in_pos inp) = take (in_pos + len) inp"
      using lz_copy_window_spec [of off "take in_pos inp" len cap] True w m pos cap by simp
    then show ?thesis using True m pos mlen fields(2) by (simp add: lz_decode_match_def)
  next
    case False
    then obtain d where d: "dictionary = Some d" "off - in_pos \<le> length d" "len \<le> off - in_pos"
      "\<forall>k<len. d ! (length d - (off - in_pos) + k) = inp ! (in_pos + k)"
      using ok m by (auto simp: lz_match_ok_def Let_def split: option.splits)
    let ?o = "length d - (off - in_pos)"
    have "take in_pos inp @ take len (drop ?o d) = take (in_pos + len) inp"
      using m d by (intro take_extend) auto
    then have "lz_copy_dict d ?o len cap 0 (take in_pos inp) = (OK, take (in_pos + len) inp)"
      using lz_copy_dict_spec [of ?o len d "take in_pos inp" 0 cap] d dsz [OF d(1)] m pos cap by simp
    moreover have "d \<noteq> []" using d m by auto
    ultimately show ?thesis using False m pos mlen fields(2) d by (simp add: lz_decode_match_def)
  qed
qed

section \<open>Round trip\<close>

text \<open>
  Literals are written without any marking, so a byte with the top bit set would be read as
  a match token: the codec is good for seven-bit inputs. \<open>lz_good\<close> also bounds the
  dictionary by its 16-bit size field.
\<close>

definition seven_bit :: "bytes \<Rightarrow> bool" where
  "seven_bit inp \<longleftrightarrow> (\<forall>b\<in>set inp. unat b < 128)"

definition lz_good :: "bytes option \<Rightarrow> bytes \<Rightarrow> bool" where
  "lz_good dictionary inp \<longleftrightarrow> seven_bit inp \<and> (case dictionary of None \<Rightarrow> True | Some d \<Rightarrow> length d < 65536)"

lemma lz_decompress_nil [simp]: "lz_decompress_loop dictionary cap [] out = (OK, out)"
  by (simp add: lz_decompress_loop.simps [of dictionary cap "[]" out])

lemma lz_decode_literals:
  assumes "\<forall>b\<in>set lits. unat b < 128" "length out + length lits \<le> cap"
  shows "lz_decompress_loop dictionary cap (lits @ tl_code) out = lz_decompress_loop dictionary cap tl_code (out @ lits)"
  using assms
proof (induction lits arbitrary: out)
  case (Cons b lits)
  then show ?case using lz_decompress_loop.simps [of dictionary cap "b # lits @ tl_code" out] by simp
qed simp

text \<open>
  One iteration of the encoder that does not give up: it advances to \<open>in_pos'\<close> and writes
  code that the decoder, standing at \<open>in_pos\<close>, turns into the input up to \<open>in_pos'\<close>. First
  the iteration as a case distinction, then what the decoder does with each kind of code.
\<close>

lemma lz_compress_loop_cases:
  assumes pos: "in_pos < length inp" and res: "lz_compress_loop inp dictionary in_pos out w = (n, out')"
    and fin: "length inp \<le> n"
  obtains (tail) "n = length inp" "out' = out @ drop in_pos inp"
  | (token) off len w' where "lz_match_ok inp dictionary in_pos (off, len)" "BCDC_LZ_MIN_MATCH \<le> len"
      "in_pos + len \<le> length inp"
      "lz_compress_loop inp dictionary (in_pos + len) (out @ lz_token (len - BCDC_LZ_MIN_MATCH) off) w' = (n, out')"
  | (literal) w' where "lz_compress_loop inp dictionary (Suc in_pos) (out @ [inp ! in_pos]) w' = (n, out')"
proof -
  obtain off len where best: "lz_best inp dictionary in_pos w = (off, len)" by fastforce
  note step = res [unfolded lz_compress_loop.simps [of inp dictionary in_pos out w] Let_def best fst_conv snd_conv]
  have lt: "length out < BCDC_MAX_COMPRESSED" using step pos fin by (auto split: if_splits)
  have ok: "lz_match_ok inp dictionary in_pos (off, len)" using lz_best_ok [of in_pos inp dictionary w] pos best by simp
  consider "length inp < in_pos + 3"
    | "in_pos + 3 \<le> length inp" "BCDC_LZ_MIN_MATCH \<le> len" "0 < off" "off \<le> 0x1FFF"
    | "in_pos + 3 \<le> length inp" "\<not> (BCDC_LZ_MIN_MATCH \<le> len \<and> 0 < off \<and> off \<le> 0x1FFF)"
    by linarith
  then show thesis
  proof cases
    case 1
    let ?k = "min (length inp - in_pos) (BCDC_MAX_COMPRESSED - length out)"
    have "(n, out') = (in_pos + ?k, out @ take ?k (drop in_pos inp))"
      using step lt pos 1 by (simp add: lz_copy_tail_def Let_def)
    then show thesis using fin pos by (intro tail) auto
  next
    case 2
    then have b: "len \<le> BCDC_LZ_MAX_MATCH" "in_pos + len \<le> length inp"
      using ok by (auto simp: lz_match_ok_def Let_def lz_consts)
    then have enc: "min (len - BCDC_LZ_MIN_MATCH) 255 = len - BCDC_LZ_MIN_MATCH"
        "BCDC_LZ_MIN_MATCH + (len - BCDC_LZ_MIN_MATCH) = len"
      using 2 by (auto simp: lz_consts)
    have adv: "snd (lz_advance inp len w in_pos) = in_pos + len"
      using lz_advance_pos [of in_pos inp len w] pos b by simp
    have "\<not> BCDC_MAX_COMPRESSED < length out + 3" using step lt pos 2 fin by (auto split: if_splits)
    then show thesis using step lt pos 2 ok b
      by (intro token [of off len "fst (lz_advance inp len w in_pos)"]) (simp_all add: enc adv)
  next
    case 3
    then show thesis using step lt pos fin
      by (intro literal [of "bcdc_lz_chain_insert w inp in_pos"]) (auto split: if_splits)
  qed
qed

lemma lz_decode_token:
  assumes ok: "lz_match_ok inp dictionary in_pos (off, len)" and len: "BCDC_LZ_MIN_MATCH \<le> len"
    and good: "lz_good dictionary inp" and pos: "in_pos < length inp"
  shows "lz_decompress_loop dictionary (length inp) (lz_token (len - BCDC_LZ_MIN_MATCH) off @ tl_code) (take in_pos inp)
    = lz_decompress_loop dictionary (length inp) tl_code (take (in_pos + len) inp)"
proof -
  have "len - BCDC_LZ_MIN_MATCH \<le> 255" "off \<le> 0x1FFF"
    using ok len by (auto simp: lz_match_ok_def Let_def lz_consts)
  note f = lz_token_fields [OF this]
  have dsz: "length d < 65536" if "dictionary = Some d" for d using good that by (simp add: lz_good_def)
  note dec = lz_decode_match_ok [OF ok len dsz f(2,3) order.refl]
  obtain b0 b1 b2 where tok: "lz_token (len - BCDC_LZ_MIN_MATCH) off = [b0, b1, b2]" and b0: "128 \<le> unat b0"
    and d: "lz_decode_match dictionary (length inp) b0 b1 b2 (take in_pos inp) = (OK, take (in_pos + len) inp)"
    using f(1) dec by (simp only: lz_token_def)
  show ?thesis
    using lz_decompress_loop.simps [of dictionary "length inp" "[b0, b1, b2] @ tl_code" "take in_pos inp"]
      b0 d pos by (simp add: tok Let_def)
qed

lemma lz_iteration:
  assumes pos: "in_pos < length inp" and res: "lz_compress_loop inp dictionary in_pos out w = (n, out')"
    and fin: "length inp \<le> n" and good: "lz_good dictionary inp"
  obtains in_pos' code w' where "in_pos < in_pos'" "in_pos' \<le> length inp"
    "lz_compress_loop inp dictionary in_pos' (out @ code) w' = (n, out')"
    "\<And>tl_code. lz_decompress_loop dictionary (length inp) (code @ tl_code) (take in_pos inp)
       = lz_decompress_loop dictionary (length inp) tl_code (take in_pos' inp)"
proof -
  have lits: "\<forall>b\<in>set (drop in_pos inp). unat b < 128" "unat (inp ! in_pos) < 128"
    using good pos by (auto simp: lz_good_def seven_bit_def dest!: in_set_dropD)
  show thesis
    using pos res fin
  proof (cases rule: lz_compress_loop_cases)
    case tail
    then show thesis using pos lits
        lz_decode_literals [of "drop in_pos inp" "take in_pos inp" "length inp" dictionary]
      by (intro that [of "length inp" "drop in_pos inp" w])
        (auto simp: lz_compress_loop.simps [of inp dictionary "length inp"])
  next
    case (token off len w')
    then show thesis using lz_decode_token [OF token(1,2) good pos]
      by (intro that [OF _ token(3,4)]) (auto simp: lz_consts)
  next
    case (literal w')
    then show thesis using pos lits lz_decode_literals [of "[inp ! in_pos]" "take in_pos inp" "length inp" dictionary]
      by (intro that [OF _ _ literal]) (auto simp: take_Suc_conv_app_nth)
  qed
qed

lemma lz_loop_round_trip:
  assumes "lz_compress_loop inp dictionary in_pos out w = (n, out')" "length inp \<le> n" "in_pos \<le> length inp"
    "lz_good dictionary inp"
  shows "\<exists>code. out' = out @ code \<and>
           lz_decompress_loop dictionary (length inp) code (take in_pos inp) = (OK, inp)"
  using assms
proof (induction "length inp - in_pos" arbitrary: in_pos out w rule: less_induct)
  case less
  show ?case
  proof (cases "in_pos < length inp")
    case False
    then have "in_pos = length inp" using less.prems(3) by simp
    then show ?thesis using less.prems(1)
      by (simp add: lz_compress_loop.simps [of inp dictionary "length inp"])
  next
    case True
    obtain in_pos' code w' where next_pos: "in_pos < in_pos'" "in_pos' \<le> length inp"
      and go: "lz_compress_loop inp dictionary in_pos' (out @ code) w' = (n, out')"
      and dec: "\<And>tl_code. lz_decompress_loop dictionary (length inp) (code @ tl_code) (take in_pos inp)
         = lz_decompress_loop dictionary (length inp) tl_code (take in_pos' inp)"
      using lz_iteration [OF True less.prems(1,2,4)] by blast
    have "length inp - in_pos' < length inp - in_pos" using next_pos True by linarith
    from less.hyps [OF this go less.prems(2) next_pos(2) less.prems(4)]
    obtain code' where "out' = (out @ code) @ code'"
      "lz_decompress_loop dictionary (length inp) code' (take in_pos' inp) = (OK, inp)" by blast
    then show ?thesis using dec by (intro exI [of _ "code @ code'"]) simp
  qed
qed

lemma lz_round_trip_ok:
  assumes good: "lz_good dictionary inp" and comp: "BcdcLZ_Compress mem_ok chain0 dictionary inp = (OK, out)"
  shows "BcdcLZ_Decompress dictionary (length inp) out = (OK, inp)"
proof -
  from comp have ne: "inp \<noteq> []" by (auto simp: BcdcLZ_Compress_def split: if_splits)
  obtain n where l: "lz_compress_loop inp dictionary 0 []
      \<lparr>lz_head = replicate BCDC_LZ_HASH_SIZE (- 1), lz_chain = chain0\<rparr> = (n, out)" "length inp \<le> n"
    using comp by (auto simp: BcdcLZ_Compress_def split: if_splits prod.splits)
  have d: "lz_decompress_loop dictionary (length inp) out [] = (OK, inp)"
    using lz_loop_round_trip [OF l _ good] by auto
  with ne have "out \<noteq> []" by auto
  with d show ?thesis by (simp add: BcdcLZ_Decompress_def)
qed

interpretation lz: codec "\<lambda>(mem_ok, chain0, d). BcdcLZ_Compress mem_ok chain0 d"
    "\<lambda>(_, _, d). BcdcLZ_Decompress d" "\<lambda>(_, _, d). lz_good d"
  by unfold_locales (auto intro: lz_round_trip_ok)

section \<open>Bounds\<close>

lemma lz_compress_loop_bound:
  "length out \<le> BCDC_MAX_COMPRESSED \<Longrightarrow>
     length (snd (lz_compress_loop inp dictionary in_pos out w)) \<le> BCDC_MAX_COMPRESSED"
proof (induction inp dictionary in_pos out w rule: lz_compress_loop.induct)
  case (1 inp dictionary in_pos out w)
  show ?case
  proof (cases "in_pos < length inp \<and> length out < BCDC_MAX_COMPRESSED \<and> in_pos + 3 \<le> length inp")
    case True
    obtain off len where best: "lz_best inp dictionary in_pos w = (off, len)" by fastforce
    show ?thesis
      using True 1 lz_compress_loop.simps [of inp dictionary in_pos out w]
      by (auto simp: best Let_def lz_token_def)
  next
    case False
    then show ?thesis using "1.prems" lz_compress_loop.simps [of inp dictionary in_pos out w]
      by (auto simp: lz_copy_tail_def Let_def)
  qed
qed

lemma lz_compress_bound: "length (snd (BcdcLZ_Compress mem_ok chain0 dictionary inp)) \<le> BCDC_MAX_COMPRESSED"
  using lz_compress_loop_bound [of "[]" inp dictionary 0]
  by (auto simp: BcdcLZ_Compress_def split: prod.splits) (metis snd_conv)

lemma lz_copy_dict_bound:
  "length out \<le> cap \<Longrightarrow> length (snd (lz_copy_dict dictionary dict_offset match_len cap i out)) \<le> cap"
proof (induction dictionary dict_offset match_len cap i out rule: lz_copy_dict.induct)
  case (1 dictionary dict_offset match_len cap i out)
  then show ?case using lz_copy_dict.simps [of dictionary dict_offset match_len cap i out]
    by (simp add: Let_def)
qed

lemma lz_copy_window_bound: "length out \<le> cap \<Longrightarrow> length (lz_copy_window off cap n out) \<le> cap"
  by (induction off cap n out rule: lz_copy_window.induct) auto

lemma lz_decode_match_bound:
  "length out \<le> cap \<Longrightarrow> length (snd (lz_decode_match dictionary cap token lo b2 out)) \<le> cap"
  by (auto simp: lz_decode_match_def Let_def lz_copy_dict_bound lz_copy_window_bound split: option.splits)

lemma lz_decompress_loop_bound:
  "length out \<le> cap \<Longrightarrow> length (snd (lz_decompress_loop dictionary cap inp out)) \<le> cap"
proof (induction dictionary cap inp out rule: lz_decompress_loop.induct)
  case (1 dictionary cap inp out)
  then show ?case
    using lz_decompress_loop.simps [of dictionary cap inp out]
      lz_decode_match_bound [OF "1.prems", of dictionary "hd inp" "tl inp ! 0" "tl inp ! 1"]
    by (auto simp: Let_def)
qed

lemma lz_decompress_bound: "length (snd (BcdcLZ_Decompress dictionary cap inp)) \<le> cap"
  by (simp add: BcdcLZ_Decompress_def lz_decompress_loop_bound)

section \<open>Small runs\<close>

lemma bcdc_lz_hash_bound: "bcdc_lz_hash p i < BCDC_LZ_HASH_SIZE"
proof -
  have "unat (x AND 0xFFF) \<le> 0xFFF" for x :: u32
    using word_and_le1 [of x "0xFFF"] by (simp add: word_le_nat_alt)
  then show ?thesis by (simp add: bcdc_lz_hash_def Let_def BCDC_LZ_HASH_SIZE_def less_Suc_eq_le [of _ 4095, simplified])
qed

text \<open>Something comes out of every input that is not empty.\<close>

lemma lz_loop_grows: "out \<noteq> [] \<Longrightarrow> snd (lz_compress_loop inp d in_pos out w) \<noteq> []"
proof (induction inp d in_pos out w rule: lz_compress_loop.induct)
  case (1 inp d in_pos out w)
  then show ?case by (subst lz_compress_loop.simps) (simp add: Let_def lz_copy_tail_def)
qed

lemma lz_output: "BcdcLZ_Compress mem_ok chain0 d inp = (OK, out) \<Longrightarrow> out \<noteq> []"
proof
  assume "BcdcLZ_Compress mem_ok chain0 d inp = (OK, out)" "out = []"
  then obtain p w where r: "lz_compress_loop inp d 0 [] w = (p, [])" "inp \<noteq> []" "\<not> p < length inp"
    by (auto simp: BcdcLZ_Compress_def split: prod.splits if_splits)
  have "snd (lz_compress_loop inp d q ys v) \<noteq> []" if "ys \<noteq> []" for q ys v using lz_loop_grows [OF that] .
  then have "lz_compress_loop inp d q ys v \<noteq> (p, [])" if "ys \<noteq> []" for q ys v using that by (metis snd_conv)
  then show False using r
    by (subst (asm) lz_compress_loop.simps) (auto simp: Let_def lz_copy_tail_def lz_token_def split: if_splits)
qed

lemma lz_search_chain_none: "lz_search_chain inp in_pos chain n (- 1) best = best"
  by (cases n) simp_all

lemma lz_sample: "BcdcLZ_Compress True [] (Some [1, 2, 3, 4]) [1, 2, 3] = (OK, [128, 4, 0])"
proof -
  have "lz_best [1, 2, 3] (Some [1, 2, 3, 4]) 0 \<lparr>lz_head = replicate BCDC_LZ_HASH_SIZE (- 1), lz_chain = []\<rparr> = (4, 3)"
    by (simp add: lz_best_def bcdc_lz_hash_bound lz_search_chain_none lz_search_dict.simps lz_dict_try_def
      lz_common.simps Let_def BCDC_LZ_MAX_MATCH_def BCDC_LZ_MIN_MATCH_def)
  then show ?thesis
    by (simp add: BcdcLZ_Compress_def lz_compress_loop.simps BCDC_MAX_COMPRESSED_def BCDC_BLOCK_SIZE_def
      BCDC_HEADER_SIZE_def BCDC_LZ_MIN_MATCH_def Let_def lz_advance_pos lz_token_def)
qed

text \<open>A literal with its top bit set is read back as a match token.\<close>

lemma lz_high_byte_lost:
  "BcdcLZ_Compress True [] None [0x80, 1] = (OK, [0x80, 1]) \<and>
   BcdcLZ_Decompress None 2 [0x80, 1] = (ERR_CORRUPTED, [])"
  by (simp add: BcdcLZ_Compress_def lz_compress_loop.simps BCDC_MAX_COMPRESSED_def BCDC_BLOCK_SIZE_def
      BCDC_HEADER_SIZE_def lz_copy_tail_def BcdcLZ_Decompress_def lz_decompress_loop.simps)
end
