(* ===== verification/Bcdc.thy ===== *)
theory Bcdc
  imports BcdcRle BcdcLz Crypto
begin

unbundle bit_operations_syntax

text \<open>
  The block compressor of TagFS, kernel/tagfs/bcdc/bcdc.c, above its two codecs: the dictionary
  table with least-recently-used replacement, the per-tag compression policies, the block format
  with its packed header and checksums, and the statistics. The module's static variables are
  the record \<open>bcdc_state\<close>. What comes from outside is an argument: whether a \<^verbatim>\<open>kmalloc\<close>
  succeeds (\<open>bool\<close>), the clock (\<open>now\<close>), the garbage in a fresh chain array (\<open>chain0\<close>) and
  in the header's unused bytes (\<open>pad\<close>). The pointers passed in are not NULL, except where a
  NULL test can be reached with a pointer the module itself computes.
\<close>

section \<open>Data\<close>

definition CONFIG_BCDC_MAX_DICTS :: nat where "CONFIG_BCDC_MAX_DICTS = 256"
definition CONFIG_BCDC_DEFAULT_DICT_SIZE :: nat where "CONFIG_BCDC_DEFAULT_DICT_SIZE = 8192"
definition CONFIG_BCDC_POLICY_INITIAL :: nat where "CONFIG_BCDC_POLICY_INITIAL = 16"
definition CONFIG_BCDC_POLICY_MAX :: nat where "CONFIG_BCDC_POLICY_MAX = 4096"
definition BCDC_MAGIC :: u32 where "BCDC_MAGIC = 0x42434443"
definition BCDC_VERSION :: u8 where "BCDC_VERSION = 1"
definition BCDC_TYPE_NONE :: u8 where "BCDC_TYPE_NONE = 0"
definition BCDC_TYPE_LZ :: u8 where "BCDC_TYPE_LZ = 1"
definition BCDC_TYPE_RLE :: u8 where "BCDC_TYPE_RLE = 2"
definition BCDC_LEVEL_DEFAULT :: u8 where "BCDC_LEVEL_DEFAULT = 5"

lemmas bcdc_consts = CONFIG_BCDC_MAX_DICTS_def CONFIG_BCDC_DEFAULT_DICT_SIZE_def
  CONFIG_BCDC_POLICY_INITIAL_def CONFIG_BCDC_POLICY_MAX_def BCDC_BLOCK_SIZE_def BCDC_HEADER_SIZE_def
lemmas bcdc_types = BCDC_TYPE_NONE_def BCDC_TYPE_LZ_def BCDC_TYPE_RLE_def

record BcdcDictionary =
  bd_dictionary_id :: u16
  bd_tag_id :: u16
  bd_usage_count :: u32
  bd_last_used :: u64
  bd_active :: bool
  bd_data :: bytes

record BcdcPolicy =
  bp_tag_id :: u16
  bp_compression_type :: u8
  bp_compression_level :: u8
  bp_dictionary_sharing :: u8
  bp_reserved :: u8

record BcdcStats =
  blocks_compressed :: u64
  blocks_decompressed :: u64
  bytes_before :: u64
  bytes_after :: u64
  lz_compressions :: u64
  rle_compressions :: u64
  uncompressed_blocks :: u64
  compression_failures :: u64
  dict_hits :: u64
  dict_misses :: u64

record BcdcBlockHeader =
  bh_magic :: u32
  bh_version :: u8
  bh_compression_type :: u8
  bh_flags :: u16
  bh_original_size :: u16
  bh_compressed_size :: u16
  bh_checksum :: u32
  bh_original_checksum :: u32
  bh_dictionary_id :: u8
  bh_reserved :: bytes

record bcdc_state =
  g_dicts :: "BcdcDictionary option list"
  g_policies :: "BcdcPolicy list"
  g_policy_capacity :: nat
  g_stats :: BcdcStats
  g_initialized :: bool

definition zero_stats :: BcdcStats where
  "zero_stats = \<lparr>blocks_compressed = 0, blocks_decompressed = 0, bytes_before = 0, bytes_after = 0,
     lz_compressions = 0, rle_compressions = 0, uncompressed_blocks = 0, compression_failures = 0,
     dict_hits = 0, dict_misses = 0\<rparr>"

text \<open>The static variables before \<^verbatim>\<open>BcdcInit\<close>.\<close>

definition bcdc_boot :: bcdc_state where
  "bcdc_boot = \<lparr>g_dicts = replicate CONFIG_BCDC_MAX_DICTS None, g_policies = [], g_policy_capacity = 0,
     g_stats = zero_stats, g_initialized = False\<rparr>"

section \<open>Checksums\<close>

definition bcdc_crc_byte :: "u32 \<Rightarrow> u8 \<Rightarrow> u32" where
  "bcdc_crc_byte crc b =
     ((\<lambda>c. drop_bit 1 c XOR (0xEDB88320 AND (- (c AND 1)))) ^^ 8) (crc XOR ucast b)"

definition BcdcComputeChecksum :: "bytes \<Rightarrow> u32" where
  "BcdcComputeChecksum data = NOT (foldl bcdc_crc_byte 0xFFFFFFFF data)"

definition BcdcVerifyChecksum :: "bytes \<Rightarrow> u32 \<Rightarrow> bool" where
  "BcdcVerifyChecksum data expected \<longleftrightarrow> BcdcComputeChecksum data = expected"

section \<open>Tables\<close>

text \<open>
  The doubling loop \<^verbatim>\<open>while (new_cap < want_cap) new_cap *= 2\<close>; it is entered with
  \<open>new_cap\<close> positive, which the extra test records.
\<close>

function grow_cap :: "nat \<Rightarrow> nat \<Rightarrow> nat" where
  "grow_cap new_cap want_cap =
     (if new_cap < want_cap \<and> 0 < new_cap then grow_cap (new_cap * 2) want_cap else new_cap)"
  by pat_completeness auto
termination
  by (relation "measure (\<lambda>(new_cap, want_cap). want_cap - new_cap)") auto

declare grow_cap.simps [simp del]

definition bcdc_grow_policies_locked :: "bool \<Rightarrow> nat \<Rightarrow> bcdc_state \<Rightarrow> bcdc_state \<times> error_t" where
  "bcdc_grow_policies_locked mem want_cap st =
     (if want_cap \<le> g_policy_capacity st then (st, OK)
      else if want_cap > CONFIG_BCDC_POLICY_MAX then (st, ERR_NO_MEMORY)
      else
        let start = (if g_policy_capacity st \<noteq> 0 then g_policy_capacity st else CONFIG_BCDC_POLICY_INITIAL);
            new_cap = min (grow_cap start want_cap) CONFIG_BCDC_POLICY_MAX
        in if \<not> mem then (st, ERR_NO_MEMORY) else (st\<lparr>g_policy_capacity := new_cap\<rparr>, OK))"

definition bcdc_alloc_dict_locked ::
  "bool \<times> bool \<Rightarrow> u64 \<Rightarrow> nat \<Rightarrow> u16 \<Rightarrow> nat \<Rightarrow> bcdc_state \<Rightarrow> bcdc_state \<times> error_t" where
  "bcdc_alloc_dict_locked mem now slot tag_id buf_size st =
     (if \<not> fst mem then (st, ERR_NO_MEMORY)
      else if \<not> snd mem then (st, ERR_NO_MEMORY)
      else (st\<lparr>g_dicts := (g_dicts st)[slot := Some
              \<lparr>bd_dictionary_id = of_nat slot, bd_tag_id = tag_id, bd_usage_count = 0, bd_last_used = now,
               bd_active = True, bd_data = replicate buf_size 0\<rparr>]\<rparr>, OK))"

definition bcdc_free_dict_locked :: "nat \<Rightarrow> bcdc_state \<Rightarrow> bcdc_state" where
  "bcdc_free_dict_locked slot st =
     (case g_dicts st ! slot of None \<Rightarrow> st | Some d \<Rightarrow> st\<lparr>g_dicts := (g_dicts st)[slot := None]\<rparr>)"

definition BcdcInit :: "bool \<times> bool \<Rightarrow> bool \<Rightarrow> u64 \<Rightarrow> bcdc_state \<Rightarrow> bcdc_state \<times> error_t" where
  "BcdcInit mem_dict mem_pol now st =
     (if g_initialized st then (st, ERR_ALREADY_INITIALIZED)
      else
        let st1 = st\<lparr>g_dicts := replicate CONFIG_BCDC_MAX_DICTS None, g_stats := zero_stats\<rparr>;
            (st2, err) = bcdc_alloc_dict_locked mem_dict now 0 0 CONFIG_BCDC_DEFAULT_DICT_SIZE st1
        in if err \<noteq> OK then (st2, err)
           else let (st3, err3) = bcdc_grow_policies_locked mem_pol CONFIG_BCDC_POLICY_INITIAL st2
                in if err3 \<noteq> OK then (st3, err3) else (st3\<lparr>g_initialized := True\<rparr>, OK))"

definition BcdcShutdown :: "bcdc_state \<Rightarrow> bcdc_state" where
  "BcdcShutdown st =
     (if \<not> g_initialized st then st
      else
        let st1 = foldl (\<lambda>s i. bcdc_free_dict_locked i s) (st\<lparr>g_initialized := False\<rparr>)
                    [0..<CONFIG_BCDC_MAX_DICTS]
        in st1\<lparr>g_policies := [], g_policy_capacity := 0\<rparr>)"

section \<open>Dictionaries\<close>

definition free_slot :: "bcdc_state \<Rightarrow> nat" where
  "free_slot st =
     (case find (\<lambda>i. g_dicts st ! i = None) [1..<CONFIG_BCDC_MAX_DICTS] of
        Some i \<Rightarrow> i | None \<Rightarrow> CONFIG_BCDC_MAX_DICTS)"

text \<open>One step of the victim scan; the accumulator is \<^verbatim>\<open>(oldest, victim)\<close>.\<close>

definition victim_step :: "bcdc_state \<Rightarrow> u64 \<times> nat \<Rightarrow> nat \<Rightarrow> u64 \<times> nat" where
  "victim_step st acc i =
     (case g_dicts st ! i of
        None \<Rightarrow> acc
      | Some d \<Rightarrow> if bd_last_used d < fst acc then (bd_last_used d, i) else acc)"

definition lru_victim :: "bcdc_state \<Rightarrow> nat" where
  "lru_victim st =
     snd (foldl (victim_step st) (- 1, CONFIG_BCDC_MAX_DICTS) [1..<CONFIG_BCDC_MAX_DICTS])"

definition create_slot :: "bcdc_state \<Rightarrow> (bcdc_state \<times> nat) option" where
  "create_slot st =
     (let slot = free_slot st in
      if slot = CONFIG_BCDC_MAX_DICTS then
        (let victim = lru_victim st in
         if victim = CONFIG_BCDC_MAX_DICTS then None
         else Some (bcdc_free_dict_locked victim st, victim))
      else Some (st, slot))"

definition BcdcCreateDictionary ::
  "bool \<times> bool \<Rightarrow> u64 \<Rightarrow> u16 \<Rightarrow> bcdc_state \<Rightarrow> bcdc_state \<times> error_t \<times> u8" where
  "BcdcCreateDictionary mem now tag_id st =
     (if \<not> g_initialized st then (st, ERR_NOT_INITIALIZED, 0)
      else case create_slot st of
        None \<Rightarrow> (st, ERR_NO_MEMORY, 0)
      | Some (st1, slot) \<Rightarrow>
          let (st2, err) = bcdc_alloc_dict_locked mem now slot tag_id CONFIG_BCDC_DEFAULT_DICT_SIZE st1
          in if err \<noteq> OK then (st2, err, 0) else (st2, OK, of_nat slot))"

definition BcdcGetDictionary :: "nat \<Rightarrow> bcdc_state \<Rightarrow> error_t + BcdcDictionary" where
  "BcdcGetDictionary dict_id st =
     (if \<not> g_initialized st \<or> dict_id \<ge> CONFIG_BCDC_MAX_DICTS then Inl ERR_INVALID_ARGUMENT
      else case g_dicts st ! dict_id of
        None \<Rightarrow> Inl ERR_OBJECT_NOT_FOUND
      | Some d \<Rightarrow> if bd_active d then Inr d else Inl ERR_OBJECT_NOT_FOUND)"

definition BcdcEvictDictionary :: "nat \<Rightarrow> bcdc_state \<Rightarrow> bcdc_state \<times> error_t" where
  "BcdcEvictDictionary dict_id st =
     (if \<not> g_initialized st \<or> dict_id = 0 \<or> dict_id \<ge> CONFIG_BCDC_MAX_DICTS then (st, ERR_INVALID_ARGUMENT)
      else if g_dicts st ! dict_id = None then (st, ERR_OBJECT_NOT_FOUND)
      else (bcdc_free_dict_locked dict_id st, OK))"

definition touch_dict :: "u64 \<Rightarrow> BcdcDictionary \<Rightarrow> BcdcDictionary" where
  "touch_dict now d = d\<lparr>bd_usage_count := bd_usage_count d + 1, bd_last_used := now\<rparr>"

definition BcdcUpdateDictionaryUsage :: "u64 \<Rightarrow> nat \<Rightarrow> bcdc_state \<Rightarrow> bcdc_state" where
  "BcdcUpdateDictionaryUsage now dict_id st =
     (if dict_id \<ge> CONFIG_BCDC_MAX_DICTS then st
      else case g_dicts st ! dict_id of
        None \<Rightarrow> st
      | Some d \<Rightarrow> st\<lparr>g_dicts := (g_dicts st)[dict_id := Some (touch_dict now d)]\<rparr>)"

text \<open>The dictionary is a sliding window over the data compressed with it.\<close>

definition BcdcUpdateDictionary :: "bytes \<Rightarrow> BcdcDictionary \<Rightarrow> BcdcDictionary" where
  "BcdcUpdateDictionary data d =
     (if length data < 4 then d
      else
        let sz = min (length data) (length (bd_data d));
            keep = length (bd_data d) - sz
        in d\<lparr>bd_data := take keep (drop sz (bd_data d)) @ take sz data\<rparr>)"

section \<open>Policies\<close>

text \<open>Overwrite the first policy of the tag, as the search loop does; \<open>None\<close> if there is none.\<close>

fun replace_policy :: "BcdcPolicy \<Rightarrow> BcdcPolicy list \<Rightarrow> BcdcPolicy list option" where
  "replace_policy p [] = None"
| "replace_policy p (q # qs) =
     (if bp_tag_id q = bp_tag_id p then Some (p # qs) else map_option ((#) q) (replace_policy p qs))"

definition BcdcSetPolicy :: "bool \<Rightarrow> BcdcPolicy \<Rightarrow> bcdc_state \<Rightarrow> bcdc_state \<times> error_t" where
  "BcdcSetPolicy mem policy st =
     (if \<not> g_initialized st then (st, ERR_NOT_INITIALIZED)
      else case replace_policy policy (g_policies st) of
        Some ps \<Rightarrow> (st\<lparr>g_policies := ps\<rparr>, OK)
      | None \<Rightarrow>
          let (st1, err) = (if length (g_policies st) \<ge> g_policy_capacity st
                            then bcdc_grow_policies_locked mem (g_policy_capacity st * 2) st else (st, OK))
          in if err \<noteq> OK then (st1, err)
             else (st1\<lparr>g_policies := g_policies st1 @ [policy]\<rparr>, OK))"

definition default_policy :: "u16 \<Rightarrow> BcdcPolicy" where
  "default_policy tag_id = \<lparr>bp_tag_id = tag_id, bp_compression_type = BCDC_TYPE_LZ,
     bp_compression_level = BCDC_LEVEL_DEFAULT, bp_dictionary_sharing = 1, bp_reserved = 0\<rparr>"

definition BcdcGetPolicy :: "u16 \<Rightarrow> bcdc_state \<Rightarrow> error_t + BcdcPolicy" where
  "BcdcGetPolicy tag_id st =
     (if \<not> g_initialized st then Inl ERR_NOT_INITIALIZED
      else case find (\<lambda>p. bp_tag_id p = tag_id) (g_policies st) of
        Some p \<Rightarrow> Inr p | None \<Rightarrow> Inr (default_policy tag_id))"

section \<open>The block format\<close>

text \<open>The packed header, 24 bytes, and its reading back.\<close>

definition header_bytes :: "BcdcBlockHeader \<Rightarrow> bytes" where
  "header_bytes h =
     le_put 4 (bh_magic h) @ [bh_version h, bh_compression_type h] @ le_put 2 (bh_flags h) @
     le_put 2 (bh_original_size h) @ le_put 2 (bh_compressed_size h) @
     le_put 4 (bh_checksum h) @ le_put 4 (bh_original_checksum h) @
     [bh_dictionary_id h] @ take 3 (bh_reserved h @ [0, 0, 0])"

definition header_of :: "bytes \<Rightarrow> BcdcBlockHeader" where
  "header_of b =
     \<lparr>bh_magic = le_get (take 4 b), bh_version = b ! 4, bh_compression_type = b ! 5,
      bh_flags = le_get (take 2 (drop 6 b)), bh_original_size = le_get (take 2 (drop 8 b)),
      bh_compressed_size = le_get (take 2 (drop 10 b)), bh_checksum = le_get (take 4 (drop 12 b)),
      bh_original_checksum = le_get (take 4 (drop 16 b)), bh_dictionary_id = b ! 20,
      bh_reserved = take 3 (drop 21 b)\<rparr>"

text \<open>The active dictionary an id names, if any.\<close>

definition active_dict :: "nat \<Rightarrow> bcdc_state \<Rightarrow> BcdcDictionary option" where
  "active_dict dictionary_id st =
     (if dictionary_id < CONFIG_BCDC_MAX_DICTS then
        (case g_dicts st ! dictionary_id of
           Some cand \<Rightarrow> if bd_active cand then Some cand else None
         | None \<Rightarrow> None)
      else None)"

definition bump :: "(BcdcStats \<Rightarrow> BcdcStats) \<Rightarrow> bcdc_state \<Rightarrow> bcdc_state" where
  "bump f st = st\<lparr>g_stats := f (g_stats st)\<rparr>"

text \<open>Looking up the dictionary for compression also counts the hit or miss and touches the entry.\<close>

definition acquire_dict :: "u64 \<Rightarrow> nat \<Rightarrow> bcdc_state \<Rightarrow> bcdc_state" where
  "acquire_dict now dictionary_id st =
     (if dictionary_id < CONFIG_BCDC_MAX_DICTS then
        (case active_dict dictionary_id st of
           Some d \<Rightarrow> bump (\<lambda>s. s\<lparr>dict_hits := dict_hits s + 1\<rparr>)
                       (st\<lparr>g_dicts := (g_dicts st)[dictionary_id := Some (touch_dict now d)]\<rparr>)
         | None \<Rightarrow> bump (\<lambda>s. s\<lparr>dict_misses := dict_misses s + 1\<rparr>) st)
      else st)"

text \<open>The codec dispatch, with the counter of the codec that succeeded.\<close>

definition run_codec :: "bool \<times> int list \<Rightarrow> u8 \<Rightarrow> bytes option \<Rightarrow> bytes \<Rightarrow> error_t \<times> bytes" where
  "run_codec lzenv compression_type dictionary inp =
     (if compression_type = BCDC_TYPE_LZ then BcdcLZ_Compress (fst lzenv) (snd lzenv) dictionary inp
      else if compression_type = BCDC_TYPE_RLE then BcdcRLE_Compress inp
      else (ERR_INVALID_ARGUMENT, []))"

definition count_codec :: "u8 \<Rightarrow> error_t \<Rightarrow> BcdcStats \<Rightarrow> BcdcStats" where
  "count_codec compression_type result s =
     (if result \<noteq> OK then s
      else if compression_type = BCDC_TYPE_LZ then s\<lparr>lz_compressions := lz_compressions s + 1\<rparr>
      else if compression_type = BCDC_TYPE_RLE then s\<lparr>rle_compressions := rle_compressions s + 1\<rparr>
      else s)"

definition make_header :: "bytes \<Rightarrow> u8 \<Rightarrow> nat \<Rightarrow> bytes \<Rightarrow> bytes \<Rightarrow> BcdcBlockHeader" where
  "make_header pad ctype dictionary_id inp cdata =
     \<lparr>bh_magic = BCDC_MAGIC, bh_version = BCDC_VERSION, bh_compression_type = ctype, bh_flags = 0,
      bh_original_size = of_nat (length inp),
      bh_compressed_size = (if ctype = BCDC_TYPE_NONE then 0 else of_nat (length cdata)),
      bh_checksum = BcdcComputeChecksum cdata, bh_original_checksum = BcdcComputeChecksum inp,
      bh_dictionary_id = of_nat dictionary_id, bh_reserved = pad\<rparr>"

definition store_block :: "nat \<Rightarrow> bytes \<Rightarrow> u8 \<Rightarrow> error_t \<times> bytes \<Rightarrow> bcdc_state \<Rightarrow> bcdc_state \<times> u8 \<times> bytes" where
  "store_block dictionary_id inp ctype res st =
     (if fst res \<noteq> OK \<or> length (snd res) \<ge> length inp then
        (bump (\<lambda>s. s\<lparr>uncompressed_blocks := uncompressed_blocks s + 1\<rparr>) st, BCDC_TYPE_NONE, inp)
      else
        (case active_dict dictionary_id st of
           Some d \<Rightarrow> st\<lparr>g_dicts := (g_dicts st)[dictionary_id := Some (BcdcUpdateDictionary inp d)]\<rparr>
         | None \<Rightarrow> st,
         ctype, snd res))"

definition count_block :: "nat \<Rightarrow> nat \<Rightarrow> BcdcStats \<Rightarrow> BcdcStats" where
  "count_block before after s =
     s\<lparr>blocks_compressed := blocks_compressed s + 1, bytes_before := bytes_before s + of_nat before,
       bytes_after := bytes_after s + of_nat after\<rparr>"

definition BcdcCompress ::
  "bool \<times> int list \<Rightarrow> u64 \<Rightarrow> bytes \<Rightarrow> bytes \<Rightarrow> u8 \<Rightarrow> nat \<Rightarrow> bcdc_state \<Rightarrow> bcdc_state \<times> error_t \<times> bytes" where
  "BcdcCompress lzenv now pad inp ctype dictionary_id st =
     (if \<not> g_initialized st then (st, ERR_NOT_INITIALIZED, [])
      else if length inp = 0 \<or> length inp > BCDC_BLOCK_SIZE then (st, ERR_INVALID_ARGUMENT, [])
      else
        let st1 = acquire_dict now dictionary_id st;
            res = run_codec lzenv ctype (map_option bd_data (active_dict dictionary_id st)) inp;
            (st2, ctype', cdata) = store_block dictionary_id inp ctype res (bump (count_codec ctype (fst res)) st1);
            block = header_bytes (make_header pad ctype' dictionary_id inp cdata) @ cdata
        in (bump (count_block (length inp) (length block)) st2, OK, block))"

text \<open>
  Decompression. The code trusts the sizes in the header: reads beyond the \<open>input_size\<close> bytes
  it was given are not prevented, and are \<open>None\<close> here.
\<close>

definition body_size :: "BcdcBlockHeader \<Rightarrow> nat" where
  "body_size h = unat (if bh_compressed_size h = 0 then bh_original_size h else bh_compressed_size h)"

definition decode_body :: "BcdcBlockHeader \<Rightarrow> bytes option \<Rightarrow> bytes \<Rightarrow> (error_t \<times> bytes) option" where
  "decode_body h dictionary cdata =
     (let osize = unat (bh_original_size h); body = take (body_size h) cdata in
      if bh_compression_type h = BCDC_TYPE_NONE then
        (if length cdata < osize then None else Some (OK, take osize cdata))
      else if bh_compression_type h = BCDC_TYPE_LZ then Some (BcdcLZ_Decompress dictionary osize body)
      else if bh_compression_type h = BCDC_TYPE_RLE then Some (BcdcRLE_Decompress osize body)
      else Some (ERR_CORRUPTED, []))"

definition BcdcDecompress :: "bytes \<Rightarrow> nat \<Rightarrow> bcdc_state \<Rightarrow> (bcdc_state \<times> error_t \<times> bytes) option" where
  "BcdcDecompress inp dictionary_id st =
     (if \<not> g_initialized st then Some (st, ERR_NOT_INITIALIZED, [])
      else if length inp < BCDC_HEADER_SIZE then Some (st, ERR_INVALID_ARGUMENT, [])
      else
        let h = header_of inp; cdata = drop BCDC_HEADER_SIZE inp in
        if bh_magic h \<noteq> BCDC_MAGIC \<or> bh_version h \<noteq> BCDC_VERSION then Some (st, ERR_CORRUPTED, [])
        else if length cdata < body_size h then None
        else if \<not> BcdcVerifyChecksum (take (body_size h) cdata) (bh_checksum h) then
          Some (bump (\<lambda>s. s\<lparr>compression_failures := compression_failures s + 1\<rparr>) st, ERR_CORRUPTED, [])
        else
          (case decode_body h (map_option bd_data (active_dict dictionary_id st)) cdata of
             None \<Rightarrow> None
           | Some (result, out) \<Rightarrow>
               Some (if result = OK then bump (\<lambda>s. s\<lparr>blocks_decompressed := blocks_decompressed s + 1\<rparr>) st
                     else st, result, out)))"

definition BcdcGetStats :: "bcdc_state \<Rightarrow> BcdcStats" where
  "BcdcGetStats st = g_stats st"

definition BcdcResetStats :: "bcdc_state \<Rightarrow> bcdc_state" where
  "BcdcResetStats st = st\<lparr>g_stats := zero_stats\<rparr>"

section \<open>Round trip of a block\<close>

lemma BcdcComputeChecksum_eq: "BcdcComputeChecksum = KCrc32"
proof -
  have "bcdc_crc_byte = crc32_byte"
    by (simp add: fun_eq_iff bcdc_crc_byte_def crc32_byte_def crc32_bit_def [abs_def])
  then show ?thesis by (intro ext) (simp only: BcdcComputeChecksum_def KCrc32_def)
qed

lemma length_header_bytes [simp]: "length (header_bytes h) = BCDC_HEADER_SIZE"
  by (simp add: header_bytes_def BCDC_HEADER_SIZE_def)

lemma header_of_bytes:
  assumes "length (bh_reserved h) = 3"
  shows "header_of (header_bytes h @ cdata) = h"
proof -
  obtain x y z where r: "bh_reserved h = [x, y, z]"
    using assms by (auto simp: length_Suc_conv numeral_3_eq_3)
  have "le_put 4 w = [ucast w, ucast (drop_bit 8 w), ucast (drop_bit 16 w), ucast (drop_bit 24 w)]"
    for w :: u32 by (simp add: le_put_def upt_rec)
  moreover have "le_put 2 w = [ucast w, ucast (drop_bit 8 w)]" for w :: u16
    by (simp add: le_put_def upt_rec)
  ultimately have "header_of (header_bytes h @ cdata) =
    \<lparr>bh_magic = le_get (le_put 4 (bh_magic h)), bh_version = bh_version h,
     bh_compression_type = bh_compression_type h,
      bh_flags = le_get (le_put 2 (bh_flags h)), bh_original_size = le_get (le_put 2 (bh_original_size h)),
      bh_compressed_size = le_get (le_put 2 (bh_compressed_size h)),
      bh_checksum = le_get (le_put 4 (bh_checksum h)),
      bh_original_checksum = le_get (le_put 4 (bh_original_checksum h)),
      bh_dictionary_id = bh_dictionary_id h, bh_reserved = bh_reserved h\<rparr>"
    by (simp add: header_of_def header_bytes_def r numeral_eq_Suc del: le_get.simps)
  also have "\<dots> = h" by simp
  finally show ?thesis .
qed

text \<open>The inputs each codec restores, and the decoder of each type.\<close>

definition bcdc_good :: "u8 \<Rightarrow> bytes option \<Rightarrow> bytes \<Rightarrow> bool" where
  "bcdc_good ctype dictionary inp \<longleftrightarrow>
     (ctype = BCDC_TYPE_LZ \<longrightarrow> lz_good dictionary inp) \<and> (ctype = BCDC_TYPE_RLE \<longrightarrow> no_escape_run inp)"

definition run_decodec :: "u8 \<Rightarrow> bytes option \<Rightarrow> nat \<Rightarrow> bytes \<Rightarrow> error_t \<times> bytes" where
  "run_decodec ctype dictionary n body =
     (if ctype = BCDC_TYPE_LZ then BcdcLZ_Decompress dictionary n body else BcdcRLE_Decompress n body)"

text \<open>The dispatch over the two codecs is itself a codec: the laws come from their interpretations.\<close>

interpretation any: codec "\<lambda>(lzenv, ctype, d). run_codec lzenv ctype d"
    "\<lambda>(_, ctype, d). run_decodec ctype d" "\<lambda>(_, ctype, d). bcdc_good ctype d"
proof unfold_locales
  fix c :: "(bool \<times> int list) \<times> u8 \<times> bytes option" and inp out
  assume good: "(case c of (_, ctype, d) \<Rightarrow> bcdc_good ctype d) inp"
    and enc: "(case c of (lzenv, ctype, d) \<Rightarrow> run_codec lzenv ctype d) inp = (OK, out)"
  obtain lzenv ctype d where c: "c = (lzenv, ctype, d)" by (cases c)
  show "(case c of (_, ctype, d) \<Rightarrow> run_decodec ctype d) (length inp) out = (OK, inp)"
    using good enc lz.round_trip [of "(fst lzenv, snd lzenv, d)"] rle.round_trip
    by (auto simp: c run_codec_def run_decodec_def bcdc_good_def bcdc_types split: if_splits)
qed

lemma any_nonempty: "run_codec lzenv ctype d inp = (OK, out) \<Longrightarrow> out \<noteq> [] \<and> ctype \<in> {BCDC_TYPE_LZ, BCDC_TYPE_RLE}"
  using lz_output [of "fst lzenv" "snd lzenv" d inp out] rle_output [of inp out] by (auto simp: run_codec_def split: if_splits)

lemma store_block_pack:
  "snd (store_block dictionary_id inp ctype (run_codec lzenv ctype d inp) st) =
     (let (compressed, stored) = any.pack (lzenv, ctype, d) inp
      in (if compressed then ctype else BCDC_TYPE_NONE, stored))"
  by (auto simp: store_block_def any.pack_def split: prod.splits)

lemma unat_of_nat_16: "n \<le> BCDC_BLOCK_SIZE \<Longrightarrow> unat (of_nat n :: u16) = n"
  by (simp add: BCDC_BLOCK_SIZE_def unat_of_nat)

text \<open>What the reader sees of a block made from \<open>(ctype', cdata)\<close>.\<close>

lemma made_block:
  fixes did :: nat
  assumes size: "inp \<noteq> []" "length inp \<le> BCDC_BLOCK_SIZE" and pad: "length pad = 3"
    and packed: "any.pack (lzenv, ctype, d) inp = (compressed, cdata)"
    and ctype': "ctype' = (if compressed then ctype else BCDC_TYPE_NONE)"
  defines "h \<equiv> make_header pad ctype' did inp cdata"
  shows "header_of (header_bytes h @ cdata) = h" "body_size h = length cdata"
    "compressed \<Longrightarrow> run_codec lzenv ctype d inp = (OK, cdata)" "compressed \<Longrightarrow> ctype \<in> {BCDC_TYPE_LZ, BCDC_TYPE_RLE}"
    "\<not> compressed \<Longrightarrow> cdata = inp"
proof -
  show "header_of (header_bytes h @ cdata) = h"
    by (rule header_of_bytes) (simp add: h_def make_header_def pad)
  have len: "length cdata \<le> length inp" using any.pack_no_longer [of "(lzenv, ctype, d)" inp] by (simp add: packed)
  show comp: "run_codec lzenv ctype d inp = (OK, cdata)" if compressed
    using packed that by (auto simp: any.pack_def split: prod.splits if_splits)
  show nz: "ctype \<in> {BCDC_TYPE_LZ, BCDC_TYPE_RLE}" if compressed using any_nonempty [OF comp] that by auto
  show stored: "cdata = inp" if "\<not> compressed" using packed that by (auto simp: any.pack_def split: prod.splits if_splits)
  have un: "unat (of_nat (length inp) :: u16) = length inp" "unat (of_nat (length cdata) :: u16) = length cdata"
    using size(2) len by (auto intro: unat_of_nat_16)
  then have "(of_nat (length cdata) :: u16) \<noteq> 0" if compressed using any_nonempty [OF comp] that by (metis length_0_conv unat_0)
  then show "body_size h = length cdata"
    using un stored nz by (auto simp: body_size_def h_def make_header_def ctype' bcdc_types)
qed

lemma decode_made_block:
  fixes did :: nat
  assumes size: "inp \<noteq> []" "length inp \<le> BCDC_BLOCK_SIZE" and pad: "length pad = 3"
    and good: "bcdc_good ctype d inp"
    and packed: "any.pack (lzenv, ctype, d) inp = (compressed, cdata)"
    and ctype': "ctype' = (if compressed then ctype else BCDC_TYPE_NONE)"
  defines "h \<equiv> make_header pad ctype' did inp cdata"
  shows "header_of (header_bytes h @ cdata) = h" "body_size h = length cdata"
    "decode_body h d cdata = Some (OK, inp)"
proof -
  note m = made_block(1,2) [OF size pad packed ctype', of did, folded h_def] made_block(3,4,5) [OF size pad packed ctype']
  show "header_of (header_bytes h @ cdata) = h" "body_size h = length cdata" by (rule m(1), rule m(2))
  have un: "unat (of_nat (length inp) :: u16) = length inp" using size(2) by (rule unat_of_nat_16)
  show "decode_body h d cdata = Some (OK, inp)"
  proof (cases compressed)
    case True
    then have "run_decodec ctype d (length inp) cdata = (OK, inp)"
      using any.round_trip [of "(lzenv, ctype, d)"] good m(3) by simp
    then show ?thesis using True m(2,4) un
      by (auto simp: decode_body_def run_decodec_def ctype' h_def make_header_def bcdc_types)
  next
    case False
    then show ?thesis using un m(5) by (simp add: decode_body_def h_def make_header_def ctype')
  qed
qed

lemma bump_simps [simp]:
  "g_initialized (bump f st) = g_initialized st" "g_dicts (bump f st) = g_dicts st"
  "g_policies (bump f st) = g_policies st" "g_policy_capacity (bump f st) = g_policy_capacity st"
  "active_dict i (bump f st) = active_dict i st"
  by (simp_all add: bump_def active_dict_def)

lemma BcdcCompress_block:
  assumes "BcdcCompress lzenv now pad inp ctype did st = (st', OK, block)"
  obtains compressed cdata where "inp \<noteq> []" "length inp \<le> BCDC_BLOCK_SIZE"
    "any.pack (lzenv, ctype, map_option bd_data (active_dict did st)) inp = (compressed, cdata)"
    "block = header_bytes (make_header pad (if compressed then ctype else BCDC_TYPE_NONE) did inp cdata) @ cdata"
proof -
  let ?d = "map_option bd_data (active_dict did st)"
  obtain compressed cdata where p: "any.pack (lzenv, ctype, ?d) inp = (compressed, cdata)" by fastforce
  define r where "r = store_block did inp ctype (run_codec lzenv ctype ?d inp)
      (bump (count_codec ctype (fst (run_codec lzenv ctype ?d inp))) (acquire_dict now did st))"
  have "snd r = (if compressed then ctype else BCDC_TYPE_NONE, cdata)"
    unfolding r_def store_block_pack by (simp add: p)
  then obtain st2 where "r = (st2, if compressed then ctype else BCDC_TYPE_NONE, cdata)"
    by (cases r) simp
  then show thesis using assms that [OF _ _ p] unfolding r_def
    by (auto simp: BcdcCompress_def Let_def split: if_splits)
qed

lemma BcdcCompress_total:
  "g_initialized st \<Longrightarrow> inp \<noteq> [] \<Longrightarrow> length inp \<le> BCDC_BLOCK_SIZE \<Longrightarrow>
     \<exists>st' block. BcdcCompress lzenv now pad inp ctype did st = (st', OK, block)"
  by (auto simp: BcdcCompress_def Let_def split: prod.splits)

lemma BcdcDecompress_block:
  assumes "BcdcCompress lzenv now pad inp ctype did st = (st', OK, block)" "length pad = 3"
    and "bcdc_good ctype (map_option bd_data (active_dict did st)) inp"
    and "g_initialized rd" "map_option bd_data (active_dict did' rd) = map_option bd_data (active_dict did st)"
  shows "BcdcDecompress block did' rd =
           Some (bump (\<lambda>s. s\<lparr>blocks_decompressed := blocks_decompressed s + 1\<rparr>) rd, OK, inp)"
proof -
  obtain compressed cdata where b: "inp \<noteq> []" "length inp \<le> BCDC_BLOCK_SIZE"
    "any.pack (lzenv, ctype, map_option bd_data (active_dict did st)) inp = (compressed, cdata)"
    "block = header_bytes (make_header pad (if compressed then ctype else BCDC_TYPE_NONE) did inp cdata) @ cdata"
    using BcdcCompress_block [OF assms(1)] by metis
  note d = decode_made_block [OF b(1,2) assms(2,3) b(3) refl, of did]
  show ?thesis using d assms(4,5)
    by (simp add: BcdcDecompress_def b(4) Let_def BcdcVerifyChecksum_def)
      (simp add: make_header_def)
qed

section \<open>The invariant of the tables\<close>

definition dict_ok :: "nat \<Rightarrow> BcdcDictionary \<Rightarrow> bool" where
  "dict_ok i d \<longleftrightarrow> bd_dictionary_id d = of_nat i \<and> bd_active d \<and> length (bd_data d) = CONFIG_BCDC_DEFAULT_DICT_SIZE"

definition dicts_ok :: "BcdcDictionary option list \<Rightarrow> bool" where
  "dicts_ok ds \<longleftrightarrow> length ds = CONFIG_BCDC_MAX_DICTS \<and> (\<forall>i<CONFIG_BCDC_MAX_DICTS. pred_option (dict_ok i) (ds ! i))"

definition policies_ok :: "bcdc_state \<Rightarrow> bool" where
  "policies_ok st \<longleftrightarrow> length (g_policies st) \<le> g_policy_capacity st \<and>
     g_policy_capacity st \<le> CONFIG_BCDC_POLICY_MAX \<and> distinct (map bp_tag_id (g_policies st))"

definition bcdc_inv :: "bcdc_state \<Rightarrow> bool" where
  "bcdc_inv st \<longleftrightarrow> dicts_ok (g_dicts st) \<and> policies_ok st \<and>
     (g_initialized st \<longrightarrow> g_dicts st ! 0 \<noteq> None \<and> 0 < g_policy_capacity st)"

lemma dicts_ok_update:
  "dicts_ok ds \<Longrightarrow> pred_option (dict_ok i) x \<Longrightarrow> dicts_ok (ds[i := x])"
  by (auto simp: dicts_ok_def nth_update_if)

lemma bump_inv [simp]: "bcdc_inv (bump f st) = bcdc_inv st"
  by (simp add: bcdc_inv_def policies_ok_def)

lemma bcdc_inv_dicts:
  assumes "bcdc_inv st" "pred_option (dict_ok i) x" "i = 0 \<longrightarrow> x \<noteq> None \<or> \<not> g_initialized st"
  shows "bcdc_inv (st\<lparr>g_dicts := (g_dicts st)[i := x]\<rparr>)"
  using assms by (auto simp: bcdc_inv_def policies_ok_def dicts_ok_update nth_update_if)

lemma grow_cap_ge: "0 < c \<Longrightarrow> want \<le> grow_cap c want \<and> c \<le> grow_cap c want"
proof (induction c want rule: grow_cap.induct)
  case (1 c want)
  then show ?case using grow_cap.simps [of c want] by auto
qed

lemma grow_inv:
  assumes "bcdc_inv st" "bcdc_grow_policies_locked mem want st = (st', e)"
  shows "bcdc_inv st' \<and> g_policies st' = g_policies st \<and> g_dicts st' = g_dicts st \<and>
    g_initialized st' = g_initialized st \<and> (e = OK \<longrightarrow> want \<le> g_policy_capacity st')"
proof -
  let ?s = "if g_policy_capacity st \<noteq> 0 then g_policy_capacity st else CONFIG_BCDC_POLICY_INITIAL"
  have "want \<le> grow_cap ?s want \<and> ?s \<le> grow_cap ?s want"
    by (rule grow_cap_ge) (simp add: CONFIG_BCDC_POLICY_INITIAL_def)
  then show ?thesis using assms
    by (auto simp: bcdc_grow_policies_locked_def bcdc_inv_def policies_ok_def Let_def split: if_splits)
qed

lemma alloc_inv:
  assumes "bcdc_inv st" "bcdc_alloc_dict_locked mem now slot tag CONFIG_BCDC_DEFAULT_DICT_SIZE st = (st', e)"
  shows "bcdc_inv st'"
  using assms by (auto simp: bcdc_alloc_dict_locked_def dict_ok_def split: if_splits intro!: bcdc_inv_dicts)

lemma free_inv: "bcdc_inv st \<Longrightarrow> slot \<noteq> 0 \<or> \<not> g_initialized st \<Longrightarrow> bcdc_inv (bcdc_free_dict_locked slot st)"
  by (auto simp: bcdc_free_dict_locked_def split: option.splits intro!: bcdc_inv_dicts)

lemma boot_inv: "bcdc_inv bcdc_boot"
  by (simp add: bcdc_inv_def bcdc_boot_def dicts_ok_def policies_ok_def)

lemma init_inv: 
  assumes "bcdc_inv st" "BcdcInit md mp now st = (st', e)" shows "bcdc_inv st'"
proof (cases "g_initialized st")
  case True
  then show ?thesis using assms by (simp add: BcdcInit_def)
next
  case False
  let ?st1 = "st\<lparr>g_dicts := replicate CONFIG_BCDC_MAX_DICTS None, g_stats := zero_stats\<rparr>"
  have i1: "bcdc_inv ?st1" using assms(1) False by (simp add: bcdc_inv_def policies_ok_def dicts_ok_def)
  obtain st2 e2 where a: "bcdc_alloc_dict_locked md now 0 0 CONFIG_BCDC_DEFAULT_DICT_SIZE ?st1 = (st2, e2)" by fastforce
  have i2: "bcdc_inv st2" using alloc_inv [OF i1 a] .
  have d0: "g_dicts st2 ! 0 \<noteq> None" if "e2 = OK"
    using a that by (auto simp: bcdc_alloc_dict_locked_def bcdc_consts split: if_splits)
  obtain st3 e3 where g: "bcdc_grow_policies_locked mp CONFIG_BCDC_POLICY_INITIAL st2 = (st3, e3)" by fastforce
  note grow = grow_inv [OF i2 g]
  from assms(2) False a g show ?thesis using i2 grow d0
    by (auto simp: BcdcInit_def bcdc_inv_def policies_ok_def bcdc_consts split: if_splits)
qed

lemma free_slot_range: "free_slot st = CONFIG_BCDC_MAX_DICTS \<or>
  (0 < free_slot st \<and> free_slot st < CONFIG_BCDC_MAX_DICTS \<and> g_dicts st ! free_slot st = None)"
  by (auto simp: free_slot_def find_Some_iff split: option.splits)

lemma free_slot_full:
  assumes "free_slot st = CONFIG_BCDC_MAX_DICTS" "0 < i" "i < CONFIG_BCDC_MAX_DICTS"
  shows "\<exists>d. g_dicts st ! i = Some d"
proof -
  have "find (\<lambda>i. g_dicts st ! i = None) [1..<CONFIG_BCDC_MAX_DICTS] = None"
  proof (cases "find (\<lambda>i. g_dicts st ! i = None) [1..<CONFIG_BCDC_MAX_DICTS]")
    case (Some j)
    then have "j < CONFIG_BCDC_MAX_DICTS" by (auto simp: find_Some_iff)
    then show ?thesis using assms(1) Some by (simp add: free_slot_def)
  qed simp
  then show ?thesis using assms by (auto simp: find_None_iff)
qed

lemma foldl_free:
  "g_initialized (foldl (\<lambda>s i. bcdc_free_dict_locked i s) st is) = g_initialized st \<and>
   (bcdc_inv st \<longrightarrow> \<not> g_initialized st \<longrightarrow> bcdc_inv (foldl (\<lambda>s i. bcdc_free_dict_locked i s) st is))"
proof (induction "is" arbitrary: st)
  case (Cons i "is")
  have "g_initialized (bcdc_free_dict_locked i st) = g_initialized st"
    by (simp add: bcdc_free_dict_locked_def split: option.splits)
  then show ?case using Cons free_inv [of st i] by auto
qed simp

lemma shutdown_inv: "bcdc_inv st \<Longrightarrow> bcdc_inv (BcdcShutdown st)"
proof -
  assume i: "bcdc_inv st"
  then have "bcdc_inv (st\<lparr>g_initialized := False\<rparr>)" by (simp add: bcdc_inv_def policies_ok_def)
  then show ?thesis using i foldl_free [of "st\<lparr>g_initialized := False\<rparr>" "[0..<CONFIG_BCDC_MAX_DICTS]"]
    by (auto simp: BcdcShutdown_def bcdc_inv_def policies_ok_def Let_def)
qed

text \<open>The victim scan finds a slot of smallest \<open>last_used\<close>.\<close>

lemma victim_fold:
  assumes "foldl (victim_step st) acc is = (oldest, victim)"
  shows "oldest \<le> fst acc \<and> (\<forall>i\<in>set is. \<forall>d. g_dicts st ! i = Some d \<longrightarrow> oldest \<le> bd_last_used d) \<and>
    ((oldest, victim) = acc \<or>
      (victim \<in> set is \<and> (\<exists>d. g_dicts st ! victim = Some d \<and> bd_last_used d = oldest)))"
  using assms
proof (induction "is" arbitrary: acc)
  case (Cons i "is")
  have v: "fst (victim_step st acc i) \<le> fst acc"
    "\<forall>d. g_dicts st ! i = Some d \<longrightarrow> fst (victim_step st acc i) \<le> bd_last_used d"
    "victim_step st acc i = acc \<or> (\<exists>d. g_dicts st ! i = Some d \<and> victim_step st acc i = (bd_last_used d, i))"
    by (auto simp: victim_step_def split: option.splits)
  from Cons.IH [of "victim_step st acc i"] Cons.prems v show ?case
    by (auto intro: order_trans)
qed simp

lemma lru_victim_spec:
  assumes "lru_victim st \<noteq> CONFIG_BCDC_MAX_DICTS"
  shows "0 < lru_victim st \<and> lru_victim st < CONFIG_BCDC_MAX_DICTS \<and>
    (\<exists>d. g_dicts st ! lru_victim st = Some d \<and>
      (\<forall>i d'. 0 < i \<and> i < CONFIG_BCDC_MAX_DICTS \<and> g_dicts st ! i = Some d' \<longrightarrow> bd_last_used d \<le> bd_last_used d'))"
proof -
  obtain oldest victim where f: "foldl (victim_step st) (- 1, CONFIG_BCDC_MAX_DICTS) [1..<CONFIG_BCDC_MAX_DICTS]
      = (oldest, victim)" by fastforce
  then have "lru_victim st = victim" by (simp add: lru_victim_def)
  with victim_fold [OF f] assms show ?thesis by (auto simp: Ball_def Suc_le_eq)
qed

lemma create_slot_spec:
  assumes "create_slot st = Some (st1, slot)"
  shows "0 < slot \<and> slot < CONFIG_BCDC_MAX_DICTS \<and> g_dicts st1 = (g_dicts st)[slot := None] \<and>
    st1 = st\<lparr>g_dicts := g_dicts st1\<rparr>"
proof (cases "free_slot st = CONFIG_BCDC_MAX_DICTS")
  case True
  with assms lru_victim_spec [of st] show ?thesis
    by (auto simp: create_slot_def Let_def bcdc_free_dict_locked_def split: if_splits)
next
  case False
  with assms free_slot_range [of st] show ?thesis
    by (auto simp: create_slot_def Let_def split: if_splits) (metis list_update_id)+
qed

lemma create_inv:
  assumes "bcdc_inv st" "BcdcCreateDictionary mem now tag st = (st', r)"
  shows "bcdc_inv st'"
proof (cases "g_initialized st \<and> create_slot st \<noteq> None")
  case True
  then obtain st1 slot where c: "create_slot st = Some (st1, slot)" by auto
  note s = create_slot_spec [OF c]
  obtain st2 e where a: "bcdc_alloc_dict_locked mem now slot tag CONFIG_BCDC_DEFAULT_DICT_SIZE st1 = (st2, e)"
    by fastforce
  have "bcdc_inv st1" using s bcdc_inv_dicts [OF assms(1), of slot None] by (metis gr0_conv_Suc nat.distinct(1) pred_option_def option.set(1) empty_iff)
  from alloc_inv [OF this a] show ?thesis using assms(2) True c a
    by (auto simp: BcdcCreateDictionary_def split: if_splits)
qed (use assms in \<open>auto simp: BcdcCreateDictionary_def split: if_splits option.splits\<close>)

lemma touch_ok [simp]: "dict_ok i (touch_dict now d) = dict_ok i d"
  by (simp add: dict_ok_def touch_dict_def)

lemma update_ok [simp]: "dict_ok i (BcdcUpdateDictionary data d) = dict_ok i d"
  by (auto simp: dict_ok_def BcdcUpdateDictionary_def Let_def)

lemma bcdc_inv_dict_ok: "bcdc_inv st \<Longrightarrow> i < CONFIG_BCDC_MAX_DICTS \<Longrightarrow> g_dicts st ! i = Some d \<Longrightarrow> dict_ok i d"
  by (auto simp: bcdc_inv_def dicts_ok_def)

lemma active_dict_Some:
  "active_dict i st = Some d \<longleftrightarrow> i < CONFIG_BCDC_MAX_DICTS \<and> g_dicts st ! i = Some d \<and> bd_active d"
  by (auto simp: active_dict_def split: option.splits)

lemma evict_inv: "bcdc_inv st \<Longrightarrow> bcdc_inv (fst (BcdcEvictDictionary did st))"
  by (auto simp: BcdcEvictDictionary_def intro!: free_inv)

lemma usage_inv: "bcdc_inv st \<Longrightarrow> bcdc_inv (BcdcUpdateDictionaryUsage now did st)"
  by (auto simp: BcdcUpdateDictionaryUsage_def bcdc_inv_dict_ok split: option.splits intro!: bcdc_inv_dicts)

lemma acquire_inv: "bcdc_inv st \<Longrightarrow> bcdc_inv (acquire_dict now did st)"
  by (auto simp: acquire_dict_def active_dict_Some bcdc_inv_dict_ok split: option.splits intro!: bcdc_inv_dicts)

lemma store_inv: "bcdc_inv st \<Longrightarrow> bcdc_inv (fst (store_block did inp ctype res st))"
  by (auto simp: store_block_def active_dict_Some bcdc_inv_dict_ok split: option.splits intro!: bcdc_inv_dicts)

lemma compress_inv:
  assumes "bcdc_inv st"
  shows "bcdc_inv (fst (BcdcCompress lzenv now pad inp ctype did st))"
proof -
  define res where "res = run_codec lzenv ctype (map_option bd_data (active_dict did st)) inp"
  obtain st2 c b where r: "store_block did inp ctype res (bump (count_codec ctype (fst res)) (acquire_dict now did st))
      = (st2, c, b)" using prod_cases3 by blast
  have "bcdc_inv (bump (count_codec ctype (fst res)) (acquire_dict now did st))"
    using assms by (simp add: acquire_inv)
  from store_inv [OF this, of did inp ctype res] have "bcdc_inv st2" by (simp add: r)
  then show ?thesis using assms r by (simp add: BcdcCompress_def Let_def flip: res_def)
qed

lemma decompress_inv: "bcdc_inv st \<Longrightarrow> BcdcDecompress inp did st = Some (st', r) \<Longrightarrow> bcdc_inv st'"
  by (auto simp: BcdcDecompress_def Let_def split: if_splits option.splits)

text \<open>Policies: a list with at most one entry for a tag.\<close>

lemma replace_policy_None: "replace_policy p ps = None \<longleftrightarrow> bp_tag_id p \<notin> bp_tag_id ` set ps"
  by (induction p ps rule: replace_policy.induct) auto

lemma replace_policy_Some:
  "replace_policy p ps = Some qs \<Longrightarrow> map bp_tag_id qs = map bp_tag_id ps \<and>
     (\<forall>t. find (\<lambda>q. bp_tag_id q = t) qs =
        (if t = bp_tag_id p then Some p else find (\<lambda>q. bp_tag_id q = t) ps))"
  by (induction p ps arbitrary: qs rule: replace_policy.induct) (auto split: if_splits)

lemma find_append: "find P (xs @ ys) = (case find P xs of None \<Rightarrow> find P ys | Some x \<Rightarrow> Some x)"
  by (induction xs) auto

lemma set_policy_cases:
  assumes "bcdc_inv st" "BcdcSetPolicy mem p st = (st', e)"
  shows "bcdc_inv st' \<and> g_initialized st' = g_initialized st \<and>
    (if e = OK then g_initialized st \<and> (\<forall>t. find (\<lambda>q. bp_tag_id q = t) (g_policies st') =
        (if t = bp_tag_id p then Some p else find (\<lambda>q. bp_tag_id q = t) (g_policies st)))
     else g_policies st' = g_policies st)"
proof (cases "g_initialized st")
  case False
  then show ?thesis using assms by (auto simp: BcdcSetPolicy_def)
next
  case init: True
  show ?thesis
  proof (cases "replace_policy p (g_policies st)")
    case (Some qs)
    have "length qs = length (g_policies st)" using replace_policy_Some [OF Some] by (metis length_map)
    then show ?thesis using assms init Some replace_policy_Some [OF Some]
      by (auto simp: BcdcSetPolicy_def bcdc_inv_def policies_ok_def)
  next
    case None
    obtain st1 e1 where g: "(if length (g_policies st) \<ge> g_policy_capacity st
        then bcdc_grow_policies_locked mem (g_policy_capacity st * 2) st else (st, OK)) = (st1, e1)"
      by fastforce
    have s1: "bcdc_inv st1" "g_policies st1 = g_policies st" "g_initialized st1"
      "e1 = OK \<Longrightarrow> length (g_policies st) < g_policy_capacity st1"
      using grow_inv [OF assms(1), of mem] g assms(1) init
      by (auto simp: bcdc_inv_def policies_ok_def split: if_splits) fastforce+
    have new: "find (\<lambda>q. bp_tag_id q = bp_tag_id p) (g_policies st) = None"
      using None by (auto simp: replace_policy_None find_None_iff image_iff)
    show ?thesis
    proof (cases "e1 = OK")
      case True
      then have "st' = st1\<lparr>g_policies := g_policies st1 @ [p]\<rparr>" "e = OK"
        using assms(2) init None g by (auto simp: BcdcSetPolicy_def)
      then show ?thesis using s1 True None new init
        by (auto simp: bcdc_inv_def policies_ok_def replace_policy_None find_append split: option.splits)
    next
      case False
      then show ?thesis using assms(2) init None g s1 by (auto simp: BcdcSetPolicy_def)
    qed
  qed
qed

section \<open>Reachable states\<close>

inductive bcdc_step :: "bcdc_state \<Rightarrow> bcdc_state \<Rightarrow> bool" where
  init: "BcdcInit md mp now st = (st', e) \<Longrightarrow> bcdc_step st st'"
| shutdown: "bcdc_step st (BcdcShutdown st)"
| create: "BcdcCreateDictionary md now tag st = (st', r) \<Longrightarrow> bcdc_step st st'"
| evict: "bcdc_step st (fst (BcdcEvictDictionary did st))"
| usage: "bcdc_step st (BcdcUpdateDictionaryUsage now did st)"
| policy: "BcdcSetPolicy mem p st = (st', e) \<Longrightarrow> bcdc_step st st'"
| compress: "bcdc_step st (fst (BcdcCompress lzenv now pad inp ctype did st))"
| decompress: "BcdcDecompress inp did st = Some (st', r) \<Longrightarrow> bcdc_step st st'"
| reset: "bcdc_step st (BcdcResetStats st)"

inductive bcdc_reachable :: "bcdc_state \<Rightarrow> bool" where
  boot: "bcdc_reachable bcdc_boot"
| step: "bcdc_reachable st \<Longrightarrow> bcdc_step st st' \<Longrightarrow> bcdc_reachable st'"

lemma bcdc_step_inv: "bcdc_step st st' \<Longrightarrow> bcdc_inv st \<Longrightarrow> bcdc_inv st'"
proof (induction rule: bcdc_step.induct)
  case (policy mem p st st' e)
  then show ?case using set_policy_cases by blast
next
  case (reset st)
  then show ?case by (simp add: BcdcResetStats_def bcdc_inv_def policies_ok_def)
qed (auto intro: init_inv shutdown_inv create_inv evict_inv usage_inv compress_inv decompress_inv)

lemma bcdc_reachable_inv: "bcdc_reachable st \<Longrightarrow> bcdc_inv st"
  by (induction rule: bcdc_reachable.induct) (auto intro: boot_inv bcdc_step_inv)

text \<open>A freshly initialised module, for the witnesses.\<close>

definition bcdc_started :: bcdc_state where
  "bcdc_started = fst (BcdcInit (True, True) True 0 bcdc_boot)"

lemma bcdc_started_simps:
  "g_initialized bcdc_started" "g_policies bcdc_started = []" "g_policy_capacity bcdc_started = 16"
  "bcdc_reachable bcdc_started"
proof -
  have g: "grow_cap 16 16 = 16" by (simp add: grow_cap.simps)
  show "g_initialized bcdc_started" "g_policies bcdc_started = []" "g_policy_capacity bcdc_started = 16"
    by (simp_all add: bcdc_started_def BcdcInit_def bcdc_boot_def bcdc_alloc_dict_locked_def
      bcdc_grow_policies_locked_def bcdc_consts g Let_def)
  show "bcdc_reachable bcdc_started"
    unfolding bcdc_started_def
    by (rule bcdc_reachable.step [OF bcdc_reachable.boot bcdc_step.init, of "(True, True)" True 0])
      (simp add: prod_eq_iff)
qed

section \<open>Properties\<close>

text \<open>
  C7. Block round trip: compressing a block of 1 to 4096 bytes in an initialised module always
  succeeds, the result is at most 24 bytes longer than the input, and decompressing it gives the
  input back, in any later state of the module in which the dictionary named has the contents it
  had when the block was written. The input has to be one the chosen codec restores
  (\<open>bcdc_good\<close>): anything for stored blocks, no run of three escape bytes for RLE, seven-bit
  data for LZ.
\<close>

theorem bcdc_round_trip:
  assumes "g_initialized st" and "inp \<noteq> []" and "length inp \<le> BCDC_BLOCK_SIZE" and "length pad = 3"
    and "bcdc_good ctype (map_option bd_data (active_dict did st)) inp"
    and "g_initialized later"
    and "map_option bd_data (active_dict did' later) = map_option bd_data (active_dict did st)"
  shows "\<exists>st' block later'. BcdcCompress lzenv now pad inp ctype did st = (st', OK, block) \<and>
           length block \<le> length inp + BCDC_HEADER_SIZE \<and>
           BcdcDecompress block did' later = Some (later', OK, inp)"
proof -
  obtain st' block where c: "BcdcCompress lzenv now pad inp ctype did st = (st', OK, block)"
    using BcdcCompress_total [OF assms(1-3)] by blast
  obtain compressed cdata where b:
    "any.pack (lzenv, ctype, map_option bd_data (active_dict did st)) inp = (compressed, cdata)"
    "block = header_bytes (make_header pad (if compressed then ctype else BCDC_TYPE_NONE) did inp cdata) @ cdata"
    using BcdcCompress_block [OF c] by metis
  have "length block \<le> length inp + BCDC_HEADER_SIZE"
    using any.pack_no_longer [of "(lzenv, ctype, map_option bd_data (active_dict did st))" inp] by (simp add: b)
  then show ?thesis using c BcdcDecompress_block [OF c assms(4-7)] by blast
qed

theorem bcdc_round_trip_witness:
  "\<exists>st' block later'. BcdcCompress (True, []) 7 [0, 0, 0] [5, 5, 5, 5, 5, 9] BCDC_TYPE_RLE 300 bcdc_started
       = (st', OK, block) \<and> length block \<le> 30 \<and>
     BcdcDecompress block 300 bcdc_started = Some (later', OK, [5, 5, 5, 5, 5, 9])"
  using bcdc_round_trip [of bcdc_started "[5, 5, 5, 5, 5, 9]" "[0, 0, 0]" BCDC_TYPE_RLE 300 bcdc_started 300 "(True, [])" 7]
  by (simp add: bcdc_started_simps bcdc_good_def bcdc_types BCDC_BLOCK_SIZE_def BCDC_HEADER_SIZE_def
    BCDC_RLE_ESCAPE_def)

text \<open>
  C28. Corruption of the data of a block is detected: change any one byte behind the header of a block that
  \<^verbatim>\<open>BcdcCompress\<close> made, in any way, and decompression reports \<open>ERR_CORRUPTED\<close>, writes no output and counts a
  failure, whatever codec and dictionary were used. (Nothing covers the flags, the sizes and the second
  checksum of the header.)
\<close>

theorem bcdc_detects_corruption:
  assumes "BcdcCompress lzenv now pad inp ctype did st = (st', OK, block)" and "length pad = 3"
    and "g_initialized later" and "BCDC_HEADER_SIZE \<le> i" and "i < length block" and "b \<noteq> block ! i"
  shows "BcdcDecompress (block[i := b]) did' later =
           Some (bump (\<lambda>s. s\<lparr>compression_failures := compression_failures s + 1\<rparr>) later, ERR_CORRUPTED, [])"
proof -
  obtain compressed cdata where bl: "inp \<noteq> []" "length inp \<le> BCDC_BLOCK_SIZE"
    "any.pack (lzenv, ctype, map_option bd_data (active_dict did st)) inp = (compressed, cdata)"
    "block = header_bytes (make_header pad (if compressed then ctype else BCDC_TYPE_NONE) did inp cdata) @ cdata"
    using BcdcCompress_block [OF assms(1)] by metis
  define h where "h = make_header pad (if compressed then ctype else BCDC_TYPE_NONE) did inp cdata"
  note d = made_block(1,2) [OF bl(1,2) assms(2) bl(3) refl, of did, folded h_def]
  let ?c = "cdata[i - BCDC_HEADER_SIZE := b]"
  have upd: "block[i := b] = header_bytes h @ ?c" using assms(4) by (simp add: bl(4) h_def list_update_append)
  have hd: "header_of (header_bytes h @ ?c) = h"
    by (rule header_of_bytes) (simp add: h_def make_header_def assms(2))
  have "KCrc32 ?c \<noteq> KCrc32 cdata"
    using assms(4-6) by (intro KCrc32_update_neq) (auto simp: bl(4) nth_append)
  then have "\<not> BcdcVerifyChecksum ?c (bh_checksum h)"
    by (simp add: BcdcVerifyChecksum_def h_def make_header_def BcdcComputeChecksum_eq)
  moreover have "bh_magic h = BCDC_MAGIC" "bh_version h = BCDC_VERSION" by (simp_all add: h_def make_header_def)
  ultimately show ?thesis using assms(3) d(2) by (simp add: BcdcDecompress_def upd hd Let_def)
qed

theorem bcdc_detects_corruption_witness:
  "\<exists>st' block. BcdcCompress (True, []) 7 [0, 0, 0] [1, 2] BCDC_TYPE_NONE 300 bcdc_started = (st', OK, block) \<and>
     BcdcDecompress (block[25 := 7]) 300 bcdc_started =
       Some (bump (\<lambda>s. s\<lparr>compression_failures := compression_failures s + 1\<rparr>) bcdc_started, ERR_CORRUPTED, [])"
proof -
  let ?block = "header_bytes (make_header [0, 0, 0] BCDC_TYPE_NONE 300 [1, 2] [1, 2]) @ [1, 2]"
  obtain st' where c: "BcdcCompress (True, []) 7 [0, 0, 0] [1, 2] BCDC_TYPE_NONE 300 bcdc_started = (st', OK, ?block)"
    by (simp add: BcdcCompress_def bcdc_started_simps store_block_def run_codec_def bcdc_types BCDC_BLOCK_SIZE_def)
  show ?thesis
    using c bcdc_detects_corruption [OF c, of bcdc_started 25 7 300]
    by (simp add: bcdc_started_simps BCDC_HEADER_SIZE_def nth_append)
qed

text \<open>
  Decompression is bounded on every input, corrupt or hostile: it never produces more than the
  \<open>original_size\<close> bytes its header announces, and when both sizes in the header fit in the input
  it makes no read outside the input.
\<close>

theorem bcdc_decompress_bounded:
  "(\<forall>st' e out. BcdcDecompress inp did st = Some (st', e, out) \<longrightarrow>
      length out \<le> unat (bh_original_size (header_of inp))) \<and>
   (BCDC_HEADER_SIZE + body_size (header_of inp) \<le> length inp \<and>
    BCDC_HEADER_SIZE + unat (bh_original_size (header_of inp)) \<le> length inp \<longrightarrow>
      BcdcDecompress inp did st \<noteq> None)"
proof -
  have b: "length out \<le> unat (bh_original_size h)" if "decode_body h d cdata = Some (e, out)" for h d cdata e out
    using that lz_decompress_bound [of d "unat (bh_original_size h)"] rle_decompress_bound [of "unat (bh_original_size h)"]
    by (auto simp: decode_body_def Let_def split: if_splits) (metis snd_conv)+
  have s: "decode_body h d cdata \<noteq> None" if "unat (bh_original_size h) \<le> length cdata" for h d cdata
    using that by (simp add: decode_body_def Let_def)
  show ?thesis
    by (auto simp: BcdcDecompress_def Let_def BCDC_HEADER_SIZE_def split: if_splits option.splits dest: b)
      (use s [of "header_of inp" "drop 24 inp"] in auto)
qed

theorem bcdc_decompress_bounded_witness:
  "BcdcDecompress (replicate 40 0) 0 bcdc_started \<noteq> None"
proof -
  have "header_of (replicate 40 0) = \<lparr>bh_magic = 0, bh_version = 0, bh_compression_type = 0, bh_flags = 0,
      bh_original_size = 0, bh_compressed_size = 0, bh_checksum = 0, bh_original_checksum = 0,
      bh_dictionary_id = 0, bh_reserved = [0, 0, 0]\<rparr>"
    by (simp add: header_of_def numeral_eq_Suc)
  then show ?thesis using bcdc_decompress_bounded [of "replicate 40 0" 0 bcdc_started]
    by (simp add: body_size_def BCDC_HEADER_SIZE_def)
qed

text \<open>
  The run-length codec restores every input on which the encoder succeeds and that has no run
  of three escape bytes (\<open>0xFE\<close>).
\<close>

theorem rle_round_trip:
  assumes "no_escape_run inp" and "BcdcRLE_Compress inp = (OK, out)"
  shows "BcdcRLE_Decompress (length inp) out = (OK, inp)"
  using assms by (rule rle.round_trip)

theorem rle_round_trip_witness:
  "BcdcRLE_Decompress (length [7, 7, 7, 7, 9 :: u8]) [0xFE, 7, 4, 9] = (OK, [7, 7, 7, 7, 9])"
proof -
  have "BcdcRLE_Compress [7, 7, 7, 7, 9] = (OK, [0xFE, 7, 4, 9])"
    by (simp add: BcdcRLE_Compress_def rle_compress_loop.simps BCDC_MAX_COMPRESSED_def BCDC_BLOCK_SIZE_def
      BCDC_HEADER_SIZE_def BCDC_RLE_MIN_RUN_def BCDC_RLE_ESCAPE_def)
  from rle_round_trip [OF _ this] show ?thesis by (simp add: BCDC_RLE_ESCAPE_def)
qed

text \<open>The exception is real: three escape bytes come back as two bytes, one of them wrong.\<close>

lemma rle_escape_run_lost:
  "BcdcRLE_Compress [0xFE, 0xFE, 0xFE] = (OK, [0xFE, 0xFE, 3]) \<and>
   BcdcRLE_Decompress 3 [0xFE, 0xFE, 3] = (OK, [0xFE, 3])"
  by (simp add: BcdcRLE_Compress_def rle_compress_loop.simps BCDC_MAX_COMPRESSED_def BCDC_BLOCK_SIZE_def
    BCDC_HEADER_SIZE_def BCDC_RLE_MIN_RUN_def BCDC_RLE_ESCAPE_def BcdcRLE_Decompress_def)

text \<open>
  The LZ codec, with or without a preset dictionary, restores every seven-bit input on which
  the encoder succeeds, whatever the uninitialised chain array held.
\<close>

theorem lz_round_trip:
  assumes "lz_good dictionary inp" and "BcdcLZ_Compress mem_ok chain0 dictionary inp = (OK, out)"
  shows "BcdcLZ_Decompress dictionary (length inp) out = (OK, inp)"
  using lz.round_trip [of "(mem_ok, chain0, dictionary)" inp out] assms by simp

theorem lz_round_trip_witness:
  "BcdcLZ_Decompress (Some [1, 2, 3, 4]) (length [1, 2, 3 :: u8]) [128, 4, 0] = (OK, [1, 2, 3])"
  using lz_round_trip [OF _ lz_sample] by (simp add: lz_good_def seven_bit_def)

text \<open>
  C29. In every reachable state of the module: once initialised the default dictionary 0 exists,
  every dictionary carries the id of its slot, is active and has its full 8192 bytes; there are at
  most as many policies as the table has room for, never more than 4096, and no tag has two.
\<close>

theorem bcdc_tables_invariant:
  assumes "bcdc_reachable st"
  shows "length (g_dicts st) = 256 \<and> (g_initialized st \<longrightarrow> g_dicts st ! 0 \<noteq> None) \<and>
    (\<forall>i<256. \<forall>d. g_dicts st ! i = Some d \<longrightarrow>
       bd_dictionary_id d = of_nat i \<and> bd_active d \<and> length (bd_data d) = 8192) \<and>
    length (g_policies st) \<le> g_policy_capacity st \<and> g_policy_capacity st \<le> 4096 \<and>
    distinct (map bp_tag_id (g_policies st))"
  using bcdc_reachable_inv [OF assms]
  by (auto simp: bcdc_inv_def dicts_ok_def policies_ok_def dict_ok_def bcdc_consts)

theorem bcdc_tables_invariant_witness:
  "length (g_dicts bcdc_started) = 256 \<and> g_dicts bcdc_started ! 0 \<noteq> None"
  using bcdc_tables_invariant [OF bcdc_started_simps(4)] bcdc_started_simps(1) by blast

text \<open>
  Policies behave like a finite map from tags with a default: after a successful
  \<^verbatim>\<open>BcdcSetPolicy\<close> the tag reads back the policy set and every other tag reads what it read
  before; a failed one changes no tag's policy.
\<close>

theorem bcdc_policy_map:
  assumes "bcdc_reachable st" and "BcdcSetPolicy mem p st = (st', e)"
  shows "BcdcGetPolicy t st' =
    (if e = OK \<and> t = bp_tag_id p then Inr p else BcdcGetPolicy t st)"
  using set_policy_cases [OF bcdc_reachable_inv [OF assms(1)] assms(2)]
  by (cases "e = OK") (auto simp: BcdcGetPolicy_def)

theorem bcdc_policy_map_witness:
  "\<exists>st'. BcdcSetPolicy True (default_policy 3) bcdc_started = (st', OK) \<and>
     BcdcGetPolicy 3 st' = Inr (default_policy 3)"
proof -
  have "BcdcSetPolicy True (default_policy 3) bcdc_started
      = (bcdc_started\<lparr>g_policies := [default_policy 3]\<rparr>, OK)"
    by (simp add: BcdcSetPolicy_def bcdc_started_simps)
  with bcdc_policy_map [OF bcdc_started_simps(4) this, of 3] show ?thesis
    by (simp add: default_policy_def)
qed

text \<open>
  Creating a dictionary: on success the new, empty dictionary sits in a slot other than 0, every
  other slot is untouched, and a dictionary was displaced only if all slots were taken, in which case
  it was one of least \<open>last_used\<close> time.
\<close>

theorem bcdc_create_lru:
  assumes "bcdc_reachable st" and "BcdcCreateDictionary mem now tag st = (st', OK, did)"
  shows "\<exists>slot. did = of_nat slot \<and> 0 < slot \<and> slot < 256 \<and>
    (\<exists>d. g_dicts st' = (g_dicts st)[slot := Some d] \<and> bd_tag_id d = tag \<and> bd_data d = replicate 8192 0) \<and>
    (g_dicts st ! slot = None \<or>
      (\<forall>i. 0 < i \<and> i < 256 \<longrightarrow> (\<exists>d d'. g_dicts st ! i = Some d \<and> g_dicts st ! slot = Some d' \<and>
         bd_last_used d' \<le> bd_last_used d)))"
proof -
  obtain st1 slot where c: "create_slot st = Some (st1, slot)" and did: "did = of_nat slot"
    and a: "bcdc_alloc_dict_locked mem now slot tag CONFIG_BCDC_DEFAULT_DICT_SIZE st1 = (st', OK)"
    using assms(2) by (auto simp: BcdcCreateDictionary_def split: if_splits option.splits prod.splits)
  note s = create_slot_spec [OF c]
  have len: "length (g_dicts st) = 256"
    using bcdc_reachable_inv [OF assms(1)] by (simp add: bcdc_inv_def dicts_ok_def bcdc_consts)
  have d: "\<exists>d. g_dicts st' = (g_dicts st)[slot := Some d] \<and> bd_tag_id d = tag \<and> bd_data d = replicate 8192 0"
    using a s by (auto simp: bcdc_alloc_dict_locked_def bcdc_consts split: if_splits)
  have "g_dicts st ! slot = None \<or> (\<forall>i. 0 < i \<and> i < 256 \<longrightarrow> (\<exists>d d'. g_dicts st ! i = Some d \<and>
      g_dicts st ! slot = Some d' \<and> bd_last_used d' \<le> bd_last_used d))"
  proof (cases "free_slot st = CONFIG_BCDC_MAX_DICTS")
    case True
    then have "slot = lru_victim st" "lru_victim st \<noteq> CONFIG_BCDC_MAX_DICTS"
      using c by (auto simp: create_slot_def Let_def split: if_splits)
    then obtain d' where d': "g_dicts st ! slot = Some d'"
      "\<forall>i d. 0 < i \<and> i < 256 \<and> g_dicts st ! i = Some d \<longrightarrow> bd_last_used d' \<le> bd_last_used d"
      using lru_victim_spec [of st] by (auto simp: CONFIG_BCDC_MAX_DICTS_def)
    have "\<exists>d. g_dicts st ! i = Some d" if "0 < i" "i < 256" for i
      using free_slot_full [OF True] that by (simp add: CONFIG_BCDC_MAX_DICTS_def)
    with d' show ?thesis by blast
  next
    case False
    then show ?thesis using c free_slot_range [of st] by (auto simp: create_slot_def Let_def)
  qed
  then show ?thesis using did d s by (auto simp: bcdc_consts)
qed

theorem bcdc_create_lru_witness:
  "\<exists>st' did slot d. BcdcCreateDictionary (True, True) 5 9 bcdc_started = (st', OK, did) \<and> did = of_nat slot \<and>
     0 < slot \<and> slot < 256 \<and> g_dicts st' ! slot = Some d \<and> bd_tag_id d = 9"
proof -
  have "g_dicts bcdc_started ! 1 = None"
    by (simp add: bcdc_started_def BcdcInit_def bcdc_boot_def bcdc_alloc_dict_locked_def
      bcdc_grow_policies_locked_def bcdc_consts Let_def split: prod.splits)
  then have "free_slot bcdc_started \<noteq> CONFIG_BCDC_MAX_DICTS"
    using free_slot_full [of bcdc_started 1] by (auto simp: CONFIG_BCDC_MAX_DICTS_def)
  then obtain st' did where c: "BcdcCreateDictionary (True, True) 5 9 bcdc_started = (st', OK, did)"
    by (simp add: BcdcCreateDictionary_def create_slot_def bcdc_started_simps bcdc_alloc_dict_locked_def)
  have "length (g_dicts bcdc_started) = 256"
    using bcdc_reachable_inv [OF bcdc_started_simps(4)] by (simp add: bcdc_inv_def dicts_ok_def bcdc_consts)
  with c bcdc_create_lru [OF bcdc_started_simps(4) c] show ?thesis by auto
qed

end
