(* ===== verification/Buddy.thy ===== *)
theory Buddy
  imports BitArray
begin

unbundle bit_operations_syntax

text \<open>
  The physical page allocator, kernel/core/memory/pmm/buddy.c. A zone covers \<open>total_pages\<close>
  pages from \<open>base\<close>; a free block of order \<open>o\<close> is \<open>2^o\<close> pages, aligned to its size
  relative to the base, and sits in free list \<open>o\<close>. Physical addresses are natural numbers:
  the end of a zone is a physical address, so sums of an address in the zone and a block size do
  not wrap. The node at the head of a free page carries the block's order; \<open>bz_node_order\<close> is
  that byte of every page of memory, which belongs to whoever owns the page. A free list is the
  list of its nodes' physical addresses from head to tail: insertion appends, removal takes a
  node out (the pointer surgery is verified against this view in theory BuddyList). \<open>NULL\<close> is
  address 0; a panic, or a call that does not return, is \<open>None\<close>.
\<close>

section \<open>State and helpers\<close>

definition BUDDY_MAX_ORDER :: nat where "BUDDY_MAX_ORDER = 14"
definition BUDDY_PAGE_SIZE :: nat where "BUDDY_PAGE_SIZE = 4096"

record BuddyZone =
  bz_base :: nat
  bz_total_pages :: nat
  bz_alloc_map :: bytes
  bz_free_lists :: "nat list list"
  bz_free_count :: nat
  bz_initialized :: bool
  bz_node_order :: "nat \<Rightarrow> u8"

text \<open>
  \<^verbatim>\<open>while (n < pages) { n <<= 1; order++; }\<close>, entered with \<open>n = 1\<close>. The shift is at 64 bits: for more than
  2 ^ 63 pages \<open>n\<close> becomes 0 and the loop does not end, which is \<open>None\<close>.
\<close>

partial_function (option) order_loop :: "nat \<Rightarrow> nat \<Rightarrow> nat \<Rightarrow> nat option" where
  "order_loop pages n order = (if n < pages then order_loop pages (2 * n mod 2 ^ 64) (Suc order) else Some order)"

definition pages_to_order :: "nat \<Rightarrow> nat option" where
  "pages_to_order pages = order_loop pages 1 0"

definition order_to_pages :: "nat \<Rightarrow> nat" where
  "order_to_pages order = 2 ^ order"

definition page_index :: "BuddyZone \<Rightarrow> nat \<Rightarrow> nat" where
  "page_index z phys = (phys - bz_base z) div BUDDY_PAGE_SIZE"

definition index_to_phys :: "BuddyZone \<Rightarrow> nat \<Rightarrow> nat" where
  "index_to_phys z idx = bz_base z + idx * BUDDY_PAGE_SIZE"

definition alloc_map_set :: "BuddyZone \<Rightarrow> nat \<Rightarrow> BuddyZone" where
  "alloc_map_set z idx = z\<lparr>bz_alloc_map := (bz_alloc_map z)
     [idx div 8 := bz_alloc_map z ! (idx div 8) OR push_bit (idx mod 8) 1]\<rparr>"

definition alloc_map_clear :: "BuddyZone \<Rightarrow> nat \<Rightarrow> BuddyZone" where
  "alloc_map_clear z idx = z\<lparr>bz_alloc_map := (bz_alloc_map z)
     [idx div 8 := bz_alloc_map z ! (idx div 8) AND NOT (push_bit (idx mod 8) 1)]\<rparr>"

definition alloc_map_test :: "BuddyZone \<Rightarrow> nat \<Rightarrow> bool" where
  "alloc_map_test z idx \<longleftrightarrow> bz_alloc_map z ! (idx div 8) AND push_bit (idx mod 8) 1 \<noteq> 0"

definition alloc_map_mark_range :: "BuddyZone \<Rightarrow> nat \<Rightarrow> nat \<Rightarrow> bool \<Rightarrow> BuddyZone" where
  "alloc_map_mark_range z start_idx count allocated =
     foldl (\<lambda>z i. if allocated then alloc_map_set z (start_idx + i) else alloc_map_clear z (start_idx + i))
       z [0..<count]"

definition list_insert :: "BuddyZone \<Rightarrow> nat \<Rightarrow> nat \<Rightarrow> BuddyZone" where
  "list_insert z order node =
     z\<lparr>bz_free_lists := (bz_free_lists z)[order := bz_free_lists z ! order @ [node]],
       bz_node_order := (bz_node_order z)(node := of_nat order)\<rparr>"

definition list_remove :: "BuddyZone \<Rightarrow> nat \<Rightarrow> nat \<Rightarrow> BuddyZone" where
  "list_remove z order node =
     z\<lparr>bz_free_lists := (bz_free_lists z)[order := remove1 node (bz_free_lists z ! order)]\<rparr>"

definition buddy_address :: "BuddyZone \<Rightarrow> nat \<Rightarrow> nat \<Rightarrow> nat" where
  "buddy_address z block_phys order =
     bz_base z + ((block_phys - bz_base z) XOR (order_to_pages order * BUDDY_PAGE_SIZE))"

definition zone_end :: "BuddyZone \<Rightarrow> nat" where
  "zone_end z = bz_base z + bz_total_pages z * BUDDY_PAGE_SIZE"

section \<open>Building a zone\<close>

definition buddy_init :: "nat \<Rightarrow> nat \<Rightarrow> nat \<Rightarrow> (nat \<Rightarrow> u8) \<Rightarrow> BuddyZone" where
  "buddy_init base total_pages alloc_map_size mem =
     \<lparr>bz_base = base, bz_total_pages = total_pages, bz_alloc_map = replicate alloc_map_size 0xFF,
      bz_free_lists = replicate (BUDDY_MAX_ORDER + 1) [], bz_free_count = 0, bz_initialized = True,
      bz_node_order = mem\<rparr>"

definition align_down :: "nat \<Rightarrow> nat" where
  "align_down a = a div BUDDY_PAGE_SIZE * BUDDY_PAGE_SIZE"

definition align_up :: "nat \<Rightarrow> nat" where
  "align_up a = (a + BUDDY_PAGE_SIZE - 1) div BUDDY_PAGE_SIZE * BUDDY_PAGE_SIZE"

text \<open>The inner loop of \<^verbatim>\<open>buddy_free_range\<close>: the largest aligned block at \<open>addr\<close> that ends by \<open>stop\<close>.\<close>

function fit_order :: "BuddyZone \<Rightarrow> nat \<Rightarrow> nat \<Rightarrow> nat \<Rightarrow> nat" where
  "fit_order z addr stop order =
     (if order < BUDDY_MAX_ORDER \<and>
         (addr - bz_base z) mod (order_to_pages (order + 1) * BUDDY_PAGE_SIZE) = 0 \<and>
         \<not> addr + order_to_pages (order + 1) * BUDDY_PAGE_SIZE > stop
      then fit_order z addr stop (order + 1) else order)"
  by pat_completeness auto
termination
  by (relation "measure (\<lambda>(z, addr, stop, order). BUDDY_MAX_ORDER - order)") auto

declare fit_order.simps [simp del]

definition seed_block :: "BuddyZone \<Rightarrow> nat \<Rightarrow> nat \<Rightarrow> BuddyZone" where
  "seed_block z addr order =
     (let z1 = alloc_map_mark_range z (page_index z addr) (order_to_pages order) False;
          z2 = z1\<lparr>bz_free_count := bz_free_count z1 + order_to_pages order\<rparr>
      in list_insert z2 order addr)"

function seed_loop :: "BuddyZone \<Rightarrow> nat \<Rightarrow> nat \<Rightarrow> BuddyZone" where
  "seed_loop z addr stop =
     (if addr < stop then
        (let order = fit_order z addr stop 0
         in seed_loop (seed_block z addr order) (addr + order_to_pages order * BUDDY_PAGE_SIZE) stop)
      else z)"
  by pat_completeness auto
termination
  by (relation "measure (\<lambda>(z, addr, stop). stop - addr)")
    (auto simp: order_to_pages_def BUDDY_PAGE_SIZE_def intro!: diff_less_mono2)

declare seed_loop.simps [simp del]

definition buddy_free_range :: "BuddyZone \<Rightarrow> nat \<Rightarrow> nat \<Rightarrow> BuddyZone" where
  "buddy_free_range z start stop =
     (let start1 = (if start < bz_base z then bz_base z else start);
          stop1 = (if stop > zone_end z then zone_end z else stop)
      in if start1 \<ge> stop1 then z
         else let start2 = align_up start1; stop2 = align_down stop1
              in if start2 \<ge> stop2 then z else seed_loop z start2 stop2)"

text \<open>
  \<^verbatim>\<open>buddy_reserve_range\<close> walks each list with the successor fetched before the node is taken
  out. Taking a block out puts back only smaller blocks, in lists visited later, so the nodes
  seen are those of the list as it is when its walk starts.
\<close>

definition reserve_block :: "nat \<Rightarrow> nat \<Rightarrow> nat \<Rightarrow> BuddyZone \<Rightarrow> nat \<Rightarrow> BuddyZone" where
  "reserve_block start stop o' z block =
     (let pages = order_to_pages o'; block_end = block + pages * BUDDY_PAGE_SIZE in
      if block < stop \<and> block_end > start then
        (let z1 = list_remove z o' block;
             z2 = z1\<lparr>bz_free_count := bz_free_count z1 - pages\<rparr>;
             z3 = alloc_map_mark_range z2 (page_index z2 block) pages True;
             z4 = (if block < start then buddy_free_range z3 block start else z3)
         in if block_end > stop then buddy_free_range z4 stop block_end else z4)
      else z)"

definition reserve_list :: "nat \<Rightarrow> nat \<Rightarrow> BuddyZone \<Rightarrow> nat \<Rightarrow> BuddyZone" where
  "reserve_list start stop z o' = foldl (reserve_block start stop o') z (bz_free_lists z ! o')"

definition buddy_reserve_range :: "BuddyZone \<Rightarrow> nat \<Rightarrow> nat \<Rightarrow> BuddyZone" where
  "buddy_reserve_range z start stop =
     (let start1 = align_down start; stop1 = align_up stop;
          start2 = (if start1 < bz_base z then bz_base z else start1);
          stop2 = (if stop1 > zone_end z then zone_end z else stop1)
      in if start2 \<ge> stop2 then z
         else foldl (reserve_list start2 stop2) z (rev [0..<BUDDY_MAX_ORDER + 1]))"

section \<open>Allocation\<close>

text \<open>The splitting loop: halve the block from order \<open>o'\<close> down to \<open>order\<close>, freeing upper halves.\<close>

fun split_loop :: "nat \<Rightarrow> nat \<Rightarrow> BuddyZone \<Rightarrow> nat \<Rightarrow> BuddyZone" where
  "split_loop order 0 z block = z"
| "split_loop order (Suc o') z block =
     (if Suc o' > order
      then split_loop order o' (list_insert z o' (block + order_to_pages o' * BUDDY_PAGE_SIZE)) block
      else z)"

definition take_block :: "BuddyZone \<Rightarrow> nat \<Rightarrow> nat \<Rightarrow> nat \<Rightarrow> BuddyZone" where
  "take_block z order o' block =
     (let z1 = split_loop order o' (list_remove z o' block) block;
          z2 = alloc_map_mark_range z1 (page_index z1 block) (order_to_pages order) True
      in z2\<lparr>bz_free_count := bz_free_count z2 - order_to_pages order\<rparr>)"

definition buddy_alloc :: "BuddyZone \<Rightarrow> nat \<Rightarrow> (BuddyZone \<times> nat) option" where
  "buddy_alloc z pages =
     (if pages = 0 \<or> \<not> bz_initialized z then Some (z, 0)
      else case pages_to_order pages of
        None \<Rightarrow> None
      | Some order \<Rightarrow>
        Some (if order > BUDDY_MAX_ORDER then (z, 0)
          else case find (\<lambda>o'. bz_free_lists z ! o' \<noteq> []) [order..<BUDDY_MAX_ORDER + 1] of
            None \<Rightarrow> (z, 0)
          | Some o' \<Rightarrow> let block = hd (bz_free_lists z ! o') in (take_block z order o' block, block)))"

text \<open>The search of \<^verbatim>\<open>buddy_alloc_range\<close>: the first block, list by list, inside the window.\<close>

definition in_window :: "nat \<Rightarrow> nat \<Rightarrow> nat \<Rightarrow> nat \<Rightarrow> bool" where
  "in_window min_phys max_phys o' block =
     (let block_end = block + order_to_pages o' * BUDDY_PAGE_SIZE in
      if block \<ge> max_phys \<or> block_end \<le> min_phys then False
      else block \<ge> min_phys \<and> block_end \<le> max_phys)"

fun search_range :: "BuddyZone \<Rightarrow> nat \<Rightarrow> nat \<Rightarrow> nat list \<Rightarrow> (nat \<times> nat) option" where
  "search_range z min_phys max_phys [] = None"
| "search_range z min_phys max_phys (o' # os) =
     (case find (in_window min_phys max_phys o') (bz_free_lists z ! o') of
        Some block \<Rightarrow> Some (o', block)
      | None \<Rightarrow> search_range z min_phys max_phys os)"

definition buddy_alloc_range :: "BuddyZone \<Rightarrow> nat \<Rightarrow> nat \<Rightarrow> nat \<Rightarrow> (BuddyZone \<times> nat) option" where
  "buddy_alloc_range z pages min_phys max_phys =
     (if pages = 0 \<or> \<not> bz_initialized z then Some (z, 0)
      else case pages_to_order pages of
        None \<Rightarrow> None
      | Some order \<Rightarrow>
        Some (if order > BUDDY_MAX_ORDER then (z, 0)
          else
            let lo = (if min_phys < bz_base z then bz_base z else min_phys);
                hi = (if max_phys > zone_end z then zone_end z else max_phys)
            in if lo \<ge> hi then (z, 0)
               else case search_range z lo hi [order..<BUDDY_MAX_ORDER + 1] of
                 None \<Rightarrow> (z, 0)
               | Some (o', block) \<Rightarrow> (take_block z order o' block, block)))"

section \<open>Release\<close>

text \<open>The coalescing loop: it returns the zone and the block to insert with its order.\<close>

function merge_loop :: "BuddyZone \<Rightarrow> nat \<Rightarrow> nat \<Rightarrow> BuddyZone \<times> nat \<times> nat" where
  "merge_loop z block order =
     (let buddy = buddy_address z block order in
      if \<not> order < BUDDY_MAX_ORDER then (z, block, order)
      else if buddy < bz_base z \<or> buddy + order_to_pages order * BUDDY_PAGE_SIZE > zone_end z
      then (z, block, order)
      else if alloc_map_test z (page_index z buddy) then (z, block, order)
      else if bz_node_order z buddy \<noteq> of_nat order then (z, block, order)
      else merge_loop (list_remove z order buddy) (if buddy < block then buddy else block) (Suc order))"
  by pat_completeness auto
termination
  by (relation "measure (\<lambda>(z, block, order). BUDDY_MAX_ORDER - order)") auto

declare merge_loop.simps [simp del]

text \<open>\<open>None\<close> is the panic on a page that is free already, or the loop over the order that does not end.\<close>

definition buddy_free :: "BuddyZone \<Rightarrow> nat \<Rightarrow> nat \<Rightarrow> BuddyZone option" where
  "buddy_free z addr pages =
     (if addr = 0 \<or> pages = 0 \<or> \<not> bz_initialized z then Some z
      else case pages_to_order pages of
        None \<Rightarrow> None
      | Some order \<Rightarrow>
        let idx = page_index z addr; n = order_to_pages order in
        if order > BUDDY_MAX_ORDER then Some z
        else if addr < bz_base z \<or> addr \<ge> zone_end z then Some z
        else if \<exists>i<n. \<not> alloc_map_test z (idx + i) then None
        else
          let z1 = alloc_map_mark_range z idx n False;
              z2 = z1\<lparr>bz_free_count := bz_free_count z1 + n\<rparr>;
              (z3, block, order3) = merge_loop z2 addr order
          in Some (list_insert z3 order3 block))"

section \<open>Orders\<close>

text \<open>The order of a request: the least one whose blocks are large enough.\<close>

function order_steps :: "nat \<Rightarrow> nat \<Rightarrow> nat \<Rightarrow> nat" where
  "order_steps pages n order = (if n < pages \<and> 0 < n then order_steps pages (2 * n) (Suc order) else order)"
  by pat_completeness auto
termination
  by (relation "measure (\<lambda>(pages, n, order). pages - n)") auto

declare order_steps.simps [simp del]

definition block_order :: "nat \<Rightarrow> nat" where
  "block_order pages = order_steps pages 1 0"

lemma order_steps_spec:
  "0 < n \<Longrightarrow> \<exists>j. order_steps pages n order = order + j \<and> pages \<le> n * 2 ^ j \<and> (0 < j \<longrightarrow> n * 2 ^ (j - 1) < pages)"
proof (induction pages n order rule: order_steps.induct)
  case (1 pages n order)
  show ?case
  proof (cases "n < pages")
    case False
    then show ?thesis using order_steps.simps [of pages n order] by (intro exI [of _ 0]) auto
  next
    case True
    obtain j where j: "order_steps pages (2 * n) (Suc order) = Suc order + j" "pages \<le> 2 * n * 2 ^ j"
      "0 < j \<longrightarrow> 2 * n * 2 ^ (j - 1) < pages" using 1 True by auto
    have "order_steps pages n order = order + Suc j"
      using True "1.prems" j(1) order_steps.simps [of pages n order] by simp
    moreover have "n * 2 ^ (Suc j - 1) < pages" using j(3) True by (cases j) (simp_all add: mult.assoc)
    ultimately show ?thesis using j(2) by (intro exI [of _ "Suc j"]) (simp add: mult.assoc)
  qed
qed

lemma block_order_spec:
  "pages \<le> 2 ^ block_order pages" "0 < block_order pages \<Longrightarrow> 2 ^ (block_order pages - 1) < pages"
proof -
  obtain j where "order_steps pages 1 0 = 0 + j" "pages \<le> 1 * 2 ^ j" "0 < j \<longrightarrow> 1 * 2 ^ (j - 1) < pages"
    using order_steps_spec [of 1 pages 0] by auto
  then show "pages \<le> 2 ^ block_order pages" "0 < block_order pages \<Longrightarrow> 2 ^ (block_order pages - 1) < pages"
    by (simp_all add: block_order_def)
qed

lemma order_loop_steps: "0 < n \<Longrightarrow> pages \<le> 2 ^ 63 \<Longrightarrow> order_loop pages n order = Some (order_steps pages n order)"
proof (induction pages n order rule: order_steps.induct)
  case (1 pages n order)
  show ?case
  proof (cases "n < pages")
    case True
    then have "2 * n mod 2 ^ 64 = 2 * n" using "1.prems" by simp
    then show ?thesis using 1 True order_steps.simps [of pages n order] by (subst order_loop.simps) simp
  qed (use order_steps.simps [of pages n order] in \<open>subst order_loop.simps, simp\<close>)
qed

lemma order_loop_ends: "order_loop pages n order = Some r \<Longrightarrow> n = 0 \<or> (\<exists>k\<le>63. n = 2 ^ k) \<longrightarrow> pages \<le> 2 ^ 63"
proof (rule order_loop.raw_induct [of "\<lambda>pages n order r. n = 0 \<or> (\<exists>k\<le>63. n = 2 ^ k) \<longrightarrow> pages \<le> 2 ^ 63"])
  fix f and pages n order r :: nat
  assume ih: "\<And>pages n order r. f pages n order = Some r \<Longrightarrow> n = 0 \<or> (\<exists>k\<le>63. n = 2 ^ k) \<longrightarrow> pages \<le> 2 ^ 63"
    and body: "(if n < pages then f pages (2 * n mod 2 ^ 64) (Suc order) else Some order) = Some r"
  show "n = 0 \<or> (\<exists>k\<le>63. n = 2 ^ k) \<longrightarrow> pages \<le> 2 ^ 63"
  proof
    assume n: "n = 0 \<or> (\<exists>k\<le>63. n = 2 ^ k)"
    have step: "2 * n mod 2 ^ 64 = 0 \<or> (\<exists>k\<le>63. 2 * n mod 2 ^ 64 = 2 ^ k)"
    proof (cases "n = 0 \<or> n = 2 ^ 63")
      case False
      then obtain k where k: "k < 63" "n = 2 ^ k" using n by (metis le_neq_implies_less)
      then have "2 * n = 2 ^ Suc k" "(2::nat) ^ Suc k < 2 ^ 64" by (simp, intro power_strict_increasing) simp_all
      then show ?thesis using k(1) by (intro disjI2 exI [of _ "Suc k"]) simp
    qed auto
    have "n \<le> 2 ^ 63"
    proof (cases "n = 0")
      case False
      then obtain k where "k \<le> 63" "n = 2 ^ k" using n by blast
      then show ?thesis by (simp only: power_increasing)
    qed simp
    then show "pages \<le> 2 ^ 63" using ih [of pages "2 * n mod 2 ^ 64" "Suc order" r] step body by (cases "n < pages") auto
  qed
qed

lemma pages_to_order_eq: "pages_to_order pages = (if pages \<le> 2 ^ 63 then Some (block_order pages) else None)"
proof (cases "pages \<le> 2 ^ 63")
  case False
  have "\<exists>k\<le>63. (1::nat) = 2 ^ k" by (rule exI [of _ 0]) simp
  then have "order_loop pages 1 0 = None" using order_loop_ends [of pages 1 0] False by (cases "order_loop pages 1 0") blast+
  then show ?thesis using False by (simp add: pages_to_order_def)
qed (simp add: pages_to_order_def block_order_def order_loop_steps)

lemma small_order: "block_order pages \<le> BUDDY_MAX_ORDER \<Longrightarrow> pages_to_order pages = Some (block_order pages)"
proof -
  assume "block_order pages \<le> BUDDY_MAX_ORDER"
  then have "(2::nat) ^ block_order pages \<le> 2 ^ 63" by (intro power_increasing) (simp_all add: BUDDY_MAX_ORDER_def)
  then have "pages \<le> 2 ^ 63" using block_order_spec(1) [of pages] by (rule order_trans [rotated])
  then show ?thesis by (simp add: pages_to_order_eq)
qed

section \<open>Blocks and the invariant\<close>

lemmas buddy_consts = BUDDY_MAX_ORDER_def BUDDY_PAGE_SIZE_def order_to_pages_def

text \<open>A well-placed block, the pages it covers, and the pages of all free blocks.\<close>

definition is_block :: "BuddyZone \<Rightarrow> nat \<Rightarrow> nat \<Rightarrow> bool" where
  "is_block z o' a \<longleftrightarrow> o' \<le> BUDDY_MAX_ORDER \<and>
     (\<exists>k. a = bz_base z + k * BUDDY_PAGE_SIZE \<and> 2 ^ o' dvd k \<and> k + 2 ^ o' \<le> bz_total_pages z)"

definition span :: "BuddyZone \<Rightarrow> nat \<Rightarrow> nat \<Rightarrow> nat set" where
  "span z o' a = {page_index z a..<page_index z a + 2 ^ o'}"

definition in_list :: "BuddyZone \<Rightarrow> nat \<Rightarrow> nat \<Rightarrow> bool" where
  "in_list z o' a \<longleftrightarrow> o' \<le> BUDDY_MAX_ORDER \<and> a \<in> set (bz_free_lists z ! o')"

definition listed :: "BuddyZone \<Rightarrow> nat set" where
  "listed z = {i. \<exists>o' a. in_list z o' a \<and> i \<in> span z o' a}"

definition lists_ok :: "BuddyZone \<Rightarrow> bool" where
  "lists_ok z \<longleftrightarrow> length (bz_free_lists z) = BUDDY_MAX_ORDER + 1 \<and>
     (\<forall>o'\<le>BUDDY_MAX_ORDER. distinct (bz_free_lists z ! o')) \<and>
     (\<forall>o' a. in_list z o' a \<longrightarrow> is_block z o' a \<and> bz_node_order z a = of_nat o') \<and>
     (\<forall>o1 a1 o2 a2. in_list z o1 a1 \<longrightarrow> in_list z o2 a2 \<longrightarrow> (o1, a1) \<noteq> (o2, a2) \<longrightarrow>
        span z o1 a1 \<inter> span z o2 a2 = {})"

text \<open>\<open>map_ok z F\<close>: the bit map says that exactly the pages of \<open>F\<close> are free, and \<open>free_count\<close> counts them.\<close>

definition map_ok :: "BuddyZone \<Rightarrow> nat set \<Rightarrow> bool" where
  "map_ok z F \<longleftrightarrow> bz_total_pages z \<le> 8 * length (bz_alloc_map z) \<and> F \<subseteq> {..<bz_total_pages z} \<and>
     (\<forall>i<bz_total_pages z. alloc_map_test z i \<longleftrightarrow> i \<notin> F) \<and> bz_free_count z = card F"

definition buddy_inv :: "BuddyZone \<Rightarrow> bool" where
  "buddy_inv z \<longleftrightarrow> lists_ok z \<and> map_ok z (listed z)"

section \<open>What the helpers leave alone\<close>

lemma alloc_map_wa:
  "alloc_map_test z = wa_test (bz_alloc_map z)"
  "alloc_map_set z i = z\<lparr>bz_alloc_map := wa_set (bz_alloc_map z) i\<rparr>"
  "alloc_map_clear z i = z\<lparr>bz_alloc_map := wa_clear (bz_alloc_map z) i\<rparr>"
  by (simp_all add: fun_eq_iff alloc_map_test_def alloc_map_set_def alloc_map_clear_def wa_test_def
    wa_set_def wa_clear_def)

lemma mark_range_eq:
  "alloc_map_mark_range z k n b =
     z\<lparr>bz_alloc_map := foldl (if b then wa_set else wa_clear) (bz_alloc_map z) (map ((+) k) [0..<n])\<rparr>"
proof -
  have "foldl (\<lambda>z i. if b then alloc_map_set z (k + i) else alloc_map_clear z (k + i)) z is =
      z\<lparr>bz_alloc_map := foldl (if b then wa_set else wa_clear) (bz_alloc_map z) (map ((+) k) is)\<rparr>" for "is"
    by (induction "is" arbitrary: z) (simp_all add: alloc_map_wa)
  then show ?thesis by (simp only: alloc_map_mark_range_def)
qed

lemma zone_fields [simp]:
  "bz_base (alloc_map_mark_range z k n b) = bz_base z"
  "bz_total_pages (alloc_map_mark_range z k n b) = bz_total_pages z"
  "bz_free_lists (alloc_map_mark_range z k n b) = bz_free_lists z"
  "bz_free_count (alloc_map_mark_range z k n b) = bz_free_count z"
  "bz_initialized (alloc_map_mark_range z k n b) = bz_initialized z"
  "bz_node_order (alloc_map_mark_range z k n b) = bz_node_order z"
  "bz_base (list_insert z o' a) = bz_base z"
  "bz_total_pages (list_insert z o' a) = bz_total_pages z"
  "bz_alloc_map (list_insert z o' a) = bz_alloc_map z"
  "bz_free_count (list_insert z o' a) = bz_free_count z"
  "bz_initialized (list_insert z o' a) = bz_initialized z"
  "bz_base (list_remove z o' a) = bz_base z"
  "bz_total_pages (list_remove z o' a) = bz_total_pages z"
  "bz_alloc_map (list_remove z o' a) = bz_alloc_map z"
  "bz_free_count (list_remove z o' a) = bz_free_count z"
  "bz_initialized (list_remove z o' a) = bz_initialized z"
  "bz_node_order (list_remove z o' a) = bz_node_order z"
  by (simp_all add: mark_range_eq list_insert_def list_remove_def)

text \<open>The geometry depends on the base and the number of pages only.\<close>

lemma geometry_cong:
  assumes "bz_base z' = bz_base z" "bz_total_pages z' = bz_total_pages z"
  shows "page_index z' = page_index z" "is_block z' = is_block z" "span z' = span z" "zone_end z' = zone_end z"
  using assms by (simp_all add: fun_eq_iff page_index_def is_block_def span_def zone_end_def)

lemma geometry [simp]:
  "page_index (alloc_map_mark_range z k n b) = page_index z" "is_block (alloc_map_mark_range z k n b) = is_block z"
  "span (alloc_map_mark_range z k n b) = span z" "zone_end (alloc_map_mark_range z k n b) = zone_end z"
  "page_index (list_insert z o' a) = page_index z" "is_block (list_insert z o' a) = is_block z"
  "span (list_insert z o' a) = span z" "zone_end (list_insert z o' a) = zone_end z"
  "page_index (list_remove z o' a) = page_index z" "is_block (list_remove z o' a) = is_block z"
  "span (list_remove z o' a) = span z" "zone_end (list_remove z o' a) = zone_end z"
  "page_index (z\<lparr>bz_free_count := c\<rparr>) = page_index z" "is_block (z\<lparr>bz_free_count := c\<rparr>) = is_block z"
  "span (z\<lparr>bz_free_count := c\<rparr>) = span z" "zone_end (z\<lparr>bz_free_count := c\<rparr>) = zone_end z"
  by (rule geometry_cong; simp)+

lemma lists_cong:
  assumes "bz_base z' = bz_base z" "bz_total_pages z' = bz_total_pages z"
    "bz_free_lists z' = bz_free_lists z" "bz_node_order z' = bz_node_order z"
  shows "lists_ok z' = lists_ok z" "listed z' = listed z" "in_list z' = in_list z"
proof -
  have i: "in_list z' = in_list z" using assms(3) by (simp add: fun_eq_iff in_list_def)
  then show "lists_ok z' = lists_ok z" "listed z' = listed z" "in_list z' = in_list z"
    using assms by (simp_all add: lists_ok_def listed_def geometry_cong(2,3) [OF assms(1,2)])
qed

lemma lists_same [simp]:
  "lists_ok (alloc_map_mark_range z k n b) = lists_ok z" "listed (alloc_map_mark_range z k n b) = listed z"
  "in_list (alloc_map_mark_range z k n b) = in_list z"
  "lists_ok (z\<lparr>bz_free_count := c\<rparr>) = lists_ok z" "listed (z\<lparr>bz_free_count := c\<rparr>) = listed z"
  "in_list (z\<lparr>bz_free_count := c\<rparr>) = in_list z"
  by (rule lists_cong; simp)+

lemma map_cong:
  "bz_total_pages z' = bz_total_pages z \<Longrightarrow> bz_alloc_map z' = bz_alloc_map z \<Longrightarrow>
     bz_free_count z' = bz_free_count z \<Longrightarrow> map_ok z' F = map_ok z F"
  by (simp add: map_ok_def alloc_map_wa)

lemma map_same [simp]:
  "map_ok (list_insert z o' a) F = map_ok z F" "map_ok (list_remove z o' a) F = map_ok z F"
  by (rule map_cong; simp)+

section \<open>The effect of the helpers\<close>

lemma in_listD: "lists_ok z \<Longrightarrow> in_list z o' a \<Longrightarrow> is_block z o' a \<and> bz_node_order z a = of_nat o'"
  by (simp add: lists_ok_def)

lemma in_list_listed: "in_list z o' a \<Longrightarrow> span z o' a \<subseteq> listed z"
  by (auto simp: listed_def)

lemma start_in_span: "page_index z a \<in> span z o' a"
  by (simp add: span_def)

lemma in_list_insert:
  assumes "lists_ok z" "o' \<le> BUDDY_MAX_ORDER"
  shows "in_list (list_insert z o' a) p b \<longleftrightarrow> in_list z p b \<or> (p = o' \<and> b = a)"
  using assms by (auto simp: in_list_def list_insert_def lists_ok_def nth_update_if)

lemma list_insert_ok:
  assumes ok: "lists_ok z" and blk: "is_block z o' a" and new: "span z o' a \<inter> listed z = {}"
  shows "lists_ok (list_insert z o' a)" "listed (list_insert z o' a) = listed z \<union> span z o' a"
proof -
  have le: "o' \<le> BUDDY_MAX_ORDER" using blk by (simp add: is_block_def)
  note il = in_list_insert [OF ok le]
  show "listed (list_insert z o' a) = listed z \<union> span z o' a" by (auto simp: listed_def il)
  have fresh: "b \<noteq> a" "span z p b \<inter> span z o' a = {}" if "in_list z p b" for p b
    using in_list_listed [OF that] new start_in_span [of z a p] start_in_span [of z a o'] by auto
  have "distinct (bz_free_lists (list_insert z o' a) ! p)" if "p \<le> BUDDY_MAX_ORDER" for p
    using ok that fresh(1) [of o'] by (auto simp: lists_ok_def list_insert_def nth_update_if in_list_def)
  moreover have "bz_node_order (list_insert z o' a) b = of_nat p" if "in_list z p b" for p b
    using in_listD [OF ok that] fresh(1) [OF that] by (simp add: list_insert_def)
  moreover have "bz_node_order (list_insert z o' a) a = of_nat o'" by (simp add: list_insert_def)
  moreover have "length (bz_free_lists (list_insert z o' a)) = BUDDY_MAX_ORDER + 1"
    using ok by (simp add: lists_ok_def list_insert_def)
  moreover have "span z o1 a1 \<inter> span z o2 a2 = {}"
    if "in_list z o1 a1 \<or> o1 = o' \<and> a1 = a" "in_list z o2 a2 \<or> o2 = o' \<and> a2 = a" "(o1, a1) \<noteq> (o2, a2)"
    for o1 a1 o2 a2
    using that fresh(2) ok unfolding lists_ok_def by blast
  ultimately show "lists_ok (list_insert z o' a)"
    using in_listD [OF ok] blk by (auto simp: lists_ok_def il)
qed

lemma in_list_remove:
  assumes "lists_ok z" "o' \<le> BUDDY_MAX_ORDER"
  shows "in_list (list_remove z o' a) p b \<longleftrightarrow> in_list z p b \<and> (p, b) \<noteq> (o', a)"
  using assms by (auto simp: in_list_def list_remove_def lists_ok_def nth_update_if)

lemma list_remove_ok:
  assumes ok: "lists_ok z" and "in": "in_list z o' a"
  shows "lists_ok (list_remove z o' a)" "listed (list_remove z o' a) = listed z - span z o' a"
proof -
  have le: "o' \<le> BUDDY_MAX_ORDER" using "in" by (simp add: in_list_def)
  note il = in_list_remove [OF ok le]
  have "span z p b \<inter> span z o' a = {}" if "in_list z p b" "(p, b) \<noteq> (o', a)" for p b
    using ok that "in" unfolding lists_ok_def by blast
  then show "listed (list_remove z o' a) = listed z - span z o' a"
    using "in" by (auto simp: listed_def il)
  have "distinct (bz_free_lists (list_remove z o' a) ! p)" if "p \<le> BUDDY_MAX_ORDER" for p
    using ok that by (auto simp: lists_ok_def list_remove_def nth_update_if)
  moreover have "length (bz_free_lists (list_remove z o' a)) = BUDDY_MAX_ORDER + 1"
    using ok by (simp add: lists_ok_def list_remove_def)
  ultimately show "lists_ok (list_remove z o' a)"
    using ok by (simp add: lists_ok_def il)
qed

lemma image_plus_upt: "set (map ((+) k) [0..<n]) = {k..<k + n :: nat}"
  by (auto simp: image_iff)

lemma mark_test:
  assumes "k + n \<le> 8 * length (bz_alloc_map z)"
  shows "alloc_map_test (alloc_map_mark_range z k n b) i =
    (if i \<in> {k..<k + n} then b else alloc_map_test z i)"
    and "length (bz_alloc_map (alloc_map_mark_range z k n b)) = length (bz_alloc_map z)"
proof -
  have lt: "i < wa_bits (bz_alloc_map z)" if "i \<in> set (map ((+) k) [0..<n])" for i
    using that assms by (auto simp: wa_bits_def)
  note f = wa.fold_setb [OF lt, of "map ((+) k) [0..<n]"] wa.fold_clearb [OF lt, of "map ((+) k) [0..<n]"]
  show "alloc_map_test (alloc_map_mark_range z k n b) i =
    (if i \<in> {k..<k + n} then b else alloc_map_test z i)"
    using f unfolding image_plus_upt by (cases b) (auto simp: alloc_map_wa mark_range_eq)
  show "length (bz_alloc_map (alloc_map_mark_range z k n b)) = length (bz_alloc_map z)"
    using f by (cases b) (auto simp: mark_range_eq wa_bits_def)
qed

lemma mark_free:
  assumes "map_ok z F" "k + n \<le> bz_total_pages z" "{k..<k + n} \<inter> F = {}"
  shows "map_ok ((alloc_map_mark_range z k n False)\<lparr>bz_free_count := bz_free_count z + n\<rparr>) (F \<union> {k..<k + n})"
proof -
  have le: "k + n \<le> 8 * length (bz_alloc_map z)" using assms(1,2) by (simp add: map_ok_def)
  have "finite F" using assms(1) finite_subset by (auto simp: map_ok_def)
  then have "card (F \<union> {k..<k + n}) = card F + n" using assms(3) by (subst card_Un_disjoint) auto
  then show ?thesis using assms mark_test [OF le, of False]
    by (auto simp: map_ok_def alloc_map_wa(1))
qed

lemma mark_used:
  assumes "map_ok z F" "{k..<k + n} \<subseteq> F"
  shows "map_ok ((alloc_map_mark_range z k n True)\<lparr>bz_free_count := bz_free_count z - n\<rparr>) (F - {k..<k + n})"
proof -
  have "k + n \<le> bz_total_pages z \<or> n = 0"
  proof (cases n)
    case (Suc m)
    then have "k + m \<in> F" using assms(2) by auto
    then show ?thesis using assms(1) Suc by (auto simp: map_ok_def)
  qed simp
  then have le: "k + n \<le> 8 * length (bz_alloc_map z) \<or> n = 0" using assms(1) by (auto simp: map_ok_def)
  have "finite F" using assms(1) finite_subset by (auto simp: map_ok_def)
  then have "card (F - {k..<k + n}) = card F - n" using assms(2) by (subst card_Diff_subset) auto
  then show ?thesis using assms le mark_test [of k n z True]
    by (cases "n = 0") (auto simp: map_ok_def alloc_map_wa(1) mark_range_eq)
qed

section \<open>Geometry of aligned blocks\<close>

lemma page_index_base [simp]: "page_index z (bz_base z + k * BUDDY_PAGE_SIZE) = k"
  by (simp add: page_index_def BUDDY_PAGE_SIZE_def)

lemma is_blockD:
  assumes "is_block z o' a"
  shows "a = bz_base z + page_index z a * BUDDY_PAGE_SIZE" "2 ^ o' dvd page_index z a"
    "page_index z a + 2 ^ o' \<le> bz_total_pages z" "o' \<le> BUDDY_MAX_ORDER"
  using assms by (auto simp: is_block_def)

lemma is_blockI:
  "2 ^ o' dvd k \<Longrightarrow> k + 2 ^ o' \<le> bz_total_pages z \<Longrightarrow> o' \<le> BUDDY_MAX_ORDER \<Longrightarrow>
     is_block z o' (bz_base z + k * BUDDY_PAGE_SIZE)"
  by (auto simp: is_block_def)

lemma halves:
  assumes "is_block z (Suc o') a"
  defines "b \<equiv> a + order_to_pages o' * BUDDY_PAGE_SIZE"
  shows "is_block z o' a" "is_block z o' b" "span z (Suc o') a = span z o' a \<union> span z o' b"
    "span z o' a \<inter> span z o' b = {}"
proof -
  obtain k where k: "a = bz_base z + k * BUDDY_PAGE_SIZE" "2 ^ Suc o' dvd k" "k + 2 ^ Suc o' \<le> bz_total_pages z"
    "Suc o' \<le> BUDDY_MAX_ORDER" using assms(1) by (auto simp: is_block_def)
  have b: "b = bz_base z + (k + 2 ^ o') * BUDDY_PAGE_SIZE"
    by (simp add: b_def k(1) order_to_pages_def algebra_simps)
  have d: "2 ^ o' dvd k" using k(2) dvd_mult_right [of 2 "2 ^ o'" k] by simp
  show "is_block z o' a" unfolding k(1) by (rule is_blockI) (use k d in auto)
  show "is_block z o' b" unfolding b by (rule is_blockI) (use k d in auto)
  have p: "page_index z a = k" "page_index z b = k + 2 ^ o'"
    unfolding k(1) b by (simp_all only: page_index_base)
  show "span z (Suc o') a = span z o' a \<union> span z o' b" "span z o' a \<inter> span z o' b = {}"
    by (auto simp: span_def p)
qed

lemma aligned_nested:
  fixes k m :: nat
  assumes "2 ^ o' dvd k" "2 ^ p dvd m" "p \<le> o'" "x \<in> {k..<k + 2 ^ o'}" "x \<in> {m..<m + 2 ^ p}"
  shows "{m..<m + 2 ^ p} \<subseteq> {k..<k + 2 ^ o'}"
proof -
  have "2 ^ o' = (2 :: nat) ^ p * 2 ^ (o' - p)" using assms(3) by (simp flip: power_add)
  then obtain k' m' where e: "k = 2 ^ p * k'" "m = 2 ^ p * m'" "2 ^ o' = (2 :: nat) ^ p * 2 ^ (o' - p)"
    using assms(1,2) by (metis dvdE mult.assoc)
  have "x div 2 ^ p = m'" using assms(5) e(2) by (intro div_nat_eqI) (auto simp: mult.commute)
  moreover have "k' \<le> x div 2 ^ p" "x div 2 ^ p < k' + 2 ^ (o' - p)"
    using assms(4) e by (auto simp: less_eq_div_iff_mult_less_eq div_less_iff_less_mult algebra_simps)
  ultimately have "k' \<le> m'" "m' + 1 \<le> k' + 2 ^ (o' - p)" by auto
  then have "2 ^ p * k' \<le> 2 ^ p * m'" "2 ^ p * (m' + 1) \<le> 2 ^ p * (k' + 2 ^ (o' - p))"
    by (simp_all only: mult_le_mono2)
  then show ?thesis by (auto simp: e algebra_simps)
qed

lemma nested_start:
  fixes k m :: nat
  assumes "2 ^ o' dvd k" "2 ^ p dvd m" "p \<le> o'" "k \<in> {m..<m + 2 ^ p}"
  shows "m = k"
proof -
  have "{m..<m + 2 ^ p} \<subseteq> {k..<k + 2 ^ o'}"
    by (rule aligned_nested [OF assms(1-3) _ assms(4)]) simp
  moreover have "m \<in> {m..<m + 2 ^ p}" by simp
  ultimately have "k \<le> m" by (meson atLeastLessThan_iff subsetD)
  then show ?thesis using assms(4) by simp
qed

lemma xor_power_aligned:
  fixes k :: nat
  assumes "2 ^ o' dvd k"
  shows "k XOR 2 ^ o' = (if 2 ^ Suc o' dvd k then k + 2 ^ o' else k - 2 ^ o')"
proof -
  obtain m where k: "k = 2 ^ o' * m" using assms by (elim dvdE)
  have "k XOR 2 ^ o' = push_bit o' (m XOR 1)"
  proof -
    have "k = push_bit o' m" "2 ^ o' = push_bit o' (1 :: nat)" by (simp_all add: k push_bit_eq_mult mult.commute)
    then show ?thesis by (simp only: push_bit_xor)
  qed
  also have "m XOR 1 = (if even m then m + 1 else m - 1)"
    by (simp add: xor_Suc_0_eq)
  finally have x: "k XOR 2 ^ o' = (if even m then m + 1 else m - 1) * 2 ^ o'" by (simp add: push_bit_eq_mult)
  have "2 ^ Suc o' dvd k \<longleftrightarrow> even m"
    using nat_mult_dvd_cancel1 [of "2 ^ o'" 2 m] by (simp add: k mult.commute)
  then show ?thesis by (auto simp: x) (simp_all add: k algebra_simps)
qed

text \<open>The buddy of a block: the other half of the block of the next order that contains it.\<close>

lemma buddy_address_eq:
  assumes "is_block z o' a"
  shows "buddy_address z a o' = bz_base z + (page_index z a XOR 2 ^ o') * BUDDY_PAGE_SIZE"
proof -
  have "a - bz_base z = push_bit 12 (page_index z a)"
    using is_blockD(1) [OF assms] by (simp add: push_bit_eq_mult BUDDY_PAGE_SIZE_def)
  moreover have "order_to_pages o' * BUDDY_PAGE_SIZE = push_bit 12 (2 ^ o')"
    by (simp add: push_bit_eq_mult buddy_consts)
  ultimately have "(a - bz_base z) XOR (order_to_pages o' * BUDDY_PAGE_SIZE)
      = push_bit 12 (page_index z a XOR 2 ^ o')" by (simp only: push_bit_xor)
  then show ?thesis by (simp only: buddy_address_def) (simp add: push_bit_eq_mult BUDDY_PAGE_SIZE_def)
qed

lemma buddy_facts:
  assumes blk: "is_block z o' a" and lt: "o' < BUDDY_MAX_ORDER"
    and inside: "\<not> buddy_address z a o' + order_to_pages o' * BUDDY_PAGE_SIZE > zone_end z"
  defines "b \<equiv> buddy_address z a o'"
  shows "is_block z o' b" "is_block z (Suc o') (if b < a then b else a)"
    "span z (Suc o') (if b < a then b else a) = span z o' a \<union> span z o' b"
    "span z o' a \<inter> span z o' b = {}"
proof -
  define k where "k = page_index z a"
  have k: "a = bz_base z + k * BUDDY_PAGE_SIZE" "2 ^ o' dvd k" "k + 2 ^ o' \<le> bz_total_pages z"
    using is_blockD [OF blk] by (simp_all add: k_def)
  have b: "b = bz_base z + (k XOR 2 ^ o') * BUDDY_PAGE_SIZE" by (simp add: b_def buddy_address_eq [OF blk] k_def)
  have bt: "(k XOR 2 ^ o') + 2 ^ o' \<le> bz_total_pages z"
  proof -
    have "((k XOR 2 ^ o') + 2 ^ o') * BUDDY_PAGE_SIZE \<le> bz_total_pages z * BUDDY_PAGE_SIZE"
      using inside unfolding b_def [symmetric] b by (simp add: zone_end_def order_to_pages_def algebra_simps)
    then show ?thesis by (simp add: BUDDY_PAGE_SIZE_def)
  qed
  define lo where "lo = (if 2 ^ Suc o' dvd k then k else k - 2 ^ o')"
  have lo: "2 ^ Suc o' dvd lo \<and> {k, k XOR 2 ^ o'} = {lo, lo + 2 ^ o'} \<and> lo + 2 ^ Suc o' \<le> bz_total_pages z"
  proof (cases "2 ^ Suc o' dvd k")
    case True
    then show ?thesis using bt xor_power_aligned [OF k(2)] by (auto simp: lo_def)
  next
    case False
    obtain m where m: "k = 2 ^ o' * m" using k(2) by (elim dvdE)
    have "odd m" using False by (auto simp: m)
    then obtain j where "m = 2 * j + 1" by (elim oddE)
    then have "k = 2 ^ Suc o' * j + 2 ^ o'" by (simp add: m algebra_simps)
    then show ?thesis using k(3) False xor_power_aligned [OF k(2)] by (auto simp: lo_def)
  qed
  have big: "is_block z (Suc o') (bz_base z + lo * BUDDY_PAGE_SIZE)"
    using lo lt by (intro is_blockI) auto
  have ab: "(if b < a then b else a) = bz_base z + lo * BUDDY_PAGE_SIZE"
    using lo by (auto simp: b k(1) doubleton_eq_iff BUDDY_PAGE_SIZE_def)
  note h = halves [OF big]
  have hi: "bz_base z + lo * BUDDY_PAGE_SIZE + order_to_pages o' * BUDDY_PAGE_SIZE
      = bz_base z + (lo + 2 ^ o') * BUDDY_PAGE_SIZE" by (simp add: order_to_pages_def algebra_simps)
  show "is_block z (Suc o') (if b < a then b else a)" unfolding ab by (rule big)
  from lo have "{a, b} = {bz_base z + lo * BUDDY_PAGE_SIZE, bz_base z + (lo + 2 ^ o') * BUDDY_PAGE_SIZE}"
    by (auto simp: b k(1) doubleton_eq_iff)
  then show "is_block z o' b" "span z (Suc o') (if b < a then b else a) = span z o' a \<union> span z o' b"
    "span z o' a \<inter> span z o' b = {}"
    using h unfolding hi ab by (auto simp: doubleton_eq_iff)
qed

section \<open>Splitting and allocation\<close>

definition same_zone :: "BuddyZone \<Rightarrow> BuddyZone \<Rightarrow> bool" where
  "same_zone z z' \<longleftrightarrow> bz_base z' = bz_base z \<and> bz_total_pages z' = bz_total_pages z \<and>
     bz_initialized z' = bz_initialized z"

lemma same_zone_geometry:
  "same_zone z z' \<Longrightarrow> page_index z' = page_index z \<and> is_block z' = is_block z \<and> span z' = span z \<and> zone_end z' = zone_end z"
  using geometry_cong [of z' z] by (simp add: same_zone_def)

lemma same_zone_simps [simp]:
  "same_zone z z" "same_zone z (alloc_map_mark_range z k n b)" "same_zone z (list_insert z o' a)"
  "same_zone z (list_remove z o' a)" "same_zone z (z\<lparr>bz_free_count := c\<rparr>)"
  by (simp_all add: same_zone_def)

lemma same_zone_trans: "same_zone z1 z2 \<Longrightarrow> same_zone z2 z3 \<Longrightarrow> same_zone z1 z3"
  by (simp add: same_zone_def)

lemma span_mono: "is_block z o' a \<Longrightarrow> order \<le> o' \<Longrightarrow> span z order a \<subseteq> span z o' a"
  using power_increasing [of order o' "2 :: nat"] by (auto simp: span_def)

lemma is_block_mono:
  assumes "is_block z o' a" "order \<le> o'"
  shows "is_block z order a"
proof -
  have "2 ^ order dvd page_index z a"
    using is_blockD(2) [OF assms(1)] le_imp_power_dvd [OF assms(2), of 2] dvd_trans by blast
  moreover have "page_index z a + 2 ^ order \<le> bz_total_pages z"
  proof -
    have "2 ^ order \<le> (2 :: nat) ^ o'" using assms(2) by (simp add: power_increasing)
    then show ?thesis using is_blockD(3) [OF assms(1)] by linarith
  qed
  ultimately show ?thesis
    using is_blockI [of order "page_index z a" z] is_blockD(1,4) [OF assms(1)] assms(2) by simp
qed

lemma split_loop_ok:
  assumes "lists_ok z" "is_block z o' a" "span z o' a \<inter> listed z = {}" "order \<le> o'"
  shows "lists_ok (split_loop order o' z a) \<and>
    listed (split_loop order o' z a) = listed z \<union> (span z o' a - span z order a) \<and>
    same_zone z (split_loop order o' z a) \<and> (\<forall>F. map_ok (split_loop order o' z a) F = map_ok z F) \<and>
    bz_free_count (split_loop order o' z a) = bz_free_count z"
  using assms
proof (induction order o' z a rule: split_loop.induct)
  case (1 order z a)
  then show ?case by simp
next
  case (2 order p z a)
  show ?case
  proof (cases "Suc p > order")
    case False
    then have "order = Suc p" using "2.prems"(4) by simp
    then show ?thesis using "2.prems" by simp
  next
    case True
    let ?b = "a + order_to_pages p * BUDDY_PAGE_SIZE" and ?z = "list_insert z p (a + order_to_pages p * BUDDY_PAGE_SIZE)"
    note h = halves [OF "2.prems"(2)]
    have b: "span z p ?b \<inter> listed z = {}" "span z p a \<inter> listed z = {}"
      using "2.prems"(3) h(3) by auto
    note ins = list_insert_ok [OF "2.prems"(1) h(2) b(1)]
    have dis: "span ?z p a \<inter> listed ?z = {}" using b(2) h(4) ins(2) by auto
    have "span z order a \<subseteq> span z p a" using span_mono [OF h(1)] True by simp
    then show ?thesis
      using "2.IH" [OF True ins(1) _ dis] True h ins(2) b same_zone_trans [of z ?z]
      by auto
  qed
qed

lemma take_block_ok:
  assumes inv: "buddy_inv z" and "in": "in_list z o' a" and le: "order \<le> o'"
  shows "buddy_inv (take_block z order o' a) \<and> listed (take_block z order o' a) = listed z - span z order a \<and>
    same_zone z (take_block z order o' a) \<and> is_block z order a \<and> span z order a \<subseteq> listed z"
proof -
  have ok: "lists_ok z" and map: "map_ok z (listed z)" using inv by (simp_all add: buddy_inv_def)
  have blk: "is_block z o' a" using in_listD [OF ok "in"] by simp
  define z0 where "z0 = list_remove z o' a"
  note rem = list_remove_ok [OF ok "in", folded z0_def]
  have z0: "same_zone z z0" "is_block z0 = is_block z" "span z0 = span z" "page_index z0 = page_index z"
    by (simp_all add: z0_def)
  define z1 where "z1 = split_loop order o' z0 a"
  have "span z0 o' a \<inter> listed z0 = {}" by (auto simp: rem z0)
  then have sp: "lists_ok z1" "listed z1 = listed z0 \<union> (span z o' a - span z order a)" "same_zone z0 z1"
    "\<forall>F. map_ok z1 F = map_ok z0 F" "bz_free_count z1 = bz_free_count z0"
    using split_loop_ok [OF rem(1), of o' a order] blk le by (auto simp: z0 z1_def)
  have sub: "span z order a \<subseteq> listed z" "span z order a \<subseteq> span z o' a" "span z o' a \<subseteq> listed z"
    using span_mono [OF blk le] in_list_listed [OF "in"] by auto
  have l1: "listed z1 = listed z - span z order a" using sp(2) rem(2) sub by (auto simp: z0)
  have same: "same_zone z z1" using same_zone_trans [OF z0(1) sp(3)] .
  have "map_ok z1 (listed z)" using map sp(4) by (simp add: z0_def)
  then have "map_ok ((alloc_map_mark_range z1 (page_index z a) (2 ^ order) True)
      \<lparr>bz_free_count := bz_free_count z1 - 2 ^ order\<rparr>) (listed z - span z order a)"
    unfolding span_def by (rule mark_used [OF _ sub(1) [unfolded span_def]])
  then have "buddy_inv (take_block z order o' a) \<and> listed (take_block z order o' a) = listed z - span z order a"
    using sp(1) l1 same_zone_geometry [OF same]
    by (simp add: take_block_def Let_def buddy_inv_def order_to_pages_def flip: z0_def z1_def)
  moreover have "same_zone z (take_block z order o' a)"
    using same by (simp add: take_block_def Let_def same_zone_def flip: z0_def z1_def)
  ultimately show ?thesis using is_block_mono [OF blk le] sub by auto
qed

lemma buddy_alloc_cases:
  assumes inv: "buddy_inv z" and res: "buddy_alloc z pages = Some (z', a)"
  obtains (fail) "z' = z" "a = 0"
      "pages = 0 \<or> \<not> bz_initialized z \<or> block_order pages > BUDDY_MAX_ORDER \<or>
       (\<forall>o' b. block_order pages \<le> o' \<longrightarrow> \<not> in_list z o' b)"
    | (ok) o' where "0 < pages" "bz_initialized z" "block_order pages \<le> o'" "in_list z o' a"
      "z' = take_block z (block_order pages) o' a"
proof (cases "pages = 0 \<or> \<not> bz_initialized z \<or> block_order pages > BUDDY_MAX_ORDER")
  case True
  then show thesis using res fail by (auto simp: buddy_alloc_def pages_to_order_eq split: if_splits)
next
  case False
  let ?os = "[block_order pages..<BUDDY_MAX_ORDER + 1]"
  have o: "pages_to_order pages = Some (block_order pages)" using False by (intro small_order) simp
  show thesis
  proof (cases "find (\<lambda>o'. bz_free_lists z ! o' \<noteq> []) ?os")
    case None
    then have "\<forall>o' b. block_order pages \<le> o' \<longrightarrow> \<not> in_list z o' b"
      by (auto simp: find_None_iff in_list_def)
    then show thesis using res False None fail o by (auto simp: buddy_alloc_def)
  next
    case (Some o')
    then have "o' \<in> set ?os" "bz_free_lists z ! o' \<noteq> []"
      using find_SomeD [OF Some] by blast+
    then show thesis using res False Some ok [of o'] o
      by (auto simp: buddy_alloc_def Let_def in_list_def)
  qed
qed

section \<open>Coalescing and release\<close>

lemma of_nat_inject_u8: "p \<le> 14 \<Longrightarrow> q \<le> 14 \<Longrightarrow> (of_nat p :: u8) = of_nat q \<longleftrightarrow> p = q"
  by (auto simp: word_unat_eq_iff unat_of_nat)

text \<open>
  The test \<^verbatim>\<open>buddy_node->order != order\<close> reads a byte of the buddy's first page. That page is free, so
  it lies in a free block; as blocks are aligned and the block being freed is not free, that block
  starts there and is not larger, so the byte read is the order of a free block and the test decides
  whether the buddy is free as a whole.
\<close>

lemma buddy_is_listed:
  assumes ok: "lists_ok z" and blk: "is_block z o' a" and lt: "o' < BUDDY_MAX_ORDER"
    and new: "span z o' a \<inter> listed z = {}"
    and inside: "\<not> buddy_address z a o' + order_to_pages o' * BUDDY_PAGE_SIZE > zone_end z"
    and free: "page_index z (buddy_address z a o') \<in> listed z"
    and order: "bz_node_order z (buddy_address z a o') = of_nat o'"
  shows "in_list z o' (buddy_address z a o')"
proof -
  define b where "b = buddy_address z a o'"
  note bf = buddy_facts [OF blk lt inside, folded b_def]
  obtain p c where p: "in_list z p c" "page_index z b \<in> span z p c"
    using free by (auto simp: listed_def b_def)
  have c: "is_block z p c" "bz_node_order z c = of_nat p" using in_listD [OF ok p(1)] by auto
  have dis: "span z p c \<inter> span z o' a = {}" using in_list_listed [OF p(1)] new by blast
  have small: "p \<le> o'"
  proof (rule ccontr)
    assume "\<not> p \<le> o'"
    moreover have "page_index z b \<in> span z (Suc o') (if b < a then b else a)"
      using bf(3) start_in_span [of z b o'] by blast
    ultimately have "span z (Suc o') (if b < a then b else a) \<subseteq> span z p c"
      using p(2) aligned_nested [OF is_blockD(2) [OF c(1)] is_blockD(2) [OF bf(2)], of "page_index z b"]
      unfolding span_def by fastforce
    then show False using bf(3) dis start_in_span [of z a o'] by auto
  qed
  have "page_index z c = page_index z b"
    using nested_start [OF is_blockD(2) [OF bf(1)] is_blockD(2) [OF c(1)] small] p(2) by (simp add: span_def)
  then have cb: "c = b" using is_blockD(1) [OF bf(1)] is_blockD(1) [OF c(1)] by simp
  have "p \<le> 14" "o' \<le> 14" using is_blockD(4) [OF c(1)] lt by (auto simp: BUDDY_MAX_ORDER_def)
  moreover have "(of_nat p :: u8) = of_nat o'" using c(2) order cb by (simp add: b_def)
  ultimately have "p = o'" by (simp add: of_nat_inject_u8)
  then show ?thesis using p(1) cb by (simp add: b_def)
qed

lemma merge_loop_ok:
  assumes "lists_ok z" "is_block z o' a" "span z o' a \<inter> listed z = {}" "map_ok z (listed z \<union> span z o' a)"
    "merge_loop z a o' = (z', b, p)"
  shows "lists_ok z' \<and> is_block z p b \<and> span z p b \<inter> listed z' = {} \<and>
    listed z' \<union> span z p b = listed z \<union> span z o' a \<and> same_zone z z' \<and> (\<forall>F. map_ok z' F = map_ok z F)"
  using assms
proof (induction z a o' rule: merge_loop.induct)
  case (1 z a order)
  define buddy where "buddy = buddy_address z a order"
  show ?case
  proof (cases "order < BUDDY_MAX_ORDER \<and>
      \<not> (buddy < bz_base z \<or> buddy + order_to_pages order * BUDDY_PAGE_SIZE > zone_end z) \<and>
      \<not> alloc_map_test z (page_index z buddy) \<and> bz_node_order z buddy = of_nat order")
    case False
    then have "merge_loop z a order = (z, a, order)"
      by (subst merge_loop.simps) (auto simp: Let_def buddy_def)
    then show ?thesis using "1.prems" by simp
  next
    case True
    let ?blk = "if buddy < a then buddy else a"
    have res: "merge_loop (list_remove z order buddy) ?blk (Suc order) = (z', b, p)"
    proof -
      have "merge_loop z a order = merge_loop (list_remove z order buddy) ?blk (Suc order)"
        using True by (subst merge_loop.simps) (simp add: Let_def flip: buddy_def)
      then show ?thesis using "1.prems"(5) by simp
    qed
    have inside: "\<not> buddy_address z a order + order_to_pages order * BUDDY_PAGE_SIZE > zone_end z"
      and lt: "order < BUDDY_MAX_ORDER" using True by (simp_all add: buddy_def)
    note bf = buddy_facts [OF "1.prems"(2) lt inside, folded buddy_def]
    have "page_index z buddy \<notin> span z order a" using bf(4) start_in_span [of z buddy order] by blast
    moreover have "page_index z buddy < bz_total_pages z" using is_blockD(3) [OF bf(1)]
      by (meson add_lessD1 le_neq_implies_less less_add_same_cancel1 order_less_le_trans zero_less_numeral zero_less_power)
    ultimately have "page_index z buddy \<in> listed z" using "1.prems"(4) True by (auto simp: map_ok_def)
    then have "in": "in_list z order buddy"
      using buddy_is_listed [OF "1.prems"(1,2) lt "1.prems"(3) inside] True by (simp add: buddy_def)
    note rem = list_remove_ok [OF "1.prems"(1) "in"]
    have sub: "span z order buddy \<subseteq> listed z" using in_list_listed [OF "in"] .
    have u: "listed (list_remove z order buddy) \<union> span z (Suc order) ?blk = listed z \<union> span z order a"
      using sub bf(3) by (auto simp: rem)
    have "lists_ok z' \<and> is_block z p b \<and> span z p b \<inter> listed z' = {} \<and>
      listed z' \<union> span z p b = listed (list_remove z order buddy) \<union> span z (Suc order) ?blk \<and>
      same_zone (list_remove z order buddy) z' \<and> (\<forall>F. map_ok z' F = map_ok z F)"
      using "1.IH" [OF refl, folded buddy_def, OF _ _ _ _ _ _ _ _ res] True bf rem "1.prems"(3,4) u
      by (auto simp: buddy_def)
    then show ?thesis using u same_zone_trans [of z "list_remove z order buddy" z'] by simp
  qed
qed

lemma card_span [simp]: "card (span z o' a) = 2 ^ o'"
  by (simp add: span_def)

lemma is_block_in_zone: "is_block z o' a \<Longrightarrow> bz_base z \<le> a \<and> a < zone_end z"
proof -
  assume b: "is_block z o' a"
  have "page_index z a < bz_total_pages z"
    using is_blockD(3) [OF b] zero_less_power [of "2 :: nat" o'] by linarith
  then show ?thesis using is_blockD(1) [OF b]
    by (metis BUDDY_PAGE_SIZE_def le_add1 mult_less_mono1 nat_add_left_cancel_less zero_less_numeral zone_end_def)
qed

lemma span_in_zone: "is_block z o' a \<Longrightarrow> span z o' a \<subseteq> {..<bz_total_pages z}"
  using is_blockD(3) [of z o' a] by (auto simp: span_def)

lemma buddy_free_ok:
  assumes inv: "buddy_inv z" and blk: "is_block z (block_order pages) a"
    and new: "span z (block_order pages) a \<inter> listed z = {}"
    and args: "0 < pages" "a \<noteq> 0" "bz_initialized z"
  shows "\<exists>z'. buddy_free z a pages = Some z' \<and> buddy_inv z' \<and>
    listed z' = listed z \<union> span z (block_order pages) a \<and> same_zone z z'"
proof -
  let ?o = "block_order pages" and ?k = "page_index z a"
  have ok: "lists_ok z" and map: "map_ok z (listed z)" using inv by (simp_all add: buddy_inv_def)
  define z2 where "z2 = (alloc_map_mark_range z ?k (2 ^ ?o) False)\<lparr>bz_free_count := bz_free_count z + 2 ^ ?o\<rparr>"
  have z2: "lists_ok z2" "listed z2 = listed z" "is_block z2 = is_block z" "span z2 = span z" "same_zone z z2"
    using ok by (simp_all add: z2_def same_zone_def)
  have m2: "map_ok z2 (listed z \<union> span z ?o a)"
    unfolding z2_def span_def
    by (rule mark_free [OF map]) (use is_blockD(3) [OF blk] new in \<open>auto simp: span_def\<close>)
  obtain z3 b p where l: "merge_loop z2 a ?o = (z3, b, p)" using prod_cases3 by blast
  have m: "lists_ok z3" "is_block z p b" "span z p b \<inter> listed z3 = {}"
      "listed z3 \<union> span z p b = listed z \<union> span z ?o a" "same_zone z2 z3" "map_ok z3 (listed z \<union> span z ?o a)"
    using merge_loop_ok [OF z2(1) _ _ _ l] blk new m2 z2 by simp_all
  have same: "same_zone z z3" using same_zone_trans [OF z2(5) m(5)] .
  have g: "is_block z3 = is_block z" "span z3 = span z" using same_zone_geometry [OF same] by simp_all
  have ins: "lists_ok (list_insert z3 p b)" "listed (list_insert z3 p b) = listed z3 \<union> span z p b"
    using list_insert_ok [OF m(1), of p b] m(2,3) by (simp_all add: g)
  have "\<not> (\<exists>i<2 ^ ?o. \<not> alloc_map_test z (?k + i))"
    using new map is_blockD(3) [OF blk] by (auto simp: map_ok_def span_def disjoint_iff)
  then have "buddy_free z a pages = Some (list_insert z3 p b)"
    using args is_block_in_zone [OF blk] is_blockD(4) [OF blk] l
    by (auto simp: buddy_free_def Let_def order_to_pages_def z2_def small_order)
  moreover have "buddy_inv (list_insert z3 p b)" using ins m(4,6) by (simp add: buddy_inv_def)
  moreover have "same_zone z (list_insert z3 p b)" using same_zone_trans [OF same] by simp
  ultimately show ?thesis using ins m(4) by auto
qed

lemma buddy_free_double:
  assumes inv: "buddy_inv z" and "0 < pages" "a \<noteq> 0" "bz_initialized z" "block_order pages \<le> BUDDY_MAX_ORDER"
    and "bz_base z \<le> a" "a < zone_end z"
    and "i \<in> span z (block_order pages) a" "i \<in> listed z"
  shows "buddy_free z a pages = None"
proof -
  have map: "map_ok z (listed z)" using inv by (simp add: buddy_inv_def)
  obtain j where "i = page_index z a + j" "j < 2 ^ block_order pages"
    using assms(8) le_Suc_ex [of "page_index z a" i] by (auto simp: span_def)
  moreover have "\<not> alloc_map_test z i" using map assms(9) by (auto simp: map_ok_def)
  ultimately show ?thesis using assms by (auto simp: buddy_free_def Let_def order_to_pages_def small_order)
qed

section \<open>Seeding and reserving ranges\<close>

lemma fit_order_ok:
  assumes "addr = bz_base z + k * BUDDY_PAGE_SIZE" "stop = bz_base z + m * BUDDY_PAGE_SIZE"
    "2 ^ order dvd k" "k + 2 ^ order \<le> m" "order \<le> BUDDY_MAX_ORDER"
  shows "2 ^ fit_order z addr stop order dvd k \<and> k + 2 ^ fit_order z addr stop order \<le> m \<and>
    fit_order z addr stop order \<le> BUDDY_MAX_ORDER"
  using assms
proof (induction z addr stop order rule: fit_order.induct)
  case (1 z addr stop order)
  show ?case
  proof (cases "order < BUDDY_MAX_ORDER \<and>
      (addr - bz_base z) mod (order_to_pages (order + 1) * BUDDY_PAGE_SIZE) = 0 \<and>
      \<not> addr + order_to_pages (order + 1) * BUDDY_PAGE_SIZE > stop")
    case False
    then have "fit_order z addr stop order = order" by (subst fit_order.simps) auto
    then show ?thesis using "1.prems" by simp
  next
    case True
    then have go: "fit_order z addr stop order = fit_order z addr stop (order + 1)"
      by (subst fit_order.simps) simp
    have "(k * BUDDY_PAGE_SIZE) mod (2 ^ (order + 1) * BUDDY_PAGE_SIZE) = 0"
      using True "1.prems"(1) by (simp add: order_to_pages_def)
    then have d: "2 ^ (order + 1) dvd k" unfolding mult_mod_left [symmetric]
      by (simp add: BUDDY_PAGE_SIZE_def mod_eq_0_iff_dvd)
    have "(k + 2 ^ (order + 1)) * BUDDY_PAGE_SIZE \<le> m * BUDDY_PAGE_SIZE"
      using True "1.prems"(1,2) by (simp add: order_to_pages_def algebra_simps)
    then have "k + 2 ^ (order + 1) \<le> m" by (simp add: BUDDY_PAGE_SIZE_def)
    then show ?thesis unfolding go using "1.IH" [OF True "1.prems"(1,2) d] True by simp
  qed
qed

lemma seed_block_ok:
  assumes inv: "buddy_inv z" and blk: "is_block z o' a" and new: "span z o' a \<inter> listed z = {}"
  shows "buddy_inv (seed_block z a o')" "listed (seed_block z a o') = listed z \<union> span z o' a"
    "same_zone z (seed_block z a o')" "in_list z p b \<Longrightarrow> in_list (seed_block z a o') p b"
proof -
  have ok: "lists_ok z" and map: "map_ok z (listed z)" using inv by (simp_all add: buddy_inv_def)
  define z2 where "z2 = (alloc_map_mark_range z (page_index z a) (2 ^ o') False)
      \<lparr>bz_free_count := bz_free_count z + 2 ^ o'\<rparr>"
  have z2: "lists_ok z2" "listed z2 = listed z" "is_block z2 = is_block z" "span z2 = span z" "same_zone z z2"
    "in_list z2 = in_list z"
    using ok by (simp_all add: z2_def same_zone_def)
  have m2: "map_ok z2 (listed z \<union> span z o' a)"
    unfolding z2_def span_def
    by (rule mark_free [OF map]) (use is_blockD(3) [OF blk] new in \<open>auto simp: span_def\<close>)
  have eq: "seed_block z a o' = list_insert z2 o' a"
    by (simp add: seed_block_def Let_def order_to_pages_def z2_def)
  note ins = list_insert_ok [OF z2(1), of o' a, unfolded z2, OF blk new]
  show "listed (seed_block z a o') = listed z \<union> span z o' a" unfolding eq by (rule ins(2))
  show "buddy_inv (seed_block z a o')" unfolding eq using ins m2 by (simp add: buddy_inv_def)
  show "same_zone z (seed_block z a o')" unfolding eq using same_zone_trans [OF z2(5)] by simp
  show "in_list (seed_block z a o') p b" if "in_list z p b"
    unfolding eq using that in_list_insert [OF z2(1) is_blockD(4) [OF blk], of a p b] by (simp add: z2)
qed

lemma seed_loop_ok:
  assumes "buddy_inv z" "addr = bz_base z + k * BUDDY_PAGE_SIZE" "stop = bz_base z + m * BUDDY_PAGE_SIZE"
    "m \<le> bz_total_pages z" "{k..<m} \<inter> listed z = {}"
  shows "buddy_inv (seed_loop z addr stop) \<and> listed (seed_loop z addr stop) = listed z \<union> {k..<m} \<and>
    same_zone z (seed_loop z addr stop) \<and> (\<forall>p b. in_list z p b \<longrightarrow> in_list (seed_loop z addr stop) p b)"
  using assms
proof (induction z addr stop arbitrary: k rule: seed_loop.induct)
  case (1 z addr stop)
  have cmp: "addr < stop \<longleftrightarrow> k < m" by (simp add: "1.prems" BUDDY_PAGE_SIZE_def)
  show ?case
  proof (cases "k < m")
    case False
    then have "seed_loop z addr stop = z" using cmp by (subst seed_loop.simps) simp
    then show ?thesis using "1.prems" False by simp
  next
    case True
    define order where "order = fit_order z addr stop 0"
    define a' where "a' = addr + order_to_pages order * BUDDY_PAGE_SIZE"
    have go: "seed_loop z addr stop = seed_loop (seed_block z addr order) a' stop"
      using True cmp by (subst seed_loop.simps) (simp add: Let_def order_def a'_def)
    have fit: "2 ^ order dvd k" "k + 2 ^ order \<le> m" "order \<le> BUDDY_MAX_ORDER"
      using fit_order_ok [OF "1.prems"(2,3), of 0] True by (simp_all add: order_def)
    have blk: "is_block z order addr"
      unfolding "1.prems"(2) using fit "1.prems"(4) by (intro is_blockI) auto
    have sp: "span z order addr = {k..<k + 2 ^ order}" by (simp add: span_def "1.prems"(2))
    then have "span z order addr \<subseteq> {k..<m}" using fit(2) by auto
    then have new: "span z order addr \<inter> listed z = {}" using "1.prems"(5) by blast
    note sb = seed_block_ok [OF "1.prems"(1) blk new]
    have g: "bz_base (seed_block z addr order) = bz_base z" "bz_total_pages (seed_block z addr order) = bz_total_pages z"
      using sb(3) by (simp_all add: same_zone_def)
    have a': "a' = bz_base z + (k + 2 ^ order) * BUDDY_PAGE_SIZE"
      by (simp add: a'_def "1.prems"(2) order_to_pages_def algebra_simps)
    have dis: "{k + 2 ^ order..<m} \<inter> listed (seed_block z addr order) = {}"
    proof -
      have "{k + 2 ^ order..<m} \<subseteq> {k..<m} - {k..<k + 2 ^ order}" by auto
      then show ?thesis using "1.prems"(5) unfolding sb(2) sp by blast
    qed
    have u: "listed (seed_block z addr order) \<union> {k + 2 ^ order..<m} = listed z \<union> {k..<m}"
      using sb(2) sp fit(2) by auto
    show ?thesis unfolding go
      using "1.IH" [OF _ refl, folded order_def, of "k + 2 ^ order"] sb a' "1.prems"(3,4) dis u True cmp
        same_zone_trans [OF sb(3)]
      by (simp add: g flip: a'_def order_def)
  qed
qed

text \<open>The pages that lie wholly in an address range, and those that an address range touches.\<close>

definition pages_inside :: "BuddyZone \<Rightarrow> nat \<Rightarrow> nat \<Rightarrow> nat set" where
  "pages_inside z start stop = {i. i < bz_total_pages z \<and>
     start \<le> bz_base z + i * BUDDY_PAGE_SIZE \<and> bz_base z + (i + 1) * BUDDY_PAGE_SIZE \<le> stop}"

definition pages_touched :: "BuddyZone \<Rightarrow> nat \<Rightarrow> nat \<Rightarrow> nat set" where
  "pages_touched z start stop = {i. i < bz_total_pages z \<and>
     bz_base z + i * BUDDY_PAGE_SIZE < stop \<and> start < bz_base z + (i + 1) * BUDDY_PAGE_SIZE}"

lemma align_ge: "align_up a \<le> q * BUDDY_PAGE_SIZE \<longleftrightarrow> a \<le> q * BUDDY_PAGE_SIZE"
  "q * BUDDY_PAGE_SIZE \<le> align_down a \<longleftrightarrow> q * BUDDY_PAGE_SIZE \<le> a"
proof -
  have P: "0 < BUDDY_PAGE_SIZE" by (simp add: BUDDY_PAGE_SIZE_def)
  have "align_up a \<le> q * BUDDY_PAGE_SIZE \<longleftrightarrow> (a + BUDDY_PAGE_SIZE - 1) div BUDDY_PAGE_SIZE < Suc q"
    using P by (simp add: align_up_def less_Suc_eq_le)
  also have "\<dots> \<longleftrightarrow> a \<le> q * BUDDY_PAGE_SIZE"
    using P by (simp only: div_less_iff_less_mult) (auto simp: BUDDY_PAGE_SIZE_def)
  finally show "align_up a \<le> q * BUDDY_PAGE_SIZE \<longleftrightarrow> a \<le> q * BUDDY_PAGE_SIZE" .
  show "q * BUDDY_PAGE_SIZE \<le> align_down a \<longleftrightarrow> q * BUDDY_PAGE_SIZE \<le> a"
    using P by (simp add: align_down_def less_eq_div_iff_mult_less_eq)
qed

lemma align_mult:
  "align_up a = align_up a div BUDDY_PAGE_SIZE * BUDDY_PAGE_SIZE"
  "align_down a = align_down a div BUDDY_PAGE_SIZE * BUDDY_PAGE_SIZE"
  "a \<le> align_up a" "align_down a \<le> a"
proof -
  show m: "align_up a = align_up a div BUDDY_PAGE_SIZE * BUDDY_PAGE_SIZE"
    "align_down a = align_down a div BUDDY_PAGE_SIZE * BUDDY_PAGE_SIZE"
    by (simp_all add: align_up_def align_down_def BUDDY_PAGE_SIZE_def)
  show "a \<le> align_up a" "align_down a \<le> a" using m align_ge by (metis order_refl)+
qed

lemma page_offset: "x = q * BUDDY_PAGE_SIZE \<Longrightarrow> B * BUDDY_PAGE_SIZE \<le> x \<Longrightarrow> x = B * BUDDY_PAGE_SIZE + (q - B) * BUDDY_PAGE_SIZE"
  by (simp add: BUDDY_PAGE_SIZE_def diff_mult_distrib)

lemma buddy_free_range_ok:
  assumes inv: "buddy_inv z" and base: "BUDDY_PAGE_SIZE dvd bz_base z"
    and new: "pages_inside z start stop \<inter> listed z = {}"
  shows "buddy_inv (buddy_free_range z start stop) \<and>
    listed (buddy_free_range z start stop) = listed z \<union> pages_inside z start stop \<and>
    same_zone z (buddy_free_range z start stop) \<and>
    (\<forall>p b. in_list z p b \<longrightarrow> in_list (buddy_free_range z start stop) p b)"
proof -
  obtain B where B: "bz_base z = B * BUDDY_PAGE_SIZE" using base by (metis dvdE mult.commute)
  define s1 where "s1 = (if start < bz_base z then bz_base z else start)"
  define e1 where "e1 = (if stop > zone_end z then zone_end z else stop)"
  define k where "k = align_up s1 div BUDDY_PAGE_SIZE - B"
  define m where "m = align_down e1 div BUDDY_PAGE_SIZE - B"
  have ze: "zone_end z = (B + bz_total_pages z) * BUDDY_PAGE_SIZE" by (simp add: zone_end_def B algebra_simps)
  have inside: "i \<in> pages_inside z start stop \<longleftrightarrow>
      align_up s1 \<le> (B + i) * BUDDY_PAGE_SIZE \<and> (B + (i + 1)) * BUDDY_PAGE_SIZE \<le> align_down e1" for i
    unfolding align_ge s1_def e1_def ze
    by (auto simp: pages_inside_def B algebra_simps BUDDY_PAGE_SIZE_def)
  show ?thesis
  proof (cases "s1 < e1 \<and> align_up s1 < align_down e1")
    case False
    have none: "pages_inside z start stop = {}"
    proof (rule ccontr)
      assume "pages_inside z start stop \<noteq> {}"
      then obtain i where i: "align_up s1 \<le> (B + i) * BUDDY_PAGE_SIZE" "(B + (i + 1)) * BUDDY_PAGE_SIZE \<le> align_down e1"
        using inside by blast
      then have "s1 \<le> (B + i) * BUDDY_PAGE_SIZE" "(B + (i + 1)) * BUDDY_PAGE_SIZE \<le> e1" by (simp_all only: align_ge)
      then show False using i False by (auto simp: BUDDY_PAGE_SIZE_def)
    qed
    have "buddy_free_range z start stop = z"
      using False by (auto simp: buddy_free_range_def Let_def s1_def e1_def)
    then show ?thesis using inv none by simp
  next
    case True
    have eq: "buddy_free_range z start stop = seed_loop z (align_up s1) (align_down e1)"
      using True by (simp add: buddy_free_range_def Let_def flip: s1_def e1_def)
    have sb: "B * BUDDY_PAGE_SIZE \<le> s1" by (simp add: s1_def B)
    have su: "align_up s1 = bz_base z + k * BUDDY_PAGE_SIZE"
      unfolding k_def B by (rule page_offset [OF align_mult(1)]) (use sb align_mult(3) [of s1] in linarith)
    have ed: "align_down e1 = bz_base z + m * BUDDY_PAGE_SIZE"
      unfolding m_def B by (rule page_offset [OF align_mult(2)]) (use sb align_mult(3) [of s1] True in linarith)
    have "e1 \<le> zone_end z" by (simp add: e1_def)
    with align_mult(4) [of e1] have mt: "m \<le> bz_total_pages z" unfolding ed ze B by (simp add: algebra_simps BUDDY_PAGE_SIZE_def)
    have pi: "pages_inside z start stop = {k..<m}"
      unfolding set_eq_iff inside su ed B by (auto simp: algebra_simps BUDDY_PAGE_SIZE_def)
    show ?thesis unfolding eq using seed_loop_ok [OF inv su ed mt] new by (simp add: pi)
  qed
qed

end
