(* ===== verification/BuddyRun.thy ===== *)
theory BuddyRun
  imports Buddy
begin

text \<open>
  The buddy allocator in use: reserving address ranges, and the life of a zone with clients that
  allocate, write to their pages and release them. The step relation interleaves these; its
  invariant gives the safety properties of the allocator.
\<close>

section \<open>Reserving a range\<close>

lemma pages_inside_aligned:
  "y \<le> bz_total_pages z \<Longrightarrow> pages_inside z (bz_base z + x * BUDDY_PAGE_SIZE) (bz_base z + y * BUDDY_PAGE_SIZE) = {x..<y}"
  by (auto simp: pages_inside_def BUDDY_PAGE_SIZE_def)

text \<open>Give back the pages from \<open>x\<close> to \<open>y\<close>, if there are any.\<close>

lemma give_back:
  assumes "buddy_inv z" "BUDDY_PAGE_SIZE dvd bz_base z" "y \<le> bz_total_pages z" "{x..<y} \<inter> listed z = {}"
    "lo = bz_base z + x * BUDDY_PAGE_SIZE" "hi = bz_base z + y * BUDDY_PAGE_SIZE"
  defines "z' \<equiv> if lo < hi then buddy_free_range z lo hi else z"
  shows "buddy_inv z' \<and> listed z' = listed z \<union> {x..<y} \<and> same_zone z z' \<and>
    (\<forall>p b. in_list z p b \<longrightarrow> in_list z' p b)"
proof (cases "lo < hi")
  case True
  then show ?thesis
    using buddy_free_range_ok [OF assms(1,2), of lo hi] assms(3-6) by (simp add: z'_def pages_inside_aligned)
next
  case False
  then have "y \<le> x" using assms(5,6) by (simp add: BUDDY_PAGE_SIZE_def)
  then show ?thesis using False assms(1) by (simp add: z'_def)
qed

lemma mark_count:
  "alloc_map_mark_range (z\<lparr>bz_free_count := c\<rparr>) k n b = (alloc_map_mark_range z k n b)\<lparr>bz_free_count := c\<rparr>"
  by (cases z) (simp add: mark_range_eq)

lemma reserve_block_ok:
  assumes inv: "buddy_inv z" and base: "BUDDY_PAGE_SIZE dvd bz_base z" and "in": "in_list z o' a"
    and s: "start = bz_base z + s * BUDDY_PAGE_SIZE" and e: "stop = bz_base z + e * BUDDY_PAGE_SIZE"
    and se: "s < e" and z': "z' = reserve_block start stop o' z a"
  shows "buddy_inv z' \<and> listed z' = listed z - (span z o' a \<inter> {s..<e}) \<and> same_zone z z' \<and>
    (\<forall>p b. in_list z p b \<longrightarrow> (p, b) \<noteq> (o', a) \<longrightarrow> in_list z' p b)"
proof -
  have ok: "lists_ok z" and map: "map_ok z (listed z)" using inv by (simp_all add: buddy_inv_def)
  have blk: "is_block z o' a" using in_listD [OF ok "in"] by simp
  define k where "k = page_index z a"
  have k: "a = bz_base z + k * BUDDY_PAGE_SIZE" "k + 2 ^ o' \<le> bz_total_pages z" "span z o' a = {k..<k + 2 ^ o'}"
    using is_blockD [OF blk] by (simp_all add: k_def span_def)
  have en: "a + order_to_pages o' * BUDDY_PAGE_SIZE = bz_base z + (k + 2 ^ o') * BUDDY_PAGE_SIZE"
    by (simp add: k(1) order_to_pages_def algebra_simps)
  have test: "a < stop \<and> a + order_to_pages o' * BUDDY_PAGE_SIZE > start \<longleftrightarrow> k < e \<and> s < k + 2 ^ o'"
    unfolding en e s k(1) by (auto simp: BUDDY_PAGE_SIZE_def order_to_pages_def)
  show ?thesis
  proof (cases "k < e \<and> s < k + 2 ^ o'")
    case False
    then have "z' = z" using test z' by (auto simp: reserve_block_def Let_def)
    moreover have "span z o' a \<inter> {s..<e} = {}" using False k(3) by auto
    ultimately show ?thesis using inv by simp
  next
    case True
    define z3 where "z3 = (alloc_map_mark_range (list_remove z o' a) k (2 ^ o') True)
        \<lparr>bz_free_count := bz_free_count z - 2 ^ o'\<rparr>"
    note rem = list_remove_ok [OF ok "in"]
    have same3: "same_zone z z3" by (simp add: z3_def same_zone_def)
    have l3: "listed z3 = listed z - span z o' a" using rem by (simp add: z3_def)
    have "map_ok (list_remove z o' a) (listed z)" using map by simp
    then have "map_ok z3 (listed z - span z o' a)"
      unfolding z3_def k(3)
      using mark_used [of "list_remove z o' a" "listed z" k "2 ^ o'"] in_list_listed [OF "in"] k(3) by simp
    then have inv3: "buddy_inv z3" using rem l3 by (simp add: buddy_inv_def z3_def)
    have b3: "bz_base z3 = bz_base z" "bz_total_pages z3 = bz_total_pages z" using same3 by (simp_all add: same_zone_def)
    define z4 where "z4 = (if a < start then buddy_free_range z3 a start else z3)"
    have 4: "buddy_inv z4 \<and> listed z4 = listed z3 \<union> {k..<s} \<and> same_zone z3 z4 \<and> (\<forall>p b. in_list z3 p b \<longrightarrow> in_list z4 p b)"
      unfolding z4_def
      by (rule give_back [OF inv3]) (use True base k l3 s in \<open>auto simp: b3\<close>)
    then have b4: "bz_base z4 = bz_base z" "bz_total_pages z4 = bz_total_pages z" using b3 by (simp_all add: same_zone_def)
    define z5 where "z5 = (if stop < bz_base z + (k + 2 ^ o') * BUDDY_PAGE_SIZE
        then buddy_free_range z4 stop (bz_base z + (k + 2 ^ o') * BUDDY_PAGE_SIZE) else z4)"
    have 5: "buddy_inv z5 \<and> listed z5 = listed z4 \<union> {e..<k + 2 ^ o'} \<and> same_zone z4 z5 \<and>
        (\<forall>p b. in_list z4 p b \<longrightarrow> in_list z5 p b)"
      unfolding z5_def
      by (rule give_back) (use 4 True base k l3 e se in \<open>auto simp: b4\<close>)
    have eq: "z' = z5" unfolding z' z5_def z4_def z3_def
      using True test by (simp add: reserve_block_def Let_def en) (simp add: order_to_pages_def k_def mark_count)
    have "listed z5 = listed z - (span z o' a \<inter> {s..<e})"
      using 4 5 l3 in_list_listed [OF "in"] True se unfolding k(3) by auto
    moreover have "same_zone z z5" using 4 5 same3 same_zone_trans by blast
    moreover have "in_list z5 p b" if "in_list z p b" "(p, b) \<noteq> (o', a)" for p b
      using that 4 5 in_list_remove [OF ok is_blockD(4) [OF blk]] by (simp add: z3_def)
    ultimately show ?thesis using 5 eq by blast
  qed
qed

lemma reserve_walk_ok:
  assumes "buddy_inv z" "BUDDY_PAGE_SIZE dvd bz_base z" "distinct as" "\<forall>a\<in>set as. in_list z o' a"
    "start = bz_base z + s * BUDDY_PAGE_SIZE" "stop = bz_base z + e * BUDDY_PAGE_SIZE" "s < e"
    "z' = foldl (reserve_block start stop o') z as"
  shows "buddy_inv z' \<and> listed z' = listed z - (\<Union>a\<in>set as. span z o' a \<inter> {s..<e}) \<and> same_zone z z' \<and>
    (\<forall>p b. in_list z p b \<longrightarrow> p \<noteq> o' \<longrightarrow> in_list z' p b)"
  using assms
proof (induction "as" arbitrary: z)
  case (Cons a "as")
  define z1 where "z1 = reserve_block start stop o' z a"
  have 1: "buddy_inv z1" "listed z1 = listed z - (span z o' a \<inter> {s..<e})" "same_zone z z1"
    "\<And>p b. in_list z p b \<Longrightarrow> (p, b) \<noteq> (o', a) \<Longrightarrow> in_list z1 p b"
    using reserve_block_ok [OF Cons.prems(1,2) _ Cons.prems(5-7) z1_def] Cons.prems(4) by auto
  have g: "bz_base z1 = bz_base z" "span z1 = span z" using 1(3) same_zone_geometry [OF 1(3)] by (simp_all add: same_zone_def)
  have "buddy_inv z' \<and> listed z' = listed z1 - (\<Union>a\<in>set as. span z1 o' a \<inter> {s..<e}) \<and> same_zone z1 z' \<and>
    (\<forall>p b. in_list z1 p b \<longrightarrow> p \<noteq> o' \<longrightarrow> in_list z' p b)"
    by (rule Cons.IH) (use Cons.prems 1 g in \<open>auto simp: z1_def\<close>)
  then show ?case using 1 same_zone_trans [OF 1(3)] by (auto simp: g)
qed simp

lemma reserve_list_ok:
  assumes "buddy_inv z" "BUDDY_PAGE_SIZE dvd bz_base z" "o' \<le> BUDDY_MAX_ORDER"
    "start = bz_base z + s * BUDDY_PAGE_SIZE" "stop = bz_base z + e * BUDDY_PAGE_SIZE" "s < e"
    "z' = reserve_list start stop z o'"
  shows "buddy_inv z' \<and> same_zone z z' \<and> (\<forall>p b. in_list z p b \<longrightarrow> p \<noteq> o' \<longrightarrow> in_list z' p b) \<and>
    listed z' = listed z - (\<Union>a\<in>{a. in_list z o' a}. span z o' a \<inter> {s..<e})"
proof -
  have "distinct (bz_free_lists z ! o')" using assms(1,3) by (simp add: buddy_inv_def lists_ok_def)
  moreover have "set (bz_free_lists z ! o') = {a. in_list z o' a}" using assms(3) by (auto simp: in_list_def)
  ultimately show ?thesis
    using reserve_walk_ok [OF assms(1,2) _ _ assms(4-6), of "bz_free_lists z ! o'" o' z'] assms(7)
    by (simp add: reserve_list_def)
qed

text \<open>
  Going through the orders: a free block is still listed when its order is visited, and then its
  pages in the range go; pages outside the range stay free throughout.
\<close>

lemma reserve_orders_ok:
  assumes "buddy_inv z" "BUDDY_PAGE_SIZE dvd bz_base z" "distinct os" "\<forall>o'\<in>set os. o' \<le> BUDDY_MAX_ORDER"
    "start = bz_base z + s * BUDDY_PAGE_SIZE" "stop = bz_base z + e * BUDDY_PAGE_SIZE" "s < e"
    "z' = foldl (reserve_list start stop) z os"
  shows "buddy_inv z' \<and> same_zone z z' \<and> listed z' \<subseteq> listed z \<and> listed z - {s..<e} \<subseteq> listed z' \<and>
    (\<forall>o'\<in>set os. \<forall>a. in_list z o' a \<longrightarrow> span z o' a \<inter> {s..<e} \<inter> listed z' = {})"
  using assms
proof (induction os arbitrary: z)
  case (Cons p os)
  define z1 where "z1 = reserve_list start stop z p"
  have 1: "buddy_inv z1" "same_zone z z1" "\<And>q b. in_list z q b \<Longrightarrow> q \<noteq> p \<Longrightarrow> in_list z1 q b"
    "listed z1 = listed z - (\<Union>a\<in>{a. in_list z p a}. span z p a \<inter> {s..<e})"
    using reserve_list_ok [OF Cons.prems(1,2) _ Cons.prems(5-7) z1_def] Cons.prems(4) by auto
  have g: "bz_base z1 = bz_base z" "span z1 = span z" using 1(2) same_zone_geometry [OF 1(2)] by (simp_all add: same_zone_def)
  have IH: "buddy_inv z' \<and> same_zone z1 z' \<and> listed z' \<subseteq> listed z1 \<and> listed z1 - {s..<e} \<subseteq> listed z' \<and>
    (\<forall>o'\<in>set os. \<forall>a. in_list z1 o' a \<longrightarrow> span z1 o' a \<inter> {s..<e} \<inter> listed z' = {})"
    by (rule Cons.IH) (use Cons.prems 1(1) g in \<open>auto simp: z1_def\<close>)
  have "span z q a \<inter> {s..<e} \<inter> listed z' = {}" if "q \<in> set (p # os)" "in_list z q a" for q a
  proof (cases "q = p")
    case True
    then show ?thesis using IH 1(4) that by auto
  next
    case False
    then show ?thesis using IH that 1(3) by (auto simp: g)
  qed
  moreover have "same_zone z z'" using IH 1(2) same_zone_trans by blast
  moreover have "listed z' \<subseteq> listed z" "listed z - {s..<e} \<subseteq> listed z'" using IH 1(4) by blast+
  ultimately show ?case using IH by blast
qed simp

lemma buddy_reserve_range_ok:
  assumes inv: "buddy_inv z" and base: "BUDDY_PAGE_SIZE dvd bz_base z"
  shows "buddy_inv (buddy_reserve_range z start stop) \<and> same_zone z (buddy_reserve_range z start stop) \<and>
    listed (buddy_reserve_range z start stop) = listed z - pages_touched z start stop"
proof -
  obtain B where B: "bz_base z = B * BUDDY_PAGE_SIZE" using base by (metis dvdE mult.commute)
  define s2 where "s2 = (if align_down start < bz_base z then bz_base z else align_down start)"
  define e2 where "e2 = (if align_up stop > zone_end z then zone_end z else align_up stop)"
  have ze: "zone_end z = (B + bz_total_pages z) * BUDDY_PAGE_SIZE" by (simp add: zone_end_def B algebra_simps)
  have inF: "i < bz_total_pages z" if "i \<in> listed z" for i
    using inv that by (auto simp: buddy_inv_def map_ok_def)
  have t: "i \<in> pages_touched z start stop \<longleftrightarrow> s2 \<le> (B + i) * BUDDY_PAGE_SIZE \<and> (B + i) * BUDDY_PAGE_SIZE < e2"
    if "i < bz_total_pages z" for i
  proof -
    have "(B + i) * BUDDY_PAGE_SIZE < align_up stop \<longleftrightarrow> (B + i) * BUDDY_PAGE_SIZE < stop"
      using align_ge(1) [of stop "B + i"] by linarith
    moreover have "align_down start \<le> (B + i) * BUDDY_PAGE_SIZE \<longleftrightarrow> start < (B + i + 1) * BUDDY_PAGE_SIZE"
    proof -
      have "align_down start \<le> (B + i) * BUDDY_PAGE_SIZE \<longleftrightarrow> align_down start < (B + i + 1) * BUDDY_PAGE_SIZE"
      proof -
        obtain q where q: "align_down start = q * BUDDY_PAGE_SIZE" using align_mult(2) by blast
        show ?thesis unfolding q mult_le_cancel2 mult_less_cancel2 by (auto simp: BUDDY_PAGE_SIZE_def)
      qed
      then show ?thesis using align_ge(2) [of "B + i + 1" start] by linarith
    qed
    moreover have "(B + i) * BUDDY_PAGE_SIZE < zone_end z" "bz_base z \<le> (B + i) * BUDDY_PAGE_SIZE"
      using that by (simp_all add: ze B BUDDY_PAGE_SIZE_def)
    moreover have "bz_base z + i * BUDDY_PAGE_SIZE = (B + i) * BUDDY_PAGE_SIZE"
      "bz_base z + (i + 1) * BUDDY_PAGE_SIZE = (B + i + 1) * BUDDY_PAGE_SIZE"
      by (simp_all add: B algebra_simps)
    ultimately show ?thesis using that
      unfolding pages_touched_def s2_def e2_def by auto
  qed
  show ?thesis
  proof (cases "s2 < e2")
    case False
    then have "buddy_reserve_range z start stop = z"
      by (simp add: buddy_reserve_range_def Let_def s2_def e2_def)
    moreover have "listed z \<inter> pages_touched z start stop = {}" using t inF False by fastforce
    ultimately show ?thesis using inv by auto
  next
    case True
    define s where "s = s2 div BUDDY_PAGE_SIZE - B"
    define e where "e = e2 div BUDDY_PAGE_SIZE - B"
    have m: "s2 = s2 div BUDDY_PAGE_SIZE * BUDDY_PAGE_SIZE" "e2 = e2 div BUDDY_PAGE_SIZE * BUDDY_PAGE_SIZE"
      using align_mult(1) [of stop] align_mult(2) [of start] by (auto simp: s2_def e2_def B ze BUDDY_PAGE_SIZE_def)
    have lo: "B * BUDDY_PAGE_SIZE \<le> s2" by (simp add: s2_def B)
    have se: "s2 = bz_base z + s * BUDDY_PAGE_SIZE" "e2 = bz_base z + e * BUDDY_PAGE_SIZE"
      unfolding s_def e_def B by (rule page_offset [OF m(1)] page_offset [OF m(2)]; use lo True in linarith)+
    have lt: "s < e" using True unfolding se by simp
    define z' where "z' = buddy_reserve_range z start stop"
    have eq: "z' = foldl (reserve_list s2 e2) z (rev [0..<BUDDY_MAX_ORDER + 1])"
      using True by (simp add: z'_def buddy_reserve_range_def Let_def flip: s2_def e2_def)
    have r: "buddy_inv z' \<and> same_zone z z' \<and> listed z' \<subseteq> listed z \<and> listed z - {s..<e} \<subseteq> listed z' \<and>
      (\<forall>o'\<in>set (rev [0..<BUDDY_MAX_ORDER + 1]). \<forall>a. in_list z o' a \<longrightarrow> span z o' a \<inter> {s..<e} \<inter> listed z' = {})"
      by (rule reserve_orders_ok [OF inv base _ _ se lt eq]) auto
    have "i \<notin> {s..<e}" if "i \<in> listed z'" for i
    proof -
      have "i \<in> listed z" using r that by blast
      then obtain p a where p: "in_list z p a" "i \<in> span z p a" by (auto simp: listed_def)
      then have "p \<in> set (rev [0..<BUDDY_MAX_ORDER + 1])" by (auto simp: in_list_def)
      with r p show ?thesis using \<open>i \<in> listed z'\<close> by blast
    qed
    then have l: "listed z' = listed z - {s..<e}" using r by blast
    have "i \<in> pages_touched z start stop \<longleftrightarrow> i \<in> {s..<e}" if "i \<in> listed z" for i
      using t [OF inF [OF that]] unfolding se B by (auto simp: algebra_simps BUDDY_PAGE_SIZE_def)
    then show ?thesis using l r unfolding z'_def by auto
  qed
qed

lemma buddy_init_ok:
  assumes "pages \<le> 8 * sz"
  shows "buddy_inv (buddy_init base pages sz mem)" "listed (buddy_init base pages sz mem) = {}"
proof -
  let ?z = "buddy_init base pages sz mem"
  have none: "\<not> in_list ?z o' a" for o' a
    by (simp add: in_list_def buddy_init_def del: replicate_Suc)
  then show l: "listed ?z = {}" by (simp add: listed_def)
  have "alloc_map_test ?z i" if "i < pages" for i
  proof -
    have "i div 8 < sz" using that assms by (simp add: less_mult_imp_div_less mult.commute)
    then have "alloc_map_test ?z i = bit (0xFF :: u8) (i mod 8)"
      by (simp add: alloc_map_wa wa_test_bit buddy_init_def)
    moreover have "0xFF = (mask 8 :: u8)" by (simp add: mask_eq_exp_minus_1)
    ultimately show ?thesis by (simp only: bit_mask_iff) simp
  qed
  then have "map_ok ?z {}" using assms by (simp add: map_ok_def buddy_init_def)
  then show "buddy_inv ?z" using none by (simp add: buddy_inv_def lists_ok_def l) (simp add: buddy_init_def del: replicate_Suc)
qed

section \<open>A zone with its clients\<close>

text \<open>
  \<open>live\<close> is the set of outstanding allocations, pairs of an address and a page count. A client
  may write anything to the pages it holds, so it may change the byte that is the node order of
  a page.
\<close>

type_synonym buddy_world = "BuddyZone \<times> (nat \<times> nat) set"

inductive buddy_step :: "buddy_world \<Rightarrow> buddy_world \<Rightarrow> bool" where
  alloc: "buddy_alloc z n = Some (z', a) \<Longrightarrow> a \<noteq> 0 \<Longrightarrow> buddy_step (z, live) (z', insert (a, n) live)"
| alloc_fail: "buddy_alloc z n = Some (z', 0) \<Longrightarrow> buddy_step (z, live) (z', live)"
| alloc_range: "buddy_alloc_range z n lo hi = Some (z', a) \<Longrightarrow> a \<noteq> 0 \<Longrightarrow> buddy_step (z, live) (z', insert (a, n) live)"
| alloc_range_fail: "buddy_alloc_range z n lo hi = Some (z', 0) \<Longrightarrow> buddy_step (z, live) (z', live)"
| free: "(a, n) \<in> live \<Longrightarrow> buddy_free z a n = Some z' \<Longrightarrow> buddy_step (z, live) (z', live - {(a, n)})"
| scribble: "(a, n) \<in> live \<Longrightarrow> j < 2 ^ block_order n \<Longrightarrow>
    buddy_step (z, live)
      (z\<lparr>bz_node_order := (bz_node_order z)(a + j * BUDDY_PAGE_SIZE := v)\<rparr>, live)"

inductive_cases buddy_stepE: "buddy_step (z, live) (z', live')"

inductive buddy_run :: "BuddyZone \<Rightarrow> buddy_world \<Rightarrow> bool" for z0 where
  start: "buddy_run z0 (z0, {})"
| step: "buddy_run z0 w \<Longrightarrow> buddy_step w w' \<Longrightarrow> buddy_run z0 w'"

definition live_ok :: "BuddyZone \<Rightarrow> (nat \<times> nat) set \<Rightarrow> bool" where
  "live_ok z live \<longleftrightarrow> finite live \<and>
     (\<forall>a n. (a, n) \<in> live \<longrightarrow>
        0 < n \<and> is_block z (block_order n) a \<and> span z (block_order n) a \<inter> listed z = {}) \<and>
     (\<forall>a n b m. (a, n) \<in> live \<longrightarrow> (b, m) \<in> live \<longrightarrow> (a, n) \<noteq> (b, m) \<longrightarrow>
        span z (block_order n) a \<inter> span z (block_order m) b = {})"

definition held :: "(nat \<times> nat) set \<Rightarrow> nat" where
  "held live = (\<Sum>(a, n)\<in>live. 2 ^ block_order n)"

definition world_ok :: "BuddyZone \<Rightarrow> buddy_world \<Rightarrow> bool" where
  "world_ok z0 w \<longleftrightarrow> buddy_inv (fst w) \<and> same_zone z0 (fst w) \<and> live_ok (fst w) (snd w) \<and>
     bz_free_count (fst w) + held (snd w) = bz_free_count z0"

lemma finite_span [simp]: "finite (span z o' a)"
  by (simp add: span_def)

lemma live_okD:
  assumes "live_ok z live" "(a, n) \<in> live"
  shows "0 < n" "is_block z (block_order n) a" "span z (block_order n) a \<inter> listed z = {}"
  using assms by (auto simp: live_ok_def)

lemma free_count_card: "buddy_inv z \<Longrightarrow> bz_free_count z = card (listed z) \<and> finite (listed z)"
  by (auto simp: buddy_inv_def map_ok_def intro: finite_subset)

lemma take_world:
  assumes w: "world_ok z0 (z, live)" and n: "0 < n" and "in": "in_list z o' a" and le: "block_order n \<le> o'"
  shows "world_ok z0 (take_block z (block_order n) o' a, insert (a, n) live)"
proof -
  let ?o = "block_order n" and ?z = "take_block z (block_order n) o' a"
  have inv: "buddy_inv z" and same: "same_zone z0 z" and live: "live_ok z live"
    and cnt: "bz_free_count z + held live = bz_free_count z0" using w by (simp_all add: world_ok_def)
  note t = take_block_ok [OF inv "in" le]
  have g: "is_block ?z = is_block z" "span ?z = span z" using t same_zone_geometry [of z ?z] by simp_all
  have ne: "span z ?o a \<inter> span z (block_order m) b = {}" if "(b, m) \<in> live" for b m
    using live_okD(3) [OF live that] t by blast
  then have new: "(a, n) \<notin> live" using start_in_span [of z a ?o] by blast
  have "live_ok ?z (insert (a, n) live)"
  proof -
    have "span z (block_order m) b \<inter> (listed z - span z ?o a) = {}" if "(b, m) \<in> live" for b m
      using live_okD(3) [OF live that] by blast
    then show ?thesis using live t n ne Int_commute [of "span z ?o a"] unfolding live_ok_def g by auto
  qed
  moreover have "bz_free_count ?z = bz_free_count z - 2 ^ ?o" "2 ^ ?o \<le> bz_free_count z"
  proof -
    have c: "bz_free_count ?z = card (listed z - span z ?o a)" "bz_free_count z = card (listed z)" "finite (listed z)"
      using free_count_card [OF inv] free_count_card [of ?z] t by auto
    then show "bz_free_count ?z = bz_free_count z - 2 ^ ?o" using t by (simp add: card_Diff_subset)
    show "2 ^ ?o \<le> bz_free_count z" using t c card_mono [of "listed z" "span z ?o a"] by simp
  qed
  moreover have "held (insert (a, n) live) = 2 ^ ?o + held live"
    using new live by (simp add: held_def live_ok_def)
  ultimately show ?thesis using t same_zone_trans [OF same] cnt by (auto simp: world_ok_def)
qed

lemma free_world:
  assumes w: "world_ok z0 (z, live)" and mem: "(a, n) \<in> live" and base: "0 < bz_base z0" and init: "bz_initialized z0"
  shows "\<exists>z'. buddy_free z a n = Some z' \<and> world_ok z0 (z', live - {(a, n)}) \<and>
    listed z' = listed z \<union> span z (block_order n) a"
proof -
  let ?o = "block_order n"
  have inv: "buddy_inv z" and same: "same_zone z0 z" and live: "live_ok z live"
    and cnt: "bz_free_count z + held live = bz_free_count z0" using w by (simp_all add: world_ok_def)
  note l = live_okD [OF live mem]
  have "a \<noteq> 0" using is_block_in_zone [OF l(2)] base same by (auto simp: same_zone_def)
  moreover have "bz_initialized z" using init same by (simp add: same_zone_def)
  ultimately obtain z' where f: "buddy_free z a n = Some z'" "buddy_inv z'" "listed z' = listed z \<union> span z ?o a"
      "same_zone z z'" using buddy_free_ok [OF inv l(2,3,1)] by blast
  have g: "is_block z' = is_block z" "span z' = span z" using same_zone_geometry [OF f(4)] by simp_all
  have "live_ok z' (live - {(a, n)})"
  proof -
    have "span z (block_order m) b \<inter> (listed z \<union> span z ?o a) = {}" if "(b, m) \<in> live - {(a, n)}" for b m
    proof -
      have "span z (block_order m) b \<inter> span z ?o a = {}" using live that mem unfolding live_ok_def by blast
      then show ?thesis using live_okD(3) [OF live, of b m] that by blast
    qed
    then show ?thesis using live unfolding live_ok_def g f(3) by simp blast
  qed
  moreover have "bz_free_count z' = bz_free_count z + 2 ^ ?o"
    using free_count_card [OF inv] free_count_card [OF f(2)] f(3) l(3)
    by (simp add: card_Un_disjoint Int_commute)
  moreover have "held live = 2 ^ ?o + held (live - {(a, n)})"
    using sum.remove [of live "(a, n)" "\<lambda>(a, n). 2 ^ block_order n"] live mem by (simp add: held_def live_ok_def)
  ultimately have "world_ok z0 (z', live - {(a, n)})"
    using f same_zone_trans [OF same f(4)] cnt by (simp add: world_ok_def)
  then show ?thesis using f by blast
qed

lemma scribble_world:
  assumes w: "world_ok z0 (z, live)" and mem: "(a, n) \<in> live" and j: "j < 2 ^ block_order n"
  shows "world_ok z0 (z\<lparr>bz_node_order := (bz_node_order z)(a + j * BUDDY_PAGE_SIZE := v)\<rparr>, live)"
proof -
  let ?x = "a + j * BUDDY_PAGE_SIZE"
  let ?z = "z\<lparr>bz_node_order := (bz_node_order z)(?x := v)\<rparr>"
  have inv: "buddy_inv z" and live: "live_ok z live" using w by (simp_all add: world_ok_def)
  note l = live_okD [OF live mem]
  have g: "is_block ?z = is_block z" "span ?z = span z" by (rule geometry_cong; simp)+
  have il: "in_list ?z = in_list z" by (simp add: fun_eq_iff in_list_def)
  have ls: "listed ?z = listed z" by (simp add: listed_def il g)
  have "?x = bz_base z + (page_index z a + j) * BUDDY_PAGE_SIZE"
    using is_blockD(1) [OF l(2)] by (simp add: algebra_simps)
  then have "page_index z ?x = page_index z a + j" by (simp only: page_index_base)
  moreover have "page_index z a + j \<in> span z (block_order n) a" using j by (simp add: span_def)
  ultimately have "page_index z ?x \<notin> listed z" using l(3) by auto
  then have ne: "b \<noteq> ?x" if "in_list z p b" for p b
    using in_list_listed [OF that] start_in_span [of z b p] by auto
  have "lists_ok ?z" using inv ne by (auto simp: buddy_inv_def lists_ok_def il g)
  moreover have "map_ok ?z F = map_ok z F" for F by (rule map_cong) simp_all
  ultimately have "buddy_inv ?z" using inv by (simp add: buddy_inv_def ls)
  moreover have "live_ok ?z live" using live by (simp add: live_ok_def g ls)
  ultimately show ?thesis using w by (simp add: world_ok_def same_zone_def)
qed

lemma search_range_found:
  "search_range z lo hi os = Some (o', a) \<Longrightarrow> o' \<in> set os \<and> a \<in> set (bz_free_lists z ! o') \<and> in_window lo hi o' a"
  by (induction z lo hi os rule: search_range.induct) (auto split: option.splits dest: find_SomeD)

lemma alloc_range_cases:
  assumes "buddy_alloc_range z n lo hi = Some (z', a)"
  shows "(z' = z \<and> a = 0) \<or> (\<exists>o'. 0 < n \<and> block_order n \<le> o' \<and> in_list z o' a \<and> lo \<le> a \<and>
    a + 2 ^ o' * BUDDY_PAGE_SIZE \<le> hi \<and> z' = take_block z (block_order n) o' a)"
proof (cases "n = 0 \<or> \<not> bz_initialized z \<or> block_order n > BUDDY_MAX_ORDER \<or>
    (if lo < bz_base z then bz_base z else lo) \<ge> (if hi > zone_end z then zone_end z else hi)")
  case True
  then show ?thesis using assms by (auto simp: buddy_alloc_range_def Let_def pages_to_order_eq split: if_splits)
next
  case False
  let ?lo = "if lo < bz_base z then bz_base z else lo" and ?hi = "if hi > zone_end z then zone_end z else hi"
  let ?os = "[block_order n..<BUDDY_MAX_ORDER + 1]"
  have eq: "(z', a) = (case search_range z ?lo ?hi ?os of None \<Rightarrow> (z, 0)
      | Some (o', block) \<Rightarrow> (take_block z (block_order n) o' block, block))"
    using assms False by (auto simp: buddy_alloc_range_def Let_def small_order)
  show ?thesis
  proof (cases "search_range z ?lo ?hi ?os")
    case None
    then show ?thesis using eq by simp
  next
    case (Some r)
    obtain o' where r: "r = (o', a)" "z' = take_block z (block_order n) o' a" using eq Some by (cases r) auto
    have f: "o' \<in> set ?os" "a \<in> set (bz_free_lists z ! o')" "in_window ?lo ?hi o' a"
      using search_range_found [of z ?lo ?hi ?os o' a] Some r by auto
    then have "?lo \<le> a" "a + 2 ^ o' * BUDDY_PAGE_SIZE \<le> ?hi"
      by (auto simp: in_window_def Let_def order_to_pages_def split: if_splits)
    then have "lo \<le> a" "a + 2 ^ o' * BUDDY_PAGE_SIZE \<le> hi" by (auto split: if_splits)
    then show ?thesis using f(1,2) r(2) False by (intro disjI2 exI [of _ o']) (auto simp: in_list_def)
  qed
qed

lemma step_world:
  assumes "buddy_step w w'" "world_ok z0 w" "0 < bz_base z0" "bz_initialized z0"
  shows "world_ok z0 w'"
  using assms
proof (induction rule: buddy_step.induct)
  case (alloc z n z' a live)
  have "buddy_inv z" using alloc.prems(1) by (simp add: world_ok_def)
  from this alloc.hyps(1) show ?case
  proof (cases rule: buddy_alloc_cases)
    case (ok o')
    then show ?thesis using take_world [OF alloc.prems(1)] by simp
  qed (use alloc.hyps(2) in simp)
next
  case (alloc_fail z n z' live)
  have "buddy_inv z" using alloc_fail.prems(1) by (simp add: world_ok_def)
  from this alloc_fail.hyps show ?case
  proof (cases rule: buddy_alloc_cases)
    case (ok o')
    then have "is_block z o' 0" using \<open>buddy_inv z\<close> in_listD by (auto simp: buddy_inv_def)
    then show ?thesis using is_block_in_zone alloc_fail.prems by (fastforce simp: world_ok_def same_zone_def)
  qed (use alloc_fail.prems in simp)
next
  case (alloc_range z n lo hi z' a live)
  then show ?case using alloc_range_cases [OF alloc_range.hyps(1)] take_world [OF alloc_range.prems(1)] by auto
next
  case (alloc_range_fail z n lo hi z' live)
  from alloc_range_cases [OF alloc_range_fail.hyps] show ?case
  proof
    assume "\<exists>o'. 0 < n \<and> block_order n \<le> o' \<and> in_list z o' 0 \<and> lo \<le> 0 \<and>
      0 + 2 ^ o' * BUDDY_PAGE_SIZE \<le> hi \<and> z' = take_block z (block_order n) o' 0"
    then obtain o' where "is_block z o' 0"
      using alloc_range_fail.prems(1) in_listD by (auto simp: world_ok_def buddy_inv_def)
    then show ?thesis using is_block_in_zone alloc_range_fail.prems by (fastforce simp: world_ok_def same_zone_def)
  qed (use alloc_range_fail.prems in simp)
next
  case (free a n live z z')
  then show ?case using free_world [OF free.prems(1) free.hyps(1) free.prems(2,3)] by auto
next
  case (scribble a n live j z v)
  then show ?case using scribble_world by blast
qed

lemma run_world:
  assumes "buddy_run z0 w" "buddy_inv z0" "0 < bz_base z0" "bz_initialized z0"
  shows "world_ok z0 w"
  using assms
proof (induction rule: buddy_run.induct)
  case start
  then show ?case by (simp add: world_ok_def live_ok_def held_def)
next
  case (step w w')
  then show ?case using step_world by blast
qed

text \<open>A zone for the witnesses: eight pages at address 4096, all free.\<close>

definition small_zone :: BuddyZone where
  "small_zone = buddy_free_range (buddy_init 4096 8 1 (\<lambda>_. 0)) 4096 36864"

lemma small_zone_ok:
  "buddy_inv small_zone" "bz_base small_zone = 4096" "bz_total_pages small_zone = 8"
  "bz_initialized small_zone" "listed small_zone = {0..<8}"
proof -
  let ?z = "buddy_init 4096 8 1 (\<lambda>_. 0)"
  have i: "buddy_inv ?z" "listed ?z = {}" by (rule buddy_init_ok; simp)+
  have b: "bz_base ?z = 4096" "bz_total_pages ?z = 8" "bz_initialized ?z" by (simp_all add: buddy_init_def)
  have p: "pages_inside ?z 4096 36864 = {0..<8}" by (auto simp: pages_inside_def buddy_init_def BUDDY_PAGE_SIZE_def)
  have "buddy_inv small_zone \<and> listed small_zone = listed ?z \<union> {0..<8} \<and> same_zone ?z small_zone"
    using buddy_free_range_ok [OF i(1), of 4096 36864] unfolding p small_zone_def b i(2) by (simp add: BUDDY_PAGE_SIZE_def)
  then show "buddy_inv small_zone" "bz_base small_zone = 4096" "bz_total_pages small_zone = 8"
    "bz_initialized small_zone" "listed small_zone = {0..<8}" unfolding same_zone_def b i(2) using b(3) by simp_all
qed

lemma small_alloc: "\<exists>z' a. buddy_alloc small_zone 1 = Some (z', a) \<and> a \<noteq> 0"
proof -
  have o: "block_order 1 = 0" by (simp add: block_order_def order_steps.simps)
  then have "buddy_alloc small_zone 1 \<noteq> None" by (simp add: buddy_alloc_def pages_to_order_eq)
  then obtain z' a where al: "buddy_alloc small_zone 1 = Some (z', a)" by fast
  have "0 \<in> listed small_zone" by (simp add: small_zone_ok)
  then obtain p b where b: "in_list small_zone p b" by (auto simp: listed_def)
  from small_zone_ok(1) al have "a \<noteq> 0"
  proof (cases rule: buddy_alloc_cases)
    case fail
    then show ?thesis using b o by (auto simp: small_zone_ok)
  next
    case (ok o')
    then have "is_block small_zone o' a" using in_listD small_zone_ok(1) by (auto simp: buddy_inv_def)
    then show ?thesis using is_block_in_zone small_zone_ok(2) by force
  qed
  with al show ?thesis by blast
qed

lemma small_run:
  assumes "buddy_alloc small_zone 1 = Some (z', a)" "a \<noteq> 0"
  shows "buddy_run small_zone (z', {(a, 1)})"
  using buddy_run.step [OF buddy_run.start buddy_step.alloc [OF assms]] by simp

lemmas small_premises = small_zone_ok(1) small_zone_ok(2) small_zone_ok(4)

section \<open>Properties\<close>

text \<open>
  C3. Memory safety of the page allocator: whatever sequence of allocations, releases and client
  writes has run, two outstanding allocations never share a page, none contains a page that the
  allocator considers free, and each is at least as large as asked for, aligned to its size and inside
  the zone.
\<close>

theorem buddy_no_overlap:
  assumes "buddy_run z0 (z, live)" and "buddy_inv z0" and "0 < bz_base z0" and "bz_initialized z0"
    and "(a, n) \<in> live"
  shows "n \<le> 2 ^ block_order n \<and> is_block z (block_order n) a \<and>
    span z (block_order n) a \<inter> listed z = {} \<and>
    (\<forall>b m. (b, m) \<in> live \<and> (b, m) \<noteq> (a, n) \<longrightarrow> span z (block_order n) a \<inter> span z (block_order m) b = {})"
proof -
  have live: "live_ok z live" using run_world [OF assms(1-4)] by (simp add: world_ok_def)
  have "span z (block_order n) a \<inter> span z (block_order m) b = {}"
    if "(b, m) \<in> live" "(b, m) \<noteq> (a, n)" for b m
    using live that assms(5) unfolding live_ok_def by blast
  then show ?thesis using live_okD [OF live assms(5)] block_order_spec(1) [of n] by blast
qed

theorem buddy_no_overlap_witness:
  "\<exists>z' a. buddy_alloc small_zone 1 = Some (z', a) \<and> a \<noteq> 0 \<and> is_block z' (block_order 1) a \<and>
     span z' (block_order 1) a \<inter> listed z' = {}"
proof -
  obtain z' a where al: "buddy_alloc small_zone 1 = Some (z', a)" "a \<noteq> 0" using small_alloc by blast
  show ?thesis using al buddy_no_overlap [OF small_run [OF al], of a 1] by (simp add: small_premises)
qed

text \<open>
  C30. Releasing what is held always works: the release of an outstanding allocation does not panic,
  makes exactly its pages free again (whatever the client has written there, and however blocks
  coalesce) and keeps the allocator's invariant.
\<close>

theorem buddy_free_live:
  assumes "buddy_run z0 (z, live)" and "buddy_inv z0" and "0 < bz_base z0" and "bz_initialized z0"
    and "(a, n) \<in> live"
  shows "\<exists>z'. buddy_free z a n = Some z' \<and> buddy_inv z' \<and> listed z' = listed z \<union> span z (block_order n) a \<and>
    bz_free_count z' = bz_free_count z + 2 ^ block_order n"
proof -
  have w: "world_ok z0 (z, live)" using run_world [OF assms(1-4)] .
  obtain z' where f: "buddy_free z a n = Some z'" "world_ok z0 (z', live - {(a, n)})"
      "listed z' = listed z \<union> span z (block_order n) a"
    using free_world [OF w assms(5,3,4)] by blast
  have inv: "buddy_inv z" "buddy_inv z'" using w f(2) by (simp_all add: world_ok_def)
  have "span z (block_order n) a \<inter> listed z = {}" using w live_okD(3) [OF _ assms(5), of z] by (simp add: world_ok_def)
  then have "bz_free_count z' = bz_free_count z + 2 ^ block_order n"
    using free_count_card [OF inv(1)] free_count_card [OF inv(2)] f(3) by (simp add: card_Un_disjoint Int_commute)
  then show ?thesis using f inv by blast
qed

theorem buddy_free_live_witness:
  "\<exists>z' a z''. buddy_alloc small_zone 1 = Some (z', a) \<and> buddy_free z' a 1 = Some z'' \<and> buddy_inv z''"
proof -
  obtain z' a where al: "buddy_alloc small_zone 1 = Some (z', a)" "a \<noteq> 0" using small_alloc by blast
  show ?thesis using al buddy_free_live [OF small_run [OF al], of a 1] by (auto simp: small_premises)
qed

text \<open>
  C31. No page is lost or made up: at every moment \<^verbatim>\<open>free_count\<close> plus the pages of the outstanding
  allocations is what the zone started with, and \<^verbatim>\<open>free_count\<close> is the number of pages on the free lists.
\<close>

theorem buddy_conservation:
  assumes "buddy_run z0 (z, live)" and "buddy_inv z0" and "0 < bz_base z0" and "bz_initialized z0"
  shows "bz_free_count z + (\<Sum>(a, n)\<in>live. 2 ^ block_order n) = bz_free_count z0 \<and>
    bz_free_count z = card (listed z)"
  using run_world [OF assms] free_count_card [of z] by (simp add: world_ok_def held_def)

theorem buddy_conservation_witness:
  "\<exists>z' a. buddy_alloc small_zone 1 = Some (z', a) \<and> bz_free_count z' + 2 ^ block_order 1 = 8"
proof -
  obtain z' a where al: "buddy_alloc small_zone 1 = Some (z', a)" "a \<noteq> 0" using small_alloc by blast
  have "bz_free_count small_zone = 8"
    using free_count_card [OF small_zone_ok(1)] by (simp add: small_zone_ok)
  then show ?thesis using al buddy_conservation [OF small_run [OF al]] by (simp add: small_premises)
qed

text \<open>
  Allocation fails only when it must: for a request of a supported size, \<^verbatim>\<open>buddy_alloc\<close> returns NULL
  exactly when no free block is large enough, and then changes nothing; otherwise the pages handed out
  were free and are the only ones to stop being free.
\<close>

theorem buddy_alloc_complete:
  assumes "buddy_inv z" and "0 < bz_base z" and "bz_initialized z" and "0 < n"
    and "block_order n \<le> BUDDY_MAX_ORDER" and "buddy_alloc z n = Some (z', a)"
  shows "if \<exists>o' b. block_order n \<le> o' \<and> in_list z o' b
    then a \<noteq> 0 \<and> span z (block_order n) a \<subseteq> listed z \<and> listed z' = listed z - span z (block_order n) a
    else a = 0 \<and> z' = z"
  using assms(1,6)
proof (cases rule: buddy_alloc_cases)
  case fail
  then show ?thesis using assms(3-5) by auto
next
  case (ok o')
  note t = take_block_ok [OF assms(1) ok(4,3)]
  have "a \<noteq> 0" using is_block_in_zone [of z "block_order n" a] t assms(2) by auto
  then show ?thesis using ok t by auto
qed

theorem buddy_alloc_complete_witness:
  "\<exists>z' a. buddy_alloc small_zone 1 = Some (z', a) \<and> a \<noteq> 0 \<and> listed z' = {0..<8} - span small_zone (block_order 1) a"
proof -
  obtain z' a where al: "buddy_alloc small_zone 1 = Some (z', a)" "a \<noteq> 0" using small_alloc by blast
  have "block_order 1 = 0" by (simp add: block_order_def order_steps.simps)
  then show ?thesis using al buddy_alloc_complete [of small_zone 1 z' a]
    by (auto simp: small_zone_ok split: if_splits)
qed

text \<open>
  Double frees are caught: releasing a range of which any page is already free panics instead of
  corrupting the free lists.
\<close>

theorem buddy_double_free_panics:
  assumes "buddy_inv z" and "bz_initialized z" and "0 < n" and "block_order n \<le> BUDDY_MAX_ORDER"
    and "a \<noteq> 0" and "bz_base z \<le> a" and "a < zone_end z"
    and "span z (block_order n) a \<inter> listed z \<noteq> {}"
  shows "buddy_free z a n = None"
  using buddy_free_double [OF assms(1,3,5,2,4,6,7)] assms(8) by blast

theorem buddy_double_free_panics_witness: "buddy_free small_zone 8192 1 = None"
proof (rule buddy_double_free_panics)
  have "block_order 1 = 0" by (simp add: block_order_def order_steps.simps)
  then show "block_order 1 \<le> BUDDY_MAX_ORDER" "span small_zone (block_order 1) 8192 \<inter> listed small_zone \<noteq> {}"
    by (auto simp: span_def page_index_def small_zone_ok BUDDY_PAGE_SIZE_def)
qed (simp_all add: small_zone_ok zone_end_def BUDDY_PAGE_SIZE_def)

text \<open>
  Seeding and reserving at boot: in a zone with a page-aligned base, \<^verbatim>\<open>buddy_free_range\<close> makes free
  exactly the pages that lie wholly in the range, and \<^verbatim>\<open>buddy_reserve_range\<close> takes away exactly the free
  pages that the range touches, splitting blocks as needed; both keep the invariant.
\<close>

theorem buddy_ranges:
  assumes "buddy_inv z" and "BUDDY_PAGE_SIZE dvd bz_base z"
    and "pages_inside z s1 e1 \<inter> listed z = {}"
  shows "buddy_inv (buddy_free_range z s1 e1) \<and>
    listed (buddy_free_range z s1 e1) = listed z \<union> pages_inside z s1 e1 \<and>
    buddy_inv (buddy_reserve_range z s2 e2) \<and>
    listed (buddy_reserve_range z s2 e2) = listed z - pages_touched z s2 e2"
  using buddy_free_range_ok [OF assms] buddy_reserve_range_ok [OF assms(1,2)] by blast

theorem buddy_ranges_witness:
  "listed (buddy_reserve_range small_zone 8192 12288) = {0..<8} - pages_touched small_zone 8192 12288"
  using buddy_ranges [of small_zone 0 0 8192 12288]
  by (simp add: small_zone_ok pages_inside_def BUDDY_PAGE_SIZE_def)

end
