(* ===== verification/BuddyList.thy ===== *)
theory BuddyList
  imports Buddy
begin

text \<open>
  The free lists of kernel/core/memory/pmm/buddy.c at the level of pointers. A node lives in the
  first bytes of the free page it stands for. Memory is keyed by physical address; pointers are
  virtual addresses, which a load or store translates back (\<^verbatim>\<open>vmm_virt_to_phys_direct\<close>). Before
  the pull map is active a virtual address is the physical one, afterwards it is shifted by
  \<^verbatim>\<open>PULL_MAP_BASE\<close>. The doubly linked lists refine the lists of addresses that theory Buddy
  works on, and \<^verbatim>\<open>buddy_activate_pull_map\<close> rebases every pointer of every list.
\<close>

section \<open>Addresses, nodes and the list operations\<close>

definition PULL_MAP_BASE :: nat where "PULL_MAP_BASE = 0xFFFF880000000000"
definition VMM_KERNEL_BASE :: nat where "VMM_KERNEL_BASE = 0xFFFF800000000000"

definition vmm_phys_to_virt :: "bool \<Rightarrow> nat \<Rightarrow> nat" where
  "vmm_phys_to_virt active phys_addr = (if active then (phys_addr + PULL_MAP_BASE) mod 2 ^ 64 else phys_addr)"

definition vmm_virt_to_phys_direct :: "nat \<Rightarrow> nat" where
  "vmm_virt_to_phys_direct virt =
     (if virt \<ge> PULL_MAP_BASE then virt - PULL_MAP_BASE
      else if virt \<ge> 0xFFFFFFFF80000000 then virt - 0xFFFFFFFF80000000
      else if virt \<ge> VMM_KERNEL_BASE then 0 else virt)"

record BuddyFreeNodes =
  nd_next :: "nat \<Rightarrow> nat"
  nd_prev :: "nat \<Rightarrow> nat"
  nd_order :: "nat \<Rightarrow> u8"

record BuddyFreeList =
  fl_head :: nat
  fl_tail :: nat
  fl_count :: nat

definition set_next :: "nat \<Rightarrow> nat \<Rightarrow> BuddyFreeNodes \<Rightarrow> BuddyFreeNodes" where
  "set_next node v m = m\<lparr>nd_next := (nd_next m)(vmm_virt_to_phys_direct node := v)\<rparr>"

definition set_prev :: "nat \<Rightarrow> nat \<Rightarrow> BuddyFreeNodes \<Rightarrow> BuddyFreeNodes" where
  "set_prev node v m = m\<lparr>nd_prev := (nd_prev m)(vmm_virt_to_phys_direct node := v)\<rparr>"

definition set_order :: "nat \<Rightarrow> u8 \<Rightarrow> BuddyFreeNodes \<Rightarrow> BuddyFreeNodes" where
  "set_order node v m = m\<lparr>nd_order := (nd_order m)(vmm_virt_to_phys_direct node := v)\<rparr>"

definition get_next :: "BuddyFreeNodes \<Rightarrow> nat \<Rightarrow> nat" where
  "get_next m node = nd_next m (vmm_virt_to_phys_direct node)"

definition get_prev :: "BuddyFreeNodes \<Rightarrow> nat \<Rightarrow> nat" where
  "get_prev m node = nd_prev m (vmm_virt_to_phys_direct node)"

definition buddy_list_insert ::
  "BuddyFreeNodes \<Rightarrow> BuddyFreeList \<Rightarrow> nat \<Rightarrow> nat \<Rightarrow> BuddyFreeNodes \<times> BuddyFreeList" where
  "buddy_list_insert m l node order =
     (let m1 = set_prev node (fl_tail l) (set_next node 0 (set_order node (of_nat order) m));
          (m2, l2) = (if fl_tail l \<noteq> 0 then (set_next (fl_tail l) node m1, l)
                      else (m1, l\<lparr>fl_head := node\<rparr>))
      in (m2, l2\<lparr>fl_tail := node, fl_count := fl_count l2 + 1\<rparr>))"

definition buddy_list_remove ::
  "BuddyFreeNodes \<Rightarrow> BuddyFreeList \<Rightarrow> nat \<Rightarrow> BuddyFreeNodes \<times> BuddyFreeList" where
  "buddy_list_remove m l node =
     (let (m1, l1) = (if get_prev m node \<noteq> 0 then (set_next (get_prev m node) (get_next m node) m, l)
                      else (m, l\<lparr>fl_head := get_next m node\<rparr>));
          (m2, l2) = (if get_next m1 node \<noteq> 0 then (set_prev (get_next m1 node) (get_prev m1 node) m1, l1)
                      else (m1, l1\<lparr>fl_tail := get_prev m1 node\<rparr>));
          m3 = set_next node 0 (set_prev node 0 m2)
      in (m3, l2\<lparr>fl_count := fl_count l2 - 1\<rparr>))"

text \<open>
  \<^verbatim>\<open>buddy_activate_pull_map\<close>: the walk over one list, the rebasing of one list, and of the zone.
  The loop follows the pointers it rebases; not returning is \<open>None\<close>.
\<close>

definition rebase_node :: "nat \<Rightarrow> BuddyFreeNodes \<Rightarrow> BuddyFreeNodes" where
  "rebase_node node m =
     (let m1 = (if get_next m node \<noteq> 0 then set_next node (vmm_phys_to_virt True (get_next m node)) m else m)
      in if get_prev m1 node \<noteq> 0 then set_prev node (vmm_phys_to_virt True (get_prev m1 node)) m1 else m1)"

partial_function (option) rebase_walk ::
  "BuddyFreeNodes \<Rightarrow> nat \<Rightarrow> nat \<Rightarrow> (BuddyFreeNodes \<times> nat) option" where
  "rebase_walk m node last' =
     (if node = 0 then Some (m, last')
      else let m' = rebase_node node m in rebase_walk m' (get_next m' node) node)"

definition rebase_list :: "BuddyFreeNodes \<Rightarrow> BuddyFreeList \<Rightarrow> (BuddyFreeNodes \<times> BuddyFreeList) option" where
  "rebase_list m l =
     (if fl_head l = 0 then Some (m, l)
      else let l1 = l\<lparr>fl_head := vmm_phys_to_virt True (fl_head l)\<rparr>
           in map_option (\<lambda>(m', t). (m', l1\<lparr>fl_tail := t\<rparr>)) (rebase_walk m (fl_head l1) 0))"

primrec rebase_lists :: "BuddyFreeNodes \<Rightarrow> BuddyFreeList list \<Rightarrow> (BuddyFreeNodes \<times> BuddyFreeList list) option" where
  "rebase_lists m [] = Some (m, [])"
| "rebase_lists m (l # ls) =
     (case rebase_list m l of
        None \<Rightarrow> None
      | Some (m1, l1) \<Rightarrow> map_option (\<lambda>(m2, ls2). (m2, l1 # ls2)) (rebase_lists m1 ls))"

record PtrZone =
  pz_alloc_map :: nat
  pz_alloc_map_phys :: nat
  pz_free_lists :: "BuddyFreeList list"

definition buddy_activate_pull_map :: "BuddyFreeNodes \<Rightarrow> PtrZone \<Rightarrow> (BuddyFreeNodes \<times> PtrZone) option" where
  "buddy_activate_pull_map m zone =
     (let zone1 = zone\<lparr>pz_alloc_map := vmm_phys_to_virt True (pz_alloc_map_phys zone)\<rparr>
      in map_option (\<lambda>(m', ls). (m', zone1\<lparr>pz_free_lists := ls\<rparr>)) (rebase_lists m (pz_free_lists zone1)))"

section \<open>Segments of doubly linked lists\<close>

text \<open>Free pages have addresses that are not NULL and that the pull map reaches: adding its base does not
  wrap round, so they lie below 0x780000000000.\<close>

definition good_addr :: "nat \<Rightarrow> bool" where
  "good_addr a \<longleftrightarrow> 0 < a \<and> a + PULL_MAP_BASE < 2 ^ 64"

lemma virt_phys [simp]: "good_addr a \<Longrightarrow> vmm_virt_to_phys_direct (vmm_phys_to_virt act a) = a"
  by (simp add: good_addr_def vmm_virt_to_phys_direct_def vmm_phys_to_virt_def PULL_MAP_BASE_def VMM_KERNEL_BASE_def)

lemma virt_nonnull [simp]: "good_addr a \<Longrightarrow> 0 < vmm_phys_to_virt act a"
  by (simp add: good_addr_def vmm_phys_to_virt_def PULL_MAP_BASE_def)

text \<open>The first address beyond is taken for NULL.\<close>

lemma virt_wraps: "vmm_phys_to_virt True 0x780000000000 = 0"
  by (simp add: vmm_phys_to_virt_def PULL_MAP_BASE_def)

lemma set_fields [simp]:
  "nd_next (set_next p v m) = (nd_next m)(vmm_virt_to_phys_direct p := v)" "nd_prev (set_next p v m) = nd_prev m"
  "nd_order (set_next p v m) = nd_order m" "nd_next (set_prev p v m) = nd_next m"
  "nd_prev (set_prev p v m) = (nd_prev m)(vmm_virt_to_phys_direct p := v)" "nd_order (set_prev p v m) = nd_order m"
  "nd_next (set_order p w m) = nd_next m" "nd_prev (set_order p w m) = nd_prev m"
  "nd_order (set_order p w m) = (nd_order m)(vmm_virt_to_phys_direct p := w)"
  by (simp_all add: set_next_def set_prev_def set_order_def)

fun dseg :: "bool \<Rightarrow> BuddyFreeNodes \<Rightarrow> nat \<Rightarrow> nat \<Rightarrow> nat list \<Rightarrow> nat \<Rightarrow> nat \<Rightarrow> bool" where
  "dseg act m pr h [] nx t = (h = nx \<and> t = pr)"
| "dseg act m pr h (a # as) nx t =
     (h = vmm_phys_to_virt act a \<and> nd_prev m a = pr \<and> dseg act m (vmm_phys_to_virt act a) (nd_next m a) as nx t)"

lemma dseg_append:
  "dseg act m pr h (xs @ ys) nx t \<longleftrightarrow> (\<exists>h' t'. dseg act m pr h xs h' t' \<and> dseg act m t' h' ys nx t)"
  by (induction xs arbitrary: pr h) auto

lemma dseg_frame:
  "dseg act m pr h xs nx t \<Longrightarrow> (\<And>a. a \<in> set xs \<Longrightarrow> nd_next m' a = nd_next m a \<and> nd_prev m' a = nd_prev m a) \<Longrightarrow>
     dseg act m' pr h xs nx t"
  by (induction xs arbitrary: pr h) auto

text \<open>Relinking the ends of a segment: its first node's \<open>prev\<close>, its last node's \<open>next\<close>.\<close>

lemma dseg_relink_last:
  assumes "dseg act m pr h (ys @ [b]) nx t" "distinct (ys @ [b])"
    and "\<And>a. a \<in> set ys \<Longrightarrow> nd_next m' a = nd_next m a" "\<And>a. a \<in> set (ys @ [b]) \<Longrightarrow> nd_prev m' a = nd_prev m a"
    and "nd_next m' b = nx'"
  shows "dseg act m' pr h (ys @ [b]) nx' t"
proof -
  obtain h' t' where s: "dseg act m pr h ys h' t'" "dseg act m t' h' [b] nx t"
    using assms(1) by (auto simp: dseg_append)
  have "dseg act m' pr h ys h' t'" using dseg_frame [OF s(1), of m'] assms(3,4) by simp
  then show ?thesis using s(2) assms(4,5) by (auto simp: dseg_append)
qed

lemma dseg_relink_first:
  assumes "dseg act m pr h (b # zs) nx t" "nd_prev m' b = pr'" "nd_next m' b = nd_next m b"
    and "\<And>a. a \<in> set zs \<Longrightarrow> nd_next m' a = nd_next m a \<and> nd_prev m' a = nd_prev m a"
  shows "dseg act m' pr' h (b # zs) nx t"
  using assms dseg_frame [of act m "vmm_phys_to_virt act b" "nd_next m b" zs nx t m'] by simp

definition fl_ok :: "bool \<Rightarrow> BuddyFreeNodes \<Rightarrow> BuddyFreeList \<Rightarrow> nat list \<Rightarrow> bool" where
  "fl_ok act m l xs \<longleftrightarrow> dseg act m 0 (fl_head l) xs 0 (fl_tail l) \<and> fl_count l = length xs \<and>
     distinct xs \<and> (\<forall>a\<in>set xs. good_addr a)"

lemma fl_ok_frame:
  "fl_ok act m l xs \<Longrightarrow> (\<And>a. a \<in> set xs \<Longrightarrow> nd_next m' a = nd_next m a \<and> nd_prev m' a = nd_prev m a) \<Longrightarrow>
     fl_ok act m' l xs"
  using dseg_frame [of act m 0 "fl_head l" xs 0 "fl_tail l" m'] by (simp add: fl_ok_def)

lemma fl_ok_tail: "fl_ok act m l xs \<Longrightarrow> fl_tail l = (if xs = [] then 0 else vmm_phys_to_virt act (last xs))"
  by (cases xs rule: rev_cases) (auto simp: fl_ok_def dseg_append)

lemma fl_ok_head: "fl_ok act m l xs \<Longrightarrow> fl_head l = (if xs = [] then 0 else vmm_phys_to_virt act (hd xs))"
  by (cases xs) (auto simp: fl_ok_def)

section \<open>The operations on one list\<close>

lemma insert_ok:
  assumes "fl_ok act m l xs" "good_addr a" "a \<notin> set xs"
    and "buddy_list_insert m l (vmm_phys_to_virt act a) order = (m', l')"
  shows "fl_ok act m' l' (xs @ [a])" "nd_order m' = (nd_order m)(a := of_nat order)"
    "b \<noteq> a \<Longrightarrow> b \<notin> set xs \<Longrightarrow> nd_next m' b = nd_next m b \<and> nd_prev m' b = nd_prev m b"
proof -
  have "fl_ok act m' l' (xs @ [a]) \<and> nd_order m' = (nd_order m)(a := of_nat order) \<and>
    (b \<noteq> a \<longrightarrow> b \<notin> set xs \<longrightarrow> nd_next m' b = nd_next m b \<and> nd_prev m' b = nd_prev m b)"
  proof (cases xs rule: rev_cases)
    case Nil
    then have "fl_tail l = 0" using fl_ok_tail [OF assms(1)] by simp
    then show ?thesis using Nil assms by (auto simp: buddy_list_insert_def Let_def fl_ok_def)
  next
    case (snoc ys c)
    have c: "good_addr c" "distinct (ys @ [c])" using assms(1) snoc by (auto simp: fl_ok_def)
    have t: "fl_tail l = vmm_phys_to_virt act c" using fl_ok_tail [OF assms(1)] snoc by simp
    have m': "nd_next m' = (nd_next m)(a := 0, c := vmm_phys_to_virt act a)"
      "nd_prev m' = (nd_prev m)(a := vmm_phys_to_virt act c)" "nd_order m' = (nd_order m)(a := of_nat order)"
      "l' = l\<lparr>fl_tail := vmm_phys_to_virt act a, fl_count := fl_count l + 1\<rparr>"
      using assms(2,4) t c by (auto simp: buddy_list_insert_def Let_def)
    have "dseg act m' 0 (fl_head l) (ys @ [c]) (vmm_phys_to_virt act a) (fl_tail l)"
      by (rule dseg_relink_last [of act m _ _ _ _ 0]) (use assms snoc c in \<open>auto simp: fl_ok_def m'\<close>)
    then have "dseg act m' 0 (fl_head l) ((ys @ [c]) @ [a]) 0 (vmm_phys_to_virt act a)"
      using assms(3) snoc t by (subst dseg_append) (auto simp: m')
    then show ?thesis using assms(1-3) snoc by (auto simp: fl_ok_def m')
  qed
  then show "fl_ok act m' l' (xs @ [a])" "nd_order m' = (nd_order m)(a := of_nat order)"
    "b \<noteq> a \<Longrightarrow> b \<notin> set xs \<Longrightarrow> nd_next m' b = nd_next m b \<and> nd_prev m' b = nd_prev m b"
    by blast+
qed


lemma remove_ok:
  assumes ok: "fl_ok act m l (ys @ a # zs)"
    and r: "buddy_list_remove m l (vmm_phys_to_virt act a) = (m', l')"
  shows "fl_ok act m' l' (ys @ zs)" "nd_order m' = nd_order m"
    "b \<notin> set (ys @ a # zs) \<Longrightarrow> nd_next m' b = nd_next m b \<and> nd_prev m' b = nd_prev m b"
proof -
  let ?v = "vmm_phys_to_virt act" and ?p = "nd_prev m a" and ?n = "nd_next m a"
  have d: "distinct (ys @ a # zs)" and g: "\<forall>x\<in>set (ys @ a # zs). good_addr x" and cnt: "fl_count l = length (ys @ a # zs)"
    using ok by (auto simp: fl_ok_def)
  have left: "dseg act m 0 (fl_head l) ys (?v a) ?p" and right: "dseg act m (?v a) ?n zs 0 (fl_tail l)"
    using ok by (auto simp: fl_ok_def dseg_append)
  have p: "?p = (if ys = [] then 0 else ?v (last ys))"
    using left by (cases ys rule: rev_cases) (auto simp: dseg_append)
  have n: "?n = (if zs = [] then 0 else ?v (hd zs))" using right by (cases zs) auto
  have ga: "good_addr a" and gl: "ys \<noteq> [] \<Longrightarrow> good_addr (last ys) \<and> last ys \<noteq> a"
    and gh: "zs \<noteq> [] \<Longrightarrow> good_addr (hd zs) \<and> hd zs \<noteq> a" using g d by auto
  have m': "nd_next m' = (if ys = [] then nd_next m else (nd_next m)(last ys := ?n))(a := 0)"
    "nd_prev m' = (if zs = [] then nd_prev m else (nd_prev m)(hd zs := ?p))(a := 0)" "nd_order m' = nd_order m"
    "l' = l\<lparr>fl_head := (if ys = [] then ?n else fl_head l), fl_tail := (if zs = [] then ?p else fl_tail l),
       fl_count := length (ys @ zs)\<rparr>"
    using r p n ga gl gh cnt
    by (cases "ys = []"; cases "zs = []"; auto simp: buddy_list_remove_def Let_def get_next_def get_prev_def)+
  have "dseg act m' 0 (fl_head l') ys ?n ?p"
  proof (cases ys rule: rev_cases)
    case Nil
    then show ?thesis using p by (simp add: m')
  next
    case (snoc us c)
    have eq: "a \<notin> set zs" "c \<notin> set zs" "set us \<inter> set zs = {}" "a \<noteq> c" "a \<notin> set us" using d snoc by auto
    have "dseg act m' 0 (fl_head l) (us @ [c]) ?n ?p"
      by (rule dseg_relink_last [of act m _ _ _ _ "?v a"]) (use left snoc d eq hd_in_set [of zs] in \<open>auto simp: m'\<close>)
    then show ?thesis using snoc by (simp add: m')
  qed
  moreover have "dseg act m' ?p ?n zs 0 (fl_tail l')"
  proof (cases zs)
    case Nil
    then show ?thesis using n by (simp add: m')
  next
    case (Cons c us)
    have last: "ys \<noteq> [] \<Longrightarrow> last ys \<noteq> c" "ys \<noteq> [] \<Longrightarrow> last ys \<notin> set us"
      using d Cons last_in_set [of ys] by (auto simp: disjoint_iff)
    have "dseg act m' ?p ?n (c # us) 0 (fl_tail l)"
      by (rule dseg_relink_first [of act m "?v a"]) (use right Cons d last in \<open>auto simp: m'\<close>)
    then show ?thesis using Cons by (simp add: m')
  qed
  ultimately show "fl_ok act m' l' (ys @ zs)" using d g by (auto simp: fl_ok_def dseg_append m')
  show "nd_order m' = nd_order m" by (rule m'(3))
  show "nd_next m' b = nd_next m b \<and> nd_prev m' b = nd_prev m b" if "b \<notin> set (ys @ a # zs)"
  proof -
    have "b \<noteq> a" "ys \<noteq> [] \<Longrightarrow> b \<noteq> last ys" "zs \<noteq> [] \<Longrightarrow> b \<noteq> hd zs" using that by auto
    then show ?thesis by (simp add: m')
  qed
qed

section \<open>Rebasing\<close>

text \<open>The pointers of the nodes in \<open>S\<close> move from physical addresses to the pull map, NULL stays.\<close>

definition rebased :: "nat \<Rightarrow> nat" where
  "rebased p = (if p = 0 then 0 else vmm_phys_to_virt True p)"

lemma rebased_virt: "good_addr a \<Longrightarrow> rebased (vmm_phys_to_virt False a) = vmm_phys_to_virt True a"
  by (simp add: rebased_def vmm_phys_to_virt_def good_addr_def)

lemma rebase_node_fields:
  assumes "good_addr a"
  shows "nd_next (rebase_node (vmm_phys_to_virt True a) m) = (nd_next m)(a := rebased (nd_next m a))"
    "nd_prev (rebase_node (vmm_phys_to_virt True a) m) = (nd_prev m)(a := rebased (nd_prev m a))"
    "nd_order (rebase_node (vmm_phys_to_virt True a) m) = nd_order m"
  using assms
  by (auto simp: rebase_node_def Let_def get_next_def get_prev_def rebased_def fun_eq_iff)

definition moved :: "nat set \<Rightarrow> BuddyFreeNodes \<Rightarrow> BuddyFreeNodes \<Rightarrow> bool" where
  "moved S m m' \<longleftrightarrow> nd_order m' = nd_order m \<and>
     (\<forall>a. nd_next m' a = (if a \<in> S then rebased (nd_next m a) else nd_next m a) \<and>
          nd_prev m' a = (if a \<in> S then rebased (nd_prev m a) else nd_prev m a))"

lemma moved_trans: "moved S m m1 \<Longrightarrow> moved S' m1 m2 \<Longrightarrow> S \<inter> S' = {} \<Longrightarrow> moved (S \<union> S') m m2"
  by (auto simp: moved_def disjoint_iff)

lemma dseg_moved:
  "dseg False m pr h xs nx t \<Longrightarrow> moved S m m' \<Longrightarrow> set xs \<subseteq> S \<Longrightarrow> \<forall>a\<in>set xs. good_addr a \<Longrightarrow>
     dseg True m' (rebased pr) (rebased h) xs (rebased nx) (rebased t)"
proof (induction xs arbitrary: pr h)
  case (Cons a as)
  then have "dseg True m' (rebased (vmm_phys_to_virt False a)) (rebased (nd_next m a)) as (rebased nx) (rebased t)" by simp
  then show ?case using Cons.prems by (simp add: rebased_virt moved_def)
qed simp

lemma rebase_walk_ok:
  "dseg False m pr h xs 0 t \<Longrightarrow> distinct xs \<Longrightarrow> \<forall>a\<in>set xs. good_addr a \<Longrightarrow> last' = rebased pr \<Longrightarrow>
     \<exists>m'. rebase_walk m (rebased h) last' = Some (m', rebased t) \<and> moved (set xs) m m'"
proof (induction xs arbitrary: m pr h last')
  case Nil
  then show ?case by (subst rebase_walk.simps) (simp add: rebased_def moved_def)
next
  case (Cons a as)
  let ?m = "rebase_node (vmm_phys_to_virt True a) m"
  have ga: "good_addr a" using Cons.prems by simp
  have h: "rebased h = vmm_phys_to_virt True a" "rebased h \<noteq> 0" using Cons.prems ga rebased_virt by auto
  have "moved {a} m ?m" by (simp add: moved_def rebase_node_fields [OF ga])
  moreover have "dseg False ?m (vmm_phys_to_virt False a) (nd_next m a) as 0 t"
    by (rule dseg_frame [of _ m]) (use Cons.prems rebase_node_fields [OF ga, of m] in auto)
  then obtain m' where w: "rebase_walk ?m (rebased (nd_next m a)) (rebased h) = Some (m', rebased t)" "moved (set as) ?m m'"
    using Cons.IH [of ?m "vmm_phys_to_virt False a" "nd_next m a" "rebased h"] Cons.prems rebased_virt [OF ga] h by auto
  ultimately have "moved (set (a # as)) m m'" using moved_trans [of "{a}" m ?m "set as" m'] Cons.prems by simp
  moreover have "rebase_walk m (rebased h) last' = Some (m', rebased t)"
    using w(1) h ga virt_nonnull [OF ga, of True]
    by (subst rebase_walk.simps) (simp add: Let_def get_next_def rebase_node_fields del: virt_nonnull)
  ultimately show ?case by blast
qed

lemma rebase_list_ok:
  assumes "fl_ok False m l xs"
  shows "\<exists>m' l'. rebase_list m l = Some (m', l') \<and> moved (set xs) m m' \<and> fl_ok True m' l' xs"
proof (cases "xs = []")
  case True
  then show ?thesis using assms by (auto simp: rebase_list_def fl_ok_def moved_def)
next
  case False
  have h: "fl_head l = vmm_phys_to_virt False (hd xs)" "good_addr (hd xs)"
    using False fl_ok_head [OF assms] assms by (auto simp: fl_ok_def)
  then have h': "vmm_phys_to_virt True (fl_head l) = rebased (fl_head l)" "fl_head l \<noteq> 0"
    by (auto simp: rebased_def vmm_phys_to_virt_def good_addr_def)
  obtain m' where w: "rebase_walk m (rebased (fl_head l)) 0 = Some (m', rebased (fl_tail l))" "moved (set xs) m m'"
    using rebase_walk_ok [of m 0 "fl_head l" xs "fl_tail l" 0] assms by (auto simp: fl_ok_def rebased_def)
  have "dseg True m' (rebased 0) (rebased (fl_head l)) xs (rebased 0) (rebased (fl_tail l))"
    by (rule dseg_moved [OF _ w(2)]) (use assms in \<open>auto simp: fl_ok_def\<close>)
  then have "fl_ok True m' (l\<lparr>fl_head := rebased (fl_head l), fl_tail := rebased (fl_tail l)\<rparr>) xs"
    using assms by (simp add: fl_ok_def rebased_def)
  then show ?thesis using w h' by (simp add: rebase_list_def)
qed

lemma fl_ok_moved: "fl_ok act m l xs \<Longrightarrow> moved S m m' \<Longrightarrow> set xs \<inter> S = {} \<Longrightarrow> fl_ok act m' l xs"
  by (erule fl_ok_frame) (auto simp: moved_def)

lemma rebase_lists_ok:
  assumes "list_all2 (fl_ok False m) ls xss" "distinct (concat xss)"
  shows "\<exists>m' ls'. rebase_lists m ls = Some (m', ls') \<and> moved (set (concat xss)) m m' \<and> list_all2 (fl_ok True m') ls' xss"
  using assms
proof (induction ls arbitrary: m xss)
  case Nil
  then show ?case by (simp add: moved_def)
next
  case (Cons l ls)
  then obtain xs yss where xss: "xss = xs # yss" "fl_ok False m l xs" "list_all2 (fl_ok False m) ls yss"
    by (auto simp: list_all2_Cons1)
  obtain m1 l1 where r: "rebase_list m l = Some (m1, l1)" "moved (set xs) m m1" "fl_ok True m1 l1 xs"
    using rebase_list_ok [OF xss(2)] by blast
  have dis: "set xs \<inter> set (concat yss) = {}" "distinct (concat yss)" using Cons.prems(2) xss(1) by auto
  have "list_all2 (fl_ok False m1) ls yss"
    using xss(3)
  proof (rule list.rel_mono_strong)
    fix l' ys
    assume "ys \<in> set yss" "fl_ok False m l' ys"
    moreover have "set ys \<inter> set xs = {}" using dis(1) \<open>ys \<in> set yss\<close> by auto
    ultimately show "fl_ok False m1 l' ys" using fl_ok_moved [OF _ r(2)] by blast
  qed
  then obtain m2 ls2 where r2: "rebase_lists m1 ls = Some (m2, ls2)" "moved (set (concat yss)) m1 m2"
      "list_all2 (fl_ok True m2) ls2 yss"
    using Cons.IH [of m1 yss] dis(2) by blast
  have "moved (set (concat xss)) m m2" using moved_trans [OF r(2) r2(2) dis(1)] xss(1) by simp
  moreover have "fl_ok True m2 l1 xs" by (rule fl_ok_moved [OF r(3) r2(2) dis(1)])
  ultimately show ?case using r(1) r2 xss(1) by simp
qed

section \<open>The zone's lists\<close>

text \<open>
  The relation between the two views of a zone: list \<open>o\<close> at the pointers is list \<open>o\<close> of theory
  Buddy, and the order bytes of the nodes are the same memory.
\<close>

definition lists_refine :: "bool \<Rightarrow> BuddyFreeNodes \<Rightarrow> BuddyFreeList list \<Rightarrow> BuddyZone \<Rightarrow> bool" where
  "lists_refine act m ls z \<longleftrightarrow> list_all2 (fl_ok act m) ls (bz_free_lists z) \<and> nd_order m = bz_node_order z"

lemma lists_refineD:
  assumes "lists_refine act m ls z" "lists_ok z" "o' \<le> BUDDY_MAX_ORDER"
  shows "length ls = BUDDY_MAX_ORDER + 1" "fl_ok act m (ls ! o') (bz_free_lists z ! o')"
proof -
  have a: "list_all2 (fl_ok act m) ls (bz_free_lists z)" using assms(1) by (simp add: lists_refine_def)
  then show "length ls = BUDDY_MAX_ORDER + 1" using list_all2_lengthD assms(2) by (fastforce simp: lists_ok_def)
  then show "fl_ok act m (ls ! o') (bz_free_lists z ! o')" using list_all2_nthD [OF a] assms(3) by simp
qed

lemma lists_apart:
  assumes "lists_ok z" "in_list z o1 a" "in_list z o2 a"
  shows "o1 = o2"
proof (rule ccontr)
  assume "o1 \<noteq> o2"
  then have "span z o1 a \<inter> span z o2 a = {}" using assms unfolding lists_ok_def by blast
  moreover have "page_index z a \<in> span z o1 a \<inter> span z o2 a" by (simp add: span_def)
  ultimately show False by blast
qed

lemma lists_distinct:
  assumes "lists_ok z"
  shows "distinct (concat (bz_free_lists z))"
proof (rule distinct_concat_nth)
  have len: "length (bz_free_lists z) = BUDDY_MAX_ORDER + 1" using assms by (simp add: lists_ok_def)
  show "distinct (bz_free_lists z ! i)" if "i < length (bz_free_lists z)" for i
    using assms that len by (simp add: lists_ok_def)
  show "set (bz_free_lists z ! i) \<inter> set (bz_free_lists z ! j) = {}"
    if "i < length (bz_free_lists z)" "j < length (bz_free_lists z)" "i \<noteq> j" for i j
    using lists_apart [OF assms, of i _ j] that len by (auto simp: in_list_def)
qed

lemma replace_list:
  assumes "lists_refine act m ls z" "lists_ok z" "o' \<le> BUDDY_MAX_ORDER"
    and "fl_ok act m' l' xs'" "bz_free_lists z' = (bz_free_lists z)[o' := xs']" "nd_order m' = bz_node_order z'"
    and "\<And>o2 b. o2 \<noteq> o' \<Longrightarrow> in_list z o2 b \<Longrightarrow> nd_next m' b = nd_next m b \<and> nd_prev m' b = nd_prev m b"
  shows "lists_refine act m' (ls[o' := l']) z'"
proof -
  have len: "length ls = BUDDY_MAX_ORDER + 1" "length (bz_free_lists z) = BUDDY_MAX_ORDER + 1"
    using lists_refineD(1) [OF assms(1-3)] assms(2) by (auto simp: lists_ok_def)
  have "fl_ok act m' (ls[o' := l'] ! i) (bz_free_lists z' ! i)" if i: "i < length ls" for i
  proof (cases "i = o'")
    case True
    then show ?thesis using assms(3,4,5) len by simp
  next
    case False
    have "fl_ok act m (ls ! i) (bz_free_lists z ! i)" using lists_refineD(2) [OF assms(1,2)] i len by simp
    then have "fl_ok act m' (ls ! i) (bz_free_lists z ! i)"
      by (rule fl_ok_frame) (use assms(7) [OF False] i len in \<open>simp add: in_list_def\<close>)
    then show ?thesis using False assms(5) by simp
  qed
  then show ?thesis using assms(5,6) len by (simp add: lists_refine_def list_all2_conv_all_nth)
qed


lemma insert_refines:
  assumes "lists_refine act m ls z" "lists_ok z" "o' \<le> BUDDY_MAX_ORDER"
    and "good_addr a" "\<And>o2. \<not> in_list z o2 a"
    and "buddy_list_insert m (ls ! o') (vmm_phys_to_virt act a) o' = (m', l')"
  shows "lists_refine act m' (ls[o' := l']) (list_insert z o' a)"
proof (rule replace_list [OF assms(1-3)])
  have new: "a \<notin> set (bz_free_lists z ! o')" using assms(3) assms(5) [of o'] by (simp add: in_list_def)
  note i = insert_ok [OF lists_refineD(2) [OF assms(1-3)] assms(4) new assms(6)]
  show "fl_ok act m' l' (bz_free_lists z ! o' @ [a])" by (rule i(1))
  show "nd_order m' = bz_node_order (list_insert z o' a)"
    using i(2) assms(1) by (simp add: list_insert_def lists_refine_def)
  show "nd_next m' b = nd_next m b \<and> nd_prev m' b = nd_prev m b" if "o2 \<noteq> o'" "in_list z o2 b" for o2 b
  proof (rule i(3))
    show "b \<noteq> a" using that assms(5) by blast
    show "b \<notin> set (bz_free_lists z ! o')" using lists_apart [OF assms(2) that(2), of o'] that(1) assms(3)
      by (auto simp: in_list_def)
  qed
qed (simp add: list_insert_def)

lemma remove_refines:
  assumes "lists_refine act m ls z" "lists_ok z" "in_list z o' a"
    and "buddy_list_remove m (ls ! o') (vmm_phys_to_virt act a) = (m', l')"
  shows "lists_refine act m' (ls[o' := l']) (list_remove z o' a)"
proof -
  have o: "o' \<le> BUDDY_MAX_ORDER" and a: "a \<in> set (bz_free_lists z ! o')" using assms(3) by (auto simp: in_list_def)
  obtain ys zs where xs: "bz_free_lists z ! o' = ys @ a # zs" "a \<notin> set ys" using split_list_first [OF a] by blast
  have ok: "fl_ok act m (ls ! o') (ys @ a # zs)" using lists_refineD(2) [OF assms(1,2) o] xs by simp
  note r = remove_ok [OF ok assms(4)]
  show ?thesis
  proof (rule replace_list [OF assms(1,2) o])
    show "fl_ok act m' l' (ys @ zs)" by (rule r(1))
    show "bz_free_lists (list_remove z o' a) = (bz_free_lists z)[o' := ys @ zs]"
      using xs by (simp add: list_remove_def remove1_append)
    show "nd_order m' = bz_node_order (list_remove z o' a)"
      using r(2) assms(1) by (simp add: list_remove_def lists_refine_def)
    show "nd_next m' b = nd_next m b \<and> nd_prev m' b = nd_prev m b" if "o2 \<noteq> o'" "in_list z o2 b" for o2 b
    proof (rule r(3))
      show "b \<notin> set (ys @ a # zs)" using lists_apart [OF assms(2) that(2), of o'] that(1) o xs(1)
        by (auto simp: in_list_def)
    qed
  qed
qed

text \<open>A zone for the witnesses: four pages at 4096, the first and the third of them free.\<close>

definition pair_zone :: BuddyZone where
  "pair_zone = \<lparr>bz_base = 4096, bz_total_pages = 4, bz_alloc_map = [0xFA],
     bz_free_lists = [4096, 12288] # replicate BUDDY_MAX_ORDER [], bz_free_count = 2, bz_initialized = True,
     bz_node_order = (\<lambda>_. 0)\<rparr>"

definition pair_nodes :: BuddyFreeNodes where
  "pair_nodes = \<lparr>nd_next = (\<lambda>_. 0)(4096 := 12288), nd_prev = (\<lambda>_. 0)(12288 := 4096), nd_order = (\<lambda>_. 0)\<rparr>"

definition pair_lists :: "BuddyFreeList list" where
  "pair_lists = \<lparr>fl_head = 4096, fl_tail = 12288, fl_count = 2\<rparr> #
     replicate BUDDY_MAX_ORDER \<lparr>fl_head = 0, fl_tail = 0, fl_count = 0\<rparr>"

lemma pair_in_list: "in_list pair_zone o' a \<longleftrightarrow> o' = 0 \<and> (a = 4096 \<or> a = 12288)"
  by (cases o') (auto simp: in_list_def pair_zone_def)

lemma pair_ok: "lists_ok pair_zone"
proof -
  have b: "bz_base pair_zone = 4096" "bz_total_pages pair_zone = 4" "bz_node_order pair_zone = (\<lambda>_. 0)"
    "bz_free_lists pair_zone = [4096, 12288] # replicate BUDDY_MAX_ORDER []" by (simp_all add: pair_zone_def)
  have "is_block pair_zone 0 4096" unfolding is_block_def b
    by (auto simp: BUDDY_PAGE_SIZE_def intro: exI [of _ 0])
  moreover have "is_block pair_zone 0 12288" unfolding is_block_def b
    by (auto simp: BUDDY_PAGE_SIZE_def intro!: exI [of _ 2])
  moreover have "distinct (bz_free_lists pair_zone ! o')" if "o' \<le> BUDDY_MAX_ORDER" for o'
    using that by (cases o') (auto simp: b)
  ultimately show ?thesis
    by (auto simp: lists_ok_def pair_in_list b span_def page_index_def BUDDY_PAGE_SIZE_def)
qed

lemma pair_refine: "lists_refine False pair_nodes pair_lists pair_zone"
proof -
  have "list_all2 (fl_ok False pair_nodes) (replicate n \<lparr>fl_head = 0, fl_tail = 0, fl_count = 0\<rparr>) (replicate n [])" for n
    by (induction n) (auto simp: fl_ok_def)
  then show ?thesis
    by (simp add: lists_refine_def pair_zone_def pair_lists_def)
      (simp add: pair_nodes_def fl_ok_def vmm_phys_to_virt_def good_addr_def PULL_MAP_BASE_def)
qed

section \<open>Properties\<close>

text \<open>
  C24. The pointer operations on the doubly linked free lists refine the list operations the
  allocator is verified with: at every order, inserting a node appends its page and removing a node
  takes its page out, the other lists are untouched, and the head pointer is NULL exactly for an
  empty list and otherwise leads to its first page. This holds before and after the pull map is active,
  for pages the pull map reaches: below 0x780000000000, where adding its base does not wrap round.
\<close>

theorem free_lists_refine:
  assumes "lists_refine act m ls z" and "lists_ok z" and "o' \<le> BUDDY_MAX_ORDER"
  shows "(good_addr a \<and> (\<forall>o2. \<not> in_list z o2 a) \<longrightarrow>
      (case buddy_list_insert m (ls ! o') (vmm_phys_to_virt act a) o' of (m', l') \<Rightarrow>
        lists_refine act m' (ls[o' := l']) (list_insert z o' a))) \<and>
    (in_list z o' a \<longrightarrow>
      (case buddy_list_remove m (ls ! o') (vmm_phys_to_virt act a) of (m', l') \<Rightarrow>
        lists_refine act m' (ls[o' := l']) (list_remove z o' a))) \<and>
    (if bz_free_lists z ! o' = [] then fl_head (ls ! o') = 0
     else fl_head (ls ! o') \<noteq> 0 \<and> vmm_virt_to_phys_direct (fl_head (ls ! o')) = hd (bz_free_lists z ! o'))"
proof (intro conjI impI)
  assume "good_addr a \<and> (\<forall>o2. \<not> in_list z o2 a)"
  then show "case buddy_list_insert m (ls ! o') (vmm_phys_to_virt act a) o' of (m', l') \<Rightarrow>
      lists_refine act m' (ls[o' := l']) (list_insert z o' a)"
    using insert_refines [OF assms] by (auto split: prod.split)
next
  assume "in_list z o' a"
  then show "case buddy_list_remove m (ls ! o') (vmm_phys_to_virt act a) of (m', l') \<Rightarrow>
      lists_refine act m' (ls[o' := l']) (list_remove z o' a)"
    using remove_refines [OF assms(1,2)] by (auto split: prod.split)
next
  have ok: "fl_ok act m (ls ! o') (bz_free_lists z ! o')" by (rule lists_refineD(2) [OF assms])
  then have "bz_free_lists z ! o' \<noteq> [] \<Longrightarrow> good_addr (hd (bz_free_lists z ! o'))" by (auto simp: fl_ok_def)
  then show "if bz_free_lists z ! o' = [] then fl_head (ls ! o') = 0
     else fl_head (ls ! o') \<noteq> 0 \<and> vmm_virt_to_phys_direct (fl_head (ls ! o')) = hd (bz_free_lists z ! o')"
    using fl_ok_head [OF ok] virt_nonnull by (auto simp del: virt_nonnull)
qed

theorem free_lists_refine_witness:
  "case buddy_list_remove pair_nodes (pair_lists ! 0) 4096 of (m', l') \<Rightarrow>
     lists_refine False m' (pair_lists[0 := l']) (list_remove pair_zone 0 4096) \<and> fl_head l' = 12288"
proof -
  obtain m' l' where r: "buddy_list_remove pair_nodes (pair_lists ! 0) 4096 = (m', l')" by fastforce
  then have "lists_refine False m' (pair_lists[0 := l']) (list_remove pair_zone 0 4096)"
    using free_lists_refine [OF pair_refine pair_ok, of 0 4096] by (simp add: pair_in_list vmm_phys_to_virt_def)
  moreover have "fl_head l' = 12288"
    using r by (auto simp: buddy_list_remove_def pair_nodes_def pair_lists_def get_prev_def get_next_def
      set_next_def set_prev_def vmm_virt_to_phys_direct_def PULL_MAP_BASE_def VMM_KERNEL_BASE_def)
  ultimately show ?thesis using r by simp
qed

text \<open>
  C34. \<^verbatim>\<open>buddy_activate_pull_map\<close> returns: its pointer-chasing loops end on every well-formed zone
  although they overwrite the links they follow, and afterwards every list holds the same pages in the
  same order, reachable through pull-map addresses in both directions. The pages of a well-formed zone
  lie below 0x780000000000, where adding the base of the pull map at 64 bits does not wrap round.
\<close>

theorem pull_map_activation:
  assumes "lists_refine False m (pz_free_lists zone) z" and "lists_ok z"
  shows "\<exists>m' zone'. buddy_activate_pull_map m zone = Some (m', zone') \<and>
    lists_refine True m' (pz_free_lists zone') z \<and>
    pz_alloc_map zone' = vmm_phys_to_virt True (pz_alloc_map_phys zone)"
proof -
  obtain m' ls' where "rebase_lists m (pz_free_lists zone) = Some (m', ls')"
      "moved (set (concat (bz_free_lists z))) m m'" "list_all2 (fl_ok True m') ls' (bz_free_lists z)"
    using rebase_lists_ok [OF _ lists_distinct [OF assms(2)]] assms(1) unfolding lists_refine_def by blast
  then show ?thesis using assms(1)
    by (simp add: buddy_activate_pull_map_def lists_refine_def moved_def)
qed

theorem pull_map_activation_witness:
  "\<exists>m' zone'. buddy_activate_pull_map pair_nodes
     \<lparr>pz_alloc_map = 0x100000, pz_alloc_map_phys = 0x100000, pz_free_lists = pair_lists\<rparr> = Some (m', zone') \<and>
     lists_refine True m' (pz_free_lists zone') pair_zone"
  using pull_map_activation [of pair_nodes "\<lparr>pz_alloc_map = 0x100000, pz_alloc_map_phys = 0x100000,
    pz_free_lists = pair_lists\<rparr>" pair_zone] pair_refine pair_ok by auto

end
