(* ===== verification/Fifo.thy ===== *)
theory Fifo
  imports Prelude
begin

text \<open>
  The contract of a first-in first-out queue. Two components provide it in different ways: the
  ready queue (a linked list through the process structures) and the scheduler's per-priority
  queues (ring buffers that grow and shrink). \<open>push\<close> may refuse an element; the state is then
  unchanged. The client lemmas are about any history of pushes and pops.
\<close>

datatype 'a queue_op = Push 'a | Pop

locale fifo =
  fixes ok :: "'s \<Rightarrow> bool"
    and contents :: "'s \<Rightarrow> 'a list"
    and push :: "'a \<Rightarrow> 's \<Rightarrow> 's option"
    and pop :: "'s \<Rightarrow> ('a \<times> 's) option"
  assumes push_law: "ok s \<Longrightarrow> push x s = Some s' \<Longrightarrow> ok s' \<and> contents s' = contents s @ [x]"
    and pop_empty: "ok s \<Longrightarrow> pop s = None \<longleftrightarrow> contents s = []"
    and pop_law: "ok s \<Longrightarrow> pop s = Some (x, s') \<Longrightarrow> ok s' \<and> contents s = x # contents s'"
begin

text \<open>A history: the elements accepted and the elements delivered, in order.\<close>

primrec history :: "'a queue_op list \<Rightarrow> 's \<Rightarrow> 'a list \<times> 'a list \<times> 's" where
  "history [] s = ([], [], s)"
| "history (oper # opers) s =
     (case oper of
        Push x \<Rightarrow> (case push x s of
            None \<Rightarrow> history opers s
          | Some s1 \<Rightarrow> (case history opers s1 of (i, d, s2) \<Rightarrow> (x # i, d, s2)))
      | Pop \<Rightarrow> (case pop s of
            None \<Rightarrow> history opers s
          | Some (x, s1) \<Rightarrow> (case history opers s1 of (i, d, s2) \<Rightarrow> (i, x # d, s2))))"

lemma history_fifo:
  "ok s \<Longrightarrow> history opers s = (accepted, delivered, s') \<Longrightarrow>
     ok s' \<and> contents s @ accepted = delivered @ contents s'"
proof (induction opers arbitrary: s accepted delivered)
  case (Cons oper opers)
  show ?case
  proof (cases oper)
    case (Push x)
    show ?thesis
    proof (cases "push x s")
      case None
      then show ?thesis using Cons Push by simp
    next
      case (Some s1)
      then show ?thesis using Cons.IH [of s1] Cons.prems push_law [OF Cons.prems(1) Some] Push
        by (auto split: prod.splits)
    qed
  next
    case Pop
    show ?thesis
    proof (cases "pop s")
      case None
      then show ?thesis using Cons Pop by simp
    next
      case (Some r)
      obtain x s1 where r: "r = (x, s1)" by (cases r)
      then show ?thesis using Cons.IH [of s1] Cons.prems pop_law [of s x s1] Pop Some
        by (auto split: prod.splits)
    qed
  qed
qed simp

lemma drain: "ok s \<Longrightarrow> history (replicate (length (contents s)) Pop) s = ([], d, s') \<Longrightarrow> d = contents s \<and> contents s' = []"
proof (induction "contents s" arbitrary: s d)
  case Nil
  then show ?case using Nil.hyps [symmetric] by auto
next
  case (Cons x xs)
  then have "pop s \<noteq> None" using pop_empty [of s] by auto
  then obtain y s1 where p: "pop s = Some (y, s1)" by auto
  then have s1: "ok s1" "contents s = y # contents s1" using pop_law Cons.prems(1) by auto
  then have xs: "xs = contents s1" "x = y" using Cons.hyps(2) by auto
  obtain d1 where "history (replicate (length (contents s1)) Pop) s1 = ([], d1, s')" "d = y # d1"
    using Cons.prems(2) p s1 by (auto split: prod.splits)
  then show ?case using Cons.hyps(1) [OF xs(1) s1(1)] s1(2) by auto
qed

end

end
