(* ===== verification/ReadyQueue.thy ===== *)
theory ReadyQueue
  imports Fifo
begin

text \<open>
  The global ready queue, kernel/core/ready\_queue.c: a singly linked list threaded through the
  process structures (\<^verbatim>\<open>ready_next\<close>), with a flag per process (\<^verbatim>\<open>in_ready\<close>) that is
  claimed by compare-and-swap before the lock is taken and released after it is dropped. A process
  pointer is a natural number. The six atomic actions of push and pop are separate definitions: the
  accesses outside the lock are one action each, the section under the lock is one action. The sequential
  operations compose them, and the step relation interleaves them.
\<close>

section \<open>State and actions\<close>

record ReadyQueue =
  rq_head :: "nat option"
  rq_tail :: "nat option"
  rq_count :: u32
  ready_next :: "nat \<Rightarrow> nat option"
  in_ready :: "nat \<Rightarrow> bool"

definition ready_queue_init :: "ReadyQueue \<Rightarrow> ReadyQueue" where
  "ready_queue_init rq = rq\<lparr>rq_head := None, rq_tail := None, rq_count := 0\<rparr>"

text \<open>Push: the compare-and-swap on \<^verbatim>\<open>in_ready\<close>, the reset of \<^verbatim>\<open>ready_next\<close>, then the locked section.\<close>

definition push_claim :: "nat \<Rightarrow> ReadyQueue \<Rightarrow> ReadyQueue option" where
  "push_claim proc rq =
     (if in_ready rq proc then None
      else Some (rq\<lparr>in_ready := (in_ready rq)(proc := True)\<rparr>))"

definition push_reset :: "nat \<Rightarrow> ReadyQueue \<Rightarrow> ReadyQueue" where
  "push_reset proc rq = rq\<lparr>ready_next := (ready_next rq)(proc := None)\<rparr>"

definition push_link :: "nat \<Rightarrow> ReadyQueue \<Rightarrow> ReadyQueue" where
  "push_link proc rq =
     (let rq1 = (case rq_tail rq of
                   Some t \<Rightarrow> rq\<lparr>ready_next := (ready_next rq)(t := Some proc)\<rparr>
                 | None \<Rightarrow> rq\<lparr>rq_head := Some proc\<rparr>)
      in rq1\<lparr>rq_tail := Some proc, rq_count := rq_count rq1 + 1\<rparr>)"

text \<open>Pop: the locked section, the reset of \<^verbatim>\<open>ready_next\<close>, then the release of the flag.\<close>

definition pop_unlink :: "ReadyQueue \<Rightarrow> (nat \<times> ReadyQueue) option" where
  "pop_unlink rq =
     (case rq_head rq of
        None \<Rightarrow> None
      | Some proc \<Rightarrow>
          let rq1 = rq\<lparr>rq_head := ready_next rq proc\<rparr>;
              rq2 = (if rq_head rq1 = None then rq1\<lparr>rq_tail := None\<rparr> else rq1)
          in Some (proc, rq2\<lparr>rq_count := rq_count rq2 - 1\<rparr>))"

definition pop_reset :: "nat \<Rightarrow> ReadyQueue \<Rightarrow> ReadyQueue" where
  "pop_reset proc rq = rq\<lparr>ready_next := (ready_next rq)(proc := None)\<rparr>"

definition pop_release :: "nat \<Rightarrow> ReadyQueue \<Rightarrow> ReadyQueue" where
  "pop_release proc rq = rq\<lparr>in_ready := (in_ready rq)(proc := False)\<rparr>"

definition ready_queue_push :: "nat \<Rightarrow> ReadyQueue \<Rightarrow> ReadyQueue option" where
  "ready_queue_push proc rq = map_option (\<lambda>rq1. push_link proc (push_reset proc rq1)) (push_claim proc rq)"

definition ready_queue_pop :: "ReadyQueue \<Rightarrow> (nat \<times> ReadyQueue) option" where
  "ready_queue_pop rq = map_option (\<lambda>(proc, rq1). (proc, pop_release proc (pop_reset proc rq1))) (pop_unlink rq)"

definition ready_queue_is_empty :: "ReadyQueue \<Rightarrow> bool" where
  "ready_queue_is_empty rq \<longleftrightarrow> rq_head rq = None"

definition ready_queue_count :: "ReadyQueue \<Rightarrow> u32" where
  "ready_queue_count rq = rq_count rq"

section \<open>The list behind the pointers\<close>

fun chain :: "(nat \<Rightarrow> nat option) \<Rightarrow> nat option \<Rightarrow> nat list \<Rightarrow> bool" where
  "chain nx h [] = (h = None)"
| "chain nx h (p # ps) = (h = Some p \<and> chain nx (nx p) ps)"

lemma chain_unique: "chain nx h xs \<Longrightarrow> chain nx h ys \<Longrightarrow> xs = ys"
proof (induction xs arbitrary: h ys)
  case Nil
  then show ?case by (cases ys) auto
next
  case (Cons x xs)
  then show ?case by (cases ys) auto
qed

lemma chain_frame: "p \<notin> set xs \<Longrightarrow> chain (nx(p := v)) h xs = chain nx h xs"
  by (induction xs arbitrary: h) auto

lemma chain_append:
  "chain nx h (xs @ [t]) \<Longrightarrow> distinct (xs @ [t]) \<Longrightarrow> p \<notin> set (xs @ [t]) \<Longrightarrow> nx p = None \<Longrightarrow>
     chain (nx(t := Some p)) h (xs @ [t, p])"
  by (induction xs arbitrary: h) auto

text \<open>
  \<open>rq_ok rq xs busy\<close>: the queue holds \<open>xs\<close> in order, and the flag is set exactly for its
  members and for the processes in \<open>busy\<close> that some core is pushing or popping right now.
\<close>

definition rq_ok :: "ReadyQueue \<Rightarrow> nat list \<Rightarrow> nat set \<Rightarrow> bool" where
  "rq_ok rq xs busy \<longleftrightarrow> chain (ready_next rq) (rq_head rq) xs \<and> distinct xs \<and>
     rq_tail rq = (if xs = [] then None else Some (last xs)) \<and> rq_count rq = of_nat (length xs) \<and>
     set xs \<inter> busy = {} \<and> in_ready rq = (\<lambda>p. p \<in> set xs \<union> busy)"

lemma rq_okD:
  assumes "rq_ok rq xs busy"
  shows "chain (ready_next rq) (rq_head rq) xs" "distinct xs"
    "rq_tail rq = (if xs = [] then None else Some (last xs))" "rq_count rq = of_nat (length xs)"
    "set xs \<inter> busy = {}" "in_ready rq = (\<lambda>p. p \<in> set xs \<union> busy)"
  using assms by (simp_all add: rq_ok_def)

lemma push_claim_ok:
  assumes "rq_ok rq xs busy" "push_claim p rq = Some rq'"
  shows "rq_ok rq' xs (insert p busy)" "p \<notin> set xs \<union> busy" "ready_next rq' = ready_next rq"
proof -
  note d = rq_okD [OF assms(1)]
  have n: "\<not> in_ready rq p" and rq': "rq' = rq\<lparr>in_ready := (in_ready rq)(p := True)\<rparr>"
    using assms(2) by (auto simp: push_claim_def split: if_splits)
  from n show new: "p \<notin> set xs \<union> busy" by (simp add: d(6))
  show "ready_next rq' = ready_next rq" by (simp add: rq')
  show "rq_ok rq' xs (insert p busy)"
    using d(1-5) new unfolding rq' rq_ok_def d(6) by auto
qed

text \<open>A process that is not in the list may have its link reset, by its push or by its pop.\<close>

lemma reset_ok:
  assumes ok: "rq_ok rq xs busy" and busy: "p \<in> busy"
  shows "rq_ok (rq\<lparr>ready_next := (ready_next rq)(p := None)\<rparr>) xs busy"
proof -
  have "p \<notin> set xs" using rq_okD(5) [OF ok] busy by blast
  then show ?thesis using ok chain_frame [of p xs "ready_next rq" None] by (simp add: rq_ok_def)
qed

lemmas push_reset_ok = reset_ok [folded push_reset_def]
lemmas pop_reset_ok = reset_ok [folded pop_reset_def]

lemma push_link_ok:
  assumes ok: "rq_ok rq xs busy" and busy: "p \<in> busy" and nx: "ready_next rq p = None"
  shows "rq_ok (push_link p rq) (xs @ [p]) (busy - {p})"
proof -
  note d = rq_okD [OF ok]
  have new: "p \<notin> set xs" using d(5) busy by blast
  have flag: "in_ready (push_link p rq) = (\<lambda>q. q \<in> set (xs @ [p]) \<union> (busy - {p}))"
    using busy by (auto simp: push_link_def d(6) split: option.splits)
  have rest: "rq_tail (push_link p rq) = Some p" "rq_count (push_link p rq) = of_nat (length (xs @ [p]))"
    using d(4) by (simp_all add: push_link_def split: option.splits)
  have "chain (ready_next (push_link p rq)) (rq_head (push_link p rq)) (xs @ [p])"
  proof (cases xs rule: rev_cases)
    case Nil
    then show ?thesis using d(3) nx by (simp add: push_link_def)
  next
    case (snoc ys t)
    have "chain ((ready_next rq)(t := Some p)) (rq_head rq) (ys @ [t, p])"
      using d(1,2) new nx unfolding snoc by (rule chain_append)
    then show ?thesis using d(3) snoc by (simp add: push_link_def)
  qed
  then show ?thesis using d(2,5) new flag rest by (auto simp: rq_ok_def)
qed

lemma pop_unlink_ok:
  assumes ok: "rq_ok rq xs busy"
  shows "pop_unlink rq = None \<longleftrightarrow> xs = []"
    "pop_unlink rq = Some (p, rq') \<Longrightarrow> \<exists>ys. xs = p # ys \<and> rq_ok rq' ys (insert p busy)"
proof -
  note d = rq_okD [OF ok]
  show "pop_unlink rq = None \<longleftrightarrow> xs = []"
    using d(1) by (cases xs) (simp_all add: pop_unlink_def Let_def)
  assume p: "pop_unlink rq = Some (p, rq')"
  then obtain ys where xs: "xs = p # ys" using d(1) by (cases xs) (auto simp: pop_unlink_def Let_def)
  have rq': "rq' = rq\<lparr>rq_head := ready_next rq p, rq_tail := (if ready_next rq p = None then None else rq_tail rq),
      rq_count := rq_count rq - 1\<rparr>"
    using p d(1) xs by (cases "ready_next rq p") (auto simp: pop_unlink_def Let_def)
  have c: "chain (ready_next rq) (ready_next rq p) ys" using d(1) xs by simp
  then have e: "ready_next rq p = None \<longleftrightarrow> ys = []" by (cases ys) auto
  have "rq_ok rq' ys (insert p busy)"
    unfolding rq_ok_def using c d(2-5) xs by (auto simp: rq' e d(6))
  then show "\<exists>ys. xs = p # ys \<and> rq_ok rq' ys (insert p busy)" using xs by blast
qed

lemma pop_release_ok:
  assumes ok: "rq_ok rq xs busy" and busy: "p \<in> busy"
  shows "rq_ok (pop_release p rq) xs (busy - {p})"
proof -
  note d = rq_okD [OF ok]
  have new: "p \<notin> set xs" using d(5) busy by blast
  have "(\<lambda>q. q \<in> set xs \<union> busy)(p := False) = (\<lambda>q. q \<in> set xs \<union> (busy - {p}))"
    using new by (auto simp: fun_eq_iff)
  then show ?thesis using d(1-5) unfolding rq_ok_def pop_release_def by (auto simp: d(6))
qed

section \<open>Sequential use: a queue\<close>

definition rq_list :: "ReadyQueue \<Rightarrow> nat list" where
  "rq_list rq = (THE xs. chain (ready_next rq) (rq_head rq) xs)"

definition rq_quiet :: "ReadyQueue \<Rightarrow> bool" where
  "rq_quiet rq \<longleftrightarrow> (\<exists>xs. rq_ok rq xs {})"

lemma rq_list_eq: "rq_ok rq xs busy \<Longrightarrow> rq_list rq = xs"
  unfolding rq_list_def rq_ok_def by (rule the_equality) (auto dest: chain_unique)

interpretation ready: fifo rq_quiet rq_list ready_queue_push ready_queue_pop
proof unfold_locales
  fix rq p rq'
  assume q: "rq_quiet rq" and p: "ready_queue_push p rq = Some rq'"
  obtain xs where ok: "rq_ok rq xs {}" using q by (auto simp: rq_quiet_def)
  obtain rq1 where c: "push_claim p rq = Some rq1" "rq' = push_link p (push_reset p rq1)"
    using p by (auto simp: ready_queue_push_def)
  have k: "rq_ok (push_reset p rq1) xs {p}" by (rule push_reset_ok [OF push_claim_ok(1) [OF ok c(1)]]) simp
  have "rq_ok rq' (xs @ [p]) {}" using push_link_ok [OF k] c(2) by (simp add: push_reset_def)
  then show "rq_quiet rq' \<and> rq_list rq' = rq_list rq @ [p]"
    using rq_list_eq [OF ok] rq_list_eq by (auto simp: rq_quiet_def)
next
  fix rq assume "rq_quiet rq"
  then obtain xs where ok: "rq_ok rq xs {}" by (auto simp: rq_quiet_def)
  show "ready_queue_pop rq = None \<longleftrightarrow> rq_list rq = []"
    using pop_unlink_ok(1) [OF ok] rq_list_eq [OF ok] by (simp add: ready_queue_pop_def)
next
  fix rq p rq'
  assume q: "rq_quiet rq" and p: "ready_queue_pop rq = Some (p, rq')"
  obtain xs where ok: "rq_ok rq xs {}" using q by (auto simp: rq_quiet_def)
  obtain rq1 where u: "pop_unlink rq = Some (p, rq1)" "rq' = pop_release p (pop_reset p rq1)"
    using p by (auto simp: ready_queue_pop_def)
  obtain ys where ys: "xs = p # ys" "rq_ok rq1 ys {p}" using pop_unlink_ok(2) [OF ok u(1)] by auto
  have "rq_ok rq' ys {}" using pop_release_ok [OF pop_reset_ok [OF ys(2)]] u(2) by simp
  then show "rq_quiet rq' \<and> rq_list rq = p # rq_list rq'"
    using rq_list_eq [OF ok] rq_list_eq ys(1) by (auto simp: rq_quiet_def)
qed

section \<open>Concurrent use\<close>

text \<open>
  Cores interleave between the atomic actions. A process on its way in has won the flag (\<open>claimed\<close>) and
  then has its link reset (\<open>fresh\<close>); one on its way out has been unlinked (\<open>taken\<close>) and then has its link
  reset (\<open>loose\<close>), after which its flag is released.
\<close>

record rq_world =
  rw_queue :: ReadyQueue
  rw_claimed :: "nat set"
  rw_fresh :: "nat set"
  rw_taken :: "nat set"
  rw_loose :: "nat set"

inductive rq_step :: "rq_world \<Rightarrow> rq_world \<Rightarrow> bool" where
  claim: "push_claim p (rw_queue w) = Some rq' \<Longrightarrow> rq_step w (w\<lparr>rw_queue := rq', rw_claimed := insert p (rw_claimed w)\<rparr>)"
| refuse: "push_claim p (rw_queue w) = None \<Longrightarrow> rq_step w w"
| reset_in: "p \<in> rw_claimed w \<Longrightarrow> rq_step w (w\<lparr>rw_queue := push_reset p (rw_queue w), rw_claimed := rw_claimed w - {p},
    rw_fresh := insert p (rw_fresh w)\<rparr>)"
| link: "p \<in> rw_fresh w \<Longrightarrow> rq_step w (w\<lparr>rw_queue := push_link p (rw_queue w), rw_fresh := rw_fresh w - {p}\<rparr>)"
| unlink: "pop_unlink (rw_queue w) = Some (p, rq') \<Longrightarrow> rq_step w (w\<lparr>rw_queue := rq', rw_taken := insert p (rw_taken w)\<rparr>)"
| empty: "pop_unlink (rw_queue w) = None \<Longrightarrow> rq_step w w"
| reset_out: "p \<in> rw_taken w \<Longrightarrow> rq_step w (w\<lparr>rw_queue := pop_reset p (rw_queue w), rw_taken := rw_taken w - {p},
    rw_loose := insert p (rw_loose w)\<rparr>)"
| release: "p \<in> rw_loose w \<Longrightarrow> rq_step w (w\<lparr>rw_queue := pop_release p (rw_queue w), rw_loose := rw_loose w - {p}\<rparr>)"

definition rq_booted :: "ReadyQueue \<Rightarrow> rq_world" where
  "rq_booted rq = \<lparr>rw_queue = ready_queue_init rq, rw_claimed = {}, rw_fresh = {}, rw_taken = {}, rw_loose = {}\<rparr>"

inductive rq_reachable :: "rq_world \<Rightarrow> bool" where
  boot: "in_ready rq = (\<lambda>_. False) \<Longrightarrow> rq_reachable (rq_booted rq)"
| step: "rq_reachable w \<Longrightarrow> rq_step w w' \<Longrightarrow> rq_reachable w'"

definition in_transit :: "rq_world \<Rightarrow> nat set" where
  "in_transit w = rw_claimed w \<union> rw_fresh w \<union> rw_taken w \<union> rw_loose w"

definition stages_apart :: "rq_world \<Rightarrow> bool" where
  "stages_apart w \<longleftrightarrow> rw_claimed w \<inter> rw_fresh w = {} \<and> rw_claimed w \<inter> rw_taken w = {} \<and> rw_claimed w \<inter> rw_loose w = {} \<and>
     rw_fresh w \<inter> rw_taken w = {} \<and> rw_fresh w \<inter> rw_loose w = {} \<and> rw_taken w \<inter> rw_loose w = {}"

definition rq_world_ok :: "rq_world \<Rightarrow> bool" where
  "rq_world_ok w \<longleftrightarrow> stages_apart w \<and> (\<forall>p\<in>rw_fresh w. ready_next (rw_queue w) p = None) \<and>
     (\<exists>xs. rq_ok (rw_queue w) xs (in_transit w))"

lemma rq_init_ok: "in_ready rq = (\<lambda>_. False) \<Longrightarrow> rq_ok (ready_queue_init rq) [] {}"
  by (simp add: rq_ok_def ready_queue_init_def)

lemma push_link_next: "rq_tail rq \<noteq> Some q \<Longrightarrow> ready_next (push_link p rq) q = ready_next rq q"
  by (auto simp: push_link_def Let_def split: option.splits)

lemma pop_unlink_next: "pop_unlink rq = Some (p, rq') \<Longrightarrow> ready_next rq' = ready_next rq"
  by (auto simp: pop_unlink_def Let_def split: option.splits if_splits)

lemma rq_step_ok:
  assumes "rq_step w w'" "rq_world_ok w"
  shows "rq_world_ok w'"
  using assms
proof (induction rule: rq_step.induct)
  case (claim p w rq')
  then obtain xs where ok: "rq_ok (rw_queue w) xs (in_transit w)" by (auto simp: rq_world_ok_def)
  note c = push_claim_ok [OF ok claim.hyps]
  have "in_transit (w\<lparr>rw_queue := rq', rw_claimed := insert p (rw_claimed w)\<rparr>) = insert p (in_transit w)"
    by (auto simp: in_transit_def)
  then show ?case using claim.prems c by (auto simp: rq_world_ok_def stages_apart_def in_transit_def)
next
  case (reset_in p w)
  then obtain xs where ok: "rq_ok (rw_queue w) xs (in_transit w)" by (auto simp: rq_world_ok_def)
  have "in_transit (w\<lparr>rw_queue := push_reset p (rw_queue w), rw_claimed := rw_claimed w - {p}, rw_fresh := insert p (rw_fresh w)\<rparr>) =
      in_transit w" using reset_in.hyps by (auto simp: in_transit_def)
  moreover have "rq_ok (push_reset p (rw_queue w)) xs (in_transit w)"
    by (rule push_reset_ok [OF ok]) (use reset_in.hyps in \<open>simp add: in_transit_def\<close>)
  ultimately show ?case using reset_in by (auto simp: rq_world_ok_def stages_apart_def push_reset_def)
next
  case (link p w)
  then obtain xs where ok: "rq_ok (rw_queue w) xs (in_transit w)" and d: "stages_apart w"
    and nx: "\<forall>q\<in>rw_fresh w. ready_next (rw_queue w) q = None" by (auto simp: rq_world_ok_def)
  have "p \<in> in_transit w" using link.hyps by (simp add: in_transit_def)
  then have l: "rq_ok (push_link p (rw_queue w)) (xs @ [p]) (in_transit w - {p})"
    using push_link_ok [OF ok] link.hyps nx by simp
  have "in_transit (w\<lparr>rw_queue := push_link p (rw_queue w), rw_fresh := rw_fresh w - {p}\<rparr>) = in_transit w - {p}"
    using d link.hyps by (auto simp: in_transit_def stages_apart_def)
  moreover have "ready_next (push_link p (rw_queue w)) q = None" if "q \<in> rw_fresh w" for q
  proof -
    have "q \<notin> set xs" using rq_okD(5) [OF ok] that by (auto simp: in_transit_def)
    then have "rq_tail (rw_queue w) \<noteq> Some q"
      using rq_okD(3) [OF ok] by (cases "xs = []") (simp, metis last_in_set option.inject)
    then show ?thesis using nx that push_link_next by metis
  qed
  ultimately show ?case using l d by (auto simp: rq_world_ok_def stages_apart_def)
next
  case (unlink w p rq')
  then obtain xs where ok: "rq_ok (rw_queue w) xs (in_transit w)" and d: "stages_apart w"
    and nx: "\<forall>q\<in>rw_fresh w. ready_next (rw_queue w) q = None" by (auto simp: rq_world_ok_def)
  obtain ys where ys: "xs = p # ys" "rq_ok rq' ys (insert p (in_transit w))"
    using pop_unlink_ok(2) [OF ok unlink.hyps] by blast
  have "p \<notin> in_transit w" using rq_okD(5) [OF ok] ys by auto
  moreover have "in_transit (w\<lparr>rw_queue := rq', rw_taken := insert p (rw_taken w)\<rparr>) = insert p (in_transit w)"
    by (auto simp: in_transit_def)
  ultimately show ?case using d nx ys pop_unlink_next [OF unlink.hyps] by (auto simp: rq_world_ok_def stages_apart_def in_transit_def)
next
  case (reset_out p w)
  then obtain xs where ok: "rq_ok (rw_queue w) xs (in_transit w)" by (auto simp: rq_world_ok_def)
  have "in_transit (w\<lparr>rw_queue := pop_reset p (rw_queue w), rw_taken := rw_taken w - {p}, rw_loose := insert p (rw_loose w)\<rparr>) =
      in_transit w" using reset_out.hyps by (auto simp: in_transit_def)
  moreover have "rq_ok (pop_reset p (rw_queue w)) xs (in_transit w)"
    by (rule pop_reset_ok [OF ok]) (use reset_out.hyps in \<open>simp add: in_transit_def\<close>)
  ultimately show ?case using reset_out by (auto simp: rq_world_ok_def stages_apart_def pop_reset_def)
next
  case (release p w)
  then obtain xs where ok: "rq_ok (rw_queue w) xs (in_transit w)" and d: "stages_apart w" by (auto simp: rq_world_ok_def)
  have "p \<in> in_transit w" using release.hyps by (simp add: in_transit_def)
  then have "rq_ok (pop_release p (rw_queue w)) xs (in_transit w - {p})" using pop_release_ok [OF ok] by simp
  moreover have "in_transit (w\<lparr>rw_queue := pop_release p (rw_queue w), rw_loose := rw_loose w - {p}\<rparr>) = in_transit w - {p}"
    using d release.hyps by (auto simp: in_transit_def stages_apart_def)
  ultimately show ?case using release by (auto simp: rq_world_ok_def stages_apart_def pop_release_def)
qed simp_all

lemma rq_reachable_ok: "rq_reachable w \<Longrightarrow> rq_world_ok w"
proof (induction rule: rq_reachable.induct)
  case (boot rq)
  then show ?case using rq_init_ok [of rq] by (auto simp: rq_world_ok_def rq_booted_def stages_apart_def in_transit_def)
qed (rule rq_step_ok)

section \<open>Properties\<close>

text \<open>
  C32. The ready queue is first-in first-out: over any history of pushes and pops from the empty
  queue, the processes delivered followed by those still queued are exactly the processes accepted,
  in the order they were accepted.
\<close>

theorem ready_queue_fifo:
  assumes "in_ready rq = (\<lambda>_. False)"
    and "ready.history opers (ready_queue_init rq) = (accepted, delivered, rq')"
  shows "accepted = delivered @ rq_list rq'"
proof -
  have ok: "rq_ok (ready_queue_init rq) [] {}" using rq_init_ok [OF assms(1)] .
  then have q: "rq_quiet (ready_queue_init rq)" "rq_list (ready_queue_init rq) = []"
    by (auto simp: rq_quiet_def rq_list_eq)
  show ?thesis using ready.history_fifo [OF q(1) assms(2)] q(2) by simp
qed

definition idle_queue :: ReadyQueue where
  "idle_queue = \<lparr>rq_head = None, rq_tail = None, rq_count = 0, ready_next = (\<lambda>_. None), in_ready = (\<lambda>_. False)\<rparr>"

theorem ready_queue_fifo_witness:
  "\<exists>rq'. ready.history [Push 3, Push 5, Push 3, Pop] (ready_queue_init idle_queue) = ([3, 5], [3], rq') \<and> rq_list rq' = [5]"
proof -
  obtain a d rq' where h: "ready.history [Push 3, Push 5, Push 3, Pop] (ready_queue_init idle_queue) = (a, d, rq')"
    using prod_cases3 by blast
  then have ad: "a = [3, 5]" "d = [3]"
    by (auto simp: idle_queue_def ready_queue_init_def ready_queue_push_def ready_queue_pop_def push_claim_def
      push_reset_def push_link_def pop_unlink_def Let_def)
  have "a = d @ rq_list rq'" using ready_queue_fifo [OF _ h] by (simp add: idle_queue_def)
  then show ?thesis using h ad by simp
qed

text \<open>
  C33. Under any interleaving of the atomic actions of pushes and pops on any number of cores, no
  process is queued twice, the list is intact with the right tail and count, a process that some
  core is pushing or popping is not in the list and is in the hands of that core only, and the flag is set
  exactly for the processes in the list and those some core is pushing or popping.
\<close>

theorem ready_queue_concurrent:
  assumes "rq_reachable w"
  shows "\<exists>xs. chain (ready_next (rw_queue w)) (rq_head (rw_queue w)) xs \<and> distinct xs \<and>
    ready_queue_count (rw_queue w) = of_nat (length xs) \<and> (ready_queue_is_empty (rw_queue w) \<longleftrightarrow> xs = []) \<and>
    rq_tail (rw_queue w) = (if xs = [] then None else Some (last xs)) \<and>
    set xs \<inter> in_transit w = {} \<and> stages_apart w \<and> (\<forall>p. in_ready (rw_queue w) p \<longleftrightarrow> p \<in> set xs \<or> p \<in> in_transit w)"
proof -
  obtain xs where ok: "rq_ok (rw_queue w) xs (in_transit w)" and d: "stages_apart w"
    using rq_reachable_ok [OF assms] by (auto simp: rq_world_ok_def)
  note k = rq_okD [OF ok]
  have "ready_queue_is_empty (rw_queue w) \<longleftrightarrow> xs = []" using k(1) by (cases xs) (auto simp: ready_queue_is_empty_def)
  moreover have "\<forall>p. in_ready (rw_queue w) p \<longleftrightarrow> p \<in> set xs \<or> p \<in> in_transit w" by (simp add: k(6))
  ultimately show ?thesis using k(1-5) d unfolding ready_queue_count_def by blast
qed

theorem ready_queue_concurrent_witness:
  "\<exists>w xs. rq_reachable w \<and> 4 \<in> rw_fresh w \<and> in_ready (rw_queue w) 4 \<and> chain (ready_next (rw_queue w)) (rq_head (rw_queue w)) xs \<and> 4 \<notin> set xs"
proof -
  let ?w0 = "rq_booted idle_queue"
  obtain rq where c: "push_claim 4 (rw_queue ?w0) = Some rq"
    by (simp add: push_claim_def idle_queue_def ready_queue_init_def rq_booted_def)
  let ?w1 = "?w0\<lparr>rw_queue := rq, rw_claimed := insert 4 (rw_claimed ?w0)\<rparr>"
  let ?w2 = "?w1\<lparr>rw_queue := push_reset 4 (rw_queue ?w1), rw_claimed := rw_claimed ?w1 - {4}, rw_fresh := insert 4 (rw_fresh ?w1)\<rparr>"
  have "rq_reachable ?w0" by (rule rq_reachable.boot) (simp add: idle_queue_def)
  then have "rq_reachable ?w1" using rq_step.claim [OF c] by (rule rq_reachable.step)
  moreover have "rq_step ?w1 ?w2" by (rule rq_step.reset_in) simp
  ultimately have r: "rq_reachable ?w2" by (rule rq_reachable.step)
  have t: "4 \<in> rw_fresh ?w2" "4 \<in> in_transit ?w2" by (simp_all add: in_transit_def)
  obtain xs where "chain (ready_next (rw_queue ?w2)) (rq_head (rw_queue ?w2)) xs" "set xs \<inter> in_transit ?w2 = {}"
      "\<forall>p. in_ready (rw_queue ?w2) p \<longleftrightarrow> p \<in> set xs \<or> p \<in> in_transit ?w2"
    using ready_queue_concurrent [OF r] by (elim exE conjE)
  then show ?thesis using r t by (intro exI [of _ ?w2] exI [of _ xs]) blast
qed

end
