(* ===== verification/ArrayMultiset.thy ===== *)
theory ArrayMultiset
  imports Prelude "HOL-Library.Multiset"
begin

text \<open>
  Removal from an unordered array by moving its last element into the gap, as a multiset. The idiom
  is shared by the scheduler's rings and the tag lists of a file.
\<close>

lemma mset_swap_last:
  assumes "j < length xs"
  shows "mset (butlast (xs[j := last xs])) = mset xs - {#xs ! j#}"
proof -
  have ne: "xs \<noteq> []" "xs[j := last xs] \<noteq> []" using assms by auto
  have l: "last (xs[j := last xs]) = last xs" using ne(1) by (simp add: last_list_update)
  have "add_mset (last xs) (mset (butlast (xs[j := last xs]))) = mset (butlast (xs[j := last xs]) @ [last (xs[j := last xs])])"
    by (simp add: l)
  also have "\<dots> = mset (xs[j := last xs])" by (simp only: append_butlast_last_id [OF ne(2)])
  also have "\<dots> = add_mset (last xs) (mset xs - {#xs ! j#})" using assms by (simp add: mset_update)
  finally show ?thesis by simp
qed

end
