(* ===== verification/RunQueue.thy ===== *)
theory RunQueue
  imports Fifo ArrayMultiset
begin

unbundle bit_operations_syntax

text \<open>
  The per-core run queue, kernel/core/scheduler/runqueue.c: four ring buffers of process pointers,
  one per priority, a bit map of the non-empty ones and an atomic total. The rings double when full
  (up to \<^verbatim>\<open>RUNQUEUE_MAX_CAP\<close>) and halve when three quarters empty. A process pointer is a natural
  number and \<open>None\<close> is NULL. \<^verbatim>\<open>kmalloc\<close> is a parameter: it fails, or returns memory whose contents
  are arbitrary (\<open>garbage i\<close> is what slot \<open>i\<close> happens to hold). The queue's lock is held by the caller.
\<close>

section \<open>State\<close>

definition SCHED_PRIO_LEVELS :: nat where "SCHED_PRIO_LEVELS = 4"
definition RUNQUEUE_INITIAL_CAP :: nat where "RUNQUEUE_INITIAL_CAP = 64"
definition RUNQUEUE_MAX_CAP :: nat where "RUNQUEUE_MAX_CAP = 4096"

type_synonym kmalloc_fn = "nat \<Rightarrow> (nat \<Rightarrow> nat option) option"

record SchedQueue =
  sq_procs :: "nat option list option"
  sq_capacity :: nat
  sq_head :: nat
  sq_tail :: nat
  sq_count :: nat

text \<open>The last two fields are the \<^verbatim>\<open>rq_prio\<close> and \<^verbatim>\<open>rq_index\<close> members of the processes.\<close>

record RunQueue =
  queues :: "SchedQueue list"
  active_bitmap :: u32
  rq_total :: u32
  rq_prio :: "nat \<Rightarrow> int"
  rq_index :: "nat \<Rightarrow> int"

text \<open>Increment and decrement of a 32-bit counter.\<close>

definition inc32 :: "nat \<Rightarrow> nat" where "inc32 n = (n + 1) mod 2 ^ 32"
definition dec32 :: "nat \<Rightarrow> nat" where "dec32 n = (n + (2 ^ 32 - 1)) mod 2 ^ 32"

lemma inc32_small [simp]: "n < 4096 \<Longrightarrow> inc32 n = Suc n"
  by (simp add: inc32_def)

lemma dec32_small [simp]: "0 < n \<Longrightarrow> n \<le> 4096 \<Longrightarrow> dec32 n = n - 1"
proof -
  assume "0 < n" "n \<le> 4096"
  then have "n + (2 ^ 32 - 1) = (n - 1) + 2 ^ 32" by simp
  then show ?thesis using \<open>n \<le> 4096\<close> unfolding dec32_def by (simp only: mod_add_self2) simp
qed

section \<open>Operations\<close>

text \<open>The copying loop of \<^verbatim>\<open>schedqueue_resize\<close>: \<open>idx\<close> walks the old ring.\<close>

fun resize_copy :: "nat option list \<Rightarrow> nat \<Rightarrow> nat \<Rightarrow> nat \<Rightarrow> nat \<Rightarrow> nat option list \<Rightarrow> nat option list" where
  "resize_copy old cap 0 i idx new_procs = new_procs"
| "resize_copy old cap (Suc k) i idx new_procs =
     resize_copy old cap k (i + 1) ((idx + 1) mod cap) (new_procs[i := old ! idx])"

definition schedqueue_resize :: "kmalloc_fn \<Rightarrow> SchedQueue \<Rightarrow> nat \<Rightarrow> SchedQueue option" where
  "schedqueue_resize kmalloc sq new_cap =
     (if new_cap < sq_count sq \<or> new_cap > RUNQUEUE_MAX_CAP then None
      else case kmalloc new_cap of
        None \<Rightarrow> None
      | Some garbage \<Rightarrow>
          let old = (case sq_procs sq of None \<Rightarrow> [] | Some procs \<Rightarrow> procs);
              new_procs = resize_copy old (sq_capacity sq) (sq_count sq) 0 (sq_head sq) (map garbage [0..<new_cap])
          in Some (sq\<lparr>sq_procs := Some new_procs, sq_capacity := new_cap, sq_head := 0, sq_tail := sq_count sq\<rparr>))"

definition init_queue :: "bool \<Rightarrow> SchedQueue" where
  "init_queue allocated =
     (if allocated
      then \<lparr>sq_procs = Some (replicate RUNQUEUE_INITIAL_CAP None), sq_capacity = RUNQUEUE_INITIAL_CAP,
            sq_head = 0, sq_tail = 0, sq_count = 0\<rparr>
      else \<lparr>sq_procs = None, sq_capacity = 0, sq_head = 0, sq_tail = 0, sq_count = 0\<rparr>)"

text \<open>\<open>allocated i\<close> says whether the allocation for priority \<open>i\<close> succeeds.\<close>

definition runqueue_init :: "(nat \<Rightarrow> bool) \<Rightarrow> RunQueue \<Rightarrow> RunQueue" where
  "runqueue_init allocated rq =
     rq\<lparr>queues := map (\<lambda>i. init_queue (allocated i)) [0..<SCHED_PRIO_LEVELS], active_bitmap := 0, rq_total := 0\<rparr>"

definition runqueue_shutdown :: "RunQueue \<Rightarrow> RunQueue" where
  "runqueue_shutdown rq = rq\<lparr>queues := map (\<lambda>q. q\<lparr>sq_procs := None, sq_capacity := 0\<rparr>) (queues rq)\<rparr>"

text \<open>Enqueue: make room in the ring, then store at the tail.\<close>

definition sq_grow :: "kmalloc_fn \<Rightarrow> SchedQueue \<Rightarrow> SchedQueue option" where
  "sq_grow kmalloc q =
     (if sq_count q \<ge> sq_capacity q then
        (let new_cap = sq_capacity q * 2;
             new_cap = (if new_cap > RUNQUEUE_MAX_CAP then RUNQUEUE_MAX_CAP else new_cap)
         in if new_cap \<le> sq_count q then None else schedqueue_resize kmalloc q new_cap)
      else Some q)"

definition sq_store :: "nat \<Rightarrow> SchedQueue \<Rightarrow> SchedQueue" where
  "sq_store proc q =
     q\<lparr>sq_procs := map_option (\<lambda>procs. procs[sq_tail q := Some proc]) (sq_procs q),
       sq_tail := inc32 (sq_tail q) mod sq_capacity q, sq_count := inc32 (sq_count q)\<rparr>"

definition runqueue_enqueue :: "kmalloc_fn \<Rightarrow> RunQueue \<Rightarrow> nat \<Rightarrow> int \<Rightarrow> RunQueue \<times> bool" where
  "runqueue_enqueue kmalloc rq proc prio =
     (if prio < 0 \<or> prio \<ge> int SCHED_PRIO_LEVELS then (rq, False)
      else
        let p = nat prio; q = queues rq ! p in
        if sq_procs q = None then (rq, False)
        else case sq_grow kmalloc q of
          None \<Rightarrow> (rq, False)
        | Some q1 \<Rightarrow>
            (rq\<lparr>queues := (queues rq)[p := sq_store proc q1],
                rq_prio := (rq_prio rq)(proc := prio),
                rq_index := (rq_index rq)(proc := int (sq_tail q1)),
                active_bitmap := active_bitmap rq OR push_bit p 1,
                rq_total := rq_total rq + 1\<rparr>, True))"

text \<open>Dequeue: take the head of the highest non-empty ring, then maybe shrink it.\<close>

definition sq_advance :: "SchedQueue \<Rightarrow> SchedQueue" where
  "sq_advance q =
     q\<lparr>sq_procs := map_option (\<lambda>procs. procs[sq_head q := None]) (sq_procs q),
       sq_head := inc32 (sq_head q) mod sq_capacity q, sq_count := dec32 (sq_count q)\<rparr>"

definition sq_shrink :: "kmalloc_fn \<Rightarrow> SchedQueue \<Rightarrow> SchedQueue" where
  "sq_shrink kmalloc q =
     (if sq_count q < sq_capacity q div 4 \<and> sq_capacity q > RUNQUEUE_INITIAL_CAP then
        (let new_cap = sq_capacity q div 2;
             new_cap = (if new_cap < RUNQUEUE_INITIAL_CAP then RUNQUEUE_INITIAL_CAP else new_cap)
         in case schedqueue_resize kmalloc q new_cap of None \<Rightarrow> q | Some q1 \<Rightarrow> q1)
      else q)"

definition sq_first :: "SchedQueue \<Rightarrow> nat option" where
  "sq_first q = (case sq_procs q of None \<Rightarrow> None | Some procs \<Rightarrow> procs ! sq_head q)"

definition best_prio :: "RunQueue \<Rightarrow> nat" where
  "best_prio rq = 31 - clz (active_bitmap rq)"

text \<open>
  The slot at the head of a non-empty ring holds a process (invariant below); a NULL there would be
  dereferenced by the code.
\<close>

definition runqueue_dequeue_best :: "kmalloc_fn \<Rightarrow> RunQueue \<Rightarrow> RunQueue \<times> nat option" where
  "runqueue_dequeue_best kmalloc rq =
     (if active_bitmap rq = 0 then (rq, None)
      else
        let prio = best_prio rq; q = queues rq ! prio in
        if sq_procs q = None \<or> sq_count q = 0 then (rq, None)
        else case sq_first q of
          None \<Rightarrow> (rq, None)
        | Some proc \<Rightarrow>
            let q1 = sq_advance q in
            (rq\<lparr>queues := (queues rq)[prio := sq_shrink kmalloc q1],
                active_bitmap := (if sq_count q1 = 0 then active_bitmap rq AND NOT (push_bit prio 1)
                                  else active_bitmap rq),
                rq_prio := (rq_prio rq)(proc := -1),
                rq_index := (rq_index rq)(proc := -1),
                rq_total := rq_total rq - 1\<rparr>, Some proc))"

text \<open>Removal of a given process from where its fields say it is.\<close>

definition prev_slot :: "SchedQueue \<Rightarrow> nat" where
  "prev_slot q = (dec32 (sq_tail q) + sq_capacity q) mod 2 ^ 32 mod sq_capacity q"

definition sq_unlink :: "nat option list \<Rightarrow> nat \<Rightarrow> SchedQueue \<Rightarrow> SchedQueue" where
  "sq_unlink procs idx q =
     (let q1 = q\<lparr>sq_count := dec32 (sq_count q)\<rparr> in
      if sq_count q1 = 0 then q1\<lparr>sq_procs := Some (procs[idx := None]), sq_head := 0, sq_tail := 0\<rparr>
      else if idx = sq_head q then q1\<lparr>sq_procs := Some (procs[idx := None]), sq_head := inc32 (sq_head q) mod sq_capacity q\<rparr>
      else if idx = prev_slot q then q1\<lparr>sq_procs := Some (procs[idx := None]), sq_tail := prev_slot q\<rparr>
      else q1\<lparr>sq_procs := Some (procs[idx := procs ! prev_slot q, prev_slot q := None]), sq_tail := prev_slot q\<rparr>)"

text \<open>The process moved into the hole in the last case, whose index changes with it.\<close>

definition moved_proc :: "nat option list \<Rightarrow> nat \<Rightarrow> SchedQueue \<Rightarrow> nat option" where
  "moved_proc procs idx q =
     (if dec32 (sq_count q) = 0 \<or> idx = sq_head q \<or> idx = prev_slot q then None else procs ! prev_slot q)"

definition runqueue_remove :: "RunQueue \<Rightarrow> nat \<Rightarrow> RunQueue" where
  "runqueue_remove rq proc =
     (let prio = rq_prio rq proc; idx = rq_index rq proc in
      if prio < 0 \<or> idx < 0 then rq
      else
        let p = nat prio; i = nat idx; q = queues rq ! p in
        if i \<ge> sq_capacity q then rq
        else case sq_procs q of
          None \<Rightarrow> rq
        | Some procs \<Rightarrow>
            if procs ! i \<noteq> Some proc then rq
            else
              let index1 = (case moved_proc procs i q of None \<Rightarrow> rq_index rq | Some t \<Rightarrow> (rq_index rq)(t := int i)) in
              rq\<lparr>queues := (queues rq)[p := sq_unlink procs i q],
                 rq_total := rq_total rq - 1,
                 active_bitmap := (if dec32 (sq_count q) = 0 then active_bitmap rq AND NOT (push_bit p 1)
                                   else active_bitmap rq),
                 rq_prio := (rq_prio rq)(proc := -1),
                 rq_index := index1(proc := -1)\<rparr>)"

definition runqueue_contains :: "RunQueue \<Rightarrow> nat \<Rightarrow> bool" where
  "runqueue_contains rq proc =
     (let prio = rq_prio rq proc; idx = rq_index rq proc in
      if prio < 0 \<or> prio \<ge> int SCHED_PRIO_LEVELS \<or> idx < 0 then False
      else
        let q = queues rq ! nat prio in
        case sq_procs q of
          None \<Rightarrow> False
        | Some procs \<Rightarrow> if nat idx \<ge> sq_capacity q then False else procs ! nat idx = Some proc)"

definition RunqueueAtomicTotal :: "RunQueue \<Rightarrow> u32" where
  "RunqueueAtomicTotal rq = rq_total rq"


section \<open>The ring and its contents\<close>

definition slot :: "SchedQueue \<Rightarrow> nat \<Rightarrow> nat" where
  "slot q i = (sq_head q + i) mod sq_capacity q"

definition contents :: "SchedQueue \<Rightarrow> nat list" where
  "contents q = (case sq_procs q of None \<Rightarrow> []
     | Some procs \<Rightarrow> map (\<lambda>i. the (procs ! slot q i)) [0..<sq_count q])"

definition ring_ok :: "SchedQueue \<Rightarrow> nat option list \<Rightarrow> bool" where
  "ring_ok q procs \<longleftrightarrow> sq_procs q = Some procs \<and> length procs = sq_capacity q \<and>
     0 < sq_capacity q \<and> sq_capacity q \<le> RUNQUEUE_MAX_CAP \<and> sq_head q < sq_capacity q \<and>
     sq_count q \<le> sq_capacity q \<and> sq_tail q = slot q (sq_count q) \<and>
     (\<forall>i < sq_count q. procs ! slot q i \<noteq> None)"

definition q_ok :: "SchedQueue \<Rightarrow> bool" where
  "q_ok q \<longleftrightarrow> (sq_procs q = None \<and> sq_count q = 0) \<or> (\<exists>procs. ring_ok q procs)"

lemma ring_okD:
  assumes "ring_ok q procs"
  shows "sq_procs q = Some procs" "length procs = sq_capacity q" "0 < sq_capacity q" "sq_capacity q \<le> 4096"
    "sq_head q < sq_capacity q" "sq_count q \<le> sq_capacity q" "sq_tail q = slot q (sq_count q)"
    "i < sq_count q \<Longrightarrow> procs ! slot q i \<noteq> None"
  using assms by (auto simp: ring_ok_def RUNQUEUE_MAX_CAP_def)

lemma slot_less: "0 < sq_capacity q \<Longrightarrow> slot q i < sq_capacity q"
  by (simp add: slot_def)

lemma slot_inj:
  assumes "i < sq_capacity q" "j < sq_capacity q"
  shows "slot q i = slot q j \<longleftrightarrow> i = j"
proof -
  have "i = j" if "i \<le> j" "j < n" "(h + i) mod n = (h + j) mod n" for h i j n :: nat
  proof -
    have "n dvd (h + j) - (h + i)" using mod_eq_dvd_iff_nat [of "h + i" "h + j" n] that by simp
    then have "n dvd j - i" by simp
    then show ?thesis using that dvd_imp_le [of n "j - i"] by (cases "i = j") auto
  qed
  then show ?thesis using assms unfolding slot_def by (metis nat_le_linear)
qed

lemma contents_ring: "ring_ok q procs \<Longrightarrow> contents q = map (\<lambda>i. the (procs ! slot q i)) [0..<sq_count q]"
  by (simp add: contents_def ring_okD(1))

lemma contents_nth: "ring_ok q procs \<Longrightarrow> i < sq_count q \<Longrightarrow> contents q ! i = the (procs ! slot q i)"
  by (simp add: contents_ring)

lemma contents_nil: "q_ok q \<Longrightarrow> contents q = [] \<longleftrightarrow> sq_count q = 0"
  by (auto simp: q_ok_def contents_def ring_ok_def)

lemma length_contents: "q_ok q \<Longrightarrow> length (contents q) = sq_count q"
  by (auto simp: q_ok_def contents_def ring_ok_def)

lemma q_ok_ring: "q_ok q \<Longrightarrow> 0 < sq_count q \<or> sq_procs q \<noteq> None \<Longrightarrow> \<exists>procs. ring_ok q procs"
  by (auto simp: q_ok_def)

subsection \<open>Resizing\<close>

lemma resize_copy_length [simp]: "length (resize_copy old cap k i idx new) = length new"
  by (induction old cap k i idx new rule: resize_copy.induct) simp_all

lemma resize_copy_nth:
  "i + k \<le> length new \<Longrightarrow> 0 < cap \<Longrightarrow> idx < cap \<Longrightarrow>
     resize_copy old cap k i idx new ! j =
       (if i \<le> j \<and> j < i + k then old ! ((idx + (j - i)) mod cap) else new ! j)"
proof (induction old cap k i idx new rule: resize_copy.induct)
  case (2 old cap k i idx new)
  have "((idx + 1) mod cap + (j - (i + 1))) mod cap = (idx + (j - i)) mod cap" if "i < j"
  proof -
    have "idx + (j - i) = (idx + 1) + (j - (i + 1))" using that by simp
    then show ?thesis by (metis mod_add_left_eq)
  qed
  then show ?case using 2 by (auto simp: nth_list_update)
qed auto

lemma resize_ok:
  assumes ok: "ring_ok q procs" and new: "sq_count q < new_cap"
    and r: "schedqueue_resize kmalloc q new_cap = Some q'"
  shows "\<exists>procs'. ring_ok q' procs'" "contents q' = contents q" "sq_count q' = sq_count q" "sq_capacity q' = new_cap"
    "sq_head q' = 0"
proof -
  note d = ring_okD [OF ok]
  obtain garbage where g: "kmalloc new_cap = Some garbage" and cap: "new_cap \<le> RUNQUEUE_MAX_CAP"
    using r by (auto simp: schedqueue_resize_def split: if_splits option.splits)
  let ?new = "resize_copy procs (sq_capacity q) (sq_count q) 0 (sq_head q) (map garbage [0..<new_cap])"
  have q': "q' = q\<lparr>sq_procs := Some ?new, sq_capacity := new_cap, sq_head := 0, sq_tail := sq_count q\<rparr>"
    using r g new cap d(1) by (simp add: schedqueue_resize_def Let_def)
  have at: "?new ! i = procs ! slot q i" if "i < sq_count q" for i
    using that new d(3,5) by (subst resize_copy_nth) (auto simp: slot_def)
  have sl: "slot q' i = i" if "i < new_cap" for i using that by (simp add: slot_def q')
  have "ring_ok q' ?new" unfolding ring_ok_def
    using new cap at sl d(8) by (auto simp: q')
  then show "\<exists>procs'. ring_ok q' procs'" by blast
  show "contents q' = contents q" using at sl new d(1) by (simp add: contents_def) (simp add: q')
  show "sq_count q' = sq_count q" "sq_capacity q' = new_cap" "sq_head q' = 0" by (simp_all add: q')
qed

lemma grow_ok:
  assumes "ring_ok q procs" "sq_grow kmalloc q = Some q'"
  shows "\<exists>procs'. ring_ok q' procs'" "contents q' = contents q" "sq_count q' = sq_count q" "sq_count q' < sq_capacity q'"
proof -
  have "(\<exists>procs'. ring_ok q' procs') \<and> contents q' = contents q \<and> sq_count q' = sq_count q \<and> sq_count q' < sq_capacity q'"
  proof (cases "sq_count q \<ge> sq_capacity q")
    case True
    let ?cap = "if sq_capacity q * 2 > RUNQUEUE_MAX_CAP then RUNQUEUE_MAX_CAP else sq_capacity q * 2"
    have "\<not> ?cap \<le> sq_count q" "schedqueue_resize kmalloc q ?cap = Some q'"
      using assms(2) True by (auto simp: sq_grow_def Let_def split: if_splits)
    then show ?thesis using resize_ok [OF assms(1), of ?cap kmalloc q'] by simp
  next
    case False
    then show ?thesis using assms by (auto simp: sq_grow_def)
  qed
  then show "\<exists>procs'. ring_ok q' procs'" "contents q' = contents q" "sq_count q' = sq_count q" "sq_count q' < sq_capacity q'"
    by blast+
qed

lemma shrink_ok:
  assumes "ring_ok q procs"
  shows "\<exists>procs'. ring_ok (sq_shrink kmalloc q) procs'" "contents (sq_shrink kmalloc q) = contents q"
    "sq_count (sq_shrink kmalloc q) = sq_count q"
proof -
  let ?cap = "if sq_capacity q div 2 < RUNQUEUE_INITIAL_CAP then RUNQUEUE_INITIAL_CAP else sq_capacity q div 2"
  have "(\<exists>procs'. ring_ok (sq_shrink kmalloc q) procs') \<and> contents (sq_shrink kmalloc q) = contents q \<and>
    sq_count (sq_shrink kmalloc q) = sq_count q"
  proof (cases "sq_count q < sq_capacity q div 4 \<and> sq_capacity q > RUNQUEUE_INITIAL_CAP")
    case True
    then have less: "sq_count q < ?cap" by auto
    show ?thesis
    proof (cases "schedqueue_resize kmalloc q ?cap")
      case None
      then show ?thesis using True assms by (auto simp: sq_shrink_def Let_def)
    next
      case (Some q1)
      then have "sq_shrink kmalloc q = q1" using True by (simp add: sq_shrink_def Let_def)
      then show ?thesis using resize_ok [OF assms less Some] by simp
    qed
  next
    case False
    then show ?thesis using assms by (auto simp: sq_shrink_def)
  qed
  then show "\<exists>procs'. ring_ok (sq_shrink kmalloc q) procs'" "contents (sq_shrink kmalloc q) = contents q"
    "sq_count (sq_shrink kmalloc q) = sq_count q" by blast+
qed

subsection \<open>Storing and taking\<close>

lemma slot_Suc: "(slot q i + 1) mod sq_capacity q = slot q (Suc i)"
  by (simp add: slot_def mod_add_left_eq mod_Suc_eq)

lemma store_ok:
  assumes ok: "ring_ok q procs" and room: "sq_count q < sq_capacity q"
  shows "ring_ok (sq_store p q) (procs[sq_tail q := Some p])" "contents (sq_store p q) = contents q @ [p]"
    "sq_count (sq_store p q) = Suc (sq_count q)"
proof -
  note d = ring_okD [OF ok]
  have tail: "sq_tail q < sq_capacity q" using d(7) slot_less [OF d(3)] by simp
  have n: "sq_count q < 4096" "sq_tail q < 4096" using room tail d(4) by auto
  have q': "sq_store p q = q\<lparr>sq_procs := Some (procs[sq_tail q := Some p]),
      sq_tail := slot q (Suc (sq_count q)), sq_count := Suc (sq_count q)\<rparr>"
    using n d(1,7) slot_Suc [of q "sq_count q"] by (simp add: sq_store_def)
  have sl: "slot (sq_store p q) i = slot q i" for i by (simp add: q' slot_def)
  have at: "procs[sq_tail q := Some p] ! slot q i = (if i = sq_count q then Some p else procs ! slot q i)"
    if "i < Suc (sq_count q)" for i
    using that room d(2,7) tail slot_inj [of i q "sq_count q"] by (auto simp: nth_update_if)
  show r: "ring_ok (sq_store p q) (procs[sq_tail q := Some p])"
    unfolding ring_ok_def sl using d room at by (auto simp: q' RUNQUEUE_MAX_CAP_def)
  show "sq_count (sq_store p q) = Suc (sq_count q)" by (simp add: q')
  then show "contents (sq_store p q) = contents q @ [p]"
    unfolding contents_ring [OF r] contents_ring [OF ok] sl using at by simp
qed

lemma advance_ok:
  assumes ok: "ring_ok q procs" and some: "0 < sq_count q"
  shows "ring_ok (sq_advance q) (procs[sq_head q := None])" "sq_first q = Some (hd (contents q))"
    "contents (sq_advance q) = tl (contents q)" "sq_count (sq_advance q) = sq_count q - 1"
proof -
  note d = ring_okD [OF ok]
  have q': "sq_advance q = q\<lparr>sq_procs := Some (procs[sq_head q := None]),
      sq_head := slot q 1, sq_count := sq_count q - 1\<rparr>"
    using d(1,4,5,6) some by (simp add: sq_advance_def slot_def)
  have sl: "slot (sq_advance q) i = slot q (Suc i)" for i
    by (simp add: q' slot_def mod_add_left_eq mod_Suc_eq)
  have h0: "sq_head q = slot q 0" using d(5) by (simp add: slot_def)
  have at: "procs[sq_head q := None] ! slot q (Suc i) = procs ! slot q (Suc i)" if "i < sq_count q - 1" for i
  proof -
    have "Suc i < sq_capacity q" using that d(6) by linarith
    then show ?thesis using slot_inj [of "Suc i" q 0] d(3) h0 by (simp add: nth_update_if)
  qed
  show r: "ring_ok (sq_advance q) (procs[sq_head q := None])"
    unfolding ring_ok_def
  proof (intro conjI allI impI)
    show "sq_tail (sq_advance q) = slot (sq_advance q) (sq_count (sq_advance q))"
      using some d(7) by (simp add: sl) (simp add: q')
    show "procs[sq_head q := None] ! slot (sq_advance q) i \<noteq> None" if "i < sq_count (sq_advance q)" for i
      using that at [of i] d(8) [of "Suc i"] by (simp add: sl) (simp add: q')
  qed (use d slot_less [OF d(3), of 1] in \<open>simp_all add: q' RUNQUEUE_MAX_CAP_def\<close>)
  show c: "sq_count (sq_advance q) = sq_count q - 1" by (simp add: q')
  have e: "[0..<sq_count q] = 0 # map Suc [0..<sq_count q - 1]"
    using some upt_conv_Cons [of 0 "sq_count q"] map_Suc_upt [of 0 "sq_count q - 1"] by simp
  have "procs ! slot q 0 \<noteq> None" using d(8) some by blast
  then show "sq_first q = Some (hd (contents q))"
    unfolding contents_ring [OF ok] e using d(1) h0 by (auto simp: sq_first_def)
  show "contents (sq_advance q) = tl (contents q)"
    unfolding contents_ring [OF r] contents_ring [OF ok] sl c e using at by simp
qed

text \<open>The rings meet the queue contract, whatever the allocator does when they grow or shrink.\<close>

definition sq_push :: "kmalloc_fn \<Rightarrow> nat \<Rightarrow> SchedQueue \<Rightarrow> SchedQueue option" where
  "sq_push kmalloc p q = (if sq_procs q = None then None else map_option (sq_store p) (sq_grow kmalloc q))"

definition sq_pop :: "kmalloc_fn \<Rightarrow> SchedQueue \<Rightarrow> (nat \<times> SchedQueue) option" where
  "sq_pop kmalloc q =
     (if sq_procs q = None \<or> sq_count q = 0 then None
      else map_option (\<lambda>p. (p, sq_shrink kmalloc (sq_advance q))) (sq_first q))"

lemma push_ok:
  assumes "q_ok q" "sq_push kmalloc p q = Some q'"
  shows "q_ok q' \<and> contents q' = contents q @ [p] \<and> sq_count q' = Suc (sq_count q)"
proof -
  obtain procs where r: "ring_ok q procs" using assms q_ok_ring by (auto simp: sq_push_def split: if_splits)
  obtain q1 where q1: "sq_grow kmalloc q = Some q1" "q' = sq_store p q1"
    using assms(2) by (auto simp: sq_push_def split: if_splits)
  obtain procs1 where r1: "ring_ok q1 procs1" using grow_ok(1) [OF r q1(1)] by blast
  show ?thesis using store_ok [OF r1 grow_ok(4) [OF r q1(1)], of p] grow_ok(2,3) [OF r q1(1)] q1(2)
    by (auto simp: q_ok_def)
qed

lemma pop_ok:
  assumes "q_ok q" "0 < sq_count q"
  shows "\<exists>q'. sq_pop kmalloc q = Some (hd (contents q), q') \<and> q_ok q' \<and> contents q' = tl (contents q) \<and>
    sq_count q' = sq_count q - 1"
proof -
  obtain procs where r: "ring_ok q procs" using assms q_ok_ring by blast
  note a = advance_ok [OF r assms(2)]
  note s = shrink_ok [OF a(1), of kmalloc]
  show ?thesis using a s assms(2) ring_okD(1) [OF r] by (auto simp: sq_pop_def q_ok_def)
qed

interpretation ring: fifo q_ok contents "sq_push kmalloc" "sq_pop kmalloc" for kmalloc
proof unfold_locales
  fix q x q'
  assume ok: "q_ok q"
  show "sq_push kmalloc x q = Some q' \<Longrightarrow> q_ok q' \<and> contents q' = contents q @ [x]"
    using push_ok [OF ok] by blast
  show "sq_pop kmalloc q = None \<longleftrightarrow> contents q = []"
  proof (cases "sq_count q = 0")
    case True
    then show ?thesis using contents_nil [OF ok] by (simp add: sq_pop_def)
  next
    case False
    then show ?thesis using pop_ok [OF ok, of kmalloc] contents_nil [OF ok] by auto
  qed
  show "q_ok q' \<and> contents q = x # contents q'" if "sq_pop kmalloc q = Some (x, q')"
  proof -
    have "0 < sq_count q" using that by (auto simp: sq_pop_def split: if_splits)
    then show ?thesis using that pop_ok [OF ok, of kmalloc] contents_nil [OF ok] by auto
  qed
qed


section \<open>The run queue as four lists\<close>

definition levels :: "RunQueue \<Rightarrow> nat list list" where
  "levels rq = map contents (queues rq)"

definition runqueue_inv :: "RunQueue \<Rightarrow> bool" where
  "runqueue_inv rq \<longleftrightarrow> length (queues rq) = SCHED_PRIO_LEVELS \<and> (\<forall>q\<in>set (queues rq). q_ok q) \<and>
     (\<forall>i. bit (active_bitmap rq) i \<longleftrightarrow> i < SCHED_PRIO_LEVELS \<and> 0 < sq_count (queues rq ! i)) \<and>
     rq_total rq = of_nat (sum_list (map sq_count (queues rq)))"

text \<open>The specification: a list per priority; the best process is the first of the highest non-empty list.\<close>

definition best_level :: "nat list list \<Rightarrow> nat option" where
  "best_level ls = find (\<lambda>i. ls ! i \<noteq> []) (rev [0..<length ls])"

definition spec_dequeue :: "nat list list \<Rightarrow> nat list list \<times> nat option" where
  "spec_dequeue ls = (case best_level ls of None \<Rightarrow> (ls, None) | Some k \<Rightarrow> (ls[k := tl (ls ! k)], Some (hd (ls ! k))))"

definition spec_enqueue :: "nat list list \<Rightarrow> nat \<Rightarrow> nat \<Rightarrow> nat list list" where
  "spec_enqueue ls p prio = ls[prio := ls ! prio @ [p]]"

lemma runqueue_invD:
  assumes "runqueue_inv rq"
  shows "length (queues rq) = 4" "k < 4 \<Longrightarrow> q_ok (queues rq ! k)"
    "bit (active_bitmap rq) i \<longleftrightarrow> i < 4 \<and> 0 < sq_count (queues rq ! i)"
    "rq_total rq = of_nat (sum_list (map sq_count (queues rq)))"
    "length (levels rq) = 4" "k < 4 \<Longrightarrow> levels rq ! k = contents (queues rq ! k)"
    "k < 4 \<Longrightarrow> levels rq ! k = [] \<longleftrightarrow> sq_count (queues rq ! k) = 0"
  using assms by (auto simp: runqueue_inv_def SCHED_PRIO_LEVELS_def levels_def contents_nil)

lemma total_length:
  assumes "runqueue_inv rq"
  shows "rq_total rq = of_nat (length (concat (levels rq)))"
proof -
  have "map length (levels rq) = map sq_count (queues rq)"
    using assms by (simp add: levels_def length_contents runqueue_inv_def)
  then show ?thesis using runqueue_invD(4) [OF assms] by (simp add: length_concat)
qed

text \<open>One queue changes and the other fields follow.\<close>

lemma sum_list_update_nat:
  "k < length xs \<Longrightarrow> sum_list (xs[k := (v::nat)]) + xs ! k = sum_list xs + v"
  by (induction xs arbitrary: k) (auto simp: nth_Cons split: nat.split)

lemma inv_update:
  assumes inv: "runqueue_inv rq" and k: "k < 4" and q: "q_ok q"
    and rq': "queues rq' = (queues rq)[k := q]"
    and bits: "\<And>i. bit (active_bitmap rq') i \<longleftrightarrow> (if i = k then 0 < sq_count q else bit (active_bitmap rq) i)"
    and tot: "rq_total rq' + of_nat (sq_count (queues rq ! k)) = rq_total rq + of_nat (sq_count q)"
  shows "runqueue_inv rq'" "levels rq' = (levels rq)[k := contents q]"
proof -
  note d = runqueue_invD [OF inv]
  have "sum_list (map sq_count (queues rq')) + sq_count (queues rq ! k) = sum_list (map sq_count (queues rq)) + sq_count q"
    using sum_list_update_nat [of k "map sq_count (queues rq)" "sq_count q"] k d(1) by (simp add: rq' map_update)
  then have "of_nat (sum_list (map sq_count (queues rq'))) + of_nat (sq_count (queues rq ! k)) =
      (of_nat (sum_list (map sq_count (queues rq))) + of_nat (sq_count q) :: u32)"
    by (metis of_nat_add)
  then have "rq_total rq' = of_nat (sum_list (map sq_count (queues rq')))" using tot d(4) by (metis add_right_cancel)
  moreover have "\<forall>x\<in>set (queues rq'). q_ok x"
    using inv q set_update_subset_insert [of "queues rq" k q] by (auto simp: rq' runqueue_inv_def)
  ultimately show "runqueue_inv rq'"
    using d(1,3) k bits by (auto simp: runqueue_inv_def SCHED_PRIO_LEVELS_def rq' nth_list_update)
  show "levels rq' = (levels rq)[k := contents q]" by (simp add: levels_def rq' map_update)
qed

lemma bit_or_flag: "bit ((w :: u32) OR push_bit k 1) i \<longleftrightarrow> (if i = k \<and> k < 32 then True else bit w i)"
  by (auto simp: bit_or_iff bit_exp_iff possible_bit_word)

lemma bit_clear_flag: "k < 32 \<Longrightarrow> bit ((w :: u32) AND NOT (push_bit k 1)) i \<longleftrightarrow> i \<noteq> k \<and> bit w i"
  using bit_imp_le_length [of w i] by (auto simp: bit_and_iff bit_not_iff bit_exp_iff possible_bit_word)

lemma best_prio_highest:
  assumes "k < 32" "bit (active_bitmap rq) k" "\<And>i. k < i \<Longrightarrow> i < 32 \<Longrightarrow> \<not> bit (active_bitmap rq) i"
  shows "best_prio rq = k"
proof -
  have "rev [0..<32] = rev [Suc k..<32] @ k # rev [0..<k]"
    using assms(1) upt_add_eq_append [of 0 k "32 - k"] upt_conv_Cons [of k 32] by simp
  moreover have "takeWhile (\<lambda>i. \<not> bit (active_bitmap rq) i) (rev [Suc k..<32] @ k # rev [0..<k]) = rev [Suc k..<32]"
    using assms(2,3) by (subst takeWhile_append2) auto
  ultimately show ?thesis using assms(1) by (simp add: best_prio_def clz_def)
qed

lemma best_level_Some:
  "best_level ls = Some k \<longleftrightarrow> k < length ls \<and> ls ! k \<noteq> [] \<and> (\<forall>i. k < i \<longrightarrow> i < length ls \<longrightarrow> ls ! i = [])"
proof -
  have "find P (rev [0..<n]) = Some k \<longleftrightarrow> k < n \<and> P k \<and> (\<forall>i. k < i \<longrightarrow> i < n \<longrightarrow> \<not> P i)" for P n
  proof (induction n)
    case (Suc n)
    show ?case
    proof (cases "P n")
      case True
      then show ?thesis by (auto simp: less_Suc_eq)
    next
      case False
      then show ?thesis using Suc by (auto simp: less_Suc_eq)
    qed
  qed simp
  then show ?thesis by (simp add: best_level_def)
qed

lemma best_level_None: "best_level ls = None \<longleftrightarrow> (\<forall>i<length ls. ls ! i = [])"
  by (auto simp: best_level_def find_None_iff)


subsection \<open>Enqueue and dequeue against the specification\<close>

lemma runqueue_init_ok: "runqueue_inv (runqueue_init allocated rq) \<and> levels (runqueue_init allocated rq) = replicate 4 []"
proof -
  have "q_ok (init_queue b) \<and> contents (init_queue b) = [] \<and> sq_count (init_queue b) = 0" for b
    by (auto simp: init_queue_def q_ok_def ring_ok_def contents_def slot_def RUNQUEUE_INITIAL_CAP_def RUNQUEUE_MAX_CAP_def)
  then show ?thesis
    by (auto simp: runqueue_inv_def runqueue_init_def levels_def SCHED_PRIO_LEVELS_def comp_def map_replicate_const sum_list_replicate)
qed

lemma enqueue_push:
  assumes "0 \<le> prio" "prio < 4" "runqueue_enqueue kmalloc rq p prio = (rq', ret)"
  shows "ret \<longleftrightarrow> sq_push kmalloc p (queues rq ! nat prio) \<noteq> None" "\<not> ret \<Longrightarrow> rq' = rq"
    "sq_push kmalloc p (queues rq ! nat prio) = Some q \<Longrightarrow> queues rq' = (queues rq)[nat prio := q] \<and>
       active_bitmap rq' = active_bitmap rq OR push_bit (nat prio) 1 \<and> rq_total rq' = rq_total rq + 1"
  using assms by (auto simp: runqueue_enqueue_def sq_push_def Let_def SCHED_PRIO_LEVELS_def split: if_splits option.splits)

lemma enqueue_ok:
  assumes inv: "runqueue_inv rq" and e: "runqueue_enqueue kmalloc rq p prio = (rq', ret)"
  shows "runqueue_inv rq'"
    "levels rq' = (if ret then spec_enqueue (levels rq) p (nat prio) else levels rq)" "ret \<Longrightarrow> 0 \<le> prio \<and> prio < 4"
proof -
  have "runqueue_inv rq' \<and> levels rq' = (if ret then spec_enqueue (levels rq) p (nat prio) else levels rq) \<and>
    (ret \<longrightarrow> 0 \<le> prio \<and> prio < 4)"
  proof (cases "0 \<le> prio \<and> prio < 4 \<and> ret")
    case False
    then have "rq' = rq \<and> \<not> ret" using e enqueue_push(2) [of prio kmalloc rq p rq' ret]
      by (auto simp: runqueue_enqueue_def SCHED_PRIO_LEVELS_def split: if_splits)
    then show ?thesis using inv by simp
  next
    case True
    then have k: "nat prio < 4" by (simp add: nat_less_iff)
    note d = runqueue_invD [OF inv]
    obtain q where q: "sq_push kmalloc p (queues rq ! nat prio) = Some q" using enqueue_push(1) [OF _ _ e] True by auto
    note p = push_ok [OF d(2) [OF k] q]
    have e3: "queues rq' = (queues rq)[nat prio := q]" "active_bitmap rq' = active_bitmap rq OR push_bit (nat prio) 1"
      "rq_total rq' = rq_total rq + 1" using enqueue_push(3) [OF _ _ e q] True by auto
    have b: "bit (active_bitmap rq') i \<longleftrightarrow> (if i = nat prio then 0 < sq_count q else bit (active_bitmap rq) i)" for i
      using p k by (simp only: e3 bit_or_flag) simp
    have t: "rq_total rq' + of_nat (sq_count (queues rq ! nat prio)) = rq_total rq + of_nat (sq_count q)"
      using p by (simp add: e3)
    have "q_ok q" using p by simp
    from inv_update [OF inv k this e3(1) b t] show ?thesis
      using p d(6) [OF k] True by (simp add: spec_enqueue_def)
  qed
  then show "runqueue_inv rq'" "levels rq' = (if ret then spec_enqueue (levels rq) p (nat prio) else levels rq)"
    "ret \<Longrightarrow> 0 \<le> prio \<and> prio < 4" by blast+
qed

lemma dequeue_ok:
  assumes inv: "runqueue_inv rq" and de: "runqueue_dequeue_best kmalloc rq = (rq', r)"
  shows "runqueue_inv rq'" "(levels rq', r) = spec_dequeue (levels rq)"
proof -
  note d = runqueue_invD [OF inv]
  have "runqueue_inv rq' \<and> (levels rq', r) = spec_dequeue (levels rq)"
  proof (cases "best_level (levels rq)")
    case None
    then have z: "\<not> bit (active_bitmap rq) i" for i using d(3,5,7) by (auto simp: best_level_None)
    then have "active_bitmap rq = 0" by (simp add: bit_eq_iff)
    then show ?thesis using None de inv by (simp add: runqueue_dequeue_best_def spec_dequeue_def)
  next
    case (Some k)
    then have k: "k < 4" "levels rq ! k \<noteq> []" "\<And>i. k < i \<Longrightarrow> i < 4 \<Longrightarrow> levels rq ! i = []"
      using d(5) by (auto simp: best_level_Some)
    have n: "0 < sq_count (queues rq ! k)" using k d(7) by auto
    have best: "best_prio rq = k" using k d(3,7) n by (intro best_prio_highest) auto
    have bz: "active_bitmap rq \<noteq> 0" using d(3) [of k] n k(1) by auto
    obtain q where q: "sq_pop kmalloc (queues rq ! k) = Some (hd (levels rq ! k), q)" "q_ok q"
        "contents q = tl (levels rq ! k)" "sq_count q = sq_count (queues rq ! k) - 1"
      using pop_ok [OF d(2) [OF k(1)] n, of kmalloc] d(6) [OF k(1)] by auto
    obtain procs where ring: "ring_ok (queues rq ! k) procs" using q_ok_ring d(2) [OF k(1)] n by blast
    have q1: "sq_first (queues rq ! k) = Some (hd (levels rq ! k))" "q = sq_shrink kmalloc (sq_advance (queues rq ! k))"
      using q(1) by (auto simp: sq_pop_def split: if_splits)
    have r: "r = Some (hd (levels rq ! k))" and e3: "queues rq' = (queues rq)[k := q]" "rq_total rq' = rq_total rq - 1"
      "active_bitmap rq' = (if sq_count q = 0 then active_bitmap rq AND NOT (push_bit k 1) else active_bitmap rq)"
      using de best bz n q1 q(4) advance_ok(4) [OF ring n] ring_okD(1) [OF ring]
      by (auto simp: runqueue_dequeue_best_def Let_def)
    have b: "bit (active_bitmap rq') i \<longleftrightarrow> (if i = k then 0 < sq_count q else bit (active_bitmap rq) i)" for i
    proof (cases "sq_count q = 0")
      case True
      then show ?thesis using bit_clear_flag [of k "active_bitmap rq" i] k(1) by (simp add: e3)
    next
      case False
      then show ?thesis using d(3) [of k] k(1) n by (simp add: e3)
    qed
    have "of_nat (sq_count (queues rq ! k)) = (of_nat (sq_count q) + 1 :: u32)"
      using n q(4) by (metis Suc_pred' of_nat_Suc add.commute)
    then have t: "rq_total rq' + of_nat (sq_count (queues rq ! k)) = rq_total rq + of_nat (sq_count q)"
      by (simp add: e3)
    from inv_update [OF inv k(1) q(2) e3(1) b t] show ?thesis
      using q(3) r Some by (simp add: spec_dequeue_def)
  qed
  then show "runqueue_inv rq'" "(levels rq', r) = spec_dequeue (levels rq)" by blast+
qed

subsection \<open>Draining\<close>

lemma spec_dequeue_order:
  assumes "spec_dequeue ls = (ls', r)"
  shows "concat (rev ls) = (case r of None \<Rightarrow> [] | Some p \<Rightarrow> p # concat (rev ls'))" "r = None \<Longrightarrow> ls' = ls"
proof -
  show "concat (rev ls) = (case r of None \<Rightarrow> [] | Some p \<Rightarrow> p # concat (rev ls'))"
  proof (cases "best_level ls")
    case None
    then have "\<forall>x\<in>set ls. x = []" by (metis best_level_None in_set_conv_nth)
    then show ?thesis using None assms by (simp add: spec_dequeue_def)
  next
    case (Some k)
    then have k: "k < length ls" "ls ! k \<noteq> []" "\<And>i. k < i \<Longrightarrow> i < length ls \<Longrightarrow> ls ! i = []"
      by (auto simp: best_level_Some)
    have "ys = []" if "ys \<in> set (drop (Suc k) ls)" for ys
      using that k(1,3) by (auto simp: in_set_conv_nth)
    then have top: "concat (rev (drop (Suc k) ls)) = []" by simp
    have "ls = take k ls @ ls ! k # drop (Suc k) ls" by (rule id_take_nth_drop [OF k(1)])
    then have "concat (rev ls) = concat (rev (drop (Suc k) ls)) @ ls ! k @ concat (rev (take k ls))"
      by (metis append_Nil2 append_assoc concat.simps concat_append rev.simps(2) rev_append)
    then have all: "concat (rev ls) = ls ! k @ concat (rev (take k ls))" by (simp only: top append_Nil)
    have r: "r = Some (hd (ls ! k))" "ls' = take k ls @ tl (ls ! k) # drop (Suc k) ls"
      using assms Some k(1) by (auto simp: spec_dequeue_def upd_conv_take_nth_drop)
    then have "concat (rev ls') = concat (rev (drop (Suc k) ls)) @ tl (ls ! k) @ concat (rev (take k ls))" by simp
    then have "concat (rev ls') = tl (ls ! k) @ concat (rev (take k ls))" by (simp only: top append_Nil)
    with all r(1) k(2) show ?thesis by simp
  qed
  show "ls' = ls" if "r = None" using assms that by (auto simp: spec_dequeue_def split: option.splits)
qed

text \<open>Successive dequeues, each with whatever its allocator call returns.\<close>

fun dequeues :: "kmalloc_fn list \<Rightarrow> RunQueue \<Rightarrow> nat list \<times> RunQueue" where
  "dequeues [] rq = ([], rq)"
| "dequeues (kmalloc # ks) rq =
     (case runqueue_dequeue_best kmalloc rq of
        (rq1, None) \<Rightarrow> dequeues ks rq1
      | (rq1, Some p) \<Rightarrow> (case dequeues ks rq1 of (ps, rq2) \<Rightarrow> (p # ps, rq2)))"

lemma dequeues_order:
  "runqueue_inv rq \<Longrightarrow> dequeues ks rq = (ps, rq') \<Longrightarrow>
     runqueue_inv rq' \<and> ps = take (length ks) (concat (rev (levels rq))) \<and>
     concat (rev (levels rq')) = drop (length ks) (concat (rev (levels rq)))"
proof (induction ks arbitrary: rq ps)
  case (Cons kmalloc ks)
  obtain rq1 r where de: "runqueue_dequeue_best kmalloc rq = (rq1, r)" by fastforce
  note ok = dequeue_ok [OF Cons.prems(1) de]
  note o = spec_dequeue_order [OF ok(2) [symmetric]]
  show ?case
  proof (cases r)
    case None
    have e: "levels rq1 = levels rq" "concat (rev (levels rq)) = []" using o None by simp_all
    have "dequeues ks rq1 = (ps, rq')" using Cons.prems(2) de None by simp
    from Cons.IH [OF ok(1) this] show ?thesis by (simp only: e take_Nil drop_Nil simp_thms)
  next
    case (Some p)
    obtain ps1 where ps1: "dequeues ks rq1 = (ps1, rq')" "ps = p # ps1"
      using Cons.prems(2) de Some by (auto split: prod.splits)
    then show ?thesis using Cons.IH [OF ok(1) ps1(1)] o Some by simp
  qed
qed simp


subsection \<open>Removal\<close>

text \<open>The fields of a queued process say where it is.\<close>

definition index_ok :: "RunQueue \<Rightarrow> bool" where
  "index_ok rq \<longleftrightarrow> (\<forall>k<SCHED_PRIO_LEVELS. \<forall>j<length (levels rq ! k).
     rq_prio rq (levels rq ! k ! j) = int k \<and> rq_index rq (levels rq ! k ! j) = int (slot (queues rq ! k) j))"

lemma index_okD:
  "index_ok rq \<Longrightarrow> k < 4 \<Longrightarrow> j < length (levels rq ! k) \<Longrightarrow>
     rq_prio rq (levels rq ! k ! j) = int k \<and> rq_index rq (levels rq ! k ! j) = int (slot (queues rq ! k) j)"
  by (auto simp: index_ok_def SCHED_PRIO_LEVELS_def)

lemma index_inj:
  assumes "runqueue_inv rq" "index_ok rq" "k1 < 4" "k2 < 4" "i < length (levels rq ! k1)" "j < length (levels rq ! k2)"
    and "levels rq ! k1 ! i = levels rq ! k2 ! j"
  shows "k1 = k2 \<and> i = j"
proof -
  have k: "k1 = k2" and s: "slot (queues rq ! k1) i = slot (queues rq ! k2) j"
    using index_okD [OF assms(2,3,5)] index_okD [OF assms(2,4,6)] assms(7) by auto
  note d = runqueue_invD [OF assms(1)]
  have len: "length (levels rq ! k1) = sq_count (queues rq ! k1)" using d(2,6) [OF assms(3)] length_contents by simp
  then have "0 < sq_count (queues rq ! k1)" using assms(5) by linarith
  then obtain procs where "ring_ok (queues rq ! k1) procs" using q_ok_ring d(2) [OF assms(3)] by blast
  then have "sq_count (queues rq ! k1) \<le> sq_capacity (queues rq ! k1)" by (rule ring_okD(6))
  then show ?thesis using s k len assms(5,6) slot_inj [of i "queues rq ! k1" j] by simp
qed

lemma prev_slot_last:
  assumes "ring_ok q procs" "0 < sq_count q"
  shows "prev_slot q = slot q (sq_count q - 1)"
proof -
  note d = ring_okD [OF assms(1)]
  have t: "sq_tail q < sq_capacity q" using d(7) slot_less [OF d(3)] by simp
  have "prev_slot q = (sq_tail q + sq_capacity q - 1) mod sq_capacity q"
  proof (cases "sq_tail q")
    case 0
    have "(2 ^ 32 - 1 + sq_capacity q) = (sq_capacity q - 1) + 2 ^ 32" using d(3) by simp
    then have "(2 ^ 32 - 1 + sq_capacity q) mod 2 ^ 32 = sq_capacity q - 1" using d(4) by (simp only: mod_add_self2) simp
    then show ?thesis using 0 by (simp add: prev_slot_def dec32_def)
  next
    case (Suc n)
    then show ?thesis using t d(4) by (simp add: prev_slot_def)
  qed
  also have "\<dots> = (sq_tail q + (sq_capacity q - 1)) mod sq_capacity q" using d(3) by simp
  also have "\<dots> = (sq_head q + sq_count q + (sq_capacity q - 1)) mod sq_capacity q"
    unfolding d(7) slot_def by (rule mod_add_left_eq)
  also have "sq_head q + sq_count q + (sq_capacity q - 1) = sq_head q + (sq_count q - 1) + sq_capacity q"
    using assms(2) d(3) by simp
  finally show ?thesis by (simp add: slot_def)
qed

lemma unlink_ok:
  assumes ok: "ring_ok q procs" and j: "j < sq_count q"
  defines "q' \<equiv> sq_unlink procs (slot q j) q"
  shows "q_ok q'" "sq_count q' = sq_count q - 1"
    "contents q' = (if j = 0 then tl (contents q) else butlast ((contents q)[j := last (contents q)]))"
    "i < sq_count q - 1 \<Longrightarrow> slot q' i = (if j = 0 then slot q (Suc i) else slot q i)"
proof -
  note d = ring_okD [OF ok]
  let ?n = "sq_count q" and ?xs = "contents q"
  have n: "0 < ?n" using j by simp
  have dec: "dec32 ?n = ?n - 1" using n d(4,6) by simp
  have h0: "sq_head q = slot q 0" using d(5) by (simp add: slot_def)
  have len: "length ?xs = ?n" using length_contents ok by (auto simp: q_ok_def)
  have lt: "j < sq_capacity q" "?n - 1 < sq_capacity q" using j d(6) by auto
  note prev = prev_slot_last [OF ok n]
  have "q_ok q' \<and> sq_count q' = ?n - 1 \<and>
    contents q' = (if j = 0 then tl ?xs else butlast (?xs[j := last ?xs])) \<and>
    (i < ?n - 1 \<longrightarrow> slot q' i = (if j = 0 then slot q (Suc i) else slot q i))"
  proof (cases "?n = 1 \<or> j = 0")
    case True
    show ?thesis
    proof (cases "?n = 1")
      case True
      then have q': "q' = q\<lparr>sq_procs := Some (procs[slot q j := None]), sq_head := 0, sq_tail := 0, sq_count := 0\<rparr>"
        using dec by (simp add: q'_def sq_unlink_def Let_def)
      have "ring_ok q' (procs[slot q j := None])" using d by (simp add: ring_ok_def q' slot_def RUNQUEUE_MAX_CAP_def)
      moreover have "?xs = [hd ?xs]" using len True by (cases ?xs) auto
      then have "tl ?xs = []" by (metis list.sel(3))
      moreover have "j = 0" using j True by simp
      ultimately show ?thesis using True contents_nil [of q'] by (auto simp: q_ok_def q')
    next
      case False
      with \<open>?n = 1 \<or> j = 0\<close> have j0: "j = 0" by simp
      have "q' = sq_advance q" using False j0 dec h0 d(1) n by (simp add: q'_def sq_unlink_def sq_advance_def Let_def)
      moreover have "slot (sq_advance q) i = slot q (Suc i)" using d(1,4,5) n
        by (simp add: sq_advance_def slot_def mod_add_left_eq mod_Suc_eq)
      ultimately show ?thesis using advance_ok [OF ok n] j0 by (auto simp: q_ok_def)
    qed
  next
    case False
    then have j0: "j \<noteq> 0" "?n \<noteq> 1" "0 < ?n - 1" using n by auto
    let ?procs = "procs[slot q j := procs ! slot q (?n - 1), slot q (?n - 1) := None]"
    have ne: "slot q j \<noteq> sq_head q" using j0 lt d(3) slot_inj [of j q 0] h0 by simp
    have q': "q' = q\<lparr>sq_procs := Some ?procs, sq_tail := slot q (?n - 1), sq_count := ?n - 1\<rparr>"
    proof (cases "slot q j = slot q (?n - 1)")
      case True
      then show ?thesis using dec prev j0 ne by (simp add: q'_def sq_unlink_def Let_def)
    next
      case False
      then show ?thesis using dec prev j0 ne by (simp add: q'_def sq_unlink_def Let_def)
    qed
    have sl: "slot q' i = slot q i" for i by (simp add: q' slot_def)
    have at: "?procs ! slot q i = (if i = j then procs ! slot q (?n - 1) else procs ! slot q i)" if "i < ?n - 1" for i
      using that lt slot_inj [of i q j] slot_inj [of i q "?n - 1"] slot_less [OF d(3)] d(2) by (auto simp: nth_list_update)
    have r: "ring_ok q' ?procs" unfolding ring_ok_def sl
    proof (intro conjI allI impI)
      show "?procs ! slot q i \<noteq> None" if "i < sq_count q'" for i
        using that d(8) [of i] d(8) [of "?n - 1"] n at [of i] by (simp add: q' split: if_splits)
    qed (use d in \<open>simp_all add: q' RUNQUEUE_MAX_CAP_def\<close>)
    have "contents q' = butlast (?xs[j := last ?xs])"
    proof (rule nth_equalityI)
      have "length (contents q') = sq_count q'" using r by (intro length_contents) (auto simp: q_ok_def)
      then show l: "length (contents q') = length (butlast (?xs[j := last ?xs]))" by (simp add: len q')
      fix i assume "i < length (contents q')"
      then have i: "i < ?n - 1" using l len by simp
      have "last ?xs = the (procs ! slot q (?n - 1))" using n len by (simp add: contents_ring [OF ok] last_map)
      moreover have "sq_count q' = ?n - 1" by (simp add: q')
      then have "contents q' ! i = the (?procs ! slot q i)" using contents_nth [OF r, of i] i sl by simp
      moreover have "i < ?n" "contents q ! i = the (procs ! slot q i)" using contents_nth [OF ok, of i] i by simp_all
      ultimately show "contents q' ! i = butlast (?xs[j := last ?xs]) ! i"
        using i at [OF i] len by (simp add: nth_butlast nth_list_update)
    qed
    then show ?thesis using r j0 sl by (auto simp: q_ok_def q')
  qed
  then show "q_ok q'" "sq_count q' = ?n - 1"
    "contents q' = (if j = 0 then tl ?xs else butlast (?xs[j := last ?xs]))"
    "i < ?n - 1 \<Longrightarrow> slot q' i = (if j = 0 then slot q (Suc i) else slot q i)" by blast+
qed


text \<open>What removal does to a list: the first process leaves the rest in order; any other is replaced by the last.\<close>

lemma mset_unlink:
  assumes "j < length xs"
  shows "mset (if j = 0 then tl xs else butlast (xs[j := last xs])) = mset xs - {#xs ! j#}"
  using assms mset_swap_last [OF assms] by (cases xs) auto

lemma remove_fields:
  assumes inv: "runqueue_inv rq" and ix: "index_ok rq" and k: "k < 4" and j: "j < length (levels rq ! k)"
    and p: "levels rq ! k ! j = p" and q: "q = queues rq ! k"
  shows "queues (runqueue_remove rq p) = (queues rq)[k := sq_unlink (the (sq_procs q)) (slot q j) q]"
    "rq_total (runqueue_remove rq p) = rq_total rq - 1"
    "active_bitmap (runqueue_remove rq p) =
       (if sq_count q = 1 then active_bitmap rq AND NOT (push_bit k 1) else active_bitmap rq)"
    "rq_prio (runqueue_remove rq p) = (rq_prio rq)(p := -1)"
    "rq_index (runqueue_remove rq p) =
       (if j = 0 \<or> j = sq_count q - 1 then (rq_index rq)(p := -1)
        else (rq_index rq)(last (levels rq ! k) := int (slot q j), p := -1))"
    "runqueue_contains rq p"
proof -
  note d = runqueue_invD [OF inv]
  have len: "length (levels rq ! k) = sq_count q" using d(2,6) [OF k] length_contents q by simp
  have n: "0 < sq_count q" "j < sq_count q" using len j by linarith+
  obtain procs where ring: "ring_ok q procs" using q_ok_ring d(2) [OF k] n(1) q by blast
  note r = ring_okD [OF ring]
  have f: "rq_prio rq p = int k" "rq_index rq p = int (slot q j)" using index_okD [OF ix k j] p q by auto
  have cap: "\<not> sq_capacity q \<le> slot q j" using slot_less [OF r(3)] by (simp add: not_le)
  have here: "procs ! slot q j = Some p"
    using r(8) [OF n(2)] contents_nth [OF ring n(2)] p d(6) [OF k] q by auto
  have dec: "dec32 (sq_count q) = sq_count q - 1" using n(1) r(4,6) by simp
  have nth_last: "procs ! slot q (sq_count q - 1) = Some (last (levels rq ! k))"
  proof -
    have "levels rq ! k \<noteq> []" using len n(1) by auto
    then have "last (levels rq ! k) = contents q ! (sq_count q - 1)" using len d(6) [OF k] q by (simp add: last_conv_nth)
    then show ?thesis using r(8) [of "sq_count q - 1"] contents_nth [OF ring, of "sq_count q - 1"] n(1) by auto
  qed
  have h0: "sq_head q = slot q 0" using r(5) by (simp add: slot_def)
  have mv: "moved_proc procs (slot q j) q =
      (if j = 0 \<or> j = sq_count q - 1 then None else Some (last (levels rq ! k)))"
    using n r(6) slot_inj [of j q 0] slot_inj [of j q "sq_count q - 1"] prev_slot_last [OF ring n(1)] h0 dec nth_last
    by (auto simp: moved_proc_def)
  have one: "dec32 (sq_count q) = 0 \<longleftrightarrow> sq_count q = 1" using dec n(1) by auto
  note un = runqueue_remove_def f nat_int Let_def q [symmetric] cap r(1) here
  show "queues (runqueue_remove rq p) = (queues rq)[k := sq_unlink (the (sq_procs q)) (slot q j) q]"
    "rq_total (runqueue_remove rq p) = rq_total rq - 1"
    "active_bitmap (runqueue_remove rq p) =
       (if sq_count q = 1 then active_bitmap rq AND NOT (push_bit k 1) else active_bitmap rq)"
    "rq_prio (runqueue_remove rq p) = (rq_prio rq)(p := -1)"
    by (simp_all add: un one)
  show "rq_index (runqueue_remove rq p) =
       (if j = 0 \<or> j = sq_count q - 1 then (rq_index rq)(p := -1)
        else (rq_index rq)(last (levels rq ! k) := int (slot q j), p := -1))"
    by (simp add: un mv)
  show "runqueue_contains rq p"
    using k by (simp add: runqueue_contains_def f Let_def q [symmetric] r(1) cap here SCHED_PRIO_LEVELS_def)
qed

lemma runqueue_remove_ok:
  assumes inv: "runqueue_inv rq" and ix: "index_ok rq" and k: "k < 4" and j: "j < length (levels rq ! k)"
    and p: "levels rq ! k ! j = p"
  defines "xs \<equiv> levels rq ! k"
  shows "runqueue_inv (runqueue_remove rq p)"
    "levels (runqueue_remove rq p) = (levels rq)[k := (if j = 0 then tl xs else butlast (xs[j := last xs]))]"
proof -
  let ?q = "queues rq ! k" and ?q' = "sq_unlink (the (sq_procs (queues rq ! k))) (slot (queues rq ! k) j) (queues rq ! k)"
  note d = runqueue_invD [OF inv] and f = remove_fields [OF inv ix k j p refl]
  have len: "length (levels rq ! k) = sq_count ?q" using d(2,6) [OF k] length_contents by simp
  have n: "0 < sq_count ?q" "j < sq_count ?q" using len j by linarith+
  obtain procs where ring: "ring_ok ?q procs" using q_ok_ring d(2) [OF k] n(1) by blast
  have u: "q_ok ?q'" "sq_count ?q' = sq_count ?q - 1"
      "contents ?q' = (if j = 0 then tl (contents ?q) else butlast ((contents ?q)[j := last (contents ?q)]))"
    using unlink_ok(1-3) [OF ring n(2)] ring_okD(1) [OF ring] by simp_all
  have b: "bit (active_bitmap (runqueue_remove rq p)) i \<longleftrightarrow> (if i = k then 0 < sq_count ?q' else bit (active_bitmap rq) i)" for i
  proof (cases "sq_count ?q = 1")
    case True
    then show ?thesis using bit_clear_flag [of k "active_bitmap rq" i] k u(2) by (simp add: f(3))
  next
    case False
    then show ?thesis using d(3) [of k] k n u(2) by (simp add: f(3))
  qed
  have "of_nat (sq_count ?q) = (of_nat (sq_count ?q') + 1 :: u32)"
    using n u(2) by (metis Suc_pred' of_nat_Suc add.commute)
  then have t: "rq_total (runqueue_remove rq p) + of_nat (sq_count ?q) = rq_total rq + of_nat (sq_count ?q')"
    by (simp add: f(2))
  from inv_update [OF inv k u(1) f(1) b t]
  show "runqueue_inv (runqueue_remove rq p)"
    "levels (runqueue_remove rq p) = (levels rq)[k := (if j = 0 then tl xs else butlast (xs[j := last xs]))]"
    using u(3) d(6) [OF k] by (simp_all add: xs_def)
qed


lemma remove_index:
  assumes inv: "runqueue_inv rq" and ix: "index_ok rq" and k: "k < 4" and j: "j < length (levels rq ! k)"
    and p: "levels rq ! k ! j = p"
  shows "index_ok (runqueue_remove rq p)"
  unfolding index_ok_def SCHED_PRIO_LEVELS_def
proof (intro allI impI)
  let ?rq = "runqueue_remove rq p" and ?xs = "levels rq ! k" and ?q = "queues rq ! k"
  fix k2 i assume k2: "k2 < 4" and i: "i < length (levels ?rq ! k2)"
  note d = runqueue_invD [OF inv] and f = remove_fields [OF inv ix k j p refl] and r = runqueue_remove_ok [OF inv ix k j p]
  note inj = index_inj [OF inv ix]
  have len: "length ?xs = sq_count ?q" using d(2,6) [OF k] length_contents by simp
  have n: "0 < sq_count ?q" "j < sq_count ?q" "0 < length ?xs" using len j by linarith+
  obtain procs where ring: "ring_ok ?q procs" using q_ok_ring d(2) [OF k] n(1) by blast
  have last: "last ?xs = ?xs ! (sq_count ?q - 1)" using n(3) len last_conv_nth [of ?xs] by fastforce
  show "rq_prio ?rq (levels ?rq ! k2 ! i) = int k2 \<and> rq_index ?rq (levels ?rq ! k2 ! i) = int (slot (queues ?rq ! k2) i)"
  proof (cases "k2 = k")
    case False
    then have same: "levels ?rq ! k2 = levels rq ! k2" "queues ?rq ! k2 = queues rq ! k2" using r(2) f(1) by simp_all
    let ?e = "levels rq ! k2 ! i"
    have il: "i < length (levels rq ! k2)" using i same by simp
    have "?e \<noteq> p" "?e \<noteq> last ?xs"
      using inj [OF k2 k il j] inj [OF k2 k il, of "sq_count ?q - 1"] False p last n len by auto
    then show ?thesis using index_okD [OF ix k2 il] same by (simp add: f(4,5))
  next
    case True
    have lv: "levels ?rq ! k2 = (if j = 0 then tl ?xs else butlast (?xs[j := last ?xs]))"
      using r(2) k d(5) True by simp
    then have il: "i < sq_count ?q - 1" using i len by (auto split: if_splits)
    have sl: "slot (queues ?rq ! k2) i = (if j = 0 then slot ?q (Suc i) else slot ?q i)"
      using unlink_ok(4) [OF ring n(2) il] f(1) k d(1) True ring_okD(1) [OF ring] by simp
    have neq: "?xs ! a \<noteq> ?xs ! b" if "a < sq_count ?q" "b < sq_count ?q" "a \<noteq> b" for a b
      using inj [OF k k, of a b] that len by auto
    show ?thesis
    proof (cases "j = 0 \<or> i \<noteq> j")
      case True
      define m where "m = (if j = 0 then Suc i else i)"
      have m: "m < sq_count ?q" "m \<noteq> j" "j = 0 \<or> m \<noteq> sq_count ?q - 1" "slot (queues ?rq ! k2) i = slot ?q m"
        using True il sl by (auto simp: m_def)
      have "levels ?rq ! k2 ! i = ?xs ! m"
        using lv True il len by (auto simp: m_def nth_tl nth_butlast nth_list_update)
      then show ?thesis using index_okD [OF ix k, of m] m neq [OF m(1) n(2) m(2)] neq [OF m(1), of "sq_count ?q - 1"]
          n len p last \<open>k2 = k\<close> by (auto simp: f(4,5))
    next
      case False
      then have "levels ?rq ! k2 ! i = last ?xs" "j \<noteq> sq_count ?q - 1" "j \<noteq> 0" "i = j"
        using lv il len by (auto simp: nth_butlast nth_list_update)
      then show ?thesis using index_okD [OF ix k, of "sq_count ?q - 1"] neq [OF n(2), of "sq_count ?q - 1"]
          n len p last sl \<open>k2 = k\<close> by (auto simp: f(4,5))
    qed
  qed
qed


subsection \<open>When the fields are kept, and when they are lost\<close>

lemma enqueue_fields:
  assumes "runqueue_enqueue kmalloc rq p prio = (rq', True)"
  obtains q1 where "sq_grow kmalloc (queues rq ! nat prio) = Some q1" "sq_procs (queues rq ! nat prio) \<noteq> None"
    "queues rq' = (queues rq)[nat prio := sq_store p q1]" "rq_prio rq' = (rq_prio rq)(p := prio)"
    "rq_index rq' = (rq_index rq)(p := int (sq_tail q1))"
  using assms that by (auto simp: runqueue_enqueue_def Let_def split: if_splits option.splits)

lemma enqueue_index:
  assumes inv: "runqueue_inv rq" and ix: "index_ok rq" and e: "runqueue_enqueue kmalloc rq p prio = (rq', True)"
    and new: "\<forall>k<4. p \<notin> set (levels rq ! k)"
    and room: "sq_count (queues rq ! nat prio) < sq_capacity (queues rq ! nat prio)"
  shows "index_ok rq'"
  unfolding index_ok_def SCHED_PRIO_LEVELS_def
proof (intro allI impI)
  let ?q = "queues rq ! nat prio"
  obtain q1 where q1: "sq_grow kmalloc ?q = Some q1" "sq_procs ?q \<noteq> None" "queues rq' = (queues rq)[nat prio := sq_store p q1]"
      "rq_prio rq' = (rq_prio rq)(p := prio)" "rq_index rq' = (rq_index rq)(p := int (sq_tail q1))"
    using enqueue_fields [OF e] .
  have g: "q1 = ?q" using q1(1) room by (simp add: sq_grow_def)
  note d = runqueue_invD [OF inv] and ok = enqueue_ok [OF inv e]
  have k: "nat prio < 4" "prio = int (nat prio)" using ok(3) by (auto simp: nat_less_iff)
  obtain procs where ring: "ring_ok ?q procs" using q_ok_ring d(2) [OF k(1)] q1(2) by blast
  have len: "length (levels rq ! nat prio) = sq_count ?q" using d(2,6) [OF k(1)] length_contents by simp
  fix k i assume k2: "k < 4" and i: "i < length (levels rq' ! k)"
  have lv: "levels rq' = (levels rq)[nat prio := levels rq ! nat prio @ [p]]" using ok(2) by (simp add: spec_enqueue_def)
  have sl: "slot (queues rq' ! k) i = slot (queues rq ! k) i"
    using q1(3) g k d(1) by (cases "k = nat prio") (auto simp: sq_store_def slot_def)
  show "rq_prio rq' (levels rq' ! k ! i) = int k \<and> rq_index rq' (levels rq' ! k ! i) = int (slot (queues rq' ! k) i)"
  proof (cases "k = nat prio \<and> i = sq_count ?q")
    case True
    then have "levels rq' ! k ! i = p" using lv d(5) k(1) len by (simp add: nth_append)
    then show ?thesis using True k(2) sl ring_okD(7) [OF ring] g by (simp add: q1(4,5))
  next
    case False
    then have il: "i < length (levels rq ! k)" "levels rq' ! k ! i = levels rq ! k ! i"
      using i lv d(5) k(1) len by (auto simp: nth_list_update nth_append split: if_splits)
    then have "levels rq ! k ! i \<noteq> p" using new k2 by (auto dest: nth_mem)
    then show ?thesis using index_okD [OF ix k2 il(1)] il(2) sl by (simp add: q1(4,5))
  qed
qed

lemma resize_capacity: "schedqueue_resize kmalloc q n = Some q' \<Longrightarrow> sq_capacity q' = n"
  by (auto simp: schedqueue_resize_def Let_def split: if_splits option.splits)

lemma shrink_same:
  assumes "sq_capacity (sq_shrink kmalloc q) = sq_capacity q"
  shows "sq_shrink kmalloc q = q"
proof (rule ccontr)
  assume c: "sq_shrink kmalloc q \<noteq> q"
  let ?cap = "if sq_capacity q div 2 < RUNQUEUE_INITIAL_CAP then RUNQUEUE_INITIAL_CAP else sq_capacity q div 2"
  have big: "RUNQUEUE_INITIAL_CAP < sq_capacity q" and r: "schedqueue_resize kmalloc q ?cap = Some (sq_shrink kmalloc q)"
    using c by (auto simp: sq_shrink_def Let_def split: if_splits option.splits)
  have "sq_capacity (sq_shrink kmalloc q) = ?cap" by (rule resize_capacity [OF r])
  then show False using assms big by (auto split: if_splits)
qed

lemma dequeue_fields:
  assumes "runqueue_dequeue_best kmalloc rq = (rq', Some p)"
  shows "queues rq' = (queues rq)[best_prio rq := sq_shrink kmalloc (sq_advance (queues rq ! best_prio rq))]"
    "rq_prio rq' = (rq_prio rq)(p := -1)" "rq_index rq' = (rq_index rq)(p := -1)"
    "sq_first (queues rq ! best_prio rq) = Some p" "active_bitmap rq \<noteq> 0" "0 < sq_count (queues rq ! best_prio rq)"
  using assms by (auto simp: runqueue_dequeue_best_def Let_def split: if_splits option.splits)

lemma dequeue_index:
  assumes inv: "runqueue_inv rq" and ix: "index_ok rq" and de: "runqueue_dequeue_best kmalloc rq = (rq', Some p)"
    and same: "sq_capacity (queues rq' ! best_prio rq) = sq_capacity (queues rq ! best_prio rq)"
  shows "index_ok rq'"
  unfolding index_ok_def SCHED_PRIO_LEVELS_def
proof (intro allI impI)
  let ?k = "best_prio rq" and ?q = "queues rq ! best_prio rq"
  note d = runqueue_invD [OF inv] and f = dequeue_fields [OF de] and ok = dequeue_ok [OF inv de]
  obtain k0 where k0: "best_level (levels rq) = Some k0"
    using ok(2) by (auto simp: spec_dequeue_def split: option.splits)
  have k: "?k < 4" "?k = k0"
  proof -
    have b: "k0 < 4" "levels rq ! k0 \<noteq> []" "\<And>i. k0 < i \<Longrightarrow> i < 4 \<Longrightarrow> levels rq ! i = []"
      using k0 d(5) by (auto simp: best_level_Some)
    show "?k = k0" using b d(3,7) by (intro best_prio_highest) auto
    then show "?k < 4" using b(1) by simp
  qed
  have lv: "levels rq' = (levels rq)[?k := tl (levels rq ! ?k)]" and p: "p = hd (levels rq ! ?k)"
    using ok(2) k0 k(2) by (auto simp: spec_dequeue_def)
  obtain procs where ring: "ring_ok ?q procs" using q_ok_ring d(2) [OF k(1)] f(6) by blast
  note r = ring_okD [OF ring]
  have "sq_capacity (sq_shrink kmalloc (sq_advance ?q)) = sq_capacity (sq_advance ?q)"
    using same f(1) d(1) k(1) by (simp add: sq_advance_def)
  then have q': "queues rq' = (queues rq)[?k := sq_advance ?q]" using f(1) by (simp only: shrink_same)
  have len: "length (levels rq ! ?k) = sq_count ?q" using d(2,6) [OF k(1)] length_contents by simp
  have p0: "p = levels rq ! ?k ! 0" "0 < length (levels rq ! ?k)" using p len f(6) by (simp_all add: hd_conv_nth flip: length_greater_0_conv)
  fix k2 i assume k2: "k2 < 4" and i: "i < length (levels rq' ! k2)"
  define m where "m = (if k2 = ?k then Suc i else i)"
  have m: "m < length (levels rq ! k2)" "levels rq' ! k2 ! i = levels rq ! k2 ! m"
    using i lv d(5) k(1) by (auto simp: m_def nth_tl)
  have "slot (sq_advance ?q) i = slot ?q (Suc i)"
    using r(4,5) by (simp add: sq_advance_def slot_def mod_add_left_eq mod_Suc_eq)
  then have sl: "slot (queues rq' ! k2) i = slot (queues rq ! k2) m"
    using q' d(1) k(1) by (cases "k2 = ?k") (simp_all add: m_def)
  have "m \<noteq> 0 \<or> k2 \<noteq> ?k" by (simp add: m_def)
  then have "levels rq ! k2 ! m \<noteq> p" using index_inj [OF inv ix k2 k(1) m(1) p0(2)] p0(1) by blast
  then show "rq_prio rq' (levels rq' ! k2 ! i) = int k2 \<and> rq_index rq' (levels rq' ! k2 ! i) = int (slot (queues rq' ! k2) i)"
    using index_okD [OF ix k2 m(1)] m(2) sl by (simp add: f(2,3))
qed

text \<open>
  A ring that grows while its head is not at slot 0 moves its processes but not their indices: the
  first process in line is still queued, yet \<^verbatim>\<open>runqueue_contains\<close> denies it and
  \<^verbatim>\<open>runqueue_remove\<close> leaves it there.
\<close>

lemma grow_loses_index:
  assumes inv: "runqueue_inv rq" and ix: "index_ok rq" and e: "runqueue_enqueue kmalloc rq p prio = (rq', True)"
    and new: "\<forall>k<4. p \<notin> set (levels rq ! k)"
    and full: "sq_count (queues rq ! nat prio) = sq_capacity (queues rq ! nat prio)"
    and head: "sq_head (queues rq ! nat prio) \<noteq> 0"
  shows "hd (levels rq' ! nat prio) = hd (levels rq ! nat prio) \<and> \<not> runqueue_contains rq' (hd (levels rq ! nat prio)) \<and>
    runqueue_remove rq' (hd (levels rq ! nat prio)) = rq'"
proof -
  let ?q = "queues rq ! nat prio" and ?xs = "levels rq ! nat prio" and ?h = "sq_head (queues rq ! nat prio)"
  obtain q1 where q1: "sq_grow kmalloc ?q = Some q1" "sq_procs ?q \<noteq> None" "queues rq' = (queues rq)[nat prio := sq_store p q1]"
      "rq_prio rq' = (rq_prio rq)(p := prio)" "rq_index rq' = (rq_index rq)(p := int (sq_tail q1))"
    using enqueue_fields [OF e] .
  note d = runqueue_invD [OF inv] and ok = enqueue_ok [OF inv e]
  have k: "nat prio < 4" "prio = int (nat prio)" using ok(3) by (auto simp: nat_less_iff)
  obtain procs where ring: "ring_ok ?q procs" using q_ok_ring d(2) [OF k(1)] q1(2) by blast
  note r = ring_okD [OF ring]
  have len: "length ?xs = sq_count ?q" using d(2,6) [OF k(1)] length_contents by simp
  then have ne: "?xs \<noteq> []" "0 < length ?xs" using full r(3) by auto
  let ?f = "hd ?xs"
  have f: "?f = ?xs ! 0" "?f \<noteq> p" using ne new k(1) hd_in_set [OF ne(1)] by (auto simp: hd_conv_nth)
  have fx: "rq_prio rq' ?f = prio" "rq_index rq' ?f = int ?h"
    using index_okD [OF ix k(1) ne(2)] f k(2) r(5) by (auto simp: q1(4,5) slot_def)
  let ?cap = "if sq_capacity ?q * 2 > RUNQUEUE_MAX_CAP then RUNQUEUE_MAX_CAP else sq_capacity ?q * 2"
  have g: "sq_count ?q < ?cap" "schedqueue_resize kmalloc ?q ?cap = Some q1"
    using q1(1) full by (auto simp: sq_grow_def Let_def split: if_splits)
  note z = resize_ok [OF ring g]
  obtain procs1 where r1: "ring_ok q1 procs1" using z(1) by blast
  have s1: "sq_count q1 < sq_capacity q1" using z(3,4) g(1) by simp
  note st = store_ok [OF r1 s1, of p]
  have hs: "?h < sq_count (sq_store p q1)" "?h < length ?xs" using st(3) z(3) r(5) full len by simp_all
  have sl: "slot (sq_store p q1) ?h = ?h" using z(4,5) r(5) full g(1) by (simp add: sq_store_def slot_def)
  have q': "queues rq' ! nat prio = sq_store p q1" using q1(3) d(1) k(1) by simp
  have "contents (sq_store p q1) ! ?h = ?xs ! ?h"
    using st(2) z(2) hs(2) d(6) [OF k(1)] by (simp add: nth_append)
  moreover have "?xs ! ?h \<noteq> ?f" using index_inj [OF inv ix k(1) k(1) hs(2) ne(2)] f(1) head by auto
  ultimately have other: "procs1[sq_tail q1 := Some p] ! ?h \<noteq> Some ?f"
    using contents_nth [OF st(1) hs(1)] sl by auto
  have "\<not> runqueue_contains rq' ?f"
    using other fx k by (simp add: runqueue_contains_def Let_def q' ring_okD(1) [OF st(1)])
  moreover have "runqueue_remove rq' ?f = rq'"
    using other fx k by (simp add: runqueue_remove_def Let_def q' ring_okD(1) [OF st(1)])
  moreover have "hd (levels rq' ! nat prio) = ?f" using ok(2) d(5) k(1) ne(1) by (simp add: spec_enqueue_def)
  ultimately show ?thesis by blast
qed


lemma resize_None: "sq_count q \<le> n \<Longrightarrow> n \<le> RUNQUEUE_MAX_CAP \<Longrightarrow> schedqueue_resize kmalloc q n = None \<longleftrightarrow> kmalloc n = None"
  by (auto simp: schedqueue_resize_def Let_def split: option.splits)

lemma enqueue_accepts:
  assumes "runqueue_inv rq" "0 \<le> prio" "prio < 4"
  defines "q \<equiv> queues rq ! nat prio"
  shows "snd (runqueue_enqueue kmalloc rq p prio) \<longleftrightarrow> sq_procs q \<noteq> None \<and>
    (sq_count q < sq_capacity q \<or>
     (sq_count q < RUNQUEUE_MAX_CAP \<and> kmalloc (min (2 * sq_capacity q) RUNQUEUE_MAX_CAP) \<noteq> None))"
proof -
  have k: "nat prio < 4" using assms(2,3) by (simp add: nat_less_iff)
  have "snd (runqueue_enqueue kmalloc rq p prio) \<longleftrightarrow> sq_procs q \<noteq> None \<and> sq_grow kmalloc q \<noteq> None"
    using assms(2,3) by (auto simp: runqueue_enqueue_def Let_def SCHED_PRIO_LEVELS_def q_def split: option.splits)
  moreover have "sq_grow kmalloc q = None \<longleftrightarrow> \<not> (sq_count q < sq_capacity q \<or>
     (sq_count q < RUNQUEUE_MAX_CAP \<and> kmalloc (min (2 * sq_capacity q) RUNQUEUE_MAX_CAP) \<noteq> None))" if some: "sq_procs q \<noteq> None"
  proof -
    have "q_ok q" using runqueue_invD(2) [OF assms(1) k] by (simp add: q_def)
    then obtain procs where "ring_ok q procs" using q_ok_ring some by blast
    note r = ring_okD [OF this]
    have m: "(if sq_capacity q * 2 > RUNQUEUE_MAX_CAP then RUNQUEUE_MAX_CAP else sq_capacity q * 2) =
        min (2 * sq_capacity q) RUNQUEUE_MAX_CAP" by (simp add: min_def)
    have "sq_grow kmalloc q = (if sq_count q \<ge> sq_capacity q
        then if min (2 * sq_capacity q) RUNQUEUE_MAX_CAP \<le> sq_count q then None
             else schedqueue_resize kmalloc q (min (2 * sq_capacity q) RUNQUEUE_MAX_CAP) else Some q)"
      unfolding sq_grow_def Let_def m ..
    then show ?thesis using r(3,6) resize_None [of q "min (2 * sq_capacity q) RUNQUEUE_MAX_CAP" kmalloc] by auto
  qed
  ultimately show ?thesis by (cases "sq_procs q = None") simp_all
qed

text \<open>A queue for the witnesses: process 7 waits at priority 1 and process 9 at priority 3.\<close>

definition no_procs :: RunQueue where
  "no_procs = \<lparr>queues = [], active_bitmap = 0, rq_total = 0, rq_prio = (\<lambda>_. -1), rq_index = (\<lambda>_. -1)\<rparr>"

definition one_waits :: RunQueue where
  "one_waits = fst (runqueue_enqueue (\<lambda>_. None) (runqueue_init (\<lambda>_. True) no_procs) 7 1)"

definition two_wait :: RunQueue where
  "two_wait = fst (runqueue_enqueue (\<lambda>_. None) one_waits 9 3)"

lemma one_waits_enq: "runqueue_enqueue (\<lambda>_. None) (runqueue_init (\<lambda>_. True) no_procs) 7 1 = (one_waits, True)"
  using enqueue_accepts [of "runqueue_init (\<lambda>_. True) no_procs" 1 "\<lambda>_. None" 7] runqueue_init_ok [of "\<lambda>_. True" no_procs]
  by (simp add: one_waits_def runqueue_init_def init_queue_def RUNQUEUE_INITIAL_CAP_def SCHED_PRIO_LEVELS_def)
    (simp add: prod_eq_iff)

lemma one_waits_ok: "runqueue_inv one_waits" "levels one_waits = [[], [7], [], []]" "index_ok one_waits"
proof -
  note i = runqueue_init_ok [of "\<lambda>_. True" no_procs]
  show "runqueue_inv one_waits" using enqueue_ok(1) [OF _ one_waits_enq] i by blast
  have r: "replicate 4 [] = [[], [], [], [] :: nat list]" by (simp add: numeral_eq_Suc)
  show "levels one_waits = [[], [7], [], []]"
    using enqueue_ok(2) [OF _ one_waits_enq] i by (simp add: spec_enqueue_def r)
  have "index_ok (runqueue_init (\<lambda>_. True) no_procs)" using i by (simp add: index_ok_def SCHED_PRIO_LEVELS_def)
  then show "index_ok one_waits"
    by (rule enqueue_index [OF conjunct1 [OF i] _ one_waits_enq])
      (simp_all add: i, simp add: runqueue_init_def init_queue_def SCHED_PRIO_LEVELS_def RUNQUEUE_INITIAL_CAP_def)
qed


lemma two_wait_enq: "runqueue_enqueue (\<lambda>_. None) one_waits 9 3 = (two_wait, True)"
proof -
  obtain q1 where q1: "queues one_waits = (queues (runqueue_init (\<lambda>_. True) no_procs))[1 := sq_store 7 q1]"
    using enqueue_fields [OF one_waits_enq] by auto
  have "queues one_waits ! 3 = init_queue True" by (simp add: q1 runqueue_init_def SCHED_PRIO_LEVELS_def)
  then show ?thesis using enqueue_accepts [OF one_waits_ok(1), of 3 "\<lambda>_. None" 9]
    by (simp add: two_wait_def init_queue_def RUNQUEUE_INITIAL_CAP_def) (simp add: prod_eq_iff)
qed

lemma two_wait_ok: "runqueue_inv two_wait" "levels two_wait = [[], [7], [], [9]]"
  using enqueue_ok(1,2) [OF one_waits_ok(1) two_wait_enq] one_waits_ok(2) by (simp_all add: spec_enqueue_def)

section \<open>Properties\<close>

text \<open>
  C8. The run queue refines the specification with one list per priority: from a well-formed state,
  an accepted enqueue appends the process to the list of its priority and a refused one changes
  nothing, a dequeue removes and returns the first process of the highest non-empty list (or nothing
  when all are empty), whatever the rings did to grow or shrink and whatever the allocator returned;
  well-formedness is kept, and the atomic total is the number of queued processes.
\<close>

theorem runqueue_refines:
  assumes "runqueue_inv rq"
  shows "(case runqueue_enqueue kmalloc rq p prio of (rq', ok) \<Rightarrow> runqueue_inv rq' \<and>
      levels rq' = (if ok then spec_enqueue (levels rq) p (nat prio) else levels rq)) \<and>
    (case runqueue_dequeue_best kmalloc rq of (rq', r) \<Rightarrow> runqueue_inv rq' \<and> (levels rq', r) = spec_dequeue (levels rq)) \<and>
    RunqueueAtomicTotal rq = of_nat (length (concat (levels rq)))"
  using enqueue_ok(1,2) [OF assms] dequeue_ok [OF assms] total_length [OF assms]
  by (simp add: RunqueueAtomicTotal_def split: prod.splits)

theorem runqueue_refines_witness:
  "\<exists>rq'. runqueue_dequeue_best (\<lambda>_. None) two_wait = (rq', Some 9) \<and> levels rq' = [[], [7], [], []]"
proof -
  have "best_level [[], [7], [], [9 :: nat]] = Some 3" by (simp add: best_level_def)
  then show ?thesis using runqueue_refines [OF two_wait_ok(1), where kmalloc = "\<lambda>_. None"] two_wait_ok(2)
    by (auto simp: spec_dequeue_def split: prod.splits)
qed

text \<open>
  C35. Every queued process is served: as long as nothing is added, successive dequeues deliver the
  waiting processes by falling priority and, within a priority, in order of arrival; a process with
  \<open>i\<close> others ahead of it is delivered by dequeue number \<open>i + 1\<close>, and after as many dequeues as
  there were processes the queue is empty.
\<close>

theorem runqueue_drains:
  assumes "runqueue_inv rq" and "dequeues ks rq = (delivered, rq')"
  shows "delivered = take (length ks) (concat (rev (levels rq))) \<and>
    (length ks \<ge> length (concat (levels rq)) \<longrightarrow> set delivered = set (concat (levels rq)) \<and> RunqueueAtomicTotal rq' = 0)"
proof -
  note o = dequeues_order [OF assms]
  have len: "length (concat (rev (levels rq))) = length (concat (levels rq))" by (simp add: length_concat sum_list_rev flip: rev_map)
  have "RunqueueAtomicTotal rq' = 0" if "length ks \<ge> length (concat (levels rq))"
  proof -
    have "concat (rev (levels rq')) = []" using o that len by (metis drop_all)
    then have "length (concat (levels rq')) = 0" by simp
    then have "of_nat (length (concat (levels rq'))) = (0 :: u32)" by (rule ssubst) simp
    moreover have "runqueue_inv rq'" using o by blast
    ultimately show ?thesis unfolding RunqueueAtomicTotal_def by (rule trans [OF total_length, rotated])
  qed
  moreover have "set delivered = set (concat (levels rq))" if "length ks \<ge> length (concat (levels rq))"
    using o that len by (metis set_concat set_rev take_all)
  ultimately show ?thesis using o by blast
qed

theorem runqueue_drains_witness:
  "\<exists>rq'. dequeues [\<lambda>_. None, \<lambda>_. None] two_wait = ([9, 7], rq') \<and> RunqueueAtomicTotal rq' = 0"
proof -
  obtain ds rq' where ds: "dequeues [\<lambda>_. None, \<lambda>_. None] two_wait = (ds, rq')" by fastforce
  then show ?thesis using runqueue_drains [OF two_wait_ok(1) ds] two_wait_ok(2) by simp
qed

text \<open>
  The states of a run queue since its start in which no ring has been resized: processes are enqueued that do
  not wait already, into rings with room; dequeues leave the ring its size; waiting processes are removed.
\<close>

inductive unresized :: "RunQueue \<Rightarrow> bool" where
  start: "unresized (runqueue_init allocated rq)"
| enqueue: "unresized rq \<Longrightarrow> \<forall>k<4. p \<notin> set (levels rq ! k) \<Longrightarrow>
    sq_count (queues rq ! nat prio) < sq_capacity (queues rq ! nat prio) \<Longrightarrow>
    runqueue_enqueue kmalloc rq p prio = (rq', ok) \<Longrightarrow> unresized rq'"
| dequeue: "unresized rq \<Longrightarrow> runqueue_dequeue_best kmalloc rq = (rq', r) \<Longrightarrow>
    sq_capacity (queues rq' ! best_prio rq) = sq_capacity (queues rq ! best_prio rq) \<Longrightarrow> unresized rq'"
| remove: "unresized rq \<Longrightarrow> k < 4 \<Longrightarrow> p \<in> set (levels rq ! k) \<Longrightarrow> unresized (runqueue_remove rq p)"

lemma unresized_ok: "unresized rq \<Longrightarrow> runqueue_inv rq \<and> index_ok rq"
proof (induction rule: unresized.induct)
  case (start allocated rq)
  then show ?case using runqueue_init_ok [of allocated rq] by (simp add: index_ok_def SCHED_PRIO_LEVELS_def)
next
  case (enqueue rq p prio kmalloc rq' ok)
  then show ?case using enqueue_ok(1) [OF _ enqueue.hyps(4)] enqueue_index [of rq kmalloc p prio rq']
    enqueue_push(2) [of prio kmalloc rq p rq' ok] by (cases ok) (auto simp: runqueue_enqueue_def SCHED_PRIO_LEVELS_def Let_def split: if_splits option.splits)
next
  case (dequeue rq kmalloc rq' r)
  have "index_ok rq'"
  proof (cases r)
    case None
    then have "rq' = rq" using dequeue.hyps(2) by (auto simp: runqueue_dequeue_best_def Let_def split: if_splits option.splits)
    then show ?thesis using dequeue.IH by simp
  next
    case (Some p)
    then show ?thesis using dequeue_index dequeue.hyps(2,3) dequeue.IH by blast
  qed
  then show ?case using dequeue_ok(1) dequeue.hyps(2) dequeue.IH by blast
next
  case (remove rq k p)
  obtain j where j: "j < length (levels rq ! k)" "levels rq ! k ! j = p" using remove.hyps(3) by (auto simp: in_set_conv_nth)
  then show ?case using runqueue_remove_ok(1) remove_index remove.hyps(2) remove.IH by blast
qed

text \<open>
  C36. Removing a process from wherever it waits: while the fields of the queued processes locate them, as
  they do as long as no ring has been resized (\<open>unresized_ok\<close>; a resize that moves the processes breaks them, \<open>grow_loses_index\<close>),
  \<^verbatim>\<open>runqueue_contains\<close> finds a queued process and \<^verbatim>\<open>runqueue_remove\<close> takes out exactly that one,
  keeps the order when it was first, leaves the other priorities alone, and the fields of all
  processes that remain, including the one moved into the hole, still locate them.
\<close>

theorem runqueue_remove_exact:
  assumes "runqueue_inv rq" and "index_ok rq" and "k < SCHED_PRIO_LEVELS" and "p \<in> set (levels rq ! k)"
  shows "runqueue_contains rq p \<and> runqueue_inv (runqueue_remove rq p) \<and> index_ok (runqueue_remove rq p) \<and>
    mset (levels (runqueue_remove rq p) ! k) = mset (levels rq ! k) - {#p#} \<and>
    (hd (levels rq ! k) = p \<longrightarrow> levels (runqueue_remove rq p) ! k = tl (levels rq ! k)) \<and>
    (\<forall>k'. k' \<noteq> k \<longrightarrow> levels (runqueue_remove rq p) ! k' = levels rq ! k')"
proof -
  have k: "k < 4" using assms(3) by (simp add: SCHED_PRIO_LEVELS_def)
  obtain j where j: "j < length (levels rq ! k)" "levels rq ! k ! j = p" using assms(4) by (auto simp: in_set_conv_nth)
  note r = runqueue_remove_ok [OF assms(1,2) k j]
  have "levels (runqueue_remove rq p) ! k =
      (if j = 0 then tl (levels rq ! k) else butlast ((levels rq ! k)[j := last (levels rq ! k)]))"
    using r(2) k runqueue_invD(5) [OF assms(1)] by simp
  moreover have "j = 0" if "hd (levels rq ! k) = p"
    using index_inj [OF assms(1,2) k k j(1), of 0] j that by (cases "levels rq ! k = []") (auto simp: hd_conv_nth)
  moreover have "levels (runqueue_remove rq p) ! k' = levels rq ! k'" if "k' \<noteq> k" for k' using r(2) that by simp
  ultimately show ?thesis
    using mset_unlink [OF j(1)] j(2) r(1) remove_index [OF assms(1,2) k j] remove_fields(6) [OF assms(1,2) k j refl]
    by auto
qed

theorem runqueue_remove_exact_witness: "levels (runqueue_remove one_waits 7) ! 1 = [] \<and> runqueue_contains one_waits 7"
  using runqueue_remove_exact [OF one_waits_ok(1,3), of 1 7] one_waits_ok(2) by (simp add: SCHED_PRIO_LEVELS_def)

text \<open>
  When an enqueue is refused: exactly for a priority out of range, a level without a ring, a ring
  that is full at \<^verbatim>\<open>RUNQUEUE_MAX_CAP\<close>, or a full smaller ring for which the allocator has no
  memory; a refused enqueue changes nothing.
\<close>

theorem runqueue_enqueue_refused:
  assumes "runqueue_inv rq"
  shows "(\<not> snd (runqueue_enqueue kmalloc rq p prio) \<longleftrightarrow> prio < 0 \<or> prio \<ge> int SCHED_PRIO_LEVELS \<or>
      (let q = queues rq ! nat prio in sq_procs q = None \<or> sq_count q = RUNQUEUE_MAX_CAP \<or>
        (sq_count q = sq_capacity q \<and> kmalloc (min (2 * sq_capacity q) RUNQUEUE_MAX_CAP) = None))) \<and>
    (\<not> snd (runqueue_enqueue kmalloc rq p prio) \<longrightarrow> fst (runqueue_enqueue kmalloc rq p prio) = rq)"
proof (cases "0 \<le> prio \<and> prio < 4")
  case True
  let ?q = "queues rq ! nat prio"
  have "q_ok ?q" using True runqueue_invD(2) [OF assms] by (simp add: nat_less_iff)
  then have "sq_procs ?q \<noteq> None \<Longrightarrow> sq_count ?q \<le> sq_capacity ?q \<and> sq_capacity ?q \<le> RUNQUEUE_MAX_CAP"
    by (auto simp: q_ok_def ring_ok_def)
  moreover have "\<not> snd (runqueue_enqueue kmalloc rq p prio) \<longrightarrow> fst (runqueue_enqueue kmalloc rq p prio) = rq"
    using enqueue_push(2) [of prio kmalloc rq p] True by (metis prod.collapse)
  ultimately show ?thesis using enqueue_accepts [OF assms, of prio kmalloc p] True
    by (auto simp: SCHED_PRIO_LEVELS_def Let_def)
next
  case False
  then show ?thesis by (auto simp: runqueue_enqueue_def SCHED_PRIO_LEVELS_def)
qed

theorem runqueue_enqueue_refused_witness: "runqueue_enqueue (\<lambda>_. None) two_wait 5 4 = (two_wait, False)"
  using runqueue_enqueue_refused [OF two_wait_ok(1), where kmalloc = "\<lambda>_. None" and p = 5 and prio = 4] by (simp add: SCHED_PRIO_LEVELS_def prod_eq_iff)

end
