(* ===== verification/TagBitmap.thy ===== *)
theory TagBitmap
  imports BitArray ArrayMultiset "HOL-Library.Monad_Syntax"
begin

unbundle bit_operations_syntax

text \<open>
  The tag index of the file system, kernel/tagfs/tag\_bitmap/tag\_bitmap.c: for every tag a bitmap over
  file numbers, and for every file the list of its tags (the reverse index). Tag and file numbers are
  natural numbers standing for \<^verbatim>\<open>uint16_t\<close> and \<^verbatim>\<open>uint32_t\<close> values; where the code computes with them
  at those widths the wrap-around is written out. \<open>None\<close> as the result of an operation means that it
  does not return or writes outside an array. Whether each allocation succeeds is a parameter. The
  query and its cache are in theory TagQuery. Each operation runs under the index's lock.
\<close>

section \<open>State\<close>

record TagBitmap =
  tb_bits :: bytes
  tb_bit_count :: nat
  tb_file_count :: u32

record TagIdList =
  tl_ids :: "nat list"
  tl_capacity :: nat

definition QUERY_CACHE_SLOTS :: nat where "QUERY_CACHE_SLOTS = 16"

record QueryCacheEntry =
  qc_hash :: u32
  qc_generation :: nat
  qc_file_ids :: "nat list option"
  qc_count :: nat
  qc_tag_key :: "nat list option"
  qc_tag_count :: nat

text \<open>
  \<^verbatim>\<open>bitmap_capacity\<close> and \<^verbatim>\<open>file_capacity\<close> are the lengths of the two arrays. The generation is a
  64-bit counter of updates, taken not to wrap.
\<close>

record TagBitmapIndex =
  bitmaps :: "TagBitmap option list"
  max_file_id :: nat
  file_to_tags :: "TagIdList list"
  generation :: nat
  cache :: "QueryCacheEntry list"

definition no_entry :: QueryCacheEntry where
  "no_entry = \<lparr>qc_hash = 0, qc_generation = 0, qc_file_ids = None, qc_count = 0, qc_tag_key = None, qc_tag_count = 0\<rparr>"

text \<open>Which of the allocations of one update succeed.\<close>

record SetMem =
  m_tags :: bool
  m_files :: bool
  m_bitmap :: bool
  m_bits :: bool
  m_ids :: bool

section \<open>Growing the arrays\<close>

text \<open>\<^verbatim>\<open>while (new_cap <= id) new_cap *= 2;\<close> at 32 bits: it does not end once \<open>new_cap\<close> has become 0.\<close>

partial_function (option) cap_loop :: "nat \<Rightarrow> nat \<Rightarrow> nat option" where
  "cap_loop new_cap i = (if new_cap \<le> i then cap_loop (u32_wrap (new_cap * 2)) i else Some new_cap)"

definition start_cap :: "nat \<Rightarrow> nat" where
  "start_cap cap = (if cap \<noteq> 0 then cap else 64)"

definition ensure_bitmap_capacity :: "bool \<Rightarrow> TagBitmapIndex \<Rightarrow> nat \<Rightarrow> TagBitmapIndex option" where
  "ensure_bitmap_capacity kmalloc_ok idx tag_id =
     (let cap = length (bitmaps idx) in
      if tag_id < cap then Some idx
      else do {
        new_cap \<leftarrow> cap_loop (start_cap cap) tag_id;
        Some (if kmalloc_ok then idx\<lparr>bitmaps := bitmaps idx @ replicate (new_cap - cap) None\<rparr> else idx)
      })"

definition no_tags :: TagIdList where
  "no_tags = \<lparr>tl_ids = [], tl_capacity = 0\<rparr>"

definition ensure_file_capacity :: "bool \<Rightarrow> TagBitmapIndex \<Rightarrow> nat \<Rightarrow> TagBitmapIndex option" where
  "ensure_file_capacity kmalloc_ok idx file_id =
     (let cap = length (file_to_tags idx) in
      if file_id < cap then Some idx
      else do {
        new_cap \<leftarrow> cap_loop (start_cap cap) file_id;
        Some (if kmalloc_ok then idx\<lparr>file_to_tags := file_to_tags idx @ replicate (new_cap - cap) no_tags\<rparr> else idx)
      })"

definition ensure_bitmap_width :: "bool \<Rightarrow> TagBitmap \<Rightarrow> nat \<Rightarrow> TagBitmap" where
  "ensure_bitmap_width kmalloc_ok bm new_max =
     (if tb_bit_count bm \<ge> u32_wrap (new_max + 1) then bm
      else
        let old_size = u32_wrap (tb_bit_count bm + 7) div 8; new_size = u32_wrap (new_max + 8) div 8
        in if \<not> kmalloc_ok then bm
           else bm\<lparr>tb_bits := take old_size (tb_bits bm) @ replicate (new_size - old_size) 0,
                   tb_bit_count := u32_wrap (new_size * 8)\<rparr>)"

section \<open>The reverse index\<close>

definition set_list :: "TagBitmapIndex \<Rightarrow> nat \<Rightarrow> TagIdList \<Rightarrow> TagBitmapIndex" where
  "set_list idx file_id l = idx\<lparr>file_to_tags := (file_to_tags idx)[file_id := l]\<rparr>"

definition grown_ids_cap :: "nat \<Rightarrow> nat" where
  "grown_ids_cap cap = (if cap \<noteq> 0 then u16_wrap (cap * 2) else 4)"

definition reverse_index_add :: "bool \<Rightarrow> TagBitmapIndex \<Rightarrow> nat \<Rightarrow> nat \<Rightarrow> TagBitmapIndex option" where
  "reverse_index_add kmalloc_ok idx file_id tag_id =
     (let l = file_to_tags idx ! file_id; n = length (tl_ids l) in
      if tag_id \<in> set (tl_ids l) then Some idx
      else if n \<ge> tl_capacity l then
        (let new_cap = grown_ids_cap (tl_capacity l)
         in if \<not> kmalloc_ok then Some idx
            else if n < new_cap then Some (set_list idx file_id \<lparr>tl_ids = tl_ids l @ [tag_id], tl_capacity = new_cap\<rparr>)
            else None)
      else Some (set_list idx file_id (l\<lparr>tl_ids := tl_ids l @ [tag_id]\<rparr>)))"

definition swap_remove :: "nat \<Rightarrow> nat list \<Rightarrow> nat list" where
  "swap_remove x xs =
     (let i = length (takeWhile (\<lambda>y. y \<noteq> x) xs) in if i < length xs then butlast (xs[i := last xs]) else xs)"

definition reverse_index_remove :: "TagBitmapIndex \<Rightarrow> nat \<Rightarrow> nat \<Rightarrow> TagBitmapIndex" where
  "reverse_index_remove idx file_id tag_id =
     (if file_id \<ge> length (file_to_tags idx) then idx
      else let l = file_to_tags idx ! file_id in set_list idx file_id (l\<lparr>tl_ids := swap_remove tag_id (tl_ids l)\<rparr>))"

section \<open>Updates\<close>

text \<open>\<open>None\<close> when one of the three first allocations fails.\<close>

definition tag_bitmap_create :: "bool \<Rightarrow> bool \<Rightarrow> bool \<Rightarrow> nat \<Rightarrow> nat \<Rightarrow> TagBitmapIndex option" where
  "tag_bitmap_create ok_idx ok_bitmaps ok_files initial_tag_cap initial_file_cap =
     (if \<not> ok_idx \<or> \<not> ok_bitmaps \<or> \<not> ok_files then None
      else Some \<lparr>bitmaps = replicate initial_tag_cap None, max_file_id = 0,
                 file_to_tags = replicate initial_file_cap no_tags, generation = 0,
                 cache = replicate QUERY_CACHE_SLOTS no_entry\<rparr>)"

definition set_bitmap :: "TagBitmapIndex \<Rightarrow> nat \<Rightarrow> TagBitmap \<Rightarrow> TagBitmapIndex" where
  "set_bitmap idx tag_id bm = idx\<lparr>bitmaps := (bitmaps idx)[tag_id := Some bm]\<rparr>"

definition no_files :: TagBitmap where
  "no_files = \<lparr>tb_bits = [], tb_bit_count = 0, tb_file_count = 0\<rparr>"

definition bit_on :: "TagBitmap \<Rightarrow> nat \<Rightarrow> TagBitmap" where
  "bit_on bm file_id =
     (if tb_bits bm ! (file_id div 8) AND push_bit (file_id mod 8) 1 \<noteq> 0 then bm
      else bm\<lparr>tb_bits := (tb_bits bm)[file_id div 8 := tb_bits bm ! (file_id div 8) OR push_bit (file_id mod 8) 1],
              tb_file_count := tb_file_count bm + 1\<rparr>)"

definition bit_off :: "TagBitmap \<Rightarrow> nat \<Rightarrow> TagBitmap" where
  "bit_off bm file_id =
     (if file_id div 8 < u32_wrap (tb_bit_count bm + 7) div 8 \<and> tb_bits bm ! (file_id div 8) AND push_bit (file_id mod 8) 1 \<noteq> 0
      then bm\<lparr>tb_bits := (tb_bits bm)[file_id div 8 := tb_bits bm ! (file_id div 8) AND NOT (push_bit (file_id mod 8) 1)],
              tb_file_count := (if tb_file_count bm > 0 then tb_file_count bm - 1 else tb_file_count bm)\<rparr>
      else bm)"

definition mark_file :: "SetMem \<Rightarrow> TagBitmapIndex \<Rightarrow> nat \<Rightarrow> nat \<Rightarrow> TagBitmap \<Rightarrow> (int \<times> TagBitmapIndex) option" where
  "mark_file mem idx tag_id file_id bm0 =
     (let needed_max = (if file_id > max_file_id idx then file_id else max_file_id idx);
          bm1 = ensure_bitmap_width (m_bits mem) bm0 needed_max;
          idx1 = set_bitmap idx tag_id bm1
      in if tb_bits bm1 = [] then Some (-1, idx1)
         else if file_id div 8 \<ge> length (tb_bits bm1) then None
         else do {
           let idx2 = (set_bitmap idx1 tag_id (bit_on bm1 file_id))\<lparr>max_file_id := needed_max\<rparr>;
           idx3 \<leftarrow> reverse_index_add (m_ids mem) idx2 file_id tag_id;
           Some (0, idx3\<lparr>generation := generation idx3 + 1\<rparr>)
         })"

definition tag_bitmap_set :: "SetMem \<Rightarrow> TagBitmapIndex \<Rightarrow> nat \<Rightarrow> nat \<Rightarrow> (int \<times> TagBitmapIndex) option" where
  "tag_bitmap_set mem idx tag_id file_id = do {
     idx1 \<leftarrow> ensure_bitmap_capacity (m_tags mem) idx tag_id;
     idx2 \<leftarrow> ensure_file_capacity (m_files mem) idx1 file_id;
     if tag_id \<ge> length (bitmaps idx2) then Some (-1, idx2)
     else if file_id \<ge> length (file_to_tags idx2) then Some (-1, idx2)
     else case bitmaps idx2 ! tag_id of
       Some bm \<Rightarrow> mark_file mem idx2 tag_id file_id bm
     | None \<Rightarrow> if \<not> m_bitmap mem then Some (-1, idx2) else mark_file mem idx2 tag_id file_id no_files
   }"

definition tag_bitmap_clear :: "TagBitmapIndex \<Rightarrow> nat \<Rightarrow> nat \<Rightarrow> int \<times> TagBitmapIndex" where
  "tag_bitmap_clear idx tag_id file_id =
     (if tag_id \<ge> length (bitmaps idx) then (-1, idx)
      else case bitmaps idx ! tag_id of
        None \<Rightarrow> (-1, idx)
      | Some bm \<Rightarrow>
          let idx1 = reverse_index_remove (set_bitmap idx tag_id (bit_off bm file_id)) file_id tag_id
          in (0, idx1\<lparr>generation := generation idx1 + 1\<rparr>))"

definition drop_tag :: "nat \<Rightarrow> TagBitmapIndex \<Rightarrow> nat \<Rightarrow> TagBitmapIndex" where
  "drop_tag file_id idx tid =
     (if tid < length (bitmaps idx)
      then (case bitmaps idx ! tid of None \<Rightarrow> idx | Some bm \<Rightarrow> set_bitmap idx tid (bit_off bm file_id))
      else idx)"

definition tag_bitmap_remove_file :: "TagBitmapIndex \<Rightarrow> nat \<Rightarrow> TagBitmapIndex" where
  "tag_bitmap_remove_file idx file_id =
     (if file_id \<ge> length (file_to_tags idx) then idx
      else
        let idx1 = foldl (drop_tag file_id) idx (tl_ids (file_to_tags idx ! file_id));
            idx2 = set_list idx1 file_id no_tags
        in idx2\<lparr>generation := generation idx2 + 1\<rparr>)"

definition tag_bitmap_tags_for_file :: "TagBitmapIndex \<Rightarrow> nat \<Rightarrow> nat \<Rightarrow> nat list" where
  "tag_bitmap_tags_for_file idx file_id max_ids =
     (if file_id \<ge> length (file_to_tags idx) then [] else take max_ids (tl_ids (file_to_tags idx ! file_id)))"

definition tag_bitmap_tag_count_for_file :: "TagBitmapIndex \<Rightarrow> nat \<Rightarrow> nat" where
  "tag_bitmap_tag_count_for_file idx file_id =
     (if file_id \<ge> length (file_to_tags idx) then 0 else length (tl_ids (file_to_tags idx ! file_id)))"


section \<open>One bitmap\<close>

definition files :: "TagBitmap \<Rightarrow> nat set" where
  "files bm = {f. f < 8 * length (tb_bits bm) \<and> wa_test (tb_bits bm) f}"

definition bm_ok :: "TagBitmap \<Rightarrow> bool" where
  "bm_ok bm \<longleftrightarrow> tb_bit_count bm = 8 * length (tb_bits bm) \<and> length (tb_bits bm) \<le> 2 ^ 28 \<and>
     tb_file_count bm = of_nat (card (files bm))"

lemma finite_files [simp]: "finite (files bm)"
  by (simp add: files_def)

lemma card_files: "bm_ok bm \<Longrightarrow> card (files bm) < 2 ^ 32"
proof -
  assume "bm_ok bm"
  moreover have "files bm \<subseteq> {..<8 * length (tb_bits bm)}" by (auto simp: files_def)
  then have "card (files bm) \<le> 8 * length (tb_bits bm)" using card_mono [of "{..<8 * length (tb_bits bm)}"] by simp
  ultimately show ?thesis by (simp add: bm_ok_def)
qed

lemma test_word: "((tb_bits bm ! (f div 8)) AND push_bit (f mod 8) 1 \<noteq> 0) \<longleftrightarrow> wa_test (tb_bits bm) f"
  by (simp add: wa_test_def)

lemma no_files_ok: "bm_ok no_files" "files no_files = {}"
  by (simp_all add: bm_ok_def no_files_def files_def)

lemma width_ok:
  assumes ok: "bm_ok bm" and n: "new_max < 2 ^ 31"
  shows "bm_ok (ensure_bitmap_width kmalloc_ok bm new_max)" "files (ensure_bitmap_width kmalloc_ok bm new_max) = files bm"
    "kmalloc_ok \<Longrightarrow> new_max < 8 * length (tb_bits (ensure_bitmap_width kmalloc_ok bm new_max))"
proof -
  have d: "tb_bit_count bm = 8 * length (tb_bits bm)" "length (tb_bits bm) \<le> 2 ^ 28" using ok by (auto simp: bm_ok_def)
  have all: "bm_ok (ensure_bitmap_width kmalloc_ok bm new_max) \<and> files (ensure_bitmap_width kmalloc_ok bm new_max) = files bm \<and>
    (kmalloc_ok \<longrightarrow> new_max < 8 * length (tb_bits (ensure_bitmap_width kmalloc_ok bm new_max)))"
  proof (cases "new_max + 1 \<le> tb_bit_count bm \<or> \<not> kmalloc_ok")
    case True
    then show ?thesis using ok d n by (auto simp: ensure_bitmap_width_def Let_def)
  next
    case False
    let ?n = "(new_max + 8) div 8" and ?bits = "tb_bits bm"
    have lt: "length ?bits < ?n" "?n \<le> 2 ^ 28" using False d(1) n by auto
    have eq: "ensure_bitmap_width kmalloc_ok bm new_max =
        bm\<lparr>tb_bits := ?bits @ replicate (?n - length ?bits) 0, tb_bit_count := ?n * 8\<rparr>"
      using False n d lt by (simp add: ensure_bitmap_width_def Let_def)
    let ?bm = "bm\<lparr>tb_bits := ?bits @ replicate (?n - length ?bits) 0, tb_bit_count := ?n * 8\<rparr>"
    have "f \<in> files ?bm \<longleftrightarrow> f \<in> files bm" for f
      by (auto simp: files_def wa_test_bit nth_append less_mult_imp_div_less mult.commute not_less)
    then have f: "files ?bm = files bm" by blast
    then have "bm_ok ?bm" using ok lt unfolding bm_ok_def f by simp
    moreover have "new_max < 8 * ?n" by simp
    ultimately show ?thesis unfolding eq using f lt by simp
  qed
  then show "bm_ok (ensure_bitmap_width kmalloc_ok bm new_max)" "files (ensure_bitmap_width kmalloc_ok bm new_max) = files bm"
    "kmalloc_ok \<Longrightarrow> new_max < 8 * length (tb_bits (ensure_bitmap_width kmalloc_ok bm new_max))" by blast+
qed

lemma bit_on_ok:
  assumes ok: "bm_ok bm" and f: "f < 8 * length (tb_bits bm)"
  shows "bm_ok (bit_on bm f)" "files (bit_on bm f) = insert f (files bm)" "length (tb_bits (bit_on bm f)) = length (tb_bits bm)"
proof -
  have all: "bm_ok (bit_on bm f) \<and> files (bit_on bm f) = insert f (files bm) \<and> length (tb_bits (bit_on bm f)) = length (tb_bits bm)"
  proof (cases "wa_test (tb_bits bm) f")
    case True
    then have "bit_on bm f = bm" using test_word [of bm f] by (simp add: bit_on_def)
    then show ?thesis using ok f True by (auto simp: files_def)
  next
    case False
    have eq: "bit_on bm f = bm\<lparr>tb_bits := wa_set (tb_bits bm) f, tb_file_count := tb_file_count bm + 1\<rparr>"
      using False test_word [of bm f] by (simp add: bit_on_def wa_set_def)
    have fs: "files (bit_on bm f) = insert f (files bm)"
      using f wa_test_set [of f "tb_bits bm"] by (auto simp: eq files_def wa_bits_def)
    moreover have "f \<notin> files bm" using False by (simp add: files_def)
    ultimately show ?thesis using ok by (simp add: bm_ok_def fs) (simp add: eq)
  qed
  then show "bm_ok (bit_on bm f)" "files (bit_on bm f) = insert f (files bm)"
    "length (tb_bits (bit_on bm f)) = length (tb_bits bm)" by blast+
qed

lemma bit_off_ok:
  assumes ok: "bm_ok bm"
  shows "bm_ok (bit_off bm f)" "files (bit_off bm f) = files bm - {f}"
proof -
  have d: "tb_bit_count bm = 8 * length (tb_bits bm)" "length (tb_bits bm) \<le> 2 ^ 28" using ok by (auto simp: bm_ok_def)
  have byte: "f div 8 < u32_wrap (tb_bit_count bm + 7) div 8 \<longleftrightarrow> f < 8 * length (tb_bits bm)" using d by auto
  have all: "bm_ok (bit_off bm f) \<and> files (bit_off bm f) = files bm - {f}"
  proof (cases "f \<in> files bm")
    case False
    then have "bit_off bm f = bm" using test_word [of bm f] byte by (auto simp: bit_off_def files_def)
    then show ?thesis using ok False by simp
  next
    case True
    then have f: "f < 8 * length (tb_bits bm)" "wa_test (tb_bits bm) f" by (auto simp: files_def)
    have pos: "0 < card (files bm)" using True card_gt_0_iff [of "files bm"] by auto
    then have "(of_nat (card (files bm)) :: u32) \<noteq> 0"
      using card_files [OF ok] True by (auto simp: unat_eq_zero [symmetric] unat_of_nat take_bit_nat_eq_self)
    then have "tb_file_count bm > 0" using ok by (simp add: bm_ok_def word_gt_0)
    then have eq: "bit_off bm f = bm\<lparr>tb_bits := wa_clear (tb_bits bm) f, tb_file_count := tb_file_count bm - 1\<rparr>"
      using f test_word [of bm f] byte by (simp add: bit_off_def wa_clear_def)
    have fs: "files (bit_off bm f) = files bm - {f}"
      using f wa_test_clear [of f "tb_bits bm"] by (auto simp: eq files_def wa_bits_def)
    have "of_nat (card (files bm - {f})) = (of_nat (card (files bm)) - 1 :: u32)"
      using True pos by (simp add: of_nat_diff)
    then have "bm_ok (bit_off bm f)" using ok unfolding bm_ok_def fs by (simp add: eq)
    then show ?thesis using fs by simp
  qed
  then show "bm_ok (bit_off bm f)" "files (bit_off bm f) = files bm - {f}" by blast+
qed

section \<open>Growing terminates\<close>

lemma start_cap_pos [simp]: "0 < start_cap c"
  by (simp add: start_cap_def)

lemma cap_loop_returns: "0 < c \<Longrightarrow> i < 2 ^ 31 \<Longrightarrow> \<exists>n. cap_loop c i = Some n \<and> i < n \<and> c \<le> n"
proof (induction "i - c" arbitrary: c rule: less_induct)
  case less
  show ?case
  proof (cases "c \<le> i")
    case True
    then have w: "u32_wrap (c * 2) = c * 2" using less.prems(2) by simp
    have "\<exists>n. cap_loop (c * 2) i = Some n \<and> i < n \<and> c * 2 \<le> n"
    proof (cases "c * 2 \<le> i")
      case True
      then show ?thesis using less by simp
    next
      case False
      then show ?thesis by (subst cap_loop.simps) simp
    qed
    then show ?thesis using True w by (subst cap_loop.simps) auto
  next
    case False
    then show ?thesis by (subst cap_loop.simps) simp
  qed
qed


section \<open>The whole index\<close>

text \<open>\<open>has idx t f\<close>: file \<open>f\<close> carries tag \<open>t\<close>, as the bitmaps say.\<close>

definition has :: "TagBitmapIndex \<Rightarrow> nat \<Rightarrow> nat \<Rightarrow> bool" where
  "has idx t f \<longleftrightarrow> t < length (bitmaps idx) \<and> (case bitmaps idx ! t of None \<Rightarrow> False | Some bm \<Rightarrow> f \<in> files bm)"

definition bitmaps_ok :: "TagBitmapIndex \<Rightarrow> bool" where
  "bitmaps_ok idx \<longleftrightarrow> (\<forall>bm. Some bm \<in> set (bitmaps idx) \<longrightarrow> bm_ok bm) \<and> max_file_id idx < 2 ^ 31 \<and>
     (\<forall>t f. has idx t f \<longrightarrow> f \<le> max_file_id idx)"

text \<open>The reverse index agrees with the bitmaps.\<close>

definition reverse_ok :: "TagBitmapIndex \<Rightarrow> bool" where
  "reverse_ok idx \<longleftrightarrow> (\<forall>t f. has idx t f \<longrightarrow> f < length (file_to_tags idx)) \<and>
     (\<forall>f < length (file_to_tags idx). let l = file_to_tags idx ! f in
        distinct (tl_ids l) \<and> set (tl_ids l) = {t. has idx t f} \<and> length (tl_ids l) \<le> tl_capacity l)"

lemma has_cong: "bitmaps idx' = bitmaps idx \<Longrightarrow> has idx' = has idx"
  by (simp add: has_def fun_eq_iff)

lemma has_set_bitmap:
  "t < length (bitmaps idx) \<Longrightarrow> has (set_bitmap idx t bm) t' f \<longleftrightarrow> (if t' = t then f \<in> files bm else has idx t' f)"
  by (auto simp: has_def set_bitmap_def)

lemma has_extend: "bitmaps idx' = bitmaps idx @ replicate n None \<Longrightarrow> has idx' = has idx"
  by (auto simp: has_def fun_eq_iff nth_append)

lemma has_nth: "t < length (bitmaps idx) \<Longrightarrow> bitmaps idx ! t = Some bm \<Longrightarrow> has idx t f \<longleftrightarrow> f \<in> files bm"
  by (simp add: has_def)

lemma index_fields [simp]:
  "file_to_tags (set_bitmap idx t bm) = file_to_tags idx" "max_file_id (set_bitmap idx t bm) = max_file_id idx"
  "generation (set_bitmap idx t bm) = generation idx" "cache (set_bitmap idx t bm) = cache idx"
  "bitmaps (set_bitmap idx t bm) = (bitmaps idx)[t := Some bm]" "bitmaps (set_list idx f l) = bitmaps idx"
  "max_file_id (set_list idx f l) = max_file_id idx" "generation (set_list idx f l) = generation idx"
  "cache (set_list idx f l) = cache idx" "file_to_tags (set_list idx f l) = (file_to_tags idx)[f := l]"
  by (simp_all add: set_bitmap_def set_list_def)

lemma swap_remove_ok:
  assumes "distinct xs"
  shows "distinct (swap_remove x xs)" "set (swap_remove x xs) = set xs - {x}" "length (swap_remove x xs) \<le> length xs"
proof -
  let ?i = "length (takeWhile (\<lambda>y. y \<noteq> x) xs)"
  have "mset (swap_remove x xs) = mset xs - {#x#}"
  proof (cases "?i < length xs")
    case True
    then have "xs ! ?i = x" using nth_length_takeWhile by fastforce
    then show ?thesis using mset_swap_last [OF True] True by (simp add: swap_remove_def Let_def)
  next
    case False
    then have "length (takeWhile (\<lambda>y. y \<noteq> x) xs) = length xs" using length_takeWhile_le [of _ xs] by (metis le_neq_implies_less)
    then have "takeWhile (\<lambda>y. y \<noteq> x) xs = xs" by (metis takeWhile_eq_take take_all le_refl)
    then have "x \<notin> set xs" by (metis set_takeWhileD)
    then show ?thesis using False by (simp add: swap_remove_def Let_def diff_single_trivial)
  qed
  then have m: "mset (swap_remove x xs) = mset (remove1 x xs)" by simp
  then show "distinct (swap_remove x xs)" using assms by (metis distinct_remove1 mset_eq_imp_distinct_iff)
  show "set (swap_remove x xs) = set xs - {x}" using m assms by (metis set_mset_mset set_remove1_eq)
  show "length (swap_remove x xs) \<le> length xs" using m by (metis length_remove1 size_mset diff_le_self le_refl)
qed

subsection \<open>Capacity\<close>

lemma ensure_tags:
  assumes "tag_id < 2 ^ 16"
  shows "\<exists>idx'. ensure_bitmap_capacity kmalloc_ok idx tag_id = Some idx' \<and> has idx' = has idx \<and>
    file_to_tags idx' = file_to_tags idx \<and> max_file_id idx' = max_file_id idx \<and> generation idx' = generation idx \<and>
    cache idx' = cache idx \<and> (\<exists>n. bitmaps idx' = bitmaps idx @ replicate n None)"
proof (cases "tag_id < length (bitmaps idx)")
  case True
  moreover have "\<exists>n. bitmaps idx = bitmaps idx @ replicate n None" by (rule exI [of _ 0]) simp
  ultimately show ?thesis by (simp add: ensure_bitmap_capacity_def)
next
  case False
  obtain n where n: "cap_loop (start_cap (length (bitmaps idx))) tag_id = Some n"
    using cap_loop_returns [of "start_cap (length (bitmaps idx))" tag_id] assms by auto
  show ?thesis
  proof (cases kmalloc_ok)
    case True
    let ?idx = "idx\<lparr>bitmaps := bitmaps idx @ replicate (n - length (bitmaps idx)) None\<rparr>"
    have "has ?idx = has idx" by (rule has_extend) simp
    then show ?thesis using False n True by (auto simp: ensure_bitmap_capacity_def Let_def)
  next
    case no: False
    moreover have "\<exists>n. bitmaps idx = bitmaps idx @ replicate n None" by (rule exI [of _ 0]) simp
    ultimately show ?thesis using False n by (simp add: ensure_bitmap_capacity_def Let_def)
  qed
qed

lemma ensure_files:
  assumes "file_id < 2 ^ 31"
  shows "\<exists>idx' n. ensure_file_capacity kmalloc_ok idx file_id = Some idx' \<and>
    idx' = idx\<lparr>file_to_tags := file_to_tags idx @ replicate n no_tags\<rparr>"
proof (cases "file_id < length (file_to_tags idx)")
  case True
  then show ?thesis by (auto simp: ensure_file_capacity_def intro!: exI [of _ 0])
next
  case False
  obtain n where n: "cap_loop (start_cap (length (file_to_tags idx))) file_id = Some n"
    using cap_loop_returns [of "start_cap (length (file_to_tags idx))" file_id] assms by auto
  show ?thesis
  proof (cases kmalloc_ok)
    case True
    then show ?thesis using False n by (auto simp: ensure_file_capacity_def Let_def)
  next
    case no: False
    then show ?thesis using False n by (auto simp: ensure_file_capacity_def Let_def intro!: exI [of _ 0])
  qed
qed

lemma ensure_tags_grows:
  assumes "tag_id < 2 ^ 16" "ensure_bitmap_capacity kmalloc_ok idx tag_id = Some idx'"
  shows "tag_id < length (bitmaps idx') \<or> \<not> kmalloc_ok"
proof (cases "tag_id < length (bitmaps idx)")
  case True
  then show ?thesis using assms(2) by (auto simp: ensure_bitmap_capacity_def)
next
  case False
  obtain n where "cap_loop (start_cap (length (bitmaps idx))) tag_id = Some n" "tag_id < n"
    using cap_loop_returns [of "start_cap (length (bitmaps idx))" tag_id] assms(1) by auto
  then show ?thesis using assms(2) False by (auto simp: ensure_bitmap_capacity_def Let_def split: if_splits)
qed

lemma ensure_files_grows:
  assumes "file_id < 2 ^ 31" "ensure_file_capacity kmalloc_ok idx file_id = Some idx'"
  shows "file_id < length (file_to_tags idx') \<or> \<not> kmalloc_ok"
proof (cases "file_id < length (file_to_tags idx)")
  case True
  then show ?thesis using assms(2) by (auto simp: ensure_file_capacity_def)
next
  case False
  obtain n where "cap_loop (start_cap (length (file_to_tags idx))) file_id = Some n" "file_id < n"
    using cap_loop_returns [of "start_cap (length (file_to_tags idx))" file_id] assms(1) by auto
  then show ?thesis using assms(2) False by (auto simp: ensure_file_capacity_def Let_def split: if_splits)
qed

lemma reverse_extend:
  assumes "reverse_ok idx"
  shows "reverse_ok (idx\<lparr>file_to_tags := file_to_tags idx @ replicate n no_tags\<rparr>)"
proof -
  let ?idx = "idx\<lparr>file_to_tags := file_to_tags idx @ replicate n no_tags\<rparr>"
  have h: "has ?idx = has idx" by (rule has_cong) simp
  show ?thesis unfolding reverse_ok_def h
  proof (intro conjI allI impI)
    show "f < length (file_to_tags ?idx)" if "has idx t f" for t f
      using assms that by (auto simp: reverse_ok_def intro: trans_less_add1)
    fix f assume f: "f < length (file_to_tags ?idx)"
    show "let l = file_to_tags ?idx ! f in distinct (tl_ids l) \<and> set (tl_ids l) = {t. has idx t f} \<and> length (tl_ids l) \<le> tl_capacity l"
    proof (cases "f < length (file_to_tags idx)")
      case True
      then show ?thesis using assms by (simp add: reverse_ok_def nth_append)
    next
      case False
      then have "\<not> has idx t f" for t using assms by (auto simp: reverse_ok_def)
      then show ?thesis using f False by (simp add: nth_append no_tags_def)
    qed
  qed
qed


subsection \<open>Setting a tag\<close>

lemma ids_update: "l\<lparr>tl_ids := xs\<rparr> = \<lparr>tl_ids = xs, tl_capacity = tl_capacity l\<rparr>"
  by (cases l) simp

lemma reverse_add_ok:
  assumes rev: "reverse_ok idx" and f: "f < length (file_to_tags idx)" and few: "length (tl_ids (file_to_tags idx ! f)) < 2 ^ 15"
    and same: "file_to_tags idx2 = file_to_tags idx" and h: "has idx2 = (\<lambda>t' f'. t' = t \<and> f' = f \<or> has idx t' f')"
  shows "\<exists>idx3. reverse_index_add True idx2 f t = Some idx3 \<and> reverse_ok idx3 \<and> has idx3 = has idx2 \<and>
    bitmaps idx3 = bitmaps idx2 \<and> max_file_id idx3 = max_file_id idx2 \<and> generation idx3 = generation idx2 \<and> cache idx3 = cache idx2"
proof -
  let ?l = "file_to_tags idx ! f"
  have l: "distinct (tl_ids ?l)" "set (tl_ids ?l) = {t. has idx t f}" "length (tl_ids ?l) \<le> tl_capacity ?l"
    using rev f by (auto simp: reverse_ok_def Let_def)
  have bound: "has idx2 t' f' \<Longrightarrow> f' < length (file_to_tags idx)" for t' f' using rev f h by (auto simp: reverse_ok_def)
  show ?thesis
  proof (cases "t \<in> set (tl_ids ?l)")
    case True
    then have "has idx2 = has idx" using h l(2) by (auto simp: fun_eq_iff)
    moreover from this have "reverse_ok idx2" using rev same by (simp add: reverse_ok_def)
    ultimately show ?thesis using True same by (simp add: reverse_index_add_def Let_def)
  next
    case False
    define c where "c = (if length (tl_ids ?l) \<ge> tl_capacity ?l then grown_ids_cap (tl_capacity ?l) else tl_capacity ?l)"
    have c: "length (tl_ids ?l) < c"
    proof (cases "length (tl_ids ?l) \<ge> tl_capacity ?l")
      case True
      then have "tl_capacity ?l = length (tl_ids ?l)" using l(3) by simp
      then show ?thesis using few True by (simp add: c_def grown_ids_cap_def)
    qed (simp add: c_def)
    let ?l' = "\<lparr>tl_ids = tl_ids ?l @ [t], tl_capacity = c\<rparr>"
    have eq: "reverse_index_add True idx2 f t = Some (set_list idx2 f ?l')"
      using False c same by (simp add: reverse_index_add_def Let_def c_def ids_update split: if_splits)
    have h3: "has (set_list idx2 f ?l') = has idx2" by (rule has_cong) simp
    have "reverse_ok (set_list idx2 f ?l')" unfolding reverse_ok_def h3
    proof (intro conjI allI impI)
      show "f' < length (file_to_tags (set_list idx2 f ?l'))" if "has idx2 t' f'" for t' f' using bound [OF that] same by simp
      fix f' assume f': "f' < length (file_to_tags (set_list idx2 f ?l'))"
      show "let l = file_to_tags (set_list idx2 f ?l') ! f' in distinct (tl_ids l) \<and> set (tl_ids l) = {t. has idx2 t f'} \<and>
          length (tl_ids l) \<le> tl_capacity l"
      proof (cases "f' = f")
        case True
        then show ?thesis using f same False l c h by auto
      next
        case False
        then show ?thesis using rev f' same h by (simp add: reverse_ok_def)
      qed
    qed
    then show ?thesis using eq h3 by simp
  qed
qed

lemma mark_file_ok:
  assumes bok: "bitmaps_ok idx" and rev: "reverse_ok idx" and t: "t < length (bitmaps idx)"
    and f: "f < length (file_to_tags idx)" "f < 2 ^ 31" and few: "length (tl_ids (file_to_tags idx ! f)) < 2 ^ 15"
    and bm: "bm_ok bm" "files bm = {g. has idx t g}" and mem: "m_bits mem" "m_ids mem"
  shows "\<exists>idx'. mark_file mem idx t f bm = Some (0, idx') \<and> bitmaps_ok idx' \<and> reverse_ok idx' \<and>
    has idx' = (\<lambda>t' f'. t' = t \<and> f' = f \<or> has idx t' f') \<and> generation idx' = generation idx + 1 \<and> cache idx' = cache idx"
proof -
  let ?n = "if f > max_file_id idx then f else max_file_id idx"
  let ?bm1 = "ensure_bitmap_width True bm ?n"
  have n: "?n < 2 ^ 31" "f \<le> ?n" "max_file_id idx \<le> ?n" using f(2) bok by (auto simp: bitmaps_ok_def)
  note w = width_ok [OF bm(1) n(1), of True]
  have fl: "f < 8 * length (tb_bits ?bm1)" using w(3) n(2) by simp
  note b = bit_on_ok [OF w(1) fl]
  let ?idx2 = "(set_bitmap (set_bitmap idx t ?bm1) t (bit_on ?bm1 f))\<lparr>max_file_id := ?n\<rparr>"
  have "has ?idx2 = has (set_bitmap (set_bitmap idx t ?bm1) t (bit_on ?bm1 f))" by (rule has_cong) simp
  also have "\<dots> = (\<lambda>t' f'. t' = t \<and> f' = f \<or> has idx t' f')"
    using t b(2) w(2) bm(2) by (auto simp: fun_eq_iff has_set_bitmap)
  finally have h: "has ?idx2 = (\<lambda>t' f'. t' = t \<and> f' = f \<or> has idx t' f')" .
  have ft: "file_to_tags ?idx2 = file_to_tags idx" by simp
  obtain idx3 where r: "reverse_index_add True ?idx2 f t = Some idx3" "reverse_ok idx3" "has idx3 = has ?idx2"
      "bitmaps idx3 = bitmaps ?idx2" "max_file_id idx3 = max_file_id ?idx2" "generation idx3 = generation ?idx2" "cache idx3 = cache ?idx2"
    using reverse_add_ok [OF rev f(1) few ft h] by blast
  let ?idx' = "idx3\<lparr>generation := generation idx3 + 1\<rparr>"
  have "mark_file mem idx t f bm = Some (0, ?idx')"
    using fl mem r(1) by (auto simp: mark_file_def Let_def not_le)
  moreover have h': "has ?idx' = has ?idx2" using has_cong [of ?idx' idx3] r(3) by simp
  moreover have "bitmaps_ok ?idx'" unfolding bitmaps_ok_def h' h
  proof (intro conjI allI impI)
    have sub: "set (bitmaps ?idx2) \<subseteq> insert (Some (bit_on ?bm1 f)) (set (bitmaps idx))"
      using set_update_subset_insert [of "bitmaps idx" t] by simp
    show "bm_ok x" if "Some x \<in> set (bitmaps ?idx')" for x
      using that sub bok b(1) r(4) by (auto simp: bitmaps_ok_def)
    show "max_file_id ?idx' < 2 ^ 31" using r(5) n(1) by simp
    have m: "max_file_id ?idx' = ?n" using r(5) by simp
    show "f' \<le> max_file_id ?idx'" if "t' = t \<and> f' = f \<or> has idx t' f'" for t' f'
    proof -
      have "f' = f \<or> f' \<le> max_file_id idx" using that bok by (auto simp: bitmaps_ok_def)
      then show ?thesis unfolding m using n(2,3) by linarith
    qed
  qed
  moreover have "reverse_ok ?idx'" using r(2) h' r(3) by (simp add: reverse_ok_def)
  ultimately show ?thesis using h r(6,7) by simp
qed

lemma set_ok:
  assumes bok: "bitmaps_ok idx" and rev: "reverse_ok idx" and t: "t < 2 ^ 16" and f: "f < 2 ^ 31"
    and few: "card {t. has idx t f} < 2 ^ 15" and mem: "m_bits mem" "m_ids mem"
  shows "\<exists>r idx'. tag_bitmap_set mem idx t f = Some (r, idx') \<and> bitmaps_ok idx' \<and> reverse_ok idx' \<and> cache idx' = cache idx \<and>
    (if r = 0 then has idx' = (\<lambda>t' f'. t' = t \<and> f' = f \<or> has idx t' f') \<and> generation idx' = generation idx + 1
     else r = -1 \<and> has idx' = has idx \<and> generation idx' = generation idx \<and> max_file_id idx' = max_file_id idx) \<and> (m_tags mem \<and> m_files mem \<and> m_bitmap mem \<longrightarrow> r = 0)"
proof -
  obtain idx1 n1 where e1: "ensure_bitmap_capacity (m_tags mem) idx t = Some idx1" "has idx1 = has idx"
      "file_to_tags idx1 = file_to_tags idx" "max_file_id idx1 = max_file_id idx" "generation idx1 = generation idx"
      "cache idx1 = cache idx" "bitmaps idx1 = bitmaps idx @ replicate n1 None"
    using ensure_tags [OF t, of "m_tags mem" idx] by blast
  obtain idx2 n2 where e2: "ensure_file_capacity (m_files mem) idx1 f = Some idx2"
      "idx2 = idx1\<lparr>file_to_tags := file_to_tags idx1 @ replicate n2 no_tags\<rparr>"
    using ensure_files [OF f, of "m_files mem" idx1] by blast
  have h: "has idx2 = has idx" using has_cong [of idx2 idx1] e1(2) e2(2) by simp
  have bok2: "bitmaps_ok idx2" using bok unfolding bitmaps_ok_def h by (auto simp: e2(2) e1)
  have "reverse_ok idx1" using rev e1(2,3) by (simp add: reverse_ok_def)
  then have rev2: "reverse_ok idx2" unfolding e2(2) by (rule reverse_extend)
  have frame: "cache idx2 = cache idx" "generation idx2 = generation idx" "max_file_id idx2 = max_file_id idx" using e1 e2(2) by simp_all
  have same: "bitmaps_ok idx2 \<and> reverse_ok idx2 \<and> cache idx2 = cache idx \<and> has idx2 = has idx \<and>
      generation idx2 = generation idx \<and> max_file_id idx2 = max_file_id idx"
    using bok2 rev2 h frame by simp
  have grown: "t < length (bitmaps idx2) \<or> \<not> m_tags mem" "f < length (file_to_tags idx2) \<or> \<not> m_files mem"
    using ensure_tags_grows [OF t e1(1)] ensure_files_grows [OF f e2(1)] e2(2) by auto
  show ?thesis
  proof (cases "t < length (bitmaps idx2) \<and> f < length (file_to_tags idx2)")
    case False
    then have "tag_bitmap_set mem idx t f = Some (-1, idx2)" using e1(1) e2(1) by (auto simp: tag_bitmap_set_def)
    then show ?thesis using same False grown by auto
  next
    case True
    have "set (tl_ids (file_to_tags idx2 ! f)) = {t. has idx t f}" "distinct (tl_ids (file_to_tags idx2 ! f))"
      using rev2 True h by (auto simp: reverse_ok_def Let_def)
    then have few2: "length (tl_ids (file_to_tags idx2 ! f)) < 2 ^ 15" using few by (metis distinct_card)
    have mk: "\<exists>idx'. mark_file mem idx2 t f bm = Some (0, idx') \<and> bitmaps_ok idx' \<and> reverse_ok idx' \<and>
        has idx' = (\<lambda>t' f'. t' = t \<and> f' = f \<or> has idx t' f') \<and> generation idx' = generation idx + 1 \<and> cache idx' = cache idx"
      if "bm_ok bm" "files bm = {g. has idx2 t g}" for bm
      using mark_file_ok [OF bok2 rev2 _ _ f few2 that mem] True h frame(1,2) by simp
    show ?thesis
    proof (cases "bitmaps idx2 ! t")
      case None
      then have "files no_files = {g. has idx2 t g}" by (simp add: no_files_ok has_def)
      then show ?thesis using mk [OF no_files_ok(1)] same True None e1(1) e2(1)
        by (cases "m_bitmap mem") (auto simp: tag_bitmap_set_def)
    next
      case (Some bm)
      then have "bm_ok bm" using bok2 True by (auto simp: bitmaps_ok_def in_set_conv_nth)
      moreover have "files bm = {g. has idx2 t g}" using has_nth [of t idx2 bm] True Some by auto
      ultimately show ?thesis using mk [of bm] True Some e1(1) e2(1) by (auto simp: tag_bitmap_set_def)
    qed
  qed
qed

subsection \<open>Clearing a tag and removing a file\<close>

lemma bitmap_off:
  assumes bok: "bitmaps_ok idx" and t: "t < length (bitmaps idx)" "bitmaps idx ! t = Some bm"
  shows "bitmaps_ok (set_bitmap idx t (bit_off bm f))"
    "has (set_bitmap idx t (bit_off bm f)) = (\<lambda>t' f'. has idx t' f' \<and> \<not> (t' = t \<and> f' = f))"
proof -
  have bm: "bm_ok bm" using bok t by (auto simp: bitmaps_ok_def in_set_conv_nth)
  note b = bit_off_ok [OF bm, of f]
  show h: "has (set_bitmap idx t (bit_off bm f)) = (\<lambda>t' f'. has idx t' f' \<and> \<not> (t' = t \<and> f' = f))"
    using t b(2) has_nth [OF t] by (auto simp: fun_eq_iff has_set_bitmap)
  show "bitmaps_ok (set_bitmap idx t (bit_off bm f))" unfolding bitmaps_ok_def h
    using bok b(1) set_update_subset_insert [of "bitmaps idx" t "Some (bit_off bm f)"] by (auto simp: bitmaps_ok_def)
qed

lemma clear_ok:
  assumes bok: "bitmaps_ok idx" and rev: "reverse_ok idx" and c: "tag_bitmap_clear idx t f = (r, idx')"
  shows "bitmaps_ok idx' \<and> reverse_ok idx' \<and> cache idx' = cache idx \<and>
    has idx' = (\<lambda>t' f'. has idx t' f' \<and> \<not> (t' = t \<and> f' = f)) \<and>
    (if r = 0 then generation idx' = generation idx + 1 else idx' = idx)"
proof (cases "t < length (bitmaps idx) \<and> bitmaps idx ! t \<noteq> None")
  case False
  then have "r = -1" "idx' = idx" using c by (auto simp: tag_bitmap_clear_def split: option.splits if_splits)
  moreover have "\<not> has idx t f" using False by (auto simp: has_def split: option.splits)
  ultimately show ?thesis using bok rev by (auto simp: fun_eq_iff)
next
  case True
  then obtain bm where t: "t < length (bitmaps idx)" "bitmaps idx ! t = Some bm" by auto
  let ?idx1 = "set_bitmap idx t (bit_off bm f)"
  let ?idx2 = "reverse_index_remove ?idx1 f t"
  have r: "r = 0" "idx' = ?idx2\<lparr>generation := generation ?idx2 + 1\<rparr>" using c t by (auto simp: tag_bitmap_clear_def Let_def)
  note b = bitmap_off [OF bok t, of f]
  have fr: "bitmaps ?idx2 = bitmaps ?idx1" "max_file_id ?idx2 = max_file_id ?idx1" "generation ?idx2 = generation ?idx1"
      "cache ?idx2 = cache ?idx1" "length (file_to_tags ?idx2) = length (file_to_tags idx)"
    by (simp_all add: reverse_index_remove_def Let_def)
  have h: "has idx' = (\<lambda>t' f'. has idx t' f' \<and> \<not> (t' = t \<and> f' = f))" using has_cong [of idx' ?idx1] fr(1) b(2) r(2) by simp
  have "bitmaps_ok idx'" using b(1) fr(1,2) unfolding bitmaps_ok_def h b(2) by (simp add: r(2))
  moreover have "reverse_ok idx'" unfolding reverse_ok_def h
  proof (intro conjI allI impI)
    show "f' < length (file_to_tags idx')" if "has idx t' f' \<and> \<not> (t' = t \<and> f' = f)" for t' f'
      using that rev fr(5) r(2) by (auto simp: reverse_ok_def)
    fix f' assume "f' < length (file_to_tags idx')"
    then have f': "f' < length (file_to_tags idx)" using fr(5) r(2) by simp
    then have l: "distinct (tl_ids (file_to_tags idx ! f'))" "set (tl_ids (file_to_tags idx ! f')) = {t. has idx t f'}"
        "length (tl_ids (file_to_tags idx ! f')) \<le> tl_capacity (file_to_tags idx ! f')"
      using rev by (auto simp: reverse_ok_def Let_def)
    have "file_to_tags idx' ! f' = (if f' = f then (file_to_tags idx ! f)\<lparr>tl_ids := swap_remove t (tl_ids (file_to_tags idx ! f))\<rparr>
        else file_to_tags idx ! f')"
      using f' r(2) by (simp add: reverse_index_remove_def Let_def)
    then show "let l = file_to_tags idx' ! f' in distinct (tl_ids l) \<and>
        set (tl_ids l) = {t'. has idx t' f' \<and> \<not> (t' = t \<and> f' = f)} \<and> length (tl_ids l) \<le> tl_capacity l"
      using l swap_remove_ok [OF l(1), of t] by (auto intro: le_trans)
  qed
  ultimately show ?thesis using h fr r by simp
qed


lemma drop_tag_fields [simp]:
  "file_to_tags (drop_tag f idx t) = file_to_tags idx" "max_file_id (drop_tag f idx t) = max_file_id idx"
  "generation (drop_tag f idx t) = generation idx" "cache (drop_tag f idx t) = cache idx"
  by (simp_all add: drop_tag_def split: option.splits)

lemma drop_tag_ok:
  assumes "bitmaps_ok idx"
  shows "bitmaps_ok (drop_tag f idx t)" "has (drop_tag f idx t) = (\<lambda>t' f'. has idx t' f' \<and> \<not> (t' = t \<and> f' = f))"
proof -
  have "bitmaps_ok (drop_tag f idx t) \<and> has (drop_tag f idx t) = (\<lambda>t' f'. has idx t' f' \<and> \<not> (t' = t \<and> f' = f))"
  proof (cases "t < length (bitmaps idx) \<and> bitmaps idx ! t \<noteq> None")
    case True
    then show ?thesis using bitmap_off [OF assms] by (auto simp: drop_tag_def)
  next
    case False
    then have "drop_tag f idx t = idx" "\<not> has idx t f" by (auto simp: drop_tag_def has_def split: option.splits)
    then show ?thesis using assms by (auto simp: fun_eq_iff)
  qed
  then show "bitmaps_ok (drop_tag f idx t)" "has (drop_tag f idx t) = (\<lambda>t' f'. has idx t' f' \<and> \<not> (t' = t \<and> f' = f))" by blast+
qed

lemma drop_tags:
  "bitmaps_ok idx \<Longrightarrow> bitmaps_ok (foldl (drop_tag f) idx ts) \<and>
     has (foldl (drop_tag f) idx ts) = (\<lambda>t' f'. has idx t' f' \<and> \<not> (t' \<in> set ts \<and> f' = f)) \<and>
     file_to_tags (foldl (drop_tag f) idx ts) = file_to_tags idx \<and> max_file_id (foldl (drop_tag f) idx ts) = max_file_id idx \<and>
     generation (foldl (drop_tag f) idx ts) = generation idx \<and> cache (foldl (drop_tag f) idx ts) = cache idx"
proof (induction ts arbitrary: idx)
  case (Cons t ts)
  then show ?case using Cons.IH [OF drop_tag_ok(1) [OF Cons.prems, of f t]] drop_tag_ok(2) [OF Cons.prems, of f t]
    by (auto simp: fun_eq_iff)
qed simp

lemma remove_file_ok:
  assumes bok: "bitmaps_ok idx" and rev: "reverse_ok idx"
  shows "bitmaps_ok (tag_bitmap_remove_file idx f)" "reverse_ok (tag_bitmap_remove_file idx f)"
    "cache (tag_bitmap_remove_file idx f) = cache idx"
    "has (tag_bitmap_remove_file idx f) = (\<lambda>t' f'. has idx t' f' \<and> f' \<noteq> f)"
    "tag_bitmap_remove_file idx f = idx \<or> generation (tag_bitmap_remove_file idx f) = generation idx + 1"
proof -
  let ?idx = "tag_bitmap_remove_file idx f"
  have all: "bitmaps_ok ?idx \<and> reverse_ok ?idx \<and> cache ?idx = cache idx \<and> has ?idx = (\<lambda>t' f'. has idx t' f' \<and> f' \<noteq> f) \<and>
    (?idx = idx \<or> generation ?idx = generation idx + 1)"
  proof (cases "f < length (file_to_tags idx)")
    case False
    then have "?idx = idx" "\<not> has idx t f" for t using rev by (auto simp: tag_bitmap_remove_file_def reverse_ok_def)
    then show ?thesis using bok rev by (auto simp: fun_eq_iff)
  next
    case True
    let ?idx1 = "foldl (drop_tag f) idx (tl_ids (file_to_tags idx ! f))"
    have ids: "set (tl_ids (file_to_tags idx ! f)) = {t. has idx t f}" using rev True by (auto simp: reverse_ok_def Let_def)
    note d = drop_tags [OF bok, of f "tl_ids (file_to_tags idx ! f)"]
    have eq: "?idx = (set_list ?idx1 f no_tags)\<lparr>generation := generation idx + 1\<rparr>"
      using True d by (simp add: tag_bitmap_remove_file_def Let_def)
    have "has ?idx = has ?idx1" by (rule has_cong) (simp add: eq)
    also have "\<dots> = (\<lambda>t' f'. has idx t' f' \<and> f' \<noteq> f)" using d ids by (auto simp: fun_eq_iff)
    finally have h: "has ?idx = (\<lambda>t' f'. has idx t' f' \<and> f' \<noteq> f)" .
    have h1: "has ?idx1 = (\<lambda>t' f'. has idx t' f' \<and> f' \<noteq> f)" using d ids by (auto simp: fun_eq_iff)
    have fr: "bitmaps ?idx = bitmaps ?idx1" "max_file_id ?idx = max_file_id idx" "cache ?idx = cache idx"
        "generation ?idx = generation idx + 1" "file_to_tags ?idx = (file_to_tags idx)[f := no_tags]"
      using d by (simp_all add: eq)
    have mx: "max_file_id ?idx1 = max_file_id idx" and "bitmaps_ok ?idx1" using d by blast+
    then have "bitmaps_ok ?idx" unfolding bitmaps_ok_def h h1 fr(1,2) mx by blast
    moreover have "reverse_ok ?idx" unfolding reverse_ok_def h fr(5)
    proof (intro conjI allI impI)
      show "f' < length ((file_to_tags idx)[f := no_tags])" if "has idx t' f' \<and> f' \<noteq> f" for t' f'
        using that rev by (auto simp: reverse_ok_def)
      show "let l = (file_to_tags idx)[f := no_tags] ! f' in distinct (tl_ids l) \<and>
          set (tl_ids l) = {t. has idx t f' \<and> f' \<noteq> f} \<and> length (tl_ids l) \<le> tl_capacity l"
        if "f' < length ((file_to_tags idx)[f := no_tags])" for f'
        using that rev by (cases "f' = f") (simp_all add: reverse_ok_def no_tags_def)
    qed
    ultimately show ?thesis using h fr by simp
  qed
  then show "bitmaps_ok ?idx" "reverse_ok ?idx" "cache ?idx = cache idx" "has ?idx = (\<lambda>t' f'. has idx t' f' \<and> f' \<noteq> f)"
    "?idx = idx \<or> generation ?idx = generation idx + 1" by blast+
qed

end
