(* ===== verification/TagQuery.thy ===== *)
theory TagQuery
  imports TagBitmap
begin

unbundle bit_operations_syntax

text \<open>
  Queries over the tag index (kernel/tagfs/tag\_bitmap/tag\_bitmap.c): the files that carry all of a list
  of tags and, for each of a list of groups, at least one tag of the group. The code combines the
  bitmaps eight bytes at a time, reads the result off word by word with \<^verbatim>\<open>__builtin_ctzll\<close>, and
  caches the answers to plain tag lists. Each of these is modelled as it is written and shown to
  compute the set that the query means.
\<close>

section \<open>Bytes through 64-bit words\<close>

definition get64 :: "bytes \<Rightarrow> nat \<Rightarrow> u64" where
  "get64 r w = le_get (take 8 (drop (8 * w) r))"

definition put64 :: "bytes \<Rightarrow> nat \<Rightarrow> u64 \<Rightarrow> bytes" where
  "put64 r w v = take (8 * w) r @ le_put 8 v @ drop (8 * w + 8) r"

definition word_loop :: "(u64 \<Rightarrow> u64 \<Rightarrow> u64) \<Rightarrow> nat \<Rightarrow> bytes \<Rightarrow> bytes \<Rightarrow> bytes" where
  "word_loop f words r b = foldl (\<lambda>r w. put64 r w (f (get64 r w) (get64 b w))) r [0..<words]"

definition byte_loop :: "(u8 \<Rightarrow> u8 \<Rightarrow> u8) \<Rightarrow> nat \<Rightarrow> nat \<Rightarrow> bytes \<Rightarrow> bytes \<Rightarrow> bytes" where
  "byte_loop f lo hi r b = foldl (\<lambda>r i. r[i := f (r ! i) (b ! i)]) r [lo..<hi]"

definition and_bytes :: "nat \<Rightarrow> bytes \<Rightarrow> bytes \<Rightarrow> bytes" where
  "and_bytes len r b = (let words = len div 8 in byte_loop (AND) (words * 8) len (word_loop (AND) words r b) b)"

definition or_bytes :: "nat \<Rightarrow> bytes \<Rightarrow> bytes \<Rightarrow> bytes" where
  "or_bytes len r b = (let words = len div 8 in byte_loop (OR) (words * 8) len (word_loop (OR) words r b) b)"

definition zero_from :: "nat \<Rightarrow> nat \<Rightarrow> bytes \<Rightarrow> bytes" where
  "zero_from lo hi r = foldl (\<lambda>r b. r[b := 0]) r [lo..<hi]"

definition bitmap_is_empty :: "bytes \<Rightarrow> nat \<Rightarrow> bool" where
  "bitmap_is_empty bitmap byte_count =
     (let word_count = byte_count div 8
      in (\<forall>w\<in>set [0..<word_count]. get64 bitmap w = 0) \<and> (\<forall>b\<in>set [word_count * 8..<byte_count]. bitmap ! b = 0))"

section \<open>Reading off the set bits\<close>

text \<open>The lowest set bit is the one \<^verbatim>\<open>word &= word - 1\<close> clears.\<close>

lemma clear_lowest:
  assumes "(w :: 'a::len word) \<noteq> 0"
  shows "bit (w AND (w - 1)) i \<longleftrightarrow> bit w i \<and> i \<noteq> ctz w"
proof -
  let ?k = "ctz w"
  note z = ctz_lowest [OF assms]
  define u where "u = w AND NOT (2 ^ ?k)"
  have u: "bit u i \<longleftrightarrow> bit w i \<and> i \<noteq> ?k" for i
    using bit_imp_le_length [of w i] by (auto simp: u_def bit_and_iff bit_not_iff bit_exp_iff possible_bit_word)
  have "u AND 2 ^ ?k = 0" by (rule bit_word_eqI) (simp add: bit_and_iff u bit_exp_iff)
  then have "u + 2 ^ ?k = u OR 2 ^ ?k" by (rule disjunctive_add_eq_or)
  also have "\<dots> = w" by (rule bit_word_eqI) (use z(1,2) in \<open>auto simp: bit_or_iff u bit_exp_iff possible_bit_word\<close>)
  finally have "w - 1 = u + mask ?k" by (simp add: mask_eq_exp_minus_1 algebra_simps)
  also have "u AND mask ?k = 0" by (rule bit_word_eqI) (use z(3) in \<open>auto simp: bit_and_iff u bit_mask_iff\<close>)
  then have "u + mask ?k = u OR mask ?k" by (rule disjunctive_add_eq_or)
  finally have m: "w - 1 = u OR mask ?k" .
  show ?thesis unfolding m using z(3) by (auto simp: bit_and_iff bit_or_iff u bit_mask_iff)
qed

definition bit_list :: "'a::len word \<Rightarrow> nat list" where
  "bit_list w = filter (bit w) [0..<LENGTH('a)]"

lemma bit_list_step:
  assumes "(w :: 'a::len word) \<noteq> 0"
  shows "bit_list w = ctz w # bit_list (w AND (w - 1))"
proof -
  note z = ctz_lowest [OF assms]
  have "filter (bit w) [0..<ctz w] = []" using z(3) by (simp add: filter_empty_conv)
  moreover have "[0..<LENGTH('a)] = [0..<ctz w] @ ctz w # [Suc (ctz w)..<LENGTH('a)]"
    using z(1) upt_add_eq_append [of 0 "ctz w" "LENGTH('a) - ctz w"] upt_conv_Cons [of "ctz w" "LENGTH('a)"] by simp
  moreover have "filter (bit (w AND (w - 1))) [0..<ctz w] = []" using z(3) by (simp add: filter_empty_conv clear_lowest [OF assms])
  moreover have "filter (bit (w AND (w - 1))) [Suc (ctz w)..<LENGTH('a)] = filter (bit w) [Suc (ctz w)..<LENGTH('a)]"
    by (rule filter_cong) (auto simp: clear_lowest [OF assms])
  ultimately show ?thesis using z(2) by (simp add: bit_list_def clear_lowest [OF assms])
qed

text \<open>The inner loops of \<^verbatim>\<open>extract_set_bits\<close>, for a word or a byte whose first bit is file \<open>base\<close>.\<close>

function bits_loop :: "nat \<Rightarrow> nat \<Rightarrow> nat \<Rightarrow> 'a::len word \<Rightarrow> nat list \<Rightarrow> nat list" where
  "bits_loop max_file max_results base word out =
     (if word \<noteq> 0 \<and> length out < max_results then
        (let fid = base + ctz word
         in bits_loop max_file max_results base (word AND (word - 1))
              (if fid \<ge> 1 \<and> fid \<le> max_file then out @ [fid] else out))
      else out)"
  by pat_completeness auto
termination
proof (relation "measure (\<lambda>(max_file, max_results, base, word, out). length (bit_list word))")
  show "((max_file, max_results, base, word AND (word - 1), if fid \<ge> 1 \<and> fid \<le> max_file then out @ [fid] else out),
      (max_file, max_results, base, word, out)) \<in> measure (\<lambda>(max_file, max_results, base, word, out). length (bit_list word))"
    if "word \<noteq> 0 \<and> length out < max_results" for max_file max_results base fid :: nat and word :: "'a word" and out
    using that bit_list_step [of word] by simp
qed simp

declare bits_loop.simps [simp del]

definition extract_set_bits :: "bytes \<Rightarrow> nat \<Rightarrow> nat \<Rightarrow> nat \<Rightarrow> nat list" where
  "extract_set_bits bitmap byte_count max_file max_results =
     (let word_count = byte_count div 8;
          out = foldl (\<lambda>out w. bits_loop max_file max_results (w * 64) (get64 bitmap w) out) [] [0..<word_count]
      in foldl (\<lambda>out b. bits_loop max_file max_results (b * 8) (bitmap ! b) out) out [word_count * 8..<byte_count])"


section \<open>The query\<close>

definition bitmap_of :: "TagBitmapIndex \<Rightarrow> nat \<Rightarrow> TagBitmap option" where
  "bitmap_of idx tid = (if tid \<ge> length (bitmaps idx) then None else bitmaps idx ! tid)"

definition bm_bytes :: "TagBitmap \<Rightarrow> nat" where
  "bm_bytes bm = u32_wrap (tb_bit_count bm + 7) div 8"

definition first_tag :: "nat \<Rightarrow> TagBitmap \<Rightarrow> bytes" where
  "first_tag size' bm = (let copy_len = min (bm_bytes bm) size' in take copy_len (tb_bits bm) @ replicate (size' - copy_len) 0)"

definition next_tag :: "nat \<Rightarrow> TagBitmap \<Rightarrow> bytes \<Rightarrow> bytes" where
  "next_tag size' bm result =
     (let copy_len = min (bm_bytes bm) size' in zero_from copy_len size' (and_bytes copy_len result (tb_bits bm)))"

text \<open>The loop over the tags: \<open>None\<close> when it returns early with no results.\<close>

primrec tag_loop :: "TagBitmapIndex \<Rightarrow> nat \<Rightarrow> nat list \<Rightarrow> bool \<times> bytes \<Rightarrow> (bool \<times> bytes) option" where
  "tag_loop idx size' [] acc = Some acc"
| "tag_loop idx size' (tid # tids) acc =
     (case bitmap_of idx tid of
        None \<Rightarrow> None
      | Some bm \<Rightarrow>
          if fst acc then tag_loop idx size' tids (False, first_tag size' bm)
          else let result = next_tag size' bm (snd acc)
               in if bitmap_is_empty result size' then None else tag_loop idx size' tids (False, result))"

definition or_group :: "TagBitmapIndex \<Rightarrow> nat \<Rightarrow> nat list \<Rightarrow> bytes" where
  "or_group idx size' tids =
     foldl (\<lambda>temp tid. case bitmap_of idx tid of
              None \<Rightarrow> temp
            | Some bm \<Rightarrow> or_bytes (min (bm_bytes bm) size') temp (tb_bits bm))
       (replicate size' 0) tids"

text \<open>
  The loop over the groups; a group is NULL or the list of its tags. \<open>temp_ok\<close> says which of the
  temporary allocations succeed. It fails, returns early with no results, or goes on.
\<close>

datatype progress = Failed | Nothing | Going bool bytes

fun group_loop :: "(nat \<Rightarrow> bool) \<Rightarrow> TagBitmapIndex \<Rightarrow> nat \<Rightarrow> nat \<Rightarrow> nat list option list \<Rightarrow> bool \<times> bytes \<Rightarrow> progress" where
  "group_loop temp_ok idx size' g [] (first, result) = Going first result"
| "group_loop temp_ok idx size' g (grp # grps) (first, result) =
     (case grp of
        None \<Rightarrow> group_loop temp_ok idx size' (Suc g) grps (first, result)
      | Some tids \<Rightarrow>
          if tids = [] then group_loop temp_ok idx size' (Suc g) grps (first, result)
          else if \<not> temp_ok g then Failed
          else
            let temp = or_group idx size' tids;
                result1 = (if first then temp else word_loop (AND) (size' div 8) result temp)
            in if bitmap_is_empty result1 size' then Nothing
               else group_loop temp_ok idx size' (Suc g) grps (False, result1))"

subsection \<open>The cache\<close>

definition query_hash :: "nat list \<Rightarrow> nat list option list \<Rightarrow> u32" where
  "query_hash tag_ids groups =
     (let h = foldl (\<lambda>h t. (h XOR of_nat t) * 0x01000193) 0x811c9dc5 tag_ids
      in foldl (\<lambda>h grp. case grp of None \<Rightarrow> h
                 | Some tids \<Rightarrow> foldl (\<lambda>h t. (h XOR (of_nat t OR 0x80000000)) * 0x01000193) h tids) h groups)"

definition cache_match :: "TagBitmapIndex \<Rightarrow> u32 \<Rightarrow> nat list \<Rightarrow> QueryCacheEntry \<Rightarrow> bool" where
  "cache_match idx hash tag_ids e \<longleftrightarrow> qc_hash e = hash \<and> qc_generation e = generation idx \<and>
     qc_tag_count e = length tag_ids \<and> qc_file_ids e \<noteq> None \<and>
     (case qc_tag_key e of None \<Rightarrow> False | Some key \<Rightarrow> take (length tag_ids) key = tag_ids)"

definition cache_lookup :: "TagBitmapIndex \<Rightarrow> u32 \<Rightarrow> nat list \<Rightarrow> QueryCacheEntry option" where
  "cache_lookup idx hash tag_ids = find (cache_match idx hash tag_ids) (take QUERY_CACHE_SLOTS (cache idx))"

definition cache_store :: "bool \<Rightarrow> bool \<Rightarrow> TagBitmapIndex \<Rightarrow> u32 \<Rightarrow> nat list \<Rightarrow> nat list \<Rightarrow> TagBitmapIndex" where
  "cache_store ids_ok key_ok idx hash tag_ids file_ids =
     (let slot = unat hash mod QUERY_CACHE_SLOTS;
          e = \<lparr>qc_hash = hash, qc_generation = generation idx,
               qc_file_ids = (if ids_ok then Some file_ids else None), qc_count = length file_ids,
               qc_tag_key = (if key_ok then Some tag_ids else None), qc_tag_count = u16_wrap (length tag_ids)\<rparr>
      in idx\<lparr>cache := (cache idx)[slot := e]\<rparr>)"

subsection \<open>The whole handler\<close>

record QueryMem =
  m_result :: bool
  m_temp :: "nat \<Rightarrow> bool"
  m_file_ids :: bool
  m_tag_key :: bool

definition result_bytes :: "TagBitmapIndex \<Rightarrow> nat" where
  "result_bytes idx = (let n = u32_wrap (max_file_id idx + 8) div 8 in (n + 7) div 8 * 8)"

text \<open>
  The part after the cache. The result is \<open>None\<close> for the error return -1, else the list of file
  numbers written, whose length is the return value.
\<close>

definition run_query ::
  "QueryMem \<Rightarrow> TagBitmapIndex \<Rightarrow> u32 \<Rightarrow> nat list \<Rightarrow> nat list option list \<Rightarrow> nat \<Rightarrow> nat list option \<times> TagBitmapIndex" where
  "run_query mem idx hash tag_ids groups max_results =
     (if \<not> m_result mem then (None, idx)
      else
        let size' = result_bytes idx in
        case tag_loop idx size' tag_ids (True, replicate size' 0) of
          None \<Rightarrow> (Some [], idx)
        | Some acc \<Rightarrow>
            (case group_loop (m_temp mem) idx size' 0 groups acc of
               Failed \<Rightarrow> (None, idx)
             | Nothing \<Rightarrow> (Some [], idx)
             | Going first result \<Rightarrow>
                 if first then (Some [], idx)
                 else
                   let out = extract_set_bits result size' (max_file_id idx) max_results
                   in (Some out,
                       if tag_ids \<noteq> [] \<and> groups = [] \<and> length out < max_results
                       then cache_store (m_file_ids mem) (m_tag_key mem) idx hash tag_ids out else idx)))"

definition tag_bitmap_query ::
  "QueryMem \<Rightarrow> TagBitmapIndex \<Rightarrow> nat list \<Rightarrow> nat list option list \<Rightarrow> nat \<Rightarrow> nat list option \<times> TagBitmapIndex" where
  "tag_bitmap_query mem idx tag_ids groups max_results =
     (if max_file_id idx = 0 then (Some [], idx)
      else if tag_ids \<noteq> [] \<and> groups = [] then
        (let hash = query_hash tag_ids groups in
         case cache_lookup idx hash tag_ids of
           Some e \<Rightarrow> (Some (take (min (qc_count e) max_results) (the (qc_file_ids e))), idx)
         | None \<Rightarrow> run_query mem idx hash tag_ids groups max_results)
      else run_query mem idx 0 tag_ids groups max_results)"

section \<open>What the query means\<close>

definition in_group :: "TagBitmapIndex \<Rightarrow> nat \<Rightarrow> nat list option \<Rightarrow> bool" where
  "in_group idx f grp = (case grp of None \<Rightarrow> True | Some tids \<Rightarrow> tids = [] \<or> (\<exists>t\<in>set tids. has idx t f))"

definition restricts :: "nat list \<Rightarrow> nat list option list \<Rightarrow> bool" where
  "restricts tag_ids groups \<longleftrightarrow> tag_ids \<noteq> [] \<or> (\<exists>grp\<in>set groups. grp \<noteq> None \<and> grp \<noteq> Some [])"

definition query_spec :: "TagBitmapIndex \<Rightarrow> nat list \<Rightarrow> nat list option list \<Rightarrow> nat list" where
  "query_spec idx tag_ids groups =
     (if restricts tag_ids groups
      then filter (\<lambda>f. 1 \<le> f \<and> (\<forall>t\<in>set tag_ids. has idx t f) \<and> (\<forall>grp\<in>set groups. in_group idx f grp)) [0..<max_file_id idx + 1]
      else [])"


section \<open>Combining bitmaps\<close>

definition bytewise :: "(u64 \<Rightarrow> u64 \<Rightarrow> u64) \<Rightarrow> (u8 \<Rightarrow> u8 \<Rightarrow> u8) \<Rightarrow> bool" where
  "bytewise f g \<longleftrightarrow> (\<forall>x y i. length x = 8 \<longrightarrow> length y = 8 \<longrightarrow> i < 8 \<longrightarrow> le_put 8 (f (le_get x) (le_get y)) ! i = g (x ! i) (y ! i))"

lemma byte_of_word: "i < 8 \<Longrightarrow> n < 8 \<Longrightarrow> (8 * i + n) div 8 = i \<and> (8 * i + n) mod 8 = n \<and> 8 * i + n < 64" for i n :: nat
  by auto

lemma bytewise_ops: "bytewise (AND) (AND)" "bytewise (OR) (OR)"
proof -
  have "le_put 8 (le_get x AND le_get y :: u64) ! i = x ! i AND y ! i" "le_put 8 (le_get x OR le_get y :: u64) ! i = x ! i OR y ! i"
    if "length x = 8" "length y = 8" "i < 8" for x y :: bytes and i
    using that by (auto intro!: bit_word_eqI simp: le_put_def bit_ucast_iff bit_drop_bit_eq bit_and_iff bit_or_iff bit_le_get byte_of_word)
  then show "bytewise (AND) (AND)" "bytewise (OR) (OR)" by (simp_all add: bytewise_def)
qed

lemma put64_nth:
  assumes "8 * w + 8 \<le> length r"
  shows "length (put64 r w v) = length r"
    "i < length r \<Longrightarrow> put64 r w v ! i = (if 8 * w \<le> i \<and> i < 8 * w + 8 then le_put 8 v ! (i - 8 * w) else r ! i)"
  using assms by (auto simp: put64_def nth_append min_def)

lemma window_nth: "8 * w \<le> i \<Longrightarrow> i < 8 * w + 8 \<Longrightarrow> 8 * w \<le> length xs \<Longrightarrow> take 8 (drop (8 * w) xs) ! (i - 8 * w) = xs ! i"
  for w i :: nat
  by (subst nth_take) auto

lemma word_loop_nth:
  assumes "bytewise f g" "8 * n \<le> length r" "8 * n \<le> length b"
  shows "length (word_loop f n r b) = length r"
    "i < length r \<Longrightarrow> word_loop f n r b ! i = (if i < 8 * n then g (r ! i) (b ! i) else r ! i)"
proof -
  have "length (word_loop f n r b) = length r \<and>
    (\<forall>i<length r. word_loop f n r b ! i = (if i < 8 * n then g (r ! i) (b ! i) else r ! i))"
    using assms(2,3)
  proof (induction n)
    case 0
    then show ?case by (simp add: word_loop_def)
  next
    case (Suc n)
    let ?r = "word_loop f n r b"
    have ih: "length ?r = length r" "\<And>i. i < length r \<Longrightarrow> ?r ! i = (if i < 8 * n then g (r ! i) (b ! i) else r ! i)"
      using Suc by auto
    have eq: "word_loop f (Suc n) r b = put64 ?r n (f (get64 ?r n) (get64 b n))" by (simp add: word_loop_def)
    have w: "8 * n + 8 \<le> length ?r" using Suc.prems ih(1) by simp
    have "put64 ?r n (f (get64 ?r n) (get64 b n)) ! i = (if i < 8 * Suc n then g (r ! i) (b ! i) else r ! i)" if "i < length r" for i
    proof (cases "8 * n \<le> i \<and> i < 8 * n + 8")
      case True
      let ?x = "take 8 (drop (8 * n) ?r)" and ?y = "take 8 (drop (8 * n) b)"
      have xy: "length ?x = 8" "length ?y = 8" "i - 8 * n < 8" using Suc.prems ih(1) True by auto
      have "le_put 8 (f (le_get ?x) (le_get ?y)) ! (i - 8 * n) = g (?x ! (i - 8 * n)) (?y ! (i - 8 * n))"
        using assms(1) xy unfolding bytewise_def by blast
      moreover have "?y ! (i - 8 * n) = b ! i" "?x ! (i - 8 * n) = ?r ! i"
        using Suc.prems True w by (auto intro!: window_nth)
      ultimately show ?thesis using put64_nth(2) [OF w] that True ih xy(3) by (simp add: get64_def)
    next
      case False
      then show ?thesis using put64_nth(2) [OF w] that ih by auto
    qed
    then show ?case using eq put64_nth(1) [OF w] ih(1) by simp
  qed
  then show "length (word_loop f n r b) = length r"
    "i < length r \<Longrightarrow> word_loop f n r b ! i = (if i < 8 * n then g (r ! i) (b ! i) else r ! i)" by blast+
qed

lemma byte_loop_nth:
  assumes "hi \<le> length r"
  shows "length (byte_loop g lo hi r b) = length r"
    "byte_loop g lo hi r b ! i = (if lo \<le> i \<and> i < hi then g (r ! i) (b ! i) else r ! i)"
proof -
  have "length (byte_loop g lo hi r b) = length r \<and>
    (\<forall>i. byte_loop g lo hi r b ! i = (if lo \<le> i \<and> i < hi then g (r ! i) (b ! i) else r ! i))"
    using assms
  proof (induction hi)
    case (Suc hi)
    show ?case
    proof (cases "lo \<le> hi")
      case True
      then have "byte_loop g lo (Suc hi) r b = (byte_loop g lo hi r b)[hi := g (byte_loop g lo hi r b ! hi) (b ! hi)]"
        by (simp add: byte_loop_def)
      then show ?thesis using Suc True by (auto simp: nth_update_if)
    next
      case False
      then show ?thesis by (auto simp: byte_loop_def)
    qed
  qed (simp add: byte_loop_def)
  then show "length (byte_loop g lo hi r b) = length r"
    "byte_loop g lo hi r b ! i = (if lo \<le> i \<and> i < hi then g (r ! i) (b ! i) else r ! i)" by blast+
qed

lemma combine_nth:
  assumes "bytewise f g" "len \<le> length r" "len \<le> length b"
  defines "res \<equiv> byte_loop g (len div 8 * 8) len (word_loop f (len div 8) r b) b"
  shows "length res = length r" "i < length r \<Longrightarrow> res ! i = (if i < len then g (r ! i) (b ! i) else r ! i)"
proof -
  have n: "8 * (len div 8) \<le> length r" "8 * (len div 8) \<le> length b" using assms(2,3) by auto
  note w = word_loop_nth [OF assms(1) n]
  have len: "len \<le> length (word_loop f (len div 8) r b)" using w(1) assms(2) by simp
  show "length res = length r" using byte_loop_nth(1) [OF len] w(1) by (simp add: res_def)
  show "res ! i = (if i < len then g (r ! i) (b ! i) else r ! i)" if "i < length r"
    using byte_loop_nth(2) [OF len, of g "len div 8 * 8" b i] w(2) [OF that] by (auto simp: res_def mult.commute)
qed

lemma zero_from_nth:
  assumes "hi \<le> length r"
  shows "length (zero_from lo hi r) = length r" "zero_from lo hi r ! i = (if lo \<le> i \<and> i < hi then 0 else r ! i)"
proof -
  have eq: "zero_from lo hi r = byte_loop (\<lambda>_ _. 0) lo hi r []" by (simp add: zero_from_def byte_loop_def)
  show "length (zero_from lo hi r) = length r" "zero_from lo hi r ! i = (if lo \<le> i \<and> i < hi then 0 else r ! i)"
    unfolding eq using byte_loop_nth [OF assms, of "\<lambda>_ _. 0" lo "[]"] by auto
qed

lemma empty_bytes:
  assumes "bitmap_is_empty r n" "n \<le> length r" "i < n"
  shows "r ! i = 0"
proof (cases "i < n div 8 * 8")
  case True
  then have w: "i div 8 < n div 8" using assms(3) by (simp add: less_mult_imp_div_less)
  then have z: "get64 r (i div 8) = 0" using assms(1) by (simp add: bitmap_is_empty_def Let_def)
  let ?x = "take 8 (drop (8 * (i div 8)) r)"
  have "8 * (i div 8) + 8 \<le> length r" using w assms(2) by linarith
  then have len: "length ?x = 8" by simp
  have "r ! i = ?x ! (i mod 8)" using len by simp
  moreover have "\<not> bit (?x ! (i mod 8)) m" for m
  proof (cases "m < 8")
    case True
    have "\<not> bit (le_get ?x :: u64) (8 * (i mod 8) + m)" using z by (simp add: get64_def)
    then show ?thesis using bit_le_get [of ?x "8 * (i mod 8) + m", where 'a = 64] byte_of_word [of "i mod 8" m] len True by simp
  next
    case False
    then show ?thesis using bit_imp_le_length by fastforce
  qed
  ultimately show ?thesis by (simp add: bit_eq_iff)
next
  case False
  then show ?thesis using assms by (simp add: bitmap_is_empty_def Let_def)
qed


section \<open>The sets the bitmaps stand for\<close>

definition rep :: "bytes \<Rightarrow> nat \<Rightarrow> (nat \<Rightarrow> bool) \<Rightarrow> bool" where
  "rep r n P \<longleftrightarrow> length r = n \<and> (\<forall>f<8 * n. wa_test r f \<longleftrightarrow> P f)"

lemma bytes_of_bm: "bm_ok bm \<Longrightarrow> bm_bytes bm = length (tb_bits bm)"
  by (simp add: bm_ok_def bm_bytes_def)

lemma byte_index: "f < 8 * n \<Longrightarrow> f div 8 < n" for f n :: nat
  by (simp add: less_mult_imp_div_less mult.commute)

lemma in_files: "f \<in> files bm \<longleftrightarrow> f div 8 < length (tb_bits bm) \<and> bit (tb_bits bm ! (f div 8)) (f mod 8)"
  by (auto simp: files_def wa_test_bit)

lemma first_rep: "bm_ok bm \<Longrightarrow> rep (first_tag n bm) n (\<lambda>f. f \<in> files bm)"
  by (auto simp: rep_def first_tag_def Let_def bytes_of_bm wa_test_bit in_files nth_append byte_index min_def)

lemma next_rep:
  assumes bm: "bm_ok bm" and r: "rep r n P"
  shows "rep (next_tag n bm r) n (\<lambda>f. P f \<and> f \<in> files bm)"
proof -
  let ?l = "min (bm_bytes bm) n"
  have l: "?l \<le> length r" "?l \<le> length (tb_bits bm)" "length r = n" using r bytes_of_bm [OF bm] by (auto simp: rep_def)
  note c = combine_nth [OF bytewise_ops(1) l(1,2), folded and_bytes_def [unfolded Let_def]]
  have n: "n \<le> length (and_bytes ?l r (tb_bits bm))" using c(1) l(3) by simp
  note z = zero_from_nth [OF n, of ?l]
  have "next_tag n bm r ! i = (if i < length (tb_bits bm) then r ! i AND tb_bits bm ! i else 0)" if "i < n" for i
    using that z(2) [of i] c(2) [of i] l(3) bytes_of_bm [OF bm] by (auto simp: next_tag_def Let_def)
  then show ?thesis using r z(1) c(1) l(3)
    by (auto simp: rep_def next_tag_def Let_def wa_test_bit in_files byte_index bit_and_iff)
qed

lemma or_rep:
  assumes bm: "bm_ok bm" and r: "rep r n P"
  shows "rep (or_bytes (min (bm_bytes bm) n) r (tb_bits bm)) n (\<lambda>f. P f \<or> f \<in> files bm)"
proof -
  let ?l = "min (bm_bytes bm) n"
  have l: "?l \<le> length r" "?l \<le> length (tb_bits bm)" "length r = n" using r bytes_of_bm [OF bm] by (auto simp: rep_def)
  note c = combine_nth [OF bytewise_ops(2) l(1,2), folded or_bytes_def [unfolded Let_def]]
  have "or_bytes ?l r (tb_bits bm) ! i = (if i < length (tb_bits bm) then r ! i OR tb_bits bm ! i else r ! i)" if "i < n" for i
    using that c(2) [of i] l(3) bytes_of_bm [OF bm] by auto
  then show ?thesis using r c(1) l(3) by (auto simp: rep_def wa_test_bit in_files byte_index bit_or_iff)
qed

lemma and_rep:
  assumes "rep r n P" "rep s n Q" "8 dvd n"
  shows "rep (word_loop (AND) (n div 8) r s) n (\<lambda>f. P f \<and> Q f)"
proof -
  have n: "8 * (n div 8) \<le> length r" "8 * (n div 8) \<le> length s" using assms by (auto simp: rep_def)
  show ?thesis using assms word_loop_nth [OF bytewise_ops(1) n]
    by (auto simp: rep_def wa_test_bit byte_index bit_and_iff)
qed

lemma empty_rep: "bitmap_is_empty r n \<Longrightarrow> rep r n P \<Longrightarrow> f < 8 * n \<Longrightarrow> \<not> P f"
  using empty_bytes [of r n "f div 8"] by (auto simp: rep_def wa_test_bit byte_index)

lemma bitmap_of_ok: "bitmaps_ok idx \<Longrightarrow> bitmap_of idx t = Some bm \<Longrightarrow> bm_ok bm \<and> (\<forall>f. has idx t f \<longleftrightarrow> f \<in> files bm)"
  by (auto simp: bitmap_of_def bitmaps_ok_def has_def split: if_splits) (metis nth_mem not_le)

lemma bitmap_of_none: "bitmap_of idx t = None \<Longrightarrow> \<not> has idx t f"
  by (auto simp: bitmap_of_def has_def split: if_splits)

lemma or_group_rep:
  assumes "bitmaps_ok idx"
  shows "rep (or_group idx n tids) n (\<lambda>f. \<exists>t\<in>set tids. has idx t f)"
proof (induction tids rule: rev_induct)
  case Nil
  show ?case by (auto simp: or_group_def rep_def wa_test_bit byte_index)
next
  case (snoc t tids)
  show ?case
  proof (cases "bitmap_of idx t")
    case None
    then show ?thesis using snoc bitmap_of_none [OF None] by (simp add: or_group_def)
  next
    case (Some bm)
    note b = bitmap_of_ok [OF assms Some]
    then have "rep (or_group idx n (tids @ [t])) n (\<lambda>f. (\<exists>t\<in>set tids. has idx t f) \<or> f \<in> files bm)"
      using or_rep [OF _ snoc, of bm] Some by (simp add: or_group_def)
    then show ?thesis using b by (auto simp: rep_def)
  qed
qed

text \<open>What the pair of the flag \<^verbatim>\<open>first\<close> and the result stands for: no restriction while the flag is set.\<close>

definition acc_rep :: "nat \<Rightarrow> bool \<times> bytes \<Rightarrow> (nat \<Rightarrow> bool) \<Rightarrow> bool" where
  "acc_rep n acc P \<longleftrightarrow> length (snd acc) = n \<and> (if fst acc then \<forall>f. P f else rep (snd acc) n P)"

lemma tag_loop_rep:
  assumes "bitmaps_ok idx" "acc_rep n acc P"
  shows "case tag_loop idx n tids acc of
      None \<Rightarrow> \<forall>f<8 * n. \<not> (P f \<and> (\<forall>t\<in>set tids. has idx t f))
    | Some acc' \<Rightarrow> acc_rep n acc' (\<lambda>f. P f \<and> (\<forall>t\<in>set tids. has idx t f)) \<and> (fst acc' \<longleftrightarrow> fst acc \<and> tids = [])"
  using assms(2)
proof (induction tids arbitrary: acc P)
  case (Cons t tids)
  have step: ?case if "bitmap_of idx t = Some bm" "tag_loop idx n (t # tids) acc = tag_loop idx n tids (False, r)"
      "rep r n (\<lambda>f. P f \<and> has idx t f)" for bm r
  proof -
    have "acc_rep n (False, r) (\<lambda>f. P f \<and> has idx t f)" using that(3) by (simp add: acc_rep_def rep_def)
    from Cons.IH [OF this] show ?thesis unfolding that(2) by (auto simp: conj_assoc split: option.splits)
  qed
  show ?case
  proof (cases "bitmap_of idx t")
    case None
    then show ?thesis using bitmap_of_none [OF None] by simp
  next
    case (Some bm)
    note b = bitmap_of_ok [OF assms(1) Some]
    show ?thesis
    proof (cases "fst acc")
      case True
      then have "rep (first_tag n bm) n (\<lambda>f. P f \<and> has idx t f)"
        using first_rep [of bm n] b Cons.prems by (simp add: acc_rep_def)
      then show ?thesis using step [OF Some] Some True by simp
    next
      case False
      let ?r = "next_tag n bm (snd acc)"
      have r: "rep ?r n (\<lambda>f. P f \<and> has idx t f)" using next_rep [of bm "snd acc" n P] b Cons.prems False by (simp add: acc_rep_def)
      show ?thesis
      proof (cases "bitmap_is_empty ?r n")
        case True
        then show ?thesis using empty_rep [OF True r] Some False by auto
      next
        case ne: False
        then show ?thesis using step [OF Some _ r] Some False by simp
      qed
    qed
  qed
qed simp

lemma group_loop_rep:
  assumes "bitmaps_ok idx" "8 dvd n" "acc_rep n (first, r) P"
  shows "case group_loop temp_ok idx n g grps (first, r) of
      Failed \<Rightarrow> \<exists>k. \<not> temp_ok k
    | Nothing \<Rightarrow> \<forall>f<8 * n. \<not> (P f \<and> (\<forall>grp\<in>set grps. in_group idx f grp))
    | Going first' r' \<Rightarrow> acc_rep n (first', r') (\<lambda>f. P f \<and> (\<forall>grp\<in>set grps. in_group idx f grp)) \<and>
        (first' \<longleftrightarrow> first \<and> \<not> restricts [] grps)"
  using assms(3)
proof (induction grps arbitrary: g first r P)
  case Nil
  then show ?case by (simp add: restricts_def)
next
  case (Cons grp grps)
  show ?case
  proof (cases "grp = None \<or> grp = Some []")
    case True
    then have "group_loop temp_ok idx n g (grp # grps) (first, r) = group_loop temp_ok idx n (Suc g) grps (first, r)"
        "in_group idx f grp" "restricts [] (grp # grps) = restricts [] grps" for f
      by (auto simp: in_group_def restricts_def)
    then show ?thesis using Cons.IH [OF Cons.prems, of "Suc g"] by (simp split: progress.splits)
  next
    case False
    then obtain tids where g: "grp = Some tids" "tids \<noteq> []" by auto
    let ?temp = "or_group idx n tids"
    let ?r = "if first then ?temp else word_loop (AND) (n div 8) r ?temp"
    have "rep ?temp n (\<lambda>f. in_group idx f grp)" using or_group_rep [OF assms(1)] g by (simp add: in_group_def)
    then have "rep ?r n (\<lambda>f. P f \<and> in_group idx f grp)"
      using Cons.prems and_rep [OF _ _ assms(2)] by (auto simp: acc_rep_def)
    then obtain r1 where r1: "r1 = ?r" and r: "rep r1 n (\<lambda>f. P f \<and> in_group idx f grp)" by blast
    show ?thesis
    proof (cases "temp_ok g \<and> \<not> bitmap_is_empty r1 n")
      case True
      have "acc_rep n (False, r1) (\<lambda>f. P f \<and> in_group idx f grp)" using r by (simp add: acc_rep_def rep_def)
      from Cons.IH [OF this, of "Suc g"]
      have "case group_loop temp_ok idx n (Suc g) grps (False, r1) of
          Failed \<Rightarrow> \<exists>k. \<not> temp_ok k
        | Nothing \<Rightarrow> \<forall>f<8 * n. \<not> (P f \<and> (\<forall>grp\<in>set (grp # grps). in_group idx f grp))
        | Going first' r' \<Rightarrow> acc_rep n (first', r') (\<lambda>f. P f \<and> (\<forall>grp\<in>set (grp # grps). in_group idx f grp)) \<and> \<not> first'"
        by (auto simp: conj_assoc split: progress.splits)
      moreover have "group_loop temp_ok idx n g (grp # grps) (first, r) = group_loop temp_ok idx n (Suc g) grps (False, r1)"
        using True g unfolding r1 by (simp add: Let_def)
      moreover have "restricts [] (grp # grps)" using g by (simp add: restricts_def)
      ultimately show ?thesis by (simp only: HOL.simp_thms)
    next
      case False
      then show ?thesis using empty_rep [OF _ r] g r1 by (auto simp: Let_def)
    qed
  qed
qed

section \<open>The set bits, in order\<close>

lemma take_take_append: "take m (take m xs @ ys) = take m (xs @ ys)"
  by (cases "length xs \<le> m") auto

lemma shift_upt: "map ((+) c) [0..<n] = [c..<c + n]"
  by (rule nth_equalityI) auto

lemma bits_loop_list:
  "length out \<le> m \<Longrightarrow>
   bits_loop mf m base w out = take m (out @ filter (\<lambda>f. 1 \<le> f \<and> f \<le> mf) (map ((+) base) (bit_list w)))"
proof (induction mf m base w out rule: bits_loop.induct)
  case (1 mf m base w out)
  show ?case
  proof (cases "w \<noteq> 0 \<and> length out < m")
    case True
    let ?o = "if 1 \<le> base + ctz w \<and> base + ctz w \<le> mf then out @ [base + ctz w] else out"
    have "bits_loop mf m base w out = bits_loop mf m base (w AND (w - 1)) ?o" using True by (subst bits_loop.simps) (simp add: Let_def)
    also have "\<dots> = take m (?o @ filter (\<lambda>f. 1 \<le> f \<and> f \<le> mf) (map ((+) base) (bit_list (w AND (w - 1)))))"
      using 1(1) [OF True refl] True by (simp split: if_splits)
    also have "?o @ filter (\<lambda>f. 1 \<le> f \<and> f \<le> mf) (map ((+) base) (bit_list (w AND (w - 1)))) =
        out @ filter (\<lambda>f. 1 \<le> f \<and> f \<le> mf) (map ((+) base) (bit_list w))"
      using True bit_list_step [of w] by simp
    finally show ?thesis .
  next
    case False
    then have "w = 0 \<or> length out = m" using 1 by auto
    moreover have "bit_list (0 :: 'a word) = []" by (simp add: bit_list_def)
    ultimately show ?thesis using False 1(2) by (subst bits_loop.simps) auto
  qed
qed

lemma bits_fold:
  "length out \<le> m \<Longrightarrow>
   foldl (\<lambda>out i. bits_loop mf m (base i) (word i) out) out is =
     take m (out @ filter (\<lambda>f. 1 \<le> f \<and> f \<le> mf) (concat (map (\<lambda>i. map ((+) (base i)) (bit_list (word i))) is)))"
proof (induction "is" arbitrary: out)
  case (Cons i "is")
  have "length (bits_loop mf m (base i) (word i) out) \<le> m" unfolding bits_loop_list [OF Cons.prems] by simp
  from Cons.IH [OF this] show ?case
    unfolding bits_loop_list [OF Cons.prems, of mf "base i" "word i"] foldl_Cons take_take_append by simp
qed simp

lemma segments:
  fixes g :: "nat \<Rightarrow> 'a::len word"
  assumes "\<And>i k. i < hi \<Longrightarrow> k < LENGTH('a) \<Longrightarrow> bit (g i) k \<longleftrightarrow> T (i * LENGTH('a) + k)" "lo \<le> hi"
  shows "concat (map (\<lambda>i. map ((+) (i * LENGTH('a))) (bit_list (g i))) [lo..<hi]) = filter T [lo * LENGTH('a)..<hi * LENGTH('a)]"
  using assms(2,1)
proof (induction hi rule: dec_induct)
  case (step hi)
  let ?L = "LENGTH('a)"
  have "[lo * ?L..<Suc hi * ?L] = [lo * ?L..<hi * ?L] @ map ((+) (hi * ?L)) [0..<?L]"
    using upt_add_eq_append [of "lo * ?L" "hi * ?L" ?L] step.hyps by (simp add: shift_upt add.commute)
  moreover have "map ((+) (hi * ?L)) (bit_list (g hi)) = filter T (map ((+) (hi * ?L)) [0..<?L])"
    unfolding bit_list_def filter_map by (intro arg_cong [where f = "map _"] filter_cong) (use step.prems [of hi] in auto)
  ultimately show ?case using step by simp
qed simp

lemma get64_bit:
  assumes "8 * w + 8 \<le> length r" "k < 64"
  shows "bit (get64 r w) k \<longleftrightarrow> wa_test r (w * 64 + k)"
proof -
  have "k div 8 < 8" "(w * 64 + k) div 8 = 8 * w + k div 8" "(w * 64 + k) mod 8 = k mod 8" using assms(2) by auto presburger+
  then show ?thesis using assms by (simp add: get64_def bit_le_get wa_test_bit)
qed

lemma extract_list:
  assumes "n \<le> length r"
  shows "extract_set_bits r n mf m = take m (filter (\<lambda>f. 1 \<le> f \<and> f \<le> mf \<and> wa_test r f) [0..<8 * n])"
proof -
  let ?ok = "\<lambda>f. 1 \<le> f \<and> f \<le> mf"
  have w: "concat (map (\<lambda>w. map ((+) (w * LENGTH(64))) (bit_list (get64 r w))) [0..<n div 8]) = filter (wa_test r) [0 * LENGTH(64)..<n div 8 * LENGTH(64)]"
    by (rule segments) (use assms in \<open>auto intro!: get64_bit\<close>)
  have b: "concat (map (\<lambda>b. map ((+) (b * LENGTH(8))) (bit_list (r ! b))) [n div 8 * 8..<n]) = filter (wa_test r) [n div 8 * 8 * LENGTH(8)..<n * LENGTH(8)]"
    by (rule segments) (auto simp: wa_test_bit)
  have "[0..<8 * n] = [0..<n div 8 * 64] @ [n div 8 * 64..<8 * n]"
    using upt_add_eq_append [of 0 "n div 8 * 64" "8 * n - n div 8 * 64"] by simp
  moreover have "extract_set_bits r n mf m =
      take m (take m (filter ?ok (filter (wa_test r) [0..<n div 8 * 64])) @ filter ?ok (filter (wa_test r) [n div 8 * 64..<8 * n]))"
    using w b by (simp only: extract_set_bits_def Let_def) (subst bits_fold, simp, subst bits_fold, simp, simp add: mult.commute)
  ultimately show ?thesis by (simp only: take_take_append flip: filter_append) (simp add: conj_commute conj_left_commute)
qed


section \<open>The answer\<close>

lemma result_bytes_ok:
  assumes "bitmaps_ok idx"
  shows "8 dvd result_bytes idx" "max_file_id idx < 8 * result_bytes idx"
proof -
  have "max_file_id idx + 8 < 2 ^ 32" using assms by (simp add: bitmaps_ok_def)
  then have eq: "result_bytes idx = ((max_file_id idx + 8) div 8 + 7) div 8 * 8" by (simp add: result_bytes_def)
  show "8 dvd result_bytes idx" by (simp add: eq)
  show "max_file_id idx < 8 * result_bytes idx" unfolding eq by linarith
qed

lemma spec_of_rep:
  assumes "rep r n (\<lambda>f. (\<forall>t\<in>set tags. has idx t f) \<and> (\<forall>grp\<in>set groups. in_group idx f grp))"
    "max_file_id idx < 8 * n" "restricts tags groups"
  shows "extract_set_bits r n (max_file_id idx) m = take m (query_spec idx tags groups)"
proof -
  let ?m = "max_file_id idx"
  let ?Q = "\<lambda>f. 1 \<le> f \<and> (\<forall>t\<in>set tags. has idx t f) \<and> (\<forall>grp\<in>set groups. in_group idx f grp)"
  have "[0..<8 * n] = [0..<?m + 1] @ [?m + 1..<8 * n]" using upt_add_eq_append [of 0 "?m + 1" "8 * n - (?m + 1)"] assms(2) by simp
  moreover have "filter (\<lambda>f. 1 \<le> f \<and> f \<le> ?m \<and> wa_test r f) [?m + 1..<8 * n] = []" by (simp add: filter_empty_conv)
  moreover have "filter (\<lambda>f. 1 \<le> f \<and> f \<le> ?m \<and> wa_test r f) [0..<?m + 1] = filter ?Q [0..<?m + 1]"
    by (rule filter_cong) (use assms(1,2) in \<open>auto simp: rep_def\<close>)
  ultimately have "filter (\<lambda>f. 1 \<le> f \<and> f \<le> ?m \<and> wa_test r f) [0..<8 * n] = query_spec idx tags groups"
    using assms(3) by (simp only: query_spec_def filter_append if_True append_Nil2)
  moreover have "n \<le> length r" using assms(1) by (simp add: rep_def)
  ultimately show ?thesis by (simp only: extract_list)
qed

lemma spec_empty:
  assumes "\<forall>f<8 * n. \<not> ((\<forall>t\<in>set tags. has idx t f) \<and> (\<forall>grp\<in>set groups. in_group idx f grp))" "max_file_id idx < 8 * n"
  shows "query_spec idx tags groups = []"
  using assms by (auto simp: query_spec_def filter_empty_conv)

lemma run_query_exact:
  assumes ok: "bitmaps_ok idx" and q: "run_query mem idx h tags groups m = (res, idx')"
  shows "(res = None \<longrightarrow> \<not> m_result mem \<or> (\<exists>k. \<not> m_temp mem k)) \<and>
    (\<forall>out. res = Some out \<longrightarrow> out = take m (query_spec idx tags groups)) \<and>
    (idx' = idx \<or> groups = [] \<and> idx' = cache_store (m_file_ids mem) (m_tag_key mem) idx h tags (query_spec idx tags groups))"
proof (cases "m_result mem")
  case False
  then show ?thesis using q by (auto simp: run_query_def)
next
  case mem: True
  let ?n = "result_bytes idx"
  note n = result_bytes_ok [OF ok]
  have "acc_rep ?n (True, replicate ?n 0) (\<lambda>_. True)" by (simp add: acc_rep_def)
  note tl = tag_loop_rep [OF ok this, of tags]
  show ?thesis
  proof (cases "tag_loop idx ?n tags (True, replicate ?n 0)")
    case None
    then have "query_spec idx tags groups = []" using tl n(2) by (intro spec_empty [of ?n]) auto
    then show ?thesis using q mem None by (auto simp: run_query_def Let_def)
  next
    case (Some acc)
    obtain first r where acc: "acc = (first, r)" by (cases acc)
    have a: "acc_rep ?n (first, r) (\<lambda>f. \<forall>t\<in>set tags. has idx t f)" "first \<longleftrightarrow> tags = []" using tl Some acc by auto
    note gl = group_loop_rep [OF ok n(1) a(1), where temp_ok = "m_temp mem" and g = 0 and grps = groups]
    show ?thesis
    proof (cases "group_loop (m_temp mem) idx ?n 0 groups acc")
      case Failed
      then show ?thesis using q mem Some gl acc by (auto simp: run_query_def Let_def)
    next
      case Nothing
      then have "query_spec idx tags groups = []" using gl n(2) acc by (intro spec_empty [of ?n]) auto
      then show ?thesis using q mem Some Nothing by (auto simp: run_query_def Let_def)
    next
      case (Going first' r')
      have g: "acc_rep ?n (first', r') (\<lambda>f. (\<forall>t\<in>set tags. has idx t f) \<and> (\<forall>grp\<in>set groups. in_group idx f grp))"
          "first' \<longleftrightarrow> \<not> restricts tags groups"
        using gl Going acc a(2) by (auto simp: restricts_def)
      show ?thesis
      proof (cases first')
        case True
        then show ?thesis using q mem Some Going g(2) by (auto simp: run_query_def Let_def query_spec_def)
      next
        case False
        then have "extract_set_bits r' ?n (max_file_id idx) m = take m (query_spec idx tags groups)"
          using g n(2) by (intro spec_of_rep) (auto simp: acc_rep_def)
        then show ?thesis using q mem Some Going False by (auto simp: run_query_def Let_def min_def split: if_splits)
      qed
    qed
  qed
qed

section \<open>The cache and the reachable indices\<close>

text \<open>An entry of the current generation that has both its arrays holds the whole answer to its key.\<close>

definition cached_ok :: "TagBitmapIndex \<Rightarrow> QueryCacheEntry \<Rightarrow> bool" where
  "cached_ok idx e \<longleftrightarrow> qc_generation e \<le> generation idx \<and>
     (\<forall>ids key. qc_generation e = generation idx \<and> qc_file_ids e = Some ids \<and> qc_tag_key e = Some key \<longrightarrow>
        qc_count e = length ids \<and> qc_tag_count e = length key \<and> ids = query_spec idx key [])"

definition cache_ok :: "TagBitmapIndex \<Rightarrow> bool" where
  "cache_ok idx \<longleftrightarrow> (\<forall>e\<in>set (cache idx). cached_ok idx e)"

lemma spec_cong: "has idx' = has idx \<Longrightarrow> max_file_id idx' = max_file_id idx \<Longrightarrow> query_spec idx' = query_spec idx"
  by (intro ext) (simp only: query_spec_def in_group_def)

lemma cache_newer: "cache_ok idx \<Longrightarrow> cache idx' = cache idx \<Longrightarrow> generation idx' = generation idx + 1 \<Longrightarrow> cache_ok idx'"
  by (auto simp: cache_ok_def cached_ok_def)

lemma cache_same:
  "cache_ok idx \<Longrightarrow> cache idx' = cache idx \<Longrightarrow> generation idx' = generation idx \<Longrightarrow> has idx' = has idx \<Longrightarrow>
   max_file_id idx' = max_file_id idx \<Longrightarrow> cache_ok idx'"
  using spec_cong [of idx' idx] by (simp add: cache_ok_def cached_ok_def)

lemma cache_store_fields [simp]:
  "bitmaps (cache_store a b idx h ts out) = bitmaps idx" "max_file_id (cache_store a b idx h ts out) = max_file_id idx"
  "file_to_tags (cache_store a b idx h ts out) = file_to_tags idx" "generation (cache_store a b idx h ts out) = generation idx"
  by (simp_all add: cache_store_def Let_def)

lemma cache_store_ok:
  assumes "cache_ok idx" "length ts < 2 ^ 16"
  shows "cache_ok (cache_store a b idx h ts (query_spec idx ts []))"
proof -
  let ?idx = "cache_store a b idx h ts (query_spec idx ts [])"
  let ?e = "\<lparr>qc_hash = h, qc_generation = generation idx, qc_file_ids = (if a then Some (query_spec idx ts []) else None),
    qc_count = length (query_spec idx ts []), qc_tag_key = (if b then Some ts else None), qc_tag_count = u16_wrap (length ts)\<rparr>"
  have sub: "set (cache ?idx) \<subseteq> insert ?e (set (cache idx))"
    using set_update_subset_insert [of "cache idx" "unat h mod QUERY_CACHE_SLOTS" ?e] by (simp add: cache_store_def Let_def)
  have spec: "query_spec ?idx = query_spec idx" by (rule spec_cong) (simp_all add: has_cong [of ?idx idx])
  have same: "cached_ok ?idx = cached_ok idx" unfolding cached_ok_def spec by simp
  have "cached_ok idx ?e" using assms(2) by (simp add: cached_ok_def)
  then have "\<forall>e\<in>insert ?e (set (cache idx)). cached_ok idx e" using assms(1) by (simp add: cache_ok_def)
  then show ?thesis unfolding cache_ok_def same using sub by blast
qed

lemma cache_hit:
  assumes "cache_ok idx" "cache_lookup idx h ts = Some e"
  shows "take (min (qc_count e) m) (the (qc_file_ids e)) = take m (query_spec idx ts [])"
proof -
  have e: "e \<in> set (cache idx)" "cache_match idx h ts e"
    using assms(2) by (auto simp: cache_lookup_def find_Some_iff dest: in_set_takeD nth_mem)
  then obtain ids key where k: "qc_generation e = generation idx" "qc_file_ids e = Some ids" "qc_tag_key e = Some key"
      "qc_tag_count e = length ts" "take (length ts) key = ts"
    by (auto simp: cache_match_def split: option.splits)
  then have "qc_count e = length ids" "length key = length ts" "ids = query_spec idx key []"
    using assms(1) e(1) by (auto simp: cache_ok_def cached_ok_def)
  then show ?thesis using k(2,5) by (simp add: min_def)
qed

lemma query_ok:
  assumes ok: "bitmaps_ok idx" "cache_ok idx" and few: "length ts < 2 ^ 16"
    and q: "tag_bitmap_query mem idx ts groups m = (res, idx')"
  shows "(res = None \<longrightarrow> \<not> m_result mem \<or> (\<exists>k. \<not> m_temp mem k)) \<and>
    (\<forall>out. res = Some out \<longrightarrow> out = take m (query_spec idx ts groups)) \<and> cache_ok idx' \<and>
    bitmaps idx' = bitmaps idx \<and> file_to_tags idx' = file_to_tags idx \<and> max_file_id idx' = max_file_id idx \<and> generation idx' = generation idx"
proof (cases "max_file_id idx = 0")
  case True
  then show ?thesis using q ok by (auto simp: tag_bitmap_query_def query_spec_def)
next
  case m: False
  show ?thesis
  proof (cases "ts \<noteq> [] \<and> groups = [] \<and> cache_lookup idx (query_hash ts groups) ts \<noteq> None")
    case True
    then show ?thesis using q m ok cache_hit [OF ok(2)] by (auto simp: tag_bitmap_query_def Let_def)
  next
    case False
    then obtain h where "run_query mem idx h ts groups m = (res, idx')"
      using q m by (auto simp: tag_bitmap_query_def Let_def split: if_splits)
    note r = run_query_exact [OF ok(1) this]
    then have "cache_ok idx' \<and> bitmaps idx' = bitmaps idx \<and> file_to_tags idx' = file_to_tags idx \<and>
        max_file_id idx' = max_file_id idx \<and> generation idx' = generation idx"
      using cache_store_ok [OF ok(2) few] ok(2) by (elim conjE disjE) simp_all
    then show ?thesis using r by blast
  qed
qed

inductive tag_reachable :: "TagBitmapIndex \<Rightarrow> bool" where
  create: "tag_bitmap_create ok_idx ok_bitmaps ok_files tags files' = Some idx \<Longrightarrow> tag_reachable idx"
| set: "tag_reachable idx \<Longrightarrow> t < 2 ^ 16 \<Longrightarrow> f < 2 ^ 31 \<Longrightarrow> tag_bitmap_tag_count_for_file idx f < 2 ^ 15 \<Longrightarrow>
    m_bits mem \<Longrightarrow> m_ids mem \<Longrightarrow> tag_bitmap_set mem idx t f = Some (r, idx') \<Longrightarrow> tag_reachable idx'"
| clear: "tag_reachable idx \<Longrightarrow> tag_bitmap_clear idx t f = (r, idx') \<Longrightarrow> tag_reachable idx'"
| remove: "tag_reachable idx \<Longrightarrow> tag_reachable (tag_bitmap_remove_file idx f)"
| query: "tag_reachable idx \<Longrightarrow> length ts < 2 ^ 16 \<Longrightarrow> tag_bitmap_query qmem idx ts groups m = (out, idx') \<Longrightarrow> tag_reachable idx'"

lemma count_card:
  assumes "reverse_ok idx"
  shows "tag_bitmap_tag_count_for_file idx f = card {t. has idx t f}"
proof (cases "f < length (file_to_tags idx)")
  case True
  then have "distinct (tl_ids (file_to_tags idx ! f))" "set (tl_ids (file_to_tags idx ! f)) = {t. has idx t f}"
    using assms by (auto simp: reverse_ok_def Let_def)
  then show ?thesis using True distinct_card by (fastforce simp: tag_bitmap_tag_count_for_file_def)
next
  case False
  then have "{t. has idx t f} = {}" using assms by (auto simp: reverse_ok_def)
  then show ?thesis using False by (simp add: tag_bitmap_tag_count_for_file_def)
qed

lemma tag_reachable_ok: "tag_reachable idx \<Longrightarrow> bitmaps_ok idx \<and> reverse_ok idx \<and> cache_ok idx"
proof (induction rule: tag_reachable.induct)
  case (create ok_idx ok_bitmaps ok_files tags files' idx)
  have "idx = \<lparr>bitmaps = replicate tags None, max_file_id = 0, file_to_tags = replicate files' no_tags, generation = 0,
      cache = replicate QUERY_CACHE_SLOTS no_entry\<rparr>"
    using create by (simp add: tag_bitmap_create_def split: if_splits)
  moreover from this have "\<not> has idx t f" for t f by (simp add: has_def)
  ultimately show ?case by (simp add: bitmaps_ok_def reverse_ok_def cache_ok_def cached_ok_def no_entry_def no_tags_def)
next
  case (set idx t f mem r idx')
  have few: "card {t. has idx t f} < 2 ^ 15" using set by (simp add: count_card)
  have s: "bitmaps_ok idx'" "reverse_ok idx'" "cache idx' = cache idx"
      "if r = 0 then generation idx' = generation idx + 1
       else has idx' = has idx \<and> generation idx' = generation idx \<and> max_file_id idx' = max_file_id idx"
    using set_ok [of idx t f mem] set few by auto
  then have "cache_ok idx'" using set.IH cache_newer [of idx idx'] cache_same [of idx idx'] by (simp split: if_splits)
  then show ?case using s by blast
next
  case (clear idx t f r idx')
  then show ?case using clear_ok [of idx t f r idx'] cache_newer [of idx idx'] by (cases "r = 0") auto
next
  case (remove idx f)
  then show ?case using remove_file_ok [of idx f] cache_newer [of idx "tag_bitmap_remove_file idx f"] by metis
next
  case (query idx ts qmem groups m out idx')
  then have q: "cache_ok idx'" "bitmaps idx' = bitmaps idx" "file_to_tags idx' = file_to_tags idx" "max_file_id idx' = max_file_id idx"
    using query_ok [of idx ts qmem groups m out idx'] by blast+
  have "has idx' = has idx" by (rule has_cong [OF q(2)])
  then show ?case using q query.IH by (simp add: bitmaps_ok_def reverse_ok_def)
qed


section \<open>Properties\<close>

definition tag_rel :: "TagBitmapIndex \<Rightarrow> (nat \<times> nat) set" where
  "tag_rel idx = {(t, f). has idx t f}"

lemma reach_set:
  assumes "tag_reachable idx" "t < 2 ^ 16" "f < 2 ^ 31" "tag_bitmap_tag_count_for_file idx f < 2 ^ 15" "m_bits mem" "m_ids mem"
  shows "\<exists>r idx'. tag_bitmap_set mem idx t f = Some (r, idx') \<and> tag_reachable idx' \<and>
    (if r = 0 then tag_rel idx' = insert (t, f) (tag_rel idx) else r = -1 \<and> tag_rel idx' = tag_rel idx) \<and>
    (m_tags mem \<and> m_files mem \<and> m_bitmap mem \<longrightarrow> r = 0)"
proof -
  have ok: "bitmaps_ok idx" "reverse_ok idx" using tag_reachable_ok [OF assms(1)] by auto
  then have "card {t. has idx t f} < 2 ^ 15" using assms(4) by (simp add: count_card)
  then obtain r idx' where s: "tag_bitmap_set mem idx t f = Some (r, idx')" "m_tags mem \<and> m_files mem \<and> m_bitmap mem \<longrightarrow> r = 0"
      "if r = 0 then has idx' = (\<lambda>t' f'. t' = t \<and> f' = f \<or> has idx t' f') else r = -1 \<and> has idx' = has idx"
    using set_ok [OF ok assms(2,3) _ assms(5,6)] by (metis (full_types))
  have "if r = 0 then tag_rel idx' = insert (t, f) (tag_rel idx) else r = -1 \<and> tag_rel idx' = tag_rel idx"
    using s(3) by (auto simp: tag_rel_def split: if_splits)
  then show ?thesis using s(1,2) tag_reachable.set [OF assms s(1)] by blast
qed

definition all_mem :: SetMem where
  "all_mem = \<lparr>m_tags = True, m_files = True, m_bitmap = True, m_bits = True, m_ids = True\<rparr>"

definition all_query_mem :: QueryMem where
  "all_query_mem = \<lparr>m_result = True, m_temp = (\<lambda>_. True), m_file_ids = True, m_tag_key = True\<rparr>"

definition put_tag :: "TagBitmapIndex \<Rightarrow> nat \<times> nat \<Rightarrow> TagBitmapIndex" where
  "put_tag idx p = snd (the (tag_bitmap_set all_mem idx (fst p) (snd p)))"

lemma put_tag_ok:
  assumes "tag_reachable idx" "t < 2 ^ 16" "f < 2 ^ 31" "card {t. (t, f) \<in> tag_rel idx} < 2 ^ 15"
  shows "tag_reachable (put_tag idx (t, f))" "tag_rel (put_tag idx (t, f)) = insert (t, f) (tag_rel idx)"
proof -
  have "tag_bitmap_tag_count_for_file idx f < 2 ^ 15"
    using assms(4) tag_reachable_ok [OF assms(1)] by (simp add: count_card tag_rel_def)
  note r = reach_set [OF assms(1-3) this, of all_mem]
  show "tag_reachable (put_tag idx (t, f))" "tag_rel (put_tag idx (t, f)) = insert (t, f) (tag_rel idx)"
    using r by (auto simp: all_mem_def put_tag_def)
qed

definition sample_index :: TagBitmapIndex where
  "sample_index = put_tag (put_tag (put_tag (the (tag_bitmap_create True True True 4 4)) (1, 3)) (2, 3)) (2, 90)"

lemma sample_index_ok: "tag_reachable sample_index" "tag_rel sample_index = {(1, 3), (2, 3), (2, 90)}"
proof -
  let ?i0 = "the (tag_bitmap_create True True True 4 4)"
  have i0: "tag_reachable ?i0" by (rule tag_reachable.create [of True True True 4 4]) (simp add: tag_bitmap_create_def)
  have r0: "tag_rel ?i0 = {}" by (auto simp: tag_rel_def has_def tag_bitmap_create_def)
  have "card {t. (t, f) \<in> tag_rel ?i0} < 2 ^ 15" for f by (simp add: r0)
  note i1 = put_tag_ok [OF i0 _ _ this, of 1 3]
  have "{t. (t, 3::nat) \<in> {(1::nat, 3)}} = {1}" by auto
  then have "card {t. (t, 3) \<in> tag_rel (put_tag ?i0 (1, 3))} < 2 ^ 15" using i1(2) r0 by simp
  note i2 = put_tag_ok [OF i1(1) _ _ this, of 2]
  have "card {t. (t, 90) \<in> tag_rel (put_tag (put_tag ?i0 (1, 3)) (2, 3))} < 2 ^ 15" using i1(2) i2(2) r0 by simp
  note i3 = put_tag_ok [OF i2(1) _ _ this, of 2]
  show "tag_reachable sample_index" "tag_rel sample_index = {(1, 3), (2, 3), (2, 90)}"
    using i1 i2 i3 r0 by (auto simp: sample_index_def)
qed

lemma sample_tags: "{t. (t, 3) \<in> tag_rel sample_index} = {1, 2}" "tag_bitmap_tag_count_for_file sample_index 3 = 2"
proof -
  show eq: "{t. (t, 3) \<in> tag_rel sample_index} = {1, 2}" unfolding sample_index_ok(2) by auto
  then show "tag_bitmap_tag_count_for_file sample_index 3 = 2"
    using tag_reachable_ok [OF sample_index_ok(1)] by (simp add: count_card tag_rel_def)
qed

text \<open>C21. From every reachable index, each operation acts on the set of pairs of a tag and a file as
  intended: setting a tag returns and adds the pair, or reports failure and changes nothing when there is no memory
  for the table of tags, the table of files or a new bitmap; clearing removes the pair, removing a file its pairs, a
  query nothing. Memory for the bits of a bitmap and for the list of tags of a file is taken to be there (without it
  the code leaves the bitmap, or the bit without its entry in the list); file numbers are below 2^31 and a file has fewer
  than 2^15 tags.\<close>
theorem tag_index_refines:
  assumes "tag_reachable idx" "t < 2 ^ 16" "f < 2 ^ 31" "tag_bitmap_tag_count_for_file idx f < 2 ^ 15" "m_bits mem" "m_ids mem"
    "length tag_ids < 2 ^ 16"
  shows "(\<exists>r idx'. tag_bitmap_set mem idx t f = Some (r, idx') \<and>
      (if r = 0 then tag_rel idx' = insert (t, f) (tag_rel idx) else r = -1 \<and> tag_rel idx' = tag_rel idx) \<and>
      (m_tags mem \<and> m_files mem \<and> m_bitmap mem \<longrightarrow> r = 0)) \<and>
    tag_rel (snd (tag_bitmap_clear idx t f)) = tag_rel idx - {(t, f)} \<and>
    tag_rel (tag_bitmap_remove_file idx f) = {p \<in> tag_rel idx. snd p \<noteq> f} \<and>
    tag_rel (snd (tag_bitmap_query qmem idx tag_ids groups m)) = tag_rel idx"
proof (intro conjI)
  have ok: "bitmaps_ok idx" "reverse_ok idx" "cache_ok idx" using tag_reachable_ok [OF assms(1)] by auto
  show "\<exists>r idx'. tag_bitmap_set mem idx t f = Some (r, idx') \<and>
      (if r = 0 then tag_rel idx' = insert (t, f) (tag_rel idx) else r = -1 \<and> tag_rel idx' = tag_rel idx) \<and>
      (m_tags mem \<and> m_files mem \<and> m_bitmap mem \<longrightarrow> r = 0)"
    using reach_set [OF assms(1-6)] by blast
  show "tag_rel (snd (tag_bitmap_clear idx t f)) = tag_rel idx - {(t, f)}"
    using clear_ok [OF ok(1,2), of t f] by (cases "tag_bitmap_clear idx t f") (auto simp: tag_rel_def)
  show "tag_rel (tag_bitmap_remove_file idx f) = {p \<in> tag_rel idx. snd p \<noteq> f}"
    using remove_file_ok(4) [OF ok(1,2), of f] by (auto simp: tag_rel_def)
  obtain res idx' where q: "tag_bitmap_query qmem idx tag_ids groups m = (res, idx')" by fastforce
  then have "bitmaps idx' = bitmaps idx" using query_ok [OF ok(1,3) assms(7) q] by blast
  then show "tag_rel (snd (tag_bitmap_query qmem idx tag_ids groups m)) = tag_rel idx"
    using has_cong [of idx' idx] q by (simp add: tag_rel_def)
qed

theorem tag_index_refines_witness:
  "tag_rel sample_index = {(1, 3), (2, 3), (2, 90)} \<and>
   tag_rel (snd (tag_bitmap_clear sample_index 2 3)) = {(1, 3), (2, 90)} \<and>
   tag_rel (tag_bitmap_remove_file sample_index 3) = {(2, 90)}"
proof -
  have d: "{(1, 3), (2, 3), (2, 90)} - {(2, 3)} = {(1::nat, 3::nat), (2, 90)}"
    "{p \<in> {(1::nat, 3::nat), (2, 3), (2, 90)}. snd p \<noteq> 3} = {(2, 90)}" by auto
  show ?thesis
    using tag_index_refines [OF sample_index_ok(1), where t = 2 and f = 3 and mem = all_mem and tag_ids = "[]"]
    unfolding sample_index_ok(2) d by (simp add: all_mem_def sample_tags(2))
qed

text \<open>In every reachable index the reverse index lists exactly the tags of each file, without
  repetition, every bitmap's file count is the number of files that carry its tag, and no tagged file
  exceeds the largest file number.\<close>
theorem tag_index_consistent:
  assumes "tag_reachable idx" "tag_bitmap_tag_count_for_file idx f \<le> n"
  shows "distinct (tag_bitmap_tags_for_file idx f n) \<and> set (tag_bitmap_tags_for_file idx f n) = {t. (t, f) \<in> tag_rel idx} \<and>
    (\<forall>t bm. bitmap_of idx t = Some bm \<longrightarrow> unat (tb_file_count bm) = card {f. (t, f) \<in> tag_rel idx}) \<and>
    (\<forall>t. (t, f) \<in> tag_rel idx \<longrightarrow> f \<le> max_file_id idx)"
proof (intro conjI allI impI)
  have ok: "bitmaps_ok idx" "reverse_ok idx" using tag_reachable_ok [OF assms(1)] by auto
  have "distinct (tag_bitmap_tags_for_file idx f n) \<and> set (tag_bitmap_tags_for_file idx f n) = {t. has idx t f}"
  proof (cases "f < length (file_to_tags idx)")
    case True
    then show ?thesis using ok(2) assms(2)
      by (simp add: reverse_ok_def Let_def tag_bitmap_tags_for_file_def tag_bitmap_tag_count_for_file_def)
  next
    case False
    then show ?thesis using ok(2) by (auto simp: reverse_ok_def tag_bitmap_tags_for_file_def)
  qed
  then show "distinct (tag_bitmap_tags_for_file idx f n)" "set (tag_bitmap_tags_for_file idx f n) = {t. (t, f) \<in> tag_rel idx}"
    by (simp_all add: tag_rel_def)
  show "f \<le> max_file_id idx" if "(t, f) \<in> tag_rel idx" for t using that ok(1) by (auto simp: bitmaps_ok_def tag_rel_def)
  fix t bm assume bm: "bitmap_of idx t = Some bm"
  note b = bitmap_of_ok [OF ok(1) bm]
  then have "{f. (t, f) \<in> tag_rel idx} = files bm" by (auto simp: tag_rel_def)
  then show "unat (tb_file_count bm) = card {f. (t, f) \<in> tag_rel idx}"
    using b card_files [of bm] by (simp add: bm_ok_def unat_of_nat)
qed

theorem tag_index_consistent_witness:
  "distinct (tag_bitmap_tags_for_file sample_index 3 10) \<and> set (tag_bitmap_tags_for_file sample_index 3 10) = {1, 2}"
  using tag_index_consistent [OF sample_index_ok(1), of 3 10] by (simp add: sample_tags)

text \<open>C4. A query from any reachable index, whether answered from the cache or computed, returns the
  first max\_results files, in rising order, that carry every listed tag and at least one tag of every
  non-empty group; it fails only when an allocation does.\<close>
theorem tag_query_exact:
  assumes "tag_reachable idx" "length tag_ids < 2 ^ 16"
  shows "case fst (tag_bitmap_query mem idx tag_ids groups max_results) of
      None \<Rightarrow> \<not> m_result mem \<or> (\<exists>k. \<not> m_temp mem k)
    | Some out \<Rightarrow> out = take max_results (query_spec idx tag_ids groups)"
proof -
  obtain res idx' where q: "tag_bitmap_query mem idx tag_ids groups max_results = (res, idx')" by fastforce
  have "bitmaps_ok idx" "cache_ok idx" using tag_reachable_ok [OF assms(1)] by auto
  then show ?thesis using query_ok [OF _ _ assms(2) q] by (simp add: q split: option.splits)
qed

theorem tag_query_exact_witness:
  "fst (tag_bitmap_query all_query_mem sample_index [2] [] 1) = Some [3]"
proof -
  let ?m = "max_file_id sample_index"
  have h: "has sample_index 2 f \<longleftrightarrow> f = 3 \<or> f = 90" for f using sample_index_ok(2) by (auto simp: tag_rel_def set_eq_iff)
  then have "3 \<le> ?m" using tag_reachable_ok [OF sample_index_ok(1)] by (auto simp: bitmaps_ok_def)
  then have "[0..<?m + 1] = [0, 1, 2, 3] @ [4..<?m + 1]" using upt_add_eq_append [of 0 4 "?m - 3"] by (simp add: upt_rec)
  then have "take 1 (query_spec sample_index [2] []) = [3]" by (simp add: query_spec_def restricts_def h)
  then show ?thesis using tag_query_exact [OF sample_index_ok(1), where tag_ids = "[2]" and mem = all_query_mem and groups = "[]" and max_results = 1]
    by (simp add: all_query_mem_def split: option.splits)
qed

end
