(* ===== verification/ChainTable.thy ===== *)
theory ChainTable
  imports Prelude
begin

text \<open>
  Hash tables with chains, as several kernel components have them: an array of buckets, each a
  singly linked chain of entries; a new entry goes to the front of its chain, a removed one is taken
  out of it. A chain is the list of its entries, and \<open>key\<close> gives the bucket an entry belongs to.
\<close>

definition table_ok :: "'e list list \<Rightarrow> nat \<Rightarrow> ('e \<Rightarrow> nat) \<Rightarrow> 'e set \<Rightarrow> bool" where
  "table_ok tab n key D \<longleftrightarrow> length tab = n \<and> (\<forall>e\<in>D. key e < n) \<and>
     (\<forall>i<n. distinct (tab ! i) \<and> set (tab ! i) = {e \<in> D. key e = i})"

definition chain_link :: "nat \<Rightarrow> 'e \<Rightarrow> 'e list list \<Rightarrow> 'e list list" where
  "chain_link b e tab = tab[b := e # tab ! b]"

definition chain_unlink :: "nat \<Rightarrow> 'e \<Rightarrow> 'e list list \<Rightarrow> 'e list list" where
  "chain_unlink b e tab = tab[b := remove1 e (tab ! b)]"

lemma table_okD:
  assumes "table_ok tab n key D"
  shows "length tab = n" "e \<in> D \<Longrightarrow> key e < n" "i < n \<Longrightarrow> distinct (tab ! i)" "i < n \<Longrightarrow> set (tab ! i) = {e \<in> D. key e = i}"
  using assms by (auto simp: table_ok_def)

lemma table_empty: "table_ok (replicate n []) n key {}"
  by (simp add: table_ok_def)

lemma table_cong: "table_ok tab n key D \<Longrightarrow> (\<And>e. e \<in> D \<Longrightarrow> key e = key' e) \<Longrightarrow> table_ok tab n key' D"
  by (auto simp: table_ok_def)

lemma table_link:
  assumes "table_ok tab n key D" "e \<notin> D" "key e < n"
  shows "table_ok (chain_link (key e) e tab) n key (insert e D)"
  unfolding table_ok_def
proof (intro conjI allI impI ballI)
  fix i assume i: "i < n"
  note d = table_okD [OF assms(1)]
  show "distinct (chain_link (key e) e tab ! i)" "set (chain_link (key e) e tab ! i) = {x \<in> insert e D. key x = i}"
  proof -
    have "chain_link (key e) e tab ! i = (if i = key e then e # tab ! i else tab ! i)"
      using d(1) assms(3) by (simp add: chain_link_def nth_list_update)
    moreover have "e \<notin> set (tab ! i)" unfolding d(4) [OF i] using assms(2) by simp
    ultimately show "distinct (chain_link (key e) e tab ! i)" "set (chain_link (key e) e tab ! i) = {x \<in> insert e D. key x = i}"
      using d(3) [OF i] d(4) [OF i] by auto
  qed
next
  show "length (chain_link (key e) e tab) = n" using table_okD(1) [OF assms(1)] by (simp add: chain_link_def)
  show "key x < n" if "x \<in> insert e D" for x using table_okD(2) [OF assms(1)] assms(3) that by blast
qed

lemma table_unlink:
  assumes "table_ok tab n key D" "key e < n"
  shows "table_ok (chain_unlink (key e) e tab) n key (D - {e})"
  unfolding table_ok_def
proof (intro conjI allI impI ballI)
  fix i assume i: "i < n"
  note d = table_okD [OF assms(1)]
  show "distinct (chain_unlink (key e) e tab ! i)" "set (chain_unlink (key e) e tab ! i) = {x \<in> D - {e}. key x = i}"
  proof -
    have "chain_unlink (key e) e tab ! i = (if i = key e then remove1 e (tab ! i) else tab ! i)"
      using d(1) assms(2) by (simp add: chain_unlink_def nth_list_update)
    moreover have "set (remove1 e (tab ! i)) = {x \<in> D. key x = i} - {e}"
      unfolding set_remove1_eq [OF d(3) [OF i]] d(4) [OF i] ..
    ultimately show "distinct (chain_unlink (key e) e tab ! i)"
      "set (chain_unlink (key e) e tab ! i) = {x \<in> D - {e}. key x = i}"
      using d(3) [OF i] d(4) [OF i] by (simp_all split: if_splits) blast+
  qed
next
  show "length (chain_unlink (key e) e tab) = n" using table_okD(1) [OF assms(1)] by (simp add: chain_unlink_def)
  show "key x < n" if "x \<in> D - {e}" for x using table_okD(2) [OF assms(1)] that by blast
qed

text \<open>Searching one chain is searching the whole table, when the predicate fixes the bucket.\<close>

lemma table_find:
  assumes "table_ok tab n key D" "b < n" "\<And>e. e \<in> D \<Longrightarrow> P e \<Longrightarrow> key e = b"
  shows "find P (tab ! b) = None \<longleftrightarrow> (\<forall>e\<in>D. \<not> P e)" "find P (tab ! b) = Some e \<Longrightarrow> e \<in> D \<and> P e"
proof -
  have s: "set (tab ! b) = {e \<in> D. key e = b}" by (rule table_okD(4) [OF assms(1,2)])
  show "find P (tab ! b) = None \<longleftrightarrow> (\<forall>e\<in>D. \<not> P e)" unfolding find_None_iff s using assms(3) by blast
  show "e \<in> D \<and> P e" if "find P (tab ! b) = Some e" using find_SomeD [OF that] s by blast
qed

lemma table_distinct:
  assumes "table_ok tab n key D"
  shows "distinct (concat tab)" "set (concat tab) = D"
proof -
  note d = table_okD [OF assms]
  show "distinct (concat tab)" by (rule distinct_concat_nth) (use d in auto)
  have "set tab = (!) tab ` {..<n}" using d(1) by (auto simp: set_conv_nth)
  then have "set (concat tab) = (\<Union>i<n. set (tab ! i))" by simp
  also have "\<dots> = D" using d(2,4) by auto
  finally show "set (concat tab) = D" .
qed

end
