(* ===== verification/TagRegistry.thy ===== *)
theory TagRegistry
  imports ChainTable TagBitmap
begin

unbundle bit_operations_syntax

text \<open>
  The registry of tags, kernel/tagfs/tag\_registry/tag\_registry.c: every tag, a key with an optional
  value, gets a number; a hash table finds the number of a tag, an array finds the tag of a number,
  and a second hash table groups the numbers by key. Strings are lists of non-zero bytes. \<open>None\<close> as
  the result of an operation means that it follows a null pointer, writes outside an array or does
  not return. Which allocations succeed is a parameter. Each operation runs under the registry's lock.
\<close>

section \<open>State\<close>

definition TAGFS_INVALID_TAG_ID :: nat where "TAGFS_INVALID_TAG_ID = 0xFFFF"
definition TAGFS_MAX_TAG_ID :: nat where "TAGFS_MAX_TAG_ID = 0x7FFE"
definition TAGFS_REG_BUCKETS :: nat where "TAGFS_REG_BUCKETS = 512"
definition TAGFS_KEY_BUCKETS :: nat where "TAGFS_KEY_BUCKETS = 128"
definition TAGFS_TAG_FLAG_HAS_VALUE :: u8 where "TAGFS_TAG_FLAG_HAS_VALUE = 0x01"
definition TAGFS_TAG_FLAG_SYSTEM :: u8 where "TAGFS_TAG_FLAG_SYSTEM = 0x02"

record TagRegistryEntry =
  te_key :: bytes
  te_value :: "bytes option"
  te_flags :: u8
  te_tag_id :: nat

record TagKeyGroup =
  kg_key :: bytes
  kg_tag_ids :: "nat list"
  kg_capacity :: nat

text \<open>
  A chain of \<^verbatim>\<open>TagRegistryNode\<close>s is the list of its tag numbers, a chain of groups the list of the groups;
  \<^verbatim>\<open>by_id_capacity\<close> is the length of the array. \<open>tr_dirty\<close> is the global \<^verbatim>\<open>g_registry_dirty\<close>.
\<close>

record TagRegistry =
  tr_buckets :: "nat list list"
  tr_by_id :: "TagRegistryEntry option list"
  tr_total_tags :: nat
  tr_next_id :: nat
  tr_key_buckets :: "TagKeyGroup list list"
  tr_dirty :: bool

text \<open>Which allocations of one operation succeed; the growth of the array by the capacity asked for.\<close>

record InternMem =
  im_by_id :: "nat \<Rightarrow> bool"
  im_entry :: bool
  im_key :: bool
  im_value :: bool
  im_node :: bool
  im_group :: bool
  im_group_key :: bool
  im_group_ids :: bool
  im_group_grow :: bool

section \<open>Helpers\<close>

definition hash_bytes :: "u32 \<Rightarrow> bytes \<Rightarrow> u32" where
  "hash_bytes hash s = foldl (\<lambda>hash c. (push_bit 5 hash + hash) + ucast c) hash s"

definition registry_hash :: "bytes \<Rightarrow> bytes option \<Rightarrow> nat \<Rightarrow> nat" where
  "registry_hash key val bucket_count =
     (let hash = hash_bytes 5381 key;
          hash1 = (case val of None \<Rightarrow> hash | Some v \<Rightarrow> hash_bytes ((push_bit 5 hash + hash) + 58) v)
      in unat hash1 mod bucket_count)"

definition key_hash :: "bytes \<Rightarrow> nat \<Rightarrow> nat" where
  "key_hash key bucket_count = unat (hash_bytes 5381 key) mod bucket_count"

definition values_equal :: "bytes option \<Rightarrow> bytes option \<Rightarrow> bool" where
  "values_equal a b =
     (case (a, b) of (None, None) \<Rightarrow> True | (Some x, Some y) \<Rightarrow> x = y | _ \<Rightarrow> False)"

definition add_to_key_group :: "bool \<Rightarrow> nat \<Rightarrow> TagKeyGroup \<Rightarrow> TagKeyGroup option" where
  "add_to_key_group kmalloc_ok tag_id grp =
     (let n = length (kg_tag_ids grp) in
      if n \<ge> kg_capacity grp then
        (let new_cap = u32_wrap (kg_capacity grp * 2)
         in if \<not> kmalloc_ok then Some grp
            else if n < new_cap then Some (grp\<lparr>kg_tag_ids := kg_tag_ids grp @ [tag_id], kg_capacity := new_cap\<rparr>)
            else None)
      else Some (grp\<lparr>kg_tag_ids := kg_tag_ids grp @ [tag_id]\<rparr>))"

definition tag_registry_key_group :: "TagRegistry \<Rightarrow> bytes \<Rightarrow> TagKeyGroup option" where
  "tag_registry_key_group reg key =
     find (\<lambda>grp. kg_key grp = key) (tr_key_buckets reg ! key_hash key (length (tr_key_buckets reg)))"

text \<open>The result says whether there is now a group with the key; it is then the first such in its chain.\<close>

definition find_or_create_key_group :: "InternMem \<Rightarrow> TagRegistry \<Rightarrow> bytes \<Rightarrow> bool \<times> TagRegistry" where
  "find_or_create_key_group mem reg key =
     (let bucket = key_hash key (length (tr_key_buckets reg)) in
      if tag_registry_key_group reg key \<noteq> None then (True, reg)
      else if \<not> im_group mem \<or> \<not> im_group_key mem \<or> \<not> im_group_ids mem then (False, reg)
      else (True, reg\<lparr>tr_key_buckets := chain_link bucket \<lparr>kg_key = key, kg_tag_ids = [], kg_capacity = 8\<rparr> (tr_key_buckets reg)\<rparr>))"

primrec lookup_chain :: "TagRegistryEntry option list \<Rightarrow> bytes \<Rightarrow> bytes option \<Rightarrow> nat list \<Rightarrow> nat option" where
  "lookup_chain by_id key val [] = Some TAGFS_INVALID_TAG_ID"
| "lookup_chain by_id key val (tag_id # nodes) =
     (if tag_id \<ge> length by_id then None
      else case by_id ! tag_id of
        None \<Rightarrow> None
      | Some entry \<Rightarrow>
          if te_key entry = key \<and> values_equal (te_value entry) val then Some tag_id
          else lookup_chain by_id key val nodes)"

definition lookup_unlocked :: "TagRegistry \<Rightarrow> bytes \<Rightarrow> bytes option \<Rightarrow> nat option" where
  "lookup_unlocked reg key val =
     lookup_chain (tr_by_id reg) key val (tr_buckets reg ! registry_hash key val (length (tr_buckets reg)))"

partial_function (option) grow_by_id ::
  "(nat \<Rightarrow> bool) \<Rightarrow> TagRegistryEntry option list \<Rightarrow> nat \<Rightarrow> (bool \<times> TagRegistryEntry option list) option" where
  "grow_by_id kmalloc_ok by_id needed_id =
     (if needed_id \<ge> length by_id then
        (let new_cap = u32_wrap (length by_id * 2)
         in if \<not> kmalloc_ok new_cap then Some (False, by_id)
            else if new_cap < length by_id then None
            else grow_by_id kmalloc_ok (by_id @ replicate (new_cap - length by_id) None) needed_id)
      else Some (True, by_id))"

definition ensure_by_id_capacity :: "InternMem \<Rightarrow> TagRegistry \<Rightarrow> nat \<Rightarrow> (bool \<times> TagRegistry) option" where
  "ensure_by_id_capacity mem reg needed_id = do {
     (ok, by_id) \<leftarrow> grow_by_id (im_by_id mem) (tr_by_id reg) needed_id;
     Some (ok, reg\<lparr>tr_by_id := by_id\<rparr>)
   }"

section \<open>Interning\<close>

definition entry_mem :: "InternMem \<Rightarrow> bytes option \<Rightarrow> bool" where
  "entry_mem mem val \<longleftrightarrow> im_entry mem \<and> im_key mem \<and> (val = None \<or> im_value mem) \<and> im_node mem"

definition new_entry :: "nat \<Rightarrow> bytes \<Rightarrow> bytes option \<Rightarrow> TagRegistryEntry" where
  "new_entry tag_id key val =
     \<lparr>te_key = key, te_value = val, te_flags = (if val \<noteq> None then TAGFS_TAG_FLAG_HAS_VALUE else 0), te_tag_id = tag_id\<rparr>"

definition store_tag :: "TagRegistry \<Rightarrow> nat \<Rightarrow> bytes \<Rightarrow> bytes option \<Rightarrow> TagRegistry" where
  "store_tag reg tag_id key val =
     (let bucket = registry_hash key val (length (tr_buckets reg))
      in reg\<lparr>tr_buckets := chain_link bucket tag_id (tr_buckets reg),
             tr_by_id := (tr_by_id reg)[tag_id := Some (new_entry tag_id key val)]\<rparr>)"

primrec map_group :: "bytes \<Rightarrow> (TagKeyGroup \<Rightarrow> TagKeyGroup option) \<Rightarrow> TagKeyGroup list \<Rightarrow> TagKeyGroup list option" where
  "map_group key f [] = Some []"
| "map_group key f (g # gs) =
     (if kg_key g = key then map_option (\<lambda>g'. g' # gs) (f g) else map_option ((#) g) (map_group key f gs))"

definition group_tag :: "InternMem \<Rightarrow> TagRegistry \<Rightarrow> bytes \<Rightarrow> nat \<Rightarrow> TagRegistry option" where
  "group_tag mem reg key tag_id =
     (let (found, reg1) = find_or_create_key_group mem reg key; bucket = key_hash key (length (tr_key_buckets reg1)) in
      if \<not> found then Some reg1
      else do {
        chain \<leftarrow> map_group key (add_to_key_group (im_group_grow mem) tag_id) (tr_key_buckets reg1 ! bucket);
        Some (reg1\<lparr>tr_key_buckets := (tr_key_buckets reg1)[bucket := chain]\<rparr>)
      })"

definition intern_with_id_unlocked ::
  "InternMem \<Rightarrow> TagRegistry \<Rightarrow> nat \<Rightarrow> bytes \<Rightarrow> bytes option \<Rightarrow> (nat \<times> TagRegistry) option" where
  "intern_with_id_unlocked mem reg tag_id key val = do {
     existing \<leftarrow> lookup_unlocked reg key val;
     if existing \<noteq> TAGFS_INVALID_TAG_ID then Some (existing, reg)
     else if tag_id > TAGFS_MAX_TAG_ID then Some (TAGFS_INVALID_TAG_ID, reg)
     else do {
       (ok, reg1) \<leftarrow> ensure_by_id_capacity mem reg tag_id;
       if \<not> ok then Some (TAGFS_INVALID_TAG_ID, reg1)
       else if tr_by_id reg1 ! tag_id \<noteq> None then Some (TAGFS_INVALID_TAG_ID, reg1)
       else if \<not> entry_mem mem val then Some (TAGFS_INVALID_TAG_ID, reg1)
       else do {
         reg2 \<leftarrow> group_tag mem (store_tag reg1 tag_id key val) key tag_id;
         Some (tag_id, reg2\<lparr>tr_next_id := (if tag_id \<ge> tr_next_id reg2 then u16_wrap (tag_id + 1) else tr_next_id reg2),
                            tr_total_tags := u32_wrap (tr_total_tags reg2 + 1), tr_dirty := True\<rparr>)
       }
     }
   }"

definition intern_unlocked :: "InternMem \<Rightarrow> TagRegistry \<Rightarrow> bytes \<Rightarrow> bytes option \<Rightarrow> (nat \<times> TagRegistry) option" where
  "intern_unlocked mem reg key val = do {
     existing \<leftarrow> lookup_unlocked reg key val;
     if existing \<noteq> TAGFS_INVALID_TAG_ID then Some (existing, reg)
     else if tr_next_id reg > TAGFS_MAX_TAG_ID then Some (TAGFS_INVALID_TAG_ID, reg)
     else do {
       (ok, reg1) \<leftarrow> ensure_by_id_capacity mem reg (tr_next_id reg);
       if \<not> ok then Some (TAGFS_INVALID_TAG_ID, reg1)
       else if \<not> entry_mem mem val then Some (TAGFS_INVALID_TAG_ID, reg1)
       else do {
         let tag_id = tr_next_id reg1;
         reg2 \<leftarrow> group_tag mem (store_tag reg1 tag_id key val) key tag_id;
         Some (tag_id, reg2\<lparr>tr_next_id := u16_wrap (tr_next_id reg2 + 1),
                            tr_total_tags := u32_wrap (tr_total_tags reg2 + 1), tr_dirty := True\<rparr>)
       }
     }
   }"

definition tag_registry_init :: "bool \<Rightarrow> bool \<Rightarrow> bool \<Rightarrow> bool \<Rightarrow> TagRegistry option" where
  "tag_registry_init ok_buckets ok_by_id ok_keys dirty =
     (if \<not> ok_buckets \<or> \<not> ok_by_id \<or> \<not> ok_keys then None
      else Some \<lparr>tr_buckets = replicate TAGFS_REG_BUCKETS [], tr_by_id = replicate 64 None, tr_total_tags = 0, tr_next_id = 0,
                 tr_key_buckets = replicate TAGFS_KEY_BUCKETS [], tr_dirty = dirty\<rparr>)"

section \<open>Access by number\<close>

definition entry_of :: "TagRegistry \<Rightarrow> nat \<Rightarrow> TagRegistryEntry option" where
  "entry_of reg tag_id = (if tag_id < tr_next_id reg then tr_by_id reg ! tag_id else None)"

definition tag_registry_key :: "TagRegistry \<Rightarrow> nat \<Rightarrow> bytes option" where
  "tag_registry_key reg tag_id = map_option te_key (entry_of reg tag_id)"

definition tag_registry_value :: "TagRegistry \<Rightarrow> nat \<Rightarrow> bytes option" where
  "tag_registry_value reg tag_id = Option.bind (entry_of reg tag_id) te_value"

definition set_flags :: "(u8 \<Rightarrow> u8) \<Rightarrow> TagRegistry \<Rightarrow> nat \<Rightarrow> TagRegistry" where
  "set_flags f reg tag_id =
     reg\<lparr>tr_by_id := (tr_by_id reg)[tag_id := map_option (\<lambda>e. e\<lparr>te_flags := f (te_flags e)\<rparr>) (tr_by_id reg ! tag_id)]\<rparr>"

definition tag_registry_mark_system :: "TagRegistry \<Rightarrow> nat \<Rightarrow> TagRegistry" where
  "tag_registry_mark_system reg tag_id =
     (if tag_id = TAGFS_INVALID_TAG_ID then reg
      else if entry_of reg tag_id \<noteq> None then set_flags (\<lambda>flags. flags OR TAGFS_TAG_FLAG_SYSTEM) reg tag_id else reg)"

definition tag_registry_is_system :: "TagRegistry \<Rightarrow> nat \<Rightarrow> bool" where
  "tag_registry_is_system reg tag_id =
     (if tag_id = TAGFS_INVALID_TAG_ID then False
      else case entry_of reg tag_id of None \<Rightarrow> False | Some e \<Rightarrow> te_flags e AND TAGFS_TAG_FLAG_SYSTEM \<noteq> 0)"

definition tag_registry_is_dirty :: "TagRegistry \<Rightarrow> bool" where
  "tag_registry_is_dirty reg = tr_dirty reg"

definition tag_registry_intern :: "InternMem \<Rightarrow> TagRegistry \<Rightarrow> bytes \<Rightarrow> bytes option \<Rightarrow> (nat \<times> TagRegistry) option" where
  "tag_registry_intern mem reg key val = intern_unlocked mem reg key val"

definition tag_registry_lookup :: "TagRegistry \<Rightarrow> bytes \<Rightarrow> bytes option \<Rightarrow> nat option" where
  "tag_registry_lookup reg key val = lookup_unlocked reg key val"


section \<open>What the registry stands for\<close>

definition tag_name :: "TagRegistry \<Rightarrow> nat \<Rightarrow> (bytes \<times> bytes option) option" where
  "tag_name reg i = (if i < length (tr_by_id reg) then map_option (\<lambda>e. (te_key e, te_value e)) (tr_by_id reg ! i) else None)"

definition tag_entry :: "TagRegistry \<Rightarrow> nat \<Rightarrow> TagRegistryEntry option" where
  "tag_entry reg i = (if i < length (tr_by_id reg) then tr_by_id reg ! i else None)"

definition group_tags :: "TagRegistry \<Rightarrow> bytes \<Rightarrow> nat list" where
  "group_tags reg k = (case tag_registry_key_group reg k of None \<Rightarrow> [] | Some g \<Rightarrow> kg_tag_ids g)"

definition group_ok :: "TagRegistry \<Rightarrow> nat \<Rightarrow> TagKeyGroup \<Rightarrow> bool" where
  "group_ok reg b g \<longleftrightarrow> key_hash (kg_key g) TAGFS_KEY_BUCKETS = b \<and> distinct (kg_tag_ids g) \<and>
     length (kg_tag_ids g) \<le> kg_capacity g \<and> 0 < kg_capacity g \<and> kg_capacity g \<le> 2 ^ 16 \<and>
     (\<forall>i\<in>set (kg_tag_ids g). \<exists>v. tag_name reg i = Some (kg_key g, v))"

definition groups_ok :: "TagRegistry \<Rightarrow> bool" where
  "groups_ok reg \<longleftrightarrow> length (tr_key_buckets reg) = TAGFS_KEY_BUCKETS \<and>
     (\<forall>b<TAGFS_KEY_BUCKETS. distinct (map kg_key (tr_key_buckets reg ! b)) \<and> (\<forall>g\<in>set (tr_key_buckets reg ! b). group_ok reg b g))"

definition names_ok :: "TagRegistry \<Rightarrow> bool" where
  "names_ok reg \<longleftrightarrow>
     table_ok (tr_buckets reg) TAGFS_REG_BUCKETS (\<lambda>i. case tag_name reg i of None \<Rightarrow> 0 | Some (k, v) \<Rightarrow> registry_hash k v TAGFS_REG_BUCKETS)
       (dom (tag_name reg)) \<and>
     inj_on (tag_name reg) (dom (tag_name reg)) \<and> (\<forall>i\<in>dom (tag_name reg). i < tr_next_id reg) \<and>
     tr_next_id reg \<le> TAGFS_MAX_TAG_ID + 1 \<and> tr_next_id reg \<le> length (tr_by_id reg) \<and>
     0 < length (tr_by_id reg) \<and> length (tr_by_id reg) \<le> 2 ^ 16 \<and>
     (\<forall>i<length (tr_by_id reg). \<forall>e. tr_by_id reg ! i = Some e \<longrightarrow> te_tag_id e = i) \<and>
     tr_total_tags reg = card (dom (tag_name reg))"

lemma buckets_pos [simp]: "0 < TAGFS_REG_BUCKETS" "0 < TAGFS_KEY_BUCKETS"
  by (simp_all add: TAGFS_REG_BUCKETS_def TAGFS_KEY_BUCKETS_def)

lemma hash_less [simp]: "registry_hash k v TAGFS_REG_BUCKETS < TAGFS_REG_BUCKETS" "key_hash k TAGFS_KEY_BUCKETS < TAGFS_KEY_BUCKETS"
  by (simp_all add: registry_hash_def key_hash_def Let_def)

lemma name_cong: "tr_by_id reg' = tr_by_id reg \<Longrightarrow> tag_name reg' = tag_name reg"
  by (simp add: tag_name_def fun_eq_iff)

lemma values_equal_iff [simp]: "values_equal a b \<longleftrightarrow> a = b"
  by (cases a; cases b) (auto simp: values_equal_def)

subsection \<open>Looking up\<close>

lemma lookup_chain_find:
  "\<forall>i\<in>set is. tag_name reg i \<noteq> None \<Longrightarrow>
   lookup_chain (tr_by_id reg) k v is =
     Some (case find (\<lambda>i. tag_name reg i = Some (k, v)) is of None \<Rightarrow> TAGFS_INVALID_TAG_ID | Some i \<Rightarrow> i)"
  by (induction "is") (auto simp: tag_name_def split: option.splits if_splits)

lemma lookup_ok:
  assumes "names_ok reg"
  shows "(\<exists>i\<le>TAGFS_MAX_TAG_ID. lookup_unlocked reg k v = Some i \<and> tag_name reg i = Some (k, v)) \<or>
    lookup_unlocked reg k v = Some TAGFS_INVALID_TAG_ID \<and> (\<forall>i. tag_name reg i \<noteq> Some (k, v))"
proof -
  let ?key = "\<lambda>i. case tag_name reg i of None \<Rightarrow> 0 | Some (k, v) \<Rightarrow> registry_hash k v TAGFS_REG_BUCKETS"
  let ?b = "registry_hash k v TAGFS_REG_BUCKETS" and ?P = "\<lambda>i. tag_name reg i = Some (k, v)"
  have t: "table_ok (tr_buckets reg) TAGFS_REG_BUCKETS ?key (dom (tag_name reg))" using assms by (simp add: names_ok_def)
  have "\<forall>i\<in>set (tr_buckets reg ! ?b). tag_name reg i \<noteq> None" using table_okD(4) [OF t, of ?b] by auto
  then have l: "lookup_unlocked reg k v = Some (case find ?P (tr_buckets reg ! ?b) of None \<Rightarrow> TAGFS_INVALID_TAG_ID | Some i \<Rightarrow> i)"
    using lookup_chain_find table_okD(1) [OF t] by (simp add: lookup_unlocked_def)
  have key: "i \<in> dom (tag_name reg) \<Longrightarrow> ?P i \<Longrightarrow> ?key i = ?b" for i by simp
  have f: "find ?P (tr_buckets reg ! ?b) = None \<longleftrightarrow> (\<forall>i\<in>dom (tag_name reg). \<not> ?P i)"
    by (rule table_find(1) [OF t hash_less(1) key])
  have f2: "i \<in> dom (tag_name reg) \<and> ?P i" if "find ?P (tr_buckets reg ! ?b) = Some i" for i
    by (rule table_find(2) [OF t hash_less(1) key that])
  show ?thesis
  proof (cases "find ?P (tr_buckets reg ! ?b)")
    case None
    then show ?thesis using l f by (auto simp: dom_def)
  next
    case (Some i)
    note f2 [OF Some]
    moreover from this have "i < tr_next_id reg" "tr_next_id reg \<le> TAGFS_MAX_TAG_ID + 1" using assms by (auto simp: names_ok_def)
    ultimately show ?thesis using l Some by (intro disjI1 exI [of _ i]) simp
  qed
qed

lemma invalid_big: "TAGFS_MAX_TAG_ID < TAGFS_INVALID_TAG_ID"
  by (simp add: TAGFS_MAX_TAG_ID_def TAGFS_INVALID_TAG_ID_def)

subsection \<open>Growing the array\<close>

lemma grow_returns:
  "0 < length l \<Longrightarrow> length l \<le> 2 ^ 16 \<Longrightarrow> i < 2 ^ 15 \<Longrightarrow>
   \<exists>ok n. grow_by_id f l i = Some (ok, l @ replicate n None) \<and> length l + n \<le> 2 ^ 16 \<and> (ok \<longrightarrow> i < length l + n) \<and> ((\<forall>c. f c) \<longrightarrow> ok)"
proof (induction "Suc i - length l" arbitrary: l rule: less_induct)
  case less
  show ?case
  proof (cases "length l \<le> i")
    case False
    then have "grow_by_id f l i = Some (True, l @ replicate 0 None)" by (simp add: grow_by_id.simps)
    then show ?thesis using less.prems False by fastforce
  next
    case True
    let ?l = "l @ replicate (length l) None"
    have cap: "u32_wrap (length l * 2) = length l * 2" using less.prems by simp
    show ?thesis
    proof (cases "f (length l * 2)")
      case False
      then have "grow_by_id f l i = Some (False, l @ replicate 0 None)" using True cap by (simp add: grow_by_id.simps)
      then show ?thesis using less.prems False by fastforce
    next
      case ok: True
      have eq: "grow_by_id f l i = grow_by_id f ?l i" using True ok cap by (subst grow_by_id.simps) (simp add: mult_2_right)
      obtain ok' n where r: "grow_by_id f ?l i = Some (ok', ?l @ replicate n None)" "length ?l + n \<le> 2 ^ 16"
          "ok' \<longrightarrow> i < length ?l + n" "(\<forall>c. f c) \<longrightarrow> ok'"
        using less.hyps [of ?l] less.prems True by (auto simp: diff_less_mono2)
      have "?l @ replicate n None = l @ replicate (length l + n) None" by (simp add: replicate_add)
      then show ?thesis using eq r by (metis add.assoc length_append length_replicate)
    qed
  qed
qed

lemma ensure_ok:
  assumes "names_ok reg" "i < 2 ^ 15"
  shows "\<exists>ok n. ensure_by_id_capacity mem reg i = Some (ok, reg\<lparr>tr_by_id := tr_by_id reg @ replicate n None\<rparr>) \<and>
    length (tr_by_id reg) + n \<le> 2 ^ 16 \<and> (ok \<longrightarrow> i < length (tr_by_id reg) + n) \<and> ((\<forall>c. im_by_id mem c) \<longrightarrow> ok)"
proof -
  obtain ok n where "grow_by_id (im_by_id mem) (tr_by_id reg) i = Some (ok, tr_by_id reg @ replicate n None)"
      "length (tr_by_id reg) + n \<le> 2 ^ 16" "ok \<longrightarrow> i < length (tr_by_id reg) + n" "(\<forall>c. im_by_id mem c) \<longrightarrow> ok"
    using grow_returns [of "tr_by_id reg" i "im_by_id mem"] assms by (auto simp: names_ok_def)
  then show ?thesis by (intro exI [of _ ok] exI [of _ n]) (simp add: ensure_by_id_capacity_def)
qed

lemma name_extend: "tag_name (reg\<lparr>tr_by_id := tr_by_id reg @ replicate n None\<rparr>) = tag_name reg"
  by (auto simp: tag_name_def fun_eq_iff nth_append)

lemma extend_ok:
  assumes "names_ok reg" "length (tr_by_id reg) + n \<le> 2 ^ 16"
  shows "names_ok (reg\<lparr>tr_by_id := tr_by_id reg @ replicate n None\<rparr>)"
  using assms unfolding names_ok_def name_extend by (auto simp: nth_append)

subsection \<open>The groups\<close>

lemma map_group_ok:
  "find (\<lambda>g. kg_key g = k) gs = Some g \<Longrightarrow> f g = Some g' \<Longrightarrow> kg_key g' = k \<Longrightarrow> distinct (map kg_key gs) \<Longrightarrow>
   \<exists>gs'. map_group k f gs = Some gs' \<and> map kg_key gs' = map kg_key gs \<and> set gs' \<subseteq> insert g' (set gs) \<and>
     (\<forall>k'. find (\<lambda>g. kg_key g = k') gs' = (if k' = k then Some g' else find (\<lambda>g. kg_key g = k') gs))"
proof (induction gs)
  case (Cons x gs)
  show ?case
  proof (cases "kg_key x = k")
    case True
    then show ?thesis using Cons.prems by auto
  next
    case False
    then obtain gs' where "map_group k f gs = Some gs'" "map kg_key gs' = map kg_key gs" "set gs' \<subseteq> insert g' (set gs)"
        "\<forall>k'. find (\<lambda>g. kg_key g = k') gs' = (if k' = k then Some g' else find (\<lambda>g. kg_key g = k') gs)"
      using Cons by auto
    then show ?thesis using False by auto
  qed
qed simp

lemma group_added:
  assumes g: "group_ok reg b g" and i: "tag_name reg i = Some (kg_key g, v)" "i \<notin> set (kg_tag_ids g)"
    and few: "\<forall>j\<in>dom (tag_name reg). j < 2 ^ 15"
  shows "\<exists>added g'. add_to_key_group ok i g = Some g' \<and> kg_key g' = kg_key g \<and> group_ok reg b g' \<and>
    kg_tag_ids g' = kg_tag_ids g @ (if added then [i] else []) \<and> (ok \<longrightarrow> added)"
proof -
  have "set (kg_tag_ids g) \<subseteq> {..<2 ^ 15}" using g few by (fastforce simp: group_ok_def)
  then have "length (kg_tag_ids g) \<le> 2 ^ 15" using g card_mono [of "{..<2 ^ 15}"] by (fastforce simp: group_ok_def distinct_card)
  then have "kg_capacity g \<le> length (kg_tag_ids g) \<Longrightarrow> u32_wrap (kg_capacity g * 2) = kg_capacity g * 2 \<and> kg_capacity g * 2 \<le> 2 ^ 16"
    by simp
  then have "add_to_key_group ok i g = Some (if length (kg_tag_ids g) < kg_capacity g then g\<lparr>kg_tag_ids := kg_tag_ids g @ [i]\<rparr>
      else if ok then g\<lparr>kg_tag_ids := kg_tag_ids g @ [i], kg_capacity := kg_capacity g * 2\<rparr> else g)"
    using g by (auto simp: add_to_key_group_def Let_def group_ok_def)
  moreover have "group_ok reg b (g\<lparr>kg_tag_ids := kg_tag_ids g @ [i]\<rparr>)" if "length (kg_tag_ids g) < kg_capacity g"
    using g i that by (auto simp: group_ok_def)
  moreover have "group_ok reg b (g\<lparr>kg_tag_ids := kg_tag_ids g @ [i], kg_capacity := kg_capacity g * 2\<rparr>)"
    if "\<not> length (kg_tag_ids g) < kg_capacity g"
    using g i that \<open>length (kg_tag_ids g) \<le> 2 ^ 15\<close> by (auto simp: group_ok_def)
  ultimately show ?thesis using g
    by (cases "length (kg_tag_ids g) < kg_capacity g"; cases ok) (auto intro: exI [of _ True] exI [of _ False])
qed


definition group_mem :: "InternMem \<Rightarrow> bool" where
  "group_mem mem \<longleftrightarrow> im_group mem \<and> im_group_key mem \<and> im_group_ids mem \<and> im_group_grow mem"

lemma key_group_update:
  assumes "length (tr_key_buckets reg) = TAGFS_KEY_BUCKETS"
  shows "tag_registry_key_group (reg\<lparr>tr_key_buckets := (tr_key_buckets reg)[key_hash k TAGFS_KEY_BUCKETS := gs]\<rparr>) k' =
    (if key_hash k' TAGFS_KEY_BUCKETS = key_hash k TAGFS_KEY_BUCKETS then find (\<lambda>g. kg_key g = k') gs else tag_registry_key_group reg k')"
  using assms by (auto simp: tag_registry_key_group_def)

lemma groups_update:
  assumes "groups_ok reg" "distinct (map kg_key gs)" "\<forall>g\<in>set gs. group_ok reg (key_hash k TAGFS_KEY_BUCKETS) g"
  shows "groups_ok (reg\<lparr>tr_key_buckets := (tr_key_buckets reg)[key_hash k TAGFS_KEY_BUCKETS := gs]\<rparr>)" (is "groups_ok ?reg")
proof -
  have "group_ok ?reg b g = group_ok reg b g" for b g using name_cong [of ?reg reg] by (simp add: group_ok_def)
  then show ?thesis using assms unfolding groups_ok_def by (auto simp: nth_list_update)
qed

lemma find_or_create_ok:
  assumes "groups_ok reg"
  obtains found reg1 kb where "find_or_create_key_group mem reg k = (found, reg1)" "reg1 = reg\<lparr>tr_key_buckets := kb\<rparr>" "groups_ok reg1"
    "group_tags reg1 = group_tags reg" "found \<longrightarrow> tag_registry_key_group reg1 k \<noteq> None" "group_mem mem \<longrightarrow> found"
proof (cases "tag_registry_key_group reg k = None \<and> im_group mem \<and> im_group_key mem \<and> im_group_ids mem")
  case False
  then show ?thesis using that [of "tag_registry_key_group reg k \<noteq> None" reg "tr_key_buckets reg"] assms
    by (auto simp: find_or_create_key_group_def Let_def group_mem_def)
next
  case True
  let ?b = "key_hash k TAGFS_KEY_BUCKETS" and ?g = "\<lparr>kg_key = k, kg_tag_ids = [], kg_capacity = 8\<rparr>"
  let ?kb = "(tr_key_buckets reg)[?b := ?g # tr_key_buckets reg ! ?b]"
  let ?reg = "reg\<lparr>tr_key_buckets := ?kb\<rparr>"
  have len: "length (tr_key_buckets reg) = TAGFS_KEY_BUCKETS" using assms by (simp add: groups_ok_def)
  have none: "find (\<lambda>g. kg_key g = k) (tr_key_buckets reg ! ?b) = None" using True len by (simp add: tag_registry_key_group_def)
  then have "k \<notin> kg_key ` set (tr_key_buckets reg ! ?b)" by (auto simp: find_None_iff)
  moreover have "group_ok reg ?b ?g" by (simp add: group_ok_def)
  ultimately have "groups_ok ?reg" using assms by (intro groups_update) (auto simp: groups_ok_def)
  moreover have grp: "tag_registry_key_group ?reg k' = (if k' = k then Some ?g else tag_registry_key_group reg k')" for k'
    unfolding key_group_update [OF len] using len by (auto simp: tag_registry_key_group_def)
  then have "group_tags ?reg = group_tags reg" using True by (auto simp: group_tags_def fun_eq_iff)
  moreover have "find_or_create_key_group mem reg k = (True, ?reg)"
    using True len by (simp add: find_or_create_key_group_def Let_def chain_link_def)
  ultimately show ?thesis using that [of True ?reg ?kb] grp by simp
qed

lemma group_tag_ok:
  assumes ok: "groups_ok reg" and i: "tag_name reg i = Some (k, v)" "i \<notin> set (group_tags reg k)"
    and few: "\<forall>j\<in>dom (tag_name reg). j < 2 ^ 15"
  shows "\<exists>kb added. group_tag mem reg k i = Some (reg\<lparr>tr_key_buckets := kb\<rparr>) \<and> groups_ok (reg\<lparr>tr_key_buckets := kb\<rparr>) \<and>
    group_tags (reg\<lparr>tr_key_buckets := kb\<rparr>) = (group_tags reg)(k := group_tags reg k @ (if added then [i] else [])) \<and> (group_mem mem \<longrightarrow> added)"
proof -
  obtain found reg1 kb where f: "find_or_create_key_group mem reg k = (found, reg1)" "reg1 = reg\<lparr>tr_key_buckets := kb\<rparr>" "groups_ok reg1"
      "group_tags reg1 = group_tags reg" "found \<longrightarrow> tag_registry_key_group reg1 k \<noteq> None" "group_mem mem \<longrightarrow> found"
    by (rule find_or_create_ok [OF ok, of mem k]) (rule that)
  show ?thesis
  proof (cases found)
    case False
    then have "group_tag mem reg k i = Some reg1" using f(1) by (simp add: group_tag_def)
    then show ?thesis using f(3,4,6) False unfolding f(2) by (intro exI [of _ kb] exI [of _ False]) simp
  next
    case True
    let ?b = "key_hash k TAGFS_KEY_BUCKETS"
    have len: "length (tr_key_buckets reg1) = TAGFS_KEY_BUCKETS" using f(3) by (simp add: groups_ok_def)
    obtain g where g: "tag_registry_key_group reg1 k = Some g" using f(5) True by auto
    then have fg: "find (\<lambda>g. kg_key g = k) (tr_key_buckets reg1 ! ?b) = Some g" using len by (simp add: tag_registry_key_group_def)
    then have gk: "kg_key g = k" "g \<in> set (tr_key_buckets reg1 ! ?b)" by (auto simp: find_Some_iff)
    then have gok: "group_ok reg1 ?b g" using f(3) by (simp add: groups_ok_def)
    have nm: "tag_name reg1 = tag_name reg" by (rule name_cong) (simp add: f(2))
    have tags: "kg_tag_ids g = group_tags reg k" using g f(4) by (simp add: group_tags_def fun_eq_iff) (metis option.simps(5))
    obtain added g' where a: "add_to_key_group (im_group_grow mem) i g = Some g'" "kg_key g' = k" "group_ok reg1 ?b g'"
        "kg_tag_ids g' = kg_tag_ids g @ (if added then [i] else [])" "im_group_grow mem \<longrightarrow> added"
      using group_added [OF gok, of i v "im_group_grow mem"] i few gk(1) nm tags by auto
    have "distinct (map kg_key (tr_key_buckets reg1 ! ?b))" using f(3) by (simp add: groups_ok_def)
    then obtain gs where m: "map_group k (add_to_key_group (im_group_grow mem) i) (tr_key_buckets reg1 ! ?b) = Some gs"
        "map kg_key gs = map kg_key (tr_key_buckets reg1 ! ?b)" "set gs \<subseteq> insert g' (set (tr_key_buckets reg1 ! ?b))"
        "\<forall>k'. find (\<lambda>g. kg_key g = k') gs = (if k' = k then Some g' else find (\<lambda>g. kg_key g = k') (tr_key_buckets reg1 ! ?b))"
      using map_group_ok [OF fg, of "add_to_key_group (im_group_grow mem) i" g'] a(1,2) by blast
    let ?kb = "(tr_key_buckets reg1)[?b := gs]"
    have eq: "reg1\<lparr>tr_key_buckets := ?kb\<rparr> = reg\<lparr>tr_key_buckets := ?kb\<rparr>" using f(2) by simp
    have "group_tag mem reg k i = Some (reg1\<lparr>tr_key_buckets := ?kb\<rparr>)" using f(1) True m(1) len by (simp add: group_tag_def)
    moreover have "\<forall>g\<in>set gs. group_ok reg1 ?b g" using m(3) a(3) f(3) by (auto simp: groups_ok_def)
    then have "groups_ok (reg1\<lparr>tr_key_buckets := ?kb\<rparr>)" using groups_update [OF f(3)] m(2) f(3) by (simp add: groups_ok_def)
    moreover have "tag_registry_key_group (reg1\<lparr>tr_key_buckets := ?kb\<rparr>) k' = (if k' = k then Some g' else tag_registry_key_group reg1 k')" for k'
      unfolding key_group_update [OF len] using m(4) len by (auto simp: tag_registry_key_group_def)
    then have "group_tags (reg1\<lparr>tr_key_buckets := ?kb\<rparr>) = (group_tags reg1)(k := group_tags reg k @ (if added then [i] else []))"
      using a(4) tags by (simp add: group_tags_def fun_eq_iff)
    ultimately show ?thesis using a(5) f(4) unfolding eq group_mem_def by (intro exI [of _ ?kb] exI [of _ added]) simp
  qed
qed

subsection \<open>Adding a tag\<close>

lemma stored_ok:
  assumes ok: "names_ok reg" and i: "i < length (tr_by_id reg)" "i \<le> TAGFS_MAX_TAG_ID" "tag_name reg i = None"
    and new: "\<forall>j. tag_name reg j \<noteq> Some (k, v)" and nx: "tr_next_id reg' = max (tr_next_id reg) (i + 1)"
    and reg': "tr_buckets reg' = tr_buckets (store_tag reg i k v)" "tr_by_id reg' = tr_by_id (store_tag reg i k v)"
      "tr_total_tags reg' = tr_total_tags reg + 1"
  shows "tag_name reg' = (tag_name reg)(i \<mapsto> (k, v))" "names_ok reg'"
proof -
  let ?key = "\<lambda>nm i. case nm i of None \<Rightarrow> 0 | Some (k, v) \<Rightarrow> registry_hash k v TAGFS_REG_BUCKETS"
  show nm: "tag_name reg' = (tag_name reg)(i \<mapsto> (k, v))"
    using i(1) reg'(2) by (auto simp: tag_name_def fun_eq_iff store_tag_def Let_def new_entry_def)
  have len: "length (tr_by_id reg') = length (tr_by_id reg)" using reg'(2) by (simp add: store_tag_def Let_def)
  have t: "table_ok (tr_buckets reg) TAGFS_REG_BUCKETS (?key (tag_name reg)) (dom (tag_name reg))" using ok by (simp add: names_ok_def)
  have "table_ok (tr_buckets reg) TAGFS_REG_BUCKETS (?key (tag_name reg')) (dom (tag_name reg))"
    by (rule table_cong [OF t]) (use i(3) nm in auto)
  from table_link [OF this, of i] have "table_ok (tr_buckets reg') TAGFS_REG_BUCKETS (?key (tag_name reg')) (insert i (dom (tag_name reg)))"
    using i(3) nm reg'(1) table_okD(1) [OF t] by (simp add: domIff store_tag_def Let_def)
  moreover have dom: "dom (tag_name reg') = insert i (dom (tag_name reg))" by (simp add: nm)
  moreover have "inj_on (tag_name reg') (dom (tag_name reg'))"
    using ok new i(3) unfolding dom by (auto simp: nm inj_on_def names_ok_def domIff)
  moreover have fin: "finite (dom (tag_name reg))" by (rule finite_subset [of _ "{..<tr_next_id reg}"]) (use ok in \<open>auto simp: names_ok_def\<close>)
  then have "card (dom (tag_name reg')) = tr_total_tags reg'" using ok i(3) reg'(3) unfolding dom by (simp add: names_ok_def domIff)
  moreover have "\<forall>j<length (tr_by_id reg'). \<forall>e. tr_by_id reg' ! j = Some e \<longrightarrow> te_tag_id e = j"
    using ok reg'(2) i(1) by (auto simp: names_ok_def store_tag_def Let_def nth_list_update new_entry_def)
  moreover have "\<forall>j\<in>dom (tag_name reg'). j < tr_next_id reg'" unfolding dom nx using ok by (auto simp: names_ok_def less_max_iff_disj)
  moreover have "tr_next_id reg' \<le> TAGFS_MAX_TAG_ID + 1" "tr_next_id reg' \<le> length (tr_by_id reg')"
      "0 < length (tr_by_id reg')" "length (tr_by_id reg') \<le> 2 ^ 16"
    using ok i nx len by (auto simp: names_ok_def)
  ultimately show "names_ok reg'" unfolding names_ok_def by (simp only: HOL.simp_thms)
qed


definition reg_ok :: "TagRegistry \<Rightarrow> bool" where
  "reg_ok reg \<longleftrightarrow> names_ok reg \<and> groups_ok reg"

text \<open>The groups miss no tag, which holds unless the memory for a group ran out.\<close>

definition groups_complete :: "TagRegistry \<Rightarrow> bool" where
  "groups_complete reg \<longleftrightarrow> (\<forall>k. set (group_tags reg k) = {i. \<exists>v. tag_name reg i = Some (k, v)})"

lemma groups_cong:
  assumes "tag_name reg' = tag_name reg" "tr_key_buckets reg' = tr_key_buckets reg"
  shows "groups_ok reg' = groups_ok reg" "group_tags reg' = group_tags reg" "groups_complete reg' = groups_complete reg"
proof -
  have "group_ok reg' = group_ok reg" using assms(1) by (simp add: group_ok_def fun_eq_iff)
  then show "groups_ok reg' = groups_ok reg" using assms(2) by (simp add: groups_ok_def)
  show g: "group_tags reg' = group_tags reg" using assms(2) by (simp add: group_tags_def tag_registry_key_group_def fun_eq_iff)
  show "groups_complete reg' = groups_complete reg" using assms(1) g by (simp add: groups_complete_def)
qed

lemma names_bound:
  assumes "names_ok reg"
  shows "\<forall>j\<in>dom (tag_name reg). j < 2 ^ 15" "tr_total_tags reg \<le> 2 ^ 15" "tr_next_id reg \<le> 2 ^ 15 - 1"
proof -
  have n: "\<forall>j\<in>dom (tag_name reg). j < tr_next_id reg" "tr_next_id reg \<le> 2 ^ 15 - 1"
    using assms by (auto simp: names_ok_def TAGFS_MAX_TAG_ID_def)
  then show b: "\<forall>j\<in>dom (tag_name reg). j < 2 ^ 15" by (auto dest!: bspec)
  then have "dom (tag_name reg) \<subseteq> {..<2 ^ 15}" by blast
  then have "card (dom (tag_name reg)) \<le> 2 ^ 15" using card_mono [of "{..<2 ^ 15}"] by fastforce
  then show "tr_total_tags reg \<le> 2 ^ 15" using assms by (simp add: names_ok_def)
  show "tr_next_id reg \<le> 2 ^ 15 - 1" by (rule n(2))
qed

lemma group_tags_named:
  assumes "groups_ok reg" "i \<in> set (group_tags reg k)"
  shows "\<exists>v. tag_name reg i = Some (k, v)"
proof -
  obtain g where g: "tag_registry_key_group reg k = Some g" "i \<in> set (kg_tag_ids g)" using assms(2) by (cases "tag_registry_key_group reg k") (auto simp: group_tags_def)
  then have "kg_key g = k" "g \<in> set (tr_key_buckets reg ! key_hash k TAGFS_KEY_BUCKETS)"
    using assms(1) by (auto simp: tag_registry_key_group_def find_Some_iff groups_ok_def)
  moreover from this have "group_ok reg (key_hash k TAGFS_KEY_BUCKETS) g" using assms(1) by (simp add: groups_ok_def)
  ultimately show ?thesis using g(2) by (auto simp: group_ok_def)
qed

definition added_tag :: "TagRegistry \<Rightarrow> nat \<Rightarrow> TagRegistry" where
  "added_tag reg i = reg\<lparr>tr_next_id := max (tr_next_id reg) (i + 1), tr_total_tags := tr_total_tags reg + 1, tr_dirty := True\<rparr>"

lemma add_ok:
  assumes ok: "reg_ok reg" and i: "i < length (tr_by_id reg)" "i \<le> TAGFS_MAX_TAG_ID" "tag_name reg i = None"
    and new: "\<forall>j. tag_name reg j \<noteq> Some (k, v)"
  shows "\<exists>reg1. group_tag mem (store_tag reg i k v) k i = Some reg1 \<and> reg_ok (added_tag reg1 i) \<and>
    tag_name (added_tag reg1 i) = (tag_name reg)(i \<mapsto> (k, v)) \<and> tag_entry (added_tag reg1 i) = (tag_entry reg)(i \<mapsto> new_entry i k v) \<and>
    tr_next_id reg1 = tr_next_id reg \<and> tr_total_tags reg1 = tr_total_tags reg \<and>
    (groups_complete reg \<and> group_mem mem \<longrightarrow> groups_complete (added_tag reg1 i))"
proof -
  let ?s = "store_tag reg i k v"
  have n: "names_ok reg" and g: "groups_ok reg" using ok by (auto simp: reg_ok_def)
  have s: "tag_name ?s = (tag_name reg)(i \<mapsto> (k, v))" using i(1) by (auto simp: tag_name_def fun_eq_iff store_tag_def Let_def new_entry_def)
  have se: "tag_entry ?s = (tag_entry reg)(i \<mapsto> new_entry i k v)" using i(1) by (auto simp: tag_entry_def fun_eq_iff store_tag_def Let_def)
  have kb: "tr_key_buckets ?s = tr_key_buckets reg" "tr_next_id ?s = tr_next_id reg" "tr_total_tags ?s = tr_total_tags reg"
    by (simp_all add: store_tag_def Let_def)
  have "group_ok ?s b x" if "group_ok reg b x" for b x using that i(3) unfolding group_ok_def s by fastforce
  then have gs: "groups_ok ?s" using g kb(1) by (simp add: groups_ok_def)
  have gt: "group_tags ?s = group_tags reg" using kb(1) by (simp add: group_tags_def tag_registry_key_group_def fun_eq_iff)
  have fresh: "i \<notin> set (group_tags ?s k')" for k' using group_tags_named [OF g] i(3) unfolding gt by fastforce
  have few: "\<forall>j\<in>dom (tag_name ?s). j < 2 ^ 15" unfolding s using names_bound(1) [OF n] i(2) by (auto simp: TAGFS_MAX_TAG_ID_def)
  have nm: "tag_name ?s i = Some (k, v)" by (simp add: s)
  obtain kb' added where t: "group_tag mem ?s k i = Some (?s\<lparr>tr_key_buckets := kb'\<rparr>)" "groups_ok (?s\<lparr>tr_key_buckets := kb'\<rparr>)"
      "group_tags (?s\<lparr>tr_key_buckets := kb'\<rparr>) = (group_tags ?s)(k := group_tags ?s k @ (if added then [i] else []))" "group_mem mem \<longrightarrow> added"
    using group_tag_ok [OF gs nm fresh few, of mem] by blast
  let ?reg1 = "?s\<lparr>tr_key_buckets := kb'\<rparr>"
  let ?reg' = "added_tag ?reg1 i"
  have f: "tr_next_id ?reg' = max (tr_next_id reg) (i + 1)" "tr_buckets ?reg' = tr_buckets ?s" "tr_by_id ?reg' = tr_by_id ?s"
      "tr_total_tags ?reg' = tr_total_tags reg + 1" "tr_key_buckets ?reg' = kb'"
    by (simp_all add: added_tag_def kb)
  note st = stored_ok [OF n i new f(1-4)]
  have same: "tag_name ?reg1 = tag_name ?reg'" using st(1) s name_cong [of ?reg1 ?s] by simp
  note c = groups_cong [OF same [symmetric], unfolded f(5), simplified]
  have "tag_entry ?reg' = tag_entry ?s" by (simp add: tag_entry_def fun_eq_iff f(3))
  moreover have "groups_complete ?reg'" if "groups_complete reg" "group_mem mem"
    unfolding groups_complete_def c(2) t(3) gt st(1)
  proof
    fix k'
    have "set (group_tags reg k') = {j. \<exists>v. tag_name reg j = Some (k', v)}" "added" using that t(4) by (simp_all add: groups_complete_def)
    then show "set (((group_tags reg)(k := group_tags reg k @ (if added then [i] else []))) k') =
        {j. \<exists>va. ((tag_name reg)(i \<mapsto> (k, v))) j = Some (k', va)}"
      using i(3) by (cases "k' = k") auto
  qed
  ultimately show ?thesis using t(1,2) st c(1) se kb by (intro exI [of _ ?reg1]) (simp add: reg_ok_def)
qed


text \<open>What an interning does: the number of a known tag, a new tag under an unused number, or nothing.\<close>

definition interned :: "InternMem \<Rightarrow> TagRegistry \<Rightarrow> nat \<Rightarrow> bytes \<Rightarrow> bytes option \<Rightarrow> nat \<Rightarrow> TagRegistry \<Rightarrow> bool" where
  "interned mem reg i k v r reg' \<longleftrightarrow> reg_ok reg' \<and> (groups_complete reg \<and> group_mem mem \<longrightarrow> groups_complete reg') \<and>
     (if r = TAGFS_INVALID_TAG_ID then tag_entry reg' = tag_entry reg \<and> (\<forall>j. tag_name reg j \<noteq> Some (k, v)) \<and> tr_next_id reg' = tr_next_id reg
      else r \<le> TAGFS_MAX_TAG_ID \<and>
        (if tag_name reg r = Some (k, v) then reg' = reg
         else r = i \<and> (\<forall>j. tag_name reg j \<noteq> Some (k, v)) \<and> tag_entry reg i = None \<and> tag_entry reg' = (tag_entry reg)(i \<mapsto> new_entry i k v) \<and>
           tr_next_id reg' = max (tr_next_id reg) (i + 1)))"

definition intern_mem :: "InternMem \<Rightarrow> bytes option \<Rightarrow> bool" where
  "intern_mem mem v \<longleftrightarrow> (\<forall>c. im_by_id mem c) \<and> entry_mem mem v"

lemma name_entry: "tag_name reg i = map_option (\<lambda>e. (te_key e, te_value e)) (tag_entry reg i)"
  by (simp add: tag_name_def tag_entry_def)

lemma entry_extend: "tag_entry (reg\<lparr>tr_by_id := tr_by_id reg @ replicate n None\<rparr>) = tag_entry reg"
  by (auto simp: tag_entry_def fun_eq_iff nth_append)

lemma reg_extend:
  assumes "reg_ok reg" "length (tr_by_id reg) + n \<le> 2 ^ 16"
  shows "reg_ok (reg\<lparr>tr_by_id := tr_by_id reg @ replicate n None\<rparr>)"
    "groups_complete (reg\<lparr>tr_by_id := tr_by_id reg @ replicate n None\<rparr>) = groups_complete reg"
  using assms extend_ok groups_cong [OF name_extend, of reg n] by (simp_all add: reg_ok_def)

text \<open>The part after the lookup has failed, for a number that is in range.\<close>

lemma intern_new:
  assumes ok: "reg_ok reg" and new: "\<forall>j. tag_name reg j \<noteq> Some (k, v)" and i: "i \<le> TAGFS_MAX_TAG_ID" "tag_entry reg i = None"
  obtains got reg1 where "ensure_by_id_capacity mem reg i = Some (got, reg1)" "tr_next_id reg1 = tr_next_id reg"
    "interned mem reg i k v TAGFS_INVALID_TAG_ID reg1" "(\<forall>c. im_by_id mem c) \<longrightarrow> got" "got \<longrightarrow> tr_by_id reg1 ! i = None"
    "got \<longrightarrow> (\<exists>reg2. group_tag mem (store_tag reg1 i k v) k i = Some reg2 \<and> interned mem reg i k v i (added_tag reg2 i) \<and>
       tr_next_id reg2 = tr_next_id reg \<and> tr_total_tags reg2 < 2 ^ 16)"
proof -
  have "i < 2 ^ 15" using i(1) by (simp add: TAGFS_MAX_TAG_ID_def)
  then obtain got n where e: "ensure_by_id_capacity mem reg i = Some (got, reg\<lparr>tr_by_id := tr_by_id reg @ replicate n None\<rparr>)"
      "length (tr_by_id reg) + n \<le> 2 ^ 16" "got \<longrightarrow> i < length (tr_by_id reg) + n" "(\<forall>c. im_by_id mem c) \<longrightarrow> got"
    using ensure_ok [of reg i mem] ok by (auto simp: reg_ok_def)
  let ?r = "reg\<lparr>tr_by_id := tr_by_id reg @ replicate n None\<rparr>"
  note x = reg_extend [OF ok e(2)]
  have nm: "tag_name ?r = tag_name reg" "tag_entry ?r = tag_entry reg" by (rule name_extend, rule entry_extend)
  have none: "tag_name ?r i = None" using i(2) nm(1) by (simp add: name_entry)
  have ne: "tr_next_id ?r = tr_next_id reg" "i \<noteq> TAGFS_INVALID_TAG_ID" using i(1) invalid_big by auto
  have "\<exists>reg2. group_tag mem (store_tag ?r i k v) k i = Some reg2 \<and> interned mem reg i k v i (added_tag reg2 i) \<and>
      tr_next_id reg2 = tr_next_id reg \<and> tr_total_tags reg2 < 2 ^ 16" if got
  proof -
    have len: "i < length (tr_by_id ?r)" using e(3) that by simp
    have new': "\<forall>j. tag_name ?r j \<noteq> Some (k, v)" using new nm(1) by simp
    obtain reg2 where r: "group_tag mem (store_tag ?r i k v) k i = Some reg2" "reg_ok (added_tag reg2 i)"
        "tag_entry (added_tag reg2 i) = (tag_entry ?r)(i \<mapsto> new_entry i k v)" "tr_next_id reg2 = tr_next_id ?r"
        "tr_total_tags reg2 = tr_total_tags ?r" "groups_complete ?r \<and> group_mem mem \<longrightarrow> groups_complete (added_tag reg2 i)"
      using add_ok [OF x(1) len i(1) none new', of mem] by blast
    have "tr_total_tags ?r \<le> 2 ^ 15" using names_bound(2) [of ?r] x(1) by (simp add: reg_ok_def)
    then show ?thesis using r x(2) nm none new i ne by (intro exI [of _ reg2]) (auto simp: interned_def added_tag_def)
  qed
  moreover have "interned mem reg i k v TAGFS_INVALID_TAG_ID ?r" using x nm new by (simp add: interned_def)
  moreover have "tr_by_id ?r ! i = None" if got using none e(3) that by (simp add: tag_name_def)
  ultimately show thesis using that [of got ?r] e by simp
qed

lemma intern_ok:
  assumes "reg_ok reg"
  shows "\<exists>r reg'. intern_unlocked mem reg k v = Some (r, reg') \<and> interned mem reg (tr_next_id reg) k v r reg' \<and>
    (intern_mem mem v \<and> tr_next_id reg \<le> TAGFS_MAX_TAG_ID \<longrightarrow> r \<noteq> TAGFS_INVALID_TAG_ID)"
proof -
  have n: "names_ok reg" using assms by (simp add: reg_ok_def)
  consider (known) i where "i \<le> TAGFS_MAX_TAG_ID" "lookup_unlocked reg k v = Some i" "tag_name reg i = Some (k, v)"
    | (new) "lookup_unlocked reg k v = Some TAGFS_INVALID_TAG_ID" "\<forall>j. tag_name reg j \<noteq> Some (k, v)"
    using lookup_ok [OF n, of k v] by blast
  then show ?thesis
  proof cases
    case known
    then have "i \<noteq> TAGFS_INVALID_TAG_ID" using invalid_big by simp
    then show ?thesis using known assms by (simp add: intern_unlocked_def interned_def)
  next
    case new
    let ?i = "tr_next_id reg"
    show ?thesis
    proof (cases "?i \<le> TAGFS_MAX_TAG_ID")
      case False
      then show ?thesis using new assms by (simp add: intern_unlocked_def interned_def)
    next
      case True
      have "tag_name reg ?i = None" using n by (fastforce simp: names_ok_def)
      then have "tag_entry reg ?i = None" by (simp add: name_entry)
      then obtain got reg1 where g: "ensure_by_id_capacity mem reg ?i = Some (got, reg1)" "tr_next_id reg1 = ?i"
          "interned mem reg ?i k v TAGFS_INVALID_TAG_ID reg1" "(\<forall>c. im_by_id mem c) \<longrightarrow> got" "got \<longrightarrow> tr_by_id reg1 ! ?i = None"
          "got \<longrightarrow> (\<exists>reg2. group_tag mem (store_tag reg1 ?i k v) k ?i = Some reg2 \<and> interned mem reg ?i k v ?i (added_tag reg2 ?i) \<and>
            tr_next_id reg2 = ?i \<and> tr_total_tags reg2 < 2 ^ 16)"
        using intern_new [OF assms new(2) True, of mem] by blast
      show ?thesis
      proof (cases "got \<and> entry_mem mem v")
        case False
        then have "intern_unlocked mem reg k v = Some (TAGFS_INVALID_TAG_ID, reg1)" using new(1) True g(1) by (auto simp: intern_unlocked_def)
        then show ?thesis using g(3,4) False by (auto simp: intern_mem_def)
      next
        case ok: True
        then obtain reg2 where r: "group_tag mem (store_tag reg1 ?i k v) k ?i = Some reg2" "interned mem reg ?i k v ?i (added_tag reg2 ?i)"
            "tr_next_id reg2 = ?i" "tr_total_tags reg2 < 2 ^ 16"
          using g(6) by blast
        have "?i + 1 < 2 ^ 16" using True by (simp add: TAGFS_MAX_TAG_ID_def)
        then have "intern_unlocked mem reg k v = Some (?i, added_tag reg2 ?i)"
          using new(1) True g(1,2) ok r by (simp add: intern_unlocked_def added_tag_def Let_def)
        then show ?thesis using r(2) True invalid_big by auto
      qed
    qed
  qed
qed

lemma intern_with_id_ok:
  assumes "reg_ok reg"
  shows "\<exists>r reg'. intern_with_id_unlocked mem reg i k v = Some (r, reg') \<and> interned mem reg i k v r reg' \<and>
    (intern_mem mem v \<and> i \<le> TAGFS_MAX_TAG_ID \<and> tag_entry reg i = None \<longrightarrow> r \<noteq> TAGFS_INVALID_TAG_ID)"
proof -
  have n: "names_ok reg" using assms by (simp add: reg_ok_def)
  consider (known) j where "j \<le> TAGFS_MAX_TAG_ID" "lookup_unlocked reg k v = Some j" "tag_name reg j = Some (k, v)"
    | (new) "lookup_unlocked reg k v = Some TAGFS_INVALID_TAG_ID" "\<forall>j. tag_name reg j \<noteq> Some (k, v)"
    using lookup_ok [OF n, of k v] by blast
  then show ?thesis
  proof cases
    case known
    then have "j \<noteq> TAGFS_INVALID_TAG_ID" using invalid_big by simp
    then show ?thesis using known assms by (simp add: intern_with_id_unlocked_def interned_def)
  next
    case new
    consider (big) "i > TAGFS_MAX_TAG_ID" | (used) "i \<le> TAGFS_MAX_TAG_ID" "tag_entry reg i \<noteq> None"
      | (free) "i \<le> TAGFS_MAX_TAG_ID" "tag_entry reg i = None" by linarith
    then show ?thesis
    proof cases
      case big
      then show ?thesis using new assms by (simp add: intern_with_id_unlocked_def interned_def)
    next
      case used
      then have "i < length (tr_by_id reg)" by (simp add: tag_entry_def split: if_splits)
      then have "ensure_by_id_capacity mem reg i = Some (True, reg)" by (simp add: ensure_by_id_capacity_def grow_by_id.simps)
      then show ?thesis using new assms used \<open>i < length (tr_by_id reg)\<close>
        by (simp add: intern_with_id_unlocked_def interned_def tag_entry_def)
    next
      case free
      obtain got reg1 where g: "ensure_by_id_capacity mem reg i = Some (got, reg1)" "tr_next_id reg1 = tr_next_id reg"
          "interned mem reg i k v TAGFS_INVALID_TAG_ID reg1" "(\<forall>c. im_by_id mem c) \<longrightarrow> got" "got \<longrightarrow> tr_by_id reg1 ! i = None"
          "got \<longrightarrow> (\<exists>reg2. group_tag mem (store_tag reg1 i k v) k i = Some reg2 \<and> interned mem reg i k v i (added_tag reg2 i) \<and>
            tr_next_id reg2 = tr_next_id reg \<and> tr_total_tags reg2 < 2 ^ 16)"
        using intern_new [OF assms new(2) free, of mem] by blast
      show ?thesis
      proof (cases "got \<and> entry_mem mem v")
        case False
        then have "intern_with_id_unlocked mem reg i k v = Some (TAGFS_INVALID_TAG_ID, reg1)"
          using new(1) free g(1,5) by (auto simp: intern_with_id_unlocked_def)
        then show ?thesis using g(3,4) False by (auto simp: intern_mem_def)
      next
        case ok: True
        then obtain reg2 where r: "group_tag mem (store_tag reg1 i k v) k i = Some reg2" "interned mem reg i k v i (added_tag reg2 i)"
            "tr_next_id reg2 = tr_next_id reg" "tr_total_tags reg2 < 2 ^ 16"
          using g(6) by blast
        have "i + 1 < 2 ^ 16" using free by (simp add: TAGFS_MAX_TAG_ID_def)
        then have "intern_with_id_unlocked mem reg i k v = Some (i, added_tag reg2 i)"
          using new(1) free g(1,5) ok r by (simp add: intern_with_id_unlocked_def added_tag_def max_def)
        then show ?thesis using r(2) free invalid_big by auto
      qed
    qed
  qed
qed


subsection \<open>Flags and the empty registry\<close>

lemma set_flags_ok:
  assumes "reg_ok reg"
  shows "reg_ok (set_flags f reg i)" "tag_name (set_flags f reg i) = tag_name reg"
    "groups_complete (set_flags f reg i) = groups_complete reg" "tr_next_id (set_flags f reg i) = tr_next_id reg"
    "tag_entry (set_flags f reg i) = (tag_entry reg)(i := map_option (\<lambda>e. e\<lparr>te_flags := f (te_flags e)\<rparr>) (tag_entry reg i))"
proof -
  let ?r = "set_flags f reg i"
  have fr: "tr_buckets ?r = tr_buckets reg" "tr_next_id ?r = tr_next_id reg" "tr_total_tags ?r = tr_total_tags reg"
      "tr_key_buckets ?r = tr_key_buckets reg" "length (tr_by_id ?r) = length (tr_by_id reg)"
    by (simp_all add: set_flags_def)
  show e: "tag_entry ?r = (tag_entry reg)(i := map_option (\<lambda>e. e\<lparr>te_flags := f (te_flags e)\<rparr>) (tag_entry reg i))"
    by (auto simp: tag_entry_def set_flags_def fun_eq_iff)
  show n: "tag_name ?r = tag_name reg" by (auto simp: name_entry e fun_eq_iff option.map_comp o_def)
  show "tr_next_id ?r = tr_next_id reg" by (rule fr)
  note c = groups_cong [OF n fr(4)]
  show "groups_complete ?r = groups_complete reg" by (rule c(3))
  have "\<forall>j<length (tr_by_id ?r). \<forall>e. tr_by_id ?r ! j = Some e \<longrightarrow> te_tag_id e = j"
  proof (intro allI impI)
    fix j e assume j: "j < length (tr_by_id ?r)" "tr_by_id ?r ! j = Some e"
    then obtain e0 where "tr_by_id reg ! j = Some e0" "te_tag_id e = te_tag_id e0"
      by (cases "j = i") (auto simp: set_flags_def)
    then show "te_tag_id e = j" using assms j(1) fr(5) by (simp add: reg_ok_def names_ok_def)
  qed
  then have "names_ok ?r" using assms unfolding reg_ok_def names_ok_def n fr by blast
  then show "reg_ok ?r" using assms c(1) by (simp add: reg_ok_def)
qed

lemma init_registry:
  assumes "tag_registry_init a b c d = Some reg"
  shows "reg_ok reg" "tag_entry reg = Map.empty" "groups_complete reg" "tr_next_id reg = 0"
proof -
  have r: "reg = \<lparr>tr_buckets = replicate TAGFS_REG_BUCKETS [], tr_by_id = replicate 64 None, tr_total_tags = 0, tr_next_id = 0,
      tr_key_buckets = replicate TAGFS_KEY_BUCKETS [], tr_dirty = d\<rparr>"
    using assms by (simp add: tag_registry_init_def split: if_splits)
  show e: "tag_entry reg = Map.empty" "tr_next_id reg = 0" by (auto simp: r tag_entry_def)
  then have n: "tag_name reg = Map.empty" by (simp add: name_entry fun_eq_iff)
  have "names_ok reg" unfolding names_ok_def n by (simp add: r table_empty)
  moreover have "groups_ok reg" by (simp add: r groups_ok_def)
  ultimately show "reg_ok reg" by (simp add: reg_ok_def)
  have "group_tags reg k = []" for k by (simp add: group_tags_def tag_registry_key_group_def r)
  then show "groups_complete reg" by (simp add: groups_complete_def n)
qed


subsection \<open>The registry as a map from tags to numbers\<close>

lemma lookup_name:
  assumes "names_ok reg"
  shows "i \<noteq> TAGFS_INVALID_TAG_ID \<Longrightarrow> lookup_unlocked reg k v = Some i \<longleftrightarrow> tag_name reg i = Some (k, v)"
    "lookup_unlocked reg k v = Some TAGFS_INVALID_TAG_ID \<longleftrightarrow> (\<forall>i. tag_name reg i \<noteq> Some (k, v))"
    "\<exists>i. lookup_unlocked reg k v = Some i"
proof -
  have inj: "i = j" if "tag_name reg i = Some x" "tag_name reg j = Some x" for i j x
    using that assms by (auto simp: names_ok_def inj_on_def domIff)
  consider (known) i where "i \<le> TAGFS_MAX_TAG_ID" "lookup_unlocked reg k v = Some i" "tag_name reg i = Some (k, v)"
    | (new) "lookup_unlocked reg k v = Some TAGFS_INVALID_TAG_ID" "\<forall>j. tag_name reg j \<noteq> Some (k, v)"
    using lookup_ok [OF assms, of k v] by blast
  then have "(i \<noteq> TAGFS_INVALID_TAG_ID \<longrightarrow> (lookup_unlocked reg k v = Some i \<longleftrightarrow> tag_name reg i = Some (k, v))) \<and>
      (lookup_unlocked reg k v = Some TAGFS_INVALID_TAG_ID \<longleftrightarrow> (\<forall>i. tag_name reg i \<noteq> Some (k, v))) \<and> (\<exists>i. lookup_unlocked reg k v = Some i)"
  proof cases
    case (known j)
    have "j = i \<longleftrightarrow> tag_name reg i = Some (k, v)" for i using inj [OF known(3)] known(3) by blast
    moreover have "j \<noteq> TAGFS_INVALID_TAG_ID" using known(1) invalid_big by simp
    ultimately show ?thesis using known(2,3) by (simp del: not_None_eq) blast
  next
    case new
    then show ?thesis by auto
  qed
  then show "i \<noteq> TAGFS_INVALID_TAG_ID \<Longrightarrow> lookup_unlocked reg k v = Some i \<longleftrightarrow> tag_name reg i = Some (k, v)"
    "lookup_unlocked reg k v = Some TAGFS_INVALID_TAG_ID \<longleftrightarrow> (\<forall>i. tag_name reg i \<noteq> Some (k, v))"
    "\<exists>i. lookup_unlocked reg k v = Some i" by blast+
qed

lemma entry_of_tag:
  assumes "names_ok reg"
  shows "entry_of reg i = tag_entry reg i"
proof (cases "i < tr_next_id reg")
  case True
  then show ?thesis using assms by (auto simp: entry_of_def tag_entry_def names_ok_def)
next
  case False
  then have "tag_name reg i = None" using assms by (auto simp: names_ok_def domIff)
  then show ?thesis using False by (simp add: entry_of_def name_entry)
qed

end
