(* ===== verification/Braid.thy ===== *)
theory Braid
  imports BoxHash
begin

text \<open>
  Braid, the redundancy layer of TagFS (kernel/tagfs/braid/braid.c): a block is written to two disks
  (mirror), one (stripe) or three (weave), read back from the first disk that answers, verified by
  comparing content hashes, and healed by copying the contents most disks agree on over the others. The
  disks are a function from disk and first sector to the bytes of the block there (the callers' blocks begin
  a multiple of eight sectors apart, so blocks do not overlap); which raw reads and writes
  succeed is a parameter, and so is what a failing write leaves of the block, which may be anything.
  \<open>None\<close> as the result of an operation is an
  access outside an array of \<^verbatim>\<open>BRAID_MAX_DISKS\<close> entries or a division by zero. Each operation is modelled
  without interference by other cores.
\<close>

section \<open>State\<close>

definition BRAID_MAGIC :: u32 where "BRAID_MAGIC = 0x42524149"
definition BRAID_VERSION :: u32 where "BRAID_VERSION = 1"
definition BRAID_MAX_DISKS :: nat where "BRAID_MAX_DISKS = 8"

datatype BraidMode = BraidModeMirror | BraidModeStripe | BraidModeWeave

record BraidDisk =
  bd_disk_id :: nat
  bd_online :: bool
  bd_total_blocks :: u64
  bd_used_blocks :: u64
  bd_read_count :: u64
  bd_write_count :: u64
  bd_error_count :: u64
  bd_last_seen :: u64

record BraidStats =
  bs_total_reads :: u64
  bs_total_writes :: u64
  bs_checksum_errors :: u64
  bs_auto_heals :: u64
  bs_disk_failures :: u64
  bs_tag_assignments :: u64

text \<open>\<^verbatim>\<open>g_braid_state\<close>, \<^verbatim>\<open>g_braid_stats\<close> and the disks. The counts are \<^verbatim>\<open>uint8_t\<close>.\<close>

record BraidState =
  br_magic :: u32
  br_version :: u32
  br_mode :: BraidMode
  br_disk_count :: nat
  br_active_disks :: nat
  br_disks :: "BraidDisk list"
  br_hash_ctx :: BoxHashContext
  br_initialized :: bool
  br_stats :: BraidStats
  br_media :: "nat \<Rightarrow> nat \<Rightarrow> bytes"

record BraidIo =
  bi_read :: "nat \<Rightarrow> nat \<Rightarrow> bool"
  bi_write :: "nat \<Rightarrow> nat \<Rightarrow> bool"
  bi_left :: "nat \<Rightarrow> nat \<Rightarrow> bytes"

definition u8_wrap :: "nat \<Rightarrow> nat" where "u8_wrap n = n mod 256"

definition no_disk :: BraidDisk where
  "no_disk = \<lparr>bd_disk_id = 0, bd_online = False, bd_total_blocks = 0, bd_used_blocks = 0, bd_read_count = 0,
     bd_write_count = 0, bd_error_count = 0, bd_last_seen = 0\<rparr>"

definition no_braid_stats :: BraidStats where
  "no_braid_stats = \<lparr>bs_total_reads = 0, bs_total_writes = 0, bs_checksum_errors = 0, bs_auto_heals = 0,
     bs_disk_failures = 0, bs_tag_assignments = 0\<rparr>"

definition set_disk :: "nat \<Rightarrow> (BraidDisk \<Rightarrow> BraidDisk) \<Rightarrow> BraidState \<Rightarrow> BraidState" where
  "set_disk i f st = st\<lparr>br_disks := (br_disks st)[i := f (br_disks st ! i)]\<rparr>"

definition upd_stats :: "(BraidStats \<Rightarrow> BraidStats) \<Rightarrow> BraidState \<Rightarrow> BraidState" where
  "upd_stats f st = st\<lparr>br_stats := f (br_stats st)\<rparr>"

text \<open>The counters of a raw read or write that succeeded, and of one that failed.\<close>

definition read_ok :: "nat \<Rightarrow> BraidState \<Rightarrow> BraidState" where
  "read_ok i st = upd_stats (\<lambda>s. s\<lparr>bs_total_reads := bs_total_reads s + 1\<rparr>)
     (set_disk i (\<lambda>d. d\<lparr>bd_read_count := bd_read_count d + 1\<rparr>) st)"

definition write_ok :: "nat \<Rightarrow> BraidState \<Rightarrow> BraidState" where
  "write_ok i st = upd_stats (\<lambda>s. s\<lparr>bs_total_writes := bs_total_writes s + 1\<rparr>)
     (set_disk i (\<lambda>d. d\<lparr>bd_write_count := bd_write_count d + 1, bd_used_blocks := bd_used_blocks d + 1\<rparr>) st)"

definition disk_error :: "nat \<Rightarrow> BraidState \<Rightarrow> BraidState" where
  "disk_error i st = set_disk i (\<lambda>d. d\<lparr>bd_error_count := bd_error_count d + 1\<rparr>) st"

section \<open>Raw access and configuration\<close>

definition BraidComputeTagDisk :: "BraidState \<Rightarrow> bytes option \<Rightarrow> nat \<Rightarrow> nat" where
  "BraidComputeTagDisk st tag_context disk_count =
     (case tag_context of
        None \<Rightarrow> 0
      | Some ctx \<Rightarrow>
          if disk_count = 0 then 0
          else unat (the (BoxHashContent (Some (take 16 ctx)) (Some (br_hash_ctx st))) ! 0) mod disk_count)"

definition BraidRawRead :: "BraidIo \<Rightarrow> BraidState \<Rightarrow> nat \<Rightarrow> nat \<Rightarrow> bytes option" where
  "BraidRawRead io st disk_id sector = (if bi_read io disk_id sector then Some (br_media st disk_id sector) else None)"

definition BraidRawWrite :: "BraidIo \<Rightarrow> BraidState \<Rightarrow> nat \<Rightarrow> nat \<Rightarrow> bytes \<Rightarrow> bool \<times> BraidState" where
  "BraidRawWrite io st disk_id sector data =
     (let ok = bi_write io disk_id sector; contents = (if ok then data else bi_left io disk_id sector)
      in (ok, st\<lparr>br_media := (br_media st)(disk_id := (br_media st disk_id)(sector := contents))\<rparr>))"

definition BraidReadFromDisk :: "BraidIo \<Rightarrow> nat \<Rightarrow> nat \<Rightarrow> BraidState \<Rightarrow> (error_t + bytes) \<times> BraidState" where
  "BraidReadFromDisk io disk_id block_num st =
     (if \<not> br_initialized st then (Inl ERR_NOT_INITIALIZED, st)
      else if disk_id \<ge> BRAID_MAX_DISKS \<or> \<not> bd_online (br_disks st ! disk_id) then (Inl ERR_DEVICE_NOT_READY, st)
      else case BraidRawRead io st disk_id block_num of
        Some data \<Rightarrow> (Inr data, read_ok disk_id st)
      | None \<Rightarrow> (Inl ERR_IO, disk_error disk_id st))"

definition BraidWriteToDisk :: "BraidIo \<Rightarrow> nat \<Rightarrow> nat \<Rightarrow> bytes \<Rightarrow> BraidState \<Rightarrow> error_t \<times> BraidState" where
  "BraidWriteToDisk io disk_id block_num data st =
     (if \<not> br_initialized st then (ERR_NOT_INITIALIZED, st)
      else if disk_id \<ge> BRAID_MAX_DISKS \<or> \<not> bd_online (br_disks st ! disk_id) then (ERR_DEVICE_NOT_READY, st)
      else case BraidRawWrite io st disk_id block_num data of
        (True, st') \<Rightarrow> (OK, write_ok disk_id st')
      | (False, st') \<Rightarrow> (ERR_IO, disk_error disk_id st'))"

definition BraidVerifyChecksum :: "BraidState \<Rightarrow> bytes \<Rightarrow> bytes option \<Rightarrow> bool" where
  "BraidVerifyChecksum st data expected =
     (case expected of None \<Rightarrow> False
      | Some e \<Rightarrow> BoxHashEqual (BoxHashContent (Some data) (Some (br_hash_ctx st))) (Some e))"

text \<open>\<open>uuid\<close> is the volume's.\<close>

definition BraidInit :: "bytes \<Rightarrow> BraidMode \<Rightarrow> BraidState \<Rightarrow> error_t \<times> BraidState" where
  "BraidInit uuid mode st =
     (if br_initialized st then (ERR_ALREADY_INITIALIZED, st)
      else (OK, st\<lparr>br_magic := BRAID_MAGIC, br_version := BRAID_VERSION, br_mode := mode, br_disk_count := 0,
                   br_active_disks := 0, br_disks := replicate BRAID_MAX_DISKS no_disk,
                   br_hash_ctx := the (BoxHashInit (Some (take 16 uuid))), br_initialized := True, br_stats := no_braid_stats\<rparr>))"

definition BraidShutdown :: "BraidState \<Rightarrow> BraidState" where
  "BraidShutdown st = (if \<not> br_initialized st then st else st\<lparr>br_initialized := False\<rparr>)"

definition BraidAddDisk :: "u64 \<Rightarrow> nat \<Rightarrow> u64 \<Rightarrow> BraidState \<Rightarrow> error_t \<times> BraidState" where
  "BraidAddDisk now disk_id total_blocks st =
     (if \<not> br_initialized st then (ERR_NOT_INITIALIZED, st)
      else if disk_id \<ge> BRAID_MAX_DISKS then (ERR_OUT_OF_RANGE, st)
      else (OK, (set_disk disk_id (\<lambda>_. \<lparr>bd_disk_id = disk_id, bd_online = True, bd_total_blocks = total_blocks,
                    bd_used_blocks = 0, bd_read_count = 0, bd_write_count = 0, bd_error_count = 0, bd_last_seen = now\<rparr>) st)
                 \<lparr>br_disk_count := u8_wrap (br_disk_count st + 1), br_active_disks := u8_wrap (br_active_disks st + 1)\<rparr>))"

definition BraidRemoveDisk :: "nat \<Rightarrow> BraidState \<Rightarrow> error_t \<times> BraidState" where
  "BraidRemoveDisk disk_id st =
     (if \<not> br_initialized st then (ERR_NOT_INITIALIZED, st)
      else if disk_id \<ge> BRAID_MAX_DISKS then (ERR_OUT_OF_RANGE, st)
      else if \<not> bd_online (br_disks st ! disk_id) then (ERR_DEVICE_NOT_READY, st)
      else (OK, (upd_stats (\<lambda>s. s\<lparr>bs_disk_failures := bs_disk_failures s + 1\<rparr>)
                  (set_disk disk_id (\<lambda>d. d\<lparr>bd_online := False\<rparr>) st))
                 \<lparr>br_active_disks := u8_wrap (br_active_disks st + 255)\<rparr>))"

definition BraidSetDiskOnline :: "u64 \<Rightarrow> nat \<Rightarrow> bool \<Rightarrow> BraidState \<Rightarrow> error_t \<times> BraidState" where
  "BraidSetDiskOnline now disk_id online st =
     (if \<not> br_initialized st then (ERR_NOT_INITIALIZED, st)
      else if disk_id \<ge> BRAID_MAX_DISKS then (ERR_OUT_OF_RANGE, st)
      else (OK, (set_disk disk_id (\<lambda>d. d\<lparr>bd_online := online, bd_last_seen := now\<rparr>) st)
                 \<lparr>br_active_disks := u8_wrap (br_active_disks st + (if online then 1 else 255))\<rparr>))"

section \<open>Reading and writing a block\<close>

text \<open>The snapshot \<^verbatim>\<open>online[BRAID_MAX_DISKS]\<close> the operations take under the lock.\<close>

definition online_now :: "BraidState \<Rightarrow> bool list" where
  "online_now st = map (\<lambda>i. i < br_disk_count st \<and> bd_online (br_disks st ! i)) [0..<BRAID_MAX_DISKS]"

text \<open>The loop of \<^verbatim>\<open>BraidReadBlock\<close> over the disks that are left, with \<^verbatim>\<open>disks_tried\<close> and \<^verbatim>\<open>result\<close>.\<close>

fun read_loop :: "BraidIo \<Rightarrow> nat \<Rightarrow> bytes option \<Rightarrow> bool list \<Rightarrow> nat list \<Rightarrow> nat \<Rightarrow> error_t \<Rightarrow> BraidState \<Rightarrow>
    ((error_t + bytes) \<times> BraidState) option" where
  "read_loop io block expected online [] tried result st = Some (Inl result, st)"
| "read_loop io block expected online (i # rest) tried result st =
     (if tried \<ge> 2 then Some (Inl result, st)
      else if i \<ge> length online then None
      else if \<not> online ! i then read_loop io block expected online rest tried result st
      else case BraidRawRead io st i block of
        None \<Rightarrow> read_loop io block expected online rest (tried + 1) ERR_IO (disk_error i st)
      | Some data \<Rightarrow>
          if expected \<noteq> None \<and> \<not> BraidVerifyChecksum st data expected
          then read_loop io block expected online rest (tried + 1) ERR_CORRUPTED
                 (disk_error i (upd_stats (\<lambda>s. s\<lparr>bs_checksum_errors := bs_checksum_errors s + 1\<rparr>) st))
          else Some (Inr data, read_ok i st))"

definition BraidReadBlock :: "BraidIo \<Rightarrow> nat \<Rightarrow> bytes option \<Rightarrow> BraidState \<Rightarrow> ((error_t + bytes) \<times> BraidState) option" where
  "BraidReadBlock io block expected st =
     (if \<not> br_initialized st then Some (Inl ERR_NOT_INITIALIZED, st)
      else read_loop io block expected (online_now st) [0..<br_disk_count st] 0 ERR_IO st)"

text \<open>The loops that write to disks until \<open>required\<close> have taken the block, leaving out the disk \<open>skip\<close>.\<close>

fun write_loop :: "BraidIo \<Rightarrow> nat \<Rightarrow> bytes \<Rightarrow> nat \<Rightarrow> nat option \<Rightarrow> bool list \<Rightarrow> nat list \<Rightarrow> nat \<Rightarrow> BraidState \<Rightarrow>
    (nat \<times> BraidState) option" where
  "write_loop io block data required skip online [] done st = Some (done, st)"
| "write_loop io block data required skip online (i # rest) done st =
     (if done \<ge> required then Some (done, st)
      else if Some i = skip then write_loop io block data required skip online rest done st
      else if i \<ge> length online then None
      else if \<not> online ! i then write_loop io block data required skip online rest done st
      else case BraidRawWrite io st i block data of
        (True, st') \<Rightarrow> write_loop io block data required skip online rest (done + 1) (write_ok i st')
      | (False, st') \<Rightarrow> write_loop io block data required skip online rest done (disk_error i st'))"

definition stripe_write :: "BraidIo \<Rightarrow> nat \<Rightarrow> bytes \<Rightarrow> BraidState \<Rightarrow> (nat \<times> BraidState) option" where
  "stripe_write io block data st =
     (if br_disk_count st = 0 then None
      else
        let target = block mod br_disk_count st; online = online_now st
        in if target \<ge> length online then None
           else if \<not> online ! target then Some (0, st)
           else case BraidRawWrite io st target block data of
             (True, st') \<Rightarrow> Some (1, write_ok target st')
           | (False, st') \<Rightarrow> Some (0, disk_error target st'))"

definition BraidWriteBlock :: "BraidIo \<Rightarrow> nat \<Rightarrow> bytes \<Rightarrow> BraidState \<Rightarrow> (error_t \<times> BraidState) option" where
  "BraidWriteBlock io block data st =
     (if \<not> br_initialized st then Some (ERR_NOT_INITIALIZED, st)
      else map_option (\<lambda>(writes_done, st'). (if writes_done = 0 then ERR_IO else OK, st'))
        (case br_mode st of
           BraidModeMirror \<Rightarrow> write_loop io block data 2 None (online_now st) [0..<br_disk_count st] 0 st
         | BraidModeStripe \<Rightarrow> stripe_write io block data st
         | BraidModeWeave \<Rightarrow> write_loop io block data 3 None (online_now st) [0..<br_disk_count st] 0 st))"

section \<open>Verification\<close>

definition content_hash :: "BraidState \<Rightarrow> bytes \<Rightarrow> bytes option" where
  "content_hash st data = BoxHashContent (Some data) (Some (br_hash_ctx st))"

text \<open>The loop of \<^verbatim>\<open>BraidVerifyBlock\<close>: the hash of the first disk that reads and how many agree with it.\<close>

fun verify_loop :: "BraidIo \<Rightarrow> nat \<Rightarrow> nat list \<Rightarrow> bytes option \<Rightarrow> nat \<Rightarrow> BraidState \<Rightarrow> (nat \<times> BraidState) option" where
  "verify_loop io block [] ref agreements st = Some (agreements, st)"
| "verify_loop io block (i # rest) ref agreements st =
     (if i \<ge> length (br_disks st) then None
      else if \<not> bd_online (br_disks st ! i) then verify_loop io block rest ref agreements st
      else case BraidReadFromDisk io i block st of
        (Inl err, st') \<Rightarrow> verify_loop io block rest ref agreements st'
      | (Inr data, st') \<Rightarrow>
          let h = content_hash st' data
          in if ref = None then verify_loop io block rest h 1 st'
             else if BoxHashEqual h ref then verify_loop io block rest ref (agreements + 1) st'
             else verify_loop io block rest ref agreements st')"

text \<open>The result and \<^verbatim>\<open>*is_valid\<close>.\<close>

definition BraidVerifyBlock :: "BraidIo \<Rightarrow> nat \<Rightarrow> BraidState \<Rightarrow> (error_t \<times> bool \<times> BraidState) option" where
  "BraidVerifyBlock io block st =
     (if \<not> br_initialized st then Some (ERR_NOT_INITIALIZED, False, st)
      else if br_active_disks st < 2
      then map_option (\<lambda>(res, st'). case res of Inr data \<Rightarrow> (OK, True, st') | Inl err \<Rightarrow> (err, False, st'))
             (BraidReadBlock io block None st)
      else map_option (\<lambda>(agreements, st').
               if agreements \<ge> 2 then (OK, True, st')
               else if agreements = 1
               then (OK, True, upd_stats (\<lambda>s. s\<lparr>bs_checksum_errors := bs_checksum_errors s + 1\<rparr>) st')
               else (ERR_IO, False, st'))
             (verify_loop io block [0..<br_disk_count st] None 0 st))"

section \<open>Placement by tag\<close>

fun tagged_read_loop :: "BraidIo \<Rightarrow> nat \<Rightarrow> nat \<Rightarrow> bool list \<Rightarrow> nat list \<Rightarrow> BraidState \<Rightarrow> ((error_t + bytes) \<times> BraidState) option" where
  "tagged_read_loop io block preferred online [] st = Some (Inl ERR_IO, st)"
| "tagged_read_loop io block preferred online (i # rest) st =
     (if i = preferred then tagged_read_loop io block preferred online rest st
      else if i \<ge> length online then None
      else if \<not> online ! i then tagged_read_loop io block preferred online rest st
      else case BraidRawRead io st i block of
        Some data \<Rightarrow> Some (Inr data, read_ok i st)
      | None \<Rightarrow> tagged_read_loop io block preferred online rest (disk_error i st))"

definition BraidReadBlockTagged :: "BraidIo \<Rightarrow> nat \<Rightarrow> bytes option \<Rightarrow> BraidState \<Rightarrow> ((error_t + bytes) \<times> BraidState) option" where
  "BraidReadBlockTagged io block tag_context st =
     (if \<not> br_initialized st then Some (Inl ERR_NOT_INITIALIZED, st)
      else
        let preferred = BraidComputeTagDisk st tag_context (br_disk_count st);
            online = online_now st;
            rest = tagged_read_loop io block preferred online [0..<br_disk_count st]
        in if preferred \<ge> length online then None
           else if online ! preferred
           then case BraidRawRead io st preferred block of
                  Some data \<Rightarrow> Some (Inr data,
                    upd_stats (\<lambda>s. s\<lparr>bs_tag_assignments := bs_tag_assignments s + 1\<rparr>) (read_ok preferred st))
                | None \<Rightarrow> rest (disk_error preferred st)
           else rest st)"

definition BraidWriteBlockTagged :: "BraidIo \<Rightarrow> nat \<Rightarrow> bytes \<Rightarrow> bytes \<Rightarrow> BraidState \<Rightarrow> (error_t \<times> BraidState) option" where
  "BraidWriteBlockTagged io block data tag_context st =
     (if \<not> br_initialized st then Some (ERR_INVALID_ARGUMENT, st)
      else
        let disk_count = br_disk_count st;
            primary = BraidComputeTagDisk st (Some tag_context) disk_count;
            online = online_now st
        in if primary \<ge> length online then None
           else
             let (result, st1) =
                   (if online ! primary
                    then case BraidRawWrite io st primary block data of
                           (True, st') \<Rightarrow> (OK, upd_stats (\<lambda>s. s\<lparr>bs_tag_assignments := bs_tag_assignments s + 1\<rparr>) (write_ok primary st'))
                         | (False, st') \<Rightarrow> (ERR_IO, disk_error primary st')
                    else (ERR_IO, st))
             in if br_mode st = BraidModeMirror \<or> br_mode st = BraidModeWeave
                then map_option (\<lambda>(writes_done, st'). (if writes_done = 0 then ERR_IO else OK, st'))
                       (write_loop io block data (if br_mode st = BraidModeMirror then 2 else 3) (Some primary) online
                          [0..<disk_count] (if result = OK then 1 else 0) st1)
                else Some (result, st1))"

section \<open>Healing\<close>

text \<open>The first loop of \<^verbatim>\<open>BraidAutoHeal\<close>: the copies of the disks that read, \<open>None\<close> where \<^verbatim>\<open>readable[i]\<close> is false.\<close>

fun heal_read :: "BraidIo \<Rightarrow> nat \<Rightarrow> nat list \<Rightarrow> BraidState \<Rightarrow> (bytes option list \<times> BraidState) option" where
  "heal_read io block [] st = Some ([], st)"
| "heal_read io block (i # rest) st =
     (if i \<ge> length (br_disks st) then None
      else if \<not> bd_online (br_disks st ! i)
      then map_option (\<lambda>(copies, st'). (None # copies, st')) (heal_read io block rest st)
      else case BraidReadFromDisk io i block st of
        (res, st1) \<Rightarrow>
          map_option (\<lambda>(copies, st'). ((case res of Inr data \<Rightarrow> Some data | Inl err \<Rightarrow> None) # copies, st'))
            (heal_read io block rest st1))"

definition agreeing :: "BraidState \<Rightarrow> bytes option list \<Rightarrow> bytes \<Rightarrow> nat" where
  "agreeing st copies data = length (filter (\<lambda>c. case c of None \<Rightarrow> False
     | Some d \<Rightarrow> BoxHashEqual (content_hash st data) (content_hash st d)) copies)"

text \<open>The second loop: the disk whose copy most disks agree with, the first one among equals.\<close>

definition best_copy :: "BraidState \<Rightarrow> bytes option list \<Rightarrow> (nat \<times> bytes) option" where
  "best_copy st copies =
     map_option fst (foldl (\<lambda>best i.
        case copies ! i of
          None \<Rightarrow> best
        | Some data \<Rightarrow>
            let n = agreeing st copies data
            in if n > (case best of None \<Rightarrow> 0 | Some (b, m) \<Rightarrow> m) then Some ((i, data), n) else best)
       None [0..<length copies])"

text \<open>The third loop: the best copy over every online disk that did not read or does not agree.\<close>

definition heal_disk :: "BraidIo \<Rightarrow> nat \<Rightarrow> nat \<Rightarrow> bytes \<Rightarrow> bytes option list \<Rightarrow> BraidState \<times> nat \<Rightarrow> nat \<Rightarrow> BraidState \<times> nat" where
  "heal_disk io block best data copies = (\<lambda>(st, healed) i.
     if i = best \<or> \<not> bd_online (br_disks st ! i) then (st, healed)
     else
       let differs = (case copies ! i of None \<Rightarrow> True
                      | Some d \<Rightarrow> \<not> BoxHashEqual (content_hash st d) (content_hash st data))
       in if differs
          then case BraidWriteToDisk io i block data st of
                 (err, st') \<Rightarrow> (st', if err = OK then healed + 1 else healed)
          else (st, healed))"

definition BraidAutoHeal :: "BraidIo \<Rightarrow> nat \<Rightarrow> BraidState \<Rightarrow> (error_t \<times> BraidState) option" where
  "BraidAutoHeal io block st =
     (if \<not> br_initialized st then Some (ERR_NOT_INITIALIZED, st)
      else case heal_read io block [0..<br_disk_count st] st of
        None \<Rightarrow> None
      | Some (copies, st1) \<Rightarrow>
          (case best_copy st1 copies of
             None \<Rightarrow> Some (ERR_IO, st1)
           | Some (best, data) \<Rightarrow>
               (case foldl (heal_disk io block best data copies) (st1, 0) [0..<br_disk_count st] of
                  (st2, healed) \<Rightarrow>
                    Some (OK, if healed > 0 then upd_stats (\<lambda>s. s\<lparr>bs_auto_heals := bs_auto_heals s + 1\<rparr>) st2 else st2))))"

section \<open>Health and statistics\<close>

definition BraidGetStats :: "BraidState \<Rightarrow> error_t \<times> BraidStats" where
  "BraidGetStats st = (if \<not> br_initialized st then (ERR_NOT_INITIALIZED, no_braid_stats) else (OK, br_stats st))"

definition BraidIsHealthy :: "BraidState \<Rightarrow> bool" where
  "BraidIsHealthy st \<longleftrightarrow> br_initialized st \<and>
     (case br_mode st of
        BraidModeMirror \<Rightarrow> br_active_disks st \<ge> 2
      | BraidModeStripe \<Rightarrow> br_active_disks st \<ge> 1
      | BraidModeWeave \<Rightarrow> br_active_disks st \<ge> 3)"

definition BraidGetActiveDiskCount :: "BraidState \<Rightarrow> nat" where
  "BraidGetActiveDiskCount st = (if \<not> br_initialized st then 0 else br_active_disks st)"

section \<open>What the counters leave alone\<close>

text \<open>Same configuration: only counters and the contents of the disks may differ.\<close>

definition same_config :: "BraidState \<Rightarrow> BraidState \<Rightarrow> bool" where
  "same_config st st' \<longleftrightarrow>
     br_mode st' = br_mode st \<and> br_disk_count st' = br_disk_count st \<and> br_active_disks st' = br_active_disks st \<and>
     br_hash_ctx st' = br_hash_ctx st \<and> br_initialized st' = br_initialized st \<and>
     length (br_disks st') = length (br_disks st) \<and> map bd_online (br_disks st') = map bd_online (br_disks st)"

lemma same_config_refl [simp]: "same_config st st"
  by (simp add: same_config_def)

lemma same_config_trans: "same_config st st' \<Longrightarrow> same_config st' st'' \<Longrightarrow> same_config st st''"
  by (simp add: same_config_def)

lemma map_update_same: "f y = f (xs ! i) \<Longrightarrow> map f (xs[i := y]) = map f xs"
  by (cases "i < length xs") (simp_all add: list_eq_iff_nth_eq nth_list_update)

lemma counters_config [simp]:
  "same_config st (read_ok i st)" "same_config st (write_ok i st)" "same_config st (disk_error i st)" "same_config st (upd_stats f st)"
  by (simp_all add: same_config_def read_ok_def write_ok_def disk_error_def upd_stats_def set_disk_def map_update_same)

lemma counters_media [simp]:
  "br_media (read_ok i st) = br_media st" "br_media (write_ok i st) = br_media st"
  "br_media (disk_error i st) = br_media st" "br_media (upd_stats f st) = br_media st"
  by (simp_all add: read_ok_def write_ok_def disk_error_def upd_stats_def set_disk_def)

lemma same_config_media [simp]: "same_config st (st\<lparr>br_media := m\<rparr>)"
  by (simp add: same_config_def)

lemma same_config_online: "same_config st st' \<Longrightarrow> i < length (br_disks st) \<Longrightarrow> bd_online (br_disks st' ! i) = bd_online (br_disks st ! i)"
  unfolding same_config_def by (metis nth_map)

lemma same_config_healthy: "same_config st st' \<Longrightarrow> BraidIsHealthy st' = BraidIsHealthy st"
  by (cases "br_mode st") (simp_all add: BraidIsHealthy_def same_config_def)

definition braid_ok :: "BraidState \<Rightarrow> bool" where
  "braid_ok st \<longleftrightarrow> br_initialized st \<and> length (br_disks st) = BRAID_MAX_DISKS \<and> br_disk_count st \<le> BRAID_MAX_DISKS"

lemma braid_ok_config: "same_config st st' \<Longrightarrow> braid_ok st' = braid_ok st"
  by (simp add: same_config_def braid_ok_def)

text \<open>The disks that take part, in the order the loops try them.\<close>

definition online_disks :: "BraidState \<Rightarrow> nat list" where
  "online_disks st = filter (\<lambda>i. bd_online (br_disks st ! i)) [0..<br_disk_count st]"

lemma online_now_length [simp]: "length (online_now st) = BRAID_MAX_DISKS"
  by (simp add: online_now_def)

lemma online_now_nth: "i < br_disk_count st \<Longrightarrow> br_disk_count st \<le> BRAID_MAX_DISKS \<Longrightarrow> online_now st ! i = bd_online (br_disks st ! i)"
  by (simp add: online_now_def)

lemma online_disks_config:
  assumes "same_config st st'" "braid_ok st"
  shows "online_disks st' = online_disks st"
proof -
  have "br_disk_count st' = br_disk_count st" "br_disk_count st \<le> length (br_disks st)"
    using assms by (auto simp: same_config_def braid_ok_def)
  then show ?thesis unfolding online_disks_def using same_config_online [OF assms(1)]
    by (intro filter_cong) auto
qed

section \<open>The loops\<close>

lemma read_loop_spec:
  assumes "\<forall>i\<in>set is. i < length online"
  shows "\<exists>st' err. read_loop io block None online is tried result st =
      Some (case find (\<lambda>i. bi_read io i block) (take (2 - tried) (filter (\<lambda>i. online ! i) is)) of
              Some i \<Rightarrow> Inr (br_media st i block) | None \<Rightarrow> Inl err, st') \<and>
    same_config st st' \<and> br_media st' = br_media st"
  using assms
proof (induction "is" arbitrary: tried result st)
  case (Cons i rest)
  have p: "\<forall>i\<in>set rest. i < length online" using Cons.prems by simp
  show ?case
  proof (cases "tried \<ge> 2 \<or> \<not> online ! i")
    case True
    then show ?thesis using Cons by (cases "tried \<ge> 2") auto
  next
    case False
    then have t: "2 - tried = Suc (1 - tried)" "2 - (tried + 1) = 1 - tried" by auto
    show ?thesis
    proof (cases "bi_read io i block")
      case True
      then show ?thesis using False Cons.prems t by (auto simp: BraidRawRead_def)
    next
      case nr: False
      have "read_loop io block None online (i # rest) tried result st =
          read_loop io block None online rest (tried + 1) ERR_IO (disk_error i st)"
        using False nr Cons.prems by (simp add: BraidRawRead_def)
      moreover obtain st' err where "read_loop io block None online rest (tried + 1) ERR_IO (disk_error i st) =
          Some (case find (\<lambda>i. bi_read io i block) (take (2 - (tried + 1)) (filter (\<lambda>i. online ! i) rest)) of
              Some i \<Rightarrow> Inr (br_media st i block) | None \<Rightarrow> Inl err, st')" "same_config (disk_error i st) st'" "br_media st' = br_media st"
        using Cons.IH [OF p, of "tried + 1" ERR_IO "disk_error i st", unfolded counters_media] by blast
      ultimately show ?thesis using False nr t same_config_trans [OF counters_config(3)] by auto
    qed
  qed
qed auto

definition wrote :: "(nat \<Rightarrow> nat \<Rightarrow> bytes) \<Rightarrow> nat list \<Rightarrow> nat \<Rightarrow> bytes \<Rightarrow> nat \<Rightarrow> nat \<Rightarrow> bytes" where
  "wrote m ds block data = (\<lambda>d s. if d \<in> set ds \<and> s = block then data else m d s)"

text \<open>The loops over disks that all take the write.\<close>

lemma write_loop_spec:
  assumes "\<forall>i\<in>set is. i < length online" "\<forall>i\<in>set is. Some i \<noteq> skip \<and> online ! i \<longrightarrow> bi_write io i block"
  shows "\<exists>st'. write_loop io block data required skip online is done st =
      Some (done + length (take (required - done) (filter (\<lambda>i. Some i \<noteq> skip \<and> online ! i) is)), st') \<and>
    same_config st st' \<and>
    br_media st' = wrote (br_media st) (take (required - done) (filter (\<lambda>i. Some i \<noteq> skip \<and> online ! i) is)) block data"
  using assms
proof (induction "is" arbitrary: "done" st)
  case Nil
  then show ?case by (simp add: wrote_def)
next
  case (Cons i rest)
  have p: "\<forall>i\<in>set rest. i < length online" "\<forall>i\<in>set rest. Some i \<noteq> skip \<and> online ! i \<longrightarrow> bi_write io i block" using Cons.prems by simp_all
  show ?case
  proof (cases "done \<ge> required \<or> Some i = skip \<or> \<not> online ! i")
    case True
    then show ?thesis using Cons by (cases "done \<ge> required") (auto simp: wrote_def)
  next
    case False
    then have w: "bi_write io i block" using Cons.prems(2) by simp
    let ?m = "(br_media st)(i := (br_media st i)(block := data))"
    let ?st1 = "write_ok i (st\<lparr>br_media := ?m\<rparr>)"
    have t: "required - done = Suc (required - (done + 1))" using False by auto
    have c: "same_config st ?st1" by (rule same_config_trans [OF same_config_media counters_config(2)])
    have e: "write_loop io block data required skip online (i # rest) done st =
        write_loop io block data required skip online rest (done + 1) ?st1"
      using False w Cons.prems by (simp add: BraidRawWrite_def Let_def)
    let ?ds = "take (required - (done + 1)) (filter (\<lambda>i. Some i \<noteq> skip \<and> online ! i) rest)"
    obtain st' where s: "write_loop io block data required skip online rest (done + 1) ?st1 = Some (done + 1 + length ?ds, st')"
      "same_config ?st1 st'" "br_media st' = wrote (br_media ?st1) ?ds block data"
      using Cons.IH [OF p, of "done + 1" ?st1] by blast
    have "br_media st' = wrote (br_media st) (i # ?ds) block data" unfolding s(3) by (auto simp: wrote_def fun_eq_iff)
    then show ?thesis using e s(1) same_config_trans [OF c s(2)] False t by auto
  qed
qed

lemma filter_online:
  assumes "braid_ok st"
  shows "filter (\<lambda>i. online_now st ! i) [0..<br_disk_count st] = online_disks st"
    "\<forall>i\<in>set [0..<br_disk_count st]. i < length (online_now st)"
  using assms unfolding online_disks_def
  by (auto simp: braid_ok_def online_now_nth intro!: filter_cong)

lemma read_block_spec:
  assumes "braid_ok st"
  shows "\<exists>st' err. BraidReadBlock io block None st =
      Some (case find (\<lambda>i. bi_read io i block) (take 2 (online_disks st)) of
              Some i \<Rightarrow> Inr (br_media st i block) | None \<Rightarrow> Inl err, st') \<and>
    same_config st st' \<and> br_media st' = br_media st"
  using read_loop_spec [OF filter_online(2) [OF assms], of io block 0 ERR_IO st] filter_online(1) [OF assms] assms
  by (simp add: BraidReadBlock_def braid_ok_def)

definition copies_of :: "BraidMode \<Rightarrow> nat" where
  "copies_of mode = (case mode of BraidModeMirror \<Rightarrow> 2 | BraidModeStripe \<Rightarrow> 1 | BraidModeWeave \<Rightarrow> 3)"

lemma write_block_spec:
  assumes ok: "braid_ok st" and mode: "br_mode st \<noteq> BraidModeStripe" and wr: "\<forall>i\<in>set (online_disks st). bi_write io i block"
  shows "\<exists>st'. BraidWriteBlock io block data st = Some (if online_disks st = [] then ERR_IO else OK, st') \<and> same_config st st' \<and>
    br_media st' = wrote (br_media st) (take (copies_of (br_mode st)) (online_disks st)) block data"
proof -
  let ?ds = "take (copies_of (br_mode st)) (online_disks st)"
  have "\<forall>i\<in>set [0..<br_disk_count st]. Some i \<noteq> None \<and> online_now st ! i \<longrightarrow> bi_write io i block"
    using wr filter_online(1) [OF ok, symmetric] by simp
  then obtain st' where s: "write_loop io block data (copies_of (br_mode st)) None (online_now st) [0..<br_disk_count st] 0 st =
      Some (length ?ds, st')" "same_config st st'" "br_media st' = wrote (br_media st) ?ds block data"
    using write_loop_spec [OF filter_online(2) [OF ok], of None io block data "copies_of (br_mode st)" 0 st]
      filter_online(1) [OF ok] by auto
  have "length ?ds = 0 \<longleftrightarrow> online_disks st = []"
    by (cases "online_disks st"; cases "br_mode st") (simp_all add: copies_of_def)
  then have "BraidWriteBlock io block data st = Some (if online_disks st = [] then ERR_IO else OK, st')"
    using s(1) mode ok by (cases "br_mode st") (auto simp: BraidWriteBlock_def braid_ok_def copies_of_def)
  then show ?thesis using s(2,3) by auto
qed

section \<open>Losing disks\<close>

lemma remove_disk_spec:
  assumes "braid_ok st"
  shows "braid_ok (snd (BraidRemoveDisk d st))" "br_media (snd (BraidRemoveDisk d st)) = br_media st"
    "online_disks (snd (BraidRemoveDisk d st)) = filter (\<lambda>i. i \<noteq> d) (online_disks st)"
proof -
  have a: "braid_ok (snd (BraidRemoveDisk d st)) \<and> br_media (snd (BraidRemoveDisk d st)) = br_media st"
    using assms by (simp add: BraidRemoveDisk_def braid_ok_def upd_stats_def set_disk_def)
  then show "braid_ok (snd (BraidRemoveDisk d st))" "br_media (snd (BraidRemoveDisk d st)) = br_media st" by simp_all
  have c: "br_disk_count (snd (BraidRemoveDisk d st)) = br_disk_count st"
    by (simp add: BraidRemoveDisk_def upd_stats_def set_disk_def)
  have "bd_online (br_disks (snd (BraidRemoveDisk d st)) ! i) \<longleftrightarrow> i \<noteq> d \<and> bd_online (br_disks st ! i)" if "i < br_disk_count st" for i
    using assms that by (auto simp: BraidRemoveDisk_def braid_ok_def upd_stats_def set_disk_def nth_list_update)
  then show "online_disks (snd (BraidRemoveDisk d st)) = filter (\<lambda>i. i \<noteq> d) (online_disks st)"
    unfolding online_disks_def c filter_filter by (intro filter_cong) auto
qed

definition remove_disks :: "nat list \<Rightarrow> BraidState \<Rightarrow> BraidState" where
  "remove_disks ds st = foldl (\<lambda>s d. snd (BraidRemoveDisk d s)) st ds"

lemma remove_disks_spec:
  "braid_ok st \<Longrightarrow> braid_ok (remove_disks ds st) \<and> br_media (remove_disks ds st) = br_media st \<and>
     online_disks (remove_disks ds st) = filter (\<lambda>i. i \<notin> set ds) (online_disks st)"
proof (induction ds arbitrary: st)
  case (Cons d ds)
  note r = remove_disk_spec [OF Cons.prems, of d]
  show ?case using Cons.IH [OF r(1)] r(2,3)
    by (auto simp: remove_disks_def filter_filter conj_commute intro!: filter_cong)
qed (simp add: remove_disks_def)

text \<open>As long as one of the first \<open>k\<close> is left, the first one left is one of them.\<close>

lemma survivor_first:
  assumes "\<exists>i\<in>set (take k ds). i \<notin> set lost"
  shows "\<exists>i rest. filter (\<lambda>i. i \<notin> set lost) ds = i # rest \<and> i \<in> set (take k ds)"
proof -
  let ?P = "\<lambda>i. i \<notin> set lost"
  have "filter ?P (take k ds) \<noteq> []" using assms by (auto simp: filter_empty_conv)
  then obtain i rest where f: "filter ?P (take k ds) = i # rest" by (cases "filter ?P (take k ds)") auto
  then have "i \<in> set (filter ?P (take k ds))" by (simp only: f) simp
  then have "i \<in> set (take k ds)" by simp
  moreover have "filter ?P ds = filter ?P (take k ds) @ filter ?P (drop k ds)" by (metis append_take_drop_id filter_append)
  ultimately show ?thesis using f by simp
qed

section \<open>Healing\<close>

lemma content_hash_equal: "BoxHashEqual (content_hash st a) (content_hash st b) \<longleftrightarrow> content_hash st a = content_hash st b"
proof -
  obtain x y where "content_hash st a = Some x" "length x = 32" "content_hash st b = Some y" "length y = 32"
    using BoxHashContent_total by (metis content_hash_def)
  then show ?thesis by (simp add: BoxHashEqual_iff)
qed

lemma content_hash_config: "same_config st st' \<Longrightarrow> content_hash st' = content_hash st"
  by (auto simp: content_hash_def same_config_def fun_eq_iff)

text \<open>The copy of a disk, as the first loop of the healing finds it.\<close>

definition copy_at :: "BraidIo \<Rightarrow> nat \<Rightarrow> BraidState \<Rightarrow> nat \<Rightarrow> bytes option" where
  "copy_at io block st i = (if bd_online (br_disks st ! i) \<and> bi_read io i block then Some (br_media st i block) else None)"

lemma heal_read_spec:
  assumes "br_initialized st" "length (br_disks st) = BRAID_MAX_DISKS" "\<forall>i\<in>set is. i < BRAID_MAX_DISKS"
  shows "\<exists>st'. heal_read io block is st = Some (map (copy_at io block st) is, st') \<and> same_config st st' \<and> br_media st' = br_media st"
  using assms
proof (induction "is" arbitrary: st)
  case (Cons i rest)
  have i: "i < length (br_disks st)" "\<forall>i\<in>set rest. i < BRAID_MAX_DISKS" using Cons.prems by simp_all
  have step: "\<exists>st'. map_option (\<lambda>(copies, st'). (c # copies, st')) (heal_read io block rest st1) =
      Some (c # map (copy_at io block st) rest, st') \<and> same_config st st' \<and> br_media st' = br_media st"
    if s: "same_config st st1" "br_media st1 = br_media st" for c st1
  proof -
    obtain st' where h: "heal_read io block rest st1 = Some (map (copy_at io block st1) rest, st')" "same_config st1 st'" "br_media st' = br_media st1"
      using Cons.IH [of st1] Cons.prems s(1) i(2) by (auto simp: same_config_def)
    have "map (copy_at io block st1) rest = map (copy_at io block st) rest"
      using same_config_online [OF s(1)] i(2) Cons.prems(2) s(2) by (simp add: copy_at_def)
    then show ?thesis using h s same_config_trans [OF s(1) h(2)] by auto
  qed
  show ?case
  proof (cases "bd_online (br_disks st ! i)")
    case False
    then show ?thesis using step [of st None] i(1) by (auto simp: copy_at_def)
  next
    case True
    show ?thesis
    proof (cases "bi_read io i block")
      case True
      then show ?thesis using step [of "read_ok i st" "Some (br_media st i block)"] \<open>bd_online _\<close> i(1) Cons.prems
        by (auto simp: copy_at_def BraidReadFromDisk_def BraidRawRead_def)
    next
      case False
      then show ?thesis using step [of "disk_error i st" None] \<open>bd_online _\<close> i(1) Cons.prems
        by (auto simp: copy_at_def BraidReadFromDisk_def BraidRawRead_def)
    qed
  qed
qed simp

text \<open>The copies with the same hash as \<open>data\<close>.\<close>

definition agrees :: "BraidState \<Rightarrow> bytes \<Rightarrow> bytes option \<Rightarrow> bool" where
  "agrees st data c \<longleftrightarrow> (\<exists>d. c = Some d \<and> content_hash st d = content_hash st data)"

lemma agreeing_eq: "agreeing st copies data = length (filter (agrees st data) copies)"
  unfolding agreeing_def
  by (intro arg_cong [where f = length] filter_cong) (auto simp: agrees_def content_hash_equal split: option.splits)

lemma agreeing_pos: "Some d \<in> set copies \<Longrightarrow> 0 < agreeing st copies d"
  unfolding agreeing_eq by (auto simp: agrees_def filter_empty_conv)

lemma best_copy_spec:
  "case best_copy st copies of
     None \<Rightarrow> \<forall>c\<in>set copies. c = None
   | Some (b, data) \<Rightarrow> b < length copies \<and> copies ! b = Some data \<and>
       (\<forall>d. Some d \<in> set copies \<longrightarrow> agreeing st copies d \<le> agreeing st copies data)"
proof -
  let ?f = "\<lambda>best i. case copies ! i of None \<Rightarrow> best
     | Some data \<Rightarrow> let n = agreeing st copies data in if n > (case best of None \<Rightarrow> 0 | Some (b, m) \<Rightarrow> m) then Some ((i, data), n) else best"
  have "case foldl ?f None [0..<k] of
      None \<Rightarrow> \<forall>i<k. copies ! i = None
    | Some ((b, data), m) \<Rightarrow> b < k \<and> copies ! b = Some data \<and> m = agreeing st copies data \<and>
        (\<forall>i<k. \<forall>d. copies ! i = Some d \<longrightarrow> agreeing st copies d \<le> m)" if "k \<le> length copies" for k
    using that
  proof (induction k)
    case (Suc k)
    then have IH: "case foldl ?f None [0..<k] of
        None \<Rightarrow> \<forall>i<k. copies ! i = None
      | Some ((b, data), m) \<Rightarrow> b < k \<and> copies ! b = Some data \<and> m = agreeing st copies data \<and>
          (\<forall>i<k. \<forall>d. copies ! i = Some d \<longrightarrow> agreeing st copies d \<le> m)" by simp
    have pos: "0 < agreeing st copies d" if "copies ! k = Some d" for d
      using agreeing_pos [of d copies st] that Suc.prems by (metis Suc_le_lessD nth_mem)
    show ?case
      using IH pos by (auto simp: Let_def less_Suc_eq split: option.splits if_splits prod.splits)
  qed simp
  from this [of "length copies"] show ?thesis
    by (auto simp: best_copy_def in_set_conv_nth split: option.splits prod.splits)
qed

text \<open>The contents whose hash more copies have than any other are the ones chosen.\<close>

definition most_copies :: "BraidState \<Rightarrow> bytes option list \<Rightarrow> bytes \<Rightarrow> bool" where
  "most_copies st copies data \<longleftrightarrow> (\<exists>c\<in>set copies. agrees st data c) \<and>
     (\<forall>d. Some d \<in> set copies \<and> content_hash st d \<noteq> content_hash st data \<longrightarrow>
        length (filter (agrees st d) copies) < length (filter (agrees st data) copies))"

lemma best_copy_most:
  assumes most: "most_copies st copies data"
  shows "\<exists>b d. best_copy st copies = Some (b, d) \<and> b < length copies \<and> copies ! b = Some d \<and> content_hash st d = content_hash st data"
proof -
  obtain d0 where d0: "Some d0 \<in> set copies" "content_hash st d0 = content_hash st data"
    using most by (auto simp: most_copies_def agrees_def)
  have same: "agreeing st copies d0 = length (filter (agrees st data) copies)"
    unfolding agreeing_eq using d0(2) by (intro arg_cong [where f = length] filter_cong) (simp_all add: agrees_def)
  obtain b d where b: "best_copy st copies = Some (b, d)" "b < length copies" "copies ! b = Some d"
    "agreeing st copies d0 \<le> agreeing st copies d"
    using best_copy_spec [where st = st and copies = copies] d0(1) by (auto split: option.splits)
  have "Some d \<in> set copies" using b(2,3) nth_mem by force
  then have "content_hash st d = content_hash st data"
    using most b(4) same unfolding most_copies_def agreeing_eq by (metis linorder_not_le)
  then show ?thesis using b by auto
qed

definition differs_at :: "BraidState \<Rightarrow> bytes option list \<Rightarrow> bytes \<Rightarrow> nat \<Rightarrow> bool" where
  "differs_at st copies data i \<longleftrightarrow> (case copies ! i of None \<Rightarrow> True | Some d \<Rightarrow> content_hash st d \<noteq> content_hash st data)"

lemma counters_heals [simp]:
  "bs_auto_heals (br_stats (read_ok i st)) = bs_auto_heals (br_stats st)" "bs_auto_heals (br_stats (write_ok i st)) = bs_auto_heals (br_stats st)"
  "bs_auto_heals (br_stats (disk_error i st)) = bs_auto_heals (br_stats st)"
  by (simp_all add: read_ok_def write_ok_def disk_error_def upd_stats_def set_disk_def)

lemma heal_read_heals:
  "heal_read io block is st = Some (cs, st') \<Longrightarrow> bs_auto_heals (br_stats st') = bs_auto_heals (br_stats st)"
proof (induction "is" arbitrary: st cs)
  case (Cons i rest)
  then show ?case
    by (auto simp: BraidReadFromDisk_def BraidRawRead_def split: if_splits option.splits)
qed simp

text \<open>The disks a repair from disk \<open>best\<close> is written to.\<close>

definition repaired :: "BraidState \<Rightarrow> nat \<Rightarrow> bytes \<Rightarrow> bytes option list \<Rightarrow> nat \<Rightarrow> nat list" where
  "repaired st best data copies n = filter (\<lambda>i. i \<noteq> best \<and> bd_online (br_disks st ! i) \<and> differs_at st copies data i) [0..<n]"

lemma heal_loop_spec:
  assumes ok: "br_initialized st" "length (br_disks st) = BRAID_MAX_DISKS" and n: "n \<le> BRAID_MAX_DISKS"
    and wr: "\<forall>i<n. bd_online (br_disks st ! i) \<longrightarrow> bi_write io i block"
  shows "\<exists>st'. foldl (heal_disk io block best data copies) (st, 0) [0..<n] = (st', length (repaired st best data copies n)) \<and> same_config st st' \<and>
    br_media st' = wrote (br_media st) (repaired st best data copies n) block data \<and> bs_auto_heals (br_stats st') = bs_auto_heals (br_stats st)"
  using n wr
proof (induction n)
  case 0
  then show ?case by (simp add: wrote_def repaired_def)
next
  case (Suc n)
  let ?ds = "repaired st best data copies"
  obtain st1 where s: "foldl (heal_disk io block best data copies) (st, 0) [0..<n] = (st1, length (?ds n))" "same_config st st1"
    "br_media st1 = wrote (br_media st) (?ds n) block data" "bs_auto_heals (br_stats st1) = bs_auto_heals (br_stats st)" using Suc by auto
  have on: "bd_online (br_disks st1 ! n) = bd_online (br_disks st ! n)" using same_config_online [OF s(2), of n] Suc.prems(1) ok(2) by simp
  have dif: "(case copies ! n of None \<Rightarrow> True | Some d \<Rightarrow> \<not> BoxHashEqual (content_hash st1 d) (content_hash st1 data)) = differs_at st copies data n"
    by (auto simp: differs_at_def content_hash_equal content_hash_config [OF s(2)] split: option.splits)
  have fold: "foldl (heal_disk io block best data copies) (st, 0) [0..<Suc n] = heal_disk io block best data copies (st1, length (?ds n)) n" using s(1) by simp
  show ?case
  proof (cases "n \<noteq> best \<and> bd_online (br_disks st ! n) \<and> differs_at st copies data n")
    case False
    then have "heal_disk io block best data copies (st1, length (?ds n)) n = (st1, length (?ds n))" unfolding heal_disk_def using on dif by (auto simp: Let_def)
    moreover have "?ds (Suc n) = ?ds n" using False by (auto simp: repaired_def)
    ultimately show ?thesis using fold s by auto
  next
    case True
    let ?m = "(br_media st1)(n := (br_media st1 n)(block := data))"
    have w: "BraidWriteToDisk io n block data st1 = (OK, write_ok n (st1\<lparr>br_media := ?m\<rparr>))"
      using True on Suc.prems ok s(2) by (auto simp: BraidWriteToDisk_def BraidRawWrite_def Let_def same_config_def)
    have h: "heal_disk io block best data copies (st1, length (?ds n)) n = (write_ok n (st1\<lparr>br_media := ?m\<rparr>), length (?ds n) + 1)"
      unfolding heal_disk_def using True on dif w by (simp add: Let_def)
    have c: "same_config st (write_ok n (st1\<lparr>br_media := ?m\<rparr>))"
      by (rule same_config_trans [OF s(2) same_config_trans [OF same_config_media counters_config(2)]])
    have ds: "?ds (Suc n) = ?ds n @ [n]" using True by (simp add: repaired_def)
    have "br_media (write_ok n (st1\<lparr>br_media := ?m\<rparr>)) = wrote (br_media st) (?ds (Suc n)) block data"
      unfolding ds by (auto simp: s(3) wrote_def fun_eq_iff)
    then show ?thesis using fold h c s(4) ds by auto
  qed
qed

section \<open>Properties\<close>

text \<open>
  C10. A mirrored or woven block survives the loss of disks: when every online disk takes the write, the block
  goes to the first two or three of them (to all, if there are fewer), and after the removal of any disks that
  leaves one of these, \<^verbatim>\<open>BraidReadBlock\<close> still returns the block as it was written, provided that the disks left
  can be read. Striped blocks are not covered: there is no second copy of one.
\<close>

theorem braid_survives_disk_loss:
  assumes "braid_ok st" "br_mode st \<noteq> BraidModeStripe" "\<forall>i\<in>set (online_disks st). bi_write io i block"
    "\<exists>i\<in>set (take (copies_of (br_mode st)) (online_disks st)). i \<notin> set lost"
    "\<forall>i\<in>set (online_disks st) - set lost. bi_read io' i block"
  shows "\<exists>st1 st2. BraidWriteBlock io block data st = Some (OK, st1) \<and>
    BraidReadBlock io' block None (remove_disks lost st1) = Some (Inr data, st2)"
proof -
  have ne: "online_disks st \<noteq> []" using assms(4) by auto
  obtain st1 where w: "BraidWriteBlock io block data st = Some (OK, st1)" "same_config st st1"
    "br_media st1 = wrote (br_media st) (take (copies_of (br_mode st)) (online_disks st)) block data"
    using write_block_spec [OF assms(1-3), of data] ne by auto
  have ok1: "braid_ok st1" using braid_ok_config [OF w(2)] assms(1) by simp
  note rm = remove_disks_spec [OF ok1, of lost]
  have left: "online_disks (remove_disks lost st1) = filter (\<lambda>i. i \<notin> set lost) (online_disks st)"
    using rm online_disks_config [OF w(2) assms(1)] by simp
  obtain i rest where i: "filter (\<lambda>i. i \<notin> set lost) (online_disks st) = i # rest" "i \<in> set (take (copies_of (br_mode st)) (online_disks st))"
    using survivor_first [OF assms(4)] by blast
  have "br_media (remove_disks lost st1) i block = data" using rm w(3) i(2) by (simp add: wrote_def)
  moreover have "i \<in> set (filter (\<lambda>i. i \<notin> set lost) (online_disks st))" by (simp only: i(1)) simp
  then have "bi_read io' i block" using assms(5) by simp
  then have "find (\<lambda>i. bi_read io' i block) (take 2 (online_disks (remove_disks lost st1))) = Some i"
    unfolding left i(1) by (simp add: numeral_2_eq_2)
  ultimately obtain st2 where "BraidReadBlock io' block None (remove_disks lost st1) = Some (Inr data, st2)"
    using read_block_spec [of "remove_disks lost st1" io' block] rm by auto
  then show ?thesis using w(1) by blast
qed

text \<open>Three mirrored disks.\<close>

definition three_disks :: BraidState where
  "three_disks = \<lparr>br_magic = BRAID_MAGIC, br_version = 1, br_mode = BraidModeMirror, br_disk_count = 3, br_active_disks = 3,
     br_disks = replicate 3 (no_disk\<lparr>bd_online := True\<rparr>) @ replicate 5 no_disk, br_hash_ctx = [1, 2, 3, 4], br_initialized = True,
     br_stats = no_braid_stats, br_media = (\<lambda>d s. [of_nat d])\<rparr>"

definition good_io :: BraidIo where
  "good_io = \<lparr>bi_read = \<lambda>_ _. True, bi_write = \<lambda>_ _. True, bi_left = \<lambda>_ _. []\<rparr>"

lemma three_disks_ok: "braid_ok three_disks" "online_disks three_disks = [0, 1, 2]"
  by (simp_all add: braid_ok_def three_disks_def BRAID_MAX_DISKS_def online_disks_def upt_rec no_disk_def nth_append)

theorem braid_survives_disk_loss_witness:
  "\<exists>st1 st2. BraidWriteBlock good_io 40 [7] three_disks = Some (OK, st1) \<and>
     BraidReadBlock good_io 40 None (remove_disks [0, 2] st1) = Some (Inr [7], st2)"
  using braid_survives_disk_loss [of three_disks good_io 40 "[0, 2]" good_io "[7]"] three_disks_ok
  by (simp add: copies_of_def good_io_def three_disks_def)

text \<open>
  A write that one disk of a mirror refuses is reported as done when two others take it, or one; the next read
  returns what the first disk has there, which is not the block.
\<close>

lemma failed_write_reads_stale:
  "\<exists>st1 st2. BraidWriteBlock (good_io\<lparr>bi_write := \<lambda>d _. d \<noteq> 0, bi_left := \<lambda>_ _. [5]\<rparr>) 40 [7] three_disks = Some (OK, st1) \<and>
     BraidReadBlock good_io 40 None st1 = Some (Inr [5], st2)"
proof -
  let ?io = "good_io\<lparr>bi_write := \<lambda>d _. d \<noteq> 0, bi_left := \<lambda>_ _. [5]\<rparr>"
  have f: "br_disk_count three_disks = 3" "br_mode three_disks = BraidModeMirror" "br_initialized three_disks"
    "online_now three_disks = [True, True, True, False, False, False, False, False]"
    by (simp_all add: three_disks_def online_now_def BRAID_MAX_DISKS_def no_disk_def nth_append upt_rec)
  have u: "[0..<3] = [0, 1, 2::nat]" by (simp add: upt_rec)
  obtain st1 where w: "BraidWriteBlock ?io 40 [7] three_disks = Some (OK, st1)" "same_config three_disks st1" "br_media st1 0 40 = [5]"
  proof
    let ?put = "\<lambda>i d st. st\<lparr>br_media := (br_media st)(i := (br_media st i)(40 := d))\<rparr>"
    let ?a = "disk_error 0 (?put 0 [5] three_disks)"
    let ?b = "write_ok 1 (?put 1 [7] ?a)"
    let ?c = "write_ok 2 (?put 2 [7] ?b)"
    show "BraidWriteBlock ?io 40 [7] three_disks = Some (OK, ?c)"
      by (simp add: BraidWriteBlock_def f u BraidRawWrite_def good_io_def Let_def)
    show "same_config three_disks ?c"
      by (intro same_config_trans [OF _ counters_config(2)] same_config_trans [OF _ same_config_media] same_config_trans [OF _ counters_config(3)]) simp
    show "br_media ?c 0 40 = [5]" by simp
  qed
  have "braid_ok st1" "online_disks st1 = [0, 1, 2]" using braid_ok_config [OF w(2)] online_disks_config [OF w(2)] three_disks_ok by simp_all
  then show ?thesis using read_block_spec [of st1 good_io 40] w(1,3) by (auto simp: good_io_def)
qed

text \<open>
  C23. Healing follows the most frequent copy: when more of the copies that can be read have the content hash of
  \<open>data\<close> than any other hash, and the online disks take the repair, \<^verbatim>\<open>BraidAutoHeal\<close> succeeds and afterwards
  every online disk has contents with that hash; a disk that already had is left as it was. The heal is
  counted, once, exactly when there was an online disk whose copy had another hash or could not be read.
\<close>

theorem braid_heal_majority:
  assumes "braid_ok st" "\<forall>i\<in>set (online_disks st). bi_write io i block"
    "most_copies st (map (copy_at io block st) [0..<br_disk_count st]) data"
  shows "\<exists>st'. BraidAutoHeal io block st = Some (OK, st') \<and>
    (\<forall>i\<in>set (online_disks st). content_hash st (br_media st' i block) = content_hash st data) \<and>
    (\<forall>i\<in>set (online_disks st). bi_read io i block \<and> content_hash st (br_media st i block) = content_hash st data \<longrightarrow>
       br_media st' i block = br_media st i block) \<and>
    bs_auto_heals (br_stats st') = bs_auto_heals (br_stats st) +
      (if \<exists>i\<in>set (online_disks st). \<not> bi_read io i block \<or> content_hash st (br_media st i block) \<noteq> content_hash st data then 1 else 0)"
proof -
  let ?cs = "map (copy_at io block st) [0..<br_disk_count st]"
  have ok: "br_initialized st" "length (br_disks st) = BRAID_MAX_DISKS" "br_disk_count st \<le> BRAID_MAX_DISKS"
    using assms(1) by (simp_all add: braid_ok_def)
  obtain st1 where r: "heal_read io block [0..<br_disk_count st] st = Some (?cs, st1)" "same_config st st1" "br_media st1 = br_media st"
    using heal_read_spec [OF ok(1,2), of "[0..<br_disk_count st]" io block] ok(3) by auto
  note hash = content_hash_config [OF r(2)]
  have "agrees st1 = agrees st" by (simp add: agrees_def hash fun_eq_iff)
  then have "most_copies st1 ?cs data" using assms(3) unfolding most_copies_def hash by simp
  then obtain b d where b: "best_copy st1 ?cs = Some (b, d)" "b < length ?cs" "?cs ! b = Some d" "content_hash st d = content_hash st data"
    using best_copy_most [of st1 ?cs data] unfolding hash by blast
  have ok1: "br_initialized st1" "length (br_disks st1) = BRAID_MAX_DISKS" using r(2) ok by (simp_all add: same_config_def)
  have on1: "bd_online (br_disks st1 ! i) = bd_online (br_disks st ! i)" if "i < br_disk_count st" for i
    using same_config_online [OF r(2), of i] that ok(2,3) by simp
  have wr: "\<forall>i<br_disk_count st. bd_online (br_disks st1 ! i) \<longrightarrow> bi_write io i block" using assms(2) on1 by (simp add: online_disks_def)
  let ?ds = "repaired st1 b d ?cs (br_disk_count st)"
  obtain st2 where h: "foldl (heal_disk io block b d ?cs) (st1, 0) [0..<br_disk_count st] = (st2, length ?ds)"
    "br_media st2 = wrote (br_media st) ?ds block d" "bs_auto_heals (br_stats st2) = bs_auto_heals (br_stats st)"
    using heal_loop_spec [OF ok1 ok(3) wr, of b d ?cs] heal_read_heals [OF r(1)] unfolding r(3) by auto
  define st' where "st' = (if length ?ds > 0 then upd_stats (\<lambda>s. s\<lparr>bs_auto_heals := bs_auto_heals s + 1\<rparr>) st2 else st2)"
  have res: "BraidAutoHeal io block st = Some (OK, st')" using ok(1) r(1) b(1) h(1) by (simp add: BraidAutoHeal_def st'_def)
  have m: "br_media st' = br_media st2" by (simp add: st'_def)
  have copy: "?cs ! i = copy_at io block st i" if "i < br_disk_count st" for i using that by simp
  have at: "bd_online (br_disks st ! b)" "bi_read io b block" "br_media st b block = d" "b < br_disk_count st"
    using b(2,3) copy by (auto simp: copy_at_def split: if_splits)
  have same_diff: "differs_at st1 = differs_at st" unfolding differs_at_def hash by (rule refl)
  have in_ds: "i \<in> set ?ds \<longleftrightarrow> \<not> bi_read io i block \<or> content_hash st (br_media st i block) \<noteq> content_hash st data"
    if "i \<in> set (online_disks st)" for i
  proof -
    have i: "i < br_disk_count st" "bd_online (br_disks st ! i)" using that by (auto simp: online_disks_def)
    then have "i \<in> set ?ds \<longleftrightarrow> i \<noteq> b \<and> differs_at st ?cs d i" using on1 same_diff by (auto simp: repaired_def)
    then show ?thesis using i copy [OF i(1)] at b(4) by (auto simp: differs_at_def copy_at_def)
  qed
  have sub: "set ?ds \<subseteq> set (online_disks st)" using on1 by (auto simp: repaired_def online_disks_def)
  have cell: "br_media st' i block = (if i \<in> set ?ds then d else br_media st i block)" for i by (simp add: m h(2) wrote_def)
  have "?ds \<noteq> [] \<longleftrightarrow> (\<exists>i\<in>set (online_disks st). i \<in> set ?ds)" using sub by (cases ?ds) auto
  then have "bs_auto_heals (br_stats st') = bs_auto_heals (br_stats st) +
      (if \<exists>i\<in>set (online_disks st). \<not> bi_read io i block \<or> content_hash st (br_media st i block) \<noteq> content_hash st data then 1 else 0)"
    using in_ds h(3) by (auto simp: st'_def upd_stats_def)
  then show ?thesis using res cell in_ds b(4) by auto
qed

definition two_agree :: BraidState where
  "two_agree = three_disks\<lparr>br_media := (\<lambda>d s. if d = 1 then [9] else [7])\<rparr>"

theorem braid_heal_majority_witness:
  "\<exists>st'. BraidAutoHeal good_io 40 two_agree = Some (OK, st') \<and>
     (\<forall>i\<in>set (online_disks two_agree). content_hash two_agree (br_media st' i 40) = content_hash two_agree [7])"
proof -
  have ok: "braid_ok two_agree" "online_disks two_agree = [0, 1, 2]"
    using three_disks_ok by (simp_all add: two_agree_def braid_ok_def online_disks_def)
  have n: "br_disk_count two_agree = 3" "\<And>i. i < 3 \<Longrightarrow> bd_online (br_disks two_agree ! i)"
    by (auto simp: two_agree_def three_disks_def nth_append less_Suc_eq numeral_eq_Suc)
  have cs: "map (copy_at good_io 40 two_agree) [0..<br_disk_count two_agree] = [Some [7], Some [9], Some [7]]"
    using n by (simp add: copy_at_def good_io_def upt_rec) (simp add: two_agree_def)
  have ag: "agrees two_agree d (Some d)" for d by (simp add: agrees_def)
  have "most_copies two_agree (map (copy_at good_io 40 two_agree) [0..<br_disk_count two_agree]) [7]"
    unfolding cs most_copies_def using ag by (auto simp: agrees_def)
  from braid_heal_majority [OF ok(1) _ this] show ?thesis by (auto simp: good_io_def)
qed

text \<open>
  A striped block is written to the disk its number selects but read from the first disks in order: with
  two disks, block 1 goes to disk 1 and the next read returns what disk 0 has there.
\<close>

lemma stripe_reads_other_disk:
  "\<exists>st1 st2. BraidWriteBlock good_io 1 [7] (three_disks\<lparr>br_mode := BraidModeStripe\<rparr>) = Some (OK, st1) \<and>
     BraidReadBlock good_io 1 None st1 = Some (Inr [0], st2)"
proof -
  let ?st = "three_disks\<lparr>br_mode := BraidModeStripe\<rparr>"
  let ?st1 = "write_ok 1 (?st\<lparr>br_media := (br_media ?st)(1 := (br_media ?st 1)(1 := [7]))\<rparr>)"
  have f: "br_disk_count ?st = 3" "br_initialized ?st" "online_now ?st ! 1"
    by (simp_all add: three_disks_def online_now_def BRAID_MAX_DISKS_def nth_append)
  have w: "BraidWriteBlock good_io 1 [7] ?st = Some (OK, ?st1)"
    unfolding BraidWriteBlock_def stripe_write_def f(1) using f(2,3) by (simp add: BraidRawWrite_def good_io_def BRAID_MAX_DISKS_def Let_def)
  have c: "same_config ?st ?st1" by (rule same_config_trans [OF same_config_media counters_config(2)])
  have "braid_ok ?st" "online_disks ?st = [0, 1, 2]" using three_disks_ok by (simp_all add: braid_ok_def online_disks_def)
  then have "braid_ok ?st1" "online_disks ?st1 = [0, 1, 2]" using braid_ok_config [OF c] online_disks_config [OF c] by simp_all
  then show ?thesis using read_block_spec [of ?st1 good_io 1] w by (auto simp: good_io_def three_disks_def)
qed

end
