(* ===== verification/IntegrityMap.thy ===== *)
theory IntegrityMap
  imports Braid
begin

text \<open>
  The integrity map of TagFS (kernel/tagfs/integrity/integrity.c), its data: one 64-bit hash per data block,
  512 to a map block, kept in a cache of sixteen map blocks with the least recently used one as the
  victim. The theory holds the state, the choice of the cache slot and the image of a map block on the
  volume; the operations, which read and write map blocks through the block layer, are in theory BlockIo.
\<close>

section \<open>State\<close>

definition ENTRIES_PER_BLOCK :: nat where "ENTRIES_PER_BLOCK = 512"
definition MAP_CACHE_SLOTS :: nat where "MAP_CACHE_SLOTS = 16"
definition ROT_RING_MAX :: nat where "ROT_RING_MAX = 64"
definition SLOT_EMPTY :: nat where "SLOT_EMPTY = 0xFFFFFFFF"

record MapSlot =
  ms_map_idx :: nat
  ms_lru :: nat
  ms_dirty :: bool
  ms_entries :: "u64 list"

text \<open>The static variables of integrity.c; \<open>in_rot_ring\<close> is the part of \<^verbatim>\<open>g_rot_ring\<close> below \<^verbatim>\<open>g_rot_count\<close>.\<close>

record IntegrityState =
  in_initialized :: bool
  in_map_entries :: nat
  in_map_first_block :: nat
  in_map_count :: nat
  in_cache :: "MapSlot list"
  in_lru_tick :: nat
  in_ctx :: BoxHashContext
  in_errors :: nat
  in_rot_ring :: "nat list"
  in_integrity_tag :: nat

definition in_map_region :: "IntegrityState \<Rightarrow> nat \<Rightarrow> bool" where
  "in_map_region it block \<longleftrightarrow>
     in_map_first_block it \<noteq> 0 \<and> in_map_first_block it \<le> block \<and> block < u32_wrap (in_map_first_block it + in_map_count it)"

section \<open>The slots of the cache\<close>

text \<open>The slot that holds a map block, and the one to give up for a new one.\<close>

definition slot_of :: "MapSlot list \<Rightarrow> nat \<Rightarrow> nat option" where
  "slot_of slots idx = find (\<lambda>s. ms_map_idx (slots ! s) = idx) [0..<MAP_CACHE_SLOTS]"

fun victim_loop :: "MapSlot list \<Rightarrow> nat list \<Rightarrow> nat \<Rightarrow> nat" where
  "victim_loop slots [] victim = victim"
| "victim_loop slots (s # rest) victim =
     (if ms_map_idx (slots ! s) = SLOT_EMPTY then s
      else victim_loop slots rest (if ms_lru (slots ! s) < ms_lru (slots ! victim) then s else victim))"

definition cache_victim :: "MapSlot list \<Rightarrow> nat" where
  "cache_victim slots = victim_loop slots [0..<MAP_CACHE_SLOTS] 0"

definition set_slot :: "nat \<Rightarrow> MapSlot \<Rightarrow> IntegrityState \<Rightarrow> IntegrityState" where
  "set_slot s slot it = it\<lparr>in_cache := (in_cache it)[s := slot]\<rparr>"

definition next_tick :: "IntegrityState \<Rightarrow> nat" where
  "next_tick it = u32_wrap (in_lru_tick it + 1)"

text \<open>A slot found in the cache is marked as the one used last.\<close>

definition touch_slot :: "nat \<Rightarrow> IntegrityState \<Rightarrow> IntegrityState" where
  "touch_slot s it = (set_slot s ((in_cache it ! s)\<lparr>ms_lru := next_tick it\<rparr>) it)\<lparr>in_lru_tick := next_tick it\<rparr>"

text \<open>A map block read from the volume into a slot.\<close>

definition load_slot :: "nat \<Rightarrow> nat \<Rightarrow> u64 list \<Rightarrow> IntegrityState \<Rightarrow> IntegrityState" where
  "load_slot s idx entries it =
     (set_slot s \<lparr>ms_map_idx = idx, ms_lru = next_tick it, ms_dirty = False, ms_entries = entries\<rparr> it)\<lparr>in_lru_tick := next_tick it\<rparr>"

text \<open>The new hash of a block, put into a slot when it differs from the old one.\<close>

definition put_entry :: "nat \<Rightarrow> nat \<Rightarrow> u64 \<Rightarrow> IntegrityState \<Rightarrow> IntegrityState" where
  "put_entry s off h it =
     (let slot = in_cache it ! s
      in if ms_entries slot ! off \<noteq> h
         then set_slot s (slot\<lparr>ms_entries := (ms_entries slot)[off := h], ms_dirty := True\<rparr>) it else it)"

text \<open>A block whose hash is not the recorded one: counted, and remembered while the ring has room.\<close>

definition note_rot :: "nat \<Rightarrow> IntegrityState \<Rightarrow> IntegrityState" where
  "note_rot block it =
     it\<lparr>in_errors := u32_wrap (in_errors it + 1),
        in_rot_ring := (if length (in_rot_ring it) < ROT_RING_MAX then in_rot_ring it @ [block] else in_rot_ring it)\<rparr>"

section \<open>The image of a map block\<close>

definition map_block_bytes :: "u64 list \<Rightarrow> bytes" where
  "map_block_bytes entries = concat (map (le_put 8) entries)"

definition map_block_entries :: "bytes \<Rightarrow> u64 list" where
  "map_block_entries buf = map (\<lambda>i. le_get (take 8 (drop (8 * i) buf))) [0..<ENTRIES_PER_BLOCK]"

lemma length_map_block_entries [simp]: "length (map_block_entries buf) = ENTRIES_PER_BLOCK"
  by (simp add: map_block_entries_def)

lemma map_block_round_trip:
  assumes "length entries = ENTRIES_PER_BLOCK"
  shows "map_block_entries (map_block_bytes entries) = entries"
proof -
  have "take 8 (drop (8 * i) (concat (map (le_put 8) es))) = le_put 8 (es ! i)" if "i < length es" for i and es :: "u64 list"
    using that
  proof (induction es arbitrary: i)
    case (Cons e es)
    then show ?case by (cases i) (simp_all add: algebra_simps)
  qed simp
  then have "le_get (take 8 (drop (8 * i) (map_block_bytes entries))) = entries ! i" if "i < length entries" for i
    using that by (simp add: map_block_bytes_def le_get_put)
  then show ?thesis using assms by (intro nth_equalityI) (simp_all add: map_block_entries_def)
qed

section \<open>Well-formed maps\<close>

text \<open>
  The region does not wrap, has a map block for every entry, and the slots hold map blocks of the region,
  whole and each at most once.
\<close>

definition imap_ok :: "IntegrityState \<Rightarrow> bool" where
  "imap_ok it \<longleftrightarrow> length (in_cache it) = MAP_CACHE_SLOTS \<and> in_map_first_block it + in_map_count it < 2 ^ 32 - 1 \<and>
     (in_initialized it \<longrightarrow> in_map_first_block it \<noteq> 0) \<and> in_map_entries it \<le> in_map_count it * ENTRIES_PER_BLOCK \<and>
     (\<forall>s<MAP_CACHE_SLOTS. ms_map_idx (in_cache it ! s) \<noteq> SLOT_EMPTY \<longrightarrow>
        ms_map_idx (in_cache it ! s) < in_map_count it \<and> length (ms_entries (in_cache it ! s)) = ENTRIES_PER_BLOCK) \<and>
     (\<forall>s<MAP_CACHE_SLOTS. \<forall>t<MAP_CACHE_SLOTS. ms_map_idx (in_cache it ! s) = ms_map_idx (in_cache it ! t) \<longrightarrow>
        ms_map_idx (in_cache it ! s) \<noteq> SLOT_EMPTY \<longrightarrow> s = t)"

lemma map_region_iff:
  "imap_ok it \<Longrightarrow> in_map_region it block \<longleftrightarrow>
     in_map_first_block it \<noteq> 0 \<and> in_map_first_block it \<le> block \<and> block < in_map_first_block it + in_map_count it"
  by (simp add: imap_ok_def in_map_region_def)

lemma slot_of_Some: "slot_of slots idx = Some s \<Longrightarrow> s < MAP_CACHE_SLOTS \<and> ms_map_idx (slots ! s) = idx"
  by (auto simp: slot_of_def dest: find_SomeD)

lemma slot_of_None: "slot_of slots idx = None \<longleftrightarrow> (\<forall>s<MAP_CACHE_SLOTS. ms_map_idx (slots ! s) \<noteq> idx)"
  by (auto simp: slot_of_def find_None_iff)

lemma find_SomeI: "P x \<Longrightarrow> x \<in> set xs \<Longrightarrow> \<exists>y. find P xs = Some y"
  by (induction xs) auto

lemma slot_of_unique:
  assumes "imap_ok it" "s < MAP_CACHE_SLOTS" "ms_map_idx (in_cache it ! s) = idx" "idx \<noteq> SLOT_EMPTY"
  shows "slot_of (in_cache it) idx = Some s"
proof -
  obtain t where t: "slot_of (in_cache it) idx = Some t" using assms(2,3) slot_of_None [of "in_cache it" idx] by blast
  have "s = t" using slot_of_Some [OF t] assms unfolding imap_ok_def by metis
  then show ?thesis using t by simp
qed

lemma victim_loop_less: "victim < n \<Longrightarrow> \<forall>s\<in>set ss. s < n \<Longrightarrow> victim_loop slots ss victim < n"
  by (induction slots ss victim rule: victim_loop.induct) auto

lemma cache_victim_less: "cache_victim slots < MAP_CACHE_SLOTS"
  unfolding cache_victim_def by (rule victim_loop_less) (simp_all add: MAP_CACHE_SLOTS_def)

text \<open>The hash recorded for a block, given what the volume holds for the map blocks.\<close>

definition recorded :: "IntegrityState \<Rightarrow> (nat \<Rightarrow> bytes) \<Rightarrow> nat \<Rightarrow> u64" where
  "recorded it disk block =
     (case slot_of (in_cache it) (block div ENTRIES_PER_BLOCK) of
        Some s \<Rightarrow> ms_entries (in_cache it ! s)
      | None \<Rightarrow> map_block_entries (disk (in_map_first_block it + block div ENTRIES_PER_BLOCK))) ! (block mod ENTRIES_PER_BLOCK)"


text \<open>A slot that is not dirty holds what the volume holds for its map block.\<close>

definition synced :: "IntegrityState \<Rightarrow> (nat \<Rightarrow> bytes) \<Rightarrow> bool" where
  "synced it disk \<longleftrightarrow> (\<forall>s<MAP_CACHE_SLOTS. ms_map_idx (in_cache it ! s) \<noteq> SLOT_EMPTY \<longrightarrow> \<not> ms_dirty (in_cache it ! s) \<longrightarrow>
     ms_entries (in_cache it ! s) = map_block_entries (disk (in_map_first_block it + ms_map_idx (in_cache it ! s))))"

text \<open>What no operation on single blocks changes: where the map lies and how blocks are hashed.\<close>

definition same_map :: "IntegrityState \<Rightarrow> IntegrityState \<Rightarrow> bool" where
  "same_map it it' \<longleftrightarrow> in_initialized it' = in_initialized it \<and> in_map_entries it' = in_map_entries it \<and>
     in_map_first_block it' = in_map_first_block it \<and> in_map_count it' = in_map_count it \<and> in_ctx it' = in_ctx it"

lemma same_map_refl [simp]: "same_map it it"
  by (simp add: same_map_def)

lemma same_map_trans: "same_map it it' \<Longrightarrow> same_map it' it'' \<Longrightarrow> same_map it it''"
  by (simp add: same_map_def)

lemma same_map_region: "same_map it it' \<Longrightarrow> in_map_region it' = in_map_region it"
  by (auto simp: same_map_def in_map_region_def fun_eq_iff)

text \<open>The blocks whose hash is kept.\<close>

definition covered :: "IntegrityState \<Rightarrow> nat \<Rightarrow> bool" where
  "covered it block \<longleftrightarrow> in_initialized it \<and> block < in_map_entries it \<and> \<not> in_map_region it block"

lemma same_map_covered: "same_map it it' \<Longrightarrow> covered it' = covered it"
proof -
  assume sm: "same_map it it'"
  have f: "in_initialized it' = in_initialized it" "in_map_entries it' = in_map_entries it" using sm by (simp_all add: same_map_def)
  show ?thesis unfolding covered_def fun_eq_iff f same_map_region [OF sm] by simp
qed

lemma covered_idx:
  "imap_ok it \<Longrightarrow> covered it block \<Longrightarrow> block div ENTRIES_PER_BLOCK < in_map_count it \<and> block div ENTRIES_PER_BLOCK \<noteq> SLOT_EMPTY"
proof -
  assume ok: "imap_ok it" and "covered it block"
  then have "block < in_map_count it * ENTRIES_PER_BLOCK" by (simp add: imap_ok_def covered_def)
  then have "block div ENTRIES_PER_BLOCK < in_map_count it" by (rule less_mult_imp_div_less)
  moreover have "in_map_count it < SLOT_EMPTY" using ok by (simp add: imap_ok_def SLOT_EMPTY_def)
  ultimately show ?thesis by simp
qed

lemma cache_slots [simp]: "imap_ok it \<Longrightarrow> length (in_cache it) = MAP_CACHE_SLOTS"
  by (simp add: imap_ok_def)

text \<open>
  Changing the contents, the use mark and the dirty flag of a slot. A map whose other slots and settings
  are the same stays well formed, and only the entries of that slot's map block can change.
\<close>

definition slot_changed :: "nat \<Rightarrow> MapSlot \<Rightarrow> IntegrityState \<Rightarrow> IntegrityState \<Rightarrow> bool" where
  "slot_changed s slot it it' \<longleftrightarrow> s < MAP_CACHE_SLOTS \<and> same_map it it' \<and> in_cache it' = (in_cache it)[s := slot]"

lemma slot_changed_ok:
  assumes ok: "imap_ok it" and ch: "slot_changed s slot it it'"
    and idx: "ms_map_idx slot < in_map_count it" "length (ms_entries slot) = ENTRIES_PER_BLOCK"
    and uniq: "\<And>t. t < MAP_CACHE_SLOTS \<Longrightarrow> t \<noteq> s \<Longrightarrow> ms_map_idx (in_cache it ! t) \<noteq> ms_map_idx slot"
  shows "imap_ok it'"
proof -
  have s: "s < MAP_CACHE_SLOTS" "same_map it it'" "in_cache it' = (in_cache it)[s := slot]" using ch by (simp_all add: slot_changed_def)
  have nth: "in_cache it' ! t = (if t = s then slot else in_cache it ! t)" if "t < MAP_CACHE_SLOTS" for t
    using that s(3) cache_slots [OF ok] by simp
  have idxs: "ms_map_idx (in_cache it' ! t) \<noteq> SLOT_EMPTY \<longrightarrow>
      ms_map_idx (in_cache it' ! t) < in_map_count it' \<and> length (ms_entries (in_cache it' ! t)) = ENTRIES_PER_BLOCK"
    if "t < MAP_CACHE_SLOTS" for t
    using that nth [OF that] ok idx s(2) unfolding imap_ok_def same_map_def by metis
  have dist: "t = u" if "t < MAP_CACHE_SLOTS" "u < MAP_CACHE_SLOTS" "ms_map_idx (in_cache it' ! t) = ms_map_idx (in_cache it' ! u)"
    "ms_map_idx (in_cache it' ! t) \<noteq> SLOT_EMPTY" for t u
  proof (cases "t = s \<or> u = s")
    case True
    then show ?thesis using that nth [OF that(1)] nth [OF that(2)] uniq by metis
  next
    case False
    then have e: "in_cache it' ! t = in_cache it ! t" "in_cache it' ! u = in_cache it ! u" using nth that by simp_all
    show ?thesis using ok that unfolding e imap_ok_def by blast
  qed
  have rest: "length (in_cache it') = MAP_CACHE_SLOTS" "in_map_first_block it' + in_map_count it' < 2 ^ 32 - 1"
    "in_initialized it' \<longrightarrow> in_map_first_block it' \<noteq> 0" "in_map_entries it' \<le> in_map_count it' * ENTRIES_PER_BLOCK"
    using ok s(2,3) by (simp_all add: imap_ok_def same_map_def)
  show ?thesis unfolding imap_ok_def using rest idxs dist by blast
qed

text \<open>A slot that keeps its map block.\<close>

lemma slot_kept_ok:
  assumes ok: "imap_ok it" and ch: "slot_changed s slot it it'"
    and kept: "ms_map_idx slot = ms_map_idx (in_cache it ! s)" "length (ms_entries slot) = length (ms_entries (in_cache it ! s))"
    and full: "ms_map_idx (in_cache it ! s) \<noteq> SLOT_EMPTY"
  shows "imap_ok it' \<and> slot_of (in_cache it') = slot_of (in_cache it)"
proof -
  have s: "s < MAP_CACHE_SLOTS" "in_cache it' = (in_cache it)[s := slot]" using ch by (simp_all add: slot_changed_def)
  have old: "ms_map_idx (in_cache it ! s) < in_map_count it" "length (ms_entries (in_cache it ! s)) = ENTRIES_PER_BLOCK"
    using ok s(1) full unfolding imap_ok_def by blast+
  have dist: "\<forall>s<MAP_CACHE_SLOTS. \<forall>t<MAP_CACHE_SLOTS. ms_map_idx (in_cache it ! s) = ms_map_idx (in_cache it ! t) \<longrightarrow>
        ms_map_idx (in_cache it ! s) \<noteq> SLOT_EMPTY \<longrightarrow> s = t" using ok unfolding imap_ok_def by blast
  then have "ms_map_idx (in_cache it ! t) \<noteq> ms_map_idx slot" if "t < MAP_CACHE_SLOTS" "t \<noteq> s" for t
    using that s(1) full kept(1) by metis
  then have "imap_ok it'" using slot_changed_ok [OF ok ch] old kept by simp
  moreover have "ms_map_idx (in_cache it' ! t) = ms_map_idx (in_cache it ! t)" for t
    using kept(1) s cache_slots [OF ok] by (simp add: nth_list_update)
  then have "slot_of (in_cache it') = slot_of (in_cache it)" by (simp add: slot_of_def fun_eq_iff)
  ultimately show ?thesis by simp
qed

lemma touch_slot_ok:
  assumes "imap_ok it" "slot_of (in_cache it) idx = Some s" "idx \<noteq> SLOT_EMPTY"
  shows "imap_ok (touch_slot s it)" "same_map it (touch_slot s it)" "recorded (touch_slot s it) disk = recorded it disk"
    "synced (touch_slot s it) disk = synced it disk" "slot_of (in_cache (touch_slot s it)) idx = Some s"
proof -
  let ?slot = "(in_cache it ! s)\<lparr>ms_lru := next_tick it\<rparr>"
  have s: "s < MAP_CACHE_SLOTS" "ms_map_idx (in_cache it ! s) = idx" using slot_of_Some [OF assms(2)] by simp_all
  have sm: "same_map it (touch_slot s it)" by (simp add: same_map_def touch_slot_def set_slot_def)
  have ca: "in_cache (touch_slot s it) = (in_cache it)[s := ?slot]" by (simp add: touch_slot_def set_slot_def)
  have ch: "slot_changed s ?slot it (touch_slot s it)" using s(1) sm ca by (simp add: slot_changed_def)
  have k: "imap_ok (touch_slot s it) \<and> slot_of (in_cache (touch_slot s it)) = slot_of (in_cache it)"
    by (rule slot_kept_ok [OF assms(1) ch]) (simp_all add: s assms(3))
  have same: "ms_entries (in_cache (touch_slot s it) ! t) = ms_entries (in_cache it ! t)"
    "ms_map_idx (in_cache (touch_slot s it) ! t) = ms_map_idx (in_cache it ! t)"
    "ms_dirty (in_cache (touch_slot s it) ! t) = ms_dirty (in_cache it ! t)" for t
    using s(1) cache_slots [OF assms(1)] by (simp_all add: ca nth_list_update)
  have first: "in_map_first_block (touch_slot s it) = in_map_first_block it" using sm by (simp add: same_map_def)
  show "imap_ok (touch_slot s it)" "same_map it (touch_slot s it)" "slot_of (in_cache (touch_slot s it)) idx = Some s"
    using k sm assms(2) by simp_all
  show "recorded (touch_slot s it) disk = recorded it disk" "synced (touch_slot s it) disk = synced it disk"
    using k first by (simp_all add: recorded_def synced_def same fun_eq_iff split: option.splits)
qed

lemma put_entry_ok:
  assumes ok: "imap_ok it" and s: "slot_of (in_cache it) (block div ENTRIES_PER_BLOCK) = Some s" "block div ENTRIES_PER_BLOCK \<noteq> SLOT_EMPTY"
  shows "imap_ok (put_entry s (block mod ENTRIES_PER_BLOCK) h it)" "same_map it (put_entry s (block mod ENTRIES_PER_BLOCK) h it)"
    "recorded (put_entry s (block mod ENTRIES_PER_BLOCK) h it) disk = (recorded it disk)(block := h)"
    "synced it disk \<Longrightarrow> synced (put_entry s (block mod ENTRIES_PER_BLOCK) h it) disk"
proof -
  let ?idx = "block div ENTRIES_PER_BLOCK" and ?off = "block mod ENTRIES_PER_BLOCK" and ?old = "in_cache it ! s"
  let ?slot = "?old\<lparr>ms_entries := (ms_entries ?old)[?off := h], ms_dirty := True\<rparr>" and ?it = "put_entry s ?off h it"
  have s': "s < MAP_CACHE_SLOTS" "ms_map_idx ?old = ?idx" using slot_of_Some [OF s(1)] by simp_all
  have len: "length (ms_entries ?old) = ENTRIES_PER_BLOCK" using ok s' s(2) unfolding imap_ok_def by metis
  have off: "?off < ENTRIES_PER_BLOCK" by (simp add: ENTRIES_PER_BLOCK_def)
  show sm: "same_map it ?it" by (simp add: same_map_def put_entry_def Let_def set_slot_def)
  have ch: "slot_changed s ?slot it ?it" if "ms_entries ?old ! ?off \<noteq> h"
    using that s'(1) sm by (simp add: slot_changed_def put_entry_def Let_def set_slot_def)
  have k: "imap_ok ?it \<and> slot_of (in_cache ?it) = slot_of (in_cache it)"
  proof (cases "ms_entries ?old ! ?off = h")
    case False
    show ?thesis by (rule slot_kept_ok [OF ok ch [OF False]]) (simp_all add: s' s(2))
  qed (use ok in \<open>simp add: put_entry_def Let_def\<close>)
  then show "imap_ok ?it" by simp
  have ents: "ms_entries (in_cache ?it ! t) = (if t = s then (ms_entries ?old)[?off := h] else ms_entries (in_cache it ! t))"
    if "t < MAP_CACHE_SLOTS" for t
    using that cache_slots [OF ok] by (auto simp: put_entry_def Let_def set_slot_def nth_list_update list_update_same_conv len off)
  have first: "in_map_first_block ?it = in_map_first_block it" using sm by (simp add: same_map_def)
  show "recorded ?it disk = (recorded it disk)(block := h)"
  proof
    fix b
    show "recorded ?it disk b = ((recorded it disk)(block := h)) b"
    proof (cases "slot_of (in_cache it) (b div ENTRIES_PER_BLOCK)")
      case None
      then have "b \<noteq> block" using s(1) by auto
      then show ?thesis using k first None by (simp add: recorded_def)
    next
      case (Some t)
      have t: "t < MAP_CACHE_SLOTS" "ms_map_idx (in_cache it ! t) = b div ENTRIES_PER_BLOCK" using slot_of_Some [OF Some] by simp_all
      have "b = block \<longleftrightarrow> t = s \<and> b mod ENTRIES_PER_BLOCK = ?off"
        using t(2) s'(2) Some s(1) by (metis div_mult_mod_eq option.inject)
      then show ?thesis using k Some ents [OF t(1)] len off by (auto simp: recorded_def nth_list_update)
    qed
  qed
  show "synced ?it disk" if sy: "synced it disk"
  proof (cases "ms_entries ?old ! ?off = h")
    case False
    have "in_cache ?it ! t = (if t = s then ?slot else in_cache it ! t)" if "t < MAP_CACHE_SLOTS" for t
      using that cache_slots [OF ok] False by (simp add: put_entry_def Let_def set_slot_def nth_list_update)
    then show ?thesis using sy first by (auto simp: synced_def)
  qed (use sy in \<open>simp add: put_entry_def Let_def\<close>)
qed

text \<open>
  Taking a map block into the place of the victim: nothing recorded changes, provided the victim is empty,
  or clean, or has just been written to the volume.
\<close>

lemma load_slot_ok:
  assumes ok: "imap_ok it" and new: "slot_of (in_cache it) idx = None" "idx < in_map_count it" and v: "v < MAP_CACHE_SLOTS"
  shows "imap_ok (load_slot v idx (map_block_entries buf) it)" "same_map it (load_slot v idx (map_block_entries buf) it)"
    "slot_of (in_cache (load_slot v idx (map_block_entries buf) it)) idx = Some v"
proof -
  let ?slot = "\<lparr>ms_map_idx = idx, ms_lru = next_tick it, ms_dirty = False, ms_entries = map_block_entries buf\<rparr>"
  let ?it = "load_slot v idx (map_block_entries buf) it"
  show sm: "same_map it ?it" by (simp add: same_map_def load_slot_def set_slot_def)
  have ca: "in_cache ?it = (in_cache it)[v := ?slot]" by (simp add: load_slot_def set_slot_def)
  have ch: "slot_changed v ?slot it ?it" using v sm ca by (simp add: slot_changed_def)
  show ok': "imap_ok ?it"
    by (rule slot_changed_ok [OF ok ch]) (use new slot_of_None in auto)
  have "idx \<noteq> SLOT_EMPTY" using new(2) ok by (auto simp: imap_ok_def SLOT_EMPTY_def)
  then show "slot_of (in_cache ?it) idx = Some v"
    using slot_of_unique [OF ok' v, of idx] cache_slots [OF ok] v by (simp add: ca)
qed

lemma load_slot_recorded:
  assumes ok: "imap_ok it" and new: "slot_of (in_cache it) idx = None" "idx < in_map_count it" and v: "v < MAP_CACHE_SLOTS"
    and victim: "ms_map_idx (in_cache it ! v) \<noteq> SLOT_EMPTY \<Longrightarrow>
      ms_entries (in_cache it ! v) = map_block_entries (disk (in_map_first_block it + ms_map_idx (in_cache it ! v)))"
    and b: "b div ENTRIES_PER_BLOCK \<noteq> SLOT_EMPTY" and buf: "buf = disk (in_map_first_block it + idx)"
  shows "recorded (load_slot v idx (map_block_entries buf) it) disk b = recorded it disk b"
proof -
  let ?it = "load_slot v idx (map_block_entries buf) it" and ?bi = "b div ENTRIES_PER_BLOCK"
  have ca: "in_cache ?it ! t = (if t = v then \<lparr>ms_map_idx = idx, ms_lru = next_tick it, ms_dirty = False, ms_entries = map_block_entries buf\<rparr>
      else in_cache it ! t)" if "t < MAP_CACHE_SLOTS" for t
    using that cache_slots [OF ok] by (simp add: load_slot_def set_slot_def nth_list_update)
  note l = load_slot_ok [OF ok new v, of buf]
  have first: "in_map_first_block ?it = in_map_first_block it" using l(2) by (simp add: same_map_def)
  show ?thesis
  proof (cases "?bi = idx")
    case True
    then show ?thesis using l(3) new(1) ca [OF v] buf by (simp add: recorded_def)
  next
    case False
    show ?thesis
    proof (cases "slot_of (in_cache it) ?bi")
      case None
      have "slot_of (in_cache ?it) ?bi = None" using None ca False unfolding slot_of_None by auto
      then show ?thesis using None first by (simp add: recorded_def)
    next
      case (Some t)
      have t: "t < MAP_CACHE_SLOTS" "ms_map_idx (in_cache it ! t) = ?bi" using slot_of_Some [OF Some] by simp_all
      show ?thesis
      proof (cases "t = v")
        case True
        have "slot_of (in_cache ?it) ?bi = None"
        proof (rule ccontr)
          assume "slot_of (in_cache ?it) ?bi \<noteq> None"
          then obtain u where u: "u < MAP_CACHE_SLOTS" "ms_map_idx (in_cache ?it ! u) = ?bi" using slot_of_Some by blast
          then have "u \<noteq> v" "ms_map_idx (in_cache it ! u) = ?bi" using ca [OF u(1)] False by (auto split: if_splits)
          then have "slot_of (in_cache it) ?bi = Some u" using slot_of_unique [OF ok u(1) _ b] by simp
          then show False using Some True \<open>u \<noteq> v\<close> by simp
        qed
        then show ?thesis using Some victim t True b first by (simp add: recorded_def)
      next
        case False
        then have c: "in_cache ?it ! t = in_cache it ! t" using ca [OF t(1)] by simp
        then have "slot_of (in_cache ?it) ?bi = Some t" using slot_of_unique [OF l(1) t(1) _ b] t(2) by simp
        then show ?thesis using Some c by (simp add: recorded_def)
      qed
    qed
  qed
qed

lemma load_slot_synced:
  assumes "imap_ok it" "synced it disk" "v < MAP_CACHE_SLOTS" "buf = disk (in_map_first_block it + idx)"
  shows "synced (load_slot v idx (map_block_entries buf) it) disk"
  using assms cache_slots [OF assms(1)] by (auto simp: synced_def load_slot_def set_slot_def nth_list_update)

lemma note_rot_ok:
  "imap_ok (note_rot block it) = imap_ok it" "same_map it (note_rot block it)" "recorded (note_rot block it) disk = recorded it disk"
  "synced (note_rot block it) disk = synced it disk"
proof -
  have f: "in_initialized (note_rot block it) = in_initialized it" "in_map_entries (note_rot block it) = in_map_entries it"
    "in_map_first_block (note_rot block it) = in_map_first_block it" "in_map_count (note_rot block it) = in_map_count it"
    "in_cache (note_rot block it) = in_cache it" "in_ctx (note_rot block it) = in_ctx it"
    by (simp_all add: note_rot_def)
  show "imap_ok (note_rot block it) = imap_ok it" "same_map it (note_rot block it)" "synced (note_rot block it) disk = synced it disk"
    unfolding imap_ok_def same_map_def synced_def f by simp_all
  show "recorded (note_rot block it) disk = recorded it disk" unfolding recorded_def f ..
qed

end
