(* ===== verification/BlockIo.thy ===== *)
theory BlockIo
  imports IntegrityMap
begin

text \<open>
  Block I/O of TagFS (kernel/tagfs/tagfs.c), up to the calls into the integrity map: the read-ahead cache of
  four blocks in front of the disk the volume is on, Braid beside it, and the bodies of \<^verbatim>\<open>read_block\<close> and
  \<^verbatim>\<open>write_block\<close> with the call of \<^verbatim>\<open>IntegrityVerify\<close> or \<^verbatim>\<open>IntegrityUpdate\<close> as an argument. Theory Integrity supplies
  those calls; on the blocks of the map itself they return at once, and the bodies with an argument that does
  nothing are the reads and writes of map blocks. The disks are those of theory Braid, a function from disk
  and sector to the bytes of the block that starts there. Parameters: whether the medium is still the one that
  was mounted, which raw reads and writes succeed, whether \<^verbatim>\<open>kmalloc\<close> gives a buffer for a run, and how many
  sectors the medium takes at a time. \<open>None\<close> as the result of an operation is an out-of-bounds access inside
  Braid.

  The lemmas show that every valid entry of the cache holds what is on the disk, and what the bodies do on a
  volume that is not braided.
\<close>

section \<open>State\<close>

definition TAGFS_READ_AHEAD_BLOCKS :: nat where "TAGFS_READ_AHEAD_BLOCKS = 4"

record ReadAheadEntry =
  ra_block :: nat
  ra_data :: bytes
  ra_valid :: bool

record IoState =
  io_cache :: "ReadAheadEntry list"
  io_head :: nat
  io_last_block :: nat
  io_medium_left :: bool
  io_data_block :: nat
  io_volume_base :: nat
  io_seat :: nat
  io_braid :: BraidState
  io_integrity :: IntegrityState

record IoEnv =
  ev_seated :: bool
  ev_disks :: BraidIo
  ev_kmalloc :: "nat \<Rightarrow> bool"
  ev_seat_run :: nat

definition block_to_vlba :: "IoState \<Rightarrow> nat \<Rightarrow> nat" where
  "block_to_vlba st block = (io_data_block st + block) * 8"

definition tagfs_block_to_sector :: "IoState \<Rightarrow> nat \<Rightarrow> nat" where
  "tagfs_block_to_sector st block = io_volume_base st + block_to_vlba st block"

text \<open>
  \<^verbatim>\<open>disk_read_sectors\<close> of \<open>n\<close> whole blocks and \<^verbatim>\<open>disk_write_sectors\<close> of one, through \<^verbatim>\<open>tagfs_volume_read\<close> and
  \<^verbatim>\<open>tagfs_volume_write\<close>, which add the volume's first sector. A write that fails on this path is one the driver
  refused, and leaves the block as it was.
\<close>

definition disk_read_blocks :: "IoEnv \<Rightarrow> IoState \<Rightarrow> nat \<Rightarrow> nat \<Rightarrow> bytes list option" where
  "disk_read_blocks env st vlba n =
     (if bi_read (ev_disks env) (io_seat st) (io_volume_base st + vlba)
      then Some (map (\<lambda>k. br_media (io_braid st) (io_seat st) (io_volume_base st + vlba + 8 * k)) [0..<n]) else None)"

definition disk_write_block :: "IoEnv \<Rightarrow> IoState \<Rightarrow> nat \<Rightarrow> bytes \<Rightarrow> IoState option" where
  "disk_write_block env st vlba data =
     (let seat = io_seat st; sector = io_volume_base st + vlba; media = br_media (io_braid st)
      in if bi_write (ev_disks env) seat sector
         then Some (st\<lparr>io_braid := (io_braid st)\<lparr>br_media := media(seat := (media seat)(sector := data))\<rparr>\<rparr>) else None)"

section \<open>The cache\<close>

definition no_block :: ReadAheadEntry where
  "no_block = \<lparr>ra_block = 0, ra_data = replicate 4096 0, ra_valid = False\<rparr>"

definition ReadAheadInit :: "IoState \<Rightarrow> IoState" where
  "ReadAheadInit st = st\<lparr>io_cache := replicate TAGFS_READ_AHEAD_BLOCKS no_block, io_head := 0, io_last_block := 0\<rparr>"

definition holds_block :: "nat \<Rightarrow> ReadAheadEntry \<Rightarrow> bool" where
  "holds_block block e \<longleftrightarrow> ra_valid e \<and> ra_block e = block"

definition ReadAheadLookup :: "IoState \<Rightarrow> nat \<Rightarrow> bytes option" where
  "ReadAheadLookup st block = map_option ra_data (find (holds_block block) (io_cache st))"

definition ReadAheadHas :: "IoState \<Rightarrow> nat \<Rightarrow> bool" where
  "ReadAheadHas st block \<longleftrightarrow> (\<exists>e\<in>set (io_cache st). holds_block block e)"

text \<open>The first loop of \<^verbatim>\<open>ReadAheadPrefetch\<close>: the blocks to fetch, each with the slot set aside for it.\<close>

definition plan_block :: "nat \<Rightarrow> IoState \<times> (nat \<times> nat) list \<Rightarrow> nat \<Rightarrow> IoState \<times> (nat \<times> nat) list" where
  "plan_block start_block = (\<lambda>(st, fetch) i.
     let block = u32_wrap (start_block + i); slot = io_head st mod TAGFS_READ_AHEAD_BLOCKS
     in if block = io_last_block st then (st, fetch)
        else if \<exists>e\<in>set (io_cache st). holds_block block e then (st, fetch)
        else (st\<lparr>io_cache := (io_cache st)[slot := (io_cache st ! slot)\<lparr>ra_valid := False\<rparr>],
                 io_head := u32_wrap (io_head st + 1)\<rparr>,
              fetch @ [(block, slot)]))"

definition prefetch_plan :: "nat \<Rightarrow> nat \<Rightarrow> IoState \<Rightarrow> IoState \<times> (nat \<times> nat) list" where
  "prefetch_plan start_block k st =
     (let (st1, fetch) = foldl (plan_block start_block) (st, []) [0..<min k TAGFS_READ_AHEAD_BLOCKS]
      in (st1\<lparr>io_last_block := u32_wrap (start_block + k + 2 ^ 32 - 1)\<rparr>, fetch))"

text \<open>
  The second loop: runs of neighbouring blocks, at most as long as the medium takes at a time, are read
  at once and stored in their slots.
\<close>

fun run_len :: "nat \<Rightarrow> nat \<Rightarrow> (nat \<times> nat) list \<Rightarrow> nat \<Rightarrow> nat" where
  "run_len first run_blocks [] len = len"
| "run_len first run_blocks ((block, slot) # rest) len =
     (if block = u32_wrap (first + len) \<and> len < run_blocks then run_len first run_blocks rest (len + 1) else len)"

definition fill_entry :: "IoState \<Rightarrow> (nat \<times> nat) \<times> bytes \<Rightarrow> IoState" where
  "fill_entry st = (\<lambda>((block, slot), data).
     st\<lparr>io_cache := (io_cache st)[slot := \<lparr>ra_block = block, ra_data = data, ra_valid = True\<rparr>]\<rparr>)"

definition publish_run :: "(nat \<times> nat) list \<Rightarrow> bytes list \<Rightarrow> IoState \<Rightarrow> IoState" where
  "publish_run run data st = foldl fill_entry st (zip run data)"

definition fetch_len :: "IoEnv \<Rightarrow> nat \<Rightarrow> nat \<Rightarrow> (nat \<times> nat) list \<Rightarrow> nat" where
  "fetch_len env run_blocks first rest =
     (let len = run_len first run_blocks rest 1 in if len > 1 \<and> \<not> ev_kmalloc env first then 1 else len)"

lemma run_len_ge: "len \<le> run_len first run_blocks rest len"
  by (induction first run_blocks rest len rule: run_len.induct) auto

lemma fetch_len_pos: "0 < fetch_len env run_blocks first rest"
  using run_len_ge [of 1 first run_blocks rest] by (simp add: fetch_len_def Let_def)

function fetch_runs :: "IoEnv \<Rightarrow> nat \<Rightarrow> (nat \<times> nat) list \<Rightarrow> IoState \<Rightarrow> IoState" where
  "fetch_runs env run_blocks [] st = st"
| "fetch_runs env run_blocks ((first, slot) # rest) st =
     (let len = fetch_len env run_blocks first rest; run = take len ((first, slot) # rest)
      in fetch_runs env run_blocks (drop len ((first, slot) # rest))
           (case disk_read_blocks env st (block_to_vlba st first) len of
              None \<Rightarrow> st
            | Some data \<Rightarrow> publish_run run data st))"
  by pat_completeness auto
termination
  by (relation "measure (\<lambda>(env, run_blocks, fetch, st). length fetch)") (simp_all add: fetch_len_pos)

definition ReadAheadPrefetch :: "IoEnv \<Rightarrow> nat \<Rightarrow> nat \<Rightarrow> IoState \<Rightarrow> IoState" where
  "ReadAheadPrefetch env start_block k st =
     (if k = 0 then st
      else
        let (st1, fetch) = prefetch_plan start_block k st;
            run_blocks = min (max 1 (ev_seat_run env div 8)) TAGFS_READ_AHEAD_BLOCKS
        in fetch_runs env run_blocks fetch st1)"

definition ReadAheadInvalidate :: "nat \<Rightarrow> IoState \<Rightarrow> IoState" where
  "ReadAheadInvalidate block st =
     st\<lparr>io_cache := map (\<lambda>e. if holds_block block e then e\<lparr>ra_valid := False\<rparr> else e) (io_cache st)\<rparr>"

definition tagfs_readahead_invalidate :: "nat \<Rightarrow> IoState \<Rightarrow> IoState" where
  "tagfs_readahead_invalidate block st = ReadAheadInvalidate block st"

definition ReadAheadForget :: "IoState \<Rightarrow> IoState" where
  "ReadAheadForget st = st\<lparr>io_cache := map (\<lambda>e. e\<lparr>ra_valid := False\<rparr>) (io_cache st)\<rparr>"

section \<open>Reading and writing a block\<close>

text \<open>\<open>ev_seated\<close>: there is no seat to watch, or the seat still holds the medium that was mounted.\<close>

definition volume_medium_gone :: "IoEnv \<Rightarrow> IoState \<Rightarrow> bool \<times> IoState" where
  "volume_medium_gone env st =
     (if io_medium_left st then (True, st)
      else if ev_seated env then (False, st)
      else (True, ReadAheadForget (st\<lparr>io_medium_left := True\<rparr>)))"

text \<open>\<open>verify\<close> is the call of \<^verbatim>\<open>IntegrityVerify\<close>, whose answer \<^verbatim>\<open>read_block\<close> discards.\<close>

definition read_block_with ::
  "(nat \<Rightarrow> bytes \<Rightarrow> IoState \<Rightarrow> IoState option) \<Rightarrow> IoEnv \<Rightarrow> nat \<Rightarrow> IoState \<Rightarrow> (bytes option \<times> IoState) option" where
  "read_block_with verify env block st =
     (let (gone, st) = volume_medium_gone env st
      in if gone then Some (None, st)
         else case ReadAheadLookup st block of
           Some data \<Rightarrow> Some (Some data, st)
         | None \<Rightarrow>
             let direct = (\<lambda>st. case disk_read_blocks env st (block_to_vlba st block) 1 of
                             None \<Rightarrow> Some (None, st)
                           | Some ds \<Rightarrow> map_option (Pair (Some (hd ds))) (verify block (hd ds) st))
             in if BraidIsHealthy (io_braid st)
                then case BraidReadBlock (ev_disks env) (tagfs_block_to_sector st block) None (io_braid st) of
                       None \<Rightarrow> None
                     | Some (Inr data, br) \<Rightarrow> Some (Some data, st\<lparr>io_braid := br\<rparr>)
                     | Some (Inl err, br) \<Rightarrow> direct (st\<lparr>io_braid := br\<rparr>)
                else direct st)"

text \<open>\<open>update\<close> is the call of \<^verbatim>\<open>IntegrityUpdate\<close>.\<close>

definition write_block_with ::
  "(nat \<Rightarrow> bytes \<Rightarrow> IoState \<Rightarrow> IoState option) \<Rightarrow> IoEnv \<Rightarrow> nat \<Rightarrow> bytes \<Rightarrow> IoState \<Rightarrow> (bool \<times> IoState) option" where
  "write_block_with update env block data st =
     (let (gone, st) = volume_medium_gone env st
      in if gone then Some (False, st)
         else
           let written = (\<lambda>st. map_option (Pair True) (update block data (ReadAheadInvalidate block st)));
               direct = (\<lambda>st. case disk_write_block env st (block_to_vlba st block) data of
                           None \<Rightarrow> Some (False, st)
                         | Some st' \<Rightarrow> written st')
           in if BraidIsHealthy (io_braid st)
              then case BraidWriteBlock (ev_disks env) (tagfs_block_to_sector st block) data (io_braid st) of
                     None \<Rightarrow> None
                   | Some (err, br) \<Rightarrow> if err = OK then written (st\<lparr>io_braid := br\<rparr>) else direct (st\<lparr>io_braid := br\<rparr>)
              else direct st)"

text \<open>Blocks of the integrity map are read and written without a further call into it.\<close>

definition read_map_block :: "IoEnv \<Rightarrow> nat \<Rightarrow> IoState \<Rightarrow> (bytes option \<times> IoState) option" where
  "read_map_block = read_block_with (\<lambda>block data st. Some st)"

definition write_map_block :: "IoEnv \<Rightarrow> nat \<Rightarrow> bytes \<Rightarrow> IoState \<Rightarrow> (bool \<times> IoState) option" where
  "write_map_block = write_block_with (\<lambda>block data st. Some st)"

section \<open>Coherence\<close>

text \<open>What the volume's disk holds for a block.\<close>

definition on_disk :: "IoState \<Rightarrow> nat \<Rightarrow> bytes" where
  "on_disk st block = br_media (io_braid st) (io_seat st) (tagfs_block_to_sector st block)"

definition coherent :: "IoState \<Rightarrow> bool" where
  "coherent st \<longleftrightarrow> length (io_cache st) = TAGFS_READ_AHEAD_BLOCKS \<and>
     (\<forall>e\<in>set (io_cache st). ra_valid e \<longrightarrow> ra_data e = on_disk st (ra_block e))"

text \<open>The disk and everything that says where a block lies on it.\<close>

definition same_disk :: "IoState \<Rightarrow> IoState \<Rightarrow> bool" where
  "same_disk st st' \<longleftrightarrow> io_data_block st' = io_data_block st \<and> io_volume_base st' = io_volume_base st \<and>
     io_seat st' = io_seat st \<and> io_braid st' = io_braid st \<and> io_integrity st' = io_integrity st"

lemma same_disk_on_disk: "same_disk st st' \<Longrightarrow> on_disk st' = on_disk st"
  by (auto simp: same_disk_def on_disk_def tagfs_block_to_sector_def block_to_vlba_def fun_eq_iff)

lemma same_disk_refl [simp]: "same_disk st st"
  by (simp add: same_disk_def)

lemma same_disk_trans: "same_disk st st' \<Longrightarrow> same_disk st' st'' \<Longrightarrow> same_disk st st''"
  by (simp add: same_disk_def)

lemma same_disk_cache [simp]:
  "same_disk st (st\<lparr>io_cache := c\<rparr>)" "same_disk st (st\<lparr>io_cache := c, io_head := h\<rparr>)" "same_disk st (st\<lparr>io_last_block := l\<rparr>)"
  "same_disk st (st\<lparr>io_medium_left := m\<rparr>)"
  by (simp_all add: same_disk_def)

lemma on_disk_cache [simp]:
  "on_disk (st\<lparr>io_cache := c\<rparr>) = on_disk st" "on_disk (st\<lparr>io_cache := c, io_head := h\<rparr>) = on_disk st"
  "on_disk (st\<lparr>io_last_block := l\<rparr>) = on_disk st" "on_disk (st\<lparr>io_medium_left := m\<rparr>) = on_disk st"
  by (simp_all add: same_disk_on_disk)

lemma invalidate_coherent:
  assumes "coherent st"
  shows "coherent (ReadAheadInvalidate block st)" "same_disk st (ReadAheadInvalidate block st)"
    "\<not> ReadAheadHas (ReadAheadInvalidate block st) block"
proof -
  show sd: "same_disk st (ReadAheadInvalidate block st)" by (simp add: ReadAheadInvalidate_def)
  show "coherent (ReadAheadInvalidate block st)"
    unfolding coherent_def
  proof (intro conjI ballI impI)
    show "length (io_cache (ReadAheadInvalidate block st)) = TAGFS_READ_AHEAD_BLOCKS"
      using assms by (simp add: coherent_def ReadAheadInvalidate_def)
    fix e assume e: "e \<in> set (io_cache (ReadAheadInvalidate block st))" "ra_valid e"
    then have "e \<in> set (io_cache st)" by (auto simp: ReadAheadInvalidate_def split: if_splits)
    then show "ra_data e = on_disk (ReadAheadInvalidate block st) (ra_block e)"
      using assms e(2) by (simp add: coherent_def same_disk_on_disk [OF sd])
  qed
  show "\<not> ReadAheadHas (ReadAheadInvalidate block st) block"
  proof
    assume "ReadAheadHas (ReadAheadInvalidate block st) block"
    then obtain e where e: "e \<in> set (io_cache st)"
      "holds_block block (if holds_block block e then e\<lparr>ra_valid := False\<rparr> else e)"
      unfolding ReadAheadHas_def ReadAheadInvalidate_def by fastforce
    show False
    proof (cases "holds_block block e")
      case True
      then show ?thesis using e(2) by (simp add: holds_block_def)
    next
      case False
      then show ?thesis using e(2) by simp
    qed
  qed
qed

lemma forget_coherent: "coherent st \<Longrightarrow> coherent (ReadAheadForget st) \<and> same_disk st (ReadAheadForget st)"
  by (auto simp: ReadAheadForget_def coherent_def)

lemma lookup_coherent: "coherent st \<Longrightarrow> ReadAheadLookup st block = Some data \<Longrightarrow> data = on_disk st block"
  by (auto simp: ReadAheadLookup_def coherent_def find_Some_iff holds_block_def)

lemma coherent_update:
  assumes "coherent st" "ra_valid e \<Longrightarrow> ra_data e = on_disk st (ra_block e)"
  shows "coherent (st\<lparr>io_cache := (io_cache st)[slot := e]\<rparr>)"
  using assms by (auto simp: coherent_def dest!: set_update_subset_insert [THEN subsetD])

lemma plan_block_coherent:
  assumes "coherent st"
  shows "coherent (fst (plan_block start (st, fetch) i)) \<and> same_disk st (fst (plan_block start (st, fetch) i))"
proof -
  let ?slot = "io_head st mod TAGFS_READ_AHEAD_BLOCKS"
  have "coherent (st\<lparr>io_cache := (io_cache st)[?slot := (io_cache st ! ?slot)\<lparr>ra_valid := False\<rparr>]\<rparr>)"
    by (rule coherent_update [OF assms]) simp
  then have "coherent (st\<lparr>io_cache := (io_cache st)[?slot := (io_cache st ! ?slot)\<lparr>ra_valid := False\<rparr>], io_head := h\<rparr>)" for h
    by (simp add: coherent_def)
  then show ?thesis using assms by (simp add: plan_block_def Let_def)
qed

lemma prefetch_plan_coherent:
  assumes "coherent st"
  shows "coherent (fst (prefetch_plan start k st)) \<and> same_disk st (fst (prefetch_plan start k st))"
proof -
  have fold: "coherent (fst (foldl (plan_block start) (s, fetch) is)) \<and> same_disk s (fst (foldl (plan_block start) (s, fetch) is))"
    if "coherent s" for s fetch "is"
    using that
  proof (induction "is" arbitrary: s fetch)
    case (Cons i rest)
    obtain s1 f1 where p: "plan_block start (s, fetch) i = (s1, f1)" by fastforce
    have "coherent s1" "same_disk s s1" using plan_block_coherent [OF Cons.prems, of start fetch i] p by simp_all
    then show ?case using Cons.IH [of s1 f1] p same_disk_trans by auto
  qed simp
  obtain s1 f1 where p: "foldl (plan_block start) (st, []) [0..<min k TAGFS_READ_AHEAD_BLOCKS] = (s1, f1)" by fastforce
  have "coherent s1" "same_disk st s1" using fold [OF assms, of "[]" "[0..<min k TAGFS_READ_AHEAD_BLOCKS]"] p by simp_all
  then show ?thesis unfolding prefetch_plan_def p by (simp add: coherent_def same_disk_def)
qed

text \<open>The data of a run is what the disk holds for its blocks: they follow one another.\<close>

lemma run_len_blocks:
  assumes "j < run_len first run_blocks rest len" "len \<le> j"
  shows "j - len < length rest \<and> fst (rest ! (j - len)) = u32_wrap (first + j)"
  using assms
proof (induction first run_blocks rest len rule: run_len.induct)
  case (2 first run_blocks block slot rest len)
  show ?case
  proof (cases "block = u32_wrap (first + len) \<and> len < run_blocks")
    case True
    show ?thesis
    proof (cases "j = len")
      case False
      then have "j - (len + 1) < length rest \<and> fst (rest ! (j - (len + 1))) = u32_wrap (first + j)"
        using 2 True by simp
      moreover have "j - len = Suc (j - (len + 1))" using False "2.prems" by simp
      ultimately show ?thesis by simp
    qed (use True in simp)
  qed (use "2.prems" in \<open>auto split: if_splits\<close>)
qed simp

lemma run_len_le: "run_len first run_blocks rest len \<le> max len run_blocks"
  by (induction first run_blocks rest len rule: run_len.induct) auto

lemma publish_coherent:
  "coherent st \<Longrightarrow> \<forall>p\<in>set ps. snd p = on_disk st (fst (fst p)) \<Longrightarrow>
     coherent (foldl fill_entry st ps) \<and> same_disk st (foldl fill_entry st ps)"
proof (induction ps arbitrary: st)
  case (Cons p ps)
  obtain block slot data where p: "p = ((block, slot), data)" by (cases p) auto
  let ?st = "fill_entry st p"
  have "coherent ?st" unfolding fill_entry_def p using Cons.prems p by (auto intro!: coherent_update)
  moreover have sd: "same_disk st ?st" by (simp add: fill_entry_def p)
  moreover have "\<forall>p\<in>set ps. snd p = on_disk ?st (fst (fst p))" using Cons.prems(2) same_disk_on_disk [OF sd] by simp
  ultimately show ?case using Cons.IH [of ?st] same_disk_trans [OF sd] by simp
qed simp

text \<open>No block number of a run wraps: the blocks exist.\<close>

definition blocks_exist :: "(nat \<times> nat) list \<Rightarrow> bool" where
  "blocks_exist fetch \<longleftrightarrow> (\<forall>p\<in>set fetch. fst p + 4 < 2 ^ 32)"

lemma fetch_run_data:
  assumes ex: "blocks_exist ((first, slot) # rest)" and len: "len = fetch_len env run_blocks first rest" "run_blocks \<le> 4"
    and d: "disk_read_blocks env st (block_to_vlba st first) len = Some data"
  shows "\<forall>p\<in>set (zip (take len ((first, slot) # rest)) data). snd p = on_disk st (fst (fst p))"
proof
  fix p assume "p \<in> set (zip (take len ((first, slot) # rest)) data)"
  then obtain j where j: "j < len" "j < length ((first, slot) # rest)" "p = (((first, slot) # rest) ! j, data ! j)"
    by (auto simp: in_set_zip)
  have data: "data ! j = br_media (io_braid st) (io_seat st) (io_volume_base st + block_to_vlba st first + 8 * j)"
    using d j(1) by (auto simp: disk_read_blocks_def split: if_splits)
  have "fst (((first, slot) # rest) ! j) = first + j"
  proof (cases j)
    case (Suc i)
    have "j < run_len first run_blocks rest 1" using j(1) len(1) Suc by (auto simp: fetch_len_def Let_def split: if_splits)
    then have r: "fst (rest ! (j - 1)) = u32_wrap (first + j)" using run_len_blocks [of j first run_blocks rest 1] Suc by simp
    have "j < 4"
    proof -
      have "run_len first run_blocks rest 1 \<le> max 1 run_blocks" by (rule run_len_le)
      then show ?thesis using \<open>j < run_len first run_blocks rest 1\<close> len(2) by simp
    qed
    then have "u32_wrap (first + j) = first + j" using ex by (simp add: blocks_exist_def)
    then show ?thesis using r Suc by simp
  qed simp
  then show "snd p = on_disk st (fst (fst p))"
    using j(3) data by (simp add: on_disk_def tagfs_block_to_sector_def block_to_vlba_def algebra_simps)
qed

lemma fetch_runs_coherent:
  "coherent st \<Longrightarrow> blocks_exist fetch \<Longrightarrow> run_blocks \<le> 4 \<Longrightarrow>
     coherent (fetch_runs env run_blocks fetch st) \<and> same_disk st (fetch_runs env run_blocks fetch st)"
proof (induction env run_blocks fetch st rule: fetch_runs.induct)
  case (2 env run_blocks first slot rest st)
  let ?fetch = "(first, slot) # rest" and ?len = "fetch_len env run_blocks first rest"
  let ?st1 = "case disk_read_blocks env st (block_to_vlba st first) ?len of None \<Rightarrow> st | Some data \<Rightarrow> publish_run (take ?len ?fetch) data st"
  have st1: "coherent ?st1 \<and> same_disk st ?st1"
  proof (cases "disk_read_blocks env st (block_to_vlba st first) ?len")
    case None
    then show ?thesis using "2.prems"(1) by simp
  next
    case (Some data)
    show ?thesis unfolding Some option.case publish_run_def
      by (rule publish_coherent [OF "2.prems"(1) fetch_run_data [OF "2.prems"(2) refl "2.prems"(3) Some]])
  qed
  have "blocks_exist (drop ?len ?fetch)" using "2.prems"(2) set_drop_subset [of ?len ?fetch] unfolding blocks_exist_def by blast
  then have "coherent (fetch_runs env run_blocks (drop ?len ?fetch) ?st1) \<and> same_disk ?st1 (fetch_runs env run_blocks (drop ?len ?fetch) ?st1)"
    using "2.IH" [OF refl refl] st1 "2.prems"(3) by blast
  then show ?case unfolding fetch_runs.simps(2) Let_def using st1 same_disk_trans by blast
qed simp

lemma plan_blocks_exist:
  assumes "start + 8 < 2 ^ 32"
  shows "blocks_exist (snd (prefetch_plan start k st))"
proof -
  have "blocks_exist (snd (foldl (plan_block start) (s, fetch) is))" if "blocks_exist fetch" "\<forall>i\<in>set is. i < 4" for s fetch "is"
    using that
  proof (induction "is" arbitrary: s fetch)
    case (Cons i rest)
    obtain s1 f1 where p: "plan_block start (s, fetch) i = (s1, f1)" by fastforce
    have "blocks_exist f1"
      using p Cons.prems assms by (auto simp: plan_block_def Let_def blocks_exist_def split: if_splits)
    then show ?case using Cons.IH [of f1 s1] p Cons.prems(2) by simp
  qed simp
  moreover have "blocks_exist []" "\<forall>i\<in>set [0..<min k TAGFS_READ_AHEAD_BLOCKS]. i < 4"
    by (simp_all add: blocks_exist_def TAGFS_READ_AHEAD_BLOCKS_def)
  ultimately have "blocks_exist (snd (foldl (plan_block start) (st, []) [0..<min k TAGFS_READ_AHEAD_BLOCKS]))" by blast
  then show ?thesis by (cases "foldl (plan_block start) (st, []) [0..<min k TAGFS_READ_AHEAD_BLOCKS]") (simp add: prefetch_plan_def)
qed

lemma prefetch_coherent:
  assumes "coherent st" "start + 8 < 2 ^ 32"
  shows "coherent (ReadAheadPrefetch env start k st) \<and> same_disk st (ReadAheadPrefetch env start k st)"
proof -
  obtain st1 fetch where p: "prefetch_plan start k st = (st1, fetch)" by fastforce
  have s: "coherent st1" "same_disk st st1" "blocks_exist fetch"
    using prefetch_plan_coherent [OF assms(1), of start k] plan_blocks_exist [OF assms(2), of k st] p by simp_all
  let ?n = "min (max 1 (ev_seat_run env div 8)) TAGFS_READ_AHEAD_BLOCKS"
  have "?n \<le> 4" by (simp add: TAGFS_READ_AHEAD_BLOCKS_def)
  then show ?thesis using fetch_runs_coherent [OF s(1,3), of ?n env] same_disk_trans [OF s(2)] assms(1)
    by (simp add: ReadAheadPrefetch_def p)
qed

lemma prefetch_left: "io_medium_left (ReadAheadPrefetch env start k st) = io_medium_left st"
proof -
  have plan: "io_medium_left (fst (foldl (plan_block start) (s, f) is)) = io_medium_left s" for s f "is"
  proof (induction "is" arbitrary: s f)
    case (Cons i rest)
    obtain s1 f1 where p: "plan_block start (s, f) i = (s1, f1)" by fastforce
    then have "io_medium_left s1 = io_medium_left s" by (auto simp: plan_block_def Let_def split: if_splits)
    then show ?case using Cons.IH [of s1 f1] p by simp
  qed simp
  have pub: "io_medium_left (foldl fill_entry s ps) = io_medium_left s" for s ps
  proof (induction ps arbitrary: s)
    case (Cons p ps)
    have "io_medium_left (fill_entry s p) = io_medium_left s" by (simp add: fill_entry_def split: prod.splits)
    then show ?case using Cons.IH by simp
  qed simp
  have runs: "io_medium_left (fetch_runs env n fetch s) = io_medium_left s" for n fetch s
  proof (induction env n fetch s rule: fetch_runs.induct)
    case (2 env n first slot rest s)
    show ?case using "2.IH" [OF refl refl] pub by (auto simp: Let_def publish_run_def split: option.splits)
  qed simp
  obtain st1 fetch where p: "foldl (plan_block start) (st, []) [0..<min k TAGFS_READ_AHEAD_BLOCKS] = (st1, fetch)" by fastforce
  then have "io_medium_left st1 = io_medium_left st" using plan [of st "[]"] by (metis fst_conv)
  then show ?thesis using runs by (simp add: ReadAheadPrefetch_def prefetch_plan_def p)
qed

lemma gone_coherent:
  assumes "coherent st" "volume_medium_gone env st = (gone, st')"
  shows "coherent st' \<and> same_disk st st' \<and> (\<not> gone \<longrightarrow> st' = st)"
proof -
  have c: "coherent (st\<lparr>io_medium_left := True\<rparr>)" using assms(1) by (simp add: coherent_def)
  show ?thesis using assms forget_coherent [OF c] same_disk_trans [OF same_disk_cache(4)]
    by (auto simp: volume_medium_gone_def split: if_splits)
qed

lemma sector_inj: "tagfs_block_to_sector st a = tagfs_block_to_sector st b \<longleftrightarrow> a = b"
  by (simp add: tagfs_block_to_sector_def block_to_vlba_def)

section \<open>Reads and writes on a volume that is not braided\<close>

definition plain :: "IoState \<Rightarrow> bool" where
  "plain st \<longleftrightarrow> coherent st \<and> \<not> BraidIsHealthy (io_braid st)"

lemma plain_same_disk: "plain st \<Longrightarrow> coherent st' \<Longrightarrow> same_disk st st' \<Longrightarrow> plain st' \<and> on_disk st' = on_disk st"
  by (simp add: plain_def same_disk_on_disk) (simp add: same_disk_def)

text \<open>Every raw access of an environment works and the medium stays.\<close>

definition env_good :: "IoEnv \<Rightarrow> bool" where
  "env_good env \<longleftrightarrow> ev_seated env \<and> (\<forall>d s. bi_read (ev_disks env) d s)"

definition env_works :: "IoEnv \<Rightarrow> bool" where
  "env_works env \<longleftrightarrow> env_good env \<and> (\<forall>d s. bi_write (ev_disks env) d s)"

text \<open>The three ways a read ends.\<close>

lemma read_block_with_plain:
  assumes "plain st"
  obtains (failed) st' where "read_block_with verify env block st = Some (None, st')" "plain st'" "same_disk st st'"
      "\<not> (env_good env \<and> \<not> io_medium_left st)"
    | (cached) "read_block_with verify env block st = Some (Some (on_disk st block), st)"
    | (disk) "read_block_with verify env block st = map_option (Pair (Some (on_disk st block))) (verify block (on_disk st block) st)"
proof -
  obtain gone st1 where g: "volume_medium_gone env st = (gone, st1)" by fastforce
  have c: "coherent st" "\<not> BraidIsHealthy (io_braid st)" using assms by (simp_all add: plain_def)
  note gc = gone_coherent [OF c(1) g]
  show thesis
  proof (cases gone)
    case True
    have "read_block_with verify env block st = Some (None, st1)" using g True by (simp add: read_block_with_def)
    moreover have "plain st1" "same_disk st st1" using gc plain_same_disk [OF assms] by simp_all
    moreover have "\<not> (env_good env \<and> \<not> io_medium_left st)" using g True by (auto simp: volume_medium_gone_def env_good_def split: if_splits)
    ultimately show thesis by (rule failed)
  next
    case False
    then have s1: "st1 = st" using gc by simp
    show thesis
    proof (cases "ReadAheadLookup st block")
      case (Some data)
      then have "read_block_with verify env block st = Some (Some data, st)" using g False s1 by (simp add: read_block_with_def)
      then show thesis using cached lookup_coherent [OF c(1) Some] by simp
    next
      case None
      note e = g False s1 None c(2)
      show thesis
      proof (cases "bi_read (ev_disks env) (io_seat st) (tagfs_block_to_sector st block)")
        case True
        then have "disk_read_blocks env st (block_to_vlba st block) 1 = Some [on_disk st block]"
          by (simp add: disk_read_blocks_def on_disk_def tagfs_block_to_sector_def)
        then show thesis using disk e by (simp add: read_block_with_def Let_def)
      next
        case False
        then have "disk_read_blocks env st (block_to_vlba st block) 1 = None" by (simp add: disk_read_blocks_def tagfs_block_to_sector_def)
        then have "read_block_with verify env block st = Some (None, st)" using e by (simp add: read_block_with_def Let_def)
        then show thesis using failed [of st] assms False by (auto simp: env_good_def)
      qed
    qed
  qed
qed

lemma write_block_with_plain:
  assumes "plain st"
  obtains (failed) st' where "write_block_with update env block data st = Some (False, st')" "plain st'" "same_disk st st'"
      "\<not> (env_works env \<and> \<not> io_medium_left st)"
    | (disk) st1 where "write_block_with update env block data st = map_option (Pair True) (update block data st1)" "plain st1"
      "on_disk st1 = (on_disk st)(block := data)" "io_integrity st1 = io_integrity st" "io_medium_left st1 = io_medium_left st"
proof -
  obtain gone st1 where g: "volume_medium_gone env st = (gone, st1)" by fastforce
  have c: "coherent st" "\<not> BraidIsHealthy (io_braid st)" using assms by (simp_all add: plain_def)
  note gc = gone_coherent [OF c(1) g]
  show thesis
  proof (cases "gone \<or> disk_write_block env st (block_to_vlba st block) data = None")
    case True
    then have "write_block_with update env block data st = Some (False, st1)"
      using g gc c(2) by (cases gone) (simp_all add: write_block_with_def Let_def)
    moreover have "plain st1" "same_disk st st1" using gc plain_same_disk [OF assms] by simp_all
    moreover have "\<not> (env_works env \<and> \<not> io_medium_left st)"
      using g True by (auto simp: volume_medium_gone_def env_works_def env_good_def disk_write_block_def Let_def split: if_splits)
    ultimately show thesis by (rule failed)
  next
    case False
    then have s1: "st1 = st" "\<not> gone" using gc by simp_all
    obtain st2 where w: "disk_write_block env st (block_to_vlba st block) data = Some st2" using False by auto
    have st2: "st2 = st\<lparr>io_braid := (io_braid st)\<lparr>br_media := (br_media (io_braid st))(io_seat st :=
        (br_media (io_braid st) (io_seat st))(tagfs_block_to_sector st block := data))\<rparr>\<rparr>"
      using w by (auto simp: disk_write_block_def Let_def tagfs_block_to_sector_def split: if_splits)
    have od: "on_disk st2 = (on_disk st)(block := data)"
    proof
      fix b
      have "tagfs_block_to_sector st2 b = tagfs_block_to_sector st b" by (simp add: st2 tagfs_block_to_sector_def block_to_vlba_def)
      then show "on_disk st2 b = ((on_disk st)(block := data)) b" by (auto simp: on_disk_def st2 sector_inj)
    qed
    let ?st3 = "ReadAheadInvalidate block st2"
    have r: "write_block_with update env block data st = map_option (Pair True) (update block data ?st3)"
      using g s1 w c(2) by (simp add: write_block_with_def Let_def)
    have sd: "same_disk st2 ?st3" by (simp add: ReadAheadInvalidate_def)
    have "coherent ?st3" unfolding coherent_def
    proof (intro conjI ballI impI)
      show "length (io_cache ?st3) = TAGFS_READ_AHEAD_BLOCKS" using c(1) by (simp add: ReadAheadInvalidate_def st2 coherent_def)
      fix e assume e: "e \<in> set (io_cache ?st3)" "ra_valid e"
      then have "e \<in> set (io_cache st) \<and> ra_block e \<noteq> block"
        by (auto simp: ReadAheadInvalidate_def st2 holds_block_def split: if_splits)
      then show "ra_data e = on_disk ?st3 (ra_block e)"
        using c(1) e(2) by (simp add: same_disk_on_disk [OF sd] od coherent_def)
    qed
    moreover have "io_braid ?st3 = io_braid st2" using sd by (simp add: same_disk_def)
    then have "\<not> BraidIsHealthy (io_braid ?st3)" using c(2) same_config_healthy [OF same_config_media] by (simp add: st2)
    ultimately have "plain ?st3" by (simp add: plain_def)
    moreover have "on_disk ?st3 = (on_disk st)(block := data)" using same_disk_on_disk [OF sd] od by simp
    moreover have "io_integrity ?st3 = io_integrity st" "io_medium_left ?st3 = io_medium_left st"
      by (simp_all add: ReadAheadInvalidate_def st2)
    ultimately show thesis by (intro disk [OF r])
  qed
qed

text \<open>Reading and writing blocks of the map.\<close>

lemma read_map_block_plain:
  assumes "plain st"
  shows "\<exists>res st'. read_map_block env block st = Some (res, st') \<and> plain st' \<and> same_disk st st' \<and>
    (\<forall>data. res = Some data \<longrightarrow> data = on_disk st block) \<and> (env_good env \<and> \<not> io_medium_left st \<longrightarrow> res \<noteq> None \<and> st' = st)"
  unfolding read_map_block_def
  by (rule read_block_with_plain [OF assms, of "\<lambda>block data st. Some st" env block]) (use assms in auto)

lemma write_map_block_plain:
  assumes "plain st"
  shows "\<exists>ok st'. write_map_block env block data st = Some (ok, st') \<and> plain st' \<and> io_integrity st' = io_integrity st \<and>
    on_disk st' = (if ok then (on_disk st)(block := data) else on_disk st) \<and>
    (env_works env \<and> \<not> io_medium_left st \<longrightarrow> ok \<and> \<not> io_medium_left st')"
proof -
  consider (failed) st' where "write_map_block env block data st = Some (False, st')" "plain st'" "same_disk st st'"
      "\<not> (env_works env \<and> \<not> io_medium_left st)"
    | (disk) st1 where "write_map_block env block data st = Some (True, st1)" "plain st1"
      "on_disk st1 = (on_disk st)(block := data)" "io_integrity st1 = io_integrity st" "io_medium_left st1 = io_medium_left st"
    unfolding write_map_block_def
    by (rule write_block_with_plain [OF assms, of "\<lambda>block data st. Some st" env block data]) auto
  then show ?thesis
  proof cases
    case failed
    then show ?thesis using same_disk_on_disk [OF failed(3)] by (auto simp: same_disk_def)
  qed auto
qed

end
