(* ===== verification/Integrity.thy ===== *)
theory Integrity
  imports BlockIo
begin

text \<open>
  The integrity map at work (kernel/tagfs/integrity/integrity.c) and with it the block reads and writes of
  TagFS in full (\<^verbatim>\<open>read_block\<close>, \<^verbatim>\<open>write_block\<close>, \<^verbatim>\<open>tagfs_read_block\<close> and \<^verbatim>\<open>tagfs_write_block\<close> of kernel/tagfs/tagfs.c): every write
  records the hash of the block, every read from the disk compares it. The map is itself kept in blocks of
  the volume and goes through the same reads and writes; these do not call back into the map, because its
  blocks are in the map region (lemmas \<open>read_block_map\<close> and \<open>write_block_map\<close>).

  Shown: a read returns what was last written, whatever accesses fail; as long as accesses work the map
  records the hash of what was last written to each block, through every eviction from its cache, so that
  no read is reported as bit rot unless the disk changed; and a changed block whose hash differs is
  reported.
\<close>

section \<open>Operations\<close>

text \<open>The victim goes back to the volume when it has changed.\<close>

definition evict_slot :: "IoEnv \<Rightarrow> nat \<Rightarrow> IoState \<Rightarrow> (bool \<times> IoState) option" where
  "evict_slot env victim st =
     (let it = io_integrity st; v = in_cache it ! victim
      in if ms_map_idx v \<noteq> SLOT_EMPTY \<and> ms_dirty v
         then write_map_block env (u32_wrap (in_map_first_block it + ms_map_idx v)) (map_block_bytes (ms_entries v)) st
         else Some (True, st))"

definition cache_get :: "IoEnv \<Rightarrow> nat \<Rightarrow> IoState \<Rightarrow> (nat option \<times> IoState) option" where
  "cache_get env idx st =
     (let it = io_integrity st
      in case slot_of (in_cache it) idx of
           Some s \<Rightarrow> Some (Some s, st\<lparr>io_integrity := touch_slot s it\<rparr>)
         | None \<Rightarrow>
             let victim = cache_victim (in_cache it)
             in case evict_slot env victim st of
                  None \<Rightarrow> None
                | Some (False, st1) \<Rightarrow> Some (None, st1)
                | Some (True, st1) \<Rightarrow>
                    (case read_map_block env (u32_wrap (in_map_first_block it + idx)) st1 of
                       None \<Rightarrow> None
                     | Some (None, st2) \<Rightarrow> Some (None, st2)
                     | Some (Some buf, st2) \<Rightarrow>
                         Some (Some victim, st2\<lparr>io_integrity := load_slot victim idx (map_block_entries buf) (io_integrity st2)\<rparr>)))"

text \<open>The early return of \<^verbatim>\<open>IntegrityUpdate\<close> and \<^verbatim>\<open>IntegrityVerify\<close>.\<close>

definition not_mapped :: "IntegrityState \<Rightarrow> nat \<Rightarrow> bool" where
  "not_mapped it block \<longleftrightarrow> \<not> in_initialized it \<or> block \<ge> in_map_entries it \<or> in_map_region it block"

definition IntegrityUpdate :: "IoEnv \<Rightarrow> nat \<Rightarrow> bytes \<Rightarrow> IoState \<Rightarrow> IoState option" where
  "IntegrityUpdate env block data st =
     (if not_mapped (io_integrity st) block then Some st
      else case BoxHashIntegrity (Some data) (Some (in_ctx (io_integrity st))) of
        None \<Rightarrow> None
      | Some h \<Rightarrow>
          map_option (\<lambda>(s, st'). case s of
              None \<Rightarrow> st'
            | Some s \<Rightarrow> st'\<lparr>io_integrity := put_entry s (block mod ENTRIES_PER_BLOCK) h (io_integrity st')\<rparr>)
            (cache_get env (block div ENTRIES_PER_BLOCK) st))"

definition IntegrityVerify :: "IoEnv \<Rightarrow> nat \<Rightarrow> bytes \<Rightarrow> IoState \<Rightarrow> (bool \<times> IoState) option" where
  "IntegrityVerify env block data st =
     (if not_mapped (io_integrity st) block then Some (True, st)
      else case cache_get env (block div ENTRIES_PER_BLOCK) st of
        None \<Rightarrow> None
      | Some (None, st1) \<Rightarrow> Some (True, st1)
      | Some (Some s, st1) \<Rightarrow>
          let stored = ms_entries (in_cache (io_integrity st1) ! s) ! (block mod ENTRIES_PER_BLOCK)
          in if stored = 0 then Some (True, st1)
             else map_option (\<lambda>h. if h = stored then (True, st1)
                                  else (False, st1\<lparr>io_integrity := note_rot block (io_integrity st1)\<rparr>))
                    (BoxHashIntegrity (Some data) (Some (in_ctx (io_integrity st1)))))"

definition read_block :: "IoEnv \<Rightarrow> nat \<Rightarrow> IoState \<Rightarrow> (bytes option \<times> IoState) option" where
  "read_block env = read_block_with (\<lambda>block data st. map_option snd (IntegrityVerify env block data st)) env"

definition write_block :: "IoEnv \<Rightarrow> nat \<Rightarrow> bytes \<Rightarrow> IoState \<Rightarrow> (bool \<times> IoState) option" where
  "write_block env = write_block_with (IntegrityUpdate env) env"

text \<open>The null checks of the buffers are outside the model.\<close>

definition tagfs_read_block :: "IoEnv \<Rightarrow> nat \<Rightarrow> IoState \<Rightarrow> ((error_t + bytes) \<times> IoState) option" where
  "tagfs_read_block env block st =
     map_option (\<lambda>(res, st'). (case res of Some data \<Rightarrow> Inr data | None \<Rightarrow> Inl ERR_READ_FAILED, st')) (read_block env block st)"

definition tagfs_write_block :: "IoEnv \<Rightarrow> nat \<Rightarrow> bytes \<Rightarrow> IoState \<Rightarrow> (error_t \<times> IoState) option" where
  "tagfs_write_block env block data st =
     map_option (\<lambda>(ok, st'). (if ok then OK else ERR_WRITE_FAILED, st')) (write_block env block data st)"

text \<open>One slot of \<^verbatim>\<open>IntegrityFlush\<close>.\<close>

definition flush_slot :: "IoEnv \<Rightarrow> nat \<Rightarrow> IoState \<Rightarrow> IoState option" where
  "flush_slot env s st =
     (let it = io_integrity st; slot = in_cache it ! s
      in if ms_map_idx slot = SLOT_EMPTY \<or> \<not> ms_dirty slot then Some st
         else map_option (\<lambda>(ok, st'). if ok
                  then st'\<lparr>io_integrity := set_slot s ((in_cache (io_integrity st') ! s)\<lparr>ms_dirty := False\<rparr>) (io_integrity st')\<rparr>
                  else st')
                (write_map_block env (u32_wrap (in_map_first_block it + ms_map_idx slot)) (map_block_bytes (ms_entries slot)) st))"

fun flush_slots :: "IoEnv \<Rightarrow> nat list \<Rightarrow> IoState \<Rightarrow> IoState option" where
  "flush_slots env [] st = Some st"
| "flush_slots env (s # rest) st = Option.bind (flush_slot env s st) (flush_slots env rest)"

definition IntegrityFlush :: "IoEnv \<Rightarrow> IoState \<Rightarrow> IoState option" where
  "IntegrityFlush env st = (if \<not> in_initialized (io_integrity st) then Some st else flush_slots env [0..<MAP_CACHE_SLOTS] st)"

definition IntegrityShutdown :: "IoEnv \<Rightarrow> IoState \<Rightarrow> IoState option" where
  "IntegrityShutdown env st =
     (if \<not> in_initialized (io_integrity st) then Some st
      else map_option (\<lambda>st'. st'\<lparr>io_integrity := (io_integrity st')\<lparr>in_initialized := False,
               in_cache := map (\<lambda>slot. slot\<lparr>ms_map_idx := SLOT_EMPTY\<rparr>) (in_cache (io_integrity st')),
               in_map_first_block := 0, in_map_count := 0, in_map_entries := 0\<rparr>\<rparr>)
             (IntegrityFlush env st))"

text \<open>The reports that go out, and the state without them.\<close>

definition IntegrityDrainReports :: "IntegrityState \<Rightarrow> (nat \<times> nat) list \<times> IntegrityState" where
  "IntegrityDrainReports it =
     (if \<not> in_initialized it \<or> in_integrity_tag it = 0xFFFF then ([], it)
      else (map (Pair (in_integrity_tag it)) (in_rot_ring it), it\<lparr>in_rot_ring := []\<rparr>))"

definition IntegrityIsInitialized :: "IntegrityState \<Rightarrow> bool" where
  "IntegrityIsInitialized it = in_initialized it"

definition IntegrityErrorCount :: "IntegrityState \<Rightarrow> nat" where
  "IntegrityErrorCount it = in_errors it"

section \<open>The map blocks themselves\<close>

text \<open>
  On a block of the map region, and while the map is not up, the full read and write are the ones without
  the map. So the calls of \<^verbatim>\<open>tagfs_read_block\<close> and \<^verbatim>\<open>tagfs_write_block\<close> inside the map do not come back to it.
\<close>

lemma verify_map: "not_mapped (io_integrity st) block \<Longrightarrow> IntegrityVerify env block data st = Some (True, st)"
  by (simp add: IntegrityVerify_def)

lemma update_map: "not_mapped (io_integrity st) block \<Longrightarrow> IntegrityUpdate env block data st = Some st"
  by (simp add: IntegrityUpdate_def)

lemma gone_integrity: "volume_medium_gone env st = (gone, st') \<Longrightarrow> io_integrity st' = io_integrity st"
  by (auto simp: volume_medium_gone_def ReadAheadForget_def split: if_splits)

lemma read_block_map:
  assumes "not_mapped (io_integrity st) block"
  shows "read_block env block st = read_map_block env block st"
proof -
  obtain gone st1 where g: "volume_medium_gone env st = (gone, st1)" by fastforce
  have r: "not_mapped (io_integrity st1) block" using assms gone_integrity [OF g] by simp
  have v: "IntegrityVerify env block d st1 = Some (True, st1)"
    "IntegrityVerify env block d (st1\<lparr>io_braid := br\<rparr>) = Some (True, st1\<lparr>io_braid := br\<rparr>)" for d br
    using r by (simp_all add: verify_map)
  show ?thesis unfolding read_block_def read_map_block_def read_block_with_def g Let_def
    by (simp add: v split: option.splits prod.splits sum.splits)
qed

lemma disk_write_integrity: "disk_write_block env st vlba data = Some st' \<Longrightarrow> io_integrity st' = io_integrity st"
  by (auto simp: disk_write_block_def Let_def split: if_splits)

lemma write_block_map:
  assumes "not_mapped (io_integrity st) block"
  shows "write_block env block data st = write_map_block env block data st"
proof -
  obtain gone st1 where g: "volume_medium_gone env st = (gone, st1)" by fastforce
  have r: "not_mapped (io_integrity st1) block" using assms gone_integrity [OF g] by simp
  have u: "IntegrityUpdate env block data (ReadAheadInvalidate block s) = Some (ReadAheadInvalidate block s)"
    if "io_integrity s = io_integrity st1" for s
    using r that by (intro update_map) (simp add: ReadAheadInvalidate_def)
  have d: "IntegrityUpdate env block data (ReadAheadInvalidate block s') = Some (ReadAheadInvalidate block s')"
    if "io_integrity s = io_integrity st1" "disk_write_block env s vlba data = Some s'" for s vlba s'
    using u disk_write_integrity [OF that(2)] that(1) by simp
  have "IntegrityUpdate env block data (ReadAheadInvalidate block s') = Some (ReadAheadInvalidate block s')"
    if "disk_write_block env (st1\<lparr>io_braid := br\<rparr>) vlba data = Some s'" for br vlba s'
    by (rule d [OF _ that]) simp
  note d = d [OF refl] this
  show ?thesis unfolding write_block_def write_map_block_def write_block_with_def g Let_def
    by (auto simp: u intro: d split: option.splits prod.splits)
qed


section \<open>What the operations keep\<close>

definition sound :: "IoState \<Rightarrow> bool" where
  "sound st \<longleftrightarrow> plain st \<and> imap_ok (io_integrity st)"

text \<open>The hash on record for a block, in the cache of the map or on the disk.\<close>

definition hash_of :: "IoState \<Rightarrow> nat \<Rightarrow> u64" where
  "hash_of st block = recorded (io_integrity st) (on_disk st) block"

definition tracked :: "IoState \<Rightarrow> bool" where
  "tracked st \<longleftrightarrow> synced (io_integrity st) (on_disk st)"

abbreviation in_region :: "IoState \<Rightarrow> nat \<Rightarrow> bool" where
  "in_region st \<equiv> in_map_region (io_integrity st)"

text \<open>
  A step of the map: it leaves every block outside the map region as it is, stays well formed and keeps
  what is on record.
\<close>

definition keeps :: "IoState \<Rightarrow> IoState \<Rightarrow> bool" where
  "keeps st st' \<longleftrightarrow> sound st' \<and> same_map (io_integrity st) (io_integrity st') \<and>
     (\<forall>b. \<not> in_region st b \<longrightarrow> on_disk st' b = on_disk st b) \<and>
     (tracked st \<longrightarrow> tracked st' \<and> (\<forall>b. b div ENTRIES_PER_BLOCK \<noteq> SLOT_EMPTY \<longrightarrow> hash_of st' b = hash_of st b))"

lemma keeps_refl: "sound st \<Longrightarrow> keeps st st"
  by (simp add: keeps_def)

lemma keeps_trans: "keeps st st' \<Longrightarrow> keeps st' st'' \<Longrightarrow> keeps st st''"
  unfolding keeps_def by (metis same_map_region same_map_trans)

lemma plain_integrity [simp]: "plain (st\<lparr>io_integrity := it\<rparr>) = plain st"
proof -
  have "on_disk (st\<lparr>io_integrity := it\<rparr>) = on_disk st"
    by (simp add: on_disk_def tagfs_block_to_sector_def block_to_vlba_def fun_eq_iff)
  then show ?thesis by (simp add: plain_def coherent_def)
qed

lemma on_disk_integrity [simp]: "on_disk (st\<lparr>io_integrity := it\<rparr>) = on_disk st"
  by (simp add: on_disk_def tagfs_block_to_sector_def block_to_vlba_def fun_eq_iff)

lemma same_disk_keeps:
  assumes "sound st" "plain st'" "same_disk st st'"
  shows "keeps st st'"
  using assms same_disk_on_disk [OF assms(3)] by (simp add: keeps_def sound_def tracked_def hash_of_def same_disk_def)

text \<open>Writing a dirty slot to its map block changes neither the map nor what is on record.\<close>

lemma write_slot_keeps:
  assumes so: "sound st" and v: "v < MAP_CACHE_SLOTS" "ms_map_idx (in_cache (io_integrity st) ! v) \<noteq> SLOT_EMPTY"
    "in_map_first_block (io_integrity st) \<noteq> 0"
    and st': "plain st'" "io_integrity st' = io_integrity st"
      "on_disk st' = (on_disk st)(in_map_first_block (io_integrity st) + ms_map_idx (in_cache (io_integrity st) ! v) :=
         map_block_bytes (ms_entries (in_cache (io_integrity st) ! v)))"
  shows "keeps st st'" "map_block_entries (on_disk st' (in_map_first_block (io_integrity st) + ms_map_idx (in_cache (io_integrity st) ! v))) =
      ms_entries (in_cache (io_integrity st) ! v)"
proof -
  let ?it = "io_integrity st" let ?slot = "in_cache ?it ! v" let ?first = "in_map_first_block ?it"
  have ok: "imap_ok ?it" using so by (simp add: sound_def)
  have slot: "ms_map_idx ?slot < in_map_count ?it" "length (ms_entries ?slot) = ENTRIES_PER_BLOCK"
    using ok v(1,2) unfolding imap_ok_def by blast+
  show rt: "map_block_entries (on_disk st' (?first + ms_map_idx ?slot)) = ms_entries ?slot"
    by (simp add: st'(3) map_block_round_trip [OF slot(2)])
  have region: "in_map_region ?it (?first + ms_map_idx ?slot)" using slot(1) v(3) by (simp add: map_region_iff [OF ok])
  have out: "on_disk st' b = on_disk st b" if "\<not> in_map_region ?it b" for b using that region by (auto simp: st'(3))
  have same: "map_block_entries (on_disk st' (?first + i)) = map_block_entries (on_disk st (?first + i))" if "i \<noteq> ms_map_idx ?slot" for i
    using that by (simp add: st'(3))
  have sy: "synced ?it (on_disk st')" if "synced ?it (on_disk st)"
    unfolding synced_def
  proof (intro allI impI)
    fix s assume s: "s < MAP_CACHE_SLOTS" "ms_map_idx (in_cache ?it ! s) \<noteq> SLOT_EMPTY" "\<not> ms_dirty (in_cache ?it ! s)"
    show "ms_entries (in_cache ?it ! s) = map_block_entries (on_disk st' (?first + ms_map_idx (in_cache ?it ! s)))"
    proof (cases "ms_map_idx (in_cache ?it ! s) = ms_map_idx ?slot")
      case True
      then have "s = v" using ok s v(1) unfolding imap_ok_def by blast
      then show ?thesis using rt by simp
    qed (use same that s in \<open>simp add: synced_def\<close>)
  qed
  have rec: "recorded ?it (on_disk st') b = recorded ?it (on_disk st) b" for b
  proof (cases "slot_of (in_cache ?it) (b div ENTRIES_PER_BLOCK)")
    case None
    then have "b div ENTRIES_PER_BLOCK \<noteq> ms_map_idx ?slot" using v(1) slot_of_None by metis
    then show ?thesis using None same by (simp add: recorded_def)
  qed (simp add: recorded_def)
  show "keeps st st'" using ok st'(1,2) out sy rec by (simp add: keeps_def sound_def tracked_def hash_of_def)
qed

lemma evict_slot_keeps:
  assumes so: "sound st" and v: "v < MAP_CACHE_SLOTS" and first: "in_map_first_block (io_integrity st) \<noteq> 0"
    and slot: "slot = in_cache (io_integrity st) ! v" and b: "b = in_map_first_block (io_integrity st) + ms_map_idx slot"
  shows "\<exists>wr st1. evict_slot env v st = Some (wr, st1) \<and> keeps st st1 \<and> io_integrity st1 = io_integrity st \<and>
    (wr \<and> tracked st \<longrightarrow> ms_map_idx slot \<noteq> SLOT_EMPTY \<longrightarrow> ms_entries slot = map_block_entries (on_disk st1 b)) \<and>
    (env_works env \<and> \<not> io_medium_left st \<longrightarrow> wr \<and> \<not> io_medium_left st1)"
proof (cases "ms_map_idx slot \<noteq> SLOT_EMPTY \<and> ms_dirty slot")
  case True
  let ?it = "io_integrity st" and ?d = "map_block_bytes (ms_entries slot)"
  have ok: "imap_ok ?it" and pl: "plain st" using so by (simp_all add: sound_def)
  have "ms_map_idx slot < in_map_count ?it" using ok v True slot unfolding imap_ok_def by blast
  then have nw: "b < 2 ^ 32" using ok b by (simp add: imap_ok_def)
  obtain wr st1 where r: "write_map_block env b ?d st = Some (wr, st1)" "plain st1" "io_integrity st1 = ?it"
    "on_disk st1 = (if wr then (on_disk st)(b := ?d) else on_disk st)"
    "env_works env \<and> \<not> io_medium_left st \<longrightarrow> wr \<and> \<not> io_medium_left st1"
    using write_map_block_plain [OF pl, of env b ?d] by blast
  have e: "evict_slot env v st = Some (wr, st1)" using True r(1) nw by (simp add: evict_slot_def Let_def flip: slot b)
  show ?thesis
  proof (cases wr)
    case d: True
    have od: "on_disk st1 = (on_disk st)(b := ?d)" using r(4) d by simp
    note k = write_slot_keeps [OF so v _ first r(2,3), folded slot, folded b, OF _ od]
    have "keeps st st1" "map_block_entries (on_disk st1 b) = ms_entries slot" using k True by simp_all
    then show ?thesis using e r(3,5) by auto
  next
    case False
    then have "keeps st st1" using so r(2-4) by (simp add: keeps_def sound_def tracked_def hash_of_def)
    then show ?thesis using e r(3,5) False by auto
  qed
next
  case False
  then have "ms_entries slot = map_block_entries (on_disk st b)" if "tracked st" "ms_map_idx slot \<noteq> SLOT_EMPTY"
    using that v slot b by (auto simp: tracked_def synced_def)
  then show ?thesis using False keeps_refl [OF so] slot by (auto simp: evict_slot_def Let_def)
qed

text \<open>The cache of the map: a slot for every map block, or a failed access.\<close>

lemma cache_get_keeps:
  assumes so: "sound st" and idx: "idx < in_map_count (io_integrity st)" "in_map_first_block (io_integrity st) \<noteq> 0"
  shows "\<exists>res st'. cache_get env idx st = Some (res, st') \<and> keeps st st' \<and>
    (\<forall>s. res = Some s \<longrightarrow> slot_of (in_cache (io_integrity st')) idx = Some s) \<and>
    in_errors (io_integrity st') = in_errors (io_integrity st) \<and> in_rot_ring (io_integrity st') = in_rot_ring (io_integrity st) \<and>
    (env_works env \<and> \<not> io_medium_left st \<longrightarrow> res \<noteq> None \<and> \<not> io_medium_left st')"
proof (cases "slot_of (in_cache (io_integrity st)) idx")
  case (Some s)
  have ok: "imap_ok (io_integrity st)" and pl: "plain st" using so by (simp_all add: sound_def)
  have ne: "idx \<noteq> SLOT_EMPTY" using idx(1) ok by (auto simp: imap_ok_def SLOT_EMPTY_def)
  let ?st' = "st\<lparr>io_integrity := touch_slot s (io_integrity st)\<rparr>"
  have "cache_get env idx st = Some (Some s, ?st')" using Some by (simp add: cache_get_def Let_def)
  moreover have "keeps st ?st'"
    using touch_slot_ok [OF ok Some ne] pl by (simp add: keeps_def sound_def tracked_def hash_of_def)
  moreover have "slot_of (in_cache (io_integrity ?st')) idx = Some s" using touch_slot_ok(5) [OF ok Some ne] by simp
  ultimately show ?thesis by (auto simp: touch_slot_def set_slot_def)
next
  case None
  let ?it = "io_integrity st" let ?v = "cache_victim (in_cache ?it)" let ?slot = "in_cache ?it ! ?v" let ?first = "in_map_first_block ?it"
  have ok: "imap_ok ?it" using so by (simp add: sound_def)
  have nw: "?first + idx < 2 ^ 32" using idx(1) ok by (simp add: imap_ok_def)
  have v: "?v < MAP_CACHE_SLOTS" by (rule cache_victim_less)
  obtain wr st1 where w: "evict_slot env ?v st = Some (wr, st1)" "keeps st st1" "io_integrity st1 = ?it"
    "wr \<and> tracked st \<longrightarrow> ms_map_idx ?slot \<noteq> SLOT_EMPTY \<longrightarrow> ms_entries ?slot = map_block_entries (on_disk st1 (?first + ms_map_idx ?slot))"
    "env_works env \<and> \<not> io_medium_left st \<longrightarrow> wr \<and> \<not> io_medium_left st1"
    using evict_slot_keeps [OF so v idx(2) refl refl, of env] by blast
  show ?thesis
  proof (cases wr)
    case False
    then have "cache_get env idx st = Some (None, st1)" using None w(1) by (simp add: cache_get_def Let_def)
    then show ?thesis using w(2,3,5) False by auto
  next
    case True
    have so1: "sound st1" "plain st1" using w(2) by (simp_all add: keeps_def sound_def)
    obtain res st2 where r: "read_map_block env (?first + idx) st1 = Some (res, st2)" "plain st2" "same_disk st1 st2"
      "\<And>data. res = Some data \<Longrightarrow> data = on_disk st1 (?first + idx)"
      "env_good env \<and> \<not> io_medium_left st1 \<longrightarrow> res \<noteq> None \<and> st2 = st1"
      using read_map_block_plain [OF so1(2), of env "?first + idx"] by blast
    have k2: "keeps st1 st2" by (rule same_disk_keeps [OF so1(1) r(2,3)])
    have it2: "io_integrity st2 = ?it" "on_disk st2 = on_disk st1" using r(3) w(3) same_disk_on_disk [OF r(3)] by (simp_all add: same_disk_def)
    have e: "cache_get env idx st = (case res of None \<Rightarrow> Some (None, st2)
        | Some buf \<Rightarrow> Some (Some ?v, st2\<lparr>io_integrity := load_slot ?v idx (map_block_entries buf) ?it\<rparr>))"
      using None w(1) True r(1) nw it2(1) by (simp add: cache_get_def Let_def split: option.splits)
    show ?thesis
    proof (cases res)
      case None
      have "env_works env \<and> \<not> io_medium_left st \<longrightarrow> False" using w(5) r(5) None by (auto simp: env_works_def)
      then show ?thesis using e None keeps_trans [OF w(2) k2] it2(1) by auto
    next
      case (Some buf)
      let ?it3 = "load_slot ?v idx (map_block_entries buf) ?it" let ?st3 = "st2\<lparr>io_integrity := ?it3\<rparr>"
      have buf: "buf = on_disk st1 (?first + idx)" using r(4) Some by simp
      note l = load_slot_ok [OF ok None idx(1) v, of buf]
      have victim: "ms_map_idx ?slot \<noteq> SLOT_EMPTY \<Longrightarrow> ms_entries ?slot = map_block_entries (on_disk st1 (?first + ms_map_idx ?slot))"
        if "tracked st" using w(4) True that by simp
      have rec: "recorded ?it3 (on_disk st1) b = recorded ?it (on_disk st1) b"
        if "tracked st" "b div ENTRIES_PER_BLOCK \<noteq> SLOT_EMPTY" for b
        using load_slot_recorded [where disk = "on_disk st1", OF ok None idx(1) v victim [OF that(1)] that(2) buf] .
      have sy: "synced ?it3 (on_disk st1)" if "tracked st1"
        using load_slot_synced [where disk = "on_disk st1", OF ok _ v buf] that w(3) by (simp add: tracked_def)
      have "keeps st ?st3"
        using w(2,3) l(1,2) r(2) it2 rec sy by (auto simp: keeps_def sound_def tracked_def hash_of_def)
      moreover have "env_works env \<and> \<not> io_medium_left st \<longrightarrow> \<not> io_medium_left ?st3" using w(5) r(5) by (auto simp: env_works_def)
      moreover have "in_errors ?it3 = in_errors ?it" "in_rot_ring ?it3 = in_rot_ring ?it" by (simp_all add: load_slot_def set_slot_def)
      ultimately show ?thesis using e Some l(3) by auto
    qed
  qed
qed


section \<open>Recording and comparing\<close>

definition block_hash :: "IntegrityState \<Rightarrow> bytes \<Rightarrow> u64" where
  "block_hash it data = the (BoxHashIntegrity (Some data) (Some (in_ctx it)))"

lemma block_hash_total: "BoxHashIntegrity (Some data) (Some (in_ctx it)) = Some (block_hash it data)"
proof -
  have "\<exists>h. BoxHashIntegrity (Some data) (Some (in_ctx it)) = Some h" using WyHash64_total by (simp add: BoxHashIntegrity_def)
  then show ?thesis by (auto simp: block_hash_def)
qed

lemma same_map_hash: "same_map it it' \<Longrightarrow> block_hash it' = block_hash it"
  by (simp add: same_map_def block_hash_def fun_eq_iff)

lemma not_mapped_covered: "not_mapped it block \<longleftrightarrow> \<not> covered it block"
  by (auto simp: not_mapped_def covered_def)

lemma covered_first: "imap_ok it \<Longrightarrow> covered it block \<Longrightarrow> in_map_first_block it \<noteq> 0"
  by (simp add: imap_ok_def covered_def)

text \<open>What a write does to the record: the hash of its block is the new one, every other stays.\<close>

definition records :: "nat \<Rightarrow> u64 \<Rightarrow> IoState \<Rightarrow> IoState \<Rightarrow> bool" where
  "records block h st st' \<longleftrightarrow> sound st' \<and> same_map (io_integrity st) (io_integrity st') \<and>
     (\<forall>b. \<not> in_region st b \<longrightarrow> on_disk st' b = on_disk st b) \<and>
     (tracked st \<longrightarrow> tracked st' \<and> (\<forall>b. b div ENTRIES_PER_BLOCK \<noteq> SLOT_EMPTY \<longrightarrow> hash_of st' b = (if b = block then h else hash_of st b)))"

lemma put_entry_records:
  assumes so: "sound st" and s: "slot_of (in_cache (io_integrity st)) (block div ENTRIES_PER_BLOCK) = Some s" "block div ENTRIES_PER_BLOCK \<noteq> SLOT_EMPTY"
  shows "records block h st (st\<lparr>io_integrity := put_entry s (block mod ENTRIES_PER_BLOCK) h (io_integrity st)\<rparr>)"
proof -
  have ok: "imap_ok (io_integrity st)" "plain st" using so by (simp_all add: sound_def)
  show ?thesis using put_entry_ok [where h = h, OF ok(1) s] ok(2) by (simp add: records_def sound_def tracked_def hash_of_def)
qed

lemma keeps_records: "keeps st st' \<Longrightarrow> records block h st' st'' \<Longrightarrow> records block h st st''"
  unfolding keeps_def records_def by (metis same_map_region same_map_trans)

lemma update_spec:
  assumes so: "sound st" and h: "h = block_hash (io_integrity st) data"
  shows "\<exists>st'. IntegrityUpdate env block data st = Some st' \<and>
    (keeps st st' \<or> covered (io_integrity st) block \<and> records block h st st') \<and>
    in_errors (io_integrity st') = in_errors (io_integrity st) \<and>
    (env_works env \<and> \<not> io_medium_left st \<longrightarrow> \<not> io_medium_left st' \<and> (covered (io_integrity st) block \<longrightarrow> records block h st st'))"
proof (cases "covered (io_integrity st) block")
  case False
  then have "IntegrityUpdate env block data st = Some st" by (simp add: IntegrityUpdate_def not_mapped_covered)
  then show ?thesis using False keeps_refl [OF so] by auto
next
  case True
  let ?it = "io_integrity st" let ?idx = "block div ENTRIES_PER_BLOCK" let ?off = "block mod ENTRIES_PER_BLOCK"
  have ok: "imap_ok ?it" using so by (simp add: sound_def)
  have idx: "?idx < in_map_count ?it" "?idx \<noteq> SLOT_EMPTY" using covered_idx [OF ok True] by simp_all
  obtain res st1 where c: "cache_get env ?idx st = Some (res, st1)" "keeps st st1"
    "\<And>s. res = Some s \<Longrightarrow> slot_of (in_cache (io_integrity st1)) ?idx = Some s" "in_errors (io_integrity st1) = in_errors ?it"
    "env_works env \<and> \<not> io_medium_left st \<longrightarrow> res \<noteq> None \<and> \<not> io_medium_left st1"
    using cache_get_keeps [OF so idx(1) covered_first [OF ok True], of env] by blast
  have so1: "sound st1" using c(2) by (simp add: keeps_def)
  have e: "IntegrityUpdate env block data st =
      Some (case res of None \<Rightarrow> st1 | Some s \<Rightarrow> st1\<lparr>io_integrity := put_entry s ?off h (io_integrity st1)\<rparr>)"
    using True c(1) by (simp add: IntegrityUpdate_def not_mapped_covered block_hash_total flip: h)
  show ?thesis
  proof (cases res)
    case None
    then show ?thesis using e c(2,4,5) by auto
  next
    case (Some s)
    have "records block h st (st1\<lparr>io_integrity := put_entry s ?off h (io_integrity st1)\<rparr>)"
      by (rule keeps_records [OF c(2) put_entry_records [OF so1 c(3) [OF Some] idx(2)]])
    moreover have "in_errors (put_entry s ?off h (io_integrity st1)) = in_errors ?it"
      using c(4) by (simp add: put_entry_def Let_def set_slot_def)
    ultimately show ?thesis using e Some True c(5) by auto
  qed
qed

text \<open>A block is clean when nothing is on record for it or what is there matches.\<close>

definition clean :: "IoState \<Rightarrow> nat \<Rightarrow> bytes \<Rightarrow> bool" where
  "clean st block data \<longleftrightarrow> covered (io_integrity st) block \<longrightarrow>
     hash_of st block = 0 \<or> hash_of st block = block_hash (io_integrity st) data"

lemma slot_entry:
  "slot_of (in_cache (io_integrity st)) (block div ENTRIES_PER_BLOCK) = Some s \<Longrightarrow>
     ms_entries (in_cache (io_integrity st) ! s) ! (block mod ENTRIES_PER_BLOCK) = hash_of st block"
  by (simp add: hash_of_def recorded_def)

lemma note_rot_keeps: "sound st \<Longrightarrow> keeps st (st\<lparr>io_integrity := note_rot block (io_integrity st)\<rparr>)"
  using note_rot_ok [where it = "io_integrity st" and block = block] by (simp add: keeps_def sound_def tracked_def hash_of_def)

lemma verify_spec:
  assumes so: "sound st" and tr: "tracked st"
  shows "\<exists>ok st'. IntegrityVerify env block data st = Some (ok, st') \<and> keeps st st' \<and>
    (clean st block data \<longrightarrow> ok) \<and> (ok \<longrightarrow> in_errors (io_integrity st') = in_errors (io_integrity st)) \<and>
    (\<not> ok \<longrightarrow> in_errors (io_integrity st') = u32_wrap (in_errors (io_integrity st) + 1) \<and>
       (length (in_rot_ring (io_integrity st)) < ROT_RING_MAX \<longrightarrow> in_rot_ring (io_integrity st') = in_rot_ring (io_integrity st) @ [block])) \<and>
    (env_works env \<and> \<not> io_medium_left st \<longrightarrow> \<not> io_medium_left st' \<and> (ok \<longleftrightarrow> clean st block data))"
proof (cases "covered (io_integrity st) block")
  case False
  then have "IntegrityVerify env block data st = Some (True, st)" by (simp add: IntegrityVerify_def not_mapped_covered)
  then show ?thesis using False keeps_refl [OF so] by (auto simp: clean_def)
next
  case True
  let ?it = "io_integrity st" let ?idx = "block div ENTRIES_PER_BLOCK"
  have ok: "imap_ok ?it" using so by (simp add: sound_def)
  have idx: "?idx < in_map_count ?it" "?idx \<noteq> SLOT_EMPTY" using covered_idx [OF ok True] by simp_all
  obtain res st1 where c: "cache_get env ?idx st = Some (res, st1)" "keeps st st1"
    "\<And>s. res = Some s \<Longrightarrow> slot_of (in_cache (io_integrity st1)) ?idx = Some s"
    "in_errors (io_integrity st1) = in_errors ?it" "in_rot_ring (io_integrity st1) = in_rot_ring ?it"
    "env_works env \<and> \<not> io_medium_left st \<longrightarrow> res \<noteq> None \<and> \<not> io_medium_left st1"
    using cache_get_keeps [OF so idx(1) covered_first [OF ok True], of env] by blast
  have same: "hash_of st1 block = hash_of st block" "block_hash (io_integrity st1) = block_hash ?it" "sound st1"
    using c(2) tr idx(2) by (simp_all add: keeps_def same_map_hash)
  show ?thesis
  proof (cases res)
    case None
    then have "IntegrityVerify env block data st = Some (True, st1)" using True c(1) by (simp add: IntegrityVerify_def not_mapped_covered)
    then show ?thesis using None c(2,4,6) by auto
  next
    case (Some s)
    let ?rot = "st1\<lparr>io_integrity := note_rot block (io_integrity st1)\<rparr>"
    have e: "IntegrityVerify env block data st = Some (if clean st block data then (True, st1) else (False, ?rot))"
      using True c(1) Some slot_entry [OF c(3) [OF Some]] same(1,2)
      by (auto simp: IntegrityVerify_def not_mapped_covered Let_def clean_def block_hash_total)
    have "keeps st ?rot" by (rule keeps_trans [OF c(2) note_rot_keeps [OF same(3)]])
    moreover have "in_errors (io_integrity ?rot) = u32_wrap (in_errors ?it + 1)"
      "length (in_rot_ring ?it) < ROT_RING_MAX \<longrightarrow> in_rot_ring (io_integrity ?rot) = in_rot_ring ?it @ [block]"
      using c(4,5) by (simp_all add: note_rot_def)
    ultimately show ?thesis using e c(2,4,6) by (cases "clean st block data") auto
  qed
qed

text \<open>Without an assumption on what is on record.\<close>

lemma verify_keeps:
  assumes so: "sound st"
  shows "\<exists>ok st'. IntegrityVerify env block data st = Some (ok, st') \<and> keeps st st' \<and>
    (env_works env \<and> \<not> io_medium_left st \<longrightarrow> \<not> io_medium_left st')"
proof (cases "covered (io_integrity st) block")
  case False
  then show ?thesis using keeps_refl [OF so] by (auto simp: IntegrityVerify_def not_mapped_covered)
next
  case True
  let ?it = "io_integrity st" let ?idx = "block div ENTRIES_PER_BLOCK"
  have ok: "imap_ok ?it" using so by (simp add: sound_def)
  obtain res st1 where c: "cache_get env ?idx st = Some (res, st1)" "keeps st st1"
    "env_works env \<and> \<not> io_medium_left st \<longrightarrow> \<not> io_medium_left st1"
    using cache_get_keeps [OF so conjunct1 [OF covered_idx [OF ok True]] covered_first [OF ok True], of env] by blast
  have "keeps st (st1\<lparr>io_integrity := note_rot block (io_integrity st1)\<rparr>)"
    using keeps_trans [OF c(2) note_rot_keeps] c(2) by (simp add: keeps_def)
  then show ?thesis using True c by (auto simp: IntegrityVerify_def not_mapped_covered Let_def block_hash_total split: option.splits)
qed


section \<open>Reading and writing blocks\<close>

lemma read_block_sound:
  assumes so: "sound st"
  shows "\<exists>res st'. read_block env block st = Some (res, st') \<and> keeps st st' \<and> (\<forall>data. res = Some data \<longrightarrow> data = on_disk st block) \<and>
    (env_works env \<and> \<not> io_medium_left st \<longrightarrow> res \<noteq> None \<and> \<not> io_medium_left st')"
proof -
  have pl: "plain st" using so by (simp add: sound_def)
  obtain ok st' where v: "IntegrityVerify env block (on_disk st block) st = Some (ok, st')" "keeps st st'"
    "env_works env \<and> \<not> io_medium_left st \<longrightarrow> \<not> io_medium_left st'" using verify_keeps [OF so] by blast
  show ?thesis unfolding read_block_def
    by (rule read_block_with_plain [OF pl, of "\<lambda>block data st. map_option snd (IntegrityVerify env block data st)" env block])
      (use v same_disk_keeps [OF so] keeps_refl [OF so] in \<open>auto simp: env_works_def\<close>)
qed

lemma read_block_tracked:
  assumes so: "sound st" and tr: "tracked st" and env: "env_works env" "\<not> io_medium_left st"
    and e: "e = in_errors (io_integrity st)"
  shows "\<exists>st'. read_block env block st = Some (Some (on_disk st block), st') \<and> keeps st st' \<and> \<not> io_medium_left st' \<and>
    in_errors (io_integrity st') =
      (if ReadAheadHas st block \<or> clean st block (on_disk st block) then e else u32_wrap (e + 1))"
proof -
  have pl: "plain st" using so by (simp add: sound_def)
  have g: "env_good env" "volume_medium_gone env st = (False, st)" using env by (simp_all add: env_works_def env_good_def volume_medium_gone_def)
  show ?thesis
  proof (cases "ReadAheadLookup st block")
    case (Some data)
    then have "ReadAheadHas st block" by (auto simp: ReadAheadLookup_def ReadAheadHas_def find_Some_iff)
    moreover have "data = on_disk st block" using lookup_coherent [OF _ Some] pl by (simp add: plain_def)
    ultimately show ?thesis using Some g(2) e env keeps_refl [OF so] by (auto simp: read_block_def read_block_with_def)
  next
    case None
    then have "\<not> ReadAheadHas st block" by (auto simp: ReadAheadLookup_def ReadAheadHas_def find_None_iff)
    moreover obtain ok st' where v: "IntegrityVerify env block (on_disk st block) st = Some (ok, st')" "keeps st st'" "\<not> io_medium_left st'"
      "ok \<longleftrightarrow> clean st block (on_disk st block)" "ok \<longrightarrow> in_errors (io_integrity st') = e" "\<not> ok \<longrightarrow> in_errors (io_integrity st') = u32_wrap (e + 1)"
      using verify_spec [OF so tr, of env block "on_disk st block"] env e by blast
    moreover have "disk_read_blocks env st (block_to_vlba st block) 1 = Some [on_disk st block]"
      using g(1) by (simp add: disk_read_blocks_def on_disk_def tagfs_block_to_sector_def env_good_def)
    then have "read_block env block st = Some (Some (on_disk st block), st')"
      using None g(2) v(1) pl by (simp add: read_block_def read_block_with_def Let_def plain_def)
    ultimately show ?thesis by auto
  qed
qed

text \<open>A block outside the map region has no part in what is on record.\<close>

lemma outside_change:
  assumes so: "sound st" and b: "\<not> in_region st block" "in_map_first_block (io_integrity st) \<noteq> 0"
    and st': "io_integrity st' = io_integrity st" "on_disk st' = (on_disk st)(block := data)"
  shows "tracked st' = tracked st" "covered (io_integrity st) x \<Longrightarrow> hash_of st' x = hash_of st x"
proof -
  let ?it = "io_integrity st"
  have ok: "imap_ok ?it" using so by (simp add: sound_def)
  have other: "on_disk st' (in_map_first_block ?it + i) = on_disk st (in_map_first_block ?it + i)" if "i < in_map_count ?it" for i
    using that b st'(2) by (auto simp: map_region_iff [OF ok])
  have "ms_map_idx (in_cache ?it ! s) < in_map_count ?it" if "s < MAP_CACHE_SLOTS" "ms_map_idx (in_cache ?it ! s) \<noteq> SLOT_EMPTY" for s
    using that ok unfolding imap_ok_def by blast
  then show "tracked st' = tracked st" using other unfolding tracked_def synced_def st'(1) by auto
  show "hash_of st' x = hash_of st x" if "covered ?it x"
    using other [OF conjunct1 [OF covered_idx [OF ok that]]] by (simp add: hash_of_def recorded_def st'(1) split: option.splits)
qed

lemma write_block_sound:
  assumes so: "sound st"
  shows "\<exists>ok st'. write_block env block data st = Some (ok, st') \<and> sound st' \<and> same_map (io_integrity st) (io_integrity st') \<and>
    (\<forall>b. \<not> in_region st b \<longrightarrow> on_disk st' b = (if ok \<and> b = block then data else on_disk st b)) \<and>
    in_errors (io_integrity st') = in_errors (io_integrity st) \<and>
    (env_works env \<and> \<not> io_medium_left st \<longrightarrow> ok \<and> \<not> io_medium_left st' \<and>
      (tracked st \<and> in_initialized (io_integrity st) \<and> \<not> in_region st block \<longrightarrow> tracked st' \<and> (\<forall>b. covered (io_integrity st) b \<longrightarrow>
         hash_of st' b = (if b = block then block_hash (io_integrity st) data else hash_of st b))))"
proof -
  let ?it = "io_integrity st"
  have pl: "plain st" and mo: "imap_ok ?it" using so by (simp_all add: sound_def)
  show ?thesis unfolding write_block_def
  proof (rule write_block_with_plain [OF pl, of "IntegrityUpdate env" env block data], goal_cases)
    case (1 st')
    have "keeps st st'" by (rule same_disk_keeps [OF so 1(2,3)])
    then show ?case using 1 by (auto simp: keeps_def same_disk_def)
  next
    case (2 st1)
    have so1: "sound st1" using 2 mo by (simp add: sound_def)
    let ?h = "block_hash ?it data"
    obtain st' where u: "IntegrityUpdate env block data st1 = Some st'"
      "keeps st1 st' \<or> covered ?it block \<and> records block ?h st1 st'" "in_errors (io_integrity st') = in_errors ?it"
      "env_works env \<and> \<not> io_medium_left st1 \<longrightarrow> \<not> io_medium_left st' \<and> (covered ?it block \<longrightarrow> records block ?h st1 st')"
      using update_spec [OF so1, of _ data env block] 2(4) by auto
    have s: "sound st'" "same_map ?it (io_integrity st')" "\<forall>b. \<not> in_region st b \<longrightarrow> on_disk st' b = on_disk st1 b"
      using u(2) 2(4) by (auto simp: keeps_def records_def)
    have hashes: "tracked st' \<and> (\<forall>b. covered ?it b \<longrightarrow> hash_of st' b = (if b = block then ?h else hash_of st b))"
      if env: "env_works env" "\<not> io_medium_left st" and tr: "tracked st" "in_initialized ?it" "\<not> in_region st block"
    proof -
      have f: "in_map_first_block ?it \<noteq> 0" using mo tr(2) by (simp add: imap_ok_def)
      note o = outside_change [OF so tr(3) f 2(4,3)]
      have ne: "b div ENTRIES_PER_BLOCK \<noteq> SLOT_EMPTY" if "covered ?it b" for b using covered_idx [OF mo that] by simp
      show ?thesis
      proof (cases "covered ?it block")
        case True
        then have "records block ?h st1 st'" using u(4) env 2(5) by simp
        then show ?thesis using o tr(1) ne by (simp add: records_def)
      next
        case False
        then have "keeps st1 st'" using u(2) by simp
        then show ?thesis using o tr(1) ne False by (auto simp: keeps_def)
      qed
    qed
    show ?case using 2 u s hashes by auto
  qed
qed

end
