(* ===== verification/VolumeIo.thy ===== *)
theory VolumeIo
  imports Integrity
begin

text \<open>
  Histories of the block layer: any sequence of reads, writes, prefetches, invalidations and flushes of the
  integrity map, each with the raw accesses that work during it. The properties of theories BlockIo and
  Integrity are put together here: what a read returns, what the map has on record, and which reads are
  reported as bit rot.
\<close>

section \<open>Flushing the map\<close>

definition slot_clean :: "IntegrityState \<Rightarrow> nat \<Rightarrow> bool" where
  "slot_clean it s \<longleftrightarrow> ms_map_idx (in_cache it ! s) = SLOT_EMPTY \<or> \<not> ms_dirty (in_cache it ! s)"

lemma clear_dirty_keeps:
  assumes so: "sound st" and s: "s < MAP_CACHE_SLOTS" "ms_map_idx (in_cache (io_integrity st) ! s) \<noteq> SLOT_EMPTY"
    and disk: "map_block_entries (on_disk st (in_map_first_block (io_integrity st) + ms_map_idx (in_cache (io_integrity st) ! s))) =
      ms_entries (in_cache (io_integrity st) ! s)"
  shows "keeps st (st\<lparr>io_integrity := set_slot s ((in_cache (io_integrity st) ! s)\<lparr>ms_dirty := False\<rparr>) (io_integrity st)\<rparr>)"
proof -
  let ?it = "io_integrity st" let ?slot = "(in_cache ?it ! s)\<lparr>ms_dirty := False\<rparr>" let ?it' = "set_slot s ?slot ?it"
  have ok: "imap_ok ?it" "plain st" using so by (simp_all add: sound_def)
  have sm: "same_map ?it ?it'" by (simp add: same_map_def set_slot_def)
  have ch: "slot_changed s ?slot ?it ?it'" using s(1) sm by (simp add: slot_changed_def set_slot_def)
  have k: "imap_ok ?it' \<and> slot_of (in_cache ?it') = slot_of (in_cache ?it)"
    by (rule slot_kept_ok [OF ok(1) ch]) (simp_all add: s)
  have nth: "in_cache ?it' ! t = (if t = s then ?slot else in_cache ?it ! t)" if "t < MAP_CACHE_SLOTS" for t
    using that cache_slots [OF ok(1)] by (simp add: set_slot_def nth_list_update)
  have ents: "ms_entries (in_cache ?it' ! t) = ms_entries (in_cache ?it ! t)" if "t < MAP_CACHE_SLOTS" for t using nth [OF that] by simp
  have first: "in_map_first_block ?it' = in_map_first_block ?it" using sm by (simp add: same_map_def)
  have "recorded ?it' disk b = recorded ?it disk b" for disk b
    using k ents slot_of_Some first by (auto simp: recorded_def split: option.splits)
  moreover have "synced ?it' (on_disk st)" if "synced ?it (on_disk st)"
    using that disk nth by (simp add: synced_def first)
  ultimately show ?thesis using k sm ok(2) by (simp add: keeps_def sound_def tracked_def hash_of_def)
qed

lemma flush_slot_keeps:
  assumes so: "sound st" and s: "s < MAP_CACHE_SLOTS" and init: "in_initialized (io_integrity st)"
  shows "\<exists>st'. flush_slot env s st = Some st' \<and> keeps st st' \<and> in_errors (io_integrity st') = in_errors (io_integrity st) \<and>
    (env_works env \<and> \<not> io_medium_left st \<longrightarrow> \<not> io_medium_left st' \<and> slot_clean (io_integrity st') s) \<and>
    (\<forall>t<MAP_CACHE_SLOTS. slot_clean (io_integrity st) t \<longrightarrow> slot_clean (io_integrity st') t)"
proof (cases "ms_map_idx (in_cache (io_integrity st) ! s) = SLOT_EMPTY \<or> \<not> ms_dirty (in_cache (io_integrity st) ! s)")
  case True
  then have "flush_slot env s st = Some st" "slot_clean (io_integrity st) s" by (auto simp: flush_slot_def Let_def slot_clean_def)
  then show ?thesis using keeps_refl [OF so] by auto
next
  case False
  let ?it = "io_integrity st" let ?slot = "in_cache ?it ! s" let ?b = "in_map_first_block ?it + ms_map_idx ?slot"
  have ok: "imap_ok ?it" "plain st" using so by (simp_all add: sound_def)
  have f: "in_map_first_block ?it \<noteq> 0" using ok(1) init by (simp add: imap_ok_def)
  have "ms_map_idx ?slot < in_map_count ?it" using ok(1) s False unfolding imap_ok_def by blast
  then have nw: "?b < 2 ^ 32" using ok(1) by (simp add: imap_ok_def)
  obtain wr st1 where r: "write_map_block env ?b (map_block_bytes (ms_entries ?slot)) st = Some (wr, st1)" "plain st1" "io_integrity st1 = ?it"
    "on_disk st1 = (if wr then (on_disk st)(?b := map_block_bytes (ms_entries ?slot)) else on_disk st)"
    "env_works env \<and> \<not> io_medium_left st \<longrightarrow> wr \<and> \<not> io_medium_left st1"
    using write_map_block_plain [OF ok(2), of env ?b "map_block_bytes (ms_entries ?slot)"] by blast
  let ?st2 = "st1\<lparr>io_integrity := set_slot s (?slot\<lparr>ms_dirty := False\<rparr>) ?it\<rparr>"
  have e: "flush_slot env s st = Some (if wr then ?st2 else st1)" using False nw r(1,3) by (simp add: flush_slot_def Let_def)
  show ?thesis
  proof (cases wr)
    case True
    have od: "on_disk st1 = (on_disk st)(?b := map_block_bytes (ms_entries ?slot))" using r(4) True by simp
    note k = write_slot_keeps [OF so s _ f r(2,3) od]
    have so1: "sound st1" using k(1) False by (simp add: keeps_def)
    have "keeps st1 ?st2" using clear_dirty_keeps [OF so1 s] k(2) False unfolding r(3) by simp
    then have "keeps st ?st2" using k(1) False keeps_trans by blast
    moreover have "slot_clean (io_integrity ?st2) t \<longleftrightarrow> t = s \<or> slot_clean ?it t" if "t < MAP_CACHE_SLOTS" for t
      using that cache_slots [OF ok(1)] by (cases "t = s") (simp_all add: slot_clean_def set_slot_def)
    ultimately show ?thesis using e True r(5) s by (auto simp: set_slot_def)
  next
    case False
    then have "keeps st st1" using so r(2-4) by (simp add: keeps_def sound_def tracked_def hash_of_def)
    then show ?thesis using e False r(3,5) by auto
  qed
qed

lemma flush_slots_keeps:
  assumes "sound st" "\<forall>s\<in>set ss. s < MAP_CACHE_SLOTS" "in_initialized (io_integrity st)"
  shows "\<exists>st'. flush_slots env ss st = Some st' \<and> keeps st st' \<and> in_errors (io_integrity st') = in_errors (io_integrity st) \<and>
    (env_works env \<and> \<not> io_medium_left st \<longrightarrow> \<not> io_medium_left st' \<and> (\<forall>s\<in>set ss. slot_clean (io_integrity st') s)) \<and>
    (\<forall>t<MAP_CACHE_SLOTS. slot_clean (io_integrity st) t \<longrightarrow> slot_clean (io_integrity st') t)"
  using assms
proof (induction ss arbitrary: st)
  case (Cons s ss)
  obtain st1 where f: "flush_slot env s st = Some st1" "keeps st st1" "in_errors (io_integrity st1) = in_errors (io_integrity st)"
    "env_works env \<and> \<not> io_medium_left st \<longrightarrow> \<not> io_medium_left st1 \<and> slot_clean (io_integrity st1) s"
    "\<forall>t<MAP_CACHE_SLOTS. slot_clean (io_integrity st) t \<longrightarrow> slot_clean (io_integrity st1) t"
    using flush_slot_keeps [OF Cons.prems(1) _ Cons.prems(3), of s env] Cons.prems(2) by auto
  have "sound st1" "in_initialized (io_integrity st1)" using f(2) Cons.prems(3) by (simp_all add: keeps_def same_map_def)
  then obtain st' where r: "flush_slots env ss st1 = Some st'" "keeps st1 st'" "in_errors (io_integrity st') = in_errors (io_integrity st1)"
    "env_works env \<and> \<not> io_medium_left st1 \<longrightarrow> \<not> io_medium_left st' \<and> (\<forall>s\<in>set ss. slot_clean (io_integrity st') s)"
    "\<forall>t<MAP_CACHE_SLOTS. slot_clean (io_integrity st1) t \<longrightarrow> slot_clean (io_integrity st') t"
    using Cons.IH [of st1] Cons.prems(2) by auto
  have "s < MAP_CACHE_SLOTS" using Cons.prems(2) by simp
  then show ?case using f r keeps_trans [OF f(2) r(2)] by auto
qed (simp add: keeps_refl)

lemma integrity_flush_keeps:
  assumes so: "sound st"
  shows "\<exists>st'. IntegrityFlush env st = Some st' \<and> keeps st st' \<and> in_errors (io_integrity st') = in_errors (io_integrity st) \<and>
    (env_works env \<and> \<not> io_medium_left st \<longrightarrow> \<not> io_medium_left st' \<and>
       (in_initialized (io_integrity st) \<longrightarrow> (\<forall>s<MAP_CACHE_SLOTS. slot_clean (io_integrity st') s)))"
  using flush_slots_keeps [OF so, of "[0..<MAP_CACHE_SLOTS]" env] keeps_refl [OF so]
  by (cases "in_initialized (io_integrity st)") (auto simp: IntegrityFlush_def)

section \<open>Histories\<close>

text \<open>
  The first part of the state is what a reader should see: the contents at the start, changed by every
  write that reported success.
\<close>

datatype io_op = ReadOp nat | WriteOp nat bytes | PrefetchOp nat nat | InvalidateOp nat | ForgetOp | FlushOp

fun io_step :: "IoEnv \<times> io_op \<Rightarrow> (nat \<Rightarrow> bytes) \<times> IoState \<Rightarrow> ((nat \<Rightarrow> bytes) \<times> IoState) option" where
  "io_step (env, ReadOp block) (c, st) = map_option (\<lambda>(res, st'). (c, st')) (read_block env block st)"
| "io_step (env, WriteOp block data) (c, st) =
     map_option (\<lambda>(ok, st'). (if ok then c(block := data) else c, st')) (write_block env block data st)"
| "io_step (env, PrefetchOp start k) (c, st) = Some (c, ReadAheadPrefetch env start k st)"
| "io_step (env, InvalidateOp block) (c, st) = Some (c, tagfs_readahead_invalidate block st)"
| "io_step (env, ForgetOp) (c, st) = Some (c, ReadAheadForget st)"
| "io_step (env, FlushOp) (c, st) = map_option (Pair c) (IntegrityFlush env st)"

primrec io_run :: "(IoEnv \<times> io_op) list \<Rightarrow> (nat \<Rightarrow> bytes) \<times> IoState \<Rightarrow> ((nat \<Rightarrow> bytes) \<times> IoState) option" where
  "io_run [] cs = Some cs"
| "io_run (oper # opers) cs = Option.bind (io_step oper cs) (io_run opers)"

text \<open>Writes stay out of the map region, and the blocks of a prefetch have 32-bit numbers.\<close>

definition in_volume :: "IntegrityState \<Rightarrow> io_op \<Rightarrow> bool" where
  "in_volume it oper = (case oper of PrefetchOp start k \<Rightarrow> start + 8 < 2 ^ 32 | WriteOp block data \<Rightarrow> \<not> in_map_region it block | _ \<Rightarrow> True)"

lemma same_map_volume: "same_map it it' \<Longrightarrow> in_volume it' = in_volume it"
  by (auto simp: in_volume_def same_map_region fun_eq_iff split: io_op.splits)

lemma io_step_sound:
  assumes so: "sound st" and v: "in_volume (io_integrity st) (snd oper)"
    and c: "\<forall>b. \<not> in_region st b \<longrightarrow> on_disk st b = c b"
  shows "\<exists>c' st'. io_step oper (c, st) = Some (c', st') \<and> sound st' \<and> same_map (io_integrity st) (io_integrity st') \<and>
    (\<forall>b. \<not> in_region st b \<longrightarrow> on_disk st' b = c' b)"
proof -
  obtain env a where oper: "oper = (env, a)" by (cases oper)
  have pl: "plain st" "coherent st" using so by (simp_all add: sound_def plain_def)
  have kept: "sound st' \<and> same_map (io_integrity st) (io_integrity st') \<and> (\<forall>b. \<not> in_region st b \<longrightarrow> on_disk st' b = c b)"
    if "keeps st st'" for st' using that c by (simp add: keeps_def)
  have cached: "keeps st st'" if "coherent st'" "same_disk st st'" for st'
    using same_disk_keeps [OF so] plain_same_disk [OF pl(1) that] that(2) by simp
  show ?thesis
  proof (cases a)
    case (ReadOp block)
    then show ?thesis using read_block_sound [OF so, of env block] kept oper by auto
  next
    case (WriteOp block data)
    obtain ok st' where w: "write_block env block data st = Some (ok, st')" "sound st'" "same_map (io_integrity st) (io_integrity st')"
      "\<forall>b. \<not> in_region st b \<longrightarrow> on_disk st' b = (if ok \<and> b = block then data else on_disk st b)"
      using write_block_sound [OF so, of env block data] by blast
    then show ?thesis using c oper WriteOp by (cases ok) auto
  next
    case (PrefetchOp start k)
    then have "keeps st (ReadAheadPrefetch env start k st)"
      using prefetch_coherent [OF pl(2), of start env k] v oper cached by (simp add: in_volume_def)
    then show ?thesis using kept oper PrefetchOp by simp
  next
    case (InvalidateOp block)
    then show ?thesis using kept [OF cached [OF invalidate_coherent(1,2) [OF pl(2), of block]]] oper by (simp add: tagfs_readahead_invalidate_def)
  next
    case ForgetOp
    then show ?thesis using kept cached forget_coherent [OF pl(2)] oper by simp
  next
    case FlushOp
    then show ?thesis using integrity_flush_keeps [OF so, of env] kept oper by auto
  qed
qed

lemma io_run_sound:
  assumes "sound st" "\<forall>oper\<in>set opers. in_volume (io_integrity st) (snd oper)" "\<forall>b. \<not> in_region st b \<longrightarrow> on_disk st b = c b"
  shows "\<exists>c' st'. io_run opers (c, st) = Some (c', st') \<and> sound st' \<and> same_map (io_integrity st) (io_integrity st') \<and>
    (\<forall>b. \<not> in_region st b \<longrightarrow> on_disk st' b = c' b)"
  using assms
proof (induction opers arbitrary: st c)
  case (Cons oper opers)
  obtain c1 st1 where s: "io_step oper (c, st) = Some (c1, st1)" "sound st1" "same_map (io_integrity st) (io_integrity st1)"
    "\<forall>b. \<not> in_region st b \<longrightarrow> on_disk st1 b = c1 b"
    using io_step_sound [OF Cons.prems(1) _ Cons.prems(3), of oper] Cons.prems(2) by auto
  have r: "in_region st1 = in_region st" by (rule same_map_region [OF s(3)])
  have v: "\<forall>oper\<in>set opers. in_volume (io_integrity st1) (snd oper)" using Cons.prems(2) by (simp add: same_map_volume [OF s(3)])
  have "\<exists>c' st'. io_run opers (c1, st1) = Some (c', st') \<and> sound st' \<and> same_map (io_integrity st1) (io_integrity st') \<and>
    (\<forall>b. \<not> in_region st1 b \<longrightarrow> on_disk st' b = c' b)"
    by (rule Cons.IH [OF s(2) v]) (use s(4) r in simp)
  then show ?case using s(1) same_map_trans [OF s(3)] r by auto
qed simp


section \<open>What is on record\<close>

text \<open>Nothing is on record for a block, or the hash of what is on the disk.\<close>

definition honest :: "IoState \<Rightarrow> bool" where
  "honest st \<longleftrightarrow> (\<forall>b. clean st b (on_disk st b))"

text \<open>A volume in use: the map is up, agrees with the disk, and has the right hashes on record.\<close>

definition healthy :: "IoState \<Rightarrow> bool" where
  "healthy st \<longleftrightarrow> sound st \<and> tracked st \<and> in_initialized (io_integrity st) \<and> \<not> io_medium_left st \<and> honest st"

definition writes :: "nat \<Rightarrow> io_op \<Rightarrow> bool" where
  "writes block oper \<longleftrightarrow> (case oper of WriteOp b data \<Rightarrow> b = block | _ \<Rightarrow> False)"

text \<open>
  After a step of a healthy volume on which every access works, the record of each covered block is the
  hash of the new contents if the step wrote it, and as before if not.
\<close>

definition step_records :: "io_op \<Rightarrow> IoState \<Rightarrow> IoState \<Rightarrow> bool" where
  "step_records oper st st' \<longleftrightarrow> same_map (io_integrity st) (io_integrity st') \<and>
     in_errors (io_integrity st') = in_errors (io_integrity st) \<and>
     (\<forall>b. covered (io_integrity st) b \<longrightarrow>
        (if writes b oper then hash_of st' b = block_hash (io_integrity st) (on_disk st' b)
         else hash_of st' b = hash_of st b \<and> on_disk st' b = on_disk st b))"

lemma keeps_healthy:
  assumes h: "healthy st" and k: "keeps st st'" and left: "\<not> io_medium_left st'" and e: "in_errors (io_integrity st') = in_errors (io_integrity st)"
    and nw: "\<And>b. \<not> writes b oper"
  shows "healthy st' \<and> step_records oper st st'"
proof -
  have sm: "same_map (io_integrity st) (io_integrity st')" using k by (simp add: keeps_def)
  have ok: "imap_ok (io_integrity st)" "tracked st" using h by (simp_all add: healthy_def sound_def)
  have rec: "hash_of st' b = hash_of st b" "on_disk st' b = on_disk st b" if "covered (io_integrity st) b" for b
    using k ok(2) covered_idx [OF ok(1) that] that by (simp_all add: keeps_def covered_def)
  have "clean st' b (on_disk st' b)" for b
    using h rec [of b] unfolding healthy_def honest_def clean_def same_map_covered [OF sm] same_map_hash [OF sm] by auto
  then show ?thesis using k ok(2) left sm e rec nw h by (auto simp: healthy_def honest_def step_records_def keeps_def same_map_def)
qed

lemma write_healthy:
  assumes h: "healthy st" and env: "env_works env" and b: "\<not> in_region st block"
  shows "\<exists>st'. write_block env block data st = Some (True, st') \<and> healthy st' \<and> step_records (WriteOp block data) st st'"
proof -
  let ?it = "io_integrity st"
  have so: "sound st" using h by (simp add: healthy_def)
  have pre: "env_works env \<and> \<not> io_medium_left st" "tracked st \<and> in_initialized ?it \<and> \<not> in_region st block"
    using h env b by (simp_all add: healthy_def)
  obtain ok st' where w0: "write_block env block data st = Some (ok, st')" "sound st'" "same_map ?it (io_integrity st')"
    "\<forall>b. \<not> in_region st b \<longrightarrow> on_disk st' b = (if ok \<and> b = block then data else on_disk st b)"
    "in_errors (io_integrity st') = in_errors ?it" "ok" "\<not> io_medium_left st'" "tracked st'"
    "\<forall>b. covered ?it b \<longrightarrow> hash_of st' b = (if b = block then block_hash ?it data else hash_of st b)"
    using write_block_sound [OF so, of env block data] pre by blast
  have w: "write_block env block data st = Some (True, st')" "sound st'" "same_map ?it (io_integrity st')"
    "\<forall>b. \<not> in_region st b \<longrightarrow> on_disk st' b = (if b = block then data else on_disk st b)"
    "in_errors (io_integrity st') = in_errors ?it" "\<not> io_medium_left st'" "tracked st'"
    "\<forall>b. covered ?it b \<longrightarrow> hash_of st' b = (if b = block then block_hash ?it data else hash_of st b)"
    using w0 by simp_all
  have od: "on_disk st' b = (if b = block then data else on_disk st b)" if "covered ?it b" for b using w(4) that by (simp add: covered_def)
  have "clean st' b (on_disk st' b)" for b
    using h w(8) od [of b] unfolding healthy_def honest_def clean_def same_map_covered [OF w(3)] same_map_hash [OF w(3)] by auto
  then have "healthy st'" using h w by (simp add: healthy_def honest_def same_map_def)
  moreover have "step_records (WriteOp block data) st st'" using w(3,5,8) od by (auto simp: step_records_def writes_def)
  ultimately show ?thesis using w(1) by blast
qed

lemma io_step_healthy:
  assumes h: "healthy st" and v: "in_volume (io_integrity st) (snd oper)" and env: "env_works (fst oper)"
  shows "\<exists>c' st'. io_step oper (c, st) = Some (c', st') \<and> healthy st' \<and> step_records (snd oper) st st'"
proof -
  obtain env a where oper: "oper = (env, a)" by (cases oper)
  have so: "sound st" "tracked st" "\<not> io_medium_left st" using h by (simp_all add: healthy_def)
  have pl: "plain st" "coherent st" using so by (simp_all add: sound_def plain_def)
  have works: "env_works env" using env oper by simp
  have cached: "healthy st' \<and> step_records a st st'"
    if "coherent st'" "same_disk st st'" "io_medium_left st' = io_medium_left st" "\<And>b. \<not> writes b a" for st'
  proof (rule keeps_healthy [OF h])
    show "keeps st st'" using same_disk_keeps [OF so(1) _ that(2)] plain_same_disk [OF pl(1) that(1,2)] by simp
    show "\<not> io_medium_left st'" "in_errors (io_integrity st') = in_errors (io_integrity st)" using that(2,3) so(3) by (simp_all add: same_disk_def)
  qed (rule that(4))
  show ?thesis
  proof (cases a)
    case (ReadOp block)
    obtain st' where r: "read_block env block st = Some (Some (on_disk st block), st')" "keeps st st'" "\<not> io_medium_left st'"
      "in_errors (io_integrity st') = in_errors (io_integrity st)"
      using read_block_tracked [OF so(1,2) works so(3) refl, of block] h by (auto simp: healthy_def honest_def)
    then show ?thesis using keeps_healthy [OF h r(2-4), of a] oper ReadOp by (simp add: writes_def)
  next
    case (WriteOp block data)
    then show ?thesis using write_healthy [OF h works, of block data] v oper by (auto simp: in_volume_def)
  next
    case (PrefetchOp start k)
    then show ?thesis using prefetch_coherent [OF pl(2), of start env k] v oper cached [OF _ _ prefetch_left]
      by (simp add: in_volume_def writes_def)
  next
    case (InvalidateOp block)
    then show ?thesis using cached [OF invalidate_coherent(1,2) [OF pl(2), of block]] oper
      by (simp add: tagfs_readahead_invalidate_def writes_def) (simp add: ReadAheadInvalidate_def)
  next
    case ForgetOp
    have "io_medium_left (ReadAheadForget st) = io_medium_left st" by (simp add: ReadAheadForget_def)
    then show ?thesis using cached forget_coherent [OF pl(2)] oper ForgetOp by (simp add: writes_def)
  next
    case FlushOp
    obtain st' where f: "IntegrityFlush env st = Some st'" "keeps st st'" "in_errors (io_integrity st') = in_errors (io_integrity st)" "\<not> io_medium_left st'"
      using integrity_flush_keeps [OF so(1), of env] works so(3) by blast
    then show ?thesis using keeps_healthy [OF h f(2,4,3), of a] oper FlushOp by (simp add: writes_def)
  qed
qed


lemma io_run_healthy:
  assumes "healthy st" "\<forall>oper\<in>set opers. in_volume (io_integrity st) (snd oper) \<and> env_works (fst oper)"
  shows "\<exists>c' st'. io_run opers (c, st) = Some (c', st') \<and> healthy st' \<and> same_map (io_integrity st) (io_integrity st') \<and>
    in_errors (io_integrity st') = in_errors (io_integrity st) \<and>
    (\<forall>b. covered (io_integrity st) b \<longrightarrow>
       (if \<exists>oper\<in>set opers. writes b (snd oper) then hash_of st' b = block_hash (io_integrity st) (on_disk st' b)
        else hash_of st' b = hash_of st b \<and> on_disk st' b = on_disk st b))"
  using assms
proof (induction opers arbitrary: st c)
  case (Cons oper opers)
  obtain c1 st1 where s: "io_step oper (c, st) = Some (c1, st1)" "healthy st1" "step_records (snd oper) st st1"
    using io_step_healthy [OF Cons.prems(1), of oper c] Cons.prems(2) by auto
  have sm: "same_map (io_integrity st) (io_integrity st1)" using s(3) by (simp add: step_records_def)
  have v: "\<forall>oper\<in>set opers. in_volume (io_integrity st1) (snd oper) \<and> env_works (fst oper)"
    using Cons.prems(2) by (simp add: same_map_volume [OF sm])
  obtain c' st' where r: "io_run opers (c1, st1) = Some (c', st')" "healthy st'" "same_map (io_integrity st1) (io_integrity st')"
    "in_errors (io_integrity st') = in_errors (io_integrity st1)"
    "\<And>b. covered (io_integrity st) b \<Longrightarrow>
       (if \<exists>oper\<in>set opers. writes b (snd oper) then hash_of st' b = block_hash (io_integrity st) (on_disk st' b)
        else hash_of st' b = hash_of st1 b \<and> on_disk st' b = on_disk st1 b)"
    using Cons.IH [OF s(2) v, of c1] unfolding same_map_covered [OF sm] same_map_hash [OF sm] by blast
  have "if \<exists>oper\<in>set (oper # opers). writes b (snd oper) then hash_of st' b = block_hash (io_integrity st) (on_disk st' b)
      else hash_of st' b = hash_of st b \<and> on_disk st' b = on_disk st b" if "covered (io_integrity st) b" for b
    using r(5) [OF that] s(3) that by (auto simp: step_records_def split: if_splits)
  then show ?case using s(1,3) r(1,2,4) same_map_trans [OF sm r(3)] by (auto simp: step_records_def)
qed simp

section \<open>Properties\<close>


text \<open>Contents of a block that change without the volume's doing.\<close>

definition rot :: "nat \<Rightarrow> bytes \<Rightarrow> IoState \<Rightarrow> IoState" where
  "rot block data st = st\<lparr>io_braid := (io_braid st)\<lparr>br_media := (br_media (io_braid st))(io_seat st :=
     (br_media (io_braid st) (io_seat st))(tagfs_block_to_sector st block := data))\<rparr>\<rparr>"

lemma rot_disk: "on_disk (rot block data st) = (on_disk st)(block := data)" "io_integrity (rot block data st) = io_integrity st"
  "io_medium_left (rot block data st) = io_medium_left st" "ReadAheadHas (rot block data st) = ReadAheadHas st"
proof -
  have s: "tagfs_block_to_sector (rot block data st) b = tagfs_block_to_sector st b" for b
    by (simp add: rot_def tagfs_block_to_sector_def block_to_vlba_def)
  show "on_disk (rot block data st) = (on_disk st)(block := data)"
    by (auto simp: on_disk_def s fun_eq_iff) (simp_all add: rot_def sector_inj)
  show "io_integrity (rot block data st) = io_integrity st" "io_medium_left (rot block data st) = io_medium_left st"
    "ReadAheadHas (rot block data st) = ReadAheadHas st" by (simp_all add: rot_def ReadAheadHas_def fun_eq_iff)
qed

lemma rot_sound:
  assumes "sound st" "\<not> ReadAheadHas st block"
  shows "sound (rot block data st)"
proof -
  have c: "coherent st" "\<not> BraidIsHealthy (io_braid st)" "imap_ok (io_integrity st)" using assms(1) by (simp_all add: sound_def plain_def)
  have cache: "io_cache (rot block data st) = io_cache st" by (simp add: rot_def)
  have "\<not> ra_valid e \<or> ra_block e \<noteq> block" if "e \<in> set (io_cache st)" for e
    using assms(2) that by (auto simp: ReadAheadHas_def holds_block_def)
  then have "coherent (rot block data st)" using c(1) by (auto simp: coherent_def cache rot_disk)
  moreover have "\<not> BraidIsHealthy (io_braid (rot block data st))" using c(2) same_config_healthy [OF same_config_media] by (simp add: rot_def)
  ultimately show ?thesis using c(3) by (simp add: sound_def plain_def rot_disk)
qed

text \<open>A block in the read-ahead cache is read from there, without a comparison of its hash.\<close>

lemma has_lookup: "ReadAheadHas st block \<Longrightarrow> \<exists>d. ReadAheadLookup st block = Some d"
  by (cases "find (holds_block block) (io_cache st)") (auto simp: ReadAheadLookup_def ReadAheadHas_def find_None_iff)

lemma cached_read:
  assumes "ReadAheadHas st block" "coherent st" "env_works env" "\<not> io_medium_left st"
  shows "read_block env block st = Some (Some (on_disk st block), st)"
proof -
  obtain d where "ReadAheadLookup st block = Some d"
    using assms(1) has_lookup by blast
  moreover have "volume_medium_gone env st = (False, st)"
    using assms(3,4) by (simp add: env_works_def env_good_def volume_medium_gone_def)
  ultimately show ?thesis using lookup_coherent [OF assms(2)] by (simp add: read_block_def read_block_with_def)
qed

lemma rot_cached:
  assumes "ReadAheadHas st block" "coherent st" "env_works env" "\<not> io_medium_left st"
  shows "read_block env block (rot other data st) = Some (Some (on_disk st block), rot other data st)"
proof -
  obtain d where "ReadAheadLookup st block = Some d"
    using assms(1) has_lookup by blast
  then have "ReadAheadLookup (rot other data st) block = Some (on_disk st block)"
    using lookup_coherent [OF assms(2)] by (simp add: ReadAheadLookup_def rot_def)
  moreover have "volume_medium_gone env (rot other data st) = (False, rot other data st)"
    using assms(3,4) by (simp add: env_works_def env_good_def volume_medium_gone_def rot_disk)
  ultimately show ?thesis by (simp add: read_block_def read_block_with_def)
qed

text \<open>
  C2. Which reads report bit rot: start from a volume whose integrity map is right, run any sequence of
  operations whose accesses work, and let the contents of a covered block that the sequence wrote be
  replaced on the disk by any data. No operation of the sequence reports an error. If the read-ahead cache
  does not hold the block, the next read returns the data and reports an error exactly when its
  hash is not the hash of what was written, unless that hash is zero, which counts as no record. If the cache
  holds the block, the next read returns what was last written, and reports none. In particular an
  unchanged block is never reported.
\<close>

theorem integrity_reports_rot:
  assumes "healthy st" "\<forall>oper\<in>set opers. in_volume (io_integrity st) (snd oper) \<and> env_works (fst oper)"
    "covered (io_integrity st) block" "\<exists>oper\<in>set opers. writes block (snd oper)" "env_works env"
  shows "\<exists>c st'. io_run opers (on_disk st, st) = Some (c, st') \<and> in_errors (io_integrity st') = in_errors (io_integrity st) \<and>
    (\<not> ReadAheadHas st' block \<longrightarrow>
      (\<exists>st''. read_block env block (rot block data st') = Some (Some data, st'') \<and>
        in_errors (io_integrity st'') =
          (if block_hash (io_integrity st) (c block) = 0 \<or> block_hash (io_integrity st) data = block_hash (io_integrity st) (c block)
           then in_errors (io_integrity st) else u32_wrap (in_errors (io_integrity st) + 1)))) \<and>
    (ReadAheadHas st' block \<longrightarrow>
      (\<exists>st''. read_block env block (rot block data st') = Some (Some (c block), st'') \<and>
        in_errors (io_integrity st'') = in_errors (io_integrity st)))"
proof -
  let ?it = "io_integrity st"
  have so: "sound st" "imap_ok ?it" "in_initialized ?it" using assms(1) by (simp_all add: healthy_def sound_def)
  have out: "\<not> in_region st block" using assms(3) by (simp add: covered_def)
  obtain c st' where r: "io_run opers (on_disk st, st) = Some (c, st')" "healthy st'" "same_map ?it (io_integrity st')"
    "in_errors (io_integrity st') = in_errors ?it"
    "\<forall>b. covered ?it b \<longrightarrow> (if \<exists>oper\<in>set opers. writes b (snd oper) then hash_of st' b = block_hash ?it (on_disk st' b)
        else hash_of st' b = hash_of st b \<and> on_disk st' b = on_disk st b)"
    using io_run_healthy [OF assms(1,2), of "on_disk st"] by blast
  have cb: "on_disk st' block = c block" using io_run_sound [OF so(1), of opers "on_disk st"] assms(2) r(1) out by auto
  then have h: "hash_of st' block = block_hash ?it (c block)" using r(5) [rule_format, OF assms(3)] assms(4) by simp
  have "\<exists>st''. read_block env block (rot block data st') = Some (Some data, st'') \<and> in_errors (io_integrity st'') =
      (if block_hash ?it (c block) = 0 \<or> block_hash ?it data = block_hash ?it (c block) then in_errors ?it else u32_wrap (in_errors ?it + 1))"
    if ra: "\<not> ReadAheadHas st' block"
  proof -
    let ?st = "rot block data st'"
    have s': "sound st'" "tracked st'" "\<not> io_medium_left st'" "imap_ok (io_integrity st')" using r(2) by (simp_all add: healthy_def sound_def)
    have cov: "covered (io_integrity st') block" using assms(3) unfolding same_map_covered [OF r(3)] .
    then have "\<not> in_region st' block" by (simp add: covered_def)
    note cov = cov this covered_first [OF s'(4) cov]
    note o = outside_change [OF s'(1) cov(2,3) rot_disk(2,1)]
    have so': "sound ?st" by (rule rot_sound [OF s'(1) ra])
    have tr: "tracked ?st" "\<not> io_medium_left ?st" "\<not> ReadAheadHas ?st block" "on_disk ?st block = data" "in_errors (io_integrity ?st) = in_errors ?it"
      using o(1) s'(2,3) ra r(4) by (simp_all add: rot_disk)
    have cl: "clean ?st block data \<longleftrightarrow> block_hash ?it (c block) = 0 \<or> block_hash ?it data = block_hash ?it (c block)"
      using cov(1) o(2) [OF cov(1)] h by (auto simp: clean_def rot_disk same_map_hash [OF r(3)])
    show ?thesis using read_block_tracked [OF so' tr(1) assms(5) tr(2) refl, of block] tr(3-5) cl by auto
  qed
  moreover have "\<exists>st''. read_block env block (rot block data st') = Some (Some (c block), st'') \<and> in_errors (io_integrity st'') = in_errors ?it"
    if "ReadAheadHas st' block"
    using rot_cached [OF that _ assms(5)] r(2,4) cb by (auto simp: healthy_def sound_def plain_def rot_disk)
  ultimately show ?thesis using r(1,4) by blast
qed


section \<open>A small volume\<close>

definition fresh_map :: IntegrityState where
  "fresh_map = \<lparr>in_initialized = True, in_map_entries = 512, in_map_first_block = 1, in_map_count = 1,
     in_cache = replicate 16 \<lparr>ms_map_idx = SLOT_EMPTY, ms_lru = 0, ms_dirty = False, ms_entries = []\<rparr>, in_lru_tick = 0,
     in_ctx = the (BoxHashInit (Some (replicate 16 0))), in_errors = 0, in_rot_ring = [], in_integrity_tag = 7\<rparr>"

definition one_disk :: IoState where
  "one_disk = ReadAheadInit \<lparr>io_cache = [], io_head = 0, io_last_block = 0, io_medium_left = False, io_data_block = 10,
     io_volume_base = 0, io_seat = 0, io_braid = three_disks\<lparr>br_initialized := False, br_media := (\<lambda>d s. replicate 4096 0)\<rparr>,
     io_integrity = fresh_map\<rparr>"

definition good_env :: IoEnv where
  "good_env = \<lparr>ev_seated = True, ev_disks = good_io, ev_kmalloc = (\<lambda>_. True), ev_seat_run = 64\<rparr>"

lemma good_env_works: "env_works good_env"
  by (simp add: env_works_def env_good_def good_env_def good_io_def)

lemma fresh_map_ok: "imap_ok fresh_map" "i \<noteq> SLOT_EMPTY \<Longrightarrow> slot_of (in_cache fresh_map) i = None"
  "in_map_region fresh_map b \<longleftrightarrow> b = 1" "covered fresh_map b \<longleftrightarrow> b < 512 \<and> b \<noteq> 1"
proof -
  have nth: "in_cache fresh_map ! s = \<lparr>ms_map_idx = SLOT_EMPTY, ms_lru = 0, ms_dirty = False, ms_entries = []\<rparr>" if "s < MAP_CACHE_SLOTS" for s
    using that by (simp add: fresh_map_def MAP_CACHE_SLOTS_def)
  have f: "length (in_cache fresh_map) = MAP_CACHE_SLOTS" "in_map_first_block fresh_map = 1" "in_map_count fresh_map = 1"
    "in_map_entries fresh_map = 512" "in_initialized fresh_map" by (simp_all add: fresh_map_def MAP_CACHE_SLOTS_def)
  show "imap_ok fresh_map" by (simp add: imap_ok_def f nth ENTRIES_PER_BLOCK_def)
  show "i \<noteq> SLOT_EMPTY \<Longrightarrow> slot_of (in_cache fresh_map) i = None" unfolding slot_of_None using nth by simp
  show r: "in_map_region fresh_map b \<longleftrightarrow> b = 1" by (auto simp: in_map_region_def f)
  show "covered fresh_map b \<longleftrightarrow> b < 512 \<and> b \<noteq> 1" by (simp add: covered_def r f)
qed

lemma le_get_zeros: "le_get (replicate n 0) = 0"
  by (induction n) simp_all

lemma one_disk_healthy: "healthy one_disk" "io_integrity one_disk = fresh_map"
proof -
  show it: "io_integrity one_disk = fresh_map" by (simp add: one_disk_def ReadAheadInit_def)
  have disk: "on_disk one_disk b = replicate 4096 0" for b by (simp add: on_disk_def one_disk_def ReadAheadInit_def)
  have so: "sound one_disk"
    by (simp add: sound_def it fresh_map_ok(1)) (simp add: one_disk_def plain_def coherent_def ReadAheadInit_def TAGFS_READ_AHEAD_BLOCKS_def no_block_def BraidIsHealthy_def)
  have tr: "tracked one_disk" by (simp add: tracked_def it synced_def) (simp add: fresh_map_def MAP_CACHE_SLOTS_def)
  have "hash_of one_disk b = 0" if "covered fresh_map b" for b
  proof -
    have "b div ENTRIES_PER_BLOCK \<noteq> SLOT_EMPTY" using that by (simp add: fresh_map_ok ENTRIES_PER_BLOCK_def SLOT_EMPTY_def)
    then have "slot_of (in_cache fresh_map) (b div ENTRIES_PER_BLOCK) = None" by (simp add: fresh_map_ok)
    then show ?thesis by (simp add: hash_of_def recorded_def it disk map_block_entries_def ENTRIES_PER_BLOCK_def le_get_zeros)
  qed
  then have "honest one_disk" by (simp add: honest_def clean_def it)
  moreover have "\<not> io_medium_left one_disk" "in_initialized fresh_map" by (simp_all add: one_disk_def ReadAheadInit_def fresh_map_def)
  ultimately show "healthy one_disk" using so tr by (simp add: healthy_def it)
qed


theorem integrity_reports_rot_witness:
  "\<exists>c st'. io_run [(good_env, WriteOp 3 [1, 2]), (good_env, FlushOp)] (on_disk one_disk, one_disk) = Some (c, st') \<and>
     in_errors (io_integrity st') = 0 \<and>
     (\<not> ReadAheadHas st' 3 \<longrightarrow>
       (\<exists>st''. read_block good_env 3 (rot 3 [7] st') = Some (Some [7], st'') \<and>
         in_errors (io_integrity st'') =
           (if block_hash fresh_map (c 3) = 0 \<or> block_hash fresh_map [7] = block_hash fresh_map (c 3) then 0 else u32_wrap (0 + 1)))) \<and>
     (ReadAheadHas st' 3 \<longrightarrow>
       (\<exists>st''. read_block good_env 3 (rot 3 [7] st') = Some (Some (c 3), st'') \<and> in_errors (io_integrity st'') = 0))"
proof -
  let ?opers = "[(good_env, WriteOp 3 [1, 2]), (good_env, FlushOp)]"
  have e: "in_errors fresh_map = 0" by (simp add: fresh_map_def)
  have v: "\<forall>oper\<in>set ?opers. in_volume (io_integrity one_disk) (snd oper) \<and> env_works (fst oper)"
    by (simp add: in_volume_def one_disk_healthy(2) fresh_map_ok good_env_works)
  have c: "covered (io_integrity one_disk) 3" "\<exists>oper\<in>set ?opers. writes 3 (snd oper)"
    by (simp_all add: one_disk_healthy(2) fresh_map_ok writes_def)
  show ?thesis by (rule integrity_reports_rot [OF one_disk_healthy(1) v c good_env_works, of "[7]", unfolded one_disk_healthy(2) e])
qed

section \<open>Defects\<close>

text \<open>
  A prefetch puts what it reads from the disk into the cache without comparing its hash: when it comes between
  the change of a block and the next read, the read returns the changed data and nothing is reported.
\<close>

lemma prefetch_hides_rot:
  assumes "sound (rot block data st)" "env_works env" "\<not> io_medium_left st" "start + 8 < 2 ^ 32"
    "ReadAheadHas (ReadAheadPrefetch env start k (rot block data st)) block"
  shows "\<exists>st'. read_block env block (ReadAheadPrefetch env start k (rot block data st)) = Some (Some data, st') \<and>
    in_errors (io_integrity st') = in_errors (io_integrity st)"
proof -
  let ?st = "rot block data st" and ?st1 = "ReadAheadPrefetch env start k (rot block data st)"
  have co: "coherent ?st1" "same_disk ?st ?st1" using prefetch_coherent [of ?st start env k] assms(1,4) by (simp_all add: sound_def plain_def)
  have "\<not> io_medium_left ?st1" using assms(3) by (simp add: prefetch_left rot_disk)
  then have "read_block env block ?st1 = Some (Some (on_disk ?st1 block), ?st1)" using cached_read [OF assms(5) co(1) assms(2)] by simp
  then show ?thesis using same_disk_on_disk [OF co(2)] co(2) by (simp add: rot_disk same_disk_def)
qed

text \<open>
  The prefetch reads the disk without the lock and stores what it read afterwards. When a write to the
  block comes in between, the old data goes into the cache as valid, and later reads return it.
\<close>

lemma prefetch_write_race:
  assumes "disk_read_blocks env st1 (block_to_vlba st1 block) 1 = Some [old]" "slot < TAGFS_READ_AHEAD_BLOCKS"
    "coherent st1" "ev_seated env" "\<not> io_medium_left st1" "write_block env block new st1 = Some (True, st2)"
    "\<not> BraidIsHealthy (io_braid st1)" "\<not> in_initialized (io_integrity st1)"
  shows "fst (the (read_block env block (publish_run [(block, slot)] [old] st2))) = Some old"
proof -
  let ?st = "publish_run [(block, slot)] [old] st2"
  have st2: "\<not> io_medium_left st2" "length (io_cache st2) = TAGFS_READ_AHEAD_BLOCKS" "\<not> ReadAheadHas st2 block"
  proof -
    obtain st3 where d: "disk_write_block env st1 (block_to_vlba st1 block) new = Some st3" "st2 = ReadAheadInvalidate block st3"
      using assms(4-8) disk_write_integrity by (auto simp: write_block_def write_block_with_def volume_medium_gone_def Let_def
        IntegrityUpdate_def not_mapped_def ReadAheadInvalidate_def split: option.splits)
    have st3: "io_medium_left st3 = io_medium_left st1" "io_cache st3 = io_cache st1"
      using d(1) by (auto simp: disk_write_block_def Let_def split: if_splits)
    show "\<not> io_medium_left st2" "length (io_cache st2) = TAGFS_READ_AHEAD_BLOCKS"
      using assms(3,5) d(2) st3 by (simp_all add: ReadAheadInvalidate_def coherent_def)
    have "io_cache st2 = io_cache (ReadAheadInvalidate block st1)" by (simp add: d(2) ReadAheadInvalidate_def st3(2))
    then show "\<not> ReadAheadHas st2 block" using invalidate_coherent(3) [OF assms(3), of block] unfolding ReadAheadHas_def by (simp only: not_False_eq_True)
  qed
  let ?e = "\<lparr>ra_block = block, ra_data = old, ra_valid = True\<rparr>"
  have c: "io_cache ?st = (io_cache st2)[slot := ?e]" "io_medium_left ?st = io_medium_left st2"
    by (simp_all add: publish_run_def fill_entry_def)
  have "find (holds_block block) ((io_cache st2)[slot := ?e]) = Some ?e"
  proof -
    have "?e \<in> set ((io_cache st2)[slot := ?e])" using st2(2) assms(2) by (simp add: set_update_memI)
    then have "find (holds_block block) ((io_cache st2)[slot := ?e]) \<noteq> None"
      unfolding find_None_iff by (auto simp: holds_block_def intro: exI [of _ ?e])
    then obtain e where e: "find (holds_block block) ((io_cache st2)[slot := ?e]) = Some e" by auto
    then have "e \<in> set ((io_cache st2)[slot := ?e])" "holds_block block e" by (auto dest: find_SomeD)
    then have "e = ?e" using st2(3) set_update_subset_insert [of "io_cache st2" slot ?e] by (auto simp: ReadAheadHas_def)
    then show ?thesis using e by simp
  qed
  then have "ReadAheadLookup ?st block = Some old" by (simp add: ReadAheadLookup_def c)
  then show ?thesis using st2(1) assms(4) c(2) by (simp add: read_block_def read_block_with_def volume_medium_gone_def)
qed


text \<open>
  When the map block of a block cannot be had, its record stays as it was although the block was written:
  the write reports success, and the next read from the disk that finds the old hash reports bit rot.
\<close>

lemma failed_update_keeps_old_hash:
  assumes "sound st" "tracked st" "covered (io_integrity st) block" "cache_get env (block div ENTRIES_PER_BLOCK) st = Some (None, st')"
  shows "IntegrityUpdate env block data st = Some st' \<and> hash_of st' block = hash_of st block"
proof -
  have ok: "imap_ok (io_integrity st)" using assms(1) by (simp add: sound_def)
  note idx = covered_idx [OF ok assms(3)]
  have "keeps st st'" using cache_get_keeps [OF assms(1) conjunct1 [OF idx] covered_first [OF ok assms(3)], of env] assms(4) by auto
  then show ?thesis using assms(2-4) idx by (simp add: IntegrityUpdate_def not_mapped_covered block_hash_total keeps_def)
qed

end
