(* ===== verification/BlockSpace.thy ===== *)
theory BlockSpace
  imports BitArray "HOL-Library.Monad_Syntax"
begin

text \<open>
  The block allocator of TagFS (kernel/tagfs/tagfs.c): the block bitmap, in which a set bit is a taken
  block, and beside it the list of free extents, in the order of their first blocks, from which
  \<^verbatim>\<open>tagfs_alloc_blocks_internal\<close> takes the first extent that is long enough and into which
  \<^verbatim>\<open>free_run_locked\<close> merges what is given back. Block numbers and counts are natural numbers standing
  for \<^verbatim>\<open>uint32_t\<close>, with the wrap-around written out. \<open>None\<close> as the result of an operation means that it
  writes outside the bitmap or does not return; \<open>mem s\<close> says whether \<^verbatim>\<open>kmalloc\<close> gives a node for the
  extent that starts at block \<open>s\<close>.

  The lemmas show that the list is a canonical form of the free set (sorted, maximal, non-empty
  extents), that a search of the list finds the lowest run of free blocks of the size asked for, and
  that the list kept up to date step by step is the list \<^verbatim>\<open>free_list_build\<close> makes from the bitmap.
\<close>

section \<open>State\<close>

record FreeExtent =
  fe_start :: nat
  fe_count :: nat

record BlockBitmap =
  bb_bitmap :: bytes
  bb_total_blocks :: nat
  bb_free_list :: "FreeExtent list"
  bb_extent_count :: nat

text \<open>The fields of \<^verbatim>\<open>g_state\<close> the allocator uses: the bitmap, \<^verbatim>\<open>layout.data_blocks\<close> and \<^verbatim>\<open>ledger.free_blocks\<close>.\<close>

record SpaceState =
  ss_block_bitmap :: BlockBitmap
  ss_data_blocks :: nat
  ss_free_blocks :: nat

section \<open>The bitmap\<close>

definition bitmap_set_bit :: "bytes \<Rightarrow> nat \<Rightarrow> bytes option" where
  "bitmap_set_bit bitmap b =
     (if b div 8 < length bitmap then Some (bitmap[b div 8 := bitmap ! (b div 8) OR push_bit (b mod 8) 1]) else None)"

definition bitmap_clear_bit :: "bytes \<Rightarrow> nat \<Rightarrow> bytes option" where
  "bitmap_clear_bit bitmap b =
     (if b div 8 < length bitmap then Some (bitmap[b div 8 := bitmap ! (b div 8) AND NOT (push_bit (b mod 8) 1)]) else None)"

definition bitmap_test_bit :: "bytes \<Rightarrow> nat \<Rightarrow> bool" where
  "bitmap_test_bit bitmap b \<longleftrightarrow> bitmap ! (b div 8) AND push_bit (b mod 8) 1 \<noteq> 0"

text \<open>\<^verbatim>\<open>for (i = 0; i < count; i++) bitmap_set_bit(bitmap, start + i)\<close>, and the same with \<^verbatim>\<open>bitmap_clear_bit\<close>.\<close>

primrec for_bits :: "(bytes \<Rightarrow> nat \<Rightarrow> bytes option) \<Rightarrow> bytes \<Rightarrow> nat \<Rightarrow> nat \<Rightarrow> bytes option" where
  "for_bits oper bitmap start 0 = Some bitmap"
| "for_bits oper bitmap start (Suc n) = Option.bind (for_bits oper bitmap start n) (\<lambda>bm. oper bm (u32_wrap (start + n)))"

section \<open>Building the free list\<close>

definition free_list_destroy :: "BlockBitmap \<Rightarrow> BlockBitmap" where
  "free_list_destroy bb = bb\<lparr>bb_free_list := [], bb_extent_count := 0\<rparr>"

definition count_free_blocks :: "SpaceState \<Rightarrow> nat" where
  "count_free_blocks st = foldl (\<lambda>free b. if \<not> bitmap_test_bit (bb_bitmap (ss_block_bitmap st)) b then free + 1 else free)
     0 [0..<ss_data_blocks st]"

text \<open>
  The two inner loops of \<^verbatim>\<open>free_list_build\<close>: \<open>skip_run 0xFF True\<close> skips taken blocks, eight at a time
  where a whole byte is taken, \<open>skip_run 0 False\<close> free ones.
\<close>

partial_function (option) skip_run :: "u8 \<Rightarrow> bool \<Rightarrow> bytes \<Rightarrow> nat \<Rightarrow> nat \<Rightarrow> nat option" where
  "skip_run whole taken bitmap tot i =
     (if i < tot
      then if i mod 8 = 0 \<and> u32_wrap (i + 8) \<le> tot \<and> bitmap ! (i div 8) = whole
           then skip_run whole taken bitmap tot (u32_wrap (i + 8))
           else if bitmap_test_bit bitmap i = taken then skip_run whole taken bitmap tot (u32_wrap (i + 1))
           else Some i
      else Some i)"

partial_function (option) build_loop :: "(nat \<Rightarrow> bool) \<Rightarrow> bytes \<Rightarrow> nat \<Rightarrow> nat \<Rightarrow> FreeExtent list \<Rightarrow> FreeExtent list option" where
  "build_loop mem bitmap tot i acc =
     (if i < tot
      then do {
        start \<leftarrow> skip_run 0xFF True bitmap tot i;
        if start \<ge> tot then Some acc
        else do {
          j \<leftarrow> skip_run 0x00 False bitmap tot start;
          if mem start
          then build_loop mem bitmap tot j (acc @ [\<lparr>fe_start = start, fe_count = j - start\<rparr>])
          else Some acc
        }
      }
      else Some acc)"

definition free_list_build :: "(nat \<Rightarrow> bool) \<Rightarrow> BlockBitmap \<Rightarrow> BlockBitmap option" where
  "free_list_build mem bb =
     (let bb1 = free_list_destroy bb
      in map_option (\<lambda>xs. bb1\<lparr>bb_free_list := xs, bb_extent_count := u32_wrap (length xs)\<rparr>)
           (build_loop mem (bb_bitmap bb1) (bb_total_blocks bb1) 0 []))"

section \<open>Allocation\<close>

text \<open>
  The search of \<^verbatim>\<open>tagfs_alloc_blocks_internal\<close>: the first block of the run taken, whether its extent was
  used up, and the list without the run.
\<close>

fun take_first :: "nat \<Rightarrow> FreeExtent list \<Rightarrow> (nat \<times> bool \<times> FreeExtent list) option" where
  "take_first k [] = None"
| "take_first k (cur # rest) =
     (if fe_count cur \<ge> k
      then if fe_count cur = k then Some (fe_start cur, True, rest)
           else Some (fe_start cur, False, cur\<lparr>fe_start := u32_wrap (fe_start cur + k), fe_count := fe_count cur - k\<rparr> # rest)
      else map_option (\<lambda>(s, gone, xs). (s, gone, cur # xs)) (take_first k rest))"

text \<open>The result is \<open>None\<close> for -1 and the first block for 0.\<close>

definition tagfs_alloc_blocks_internal :: "nat \<Rightarrow> SpaceState \<Rightarrow> (nat option \<times> SpaceState) option" where
  "tagfs_alloc_blocks_internal k st =
     (let bb = ss_block_bitmap st
      in case take_first k (bb_free_list bb) of
           None \<Rightarrow> Some (None, st)
         | Some (start, gone, xs) \<Rightarrow>
             map_option (\<lambda>bm. (Some start,
               st\<lparr>ss_block_bitmap := bb\<lparr>bb_bitmap := bm, bb_free_list := xs,
                    bb_extent_count := (if gone then u32_wrap (bb_extent_count bb + 2 ^ 32 - 1) else bb_extent_count bb)\<rparr>,
                  ss_free_blocks := (if ss_free_blocks st \<ge> k then ss_free_blocks st - k else ss_free_blocks st)\<rparr>))
               (for_bits bitmap_set_bit (bb_bitmap bb) start k))"

text \<open>\<open>door\<close> is the outcome of \<^verbatim>\<open>tagfs_enter\<close>.\<close>

definition tagfs_alloc_blocks_inside :: "nat \<Rightarrow> SpaceState \<Rightarrow> (nat option \<times> SpaceState) option" where
  "tagfs_alloc_blocks_inside k st = (if k = 0 then Some (None, st) else tagfs_alloc_blocks_internal k st)"

definition tagfs_alloc_blocks :: "bool \<Rightarrow> nat \<Rightarrow> SpaceState \<Rightarrow> (nat option \<times> SpaceState) option" where
  "tagfs_alloc_blocks door k st = (if \<not> door then Some (None, st) else tagfs_alloc_blocks_inside k st)"

section \<open>Giving a run back\<close>

text \<open>
  The list part of \<^verbatim>\<open>free_run_locked\<close>: \<open>before\<close> are the extents the search passes, the last of them is
  \<^verbatim>\<open>prev\<close>, and the first of \<open>after\<close> is \<^verbatim>\<open>cur\<close>. The number is \<^verbatim>\<open>extent_count\<close>.
\<close>

definition insert_run :: "bool \<Rightarrow> nat \<Rightarrow> nat \<Rightarrow> FreeExtent list \<times> nat \<Rightarrow> FreeExtent list \<times> nat" where
  "insert_run node start k xn =
     (let (xs, n) = xn;
          stop = u32_wrap (start + k);
          before = takeWhile (\<lambda>e. fe_start e < start) xs;
          after = dropWhile (\<lambda>e. fe_start e < start) xs;
          merge_right = (after \<noteq> [] \<and> fe_start (hd after) = stop);
          merge_left = (before \<noteq> [] \<and> u32_wrap (fe_start (last before) + fe_count (last before)) = start);
          prev = last before;
          cur = hd after
      in if merge_left \<and> merge_right
         then (butlast before @ prev\<lparr>fe_count := u32_wrap (fe_count prev + (k + fe_count cur))\<rparr> # tl after,
               u32_wrap (n + 2 ^ 32 - 1))
         else if merge_left then (butlast before @ prev\<lparr>fe_count := u32_wrap (fe_count prev + k)\<rparr> # after, n)
         else if merge_right then (before @ cur\<lparr>fe_start := start, fe_count := u32_wrap (fe_count cur + k)\<rparr> # tl after, n)
         else if node then (before @ \<lparr>fe_start = start, fe_count = k\<rparr> # after, u32_wrap (n + 1))
         else (xs, n))"

definition free_run_locked :: "(nat \<Rightarrow> bool) \<Rightarrow> nat \<Rightarrow> nat \<Rightarrow> SpaceState \<Rightarrow> SpaceState option" where
  "free_run_locked mem start k st =
     (if k = 0 then Some st
      else let bb = ss_block_bitmap st;
               (xs, n) = insert_run (mem start) start k (bb_free_list bb, bb_extent_count bb)
           in map_option (\<lambda>bm. st\<lparr>ss_block_bitmap := bb\<lparr>bb_bitmap := bm, bb_free_list := xs, bb_extent_count := n\<rparr>,
                                  ss_free_blocks := (ss_free_blocks st + k) mod 2 ^ 64\<rparr>)
                (for_bits bitmap_clear_bit (bb_bitmap bb) start k))"

section \<open>Canonical lists of extents\<close>

definition fe_end :: "FreeExtent \<Rightarrow> nat" where
  "fe_end e = fe_start e + fe_count e"

definition run_of :: "FreeExtent \<Rightarrow> nat set" where
  "run_of e = {fe_start e..<fe_end e}"

definition extent_blocks :: "FreeExtent list \<Rightarrow> nat set" where
  "extent_blocks xs = (\<Union>e\<in>set xs. run_of e)"

text \<open>Sorted, every extent non-empty, and a taken block between each extent and the next.\<close>

definition canonical :: "FreeExtent list \<Rightarrow> bool" where
  "canonical xs \<longleftrightarrow> sorted_wrt (\<lambda>a b. fe_end a < fe_start b) xs \<and> (\<forall>e\<in>set xs. 0 < fe_count e)"

lemma extent_blocks_simps [simp]:
  "extent_blocks [] = {}" "extent_blocks (e # xs) = run_of e \<union> extent_blocks xs"
  "extent_blocks (xs @ ys) = extent_blocks xs \<union> extent_blocks ys"
  by (auto simp: extent_blocks_def)

lemma canonical_simps [simp]:
  "canonical []"
  "canonical (e # xs) \<longleftrightarrow> 0 < fe_count e \<and> (\<forall>x\<in>set xs. fe_end e < fe_start x) \<and> canonical xs"
  "canonical (xs @ ys) \<longleftrightarrow> canonical xs \<and> canonical ys \<and> (\<forall>x\<in>set xs. \<forall>y\<in>set ys. fe_end x < fe_start y)"
  by (auto simp: canonical_def sorted_wrt_append)

lemma run_of_mem [simp]: "b \<in> run_of e \<longleftrightarrow> fe_start e \<le> b \<and> b < fe_end e"
  by (simp add: run_of_def)

lemma extent_blocks_mem: "b \<in> extent_blocks xs \<longleftrightarrow> (\<exists>e\<in>set xs. fe_start e \<le> b \<and> b < fe_end e)"
  by (simp add: extent_blocks_def)

lemma finite_extent_blocks [simp]: "finite (extent_blocks xs)"
  by (simp add: extent_blocks_def run_of_def)

lemma canonical_above:
  assumes "canonical (e # xs)" "b \<in> extent_blocks xs"
  shows "fe_end e < b"
  using assms by (auto simp: extent_blocks_mem)

text \<open>A run of blocks of the list lies in one extent: there is a gap between any two.\<close>

lemma run_in_one_extent:
  assumes "canonical xs" "0 < k" "{s..<s + k} \<subseteq> extent_blocks xs"
  shows "\<exists>e\<in>set xs. fe_start e \<le> s \<and> s + k \<le> fe_end e"
  using assms
proof (induction xs)
  case (Cons e xs)
  note above = canonical_above [OF Cons.prems(1)]
  show ?case
  proof (cases "s \<in> run_of e")
    case True
    have "s + k \<le> fe_end e"
    proof (rule ccontr)
      assume "\<not> s + k \<le> fe_end e"
      then have "fe_end e \<in> {s..<s + k}" using True by simp
      then have "fe_end e \<in> run_of e \<union> extent_blocks xs" using Cons.prems(3) by auto
      then show False using above [of "fe_end e"] by auto
    qed
    then show ?thesis using True by auto
  next
    case False
    have "s \<in> extent_blocks (e # xs)" using Cons.prems(2,3) by (meson atLeastLessThan_iff less_add_same_cancel1 order_refl subsetD)
    then have "s \<in> extent_blocks xs" using False by auto
    then have "fe_end e < s" by (rule above)
    then have "{s..<s + k} \<subseteq> extent_blocks xs" using Cons.prems(3) by (auto simp: subset_iff)
    then show ?thesis using Cons.IH Cons.prems(1,2) by auto
  qed
qed simp

text \<open>There are no more extents than blocks.\<close>

lemma canonical_length: "canonical xs \<Longrightarrow> length xs \<le> card (extent_blocks xs)"
proof (induction xs)
  case (Cons e xs)
  have "extent_blocks xs \<inter> run_of e = {}" using canonical_above [OF Cons.prems] by fastforce
  then have "card (run_of e \<union> extent_blocks xs) = card (run_of e) + card (extent_blocks xs)"
    by (intro card_Un_disjoint) (auto simp: run_of_def)
  then show ?case using Cons by (simp add: run_of_def fe_end_def)
qed simp

lemma wrap_pred: "0 < n \<Longrightarrow> n \<le> 2 ^ 32 \<Longrightarrow> u32_wrap (n + 2 ^ 32 - 1) = n - 1"
  by (cases n) (simp_all add: u32_wrap_def)

lemma extents_eq: "fe_start a = fe_start b \<Longrightarrow> fe_end a = fe_end b \<Longrightarrow> a = (b :: FreeExtent)"
  by (simp add: fe_end_def)

text \<open>The list is determined by the set of blocks.\<close>

lemma canonical_head:
  assumes "canonical (e # xs)" "canonical (f # ys)" "extent_blocks (e # xs) = extent_blocks (f # ys)"
  shows "e = f"
proof -
  have first: "fe_start f \<le> fe_start e" if c: "canonical (e # xs)" "canonical (f # ys)"
    and b: "extent_blocks (e # xs) = extent_blocks (f # ys)" for e f xs ys
  proof -
    have "fe_start e \<in> extent_blocks (e # xs)" using c(1) by (simp add: fe_end_def)
    then have "fe_start e \<in> run_of f \<union> extent_blocks ys" unfolding b by simp
    then show ?thesis using canonical_above [OF c(2), of "fe_start e"] by (auto simp: fe_end_def)
  qed
  have last: "fe_end e \<le> fe_end f" if c: "canonical (e # xs)" "canonical (f # ys)"
    and b: "extent_blocks (e # xs) = extent_blocks (f # ys)" and s: "fe_start e = fe_start f" for e f xs ys
  proof (rule ccontr)
    assume "\<not> fe_end e \<le> fe_end f"
    then have "fe_end f \<in> run_of e" using s by (simp add: fe_end_def)
    then have "fe_end f \<in> run_of f \<union> extent_blocks ys" using b by auto
    then show False using canonical_above [OF c(2), of "fe_end f"] by auto
  qed
  have s: "fe_start e = fe_start f" using first [OF assms] first [OF assms(2,1) assms(3) [symmetric]] by simp
  then have "fe_end e = fe_end f" using last [OF assms s] last [OF assms(2,1) assms(3) [symmetric] s [symmetric]] by simp
  with s show ?thesis by (rule extents_eq)
qed

lemma canonical_unique:
  assumes "canonical xs" "canonical ys" "extent_blocks xs = extent_blocks ys"
  shows "xs = ys"
  using assms
proof (induction xs arbitrary: ys)
  case Nil
  show ?case
  proof (cases ys)
    case (Cons f ys')
    then show ?thesis using Nil by (auto simp: run_of_def fe_end_def)
  qed simp
next
  case (Cons e xs)
  obtain f ys' where ys: "ys = f # ys'"
    using Cons.prems by (cases ys) (auto simp: run_of_def fe_end_def)
  have ef: "e = f" using canonical_head [of e xs f ys'] Cons.prems ys by simp
  have a: "extent_blocks xs \<inter> run_of e = {}" using canonical_above [OF Cons.prems(1)] by fastforce
  have b: "extent_blocks ys' \<inter> run_of f = {}" using canonical_above [of f ys'] Cons.prems(2) ys by fastforce
  have "extent_blocks xs = extent_blocks (e # xs) - run_of e" using a by auto
  also have "\<dots> = extent_blocks (f # ys') - run_of f" using Cons.prems(3) ys ef by simp
  also have "\<dots> = extent_blocks ys'" using b by auto
  finally have "xs = ys'" using Cons.IH [of ys'] Cons.prems(1,2) ys by simp
  then show ?case using ys ef by simp
qed

text \<open>The search takes the lowest run of the size asked for.\<close>

lemma take_first_some:
  assumes "canonical xs" "0 < k" "extent_blocks xs \<subseteq> {..<2 ^ 32}" "take_first k xs = Some (s, gone, ys)"
  shows "canonical ys \<and> {s..<s + k} \<subseteq> extent_blocks xs \<and> extent_blocks ys = extent_blocks xs - {s..<s + k} \<and>
    length xs = length ys + (if gone then 1 else 0) \<and> (\<forall>t. {t..<t + k} \<subseteq> extent_blocks xs \<longrightarrow> s \<le> t)"
  using assms
proof (induction xs arbitrary: s gone ys)
  case (Cons cur rest)
  note above = canonical_above [OF Cons.prems(1)]
  have lowest: "fe_start cur \<le> b" if "b \<in> extent_blocks (cur # rest)" for b
    using that above [of b] by (auto simp: fe_end_def)
  show ?case
  proof (cases "k \<le> fe_count cur")
    case True
    let ?e = "cur\<lparr>fe_start := u32_wrap (fe_start cur + k), fe_count := fe_count cur - k\<rparr>"
    have s: "s = fe_start cur" using Cons.prems(4) True by (auto split: if_splits)
    have low: "\<forall>t. {t..<t + k} \<subseteq> extent_blocks (cur # rest) \<longrightarrow> s \<le> t"
      using lowest Cons.prems(2) s by (metis atLeastLessThan_iff less_add_same_cancel1 order_refl subsetD)
    have sub: "{s..<s + k} \<subseteq> run_of cur" using True s by (auto simp: fe_end_def)
    have disj: "extent_blocks rest \<inter> run_of cur = {}" using above by fastforce
    show ?thesis
    proof (cases "fe_count cur = k")
      case True
      then have "run_of cur = {s..<s + k}" using s by (simp add: run_of_def fe_end_def)
      then show ?thesis using Cons.prems True low disj by auto
    next
      case False
      have "fe_start cur + k \<in> run_of cur" using True False by (simp add: fe_end_def)
      then have w: "u32_wrap (fe_start cur + k) = fe_start cur + k" using Cons.prems(3) by (auto simp: subset_iff)
      then have e: "run_of ?e = run_of cur - {s..<s + k}" "fe_end ?e = fe_end cur" "0 < fe_count ?e"
        using True False s by (auto simp: run_of_def fe_end_def)
      have ys: "ys = ?e # rest" "\<not> gone" using Cons.prems(4) True False by auto
      have "extent_blocks rest - {s..<s + k} = extent_blocks rest" using disj sub by blast
      then have "extent_blocks ys = extent_blocks (cur # rest) - {s..<s + k}" using ys e(1) by (simp add: Un_Diff)
      then show ?thesis using Cons.prems(1) ys e(2,3) sub low by auto
    qed
  next
    case False
    then obtain zs where r: "take_first k rest = Some (s, gone, zs)" "ys = cur # zs"
      using Cons.prems(4) by auto
    note IH = Cons.IH [OF _ Cons.prems(2) _ r(1)]
    have c: "canonical rest" "extent_blocks rest \<subseteq> {..<2 ^ 32}" using Cons.prems(1,3) by auto
    have ih: "canonical zs" "{s..<s + k} \<subseteq> extent_blocks rest" "extent_blocks zs = extent_blocks rest - {s..<s + k}"
      "length rest = length zs + (if gone then 1 else 0)" "\<And>t. {t..<t + k} \<subseteq> extent_blocks rest \<Longrightarrow> s \<le> t"
      using IH [OF c] by auto
    have d: "run_of cur - {s..<s + k} = run_of cur" using ih(2) above by fastforce
    have mem: "fe_end cur < fe_start z" if "z \<in> set zs" for z
    proof -
      have "0 < fe_count z" using that ih(1) by (auto simp: canonical_def)
      then have "fe_start z \<in> extent_blocks zs" using that by (auto simp: extent_blocks_mem fe_end_def)
      then show ?thesis using ih(3) above by auto
    qed
    have low: "s \<le> t" if t: "{t..<t + k} \<subseteq> extent_blocks (cur # rest)" for t
    proof -
      obtain e where e: "e \<in> set (cur # rest)" "fe_start e \<le> t" "t + k \<le> fe_end e"
        using run_in_one_extent [OF Cons.prems(1,2) t] by auto
      then have "e \<noteq> cur" using False by (auto simp: fe_end_def)
      then have "{t..<t + k} \<subseteq> extent_blocks rest" using e unfolding extent_blocks_def run_of_def by fastforce
      then show ?thesis by (rule ih(5))
    qed
    have "extent_blocks ys = extent_blocks (cur # rest) - {s..<s + k}" using r(2) ih(3) d by (simp add: Un_Diff)
    then show ?thesis using r(2) ih(1,2,4) mem low Cons.prems(1) by auto
  qed
qed simp

lemma take_first_none:
  assumes "canonical xs" "0 < k" "take_first k xs = None"
  shows "\<not> {s..<s + k} \<subseteq> extent_blocks xs"
proof
  have none: "fe_count e < k" if "e \<in> set xs" for e
    using assms(3) that by (induction xs) (auto split: if_splits)
  assume "{s..<s + k} \<subseteq> extent_blocks xs"
  then obtain e where "e \<in> set xs" "fe_start e \<le> s" "s + k \<le> fe_end e"
    using run_in_one_extent [OF assms(1,2)] by blast
  then show False using none [of e] by (simp add: fe_end_def)
qed

text \<open>Giving back a run that is not in the list adds it to the set; with no node it may be lost.\<close>

lemma insert_run_split:
  assumes can: "canonical xs" and k: "0 < k" and disj: "{start..<start + k} \<inter> extent_blocks xs = {}"
  obtains before after where "takeWhile (\<lambda>e. fe_start e < start) xs = before" "dropWhile (\<lambda>e. fe_start e < start) xs = after"
    "xs = before @ after" "\<forall>e\<in>set before. fe_end e \<le> start" "\<forall>e\<in>set after. start + k \<le> fe_start e"
proof
  let ?b = "takeWhile (\<lambda>e. fe_start e < start) xs" and ?a = "dropWhile (\<lambda>e. fe_start e < start) xs"
  show xs: "xs = ?b @ ?a" by simp
  have inset: "e \<in> set xs" if "e \<in> set ?b \<or> e \<in> set ?a" for e
    using that by (auto dest: set_takeWhileD set_dropWhileD)
  show "\<forall>e\<in>set ?b. fe_end e \<le> start"
  proof
    fix e assume e: "e \<in> set ?b"
    then have "fe_start e < start" by (auto dest: set_takeWhileD)
    then have "start \<in> extent_blocks xs" if "start < fe_end e" using that inset [of e] e by (auto simp: extent_blocks_mem intro!: bexI [of _ e])
    then show "fe_end e \<le> start" using disj k by fastforce
  qed
  show "\<forall>e\<in>set ?a. start + k \<le> fe_start e"
  proof
    fix e assume e: "e \<in> set ?a"
    have ge: "start \<le> fe_start e"
    proof (cases ?a)
      case (Cons c rest)
      then have c: "\<not> fe_start c < start" using hd_dropWhile [of "\<lambda>e. fe_start e < start" xs] by simp
      have "canonical ?a" using can by (subst (asm) xs) (simp del: takeWhile_dropWhile_id)
      then have "fe_start c \<le> fe_start e" using e Cons by (auto simp: fe_end_def)
      then show ?thesis using c by simp
    next
      case Nil
      then show ?thesis using e by (simp only: list.set empty_iff)
    qed
    have pos: "0 < fe_count e" using can inset [of e] e by (simp add: canonical_def)
    then have "fe_start e \<in> extent_blocks xs" using inset [of e] e by (auto simp: extent_blocks_mem fe_end_def)
    then show "start + k \<le> fe_start e" using disj ge by fastforce
  qed
qed simp_all

lemma butlast_last_mem: "xs \<noteq> [] \<Longrightarrow> \<forall>e\<in>set xs. P e \<Longrightarrow> P (last xs) \<and> (\<forall>e\<in>set (butlast xs). P e)"
  by (auto dest: in_set_butlastD)

lemma insert_run_spec:
  assumes can: "canonical xs" and k: "0 < k" and disj: "{start..<start + k} \<inter> extent_blocks xs = {}"
    and small: "extent_blocks xs \<union> {start..<start + k} \<subseteq> {..<tot}" "tot < 2 ^ 32"
    and res: "insert_run node start k (xs, length xs) = (ys, n)"
  shows "canonical ys \<and> n = length ys \<and> extent_blocks ys \<subseteq> extent_blocks xs \<union> {start..<start + k} \<and>
    extent_blocks xs \<subseteq> extent_blocks ys \<and> (node \<longrightarrow> extent_blocks ys = extent_blocks xs \<union> {start..<start + k})"
proof -
  obtain before after where ba: "takeWhile (\<lambda>e. fe_start e < start) xs = before"
      "dropWhile (\<lambda>e. fe_start e < start) xs = after" "xs = before @ after"
    and le: "\<forall>e\<in>set before. fe_end e \<le> start" and ge: "\<forall>e\<in>set after. start + k \<le> fe_start e"
    using insert_run_split [OF can k disj] by metis
  have endtot: "fe_end e \<le> tot" if "e \<in> set xs" for e
  proof -
    have "0 < fe_count e" using can that by (simp add: canonical_def)
    then have "fe_end e - 1 \<in> extent_blocks xs" using that by (auto simp: extent_blocks_mem fe_end_def intro!: bexI [of _ e])
    then show ?thesis using small(1) by auto
  qed
  have st: "start + k \<le> tot" using small(1) k by (auto simp: subset_iff dest!: spec [of _ "start + k - 1"])
  have len: "length xs < 2 ^ 32" using canonical_length [OF can] card_mono [of "{..<tot}" "extent_blocks xs"] small by simp
  have wrap: "u32_wrap (fe_end (last before)) = fe_end (last before)" if "before \<noteq> []"
    using endtot [of "last before"] small(2) ba(3) that by simp
  have stop: "u32_wrap (start + k) = start + k" using st small(2) by simp
  note res' = res [unfolded insert_run_def Let_def prod.case ba(1,2) stop fe_end_def [symmetric]]
  show ?thesis
  proof (cases "before \<noteq> [] \<and> fe_end (last before) = start")
    case L: True
    then obtain p l where p: "before = p @ [l]" by (metis append_butlast_last_id)
    then have l: "fe_end l = start" using L by simp
    have pl: "\<forall>e\<in>set p. fe_end e < fe_start l" "0 < fe_count l" "canonical p" using can ba(3) p by auto
    show ?thesis
    proof (cases "after \<noteq> [] \<and> fe_start (hd after) = start + k")
      case True
      then obtain c rest where c: "after = c # rest" "fe_start c = start + k" by (cases after) auto
      let ?e = "l\<lparr>fe_count := u32_wrap (fe_count l + (k + fe_count c))\<rparr>"
      have e: "fe_end ?e = fe_end c" using endtot [of c] small(2) ba(3) c l by (simp add: fe_end_def)
      then have r: "run_of ?e = run_of l \<union> {start..<start + k} \<union> run_of c" using l c(2) by (auto simp: fe_end_def)
      have cr: "\<forall>e\<in>set rest. fe_end c < fe_start e" "canonical rest" "0 < fe_count c" using can ba(3) c by auto
      have "ys = p @ ?e # rest" "n = u32_wrap (length xs + 2 ^ 32 - 1)"
        using res' True L wrap p c by simp_all
      then show ?thesis using can ba(3) p c e r len pl cr wrap_pred [of "length xs"] by (auto simp: fe_end_def)
    next
      case False
      let ?e = "l\<lparr>fe_count := u32_wrap (fe_count l + k)\<rparr>"
      have e: "fe_end ?e = start + k" using st small(2) l by (simp add: fe_end_def)
      then have r: "run_of ?e = run_of l \<union> {start..<start + k}" using l by (auto simp: fe_end_def)
      have gt: "start + k < fe_start x" if "x \<in> set after" for x
        using that ge False can ba(3) by (cases after) (auto simp: fe_end_def)
      have "ys = p @ ?e # after" "n = length xs" using res' False L wrap p by auto
      then show ?thesis using can ba(3) p e r gt pl by (auto simp: fe_end_def)
    qed
  next
    case L: False
    have lt: "fe_end x < start" if x: "x \<in> set before" for x
    proof -
      obtain p l where p: "before = p @ [l]" using x by (cases before rule: rev_cases) auto
      have l: "fe_end l < start" using L le p by (auto simp: order.order_iff_strict)
      have "fe_end x < fe_start l" if "x \<in> set p" using can ba(3) p that by auto
      then show ?thesis using x p l by (auto simp: fe_end_def)
    qed
    have ml: "\<not> (before \<noteq> [] \<and> u32_wrap (fe_end (last before)) = start)" using L wrap by auto
    show ?thesis
    proof (cases "after \<noteq> [] \<and> fe_start (hd after) = start + k")
      case True
      then obtain c rest where c: "after = c # rest" "fe_start c = start + k" by (cases after) auto
      let ?e = "c\<lparr>fe_start := start, fe_count := u32_wrap (fe_count c + k)\<rparr>"
      have e: "fe_end ?e = fe_end c" "0 < fe_count ?e" using endtot [of c] small(2) ba(3) c k by (auto simp: fe_end_def)
      then have r: "run_of ?e = {start..<start + k} \<union> run_of c" using c(2) by (auto simp: fe_end_def)
      have "ys = before @ ?e # rest" "n = length xs" using res' True ml c ba(3) by auto
      then show ?thesis using can ba(3) c e r lt by auto
    next
      case False
      have gt: "start + k < fe_start x" if "x \<in> set after" for x
        using that ge False can ba(3) by (cases after) (auto simp: fe_end_def)
      have "ys = (if node then before @ \<lparr>fe_start = start, fe_count = k\<rparr> # after else xs)"
        "n = (if node then u32_wrap (length xs + 1) else length xs)" using res' False ml ba(3) by auto
      moreover have "start \<in> {..<tot} - extent_blocks xs" using st k disj by fastforce
      then have "card (extent_blocks xs) < card {..<tot}" using small(1) by (intro psubset_card_mono) auto
      then have "length xs < tot" using canonical_length [OF can] by simp
      ultimately show ?thesis using can ba(3) gt lt k small(2) by (auto simp: fe_end_def run_of_def)
    qed
  qed
qed

section \<open>The free set and the invariant\<close>

definition free_set :: "SpaceState \<Rightarrow> nat set" where
  "free_set st = {b. b < bb_total_blocks (ss_block_bitmap st) \<and> \<not> bitmap_test_bit (bb_bitmap (ss_block_bitmap st)) b}"

definition space_ok :: "SpaceState \<Rightarrow> bool" where
  "space_ok st \<longleftrightarrow>
     bb_total_blocks (ss_block_bitmap st) < 2 ^ 32 \<and> ss_data_blocks st = bb_total_blocks (ss_block_bitmap st) \<and>
     bb_total_blocks (ss_block_bitmap st) \<le> 8 * length (bb_bitmap (ss_block_bitmap st)) \<and>
     canonical (bb_free_list (ss_block_bitmap st)) \<and>
     extent_blocks (bb_free_list (ss_block_bitmap st)) \<subseteq> free_set st \<and>
     bb_extent_count (ss_block_bitmap st) = length (bb_free_list (ss_block_bitmap st)) \<and>
     ss_free_blocks st = card (free_set st)"

text \<open>Nothing has been lost for want of a node: every free block is in the list.\<close>

definition space_whole :: "SpaceState \<Rightarrow> bool" where
  "space_whole st \<longleftrightarrow> space_ok st \<and> extent_blocks (bb_free_list (ss_block_bitmap st)) = free_set st"

lemma bitmap_bits:
  "bitmap_test_bit bm b = wa_test bm b"
  "bitmap_set_bit bm b = (if b < wa_bits bm then Some (wa_set bm b) else None)"
  "bitmap_clear_bit bm b = (if b < wa_bits bm then Some (wa_clear bm b) else None)"
  by (auto simp: bitmap_test_bit_def wa_test_def bitmap_set_bit_def wa_set_def bitmap_clear_bit_def wa_clear_def
      wa_bits_def)

lemma for_bits_run:
  assumes "start + k \<le> wa_bits bm" "start + k < 2 ^ 32 + 1"
  shows "for_bits bitmap_set_bit bm start k = Some (foldl wa_set bm [start..<start + k])"
    "for_bits bitmap_clear_bit bm start k = Some (foldl wa_clear bm [start..<start + k])"
proof -
  have "for_bits bitmap_set_bit bm start k = Some (foldl wa_set bm [start..<start + k]) \<and>
    for_bits bitmap_clear_bit bm start k = Some (foldl wa_clear bm [start..<start + k])"
    using assms
  proof (induction k)
    case (Suc k)
    have "start + k < wa_bits bm" using Suc.prems by simp
    then show ?case using Suc wa.fold_setb [of "[start..<start + k]" bm] wa.fold_clearb [of "[start..<start + k]" bm]
      by (simp add: bitmap_bits)
  qed simp
  then show "for_bits bitmap_set_bit bm start k = Some (foldl wa_set bm [start..<start + k])"
    "for_bits bitmap_clear_bit bm start k = Some (foldl wa_clear bm [start..<start + k])" by simp_all
qed

lemma fold_bits_run:
  assumes "start + k \<le> wa_bits bm"
  shows "wa_test (foldl wa_set bm [start..<start + k]) b \<longleftrightarrow> b \<in> {start..<start + k} \<or> wa_test bm b"
    "wa_test (foldl wa_clear bm [start..<start + k]) b \<longleftrightarrow> b \<notin> {start..<start + k} \<and> wa_test bm b"
proof -
  have r: "i < wa_bits bm" if "i \<in> set [start..<start + k]" for i using assms that by simp
  show "wa_test (foldl wa_set bm [start..<start + k]) b \<longleftrightarrow> b \<in> {start..<start + k} \<or> wa_test bm b"
    using wa.fold_setb [of "[start..<start + k]" bm b] r by auto
  show "wa_test (foldl wa_clear bm [start..<start + k]) b \<longleftrightarrow> b \<notin> {start..<start + k} \<and> wa_test bm b"
    using wa.fold_clearb [of "[start..<start + k]" bm b] r by auto
qed

lemma length_fold_bits [simp]:
  "length (foldl wa_set bm is) = length bm" "length (foldl wa_clear bm is) = length bm"
  by (induction "is" arbitrary: bm) simp_all

lemma finite_free_set [simp]: "finite (free_set st)"
  by (simp add: free_set_def)

lemma free_set_bound: "free_set st \<subseteq> {..<bb_total_blocks (ss_block_bitmap st)}"
  by (auto simp: free_set_def)

lemma run_bound: "0 < k \<Longrightarrow> {s..<s + k} \<subseteq> {..<(n::nat)} \<Longrightarrow> s + k \<le> n"
  by (auto simp: subset_iff dest!: spec [of _ "s + k - 1"])

lemma card_run_add:
  "finite F \<Longrightarrow> {s..<s + k} \<inter> F = {} \<Longrightarrow> card (F \<union> {s..<s + (k::nat)}) = card F + k"
  by (subst card_Un_disjoint) auto

lemma card_run_remove: "{s..<s + k} \<subseteq> F \<Longrightarrow> card (F - {s..<s + (k::nat)}) = card F - k"
  by (subst card_Diff_subset) auto

section \<open>Allocation takes the lowest run\<close>

lemma alloc_internal_spec:
  assumes ok: "space_ok st" and k: "0 < k"
    and res: "take_first k (bb_free_list (ss_block_bitmap st)) = Some (s, gone, xs)"
  obtains st' where "tagfs_alloc_blocks_internal k st = Some (Some s, st')" "space_ok st'"
    "{s..<s + k} \<subseteq> extent_blocks (bb_free_list (ss_block_bitmap st))"
    "free_set st' = free_set st - {s..<s + k}"
    "extent_blocks (bb_free_list (ss_block_bitmap st')) = extent_blocks (bb_free_list (ss_block_bitmap st)) - {s..<s + k}"
    "\<And>t. {t..<t + k} \<subseteq> extent_blocks (bb_free_list (ss_block_bitmap st)) \<Longrightarrow> s \<le> t"
    "bb_total_blocks (ss_block_bitmap st') = bb_total_blocks (ss_block_bitmap st)"
proof -
  let ?bb = "ss_block_bitmap st"
  let ?bm = "bb_bitmap ?bb"
  have o: "bb_total_blocks ?bb < 2 ^ 32" "ss_data_blocks st = bb_total_blocks ?bb" "bb_total_blocks ?bb \<le> 8 * length ?bm"
    "canonical (bb_free_list ?bb)" "extent_blocks (bb_free_list ?bb) \<subseteq> free_set st"
    "bb_extent_count ?bb = length (bb_free_list ?bb)" "ss_free_blocks st = card (free_set st)"
    using ok by (auto simp: space_ok_def)
  have sub: "extent_blocks (bb_free_list ?bb) \<subseteq> {..<bb_total_blocks ?bb}" using o(5) free_set_bound by blast
  then have "extent_blocks (bb_free_list ?bb) \<subseteq> {..<2 ^ 32}" using o(1) by (auto simp: subset_iff)
  then have t: "canonical xs" "{s..<s + k} \<subseteq> extent_blocks (bb_free_list ?bb)"
    "extent_blocks xs = extent_blocks (bb_free_list ?bb) - {s..<s + k}"
    "length (bb_free_list ?bb) = length xs + (if gone then 1 else 0)"
    "\<And>t. {t..<t + k} \<subseteq> extent_blocks (bb_free_list ?bb) \<Longrightarrow> s \<le> t"
    using take_first_some [OF o(4) k _ res] by auto
  have sk: "s + k \<le> bb_total_blocks ?bb" using run_bound [OF k] t(2) sub by blast
  then have w: "s + k \<le> wa_bits ?bm" "s + k < 2 ^ 32 + 1" using o(1,3) by (simp_all add: wa_bits_def)
  have kf: "k \<le> card (free_set st)" using card_mono [of "free_set st" "{s..<s + k}"] t(2) o(5) by auto
  let ?st' = "st\<lparr>ss_block_bitmap := ?bb\<lparr>bb_bitmap := foldl wa_set ?bm [s..<s + k], bb_free_list := xs,
                    bb_extent_count := (if gone then u32_wrap (bb_extent_count ?bb + 2 ^ 32 - 1) else bb_extent_count ?bb)\<rparr>,
                  ss_free_blocks := ss_free_blocks st - k\<rparr>"
  have r: "tagfs_alloc_blocks_internal k st = Some (Some s, ?st')"
    using kf o(7) by (simp add: tagfs_alloc_blocks_internal_def Let_def res for_bits_run [OF w])
  have f: "free_set ?st' = free_set st - {s..<s + k}"
    by (auto simp: free_set_def bitmap_bits fold_bits_run [OF w(1)])
  have len: "length (bb_free_list ?bb) < 2 ^ 32"
    using canonical_length [OF o(4)] card_mono [OF _ sub] o(1) by simp
  have e: "bb_extent_count (ss_block_bitmap ?st') = length xs"
    using t(4) o(6) len wrap_pred [of "length (bb_free_list ?bb)"] by (auto split: if_splits)
  have c: "ss_free_blocks ?st' = card (free_set ?st')" unfolding f using t(2) o(5,7) by (simp add: card_run_remove subset_trans)
  have "space_ok ?st'" unfolding space_ok_def using o(1-3) t(1) c e f t(3) o(5) by auto
  then show ?thesis using that [of ?st'] r t(2,3,5) f by simp
qed

lemma alloc_internal_none:
  "take_first k (bb_free_list (ss_block_bitmap st)) = None \<Longrightarrow> tagfs_alloc_blocks_internal k st = Some (None, st)"
  by (simp add: tagfs_alloc_blocks_internal_def Let_def)

section \<open>Giving back\<close>

lemma free_run_spec:
  assumes ok: "space_ok st" and k: "0 < k" and bound: "s + k \<le> bb_total_blocks (ss_block_bitmap st)"
    and taken: "{s..<s + k} \<inter> free_set st = {}"
  obtains st' where "free_run_locked mem s k st = Some st'" "space_ok st'" "free_set st' = free_set st \<union> {s..<s + k}"
    "extent_blocks (bb_free_list (ss_block_bitmap st)) \<subseteq> extent_blocks (bb_free_list (ss_block_bitmap st'))"
    "mem s \<longrightarrow> extent_blocks (bb_free_list (ss_block_bitmap st')) =
       extent_blocks (bb_free_list (ss_block_bitmap st)) \<union> {s..<s + k}"
    "bb_total_blocks (ss_block_bitmap st') = bb_total_blocks (ss_block_bitmap st)"
proof -
  let ?bb = "ss_block_bitmap st"
  let ?bm = "bb_bitmap ?bb"
  have o: "bb_total_blocks ?bb < 2 ^ 32" "ss_data_blocks st = bb_total_blocks ?bb" "bb_total_blocks ?bb \<le> 8 * length ?bm"
    "canonical (bb_free_list ?bb)" "extent_blocks (bb_free_list ?bb) \<subseteq> free_set st"
    "bb_extent_count ?bb = length (bb_free_list ?bb)" "ss_free_blocks st = card (free_set st)"
    using ok by (auto simp: space_ok_def)
  obtain ys n where i: "insert_run (mem s) s k (bb_free_list ?bb, length (bb_free_list ?bb)) = (ys, n)" by fastforce
  have disj: "{s..<s + k} \<inter> extent_blocks (bb_free_list ?bb) = {}" using taken o(5) by blast
  have small: "extent_blocks (bb_free_list ?bb) \<union> {s..<s + k} \<subseteq> {..<bb_total_blocks ?bb}"
    using o(5) free_set_bound [of st] bound by auto
  have ys: "canonical ys" "n = length ys" "extent_blocks ys \<subseteq> extent_blocks (bb_free_list ?bb) \<union> {s..<s + k}"
    "extent_blocks (bb_free_list ?bb) \<subseteq> extent_blocks ys"
    "mem s \<Longrightarrow> extent_blocks ys = extent_blocks (bb_free_list ?bb) \<union> {s..<s + k}"
    using insert_run_spec [OF o(4) k disj small o(1) i] by auto
  have w: "s + k \<le> wa_bits ?bm" "s + k < 2 ^ 32 + 1" using bound o(1,3) by (simp_all add: wa_bits_def)
  let ?st' = "st\<lparr>ss_block_bitmap := ?bb\<lparr>bb_bitmap := foldl wa_clear ?bm [s..<s + k], bb_free_list := ys, bb_extent_count := n\<rparr>,
                 ss_free_blocks := (ss_free_blocks st + k) mod 2 ^ 64\<rparr>"
  have r: "free_run_locked mem s k st = Some ?st'"
    using k by (simp add: free_run_locked_def Let_def i o(6) for_bits_run [OF w])
  have f: "free_set ?st' = free_set st \<union> {s..<s + k}"
    using bound by (auto simp: free_set_def bitmap_bits fold_bits_run [OF w(1)])
  have "card (free_set ?st') \<le> bb_total_blocks ?bb" using card_mono [OF _ free_set_bound [of ?st']] by simp
  then have "ss_free_blocks ?st' = card (free_set ?st')" unfolding f using o(1,7) taken by (simp add: card_run_add)
  then have "space_ok ?st'" unfolding space_ok_def using o(1-3,5) ys(1-3) f by auto
  then show ?thesis using that [of ?st'] r f ys by simp
qed

section \<open>Building the list\<close>

text \<open>
  The byte-wise skips are the bit-wise ones: a whole byte of the right kind is eight bits of it. The
  loops end when the number of blocks leaves room for the index to pass it, \<open>tot + 8 \<le> 2 ^ 32\<close>.
\<close>

lemma less_8_bit: "j < 8 \<Longrightarrow> bit (0xFF :: u8) j"
proof -
  have "(0xFF :: u8) = mask 8" by (simp add: mask_eq_exp_minus_1)
  then show "j < 8 \<Longrightarrow> bit (0xFF :: u8) j" by (simp only: bit_mask_iff) simp
qed

lemma skip_run_spec:
  assumes tot: "tot + 8 \<le> 2 ^ 32" "tot \<le> 8 * length bm" "i \<le> tot"
    and whole: "\<And>j. j < 8 \<Longrightarrow> bit whole j = taken"
  shows "\<exists>j. skip_run whole taken bm tot i = Some j \<and> i \<le> j \<and> j \<le> tot \<and>
    (\<forall>b. i \<le> b \<and> b < j \<longrightarrow> bitmap_test_bit bm b = taken) \<and> (j < tot \<longrightarrow> bitmap_test_bit bm j \<noteq> taken)"
  using tot(3)
proof (induction "tot - i" arbitrary: i rule: less_induct)
  case less
  show ?case
  proof (cases "i < tot")
    case False
    then have "skip_run whole taken bm tot i = Some i" by (simp add: skip_run.simps [of whole taken bm tot i])
    moreover have "i = tot" using False less.prems by simp
    ultimately show ?thesis by auto
  next
    case True
    have step: ?thesis if d: "skip_run whole taken bm tot i = skip_run whole taken bm tot (i + d)" "0 < d" "i + d \<le> tot"
      "\<And>b. i \<le> b \<Longrightarrow> b < i + d \<Longrightarrow> bitmap_test_bit bm b = taken" for d
    proof -
      obtain j where j: "skip_run whole taken bm tot (i + d) = Some j" "i + d \<le> j" "j \<le> tot"
        "\<And>b. i + d \<le> b \<Longrightarrow> b < j \<Longrightarrow> bitmap_test_bit bm b = taken" "j < tot \<longrightarrow> bitmap_test_bit bm j \<noteq> taken"
        using less.hyps [of "i + d", OF _ d(3)] d(2) True by (simp add: diff_less_mono2) blast
      have "bitmap_test_bit bm b = taken" if "i \<le> b" "b < j" for b
        using that d(4) j(4) by (cases "b < i + d") auto
      then show ?thesis using d(1) j by auto
    qed
    have w: "u32_wrap (i + 8) = i + 8" "u32_wrap (i + 1) = i + 1" using True tot(1) by simp_all
    consider (byte) "i mod 8 = 0" "i + 8 \<le> tot" "bm ! (i div 8) = whole"
      | (one) "\<not> (i mod 8 = 0 \<and> i + 8 \<le> tot \<and> bm ! (i div 8) = whole)" "bitmap_test_bit bm i = taken"
      | (stop) "\<not> (i mod 8 = 0 \<and> i + 8 \<le> tot \<and> bm ! (i div 8) = whole)" "bitmap_test_bit bm i \<noteq> taken" by metis
    then show ?thesis
    proof cases
      case byte
      have "bitmap_test_bit bm b = taken" if "i \<le> b" "b < i + 8" for b
        using that byte(1,3) whole [of "b mod 8"] div_mod_block [of 8 "i div 8" b] by (auto simp: bitmap_bits wa_test_bit)
      then show ?thesis using step [of 8] byte True w by (simp add: skip_run.simps [of whole taken bm tot i])
    next
      case one
      have "skip_run whole taken bm tot i = skip_run whole taken bm tot (i + 1)"
        using one True w by (simp only: skip_run.simps [of whole taken bm tot i] if_True if_False simp_thms)
      then show ?thesis by (rule step) (use True one(2) in \<open>auto simp: less_Suc_eq\<close>)
    next
      case stop
      then show ?thesis using True w by (auto simp: skip_run.simps [of whole taken bm tot i])
    qed
  qed
qed

definition clear_bits :: "bytes \<Rightarrow> nat \<Rightarrow> nat set" where
  "clear_bits bm tot = {b. b < tot \<and> \<not> bitmap_test_bit bm b}"

lemma build_loop_spec:
  assumes tot: "tot + 8 \<le> 2 ^ 32" "tot \<le> 8 * length bm"
  shows "i \<le> tot \<Longrightarrow> canonical acc \<Longrightarrow> extent_blocks acc = clear_bits bm i \<Longrightarrow>
    (\<forall>e\<in>set acc. fe_end e < i \<or> fe_end e = i \<and> (i < tot \<longrightarrow> bitmap_test_bit bm i)) \<Longrightarrow>
    \<exists>xs. build_loop mem bm tot i acc = Some xs \<and> canonical xs \<and> extent_blocks xs \<subseteq> clear_bits bm tot \<and>
      ((\<forall>s. mem s) \<longrightarrow> extent_blocks xs = clear_bits bm tot)"
proof (induction "tot - i" arbitrary: i acc rule: less_induct)
  case less
  note unfold = build_loop.simps [of mem bm tot i acc]
  have sub: "clear_bits bm i \<subseteq> clear_bits bm tot" using less.prems(1) by (auto simp: clear_bits_def)
  show ?case
  proof (cases "i < tot")
    case False
    then have "build_loop mem bm tot i acc = Some acc" by (simp add: unfold)
    moreover have "i = tot" using False less.prems(1) by simp
    ultimately show ?thesis using less.prems(2,3) by auto
  next
    case True
    obtain s where s: "skip_run 0xFF True bm tot i = Some s" "i \<le> s" "s \<le> tot"
      "\<And>b. i \<le> b \<Longrightarrow> b < s \<Longrightarrow> bitmap_test_bit bm b" "s < tot \<Longrightarrow> \<not> bitmap_test_bit bm s"
      using skip_run_spec [OF tot less.prems(1), of "0xFF" True] less_8_bit by auto
    have "b < i" if "b < s" "\<not> bitmap_test_bit bm b" for b using s(4) [of b] that by (cases "b < i") auto
    then have cs: "clear_bits bm s = clear_bits bm i" using s(2) by (auto simp: clear_bits_def)
    show ?thesis
    proof (cases "s < tot")
      case False
      then show ?thesis using less.prems True s cs by (auto simp: unfold)
    next
      case st: True
      obtain j where j: "skip_run 0 False bm tot s = Some j" "s \<le> j" "j \<le> tot"
        "\<And>b. s \<le> b \<Longrightarrow> b < j \<Longrightarrow> \<not> bitmap_test_bit bm b" "j < tot \<Longrightarrow> bitmap_test_bit bm j"
        using skip_run_spec [OF tot s(3), of 0 False] by auto
      have sj: "s < j" using j(2,5) s(5) st by (cases "s = j") auto
      have cj: "clear_bits bm j = clear_bits bm i \<union> {s..<j}"
        unfolding cs [symmetric] using sj j(4) by (fastforce simp: clear_bits_def)
      show ?thesis
      proof (cases "mem s")
        case False
        then show ?thesis using less.prems True st s(1) j(1) sub by (auto simp: unfold)
      next
        case True
        let ?e = "\<lparr>fe_start = s, fe_count = j - s\<rparr>"
        have e: "run_of ?e = {s..<j}" "fe_end ?e = j" using sj by (simp_all add: run_of_def fe_end_def)
        have before: "fe_end x < s" if "x \<in> set acc" for x
          using less.prems(4) that s(2,5) st by (cases "i = s") (auto simp: order.order_iff_strict)
        have "\<exists>xs. build_loop mem bm tot j (acc @ [?e]) = Some xs \<and> canonical xs \<and> extent_blocks xs \<subseteq> clear_bits bm tot \<and>
            ((\<forall>s. mem s) \<longrightarrow> extent_blocks xs = clear_bits bm tot)"
        proof (rule less.hyps)
          show "tot - j < tot - i" using \<open>i < tot\<close> s(2) sj j(3) by simp
          show "canonical (acc @ [?e])" using less.prems(2) before sj by simp
          show "extent_blocks (acc @ [?e]) = clear_bits bm j" using less.prems(3) cj e by simp
          show "\<forall>x\<in>set (acc @ [?e]). fe_end x < j \<or> fe_end x = j \<and> (j < tot \<longrightarrow> bitmap_test_bit bm j)"
            using before sj j(5) e by fastforce
        qed (rule j(3))
        then show ?thesis using True \<open>i < tot\<close> st s(1) j(1) by (simp add: unfold)
      qed
    qed
  qed
qed

lemma free_list_build_spec:
  assumes "bb_total_blocks bb + 8 \<le> 2 ^ 32" "bb_total_blocks bb \<le> 8 * length (bb_bitmap bb)"
  obtains bb' where "free_list_build mem bb = Some bb'" "canonical (bb_free_list bb')"
    "extent_blocks (bb_free_list bb') \<subseteq> clear_bits (bb_bitmap bb) (bb_total_blocks bb)"
    "(\<forall>s. mem s) \<longrightarrow> extent_blocks (bb_free_list bb') = clear_bits (bb_bitmap bb) (bb_total_blocks bb)"
    "bb_extent_count bb' = length (bb_free_list bb')"
    "bb_bitmap bb' = bb_bitmap bb" "bb_total_blocks bb' = bb_total_blocks bb"
proof -
  have "extent_blocks [] = clear_bits (bb_bitmap bb) 0" by (simp add: clear_bits_def)
  then obtain xs where xs: "build_loop mem (bb_bitmap bb) (bb_total_blocks bb) 0 [] = Some xs" "canonical xs"
    "extent_blocks xs \<subseteq> clear_bits (bb_bitmap bb) (bb_total_blocks bb)"
    "(\<forall>s. mem s) \<longrightarrow> extent_blocks xs = clear_bits (bb_bitmap bb) (bb_total_blocks bb)"
    using build_loop_spec [OF assms, of 0 "[]" mem] by auto
  have "extent_blocks xs \<subseteq> {..<bb_total_blocks bb}" using xs(3) by (auto simp: clear_bits_def)
  then have "length xs < 2 ^ 32" using canonical_length [OF xs(2)] card_mono [of "{..<bb_total_blocks bb}" "extent_blocks xs"] assms(1)
    by simp
  then show ?thesis using xs
    by (intro that [of "bb\<lparr>bb_free_list := xs, bb_extent_count := length xs\<rparr>"])
      (simp_all add: free_list_build_def free_list_destroy_def)
qed

lemma count_free_blocks_card: "count_free_blocks st = card (clear_bits (bb_bitmap (ss_block_bitmap st)) (ss_data_blocks st))"
proof -
  have "foldl (\<lambda>free b. if P b then free + 1 else free) (n::nat) xs = n + length (filter P xs)" for P :: "nat \<Rightarrow> bool" and n xs
    by (induction xs arbitrary: n) auto
  then show ?thesis by (simp add: count_free_blocks_def clear_bits_def count_upto_card [symmetric] count_upto_def)
qed

section \<open>The allocator as a whole\<close>

lemma space_wholeD:
  "space_whole st \<Longrightarrow> space_ok st" "space_whole st \<Longrightarrow> extent_blocks (bb_free_list (ss_block_bitmap st)) = free_set st"
  by (simp_all add: space_whole_def)

text \<open>
  What the list promises about the set: an allocation takes the lowest run of free blocks of the
  size asked for, or there is none.
\<close>

definition lowest_run :: "nat set \<Rightarrow> nat \<Rightarrow> nat option \<Rightarrow> bool" where
  "lowest_run F k r =
     (case r of None \<Rightarrow> \<forall>s. \<not> {s..<s + k} \<subseteq> F
              | Some s \<Rightarrow> {s..<s + k} \<subseteq> F \<and> (\<forall>t. {t..<t + k} \<subseteq> F \<longrightarrow> s \<le> t))"

definition run_taken :: "nat option \<Rightarrow> nat \<Rightarrow> nat set" where
  "run_taken r k = (case r of None \<Rightarrow> {} | Some s \<Rightarrow> {s..<s + k})"

lemma alloc_whole:
  assumes whole: "space_whole st" and k: "0 < k"
  obtains r st' where "tagfs_alloc_blocks_internal k st = Some (r, st')" "space_whole st'"
    "bb_total_blocks (ss_block_bitmap st') = bb_total_blocks (ss_block_bitmap st)"
    "lowest_run (free_set st) k r" "free_set st' = free_set st - run_taken r k"
proof -
  note ok = space_wholeD(1) [OF whole] and eq = space_wholeD(2) [OF whole]
  have can: "canonical (bb_free_list (ss_block_bitmap st))" using ok by (simp add: space_ok_def)
  show ?thesis
  proof (cases "take_first k (bb_free_list (ss_block_bitmap st))")
    case None
    then show ?thesis using that [OF alloc_internal_none [OF None] whole] take_first_none [OF can k None] eq
      by (simp add: lowest_run_def run_taken_def)
  next
    case (Some a)
    obtain s gone xs where a: "a = (s, gone, xs)" by (cases a)
    obtain st' where st': "tagfs_alloc_blocks_internal k st = Some (Some s, st')" "space_ok st'" "{s..<s + k} \<subseteq> free_set st"
      "free_set st' = free_set st - {s..<s + k}"
      "extent_blocks (bb_free_list (ss_block_bitmap st')) = free_set st - {s..<s + k}"
      "\<And>t. {t..<t + k} \<subseteq> free_set st \<Longrightarrow> s \<le> t"
      "bb_total_blocks (ss_block_bitmap st') = bb_total_blocks (ss_block_bitmap st)"
      by (rule alloc_internal_spec [OF ok k Some [unfolded a], unfolded eq]) (rule that)
    have "space_whole st'" using st'(2,4,5) by (simp add: space_whole_def)
    then show ?thesis using that [OF st'(1)] st' by (simp add: lowest_run_def run_taken_def)
  qed
qed

lemma free_whole:
  assumes whole: "space_whole st" and mem: "mem s" and k: "0 < k" and bound: "s + k \<le> bb_total_blocks (ss_block_bitmap st)"
    and taken: "{s..<s + k} \<inter> free_set st = {}"
  obtains st' where "free_run_locked mem s k st = Some st'" "space_whole st'" "free_set st' = free_set st \<union> {s..<s + k}"
    "bb_total_blocks (ss_block_bitmap st') = bb_total_blocks (ss_block_bitmap st)"
proof -
  note ok = space_wholeD(1) [OF whole] and eq = space_wholeD(2) [OF whole]
  obtain st' where st': "free_run_locked mem s k st = Some st'" "space_ok st'" "free_set st' = free_set st \<union> {s..<s + k}"
    "extent_blocks (bb_free_list (ss_block_bitmap st)) \<subseteq> extent_blocks (bb_free_list (ss_block_bitmap st'))"
    "mem s \<longrightarrow> extent_blocks (bb_free_list (ss_block_bitmap st')) = extent_blocks (bb_free_list (ss_block_bitmap st)) \<union> {s..<s + k}"
    "bb_total_blocks (ss_block_bitmap st') = bb_total_blocks (ss_block_bitmap st)"
    by (rule free_run_spec [OF ok k bound taken, of mem]) (rule that)
  have "space_whole st'" using st'(2,3) st'(5) [rule_format, OF mem] eq by (simp add: space_whole_def)
  then show ?thesis using that [OF st'(1) _ st'(3,6)] by simp
qed

text \<open>A step of the allocator: an allocation, or a taken run given back.\<close>

inductive space_step :: "SpaceState \<Rightarrow> SpaceState \<Rightarrow> bool" where
  alloc_step: "0 < k \<Longrightarrow> tagfs_alloc_blocks_internal k st = Some (r, st') \<Longrightarrow> space_step st st'"
| free_step: "0 < k \<Longrightarrow> s + k \<le> bb_total_blocks (ss_block_bitmap st) \<Longrightarrow> {s..<s + k} \<inter> free_set st = {} \<Longrightarrow>
    free_run_locked (\<lambda>_. True) s k st = Some st' \<Longrightarrow> space_step st st'"

lemma space_step_whole:
  assumes "space_step st st'" "space_whole st"
  shows "space_whole st' \<and> bb_total_blocks (ss_block_bitmap st') = bb_total_blocks (ss_block_bitmap st)"
  using assms
proof (induction rule: space_step.induct)
  case (alloc_step k st r st')
  show ?case by (rule alloc_whole [OF alloc_step.prems alloc_step.hyps(1)]) (use alloc_step.hyps(2) in simp)
next
  case (free_step k s st st')
  show ?case by (rule free_whole [OF free_step.prems, of "\<lambda>_. True" s k]) (use free_step.hyps in simp_all)
qed

lemma space_steps_whole:
  "space_step\<^sup>*\<^sup>* st st' \<Longrightarrow> space_whole st \<Longrightarrow>
     space_whole st' \<and> bb_total_blocks (ss_block_bitmap st') = bb_total_blocks (ss_block_bitmap st)"
  by (induction rule: rtranclp_induct) (auto dest: space_step_whole)

text \<open>The list of a whole state is the list the bitmap alone gives.\<close>

lemma whole_rebuilds:
  assumes whole: "space_whole st" and tot: "bb_total_blocks (ss_block_bitmap st) + 8 \<le> 2 ^ 32"
  shows "free_list_build (\<lambda>_. True) (ss_block_bitmap st) = Some (ss_block_bitmap st)"
proof -
  let ?bb = "ss_block_bitmap st"
  have o: "bb_total_blocks ?bb \<le> 8 * length (bb_bitmap ?bb)" "canonical (bb_free_list ?bb)"
    "bb_extent_count ?bb = length (bb_free_list ?bb)" "extent_blocks (bb_free_list ?bb) = clear_bits (bb_bitmap ?bb) (bb_total_blocks ?bb)"
    using whole by (auto simp: space_whole_def space_ok_def free_set_def clear_bits_def)
  obtain bb' where bb': "free_list_build (\<lambda>_. True) ?bb = Some bb'" "canonical (bb_free_list bb')"
    "extent_blocks (bb_free_list bb') = clear_bits (bb_bitmap ?bb) (bb_total_blocks ?bb)"
    "bb_extent_count bb' = length (bb_free_list bb')" "bb_bitmap bb' = bb_bitmap ?bb" "bb_total_blocks bb' = bb_total_blocks ?bb"
    using free_list_build_spec [OF tot o(1), of "\<lambda>_. True"] by metis
  have "bb_free_list bb' = bb_free_list ?bb" using canonical_unique [OF bb'(2) o(2)] bb'(3) o(4) by simp
  then have "bb' = ?bb" using bb'(4-6) o(3) by simp
  then show ?thesis using bb'(1) by simp
qed

section \<open>Properties\<close>

text \<open>
  C6. \<^verbatim>\<open>tagfs_alloc_blocks\<close> takes the lowest run of free blocks of the size asked for, marks exactly that
  run as taken in the bitmap, the list and the ledger's count, and refuses exactly when no run of that
  many free blocks exists, leaving the state alone.
\<close>

theorem tagfs_alloc_lowest_run:
  assumes "space_whole st" "0 < k"
  shows "\<exists>r st'. tagfs_alloc_blocks True k st = Some (r, st') \<and> space_whole st' \<and> lowest_run (free_set st) k r \<and>
    free_set st' = free_set st - run_taken r k \<and> (r = None \<longrightarrow> st' = st) \<and>
    ss_free_blocks st' + card (run_taken r k) = ss_free_blocks st"
proof -
  obtain r st' where r: "tagfs_alloc_blocks_internal k st = Some (r, st')" "space_whole st'"
    "lowest_run (free_set st) k r" "free_set st' = free_set st - run_taken r k"
    using alloc_whole [OF assms] by metis
  have sub: "run_taken r k \<subseteq> free_set st" using r(3) by (auto simp: lowest_run_def run_taken_def split: option.splits)
  have "ss_free_blocks st = card (free_set st)" "ss_free_blocks st' = card (free_set st')"
    using assms(1) r(2) by (simp_all add: space_whole_def space_ok_def)
  then have "ss_free_blocks st' + card (run_taken r k) = ss_free_blocks st"
    using sub card_mono [OF _ sub] card_Diff_subset [OF finite_subset [OF sub] sub] r(4) by simp
  moreover have "st' = st" if "r = None"
    using r(1) that by (auto simp: tagfs_alloc_blocks_internal_def Let_def split: option.splits prod.splits)
  ultimately show ?thesis using r assms(2) by (auto simp: tagfs_alloc_blocks_def tagfs_alloc_blocks_inside_def)
qed

text \<open>A volume of sixteen blocks with the first two and the sixth taken.\<close>

definition small_space :: SpaceState where
  "small_space = \<lparr>ss_block_bitmap = \<lparr>bb_bitmap = [0x23, 0], bb_total_blocks = 16,
     bb_free_list = [\<lparr>fe_start = 2, fe_count = 3\<rparr>, \<lparr>fe_start = 6, fe_count = 10\<rparr>], bb_extent_count = 2\<rparr>,
     ss_data_blocks = 16, ss_free_blocks = 13\<rparr>"

lemma small_free: "free_set small_space = {2..<5} \<union> {6..<16}"
proof -
  have "\<forall>b<16. bitmap_test_bit [0x23, 0] b \<longleftrightarrow> b = 0 \<or> b = 1 \<or> b = 5" by code_simp
  then have "free_set small_space = {b. b < 16 \<and> \<not> (b = 0 \<or> b = 1 \<or> b = 5)}" by (auto simp: free_set_def small_space_def)
  also have "\<dots> = {2..<5} \<union> {6..<16}" by auto
  finally show ?thesis .
qed

lemma small_whole: "space_whole small_space"
proof -
  have "card ({2..<5} \<union> {6..<16::nat}) = 13" by (subst card_Un_disjoint) auto
  moreover have "extent_blocks (bb_free_list (ss_block_bitmap small_space)) = {2..<5} \<union> {6..<16}"
    by (auto simp: small_space_def run_of_def fe_end_def)
  ultimately show ?thesis unfolding space_whole_def space_ok_def small_free
    by (auto simp: small_space_def fe_end_def)
qed

theorem tagfs_alloc_lowest_run_witness:
  "space_whole small_space \<and> (\<exists>r st'. tagfs_alloc_blocks True 4 small_space = Some (r, st') \<and> space_whole st' \<and>
     lowest_run (free_set small_space) 4 r)"
  using small_whole tagfs_alloc_lowest_run [OF small_whole, of 4] by auto

text \<open>
  C38. On a volume of at most \<open>2^32 - 8\<close> blocks, however allocations and releases of taken runs follow one another, as
  long as a node is found for every new extent, here and when the list is built, the list kept up to date step by step, with its extents merged, is exactly the list
  that \<^verbatim>\<open>free_list_build\<close> makes from the bitmap alone, and the ledger's count is what
  \<^verbatim>\<open>count_free_blocks\<close> counts there.
\<close>

theorem free_list_is_rebuilt_list:
  assumes "space_whole st" "bb_total_blocks (ss_block_bitmap st) + 8 \<le> 2 ^ 32" "space_step\<^sup>*\<^sup>* st st'"
  shows "free_list_build (\<lambda>_. True) (ss_block_bitmap st') = Some (ss_block_bitmap st') \<and>
    ss_free_blocks st' = count_free_blocks st'"
proof -
  have w: "space_whole st'" "bb_total_blocks (ss_block_bitmap st') = bb_total_blocks (ss_block_bitmap st)"
    using space_steps_whole [OF assms(3,1)] by simp_all
  have "ss_free_blocks st' = count_free_blocks st'"
    using w(1) by (simp add: space_whole_def space_ok_def count_free_blocks_card free_set_def clear_bits_def)
  then show ?thesis using whole_rebuilds [OF w(1)] w(2) assms(2) by simp
qed

theorem free_list_is_rebuilt_list_witness:
  "\<exists>st'. tagfs_alloc_blocks_internal 4 small_space = Some (Some 6, st') \<and>
     free_list_build (\<lambda>_. True) (ss_block_bitmap st') = Some (ss_block_bitmap st') \<and> ss_free_blocks st' = count_free_blocks st'"
proof -
  have "take_first 4 (bb_free_list (ss_block_bitmap small_space)) =
      Some (6, False, [\<lparr>fe_start = 2, fe_count = 3\<rparr>, \<lparr>fe_start = 10, fe_count = 6\<rparr>])"
    by (simp add: small_space_def)
  then obtain st' where st': "tagfs_alloc_blocks_internal 4 small_space = Some (Some 6, st')"
    using alloc_internal_spec [OF space_wholeD(1) [OF small_whole], of 4] by (metis zero_less_numeral)
  have "space_step\<^sup>*\<^sup>* small_space st'" using alloc_step [OF _ st'] by auto
  then show ?thesis using free_list_is_rebuilt_list [OF small_whole] st' by (auto simp: small_space_def)
qed

text \<open>
  With no memory for a node, a run with no free neighbour is counted as free and clear in the bitmap, but
  is in no extent: it cannot be allocated until the list is built again at the next mount.
\<close>

lemma no_node_loses_block:
  "\<exists>st'. free_run_locked (\<lambda>_. False) 0 1 small_space = Some st' \<and> 0 \<in> free_set st' \<and>
     ss_free_blocks st' = 14 \<and> 0 \<notin> extent_blocks (bb_free_list (ss_block_bitmap st'))"
  by (simp add: free_run_locked_def insert_run_def small_space_def bitmap_clear_bit_def free_set_def
      bitmap_test_bit_def fe_end_def Let_def u32_wrap_def)

end
