(* ===== verification/FileTable.thy ===== *)
theory FileTable
  imports VolumeIo BlockSpace
begin

text \<open>
  The file table of a TagFS volume (kernel/tagfs/file\_table/file\_table.c): an array from file numbers to the place
  of their metadata, kept on the volume in a chain of blocks that begins at a fixed one. The blocks are read and
  written through the block layer of theory Integrity and new ones come from the allocator of theory
  BlockSpace. Whether \<^verbatim>\<open>kmalloc\<close> succeeds, whether the volume may be entered and which raw accesses work are
  parameters, the accesses block by block. \<open>None\<close> as the result of an operation is an access outside an array.

  Shown: the table behaves like a map from file numbers, and a table that was flushed is the table that is found
  at the next mount.
\<close>

section \<open>Data\<close>

definition TAGFS_FTABLE_PER_BLOCK :: nat where "TAGFS_FTABLE_PER_BLOCK = 510"
definition TAGFS_FILETBL_MAGIC :: u32 where "TAGFS_FILETBL_MAGIC = 0x54465442"

record FileTableEntry =
  fte_block :: u32
  fte_offset :: u32

record FileTableBlock =
  ftb_magic :: u32
  ftb_next_block :: u32
  ftb_entry_count :: u32
  ftb_reserved :: u32
  ftb_entries :: "FileTableEntry list"

text \<open>The static variables; the capacity is the length of the array.\<close>

record FileTable =
  ft_entries :: "FileTableEntry list"
  ft_dirty :: bool
  ft_chain :: "nat list"
  ft_chain_cap :: nat

text \<open>The volume, and the outcomes: growing the chain from a given length, an array of a given size, \<^verbatim>\<open>tagfs_enter\<close>, and the raw
  accesses for the block of a given link.\<close>

record TableVolume =
  tv_io :: IoState
  tv_space :: SpaceState

record TableEnv =
  te_chain :: "nat \<Rightarrow> bool"
  te_array :: "nat \<Rightarrow> bool"
  te_door :: bool
  te_io :: "nat \<Rightarrow> IoEnv"

definition no_place :: FileTableEntry where
  "no_place = \<lparr>fte_block = 0, fte_offset = 0\<rparr>"

definition ft_entry_bytes :: "FileTableEntry \<Rightarrow> bytes" where
  "ft_entry_bytes e = le_put 4 (fte_block e) @ le_put 4 (fte_offset e)"

definition ft_entry_of :: "bytes \<Rightarrow> FileTableEntry" where
  "ft_entry_of buf = \<lparr>fte_block = le_get (take 4 buf), fte_offset = le_get (take 4 (drop 4 buf))\<rparr>"

definition file_block_bytes :: "FileTableBlock \<Rightarrow> bytes" where
  "file_block_bytes fb = le_put 4 (ftb_magic fb) @ le_put 4 (ftb_next_block fb) @ le_put 4 (ftb_entry_count fb) @
     le_put 4 (ftb_reserved fb) @ concat (map ft_entry_bytes (ftb_entries fb))"

definition file_block_of :: "bytes \<Rightarrow> FileTableBlock" where
  "file_block_of buf = \<lparr>ftb_magic = le_get (take 4 buf), ftb_next_block = le_get (take 4 (drop 4 buf)),
     ftb_entry_count = le_get (take 4 (drop 8 buf)), ftb_reserved = le_get (take 4 (drop 12 buf)),
     ftb_entries = map (\<lambda>i. ft_entry_of (take 8 (drop (8 * i) (drop 16 buf)))) [0..<TAGFS_FTABLE_PER_BLOCK]\<rparr>"

section \<open>The chain and the array\<close>

definition ft_chain_release :: "FileTable \<Rightarrow> FileTable" where
  "ft_chain_release ft = ft\<lparr>ft_chain := [], ft_chain_cap := 0\<rparr>"

definition ft_chain_append :: "TableEnv \<Rightarrow> nat \<Rightarrow> FileTable \<Rightarrow> (bool \<times> FileTable) option" where
  "ft_chain_append env block ft =
     (let n = length (ft_chain ft) in
      if n = ft_chain_cap ft then
        (let cap = (if ft_chain_cap ft \<noteq> 0 then u32_wrap (ft_chain_cap ft * 2) else 8)
         in if \<not> te_chain env n then Some (False, ft)
            else if n < cap then Some (True, ft\<lparr>ft_chain := ft_chain ft @ [block], ft_chain_cap := cap\<rparr>)
            else None)
      else Some (True, ft\<lparr>ft_chain := ft_chain ft @ [block]\<rparr>))"

definition table_grow_to :: "TableEnv \<Rightarrow> nat \<Rightarrow> FileTable \<Rightarrow> bool \<times> FileTable" where
  "table_grow_to env want ft =
     (if want \<le> length (ft_entries ft) then (True, ft)
      else if \<not> te_array env want then (False, ft)
      else (True, ft\<lparr>ft_entries := ft_entries ft @ replicate (want - length (ft_entries ft)) no_place\<rparr>))"

definition table_release :: "FileTable \<Rightarrow> FileTable" where
  "table_release ft = ft_chain_release (ft\<lparr>ft_entries := []\<rparr>)"

section \<open>Mounting\<close>

text \<open>The entries of a block go into the array.\<close>

definition copy_entries :: "nat \<Rightarrow> FileTableEntry list \<Rightarrow> FileTable \<Rightarrow> FileTable option" where
  "copy_entries offset es ft =
     (if es \<noteq> [] \<and> length (ft_entries ft) < offset + length es then None
      else Some (ft\<lparr>ft_entries := take offset (ft_entries ft) @ es @ drop (offset + length es) (ft_entries ft)\<rparr>))"

definition adopt_block :: "TableEnv \<Rightarrow> nat \<Rightarrow> FileTableBlock \<Rightarrow> FileTable \<Rightarrow> (bool \<times> FileTable) option" where
  "adopt_block env block fb ft =
     (let entry_offset = u32_wrap (length (ft_chain ft) * TAGFS_FTABLE_PER_BLOCK)
      in case ft_chain_append env block ft of
           None \<Rightarrow> None
         | Some (False, ft1) \<Rightarrow> Some (False, ft1)
         | Some (True, ft1) \<Rightarrow>
             (case table_grow_to env (u32_wrap (entry_offset + TAGFS_FTABLE_PER_BLOCK)) ft1 of
                (False, ft2) \<Rightarrow> Some (False, ft2)
              | (True, ft2) \<Rightarrow>
                  map_option (Pair True)
                    (copy_entries entry_offset (take (min (unat (ftb_entry_count fb)) TAGFS_FTABLE_PER_BLOCK) (ftb_entries fb)) ft2)))"

function init_loop :: "TableEnv \<Rightarrow> nat \<Rightarrow> nat \<Rightarrow> nat \<Rightarrow> FileTable \<Rightarrow> IoState \<Rightarrow> (bool \<times> FileTable \<times> IoState) option" where
  "init_loop env run block hops ft io =
     (if block \<ge> run then Some (False, table_release ft, io)
      else case tagfs_read_block (te_io env hops) block io of
             None \<Rightarrow> None
           | Some (Inl err, io1) \<Rightarrow> Some (False, table_release ft, io1)
           | Some (Inr buf, io1) \<Rightarrow>
               let fb = file_block_of buf
               in if ftb_magic fb \<noteq> TAGFS_FILETBL_MAGIC then Some (False, table_release ft, io1)
                  else case adopt_block env block fb ft of
                         None \<Rightarrow> None
                       | Some (False, ft1) \<Rightarrow> Some (False, table_release ft1, io1)
                       | Some (True, ft1) \<Rightarrow>
                           if ftb_next_block fb = 0 then Some (True, ft1, io1)
                           else if hops + 1 \<ge> run then Some (False, table_release ft1, io1)
                           else init_loop env run (unat (ftb_next_block fb)) (hops + 1) ft1 io1)"
  by pat_completeness auto

termination
  by (relation "measure (\<lambda>(env, run, block, hops, ft, io). run - hops)") auto

declare init_loop.simps [simp del]

definition file_table_init :: "TableEnv \<Rightarrow> nat \<Rightarrow> nat \<Rightarrow> FileTable \<Rightarrow> IoState \<Rightarrow> (bool \<times> FileTable \<times> IoState) option" where
  "file_table_init env run first_block ft io =
     (let ft0 = (table_release ft)\<lparr>ft_dirty := False\<rparr>
      in if run = 0 then Some (False, ft0, io) else init_loop env run first_block 0 ft0 io)"

section \<open>Lookup and update\<close>

text \<open>The first result is the value returned, -1 as \<open>None\<close>.\<close>

definition file_table_lookup :: "nat \<Rightarrow> FileTable \<Rightarrow> (u32 \<times> u32) option" where
  "file_table_lookup file_id ft =
     (if length (ft_entries ft) \<le> file_id then None
      else let e = ft_entries ft ! file_id in if fte_block e = 0 then None else Some (fte_block e, fte_offset e))"

definition store_entry :: "nat \<Rightarrow> FileTableEntry \<Rightarrow> FileTable \<Rightarrow> FileTable option" where
  "store_entry file_id e ft =
     (if length (ft_entries ft) \<le> file_id then None else Some (ft\<lparr>ft_entries := (ft_entries ft)[file_id := e], ft_dirty := True\<rparr>))"

definition wanted :: "nat \<Rightarrow> nat \<Rightarrow> nat" where
  "wanted capacity file_id = (let want = u32_wrap (capacity * 2) in if want \<le> file_id then u32_wrap (file_id + 1) else want)"

definition file_table_update :: "TableEnv \<Rightarrow> nat \<Rightarrow> u32 \<Rightarrow> u32 \<Rightarrow> FileTable \<Rightarrow> (bool \<times> FileTable) option" where
  "file_table_update env file_id meta_block meta_offset ft =
     (case (if length (ft_entries ft) \<le> file_id then table_grow_to env (wanted (length (ft_entries ft)) file_id) ft else (True, ft)) of
        (False, ft1) \<Rightarrow> Some (False, ft1)
      | (True, ft1) \<Rightarrow> map_option (Pair True) (store_entry file_id \<lparr>fte_block = meta_block, fte_offset = meta_offset\<rparr> ft1))"

definition file_table_delete :: "nat \<Rightarrow> FileTable \<Rightarrow> (bool \<times> FileTable) option" where
  "file_table_delete file_id ft =
     (if length (ft_entries ft) \<le> file_id then Some (False, ft) else map_option (Pair True) (store_entry file_id no_place ft))"

section \<open>Flushing\<close>

text \<open>The block of the next link: the one the chain has, else a new one; \<open>None\<close> inside is the error return.\<close>

definition ft_next_link :: "TableEnv \<Rightarrow> nat \<Rightarrow> FileTable \<Rightarrow> SpaceState \<Rightarrow> (nat option \<times> FileTable \<times> SpaceState) option" where
  "ft_next_link env link ft sp =
     (if link + 1 < length (ft_chain ft) then Some (Some (ft_chain ft ! (link + 1)), ft, sp)
      else case tagfs_alloc_blocks (te_door env) 1 sp of
             None \<Rightarrow> None
           | Some (None, sp1) \<Rightarrow> Some (None, ft, sp1)
           | Some (Some b, sp1) \<Rightarrow>
               map_option (\<lambda>(ok, ft1). (if ok then Some b else None, ft1, sp1)) (ft_chain_append env b ft))"

definition chunk_block :: "FileTableEntry list \<Rightarrow> nat \<Rightarrow> nat \<Rightarrow> FileTableBlock" where
  "chunk_block entries entry_offset next_block =
     (let es = take TAGFS_FTABLE_PER_BLOCK (drop entry_offset entries)
      in \<lparr>ftb_magic = TAGFS_FILETBL_MAGIC, ftb_next_block = of_nat next_block, ftb_entry_count = of_nat (length es), ftb_reserved = 0,
          ftb_entries = es @ replicate (TAGFS_FTABLE_PER_BLOCK - length es) no_place\<rparr>)"

text \<open>One round of the loop: a block of the chain is written.\<close>

definition flush_round :: "TableEnv \<Rightarrow> nat \<Rightarrow> nat \<Rightarrow> nat \<Rightarrow> FileTable \<Rightarrow> TableVolume \<Rightarrow> (bool \<times> FileTable \<times> TableVolume) option" where
  "flush_round env total_entries entry_offset link ft vol =
     (let entries_this_block = min (total_entries - entry_offset) TAGFS_FTABLE_PER_BLOCK
      in case (if total_entries - entry_offset - entries_this_block > 0 then ft_next_link env link ft (tv_space vol)
               else Some (Some 0, ft, tv_space vol)) of
           None \<Rightarrow> None
         | Some (None, ft1, sp) \<Rightarrow> Some (False, ft1, vol\<lparr>tv_space := sp\<rparr>)
         | Some (Some next_block, ft1, sp) \<Rightarrow>
             if length (ft_chain ft1) \<le> link then Some (False, ft1, vol\<lparr>tv_space := sp\<rparr>)
             else map_option (\<lambda>(err, io). (err = OK, ft1, \<lparr>tv_io = io, tv_space = sp\<rparr>))
                    (tagfs_write_block (te_io env link) (ft_chain ft1 ! link)
                       (file_block_bytes (chunk_block (ft_entries ft1) entry_offset next_block)) (tv_io vol)))"

function flush_table :: "TableEnv \<Rightarrow> nat \<Rightarrow> nat \<Rightarrow> nat \<Rightarrow> FileTable \<Rightarrow> TableVolume \<Rightarrow> (bool \<times> FileTable \<times> TableVolume) option" where
  "flush_table env total_entries entry_offset link ft vol =
     (if total_entries \<le> entry_offset then Some (True, ft, vol)
      else case flush_round env total_entries entry_offset link ft vol of
             None \<Rightarrow> None
           | Some (ok, ft1, vol1) \<Rightarrow>
               if \<not> ok then Some (False, ft1, vol1)
               else flush_table env total_entries (entry_offset + min (total_entries - entry_offset) TAGFS_FTABLE_PER_BLOCK) (link + 1) ft1 vol1)"
  by pat_completeness auto

termination
  by (relation "measure (\<lambda>(env, total, offset, link, ft, vol). total - offset)") (auto simp: TAGFS_FTABLE_PER_BLOCK_def)

declare flush_table.simps [simp del]

definition file_table_flush :: "TableEnv \<Rightarrow> FileTable \<Rightarrow> TableVolume \<Rightarrow> (bool \<times> FileTable \<times> TableVolume) option" where
  "file_table_flush env ft vol =
     (if \<not> ft_dirty ft then Some (True, ft, vol)
      else map_option (\<lambda>(ok, ft1, vol1). (ok, if ok then ft1\<lparr>ft_dirty := False\<rparr> else ft1, vol1)) (flush_table env (length (ft_entries ft)) 0 0 ft vol))"

definition file_table_shutdown :: "TableEnv \<Rightarrow> bool \<Rightarrow> FileTable \<Rightarrow> TableVolume \<Rightarrow> (FileTable \<times> TableVolume) option" where
  "file_table_shutdown env write_back ft vol =
     map_option (\<lambda>(ft1, vol1). ((table_release ft1)\<lparr>ft_dirty := False\<rparr>, vol1))
       (if write_back then map_option snd (file_table_flush env ft vol) else Some (ft, vol))"


section \<open>The image of a block\<close>

lemma length_ft_entry_bytes [simp]: "length (ft_entry_bytes e) = 8"
  by (simp add: ft_entry_bytes_def)

lemma ft_entry_round_trip [simp]: "ft_entry_of (ft_entry_bytes e) = e"
  by (simp add: ft_entry_of_def ft_entry_bytes_def)

lemma entry_in_concat: "i < length es \<Longrightarrow> take 8 (drop (8 * i) (concat (map ft_entry_bytes es))) = ft_entry_bytes (es ! i)"
proof (induction es arbitrary: i)
  case (Cons e es)
  then show ?case by (cases i) (simp_all add: algebra_simps)
qed simp

lemma file_block_round_trip:
  assumes "length (ftb_entries fb) = TAGFS_FTABLE_PER_BLOCK"
  shows "file_block_of (file_block_bytes fb) = fb"
proof -
  let ?es = "concat (map ft_entry_bytes (ftb_entries fb))"
  have "map (\<lambda>i. ft_entry_of (take 8 (drop (8 * i) ?es))) [0..<TAGFS_FTABLE_PER_BLOCK] = ftb_entries fb"
    using assms by (intro nth_equalityI) (simp_all add: entry_in_concat)
  then show ?thesis by (simp add: file_block_of_def file_block_bytes_def)
qed

lemma chunk_block_simps [simp]:
  "length (ftb_entries (chunk_block es off nxt)) = TAGFS_FTABLE_PER_BLOCK"
  "ftb_magic (chunk_block es off nxt) = TAGFS_FILETBL_MAGIC" "ftb_next_block (chunk_block es off nxt) = of_nat nxt"
  by (simp_all add: chunk_block_def Let_def)

lemma chunk_entries:
  "take (min (unat (ftb_entry_count (chunk_block es off nxt))) TAGFS_FTABLE_PER_BLOCK) (ftb_entries (chunk_block es off nxt)) =
   take TAGFS_FTABLE_PER_BLOCK (drop off es)"
proof -
  let ?n = "length (take TAGFS_FTABLE_PER_BLOCK (drop off es))"
  have "?n \<le> 510" by (simp add: TAGFS_FTABLE_PER_BLOCK_def)
  then have "unat (of_nat ?n :: u32) = ?n" by (simp add: unat_of_nat take_bit_eq_mod)
  then show ?thesis
    by (cases "length es - off \<le> TAGFS_FTABLE_PER_BLOCK") (simp_all add: chunk_block_def Let_def min_def)
qed

section \<open>The table as a map\<close>

text \<open>The number 0xFFFFFFFF makes the size asked for wrap to 0, and the entry is stored outside the array.\<close>

lemma update_last_id_overruns:
  assumes "length (ft_entries ft) < 2 ^ 32"
  shows "file_table_update env (2 ^ 32 - 1) meta_block meta_offset ft = None"
  using assms by (simp add: file_table_update_def wanted_def table_grow_to_def store_entry_def u32_wrap_def Let_def)

lemma lookup_grown:
  "table_grow_to env want ft = (ok, ft') \<Longrightarrow> file_table_lookup i ft' = file_table_lookup i ft"
  by (auto simp: table_grow_to_def file_table_lookup_def Let_def nth_append no_place_def split: if_splits)

lemma lookup_stored:
  "store_entry i e ft = Some ft' \<Longrightarrow>
   file_table_lookup j ft' = (if j = i then if fte_block e = 0 then None else Some (fte_block e, fte_offset e) else file_table_lookup j ft)"
  by (auto simp: store_entry_def file_table_lookup_def Let_def nth_list_update split: if_splits)

lemma wanted_enough:
  assumes "capacity \<le> file_id" "file_id < 2 ^ 32 - 1"
  shows "file_id < wanted capacity file_id" "wanted capacity file_id < 2 ^ 32"
  using assms by (auto simp: wanted_def Let_def u32_wrap_def)

text \<open>C19. The file table is a map from file numbers to places: an update that reports success changes exactly the
  entry of its file (place 0 removes it), one that reports failure changes nothing, a removal leaves exactly the other files, and
  neither ever leaves the array, for every file number but 0xFFFFFFFF; an update fails only for want of memory.\<close>

theorem file_table_is_map:
  assumes "file_id < 2 ^ 32 - 1" "length (ft_entries ft) < 2 ^ 32"
  shows "(\<exists>ok ft'. file_table_update env file_id b off ft = Some (ok, ft') \<and> length (ft_entries ft') < 2 ^ 32 \<and>
      (te_array env = (\<lambda>_. True) \<longrightarrow> ok) \<and> (\<not> ok \<longrightarrow> ft' = ft) \<and>
      (\<forall>i. file_table_lookup i ft' =
         (if ok \<and> i = file_id then if b = 0 then None else Some (b, off) else file_table_lookup i ft))) \<and>
    (\<exists>ok ft'. file_table_delete file_id ft = Some (ok, ft') \<and> length (ft_entries ft') = length (ft_entries ft) \<and>
      (\<forall>i. file_table_lookup i ft' = (if i = file_id then None else file_table_lookup i ft)))"
proof
  show "\<exists>ok ft'. file_table_delete file_id ft = Some (ok, ft') \<and> length (ft_entries ft') = length (ft_entries ft) \<and>
      (\<forall>i. file_table_lookup i ft' = (if i = file_id then None else file_table_lookup i ft))"
    by (auto simp: file_table_delete_def store_entry_def file_table_lookup_def Let_def no_place_def)
  let ?e = "\<lparr>fte_block = b, fte_offset = off\<rparr>"
  obtain ok ft1 where g: "(if length (ft_entries ft) \<le> file_id then table_grow_to env (wanted (length (ft_entries ft)) file_id) ft else (True, ft)) = (ok, ft1)"
    by fastforce
  have len: "length (ft_entries ft1) < 2 ^ 32" "ok \<longrightarrow> file_id < length (ft_entries ft1)" "\<not> ok \<longrightarrow> ft1 = ft" "te_array env = (\<lambda>_. True) \<longrightarrow> ok"
    using g assms wanted_enough [of "length (ft_entries ft)" file_id] by (auto simp: table_grow_to_def split: if_splits)
  have look: "file_table_lookup i ft1 = file_table_lookup i ft" for i
    using g lookup_grown by (auto split: if_splits)
  have u: "file_table_update env file_id b off ft = (if ok then map_option (Pair True) (store_entry file_id ?e ft1) else Some (False, ft1))"
    unfolding file_table_update_def g by (simp split: bool.splits)
  show "\<exists>ok ft'. file_table_update env file_id b off ft = Some (ok, ft') \<and> length (ft_entries ft') < 2 ^ 32 \<and>
      (te_array env = (\<lambda>_. True) \<longrightarrow> ok) \<and> (\<not> ok \<longrightarrow> ft' = ft) \<and>
      (\<forall>i. file_table_lookup i ft' =
         (if ok \<and> i = file_id then if b = 0 then None else Some (b, off) else file_table_lookup i ft))"
  proof (cases ok)
    case True
    then obtain ft' where st: "store_entry file_id ?e ft1 = Some ft'" "length (ft_entries ft') = length (ft_entries ft1)"
      using len(2) by (simp add: store_entry_def)
    then show ?thesis using True u lookup_stored [OF st(1)] look len(1) by auto
  next
    case False
    then show ?thesis using u len look by auto
  qed
qed


section \<open>A table and its volume\<close>

text \<open>
  The blocks of the chain are blocks of the volume, all different, taken, and outside the region of the integrity map,
  which holds no free block either; block 0 is not free and no link leads to it.
\<close>

definition chain_fits :: "nat \<Rightarrow> (nat \<Rightarrow> bool) \<Rightarrow> nat list \<Rightarrow> nat set \<Rightarrow> bool" where
  "chain_fits run region chain free \<longleftrightarrow> chain \<noteq> [] \<and> distinct chain \<and> (\<forall>b\<in>set chain. b < run \<and> \<not> region b \<and> b \<notin> free) \<and>
     0 \<notin> set (tl chain) \<and> 0 \<notin> free \<and> (\<forall>b\<in>free. b < run \<and> \<not> region b) \<and> finite free"

definition table_fits :: "nat \<Rightarrow> FileTable \<Rightarrow> TableVolume \<Rightarrow> bool" where
  "table_fits run ft vol \<longleftrightarrow> run < 2 ^ 31 \<and> length (ft_chain ft) \<le> ft_chain_cap ft \<and> sound (tv_io vol) \<and> space_whole (tv_space vol) \<and>
     chain_fits run (in_region (tv_io vol)) (ft_chain ft) (free_set (tv_space vol))"

lemma chain_fits_length: "chain_fits run region chain free \<Longrightarrow> length chain \<le> run"
proof -
  assume a: "chain_fits run region chain free"
  then have "card (set chain) \<le> card {..<run}" by (intro card_mono) (auto simp: chain_fits_def)
  then show ?thesis using a by (simp add: chain_fits_def distinct_card)
qed

lemma chain_fits_grow:
  "chain_fits run region chain free \<Longrightarrow> b \<in> free \<Longrightarrow> chain_fits run region (chain @ [b]) (free - {b})"
  by (auto simp: chain_fits_def intro: gr0I)

lemma chain_append_works:
  assumes "length (ft_chain ft) \<le> ft_chain_cap ft" "length (ft_chain ft) < 2 ^ 31"
  shows "\<exists>ok cap. ft_chain_append env b ft = Some (ok, if ok then ft\<lparr>ft_chain := ft_chain ft @ [b], ft_chain_cap := cap\<rparr> else ft) \<and>
    (te_chain env (length (ft_chain ft)) \<longrightarrow> ok) \<and> (ok \<longrightarrow> length (ft_chain ft) + 1 \<le> cap)"
proof (cases "length (ft_chain ft) = ft_chain_cap ft")
  case True
  let ?cap = "if ft_chain_cap ft \<noteq> 0 then ft_chain_cap ft * 2 else 8"
  have "u32_wrap (ft_chain_cap ft * 2) = ft_chain_cap ft * 2" using assms(2) True by simp
  then show ?thesis using True
    by (intro exI [of _ "te_chain env (length (ft_chain ft))"] exI [of _ ?cap]) (auto simp: ft_chain_append_def Let_def)
next
  case False
  then show ?thesis using assms(1)
    by (intro exI [of _ True] exI [of _ "ft_chain_cap ft"]) (simp add: ft_chain_append_def)
qed

text \<open>A single block from the allocator.\<close>

lemma alloc_one:
  assumes "space_whole sp"
  shows "\<exists>r sp'. tagfs_alloc_blocks door 1 sp = Some (r, sp') \<and> space_whole sp' \<and>
    (case r of None \<Rightarrow> free_set sp' = free_set sp \<and> (door \<longrightarrow> free_set sp = {})
             | Some b \<Rightarrow> b \<in> free_set sp \<and> free_set sp' = free_set sp - {b})"
proof (cases door)
  case True
  have one: "{s..<s + 1} = {s}" for s :: nat by auto
  obtain r sp' where r: "tagfs_alloc_blocks_internal 1 sp = Some (r, sp')" "space_whole sp'"
    "lowest_run (free_set sp) 1 r" "free_set sp' = free_set sp - run_taken r 1"
    by (rule alloc_whole [OF assms, of 1]) auto
  then show ?thesis using True one
    by (auto simp: tagfs_alloc_blocks_def tagfs_alloc_blocks_inside_def lowest_run_def run_taken_def split: option.splits)
qed (use assms in \<open>simp add: tagfs_alloc_blocks_def\<close>)

lemma next_link_works:
  assumes "run < 2 ^ 31" "length (ft_chain ft) \<le> ft_chain_cap ft" "space_whole sp" "chain_fits run region (ft_chain ft) (free_set sp)"
    and link: "link < length (ft_chain ft)"
  shows "\<exists>r ft' sp'. ft_next_link env link ft sp = Some (r, ft', sp') \<and> space_whole sp' \<and> length (ft_chain ft') \<le> ft_chain_cap ft' \<and>
    chain_fits run region (ft_chain ft') (free_set sp') \<and> (\<exists>ext. ft_chain ft' = ft_chain ft @ ext) \<and>
    ft_entries ft' = ft_entries ft \<and> ft_dirty ft' = ft_dirty ft \<and>
    (\<forall>b. r = Some b \<longrightarrow> link + 1 < length (ft_chain ft') \<and> b = ft_chain ft' ! (link + 1) \<and>
       length (ft_chain ft') + card (free_set sp') = length (ft_chain ft) + card (free_set sp)) \<and>
    (te_door env \<and> te_chain env = (\<lambda>_. True) \<and> link + 1 < length (ft_chain ft) + card (free_set sp) \<longrightarrow> r \<noteq> None)"
proof (cases "link + 1 < length (ft_chain ft)")
  case True
  then show ?thesis using assms by (auto simp: ft_next_link_def)
next
  case False
  have len: "length (ft_chain ft) < 2 ^ 31" using chain_fits_length [OF assms(4)] assms(1) by simp
  obtain r sp' where a: "tagfs_alloc_blocks (te_door env) 1 sp = Some (r, sp')" "space_whole sp'"
    "case r of None \<Rightarrow> free_set sp' = free_set sp \<and> (te_door env \<longrightarrow> free_set sp = {})
             | Some b \<Rightarrow> b \<in> free_set sp \<and> free_set sp' = free_set sp - {b}"
    using alloc_one [OF assms(3)] by blast
  show ?thesis
  proof (cases r)
    case None
    then show ?thesis using False a assms by (auto simp: ft_next_link_def)
  next
    case (Some b)
    then have b: "b \<in> free_set sp" "free_set sp' = free_set sp - {b}" using a(3) by simp_all
    have fin: "finite (free_set sp)" using assms(4) by (simp add: chain_fits_def)
    have card: "card (free_set sp) = Suc (card (free_set sp'))" using b fin by (metis card.remove)
    have fits: "chain_fits run region (ft_chain ft @ [b]) (free_set sp')" using chain_fits_grow [OF assms(4) b(1)] b(2) by simp
    have fits0: "chain_fits run region (ft_chain ft) (free_set sp')" using assms(4) b(2) by (auto simp: chain_fits_def)
    obtain ok cap where c: "ft_chain_append env b ft = Some (ok, if ok then ft\<lparr>ft_chain := ft_chain ft @ [b], ft_chain_cap := cap\<rparr> else ft)"
      "te_chain env (length (ft_chain ft)) \<longrightarrow> ok" "ok \<longrightarrow> length (ft_chain ft) + 1 \<le> cap"
      using chain_append_works [OF assms(2) len] by blast
    have "link + 1 = length (ft_chain ft)" using False link by simp
    then show ?thesis using False Some a(1,2) c card fits fits0 assms(2) by (cases ok) (auto simp: ft_next_link_def nth_append)
  qed
qed


section \<open>Flushing the table\<close>

text \<open>What the block of link \<open>k\<close> must hold.\<close>

definition link_image :: "FileTableEntry list \<Rightarrow> nat list \<Rightarrow> nat \<Rightarrow> bytes" where
  "link_image es chain k = file_block_bytes (chunk_block es (TAGFS_FTABLE_PER_BLOCK * k)
     (if TAGFS_FTABLE_PER_BLOCK * (k + 1) < length es then chain ! (k + 1) else 0))"

definition links_written :: "FileTableEntry list \<Rightarrow> nat list \<Rightarrow> (nat \<Rightarrow> bytes) \<Rightarrow> nat \<Rightarrow> bool" where
  "links_written es chain disk m \<longleftrightarrow>
     (\<forall>k<m. TAGFS_FTABLE_PER_BLOCK * k < length es \<longrightarrow> k < length chain \<and>
        (TAGFS_FTABLE_PER_BLOCK * (k + 1) < length es \<longrightarrow> k + 1 < length chain) \<and> disk (chain ! k) = link_image es chain k)"

definition table_env_works :: "TableEnv \<Rightarrow> bool" where
  "table_env_works env \<longleftrightarrow> te_door env \<and> te_chain env = (\<lambda>_. True) \<and> te_array env = (\<lambda>_. True) \<and> (\<forall>k. env_works (te_io env k))"

lemma links_written_append:
  "links_written es chain disk m \<Longrightarrow> links_written es (chain @ ext) disk m"
  by (auto simp: links_written_def link_image_def nth_append trans_less_add1)

lemma links_written_frame:
  "links_written es chain disk m \<Longrightarrow> (\<And>b. b \<in> set chain \<Longrightarrow> disk' b = disk b) \<Longrightarrow> links_written es chain disk' m"
  by (simp add: links_written_def)

lemma flush_round_works:
  assumes ok: "table_fits run ft vol" and link: "link < length (ft_chain ft)" "off = TAGFS_FTABLE_PER_BLOCK * link"
    and total: "tot = length (ft_entries ft)" "off < tot"
    and written: "links_written (ft_entries ft) (ft_chain ft) (on_disk (tv_io vol)) link"
  shows "\<exists>fin ft' vol'. flush_round env tot off link ft vol = Some (fin, ft', vol') \<and> table_fits run ft' vol' \<and>
    in_region (tv_io vol') = in_region (tv_io vol) \<and> (\<exists>ext. ft_chain ft' = ft_chain ft @ ext) \<and>
    ft_entries ft' = ft_entries ft \<and> ft_dirty ft' = ft_dirty ft \<and>
    (fin \<longrightarrow> links_written (ft_entries ft) (ft_chain ft') (on_disk (tv_io vol')) (link + 1) \<and>
       (off + TAGFS_FTABLE_PER_BLOCK < tot \<longrightarrow> link + 1 < length (ft_chain ft')) \<and>
       length (ft_chain ft') + card (free_set (tv_space vol')) = length (ft_chain ft) + card (free_set (tv_space vol))) \<and>
    (table_env_works env \<and> \<not> io_medium_left (tv_io vol) \<and>
       (off + TAGFS_FTABLE_PER_BLOCK < tot \<longrightarrow> link + 1 < length (ft_chain ft) + card (free_set (tv_space vol))) \<longrightarrow>
       fin \<and> \<not> io_medium_left (tv_io vol'))"
proof -
  let ?more = "off + TAGFS_FTABLE_PER_BLOCK < tot" and ?reg = "in_region (tv_io vol)" and ?es = "ft_entries ft"
  have t: "run < 2 ^ 31" "length (ft_chain ft) \<le> ft_chain_cap ft" "sound (tv_io vol)" "space_whole (tv_space vol)"
    "chain_fits run ?reg (ft_chain ft) (free_set (tv_space vol))" using ok by (simp_all add: table_fits_def)
  have more: "tot - off - min (tot - off) TAGFS_FTABLE_PER_BLOCK > 0 \<longleftrightarrow> ?more" by auto
  obtain r ft1 sp where n: "(if ?more then ft_next_link env link ft (tv_space vol) else Some (Some 0, ft, tv_space vol)) = Some (r, ft1, sp)"
    "space_whole sp" "length (ft_chain ft1) \<le> ft_chain_cap ft1" "chain_fits run ?reg (ft_chain ft1) (free_set sp)"
    "\<exists>ext. ft_chain ft1 = ft_chain ft @ ext" "ft_entries ft1 = ?es" "ft_dirty ft1 = ft_dirty ft"
    "\<forall>b. r = Some b \<longrightarrow> (?more \<longrightarrow> link + 1 < length (ft_chain ft1)) \<and> b = (if ?more then ft_chain ft1 ! (link + 1) else 0) \<and>
       length (ft_chain ft1) + card (free_set sp) = length (ft_chain ft) + card (free_set (tv_space vol))"
    "te_door env \<and> te_chain env = (\<lambda>_. True) \<and> (?more \<longrightarrow> link + 1 < length (ft_chain ft) + card (free_set (tv_space vol))) \<longrightarrow> r \<noteq> None"
    using next_link_works [OF t(1,2,4,5) link(1), of env] t by (cases ?more) auto
  show ?thesis
  proof (cases r)
    case None
    then have "flush_round env tot off link ft vol = Some (False, ft1, vol\<lparr>tv_space := sp\<rparr>)"
      unfolding flush_round_def Let_def more n(1) by simp
    moreover have "table_fits run ft1 (vol\<lparr>tv_space := sp\<rparr>)" using t n by (simp add: table_fits_def)
    ultimately show ?thesis using n None by (auto simp: table_env_works_def)
  next
    case (Some b)
    have lk: "link < length (ft_chain ft1)" using n(5) link(1) by auto
    let ?blk = "ft_chain ft1 ! link" and ?img = "file_block_bytes (chunk_block (ft_entries ft1) off b)"
    obtain fin io where w: "write_block (te_io env link) ?blk ?img (tv_io vol) = Some (fin, io)" "sound io"
      "same_map (io_integrity (tv_io vol)) (io_integrity io)"
      "\<forall>b. \<not> ?reg b \<longrightarrow> on_disk io b = (if fin \<and> b = ?blk then ?img else on_disk (tv_io vol) b)"
      "env_works (te_io env link) \<and> \<not> io_medium_left (tv_io vol) \<longrightarrow> fin \<and> \<not> io_medium_left io"
      using write_block_sound [OF t(3), of "te_io env link" ?blk ?img] by blast
    let ?vol' = "\<lparr>tv_io = io, tv_space = sp\<rparr>"
    have round: "flush_round env tot off link ft vol = Some (fin, ft1, ?vol')"
      unfolding flush_round_def Let_def more n(1) using Some lk w(1) by (simp add: tagfs_write_block_def)
    have reg: "in_region io = ?reg" using same_map_region [OF w(3)] by (simp add: fun_eq_iff)
    have tok: "table_fits run ft1 ?vol'" using t(1) w(2) n(2-4) by (simp add: table_fits_def reg)
    have fits: "\<forall>b\<in>set (ft_chain ft1). \<not> ?reg b" "distinct (ft_chain ft1)" using n(4) by (simp_all add: chain_fits_def)
    have img: "?img = link_image ?es (ft_chain ft1) link" using n(6,8) Some link(2) total(1) by (auto simp: link_image_def algebra_simps)
    have "links_written ?es (ft_chain ft1) (on_disk io) (link + 1)" if fin
    proof -
      have old: "links_written ?es (ft_chain ft1) (on_disk (tv_io vol)) link" using written links_written_append n(5) by metis
      have "on_disk io (ft_chain ft1 ! k) = (if k = link then ?img else on_disk (tv_io vol) (ft_chain ft1 ! k))" if "k < length (ft_chain ft1)" for k
        using that w(4) fits lk \<open>fin\<close> nth_eq_iff_index_eq [OF fits(2)] by (simp add: all_set_conv_all_nth)
      then show ?thesis using old lk n(8) Some img link(2) total(1) by (auto simp: links_written_def less_Suc_eq algebra_simps)
    qed
    then show ?thesis using round tok reg n(5-9) Some w(5) by (auto simp: table_env_works_def)
  qed
qed


text \<open>There are blocks for the whole table.\<close>

definition room_for :: "FileTable \<Rightarrow> SpaceState \<Rightarrow> bool" where
  "room_for ft sp \<longleftrightarrow> (\<forall>k. TAGFS_FTABLE_PER_BLOCK * k < length (ft_entries ft) \<longrightarrow> k < length (ft_chain ft) + card (free_set sp))"

lemma flush_table_works:
  assumes "table_fits run ft vol" "link < length (ft_chain ft)" "off = TAGFS_FTABLE_PER_BLOCK * link"
    and "tot = length (ft_entries ft)" "off < tot" "links_written (ft_entries ft) (ft_chain ft) (on_disk (tv_io vol)) link"
  shows "\<exists>fin ft' vol'. flush_table env tot off link ft vol = Some (fin, ft', vol') \<and> table_fits run ft' vol' \<and>
    in_region (tv_io vol') = in_region (tv_io vol) \<and> (\<exists>ext. ft_chain ft' = ft_chain ft @ ext) \<and>
    ft_entries ft' = ft_entries ft \<and> ft_dirty ft' = ft_dirty ft \<and>
    (fin \<longrightarrow> (\<forall>m. links_written (ft_entries ft) (ft_chain ft') (on_disk (tv_io vol')) m)) \<and>
    (table_env_works env \<and> \<not> io_medium_left (tv_io vol) \<and> room_for ft (tv_space vol) \<longrightarrow> fin \<and> \<not> io_medium_left (tv_io vol'))"
  using assms
proof (induction "tot - off" arbitrary: off link ft vol rule: less_induct)
  case less
  let ?P = TAGFS_FTABLE_PER_BLOCK and ?es = "ft_entries ft"
  have P: "?P = 510" by (simp add: TAGFS_FTABLE_PER_BLOCK_def)
  obtain fin ft1 vol1 where r: "flush_round env tot off link ft vol = Some (fin, ft1, vol1)" "table_fits run ft1 vol1"
    "in_region (tv_io vol1) = in_region (tv_io vol)" "\<exists>ext. ft_chain ft1 = ft_chain ft @ ext"
    "ft_entries ft1 = ?es" "ft_dirty ft1 = ft_dirty ft"
    "fin \<longrightarrow> links_written ?es (ft_chain ft1) (on_disk (tv_io vol1)) (link + 1) \<and>
       (off + ?P < tot \<longrightarrow> link + 1 < length (ft_chain ft1)) \<and>
       length (ft_chain ft1) + card (free_set (tv_space vol1)) = length (ft_chain ft) + card (free_set (tv_space vol))"
    "table_env_works env \<and> \<not> io_medium_left (tv_io vol) \<and>
       (off + ?P < tot \<longrightarrow> link + 1 < length (ft_chain ft) + card (free_set (tv_space vol))) \<longrightarrow> fin \<and> \<not> io_medium_left (tv_io vol1)"
    using flush_round_works [OF less.prems(1-6), of env] by blast
  have works: "fin \<and> \<not> io_medium_left (tv_io vol1)"
    if "table_env_works env" "\<not> io_medium_left (tv_io vol)" "room_for ft (tv_space vol)"
  proof -
    have "off + ?P = ?P * (link + 1)" using less.prems(3) by (simp add: algebra_simps)
    then show ?thesis using r(8) that less.prems(4) unfolding room_for_def by metis
  qed
  note unfold = flush_table.simps [of env tot off link ft vol]
  show ?case
  proof (cases "fin \<and> off + ?P < tot")
    case True
    have eq: "flush_table env tot off link ft vol = flush_table env tot (off + ?P) (link + 1) ft1 vol1"
    proof -
      have "min (tot - off) ?P = ?P" using True by auto
      then show ?thesis using True less.prems(5) r(1) by (subst unfold) simp
    qed
    have room: "room_for ft (tv_space vol) \<Longrightarrow> room_for ft1 (tv_space vol1)" using r(5,7) True by (simp add: room_for_def)
    have pre: "tot - (off + ?P) < tot - off" "link + 1 < length (ft_chain ft1)" "off + ?P = ?P * (link + 1)" "tot = length (ft_entries ft1)"
      "links_written (ft_entries ft1) (ft_chain ft1) (on_disk (tv_io vol1)) (link + 1)"
      using True r(5,7) less.prems(3,4) P by (auto simp: algebra_simps)
    obtain fin' ft2 vol2 where q: "flush_table env tot (off + ?P) (link + 1) ft1 vol1 = Some (fin', ft2, vol2)" "table_fits run ft2 vol2"
      "in_region (tv_io vol2) = in_region (tv_io vol1)" "\<exists>ext. ft_chain ft2 = ft_chain ft1 @ ext"
      "ft_entries ft2 = ft_entries ft1" "ft_dirty ft2 = ft_dirty ft1"
      "fin' \<longrightarrow> (\<forall>m. links_written (ft_entries ft1) (ft_chain ft2) (on_disk (tv_io vol2)) m)"
      "table_env_works env \<and> \<not> io_medium_left (tv_io vol1) \<and> room_for ft1 (tv_space vol1) \<longrightarrow> fin' \<and> \<not> io_medium_left (tv_io vol2)"
      using less.hyps [OF pre(1) r(2) pre(2,3,4) _ pre(5)] True by blast
    show ?thesis using eq q r(3-6) works room by auto
  next
    case False
    have "flush_table env tot off link ft vol = Some (fin, ft1, vol1)"
    proof (cases fin)
      case True
      then have "off + min (tot - off) ?P = tot" using False less.prems(5) by auto
      then show ?thesis using True r(1) less.prems(5) by (subst unfold) (simp add: flush_table.simps [of env tot tot])
    qed (use r(1) less.prems(5) in \<open>subst unfold, simp\<close>)
    moreover have "links_written ?es (ft_chain ft1) (on_disk (tv_io vol1)) m" if fin for m
    proof -
      have "k \<le> link" if "?P * k < length ?es" for k
        using False \<open>fin\<close> that less.prems(3,4) unfolding P by simp
      then show ?thesis using r(7) that by (auto simp: links_written_def less_Suc_eq_le)
    qed
    ultimately show ?thesis using r(2-6) works by auto
  qed
qed

section \<open>Mounting the table\<close>

lemma grow_entries:
  assumes "table_env_works env" "length es = n" "ft_entries ft = es"
  shows "table_grow_to env (n + k) ft = (True, ft\<lparr>ft_entries := es @ replicate k no_place\<rparr>)"
  using assms by (cases k) (simp_all add: table_grow_to_def table_env_works_def)

text \<open>One block of the chain joins the table.\<close>

lemma adopt_works:
  assumes env: "table_env_works env" and ft: "ft_entries ft = take (TAGFS_FTABLE_PER_BLOCK * k) es" "length (ft_chain ft) = k"
      "k \<le> ft_chain_cap ft" and k: "TAGFS_FTABLE_PER_BLOCK * k < length es" "length es + TAGFS_FTABLE_PER_BLOCK < 2 ^ 32"
    and fb: "fb = chunk_block es (TAGFS_FTABLE_PER_BLOCK * k) nxt"
  shows "\<exists>cap. adopt_block env b fb ft = Some (True, ft\<lparr>ft_chain := ft_chain ft @ [b], ft_chain_cap := cap,
      ft_entries := take (TAGFS_FTABLE_PER_BLOCK * (k + 1)) es @ replicate (TAGFS_FTABLE_PER_BLOCK * (k + 1) - length es) no_place\<rparr>) \<and> k + 1 \<le> cap"
proof -
  let ?P = TAGFS_FTABLE_PER_BLOCK let ?m = "?P * k" let ?new = "take ?P (drop ?m es)"
  have P: "?P = 510" by (simp add: TAGFS_FTABLE_PER_BLOCK_def)
  have small: "?m + ?P < 2 ^ 32" "k < 2 ^ 31" using k unfolding P by simp_all
  then have off: "u32_wrap (length (ft_chain ft) * ?P) = ?m" "u32_wrap (?m + ?P) = ?m + ?P" using ft(2) by (simp_all add: mult.commute)
  obtain cap where c: "ft_chain_append env b ft = Some (True, ft\<lparr>ft_chain := ft_chain ft @ [b], ft_chain_cap := cap\<rparr>)" "k + 1 \<le> cap"
    using chain_append_works [of ft env b] ft small(2) env by (auto simp: table_env_works_def)
  let ?ft1 = "ft\<lparr>ft_chain := ft_chain ft @ [b], ft_chain_cap := cap\<rparr>"
  have len: "length (take ?m es) = ?m" using k(1) by simp
  have g: "table_grow_to env (?m + ?P) ?ft1 = (True, ?ft1\<lparr>ft_entries := take ?m es @ replicate ?P no_place\<rparr>)"
    by (rule grow_entries [OF env len]) (simp add: ft(1))
  have "adopt_block env b fb ft = map_option (Pair True) (copy_entries ?m ?new (?ft1\<lparr>ft_entries := take ?m es @ replicate ?P no_place\<rparr>))"
    unfolding adopt_block_def Let_def off c(1) by (simp add: g fb chunk_entries)
  moreover have "copy_entries ?m ?new (?ft1\<lparr>ft_entries := take ?m es @ replicate ?P no_place\<rparr>) =
      Some (?ft1\<lparr>ft_entries := take ?m es @ ?new @ replicate (?P - length ?new) no_place\<rparr>)"
    using len k(1) by (simp add: copy_entries_def min_def)
  moreover have "take ?m es @ ?new = take (?P * (k + 1)) es" 
    using take_add [of ?m ?P es] by (simp add: add.commute)
  moreover have "?P - length ?new = ?P * (k + 1) - length es" using k(1) by (simp add: min_def)
  ultimately show ?thesis using c(2) by (auto simp flip: append_assoc)
qed


text \<open>One round of the loop, at a link whose block was written.\<close>

lemma init_round:
  assumes "table_env_works env" "chain_fits run (in_region io) chain free" "links_written es chain (on_disk io) (k + 1)"
    and "length es + TAGFS_FTABLE_PER_BLOCK < 2 ^ 32" "sound io" "\<not> io_medium_left io" "TAGFS_FTABLE_PER_BLOCK * k < length es"
    and "ft_entries ft = take (TAGFS_FTABLE_PER_BLOCK * k) es" "ft_chain ft = take k chain" "k \<le> ft_chain_cap ft" "run < 2 ^ 31"
  obtains cap io1 where "keeps io io1" "\<not> io_medium_left io1" "k + 1 \<le> cap" "k < length chain"
    "init_loop env run (chain ! k) k ft io =
      (let ft1 = ft\<lparr>ft_chain := take (k + 1) chain, ft_chain_cap := cap, ft_entries := take (TAGFS_FTABLE_PER_BLOCK * (k + 1)) es @
             replicate (TAGFS_FTABLE_PER_BLOCK * (k + 1) - length es) no_place\<rparr>
       in if TAGFS_FTABLE_PER_BLOCK * (k + 1) < length es then init_loop env run (chain ! (k + 1)) (k + 1) ft1 io1 else Some (True, ft1, io1))"
    "TAGFS_FTABLE_PER_BLOCK * (k + 1) < length es \<Longrightarrow> k + 1 < length chain"
proof -
  let ?P = TAGFS_FTABLE_PER_BLOCK and ?b = "chain ! k"
  let ?nxt = "if ?P * (k + 1) < length es then chain ! (k + 1) else 0"
  have img: "on_disk io ?b = file_block_bytes (chunk_block es (?P * k) ?nxt)" "?P * (k + 1) < length es \<longrightarrow> k + 1 < length chain" "k < length chain"
    using assms(3,7) by (simp_all add: links_written_def link_image_def)
  have fits: "\<forall>b\<in>set chain. b < run" "0 \<notin> set (tl chain)" "length chain \<le> run"
    using assms(2) chain_fits_length [OF assms(2)] by (auto simp: chain_fits_def)
  have ew: "env_works (te_io env k)" using assms(1) by (simp add: table_env_works_def)
  obtain res io1 where rd: "read_block (te_io env k) ?b io = Some (res, io1)" "keeps io io1" "\<forall>data. res = Some data \<longrightarrow> data = on_disk io ?b"
    "res \<noteq> None" "\<not> io_medium_left io1"
    using read_block_sound [OF assms(5), of "te_io env k" ?b] ew assms(6) by blast
  have "res = Some (on_disk io ?b)" using rd(3,4) by (cases res) simp_all
  then have read: "tagfs_read_block (te_io env k) ?b io = Some (Inr (file_block_bytes (chunk_block es (?P * k) ?nxt)), io1)"
    unfolding tagfs_read_block_def rd(1) img(1) [symmetric] by simp
  obtain cap where ad: "adopt_block env ?b (chunk_block es (?P * k) ?nxt) ft = Some (True, ft\<lparr>ft_chain := ft_chain ft @ [?b], ft_chain_cap := cap,
      ft_entries := take (?P * (k + 1)) es @ replicate (?P * (k + 1) - length es) no_place\<rparr>)" "k + 1 \<le> cap"
    using adopt_works [OF assms(1,8) _ assms(10,7,4) refl, of ?b ?nxt] assms(9) img(3) by auto
  have chain: "ft_chain ft @ [?b] = take (k + 1) chain" using assms(9) img(3) by (simp add: take_Suc_conv_app_nth)
  let ?ft1 = "ft\<lparr>ft_chain := take (k + 1) chain, ft_chain_cap := cap,
      ft_entries := take (?P * (k + 1)) es @ replicate (?P * (k + 1) - length es) no_place\<rparr>"
  have ad1: "adopt_block env ?b (chunk_block es (?P * k) ?nxt) ft = Some (True, ?ft1)" using ad(1) unfolding chain .
  have fb: "file_block_of (file_block_bytes (chunk_block es (?P * k) ?nxt)) = chunk_block es (?P * k) ?nxt"
    by (rule file_block_round_trip) simp
  have run: "\<not> run \<le> ?b" using fits(1) nth_mem [OF img(3)] by (simp add: linorder_not_le)
  have step: "init_loop env run ?b k ft io =
    (if (of_nat ?nxt :: u32) = 0 then Some (True, ?ft1, io1)
     else if run \<le> k + 1 then Some (False, table_release ?ft1, io1) else init_loop env run (unat (of_nat ?nxt :: u32)) (k + 1) ?ft1 io1)"
    unfolding init_loop.simps [of env run ?b] read Let_def fb option.case prod.case sum.case ad1
    by (simp only: run if_False chunk_block_simps not_True_eq_False simp_thms bool.case)
  have "init_loop env run ?b k ft io = (if ?P * (k + 1) < length es then init_loop env run (chain ! (k + 1)) (k + 1) ?ft1 io1 else Some (True, ?ft1, io1))"
  proof (cases "?P * (k + 1) < length es")
    case True
    have next_in: "k + 1 < length chain" "chain ! (k + 1) \<in> set (tl chain)"
      using img(2) True by (auto simp: in_set_conv_nth nth_tl intro!: exI [of _ k])
    have "chain ! (k + 1) < run" using fits(1) nth_mem [OF next_in(1)] by blast
    then have nz: "chain ! (k + 1) \<noteq> 0" "chain ! (k + 1) < 2 ^ 32" using next_in(2) fits(2) assms(11) by (metis, simp)
    then have u: "unat (of_nat (chain ! (k + 1)) :: u32) = chain ! (k + 1)" by (simp add: unat_of_nat take_bit_eq_mod)
    then have "(of_nat (chain ! (k + 1)) :: u32) \<noteq> 0" using nz(1) by (metis unat_0)
    then show ?thesis using step True u next_in(1) fits(3) by simp
  qed (use step in simp)
  then show thesis using that [OF rd(2,5) ad(2) img(3)] img(2) by (simp add: Let_def)
qed

lemma init_loop_works:
  assumes "table_env_works env" "run < 2 ^ 31" "chain_fits run (in_region io) chain free" "\<forall>m. links_written es chain (on_disk io) m"
    and "length es + TAGFS_FTABLE_PER_BLOCK < 2 ^ 32" "sound io" "\<not> io_medium_left io" "TAGFS_FTABLE_PER_BLOCK * k < length es"
    and "ft_entries ft = take (TAGFS_FTABLE_PER_BLOCK * k) es" "ft_chain ft = take k chain" "k \<le> ft_chain_cap ft"
  shows "\<exists>n cap z io'. init_loop env run (chain ! k) k ft io =
      Some (True, ft\<lparr>ft_chain := take n chain, ft_chain_cap := cap, ft_entries := es @ replicate z no_place\<rparr>, io') \<and>
    0 < n \<and> n \<le> length chain \<and> n \<le> cap \<and> keeps io io'"
  using assms
proof (induction "length es - k" arbitrary: k ft io rule: less_induct)
  case less
  let ?P = TAGFS_FTABLE_PER_BLOCK
  have wr0: "links_written es chain (on_disk io) (k + 1)" using less.prems(4) by simp
  obtain cap io1 where r: "keeps io io1" "\<not> io_medium_left io1" "k + 1 \<le> cap" "k < length chain"
    "init_loop env run (chain ! k) k ft io =
      (let ft1 = ft\<lparr>ft_chain := take (k + 1) chain, ft_chain_cap := cap, ft_entries := take (?P * (k + 1)) es @
             replicate (?P * (k + 1) - length es) no_place\<rparr>
       in if ?P * (k + 1) < length es then init_loop env run (chain ! (k + 1)) (k + 1) ft1 io1 else Some (True, ft1, io1))"
    using init_round [OF less.prems(1,3) wr0 less.prems(5-11,2)] by blast
  let ?ft1 = "ft\<lparr>ft_chain := take (k + 1) chain, ft_chain_cap := cap, ft_entries := take (?P * (k + 1)) es @
             replicate (?P * (k + 1) - length es) no_place\<rparr>"
  show ?case
  proof (cases "?P * (k + 1) < length es")
    case False
    then have "init_loop env run (chain ! k) k ft io = Some (True, ?ft1, io1)" "take (?P * (k + 1)) es = es" using r(5) by simp_all
    then show ?thesis using r(1,3,4)
      by (intro exI [of _ "k + 1"] exI [of _ cap] exI [of _ "?P * (k + 1) - length es"] exI [of _ io1]) simp
  next
    case True
    then have rec: "init_loop env run (chain ! k) k ft io = init_loop env run (chain ! (k + 1)) (k + 1) ?ft1 io1" using r(5) by (simp add: Let_def)
    have kp: "sound io1" "in_region io1 = in_region io" "\<forall>b. \<not> in_region io b \<longrightarrow> on_disk io1 b = on_disk io b"
      using r(1) same_map_region by (auto simp: keeps_def fun_eq_iff)
    have "\<forall>b\<in>set chain. \<not> in_region io b" using less.prems(3) by (simp add: chain_fits_def)
    then have wr: "\<forall>m. links_written es chain (on_disk io1) m"
      using less.prems(4) kp(3) links_written_frame [of es chain "on_disk io" _ "on_disk io1"] by blast
    have lt: "length es - (k + 1) < length es - k" using less.prems(8) by (simp add: TAGFS_FTABLE_PER_BLOCK_def)
    have f1: "chain_fits run (in_region io1) chain free" using less.prems(3) kp(2) by simp
    have e1: "ft_entries ?ft1 = take (?P * (k + 1)) es" "ft_chain ?ft1 = take (k + 1) chain" "k + 1 \<le> ft_chain_cap ?ft1" using True r(3) by simp_all
    obtain n cap' z io' where q: "init_loop env run (chain ! (k + 1)) (k + 1) ?ft1 io1 =
      Some (True, ?ft1\<lparr>ft_chain := take n chain, ft_chain_cap := cap', ft_entries := es @ replicate z no_place\<rparr>, io')"
      "0 < n" "n \<le> length chain" "n \<le> cap'" "keeps io1 io'"
      using less.hyps [OF lt less.prems(1,2) f1 wr less.prems(5) kp(1) r(2) True e1] by blast
    then show ?thesis using rec keeps_trans [OF r(1) q(5)]
      by (intro exI [of _ n] exI [of _ cap'] exI [of _ z] exI [of _ io']) simp
  qed
qed

section \<open>Flushed and mounted again\<close>

lemma lookup_padded: "ft_entries ft' = ft_entries ft @ replicate z no_place \<Longrightarrow> file_table_lookup i ft' = file_table_lookup i ft"
  by (auto simp: file_table_lookup_def Let_def nth_append no_place_def)

text \<open>C14. A flushed table is found again: on a volume in order flushing a changed table always ends, and succeeds when
  the accesses work, there is memory, and there are free blocks for a table that has grown. Whenever it reports success, whatever
  failed before, a mount from the first block of the chain on the volume as the flush left it succeeds and finds the same
  place for every file.\<close>

theorem file_table_survives_mount:
  assumes "table_fits run ft vol" "ft_dirty ft" "ft_entries ft \<noteq> []" "length (ft_entries ft) + TAGFS_FTABLE_PER_BLOCK < 2 ^ 32"
  shows "\<exists>fin ft' vol'. file_table_flush env ft vol = Some (fin, ft', vol') \<and> table_fits run ft' vol' \<and> in_region (tv_io vol') = in_region (tv_io vol) \<and>
    (table_env_works env \<and> \<not> io_medium_left (tv_io vol) \<and> room_for ft (tv_space vol) \<longrightarrow> fin \<and> \<not> io_medium_left (tv_io vol')) \<and>
    (fin \<longrightarrow> \<not> ft_dirty ft' \<and> (\<forall>env' ft0 io. table_env_works env' \<and> sound io \<and> \<not> io_medium_left io \<and>
       in_region io = in_region (tv_io vol) \<and> (\<forall>b. \<not> in_region io b \<longrightarrow> on_disk io b = on_disk (tv_io vol') b) \<longrightarrow>
       (\<exists>ft2 io2. file_table_init env' run (hd (ft_chain ft)) ft0 io = Some (True, ft2, io2) \<and>
          (\<forall>i. file_table_lookup i ft2 = file_table_lookup i ft) \<and> table_fits run ft2 (vol'\<lparr>tv_io := io2\<rparr>))))"
proof -
  let ?es = "ft_entries ft"
  have t: "run < 2 ^ 31" "ft_chain ft \<noteq> []" using assms(1) by (simp_all add: table_fits_def chain_fits_def)
  have pre: "0 < length (ft_chain ft)" "0 = TAGFS_FTABLE_PER_BLOCK * 0" "0 < length ?es" "links_written ?es (ft_chain ft) (on_disk (tv_io vol)) 0"
    using t(2) assms(3) by (simp_all add: links_written_def)
  obtain fin ft1 vol' where f: "flush_table env (length ?es) 0 0 ft vol = Some (fin, ft1, vol')" "table_fits run ft1 vol'"
    "in_region (tv_io vol') = in_region (tv_io vol)" "\<exists>ext. ft_chain ft1 = ft_chain ft @ ext" "ft_entries ft1 = ?es"
    "fin \<longrightarrow> (\<forall>m. links_written ?es (ft_chain ft1) (on_disk (tv_io vol')) m)"
    "table_env_works env \<and> \<not> io_medium_left (tv_io vol) \<and> room_for ft (tv_space vol) \<longrightarrow> fin \<and> \<not> io_medium_left (tv_io vol')"
    using flush_table_works [OF assms(1) pre(1,2) refl pre(3,4), of env] by blast
  have flush: "file_table_flush env ft vol = Some (fin, if fin then ft1\<lparr>ft_dirty := False\<rparr> else ft1, vol')"
    using assms(2) f(1) by (simp add: file_table_flush_def)
  have fits: "chain_fits run (in_region (tv_io vol)) (ft_chain ft1) (free_set (tv_space vol'))" "space_whole (tv_space vol')"
    using f(2,3) by (simp_all add: table_fits_def)
  have mount: "\<exists>ft2 io2. file_table_init env' run (hd (ft_chain ft)) ft0 io = Some (True, ft2, io2) \<and>
      (\<forall>i. file_table_lookup i ft2 = file_table_lookup i ft) \<and> table_fits run ft2 (vol'\<lparr>tv_io := io2\<rparr>)"
    if "fin" "table_env_works env'" "sound io" "\<not> io_medium_left io" "in_region io = in_region (tv_io vol)"
      "\<forall>b. \<not> in_region io b \<longrightarrow> on_disk io b = on_disk (tv_io vol') b" for env' ft0 io
  proof -
    let ?ft = "(table_release ft0)\<lparr>ft_dirty := False\<rparr>"
    note h = that
    have "on_disk io b = on_disk (tv_io vol') b" if "b \<in> set (ft_chain ft1)" for b
      using fits(1) that h(5,6) by (simp add: chain_fits_def)
    then have wr: "\<forall>m. links_written ?es (ft_chain ft1) (on_disk io) m"
      using f(6) h(1) links_written_frame by blast
    have cf: "chain_fits run (in_region io) (ft_chain ft1) (free_set (tv_space vol'))" using fits(1) h(5) by simp
    have start: "TAGFS_FTABLE_PER_BLOCK * 0 < length ?es" "ft_entries ?ft = take (TAGFS_FTABLE_PER_BLOCK * 0) ?es"
      "ft_chain ?ft = take 0 (ft_chain ft1)" "0 \<le> ft_chain_cap ?ft"
      using pre(1,3) f(4) by (auto simp: table_release_def ft_chain_release_def)
    obtain n cap z io2 where i: "init_loop env' run (ft_chain ft1 ! 0) 0 ?ft io =
        Some (True, ?ft\<lparr>ft_chain := take n (ft_chain ft1), ft_chain_cap := cap, ft_entries := ?es @ replicate z no_place\<rparr>, io2)"
      "0 < n" "n \<le> length (ft_chain ft1)" "n \<le> cap" "keeps io io2"
      using init_loop_works [OF h(2) t(1) cf wr assms(4) h(3,4) start] by blast
    let ?ft2 = "?ft\<lparr>ft_chain := take n (ft_chain ft1), ft_chain_cap := cap, ft_entries := ?es @ replicate z no_place\<rparr>"
    have "ft_chain ft1 ! 0 = hd (ft_chain ft)" using f(4) t(2) by (auto simp: hd_conv_nth nth_append)
    moreover have "run \<noteq> 0" using fits(1) by (auto simp: chain_fits_def neq_Nil_conv)
    ultimately have "file_table_init env' run (hd (ft_chain ft)) ft0 io = Some (True, ?ft2, io2)"
      using i(1) by (simp add: file_table_init_def)
    moreover have "file_table_lookup j ?ft2 = file_table_lookup j ft" for j
      by (rule lookup_padded [of _ _ z]) simp
    moreover have "in_region io2 = in_region io" "sound io2" using i(5) same_map_region by (auto simp: keeps_def fun_eq_iff)
    moreover have "chain_fits run (in_region io) (take n (ft_chain ft1)) (free_set (tv_space vol'))"
      using cf i(2) by (auto simp: chain_fits_def tl_take dest!: in_set_takeD)
    ultimately show ?thesis using t(1) i(2-4) fits(2) by (auto simp: table_fits_def)
  qed
  have "table_fits run (if fin then ft1\<lparr>ft_dirty := False\<rparr> else ft1) vol'" using f(2) by (simp add: table_fits_def)
  then show ?thesis using flush f(3,7) mount by auto
qed


text \<open>A table that has outgrown its single block, on a volume of sixteen blocks.\<close>

definition grown_table :: FileTable where
  "grown_table = \<lparr>ft_entries = replicate 600 \<lparr>fte_block = 5, fte_offset = 9\<rparr>, ft_dirty = True, ft_chain = [5], ft_chain_cap = 8\<rparr>"

definition grown_volume :: TableVolume where
  "grown_volume = \<lparr>tv_io = one_disk, tv_space = small_space\<rparr>"

definition table_env :: TableEnv where
  "table_env = \<lparr>te_chain = \<lambda>_. True, te_array = \<lambda>_. True, te_door = True, te_io = \<lambda>_. good_env\<rparr>"

lemma grown_table_fits: "table_fits 16 grown_table grown_volume" "room_for grown_table small_space" "table_env_works table_env"
  "\<not> io_medium_left one_disk" "sound one_disk"
proof -
  show so: "sound one_disk" "\<not> io_medium_left one_disk" using one_disk_healthy(1) by (simp_all add: healthy_def)
  have fits: "chain_fits 16 (in_region one_disk) [5] ({2..<5} \<union> {6..<16})"
    unfolding one_disk_healthy(2) by (auto simp: chain_fits_def fresh_map_ok)
  show "table_fits 16 grown_table grown_volume"
    using so(1) small_whole fits by (simp add: table_fits_def grown_table_def grown_volume_def small_free)
  have "card ({2..<5} \<union> {6..<16::nat}) = 13" by (subst card_Un_disjoint) auto
  then show "room_for grown_table small_space"
    by (simp add: room_for_def grown_table_def small_free TAGFS_FTABLE_PER_BLOCK_def)
  show "table_env_works table_env" by (simp add: table_env_works_def table_env_def good_env_works)
qed

lemma grown_table_facts: "length (ft_entries grown_table) = 600" "file_table_lookup 599 grown_table = Some (5, 9)"
  "hd (ft_chain grown_table) = 5" "ft_dirty grown_table" "ft_entries grown_table \<noteq> []"
  by (simp_all add: grown_table_def file_table_lookup_def)

theorem file_table_is_map_witness:
  "\<exists>ok ft'. file_table_update table_env 700 8 1 grown_table = Some (ok, ft') \<and> ok \<and> file_table_lookup 700 ft' = Some (8, 1) \<and>
    file_table_lookup 599 ft' = Some (5, 9)"
proof -
  have len: "length (ft_entries grown_table) < 2 ^ 32" by (simp add: grown_table_facts)
  obtain ok ft' where u: "file_table_update table_env 700 8 1 grown_table = Some (ok, ft')" "te_array table_env = (\<lambda>_. True) \<longrightarrow> ok"
    "\<forall>i. file_table_lookup i ft' = (if ok \<and> i = 700 then if (8::u32) = 0 then None else Some (8, 1) else file_table_lookup i grown_table)"
    using file_table_is_map [OF _ len, of 700 table_env 8 1] by auto
  have "ok" using u(2) by (simp add: table_env_def)
  then show ?thesis using u(1,3) grown_table_facts(2) by auto
qed

theorem file_table_survives_mount_witness:
  "\<exists>ft' vol' ft2 io2. file_table_flush table_env grown_table grown_volume = Some (True, ft', vol') \<and>
    file_table_init table_env 16 5 grown_table (tv_io vol') = Some (True, ft2, io2) \<and> file_table_lookup 599 ft2 = Some (5, 9)"
proof -
  have pre: "ft_dirty grown_table" "ft_entries grown_table \<noteq> []" "length (ft_entries grown_table) + TAGFS_FTABLE_PER_BLOCK < 2 ^ 32"
    by (simp_all add: grown_table_facts TAGFS_FTABLE_PER_BLOCK_def)
  obtain fin ft' vol' where f: "file_table_flush table_env grown_table grown_volume = Some (fin, ft', vol')" "table_fits 16 ft' vol'"
    "in_region (tv_io vol') = in_region (tv_io grown_volume)"
    "table_env_works table_env \<and> \<not> io_medium_left (tv_io grown_volume) \<and> room_for grown_table (tv_space grown_volume) \<longrightarrow>
       fin \<and> \<not> io_medium_left (tv_io vol')"
    "fin \<longrightarrow> \<not> ft_dirty ft' \<and> (\<forall>env' ft0 io. table_env_works env' \<and> sound io \<and> \<not> io_medium_left io \<and>
       in_region io = in_region (tv_io grown_volume) \<and> (\<forall>b. \<not> in_region io b \<longrightarrow> on_disk io b = on_disk (tv_io vol') b) \<longrightarrow>
       (\<exists>ft2 io2. file_table_init env' 16 (hd (ft_chain grown_table)) ft0 io = Some (True, ft2, io2) \<and>
          (\<forall>i. file_table_lookup i ft2 = file_table_lookup i grown_table) \<and> table_fits 16 ft2 (vol'\<lparr>tv_io := io2\<rparr>)))"
    using file_table_survives_mount [OF grown_table_fits(1) pre, of table_env] by (elim exE conjE) (rule that; assumption)
  have fin: fin "\<not> io_medium_left (tv_io vol')" using f(4) grown_table_fits by (simp_all add: grown_volume_def)
  have so: "sound (tv_io vol')" using f(2) by (simp add: table_fits_def)
  have "\<exists>ft2 io2. file_table_init table_env 16 (hd (ft_chain grown_table)) grown_table (tv_io vol') = Some (True, ft2, io2) \<and>
      (\<forall>i. file_table_lookup i ft2 = file_table_lookup i grown_table) \<and> table_fits 16 ft2 (vol'\<lparr>tv_io := io2\<rparr>)"
    by (rule mp [OF spec [OF spec [OF spec [OF conjunct2 [OF mp [OF f(5) fin(1)]]]]]]) (simp add: grown_table_fits(3) so fin(2) f(3))
  then have "\<exists>ft2 io2. file_table_init table_env 16 5 grown_table (tv_io vol') = Some (True, ft2, io2) \<and> file_table_lookup 599 ft2 = Some (5, 9)"
    unfolding grown_table_facts(3) using grown_table_facts(2) by metis
  then show ?thesis using f(1) fin(1) by auto
qed

section \<open>A defect\<close>

text \<open>
  A block is written with the link to the next one before that one is written. When the volume is lost between the two
  writes, and the new block does not happen to hold a block of a table, the next mount is refused.
\<close>

lemma init_at_foreign_block:
  assumes "table_env_works env" "sound io" "\<not> io_medium_left io" "block < run" "ftb_magic (file_block_of (on_disk io block)) \<noteq> TAGFS_FILETBL_MAGIC"
  shows "\<exists>ft' io'. init_loop env run block hops ft io = Some (False, ft', io')"
proof -
  have "env_works (te_io env hops)" using assms(1) by (simp add: table_env_works_def)
  then obtain io' where "read_block (te_io env hops) block io = Some (Some (on_disk io block), io')"
    using read_block_sound [OF assms(2), of "te_io env hops" block] assms(3) by auto
  then show ?thesis using assms(4,5) by (subst init_loop.simps) (simp add: tagfs_read_block_def)
qed

lemma crash_in_flush_refuses_mount:
  assumes ok: "table_fits run ft vol" and es: "TAGFS_FTABLE_PER_BLOCK < length (ft_entries ft)" "length (ft_entries ft) + TAGFS_FTABLE_PER_BLOCK < 2 ^ 32"
    and round: "flush_round env (length (ft_entries ft)) 0 0 ft vol = Some (True, ft1, vol1)"
    and foreign: "ftb_magic (file_block_of (on_disk (tv_io vol1) (ft_chain ft1 ! 1))) \<noteq> TAGFS_FILETBL_MAGIC"
    and env': "table_env_works env'" "\<not> io_medium_left (tv_io vol1)"
  shows "\<exists>ft2 io2. file_table_init env' run (hd (ft_chain ft)) ft0 (tv_io vol1) = Some (False, ft2, io2)"
proof -
  let ?es = "ft_entries ft" and ?ft = "(table_release ft0)\<lparr>ft_dirty := False\<rparr>"
  have ne: "ft_chain ft \<noteq> []" "run < 2 ^ 31" using ok by (simp_all add: table_fits_def chain_fits_def)
  have pre: "0 < length (ft_chain ft)" "0 = TAGFS_FTABLE_PER_BLOCK * 0" "0 < length ?es" "links_written ?es (ft_chain ft) (on_disk (tv_io vol)) 0"
    using ne(1) es(1) by (simp_all add: links_written_def) (use es(1) in force)
  have r: "table_fits run ft1 vol1" "\<exists>ext. ft_chain ft1 = ft_chain ft @ ext" "links_written ?es (ft_chain ft1) (on_disk (tv_io vol1)) (0 + 1)"
    "0 + 1 < length (ft_chain ft1)"
    using flush_round_works [OF ok pre(1,2) refl pre(3,4), of env] round es(1) by auto
  have fits: "chain_fits run (in_region (tv_io vol1)) (ft_chain ft1) (free_set (tv_space vol1))" "sound (tv_io vol1)"
    using r(1) by (simp_all add: table_fits_def)
  have start: "TAGFS_FTABLE_PER_BLOCK * 0 < length ?es" "ft_entries ?ft = take (TAGFS_FTABLE_PER_BLOCK * 0) ?es"
    "ft_chain ?ft = take 0 (ft_chain ft1)" "0 \<le> ft_chain_cap ?ft"
    using pre(3) by (simp_all add: table_release_def ft_chain_release_def)
  obtain cap io1 where i: "keeps (tv_io vol1) io1" "\<not> io_medium_left io1"
    "\<exists>ft2. init_loop env' run (ft_chain ft1 ! 0) 0 ?ft (tv_io vol1) = init_loop env' run (ft_chain ft1 ! 1) 1 ft2 io1"
    by (rule init_round [OF env'(1) fits(1) r(3) es(2) fits(2) env'(2) start ne(2)]) (use es(1) in \<open>auto simp: Let_def\<close>)
  have b: "ft_chain ft1 ! 1 \<in> set (ft_chain ft1)" using r(4) by simp
  then have b1: "ft_chain ft1 ! 1 < run" "\<not> in_region (tv_io vol1) (ft_chain ft1 ! 1)" using fits(1) by (simp_all add: chain_fits_def)
  have "on_disk io1 (ft_chain ft1 ! 1) = on_disk (tv_io vol1) (ft_chain ft1 ! 1)" "sound io1" using i(1) b1(2) by (simp_all add: keeps_def)
  then have "\<exists>ft2 io2. init_loop env' run (ft_chain ft1 ! 0) 0 ?ft (tv_io vol1) = Some (False, ft2, io2)"
    using init_at_foreign_block [OF env'(1) _ i(2) b1(1)] foreign i(3) by metis
  moreover have "ft_chain ft1 ! 0 = hd (ft_chain ft)" using r(2) ne(1) by (auto simp: hd_conv_nth nth_append)
  moreover have "run \<noteq> 0" using b1(1) by simp
  ultimately show ?thesis by (simp add: file_table_init_def)
qed

end
