(* ===== verification/TagRegistryDisk.thy ===== *)
theory TagRegistryDisk
  imports TagRegistry FileTable
begin

unbundle bit_operations_syntax

text \<open>
  The tag registry on the volume (tag\_registry\_flush and tag\_registry\_load of
  kernel/tagfs/tag\_registry/tag\_registry.c): a chain of blocks, each holding records of tags one
  after the other. As for the file table, the blocks go through the block layer of theory Integrity
  and new ones come from the allocator of theory BlockSpace. The numbers of the chain's blocks are
  kept in memory (\<^verbatim>\<open>g_chain\<close>). As in TagRegistry, \<open>None\<close> as the result of an operation is an access
  outside an array or a run that does not end.
\<close>

section \<open>Blocks and the chain\<close>

definition TAGFS_REGISTRY_MAGIC :: u32 where "TAGFS_REGISTRY_MAGIC = 0x54524547"
definition TAGFS_REGISTRY_DATA_SIZE :: nat where "TAGFS_REGISTRY_DATA_SIZE = 4080"

record TagRegistryBlock =
  rb_magic :: u32
  rb_next_block :: nat
  rb_entry_count :: nat
  rb_used_bytes :: nat
  rb_data :: bytes

definition registry_block_bytes :: "TagRegistryBlock \<Rightarrow> bytes" where
  "registry_block_bytes blk = le_put 4 (rb_magic blk) @ le_put 4 (of_nat (rb_next_block blk) :: u32) @
     le_put 2 (of_nat (rb_entry_count blk) :: u16) @ le_put 2 (of_nat (rb_used_bytes blk) :: u16) @ replicate 4 0 @ rb_data blk"

definition registry_block_of :: "bytes \<Rightarrow> TagRegistryBlock" where
  "registry_block_of buf = \<lparr>rb_magic = le_get (take 4 buf), rb_next_block = unat (le_get (take 4 (drop 4 buf)) :: u32),
     rb_entry_count = unat (le_get (take 2 (drop 8 buf)) :: u16), rb_used_bytes = unat (le_get (take 2 (drop 10 buf)) :: u16),
     rb_data = drop 16 buf\<rparr>"

text \<open>The chain with its capacity, and the volume below: its block layer and its free space.\<close>

record RegistryVolume =
  rv_chain :: "nat list"
  rv_chain_cap :: nat
  rv_io :: IoState
  rv_space :: SpaceState

text \<open>
  The outcomes that are not the program's: growing the chain at a given length, entering the volume to
  allocate, and the raw accesses for the block of a given link.
\<close>

record RegistryEnv =
  re_grow :: "nat \<Rightarrow> bool"
  re_door :: bool
  re_io :: "nat \<Rightarrow> IoEnv"

definition chain_release :: "RegistryVolume \<Rightarrow> RegistryVolume" where
  "chain_release vol = vol\<lparr>rv_chain := [], rv_chain_cap := 0\<rparr>"

definition chain_append :: "RegistryEnv \<Rightarrow> RegistryVolume \<Rightarrow> nat \<Rightarrow> (bool \<times> RegistryVolume) option" where
  "chain_append env vol block =
     (let n = length (rv_chain vol) in
      if n = rv_chain_cap vol then
        (let cap = (if rv_chain_cap vol \<noteq> 0 then u32_wrap (rv_chain_cap vol * 2) else 8)
         in if \<not> re_grow env n then Some (False, vol)
            else if n < cap then Some (True, vol\<lparr>rv_chain := rv_chain vol @ [block], rv_chain_cap := cap\<rparr>)
            else None)
      else Some (True, vol\<lparr>rv_chain := rv_chain vol @ [block]\<rparr>))"

section \<open>Writing the registry\<close>

definition empty_block :: TagRegistryBlock where
  "empty_block = \<lparr>rb_magic = TAGFS_REGISTRY_MAGIC, rb_next_block = 0, rb_entry_count = 0, rb_used_bytes = 0,
     rb_data = replicate TAGFS_REGISTRY_DATA_SIZE 0\<rparr>"

definition key_len :: "TagRegistryEntry \<Rightarrow> nat" where
  "key_len entry = length (te_key entry) mod 256"

definition value_len :: "TagRegistryEntry \<Rightarrow> nat" where
  "value_len entry = (case te_value entry of None \<Rightarrow> 0 | Some v \<Rightarrow> u16_wrap (length v))"

definition record_size :: "TagRegistryEntry \<Rightarrow> nat" where
  "record_size entry = 2 + 1 + 1 + 2 + key_len entry + value_len entry"

definition record_bytes :: "TagRegistryEntry \<Rightarrow> bytes" where
  "record_bytes entry =
     le_put 2 (of_nat (te_tag_id entry) :: u16) @ [te_flags entry, of_nat (key_len entry)] @
     le_put 2 (of_nat (value_len entry) :: u16) @ take (key_len entry) (te_key entry) @
     (if value_len entry > 0 then take (value_len entry) (the (te_value entry)) else [])"

record FlushState =
  fs_vol :: RegistryVolume
  fs_link :: nat
  fs_block :: nat
  fs_blk :: TagRegistryBlock
  fs_offset :: nat

definition put_record :: "FlushState \<Rightarrow> TagRegistryEntry \<Rightarrow> FlushState option" where
  "put_record st entry =
     (let size' = record_size entry; off = fs_offset st; data = rb_data (fs_blk st) in
      if off + size' > TAGFS_REGISTRY_DATA_SIZE then None
      else Some (st\<lparr>fs_offset := off + size',
                    fs_blk := (fs_blk st)\<lparr>rb_data := take off data @ record_bytes entry @ drop (off + size') data,
                       rb_entry_count := u16_wrap (rb_entry_count (fs_blk st) + 1), rb_used_bytes := u16_wrap (off + size')\<rparr>\<rparr>))"

text \<open>The block of the next link: the one the chain already has, else a new one.\<close>

definition next_link :: "RegistryEnv \<Rightarrow> RegistryVolume \<Rightarrow> nat \<Rightarrow> (nat option \<times> RegistryVolume) option" where
  "next_link env vol link =
     (if link + 1 < length (rv_chain vol) then Some (Some (rv_chain vol ! (link + 1)), vol)
      else case tagfs_alloc_blocks (re_door env) 1 (rv_space vol) of
        None \<Rightarrow> None
      | Some (None, sp) \<Rightarrow> Some (None, vol\<lparr>rv_space := sp\<rparr>)
      | Some (Some new_block, sp) \<Rightarrow>
          (case chain_append env (vol\<lparr>rv_space := sp\<rparr>) new_block of
             None \<Rightarrow> None
           | Some (ok, vol1) \<Rightarrow> Some (if ok then Some new_block else None, vol1)))"

definition put_block :: "RegistryEnv \<Rightarrow> nat \<Rightarrow> nat \<Rightarrow> TagRegistryBlock \<Rightarrow> RegistryVolume \<Rightarrow> (bool \<times> RegistryVolume) option" where
  "put_block env link block blk vol =
     map_option (\<lambda>(err, io). (err = OK, vol\<lparr>rv_io := io\<rparr>)) (tagfs_write_block (re_io env link) block (registry_block_bytes blk) (rv_io vol))"

text \<open>Finishing a full block: \<open>False\<close> is the error return.\<close>

definition next_block :: "RegistryEnv \<Rightarrow> FlushState \<Rightarrow> (bool \<times> FlushState) option" where
  "next_block env st = do {
     (new_block, vol) \<leftarrow> next_link env (fs_vol st) (fs_link st);
     case new_block of
       None \<Rightarrow> Some (False, st\<lparr>fs_vol := vol\<rparr>)
     | Some b \<Rightarrow> do {
         (ok, vol1) \<leftarrow> put_block env (fs_link st) (fs_block st) ((fs_blk st)\<lparr>rb_next_block := b\<rparr>) vol;
         Some (if \<not> ok then (False, st\<lparr>fs_vol := vol1\<rparr>)
               else (True, \<lparr>fs_vol = vol1, fs_link = fs_link st + 1, fs_block = b, fs_blk = empty_block, fs_offset = 0\<rparr>))
       }
   }"

primrec flush_loop :: "RegistryEnv \<Rightarrow> TagRegistryEntry option list \<Rightarrow> FlushState \<Rightarrow> (bool \<times> FlushState) option" where
  "flush_loop env [] st = Some (True, st)"
| "flush_loop env (e # es) st =
     (case e of
        None \<Rightarrow> flush_loop env es st
      | Some entry \<Rightarrow>
          if fs_offset st + record_size entry > TAGFS_REGISTRY_DATA_SIZE then do {
            (ok, st1) \<leftarrow> next_block env st;
            if \<not> ok then Some (False, st1)
            else do { st2 \<leftarrow> put_record st1 entry; flush_loop env es st2 }
          }
          else do { st2 \<leftarrow> put_record st entry; flush_loop env es st2 })"

definition flush_body :: "RegistryEnv \<Rightarrow> TagRegistry \<Rightarrow> RegistryVolume \<Rightarrow> (bool \<times> TagRegistry \<times> RegistryVolume) option" where
  "flush_body env reg vol = do {
     (ok, st) \<leftarrow> flush_loop env (take (tr_next_id reg) (tr_by_id reg))
       \<lparr>fs_vol = vol, fs_link = 0, fs_block = rv_chain vol ! 0, fs_blk = empty_block, fs_offset = 0\<rparr>;
     if \<not> ok then Some (False, reg, fs_vol st)
     else do {
       (written, vol1) \<leftarrow> put_block env (fs_link st) (fs_block st) (fs_blk st) (fs_vol st);
       Some (written, if written then reg\<lparr>tr_dirty := False\<rparr> else reg, vol1)
     }
   }"

definition tag_registry_flush :: "RegistryEnv \<Rightarrow> nat \<Rightarrow> TagRegistry \<Rightarrow> RegistryVolume \<Rightarrow> (bool \<times> TagRegistry \<times> RegistryVolume) option" where
  "tag_registry_flush env first_block reg vol =
     (if rv_chain vol = [] then do {
        (ok, vol1) \<leftarrow> chain_append env vol first_block;
        if \<not> ok then Some (False, reg, vol1) else flush_body env reg vol1
      }
      else flush_body env reg vol)"

section \<open>Reading it back\<close>

text \<open>A C string: the bytes up to the first zero.\<close>

definition cstr :: "bytes \<Rightarrow> bytes" where
  "cstr bs = takeWhile (\<lambda>b. b \<noteq> 0) bs"

definition load_entry :: "InternMem \<Rightarrow> TagRegistry \<Rightarrow> nat \<Rightarrow> u8 \<Rightarrow> bytes \<Rightarrow> bytes option \<Rightarrow> TagRegistry option" where
  "load_entry mem reg tag_id flags key val = do {
     (new_id, reg1) \<leftarrow> intern_with_id_unlocked mem reg tag_id key val;
     Some (if new_id \<noteq> TAGFS_INVALID_TAG_ID \<and> tr_by_id reg1 ! new_id \<noteq> None then set_flags (\<lambda>_. flags) reg1 new_id else reg1)
   }"

text \<open>The loop over the records of a block, by the number of records left.\<close>

primrec load_entries :: "(nat \<Rightarrow> InternMem) \<Rightarrow> bytes \<Rightarrow> nat \<Rightarrow> nat \<Rightarrow> TagRegistry \<Rightarrow> TagRegistry option" where
  "load_entries mem data 0 offset reg = Some reg"
| "load_entries mem data (Suc n) offset reg =
     (if offset + 6 > TAGFS_REGISTRY_DATA_SIZE then Some reg
      else
        let p = drop offset data;
            tag_id = unat (le_get (take 2 p) :: u16); flags = p ! 2; klen = unat (p ! 3);
            vlen = unat (le_get (take 2 (drop 4 p)) :: u16); size' = 6 + klen + vlen
        in if offset + size' > TAGFS_REGISTRY_DATA_SIZE then Some reg
           else if vlen \<ge> 4096 then load_entries mem data n (offset + size') reg
           else do {
             reg1 \<leftarrow> load_entry (mem n) reg tag_id flags (cstr (take klen (drop 6 p)))
                       (if vlen > 0 then Some (cstr (take vlen (drop (6 + klen) p))) else None);
             load_entries mem data n (offset + size') reg1
           })"

text \<open>
  The walk along the chain, given up after as many hops as the volume has blocks. The result is the
  success of the load with the registry and the chain as it leaves them.
\<close>

function load_loop ::
  "RegistryEnv \<Rightarrow> (nat \<Rightarrow> nat \<Rightarrow> InternMem) \<Rightarrow> nat \<Rightarrow> nat \<Rightarrow> nat \<Rightarrow> TagRegistry \<Rightarrow> RegistryVolume \<Rightarrow> (bool \<times> TagRegistry \<times> RegistryVolume) option" where
  "load_loop env mem run block_num hops reg vol =
     (if block_num \<ge> run then Some (False, reg, vol)
      else case tagfs_read_block (re_io env hops) block_num (rv_io vol) of
        None \<Rightarrow> None
      | Some (Inl err, io) \<Rightarrow> Some (False, reg, vol\<lparr>rv_io := io\<rparr>)
      | Some (Inr buf, io) \<Rightarrow>
        let blk = registry_block_of buf in
        if rb_magic blk \<noteq> TAGFS_REGISTRY_MAGIC then Some (False, reg, vol\<lparr>rv_io := io\<rparr>)
        else do {
          (ok, vol1) \<leftarrow> chain_append env (vol\<lparr>rv_io := io\<rparr>) block_num;
          if \<not> ok then Some (False, reg, chain_release vol1)
          else do {
            reg1 \<leftarrow> load_entries (mem hops) (rb_data blk) (rb_entry_count blk) 0 reg;
            if rb_next_block blk = 0 then Some (True, reg1, vol1)
            else if hops + 1 \<ge> run then Some (False, reg1, vol1)
            else load_loop env mem run (rb_next_block blk) (hops + 1) reg1 vol1
          }
        })"
  by pat_completeness auto
termination by (relation "measure (\<lambda>(env, mem, run, block_num, hops, reg, vol). run - hops)") auto

declare load_loop.simps [simp del]

definition tag_registry_load ::
  "RegistryEnv \<Rightarrow> (nat \<Rightarrow> nat \<Rightarrow> InternMem) \<Rightarrow> nat \<Rightarrow> TagRegistry \<Rightarrow> nat \<Rightarrow> RegistryVolume \<Rightarrow> (bool \<times> TagRegistry \<times> RegistryVolume) option" where
  "tag_registry_load env mem run reg first_block vol =
     (if run = 0 then Some (False, reg, vol) else load_loop env mem run first_block 0 reg (chain_release vol))"


section \<open>Records\<close>

text \<open>
  The tags the format can hold: the key fits its length byte, a value is not empty (an empty one is
  read back as none), neither has a zero byte, and the record fits in a block.
\<close>

definition storable :: "TagRegistryEntry \<Rightarrow> bool" where
  "storable e \<longleftrightarrow> length (te_key e) < 256 \<and> 0 \<notin> set (te_key e) \<and> te_tag_id e \<le> TAGFS_MAX_TAG_ID \<and>
     (case te_value e of None \<Rightarrow> True
      | Some v \<Rightarrow> v \<noteq> [] \<and> 0 \<notin> set v \<and> 6 + length (te_key e) + length v \<le> TAGFS_REGISTRY_DATA_SIZE)"

definition value_bytes :: "TagRegistryEntry \<Rightarrow> bytes" where
  "value_bytes e = (case te_value e of None \<Rightarrow> [] | Some v \<Rightarrow> v)"

lemma storable_lens:
  assumes "storable e"
  shows "key_len e = length (te_key e)" "value_len e = length (value_bytes e)" "record_size e = 6 + length (te_key e) + length (value_bytes e)"
    "record_size e \<le> TAGFS_REGISTRY_DATA_SIZE" "length (te_key e) < 256" "length (value_bytes e) < 4096"
    "te_value e = (if 0 < length (value_bytes e) then Some (value_bytes e) else None)"
    "cstr (te_key e) = te_key e" "cstr (value_bytes e) = value_bytes e"
proof -
  have v: "length (value_bytes e) \<le> 4074" using assms by (auto simp: storable_def value_bytes_def TAGFS_REGISTRY_DATA_SIZE_def split: option.splits)
  then have w: "u16_wrap (length (value_bytes e)) = length (value_bytes e)" by simp
  show k: "key_len e = length (te_key e)" "length (te_key e) < 256" using assms by (auto simp: storable_def key_len_def)
  show l: "value_len e = length (value_bytes e)" using w by (simp add: value_len_def value_bytes_def split: option.splits)
  show "record_size e = 6 + length (te_key e) + length (value_bytes e)" by (simp add: record_size_def k l)
  then show "record_size e \<le> TAGFS_REGISTRY_DATA_SIZE"
    using assms k(2) by (auto simp: storable_def value_bytes_def TAGFS_REGISTRY_DATA_SIZE_def split: option.splits)
  show "length (value_bytes e) < 4096" using v by simp
  show "te_value e = (if 0 < length (value_bytes e) then Some (value_bytes e) else None)"
    using assms by (auto simp: storable_def value_bytes_def split: option.splits)
  show "cstr (te_key e) = te_key e" "cstr (value_bytes e) = value_bytes e"
    using assms by (auto simp: storable_def cstr_def value_bytes_def takeWhile_eq_all_conv split: option.splits)
qed

lemma record_bytes_eq:
  assumes "storable e"
  shows "record_bytes e = le_put 2 (of_nat (te_tag_id e) :: u16) @ [te_flags e, of_nat (length (te_key e))] @
      le_put 2 (of_nat (length (value_bytes e)) :: u16) @ te_key e @ value_bytes e"
    "length (record_bytes e) = record_size e"
proof -
  note l = storable_lens [OF assms]
  show eq: "record_bytes e = le_put 2 (of_nat (te_tag_id e) :: u16) @ [te_flags e, of_nat (length (te_key e))] @
      le_put 2 (of_nat (length (value_bytes e)) :: u16) @ te_key e @ value_bytes e"
    using l(7) by (auto simp: record_bytes_def l(1,2) value_bytes_def split: option.splits)
  show "length (record_bytes e) = record_size e" by (simp add: eq l(3))
qed

lemma load_record:
  assumes e: "storable e" and p: "drop off data = record_bytes e @ rest" and fits: "off + record_size e \<le> TAGFS_REGISTRY_DATA_SIZE"
  shows "load_entries mem data (Suc n) off reg = do {
     reg1 \<leftarrow> load_entry (mem n) reg (te_tag_id e) (te_flags e) (te_key e) (te_value e);
     load_entries mem data n (off + record_size e) reg1 }"
proof -
  note l = storable_lens [OF e]
  let ?t = "of_nat (te_tag_id e) :: u16" and ?v = "of_nat (length (value_bytes e)) :: u16"
  have p': "drop off data = le_put 2 ?t @ [te_flags e, of_nat (length (te_key e))] @ le_put 2 ?v @ te_key e @ value_bytes e @ rest"
    using p by (simp add: record_bytes_eq(1) [OF e])
  have lp: "length (le_put 2 x) = 2" for x :: u16 by simp
  have id: "unat (le_get (take 2 (drop off data)) :: u16) = te_tag_id e"
    using e by (simp add: p' unat_of_nat storable_def TAGFS_MAX_TAG_ID_def)
  have fl: "drop off data ! 2 = te_flags e" "unat (drop off data ! 3) = length (te_key e)"
    using l(5) by (simp_all add: p' nth_append unat_of_nat)
  have d4: "drop 4 (drop off data) = le_put 2 ?v @ te_key e @ value_bytes e @ rest" unfolding p' by (simp add: numeral_eq_Suc le_put_def)
  have vl: "unat (le_get (take 2 (drop 4 (drop off data))) :: u16) = length (value_bytes e)"
    unfolding d4 using l(6) by (simp add: unat_of_nat)
  have "drop 6 (drop off data) = drop 2 (drop 4 (drop off data))" by simp
  then have d6: "drop 6 (drop off data) = te_key e @ value_bytes e @ rest" unfolding d4 by simp
  have "drop (6 + length (te_key e)) (drop off data) = drop (length (te_key e)) (drop 6 (drop off data))" by (simp add: ac_simps)
  then have dv: "drop (6 + length (te_key e)) (drop off data) = value_bytes e @ rest" unfolding d6 by simp
  have "\<not> off + 6 > TAGFS_REGISTRY_DATA_SIZE" using fits l(3) by simp
  then show ?thesis using fits l(3,6,7,8,9)
    unfolding load_entries.simps Let_def id fl vl d6 dv by (simp add: add.assoc)
qed

primrec load_list :: "(nat \<Rightarrow> InternMem) \<Rightarrow> TagRegistryEntry list \<Rightarrow> TagRegistry \<Rightarrow> TagRegistry option" where
  "load_list mem [] reg = Some reg"
| "load_list mem (e # es) reg = do {
     reg1 \<leftarrow> load_entry (mem (length es)) reg (te_tag_id e) (te_flags e) (te_key e) (te_value e);
     load_list mem es reg1 }"

lemma load_records:
  "\<forall>e\<in>set es. storable e \<Longrightarrow> drop off data = concat (map record_bytes es) @ rest \<Longrightarrow>
   off + sum_list (map record_size es) \<le> TAGFS_REGISTRY_DATA_SIZE \<Longrightarrow> load_entries mem data (length es) off reg = load_list mem es reg"
proof (induction es arbitrary: off reg)
  case (Cons e es)
  have e: "storable e" using Cons.prems(1) by simp
  have "drop (record_size e) (drop off data) = concat (map record_bytes es) @ rest"
    unfolding Cons.prems(2) using record_bytes_eq(2) [OF e] by simp
  then have d: "drop (off + record_size e) data = concat (map record_bytes es) @ rest" by (simp add: add.commute)
  have "load_entries mem data (Suc (length es)) off reg = do {
     reg1 \<leftarrow> load_entry (mem (length es)) reg (te_tag_id e) (te_flags e) (te_key e) (te_value e);
     load_entries mem data (length es) (off + record_size e) reg1 }"
    by (rule load_record [OF e, where rest = "concat (map record_bytes es) @ rest"]) (use Cons.prems in auto)
  moreover have "load_entries mem data (length es) (off + record_size e) reg1 = load_list mem es reg1" for reg1
    by (rule Cons.IH) (use Cons.prems d in auto)
  ultimately show ?case by simp
qed simp

section \<open>The chain of blocks\<close>

definition holds :: "TagRegistryBlock \<Rightarrow> TagRegistryEntry list \<Rightarrow> bool" where
  "holds blk es \<longleftrightarrow> rb_magic blk = TAGFS_REGISTRY_MAGIC \<and> rb_entry_count blk = length es \<and>
     length (rb_data blk) = TAGFS_REGISTRY_DATA_SIZE \<and> (\<exists>rest. rb_data blk = concat (map record_bytes es) @ rest) \<and>
     (\<forall>e\<in>set es. storable e) \<and> sum_list (map record_size es) \<le> TAGFS_REGISTRY_DATA_SIZE"

lemma concat_size: "\<forall>e\<in>set es. storable e \<Longrightarrow> length (concat (map record_bytes es)) = sum_list (map record_size es)"
  by (induction es) (simp_all add: record_bytes_eq(2))

lemma holds_count: "holds blk es \<Longrightarrow> length es < 1000"
proof -
  assume h: "holds blk es"
  have "6 * length es \<le> sum_list (map record_size es)" by (induction es) (simp_all add: record_size_def)
  then show ?thesis using h by (simp add: holds_def TAGFS_REGISTRY_DATA_SIZE_def)
qed

lemma holds_empty: "holds empty_block []"
  by (simp add: holds_def empty_block_def)

lemma put_record_ok:
  assumes h: "holds (fs_blk st) es" "fs_offset st = sum_list (map record_size es)" and e: "storable e"
    and fits: "fs_offset st + record_size e \<le> TAGFS_REGISTRY_DATA_SIZE"
  shows "\<exists>blk. put_record st e = Some (st\<lparr>fs_offset := fs_offset st + record_size e, fs_blk := blk\<rparr>) \<and>
    holds blk (es @ [e]) \<and> rb_next_block blk = rb_next_block (fs_blk st)"
proof -
  obtain rest where r: "rb_data (fs_blk st) = concat (map record_bytes es) @ rest" "\<forall>e\<in>set es. storable e"
      "length (rb_data (fs_blk st)) = TAGFS_REGISTRY_DATA_SIZE"
    using h(1) by (auto simp: holds_def)
  let ?blk = "(fs_blk st)\<lparr>rb_data := take (fs_offset st) (rb_data (fs_blk st)) @ record_bytes e @ drop (fs_offset st + record_size e) (rb_data (fs_blk st)),
      rb_entry_count := u16_wrap (rb_entry_count (fs_blk st) + 1), rb_used_bytes := u16_wrap (fs_offset st + record_size e)\<rparr>"
  have t: "take (fs_offset st) (rb_data (fs_blk st)) = concat (map record_bytes es)" using r concat_size [OF r(2)] h(2) by simp
  have "length (rb_data ?blk) = TAGFS_REGISTRY_DATA_SIZE" using r(3) fits by (simp add: record_bytes_eq(2) [OF e])
  moreover have "rb_entry_count ?blk = length (es @ [e])" using h(1) holds_count [OF h(1)] by (simp add: holds_def)
  moreover have "\<exists>rest. rb_data ?blk = concat (map record_bytes (es @ [e])) @ rest" using t by simp
  moreover have "rb_magic ?blk = TAGFS_REGISTRY_MAGIC" "\<forall>x\<in>set (es @ [e]). storable x"
      "sum_list (map record_size (es @ [e])) \<le> TAGFS_REGISTRY_DATA_SIZE"
    using h e fits r(2) by (auto simp: holds_def)
  ultimately have "holds ?blk (es @ [e])" unfolding holds_def by (simp only: HOL.simp_thms)
  then show ?thesis using fits by (intro exI [of _ ?blk]) (simp add: put_record_def Let_def)
qed


text \<open>A block of the registry as the volume holds it.\<close>

definition vol_block :: "RegistryVolume \<Rightarrow> nat \<Rightarrow> TagRegistryBlock" where
  "vol_block vol b = registry_block_of (on_disk (rv_io vol) b)"

lemma holds_next: "holds (blk\<lparr>rb_next_block := b\<rparr>) es = holds blk es"
  by (simp add: holds_def)

lemma block_image:
  assumes "holds blk es"
  shows "holds (registry_block_of (registry_block_bytes blk)) es"
    "rb_next_block blk < 2 ^ 32 \<Longrightarrow> rb_next_block (registry_block_of (registry_block_bytes blk)) = rb_next_block blk"
proof -
  have c: "rb_entry_count blk < 2 ^ 16" using holds_count [OF assms] assms by (simp add: holds_def)
  have "rb_magic (registry_block_of (registry_block_bytes blk)) = rb_magic blk"
      "rb_data (registry_block_of (registry_block_bytes blk)) = rb_data blk"
      "rb_entry_count (registry_block_of (registry_block_bytes blk)) = rb_entry_count blk"
    using c by (simp_all add: registry_block_of_def registry_block_bytes_def unat_of_nat)
  then show "holds (registry_block_of (registry_block_bytes blk)) es" using assms by (simp add: holds_def)
  show "rb_next_block (registry_block_of (registry_block_bytes blk)) = rb_next_block blk" if "rb_next_block blk < 2 ^ 32"
    using that by (simp add: registry_block_of_def registry_block_bytes_def unat_of_nat take_bit_eq_mod)
qed

text \<open>The chain on a volume in order; \<open>chain_room\<close> counts the blocks of the chain and those that are free.\<close>

definition chain_ok :: "nat \<Rightarrow> RegistryVolume \<Rightarrow> bool" where
  "chain_ok run vol \<longleftrightarrow> run < 2 ^ 31 \<and> length (rv_chain vol) \<le> rv_chain_cap vol \<and> sound (rv_io vol) \<and> space_whole (rv_space vol) \<and>
     chain_fits run (in_region (rv_io vol)) (rv_chain vol) (free_set (rv_space vol))"

definition chain_room :: "RegistryVolume \<Rightarrow> nat" where
  "chain_room vol = length (rv_chain vol) + card (free_set (rv_space vol))"

text \<open>The accesses work, there is memory for the chain, and the volume may be entered.\<close>

definition registry_env_works :: "RegistryEnv \<Rightarrow> bool" where
  "registry_env_works env \<longleftrightarrow> re_door env \<and> re_grow env = (\<lambda>_. True) \<and> (\<forall>k. env_works (re_io env k))"

lemma append_ok:
  assumes "length (rv_chain vol) \<le> rv_chain_cap vol" "length (rv_chain vol) < 2 ^ 31"
  shows "\<exists>ok cap. chain_append env vol b = Some (ok, if ok then vol\<lparr>rv_chain := rv_chain vol @ [b], rv_chain_cap := cap\<rparr> else vol) \<and>
    (re_grow env (length (rv_chain vol)) \<longrightarrow> ok) \<and> (ok \<longrightarrow> length (rv_chain vol) + 1 \<le> cap)"
proof (cases "length (rv_chain vol) = rv_chain_cap vol")
  case True
  let ?cap = "if rv_chain_cap vol \<noteq> 0 then rv_chain_cap vol * 2 else 8"
  have "u32_wrap (rv_chain_cap vol * 2) = rv_chain_cap vol * 2" using assms(2) True by simp
  then show ?thesis using True
    by (intro exI [of _ "re_grow env (length (rv_chain vol))"] exI [of _ ?cap]) (auto simp: chain_append_def Let_def)
next
  case False
  then show ?thesis using assms(1)
    by (intro exI [of _ True] exI [of _ "rv_chain_cap vol"]) (simp add: chain_append_def)
qed

lemma next_link_ok:
  assumes ok: "chain_ok run vol" and link: "link < length (rv_chain vol)"
  shows "\<exists>nb vol'. next_link env vol link = Some (nb, vol') \<and> rv_io vol' = rv_io vol \<and> chain_ok run vol' \<and>
    (\<exists>ext. rv_chain vol' = rv_chain vol @ ext) \<and>
    (\<forall>b. nb = Some b \<longrightarrow> link + 1 < length (rv_chain vol') \<and> rv_chain vol' ! (link + 1) = b \<and> chain_room vol' = chain_room vol) \<and>
    (registry_env_works env \<and> link + 1 < chain_room vol \<longrightarrow> nb \<noteq> None)"
proof (cases "link + 1 < length (rv_chain vol)")
  case True
  then show ?thesis using ok by (auto simp: next_link_def)
next
  case False
  have c: "space_whole (rv_space vol)" "chain_fits run (in_region (rv_io vol)) (rv_chain vol) (free_set (rv_space vol))" "run < 2 ^ 31"
      "length (rv_chain vol) \<le> rv_chain_cap vol" using ok by (simp_all add: chain_ok_def)
  have len: "length (rv_chain vol) < 2 ^ 31" "length (rv_chain vol) = link + 1" using chain_fits_length [OF c(2)] c(3) False link by simp_all
  obtain r sp where a: "tagfs_alloc_blocks (re_door env) 1 (rv_space vol) = Some (r, sp)" "space_whole sp"
    "case r of None \<Rightarrow> free_set sp = free_set (rv_space vol) \<and> (re_door env \<longrightarrow> free_set (rv_space vol) = {})
             | Some b \<Rightarrow> b \<in> free_set (rv_space vol) \<and> free_set sp = free_set (rv_space vol) - {b}"
    using alloc_one [OF c(1)] by blast
  show ?thesis
  proof (cases r)
    case None
    then show ?thesis using False a ok len(2) by (auto simp: next_link_def chain_ok_def chain_room_def registry_env_works_def)
  next
    case (Some b)
    then have b: "b \<in> free_set (rv_space vol)" "free_set sp = free_set (rv_space vol) - {b}" using a(3) by simp_all
    have card: "card (free_set (rv_space vol)) = Suc (card (free_set sp))" using b c(2) by (metis card.remove chain_fits_def)
    have fits: "chain_fits run (in_region (rv_io vol)) (rv_chain vol @ [b]) (free_set sp)" using chain_fits_grow [OF c(2) b(1)] b(2) by simp
    have fits0: "chain_fits run (in_region (rv_io vol)) (rv_chain vol) (free_set sp)" using c(2) b(2) by (auto simp: chain_fits_def)
    let ?vol = "vol\<lparr>rv_space := sp\<rparr>"
    have pre: "length (rv_chain ?vol) \<le> rv_chain_cap ?vol" "length (rv_chain ?vol) < 2 ^ 31" using c(4) len(1) by simp_all
    obtain ok' cap where g: "chain_append env ?vol b = Some (ok', if ok' then ?vol\<lparr>rv_chain := rv_chain ?vol @ [b], rv_chain_cap := cap\<rparr> else ?vol)"
      "re_grow env (length (rv_chain ?vol)) \<longrightarrow> ok'" "ok' \<longrightarrow> length (rv_chain ?vol) + 1 \<le> cap"
      using append_ok [OF pre, of env b] by blast
    show ?thesis using False Some a(1,2) g card fits fits0 ok len(2)
      by (cases ok') (auto simp: next_link_def nth_append chain_ok_def chain_room_def registry_env_works_def)
  qed
qed

lemma put_block_ok:
  assumes "chain_ok run vol"
  shows "\<exists>ok vol'. put_block env link block blk vol = Some (ok, vol') \<and> chain_ok run vol' \<and> rv_chain vol' = rv_chain vol \<and> chain_room vol' = chain_room vol \<and>
    in_region (rv_io vol') = in_region (rv_io vol) \<and>
    (ok \<longrightarrow> (\<forall>b. \<not> in_region (rv_io vol) b \<longrightarrow>
       vol_block vol' b = (if b = block then registry_block_of (registry_block_bytes blk) else vol_block vol b))) \<and>
    (registry_env_works env \<and> \<not> io_medium_left (rv_io vol) \<longrightarrow> ok \<and> \<not> io_medium_left (rv_io vol'))"
proof -
  have so: "sound (rv_io vol)" using assms by (simp add: chain_ok_def)
  obtain ok io where w: "write_block (re_io env link) block (registry_block_bytes blk) (rv_io vol) = Some (ok, io)" "sound io"
      "same_map (io_integrity (rv_io vol)) (io_integrity io)"
      "\<forall>b. \<not> in_region (rv_io vol) b \<longrightarrow> on_disk io b = (if ok \<and> b = block then registry_block_bytes blk else on_disk (rv_io vol) b)"
      "env_works (re_io env link) \<and> \<not> io_medium_left (rv_io vol) \<longrightarrow> ok \<and> \<not> io_medium_left io"
    using write_block_sound [OF so, of "re_io env link" block "registry_block_bytes blk"] by blast
  have reg: "in_region io = in_region (rv_io vol)" using same_map_region [OF w(3)] by (simp add: fun_eq_iff)
  have "put_block env link block blk vol = Some (ok, vol\<lparr>rv_io := io\<rparr>)" by (simp add: put_block_def tagfs_write_block_def w(1))
  moreover have "chain_ok run (vol\<lparr>rv_io := io\<rparr>)" using assms w(2) by (simp add: chain_ok_def reg)
  ultimately show ?thesis using reg w(4,5) by (auto simp: chain_room_def vol_block_def registry_env_works_def)
qed

definition flush_inv :: "(nat \<Rightarrow> bool) \<Rightarrow> nat \<Rightarrow> FlushState \<Rightarrow> TagRegistryEntry list list \<Rightarrow> TagRegistryEntry list \<Rightarrow> bool" where
  "flush_inv region run st ess cur \<longleftrightarrow> chain_ok run (fs_vol st) \<and> in_region (rv_io (fs_vol st)) = region \<and>
     fs_link st < length (rv_chain (fs_vol st)) \<and> fs_block st = rv_chain (fs_vol st) ! fs_link st \<and> length ess = fs_link st \<and>
     (\<forall>j<fs_link st. holds (vol_block (fs_vol st) (rv_chain (fs_vol st) ! j)) (ess ! j) \<and>
        rb_next_block (vol_block (fs_vol st) (rv_chain (fs_vol st) ! j)) = rv_chain (fs_vol st) ! (j + 1)) \<and>
     holds (fs_blk st) cur \<and> rb_next_block (fs_blk st) = 0 \<and> fs_offset st = sum_list (map record_size cur)"

text \<open>Nothing stands in the way of writing up to link \<open>n\<close>.\<close>

definition flush_ready :: "RegistryEnv \<Rightarrow> nat \<Rightarrow> RegistryVolume \<Rightarrow> bool" where
  "flush_ready env n vol \<longleftrightarrow> registry_env_works env \<and> \<not> io_medium_left (rv_io vol) \<and> n < chain_room vol"

lemma flush_ready_mono: "flush_ready env n vol \<Longrightarrow> m \<le> n \<Longrightarrow> flush_ready env m vol"
  by (simp add: flush_ready_def)

lemma chain_blocks:
  assumes "chain_ok run vol" "j < length (rv_chain vol)"
  shows "rv_chain vol ! j < run" "\<not> in_region (rv_io vol) (rv_chain vol ! j)" "run < 2 ^ 32"
    "k < length (rv_chain vol) \<Longrightarrow> rv_chain vol ! k = rv_chain vol ! j \<longleftrightarrow> k = j"
  using assms nth_mem [OF assms(2)] by (auto simp: chain_ok_def chain_fits_def nth_eq_iff_index_eq)

lemma next_block_ok:
  assumes inv: "flush_inv region run st ess cur"
  shows "\<exists>ok st'. next_block env st = Some (ok, st') \<and>
    (ok \<longrightarrow> flush_inv region run st' (ess @ [cur]) [] \<and> rv_chain (fs_vol st') ! 0 = rv_chain (fs_vol st) ! 0 \<and> fs_link st' = fs_link st + 1 \<and>
       chain_room (fs_vol st') = chain_room (fs_vol st)) \<and>
    (flush_ready env (fs_link st + 1) (fs_vol st) \<longrightarrow> ok \<and> \<not> io_medium_left (rv_io (fs_vol st')))"
proof -
  let ?vol = "fs_vol st"
  have i: "chain_ok run ?vol" "fs_link st < length (rv_chain ?vol)" "in_region (rv_io ?vol) = region" using inv by (auto simp: flush_inv_def)
  obtain nb vol' ext where n: "next_link env ?vol (fs_link st) = Some (nb, vol')" "rv_io vol' = rv_io ?vol" "chain_ok run vol'"
      "rv_chain vol' = rv_chain ?vol @ ext"
      "\<forall>b. nb = Some b \<longrightarrow> fs_link st + 1 < length (rv_chain vol') \<and> rv_chain vol' ! (fs_link st + 1) = b \<and> chain_room vol' = chain_room ?vol"
      "registry_env_works env \<and> fs_link st + 1 < chain_room ?vol \<longrightarrow> nb \<noteq> None"
    using next_link_ok [OF i(1,2)] by blast
  show ?thesis
  proof (cases nb)
    case None
    then show ?thesis using n(1,6) by (auto simp: next_block_def flush_ready_def)
  next
    case (Some b)
    then have b: "fs_link st + 1 < length (rv_chain vol')" "rv_chain vol' ! (fs_link st + 1) = b" "chain_room vol' = chain_room ?vol" using n(5) by auto
    let ?blk = "(fs_blk st)\<lparr>rb_next_block := b\<rparr>"
    obtain ok vol1 where p: "put_block env (fs_link st) (fs_block st) ?blk vol' = Some (ok, vol1)" "chain_ok run vol1" "rv_chain vol1 = rv_chain vol'"
        "chain_room vol1 = chain_room vol'" "in_region (rv_io vol1) = in_region (rv_io vol')"
        "ok \<longrightarrow> (\<forall>x. \<not> in_region (rv_io vol') x \<longrightarrow>
           vol_block vol1 x = (if x = fs_block st then registry_block_of (registry_block_bytes ?blk) else vol_block vol' x))"
        "registry_env_works env \<and> \<not> io_medium_left (rv_io vol') \<longrightarrow> ok \<and> \<not> io_medium_left (rv_io vol1)"
      using put_block_ok [OF n(3)] by blast
    let ?st = "\<lparr>fs_vol = vol1, fs_link = fs_link st + 1, fs_block = b, fs_blk = empty_block, fs_offset = 0\<rparr>"
    have nb: "next_block env st = Some (if ok then (True, ?st) else (False, st\<lparr>fs_vol := vol1\<rparr>))"
      using n(1) Some p(1) by (simp add: next_block_def)
    have old: "rv_chain vol' ! j = rv_chain ?vol ! j" if "j < length (rv_chain ?vol)" for j using that by (simp add: n(4) nth_append)
    have blk: "fs_block st = rv_chain vol' ! fs_link st" using inv old i(2) by (simp add: flush_inv_def)
    have same: "vol_block vol' = vol_block ?vol" by (simp add: fun_eq_iff vol_block_def n(2))
    have h: "holds ?blk cur" using inv by (simp add: flush_inv_def holds_next)
    have inv': "flush_inv region run ?st (ess @ [cur]) []" if ok
    proof -
      have "holds (vol_block vol1 (rv_chain vol1 ! j)) ((ess @ [cur]) ! j) \<and>
          rb_next_block (vol_block vol1 (rv_chain vol1 ! j)) = rv_chain vol1 ! (j + 1)" if j: "j < fs_link st + 1" for j
      proof -
        have jl: "j < length (rv_chain vol')" "fs_link st < length (rv_chain vol')" using j b(1) by simp_all
        note cb = chain_blocks [OF n(3) jl(1)]
        have vb: "vol_block vol1 (rv_chain vol' ! j) = (if j = fs_link st then registry_block_of (registry_block_bytes ?blk) else vol_block ?vol (rv_chain vol' ! j))"
          using p(6) \<open>ok\<close> cb(2) cb(4) [OF jl(2)] blk same by auto
        show ?thesis
        proof (cases "j = fs_link st")
          case True
          have "b < run" using chain_blocks(1) [OF n(3) b(1)] b(2) by simp
          then show ?thesis using True vb block_image [OF h] b(2) cb(3) inv p(3) by (simp add: flush_inv_def nth_append)
        next
          case False
          then have "j < fs_link st" using j by simp
          then show ?thesis using inv vb old [of j] old [of "j + 1"] i(2) p(3) False by (simp add: flush_inv_def nth_append)
        qed
      qed
      then show ?thesis using p(2,3,5) n(2) i(3) b inv holds_empty by (simp add: flush_inv_def empty_block_def)
    qed
    have "rv_chain vol1 ! 0 = rv_chain ?vol ! 0" using p(3) old [of 0] i(2) by (cases "rv_chain ?vol") simp_all
    then show ?thesis using nb inv' p(4,7) b(3) n(2) by (auto simp: flush_ready_def)
  qed
qed

lemma put_record_inv:
  assumes "flush_inv region run st ess cur" "storable e" "fs_offset st + record_size e \<le> TAGFS_REGISTRY_DATA_SIZE"
  shows "\<exists>st'. put_record st e = Some st' \<and> flush_inv region run st' ess (cur @ [e]) \<and> fs_vol st' = fs_vol st \<and> fs_link st' = fs_link st"
proof -
  have h: "holds (fs_blk st) cur" "fs_offset st = sum_list (map record_size cur)" using assms(1) by (auto simp: flush_inv_def)
  obtain blk where p: "put_record st e = Some (st\<lparr>fs_offset := fs_offset st + record_size e, fs_blk := blk\<rparr>)"
      "holds blk (cur @ [e])" "rb_next_block blk = rb_next_block (fs_blk st)"
    using put_record_ok [OF h assms(2,3)] by blast
  then show ?thesis using assms(1) by (intro exI [of _ "st\<lparr>fs_offset := fs_offset st + record_size e, fs_blk := blk\<rparr>"]) (simp add: flush_inv_def)
qed

primrec entries :: "'a option list \<Rightarrow> 'a list" where
  "entries [] = []"
| "entries (x # xs) = (case x of None \<Rightarrow> entries xs | Some e \<Rightarrow> e # entries xs)"

lemma flush_loop_ok:
  assumes "flush_inv region run st ess cur" "\<forall>e\<in>set (entries es). storable e"
  shows "\<exists>ok st'. flush_loop env es st = Some (ok, st') \<and>
    (ok \<longrightarrow> (\<exists>ess' cur'. flush_inv region run st' ess' cur' \<and> concat ess' @ cur' = concat ess @ cur @ entries es) \<and>
       rv_chain (fs_vol st') ! 0 = rv_chain (fs_vol st) ! 0) \<and>
    (flush_ready env (fs_link st + length es) (fs_vol st) \<longrightarrow> ok \<and> \<not> io_medium_left (rv_io (fs_vol st')))"
  using assms
proof (induction es arbitrary: st ess cur)
  case Nil
  then show ?case by (intro exI [of _ True] exI [of _ st]) (auto simp: flush_ready_def)
next
  case (Cons x es)
  show ?case
  proof (cases x)
    case None
    then obtain ok st' where "flush_loop env es st = Some (ok, st')"
        "flush_ready env (fs_link st + length es) (fs_vol st) \<longrightarrow> ok \<and> \<not> io_medium_left (rv_io (fs_vol st'))"
        "ok \<longrightarrow> (\<exists>ess' cur'. flush_inv region run st' ess' cur' \<and> concat ess' @ cur' = concat ess @ cur @ entries es) \<and>
          rv_chain (fs_vol st') ! 0 = rv_chain (fs_vol st) ! 0"
      using Cons.IH [OF Cons.prems(1)] Cons.prems(2) by auto
    then show ?thesis using None by (intro exI [of _ ok] exI [of _ st']) (auto simp: flush_ready_def)
  next
    case (Some e)
    then have e: "storable e" "\<forall>e\<in>set (entries es). storable e" using Cons.prems(2) by auto
    have rest: "\<exists>ok st'. (do { st2 \<leftarrow> put_record st1 e; flush_loop env es st2 }) = Some (ok, st') \<and>
        (ok \<longrightarrow> (\<exists>ess' cur'. flush_inv region run st' ess' cur' \<and> concat ess' @ cur' = concat ess @ cur @ entries (x # es)) \<and>
          rv_chain (fs_vol st') ! 0 = rv_chain (fs_vol st) ! 0) \<and>
        (flush_ready env (fs_link st1 + length es) (fs_vol st1) \<longrightarrow> ok \<and> \<not> io_medium_left (rv_io (fs_vol st')))"
      if t: "flush_inv region run st1 ess1 cur1" "concat ess1 @ cur1 = concat ess @ cur" "rv_chain (fs_vol st1) ! 0 = rv_chain (fs_vol st) ! 0"
        "fs_offset st1 + record_size e \<le> TAGFS_REGISTRY_DATA_SIZE" for st1 ess1 cur1
    proof -
      obtain st2 where s: "put_record st1 e = Some st2" "flush_inv region run st2 ess1 (cur1 @ [e])" "fs_vol st2 = fs_vol st1" "fs_link st2 = fs_link st1"
        using put_record_inv [OF t(1) e(1) t(4)] by blast
      have eq: "concat ess1 @ (cur1 @ [e]) @ entries es = concat ess @ cur @ entries (x # es)" using t(2) Some by (simp flip: append_assoc)
      obtain ok st' where i: "flush_loop env es st2 = Some (ok, st')"
          "flush_ready env (fs_link st2 + length es) (fs_vol st2) \<longrightarrow> ok \<and> \<not> io_medium_left (rv_io (fs_vol st'))"
          "ok \<longrightarrow> (\<exists>ess' cur'. flush_inv region run st' ess' cur' \<and> concat ess' @ cur' = concat ess @ cur @ entries (x # es)) \<and>
            rv_chain (fs_vol st') ! 0 = rv_chain (fs_vol st2) ! 0"
        using Cons.IH [OF s(2) e(2)] unfolding eq by blast
      then show ?thesis using s(1,4) unfolding s(3) t(3) by (intro exI [of _ ok] exI [of _ st']) (simp del: entries.simps)
    qed
    show ?thesis
    proof (cases "fs_offset st + record_size e > TAGFS_REGISTRY_DATA_SIZE")
      case False
      have "flush_ready env (fs_link st + length (x # es)) (fs_vol st) \<Longrightarrow> flush_ready env (fs_link st + length es) (fs_vol st)"
        by (simp add: flush_ready_def)
      then show ?thesis using rest [OF Cons.prems(1)] False Some by (simp del: entries.simps) blast
    next
      case full: True
      obtain ok st1 where n: "next_block env st = Some (ok, st1)"
          "ok \<longrightarrow> flush_inv region run st1 (ess @ [cur]) [] \<and> rv_chain (fs_vol st1) ! 0 = rv_chain (fs_vol st) ! 0 \<and> fs_link st1 = fs_link st + 1 \<and>
             chain_room (fs_vol st1) = chain_room (fs_vol st)"
          "flush_ready env (fs_link st + 1) (fs_vol st) \<longrightarrow> ok \<and> \<not> io_medium_left (rv_io (fs_vol st1))"
        using next_block_ok [OF Cons.prems(1)] by blast
      have go: "flush_ready env (fs_link st + length (x # es)) (fs_vol st) \<Longrightarrow> flush_ready env (fs_link st + 1) (fs_vol st)"
        by (simp add: flush_ready_def)
      show ?thesis
      proof (cases ok)
        case False
        then show ?thesis using n(1,3) go Some full by (intro exI [of _ False] exI [of _ st1]) auto
      next
        case True
        then have st1: "fs_offset st1 = 0" "flush_inv region run st1 (ess @ [cur]) []" using n(2) by (simp_all add: flush_inv_def)
        have "flush_ready env (fs_link st + length (x # es)) (fs_vol st) \<Longrightarrow> flush_ready env (fs_link st1 + length es) (fs_vol st1)"
          using n(2,3) True go by (simp add: flush_ready_def)
        moreover have "flush_loop env (x # es) st = (do { st2 \<leftarrow> put_record st1 e; flush_loop env es st2 })"
          using n(1) True Some full by simp
        ultimately show ?thesis using rest [OF st1(2)] n(2) True storable_lens(4) [OF e(1)] st1(1) by (simp del: entries.simps flush_loop.simps) blast
      qed
    qed
  qed
qed


section \<open>Loading\<close>

definition all_intern_mem :: "InternMem \<Rightarrow> bool" where
  "all_intern_mem mem \<longleftrightarrow> (\<forall>v. intern_mem mem v) \<and> group_mem mem"

lemma flags_entry: "(new_entry (te_tag_id e) (te_key e) (te_value e))\<lparr>te_flags := te_flags e\<rparr> = e"
  by (simp add: new_entry_def)

lemma load_entry_returns:
  assumes "reg_ok reg"
  shows "\<exists>reg'. load_entry mem reg i fl k v = Some reg' \<and> reg_ok reg' \<and> (groups_complete reg \<and> group_mem mem \<longrightarrow> groups_complete reg')"
proof -
  obtain r reg1 where r: "intern_with_id_unlocked mem reg i k v = Some (r, reg1)" "interned mem reg i k v r reg1"
    using intern_with_id_ok [OF assms, of mem i k v] by blast
  then have "reg_ok reg1" "groups_complete reg \<and> group_mem mem \<longrightarrow> groups_complete reg1" by (auto simp: interned_def)
  then show ?thesis using r(1) set_flags_ok [of reg1] by (simp add: load_entry_def)
qed

lemma load_entries_returns:
  "reg_ok reg \<Longrightarrow> \<exists>reg'. load_entries mem data n off reg = Some reg' \<and> reg_ok reg' \<and>
     (groups_complete reg \<and> (\<forall>j. group_mem (mem j)) \<longrightarrow> groups_complete reg')"
proof (induction n arbitrary: off reg)
  case (Suc n)
  define p where "p = drop off data"
  define klen where "klen = unat (p ! 3)"
  define vlen where "vlen = unat (le_get (take 2 (drop 4 p)) :: u16)"
  let ?e = "load_entry (mem n) reg (unat (le_get (take 2 p) :: u16)) (p ! 2) (cstr (take klen (drop 6 p)))
      (if vlen > 0 then Some (cstr (take vlen (drop (6 + klen) p))) else None)"
  obtain reg1 where e: "?e = Some reg1" "reg_ok reg1" "groups_complete reg \<and> group_mem (mem n) \<longrightarrow> groups_complete reg1"
    using load_entry_returns [OF Suc.prems] by blast
  have eq: "load_entries mem data (Suc n) off reg =
      (if off + 6 > TAGFS_REGISTRY_DATA_SIZE \<or> off + (6 + klen + vlen) > TAGFS_REGISTRY_DATA_SIZE then Some reg
       else load_entries mem data n (off + (6 + klen + vlen)) (if vlen \<ge> 4096 then reg else reg1))"
    unfolding load_entries.simps Let_def p_def [symmetric] klen_def [symmetric] vlen_def [symmetric] e(1) by simp
  show ?case
    using Suc.IH [OF Suc.prems, of "off + (6 + klen + vlen)"] Suc.IH [OF e(2), of "off + (6 + klen + vlen)"] Suc.prems e(3)
    unfolding eq by (auto split: if_splits)
qed simp

text \<open>Whatever the volume holds, a load that returns leaves a registry in order.\<close>

lemma load_loop_keeps:
  "load_loop env mem run b hops reg vol = Some (ok, reg', vol') \<Longrightarrow> reg_ok reg \<Longrightarrow> reg_ok reg' \<and>
     (groups_complete reg \<and> (\<forall>i j. group_mem (mem i j)) \<longrightarrow> groups_complete reg')"
proof (induction "run - hops" arbitrary: b hops reg vol rule: less_induct)
  case less
  consider "reg' = reg"
    | (go) buf vol1 reg1 where
      "load_entries (mem hops) (rb_data (registry_block_of buf)) (rb_entry_count (registry_block_of buf)) 0 reg = Some reg1"
      "reg' = reg1 \<or> hops + 1 < run \<and> load_loop env mem run (rb_next_block (registry_block_of buf)) (hops + 1) reg1 vol1 = Some (ok, reg', vol')"
    using less.prems(1) by (subst (asm) load_loop.simps) (auto simp: Let_def split: if_splits option.splits prod.splits sum.splits bind_splits)
  then show ?case
  proof cases
    case go
    obtain reg2 where "load_entries (mem hops) (rb_data (registry_block_of buf)) (rb_entry_count (registry_block_of buf)) 0 reg = Some reg2" "reg_ok reg2"
        "groups_complete reg \<and> (\<forall>j. group_mem (mem hops j)) \<longrightarrow> groups_complete reg2"
      using load_entries_returns [OF less.prems(2)] by blast
    then have r: "reg_ok reg1" "groups_complete reg \<and> (\<forall>j. group_mem (mem hops j)) \<longrightarrow> groups_complete reg1" using go(1) by simp_all
    show ?thesis
    proof (cases "reg' = reg1")
      case False
      then have l: "hops + 1 < run" "load_loop env mem run (rb_next_block (registry_block_of buf)) (hops + 1) reg1 vol1 = Some (ok, reg', vol')"
        using go(2) by simp_all
      then show ?thesis using less.hyps [OF _ l(2) r(1)] r(2) by auto
    qed (use r in auto)
  qed (use less.prems(2) in simp)
qed


section \<open>The round trip\<close>

definition emap :: "TagRegistryEntry list \<Rightarrow> nat \<Rightarrow> TagRegistryEntry option" where
  "emap es i = find (\<lambda>e. te_tag_id e = i) es"

definition tag_of :: "TagRegistryEntry \<Rightarrow> bytes \<times> bytes option" where
  "tag_of e = (te_key e, te_value e)"

lemma emap_snoc: "te_tag_id e \<notin> te_tag_id ` set es \<Longrightarrow> emap (es @ [e]) = (emap es)(te_tag_id e \<mapsto> e)"
  by (induction es) (auto simp: emap_def fun_eq_iff)

lemma emap_iff: "distinct (map te_tag_id es) \<Longrightarrow> emap es i = Some e \<longleftrightarrow> e \<in> set es \<and> te_tag_id e = i"
  by (induction es) (auto simp: emap_def)

lemma emap_none: "emap es i = None \<longleftrightarrow> i \<notin> te_tag_id ` set es"
  by (auto simp: emap_def find_None_iff)

lemma load_entry_emap:
  assumes ok: "reg_ok reg" "tag_entry reg = emap ds" "all_intern_mem mem" and e: "te_tag_id e \<le> TAGFS_MAX_TAG_ID"
    and new: "distinct (map te_tag_id (ds @ [e]))" "distinct (map tag_of (ds @ [e]))"
  shows "\<exists>reg'. load_entry mem reg (te_tag_id e) (te_flags e) (te_key e) (te_value e) = Some reg' \<and> reg_ok reg' \<and> tag_entry reg' = emap (ds @ [e])"
proof -
  let ?i = "te_tag_id e"
  have none: "tag_entry reg ?i = None" using new(1) by (simp add: ok(2) emap_none)
  have ds: "distinct (map te_tag_id ds)" using new(1) by simp
  have fresh: "tag_name reg j \<noteq> Some (te_key e, te_value e)" for j
  proof
    assume "tag_name reg j = Some (te_key e, te_value e)"
    then obtain x where "emap ds j = Some x" "tag_of x = tag_of e" by (auto simp: name_entry ok(2) tag_of_def)
    then show False using new(2) emap_iff [OF ds] by (auto simp: image_iff)
  qed
  obtain r reg1 where r: "intern_with_id_unlocked mem reg ?i (te_key e) (te_value e) = Some (r, reg1)"
      "interned mem reg ?i (te_key e) (te_value e) r reg1" "r \<noteq> TAGFS_INVALID_TAG_ID"
    using intern_with_id_ok [OF ok(1), of mem ?i "te_key e" "te_value e"] ok(3) e none by (auto simp: all_intern_mem_def)
  then have i: "r = ?i" "reg_ok reg1" "tag_entry reg1 = (emap ds)(?i \<mapsto> new_entry ?i (te_key e) (te_value e))"
    using fresh ok(2) by (auto simp: interned_def)
  have "tag_entry reg1 ?i \<noteq> None" by (simp add: i(3))
  then have "tr_by_id reg1 ! ?i \<noteq> None" by (simp add: tag_entry_def split: if_splits)
  then have "load_entry mem reg ?i (te_flags e) (te_key e) (te_value e) = Some (set_flags (\<lambda>_. te_flags e) reg1 ?i)"
    using r(1,3) i(1) by (simp add: load_entry_def)
  moreover have "tag_entry (set_flags (\<lambda>_. te_flags e) reg1 ?i) = emap (ds @ [e])"
    unfolding set_flags_ok(5) [OF i(2)] i(3) using emap_snoc [of e ds] new(1) by (simp add: flags_entry)
  ultimately show ?thesis using set_flags_ok(1) [OF i(2)] by blast
qed

lemma load_list_emap:
  "reg_ok reg \<Longrightarrow> tag_entry reg = emap ds \<Longrightarrow> \<forall>j. all_intern_mem (mem j) \<Longrightarrow> \<forall>e\<in>set es. te_tag_id e \<le> TAGFS_MAX_TAG_ID \<Longrightarrow>
   distinct (map te_tag_id (ds @ es)) \<Longrightarrow> distinct (map tag_of (ds @ es)) \<Longrightarrow>
   \<exists>reg'. load_list mem es reg = Some reg' \<and> reg_ok reg' \<and> tag_entry reg' = emap (ds @ es)"
proof (induction es arbitrary: ds reg)
  case (Cons e es)
  obtain reg1 where r: "load_entry (mem (length es)) reg (te_tag_id e) (te_flags e) (te_key e) (te_value e) = Some reg1"
      "reg_ok reg1" "tag_entry reg1 = emap (ds @ [e])"
    using load_entry_emap [OF Cons.prems(1,2), of "mem (length es)" e] Cons.prems(3-6) by auto
  obtain reg' where "load_list mem es reg1 = Some reg'" "reg_ok reg'" "tag_entry reg' = emap ((ds @ [e]) @ es)"
    using Cons.IH [OF r(2,3) Cons.prems(3)] Cons.prems(4-6) by auto
  then show ?case using r(1) by simp
qed auto

text \<open>The blocks of a chain hold lists of tags and are linked in order.\<close>

definition chain_holds :: "(nat \<Rightarrow> TagRegistryBlock) \<Rightarrow> nat list \<Rightarrow> TagRegistryEntry list list \<Rightarrow> bool" where
  "chain_holds blocks cs ess \<longleftrightarrow> length ess = length cs \<and>
     (\<forall>j<length cs. holds (blocks (cs ! j)) (ess ! j) \<and> rb_next_block (blocks (cs ! j)) = (if j + 1 < length cs then cs ! (j + 1) else 0))"

lemma chain_holds_cong:
  "chain_holds blocks cs ess \<Longrightarrow> (\<And>b. b \<in> set cs \<Longrightarrow> blocks' b = blocks b) \<Longrightarrow> chain_holds blocks' cs ess"
  by (simp add: chain_holds_def)

lemma load_chain:
  assumes c: "distinct cs" "\<forall>b\<in>set cs. b < run" "0 \<notin> set (tl cs)" "run < 2 ^ 31"
    and env: "registry_env_works env" and mem: "\<forall>i j. all_intern_mem (mem i j)"
    and new: "distinct (map te_tag_id (concat ess))" "distinct (map tag_of (concat ess))"
  shows "j < length cs \<Longrightarrow> rv_chain vol = take j cs \<Longrightarrow> j \<le> rv_chain_cap vol \<Longrightarrow> reg_ok reg \<Longrightarrow> tag_entry reg = emap (concat (take j ess)) \<Longrightarrow>
    chain_holds (vol_block vol) cs ess \<Longrightarrow> sound (rv_io vol) \<Longrightarrow> \<not> io_medium_left (rv_io vol) \<Longrightarrow> \<forall>b\<in>set cs. \<not> in_region (rv_io vol) b \<Longrightarrow>
    \<exists>reg' vol'. load_loop env mem run (cs ! j) j reg vol = Some (True, reg', vol') \<and> reg_ok reg' \<and> tag_entry reg' = emap (concat ess) \<and> rv_chain vol' = cs"
proof (induction "length cs - j" arbitrary: j reg vol rule: less_induct)
  case less
  let ?b = "cs ! j"
  let ?blk = "vol_block vol ?b"
  have len: "length cs \<le> run" using c(1,2) card_mono [of "{..<run}" "set cs"] by (auto simp: distinct_card)
  have h: "holds ?blk (ess ! j)" "rb_next_block ?blk = (if j + 1 < length cs then cs ! (j + 1) else 0)" "length ess = length cs"
    using less.prems(1,6) by (auto simp: chain_holds_def)
  obtain rest where d: "rb_data ?blk = concat (map record_bytes (ess ! j)) @ rest" "\<forall>e\<in>set (ess ! j). storable e"
      "sum_list (map record_size (ess ! j)) \<le> TAGFS_REGISTRY_DATA_SIZE" "rb_entry_count ?blk = length (ess ! j)" "rb_magic ?blk = TAGFS_REGISTRY_MAGIC"
    using h(1) by (auto simp: holds_def)
  have le: "load_entries (mem j) (rb_data ?blk) (rb_entry_count ?blk) 0 reg = load_list (mem j) (ess ! j) reg"
    unfolding d(4) by (rule load_records [where rest = rest]) (use d in auto)
  have split: "concat ess = (concat (take j ess) @ ess ! j) @ concat (drop (Suc j) ess)"
    using id_take_nth_drop [of j ess] less.prems(1) h(3) by (metis append.assoc concat.simps(2) concat_append)
  have ids: "\<forall>e\<in>set (ess ! j). te_tag_id e \<le> TAGFS_MAX_TAG_ID" using d(2) by (auto simp: storable_def)
  have di: "distinct (map te_tag_id (concat (take j ess) @ ess ! j))" "distinct (map tag_of (concat (take j ess) @ ess ! j))"
    using new unfolding split by (metis distinct_append map_append)+
  obtain reg1 where r: "load_list (mem j) (ess ! j) reg = Some reg1" "reg_ok reg1" "tag_entry reg1 = emap (concat (take j ess) @ ess ! j)"
    using load_list_emap [OF less.prems(4,5) _ ids di, of "mem j"] mem by blast
  have nxt: "concat (take (Suc j) ess) = concat (take j ess) @ ess ! j" using less.prems(1) h(3) by (simp add: take_Suc_conv_app_nth)
  have lj: "length (rv_chain vol) = j" using less.prems(1,2) by simp
  have ew: "env_works (re_io env j)" using env by (simp add: registry_env_works_def)
  obtain io where rd: "read_block (re_io env j) ?b (rv_io vol) = Some (Some (on_disk (rv_io vol) ?b), io)" "keeps (rv_io vol) io" "\<not> io_medium_left io"
    using read_block_sound [OF less.prems(7), of "re_io env j" ?b] ew less.prems(8) by auto
  have read: "tagfs_read_block (re_io env j) ?b (rv_io vol) = Some (Inr (on_disk (rv_io vol) ?b), io)" by (simp add: tagfs_read_block_def rd(1))
  let ?vol0 = "vol\<lparr>rv_io := io\<rparr>"
  obtain cap where a: "chain_append env ?vol0 ?b = Some (True, ?vol0\<lparr>rv_chain := rv_chain vol @ [?b], rv_chain_cap := cap\<rparr>)" "j + 1 \<le> cap"
    using append_ok [of ?vol0 env ?b] lj less.prems(1,3) len c(4) env by (auto simp: registry_env_works_def)
  let ?vol = "?vol0\<lparr>rv_chain := rv_chain vol @ [?b], rv_chain_cap := cap\<rparr>"
  have kp: "sound io" "in_region io = in_region (rv_io vol)" "\<forall>b. \<not> in_region (rv_io vol) b \<longrightarrow> on_disk io b = on_disk (rv_io vol) b"
    using rd(2) same_map_region by (auto simp: keeps_def fun_eq_iff)
  have ch: "chain_holds (vol_block ?vol) cs ess"
    by (rule chain_holds_cong [OF less.prems(6)]) (use kp(3) less.prems(9) in \<open>simp add: vol_block_def\<close>)
  have tk: "rv_chain ?vol = take (Suc j) cs" using less.prems(1,2) by (simp add: take_Suc_conv_app_nth)
  have b: "?b < run" using c(2) less.prems(1) by simp
  have eq: "load_loop env mem run ?b j reg vol =
      (if rb_next_block ?blk = 0 then Some (True, reg1, ?vol) else if j + 1 \<ge> run then Some (False, reg1, ?vol)
       else load_loop env mem run (rb_next_block ?blk) (j + 1) reg1 ?vol)"
    using b read d(5) a(1) le r(1) by (subst load_loop.simps) (simp add: Let_def flip: vol_block_def)
  show ?case
  proof (cases "j + 1 < length cs")
    case False
    then have last: "Suc j = length cs" using less.prems(1) by simp
    then have "concat ess = concat (take j ess) @ ess ! j" using nxt h(3) by simp
    then show ?thesis unfolding eq using h(2) False r(2,3) tk last by simp
  next
    case True
    then have "cs ! (j + 1) \<in> set (tl cs)" by (cases cs) auto
    then have "rb_next_block ?blk \<noteq> 0" using c(3) h(2) True by metis
    moreover have "\<exists>reg' vol'. load_loop env mem run (cs ! (j + 1)) (j + 1) reg1 ?vol = Some (True, reg', vol') \<and> reg_ok reg' \<and>
        tag_entry reg' = emap (concat ess) \<and> rv_chain vol' = cs"
      by (rule less.hyps) (use True tk a(2) r(2,3) nxt less.prems(1,9) ch kp rd(3) in auto)
    ultimately show ?thesis unfolding eq using h(2) True len by simp
  qed
qed


lemma entries_append: "entries (xs @ ys) = entries xs @ entries ys"
  by (induction xs) (simp_all split: option.splits)

lemma set_entries: "set (entries xs) = {e. Some e \<in> set xs}"
  by (induction xs) (auto split: option.splits)

lemma entries_ids:
  "\<forall>i<length xs. \<forall>e. xs ! i = Some e \<longrightarrow> te_tag_id e = i \<Longrightarrow>
   distinct (map te_tag_id (entries xs)) \<and> (\<forall>e\<in>set (entries xs). te_tag_id e < length xs)"
proof (induction xs rule: rev_induct)
  case (snoc x xs)
  have xs: "\<forall>i<length xs. \<forall>e. xs ! i = Some e \<longrightarrow> te_tag_id e = i"
  proof (intro allI impI)
    fix i e assume "i < length xs" "xs ! i = Some e"
    then show "te_tag_id e = i" using snoc.prems [rule_format, of i e] by (simp add: nth_append)
  qed
  have x: "te_tag_id e = length xs" if "x = Some e" for e using snoc.prems [rule_format, of "length xs" e] that by simp
  note ih = snoc.IH [OF xs]
  show ?case
  proof (cases x)
    case None
    then show ?thesis using ih by (auto simp: entries_append)
  next
    case (Some e)
    then show ?thesis using ih x by (auto simp: entries_append)
  qed
qed simp

lemma reg_entries:
  assumes "reg_ok reg"
  defines "es \<equiv> entries (take (tr_next_id reg) (tr_by_id reg))"
  shows "distinct (map te_tag_id es)" "emap es = tag_entry reg" "distinct (map tag_of es)" "\<forall>e\<in>set es. te_tag_id e \<le> TAGFS_MAX_TAG_ID"
proof -
  have n: "names_ok reg" using assms(1) by (simp add: reg_ok_def)
  let ?l = "take (tr_next_id reg) (tr_by_id reg)"
  have len: "length ?l = tr_next_id reg" using n by (simp add: names_ok_def)
  have tg: "\<forall>i<length ?l. \<forall>e. ?l ! i = Some e \<longrightarrow> te_tag_id e = i" using n by (simp add: names_ok_def)
  note d = entries_ids [OF tg, folded es_def]
  then show ids: "distinct (map te_tag_id es)" by blast
  have mem: "e \<in> set es \<longleftrightarrow> tag_entry reg (te_tag_id e) = Some e" for e
  proof
    assume "e \<in> set es"
    then obtain i where "i < length ?l" "?l ! i = Some e" by (auto simp: es_def set_entries in_set_conv_nth)
    then show "tag_entry reg (te_tag_id e) = Some e" using tg by (auto simp: tag_entry_def)
  next
    assume a: "tag_entry reg (te_tag_id e) = Some e"
    then have "te_tag_id e \<in> dom (tag_name reg)" by (auto simp: name_entry)
    then have "te_tag_id e < tr_next_id reg" using n by (simp add: names_ok_def)
    then have "?l ! te_tag_id e = Some e" "te_tag_id e < length ?l" using a len by (auto simp: tag_entry_def split: if_splits)
    then show "e \<in> set es" by (auto simp: es_def set_entries in_set_conv_nth intro!: exI [of _ "te_tag_id e"])
  qed
  have tid: "te_tag_id e = i" if "tag_entry reg i = Some e" for i e
    using that n by (auto simp: tag_entry_def names_ok_def split: if_splits)
  have "emap es i = Some e \<longleftrightarrow> tag_entry reg i = Some e" for i e using emap_iff [OF ids] mem tid by auto
  then show "emap es = tag_entry reg" by (intro ext) (metis option.exhaust)
  have "inj_on tag_of (set es)"
  proof (rule inj_onI)
    fix x y assume xy: "x \<in> set es" "y \<in> set es" "tag_of x = tag_of y"
    then have "tag_name reg (te_tag_id x) = tag_name reg (te_tag_id y)" "te_tag_id x \<in> dom (tag_name reg)" "te_tag_id y \<in> dom (tag_name reg)"
      by (auto simp: mem name_entry tag_of_def)
    then have "te_tag_id x = te_tag_id y" using n by (auto simp: names_ok_def inj_on_def)
    then show "x = y" using xy mem by (metis option.inject)
  qed
  moreover have "distinct es" using ids by (simp add: distinct_map)
  ultimately show "distinct (map tag_of es)" by (simp add: distinct_map)
  show "\<forall>e\<in>set es. te_tag_id e \<le> TAGFS_MAX_TAG_ID" using d len n by (fastforce simp: names_ok_def)
qed

text \<open>The chain before the first write is the first block of the registry.\<close>

definition start_chain :: "nat \<Rightarrow> RegistryVolume \<Rightarrow> nat list" where
  "start_chain first vol = (if rv_chain vol = [] then [first] else rv_chain vol)"

definition registry_fits :: "nat \<Rightarrow> nat \<Rightarrow> RegistryVolume \<Rightarrow> bool" where
  "registry_fits run first vol \<longleftrightarrow> run < 2 ^ 31 \<and> length (rv_chain vol) \<le> rv_chain_cap vol \<and> sound (rv_io vol) \<and> space_whole (rv_space vol) \<and>
     chain_fits run (in_region (rv_io vol)) (start_chain first vol) (free_set (rv_space vol)) \<and> hd (start_chain first vol) = first"

text \<open>The tags of a registry lie along a chain of the volume.\<close>

definition on_volume :: "nat \<Rightarrow> nat \<Rightarrow> TagRegistryEntry list \<Rightarrow> RegistryVolume \<Rightarrow> bool" where
  "on_volume run first es vol \<longleftrightarrow> (\<exists>cs ess. chain_holds (vol_block vol) cs ess \<and> cs \<noteq> [] \<and> hd cs = first \<and> distinct cs \<and>
     (\<forall>b\<in>set cs. b < run \<and> \<not> in_region (rv_io vol) b) \<and> 0 \<notin> set (tl cs) \<and> concat ess = es)"

lemma flush_ok:
  assumes ok: "reg_ok reg" "\<forall>i e. tag_entry reg i = Some e \<longrightarrow> storable e" and vol: "chain_ok run vol"
  shows "\<exists>done' reg' vol'. flush_body env reg vol = Some (done', reg', vol') \<and>
    (done' \<longrightarrow> reg' = reg\<lparr>tr_dirty := False\<rparr> \<and> on_volume run (hd (rv_chain vol)) (entries (take (tr_next_id reg) (tr_by_id reg))) vol' \<and>
       in_region (rv_io vol') = in_region (rv_io vol) \<and> chain_ok run vol' \<and> hd (rv_chain vol') = hd (rv_chain vol)) \<and>
    (flush_ready env (tr_next_id reg) vol \<longrightarrow> done' \<and> \<not> io_medium_left (rv_io vol'))"
proof -
  let ?es = "take (tr_next_id reg) (tr_by_id reg)"
  let ?st = "\<lparr>fs_vol = vol, fs_link = 0, fs_block = rv_chain vol ! 0, fs_blk = empty_block, fs_offset = 0\<rparr>"
  have ne: "rv_chain vol \<noteq> []" using vol by (simp add: chain_ok_def chain_fits_def)
  have inv: "flush_inv (in_region (rv_io vol)) run ?st [] []" using vol ne holds_empty by (simp add: flush_inv_def empty_block_def)
  have st: "\<forall>e\<in>set (entries ?es). storable e"
    using reg_entries [OF ok(1)] ok(2) emap_iff [of "entries ?es"] by metis
  have few: "flush_ready env (tr_next_id reg) vol \<Longrightarrow> flush_ready env (0 + length ?es) vol" by (erule flush_ready_mono) simp
  obtain okl st' where l: "flush_loop env ?es ?st = Some (okl, st')"
      "okl \<longrightarrow> (\<exists>ess cur. flush_inv (in_region (rv_io vol)) run st' ess cur \<and> concat ess @ cur = entries ?es) \<and> rv_chain (fs_vol st') ! 0 = rv_chain vol ! 0"
      "flush_ready env (tr_next_id reg) vol \<longrightarrow> okl \<and> \<not> io_medium_left (rv_io (fs_vol st'))"
    using flush_loop_ok [OF inv st, of env] few unfolding concat.simps append_Nil FlushState.select_convs by blast
  show ?thesis
  proof (cases okl)
    case False
    then show ?thesis using l(1,3) by (auto simp: flush_body_def)
  next
    case True
    then obtain ess cur where f: "flush_inv (in_region (rv_io vol)) run st' ess cur" "concat ess @ cur = entries ?es" "rv_chain (fs_vol st') ! 0 = rv_chain vol ! 0"
      using l(2) by blast
    let ?c = "rv_chain (fs_vol st')" and ?k = "fs_link st'"
    let ?cs = "take (Suc ?k) ?c"
    have k: "?k < length ?c" "fs_block st' = ?c ! ?k" "length ess = ?k" "chain_ok run (fs_vol st')" "holds (fs_blk st') cur"
        "rb_next_block (fs_blk st') = 0" "in_region (rv_io (fs_vol st')) = in_region (rv_io vol)" using f(1) by (auto simp: flush_inv_def)
    then have dc: "distinct ?c" by (simp add: chain_ok_def chain_fits_def)
    obtain w vol1 where p: "put_block env ?k (fs_block st') (fs_blk st') (fs_vol st') = Some (w, vol1)" "rv_chain vol1 = ?c" "chain_ok run vol1"
        "in_region (rv_io vol1) = in_region (rv_io (fs_vol st'))"
        "w \<longrightarrow> (\<forall>x. \<not> in_region (rv_io (fs_vol st')) x \<longrightarrow>
           vol_block vol1 x = (if x = fs_block st' then registry_block_of (registry_block_bytes (fs_blk st')) else vol_block (fs_vol st') x))"
        "registry_env_works env \<and> \<not> io_medium_left (rv_io (fs_vol st')) \<longrightarrow> w \<and> \<not> io_medium_left (rv_io vol1)"
      using put_block_ok [OF k(4)] by blast
    have fb: "flush_body env reg vol = Some (w, if w then reg\<lparr>tr_dirty := False\<rparr> else reg, vol1)"
      using l(1) True p(1) by (simp add: flush_body_def)
    have "on_volume run (hd (rv_chain vol)) (entries ?es) vol1" if w
    proof -
      have at: "vol_block vol1 (?c ! j) = (if j = ?k then registry_block_of (registry_block_bytes (fs_blk st')) else vol_block (fs_vol st') (?c ! j))"
        if "j < length ?c" for j
        using p(5) \<open>w\<close> chain_blocks(2) [OF k(4) that] chain_blocks(4) [OF k(4) that k(1)] k(2) by auto
      note im = block_image [OF k(5)]
      have "chain_holds (vol_block vol1) ?cs (ess @ [cur])" unfolding chain_holds_def
      proof (intro conjI allI impI)
        show "length (ess @ [cur]) = length ?cs" using k by simp
        fix j assume "j < length ?cs"
        then have j: "j < Suc ?k" "j < length ?c" by auto
        then show "holds (vol_block vol1 (?cs ! j)) ((ess @ [cur]) ! j)"
            "rb_next_block (vol_block vol1 (?cs ! j)) = (if j + 1 < length ?cs then ?cs ! (j + 1) else 0)"
          using f(1) k at [OF j(2)] im by (auto simp: flush_inv_def nth_append less_Suc_eq)
      qed
      moreover have "hd ?cs = hd (rv_chain vol)" using f(3) k(1) ne by (cases "?c = []") (simp_all add: hd_conv_nth)
      moreover have co: "\<forall>b\<in>set ?c. b < run \<and> \<not> in_region (rv_io vol1) b" "0 \<notin> set (tl ?c)"
        using k(4) p(4) by (auto simp: chain_ok_def chain_fits_def)
      have "\<forall>b\<in>set ?cs. b < run \<and> \<not> in_region (rv_io vol1) b" using co(1) by (meson in_set_takeD)
      moreover have "0 \<notin> set (tl ?cs)" using co(2) unfolding tl_take by (meson in_set_takeD)
      moreover have "?cs \<noteq> []" "distinct ?cs" "concat (ess @ [cur]) = entries ?es" using k(1) dc f(2) by auto
      ultimately show ?thesis unfolding on_volume_def by blast
    qed
    moreover have "hd ?c = hd (rv_chain vol)" using f(3) k(1) ne by (cases "?c = []") (simp_all add: hd_conv_nth)
    ultimately show ?thesis using p(2) fb l(3) p(3,4,6) k(7) by (auto simp: flush_ready_def)
  qed
qed

text \<open>The whole flush, with or without a chain to begin with.\<close>

lemma registry_flush_ok:
  assumes ok: "reg_ok reg" "\<forall>i e. tag_entry reg i = Some e \<longrightarrow> storable e" and vol: "registry_fits run first vol"
  shows "\<exists>done' reg' vol'. tag_registry_flush env first reg vol = Some (done', reg', vol') \<and>
    (done' \<longrightarrow> on_volume run first (entries (take (tr_next_id reg) (tr_by_id reg))) vol' \<and> in_region (rv_io vol') = in_region (rv_io vol) \<and>
       registry_fits run first vol') \<and>
    (flush_ready env (tr_next_id reg) vol \<longrightarrow> done' \<and> \<not> io_medium_left (rv_io vol'))"
proof -
  have fits: "registry_fits run first v" if "chain_ok run v" "hd (rv_chain v) = first" for v
    using that by (auto simp: registry_fits_def start_chain_def chain_ok_def chain_fits_def)
  show ?thesis
  proof (cases "rv_chain vol = []")
    case False
    then have "chain_ok run vol" "hd (rv_chain vol) = first" using vol by (simp_all add: registry_fits_def start_chain_def chain_ok_def)
    then show ?thesis using flush_ok [OF ok, of run vol env] False fits unfolding tag_registry_flush_def by auto
  next
    case True
    have pre: "length (rv_chain vol) \<le> rv_chain_cap vol" "length (rv_chain vol) < 2 ^ 31" using True by simp_all
    obtain ok' cap where a0: "chain_append env vol first = Some (ok', if ok' then vol\<lparr>rv_chain := rv_chain vol @ [first], rv_chain_cap := cap\<rparr> else vol)"
        "re_grow env (length (rv_chain vol)) \<longrightarrow> ok'" "ok' \<longrightarrow> length (rv_chain vol) + 1 \<le> cap"
      using append_ok [OF pre, of env first] by blast
    have a: "chain_append env vol first = Some (ok', if ok' then vol\<lparr>rv_chain := [first], rv_chain_cap := cap\<rparr> else vol)"
        "re_grow env 0 \<longrightarrow> ok'" "ok' \<longrightarrow> 1 \<le> cap"
      using a0 True by simp_all
    show ?thesis
    proof (cases ok')
      case no: False
      then have "tag_registry_flush env first reg vol = Some (False, reg, vol)" using a(1) True by (simp add: tag_registry_flush_def)
      moreover have "\<not> flush_ready env (tr_next_id reg) vol" using no a(2) by (auto simp: flush_ready_def registry_env_works_def)
      ultimately show ?thesis by (intro exI [of _ False] exI [of _ reg] exI [of _ vol]) simp
    next
      case yes: True
      let ?vol = "vol\<lparr>rv_chain := [first], rv_chain_cap := cap\<rparr>"
      have "chain_ok run ?vol" using vol True yes a(3) by (simp add: registry_fits_def start_chain_def chain_ok_def)
      moreover have "flush_ready env (tr_next_id reg) vol \<Longrightarrow> flush_ready env (tr_next_id reg) ?vol" using True by (simp add: flush_ready_def chain_room_def)
      moreover have "tag_registry_flush env first reg vol = flush_body env reg ?vol" using a(1) yes True by (simp add: tag_registry_flush_def)
      ultimately show ?thesis using flush_ok [OF ok, of run ?vol env] fits by auto
    qed
  qed
qed

lemma load_on_volume:
  assumes reg: "reg_ok reg" and es: "on_volume run first (entries (take (tr_next_id reg) (tr_by_id reg))) vol" and run: "run < 2 ^ 31"
    and io: "sound (rv_io vol)" "\<not> io_medium_left (rv_io vol)" and env: "registry_env_works env" "\<forall>i j. all_intern_mem (mems i j)"
    and reg0: "reg_ok reg0" "tag_entry reg0 = Map.empty"
  shows "\<exists>reg2 vol2. tag_registry_load env mems run reg0 first vol = Some (True, reg2, vol2) \<and> tag_entry reg2 = tag_entry reg"
proof -
  obtain cs ess where c: "chain_holds (vol_block vol) cs ess" "cs \<noteq> []" "hd cs = first" "distinct cs" "\<forall>b\<in>set cs. b < run"
      "\<forall>b\<in>set cs. \<not> in_region (rv_io vol) b" "0 \<notin> set (tl cs)" "concat ess = entries (take (tr_next_id reg) (tr_by_id reg))"
    using es unfolding on_volume_def by blast
  note e = reg_entries [OF reg, folded c(8)]
  have h: "chain_holds (vol_block (chain_release vol)) cs ess" by (rule chain_holds_cong [OF c(1)]) (simp add: chain_release_def vol_block_def)
  have "tag_entry reg0 = emap (concat (take 0 ess))" by (simp add: reg0(2) emap_def fun_eq_iff)
  then obtain reg2 vol2 where "load_loop env mems run (cs ! 0) 0 reg0 (chain_release vol) = Some (True, reg2, vol2)"
      "tag_entry reg2 = emap (concat ess)"
    using load_chain [OF c(4,5,7) run env e(1,3), of 0 "chain_release vol" reg0] c(2,6) h io reg0(1) by (auto simp: chain_release_def)
  moreover have "0 < run" using c(2,5) by (cases cs) auto
  ultimately show ?thesis using e(2) c(2,3) by (simp add: tag_registry_load_def hd_conv_nth)
qed


section \<open>Reachable registries\<close>

text \<open>The first argument says that no allocation for a key group has failed so far.\<close>

inductive registry_reachable :: "bool \<Rightarrow> TagRegistry \<Rightarrow> bool" where
  init: "tag_registry_init a b c d = Some reg \<Longrightarrow> registry_reachable True reg"
| intern: "registry_reachable g reg \<Longrightarrow> tag_registry_intern mem reg k v = Some (r, reg') \<Longrightarrow> registry_reachable (g \<and> group_mem mem) reg'"
| mark: "registry_reachable g reg \<Longrightarrow> registry_reachable g (tag_registry_mark_system reg i)"
| load: "registry_reachable g reg \<Longrightarrow> tag_registry_load env mems run reg b vol = Some (ok, reg', vol') \<Longrightarrow>
    registry_reachable (g \<and> (\<forall>i j. group_mem (mems i j))) reg'"
| flush: "registry_reachable g reg \<Longrightarrow> tag_registry_flush env b reg vol = Some (ok, reg', vol') \<Longrightarrow> registry_reachable g reg'"

lemma flush_keeps: "tag_registry_flush env b reg vol = Some (ok, reg', vol') \<Longrightarrow> reg' = reg \<or> reg' = reg\<lparr>tr_dirty := False\<rparr>"
  by (auto simp: tag_registry_flush_def flush_body_def split: if_splits bind_splits prod.splits)

lemma dirty_irrelevant:
  "reg_ok (reg\<lparr>tr_dirty := d\<rparr>) = reg_ok reg" "groups_complete (reg\<lparr>tr_dirty := d\<rparr>) = groups_complete reg"
proof -
  let ?r = "reg\<lparr>tr_dirty := d\<rparr>"
  have n: "tag_name ?r = tag_name reg" by (rule name_cong) simp
  note c = groups_cong [OF n]
  have "names_ok ?r = names_ok reg" unfolding names_ok_def n by simp
  then show "reg_ok ?r = reg_ok reg" "groups_complete ?r = groups_complete reg" using c by (simp_all add: reg_ok_def)
qed

lemma registry_reachable_ok: "registry_reachable g reg \<Longrightarrow> reg_ok reg \<and> (g \<longrightarrow> groups_complete reg)"
proof (induction rule: registry_reachable.induct)
  case (init a b c d reg)
  then show ?case using init_registry by blast
next
  case (intern g reg mem k v r reg')
  then show ?case using intern_ok [of reg mem k v] by (auto simp: interned_def tag_registry_intern_def)
next
  case (mark g reg i)
  then show ?case using set_flags_ok [of reg "\<lambda>flags. flags OR TAGFS_TAG_FLAG_SYSTEM" i] by (simp add: tag_registry_mark_system_def)
next
  case (load g reg env mems run b vol ok reg' vol')
  then show ?case using load_loop_keeps [of env mems run b 0 reg "chain_release vol" ok reg' vol']
    by (auto simp: tag_registry_load_def split: if_splits)
next
  case (flush g reg env b vol ok reg' vol')
  then show ?case using flush_keeps [OF flush(2)] dirty_irrelevant [where reg = reg and d = False] by auto
qed

section \<open>Properties\<close>

definition ample :: InternMem where
  "ample = \<lparr>im_by_id = (\<lambda>_. True), im_entry = True, im_key = True, im_value = True, im_node = True,
     im_group = True, im_group_key = True, im_group_ids = True, im_group_grow = True\<rparr>"

lemma ample_ok: "all_intern_mem ample" "group_mem ample" "intern_mem ample v"
  by (simp_all add: all_intern_mem_def intern_mem_def entry_mem_def group_mem_def ample_def)

definition put_name :: "TagRegistry \<Rightarrow> bytes \<times> bytes option \<Rightarrow> TagRegistry" where
  "put_name reg t = snd (the (tag_registry_intern ample reg (fst t) (snd t)))"

definition sample_registry :: TagRegistry where
  "sample_registry = put_name (put_name (the (tag_registry_init True True True False)) ([107], Some [49])) ([107], None)"

lemma put_name_ok:
  assumes "registry_reachable True reg" "tr_next_id reg \<le> TAGFS_MAX_TAG_ID" "\<forall>j. tag_name reg j \<noteq> Some (k, v)"
  shows "registry_reachable True (put_name reg (k, v))"
    "tag_entry (put_name reg (k, v)) = (tag_entry reg)(tr_next_id reg \<mapsto> new_entry (tr_next_id reg) k v)"
    "tr_next_id (put_name reg (k, v)) = tr_next_id reg + 1"
proof -
  have ok: "reg_ok reg" using registry_reachable_ok [OF assms(1)] by blast
  obtain r reg' where r: "tag_registry_intern ample reg k v = Some (r, reg')" "interned ample reg (tr_next_id reg) k v r reg'"
      "r \<noteq> TAGFS_INVALID_TAG_ID"
    using intern_ok [OF ok, of ample k v] ample_ok(3) assms(2) by (auto simp: tag_registry_intern_def)
  have p: "put_name reg (k, v) = reg'" using r(1) by (simp add: put_name_def)
  show "registry_reachable True (put_name reg (k, v))" using registry_reachable.intern [OF assms(1) r(1)] ample_ok(2) p by simp
  show "tag_entry (put_name reg (k, v)) = (tag_entry reg)(tr_next_id reg \<mapsto> new_entry (tr_next_id reg) k v)"
    "tr_next_id (put_name reg (k, v)) = tr_next_id reg + 1"
    using r(2,3) assms(3) p by (auto simp: interned_def)
qed

lemma sample_registry_ok:
  "registry_reachable True sample_registry" "tr_next_id sample_registry = 2"
  "tag_entry sample_registry = [0 \<mapsto> new_entry 0 [107] (Some [49]), 1 \<mapsto> new_entry 1 [107] None]"
proof -
  define r0 where "r0 = the (tag_registry_init True True True False)"
  have i: "tag_registry_init True True True False = Some r0" by (simp add: r0_def tag_registry_init_def)
  note z = init_registry [OF i]
  have r0: "registry_reachable True r0" by (rule registry_reachable.init [OF i])
  have max: "0 \<le> TAGFS_MAX_TAG_ID" "1 \<le> TAGFS_MAX_TAG_ID" by (simp_all add: TAGFS_MAX_TAG_ID_def)
  have n0: "\<forall>j. tag_name r0 j \<noteq> Some ([107], Some [49])" using z(2) by (simp add: name_entry)
  have m0: "tr_next_id r0 \<le> TAGFS_MAX_TAG_ID" using z(4) by simp
  define r1 where "r1 = put_name r0 ([107], Some [49])"
  note p1 = put_name_ok [OF r0 m0 n0, folded r1_def, unfolded z(2,4)]
  have n1: "\<forall>j. tag_name r1 j \<noteq> Some ([107], None)" using p1(2) by (simp add: name_entry new_entry_def)
  have m1: "tr_next_id r1 \<le> TAGFS_MAX_TAG_ID" using p1(3) max by simp
  note p2 = put_name_ok [OF p1(1) m1 n1]
  have s: "sample_registry = put_name r1 ([107], None)" by (simp add: sample_registry_def r1_def r0_def)
  show "registry_reachable True sample_registry" "tr_next_id sample_registry = 2"
    "tag_entry sample_registry = [0 \<mapsto> new_entry 0 [107] (Some [49]), 1 \<mapsto> new_entry 1 [107] None]"
    using p2 p1(2,3) s by simp_all
qed

text \<open>C37. Interning a tag in any reachable registry returns. A tag the registry knows gets the number it
  has and the registry is left as it was. A new one gets a number no tag had, which looking the tag up
  then finds and under which the registry shows its key and value; every other tag keeps its number or
  stays unknown. It fails only for a new tag, when an allocation does or the numbers are used up, and
  then changes no tag.\<close>
theorem registry_intern_lookup:
  assumes "registry_reachable g reg"
  shows "\<exists>r reg'. tag_registry_intern mem reg k v = Some (r, reg') \<and>
    (\<forall>i. tag_registry_lookup reg k v = Some i \<and> i \<noteq> TAGFS_INVALID_TAG_ID \<longrightarrow> r = i \<and> reg' = reg) \<and>
    (tag_registry_lookup reg k v = Some TAGFS_INVALID_TAG_ID \<longrightarrow> tag_registry_key reg r = None) \<and>
    (if r = TAGFS_INVALID_TAG_ID
     then (\<forall>k' v'. tag_registry_lookup reg' k' v' = tag_registry_lookup reg k' v') \<and>
       \<not> (intern_mem mem v \<and> tr_next_id reg \<le> TAGFS_MAX_TAG_ID)
     else tag_registry_lookup reg' k v = Some r \<and> tag_registry_key reg' r = Some k \<and> tag_registry_value reg' r = v \<and>
       (\<forall>k' v'. (k', v') \<noteq> (k, v) \<longrightarrow> tag_registry_lookup reg' k' v' = tag_registry_lookup reg k' v'))"
proof -
  have ok: "reg_ok reg" using registry_reachable_ok [OF assms] by blast
  then have n: "names_ok reg" by (simp add: reg_ok_def)
  obtain r reg' where r: "tag_registry_intern mem reg k v = Some (r, reg')" "interned mem reg (tr_next_id reg) k v r reg'"
      "intern_mem mem v \<and> tr_next_id reg \<le> TAGFS_MAX_TAG_ID \<longrightarrow> r \<noteq> TAGFS_INVALID_TAG_ID"
    using intern_ok [OF ok, of mem k v] by (auto simp: tag_registry_intern_def)
  have n': "names_ok reg'" using r(2) by (simp add: interned_def reg_ok_def)
  have same: "lookup_unlocked reg' k' v' = lookup_unlocked reg k' v'" if "\<forall>i. tag_name reg' i = Some (k', v') \<longleftrightarrow> tag_name reg i = Some (k', v')" for k' v'
  proof -
    obtain i where i: "lookup_unlocked reg k' v' = Some i" using lookup_name(3) [OF n] by blast
    have "lookup_unlocked reg' k' v' = Some i"
      using i lookup_name(1) [OF n, of i k' v'] lookup_name(1) [OF n', of i k' v'] lookup_name(2) [OF n, of k' v'] lookup_name(2) [OF n', of k' v'] that
      by (cases "i = TAGFS_INVALID_TAG_ID") simp_all
    then show ?thesis using i by simp
  qed
  have known: "r = i \<and> reg' = reg" if "tag_registry_lookup reg k v = Some i" "i \<noteq> TAGFS_INVALID_TAG_ID" for i
    using r(1) that by (simp add: tag_registry_intern_def tag_registry_lookup_def intern_unlocked_def)
  have "TAGFS_INVALID_TAG_ID \<notin> dom (tag_name reg)"
  proof
    assume "TAGFS_INVALID_TAG_ID \<in> dom (tag_name reg)"
    then have "TAGFS_INVALID_TAG_ID < tr_next_id reg" "tr_next_id reg \<le> TAGFS_MAX_TAG_ID + 1" using n by (simp_all add: names_ok_def)
    then show False using invalid_big by simp
  qed
  then have big: "tag_name reg TAGFS_INVALID_TAG_ID = None" by blast
  have fresh: "tag_registry_key reg r = None" if "tag_registry_lookup reg k v = Some TAGFS_INVALID_TAG_ID"
  proof -
    have "tag_name reg r \<noteq> Some (k, v)" using lookup_name(2) [OF n, of k v] that by (simp add: tag_registry_lookup_def)
    then have "tag_entry reg r = None" using r(2) big by (auto simp: interned_def name_entry split: if_splits)
    then show ?thesis unfolding tag_registry_key_def entry_of_tag [OF n] by simp
  qed
  show ?thesis
  proof (cases "r = TAGFS_INVALID_TAG_ID")
    case True
    then have "tag_name reg' = tag_name reg" using r(2) by (simp add: interned_def name_entry fun_eq_iff)
    then show ?thesis using r(1,3) True same known fresh by (auto simp: tag_registry_lookup_def)
  next
    case False
    have nm: "tag_name reg' = (tag_name reg)(r \<mapsto> (k, v))" and e: "tag_entry reg' r \<noteq> None"
      and old: "tag_name reg r = None \<or> tag_name reg r = Some (k, v)"
      using r(2) False by (auto simp: interned_def name_entry fun_eq_iff new_entry_def split: if_splits)
    then have "lookup_unlocked reg' k v = Some r" using lookup_name(1) [OF n' False] by simp
    moreover have "lookup_unlocked reg' k' v' = lookup_unlocked reg k' v'" if "(k', v') \<noteq> (k, v)" for k' v'
      by (rule same) (use nm old that in auto)
    moreover have "tag_registry_key reg' r = Some k" "tag_registry_value reg' r = v"
      using name_entry [of reg' r] nm e unfolding tag_registry_key_def tag_registry_value_def entry_of_tag [OF n'] by auto
    ultimately show ?thesis using r(1) False known fresh by (simp add: tag_registry_lookup_def)
  qed
qed

theorem registry_intern_lookup_witness:
  "(\<exists>r reg'. tag_registry_intern ample sample_registry [120] None = Some (r, reg') \<and> tag_registry_lookup reg' [120] None = Some r) \<and>
   tag_registry_intern ample sample_registry [107] None = Some (1, sample_registry)"
proof
  have "tr_next_id sample_registry \<le> TAGFS_MAX_TAG_ID" by (simp add: sample_registry_ok(2) TAGFS_MAX_TAG_ID_def)
  then show "\<exists>r reg'. tag_registry_intern ample sample_registry [120] None = Some (r, reg') \<and> tag_registry_lookup reg' [120] None = Some r"
    using registry_intern_lookup [OF sample_registry_ok(1), of ample "[120]" None] ample_ok(3) by (auto split: if_splits)
  have n: "names_ok sample_registry" using registry_reachable_ok [OF sample_registry_ok(1)] by (simp add: reg_ok_def)
  have "tag_name sample_registry 1 = Some ([107], None)" by (simp add: name_entry sample_registry_ok(3) new_entry_def)
  moreover have one: "1 \<noteq> TAGFS_INVALID_TAG_ID" by (simp add: TAGFS_INVALID_TAG_ID_def)
  ultimately have "tag_registry_lookup sample_registry [107] None = Some 1"
    using lookup_name(1) [OF n one] by (simp add: tag_registry_lookup_def)
  then show "tag_registry_intern ample sample_registry [107] None = Some (1, sample_registry)"
    using registry_intern_lookup [OF sample_registry_ok(1), of ample "[107]" None] one by auto
qed

text \<open>In every reachable registry numbers and tags determine each other: looking up a tag gives
  exactly the number under which its key and value are stored, below next\_id; the counter counts the
  tags; and, as long as no allocation for a group failed, the group of a key lists exactly the numbers
  of its tags, each once.\<close>
theorem registry_consistent:
  assumes "registry_reachable g reg"
  shows "(\<forall>k v i. i \<noteq> TAGFS_INVALID_TAG_ID \<longrightarrow>
      tag_registry_lookup reg k v = Some i \<longleftrightarrow> tag_registry_key reg i = Some k \<and> tag_registry_value reg i = v) \<and>
    (\<forall>i. tag_registry_key reg i \<noteq> None \<longrightarrow> i < tr_next_id reg) \<and>
    tr_total_tags reg = card {i. tag_registry_key reg i \<noteq> None} \<and>
    (g \<longrightarrow> (\<forall>k. distinct (group_tags reg k) \<and> set (group_tags reg k) = {i. tag_registry_key reg i = Some k}))"
proof (intro conjI allI impI)
  have ok: "reg_ok reg" and gc: "g \<Longrightarrow> groups_complete reg" using registry_reachable_ok [OF assms] by auto
  then have n: "names_ok reg" by (simp add: reg_ok_def)
  have nm: "tag_registry_key reg i = Some k \<and> tag_registry_value reg i = v \<longleftrightarrow> tag_name reg i = Some (k, v)" for i k v
    unfolding tag_registry_key_def tag_registry_value_def entry_of_tag [OF n] by (cases "tag_entry reg i") (auto simp: name_entry)
  have ky: "tag_registry_key reg i = Some k \<longleftrightarrow> (\<exists>v. tag_name reg i = Some (k, v))" for i k
    unfolding tag_registry_key_def entry_of_tag [OF n] by (auto simp: name_entry)
  have dm: "tag_registry_key reg i \<noteq> None \<longleftrightarrow> i \<in> dom (tag_name reg)" for i using ky [of i] by force
  show "tag_registry_lookup reg k v = Some i \<longleftrightarrow> tag_registry_key reg i = Some k \<and> tag_registry_value reg i = v"
    if "i \<noteq> TAGFS_INVALID_TAG_ID" for k v i
    using lookup_name(1) [OF n that] nm by (simp add: tag_registry_lookup_def)
  show "i < tr_next_id reg" if "tag_registry_key reg i \<noteq> None" for i using that dm n by (simp add: names_ok_def)
  have "{i. tag_registry_key reg i \<noteq> None} = dom (tag_name reg)" using dm by blast
  then show "tr_total_tags reg = card {i. tag_registry_key reg i \<noteq> None}" using n by (simp add: names_ok_def)
  show "set (group_tags reg k) = {i. tag_registry_key reg i = Some k}" if g for k using gc [OF that] ky by (simp add: groups_complete_def)
  show "distinct (group_tags reg k)" for k
  proof (cases "tag_registry_key_group reg k")
    case (Some x)
    have len: "length (tr_key_buckets reg) = TAGFS_KEY_BUCKETS" using ok by (simp add: reg_ok_def groups_ok_def)
    then have "x \<in> set (tr_key_buckets reg ! key_hash k TAGFS_KEY_BUCKETS)" using Some by (auto simp: tag_registry_key_group_def find_Some_iff)
    then have "group_ok reg (key_hash k TAGFS_KEY_BUCKETS) x" using ok by (simp add: reg_ok_def groups_ok_def)
    then show ?thesis using Some by (simp add: group_tags_def group_ok_def)
  qed (simp add: group_tags_def)
qed

theorem registry_consistent_witness:
  "set (group_tags sample_registry [107]) = {0, 1} \<and> tag_registry_lookup sample_registry [107] None = Some 1"
proof -
  have n: "names_ok sample_registry" using registry_reachable_ok [OF sample_registry_ok(1)] by (simp add: reg_ok_def)
  have k: "tag_registry_key sample_registry i = (if i = 0 \<or> i = 1 then Some [107] else None)" for i
    unfolding tag_registry_key_def entry_of_tag [OF n] sample_registry_ok(3) by (auto simp: new_entry_def)
  have v: "tag_registry_value sample_registry 1 = None"
    unfolding tag_registry_value_def entry_of_tag [OF n] sample_registry_ok(3) by (simp add: new_entry_def)
  have "{i. tag_registry_key sample_registry i = Some [107]} = {0, 1}" using k by (auto split: if_splits)
  moreover have "1 \<noteq> TAGFS_INVALID_TAG_ID" by (simp add: TAGFS_INVALID_TAG_ID_def)
  ultimately show ?thesis using registry_consistent [OF sample_registry_ok(1)] k v by auto
qed


text \<open>C9. Writing a reachable registry of storable tags to a volume in order returns, whether the chain of
  blocks is known or not yet begun; it succeeds when the accesses work, there is memory and the volume
  has more blocks for the chain than the registry has numbers. After a successful write, loading the
  chain from its first block into an empty registry, on a volume with these contents where memory and
  accesses are available, succeeds and restores every tag under its number with its key, value and
  flags, over any number of blocks. A tag is storable when its key is shorter than 256 bytes, its value
  is not the empty string, and its record fits in a block.\<close>
theorem registry_round_trip:
  assumes "registry_reachable g reg" "\<forall>i e. tag_entry reg i = Some e \<longrightarrow> storable e" "registry_fits run first vol"
    "tag_registry_init True True True d = Some reg0"
  shows "\<exists>ok reg1 vol1. tag_registry_flush env first reg vol = Some (ok, reg1, vol1) \<and>
    (registry_env_works env \<and> \<not> io_medium_left (rv_io vol) \<and> tr_next_id reg < chain_room vol \<longrightarrow> ok \<and> \<not> io_medium_left (rv_io vol1)) \<and>
    (ok \<longrightarrow> registry_fits run first vol1 \<and> in_region (rv_io vol1) = in_region (rv_io vol) \<and>
      (\<forall>env' mems vol'. registry_env_works env' \<and> (\<forall>i j. all_intern_mem (mems i j)) \<and> sound (rv_io vol') \<and>
         \<not> io_medium_left (rv_io vol') \<and> in_region (rv_io vol') = in_region (rv_io vol) \<and>
         (\<forall>b. \<not> in_region (rv_io vol') b \<longrightarrow> on_disk (rv_io vol') b = on_disk (rv_io vol1) b) \<longrightarrow>
       (\<exists>reg2 vol2. tag_registry_load env' mems run reg0 first vol' = Some (True, reg2, vol2) \<and> tag_entry reg2 = tag_entry reg)))"
proof -
  have ok: "reg_ok reg" using registry_reachable_ok [OF assms(1)] by blast
  let ?es = "entries (take (tr_next_id reg) (tr_by_id reg))"
  obtain fin reg1 vol1 where f: "tag_registry_flush env first reg vol = Some (fin, reg1, vol1)"
      "fin \<longrightarrow> on_volume run first ?es vol1 \<and> in_region (rv_io vol1) = in_region (rv_io vol) \<and> registry_fits run first vol1"
      "flush_ready env (tr_next_id reg) vol \<longrightarrow> fin \<and> \<not> io_medium_left (rv_io vol1)"
    using registry_flush_ok [OF ok assms(2,3), of env] by blast
  have run: "run < 2 ^ 31" using assms(3) by (simp add: registry_fits_def)
  have "\<exists>reg2 vol2. tag_registry_load env' mems run reg0 first vol' = Some (True, reg2, vol2) \<and> tag_entry reg2 = tag_entry reg"
    if v: fin "registry_env_works env'" "\<forall>i j. all_intern_mem (mems i j)" "sound (rv_io vol')" "\<not> io_medium_left (rv_io vol')"
      "in_region (rv_io vol') = in_region (rv_io vol)" "\<forall>b. \<not> in_region (rv_io vol') b \<longrightarrow> on_disk (rv_io vol') b = on_disk (rv_io vol1) b"
    for env' mems vol'
  proof (rule load_on_volume [OF ok _ run v(4,5,2,3) init_registry(1,2) [OF assms(4)]])
    obtain cs ess where c: "chain_holds (vol_block vol1) cs ess" "cs \<noteq> []" "hd cs = first" "distinct cs"
        "\<forall>b\<in>set cs. b < run \<and> \<not> in_region (rv_io vol1) b" "0 \<notin> set (tl cs)" "concat ess = ?es"
      using f(2) v(1) unfolding on_volume_def by blast
    have reg: "in_region (rv_io vol1) = in_region (rv_io vol')" using f(2) v(1,6) by simp
    have "chain_holds (vol_block vol') cs ess"
      by (rule chain_holds_cong [OF c(1)]) (use c(5) v(7) reg in \<open>simp add: vol_block_def\<close>)
    then show "on_volume run first ?es vol'" unfolding on_volume_def using c(2-7) reg by auto
  qed
  then show ?thesis using f by (auto simp: flush_ready_def)
qed

definition sample_env :: RegistryEnv where
  "sample_env = \<lparr>re_grow = \<lambda>_. True, re_door = True, re_io = \<lambda>_. good_env\<rparr>"

definition sample_volume :: RegistryVolume where
  "sample_volume = \<lparr>rv_chain = [], rv_chain_cap = 0, rv_io = one_disk, rv_space = small_space\<rparr>"

lemma sample_volume_fits: "registry_fits 16 5 sample_volume" "chain_room sample_volume = 13" "registry_env_works sample_env"
proof -
  have fits: "chain_fits 16 (in_region one_disk) [5] ({2..<5} \<union> {6..<16})"
    unfolding one_disk_healthy(2) by (auto simp: chain_fits_def fresh_map_ok)
  then show "registry_fits 16 5 sample_volume"
    using grown_table_fits(5) small_whole by (simp add: registry_fits_def start_chain_def sample_volume_def small_free)
  have "card ({2..<5} \<union> {6..<16::nat}) = 13" by (subst card_Un_disjoint) auto
  then show "chain_room sample_volume = 13" by (simp add: chain_room_def sample_volume_def small_free)
  show "registry_env_works sample_env" by (simp add: registry_env_works_def sample_env_def good_env_works)
qed

theorem registry_round_trip_witness:
  "\<exists>reg1 vol1 reg2 vol2. tag_registry_flush sample_env 5 sample_registry sample_volume = Some (True, reg1, vol1) \<and>
     tag_registry_load sample_env (\<lambda>_ _. ample) 16 (the (tag_registry_init True True True False)) 5 vol1 = Some (True, reg2, vol2) \<and>
     tag_entry reg2 = [0 \<mapsto> new_entry 0 [107] (Some [49]), 1 \<mapsto> new_entry 1 [107] None]"
proof -
  have st: "\<forall>i e. tag_entry sample_registry i = Some e \<longrightarrow> storable e"
    unfolding sample_registry_ok(3) by (auto simp: storable_def new_entry_def TAGFS_MAX_TAG_ID_def TAGFS_REGISTRY_DATA_SIZE_def split: if_splits)
  have init: "tag_registry_init True True True False = Some (the (tag_registry_init True True True False))" by (simp add: tag_registry_init_def)
  have io: "\<not> io_medium_left (rv_io sample_volume)" "tr_next_id sample_registry < chain_room sample_volume"
    using grown_table_fits(4) sample_volume_fits(2) sample_registry_ok(2) by (simp_all add: sample_volume_def)
  obtain ok reg1 vol1 where f: "tag_registry_flush sample_env 5 sample_registry sample_volume = Some (ok, reg1, vol1)"
    "ok" "\<not> io_medium_left (rv_io vol1)" "registry_fits 16 5 vol1" "in_region (rv_io vol1) = in_region (rv_io sample_volume)"
    "\<And>env' mems vol'. registry_env_works env' \<and> (\<forall>i j. all_intern_mem (mems i j)) \<and> sound (rv_io vol') \<and>
         \<not> io_medium_left (rv_io vol') \<and> in_region (rv_io vol') = in_region (rv_io sample_volume) \<and>
         (\<forall>b. \<not> in_region (rv_io vol') b \<longrightarrow> on_disk (rv_io vol') b = on_disk (rv_io vol1) b) \<Longrightarrow>
       \<exists>reg2 vol2. tag_registry_load env' mems 16 (the (tag_registry_init True True True False)) 5 vol' = Some (True, reg2, vol2) \<and>
         tag_entry reg2 = tag_entry sample_registry"
    using registry_round_trip [OF sample_registry_ok(1) st sample_volume_fits(1) init, of sample_env] sample_volume_fits(3) io by blast
  have "sound (rv_io vol1)" using f(4) by (simp add: registry_fits_def)
  then have "\<exists>reg2 vol2. tag_registry_load sample_env (\<lambda>_ _. ample) 16 (the (tag_registry_init True True True False)) 5 vol1 = Some (True, reg2, vol2) \<and>
       tag_entry reg2 = tag_entry sample_registry"
    using f(3,5) ample_ok(1) sample_volume_fits(3) by (intro f(6)) simp
  then show ?thesis using f(1,2) unfolding sample_registry_ok(3) by auto
qed

end
