(* ===== verification/RefTable.thy ===== *)
theory RefTable
  imports Main
begin

text \<open>
  The contract of a table of reference counts: \<open>refs s b\<close> is the number of references to \<open>b\<close> (0 when
  \<open>b\<close> is not in the table), \<open>acquire\<close> adds one to an object that is there, \<open>release\<close> gives one back
  and says whether the object may now be reclaimed. The client lemmas are about any sequence of
  acquisitions and releases.
\<close>

datatype 'b ref_op = Acquire 'b | Release 'b

locale ref_table =
  fixes ok :: "'s \<Rightarrow> bool"
    and refs :: "'s \<Rightarrow> 'b \<Rightarrow> nat"
    and acquire :: "'b \<Rightarrow> 's \<Rightarrow> 's option"
    and release :: "'b \<Rightarrow> 's \<Rightarrow> ('s \<times> bool) option"
  assumes acquire_law: "ok s \<Longrightarrow> acquire b s = Some s' \<Longrightarrow> ok s' \<and> 0 < refs s b \<and> refs s' = (refs s)(b := refs s b + 1)"
    and release_law: "ok s \<Longrightarrow> release b s = Some (s', r) \<Longrightarrow>
      ok s' \<and> 0 < refs s b \<and> refs s' = (refs s)(b := refs s b - 1) \<and> (r \<longleftrightarrow> refs s b = 1)"
    and release_refused: "ok s \<Longrightarrow> release b s = None \<longleftrightarrow> refs s b = 0"
begin

text \<open>A run: the references taken and given back, and the objects reported as reclaimable, in order.\<close>

primrec run :: "'b ref_op list \<Rightarrow> 's \<Rightarrow> 'b list \<times> 'b list \<times> 'b list \<times> 's" where
  "run [] s = ([], [], [], s)"
| "run (oper # opers) s =
     (case oper of
        Acquire b \<Rightarrow> (case acquire b s of
            None \<Rightarrow> run opers s
          | Some s1 \<Rightarrow> (case run opers s1 of (a, g, c, s2) \<Rightarrow> (b # a, g, c, s2)))
      | Release b \<Rightarrow> (case release b s of
            None \<Rightarrow> run opers s
          | Some (s1, r) \<Rightarrow> (case run opers s1 of (a, g, c, s2) \<Rightarrow> (a, b # g, (if r then b # c else c), s2))))"

text \<open>The books balance: references at the end are those at the start plus taken minus given back.\<close>

lemma run_balance:
  "ok s \<Longrightarrow> run opers s = (taken, given, reclaimed, s') \<Longrightarrow>
     ok s' \<and> refs s' b + count_list given b = refs s b + count_list taken b"
proof (induction opers arbitrary: s taken given reclaimed)
  case (Cons oper opers)
  show ?case
  proof (cases oper)
    case (Acquire x)
    show ?thesis
    proof (cases "acquire x s")
      case None
      then show ?thesis using Cons Acquire by simp
    next
      case (Some s1)
      then show ?thesis using Cons.IH [of s1] Cons.prems acquire_law [OF Cons.prems(1) Some] Acquire
        by (auto split: prod.splits)
    qed
  next
    case (Release x)
    show ?thesis
    proof (cases "release x s")
      case None
      then show ?thesis using Cons Release by simp
    next
      case (Some r)
      obtain s1 f where r: "r = (s1, f)" by (cases r)
      note law = release_law [of s x s1 f]
      obtain a g c where rest: "run opers s1 = (a, g, c, s')" "taken = a" "given = x # g"
        using Cons.prems(2) Release Some r by (auto split: prod.splits)
      then show ?thesis using Cons.IH [OF _ rest(1)] law Cons.prems(1) Some r by (cases "b = x") auto
    qed
  qed
qed simp

text \<open>An object that is gone stays gone: references are only added to objects that are there.\<close>

lemma run_gone:
  "ok s \<Longrightarrow> run opers s = (taken, given, reclaimed, s') \<Longrightarrow> refs s b = 0 \<Longrightarrow> refs s' b = 0"
proof (induction opers arbitrary: s taken given reclaimed)
  case (Cons oper opers)
  show ?case
  proof (cases oper)
    case (Acquire x)
    show ?thesis
    proof (cases "acquire x s")
      case None
      then show ?thesis using Cons Acquire by simp
    next
      case (Some s1)
      have "ok s1" "refs s1 b = 0" using acquire_law [OF Cons.prems(1) Some] Cons.prems(3) by auto
      then show ?thesis using Cons.IH [of s1] Cons.prems(2) Acquire Some by (auto split: prod.splits)
    qed
  next
    case (Release x)
    show ?thesis
    proof (cases "release x s")
      case None
      then show ?thesis using Cons Release by simp
    next
      case (Some r)
      obtain s1 f where r: "r = (s1, f)" by (cases r)
      have "ok s1" "refs s1 b = 0" using release_law [of s x s1 f] Cons.prems(1,3) Some r by auto
      then show ?thesis using Cons.IH [of s1] Cons.prems(2) Release Some r by (auto split: prod.splits)
    qed
  qed
qed simp

text \<open>Nothing is reclaimed while a reference is out, and a reclaimed object is gone at the end.\<close>

lemma run_reclaim:
  "ok s \<Longrightarrow> run opers s = (taken, given, reclaimed, s') \<Longrightarrow> b \<in> set reclaimed \<Longrightarrow> refs s' b = 0"
proof (induction opers arbitrary: s taken given reclaimed)
  case (Cons oper opers)
  show ?case
  proof (cases oper)
    case (Acquire x)
    show ?thesis
    proof (cases "acquire x s")
      case None
      then show ?thesis using Cons Acquire by simp
    next
      case (Some s1)
      then show ?thesis using Cons.IH [of s1] Cons.prems acquire_law [OF Cons.prems(1) Some] Acquire
        by (auto split: prod.splits)
    qed
  next
    case (Release x)
    show ?thesis
    proof (cases "release x s")
      case None
      then show ?thesis using Cons Release by simp
    next
      case (Some r)
      obtain s1 f where r: "r = (s1, f)" by (cases r)
      have law: "ok s1" "refs s1 = (refs s)(x := refs s x - 1)" "f \<longleftrightarrow> refs s x = 1"
        using release_law [of s x s1 f] Cons.prems(1) Some r by auto
      obtain a g c where rest: "run opers s1 = (a, g, c, s')" "reclaimed = (if f then x # c else c)"
        using Cons.prems(2) Release Some r by (auto split: prod.splits)
      show ?thesis
      proof (cases "b \<in> set c")
        case True
        then show ?thesis using Cons.IH [OF law(1) rest(1)] by simp
      next
        case False
        then have "f" "b = x" using Cons.prems(3) rest(2) by (auto split: if_splits)
        then show ?thesis using run_gone [OF law(1) rest(1)] law(2,3) by simp
      qed
    qed
  qed
qed simp

end

end
