(* ===== verification/Dedup.thy ===== *)
theory Dedup
  imports BoxHash ChainTable RefTable
begin

unbundle bit_operations_syntax

text \<open>
  Block deduplication, kernel/tagfs/dedup/dedup.c. An entry describes one physical block: the hash of
  its contents, its reference count, times and a tag. Every entry is in two chained tables, one by
  hash and one by block number. Entries live in a heap \<open>dd_entries\<close> keyed by address, as the two
  chains share them; a chain is the list of the addresses on it. The slab allocator is a parameter
  that looks at the heap and fails or names an address; \<open>now\<close> is what the real-time clock returns; the
  block allocator of the file system is a parameter too. Each operation runs under the lock;
  \<^verbatim>\<open>magic\<close>, \<^verbatim>\<open>version\<close> and \<^verbatim>\<open>gc_interval_entries\<close> are written once and never read.
  NULL arguments are not modelled.
\<close>

section \<open>State\<close>

definition DEDUP_HASH_BUCKETS :: nat where "DEDUP_HASH_BUCKETS = 8192"
definition DEDUP_MAX_REFS :: u32 where "DEDUP_MAX_REFS = 0xFFFF"
definition DEDUP_GC_THRESHOLD_SECS :: u64 where "DEDUP_GC_THRESHOLD_SECS = 3600"
definition TAGFS_BLOCK_SIZE :: u64 where "TAGFS_BLOCK_SIZE = 4096"

record DedupEntry =
  de_hash :: bytes
  de_physical_block :: u32
  de_ref_count :: u32
  de_create_time :: u64
  de_last_access :: u64
  de_tag_context :: u32

record DedupStats =
  ds_total_blocks :: u64
  ds_unique_blocks :: u64
  ds_duplicate_blocks :: u64
  ds_bytes_saved :: u64
  ds_dedup_ratio :: u64
  ds_hash_collisions :: u32
  ds_gc_runs :: u32
  ds_entries_freed :: u32

record DedupState =
  dd_hash_ctx :: BoxHashContext
  dd_hash_table :: "nat list list"
  dd_block_table :: "nat list list"
  dd_entries :: "nat \<rightharpoonup> DedupEntry"
  dd_hash_buckets :: nat
  dd_entry_count :: u32
  dd_last_gc_time :: u64
  dd_stats :: DedupStats
  dd_initialized :: bool

type_synonym slab = "(nat \<rightharpoonup> DedupEntry) \<Rightarrow> nat option"

definition entry_at :: "DedupState \<Rightarrow> nat \<Rightarrow> DedupEntry" where
  "entry_at st e = the (dd_entries st e)"

definition set_entry :: "nat \<Rightarrow> (DedupEntry \<Rightarrow> DedupEntry) \<Rightarrow> DedupState \<Rightarrow> DedupState" where
  "set_entry e f st = st\<lparr>dd_entries := (dd_entries st)(e := Some (f (entry_at st e)))\<rparr>"

section \<open>Helpers\<close>

definition DedupComputeHash :: "DedupState \<Rightarrow> bytes \<Rightarrow> bytes" where
  "DedupComputeHash st data = the (BoxHashContent (Some data) (Some (dd_hash_ctx st)))"

definition DedupHashEqual :: "bytes \<Rightarrow> bytes \<Rightarrow> bool" where
  "DedupHashEqual a b = BoxHashEqual (Some a) (Some b)"

definition DedupHashBucket :: "bytes \<Rightarrow> nat" where
  "DedupHashBucket hash = unat ((le_get (take 4 hash) :: u32) AND of_nat (DEDUP_HASH_BUCKETS - 1))"

definition DedupBlockBucket :: "u32 \<Rightarrow> nat" where
  "DedupBlockBucket physical_block = unat (physical_block AND of_nat (DEDUP_HASH_BUCKETS - 1))"

definition DedupComputeTagContext :: "u32 \<Rightarrow> u32" where
  "DedupComputeTagContext tag_context = tag_context * 0x9e3779b9"

definition DedupFindByBlockLocked :: "DedupState \<Rightarrow> u32 \<Rightarrow> nat option" where
  "DedupFindByBlockLocked st physical_block =
     find (\<lambda>e. de_physical_block (entry_at st e) = physical_block) (dd_block_table st ! DedupBlockBucket physical_block)"

definition DedupLinkHashLocked :: "nat \<Rightarrow> DedupState \<Rightarrow> DedupState" where
  "DedupLinkHashLocked e st =
     st\<lparr>dd_hash_table := chain_link (DedupHashBucket (de_hash (entry_at st e))) e (dd_hash_table st)\<rparr>"

definition DedupUnlinkHashLocked :: "nat \<Rightarrow> DedupState \<Rightarrow> DedupState" where
  "DedupUnlinkHashLocked e st =
     st\<lparr>dd_hash_table := chain_unlink (DedupHashBucket (de_hash (entry_at st e))) e (dd_hash_table st)\<rparr>"

definition DedupUnlinkBlockLocked :: "nat \<Rightarrow> DedupState \<Rightarrow> DedupState" where
  "DedupUnlinkBlockLocked e st =
     st\<lparr>dd_block_table := chain_unlink (DedupBlockBucket (de_physical_block (entry_at st e))) e (dd_block_table st)\<rparr>"

definition DedupFreeEntry :: "nat \<Rightarrow> DedupState \<Rightarrow> DedupState" where
  "DedupFreeEntry e st = st\<lparr>dd_entries := (dd_entries st)(e := None)\<rparr>"

definition DedupEvictLocked :: "nat \<Rightarrow> DedupState \<Rightarrow> DedupState" where
  "DedupEvictLocked e st =
     (let st1 = DedupFreeEntry e (DedupUnlinkBlockLocked e (DedupUnlinkHashLocked e st));
          st2 = (if dd_entry_count st1 > 0 then st1\<lparr>dd_entry_count := dd_entry_count st1 - 1\<rparr> else st1);
          s = dd_stats st2
      in if ds_unique_blocks s > 0 then st2\<lparr>dd_stats := s\<lparr>ds_unique_blocks := ds_unique_blocks s - 1\<rparr>\<rparr> else st2)"

section \<open>Life cycle\<close>

definition no_stats :: DedupStats where
  "no_stats = \<lparr>ds_total_blocks = 0, ds_unique_blocks = 0, ds_duplicate_blocks = 0, ds_bytes_saved = 0,
     ds_dedup_ratio = 0, ds_hash_collisions = 0, ds_gc_runs = 0, ds_entries_freed = 0\<rparr>"

text \<open>The zeroed state and the hash context it gets; the two allocations succeed or fail.\<close>

definition TagFS_DedupInit :: "bool \<Rightarrow> bool \<Rightarrow> bytes \<Rightarrow> DedupState \<Rightarrow> error_t \<times> DedupState" where
  "TagFS_DedupInit hash_alloc block_alloc uuid st =
     (if dd_initialized st then (ERR_ALREADY_INITIALIZED, st)
      else
        let st0 = \<lparr>dd_hash_ctx = the (BoxHashInit (Some uuid)), dd_hash_table = [], dd_block_table = [],
                   dd_entries = Map.empty, dd_hash_buckets = DEDUP_HASH_BUCKETS, dd_entry_count = 0,
                   dd_last_gc_time = 0, dd_stats = no_stats, dd_initialized = False\<rparr>
        in if \<not> hash_alloc then (ERR_NO_MEMORY, st0)
           else if \<not> block_alloc then (ERR_NO_MEMORY, st0)
           else (OK, st0\<lparr>dd_hash_table := replicate DEDUP_HASH_BUCKETS [],
                         dd_block_table := replicate DEDUP_HASH_BUCKETS [], dd_initialized := True\<rparr>))"

definition TagFS_DedupShutdown :: "DedupState \<Rightarrow> DedupState" where
  "TagFS_DedupShutdown st =
     (if \<not> dd_initialized st then st
      else
        let freed = concat (take (dd_hash_buckets st) (dd_hash_table st))
        in st\<lparr>dd_entries := foldl (\<lambda>h e. h(e := None)) (dd_entries st) freed,
              dd_hash_table := [], dd_block_table := [], dd_entry_count := 0, dd_initialized := False\<rparr>)"

section \<open>Garbage collection\<close>

text \<open>
  The walk fetches the successor before it evicts, and evicting an entry leaves the rest of its chain
  as it is: the entries seen are those of the chain as it was.
\<close>

definition gc_entry :: "u64 \<Rightarrow> DedupState \<times> u32 \<Rightarrow> nat \<Rightarrow> DedupState \<times> u32" where
  "gc_entry now = (\<lambda>(st, freed) e.
     if de_ref_count (entry_at st e) \<le> 1 \<and> now - de_last_access (entry_at st e) > DEDUP_GC_THRESHOLD_SECS
     then (DedupEvictLocked e st, freed + 1) else (st, freed))"

definition gc_bucket :: "u64 \<Rightarrow> DedupState \<times> u32 \<Rightarrow> nat \<Rightarrow> DedupState \<times> u32" where
  "gc_bucket now = (\<lambda>(st, freed) i. foldl (gc_entry now) (st, freed) (dd_hash_table st ! i))"

definition TagFS_DedupGC :: "u64 \<Rightarrow> DedupState \<Rightarrow> error_t \<times> DedupState" where
  "TagFS_DedupGC now st =
     (if \<not> dd_initialized st then (ERR_NOT_INITIALIZED, st)
      else
        let (st1, freed) = foldl (gc_bucket now) (st, 0) [0..<dd_hash_buckets st]; s = dd_stats st1
        in (OK, st1\<lparr>dd_stats := s\<lparr>ds_gc_runs := ds_gc_runs s + 1, ds_entries_freed := ds_entries_freed s + freed\<rparr>,
                    dd_last_gc_time := now\<rparr>))"

section \<open>Lookup, registration and references\<close>

definition TagFS_DedupCheck :: "u64 \<Rightarrow> bytes \<Rightarrow> DedupState \<Rightarrow> error_t \<times> u32 option \<times> DedupState" where
  "TagFS_DedupCheck now block_data st =
     (if \<not> dd_initialized st then (ERR_NOT_INITIALIZED, None, st)
      else
        let hash = DedupComputeHash st block_data in
        case find (\<lambda>e. DedupHashEqual (de_hash (entry_at st e)) hash) (dd_hash_table st ! DedupHashBucket hash) of
          None \<Rightarrow> (ERR_OBJECT_NOT_FOUND, None, st)
        | Some e \<Rightarrow>
            let s = dd_stats st;
                st1 = st\<lparr>dd_stats := s\<lparr>ds_duplicate_blocks := ds_duplicate_blocks s + 1,
                                      ds_bytes_saved := ds_bytes_saved s + TAGFS_BLOCK_SIZE\<rparr>\<rparr>
            in (OK, Some (de_physical_block (entry_at st e)),
                set_entry e (\<lambda>x. x\<lparr>de_last_access := now\<rparr>) st1))"

text \<open>One round of the loop of \<^verbatim>\<open>TagFS_DedupRegister\<close>; \<open>None\<close> when no entry can be allocated.\<close>

definition rehash :: "nat \<Rightarrow> bytes \<Rightarrow> DedupState \<Rightarrow> DedupState" where
  "rehash e hash st =
     (if DedupHashEqual (de_hash (entry_at st e)) hash then st
      else DedupLinkHashLocked e (set_entry e (\<lambda>x. x\<lparr>de_hash := hash\<rparr>) (DedupUnlinkHashLocked e st)))"

definition add_entry :: "u64 \<Rightarrow> nat \<Rightarrow> u32 \<Rightarrow> bytes \<Rightarrow> u32 \<Rightarrow> DedupState \<Rightarrow> DedupState" where
  "add_entry now e physical_block hash tag_context st =
     (let st1 = st\<lparr>dd_entries := (dd_entries st)(e \<mapsto> \<lparr>de_hash = hash, de_physical_block = physical_block,
                  de_ref_count = 1, de_create_time = now, de_last_access = now,
                  de_tag_context = DedupComputeTagContext tag_context\<rparr>)\<rparr>;
          st2 = DedupLinkHashLocked e st1;
          s = dd_stats st2
      in st2\<lparr>dd_block_table := chain_link (DedupBlockBucket physical_block) e (dd_block_table st2),
             dd_entry_count := dd_entry_count st2 + 1,
             dd_stats := s\<lparr>ds_unique_blocks := ds_unique_blocks s + 1, ds_total_blocks := ds_total_blocks s + 1\<rparr>\<rparr>)"

definition register_round :: "u64 \<Rightarrow> slab \<Rightarrow> u32 \<Rightarrow> bytes \<Rightarrow> u32 \<Rightarrow> DedupState \<Rightarrow> DedupState option" where
  "register_round now slab_alloc physical_block hash tag_context st =
     (case DedupFindByBlockLocked st physical_block of
        Some e \<Rightarrow> Some (set_entry e (\<lambda>x. x\<lparr>de_tag_context := DedupComputeTagContext tag_context, de_last_access := now\<rparr>)
                     (rehash e hash st))
      | None \<Rightarrow> map_option (\<lambda>e. add_entry now e physical_block hash tag_context st) (slab_alloc (dd_entries st)))"

definition TagFS_DedupRegister :: "u64 \<Rightarrow> slab \<Rightarrow> u32 \<Rightarrow> bytes \<Rightarrow> u32 \<Rightarrow> DedupState \<Rightarrow> error_t \<times> DedupState" where
  "TagFS_DedupRegister now slab_alloc physical_block block_data tag_context st =
     (if physical_block = 0 then (ERR_INVALID_ARGUMENT, st)
      else if \<not> dd_initialized st then (ERR_NOT_INITIALIZED, st)
      else
        let hash = DedupComputeHash st block_data in
        case register_round now slab_alloc physical_block hash tag_context st of
          Some st1 \<Rightarrow> (OK, st1)
        | None \<Rightarrow>
            let st1 = snd (TagFS_DedupGC now st) in
            case register_round now slab_alloc physical_block hash tag_context st1 of
              Some st2 \<Rightarrow> (OK, st2)
            | None \<Rightarrow> (ERR_NO_MEMORY, st1))"

definition TagFS_DedupAddRef :: "u64 \<Rightarrow> u32 \<Rightarrow> DedupState \<Rightarrow> error_t \<times> DedupState" where
  "TagFS_DedupAddRef now physical_block st =
     (if physical_block = 0 then (ERR_INVALID_ARGUMENT, st)
      else if \<not> dd_initialized st then (ERR_NOT_INITIALIZED, st)
      else case DedupFindByBlockLocked st physical_block of
        None \<Rightarrow> (ERR_OBJECT_NOT_FOUND, st)
      | Some e \<Rightarrow>
          if de_ref_count (entry_at st e) \<ge> DEDUP_MAX_REFS then (ERR_QUOTA_EXCEEDED, st)
          else (OK, set_entry e (\<lambda>x. x\<lparr>de_ref_count := de_ref_count x + 1, de_last_access := now\<rparr>) st))"

text \<open>The result carries \<^verbatim>\<open>may_reclaim\<close>.\<close>

definition TagFS_DedupUnregister :: "u64 \<Rightarrow> u32 \<Rightarrow> DedupState \<Rightarrow> error_t \<times> bool \<times> DedupState" where
  "TagFS_DedupUnregister now physical_block st =
     (if physical_block = 0 then (ERR_INVALID_ARGUMENT, True, st)
      else if \<not> dd_initialized st then (ERR_NOT_INITIALIZED, True, st)
      else case DedupFindByBlockLocked st physical_block of
        None \<Rightarrow> (ERR_OBJECT_NOT_FOUND, True, st)
      | Some e \<Rightarrow>
          if de_ref_count (entry_at st e) > 1
          then (OK, False, set_entry e (\<lambda>x. x\<lparr>de_ref_count := de_ref_count x - 1, de_last_access := now\<rparr>) st)
          else (OK, True, DedupEvictLocked e st))"

text \<open>
  \<open>alloc_blocks\<close> is the outcome of \<^verbatim>\<open>tagfs_alloc_blocks\<close>. The result is the error code, the block
  and whether it is shared.
\<close>

definition alloc_fresh ::
  "u64 \<Rightarrow> slab \<Rightarrow> error_t + u32 \<Rightarrow> bytes \<Rightarrow> u32 \<Rightarrow> DedupState \<Rightarrow> (error_t + u32 \<times> bool) \<times> DedupState" where
  "alloc_fresh now slab_alloc alloc_blocks block_data tag_context st =
     (case alloc_blocks of
        Inl err \<Rightarrow> (Inl err, st)
      | Inr b \<Rightarrow> (Inr (b, False), snd (TagFS_DedupRegister now slab_alloc b block_data tag_context st)))"

definition TagFS_DedupAllocBlock ::
  "u64 \<Rightarrow> slab \<Rightarrow> error_t + u32 \<Rightarrow> bytes \<Rightarrow> u32 \<Rightarrow> DedupState \<Rightarrow> (error_t + u32 \<times> bool) \<times> DedupState" where
  "TagFS_DedupAllocBlock now slab_alloc alloc_blocks block_data tag_context st =
     (case TagFS_DedupCheck now block_data st of
        (err, Some existing, st1) \<Rightarrow>
          (case TagFS_DedupAddRef now existing st1 of
             (OK, st2) \<Rightarrow> (Inr (existing, True), st2)
           | (_, st2) \<Rightarrow> alloc_fresh now slab_alloc alloc_blocks block_data tag_context st2)
      | (err, None, st1) \<Rightarrow> alloc_fresh now slab_alloc alloc_blocks block_data tag_context st1)"

section \<open>Queries and statistics\<close>

definition TagFS_DedupFindByTag :: "u32 \<Rightarrow> nat \<Rightarrow> DedupState \<Rightarrow> error_t + u32 list" where
  "TagFS_DedupFindByTag tag_context max_blocks st =
     (if max_blocks = 0 then Inl ERR_INVALID_ARGUMENT
      else if \<not> dd_initialized st then Inl ERR_NOT_INITIALIZED
      else
        let tag_hash = DedupComputeTagContext tag_context
        in Inr (foldl (\<lambda>blocks e. if length blocks < max_blocks \<and> de_tag_context (entry_at st e) = tag_hash
                                  then blocks @ [de_physical_block (entry_at st e)] else blocks)
                 [] (concat (take DEDUP_HASH_BUCKETS (dd_hash_table st)))))"

definition TagFS_DedupGetTagStats :: "u32 \<Rightarrow> DedupState \<Rightarrow> error_t + u64 \<times> u64" where
  "TagFS_DedupGetTagStats tag_context st =
     (if \<not> dd_initialized st then Inl ERR_NOT_INITIALIZED
      else
        let tag_hash = DedupComputeTagContext tag_context;
            block_count = foldl (\<lambda>n e. if de_tag_context (entry_at st e) = tag_hash then n + 1 else n) 0
                            (concat (take DEDUP_HASH_BUCKETS (dd_hash_table st)))
        in Inr (block_count, block_count * TAGFS_BLOCK_SIZE))"

definition TagFS_DedupGetStats :: "DedupState \<Rightarrow> error_t \<times> DedupStats" where
  "TagFS_DedupGetStats st =
     (if \<not> dd_initialized st then (ERR_NOT_INITIALIZED, no_stats)
      else
        let s = dd_stats st
        in (OK, if ds_total_blocks s > 0
                then s\<lparr>ds_dedup_ratio := ds_duplicate_blocks s * 100 div ds_total_blocks s\<rparr> else s))"

definition TagFS_DedupIsInitialized :: "DedupState \<Rightarrow> bool" where
  "TagFS_DedupIsInitialized st = dd_initialized st"

section \<open>The run-length codec\<close>

function comp_run :: "bytes \<Rightarrow> nat \<Rightarrow> nat \<Rightarrow> nat" where
  "comp_run data in_pos run_len =
     (if in_pos + run_len < length data \<and> data ! (in_pos + run_len) = data ! in_pos \<and> run_len < 255
      then comp_run data in_pos (run_len + 1) else run_len)"
  by pat_completeness auto
termination
  by (relation "measure (\<lambda>(data, in_pos, run_len). 255 - run_len)") auto

declare comp_run.simps [simp del]

lemma comp_run_ge: "run_len \<le> comp_run data in_pos run_len"
proof (induction data in_pos run_len rule: comp_run.induct)
  case (1 data in_pos run_len)
  then show ?case by (subst comp_run.simps) auto
qed

function comp_loop :: "bytes \<Rightarrow> nat \<Rightarrow> bytes \<Rightarrow> bytes" where
  "comp_loop data in_pos out =
     (if in_pos < length data \<and> length out < length data - 2
      then let run_len = comp_run data in_pos 1
           in comp_loop data (in_pos + run_len) (out @ [data ! in_pos, of_nat run_len])
      else out)"
  by pat_completeness auto
termination
proof (relation "measure (\<lambda>(data, in_pos, out). length data - in_pos)")
  show "((data, in_pos + run_len, out @ [data ! in_pos, of_nat run_len]), data, in_pos, out)
      \<in> measure (\<lambda>(data, in_pos, out). length data - in_pos)"
    if "in_pos < length data \<and> length out < length data - 2" "run_len = comp_run data in_pos 1"
    for data in_pos out run_len
    using that comp_run_ge [of 1 data in_pos] by (simp add: diff_less_mono2)
qed simp

declare comp_loop.simps [simp del]

definition TagFS_DedupCompress :: "bytes \<Rightarrow> error_t + bytes" where
  "TagFS_DedupCompress in_data =
     (if length in_data < 16 then Inl ERR_INVALID_ARGUMENT
      else let out = comp_loop in_data 0 [] in if length out < length in_data then Inr out else Inl ERR_BUFFER_TOO_SMALL)"

text \<open>\<open>cap\<close> is \<^verbatim>\<open>*out_size\<close> on entry; a pair is expanded as far as there is room.\<close>

fun decomp_loop :: "nat \<Rightarrow> bytes \<Rightarrow> bytes \<Rightarrow> bytes" where
  "decomp_loop cap (byte # count # rest) out =
     (if length out < cap
      then decomp_loop cap rest (out @ replicate (min (unat count) (cap - length out)) byte)
      else out)"
| "decomp_loop cap _ out = out"

definition TagFS_DedupDecompress :: "bytes \<Rightarrow> nat \<Rightarrow> bytes" where
  "TagFS_DedupDecompress in_data cap = decomp_loop cap in_data []"


section \<open>The invariant\<close>

definition entry_ok :: "DedupEntry \<Rightarrow> bool" where
  "entry_ok x \<longleftrightarrow> length (de_hash x) = 32 \<and> de_physical_block x \<noteq> 0 \<and> 1 \<le> de_ref_count x \<and> de_ref_count x \<le> DEDUP_MAX_REFS"

abbreviation hash_key :: "DedupState \<Rightarrow> nat \<Rightarrow> nat" where
  "hash_key st e \<equiv> DedupHashBucket (de_hash (entry_at st e))"

abbreviation block_of :: "DedupState \<Rightarrow> nat \<Rightarrow> u32" where
  "block_of st e \<equiv> de_physical_block (entry_at st e)"

abbreviation live :: "DedupState \<Rightarrow> nat set" where
  "live st \<equiv> dom (dd_entries st)"

definition dedup_ok :: "DedupState \<Rightarrow> bool" where
  "dedup_ok st \<longleftrightarrow> dd_initialized st \<and> dd_hash_buckets st = DEDUP_HASH_BUCKETS \<and> finite (live st) \<and>
     table_ok (dd_hash_table st) DEDUP_HASH_BUCKETS (hash_key st) (live st) \<and>
     table_ok (dd_block_table st) DEDUP_HASH_BUCKETS (\<lambda>e. DedupBlockBucket (block_of st e)) (live st) \<and>
     inj_on (block_of st) (live st) \<and> (\<forall>e\<in>live st. entry_ok (entry_at st e)) \<and>
     dd_entry_count st = of_nat (card (live st)) \<and> ds_unique_blocks (dd_stats st) = of_nat (card (live st))"

lemma bucket_less: "DedupHashBucket h < DEDUP_HASH_BUCKETS" "DedupBlockBucket b < DEDUP_HASH_BUCKETS"
proof -
  have "unat (w AND 8191) < 8192" for w :: u32
    using word_and_le1 [of w 8191] by (simp add: word_le_nat_alt)
  then show "DedupHashBucket h < DEDUP_HASH_BUCKETS" "DedupBlockBucket b < DEDUP_HASH_BUCKETS"
    by (simp_all add: DedupHashBucket_def DedupBlockBucket_def DEDUP_HASH_BUCKETS_def)
qed

lemma dedup_okD:
  assumes "dedup_ok st"
  shows "dd_initialized st" "dd_hash_buckets st = DEDUP_HASH_BUCKETS" "finite (live st)"
    "table_ok (dd_hash_table st) DEDUP_HASH_BUCKETS (hash_key st) (live st)"
    "table_ok (dd_block_table st) DEDUP_HASH_BUCKETS (\<lambda>e. DedupBlockBucket (block_of st e)) (live st)"
    "inj_on (block_of st) (live st)" "e \<in> live st \<Longrightarrow> entry_ok (entry_at st e)"
    "dd_entry_count st = of_nat (card (live st))" "ds_unique_blocks (dd_stats st) = of_nat (card (live st))"
  using assms by (auto simp: dedup_ok_def)

text \<open>Distinct non-zero block numbers: there are fewer entries than a 32-bit counter can count.\<close>

lemma live_card: "dedup_ok st \<Longrightarrow> card (live st) < 2 ^ 32"
proof -
  assume ok: "dedup_ok st"
  have "block_of st ` live st \<subseteq> UNIV - {0}" using dedup_okD(7) [OF ok] by (auto simp: entry_ok_def)
  then have "card (live st) \<le> card (UNIV - {0 :: u32})"
    using dedup_okD(6) [OF ok] by (metis card_image card_mono finite)
  then show ?thesis by (simp add: card_Diff_singleton card_word)
qed

lemma find_block:
  assumes "dedup_ok st"
  shows "DedupFindByBlockLocked st b = None \<longleftrightarrow> (\<forall>e\<in>live st. block_of st e \<noteq> b)"
    "DedupFindByBlockLocked st b = Some e \<longleftrightarrow> e \<in> live st \<and> block_of st e = b"
proof -
  note t = table_find [OF dedup_okD(5) [OF assms] bucket_less(2), of "\<lambda>e. block_of st e = b" b]
  show none: "DedupFindByBlockLocked st b = None \<longleftrightarrow> (\<forall>e\<in>live st. block_of st e \<noteq> b)"
    unfolding DedupFindByBlockLocked_def using t(1) by simp
  have some: "DedupFindByBlockLocked st b = Some x \<Longrightarrow> x \<in> live st \<and> block_of st x = b" for x
    unfolding DedupFindByBlockLocked_def using t(2) by simp
  show "DedupFindByBlockLocked st b = Some e \<longleftrightarrow> e \<in> live st \<and> block_of st e = b"
  proof
    assume e: "e \<in> live st \<and> block_of st e = b"
    then obtain x where x: "DedupFindByBlockLocked st b = Some x" using none by fastforce
    then show "DedupFindByBlockLocked st b = Some e" using some [OF x] e dedup_okD(6) [OF assms] by (auto dest: inj_onD)
  qed (rule some)
qed

lemma entry_at_set [simp]: "entry_at (set_entry e f st) x = (if x = e then f (entry_at st e) else entry_at st x)"
  by (simp add: entry_at_def set_entry_def)

lemma set_entry_fields [simp]:
  "dd_initialized (set_entry e f st) = dd_initialized st" "dd_hash_buckets (set_entry e f st) = dd_hash_buckets st"
  "dd_hash_table (set_entry e f st) = dd_hash_table st" "dd_block_table (set_entry e f st) = dd_block_table st"
  "dd_entry_count (set_entry e f st) = dd_entry_count st" "dd_stats (set_entry e f st) = dd_stats st"
  "dd_hash_ctx (set_entry e f st) = dd_hash_ctx st" "live (set_entry e f st) = insert e (live st)"
  by (auto simp: set_entry_def)

lemma set_entry_ok:
  assumes "dedup_ok st" "e \<in> live st" "de_hash (f (entry_at st e)) = de_hash (entry_at st e)"
    and "de_physical_block (f (entry_at st e)) = block_of st e" "entry_ok (f (entry_at st e))"
  shows "dedup_ok (set_entry e f st)"
proof -
  note d = dedup_okD [OF assms(1)]
  have ins: "insert e (live st) = live st" using assms(2) by blast
  have h: "de_hash (entry_at (set_entry e f st) x) = de_hash (entry_at st x)"
    and b: "block_of (set_entry e f st) x = block_of st x" for x using assms(3,4) by simp_all
  show ?thesis unfolding dedup_ok_def set_entry_fields ins h b using d assms(5) by simp
qed

lemma evict_ok:
  assumes "dedup_ok st" "e \<in> live st"
  shows "dedup_ok (DedupEvictLocked e st)" "dd_entries (DedupEvictLocked e st) = (dd_entries st)(e := None)"
    "dd_hash_ctx (DedupEvictLocked e st) = dd_hash_ctx st"
proof -
  note d = dedup_okD [OF assms(1)]
  let ?st = "DedupEvictLocked e st"
  have pos: "0 < card (live st)" using assms(2) d(3) by (metis card_gt_0_iff empty_iff)
  have nz: "(of_nat (card (live st)) :: u32) \<noteq> 0" "(of_nat (card (live st)) :: u64) \<noteq> 0"
    using live_card [OF assms(1)] pos by (simp_all add: unat_eq_zero [symmetric] unat_of_nat take_bit_nat_eq_self)
  have card: "card (live st - {e}) = card (live st) - 1" using assms(2) d(3) by simp
  have tabs: "dd_hash_table ?st = chain_unlink (hash_key st e) e (dd_hash_table st)"
      "dd_block_table ?st = chain_unlink (DedupBlockBucket (block_of st e)) e (dd_block_table st)"
      "dd_entries ?st = (dd_entries st)(e := None)" "dd_initialized ?st = dd_initialized st"
      "dd_hash_buckets ?st = dd_hash_buckets st" "dd_hash_ctx ?st = dd_hash_ctx st"
    by (simp_all add: DedupEvictLocked_def Let_def DedupFreeEntry_def DedupUnlinkBlockLocked_def DedupUnlinkHashLocked_def entry_at_def)
  have cnt: "dd_entry_count ?st = of_nat (card (live st)) - 1" "ds_unique_blocks (dd_stats ?st) = of_nat (card (live st)) - 1"
    using nz d(8,9) by (simp_all add: DedupEvictLocked_def Let_def DedupFreeEntry_def DedupUnlinkBlockLocked_def
      DedupUnlinkHashLocked_def word_gt_0)
  show "dd_entries ?st = (dd_entries st)(e := None)" "dd_hash_ctx ?st = dd_hash_ctx st" by (rule tabs)+
  have at: "entry_at ?st x = entry_at st x" if "x \<noteq> e" for x using that tabs(3) by (simp add: entry_at_def)
  have lv: "live ?st = live st - {e}" by (simp add: tabs(3))
  have "table_ok (dd_hash_table ?st) DEDUP_HASH_BUCKETS (hash_key ?st) (live ?st)"
    unfolding tabs(1) lv by (rule table_cong [OF table_unlink [OF d(4) bucket_less(1)]]) (simp add: at)
  moreover have "table_ok (dd_block_table ?st) DEDUP_HASH_BUCKETS (\<lambda>x. DedupBlockBucket (block_of ?st x)) (live ?st)"
    unfolding tabs(2) lv by (rule table_cong [OF table_unlink [OF d(5) bucket_less(2)]]) (simp add: at)
  moreover have "inj_on (block_of ?st) (live ?st)"
    unfolding lv using d(6) by (auto simp: inj_on_def at)
  moreover have "\<forall>x\<in>live ?st. entry_ok (entry_at ?st x)" unfolding lv using d(7) by (auto simp: at)
  moreover have "of_nat (card (live st)) - 1 = (of_nat (card (live st - {e})) :: u32)"
      "of_nat (card (live st)) - 1 = (of_nat (card (live st - {e})) :: u64)"
    unfolding card using pos by (simp_all add: of_nat_diff)
  ultimately show "dedup_ok ?st" unfolding dedup_ok_def using d(1,2,3) tabs(4,5) cnt lv by simp
qed


lemma hash_length: "length (DedupComputeHash st data) = 32"
  using BoxHashContent_total [of "Some data" "Some (dd_hash_ctx st)"] by (auto simp: DedupComputeHash_def)

lemma hash_equal: "length a = 32 \<Longrightarrow> length b = 32 \<Longrightarrow> DedupHashEqual a b \<longleftrightarrow> a = b"
  by (simp add: DedupHashEqual_def BoxHashEqual_iff)

lemma rehash_ok:
  assumes "dedup_ok st" "e \<in> live st" "length hash = 32"
  shows "dedup_ok (rehash e hash st)" "live (rehash e hash st) = live st" "dd_hash_ctx (rehash e hash st) = dd_hash_ctx st"
    "entry_at (rehash e hash st) x = (if x = e then (entry_at st e)\<lparr>de_hash := hash\<rparr> else entry_at st x)"
proof -
  note d = dedup_okD [OF assms(1)]
  have len: "length (de_hash (entry_at st e)) = 32" using d(7) [OF assms(2)] by (simp add: entry_ok_def)
  have "dedup_ok (rehash e hash st) \<and> live (rehash e hash st) = live st \<and> dd_hash_ctx (rehash e hash st) = dd_hash_ctx st \<and>
    entry_at (rehash e hash st) x = (if x = e then (entry_at st e)\<lparr>de_hash := hash\<rparr> else entry_at st x)"
  proof (cases "de_hash (entry_at st e) = hash")
    case True
    then have "rehash e hash st = st" using hash_equal [OF len assms(3)] by (simp add: rehash_def)
    moreover have "(entry_at st e)\<lparr>de_hash := hash\<rparr> = entry_at st e" using True by (cases "entry_at st e") simp
    ultimately show ?thesis using assms(1) by simp
  next
    case False
    let ?st = "rehash e hash st"
    have eq: "?st = DedupLinkHashLocked e (set_entry e (\<lambda>x. x\<lparr>de_hash := hash\<rparr>) (DedupUnlinkHashLocked e st))"
      using False hash_equal [OF len assms(3)] by (simp add: rehash_def)
    have at: "entry_at ?st x = (if x = e then (entry_at st e)\<lparr>de_hash := hash\<rparr> else entry_at st x)" for x
      by (simp add: eq DedupLinkHashLocked_def DedupUnlinkHashLocked_def set_entry_def entry_at_def)
    have lv: "live ?st = live st" using assms(2)
      by (auto simp: eq DedupLinkHashLocked_def DedupUnlinkHashLocked_def set_entry_def)
    have f: "dd_hash_table ?st = chain_link (DedupHashBucket hash) e (chain_unlink (hash_key st e) e (dd_hash_table st))"
      "dd_block_table ?st = dd_block_table st" "dd_initialized ?st = dd_initialized st" "dd_hash_buckets ?st = dd_hash_buckets st"
      "dd_entry_count ?st = dd_entry_count st" "dd_stats ?st = dd_stats st" "dd_hash_ctx ?st = dd_hash_ctx st"
      by (simp_all add: eq DedupLinkHashLocked_def DedupUnlinkHashLocked_def set_entry_def entry_at_def)
    have "table_ok (chain_unlink (hash_key st e) e (dd_hash_table st)) DEDUP_HASH_BUCKETS (hash_key ?st) (live st - {e})"
      by (rule table_cong [OF table_unlink [OF d(4) bucket_less(1)]]) (simp add: at)
    from table_link [OF this, of e] have t: "table_ok (dd_hash_table ?st) DEDUP_HASH_BUCKETS (hash_key ?st) (live ?st)"
      using assms(2) bucket_less(1) unfolding f(1) lv by (simp add: at insert_absorb)
    have b: "block_of ?st x = block_of st x" for x by (simp add: at)
    have "\<forall>x\<in>live st. entry_ok (entry_at ?st x)" using d(7) assms(3) by (simp add: at entry_ok_def)
    then have "dedup_ok ?st" unfolding dedup_ok_def using t unfolding lv b f(2-6) using d by simp
    then show ?thesis using lv at f(7) by simp
  qed
  then show "dedup_ok (rehash e hash st)" "live (rehash e hash st) = live st" "dd_hash_ctx (rehash e hash st) = dd_hash_ctx st"
    "entry_at (rehash e hash st) x = (if x = e then (entry_at st e)\<lparr>de_hash := hash\<rparr> else entry_at st x)" by blast+
qed

lemma add_entry_ok:
  assumes "dedup_ok st" "e \<notin> live st" "b \<noteq> 0" "\<forall>x\<in>live st. block_of st x \<noteq> b" "length hash = 32"
  shows "dedup_ok (add_entry now e b hash tag st)" "dd_hash_ctx (add_entry now e b hash tag st) = dd_hash_ctx st"
    "dd_entries (add_entry now e b hash tag st) = (dd_entries st)(e \<mapsto> \<lparr>de_hash = hash, de_physical_block = b,
       de_ref_count = 1, de_create_time = now, de_last_access = now, de_tag_context = DedupComputeTagContext tag\<rparr>)"
proof -
  note d = dedup_okD [OF assms(1)]
  let ?st = "add_entry now e b hash tag st" and ?x = "\<lparr>de_hash = hash, de_physical_block = b,
       de_ref_count = 1, de_create_time = now, de_last_access = now, de_tag_context = DedupComputeTagContext tag\<rparr>"
  have f: "dd_entries ?st = (dd_entries st)(e \<mapsto> ?x)"
    "dd_hash_table ?st = chain_link (DedupHashBucket hash) e (dd_hash_table st)"
    "dd_block_table ?st = chain_link (DedupBlockBucket b) e (dd_block_table st)"
    "dd_initialized ?st = dd_initialized st" "dd_hash_buckets ?st = dd_hash_buckets st"
    "dd_entry_count ?st = dd_entry_count st + 1" "ds_unique_blocks (dd_stats ?st) = ds_unique_blocks (dd_stats st) + 1"
    "dd_hash_ctx ?st = dd_hash_ctx st"
    by (simp_all add: add_entry_def Let_def DedupLinkHashLocked_def entry_at_def)
  show "dd_hash_ctx ?st = dd_hash_ctx st" "dd_entries ?st = (dd_entries st)(e \<mapsto> ?x)" by (rule f)+
  have at: "entry_at ?st y = (if y = e then ?x else entry_at st y)" for y by (simp add: entry_at_def f(1))
  have lv: "live ?st = insert e (live st)" by (simp add: f(1))
  have "table_ok (dd_hash_table st) DEDUP_HASH_BUCKETS (hash_key ?st) (live st)"
    by (rule table_cong [OF d(4)]) (use assms(2) in \<open>auto simp: at\<close>)
  from table_link [OF this assms(2) bucket_less(1)]
  have t1: "table_ok (dd_hash_table ?st) DEDUP_HASH_BUCKETS (hash_key ?st) (live ?st)" unfolding f(2) lv by (simp add: at)
  have "table_ok (dd_block_table st) DEDUP_HASH_BUCKETS (\<lambda>y. DedupBlockBucket (block_of ?st y)) (live st)"
    by (rule table_cong [OF d(5)]) (use assms(2) in \<open>auto simp: at\<close>)
  from table_link [OF this assms(2) bucket_less(2)]
  have t2: "table_ok (dd_block_table ?st) DEDUP_HASH_BUCKETS (\<lambda>y. DedupBlockBucket (block_of ?st y)) (live ?st)"
    unfolding f(3) lv by (simp add: at)
  have "inj_on (block_of ?st) (live ?st)" unfolding lv using d(6) assms(2,4) by (auto simp: inj_on_def at)
  moreover have "\<forall>y\<in>live ?st. entry_ok (entry_at ?st y)"
    unfolding lv using d(7) assms(3,5) by (auto simp: at entry_ok_def DEDUP_MAX_REFS_def)
  moreover have "card (live ?st) = Suc (card (live st))" unfolding lv using assms(2) d(3) by simp
  ultimately show "dedup_ok ?st" unfolding dedup_ok_def
    using t1 t2 d(1,2,3,8,9) f(4-7) lv by (simp add: add.commute)
qed

section \<open>Blocks and their references\<close>

text \<open>The view of a client: the hash recorded for a block, and its references.\<close>

definition block_map :: "DedupState \<Rightarrow> u32 \<Rightarrow> (bytes \<times> u32) option" where
  "block_map st b = map_option (\<lambda>e. (de_hash (entry_at st e), de_ref_count (entry_at st e))) (DedupFindByBlockLocked st b)"

lemma block_map_iff:
  assumes "dedup_ok st"
  shows "block_map st b = Some v \<longleftrightarrow> (\<exists>e\<in>live st. block_of st e = b \<and> v = (de_hash (entry_at st e), de_ref_count (entry_at st e)))"
proof -
  have "block_map st b = Some v \<longleftrightarrow>
      (\<exists>e. DedupFindByBlockLocked st b = Some e \<and> v = (de_hash (entry_at st e), de_ref_count (entry_at st e)))"
    by (auto simp: block_map_def)
  then show ?thesis unfolding find_block(2) [OF assms] by blast
qed

lemma block_map_None: "dedup_ok st \<Longrightarrow> block_map st b = None \<longleftrightarrow> (\<forall>e\<in>live st. block_of st e \<noteq> b)"
  using find_block(1) [of st b] by (simp add: block_map_def)

lemma map_eqI: "(\<And>b v. m b = Some v \<longleftrightarrow> m' b = Some v) \<Longrightarrow> m = m'"
  by (rule ext) (metis not_Some_eq)

lemma block_map_update:
  assumes ok: "dedup_ok st" "dedup_ok st'" and e: "e \<in> live st'" "block_of st' e = b"
    and same: "live st' - {e} = live st - {e}" "\<And>x. x \<noteq> e \<Longrightarrow> entry_at st' x = entry_at st x"
    and old: "e \<in> live st \<Longrightarrow> block_of st e = b"
  shows "block_map st' = (block_map st)(b \<mapsto> (de_hash (entry_at st' e), de_ref_count (entry_at st' e)))"
proof (rule map_eqI)
  fix c v
  show "block_map st' c = Some v \<longleftrightarrow>
      ((block_map st)(b \<mapsto> (de_hash (entry_at st' e), de_ref_count (entry_at st' e)))) c = Some v"
  proof (cases "c = b")
    case True
    have "block_map st' b = Some (de_hash (entry_at st' e), de_ref_count (entry_at st' e))"
      using block_map_iff [OF ok(2)] e by blast
    then show ?thesis using True by auto
  next
    case False
    have "(\<exists>x\<in>live st'. block_of st' x = c \<and> v = (de_hash (entry_at st' x), de_ref_count (entry_at st' x))) \<longleftrightarrow>
        (\<exists>x\<in>live st. block_of st x = c \<and> v = (de_hash (entry_at st x), de_ref_count (entry_at st x)))"
      (is "(\<exists>x\<in>_. ?P' x) \<longleftrightarrow> (\<exists>x\<in>_. ?P x)")
    proof -
      have "x \<in> live st' \<and> ?P' x \<longleftrightarrow> x \<in> live st \<and> ?P x" for x
        using False e(2) old same by (cases "x = e") auto
      then show ?thesis by blast
    qed
    then show ?thesis using False block_map_iff [OF ok(1)] block_map_iff [OF ok(2)] by simp
  qed
qed

lemma block_map_restrict:
  assumes ok: "dedup_ok st" "dedup_ok st'" and lv: "live st' = live st - S"
    and same: "\<And>x. x \<in> live st' \<Longrightarrow> entry_at st' x = entry_at st x"
  shows "block_map st' b = (if b \<in> block_of st ` (live st \<inter> S) then None else block_map st b)"
proof (cases "b \<in> block_of st ` (live st \<inter> S)")
  case True
  then obtain y where y: "y \<in> live st" "y \<in> S" "block_of st y = b" by blast
  have "block_of st' x \<noteq> b" if "x \<in> live st'" for x
    using that y dedup_okD(6) [OF ok(1)] lv same [OF that] by (auto dest: inj_onD)
  then show ?thesis using True block_map_None [OF ok(2)] by simp
next
  case False
  have "block_map st' b = Some v \<longleftrightarrow> block_map st b = Some v" for v
    unfolding block_map_iff [OF ok(1)] block_map_iff [OF ok(2)] using False lv same by fastforce
  then show ?thesis using False by (metis not_Some_eq)
qed


section \<open>The operations on the client's view\<close>

lemma find_view:
  assumes "dedup_ok st" "DedupFindByBlockLocked st b = Some e"
  shows "e \<in> live st" "block_of st e = b" "entry_ok (entry_at st e)"
    "block_map st b = Some (de_hash (entry_at st e), de_ref_count (entry_at st e))"
  using find_block(2) [OF assms(1)] assms(2) dedup_okD(7) [OF assms(1)] by (auto simp: block_map_def)

lemma touch_view:
  assumes ok: "dedup_ok st" and e: "e \<in> live st" and f: "de_hash (f (entry_at st e)) = de_hash (entry_at st e)"
    "de_physical_block (f (entry_at st e)) = block_of st e" "entry_ok (f (entry_at st e))"
  shows "dedup_ok (set_entry e f st)"
    "block_map (set_entry e f st) = (block_map st)(block_of st e \<mapsto> (de_hash (entry_at st e), de_ref_count (f (entry_at st e))))"
proof -
  show ok': "dedup_ok (set_entry e f st)" using set_entry_ok [OF ok e, of f] f by blast
  show "block_map (set_entry e f st) = (block_map st)(block_of st e \<mapsto> (de_hash (entry_at st e), de_ref_count (f (entry_at st e))))"
    using block_map_update [OF ok ok', of e "block_of st e"] f(1,2) by simp
qed

lemma stats_view: "dedup_ok (st\<lparr>dd_stats := s\<rparr>) \<longleftrightarrow> dedup_ok st" if "ds_unique_blocks s = ds_unique_blocks (dd_stats st)"
  using that by (simp add: dedup_ok_def entry_at_def)

lemma addref_view:
  assumes ok: "dedup_ok st"
  shows "TagFS_DedupAddRef now b st = (case block_map st b of
      None \<Rightarrow> (if b = 0 then ERR_INVALID_ARGUMENT else ERR_OBJECT_NOT_FOUND, st)
    | Some (h, r) \<Rightarrow> if r \<ge> DEDUP_MAX_REFS then (ERR_QUOTA_EXCEEDED, st) else (OK, snd (TagFS_DedupAddRef now b st)))"
    "block_map st b = Some (h, r) \<Longrightarrow> r < DEDUP_MAX_REFS \<Longrightarrow> dedup_ok (snd (TagFS_DedupAddRef now b st)) \<and>
       block_map (snd (TagFS_DedupAddRef now b st)) = (block_map st)(b \<mapsto> (h, r + 1)) \<and>
       dd_hash_ctx (snd (TagFS_DedupAddRef now b st)) = dd_hash_ctx st"
proof -
  have init: "dd_initialized st" by (rule dedup_okD(1) [OF ok])
  have nz: "block_map st 0 = None" using dedup_okD(7) [OF ok] block_map_None [OF ok] by (auto simp: entry_ok_def)
  show "TagFS_DedupAddRef now b st = (case block_map st b of
      None \<Rightarrow> (if b = 0 then ERR_INVALID_ARGUMENT else ERR_OBJECT_NOT_FOUND, st)
    | Some (h, r) \<Rightarrow> if r \<ge> DEDUP_MAX_REFS then (ERR_QUOTA_EXCEEDED, st) else (OK, snd (TagFS_DedupAddRef now b st)))"
    using init nz by (cases "DedupFindByBlockLocked st b") (auto simp: TagFS_DedupAddRef_def block_map_def)
  assume m: "block_map st b = Some (h, r)" "r < DEDUP_MAX_REFS"
  then obtain e where e: "DedupFindByBlockLocked st b = Some e" "h = de_hash (entry_at st e)" "r = de_ref_count (entry_at st e)"
    by (auto simp: block_map_def)
  note v = find_view [OF ok e(1)]
  let ?f = "\<lambda>x. x\<lparr>de_ref_count := de_ref_count x + 1, de_last_access := now\<rparr>"
  have st': "snd (TagFS_DedupAddRef now b st) = set_entry e ?f st"
    using m e init nz by (auto simp: TagFS_DedupAddRef_def)
  have "unat r + 1 < 2 ^ 32" using m(2) by (simp add: word_less_nat_alt DEDUP_MAX_REFS_def)
  then have "1 \<le> r + 1 \<and> r + 1 \<le> DEDUP_MAX_REFS"
    using m(2) by (simp add: word_le_nat_alt word_less_nat_alt DEDUP_MAX_REFS_def unat_word_ariths)
  then have "entry_ok (?f (entry_at st e))" using v(3) e(3) by (simp add: entry_ok_def)
  then show "dedup_ok (snd (TagFS_DedupAddRef now b st)) \<and>
      block_map (snd (TagFS_DedupAddRef now b st)) = (block_map st)(b \<mapsto> (h, r + 1)) \<and>
      dd_hash_ctx (snd (TagFS_DedupAddRef now b st)) = dd_hash_ctx st"
    using touch_view [OF ok v(1), of ?f] v(2) e unfolding st' by simp
qed

lemma unregister_view:
  assumes ok: "dedup_ok st" and u: "TagFS_DedupUnregister now b st = (err, reclaim, st')"
  shows "dedup_ok st'" "dd_hash_ctx st' = dd_hash_ctx st"
    "block_map st b = None \<Longrightarrow> err \<noteq> OK \<and> reclaim \<and> st' = st"
    "block_map st b = Some (h, r) \<Longrightarrow> err = OK \<and> (reclaim \<longleftrightarrow> r = 1) \<and>
       block_map st' = (if r = 1 then (block_map st)(b := None) else (block_map st)(b \<mapsto> (h, r - 1)))"
proof -
  have init: "dd_initialized st" by (rule dedup_okD(1) [OF ok])
  have nz: "block_map st 0 = None" using dedup_okD(7) [OF ok] block_map_None [OF ok] by (auto simp: entry_ok_def)
  have all: "dedup_ok st' \<and> dd_hash_ctx st' = dd_hash_ctx st \<and> (block_map st b = None \<longrightarrow> err \<noteq> OK \<and> reclaim \<and> st' = st) \<and>
    (\<forall>h r. block_map st b = Some (h, r) \<longrightarrow> err = OK \<and> (reclaim \<longleftrightarrow> r = 1) \<and>
       block_map st' = (if r = 1 then (block_map st)(b := None) else (block_map st)(b \<mapsto> (h, r - 1))))"
  proof (cases "DedupFindByBlockLocked st b")
    case None
    then show ?thesis using u init ok by (auto simp: TagFS_DedupUnregister_def block_map_def split: if_splits)
  next
    case (Some e)
    note v = find_view [OF ok Some]
    have b: "b \<noteq> 0" using v(4) nz by auto
    let ?r = "de_ref_count (entry_at st e)" and ?f = "\<lambda>x. x\<lparr>de_ref_count := de_ref_count x - 1, de_last_access := now\<rparr>"
    show ?thesis
    proof (cases "?r > 1")
      case True
      have st': "st' = set_entry e ?f st" "err = OK" "\<not> reclaim" using u Some True b init
        by (auto simp: TagFS_DedupUnregister_def)
      have "1 \<le> unat ?r - 1" using True by (simp add: word_less_nat_alt)
      then have "1 \<le> ?r - 1 \<and> ?r - 1 \<le> DEDUP_MAX_REFS" using v(3) True
        by (auto simp: word_le_nat_alt word_less_nat_alt unat_sub entry_ok_def)
      then have "entry_ok (?f (entry_at st e))" using v(3) by (simp add: entry_ok_def)
      then show ?thesis using touch_view [OF ok v(1), of ?f] v(2,4) st' True by auto
    next
      case False
      then have "?r = 1" using v(3) by (simp add: entry_ok_def)
      have st': "st' = DedupEvictLocked e st" "err = OK" "reclaim" using u Some False b init
        by (auto simp: TagFS_DedupUnregister_def)
      note ev = evict_ok [OF ok v(1)]
      have lv: "live (DedupEvictLocked e st) = live st - {e}" by (simp add: ev(2))
      have at: "entry_at (DedupEvictLocked e st) x = entry_at st x" if "x \<in> live (DedupEvictLocked e st)" for x
        using that by (auto simp: entry_at_def ev(2))
      have "block_map st' = (block_map st)(b := None)"
        using block_map_restrict [OF ok ev(1) lv at] v(1,2) st'(1) by (auto simp: fun_eq_iff)
      then show ?thesis using st' v(4) \<open>?r = 1\<close> ev(1,3) by simp
    qed
  qed
  then show "dedup_ok st'" "dd_hash_ctx st' = dd_hash_ctx st" "block_map st b = None \<Longrightarrow> err \<noteq> OK \<and> reclaim \<and> st' = st"
    "block_map st b = Some (h, r) \<Longrightarrow> err = OK \<and> (reclaim \<longleftrightarrow> r = 1) \<and>
       block_map st' = (if r = 1 then (block_map st)(b := None) else (block_map st)(b \<mapsto> (h, r - 1)))" by blast+
qed


definition stale :: "u64 \<Rightarrow> DedupEntry \<Rightarrow> bool" where
  "stale now x \<longleftrightarrow> de_ref_count x \<le> 1 \<and> now - de_last_access x > DEDUP_GC_THRESHOLD_SECS"

lemma gc_chain:
  "dedup_ok st \<Longrightarrow> distinct es \<Longrightarrow> set es \<subseteq> live st \<Longrightarrow> foldl (gc_entry now) (st, n) es = (st', n') \<Longrightarrow>
     dedup_ok st' \<and> dd_hash_ctx st' = dd_hash_ctx st \<and>
     dd_entries st' = (\<lambda>e. if e \<in> set es \<and> stale now (entry_at st e) then None else dd_entries st e)"
proof (induction es arbitrary: st n)
  case (Cons e es)
  show ?case
  proof (cases "stale now (entry_at st e)")
    case True
    note ev = evict_ok [OF Cons.prems(1), of e]
    have e: "e \<in> live st" "e \<notin> set es" using Cons.prems by auto
    have at: "entry_at (DedupEvictLocked e st) x = entry_at st x" if "x \<noteq> e" for x using that ev(2) [OF e(1)] by (simp add: entry_at_def)
    have f: "foldl (gc_entry now) (DedupEvictLocked e st, n + 1) es = (st', n')"
      using Cons.prems(4) True by (simp add: gc_entry_def stale_def)
    have sub: "distinct es" "set es \<subseteq> live (DedupEvictLocked e st)"
      using Cons.prems(2,3) e(2) unfolding ev(2) [OF e(1)] by auto
    have "dedup_ok st' \<and> dd_hash_ctx st' = dd_hash_ctx (DedupEvictLocked e st) \<and> dd_entries st' = (\<lambda>x.
        if x \<in> set es \<and> stale now (entry_at (DedupEvictLocked e st) x) then None else dd_entries (DedupEvictLocked e st) x)"
      by (rule Cons.IH [OF ev(1) [OF e(1)] sub f])
    then show ?thesis using ev(2,3) [OF e(1)] True e(2) by (auto simp: fun_eq_iff at)
  next
    case False
    then have "foldl (gc_entry now) (st, n) es = (st', n')" using Cons.prems(4) by (auto simp: gc_entry_def stale_def)
    then show ?thesis using Cons.IH [of st n] Cons.prems False by (auto simp: fun_eq_iff)
  qed
qed auto

lemma gc_buckets:
  "dedup_ok st \<Longrightarrow> k \<le> DEDUP_HASH_BUCKETS \<Longrightarrow> foldl (gc_bucket now) (st, 0) [0..<k] = (st', n') \<Longrightarrow>
     dedup_ok st' \<and> dd_hash_ctx st' = dd_hash_ctx st \<and>
     dd_entries st' = (\<lambda>e. if e \<in> live st \<and> hash_key st e < k \<and> stale now (entry_at st e) then None else dd_entries st e)"
proof (induction k arbitrary: st' n')
  case (Suc k)
  obtain s1 n1 where f: "foldl (gc_bucket now) (st, 0) [0..<k] = (s1, n1)" by fastforce
  have ih: "dedup_ok s1" "dd_hash_ctx s1 = dd_hash_ctx st" "dd_entries s1 =
      (\<lambda>e. if e \<in> live st \<and> hash_key st e < k \<and> stale now (entry_at st e) then None else dd_entries st e)"
    using Suc.IH [OF Suc.prems(1) _ f] Suc.prems(2) by auto
  have at: "entry_at s1 e = entry_at st e" if "e \<in> live s1" for e using that by (auto simp: ih(3) entry_at_def split: if_splits)
  have k: "k < DEDUP_HASH_BUCKETS" using Suc.prems(2) by simp
  note t = table_okD [OF dedup_okD(4) [OF ih(1)]]
  have b: "foldl (gc_entry now) (s1, n1) (dd_hash_table s1 ! k) = (st', n')"
    using Suc.prems(3) f by (simp add: gc_bucket_def)
  have mem: "set (dd_hash_table s1 ! k) = {e \<in> live s1. hash_key st e = k}" unfolding t(4) [OF k] using at by force
  have lv: "live s1 \<subseteq> live st" by (auto simp: ih(3) split: if_splits)
  have g: "dedup_ok st'" "dd_hash_ctx st' = dd_hash_ctx s1" "dd_entries st' =
      (\<lambda>e. if e \<in> set (dd_hash_table s1 ! k) \<and> stale now (entry_at s1 e) then None else dd_entries s1 e)"
    using gc_chain [OF ih(1) t(3) [OF k] _ b] mem by auto
  have "dd_entries st' e = (if e \<in> live st \<and> hash_key st e < Suc k \<and> stale now (entry_at st e) then None else dd_entries st e)" for e
  proof (cases "e \<in> live s1")
    case True
    then have nk: "\<not> (hash_key st e < k \<and> stale now (entry_at st e))" "dd_entries s1 e = dd_entries st e"
      by (auto simp: ih(3) split: if_splits)
    then show ?thesis using True lv at [OF True] by (auto simp: g(3) mem less_Suc_eq)
  next
    case False
    then have "dd_entries st' e = None" by (auto simp: g(3) mem domIff)
    moreover have "e \<in> live st \<longrightarrow> hash_key st e < k \<and> stale now (entry_at st e)" using False by (auto simp: ih(3) split: if_splits)
    ultimately show ?thesis by (auto simp: domIff)
  qed
  then show ?case using g(1,2) ih(2) by (simp add: fun_eq_iff)
qed simp

lemma gc_view:
  assumes ok: "dedup_ok st" and g: "TagFS_DedupGC now st = (err, st')"
  shows "err = OK" "dedup_ok st'" "dd_hash_ctx st' = dd_hash_ctx st"
    "dd_entries st' = (\<lambda>e. if e \<in> live st \<and> stale now (entry_at st e) then None else dd_entries st e)"
    "block_map st' b = (if \<exists>e\<in>live st. block_of st e = b \<and> stale now (entry_at st e) then None else block_map st b)"
proof -
  note d = dedup_okD [OF ok]
  obtain s1 n1 where f: "foldl (gc_bucket now) (st, 0) [0..<DEDUP_HASH_BUCKETS] = (s1, n1)" by fastforce
  note gb = gc_buckets [OF ok le_refl f]
  let ?s = "dd_stats s1"
  have eq: "err = OK" "st' = s1\<lparr>dd_stats := ?s\<lparr>ds_gc_runs := ds_gc_runs ?s + 1,
      ds_entries_freed := ds_entries_freed ?s + n1\<rparr>, dd_last_gc_time := now\<rparr>"
    using g f d(1,2) by (auto simp: TagFS_DedupGC_def Let_def)
  have st': "err = OK" "dedup_ok st' = dedup_ok s1" "dd_hash_ctx st' = dd_hash_ctx s1" "dd_entries st' = dd_entries s1"
    unfolding eq dedup_ok_def entry_at_def by simp_all
  show "err = OK" "dedup_ok st'" "dd_hash_ctx st' = dd_hash_ctx st" using st' gb by simp_all
  show e: "dd_entries st' = (\<lambda>e. if e \<in> live st \<and> stale now (entry_at st e) then None else dd_entries st e)"
    using st'(4) gb bucket_less(1) by (auto simp: fun_eq_iff)
  have lv: "live st' = live st - {e. stale now (entry_at st e)}" by (auto simp: e split: if_splits)
  have "block_map st' b = (if b \<in> block_of st ` (live st \<inter> {e. stale now (entry_at st e)}) then None else block_map st b)"
    by (rule block_map_restrict [OF ok \<open>dedup_ok st'\<close> lv]) (auto simp: entry_at_def e split: if_splits)
  then show "block_map st' b = (if \<exists>e\<in>live st. block_of st e = b \<and> stale now (entry_at st e) then None else block_map st b)"
    by (auto simp: image_iff)
qed

text \<open>The slab allocator never hands out an address in use.\<close>

definition slab_fresh :: "slab \<Rightarrow> bool" where
  "slab_fresh slab_alloc \<longleftrightarrow> (\<forall>heap e. slab_alloc heap = Some e \<longrightarrow> e \<notin> dom heap)"

lemma register_round_view:
  assumes ok: "dedup_ok st" and fresh: "slab_fresh slab_alloc" and b: "b \<noteq> 0" and len: "length hash = 32"
    and r: "register_round now slab_alloc b hash tag st = Some st'"
  shows "dedup_ok st'" "dd_hash_ctx st' = dd_hash_ctx st"
    "block_map st' = (block_map st)(b \<mapsto> (hash, case block_map st b of None \<Rightarrow> 1 | Some (h, n) \<Rightarrow> n))"
proof -
  have "dedup_ok st' \<and> dd_hash_ctx st' = dd_hash_ctx st \<and>
    block_map st' = (block_map st)(b \<mapsto> (hash, case block_map st b of None \<Rightarrow> 1 | Some (h, n) \<Rightarrow> n))"
  proof (cases "DedupFindByBlockLocked st b")
    case None
    then obtain e where e: "slab_alloc (dd_entries st) = Some e" "st' = add_entry now e b hash tag st"
      using r by (auto simp: register_round_def)
    have new: "e \<notin> live st" using e(1) fresh by (simp add: slab_fresh_def)
    have nob: "\<forall>x\<in>live st. block_of st x \<noteq> b" using None find_block(1) [OF ok] by simp
    note a = add_entry_ok [OF ok new b nob len, of now tag]
    have at: "entry_at st' e = \<lparr>de_hash = hash, de_physical_block = b, de_ref_count = 1, de_create_time = now,
        de_last_access = now, de_tag_context = DedupComputeTagContext tag\<rparr>" "\<And>x. x \<noteq> e \<Longrightarrow> entry_at st' x = entry_at st x"
      unfolding e(2) entry_at_def a(3) by simp_all
    have "live st' = insert e (live st)" unfolding e(2) a(3) by simp
    then have "block_map st' = (block_map st)(b \<mapsto> (hash, 1))"
      using block_map_update [OF ok, of st' e b] a(1) e(2) at new by auto
    then show ?thesis using a(1,2) e(2) None by (simp add: block_map_def)
  next
    case (Some e)
    note v = find_view [OF ok Some] and rh = rehash_ok [OF ok _ len]
    let ?f = "\<lambda>x. x\<lparr>de_tag_context := DedupComputeTagContext tag, de_last_access := now\<rparr>"
    have st': "st' = set_entry e ?f (rehash e hash st)" using r Some by (auto simp: register_round_def)
    have at: "entry_at (rehash e hash st) e = (entry_at st e)\<lparr>de_hash := hash\<rparr>" using rh(4) [OF v(1)] by simp
    have "entry_ok (?f (entry_at (rehash e hash st) e))" using v(3) len by (simp add: at entry_ok_def)
    then have ok': "dedup_ok st'" unfolding st' using set_entry_ok [OF rh(1) [OF v(1)], of e ?f] rh(2) [OF v(1)] v(1) by simp
    have "live st' = live st" using st' rh(2) [OF v(1)] v(1) by auto
    then have "block_map st' = (block_map st)(b \<mapsto> (hash, de_ref_count (entry_at st e)))"
      using block_map_update [OF ok ok', of e b] v(1,2) rh(4) [OF v(1)] by (simp add: st')
    then show ?thesis using ok' v(4) rh(3) [OF v(1)] st' by simp
  qed
  then show "dedup_ok st'" "dd_hash_ctx st' = dd_hash_ctx st"
    "block_map st' = (block_map st)(b \<mapsto> (hash, case block_map st b of None \<Rightarrow> 1 | Some (h, n) \<Rightarrow> n))" by blast+
qed


text \<open>What registering does to the view: the first round, or a collection and a second round.\<close>

lemma register_view:
  assumes ok: "dedup_ok st" and fresh: "slab_fresh slab_alloc"
    and r: "TagFS_DedupRegister now slab_alloc b data tag st = (err, st')"
  shows "dedup_ok st'" "dd_hash_ctx st' = dd_hash_ctx st"
    "err = OK \<Longrightarrow> \<exists>st1. (st1 = st \<or> st1 = snd (TagFS_DedupGC now st)) \<and>
       block_map st' = (block_map st1)(b \<mapsto> (DedupComputeHash st data, case block_map st1 b of None \<Rightarrow> 1 | Some (h, n) \<Rightarrow> n))"
proof -
  let ?h = "DedupComputeHash st data" and ?round = "\<lambda>s. register_round now slab_alloc b (DedupComputeHash st data) tag s"
  note rr = register_round_view [OF _ fresh _ hash_length]
  obtain e1 st1 where gc: "TagFS_DedupGC now st = (e1, st1)" by fastforce
  note g = gc_view [OF ok gc]
  have "dedup_ok st' \<and> dd_hash_ctx st' = dd_hash_ctx st \<and> (err = OK \<longrightarrow>
    (\<exists>s. (s = st \<or> s = st1) \<and> block_map st' = (block_map s)(b \<mapsto> (?h, case block_map s b of None \<Rightarrow> 1 | Some (h, n) \<Rightarrow> n))))"
  proof (cases "b = 0")
    case True
    then show ?thesis using r ok by (auto simp: TagFS_DedupRegister_def)
  next
    case b: False
    show ?thesis
    proof (cases "?round st")
      case (Some s)
      then have "err = OK" "st' = s" using r b dedup_okD(1) [OF ok] by (auto simp: TagFS_DedupRegister_def Let_def)
      then show ?thesis using rr [OF ok b Some] by blast
    next
      case None
      show ?thesis
      proof (cases "?round st1")
        case (Some s)
        then have "err = OK" "st' = s"
          using r b None gc dedup_okD(1) [OF ok] by (auto simp: TagFS_DedupRegister_def Let_def)
        then show ?thesis using rr [OF g(2) b Some] g(3) by metis
      next
        case None': None
        then have "err = ERR_NO_MEMORY" "st' = st1"
          using r b None gc dedup_okD(1) [OF ok] by (auto simp: TagFS_DedupRegister_def Let_def)
        then show ?thesis using g by simp
      qed
    qed
  qed
  then show "dedup_ok st'" "dd_hash_ctx st' = dd_hash_ctx st"
    "err = OK \<Longrightarrow> \<exists>st1. (st1 = st \<or> st1 = snd (TagFS_DedupGC now st)) \<and>
       block_map st' = (block_map st1)(b \<mapsto> (?h, case block_map st1 b of None \<Rightarrow> 1 | Some (h, n) \<Rightarrow> n))"
    using gc by auto
qed

lemma check_view:
  assumes ok: "dedup_ok st" and c: "TagFS_DedupCheck now data st = (err, found, st')"
  shows "dedup_ok st'" "block_map st' = block_map st" "dd_hash_ctx st' = dd_hash_ctx st"
    "case found of
       None \<Rightarrow> err = ERR_OBJECT_NOT_FOUND \<and> (\<forall>b n. block_map st b \<noteq> Some (DedupComputeHash st data, n))
     | Some b \<Rightarrow> err = OK \<and> (\<exists>n. block_map st b = Some (DedupComputeHash st data, n))"
proof -
  let ?h = "DedupComputeHash st data"
  let ?P = "\<lambda>e. DedupHashEqual (de_hash (entry_at st e)) ?h"
  have eq: "?P e \<longleftrightarrow> de_hash (entry_at st e) = ?h" if "e \<in> live st" for e
    using dedup_okD(7) [OF ok that] hash_length by (simp add: hash_equal entry_ok_def)
  note t = table_find [OF dedup_okD(4) [OF ok] bucket_less(1), of ?P ?h]
  have "dedup_ok st' \<and> block_map st' = block_map st \<and> dd_hash_ctx st' = dd_hash_ctx st \<and> (case found of
       None \<Rightarrow> err = ERR_OBJECT_NOT_FOUND \<and> (\<forall>b n. block_map st b \<noteq> Some (?h, n))
     | Some b \<Rightarrow> err = OK \<and> (\<exists>n. block_map st b = Some (?h, n)))"
  proof (cases "find ?P (dd_hash_table st ! DedupHashBucket ?h)")
    case None
    then have r: "found = None" "err = ERR_OBJECT_NOT_FOUND" "st' = st"
      using c dedup_okD(1) [OF ok] by (auto simp: TagFS_DedupCheck_def Let_def)
    have "\<forall>e\<in>live st. de_hash (entry_at st e) \<noteq> ?h" using t(1) None eq by simp
    then show ?thesis using r ok block_map_iff [OF ok] by auto
  next
    case (Some e)
    then have e: "e \<in> live st" "de_hash (entry_at st e) = ?h" using t(2) eq by auto
    let ?s = "dd_stats st" and ?f = "\<lambda>x. x\<lparr>de_last_access := now\<rparr>"
    let ?st1 = "st\<lparr>dd_stats := ?s\<lparr>ds_duplicate_blocks := ds_duplicate_blocks ?s + 1,
                                      ds_bytes_saved := ds_bytes_saved ?s + TAGFS_BLOCK_SIZE\<rparr>\<rparr>"
    have r: "found = Some (block_of st e)" "err = OK" "st' = set_entry e ?f ?st1"
      using c Some dedup_okD(1) [OF ok] by (auto simp: TagFS_DedupCheck_def Let_def)
    have ok1: "dedup_ok ?st1" using ok by (simp add: stats_view)
    have at: "entry_at ?st1 = entry_at st" "live ?st1 = live st" by (simp_all add: entry_at_def fun_eq_iff)
    have m1: "block_map ?st1 = block_map st" by (simp add: block_map_def DedupFindByBlockLocked_def at fun_eq_iff)
    have m: "block_map st (block_of st e) = Some (?h, de_ref_count (entry_at st e))"
      unfolding block_map_iff [OF ok] by (rule bexI [OF _ e(1)]) (simp add: e(2))
    have "entry_ok (?f (entry_at st e))" using dedup_okD(7) [OF ok e(1)] by (simp add: entry_ok_def)
    then have "dedup_ok st'" "block_map st' = (block_map st)(block_of st e \<mapsto> (?h, de_ref_count (entry_at st e)))"
      using touch_view [OF ok1, of e ?f] e r(3) by (simp_all add: at m1)
    moreover have "(block_map st)(block_of st e \<mapsto> (?h, de_ref_count (entry_at st e))) = block_map st"
      using m by (rule map_upd_triv)
    ultimately show ?thesis using r m by auto
  qed
  then show "dedup_ok st'" "block_map st' = block_map st" "dd_hash_ctx st' = dd_hash_ctx st"
    "case found of
       None \<Rightarrow> err = ERR_OBJECT_NOT_FOUND \<and> (\<forall>b n. block_map st b \<noteq> Some (?h, n))
     | Some b \<Rightarrow> err = OK \<and> (\<exists>n. block_map st b = Some (?h, n))" by blast+
qed


subsection \<open>Reference counting\<close>

definition dedup_refs :: "DedupState \<Rightarrow> u32 \<Rightarrow> nat" where
  "dedup_refs st b = (case block_map st b of None \<Rightarrow> 0 | Some (h, r) \<Rightarrow> unat r)"

definition dedup_acquire :: "u64 \<Rightarrow> u32 \<Rightarrow> DedupState \<Rightarrow> DedupState option" where
  "dedup_acquire now b st = (case TagFS_DedupAddRef now b st of (OK, st') \<Rightarrow> Some st' | _ \<Rightarrow> None)"

definition dedup_release :: "u64 \<Rightarrow> u32 \<Rightarrow> DedupState \<Rightarrow> (DedupState \<times> bool) option" where
  "dedup_release now b st = (case TagFS_DedupUnregister now b st of (OK, reclaim, st') \<Rightarrow> Some (st', reclaim) | _ \<Rightarrow> None)"

lemma refs_bounds: "dedup_ok st \<Longrightarrow> block_map st b = Some (h, r) \<Longrightarrow> 1 \<le> r \<and> r \<le> DEDUP_MAX_REFS \<and> 1 \<le> unat r \<and> unat r \<le> 65535"
  using block_map_iff [of st b "(h, r)"] dedup_okD(7) [of st]
  by (auto simp: entry_ok_def word_le_nat_alt DEDUP_MAX_REFS_def)

lemma acquire_ok:
  assumes ok: "dedup_ok st" and a: "dedup_acquire now b st = Some st'"
  shows "dedup_ok st' \<and> 0 < dedup_refs st b \<and> dedup_refs st' = (dedup_refs st)(b := dedup_refs st b + 1)"
proof -
  have res: "TagFS_DedupAddRef now b st = (OK, st')"
    using a by (auto simp: dedup_acquire_def split: prod.splits error_t.splits)
  then obtain h r where m: "block_map st b = Some (h, r)" "r < DEDUP_MAX_REFS"
    using addref_view(1) [OF ok, of now b] by (auto split: option.splits if_splits)
  have v: "dedup_ok st'" "block_map st' = (block_map st)(b \<mapsto> (h, r + 1))"
    using addref_view(2) [OF ok m, of now] res by simp_all
  have "unat (r + 1) = unat r + 1" using m(2) by (simp add: unat_word_ariths word_less_nat_alt DEDUP_MAX_REFS_def)
  moreover have "0 < unat r" using refs_bounds [OF ok m(1)] by simp
  ultimately show ?thesis using v m(1) by (auto simp: dedup_refs_def fun_eq_iff)
qed

lemma release_ok:
  assumes ok: "dedup_ok st" and a: "dedup_release now b st = Some (st', reclaim)"
  shows "dedup_ok st' \<and> 0 < dedup_refs st b \<and> dedup_refs st' = (dedup_refs st)(b := dedup_refs st b - 1) \<and>
    (reclaim \<longleftrightarrow> dedup_refs st b = 1)"
proof -
  have res: "TagFS_DedupUnregister now b st = (OK, reclaim, st')"
    using a by (auto simp: dedup_release_def split: prod.splits error_t.splits)
  note u = unregister_view [OF ok res]
  obtain h r where m: "block_map st b = Some (h, r)" using u(3) by (cases "block_map st b") auto
  note v = u(4) [OF m] and rb = refs_bounds [OF ok m]
  have "r = 1 \<longleftrightarrow> unat r = 1" by (simp add: word_unat_eq_iff)
  moreover have "unat (r - 1) = unat r - 1" using rb by (simp add: unat_sub)
  ultimately show ?thesis using v u(1) m rb by (auto simp: dedup_refs_def fun_eq_iff)
qed

interpretation dedup: ref_table dedup_ok dedup_refs "dedup_acquire now" "dedup_release now" for now
proof unfold_locales
  fix st b assume ok: "dedup_ok st"
  show "dedup_ok st' \<and> 0 < dedup_refs st b \<and> dedup_refs st' = (dedup_refs st)(b := dedup_refs st b + 1)"
    if "dedup_acquire now b st = Some st'" for st' using acquire_ok [OF ok that] .
  show "dedup_ok st' \<and> 0 < dedup_refs st b \<and> dedup_refs st' = (dedup_refs st)(b := dedup_refs st b - 1) \<and>
      (r \<longleftrightarrow> dedup_refs st b = 1)" if "dedup_release now b st = Some (st', r)" for st' r using release_ok [OF ok that] .
  obtain err reclaim st' where res: "TagFS_DedupUnregister now b st = (err, reclaim, st')" by (metis prod_cases3)
  note u = unregister_view [OF ok res]
  show "dedup_release now b st = None \<longleftrightarrow> dedup_refs st b = 0"
  proof (cases "block_map st b")
    case None
    then show ?thesis using u(3) res by (cases err) (auto simp: dedup_release_def dedup_refs_def)
  next
    case (Some v)
    obtain h r where v: "v = (h, r)" by (cases v)
    then show ?thesis using u(4) [of h r] Some res refs_bounds [OF ok, of b h r]
      by (auto simp: dedup_release_def dedup_refs_def)
  qed
qed

subsection \<open>Allocation\<close>

lemma alloc_view:
  assumes ok: "dedup_ok st" and fresh: "slab_fresh slab_alloc"
    and a: "TagFS_DedupAllocBlock now slab_alloc blocks data tag st = (res, st')"
  shows "dedup_ok st'"
    "res = Inr (b, True) \<Longrightarrow> \<exists>n. block_map st b = Some (DedupComputeHash st data, n) \<and>
       block_map st' = (block_map st)(b \<mapsto> (DedupComputeHash st data, n + 1))"
    "(\<exists>b n. block_map st b = Some (DedupComputeHash st data, n)) \<Longrightarrow>
       (\<forall>b n. block_map st b = Some (DedupComputeHash st data, n) \<longrightarrow> n < DEDUP_MAX_REFS) \<Longrightarrow> \<exists>b. res = Inr (b, True)"
proof -
  let ?h = "DedupComputeHash st data"
  obtain err found st1 where c: "TagFS_DedupCheck now data st = (err, found, st1)" by (metis prod_cases3)
  note v = check_view [OF ok c]
  have fr: "dedup_ok st'" "\<not> (\<exists>b. res = Inr (b, True))"
    if "dedup_ok s" "alloc_fresh now slab_alloc blocks data tag s = (res, st')" for s
    using that register_view(1) [OF that(1) fresh] by (auto simp: alloc_fresh_def split: sum.splits) (metis prod.collapse)
  have "dedup_ok st' \<and> (\<forall>b. res = Inr (b, True) \<longrightarrow> (\<exists>n. block_map st b = Some (?h, n) \<and>
       block_map st' = (block_map st)(b \<mapsto> (?h, n + 1)))) \<and>
    ((\<exists>b n. block_map st b = Some (?h, n)) \<and> (\<forall>b n. block_map st b = Some (?h, n) \<longrightarrow> n < DEDUP_MAX_REFS) \<longrightarrow>
       (\<exists>b. res = Inr (b, True)))"
  proof (cases found)
    case None
    then have "alloc_fresh now slab_alloc blocks data tag st1 = (res, st')" using a c by (simp add: TagFS_DedupAllocBlock_def)
    then show ?thesis using fr [OF v(1)] v(4) None by auto
  next
    case (Some b)
    obtain n where m: "block_map st b = Some (?h, n)" using v(4) Some by auto
    obtain e2 st2 where r: "TagFS_DedupAddRef now b st1 = (e2, st2)" by fastforce
    note ar = addref_view(1) [OF v(1), of now b, unfolded v(2) m r]
    show ?thesis
    proof (cases "n < DEDUP_MAX_REFS")
      case True
      then have e2: "e2 = OK" using ar by (auto simp: linorder_not_le [symmetric] split: if_splits)
      have st2: "dedup_ok st2" "block_map st2 = (block_map st)(b \<mapsto> (?h, n + 1))"
        using addref_view(2) [OF v(1), of b ?h n now] m True r by (simp_all add: v(2))
      have "res = Inr (b, True)" "st' = st2" using a c Some r e2 by (auto simp: TagFS_DedupAllocBlock_def)
      then show ?thesis using st2 m by auto
    next
      case False
      then have "DEDUP_MAX_REFS \<le> n" by (simp add: linorder_not_less)
      then have "e2 = ERR_QUOTA_EXCEEDED" "st2 = st1" using ar by simp_all
      then have "alloc_fresh now slab_alloc blocks data tag st1 = (res, st')"
        using a c Some r by (simp add: TagFS_DedupAllocBlock_def)
      then show ?thesis using fr [OF v(1)] m False by auto
    qed
  qed
  then show "dedup_ok st'"
    "res = Inr (b, True) \<Longrightarrow> \<exists>n. block_map st b = Some (?h, n) \<and> block_map st' = (block_map st)(b \<mapsto> (?h, n + 1))"
    "(\<exists>b n. block_map st b = Some (?h, n)) \<Longrightarrow>
       (\<forall>b n. block_map st b = Some (?h, n) \<longrightarrow> n < DEDUP_MAX_REFS) \<Longrightarrow> \<exists>b. res = Inr (b, True)" by blast+
qed


subsection \<open>Tag queries\<close>

lemma find_by_tag:
  assumes ok: "dedup_ok st" and n: "0 < max_blocks"
  shows "TagFS_DedupFindByTag tag max_blocks st = Inr (take max_blocks (map (block_of st)
    (filter (\<lambda>e. de_tag_context (entry_at st e) = DedupComputeTagContext tag) (concat (dd_hash_table st)))))"
proof -
  let ?P = "\<lambda>e. de_tag_context (entry_at st e) = DedupComputeTagContext tag"
  have "foldl (\<lambda>blocks e. if length blocks < max_blocks \<and> ?P e then blocks @ [block_of st e] else blocks) acc es =
      take max_blocks (acc @ map (block_of st) (filter ?P es))" if "length acc \<le> max_blocks" for acc es
    using that by (induction es arbitrary: acc) (auto simp: not_less take_Cons')
  moreover have "take DEDUP_HASH_BUCKETS (dd_hash_table st) = dd_hash_table st"
    using table_okD(1) [OF dedup_okD(4) [OF ok]] by simp
  ultimately show ?thesis using n dedup_okD(1) [OF ok] by (simp add: TagFS_DedupFindByTag_def Let_def)
qed

lemma tag_stats:
  assumes ok: "dedup_ok st"
  shows "TagFS_DedupGetTagStats tag st =
    (let n = of_nat (card {e \<in> live st. de_tag_context (entry_at st e) = DedupComputeTagContext tag})
     in Inr (n, n * TAGFS_BLOCK_SIZE))"
proof -
  let ?P = "\<lambda>e. de_tag_context (entry_at st e) = DedupComputeTagContext tag"
  note t = table_distinct [OF dedup_okD(4) [OF ok]]
  have "foldl (\<lambda>n e. if ?P e then n + 1 else n) (acc :: u64) es = acc + of_nat (length (filter ?P es))" for acc es
    by (induction es arbitrary: acc) auto
  moreover have "take DEDUP_HASH_BUCKETS (dd_hash_table st) = dd_hash_table st"
    using table_okD(1) [OF dedup_okD(4) [OF ok]] by simp
  moreover have "length (filter ?P (concat (dd_hash_table st))) = card {e \<in> live st. ?P e}"
    unfolding distinct_card [OF distinct_filter [OF t(1), of ?P], symmetric] set_filter t(2) ..
  ultimately show ?thesis using dedup_okD(1) [OF ok] by (simp add: TagFS_DedupGetTagStats_def Let_def)
qed

section \<open>The codec\<close>

fun expand :: "bytes \<Rightarrow> bytes" where
  "expand (byte # count # rest) = replicate (unat count) byte @ expand rest"
| "expand _ = []"

lemma expand_append: "even (length a) \<Longrightarrow> expand (a @ b) = expand a @ expand b"
  by (induction a rule: expand.induct) auto

lemma decomp_expand: "length out \<le> cap \<Longrightarrow> decomp_loop cap z out = take cap (out @ expand z)"
proof (induction cap z out rule: decomp_loop.induct)
  case (1 cap byte count rest out)
  show ?case
  proof (cases "length out < cap")
    case True
    then show ?thesis using 1 by (cases "unat count \<le> cap - length out") (auto simp: min_def)
  qed (use 1 in simp)
qed auto

lemma comp_run_spec:
  assumes "\<forall>i<n. data ! (p + i) = data ! p" "p + n \<le> length data" "n \<le> 255"
  shows "let m = comp_run data p n in (\<forall>i<m. data ! (p + i) = data ! p) \<and> p + m \<le> length data \<and> m \<le> 255"
  using assms
proof (induction data p n rule: comp_run.induct)
  case (1 data p n)
  show ?case
  proof (cases "p + n < length data \<and> data ! (p + n) = data ! p \<and> n < 255")
    case True
    then have "comp_run data p n = comp_run data p (n + 1)" by (subst comp_run.simps) simp
    then show ?thesis using 1 True by (auto simp: less_Suc_eq)
  next
    case False
    have "comp_run data p n = n" by (subst comp_run.simps) (rule if_not_P [OF False])
    then show ?thesis using 1 by (simp add: Let_def)
  qed
qed

lemma comp_loop_spec:
  "expand out = take p data \<Longrightarrow> even (length out) \<Longrightarrow> p \<le> length data \<Longrightarrow>
     \<exists>p'\<le>length data. expand (comp_loop data p out) = take p' data \<and>
       (p' = length data \<or> length data - 2 \<le> length (comp_loop data p out))"
proof (induction data p out rule: comp_loop.induct)
  case (1 data p out)
  show ?case
  proof (cases "p < length data \<and> length out < length data - 2")
    case True
    define m where "m = comp_run data p 1"
    have m: "\<forall>i<m. data ! (p + i) = data ! p" "p + m \<le> length data" "m \<le> 255"
      using comp_run_spec [of 1 data p] True by (simp_all add: m_def Let_def)
    have eq: "comp_loop data p out = comp_loop data (p + m) (out @ [data ! p, of_nat m])"
      using True by (subst comp_loop.simps) (simp add: m_def Let_def)
    have "take m (drop p data) = replicate m (data ! p)" using m(1,2) by (intro nth_equalityI) auto
    moreover have "unat (of_nat m :: u8) = m" using m(3) by (simp add: unat_of_nat take_bit_nat_eq_self)
    ultimately have "expand (out @ [data ! p, of_nat m]) = take (p + m) data"
      using 1(2,3) by (simp add: expand_append take_add)
    then show ?thesis using 1(1) [OF True m_def] 1(3) m(2) eq by simp
  next
    case False
    have "comp_loop data p out = out" by (subst comp_loop.simps) (rule if_not_P [OF False])
    then show ?thesis using 1 False by (intro exI [of _ p]) auto
  qed
qed


section \<open>Histories and a witness state\<close>

text \<open>Any sequence of operations; the clock, the allocators and the data are arbitrary.\<close>

inductive dedup_step :: "DedupState \<Rightarrow> DedupState \<Rightarrow> bool" where
  init: "dedup_step st (snd (TagFS_DedupInit hash_alloc block_alloc uuid st))"
| shutdown: "dedup_step st (TagFS_DedupShutdown st)"
| check: "dedup_step st (snd (snd (TagFS_DedupCheck now data st)))"
| register: "slab_fresh slab_alloc \<Longrightarrow> dedup_step st (snd (TagFS_DedupRegister now slab_alloc b data tag st))"
| addref: "dedup_step st (snd (TagFS_DedupAddRef now b st))"
| unregister: "dedup_step st (snd (snd (TagFS_DedupUnregister now b st)))"
| alloc: "slab_fresh slab_alloc \<Longrightarrow> dedup_step st (snd (TagFS_DedupAllocBlock now slab_alloc blocks data tag st))"
| gc: "dedup_step st (snd (TagFS_DedupGC now st))"

inductive dedup_reachable :: "DedupState \<Rightarrow> bool" where
  boot: "\<not> dd_initialized st \<Longrightarrow> dedup_reachable st"
| step: "dedup_reachable st \<Longrightarrow> dedup_step st st' \<Longrightarrow> dedup_reachable st'"

lemma dedup_init_ok: "\<not> dd_initialized st \<Longrightarrow> dedup_ok (snd (TagFS_DedupInit True True uuid st))"
  by (simp add: TagFS_DedupInit_def Let_def dedup_ok_def table_empty no_stats_def)

lemma off_stays:
  assumes "\<not> dd_initialized st"
  shows "TagFS_DedupCheck now data st = (ERR_NOT_INITIALIZED, None, st)" "snd (TagFS_DedupRegister now slab_alloc b data tag st) = st"
    "snd (TagFS_DedupAddRef now b st) = st" "snd (snd (TagFS_DedupUnregister now b st)) = st" "snd (TagFS_DedupGC now st) = st"
    "snd (TagFS_DedupAllocBlock now slab_alloc blocks data tag st) = st" "TagFS_DedupShutdown st = st"
  using assms
  by (simp_all add: TagFS_DedupCheck_def TagFS_DedupRegister_def TagFS_DedupAddRef_def TagFS_DedupUnregister_def
    TagFS_DedupGC_def TagFS_DedupAllocBlock_def TagFS_DedupShutdown_def alloc_fresh_def split: sum.splits)

lemma shutdown_off: "\<not> dd_initialized (TagFS_DedupShutdown st)"
  by (simp add: TagFS_DedupShutdown_def Let_def)

lemma step_ok:
  assumes "dedup_step st st'" "dd_initialized st \<Longrightarrow> dedup_ok st" "dd_initialized st'"
  shows "dedup_ok st'"
  using assms
proof (induction rule: dedup_step.induct)
  case (init st hash_alloc block_alloc uuid)
  then show ?case using dedup_init_ok [of st uuid]
    by (cases "dd_initialized st"; cases hash_alloc; cases block_alloc) (auto simp: TagFS_DedupInit_def Let_def)
next
  case (shutdown st)
  then show ?case using shutdown_off by blast
next
  case (check st now data)
  then show ?case using check_view(1) [of st now data] by (cases "dd_initialized st") (auto simp: off_stays, metis prod.collapse)
next
  case (register slab_alloc st now b data tag)
  then show ?case using register_view(1) [of st slab_alloc now b data tag]
    by (cases "dd_initialized st") (auto simp: off_stays, metis prod.collapse)
next
  case (addref st now b)
  show ?case
  proof (cases "dd_initialized st")
    case True
    then have ok: "dedup_ok st" using addref by blast
    show ?thesis
    proof (cases "\<exists>h r. block_map st b = Some (h, r) \<and> r < DEDUP_MAX_REFS")
      case True
      then show ?thesis using addref_view(2) [OF ok] by blast
    next
      case False
      then have "snd (TagFS_DedupAddRef now b st) = st"
        using addref_view(1) [OF ok, of now b] by (cases "block_map st b") (auto simp: linorder_not_less split: if_splits)
      then show ?thesis using ok by simp
    qed
  qed (use addref in \<open>auto simp: off_stays\<close>)
next
  case (unregister st now b)
  then show ?case using unregister_view(1) [of st now b]
    by (cases "dd_initialized st") (auto simp: off_stays, metis prod.collapse)
next
  case (alloc slab_alloc st now blocks data tag)
  then show ?case using alloc_view(1) [of st slab_alloc now blocks data tag]
    by (cases "dd_initialized st") (auto simp: off_stays, metis prod.collapse)
next
  case (gc st now)
  then show ?case using gc_view(2) [of st now] by (cases "dd_initialized st") (auto simp: off_stays, metis prod.collapse)
qed

lemma reachable_ok: "dedup_reachable st \<Longrightarrow> dd_initialized st \<Longrightarrow> dedup_ok st"
  by (induction rule: dedup_reachable.induct) (auto intro: step_ok)

definition off_state :: DedupState where
  "off_state = \<lparr>dd_hash_ctx = [], dd_hash_table = [], dd_block_table = [], dd_entries = Map.empty, dd_hash_buckets = 0,
     dd_entry_count = 0, dd_last_gc_time = 0, dd_stats = no_stats, dd_initialized = False\<rparr>"

definition empty_state :: DedupState where
  "empty_state = snd (TagFS_DedupInit True True (replicate 16 0) off_state)"

definition one_slab :: slab where
  "one_slab heap = (if heap 0 = None then Some 0 else None)"

definition one_block :: DedupState where
  "one_block = snd (TagFS_DedupRegister 10 one_slab 5 [1, 2, 3] 7 empty_state)"

lemma empty_ok: "dedup_ok empty_state" "block_map empty_state b = None"
proof -
  show ok: "dedup_ok empty_state" unfolding empty_state_def by (rule dedup_init_ok) (simp add: off_state_def)
  have "live empty_state = {}" by (simp add: empty_state_def TagFS_DedupInit_def off_state_def Let_def)
  then show "block_map empty_state b = None" using block_map_None [OF ok] by simp
qed

lemma one_slab_fresh: "slab_fresh one_slab"
  by (auto simp: slab_fresh_def one_slab_def)

lemma one_block_ok:
  "dedup_ok one_block" "block_map one_block = [5 \<mapsto> (DedupComputeHash one_block [1, 2, 3], 1)]"
proof -
  let ?h = "DedupComputeHash empty_state [1, 2, 3]"
  have "DedupFindByBlockLocked empty_state 5 = None" using empty_ok(2) [of 5] by (simp add: block_map_def)
  moreover have "dd_entries empty_state = Map.empty" "dd_initialized empty_state"
    by (simp_all add: empty_state_def TagFS_DedupInit_def off_state_def Let_def)
  ultimately obtain st where r: "TagFS_DedupRegister 10 one_slab 5 [1, 2, 3] 7 empty_state = (OK, st)"
      "register_round 10 one_slab 5 ?h 7 empty_state = Some st"
    by (simp add: TagFS_DedupRegister_def register_round_def one_slab_def Let_def)
  have st: "one_block = st" using r(1) by (simp add: one_block_def)
  note v = register_round_view [OF empty_ok(1) one_slab_fresh _ hash_length r(2)]
  have "DedupComputeHash one_block [1, 2, 3] = ?h" using v(2) st by (simp add: DedupComputeHash_def)
  then show "dedup_ok one_block" "block_map one_block = [5 \<mapsto> (DedupComputeHash one_block [1, 2, 3], 1)]"
    using v(1,3) st empty_ok(2) by (auto simp: fun_eq_iff)
qed


section \<open>Properties\<close>

text \<open>
  C20. Reference safety of shared blocks: over any sequence of added and dropped references, the count
  of a block is what it was plus the references added minus those dropped, and a block is reported
  reclaimable only when no reference to it is left.
\<close>

theorem dedup_reference_safety:
  assumes "dedup_ok st" and "dedup.run now opers st = (added, dropped, reclaimed, st')"
  shows "dedup_refs st' b + count_list dropped b = dedup_refs st b + count_list added b \<and>
    (b \<in> set reclaimed \<longrightarrow> dedup_refs st' b = 0)"
  using dedup.run_balance [OF assms] dedup.run_reclaim [OF assms] by blast

theorem dedup_reference_safety_witness:
  "\<exists>a d c st'. dedup.run 20 [Acquire 5, Release 5] one_block = (a, d, c, st') \<and>
     dedup_refs st' 5 + count_list d 5 = 1 + count_list a 5"
proof -
  obtain a d c st' where r: "dedup.run 20 [Acquire 5, Release 5] one_block = (a, d, c, st')" by (metis prod_cases4)
  have "dedup_refs one_block 5 = 1" using one_block_ok(2) by (simp add: dedup_refs_def)
  then show ?thesis using dedup_reference_safety [OF one_block_ok(1) r, of 5] r by auto
qed

text \<open>
  Deduplication works: when a block with the same content hash is recorded and no such block has
  used up its references, an allocation returns a block recorded with that hash and adds one
  reference to it; and a block is reported as shared only in that way.
\<close>

theorem dedup_shares_equal_blocks:
  assumes "dedup_ok st" and "slab_fresh slab_alloc"
    and "block_map st b0 = Some (DedupComputeHash st data, n0)"
    and "\<forall>b n. block_map st b = Some (DedupComputeHash st data, n) \<longrightarrow> n < DEDUP_MAX_REFS"
    and "TagFS_DedupAllocBlock now slab_alloc blocks data tag st = (res, st')"
  shows "\<exists>b n. res = Inr (b, True) \<and> block_map st b = Some (DedupComputeHash st data, n) \<and>
    block_map st' = (block_map st)(b \<mapsto> (DedupComputeHash st data, n + 1))"
proof -
  obtain b where "res = Inr (b, True)" using alloc_view(3) [OF assms(1,2,5)] assms(3,4) by blast
  then show ?thesis using alloc_view(2) [OF assms(1,2,5)] by blast
qed

theorem dedup_shares_equal_blocks_witness:
  "\<exists>st'. TagFS_DedupAllocBlock 20 one_slab (Inl ERR_NO_MEMORY) [1, 2, 3] 7 one_block = (Inr (5, True), st') \<and>
     dedup_refs st' 5 = 2"
proof -
  obtain res st' where a: "TagFS_DedupAllocBlock 20 one_slab (Inl ERR_NO_MEMORY) [1, 2, 3] 7 one_block = (res, st')" by fastforce
  let ?h = "DedupComputeHash one_block [1, 2, 3]"
  have m: "block_map one_block 5 = Some (?h, 1)" "\<forall>b n. block_map one_block b = Some (?h, n) \<longrightarrow> n < DEDUP_MAX_REFS"
    using one_block_ok(2) by (auto simp: DEDUP_MAX_REFS_def split: if_splits)
  obtain b n where r: "res = Inr (b, True)" "block_map one_block b = Some (?h, n)" "block_map st' = (block_map one_block)(b \<mapsto> (?h, n + 1))"
    using dedup_shares_equal_blocks [OF one_block_ok(1) one_slab_fresh m a] by blast
  then have "b = 5" "n = 1" using one_block_ok(2) by (auto split: if_splits)
  then show ?thesis using r a by (simp add: dedup_refs_def)
qed

text \<open>
  Garbage collection removes exactly the records that have at most one reference and have not
  been used for longer than the threshold; every other record, in particular that of every shared
  block, is untouched, and so is the well-formedness of the tables.
\<close>

theorem dedup_gc_exact:
  assumes "dedup_ok st" and "TagFS_DedupGC now st = (err, st')"
  shows "err = OK \<and> dedup_ok st' \<and> dd_entries st' = (\<lambda>e. case dd_entries st e of
      Some x \<Rightarrow> if de_ref_count x \<le> 1 \<and> now - de_last_access x > DEDUP_GC_THRESHOLD_SECS then None else Some x
    | None \<Rightarrow> None) \<and>
    (1 < dedup_refs st b \<longrightarrow> block_map st' b = block_map st b)"
proof (intro conjI impI)
  note g = gc_view [OF assms]
  show "err = OK" "dedup_ok st'" by (rule g)+
  show "dd_entries st' = (\<lambda>e. case dd_entries st e of
      Some x \<Rightarrow> if de_ref_count x \<le> 1 \<and> now - de_last_access x > DEDUP_GC_THRESHOLD_SECS then None else Some x
    | None \<Rightarrow> None)"
    unfolding g(4) by (auto simp: fun_eq_iff stale_def entry_at_def split: option.splits)
  assume r: "1 < dedup_refs st b"
  then obtain h n where m: "block_map st b = Some (h, n)" "1 < unat n" by (auto simp: dedup_refs_def split: option.splits)
  have "\<not> stale now (entry_at st e)" if "e \<in> live st" "block_of st e = b" for e
  proof -
    have "block_map st b = Some (de_hash (entry_at st e), de_ref_count (entry_at st e))"
      unfolding block_map_iff [OF assms(1)] using that by blast
    then show ?thesis using m by (simp add: stale_def word_le_nat_alt)
  qed
  then show "block_map st' b = block_map st b" using g(5) [of b] by auto
qed

theorem dedup_gc_exact_witness: "\<exists>st'. TagFS_DedupGC 20 one_block = (OK, st') \<and> dedup_ok st'"
proof -
  obtain err st' where g: "TagFS_DedupGC 20 one_block = (err, st')" by fastforce
  then show ?thesis using dedup_gc_exact [OF one_block_ok(1) g, of 5] by auto
qed

text \<open>
  The tables stay consistent in every reachable state: each record is in exactly the chain of its
  hash and exactly the chain of its block number, no block has two records, block 0 has none, counts
  are between 1 and \<^verbatim>\<open>DEDUP_MAX_REFS\<close>, the counters equal the number of records, and the tag
  statistics count the records with that tag.
\<close>

theorem dedup_tables_consistent:
  assumes "dedup_reachable st" and "dd_initialized st"
  shows "dedup_ok st \<and> dd_entry_count st = of_nat (card (live st)) \<and> card (live st) < 2 ^ 32 \<and>
    distinct (concat (dd_hash_table st)) \<and> set (concat (dd_hash_table st)) = live st \<and>
    distinct (concat (dd_block_table st)) \<and> set (concat (dd_block_table st)) = live st \<and>
    TagFS_DedupGetTagStats tag st =
      (let n = of_nat (card {e \<in> live st. de_tag_context (entry_at st e) = DedupComputeTagContext tag})
       in Inr (n, n * TAGFS_BLOCK_SIZE))"
proof -
  have ok: "dedup_ok st" by (rule reachable_ok [OF assms])
  show ?thesis
    using ok dedup_okD(8) [OF ok] live_card [OF ok] table_distinct [OF dedup_okD(4) [OF ok]]
      table_distinct [OF dedup_okD(5) [OF ok]] tag_stats [OF ok, of tag]
    by (intro conjI)
qed

theorem dedup_tables_consistent_witness: "dedup_ok empty_state \<and> dd_entry_count empty_state = 0"
proof -
  have r: "dedup_reachable empty_state" unfolding empty_state_def
    by (rule dedup_reachable.step [OF dedup_reachable.boot [of off_state] dedup_step.init]) (simp add: off_state_def)
  have "dd_initialized empty_state" by (rule dedup_okD(1) [OF empty_ok(1)])
  then show ?thesis using dedup_tables_consistent [OF r, of 0]
    by (simp add: empty_state_def TagFS_DedupInit_def off_state_def Let_def)
qed

text \<open>
  The run-length codec of the deduplicator: decompressing what \<^verbatim>\<open>TagFS_DedupCompress\<close> accepted
  gives the first bytes of the input, and all of them when the output is more than two bytes shorter
  than the input.
\<close>

theorem dedup_codec_round_trip:
  assumes "TagFS_DedupCompress data = Inr z" and "cap \<ge> length data"
  shows "(\<exists>n. TagFS_DedupDecompress z cap = take n data) \<and>
    (length z + 2 < length data \<longrightarrow> TagFS_DedupDecompress z cap = data)"
proof -
  have z: "z = comp_loop data 0 []" using assms(1) by (auto simp: TagFS_DedupCompress_def Let_def split: if_splits)
  obtain p where p: "p \<le> length data" "expand z = take p data" "p = length data \<or> length data - 2 \<le> length z"
    using comp_loop_spec [of "[]" 0 data] z by auto
  have "TagFS_DedupDecompress z cap = take p data"
    using assms(2) p(1) by (simp add: TagFS_DedupDecompress_def decomp_expand p(2))
  then show ?thesis using p by auto
qed

theorem dedup_codec_round_trip_witness:
  "\<exists>z. TagFS_DedupCompress (replicate 20 7) = Inr z \<and> TagFS_DedupDecompress z 20 = replicate 20 7"
proof -
  have "comp_run (replicate 20 7) 0 1 = 20" by (simp add: comp_run.simps)
  then have "comp_loop (replicate 20 7) 0 [] = [7, 20]" by (simp add: comp_loop.simps)
  then have "TagFS_DedupCompress (replicate 20 7) = Inr [7, 20]" by (simp add: TagFS_DedupCompress_def)
  then show ?thesis using dedup_codec_round_trip [of "replicate 20 7" "[7, 20]" 20] by simp
qed

text \<open>
  Within two bytes of the input size the loop stops early and the result is still accepted: sixteen
  different bytes compress to fourteen, which stand for the first seven of them.
\<close>

lemma dedup_compress_loses:
  "\<exists>z. TagFS_DedupCompress [0, 1, 2, 3, 4, 5, 6, 7, 8, 9, 10, 11, 12, 13, 14, 15] = Inr z \<and>
     TagFS_DedupDecompress z 16 = [0, 1, 2, 3, 4, 5, 6]"
  by (simp add: TagFS_DedupCompress_def TagFS_DedupDecompress_def comp_loop.simps comp_run.simps)

end
