(* ===== verification/BlockRelease.thy ===== *)
theory BlockRelease
  imports BlockSpace Dedup
begin

text \<open>
  Where the block allocator meets deduplication (kernel/tagfs/tagfs.c): \<^verbatim>\<open>tagfs_free_blocks_internal\<close> asks
  \<^verbatim>\<open>TagFS_DedupUnregister\<close> about every block of a range, gives back only those no other reference
  needs, and collects neighbouring ones into runs for \<^verbatim>\<open>free_run_locked\<close>. The lemmas are over the pair of
  the two components' states; block numbers are natural numbers in the allocator and \<^verbatim>\<open>uint32_t\<close> words in
  the deduplication tables.
\<close>

section \<open>The operation\<close>

text \<open>The loop of \<^verbatim>\<open>tagfs_free_blocks_internal\<close> with its \<^verbatim>\<open>run_start\<close> and \<^verbatim>\<open>run_len\<close>, and what follows it.\<close>

fun release_loop :: "u64 \<Rightarrow> (nat \<Rightarrow> bool) \<Rightarrow> nat list \<Rightarrow> nat \<Rightarrow> nat \<Rightarrow> SpaceState \<Rightarrow> DedupState \<Rightarrow>
    (SpaceState \<times> DedupState) option" where
  "release_loop now mem [] run_start run_len st dd =
     (if run_len \<noteq> 0 then map_option (\<lambda>st'. (st', dd)) (free_run_locked mem run_start run_len st) else Some (st, dd))"
| "release_loop now mem (block # rest) run_start run_len st dd =
     (case TagFS_DedupUnregister now (of_nat block) dd of
        (err, may_reclaim, dd') \<Rightarrow>
          if may_reclaim
          then release_loop now mem rest (if run_len = 0 then block else run_start) (run_len + 1) st dd'
          else if run_len \<noteq> 0
          then do { st' \<leftarrow> free_run_locked mem run_start run_len st; release_loop now mem rest run_start 0 st' dd' }
          else release_loop now mem rest run_start 0 st dd')"

definition tagfs_free_blocks_internal ::
  "u64 \<Rightarrow> (nat \<Rightarrow> bool) \<Rightarrow> nat \<Rightarrow> nat \<Rightarrow> SpaceState \<times> DedupState \<Rightarrow> (SpaceState \<times> DedupState) option" where
  "tagfs_free_blocks_internal now mem start k s =
     (if k = 0 then Some s
      else release_loop now mem (map (\<lambda>i. u32_wrap (start + i)) [0..<k]) start 0 (fst s) (snd s))"

definition tagfs_free_blocks_inside ::
  "u64 \<Rightarrow> (nat \<Rightarrow> bool) \<Rightarrow> nat \<Rightarrow> nat \<Rightarrow> SpaceState \<times> DedupState \<Rightarrow> (int \<times> SpaceState \<times> DedupState) option" where
  "tagfs_free_blocks_inside now mem start k s =
     (if k = 0 then Some (0, s) else map_option (\<lambda>s'. (0, s')) (tagfs_free_blocks_internal now mem start k s))"

definition tagfs_free_blocks ::
  "bool \<Rightarrow> u64 \<Rightarrow> (nat \<Rightarrow> bool) \<Rightarrow> nat \<Rightarrow> nat \<Rightarrow> SpaceState \<times> DedupState \<Rightarrow> (int \<times> SpaceState \<times> DedupState) option" where
  "tagfs_free_blocks door now mem start k s =
     (if \<not> door then Some (- 1, s) else tagfs_free_blocks_inside now mem start k s)"

section \<open>What is given back\<close>

lemma unregister_refs:
  assumes ok: "dedup_ok dd" and u: "TagFS_DedupUnregister now b dd = (err, reclaim, dd')"
  shows "dedup_ok dd' \<and> dedup_refs dd' = (dedup_refs dd)(b := dedup_refs dd b - 1) \<and> (reclaim \<longleftrightarrow> dedup_refs dd b \<le> 1)"
proof (cases "block_map dd b")
  case None
  then show ?thesis using unregister_view(1,3) [OF ok u] ok by (auto simp: dedup_refs_def fun_eq_iff)
next
  case (Some v)
  obtain h r where v: "v = (h, r)" by (cases v)
  then have "dedup_release now b dd = Some (dd', reclaim)"
    using unregister_view(4) [OF ok u, of h r] Some u by (simp add: dedup_release_def)
  then show ?thesis using dedup.release_law [OF ok, of now b dd' reclaim] by auto
qed

text \<open>The blocks of a range that no other reference needs.\<close>

definition reclaimable :: "DedupState \<Rightarrow> nat set \<Rightarrow> nat set" where
  "reclaimable dd B = {b \<in> B. dedup_refs dd (of_nat b) \<le> 1}"

definition refs_dropped :: "DedupState \<Rightarrow> nat set \<Rightarrow> u32 \<Rightarrow> nat" where
  "refs_dropped dd B c = dedup_refs dd c - (if unat c \<in> B then 1 else 0)"

lemma of_nat_u32_inj: "a < 2 ^ 32 \<Longrightarrow> (of_nat a :: u32) = c \<longleftrightarrow> a = unat c"
  by (auto simp: unat_of_nat)

lemma refs_step:
  assumes u: "dedup_refs dd1 = (dedup_refs dd)(of_nat i := dedup_refs dd (of_nat i) - 1)" and j: "i < j" "j \<le> 2 ^ 32"
  shows "reclaimable dd {i..<j} = (if dedup_refs dd (of_nat i) \<le> 1 then {i} else {}) \<union> reclaimable dd1 {Suc i..<j}"
    "refs_dropped dd {i..<j} = refs_dropped dd1 {Suc i..<j}"
proof -
  have ne: "dedup_refs dd1 (of_nat b) = dedup_refs dd (of_nat b)" if "Suc i \<le> b" "b < j" for b
    using that j u of_nat_u32_inj [of b "of_nat i"] by (simp add: unat_of_nat)
  have set: "{i..<j} = insert i {Suc i..<j}" using j(1) by auto
  show "reclaimable dd {i..<j} = (if dedup_refs dd (of_nat i) \<le> 1 then {i} else {}) \<union> reclaimable dd1 {Suc i..<j}"
    unfolding set reclaimable_def using ne by auto
  show "refs_dropped dd {i..<j} = refs_dropped dd1 {Suc i..<j}"
  proof
    fix c :: u32
    show "refs_dropped dd {i..<j} c = refs_dropped dd1 {Suc i..<j} c"
      unfolding refs_dropped_def u using j of_nat_u32_inj [of i c] by auto
  qed
qed

text \<open>What the loop has to give back: the blocks collected so far and the reclaimable ones of the rest.\<close>

definition released :: "SpaceState \<Rightarrow> DedupState \<Rightarrow> nat set \<Rightarrow> nat set \<Rightarrow> (SpaceState \<times> DedupState) option \<Rightarrow> bool" where
  "released st dd R B res =
     (case res of None \<Rightarrow> False
      | Some (st', dd') \<Rightarrow> space_whole st' \<and> dedup_ok dd' \<and>
          bb_total_blocks (ss_block_bitmap st') = bb_total_blocks (ss_block_bitmap st) \<and>
          free_set st' = free_set st \<union> R \<union> reclaimable dd B \<and> dedup_refs dd' = refs_dropped dd B)"

lemma released_cong:
  assumes "released st1 dd1 R1 B1 res" "free_set st \<union> R \<union> reclaimable dd B = free_set st1 \<union> R1 \<union> reclaimable dd1 B1"
    "refs_dropped dd B = refs_dropped dd1 B1" "bb_total_blocks (ss_block_bitmap st1) = bb_total_blocks (ss_block_bitmap st)"
  shows "released st dd R B res"
  using assms by (simp add: released_def split: option.splits prod.splits)

lemma release_loop_spec:
  assumes "space_whole st" "dedup_ok dd" "j \<le> bb_total_blocks (ss_block_bitmap st)"
    "i \<le> j" "run_len = 0 \<or> run_start + run_len = i" "({run_start..<run_start + run_len} \<union> {i..<j}) \<inter> free_set st = {}"
  shows "released st dd {run_start..<run_start + run_len} {i..<j}
    (release_loop now (\<lambda>_. True) [i..<j] run_start run_len st dd)"
  using assms
proof (induction "j - i" arbitrary: i run_start run_len st dd)
  case 0
  then have e: "[i..<j] = []" "{i..<j} = {}" by simp_all
  have d: "reclaimable dd {} = {}" "refs_dropped dd {} = dedup_refs dd" by (simp_all add: reclaimable_def refs_dropped_def fun_eq_iff)
  show ?case
  proof (cases "run_len = 0")
    case True
    then show ?thesis using "0.prems"(1,2) unfolding e by (simp add: d released_def)
  next
    case False
    obtain st' where "free_run_locked (\<lambda>_. True) run_start run_len st = Some st'" "space_whole st'"
      "free_set st' = free_set st \<union> {run_start..<run_start + run_len}"
      "bb_total_blocks (ss_block_bitmap st') = bb_total_blocks (ss_block_bitmap st)"
      by (rule free_whole [OF "0.prems"(1), of "\<lambda>_. True" run_start run_len]) (use "0.prems" False that in auto)
    then show ?thesis using "0.prems"(2) False unfolding e by (simp add: d released_def)
  qed
next
  case (Suc n)
  then have ij: "i < j" "[i..<j] = i # [Suc i..<j]" "n = j - Suc i" "Suc i \<le> j" by (simp_all add: upt_conv_Cons)
  have tot: "bb_total_blocks (ss_block_bitmap st) < 2 ^ 32" using Suc.prems(1) by (simp add: space_whole_def space_ok_def)
  obtain err reclaim dd1 where u: "TagFS_DedupUnregister now (of_nat i) dd = (err, reclaim, dd1)" by (metis prod_cases3)
  have dd1: "dedup_ok dd1" "dedup_refs dd1 = (dedup_refs dd)(of_nat i := dedup_refs dd (of_nat i) - 1)"
    "reclaim \<longleftrightarrow> dedup_refs dd (of_nat i) \<le> 1"
    using unregister_refs [OF Suc.prems(2) u] by simp_all
  have "j \<le> 2 ^ 32" using Suc.prems(3) tot by simp
  note step = refs_step [OF dd1(2) ij(1) this]
  have ins: "{i..<j} = insert i {Suc i..<j}" using ij(1) by auto
  have dis: "({run_start..<run_start + run_len} \<union> {i} \<union> {Suc i..<j}) \<inter> free_set st = {}"
    "{Suc i..<j} \<inter> free_set st = {}" using Suc.prems(6) unfolding ins by blast+
  show ?case
  proof (cases reclaim)
    case True
    let ?rs = "if run_len = 0 then i else run_start"
    have set: "{?rs..<?rs + (run_len + 1)} = {run_start..<run_start + run_len} \<union> {i}" using Suc.prems(5) by auto
    have "released st dd1 {?rs..<?rs + (run_len + 1)} {Suc i..<j} (release_loop now (\<lambda>_. True) [Suc i..<j] ?rs (run_len + 1) st dd1)"
    proof (rule Suc.hyps(1))
      show "({?rs..<?rs + (run_len + 1)} \<union> {Suc i..<j}) \<inter> free_set st = {}" unfolding set by (rule dis(1))
    qed (use Suc.prems(1-3,5) dd1(1) ij in auto)
    then have "released st dd {run_start..<run_start + run_len} {i..<j} (release_loop now (\<lambda>_. True) [Suc i..<j] ?rs (run_len + 1) st dd1)"
    proof (rule released_cong)
      have "reclaimable dd {i..<j} = {i} \<union> reclaimable dd1 {Suc i..<j}" using True dd1(3) step(1) by simp
      then show "free_set st \<union> {run_start..<run_start + run_len} \<union> reclaimable dd {i..<j} =
          free_set st \<union> {?rs..<?rs + (run_len + 1)} \<union> reclaimable dd1 {Suc i..<j}" unfolding set by (simp only: Un_assoc)
    qed (rule step(2), rule refl)
    then show ?thesis using True u by (simp add: ij(2))
  next
    case False
    then have st2: "reclaimable dd {i..<j} = reclaimable dd1 {Suc i..<j}" using step(1) dd1(3) by simp
    show ?thesis
    proof (cases "run_len = 0")
      case True
      have "released st dd1 {run_start..<run_start + 0} {Suc i..<j} (release_loop now (\<lambda>_. True) [Suc i..<j] run_start 0 st dd1)"
        by (rule Suc.hyps(1)) (use Suc.prems(1-3) dis(2) dd1(1) ij in simp_all)
      then show ?thesis using True False u st2 step(2) by (simp add: ij(2) released_def split: option.splits prod.splits)
    next
      case nz: False
      obtain st1 where st1: "free_run_locked (\<lambda>_. True) run_start run_len st = Some st1" "space_whole st1"
        "free_set st1 = free_set st \<union> {run_start..<run_start + run_len}"
        "bb_total_blocks (ss_block_bitmap st1) = bb_total_blocks (ss_block_bitmap st)"
        by (rule free_whole [OF Suc.prems(1), of "\<lambda>_. True" run_start run_len]) (use Suc.prems nz that in auto)
      have "released st1 dd1 {run_start..<run_start + 0} {Suc i..<j} (release_loop now (\<lambda>_. True) [Suc i..<j] run_start 0 st1 dd1)"
      proof (rule Suc.hyps(1))
        have "{run_start..<run_start + run_len} \<inter> {Suc i..<j} = {}" using Suc.prems(5) nz by auto
        then show "({run_start..<run_start + 0} \<union> {Suc i..<j}) \<inter> free_set st1 = {}" using dis(2) st1(3) by auto
      qed (use Suc.prems(3) dd1(1) ij st1(2,4) in simp_all)
      then show ?thesis using nz False u st1 st2 step(2) by (simp add: ij(2) released_def split: option.splits prod.splits)
    qed
  qed
qed

lemma free_blocks_released:
  assumes "space_whole st" "dedup_ok dd" "start + k \<le> bb_total_blocks (ss_block_bitmap st)" "{start..<start + k} \<inter> free_set st = {}"
  shows "released st dd {} {start..<start + k} (tagfs_free_blocks_internal now (\<lambda>_. True) start k (st, dd))"
proof -
  have tot: "bb_total_blocks (ss_block_bitmap st) < 2 ^ 32" using assms(1) by (simp add: space_whole_def space_ok_def)
  have "map (\<lambda>i. u32_wrap (start + i)) [0..<k] = [start..<start + k]"
    using assms(3) tot by (intro nth_equalityI) auto
  moreover have "released st dd {} {start..<start + k} (release_loop now (\<lambda>_. True) [start..<start + k] start 0 st dd)"
    using release_loop_spec [of st dd "start + k" start 0 start now] assms by simp
  moreover have "reclaimable dd {} = {}" "refs_dropped dd {} = dedup_refs dd" by (simp_all add: reclaimable_def refs_dropped_def fun_eq_iff)
  ultimately show ?thesis using assms(1,2) by (simp add: tagfs_free_blocks_internal_def released_def)
qed

section \<open>No deduplicated block is free\<close>

text \<open>Every block in the deduplication tables is taken in the bitmap.\<close>

definition no_dangling :: "SpaceState \<Rightarrow> DedupState \<Rightarrow> bool" where
  "no_dangling st dd \<longleftrightarrow> (\<forall>b\<in>free_set st. dedup_refs dd (of_nat b) = 0)"

lemma no_dangling_release:
  assumes "no_dangling st dd" "space_whole st" "released st dd {} B (Some (st', dd'))"
  shows "no_dangling st' dd'"
proof -
  have s: "free_set st' = free_set st \<union> reclaimable dd B" "dedup_refs dd' = refs_dropped dd B" "space_whole st'"
    using assms(3) by (simp_all add: released_def)
  show ?thesis unfolding no_dangling_def
  proof
    fix b assume b: "b \<in> free_set st'"
    then have "b < 2 ^ 32" using s(3) free_set_bound [of st'] by (auto simp: space_whole_def space_ok_def)
    then have u: "unat (of_nat b :: u32) = b" by (simp add: unat_of_nat)
    show "dedup_refs dd' (of_nat b) = 0"
      using b assms(1) s(1) unfolding s(2) by (auto simp: no_dangling_def refs_dropped_def u reclaimable_def)
  qed
qed

section \<open>Properties\<close>

text \<open>
  C5. \<^verbatim>\<open>tagfs_free_blocks\<close> on a range of taken blocks drops one reference to every block of the range and
  gives back exactly the blocks no other reference needs: a block shared by deduplication stays taken
  until its last reference goes. The free list, the bitmap and the ledger's count stay in step, and no
  block in the deduplication tables is ever free.
\<close>

theorem tagfs_free_blocks_exact:
  assumes "space_whole st" "dedup_ok dd" "no_dangling st dd"
    "start + k \<le> bb_total_blocks (ss_block_bitmap st)" "{start..<start + k} \<inter> free_set st = {}"
  shows "\<exists>st' dd'. tagfs_free_blocks True now (\<lambda>_. True) start k (st, dd) = Some (0, st', dd') \<and>
    space_whole st' \<and> dedup_ok dd' \<and> no_dangling st' dd' \<and>
    free_set st' = free_set st \<union> {b \<in> {start..<start + k}. dedup_refs dd (of_nat b) \<le> 1} \<and>
    (\<forall>c. dedup_refs dd' c = dedup_refs dd c - (if unat c \<in> {start..<start + k} then 1 else 0))"
proof -
  note r = free_blocks_released [OF assms(1,2,4,5), of now]
  obtain st' dd' where e: "tagfs_free_blocks_internal now (\<lambda>_. True) start k (st, dd) = Some (st', dd')"
    using r by (auto simp: released_def split: option.splits)
  have "tagfs_free_blocks True now (\<lambda>_. True) start k (st, dd) = Some (0, st', dd')"
    using e by (simp add: tagfs_free_blocks_def tagfs_free_blocks_inside_def tagfs_free_blocks_internal_def split: if_splits)
  moreover have "no_dangling st' dd'" using no_dangling_release [OF assms(3,1)] r e by simp
  ultimately show ?thesis using r unfolding e by (auto simp: released_def reclaimable_def refs_dropped_def)
qed

text \<open>Block 5 of the small volume, held by two references: the first release keeps it.\<close>

definition shared_block :: DedupState where
  "shared_block = snd (TagFS_DedupAddRef 20 5 one_block)"

lemma shared_block_ok: "dedup_ok shared_block" "dedup_refs shared_block = (\<lambda>_. 0)(5 := 2)"
proof -
  have one: "dedup_refs one_block = (\<lambda>_. 0)(5 := 1)" using one_block_ok(2) by (auto simp: dedup_refs_def fun_eq_iff)
  have m: "block_map one_block 5 = Some (DedupComputeHash one_block [1, 2, 3], 1)" using one_block_ok(2) by simp
  have "\<not> (65535::u32) \<le> 1" by (simp add: word_le_nat_alt)
  then have "TagFS_DedupAddRef 20 5 one_block = (OK, shared_block)"
    using addref_view(1) [OF one_block_ok(1), of 20 5] m unfolding shared_block_def
    by (simp add: DEDUP_MAX_REFS_def split: if_splits)
  then have "dedup_acquire 20 5 one_block = Some shared_block" by (simp add: dedup_acquire_def)
  from dedup.acquire_law [OF one_block_ok(1) this]
  show "dedup_ok shared_block" "dedup_refs shared_block = (\<lambda>_. 0)(5 := 2)" by (auto simp: one fun_eq_iff)
qed

theorem tagfs_free_blocks_exact_witness:
  "\<exists>st' dd'. tagfs_free_blocks True 30 (\<lambda>_. True) 5 1 (small_space, shared_block) = Some (0, st', dd') \<and>
     free_set st' = free_set small_space \<and> dedup_refs dd' 5 = 1"
proof -
  have nd: "no_dangling small_space shared_block"
    unfolding no_dangling_def small_free shared_block_ok(2)
    using of_nat_u32_inj [of _ 5] by fastforce
  have "bb_total_blocks (ss_block_bitmap small_space) = 16" by (simp add: small_space_def)
  moreover have "{5..<5 + 1} \<inter> free_set small_space = {}" unfolding small_free by auto
  ultimately obtain st' dd' where r: "tagfs_free_blocks True 30 (\<lambda>_. True) 5 1 (small_space, shared_block) = Some (0, st', dd')"
    "free_set st' = free_set small_space \<union> {b \<in> {5..<5 + 1}. dedup_refs shared_block (of_nat b) \<le> 1}"
    "\<forall>c. dedup_refs dd' c = dedup_refs shared_block c - (if unat c \<in> {5..<5 + 1} then 1 else 0)"
    using tagfs_free_blocks_exact [OF small_whole shared_block_ok(1) nd, of 5 1 30] by auto
  have "{b \<in> {5..<5 + 1}. dedup_refs shared_block (of_nat b) \<le> 1} = {}"
  proof -
    have "{5..<5 + 1} = {5::nat}" by auto
    then show ?thesis by (auto simp: shared_block_ok(2))
  qed
  then have "free_set st' = free_set small_space" using r(2) by (simp only: Un_empty_right)
  moreover have "dedup_refs dd' 5 = 1" using r(3) by (simp add: shared_block_ok(2))
  ultimately show ?thesis using r(1) by blast
qed

end
