(* ===== verification/VolumeLedger.thy ===== *)
theory VolumeLedger
  imports Crypto "HOL-Library.Monad_Syntax"
begin

unbundle bit_operations_syntax

text \<open>
  The ledger of a TagFS volume (kernel/tagfs/tagfs.c, include/volume\_ledger.h): one sector that says how
  many blocks are free, which numbers come next and which tags are in use, kept in two copies that are
  written in turn, each with a sequence number and a CRC-32 over its own bytes. A mount takes the valid
  copy with the higher sequence number. The medium is a function from sector numbers to the bytes of the
  sector; whether a read or a write succeeds is a parameter. \<open>None\<close> as the result of
  \<open>ledger_write_locked\<close> means that it writes outside its sector buffer.

  The lemmas show that what is written is what the next mount reads, that a mount after a write that
  was torn finds the ledger as it was before, and that a write stays in its buffer as long as the use
  context is one the kernel stored itself.
\<close>

section \<open>The record\<close>

definition VOLUME_LEDGER_COPIES :: nat where "VOLUME_LEDGER_COPIES = 2"
definition TAGFS_SECTOR_SIZE :: nat where "TAGFS_SECTOR_SIZE = 512"
definition TAGFS_BLOCK_SECTORS :: nat where "TAGFS_BLOCK_SECTORS = 8"

record VolumeLedger =
  vl_magic :: bytes
  vl_bytes :: u32
  vl_crc32 :: u32
  vl_seq :: u64
  vl_written_unix :: u64
  vl_free_blocks :: u64
  vl_total_files :: u64
  vl_next_file_id :: u32
  vl_next_tag_id :: u32
  vl_total_tags :: u32
  vl_cow_manifest_block :: u32
  vl_cow_manifest_backup_block :: u32
  vl_integrity_map_block :: u32
  vl_integrity_map_blocks :: u32
  vl_use_context_offset :: u16
  vl_use_context_bytes :: u16

text \<open>\<^verbatim>\<open>sizeof(VolumeLedger)\<close> of the packed structure and the offset of \<^verbatim>\<open>use_context_offset\<close> in it.\<close>

definition ledger_size :: nat where "ledger_size = 80"
definition VOLUME_LEDGER_REQUIRED_BYTES :: nat where "VOLUME_LEDGER_REQUIRED_BYTES = 76"

definition g_ledger_magic :: bytes where
  "g_ledger_magic = [0x42, 0x4F, 0x58, 0x4C, 0x45, 0x44, 0x47, 0x52]"

text \<open>The bytes of the structure in memory, and the structure a \<^verbatim>\<open>memcpy\<close> of them gives.\<close>

definition ledger_image :: "VolumeLedger \<Rightarrow> bytes" where
  "ledger_image led =
     vl_magic led @ le_put 4 (vl_bytes led) @ le_put 4 (vl_crc32 led) @ le_put 8 (vl_seq led) @
     le_put 8 (vl_written_unix led) @ le_put 8 (vl_free_blocks led) @ le_put 8 (vl_total_files led) @
     le_put 4 (vl_next_file_id led) @ le_put 4 (vl_next_tag_id led) @ le_put 4 (vl_total_tags led) @
     le_put 4 (vl_cow_manifest_block led) @ le_put 4 (vl_cow_manifest_backup_block led) @
     le_put 4 (vl_integrity_map_block led) @ le_put 4 (vl_integrity_map_blocks led) @
     le_put 2 (vl_use_context_offset led) @ le_put 2 (vl_use_context_bytes led)"

definition field_at :: "bytes \<Rightarrow> nat \<Rightarrow> nat \<Rightarrow> 'a::len word" where
  "field_at buf off n = le_get (take n (drop off buf))"

definition ledger_of :: "bytes \<Rightarrow> VolumeLedger" where
  "ledger_of buf =
     \<lparr>vl_magic = take 8 buf, vl_bytes = field_at buf 8 4, vl_crc32 = field_at buf 12 4, vl_seq = field_at buf 16 8,
      vl_written_unix = field_at buf 24 8, vl_free_blocks = field_at buf 32 8, vl_total_files = field_at buf 40 8,
      vl_next_file_id = field_at buf 48 4, vl_next_tag_id = field_at buf 52 4, vl_total_tags = field_at buf 56 4,
      vl_cow_manifest_block = field_at buf 60 4, vl_cow_manifest_backup_block = field_at buf 64 4,
      vl_integrity_map_block = field_at buf 68 4, vl_integrity_map_blocks = field_at buf 72 4,
      vl_use_context_offset = field_at buf 76 2, vl_use_context_bytes = field_at buf 78 2\<rparr>"

text \<open>
  The state: \<^verbatim>\<open>g_state.ledger\<close>, \<^verbatim>\<open>g_ledger_current\<close>, the use context (the first \<^verbatim>\<open>g_ledger_use_len\<close> bytes of
  \<^verbatim>\<open>g_ledger_use\<close>) and the two fields of the layout the ledger uses.
\<close>

record LedgerState =
  ls_ledger :: VolumeLedger
  ls_current :: nat
  ls_use :: bytes
  ls_state_block :: nat
  ls_state_blocks :: nat

type_synonym medium = "nat \<Rightarrow> bytes"

section \<open>Reading\<close>

definition ledger_vlba :: "LedgerState \<Rightarrow> nat \<Rightarrow> nat" where
  "ledger_vlba st copy = (ls_state_block st + copy) * TAGFS_BLOCK_SECTORS"

text \<open>The record and its use context, or nothing. \<open>rd\<close> says which sectors read.\<close>

definition ledger_read_copy :: "(nat \<Rightarrow> bool) \<Rightarrow> medium \<Rightarrow> LedgerState \<Rightarrow> nat \<Rightarrow> (VolumeLedger \<times> bytes) option" where
  "ledger_read_copy rd disk st copy =
     (if \<not> rd (ledger_vlba st copy) then None
      else
        let buf = disk (ledger_vlba st copy); led = ledger_of buf; bytes = unat (vl_bytes led)
        in if vl_magic led \<noteq> g_ledger_magic then None
           else if bytes < VOLUME_LEDGER_REQUIRED_BYTES \<or> bytes > TAGFS_SECTOR_SIZE then None
           else
             let probe = take 12 buf @ replicate 4 0 @ drop 16 (take bytes buf)
             in if KCrc32 probe \<noteq> vl_crc32 led then None
                else
                  let led = (if bytes < ledger_size then ledger_of (take bytes buf @ replicate (ledger_size - bytes) 0) else led);
                      off = unat (vl_use_context_offset led);
                      len = unat (vl_use_context_bytes led);
                      tail = (if len \<noteq> 0 \<and> \<not> (off < VOLUME_LEDGER_REQUIRED_BYTES \<or> off + len > bytes)
                              then take len (drop off buf) else [])
                  in Some (led, tail))"

text \<open>The null checks of the pointers are outside the model: the callers pass all three.\<close>

definition tagfs_ledger_peek :: "(nat \<Rightarrow> bool) \<Rightarrow> medium \<Rightarrow> LedgerState \<Rightarrow> nat \<Rightarrow> (VolumeLedger \<times> bytes) option" where
  "tagfs_ledger_peek rd disk st copy =
     (if copy \<ge> VOLUME_LEDGER_COPIES then None else ledger_read_copy rd disk st copy)"

text \<open>The second loop of \<^verbatim>\<open>ledger_load\<close>: the newest of the copies that read.\<close>

definition newest_copy :: "(nat \<Rightarrow> (VolumeLedger \<times> bytes) option) \<Rightarrow> nat option" where
  "newest_copy copies =
     foldl (\<lambda>newest c. case copies c of
              None \<Rightarrow> newest
            | Some (led, tail) \<Rightarrow>
                (case newest of
                   None \<Rightarrow> Some c
                 | Some n \<Rightarrow> if vl_seq led > vl_seq (fst (the (copies n))) then Some c else newest))
       None [0..<VOLUME_LEDGER_COPIES]"

definition ledger_load :: "bool \<Rightarrow> (nat \<Rightarrow> bool) \<Rightarrow> medium \<Rightarrow> LedgerState \<Rightarrow> error_t \<times> LedgerState" where
  "ledger_load mem rd disk st =
     (if \<not> mem then (ERR_NO_MEMORY, st)
      else case newest_copy (ledger_read_copy rd disk st) of
        None \<Rightarrow> (ERR_TAGFS_CORRUPTED, st)
      | Some newest \<Rightarrow>
          (case the (ledger_read_copy rd disk st newest) of
             (led, tail) \<Rightarrow> (OK, st\<lparr>ls_ledger := led, ls_current := newest, ls_use := tail\<rparr>)))"

section \<open>Writing\<close>

text \<open>The sector \<^verbatim>\<open>ledger_write_locked\<close> builds, and the record it carries; \<open>now\<close> is \<^verbatim>\<open>rtc_get_unix64()\<close>.\<close>

definition stamped :: "u64 \<Rightarrow> LedgerState \<Rightarrow> VolumeLedger" where
  "stamped now st = (ls_ledger st)\<lparr>vl_magic := g_ledger_magic, vl_seq := vl_seq (ls_ledger st) + 1, vl_written_unix := now,
     vl_use_context_offset := (if ls_use st \<noteq> [] then of_nat ledger_size else 0),
     vl_use_context_bytes := of_nat (length (ls_use st)),
     vl_bytes := of_nat ledger_size + of_nat (length (ls_use st)), vl_crc32 := 0\<rparr>"

definition ledger_sector :: "u64 \<Rightarrow> LedgerState \<Rightarrow> (VolumeLedger \<times> bytes) option" where
  "ledger_sector now st =
     (let led = stamped now st; body = ledger_image led @ ls_use st
      in if length body > TAGFS_SECTOR_SIZE then None
         else
           let buf = body @ replicate (TAGFS_SECTOR_SIZE - length body) 0;
               crc = KCrc32 (take (unat (vl_bytes led)) buf)
           in Some (led\<lparr>vl_crc32 := crc\<rparr>, take 12 buf @ le_put 4 crc @ drop 16 buf))"

definition ledger_write_locked :: "(nat \<Rightarrow> bool) \<Rightarrow> u64 \<Rightarrow> medium \<Rightarrow> LedgerState \<Rightarrow> (error_t \<times> medium \<times> LedgerState) option" where
  "ledger_write_locked wr now disk st =
     (if ls_state_blocks st < VOLUME_LEDGER_COPIES then Some (ERR_TAGFS_METADATA_ERROR, disk, st)
      else
        let target = (ls_current st + 1) mod VOLUME_LEDGER_COPIES
        in case ledger_sector now st of
             None \<Rightarrow> None
           | Some (led, buf) \<Rightarrow>
               if \<not> wr (ledger_vlba st target) then Some (ERR_TAGFS_METADATA_ERROR, disk, st)
               else Some (OK, disk(ledger_vlba st target := buf), st\<lparr>ls_ledger := led, ls_current := target\<rparr>))"

definition tagfs_write_ledger :: "(nat \<Rightarrow> bool) \<Rightarrow> u64 \<Rightarrow> medium \<Rightarrow> LedgerState \<Rightarrow> (error_t \<times> medium \<times> LedgerState) option" where
  "tagfs_write_ledger wr now disk st = ledger_write_locked wr now disk st"

definition LEDGER_USE_MAX :: nat where
  "LEDGER_USE_MAX = TAGFS_SECTOR_SIZE - ledger_size"

text \<open>The list is the first \<^verbatim>\<open>len\<close> bytes at \<^verbatim>\<open>list\<close>. The second result is \<^verbatim>\<open>*remembered\<close>.\<close>

definition tagfs_remember_use_context ::
  "(nat \<Rightarrow> bool) \<Rightarrow> u64 \<Rightarrow> bytes \<Rightarrow> medium \<Rightarrow> LedgerState \<Rightarrow> (error_t \<times> bool \<times> medium \<times> LedgerState) option" where
  "tagfs_remember_use_context wr now list disk st =
     (let fits = length list \<le> LEDGER_USE_MAX;
          st1 = st\<lparr>ls_use := (if fits then list else [])\<rparr>
      in map_option (\<lambda>(rc, disk', st'). (rc, fits \<and> rc = OK, disk', st')) (ledger_write_locked wr now disk st1))"

text \<open>The length, and what is copied into a buffer of \<open>cap\<close> bytes.\<close>

definition tagfs_recall_use_context :: "nat \<Rightarrow> LedgerState \<Rightarrow> nat \<times> bytes" where
  "tagfs_recall_use_context cap st =
     (length (ls_use st), if cap \<ge> length (ls_use st) then ls_use st else [])"

section \<open>What is written is what is read\<close>

lemma length_ledger_image [simp]: "length (vl_magic led) = 8 \<Longrightarrow> length (ledger_image led) = 80"
  by (simp add: ledger_image_def)

lemma ledger_of_image: "length (vl_magic led) = 8 \<Longrightarrow> ledger_of (ledger_image led @ rest) = led"
  by (simp add: ledger_of_def ledger_image_def field_at_def)

text \<open>The checksum is bytes 12 to 15 of the image; the rest does not depend on it.\<close>

lemma image_crc:
  assumes "length (vl_magic led) = 8"
  shows "take 12 (ledger_image (led\<lparr>vl_crc32 := c\<rparr>) @ r) = take 12 (ledger_image led @ r)"
    "drop 16 (ledger_image (led\<lparr>vl_crc32 := c\<rparr>) @ r) = drop 16 (ledger_image led @ r)"
    "take 12 (ledger_image led @ r) @ le_put 4 c @ drop 16 (ledger_image led @ r) = ledger_image (led\<lparr>vl_crc32 := c\<rparr>) @ r"
  using assms by (simp_all add: ledger_image_def)

lemma le_put_zero: "le_put n (0 :: 'a::len word) = replicate n 0"
  by (simp add: le_put_def map_replicate_const)

text \<open>The record the kernel writes: its length is the structure and the use context behind it.\<close>

lemma stamped_fields:
  assumes "length (ls_use st) \<le> LEDGER_USE_MAX"
  shows "vl_magic (stamped now st) = g_ledger_magic" "length (vl_magic (stamped now st)) = 8"
    "unat (vl_bytes (stamped now st)) = 80 + length (ls_use st)"
    "unat (vl_use_context_bytes (stamped now st)) = length (ls_use st)"
    "ls_use st \<noteq> [] \<Longrightarrow> unat (vl_use_context_offset (stamped now st)) = 80"
    "vl_seq (stamped now st) = vl_seq (ls_ledger st) + 1" "vl_crc32 (stamped now st) = 0"
proof -
  have "vl_bytes (stamped now st) = of_nat (80 + length (ls_use st))" by (simp add: stamped_def ledger_size_def)
  then show "unat (vl_bytes (stamped now st)) = 80 + length (ls_use st)"
    using assms by (simp only: unat_of_nat) (simp add: LEDGER_USE_MAX_def TAGFS_SECTOR_SIZE_def)
  show "unat (vl_use_context_bytes (stamped now st)) = length (ls_use st)"
    using assms by (simp add: stamped_def unat_of_nat LEDGER_USE_MAX_def TAGFS_SECTOR_SIZE_def)
qed (simp_all add: stamped_def g_ledger_magic_def ledger_size_def)

lemma ledger_sector_image:
  assumes fit: "length (ls_use st) \<le> LEDGER_USE_MAX"
  shows "\<exists>crc. ledger_sector now st = Some ((stamped now st)\<lparr>vl_crc32 := crc\<rparr>,
      ledger_image ((stamped now st)\<lparr>vl_crc32 := crc\<rparr>) @ ls_use st @ replicate (432 - length (ls_use st)) 0) \<and>
    crc = KCrc32 (ledger_image (stamped now st) @ ls_use st)"
proof -
  let ?led = "stamped now st"
  note f = stamped_fields [OF fit, of now]
  note m = f(2)
  have len: "length (ledger_image ?led @ ls_use st) = 80 + length (ls_use st)" using m by simp
  have le: "80 + length (ls_use st) \<le> 512" using fit by (simp add: LEDGER_USE_MAX_def TAGFS_SECTOR_SIZE_def ledger_size_def)
  let ?r = "ls_use st @ replicate (432 - length (ls_use st)) 0"
  have "take (80 + length (ls_use st)) (ledger_image ?led @ ?r) = ledger_image ?led @ ls_use st"
    using m by (simp add: take_append)
  then have "ledger_sector now st = Some (?led\<lparr>vl_crc32 := KCrc32 (ledger_image ?led @ ls_use st)\<rparr>,
      take 12 (ledger_image ?led @ ?r) @ le_put 4 (KCrc32 (ledger_image ?led @ ls_use st)) @ drop 16 (ledger_image ?led @ ?r))"
    using le m by (simp add: ledger_sector_def Let_def f(3) TAGFS_SECTOR_SIZE_def)
  then show ?thesis using image_crc(3) [OF m, where r = ?r] by (simp del: take_append drop_append)
qed

text \<open>A sector that starts with a whole record reads when its checksum is right.\<close>

lemma image_reads:
  assumes m: "vl_magic led = g_ledger_magic" and n: "unat (vl_bytes led) = n" "80 \<le> n" "n \<le> 512" and r: "length r = 432"
    and crc: "vl_crc32 led = KCrc32 (take n (ledger_image (led\<lparr>vl_crc32 := 0\<rparr>) @ r))"
    and d: "rd (ledger_vlba st c)" "disk (ledger_vlba st c) = ledger_image led @ r"
  shows "ledger_read_copy rd disk st c = Some (led,
    let off = unat (vl_use_context_offset led); len = unat (vl_use_context_bytes led)
    in if len \<noteq> 0 \<and> 76 \<le> off \<and> off + len \<le> n then take len (drop off (ledger_image led @ r)) else [])"
proof -
  have m8: "length (vl_magic led) = 8" using m by (simp add: g_ledger_magic_def)
  let ?buf = "ledger_image led @ r"
  have of: "ledger_of ?buf = led" by (rule ledger_of_image [OF m8])
  have sp: "take 12 ?buf @ le_put 4 (0::u32) @ drop 16 ?buf = ledger_image (led\<lparr>vl_crc32 := 0\<rparr>) @ r" by (rule image_crc(3) [OF m8])
  have "take 12 ?buf @ replicate 4 0 @ drop 16 (take n ?buf) = take n (take 12 ?buf @ replicate 4 0 @ drop 16 ?buf)"
    using m8 r n(2) by (simp add: take_append take_drop)
  also have "\<dots> = take n (ledger_image (led\<lparr>vl_crc32 := 0\<rparr>) @ r)" using sp by (simp only: le_put_zero)
  finally have probe: "KCrc32 (take 12 ?buf @ replicate 4 0 @ drop 16 (take n ?buf)) = vl_crc32 led" using crc by (simp only:)
  show ?thesis
    unfolding ledger_read_copy_def d(2) Let_def of n(1) probe using d(1) m n(2,3)
    by (auto simp: VOLUME_LEDGER_REQUIRED_BYTES_def TAGFS_SECTOR_SIZE_def ledger_size_def simp del: take_append drop_append)
qed

lemma sector_reads:
  assumes fit: "length (ls_use st) \<le> LEDGER_USE_MAX" and s: "ledger_sector now st = Some (led, buf)"
    and d: "rd (ledger_vlba st' c)" "disk (ledger_vlba st' c) = buf"
  shows "ledger_read_copy rd disk st' c = Some (led, ls_use st)" "vl_seq led = vl_seq (ls_ledger st) + 1" "length buf = 512"
proof -
  let ?led = "stamped now st" and ?r = "ls_use st @ replicate (432 - length (ls_use st)) 0 :: bytes"
  let ?n = "80 + length (ls_use st)"
  note f = stamped_fields [OF fit, of now]
  obtain crc where crc: "led = ?led\<lparr>vl_crc32 := crc\<rparr>" "buf = ledger_image led @ ?r"
    "crc = KCrc32 (ledger_image ?led @ ls_use st)"
    using ledger_sector_image [OF fit, of now] s by auto
  have m: "length (vl_magic led) = 8" using crc(1) f(2) by simp
  have le: "?n \<le> 512" using fit by (simp add: LEDGER_USE_MAX_def TAGFS_SECTOR_SIZE_def ledger_size_def)
  have z: "led\<lparr>vl_crc32 := 0\<rparr> = ?led" using crc(1) f(7) by simp
  have "take ?n (ledger_image ?led @ ?r) = ledger_image ?led @ ls_use st" using f(2) by (simp add: take_append)
  then have c: "vl_crc32 led = KCrc32 (take ?n (ledger_image (led\<lparr>vl_crc32 := 0\<rparr>) @ ?r))" unfolding z using crc(1,3) by simp
  have b: "vl_magic led = g_ledger_magic" "unat (vl_bytes led) = ?n"
    "unat (vl_use_context_bytes led) = length (ls_use st)" "ls_use st \<noteq> [] \<Longrightarrow> unat (vl_use_context_offset led) = 80"
    using crc(1) f by simp_all
  have tail: "take (length (ls_use st)) (drop 80 (ledger_image led @ ?r)) = ls_use st" using m by simp
  have rr: "length ?r = 432" using le by simp
  have "80 \<le> ?n" by simp
  from image_reads [where rd = rd, OF b(1,2) this le rr c d(1)] d(2) crc(2)
  show "ledger_read_copy rd disk st' c = Some (led, ls_use st)"
    using b(3,4) tail by (cases "ls_use st = []") (auto simp: Let_def simp del: take_append drop_append)
  show "vl_seq led = vl_seq (ls_ledger st) + 1" using crc(1) f(6) by simp
  show "length buf = 512" unfolding crc(2) using m le by simp
qed

text \<open>A byte changed after the checksum, anywhere in the record or the use context, is noticed.\<close>

lemma torn_byte_rejected:
  assumes fit: "length (ls_use st) \<le> LEDGER_USE_MAX" and s: "ledger_sector now st = Some (led, buf)"
    and i: "16 \<le> i" "i < 80 + length (ls_use st)" and b: "b \<noteq> buf ! i" and d: "disk (ledger_vlba st' c) = buf[i := b]"
  shows "ledger_read_copy rd disk st' c = None"
proof -
  let ?n = "80 + length (ls_use st)" and ?buf = "buf[i := b]"
  have le: "?n \<le> 512" using fit by (simp add: LEDGER_USE_MAX_def TAGFS_SECTOR_SIZE_def ledger_size_def)
  note r = sector_reads [OF fit s, of "\<lambda>_. True" st 0 "\<lambda>_. buf", OF TrueI refl]
  have same: "take n (drop off ?buf) = take n (drop off buf)" if "off + n \<le> 16" for n off
    using that i(1) by (simp add: take_drop drop_update_swap take_update_cancel)
  have hd: "take 8 ?buf = take 8 buf" "take 12 ?buf = take 12 buf"
    using same [of 0 8] same [of 0 12] by simp_all
  have fields: "vl_magic (ledger_of ?buf) = vl_magic (ledger_of buf)" "vl_bytes (ledger_of ?buf) = vl_bytes (ledger_of buf)"
    "vl_crc32 (ledger_of ?buf) = vl_crc32 (ledger_of buf)"
    using hd same [of 8 4] same [of 12 4] by (simp_all add: ledger_of_def field_at_def)
  let ?probe = "take 12 buf @ replicate 4 0 @ drop 16 (take ?n buf)"
  have led: "ledger_of buf = led" "unat (vl_bytes led) = ?n" "vl_crc32 led = KCrc32 ?probe"
  proof -
    obtain crc where crc: "led = (stamped now st)\<lparr>vl_crc32 := crc\<rparr>"
      "buf = ledger_image led @ ls_use st @ replicate (432 - length (ls_use st)) 0"
      using ledger_sector_image [OF fit, of now] s by auto
    show l: "ledger_of buf = led" unfolding crc(2) using crc(1) stamped_fields(2) [OF fit, of now] by (intro ledger_of_image) simp
    show n: "unat (vl_bytes led) = ?n" using crc(1) stamped_fields(3) [OF fit, of now] by simp
    show "vl_crc32 led = KCrc32 ?probe" using r(1) by (auto simp: ledger_read_copy_def Let_def l n split: if_splits)
  qed
  let ?k = "i - 16"
  have dr: "drop 16 (take ?n buf) = take ?k (drop 16 (take ?n buf)) @ [buf ! i] @ drop (Suc ?k) (drop 16 (take ?n buf))"
    using id_take_nth_drop [of ?k "drop 16 (take ?n buf)"] i r(3) le by simp
  have "drop 16 (take ?n ?buf) = (drop 16 (take ?n buf))[?k := b]" using i(1) by (simp add: take_update_swap drop_update_swap)
  also have "\<dots> = take ?k (drop 16 (take ?n buf)) @ [b] @ drop (Suc ?k) (drop 16 (take ?n buf))"
    using i r(3) le by (simp add: upd_conv_take_nth_drop)
  finally have dr': "drop 16 (take ?n ?buf) = take ?k (drop 16 (take ?n buf)) @ [b] @ drop (Suc ?k) (drop 16 (take ?n buf))" .
  let ?pre = "take 12 buf @ replicate 4 0 @ take ?k (drop 16 (take ?n buf))" and ?post = "drop (Suc ?k) (drop 16 (take ?n buf))"
  have "?probe = ?pre @ [buf ! i] @ ?post" by (subst dr) (simp only: append_assoc)
  moreover have "take 12 ?buf @ replicate 4 0 @ drop 16 (take ?n ?buf) = ?pre @ [b] @ ?post"
    unfolding dr' hd by (simp only: append_assoc)
  ultimately have "KCrc32 (take 12 ?buf @ replicate 4 0 @ drop 16 (take ?n ?buf)) \<noteq> KCrc32 ?probe"
    using KCrc32_byte_iff [of ?pre b ?post "buf ! i"] b by simp
  then show ?thesis using d fields led by (simp add: ledger_read_copy_def Let_def)
qed

section \<open>Two copies\<close>

text \<open>
  The copy last written reads as a record with the sequence number in memory, and the other copy, if it
  reads at all, is older.
\<close>

definition older :: "(VolumeLedger \<times> bytes) option \<Rightarrow> u64 \<Rightarrow> bool" where
  "older copy seq = (case copy of None \<Rightarrow> True | Some (led, tail) \<Rightarrow> vl_seq led < seq)"

abbreviation read_back :: "medium \<Rightarrow> LedgerState \<Rightarrow> nat \<Rightarrow> (VolumeLedger \<times> bytes) option" where
  "read_back disk st \<equiv> ledger_read_copy (\<lambda>_. True) disk st"

definition saved_as :: "medium \<Rightarrow> LedgerState \<Rightarrow> VolumeLedger \<Rightarrow> bytes \<Rightarrow> bool" where
  "saved_as disk st led tail \<longleftrightarrow>
     ls_current st < 2 \<and> 2 \<le> ls_state_blocks st \<and> length (ls_use st) \<le> LEDGER_USE_MAX \<and>
     read_back disk st (ls_current st) = Some (led, tail) \<and> vl_seq led = vl_seq (ls_ledger st) \<and>
     older (read_back disk st (1 - ls_current st)) (vl_seq led)"

lemma blank_sector: "disk (ledger_vlba st c) = replicate 512 0 \<Longrightarrow> read_back disk st c = None"
proof -
  assume d: "disk (ledger_vlba st c) = replicate 512 0"
  have "hd (vl_magic (ledger_of (replicate 512 0))) = 0" "hd g_ledger_magic = 0x42" by (simp_all add: ledger_of_def g_ledger_magic_def)
  then have "vl_magic (ledger_of (replicate 512 0)) \<noteq> g_ledger_magic" by auto
  then show ?thesis by (simp add: ledger_read_copy_def Let_def d)
qed

lemma vlba_inj: "ledger_vlba st a = ledger_vlba st b \<longleftrightarrow> a = b"
  by (simp add: ledger_vlba_def TAGFS_BLOCK_SECTORS_def)

lemma read_back_cong:
  assumes "ls_state_block st = ls_state_block st'" "disk (ledger_vlba st c) = disk' (ledger_vlba st c)"
  shows "read_back disk st c = read_back disk' st' c"
proof -
  have "ledger_vlba st c = ledger_vlba st' c" using assms(1) by (simp add: ledger_vlba_def)
  then show ?thesis using assms(2) by (simp add: ledger_read_copy_def Let_def)
qed

lemma load_newest:
  assumes "read_back disk st c = Some (led, tail)" "older (read_back disk st (1 - c)) (vl_seq led)" "c < 2"
  shows "ledger_load True (\<lambda>_. True) disk st = (OK, st\<lparr>ls_ledger := led, ls_current := c, ls_use := tail\<rparr>)"
proof -
  have two: "[0..<VOLUME_LEDGER_COPIES] = [0, 1]" by (simp add: VOLUME_LEDGER_COPIES_def upt_rec)
  have "newest_copy (read_back disk st) = Some c"
  proof (cases "c = 0")
    case True
    then show ?thesis using assms(1,2)
      by (auto simp: newest_copy_def two older_def not_less_iff_gr_or_eq split: option.splits prod.splits)
  next
    case False
    then have "c = 1" using assms(3) by simp
    then show ?thesis using assms(1,2) by (cases "read_back disk st 0") (auto simp: newest_copy_def two older_def)
  qed
  then show ?thesis using assms(1) by (simp add: ledger_load_def)
qed

text \<open>A write that the medium takes makes the other copy the current one.\<close>

lemma write_saved:
  assumes s: "saved_as disk st led tail" and succ: "vl_seq led < vl_seq led + 1"
    and wr: "wr (ledger_vlba st (1 - ls_current st))"
  obtains disk' st' where "ledger_write_locked wr now disk st = Some (OK, disk', st')"
    "saved_as disk' st' (ls_ledger st') (ls_use st)" "ls_state_block st' = ls_state_block st"
    "ls_current st' = 1 - ls_current st" "ls_use st' = ls_use st"
    "\<exists>crc. ls_ledger st' = (stamped now st)\<lparr>vl_crc32 := crc\<rparr>"
    "\<forall>v. v \<noteq> ledger_vlba st (1 - ls_current st) \<longrightarrow> disk' v = disk v"
proof -
  have o: "ls_current st < 2" "2 \<le> ls_state_blocks st" "length (ls_use st) \<le> LEDGER_USE_MAX"
    "read_back disk st (ls_current st) = Some (led, tail)" "vl_seq led = vl_seq (ls_ledger st)"
    using s by (auto simp: saved_as_def)
  let ?t = "1 - ls_current st"
  have t: "(ls_current st + 1) mod VOLUME_LEDGER_COPIES = ?t" "?t \<noteq> ls_current st" "1 - ?t = ls_current st" "?t < 2"
    using o(1) by (auto simp: VOLUME_LEDGER_COPIES_def less_2_cases_iff)
  obtain led' buf where sec: "ledger_sector now st = Some (led', buf)" "\<exists>crc. led' = (stamped now st)\<lparr>vl_crc32 := crc\<rparr>"
    using ledger_sector_image [OF o(3), of now] by auto
  let ?disk' = "disk(ledger_vlba st ?t := buf)" and ?st' = "st\<lparr>ls_ledger := led', ls_current := ?t\<rparr>"
  have w: "ledger_write_locked wr now disk st = Some (OK, ?disk', ?st')"
    unfolding ledger_write_locked_def Let_def t(1) sec(1) using o(2) wr by (simp add: VOLUME_LEDGER_COPIES_def)
  have new: "read_back ?disk' ?st' ?t = Some (led', ls_use st)" "vl_seq led' = vl_seq led + 1"
    using sector_reads(1,2) [OF o(3) sec(1), of "\<lambda>_. True" ?st' ?t ?disk'] o(5) by (simp_all add: ledger_vlba_def)
  have old: "read_back ?disk' ?st' (ls_current st) = Some (led, tail)"
    using read_back_cong [of ?st' st ?disk' "ls_current st" disk] o(4) t(2) by (simp add: ledger_vlba_def TAGFS_BLOCK_SECTORS_def)
  have "saved_as ?disk' ?st' led' (ls_use st)"
    using new old succ o(2,3) t(3,4) by (simp add: saved_as_def older_def)
  then show ?thesis using that [OF w] sec(2) by simp
qed

section \<open>Properties\<close>

text \<open>
  C39. What \<^verbatim>\<open>tagfs_write_ledger\<close> writes is what the next mount reads: the write stays inside its sector,
  goes to the copy that is not the current one, keeps the counts and numbers of the ledger in memory, and
  \<^verbatim>\<open>ledger_load\<close> then finds exactly that record and the use context in memory, whatever was in memory at
  the mount.
\<close>

theorem ledger_write_then_load:
  assumes "saved_as disk st led tail" "vl_seq led < vl_seq led + 1" "wr (ledger_vlba st (1 - ls_current st))"
    "ls_state_block st0 = ls_state_block st"
  shows "\<exists>disk' st'. tagfs_write_ledger wr now disk st = Some (OK, disk', st') \<and>
    ledger_load True (\<lambda>_. True) disk' st0 = (OK, st0\<lparr>ls_ledger := ls_ledger st', ls_current := ls_current st', ls_use := ls_use st\<rparr>) \<and>
    saved_as disk' st' (ls_ledger st') (ls_use st) \<and> vl_seq (ls_ledger st') = vl_seq (ls_ledger st) + 1 \<and>
    vl_free_blocks (ls_ledger st') = vl_free_blocks (ls_ledger st) \<and> vl_total_files (ls_ledger st') = vl_total_files (ls_ledger st) \<and>
    vl_next_file_id (ls_ledger st') = vl_next_file_id (ls_ledger st) \<and> vl_next_tag_id (ls_ledger st') = vl_next_tag_id (ls_ledger st)"
proof (rule write_saved [where now = now and wr = wr, OF assms(1-3)])
  fix disk' st'
  assume w: "ledger_write_locked wr now disk st = Some (OK, disk', st')" "saved_as disk' st' (ls_ledger st') (ls_use st)"
    "ls_state_block st' = ls_state_block st" "\<exists>crc. ls_ledger st' = (stamped now st)\<lparr>vl_crc32 := crc\<rparr>"
  have c: "read_back disk' st' n = read_back disk' st0 n" for n using read_back_cong [of st' st0] w(3) assms(4) by simp
  have "ledger_load True (\<lambda>_. True) disk' st0 = (OK, st0\<lparr>ls_ledger := ls_ledger st', ls_current := ls_current st', ls_use := ls_use st\<rparr>)"
    using w(2) unfolding saved_as_def c by (intro load_newest) auto
  then show ?thesis using w(1,2,4) by (auto simp: tagfs_write_ledger_def stamped_def)
qed

text \<open>A freshly made volume: the first copy written once, the second copy blank.\<close>

definition fresh_state :: LedgerState where
  "fresh_state = \<lparr>ls_ledger = ledger_of (replicate 80 0), ls_current = 1, ls_use = [], ls_state_block = 3, ls_state_blocks = 2\<rparr>"

definition fresh_led :: VolumeLedger where
  "fresh_led = fst (the (ledger_sector 7 fresh_state))"

definition fresh_disk :: medium where
  "fresh_disk = (\<lambda>_. replicate 512 0)(24 := snd (the (ledger_sector 7 fresh_state)))"

definition made_state :: LedgerState where
  "made_state = fresh_state\<lparr>ls_ledger := fresh_led, ls_current := 0\<rparr>"

lemma fresh_saved: "saved_as fresh_disk made_state fresh_led []" "vl_seq fresh_led = 1"
proof -
  have fit: "length (ls_use fresh_state) \<le> LEDGER_USE_MAX" by (simp add: fresh_state_def)
  obtain buf where s: "ledger_sector 7 fresh_state = Some (fresh_led, buf)"
    using ledger_sector_image [OF fit, of 7] by (auto simp: fresh_led_def)
  have v: "ledger_vlba made_state 0 = 24" "ledger_vlba made_state 1 = 32"
    by (simp_all add: ledger_vlba_def made_state_def fresh_state_def TAGFS_BLOCK_SECTORS_def)
  have d: "fresh_disk (ledger_vlba made_state 0) = buf" unfolding v by (simp add: fresh_disk_def s)
  note r = sector_reads(1,2) [OF fit s, of "\<lambda>_. True" made_state 0 fresh_disk, OF TrueI d]
  have z: "vl_seq (ls_ledger fresh_state) = 0" by (simp add: fresh_state_def ledger_of_def field_at_def numeral_eq_Suc)
  show "vl_seq fresh_led = 1" using r(2) z by simp
  have "read_back fresh_disk made_state 1 = None" using v by (intro blank_sector) (simp add: fresh_disk_def)
  then show "saved_as fresh_disk made_state fresh_led []"
    using r(1) by (simp add: saved_as_def older_def made_state_def fresh_state_def)
qed

theorem ledger_write_then_load_witness:
  "\<exists>disk' st'. tagfs_write_ledger (\<lambda>_. True) 9 fresh_disk made_state = Some (OK, disk', st') \<and>
     ledger_load True (\<lambda>_. True) disk' fresh_state =
       (OK, fresh_state\<lparr>ls_ledger := ls_ledger st', ls_current := ls_current st', ls_use := ls_use made_state\<rparr>)"
proof -
  have "vl_seq fresh_led < vl_seq fresh_led + 1" by (simp add: fresh_saved(2))
  moreover have "ls_state_block fresh_state = ls_state_block made_state" by (simp add: made_state_def)
  ultimately show ?thesis using ledger_write_then_load [OF fresh_saved(1), of "\<lambda>_. True" fresh_state 9] by auto
qed

text \<open>
  What a crash leaves of a sector that was being written: all of it, nothing of it, or a mixture that either
  does not match the checksum it carries, or differs from what was written in a single byte after the checksum.
\<close>

definition checksum_fails :: "bytes \<Rightarrow> bool" where
  "checksum_fails buf \<longleftrightarrow>
     KCrc32 (take 12 buf @ replicate 4 0 @ drop 16 (take (unat (vl_bytes (ledger_of buf))) buf)) \<noteq> vl_crc32 (ledger_of buf)"

definition one_byte_off :: "bytes \<Rightarrow> nat \<Rightarrow> bytes \<Rightarrow> bool" where
  "one_byte_off buf n left \<longleftrightarrow> (\<exists>i b. 16 \<le> i \<and> i < n \<and> b \<noteq> buf ! i \<and> left = buf[i := b])"

lemma checksum_rejected: "checksum_fails (disk (ledger_vlba st c)) \<Longrightarrow> ledger_read_copy rd disk st c = None"
  by (simp add: ledger_read_copy_def Let_def checksum_fails_def)

text \<open>
  C1. A mount after a crash in the middle of a ledger write finds the ledger as it was before the write, or,
  when the whole sector reached the medium, the ledger that was written. The sector that was being written may
  hold what it held before, what was written, anything that does not match its own checksum, or what was
  written with one byte after the checksum changed; the other sectors are as they were. Assumed are
  that the last write left a current copy and an older one, and that the sequence number does not wrap.
\<close>

theorem ledger_crash_safe:
  assumes "saved_as disk st led tail" "vl_seq led < vl_seq led + 1" "ledger_sector now st = Some (led', buf)"
    and "tagfs_write_ledger wr now disk st = Some (rc, disk', st')"
    and "\<forall>v. disk' v = disk v \<longrightarrow> torn v = disk v" "left = torn (ledger_vlba st (1 - ls_current st))"
    and "left = disk (ledger_vlba st (1 - ls_current st)) \<or> left = buf \<or> checksum_fails left \<or>
      one_byte_off buf (80 + length (ls_use st)) left"
  shows "ledger_load True (\<lambda>_. True) torn st = (OK, st\<lparr>ls_ledger := led, ls_current := ls_current st, ls_use := tail\<rparr>) \<or>
    left = buf \<and> ledger_load True (\<lambda>_. True) torn st = (OK, st\<lparr>ls_ledger := led', ls_current := 1 - ls_current st, ls_use := ls_use st\<rparr>)"
proof -
  let ?t = "1 - ls_current st"
  have o: "ls_current st < 2" "read_back disk st (ls_current st) = Some (led, tail)" "length (ls_use st) \<le> LEDGER_USE_MAX"
    "vl_seq led = vl_seq (ls_ledger st)" "older (read_back disk st ?t) (vl_seq led)"
    using assms(1) by (auto simp: saved_as_def)
  have t: "(ls_current st + 1) mod VOLUME_LEDGER_COPIES \<noteq> ls_current st" "?t < 2" "1 - ?t = ls_current st"
    using o(1) by (auto simp: VOLUME_LEDGER_COPIES_def less_2_cases_iff)
  then have "disk' (ledger_vlba st (ls_current st)) = disk (ledger_vlba st (ls_current st))"
    using assms(4) by (auto simp: tagfs_write_ledger_def ledger_write_locked_def Let_def vlba_inj split: if_splits option.splits prod.splits)
  then have "torn (ledger_vlba st (ls_current st)) = disk (ledger_vlba st (ls_current st))" using assms(5) by blast
  then have cur: "read_back torn st (ls_current st) = Some (led, tail)" using read_back_cong [of st st torn] o(2) by simp
  have restored: "ledger_load True (\<lambda>_. True) torn st = (OK, st\<lparr>ls_ledger := led, ls_current := ls_current st, ls_use := tail\<rparr>)"
    if "older (read_back torn st ?t) (vl_seq led)" using load_newest [OF cur that o(1)] by simp
  from assms(7) consider (old) "left = disk (ledger_vlba st ?t)" | (new) "left = buf" | (none) "read_back torn st ?t = None"
    using checksum_rejected [of torn st ?t] torn_byte_rejected [OF o(3) assms(3), of _ _ torn st ?t] assms(6)
    by (auto simp: one_byte_off_def)
  then show ?thesis
  proof cases
    case old
    then have "read_back torn st ?t = read_back disk st ?t" using assms(6) by (intro read_back_cong) simp_all
    then show ?thesis using restored o(5) by simp
  next
    case new
    note r = sector_reads(1,2) [OF o(3) assms(3), of "\<lambda>_. True" st ?t torn]
    have k: "read_back torn st ?t = Some (led', ls_use st)" "vl_seq led' = vl_seq led + 1" using r new assms(6) o(4) by simp_all
    have "older (read_back torn st (1 - ?t)) (vl_seq led')" using cur t(3) k(2) assms(2) by (simp add: older_def)
    then show ?thesis using load_newest [OF k(1) _ t(2)] new by simp
  next
    case none
    then show ?thesis using restored by (simp add: older_def)
  qed
qed

theorem ledger_crash_safe_witness:
  "\<exists>disk' st' buf. tagfs_write_ledger (\<lambda>_. True) 9 fresh_disk made_state = Some (OK, disk', st') \<and>
     disk' 32 = buf \<and> ledger_load True (\<lambda>_. True) (disk'(32 := buf[40 := buf ! 40 XOR 1])) made_state =
       (OK, made_state\<lparr>ls_ledger := fresh_led, ls_current := 0, ls_use := []\<rparr>)"
proof -
  have fit: "length (ls_use made_state) \<le> LEDGER_USE_MAX" by (simp add: made_state_def fresh_state_def)
  have v: "ledger_vlba made_state 1 = 32" "ls_current made_state = 0"
    by (simp_all add: ledger_vlba_def made_state_def fresh_state_def TAGFS_BLOCK_SECTORS_def)
  obtain led buf where s: "ledger_sector 9 made_state = Some (led, buf)" using ledger_sector_image [OF fit, of 9] by auto
  let ?left = "buf[40 := buf ! 40 XOR 1]" and ?st' = "made_state\<lparr>ls_ledger := led, ls_current := 1\<rparr>"
  let ?torn = "fresh_disk(32 := ?left)"
  have w: "tagfs_write_ledger (\<lambda>_. True) 9 fresh_disk made_state = Some (OK, fresh_disk(32 := buf), ?st')"
    unfolding tagfs_write_ledger_def ledger_write_locked_def Let_def s v(2) using v(1)
    by (simp add: VOLUME_LEDGER_COPIES_def) (simp add: made_state_def fresh_state_def)
  have ne: "buf ! 40 XOR 1 \<noteq> buf ! 40"
  proof
    assume "buf ! 40 XOR 1 = buf ! 40"
    then have "bit (buf ! 40 XOR 1) 0 = bit (buf ! 40) 0" by simp
    then show False by (simp add: bit_xor_iff)
  qed
  note r = sector_reads [OF fit s, of "\<lambda>_. True" made_state 1 fresh_disk, unfolded v]
  have len: "length buf = 512" using sector_reads(3) [OF fit s, of "\<lambda>_. True" made_state 1 "\<lambda>_. buf"] by simp
  have off: "one_byte_off buf (80 + length (ls_use made_state)) ?left" 
    using ne unfolding one_byte_off_def by (intro exI [of _ "40::nat"] exI [of _ "buf ! 40 XOR 1"]) simp
  have "?left ! 40 \<noteq> buf ! 40" using ne len by simp
  then have changed: "?left \<noteq> buf" by metis
  have "buf \<noteq> fresh_disk 32"
    using r(1) blank_sector [of fresh_disk made_state 1, unfolded v] by (auto simp: fresh_disk_def)
  then have keep: "\<forall>u. (fresh_disk(32 := buf)) u = fresh_disk u \<longrightarrow> ?torn u = fresh_disk u" by auto
  have "vl_seq fresh_led < vl_seq fresh_led + 1" by (simp add: fresh_saved(2))
  note ledger_crash_safe [where torn = ?torn and left = ?left, OF fresh_saved(1) this s w keep]
  then have "ledger_load True (\<lambda>_. True) ?torn made_state = (OK, made_state\<lparr>ls_ledger := fresh_led, ls_current := 0, ls_use := []\<rparr>)"
    using off changed v by simp
  then show ?thesis using w by (intro exI conjI) (assumption, simp_all)
qed

text \<open>
  Storing a use context: one that fits is written with the ledger and found again at the next mount;
  one that does not fit is not stored, the result says so, and the next mount finds none. Neither can
  write outside the sector buffer, and the state stays one from which every later write stays inside.
\<close>

theorem use_context_remembered:
  assumes "saved_as disk st led tail" "vl_seq led < vl_seq led + 1" "wr (ledger_vlba st (1 - ls_current st))"
  shows "\<exists>disk' st'. tagfs_remember_use_context wr now list disk st = Some (OK, length list \<le> LEDGER_USE_MAX, disk', st') \<and>
    snd (ledger_load True (\<lambda>_. True) disk' st) = st' \<and>
    tagfs_recall_use_context cap st' =
      (if length list \<le> LEDGER_USE_MAX then (length list, if length list \<le> cap then list else []) else (0, [])) \<and>
    saved_as disk' st' (ls_ledger st') (ls_use st')"
proof -
  let ?use = "if length list \<le> LEDGER_USE_MAX then list else []"
  let ?st = "st\<lparr>ls_use := ?use\<rparr>"
  have rb: "read_back disk ?st = read_back disk st" using read_back_cong [of ?st st] by (auto simp: fun_eq_iff)
  have s: "saved_as disk ?st led tail" using assms(1) by (auto simp: saved_as_def rb)
  have w: "wr (ledger_vlba ?st (1 - ls_current ?st))" using assms(3) by (simp add: ledger_vlba_def)
  show ?thesis
  proof (rule write_saved [where now = now and wr = wr, OF s assms(2) w])
    fix disk' st'
    assume w: "ledger_write_locked wr now disk ?st = Some (OK, disk', st')" "saved_as disk' st' (ls_ledger st') (ls_use ?st)"
      "ls_state_block st' = ls_state_block ?st" "ls_use st' = ls_use ?st"
    have c: "read_back disk' st' n = read_back disk' st n" for n using read_back_cong [of st' st] w(3) by simp
    have l: "ledger_load True (\<lambda>_. True) disk' st = (OK, st\<lparr>ls_ledger := ls_ledger st', ls_current := ls_current st', ls_use := ls_use ?st\<rparr>)"
      using w(2) unfolding saved_as_def c by (intro load_newest) auto
    have "st' = st\<lparr>ls_ledger := ls_ledger st', ls_current := ls_current st', ls_use := ls_use ?st\<rparr>"
      using w(1) by (auto simp: ledger_write_locked_def Let_def split: if_splits option.splits)
    then show ?thesis using w l by (auto simp: tagfs_remember_use_context_def tagfs_recall_use_context_def Let_def)
  qed
qed

theorem use_context_remembered_witness:
  "\<exists>disk' st'. tagfs_remember_use_context (\<lambda>_. True) 9 [0x61, 0x62] fresh_disk made_state = Some (OK, True, disk', st') \<and>
     tagfs_recall_use_context 4 st' = (2, [0x61, 0x62])"
proof -
  have "vl_seq fresh_led < vl_seq fresh_led + 1" by (simp add: fresh_saved(2))
  from use_context_remembered [OF fresh_saved(1) this, of "\<lambda>_. True" 9 "[0x61, 0x62]" 4]
  show ?thesis by (auto simp: LEDGER_USE_MAX_def TAGFS_SECTOR_SIZE_def ledger_size_def)
qed

text \<open>
  The bound on the use context is the kernel's own, not the reader's: a sector may place a use context of
  436 bytes at offset 76, inside the record. It loads, and the next write of the ledger then runs four
  bytes past the end of its sector buffer.
\<close>

definition long_use_led :: "u32 \<Rightarrow> VolumeLedger" where
  "long_use_led crc = (ledger_of (replicate 80 0))\<lparr>vl_magic := g_ledger_magic, vl_bytes := 512, vl_crc32 := crc,
     vl_use_context_offset := 76, vl_use_context_bytes := 436\<rparr>"

definition long_use_sector :: bytes where
  "long_use_sector = ledger_image (long_use_led (KCrc32 (ledger_image (long_use_led 0) @ replicate 432 0))) @ replicate 432 0"

lemma long_use_context_overruns:
  assumes "disk = (\<lambda>_. replicate 512 0)(24 := long_use_sector)"
  shows "fst (ledger_load True (\<lambda>_. True) disk fresh_state) = OK \<and>
    ledger_write_locked wr now disk (snd (ledger_load True (\<lambda>_. True) disk fresh_state)) = None"
proof -
  let ?crc = "KCrc32 (ledger_image (long_use_led 0) @ replicate 432 0)"
  let ?led = "long_use_led ?crc" and ?r = "replicate 432 0 :: bytes"
  have v: "ledger_vlba fresh_state 0 = 24" "ledger_vlba fresh_state 1 = 32"
    by (simp_all add: ledger_vlba_def fresh_state_def TAGFS_BLOCK_SECTORS_def)
  have m: "vl_magic ?led = g_ledger_magic" "unat (vl_bytes ?led) = 512" "?led\<lparr>vl_crc32 := 0\<rparr> = long_use_led 0" "vl_crc32 ?led = ?crc"
    "unat (vl_use_context_offset ?led) = 76" "unat (vl_use_context_bytes ?led) = 436"
    by (simp_all add: long_use_led_def)
  have "length (ledger_image (long_use_led 0) @ ?r) = 512" by (simp add: long_use_led_def g_ledger_magic_def)
  then have crc: "vl_crc32 ?led = KCrc32 (take 512 (ledger_image (?led\<lparr>vl_crc32 := 0\<rparr>) @ ?r))" unfolding m(3,4) by simp
  have d: "disk (ledger_vlba fresh_state 0) = ledger_image ?led @ ?r" using assms by (simp add: v long_use_sector_def)
  let ?tail = "take 436 (drop 76 (ledger_image ?led @ ?r))"
  have a: "read_back disk fresh_state 0 = Some (?led, ?tail)"
    using image_reads [OF m(1,2) _ _ _ crc, of "\<lambda>_. True" fresh_state 0 disk] d m(5,6) by (simp add: Let_def)
  have b: "read_back disk fresh_state 1 = None"
    using assms v by (intro blank_sector) simp
  have l: "ledger_load True (\<lambda>_. True) disk fresh_state = (OK, fresh_state\<lparr>ls_ledger := ?led, ls_current := 0, ls_use := ?tail\<rparr>)"
    using load_newest [OF a] b by (simp add: older_def)
  have "length (ledger_image ?led) = 80" using m(1) by (simp add: g_ledger_magic_def)
  then have t: "length ?tail = 436" by (simp del: take_append drop_append)
  have "ledger_sector now (fresh_state\<lparr>ls_ledger := ?led, ls_current := 0, ls_use := ?tail\<rparr>) = None"
  proof -
    have "length (ledger_image (stamped now s)) = 80" for s by (simp add: stamped_def g_ledger_magic_def)
    then show ?thesis using t by (simp add: ledger_sector_def Let_def TAGFS_SECTOR_SIZE_def del: take_append drop_append)
  qed
  then show ?thesis unfolding l ledger_write_locked_def Let_def by (simp add: fresh_state_def VOLUME_LEDGER_COPIES_def)
qed

end
