(* ===== verification/FileIo.thy ===== *)
theory FileIo
  imports VolumeIo
begin

text \<open>
  Reading a file of TagFS (\<^verbatim>\<open>tagfs_read\<close> of kernel/tagfs/tagfs.c) through the extents of an open handle and
  the block layer of theories BlockIo and Integrity. Sizes and offsets are natural numbers standing for \<^verbatim>\<open>uint64_t\<close>; none of
  their sums reaches \<open>2 ^ 64\<close>, as files have at most 65535 extents of 65535 blocks. The environment of the
  raw accesses may change from block to block: \<open>env n\<close> is the one in force when \<open>n\<close> bytes have been read.

  The lemmas show that a read returns exactly the bytes of the file between the handle's offset and the
  requested end.
\<close>

section \<open>Handles\<close>

record FileExtent =
  fx_start_block :: nat
  fx_block_count :: nat

record TagFSFileHandle =
  fh_file_id :: nat
  fh_flags :: nat
  fh_offset :: nat
  fh_file_size :: nat
  fh_extents :: "FileExtent list"
  fh_mount_epoch :: nat

definition BLOCK_SIZE :: nat where "BLOCK_SIZE = 4096"

section \<open>Reading\<close>

text \<open>The inner loop of \<^verbatim>\<open>tagfs_read_inside\<close>: the extent that covers a position and the position it starts at.\<close>

fun find_extent :: "FileExtent list \<Rightarrow> nat \<Rightarrow> nat \<Rightarrow> (FileExtent \<times> nat) option" where
  "find_extent [] file_pos extent_start = None"
| "find_extent (x # rest) file_pos extent_start =
     (let extent_size = fx_block_count x * BLOCK_SIZE
      in if file_pos < extent_start + extent_size then Some (x, extent_start)
         else find_extent rest file_pos (extent_start + extent_size))"

definition read_ahead :: "IoEnv \<Rightarrow> FileExtent \<Rightarrow> nat \<Rightarrow> nat \<Rightarrow> nat \<Rightarrow> nat \<Rightarrow> IoState \<Rightarrow> IoState" where
  "read_ahead env x block_index disk_block offset_in_block chunk st =
     (if offset_in_block = 0 \<and> chunk = BLOCK_SIZE
      then
        let next_block = u32_wrap (disk_block + 1);
            remaining = u32_wrap (fx_block_count x + 2 ^ 33 - block_index - 1)
        in if remaining > 0 \<and> \<not> ReadAheadHas st next_block
           then ReadAheadPrefetch env next_block
                  (if remaining < TAGFS_READ_AHEAD_BLOCKS then remaining else TAGFS_READ_AHEAD_BLOCKS) st
           else st
      else st)"

text \<open>
  One round of the loop: the chunk that was copied, its length, and the state after it; nothing when no
  extent covers the position or the block does not read. An outer \<open>None\<close> is an out-of-bounds access inside
  Braid.
\<close>

definition read_round :: "IoEnv \<Rightarrow> TagFSFileHandle \<Rightarrow> nat \<Rightarrow> nat \<Rightarrow> IoState \<Rightarrow> ((nat \<times> bytes) option \<times> IoState) option" where
  "read_round env h size' bytes_read st =
     (let file_pos = fh_offset h + bytes_read
      in case find_extent (fh_extents h) file_pos 0 of
           None \<Rightarrow> Some (None, st)
         | Some (x, extent_start) \<Rightarrow>
             let offset_in_extent = file_pos - extent_start;
                 block_index = u32_wrap (offset_in_extent div BLOCK_SIZE);
                 offset_in_block = offset_in_extent mod BLOCK_SIZE;
                 disk_block = u32_wrap (fx_start_block x + block_index);
                 chunk = min (BLOCK_SIZE - offset_in_block) (size' - bytes_read)
             in map_option (\<lambda>(res, st1). case res of
                    None \<Rightarrow> (None, st1)
                  | Some block_buf \<Rightarrow> (Some (chunk, take chunk (drop offset_in_block block_buf)),
                      read_ahead env x block_index disk_block offset_in_block chunk st1))
                  (read_block env disk_block st))"

lemma read_round_pos: "read_round env h size' bytes_read st = Some (Some (chunk, data), st') \<Longrightarrow> bytes_read < size' \<Longrightarrow> 0 < chunk"
  by (auto simp: read_round_def Let_def BLOCK_SIZE_def split: option.splits prod.splits)

text \<open>The loop: whether all bytes came, those that did, and the state.\<close>

function read_file_loop :: "(nat \<Rightarrow> IoEnv) \<Rightarrow> TagFSFileHandle \<Rightarrow> nat \<Rightarrow> nat \<Rightarrow> bytes \<Rightarrow> IoState \<Rightarrow> (bool \<times> bytes \<times> IoState) option" where
  "read_file_loop env h size' bytes_read out st =
     (if bytes_read < size'
      then case read_round (env bytes_read) h size' bytes_read st of
             None \<Rightarrow> None
           | Some (None, st1) \<Rightarrow> Some (False, out, st1)
           | Some (Some (chunk, data), st1) \<Rightarrow> read_file_loop env h size' (bytes_read + chunk) (out @ data) st1
      else Some (True, out, st))"
  by pat_completeness auto
termination
  by (relation "measure (\<lambda>(env, h, size', bytes_read, out, st). size' - bytes_read)")
    (auto dest: read_round_pos)

declare read_file_loop.simps [simp del]

text \<open>The value an \<^verbatim>\<open>int\<close> gets from a 64-bit count.\<close>

definition to_int32 :: "nat \<Rightarrow> int" where
  "to_int32 n = sint (word_of_nat n :: u32)"

definition tagfs_read_inside ::
  "bool \<Rightarrow> (nat \<Rightarrow> IoEnv) \<Rightarrow> TagFSFileHandle \<Rightarrow> nat \<Rightarrow> IoState \<Rightarrow> (int \<times> bytes \<times> TagFSFileHandle \<times> IoState) option" where
  "tagfs_read_inside mem env h size' st =
     (if size' = 0 then Some (- 1, [], h, st)
      else if fh_offset h \<ge> fh_file_size h then Some (0, [], h, st)
      else
        let n = min size' (fh_file_size h - fh_offset h)
        in if \<not> mem then Some (- 1, [], h, st)
           else map_option (\<lambda>(complete, out, st').
                  if complete then (to_int32 n, out, h\<lparr>fh_offset := fh_offset h + n\<rparr>, st') else (- 1, out, h, st'))
                  (read_file_loop env h n 0 [] st))"

text \<open>\<open>door\<close> is the outcome of \<^verbatim>\<open>tagfs_enter\<close>, \<open>epoch\<close> that of \<^verbatim>\<open>tagfs_mount_epoch\<close>.\<close>

definition handle_belongs_here :: "nat \<Rightarrow> TagFSFileHandle \<Rightarrow> bool" where
  "handle_belongs_here epoch h \<longleftrightarrow> fh_mount_epoch h = epoch"

definition tagfs_read ::
  "bool \<Rightarrow> nat \<Rightarrow> bool \<Rightarrow> (nat \<Rightarrow> IoEnv) \<Rightarrow> TagFSFileHandle \<Rightarrow> nat \<Rightarrow> IoState \<Rightarrow> (int \<times> bytes \<times> TagFSFileHandle \<times> IoState) option" where
  "tagfs_read door epoch mem env h size' st =
     (if \<not> door \<or> \<not> handle_belongs_here epoch h then Some (- 1, [], h, st) else tagfs_read_inside mem env h size' st)"

section \<open>The contents of a file\<close>

definition extent_list :: "FileExtent \<Rightarrow> nat list" where
  "extent_list x = [fx_start_block x..<fx_start_block x + fx_block_count x]"

definition file_blocks :: "FileExtent list \<Rightarrow> nat list" where
  "file_blocks xs = concat (map extent_list xs)"

definition file_contents :: "IoState \<Rightarrow> FileExtent list \<Rightarrow> bytes" where
  "file_contents st xs = concat (map (on_disk st) (file_blocks xs))"

text \<open>Every extent lies inside the 32-bit range of block numbers, with room for the read-ahead.\<close>

definition extents_ok :: "FileExtent list \<Rightarrow> bool" where
  "extents_ok xs \<longleftrightarrow> (\<forall>x\<in>set xs. fx_start_block x + fx_block_count x + 8 < 2 ^ 32)"

lemma length_file_blocks [simp]:
  "length (file_blocks []) = 0" "length (file_blocks (x # xs)) = fx_block_count x + length (file_blocks xs)"
  by (simp_all add: file_blocks_def extent_list_def)

lemma nth_extent_list: "i < fx_block_count x \<Longrightarrow> extent_list x ! i = fx_start_block x + i"
  by (simp add: extent_list_def)

lemma find_extent_none: "es \<le> pos \<Longrightarrow> find_extent xs pos es = None \<longleftrightarrow> length (file_blocks xs) * BLOCK_SIZE \<le> pos - es"
proof (induction xs arbitrary: es)
  case (Cons x xs)
  show ?case
  proof (cases "pos < es + fx_block_count x * BLOCK_SIZE")
    case True
    then show ?thesis using Cons.prems by (simp add: Let_def algebra_simps)
  next
    case False
    then show ?thesis using Cons.IH [of "es + fx_block_count x * BLOCK_SIZE"] by (auto simp: Let_def algebra_simps)
  qed
qed (simp add: file_blocks_def)

lemma find_extent_some:
  assumes "find_extent xs pos es = Some (x, s)" "es \<le> pos"
  shows "x \<in> set xs \<and> es \<le> s \<and> s \<le> pos \<and> (pos - s) div BLOCK_SIZE < fx_block_count x \<and>
    (pos - s) mod BLOCK_SIZE = (pos - es) mod BLOCK_SIZE \<and>
    (pos - es) div BLOCK_SIZE < length (file_blocks xs) \<and>
    file_blocks xs ! ((pos - es) div BLOCK_SIZE) = fx_start_block x + (pos - s) div BLOCK_SIZE"
  using assms
proof (induction xs arbitrary: es)
  case (Cons y ys)
  let ?n = "fx_block_count y * BLOCK_SIZE"
  show ?case
  proof (cases "pos < es + ?n")
    case True
    then have e: "x = y" "s = es" using Cons.prems(1) by (simp_all add: Let_def)
    have d: "(pos - es) div BLOCK_SIZE < fx_block_count y" using True Cons.prems(2) by (intro less_mult_imp_div_less) (simp add: BLOCK_SIZE_def)
    have "file_blocks (y # ys) = extent_list y @ file_blocks ys" by (simp add: file_blocks_def)
    then have "file_blocks (y # ys) ! ((pos - es) div BLOCK_SIZE) = fx_start_block y + (pos - es) div BLOCK_SIZE"
      using d by (simp add: nth_append nth_extent_list) (simp add: extent_list_def)
    then show ?thesis using e d Cons.prems(2) by simp
  next
    case False
    then have r: "find_extent ys pos (es + ?n) = Some (x, s)" using Cons.prems(1) by (simp add: Let_def)
    have le: "es + ?n \<le> pos" using False by simp
    note ih = Cons.IH [OF r le]
    have p: "pos - es = (pos - (es + ?n)) + fx_block_count y * BLOCK_SIZE" using le by simp
    have m: "(pos - es) mod BLOCK_SIZE = (pos - (es + ?n)) mod BLOCK_SIZE" unfolding p by simp
    have d: "(pos - es) div BLOCK_SIZE = (pos - (es + ?n)) div BLOCK_SIZE + fx_block_count y" unfolding p by (simp add: BLOCK_SIZE_def)
    have "file_blocks (y # ys) = extent_list y @ file_blocks ys" by (simp add: file_blocks_def)
    then have "file_blocks (y # ys) ! ((pos - es) div BLOCK_SIZE) = file_blocks ys ! ((pos - (es + ?n)) div BLOCK_SIZE)"
      unfolding d by (simp add: nth_append) (simp add: extent_list_def)
    then show ?thesis using ih m d le by simp
  qed
qed simp

text \<open>A piece of a file inside one block is a piece of that block.\<close>

lemma concat_piece:
  assumes "\<forall>b\<in>set bs. length b = n" "0 < n" "pos div n < length bs" "k \<le> n - pos mod n"
  shows "take k (drop pos (concat bs)) = take k (drop (pos mod n) (bs ! (pos div n)))"
  using assms
proof (induction bs arbitrary: pos)
  case (Cons b bs)
  show ?case
  proof (cases "pos < n")
    case True
    then show ?thesis using Cons.prems by simp
  next
    case False
    then have p: "pos div n = Suc ((pos - n) div n)" "pos mod n = (pos - n) mod n"
      using Cons.prems(2) by (simp_all add: le_div_geq le_mod_geq)
    then have "take k (drop (pos - n) (concat bs)) = take k (drop ((pos - n) mod n) (bs ! ((pos - n) div n)))"
      using Cons.IH [of "pos - n"] Cons.prems by simp
    then show ?thesis using False Cons.prems(1) p by simp
  qed
qed simp

section \<open>A round of the loop\<close>

lemma read_ahead_keeps:
  assumes so: "sound st" and b: "disk_block + 9 < 2 ^ 32"
  shows "keeps st (read_ahead env x bi disk_block off chunk st) \<and>
    io_medium_left (read_ahead env x bi disk_block off chunk st) = io_medium_left st"
proof -
  have pl: "plain st" "coherent st" using so by (simp_all add: sound_def plain_def)
  have w: "u32_wrap (disk_block + 1) = disk_block + 1" using b by simp
  have "disk_block + 1 + 8 < 2 ^ 32" using b by simp
  then have p: "coherent (ReadAheadPrefetch env (disk_block + 1) k st) \<and> same_disk st (ReadAheadPrefetch env (disk_block + 1) k st)" for k
    by (rule prefetch_coherent [OF pl(2)])
  then have "keeps st (ReadAheadPrefetch env (disk_block + 1) k st)" for k
    using plain_same_disk [OF pl(1)] same_disk_keeps [OF so] by blast
  then show ?thesis using keeps_refl [OF so] prefetch_left unfolding read_ahead_def Let_def w by (simp split: if_splits)
qed

text \<open>The blocks of the file are whole blocks, none of them a block of the integrity map.\<close>

definition whole_blocks :: "IoState \<Rightarrow> FileExtent list \<Rightarrow> bool" where
  "whole_blocks st xs \<longleftrightarrow> (\<forall>b\<in>set (file_blocks xs). length (on_disk st b) = BLOCK_SIZE \<and> \<not> in_map_region (io_integrity st) b)"

lemma keeps_file:
  assumes "keeps st st'" "whole_blocks st xs"
  shows "file_contents st' xs = file_contents st xs" "whole_blocks st' xs"
proof -
  have r: "in_region st' = in_region st" using assms(1) by (intro same_map_region) (simp add: keeps_def)
  have d: "on_disk st' b = on_disk st b" if "b \<in> set (file_blocks xs)" for b
    using assms that by (simp add: keeps_def whole_blocks_def)
  show "file_contents st' xs = file_contents st xs" using d by (simp add: file_contents_def cong: map_cong)
  show "whole_blocks st' xs" using d assms(2) unfolding whole_blocks_def r by simp
qed

lemma length_file_contents: "whole_blocks st xs \<Longrightarrow> length (file_contents st xs) = length (file_blocks xs) * BLOCK_SIZE"
proof -
  have "length (concat (map f bs)) = length bs * n" if "\<forall>b\<in>set bs. length (f b) = n" for f :: "nat \<Rightarrow> bytes" and bs n
    using that by (induction bs) auto
  then show "whole_blocks st xs \<Longrightarrow> length (file_contents st xs) = length (file_blocks xs) * BLOCK_SIZE"
    by (simp add: whole_blocks_def file_contents_def)
qed

lemma read_round_spec:
  assumes p: "sound st" and ok: "extents_ok (fh_extents h)" and w: "whole_blocks st (fh_extents h)"
    and pos: "fh_offset h + bytes_read < length (file_contents st (fh_extents h))" "bytes_read < size'"
  shows "\<exists>r st'. read_round env h size' bytes_read st = Some (r, st') \<and> keeps st st' \<and>
    (\<forall>chunk data. r = Some (chunk, data) \<longrightarrow> 0 < chunk \<and> chunk \<le> size' - bytes_read \<and> length data = chunk \<and>
       data = take chunk (drop (fh_offset h + bytes_read) (file_contents st (fh_extents h)))) \<and>
    (env_works env \<and> \<not> io_medium_left st \<longrightarrow> r \<noteq> None \<and> \<not> io_medium_left st')"
proof -
  let ?pos = "fh_offset h + bytes_read" and ?xs = "fh_extents h"
  have "find_extent ?xs ?pos 0 \<noteq> None" using find_extent_none [of 0 ?pos ?xs] pos(1) length_file_contents [OF w] by simp
  then obtain x s where f: "find_extent ?xs ?pos 0 = Some (x, s)" by auto
  have x: "x \<in> set ?xs" "s \<le> ?pos" "(?pos - s) div BLOCK_SIZE < fx_block_count x" "(?pos - s) mod BLOCK_SIZE = ?pos mod BLOCK_SIZE"
    "?pos div BLOCK_SIZE < length (file_blocks ?xs)"
    "file_blocks ?xs ! (?pos div BLOCK_SIZE) = fx_start_block x + (?pos - s) div BLOCK_SIZE"
    using find_extent_some [OF f] by simp_all
  let ?bi = "(?pos - s) div BLOCK_SIZE" and ?ob = "?pos mod BLOCK_SIZE"
  let ?db = "fx_start_block x + ?bi" and ?chunk = "min (BLOCK_SIZE - ?ob) (size' - bytes_read)"
  have bound: "fx_start_block x + fx_block_count x + 8 < 2 ^ 32" using ok x(1) by (simp add: extents_ok_def)
  then have wraps: "u32_wrap ?bi = ?bi" "u32_wrap ?db = ?db" "?db + 9 < 2 ^ 32" using x(3) by simp_all
  have mem: "?db \<in> set (file_blocks ?xs)" using x(5,6) nth_mem by metis
  have len: "length (on_disk st ?db) = BLOCK_SIZE" using w mem by (simp add: whole_blocks_def)
  have ob: "?ob < BLOCK_SIZE" by (simp add: BLOCK_SIZE_def)
  have piece: "take ?chunk (drop ?pos (file_contents st ?xs)) = take ?chunk (drop ?ob (on_disk st ?db))"
    unfolding file_contents_def using w x(5,6) concat_piece [of "map (on_disk st) (file_blocks ?xs)" BLOCK_SIZE ?pos ?chunk]
    by (auto simp: whole_blocks_def BLOCK_SIZE_def)
  obtain res st1 where r: "read_block env ?db st = Some (res, st1)" "keeps st st1" "\<forall>data. res = Some data \<longrightarrow> data = on_disk st ?db"
    "env_works env \<and> \<not> io_medium_left st \<longrightarrow> res \<noteq> None \<and> \<not> io_medium_left st1"
    using read_block_sound [OF p, of env ?db] by blast
  have so1: "sound st1" using r(2) by (simp add: keeps_def)
  have e: "read_round env h size' bytes_read st = Some (case res of None \<Rightarrow> (None, st1)
      | Some block_buf \<Rightarrow> (Some (?chunk, take ?chunk (drop ?ob block_buf)), read_ahead env x ?bi ?db ?ob ?chunk st1))"
    unfolding read_round_def Let_def f option.case prod.case wraps x(4) r(1) by simp
  show ?thesis
  proof (cases res)
    case None
    then show ?thesis using e r(2,4) by auto
  next
    case (Some buf)
    have buf: "buf = on_disk st ?db" using r(3) Some by simp
    note ra = read_ahead_keeps [OF so1 wraps(3), of env x ?bi ?ob ?chunk]
    have "0 < ?chunk" "?chunk \<le> size' - bytes_read" "length (take ?chunk (drop ?ob buf)) = ?chunk" using pos(2) ob len buf by auto
    then show ?thesis using e Some ra keeps_trans [OF r(2)] r(4) buf piece by auto
  qed
qed

lemma read_file_loop_spec:
  assumes "sound st" "extents_ok (fh_extents h)" "whole_blocks st (fh_extents h)"
    "fh_offset h + size' \<le> length (file_contents st (fh_extents h))" "bytes_read \<le> size'"
    "out = take bytes_read (drop (fh_offset h) (file_contents st (fh_extents h)))"
  shows "\<exists>complete out' st'. read_file_loop env h size' bytes_read out st = Some (complete, out', st') \<and> keeps st st' \<and>
    (complete \<longrightarrow> out' = take size' (drop (fh_offset h) (file_contents st (fh_extents h)))) \<and>
    ((\<forall>n. env_works (env n)) \<and> \<not> io_medium_left st \<longrightarrow> complete)"
  using assms
proof (induction "size' - bytes_read" arbitrary: bytes_read out st rule: less_induct)
  case less
  note unfold = read_file_loop.simps [of env h size' bytes_read out st]
  show ?case
  proof (cases "bytes_read < size'")
    case False
    then have "read_file_loop env h size' bytes_read out st = Some (True, out, st)" by (simp add: unfold)
    moreover have "bytes_read = size'" using False less.prems(5) by simp
    ultimately show ?thesis using keeps_refl [OF less.prems(1)] less.prems(6) by auto
  next
    case True
    then have pos: "fh_offset h + bytes_read < length (file_contents st (fh_extents h))" using less.prems(4) by simp
    obtain r st1 where r: "read_round (env bytes_read) h size' bytes_read st = Some (r, st1)" "keeps st st1"
      "\<And>chunk data. r = Some (chunk, data) \<Longrightarrow> 0 < chunk \<and> chunk \<le> size' - bytes_read \<and> length data = chunk \<and>
         data = take chunk (drop (fh_offset h + bytes_read) (file_contents st (fh_extents h)))"
      "env_works (env bytes_read) \<and> \<not> io_medium_left st \<longrightarrow> r \<noteq> None \<and> \<not> io_medium_left st1"
      using read_round_spec [OF less.prems(1-3) pos True, of "env bytes_read"] by blast
    show ?thesis
    proof (cases r)
      case None
      then have "read_file_loop env h size' bytes_read out st = Some (False, out, st1)" using True r(1) by (simp add: unfold)
      then show ?thesis using r(2,4) None by blast
    next
      case (Some cd)
      obtain chunk data where cd: "cd = (chunk, data)" by (cases cd)
      note c = r(3) [unfolded Some cd, OF refl]
      note fc = keeps_file [OF r(2) less.prems(3)]
      have so1: "sound st1" using r(2) by (simp add: keeps_def)
      have e: "read_file_loop env h size' bytes_read out st = read_file_loop env h size' (bytes_read + chunk) (out @ data) st1"
        using True r(1) Some cd by (simp add: unfold)
      have out': "out @ data = take (bytes_read + chunk) (drop (fh_offset h) (file_contents st1 (fh_extents h)))"
        using c less.prems(6) unfolding fc by (metis drop_drop add.commute take_add)
      have m: "size' - (bytes_read + chunk) < size' - bytes_read" "bytes_read + chunk \<le> size'" using c True by linarith+
      have pre: "fh_offset h + size' \<le> length (file_contents st1 (fh_extents h))" using less.prems(4) by (simp add: fc)
      obtain complete out'' st' where l: "read_file_loop env h size' (bytes_read + chunk) (out @ data) st1 = Some (complete, out'', st')"
        "keeps st1 st'" "complete \<longrightarrow> out'' = take size' (drop (fh_offset h) (file_contents st1 (fh_extents h)))"
        "(\<forall>n. env_works (env n)) \<and> \<not> io_medium_left st1 \<longrightarrow> complete"
        using less.hyps [OF m(1) so1 less.prems(2) fc(2) pre m(2) out'] by blast
      then show ?thesis unfolding e using keeps_trans [OF r(2) l(2)] r(4) fc(1) by auto
    qed
  qed
qed

section \<open>Properties\<close>

lemma to_int32_small: "n < 2 ^ 31 \<Longrightarrow> to_int32 n = int n"
proof -
  assume n: "n < 2 ^ 31"
  have "sint (word_of_nat n :: u32) = signed_take_bit 31 (int n)" by transfer simp
  also have "\<dots> = int n" using n by (intro signed_take_bit_int_eq_self) simp_all
  finally show ?thesis by (simp add: to_int32_def)
qed

text \<open>
  C15. Reading a file: \<^verbatim>\<open>tagfs_read\<close> on an open file whose extents hold it returns either an error or
  exactly the bytes of the file from the handle's offset on, as many as asked for or as there are up to
  the end, and moves the offset by that number; no block outside the integrity map changes. When every raw
  access works it does not fail.
\<close>

theorem tagfs_read_exact:
  assumes "sound st" "extents_ok (fh_extents h)" "whole_blocks st (fh_extents h)"
    "fh_file_size h \<le> length (file_contents st (fh_extents h))" "fh_offset h < fh_file_size h"
    "0 < size'" "n = min size' (fh_file_size h - fh_offset h)" "n < 2 ^ 31" "fh_mount_epoch h = epoch"
  shows "\<exists>rc out h' st'. tagfs_read True epoch True env h size' st = Some (rc, out, h', st') \<and> sound st' \<and>
    (\<forall>b. \<not> in_map_region (io_integrity st) b \<longrightarrow> on_disk st' b = on_disk st b) \<and>
    (rc = - 1 \<and> h' = h \<or>
     rc = int n \<and> out = take n (drop (fh_offset h) (file_contents st (fh_extents h))) \<and> h' = h\<lparr>fh_offset := fh_offset h + n\<rparr>) \<and>
    ((\<forall>k. env_works (env k)) \<and> \<not> io_medium_left st \<longrightarrow> rc = int n)"
proof -
  have le: "fh_offset h + n \<le> length (file_contents st (fh_extents h))" using assms(4,5,7) by simp
  obtain complete out st' where l: "read_file_loop env h n 0 [] st = Some (complete, out, st')" "keeps st st'"
    "complete \<longrightarrow> out = take n (drop (fh_offset h) (file_contents st (fh_extents h)))"
    "(\<forall>k. env_works (env k)) \<and> \<not> io_medium_left st \<longrightarrow> complete"
    using read_file_loop_spec [OF assms(1-3) le, of 0 "[]" env] by auto
  have "tagfs_read True epoch True env h size' st =
      Some (if complete then (int n, out, h\<lparr>fh_offset := fh_offset h + n\<rparr>, st') else (- 1, out, h, st'))"
    using assms(5,6,8,9) l(1) by (simp add: tagfs_read_def tagfs_read_inside_def handle_belongs_here_def Let_def assms(7) [symmetric] to_int32_small)
  then show ?thesis using l(2-4) by (cases complete) (auto simp: keeps_def)
qed

definition small_file :: TagFSFileHandle where
  "small_file = \<lparr>fh_file_id = 5, fh_flags = 1, fh_offset = 4090, fh_file_size = 5000,
     fh_extents = [\<lparr>fx_start_block = 7, fx_block_count = 1\<rparr>, \<lparr>fx_start_block = 3, fx_block_count = 2\<rparr>], fh_mount_epoch = 1\<rparr>"

theorem tagfs_read_exact_witness:
  "\<exists>out h' st'. tagfs_read True 1 True (\<lambda>_. good_env) small_file 100 one_disk = Some (100, out, h', st') \<and>
     out = take 100 (drop 4090 (file_contents one_disk (fh_extents small_file)))"
proof -
  have so: "sound one_disk" "\<not> io_medium_left one_disk" using one_disk_healthy(1) by (simp_all add: healthy_def)
  have f: "extents_ok (fh_extents small_file)" "fh_offset small_file = 4090" "fh_file_size small_file = 5000" "fh_mount_epoch small_file = 1"
    by (simp_all add: small_file_def extents_ok_def)
  have disk: "on_disk one_disk b = replicate 4096 0" for b by (simp add: on_disk_def one_disk_def ReadAheadInit_def)
  have blocks: "file_blocks (fh_extents small_file) = [7, 3, 4]" by (simp add: small_file_def file_blocks_def extent_list_def upt_rec)
  have w: "whole_blocks one_disk (fh_extents small_file)"
    by (simp add: whole_blocks_def blocks disk BLOCK_SIZE_def one_disk_healthy(2) fresh_map_ok)
  have le: "5000 \<le> length (file_contents one_disk (fh_extents small_file))"
    by (simp add: length_file_contents [OF w] blocks BLOCK_SIZE_def)
  from tagfs_read_exact [OF so(1) f(1) w, of 100 100 1 "\<lambda>_. good_env"] le f good_env_works so(2)
  show ?thesis by auto
qed

text \<open>A count of two gigabytes or more comes back as a negative number.\<close>

lemma read_result_negative: "to_int32 (2 ^ 31) = - (2 ^ 31)"
  by (simp add: to_int32_def)

end
