(* ===== verification/IntegrityMount.thy ===== *)
theory IntegrityMount
  imports VolumeIo BlockRelease VolumeLedger TagRegistry
begin

text \<open>
  Bringing the integrity map up (\<^verbatim>\<open>IntegrityInit\<close> and \<^verbatim>\<open>IntegrityMarkMapBlocks\<close> of
  kernel/tagfs/integrity/integrity.c): a fresh volume gets a map of zeros, a volume that has one keeps it, and
  on a volume that has grown the map moves to a bigger run of blocks. The blocks come from the allocator of
  theory BlockSpace and go back through BlockRelease, the place of the map is kept in the ledger of theory
  VolumeLedger, and the tag of the reports is interned in the registry of theory TagRegistry. The state
  area that holds the copies of the ledger lies outside the data blocks and is a store of its own.

  Shown: shutting the map down and bringing it up again keeps every hash on record, and so does a move.
\<close>

section \<open>State\<close>

record MountState =
  mo_io :: IoState
  mo_space :: SpaceState
  mo_dedup :: DedupState
  mo_ledger :: LedgerState
  mo_state_area :: medium
  mo_registry :: "TagRegistry option"
  mo_uuid :: bytes

text \<open>
  Outcomes: the raw accesses, \<^verbatim>\<open>tagfs_enter\<close>, the clock, \<^verbatim>\<open>kmalloc\<close> of the page and of list nodes, the writes to
  the state area, and the allocations of the registry.
\<close>

record MountEnv =
  me_io :: IoEnv
  me_door :: bool
  me_now :: u64
  me_page :: bool
  me_node :: "nat \<Rightarrow> bool"
  me_ledger_write :: "nat \<Rightarrow> bool"
  me_intern :: InternMem

definition sb_map_block :: "MountState \<Rightarrow> nat" where
  "sb_map_block st = unat (vl_integrity_map_block (ls_ledger (mo_ledger st)))"

definition sb_map_count :: "MountState \<Rightarrow> nat" where
  "sb_map_count st = unat (vl_integrity_map_blocks (ls_ledger (mo_ledger st)))"

definition set_map_place :: "nat \<Rightarrow> nat \<Rightarrow> MountState \<Rightarrow> MountState" where
  "set_map_place block k st = st\<lparr>mo_ledger := (mo_ledger st)\<lparr>ls_ledger := (ls_ledger (mo_ledger st))
     \<lparr>vl_integrity_map_block := of_nat block, vl_integrity_map_blocks := of_nat k\<rparr>\<rparr>\<rparr>"

definition on_integrity :: "(IntegrityState \<Rightarrow> IntegrityState) \<Rightarrow> MountState \<Rightarrow> MountState" where
  "on_integrity f st = st\<lparr>mo_io := (mo_io st)\<lparr>io_integrity := f (io_integrity (mo_io st))\<rparr>\<rparr>"

definition write_ledger :: "MountEnv \<Rightarrow> MountState \<Rightarrow> (error_t \<times> MountState) option" where
  "write_ledger env st =
     map_option (\<lambda>(err, area, led). (err, st\<lparr>mo_state_area := area, mo_ledger := led\<rparr>))
       (tagfs_write_ledger (me_ledger_write env) (me_now env) (mo_state_area st) (mo_ledger st))"

text \<open>The allocator counts the free blocks in the ledger, so the count of the space is copied there.\<close>

definition count_free :: "SpaceState \<Rightarrow> LedgerState \<Rightarrow> LedgerState" where
  "count_free sp led = led\<lparr>ls_ledger := (ls_ledger led)\<lparr>vl_free_blocks := of_nat (ss_free_blocks sp)\<rparr>\<rparr>"

definition alloc_map :: "MountEnv \<Rightarrow> nat \<Rightarrow> MountState \<Rightarrow> (nat option \<times> MountState) option" where
  "alloc_map env k st =
     map_option (\<lambda>(start, sp). (start, st\<lparr>mo_space := sp, mo_ledger := count_free sp (mo_ledger st)\<rparr>)) (tagfs_alloc_blocks (me_door env) k (mo_space st))"

definition free_map :: "MountEnv \<Rightarrow> nat \<Rightarrow> nat \<Rightarrow> MountState \<Rightarrow> MountState option" where
  "free_map env start k st =
     map_option (\<lambda>(rc, sp, dd). st\<lparr>mo_space := sp, mo_dedup := dd, mo_ledger := count_free sp (mo_ledger st)\<rparr>)
       (tagfs_free_blocks (me_door env) (me_now env) (me_node env) start k (mo_space st, mo_dedup st))"

section \<open>Bringing the map up\<close>

text \<open>The settings and the empty cache.\<close>

definition start_map :: "nat \<Rightarrow> BoxHashContext \<Rightarrow> IntegrityState \<Rightarrow> IntegrityState" where
  "start_map data_blocks ctx it =
     it\<lparr>in_map_entries := data_blocks, in_map_count := u32_wrap (data_blocks + ENTRIES_PER_BLOCK - 1) div ENTRIES_PER_BLOCK,
        in_ctx := ctx, in_cache := map (\<lambda>slot. slot\<lparr>ms_map_idx := SLOT_EMPTY, ms_dirty := False\<rparr>) (in_cache it),
        in_lru_tick := 0, in_rot_ring := []\<rparr>"

definition zero_block :: bytes where
  "zero_block = replicate 4096 0"

fun zero_blocks :: "IoEnv \<Rightarrow> nat list \<Rightarrow> IoState \<Rightarrow> IoState option" where
  "zero_blocks env [] st = Some st"
| "zero_blocks env (b # bs) st = Option.bind (tagfs_write_block env b zero_block st) (\<lambda>(err, st'). zero_blocks env bs st')"

text \<open>A map of zeros; nothing checks that its blocks and the ledger were written.\<close>

definition lay_fresh_map :: "MountEnv \<Rightarrow> MountState \<Rightarrow> (bool \<times> MountState) option" where
  "lay_fresh_map env st =
     (let k = in_map_count (io_integrity (mo_io st))
      in case alloc_map env k st of
           None \<Rightarrow> None
         | Some (None, st1) \<Rightarrow> Some (False, st1)
         | Some (Some start, st1) \<Rightarrow>
             if start = 0 then Some (False, st1)
             else
               let st2 = set_map_place start k (on_integrity (\<lambda>it. it\<lparr>in_map_first_block := start\<rparr>) st1)
               in case zero_blocks (me_io env) (map (\<lambda>i. u32_wrap (start + i)) [0..<k]) (mo_io st2) of
                    None \<Rightarrow> None
                  | Some io \<Rightarrow> map_option (\<lambda>(err, st3). (True, st3)) (write_ledger env (st2\<lparr>mo_io := io\<rparr>)))"

text \<open>The old map, then zeros, go block by block to the new place.\<close>

fun copy_map :: "IoEnv \<Rightarrow> nat \<Rightarrow> nat \<Rightarrow> nat \<Rightarrow> nat list \<Rightarrow> IoState \<Rightarrow> (bool \<times> IoState) option" where
  "copy_map env first stored start [] st = Some (True, st)"
| "copy_map env first stored start (i # rest) st =
     (case (if i < stored then tagfs_read_block env (u32_wrap (first + i)) st else Some (Inr zero_block, st)) of
        None \<Rightarrow> None
      | Some (Inl err, st1) \<Rightarrow> Some (False, st1)
      | Some (Inr page, st1) \<Rightarrow>
          (case tagfs_write_block env (u32_wrap (start + i)) page st1 of
             None \<Rightarrow> None
           | Some (err, st2) \<Rightarrow> if err = OK then copy_map env first stored start rest st2 else Some (False, st2)))"

text \<open>The new run of blocks, and whether the old map is copied there; no run is \<open>0\<close>.\<close>

definition move_map :: "MountEnv \<Rightarrow> nat \<Rightarrow> nat \<Rightarrow> MountState \<Rightarrow> (nat \<times> bool \<times> MountState) option" where
  "move_map env first stored st =
     (let k = in_map_count (io_integrity (mo_io st))
      in if \<not> me_page env then Some (0, False, st)
         else case alloc_map env k st of
                None \<Rightarrow> None
              | Some (None, st1) \<Rightarrow> Some (0, False, st1)
              | Some (Some start, st1) \<Rightarrow>
                  if start = 0 then Some (0, False, st1)
                  else map_option (\<lambda>(moved, io). (start, moved, st1\<lparr>mo_io := io\<rparr>))
                         (copy_map (me_io env) first stored start [0..<k] (mo_io st1)))"

text \<open>The ledger takes the new place, or the room is given back.\<close>

definition enter_map :: "MountEnv \<Rightarrow> nat \<Rightarrow> MountState \<Rightarrow> (nat \<times> bool \<times> MountState) option" where
  "enter_map env start st =
     (let k = in_map_count (io_integrity (mo_io st)); was_block = sb_map_block st; was_count = sb_map_count st
      in case write_ledger env (set_map_place start k st) of
           None \<Rightarrow> None
         | Some (err, st1) \<Rightarrow>
             if err = OK then Some (start, True, st1)
             else map_option (\<lambda>st2. (0, False, st2)) (free_map env start k (set_map_place was_block was_count st1)))"

definition grow_map :: "MountEnv \<Rightarrow> nat \<Rightarrow> nat \<Rightarrow> MountState \<Rightarrow> MountState option" where
  "grow_map env first stored st =
     (case move_map env first stored st of
        None \<Rightarrow> None
      | Some (start, moved, st1) \<Rightarrow>
          (case (if moved then enter_map env start st1 else Some (start, False, st1)) of
             None \<Rightarrow> None
           | Some (start', moved', st2) \<Rightarrow>
               if moved' then map_option (on_integrity (\<lambda>it. it\<lparr>in_map_first_block := start'\<rparr>)) (free_map env first stored st2)
               else map_option (on_integrity (\<lambda>it. it\<lparr>in_map_count := stored, in_map_entries := u32_wrap (stored * ENTRIES_PER_BLOCK)\<rparr>))
                      (if start' \<noteq> 0 then free_map env start' (in_map_count (io_integrity (mo_io st2))) st2 else Some st2)))"

text \<open>The bytes of "integrity".\<close>

definition integrity_key :: bytes where
  "integrity_key = [105, 110, 116, 101, 103, 114, 105, 116, 121]"

definition finish_init :: "MountEnv \<Rightarrow> MountState \<Rightarrow> (error_t \<times> MountState) option" where
  "finish_init env st =
     (case mo_registry st of
        None \<Rightarrow> Some (OK, on_integrity (\<lambda>it. it\<lparr>in_initialized := True\<rparr>) st)
      | Some reg \<Rightarrow>
          map_option (\<lambda>(tag, reg'). (OK, on_integrity (\<lambda>it. it\<lparr>in_integrity_tag := tag, in_initialized := True\<rparr>) (st\<lparr>mo_registry := Some reg'\<rparr>)))
            (tag_registry_intern (me_intern env) reg integrity_key None))"

definition IntegrityInit :: "MountEnv \<Rightarrow> MountState \<Rightarrow> (error_t \<times> MountState) option" where
  "IntegrityInit env st =
     (if in_initialized (io_integrity (mo_io st)) then Some (ERR_ALREADY_INITIALIZED, st)
      else if ss_data_blocks (mo_space st) = 0 then Some (ERR_NOT_INITIALIZED, st)
      else case BoxHashInit (Some (take 16 (mo_uuid st))) of
        None \<Rightarrow> None
      | Some ctx \<Rightarrow>
          let st1 = on_integrity (start_map (ss_data_blocks (mo_space st)) ctx) st;
              first = sb_map_block st1
          in if first = 0
             then case lay_fresh_map env st1 of
                    None \<Rightarrow> None
                  | Some (laid, st2) \<Rightarrow> if laid then finish_init env st2 else Some (ERR_NO_MEMORY, st2)
             else
               let st2 = on_integrity (\<lambda>it. it\<lparr>in_map_first_block := first\<rparr>) st1;
                   stored = sb_map_count st2
               in case (if stored \<noteq> 0 \<and> stored < in_map_count (io_integrity (mo_io st2)) then grow_map env first stored st2 else Some st2) of
                    None \<Rightarrow> None
                  | Some st3 \<Rightarrow> finish_init env st3)"

text \<open>The blocks of the map in the bitmap a check of the volume computes.\<close>

definition IntegrityMarkMapBlocks :: "MountState \<Rightarrow> nat \<Rightarrow> bytes \<Rightarrow> bytes option" where
  "IntegrityMarkMapBlocks st total_blocks computed_bm =
     (if sb_map_block st = 0 then Some computed_bm
      else fold (\<lambda>i bm. Option.bind bm (\<lambda>bm. let b = u32_wrap (sb_map_block st + i)
                                             in if b < total_blocks then bitmap_set_bit bm b else Some bm))
             [0..<sb_map_count st] (Some computed_bm))"

section \<open>Down and up again\<close>

lemma clean_recorded:
  assumes "imap_ok it" "synced it disk" "\<forall>s<MAP_CACHE_SLOTS. slot_clean it s" "b div ENTRIES_PER_BLOCK \<noteq> SLOT_EMPTY"
  shows "recorded it disk b = map_block_entries (disk (in_map_first_block it + b div ENTRIES_PER_BLOCK)) ! (b mod ENTRIES_PER_BLOCK)"
proof (cases "slot_of (in_cache it) (b div ENTRIES_PER_BLOCK)")
  case (Some s)
  have "s < MAP_CACHE_SLOTS" "ms_map_idx (in_cache it ! s) = b div ENTRIES_PER_BLOCK" using slot_of_Some [OF Some] by simp_all
  then show ?thesis using assms Some by (auto simp: recorded_def synced_def slot_clean_def)
qed (simp add: recorded_def)

text \<open>A map whose cache is empty has on record what the volume holds.\<close>

definition empty_cache :: "IntegrityState \<Rightarrow> bool" where
  "empty_cache it \<longleftrightarrow> length (in_cache it) = MAP_CACHE_SLOTS \<and> (\<forall>s<MAP_CACHE_SLOTS. ms_map_idx (in_cache it ! s) = SLOT_EMPTY)"

lemma empty_cache_record:
  assumes "empty_cache it"
  shows "synced it disk" "b div ENTRIES_PER_BLOCK \<noteq> SLOT_EMPTY \<Longrightarrow>
    recorded it disk b = map_block_entries (disk (in_map_first_block it + b div ENTRIES_PER_BLOCK)) ! (b mod ENTRIES_PER_BLOCK)"
proof -
  show "synced it disk" using assms by (simp add: empty_cache_def synced_def)
  assume ne: "b div ENTRIES_PER_BLOCK \<noteq> SLOT_EMPTY"
  have "slot_of (in_cache it) (b div ENTRIES_PER_BLOCK) = None" unfolding slot_of_None using assms ne by (auto simp: empty_cache_def)
  then show "recorded it disk b = map_block_entries (disk (in_map_first_block it + b div ENTRIES_PER_BLOCK)) ! (b mod ENTRIES_PER_BLOCK)"
    by (simp add: recorded_def)
qed

lemma empty_cache_ok:
  assumes "empty_cache it" "in_map_first_block it + in_map_count it < 2 ^ 32 - 1" "in_map_first_block it \<noteq> 0"
    "in_map_entries it \<le> in_map_count it * ENTRIES_PER_BLOCK"
  shows "imap_ok it"
  using assms by (simp add: imap_ok_def empty_cache_def)

text \<open>The registry, where there is one, is well formed; interning then never goes wrong.\<close>

definition registry_fine :: "MountState \<Rightarrow> bool" where
  "registry_fine st \<longleftrightarrow> (\<forall>reg. mo_registry st = Some reg \<longrightarrow> reg_ok reg)"

definition up :: "nat \<Rightarrow> IntegrityState \<Rightarrow> IntegrityState" where
  "up tag it = it\<lparr>in_integrity_tag := tag, in_initialized := True\<rparr>"

lemma up_simps [simp]:
  "in_map_entries (up tag it) = in_map_entries it" "in_map_count (up tag it) = in_map_count it" "in_ctx (up tag it) = in_ctx it"
  "in_map_first_block (up tag it) = in_map_first_block it" "in_initialized (up tag it)" "in_cache (up tag it) = in_cache it"
  by (simp_all add: up_def)

lemma finish_init_ok:
  assumes "registry_fine st"
  shows "\<exists>tag reg. finish_init env st = Some (OK, on_integrity (up tag) (st\<lparr>mo_registry := reg\<rparr>))"
proof (cases "mo_registry st")
  case None
  have "on_integrity (\<lambda>it. it\<lparr>in_initialized := True\<rparr>) st = on_integrity (up (in_integrity_tag (io_integrity (mo_io st)))) (st\<lparr>mo_registry := None\<rparr>)"
    using None by (simp add: on_integrity_def up_def)
  then show ?thesis using None by (auto simp: finish_init_def)
next
  case (Some reg)
  obtain tag reg' where "tag_registry_intern (me_intern env) reg integrity_key None = Some (tag, reg')"
    using intern_ok [of reg "me_intern env" integrity_key None] assms Some by (auto simp: registry_fine_def tag_registry_intern_def)
  then show ?thesis using Some by (auto simp: finish_init_def up_def on_integrity_def)
qed

text \<open>The map of a volume that is back up.\<close>

lemma io_with_map:
  assumes pl: "plain io" and it: "empty_cache it" "in_map_first_block it + in_map_count it < 2 ^ 32 - 1" "in_map_first_block it \<noteq> 0"
    "in_map_entries it \<le> in_map_count it * ENTRIES_PER_BLOCK"
  shows "sound (io\<lparr>io_integrity := it\<rparr>)" "tracked (io\<lparr>io_integrity := it\<rparr>)"
    "covered it b \<Longrightarrow> hash_of (io\<lparr>io_integrity := it\<rparr>) b =
       map_block_entries (on_disk io (in_map_first_block it + b div ENTRIES_PER_BLOCK)) ! (b mod ENTRIES_PER_BLOCK)"
proof -
  have ok: "imap_ok it" by (rule empty_cache_ok [OF it])
  then show "sound (io\<lparr>io_integrity := it\<rparr>)" using pl by (simp add: sound_def)
  show "tracked (io\<lparr>io_integrity := it\<rparr>)" using empty_cache_record(1) [OF it(1)] by (simp add: tracked_def)
  show "hash_of (io\<lparr>io_integrity := it\<rparr>) b =
      map_block_entries (on_disk io (in_map_first_block it + b div ENTRIES_PER_BLOCK)) ! (b mod ENTRIES_PER_BLOCK)" if "covered it b"
    using empty_cache_record(2) [OF it(1)] covered_idx [OF ok that] by (simp add: hash_of_def)
qed

definition down_map :: "IntegrityState \<Rightarrow> IntegrityState" where
  "down_map it = it\<lparr>in_initialized := False, in_cache := map (\<lambda>slot. slot\<lparr>ms_map_idx := SLOT_EMPTY\<rparr>) (in_cache it),
     in_map_first_block := 0, in_map_count := 0, in_map_entries := 0\<rparr>"

lemma shutdown_works:
  assumes h: "healthy io" and env: "env_works env"
  shows "\<exists>io1. IntegrityShutdown env io = Some (io1\<lparr>io_integrity := down_map (io_integrity io1)\<rparr>) \<and> keeps io io1 \<and> \<not> io_medium_left io1 \<and>
    in_errors (io_integrity io1) = in_errors (io_integrity io) \<and>
    (\<forall>b. covered (io_integrity io) b \<longrightarrow> hash_of io b =
       map_block_entries (on_disk io1 (in_map_first_block (io_integrity io) + b div ENTRIES_PER_BLOCK)) ! (b mod ENTRIES_PER_BLOCK))"
proof -
  let ?it = "io_integrity io"
  have so: "sound io" "tracked io" "in_initialized ?it" "\<not> io_medium_left io" "imap_ok ?it" using h by (simp_all add: healthy_def sound_def)
  obtain io1 where f: "IntegrityFlush env io = Some io1" "keeps io io1" "in_errors (io_integrity io1) = in_errors ?it"
    "\<not> io_medium_left io1" "\<forall>s<MAP_CACHE_SLOTS. slot_clean (io_integrity io1) s"
    using integrity_flush_keeps [OF so(1), of env] so(3,4) env by auto
  have k: "imap_ok (io_integrity io1)" "synced (io_integrity io1) (on_disk io1)" "in_map_first_block (io_integrity io1) = in_map_first_block ?it"
    using f(2) so(2) by (simp_all add: keeps_def sound_def tracked_def same_map_def)
  have "hash_of io b = map_block_entries (on_disk io1 (in_map_first_block ?it + b div ENTRIES_PER_BLOCK)) ! (b mod ENTRIES_PER_BLOCK)"
    if "covered ?it b" for b
  proof -
    have ne: "b div ENTRIES_PER_BLOCK \<noteq> SLOT_EMPTY" using covered_idx [OF so(5) that] by simp
    then have "hash_of io b = hash_of io1 b" using f(2) so(2) by (simp add: keeps_def)
    then show ?thesis using clean_recorded [OF k(1,2) f(5) ne] k(3) by (simp add: hash_of_def)
  qed
  moreover have "IntegrityShutdown env io = Some (io1\<lparr>io_integrity := down_map (io_integrity io1)\<rparr>)"
    using f(1) so(3) by (simp add: IntegrityShutdown_def down_map_def)
  ultimately show ?thesis using f(2-4) by blast
qed

text \<open>The ledger names the map of a volume, which has an entry for every data block.\<close>

definition map_entered :: "MountState \<Rightarrow> bool" where
  "map_entered st \<longleftrightarrow> (let it = io_integrity (mo_io st)
     in sb_map_block st = in_map_first_block it \<and> sb_map_count st = in_map_count it \<and> ss_data_blocks (mo_space st) = in_map_entries it \<and>
        0 < in_map_entries it \<and> in_map_entries it + 511 < 2 ^ 32 \<and> in_map_count it = (in_map_entries it + 511) div ENTRIES_PER_BLOCK \<and>
        BoxHashInit (Some (take 16 (mo_uuid st))) = Some (in_ctx it))"

text \<open>
  C22. Shutting the integrity map down and bringing it up again, as at an unmount and the next mount of the
  same volume, loses nothing: both succeed when the accesses work, the map covers the same blocks, every hash
  on record is what it was, and the contents of the blocks outside the map are as before.
\<close>

theorem integrity_survives_remount:
  assumes "healthy (mo_io st)" "map_entered st" "registry_fine st" "env_works io_env"
  shows "\<exists>io st'. IntegrityShutdown io_env (mo_io st) = Some io \<and> IntegrityInit env (st\<lparr>mo_io := io\<rparr>) = Some (OK, st') \<and>
    healthy (mo_io st') \<and> covered (io_integrity (mo_io st')) = covered (io_integrity (mo_io st)) \<and>
    (\<forall>b. covered (io_integrity (mo_io st)) b \<longrightarrow>
       hash_of (mo_io st') b = hash_of (mo_io st) b \<and> on_disk (mo_io st') b = on_disk (mo_io st) b)"
proof -
  let ?it = "io_integrity (mo_io st)"
  have so: "imap_ok ?it" "in_initialized ?it" "honest (mo_io st)" using assms(1) by (simp_all add: healthy_def sound_def)
  obtain io1 where d: "IntegrityShutdown io_env (mo_io st) = Some (io1\<lparr>io_integrity := down_map (io_integrity io1)\<rparr>)" "keeps (mo_io st) io1"
    "\<not> io_medium_left io1"
    "\<forall>b. covered ?it b \<longrightarrow> hash_of (mo_io st) b =
       map_block_entries (on_disk io1 (in_map_first_block ?it + b div ENTRIES_PER_BLOCK)) ! (b mod ENTRIES_PER_BLOCK)"
    using shutdown_works [OF assms(1,4)] by blast
  have k: "plain io1" "imap_ok (io_integrity io1)" "same_map ?it (io_integrity io1)" using d(2) by (simp_all add: keeps_def sound_def)
  let ?it1 = "down_map (io_integrity io1)" let ?st1 = "st\<lparr>mo_io := io1\<lparr>io_integrity := ?it1\<rparr>\<rparr>"
  define it2 where "it2 = (start_map (in_map_entries ?it) (in_ctx ?it) ?it1)\<lparr>in_map_first_block := in_map_first_block ?it\<rparr>"
  let ?st2 = "st\<lparr>mo_io := io1\<lparr>io_integrity := it2\<rparr>\<rparr>"
  have e: "sb_map_block st = in_map_first_block ?it" "sb_map_count st = in_map_count ?it" "ss_data_blocks (mo_space st) = in_map_entries ?it"
    "0 < in_map_entries ?it" "in_map_entries ?it + 511 < 2 ^ 32" "in_map_count ?it = (in_map_entries ?it + 511) div ENTRIES_PER_BLOCK"
    "BoxHashInit (Some (take 16 (mo_uuid st))) = Some (in_ctx ?it)" using assms(2) by (simp_all add: map_entered_def Let_def)
  have first: "in_map_first_block ?it \<noteq> 0" using so(1,2) by (simp add: imap_ok_def)
  have it2: "in_map_entries it2 = in_map_entries ?it" "in_map_count it2 = in_map_count ?it" "in_map_first_block it2 = in_map_first_block ?it"
    "in_ctx it2 = in_ctx ?it" "empty_cache it2"
    using e(5,6) cache_slots [OF k(2)]
    by (simp_all add: it2_def start_map_def down_map_def empty_cache_def ENTRIES_PER_BLOCK_def)
  have init: "IntegrityInit env ?st1 = finish_init env ?st2"
    using e first it2(2)
    by (simp add: IntegrityInit_def Let_def on_integrity_def sb_map_block_def sb_map_count_def it2_def) (simp add: down_map_def start_map_def)
  have "registry_fine ?st2" using assms(3) by (simp add: registry_fine_def)
  then obtain tag reg where fin: "IntegrityInit env ?st1 = Some (OK, on_integrity (up tag) (?st2\<lparr>mo_registry := reg\<rparr>))"
    using finish_init_ok [of ?st2 env] init by metis
  let ?st' = "on_integrity (up tag) (?st2\<lparr>mo_registry := reg\<rparr>)" and ?it' = "up tag it2"
  have io': "mo_io ?st' = io1\<lparr>io_integrity := ?it'\<rparr>" by (simp add: on_integrity_def)
  have it': "empty_cache ?it'" "in_map_first_block ?it' + in_map_count ?it' < 2 ^ 32 - 1" "in_map_first_block ?it' \<noteq> 0"
    "in_map_entries ?it' \<le> in_map_count ?it' * ENTRIES_PER_BLOCK"
  proof -
    have "in_map_first_block ?it + in_map_count ?it < 2 ^ 32 - 1" "in_map_entries ?it \<le> in_map_count ?it * ENTRIES_PER_BLOCK"
      using so(1) unfolding imap_ok_def by blast+
    then show "in_map_first_block ?it' + in_map_count ?it' < 2 ^ 32 - 1" "in_map_entries ?it' \<le> in_map_count ?it' * ENTRIES_PER_BLOCK"
      unfolding up_simps it2 by blast+
    show "empty_cache ?it'" using it2(5) by (simp add: empty_cache_def)
    show "in_map_first_block ?it' \<noteq> 0" unfolding up_simps it2 by (rule first)
  qed
  have "in_map_region ?it' = in_map_region ?it" unfolding in_map_region_def fun_eq_iff up_simps it2 by simp
  then have cov: "covered ?it' = covered ?it" using so(2) unfolding covered_def fun_eq_iff up_simps it2 by simp
  note m = io_with_map [OF k(1) it']
  have same: "hash_of (io1\<lparr>io_integrity := ?it'\<rparr>) b = hash_of (mo_io st) b" "on_disk io1 b = on_disk (mo_io st) b" if "covered ?it b" for b
  proof -
    have "in_map_first_block ?it' = in_map_first_block ?it" using it2(3) by simp
    then show "hash_of (io1\<lparr>io_integrity := ?it'\<rparr>) b = hash_of (mo_io st) b" using m(3) [of b] that d(4) unfolding cov by simp
    show "on_disk io1 b = on_disk (mo_io st) b" using d(2) that by (simp add: keeps_def covered_def)
  qed
  have hash: "block_hash ?it' = block_hash ?it" using it2(4) by (simp add: block_hash_def fun_eq_iff)
  have "honest (io1\<lparr>io_integrity := ?it'\<rparr>)"
    using so(3) same unfolding honest_def clean_def by (simp add: cov hash)
  then have "healthy (io1\<lparr>io_integrity := ?it'\<rparr>)" using m(1,2) d(3) by (simp add: healthy_def)
  then show ?thesis using d(1) fin same
    by (intro exI [of _ "io1\<lparr>io_integrity := ?it1\<rparr>"] exI [of _ ?st'] conjI) (simp_all add: io' cov)
qed

lemma box_hash_init_total: "\<exists>ctx. BoxHashInit seed = Some ctx"
proof (cases seed)
  case (Some s)
  obtain h where "WyHash64 s (SECRET ! 0) = Some h" using WyHash64_total by blast
  then show ?thesis using Some by (simp add: BoxHashInit_def Let_def)
qed (simp add: BoxHashInit_def Let_def)

definition mount_env :: MountEnv where
  "mount_env = \<lparr>me_io = good_env, me_door = True, me_now = 9, me_page = True, me_node = (\<lambda>_. True), me_ledger_write = (\<lambda>_. True),
     me_intern = \<lparr>im_by_id = (\<lambda>_. True), im_entry = True, im_key = True, im_value = True, im_node = True, im_group = True,
       im_group_key = True, im_group_ids = True, im_group_grow = True\<rparr>\<rparr>"

definition mounted :: MountState where
  "mounted = \<lparr>mo_io = one_disk, mo_space = small_space\<lparr>ss_data_blocks := 512\<rparr>, mo_dedup = one_block,
     mo_ledger = fresh_state\<lparr>ls_ledger := (ls_ledger fresh_state)\<lparr>vl_integrity_map_block := 1, vl_integrity_map_blocks := 1\<rparr>\<rparr>,
     mo_state_area = (\<lambda>_. []), mo_registry = None, mo_uuid = replicate 16 0\<rparr>"

theorem integrity_survives_remount_witness:
  "\<exists>io st'. IntegrityShutdown good_env (mo_io mounted) = Some io \<and> IntegrityInit mount_env (mounted\<lparr>mo_io := io\<rparr>) = Some (OK, st') \<and>
     healthy (mo_io st') \<and> hash_of (mo_io st') 3 = hash_of (mo_io mounted) 3"
proof -
  have io: "mo_io mounted = one_disk" by (simp add: mounted_def)
  have "BoxHashInit (Some (replicate 16 0)) = Some (in_ctx fresh_map)" using box_hash_init_total by (force simp: fresh_map_def)
  then have e: "map_entered mounted"
    by (simp add: map_entered_def io one_disk_healthy(2)) (simp add: mounted_def sb_map_block_def sb_map_count_def fresh_map_def ENTRIES_PER_BLOCK_def)
  have r: "registry_fine mounted" by (simp add: registry_fine_def mounted_def)
  have c: "covered (io_integrity (mo_io mounted)) 3" by (simp add: io one_disk_healthy(2) fresh_map_ok)
  show ?thesis using integrity_survives_remount [OF _ e r good_env_works, of mount_env] one_disk_healthy(1) c by (auto simp: io)
qed


section \<open>Moving to a bigger place\<close>

text \<open>While the map is down, blocks are read and written as they are.\<close>

lemma read_down:
  assumes "plain io" "\<not> in_initialized (io_integrity io)" "env_works env" "\<not> io_medium_left io"
  shows "tagfs_read_block env block io = Some (Inr (on_disk io block), io)"
proof -
  have "not_mapped (io_integrity io) block" using assms(2) by (simp add: not_mapped_def)
  then have "read_block env block io = Some (Some (on_disk io block), io)"
    using read_map_block_plain [OF assms(1), of env block] assms(3,4) by (auto simp: read_block_map env_works_def)
  then show ?thesis by (simp add: tagfs_read_block_def)
qed

lemma write_down:
  assumes "plain io" "\<not> in_initialized (io_integrity io)" "env_works env" "\<not> io_medium_left io"
  shows "\<exists>io'. tagfs_write_block env block data io = Some (OK, io') \<and> plain io' \<and> io_integrity io' = io_integrity io \<and>
    \<not> io_medium_left io' \<and> on_disk io' = (on_disk io)(block := data)"
proof -
  have "not_mapped (io_integrity io) block" using assms(2) by (simp add: not_mapped_def)
  then obtain io' where "write_block env block data io = Some (True, io')" "plain io'" "io_integrity io' = io_integrity io"
    "\<not> io_medium_left io'" "on_disk io' = (on_disk io)(block := data)"
    using write_map_block_plain [OF assms(1), of env block data] assms(3,4) by (auto simp: write_block_map)
  then show ?thesis by (simp add: tagfs_write_block_def)
qed

text \<open>What the copied map is: the old one, continued by zeros.\<close>

definition moved_block :: "(nat \<Rightarrow> bytes) \<Rightarrow> nat \<Rightarrow> nat \<Rightarrow> nat \<Rightarrow> bytes" where
  "moved_block disk first stored i = (if i < stored then disk (first + i) else zero_block)"

lemma copy_map_works:
  assumes "plain io" "\<not> in_initialized (io_integrity io)" "env_works env" "\<not> io_medium_left io"
    "\<forall>i\<in>set is. start + i < 2 ^ 32" "first + stored < 2 ^ 32" "\<forall>i\<in>set is. \<forall>j. j < stored \<longrightarrow> start + i \<noteq> first + j"
  shows "\<exists>io'. copy_map env first stored start is io = Some (True, io') \<and> plain io' \<and> io_integrity io' = io_integrity io \<and>
    \<not> io_medium_left io' \<and>
    (\<forall>b. on_disk io' b = (if \<exists>i\<in>set is. b = start + i then moved_block (on_disk io) first stored (b - start) else on_disk io b))"
  using assms
proof (induction "is" arbitrary: io)
  case (Cons i rest)
  let ?page = "moved_block (on_disk io) first stored i"
  have rd: "(if i < stored then tagfs_read_block env (u32_wrap (first + i)) io else Some (Inr zero_block, io)) = Some (Inr ?page, io)"
    using read_down [OF Cons.prems(1-4), of "first + i"] Cons.prems(6) by (simp add: moved_block_def)
  obtain io1 where w: "tagfs_write_block env (start + i) ?page io = Some (OK, io1)" "plain io1" "io_integrity io1 = io_integrity io"
    "\<not> io_medium_left io1" "on_disk io1 = (on_disk io)(start + i := ?page)"
    using write_down [OF Cons.prems(1-4)] by blast
  have same: "moved_block (on_disk io1) first stored j = moved_block (on_disk io) first stored j" for j
    using w(5) Cons.prems(7) by (auto simp: moved_block_def)
  have e: "copy_map env first stored start (i # rest) io = copy_map env first stored start rest io1"
    using rd w(1) Cons.prems(5) by simp
  obtain io' where r: "copy_map env first stored start rest io1 = Some (True, io')" "plain io'" "io_integrity io' = io_integrity io1"
    "\<not> io_medium_left io'"
    "\<forall>b. on_disk io' b = (if \<exists>i\<in>set rest. b = start + i then moved_block (on_disk io1) first stored (b - start) else on_disk io1 b)"
    using Cons.IH [of io1] Cons.prems w by auto
  have "on_disk io' b = (if \<exists>j\<in>set (i # rest). b = start + j then moved_block (on_disk io) first stored (b - start) else on_disk io b)" for b
    using r(5) same w(5) by auto
  then show ?case unfolding e using r(1-4) w(3) by auto
qed simp

lemma copy_map_all:
  assumes "plain io" "\<not> in_initialized (io_integrity io)" "env_works env" "\<not> io_medium_left io"
    "start + k < 2 ^ 32" "first + stored < 2 ^ 32" "{start..<start + k} \<inter> {first..<first + stored} = {}"
  shows "\<exists>io'. copy_map env first stored start [0..<k] io = Some (True, io') \<and> plain io' \<and> io_integrity io' = io_integrity io \<and>
    \<not> io_medium_left io' \<and> (\<forall>i<k. on_disk io' (start + i) = moved_block (on_disk io) first stored i) \<and>
    (\<forall>b. b \<notin> {start..<start + k} \<longrightarrow> on_disk io' b = on_disk io b)"
proof -
  have d: "\<forall>i\<in>set [0..<k]. \<forall>j. j < stored \<longrightarrow> start + i \<noteq> first + j"
  proof (intro ballI allI impI notI)
    fix i j assume ij: "i \<in> set [0..<k]" "j < stored" "start + i = first + j"
    then have "start + i \<in> {start..<start + k} \<inter> {first..<first + stored}" by auto
    then show False using assms(7) by simp
  qed
  obtain io' where c: "copy_map env first stored start [0..<k] io = Some (True, io')" "plain io'" "io_integrity io' = io_integrity io"
    "\<not> io_medium_left io'"
    "\<forall>b. on_disk io' b = (if \<exists>i\<in>set [0..<k]. b = start + i then moved_block (on_disk io) first stored (b - start) else on_disk io b)"
    using copy_map_works [OF assms(1-4) _ assms(6) d] assms(5) by auto
  have "on_disk io' b = on_disk io b" if "b \<notin> {start..<start + k}" for b using c(5) that by auto
  moreover have "on_disk io' (start + i) = moved_block (on_disk io) first stored i" if "i < k" for i using c(5) that by auto
  ultimately show ?thesis using c(1-4) by blast
qed

text \<open>The ledger takes the new place.\<close>

lemma write_ledger_works:
  assumes "2 \<le> ls_state_blocks (mo_ledger st)" "length (ls_use (mo_ledger st)) \<le> LEDGER_USE_MAX" "\<forall>s. me_ledger_write env s"
  shows "\<exists>led area. write_ledger env st = Some (OK, st\<lparr>mo_state_area := area, mo_ledger := led\<rparr>) \<and>
    sb_map_block (st\<lparr>mo_ledger := led\<rparr>) = sb_map_block st \<and> sb_map_count (st\<lparr>mo_ledger := led\<rparr>) = sb_map_count st"
proof -
  obtain crc buf where s: "ledger_sector (me_now env) (mo_ledger st) = Some ((stamped (me_now env) (mo_ledger st))\<lparr>vl_crc32 := crc\<rparr>, buf)"
    using ledger_sector_image [OF assms(2)] by blast
  then show ?thesis using assms(1,3)
    by (auto simp: write_ledger_def tagfs_write_ledger_def ledger_write_locked_def VOLUME_LEDGER_COPIES_def Let_def
        sb_map_block_def sb_map_count_def stamped_def)
qed


text \<open>Every outcome that is a parameter is good.\<close>

definition mount_works :: "MountEnv \<Rightarrow> bool" where
  "mount_works env \<longleftrightarrow> me_door env \<and> me_page env \<and> me_node env = (\<lambda>_. True) \<and> (\<forall>s. me_ledger_write env s) \<and> env_works (me_io env)"

text \<open>A volume whose map is down, with everything else in order.\<close>

definition ready :: "MountState \<Rightarrow> bool" where
  "ready st \<longleftrightarrow> plain (mo_io st) \<and> \<not> in_initialized (io_integrity (mo_io st)) \<and> \<not> io_medium_left (mo_io st) \<and>
     length (in_cache (io_integrity (mo_io st))) = MAP_CACHE_SLOTS \<and> space_whole (mo_space st) \<and> dedup_ok (mo_dedup st) \<and>
     2 \<le> ls_state_blocks (mo_ledger st) \<and> length (ls_use (mo_ledger st)) \<le> LEDGER_USE_MAX \<and> registry_fine st"

lemma alloc_map_works:
  assumes w: "space_whole (mo_space st)" and d: "me_door env" and k: "0 < k" and free: "{s..<s + k} \<subseteq> free_set (mo_space st)"
  shows "\<exists>start sp. alloc_map env k st = Some (Some start, st\<lparr>mo_space := sp, mo_ledger := count_free sp (mo_ledger st)\<rparr>) \<and> {start..<start + k} \<subseteq> free_set (mo_space st) \<and>
    space_whole sp \<and> bb_total_blocks (ss_block_bitmap sp) = bb_total_blocks (ss_block_bitmap (mo_space st)) \<and>
    free_set sp = free_set (mo_space st) - {start..<start + k}"
proof -
  obtain r sp where r: "tagfs_alloc_blocks_internal k (mo_space st) = Some (r, sp)" "space_whole sp"
    "bb_total_blocks (ss_block_bitmap sp) = bb_total_blocks (ss_block_bitmap (mo_space st))"
    "lowest_run (free_set (mo_space st)) k r" "free_set sp = free_set (mo_space st) - run_taken r k"
    using alloc_whole [OF w k] by metis
  obtain start where start: "r = Some start" using r(4) free by (cases r) (auto simp: lowest_run_def)
  then show ?thesis using r d k by (auto simp: alloc_map_def tagfs_alloc_blocks_def tagfs_alloc_blocks_inside_def lowest_run_def run_taken_def)
qed

lemma free_map_works:
  assumes w: "space_whole (mo_space st)" "dedup_ok (mo_dedup st)" and e: "me_door env" "me_node env = (\<lambda>_. True)"
    and r: "start + k \<le> bb_total_blocks (ss_block_bitmap (mo_space st))" "{start..<start + k} \<inter> free_set (mo_space st) = {}"
  shows "\<exists>sp dd. free_map env start k st = Some (st\<lparr>mo_space := sp, mo_dedup := dd, mo_ledger := count_free sp (mo_ledger st)\<rparr>) \<and> space_whole sp \<and> dedup_ok dd \<and>
    free_set sp = free_set (mo_space st) \<union> reclaimable (mo_dedup st) {start..<start + k}"
proof -
  note rel = free_blocks_released [OF w r, of "me_now env"]
  obtain sp dd where i: "tagfs_free_blocks_internal (me_now env) (\<lambda>_. True) start k (mo_space st, mo_dedup st) = Some (sp, dd)"
    using rel by (auto simp: released_def split: option.splits)
  then have "tagfs_free_blocks (me_door env) (me_now env) (me_node env) start k (mo_space st, mo_dedup st) = Some (0, sp, dd)"
    using e by (auto simp: tagfs_free_blocks_def tagfs_free_blocks_inside_def tagfs_free_blocks_internal_def split: if_splits)
  then show ?thesis using rel i by (auto simp: free_map_def released_def)
qed

lemma set_map_place_sb:
  assumes "block < 2 ^ 32" "k < 2 ^ 32"
  shows "sb_map_block (set_map_place block k st) = block" "sb_map_count (set_map_place block k st) = k"
  using assms by (simp_all add: sb_map_block_def sb_map_count_def set_map_place_def unat_of_nat)

text \<open>The whole move.\<close>

lemma grow_map_works:
  assumes env: "mount_works env" and re: "ready st" and k: "k = in_map_count (io_integrity (mo_io st))" "0 < k"
    and tot: "bb_total_blocks (ss_block_bitmap (mo_space st)) < 2 ^ 32 - 1" "first + stored \<le> bb_total_blocks (ss_block_bitmap (mo_space st))"
    and old: "{first..<first + stored} \<inter> free_set (mo_space st) = {}" and free: "{s..<s + k} \<subseteq> free_set (mo_space st)" "0 \<notin> free_set (mo_space st)"
  shows "\<exists>start io sp dd led area. grow_map env first stored st =
      Some (st\<lparr>mo_io := io\<lparr>io_integrity := (io_integrity (mo_io st))\<lparr>in_map_first_block := start\<rparr>\<rparr>, mo_space := sp, mo_dedup := dd,
        mo_ledger := led, mo_state_area := area\<rparr>) \<and>
    {start..<start + k} \<subseteq> free_set (mo_space st) \<and> plain io \<and> \<not> io_medium_left io \<and>
    space_whole sp \<and> dedup_ok dd \<and> free_set sp = free_set (mo_space st) - {start..<start + k} \<union> reclaimable (mo_dedup st) {first..<first + stored} \<and>
    sb_map_block (st\<lparr>mo_ledger := led\<rparr>) = start \<and> sb_map_count (st\<lparr>mo_ledger := led\<rparr>) = k \<and>
    (\<forall>i<k. on_disk io (start + i) = moved_block (on_disk (mo_io st)) first stored i) \<and>
    (\<forall>b. b \<notin> {start..<start + k} \<longrightarrow> on_disk io b = on_disk (mo_io st) b)"
proof -
  have e: "me_door env" "me_page env" "me_node env = (\<lambda>_. True)" "\<forall>s. me_ledger_write env s" "env_works (me_io env)"
    using env by (simp_all add: mount_works_def)
  have r: "plain (mo_io st)" "\<not> in_initialized (io_integrity (mo_io st))" "\<not> io_medium_left (mo_io st)" "space_whole (mo_space st)"
    "dedup_ok (mo_dedup st)" "2 \<le> ls_state_blocks (mo_ledger st)" "length (ls_use (mo_ledger st)) \<le> LEDGER_USE_MAX"
    using re by (simp_all add: ready_def)
  obtain start sp1 where al: "alloc_map env k st = Some (Some start, st\<lparr>mo_space := sp1, mo_ledger := count_free sp1 (mo_ledger st)\<rparr>)" "{start..<start + k} \<subseteq> free_set (mo_space st)"
    "space_whole sp1" "bb_total_blocks (ss_block_bitmap sp1) = bb_total_blocks (ss_block_bitmap (mo_space st))"
    "free_set sp1 = free_set (mo_space st) - {start..<start + k}"
    using alloc_map_works [OF r(4) e(1) k(2) free(1)] by blast
  have "start \<in> {start..<start + k}" "start + k - 1 \<in> {start..<start + k}" using k(2) by auto
  then have "start \<in> free_set (mo_space st)" "start + k - 1 \<in> free_set (mo_space st)" using al(2) by blast+
  then have start: "start \<noteq> 0" "start + k < 2 ^ 32" using free(2) tot(1) by (auto simp: free_set_def intro: gr0I)
  have dis: "{start..<start + k} \<inter> {first..<first + stored} = {}" using al(2) old by blast
  obtain io where cp: "copy_map (me_io env) first stored start [0..<k] (mo_io st) = Some (True, io)" "plain io"
    "io_integrity io = io_integrity (mo_io st)" "\<not> io_medium_left io"
    "\<forall>i<k. on_disk io (start + i) = moved_block (on_disk (mo_io st)) first stored i"
    "\<forall>b. b \<notin> {start..<start + k} \<longrightarrow> on_disk io b = on_disk (mo_io st) b"
    using copy_map_all [OF r(1,2) e(5) r(3) start(2) _ dis] tot by auto
  let ?st2 = "st\<lparr>mo_space := sp1, mo_ledger := count_free sp1 (mo_ledger st), mo_io := io\<rparr>"
  have mv: "move_map env first stored st = Some (start, True, ?st2)" using e(2) al(1) start(1) cp(1) k(1) by (simp add: move_map_def Let_def)
  let ?st3 = "set_map_place start k ?st2"
  have l3: "2 \<le> ls_state_blocks (mo_ledger ?st3)" "length (ls_use (mo_ledger ?st3)) \<le> LEDGER_USE_MAX" using r(6,7) by (simp_all add: set_map_place_def count_free_def)
  obtain led area where wl: "write_ledger env ?st3 = Some (OK, ?st3\<lparr>mo_state_area := area, mo_ledger := led\<rparr>)"
    "sb_map_block (?st3\<lparr>mo_ledger := led\<rparr>) = start" "sb_map_count (?st3\<lparr>mo_ledger := led\<rparr>) = k"
    using write_ledger_works [OF l3 e(4)] set_map_place_sb [of start k ?st2] start(2) by auto
  let ?st4 = "?st2\<lparr>mo_state_area := area, mo_ledger := led\<rparr>"
  have st4: "?st3\<lparr>mo_state_area := area, mo_ledger := led\<rparr> = ?st4" by (simp add: set_map_place_def)
  have en: "enter_map env start ?st2 = Some (start, True, ?st4)"
    using wl(1) cp(3) unfolding st4 by (simp add: enter_map_def Let_def flip: k(1))
  have pre: "first + stored \<le> bb_total_blocks (ss_block_bitmap (mo_space ?st4))" "{first..<first + stored} \<inter> free_set (mo_space ?st4) = {}"
    using tot(2) al(4,5) old by auto
  have w4: "space_whole (mo_space ?st4)" "dedup_ok (mo_dedup ?st4)" using al(3) r(5) by simp_all
  obtain sp dd where fr: "free_map env first stored ?st4 = Some (?st4\<lparr>mo_space := sp, mo_dedup := dd, mo_ledger := count_free sp led\<rparr>)" "space_whole sp" "dedup_ok dd"
    "free_set sp = free_set (mo_space ?st4) \<union> reclaimable (mo_dedup ?st4) {first..<first + stored}"
    using free_map_works [OF w4 e(1,3) pre] by auto
  let ?st5 = "st\<lparr>mo_io := io\<lparr>io_integrity := (io_integrity (mo_io st))\<lparr>in_map_first_block := start\<rparr>\<rparr>, mo_space := sp, mo_dedup := dd,
        mo_ledger := count_free sp led, mo_state_area := area\<rparr>"
  have "grow_map env first stored st = Some ?st5"
    using mv en fr(1) cp(3) by (simp add: grow_map_def on_integrity_def)
  moreover have "free_set sp = free_set (mo_space st) - {start..<start + k} \<union> reclaimable (mo_dedup st) {first..<first + stored}"
    using fr(4) al(5) by simp
  moreover have "sb_map_block (st\<lparr>mo_ledger := count_free sp led\<rparr>) = start" "sb_map_count (st\<lparr>mo_ledger := count_free sp led\<rparr>) = k"
    using wl(2,3) by (simp_all add: sb_map_block_def sb_map_count_def count_free_def)
  ultimately show ?thesis using al(2) cp(2,4-6) fr(2,3) by blast
qed


lemma le_get_zero_block: "i < ENTRIES_PER_BLOCK \<Longrightarrow> map_block_entries zero_block ! i = 0"
  by (simp add: map_block_entries_def zero_block_def ENTRIES_PER_BLOCK_def le_get_zeros)

text \<open>
  C11. A map that is too small for its volume moves: when the volume has grown, its map of \<open>stored\<close> blocks is
  in blocks that are taken, there is a run of free blocks for the bigger map and every access works, then
  \<^verbatim>\<open>IntegrityInit\<close> succeeds and the map covers all data blocks. Every hash the old map had on record is on
  record in the new one, the other entries are empty; the new run is taken, the old one is free again as
  far as nothing shares its blocks; the ledger names the new place; and no block outside the new run
  changes.
\<close>

theorem integrity_map_grows:
  assumes "mount_works env" "ready st" "sb_map_block st = first" "first \<noteq> 0" "sb_map_count st = stored" "0 < stored"
    "k = (ss_data_blocks (mo_space st) + 511) div ENTRIES_PER_BLOCK" "stored < k" "ss_data_blocks (mo_space st) + 512 < 2 ^ 32"
    "first + stored \<le> ss_data_blocks (mo_space st)" "{first..<first + stored} \<inter> free_set (mo_space st) = {}"
    "{s..<s + k} \<subseteq> free_set (mo_space st)" "0 \<notin> free_set (mo_space st)"
  shows "\<exists>start st'. IntegrityInit env st = Some (OK, st') \<and> sound (mo_io st') \<and> tracked (mo_io st') \<and>
    sb_map_block st' = start \<and> sb_map_count st' = k \<and> {start..<start + k} \<subseteq> free_set (mo_space st) \<and>
    space_whole (mo_space st') \<and>
    free_set (mo_space st') = free_set (mo_space st) - {start..<start + k} \<union> reclaimable (mo_dedup st) {first..<first + stored} \<and>
    (\<forall>b. b \<notin> {start..<start + k} \<longrightarrow> on_disk (mo_io st') b = on_disk (mo_io st) b) \<and>
    (\<forall>b. b < ss_data_blocks (mo_space st) \<and> b \<notin> {start..<start + k} \<longrightarrow> covered (io_integrity (mo_io st')) b \<and>
       hash_of (mo_io st') b = (if b < stored * ENTRIES_PER_BLOCK
         then map_block_entries (on_disk (mo_io st) (first + b div ENTRIES_PER_BLOCK)) ! (b mod ENTRIES_PER_BLOCK) else 0))"
proof -
  let ?db = "ss_data_blocks (mo_space st)"
  obtain ctx where ctx: "BoxHashInit (Some (take 16 (mo_uuid st))) = Some ctx" using box_hash_init_total by blast
  define it2 where "it2 = (start_map ?db ctx (io_integrity (mo_io st)))\<lparr>in_map_first_block := first\<rparr>"
  let ?st2 = "st\<lparr>mo_io := (mo_io st)\<lparr>io_integrity := it2\<rparr>\<rparr>"
  have tot: "bb_total_blocks (ss_block_bitmap (mo_space st)) = ?db" using assms(2) by (simp add: ready_def space_whole_def space_ok_def)
  have it2: "in_map_count it2 = k" "in_map_entries it2 = ?db" "empty_cache it2" "\<not> in_initialized it2"
    using assms(2,7,9) by (simp_all add: it2_def start_map_def empty_cache_def ready_def ENTRIES_PER_BLOCK_def)
  have re: "ready ?st2" using assms(2) it2(3,4) by (simp add: ready_def empty_cache_def registry_fine_def)
  have k0: "0 < k" "0 < ?db" using assms(4,6,8,10) by simp_all
  have init: "IntegrityInit env st = Option.bind (grow_map env first stored ?st2) (finish_init env)"
    using assms(2-8) k0(2) ctx it2(1) by (simp add: IntegrityInit_def Let_def on_integrity_def ready_def sb_map_block_def sb_map_count_def it2_def
      split: option.splits)
  have bounds: "bb_total_blocks (ss_block_bitmap (mo_space ?st2)) < 2 ^ 32 - 1" "first + stored \<le> bb_total_blocks (ss_block_bitmap (mo_space ?st2))"
    "k = in_map_count (io_integrity (mo_io ?st2))" "{first..<first + stored} \<inter> free_set (mo_space ?st2) = {}"
    "{s..<s + k} \<subseteq> free_set (mo_space ?st2)" "0 \<notin> free_set (mo_space ?st2)"
    using assms(9-13) tot it2(1) by simp_all
  obtain start io sp dd led area where g: "grow_map env first stored ?st2 =
      Some (?st2\<lparr>mo_io := io\<lparr>io_integrity := (io_integrity (mo_io ?st2))\<lparr>in_map_first_block := start\<rparr>\<rparr>, mo_space := sp, mo_dedup := dd,
        mo_ledger := led, mo_state_area := area\<rparr>)"
    "{start..<start + k} \<subseteq> free_set (mo_space ?st2)" "plain io" "space_whole sp"
    "free_set sp = free_set (mo_space ?st2) - {start..<start + k} \<union> reclaimable (mo_dedup ?st2) {first..<first + stored}"
    "sb_map_block (?st2\<lparr>mo_ledger := led\<rparr>) = start" "sb_map_count (?st2\<lparr>mo_ledger := led\<rparr>) = k"
    "\<forall>i<k. on_disk io (start + i) = moved_block (on_disk (mo_io ?st2)) first stored i"
    "\<forall>b. b \<notin> {start..<start + k} \<longrightarrow> on_disk io b = on_disk (mo_io ?st2) b"
    using grow_map_works [OF assms(1) re bounds(3) k0(1) bounds(1,2,4-6)] by blast
  let ?it3 = "it2\<lparr>in_map_first_block := start\<rparr>"
  let ?st3 = "?st2\<lparr>mo_io := io\<lparr>io_integrity := ?it3\<rparr>, mo_space := sp, mo_dedup := dd, mo_ledger := led, mo_state_area := area\<rparr>"
  have "registry_fine ?st3" using re by (simp add: ready_def registry_fine_def)
  then obtain tag reg where fin: "IntegrityInit env st = Some (OK, on_integrity (up tag) (?st3\<lparr>mo_registry := reg\<rparr>))"
    using finish_init_ok [of ?st3 env] init g(1) by auto
  define st' where "st' = on_integrity (up tag) (?st3\<lparr>mo_registry := reg\<rparr>)"
  let ?it' = "up tag ?it3"
  have io': "mo_io st' = io\<lparr>io_integrity := ?it'\<rparr>" "mo_space st' = sp" by (simp_all add: st'_def on_integrity_def)
  have "start + k - 1 \<in> {start..<start + k}" "start \<in> {start..<start + k}" using k0 by auto
  then have "start + k - 1 \<in> free_set (mo_space st)" "start \<in> free_set (mo_space st)" using g(2) by auto
  then have st: "start + k \<le> ?db" "start \<noteq> 0" using assms(13) tot k0 by (auto simp: free_set_def intro: gr0I)
  have "?db \<le> k * ENTRIES_PER_BLOCK" using assms(7) by (simp add: ENTRIES_PER_BLOCK_def)
  then have it': "empty_cache ?it'" "in_map_first_block ?it' + in_map_count ?it' < 2 ^ 32 - 1" "in_map_first_block ?it' \<noteq> 0"
    "in_map_entries ?it' \<le> in_map_count ?it' * ENTRIES_PER_BLOCK"
    using it2 st assms(9) by (simp_all add: empty_cache_def)
  note m = io_with_map [OF g(3) it']
  have cov: "covered ?it' b" if "b < ?db" "b \<notin> {start..<start + k}" for b
    using that it2(1,2) map_region_iff [OF empty_cache_ok [OF it']] by (auto simp: covered_def)
  have hash: "hash_of (io\<lparr>io_integrity := ?it'\<rparr>) b = (if b < stored * ENTRIES_PER_BLOCK
      then map_block_entries (on_disk (mo_io st) (first + b div ENTRIES_PER_BLOCK)) ! (b mod ENTRIES_PER_BLOCK) else 0)"
    if b: "b < ?db" "b \<notin> {start..<start + k}" for b
  proof -
    have idx: "b div ENTRIES_PER_BLOCK < k" using b(1) \<open>?db \<le> k * ENTRIES_PER_BLOCK\<close> by (intro less_mult_imp_div_less) simp
    have "b < stored * ENTRIES_PER_BLOCK \<longleftrightarrow> b div ENTRIES_PER_BLOCK < stored" by (simp add: div_less_iff_less_mult ENTRIES_PER_BLOCK_def)
    then show ?thesis using m(3) [OF cov [OF b]] g(8) idx le_get_zero_block [of "b mod ENTRIES_PER_BLOCK"]
      by (simp add: moved_block_def) (simp add: ENTRIES_PER_BLOCK_def)
  qed
  have sb: "sb_map_block st' = start" "sb_map_count st' = k"
    using g(6,7) by (simp_all add: st'_def sb_map_block_def sb_map_count_def on_integrity_def)
  have fin': "IntegrityInit env st = Some (OK, st')" unfolding st'_def by (rule fin)
  show ?thesis
    by (rule exI [of _ start], rule exI [of _ st'])
      (use fin' m(1,2) sb g(2,4,5,9) cov hash in \<open>simp add: io'\<close>)
qed


definition wide_space :: SpaceState where
  "wide_space = \<lparr>ss_block_bitmap = \<lparr>bb_bitmap = 3 # replicate 74 0, bb_total_blocks = 600,
     bb_free_list = [\<lparr>fe_start = 2, fe_count = 598\<rparr>], bb_extent_count = 1\<rparr>, ss_data_blocks = 600, ss_free_blocks = 598\<rparr>"

lemma wide_free: "free_set wide_space = {2..<600}"
proof -
  have "bitmap_test_bit (3 # replicate 74 0) b \<longleftrightarrow> b < 2" if "b < 600" for b
  proof (cases "b < 8")
    case True
    have "\<forall>b<8. bitmap_test_bit [3] b \<longleftrightarrow> b < 2" by code_simp
    moreover have "bitmap_test_bit (3 # replicate 74 0) b = bitmap_test_bit [3] b" using True by (simp add: bitmap_test_bit_def)
    ultimately show ?thesis using True by blast
  next
    case False
    have "b div 8 < 75" "b div 8 \<noteq> 0" using that False by auto
    then obtain i where "b div 8 = Suc i" "i < 74" by (cases "b div 8") auto
    then show ?thesis using False by (simp add: bitmap_test_bit_def)
  qed
  then show ?thesis by (auto simp: free_set_def wide_space_def)
qed

lemma wide_whole: "space_whole wide_space"
  unfolding space_whole_def space_ok_def wide_free by (auto simp: wide_space_def canonical_def run_of_def fe_end_def)

definition grown :: MountState where
  "grown = mounted\<lparr>mo_io := one_disk\<lparr>io_integrity := fresh_map\<lparr>in_initialized := False\<rparr>\<rparr>, mo_space := wide_space, mo_dedup := empty_state\<rparr>"

lemma grown_ready: "ready grown"
proof -
  have "plain one_disk" "\<not> io_medium_left one_disk" using one_disk_healthy(1) by (simp_all add: healthy_def sound_def)
  moreover have "2 \<le> ls_state_blocks fresh_state" "length (ls_use fresh_state) \<le> LEDGER_USE_MAX" by (simp_all add: fresh_state_def)
  ultimately show ?thesis using wide_whole empty_ok(1)
    by (simp add: ready_def grown_def mounted_def registry_fine_def fresh_map_def MAP_CACHE_SLOTS_def)
qed

theorem integrity_map_grows_witness:
  "\<exists>start st'. IntegrityInit mount_env grown = Some (OK, st') \<and> sound (mo_io st') \<and> sb_map_block st' = start \<and> sb_map_count st' = 2 \<and>
     {start..<start + 2} \<subseteq> free_set (mo_space grown)"
proof -
  have w: "mount_works mount_env" using good_env_works by (simp add: mount_works_def mount_env_def)
  have sb: "sb_map_block grown = 1" "sb_map_count grown = 1" by (simp_all add: grown_def mounted_def sb_map_block_def sb_map_count_def)
  have sp: "mo_space grown = wide_space" "ss_data_blocks wide_space = 600" by (simp_all add: grown_def wide_space_def)
  have "\<exists>start st'. IntegrityInit mount_env grown = Some (OK, st') \<and> sound (mo_io st') \<and> tracked (mo_io st') \<and>
    sb_map_block st' = start \<and> sb_map_count st' = 2 \<and> {start..<start + 2} \<subseteq> free_set (mo_space grown) \<and>
    space_whole (mo_space st') \<and>
    free_set (mo_space st') = free_set (mo_space grown) - {start..<start + 2} \<union> reclaimable (mo_dedup grown) {1..<1 + 1} \<and>
    (\<forall>b. b \<notin> {start..<start + 2} \<longrightarrow> on_disk (mo_io st') b = on_disk (mo_io grown) b) \<and>
    (\<forall>b. b < ss_data_blocks (mo_space grown) \<and> b \<notin> {start..<start + 2} \<longrightarrow> covered (io_integrity (mo_io st')) b \<and>
       hash_of (mo_io st') b = (if b < 1 * ENTRIES_PER_BLOCK
         then map_block_entries (on_disk (mo_io grown) (1 + b div ENTRIES_PER_BLOCK)) ! (b mod ENTRIES_PER_BLOCK) else 0))"
    by (rule integrity_map_grows [OF w grown_ready sb(1) _ sb(2), where s = 2]) (auto simp: sp wide_free ENTRIES_PER_BLOCK_def)
  then show ?thesis by blast
qed

text \<open>
  When \<^verbatim>\<open>IntegrityFlush\<close> cannot write a dirty map block the block stays dirty, but \<^verbatim>\<open>IntegrityShutdown\<close> then drops
  it: the newer hashes are gone, and the map on the volume keeps the old ones.
\<close>

lemma failed_flush_drops_hashes:
  assumes "\<forall>s. \<not> bi_write (ev_disks env) (io_seat io) s" "plain io" "in_initialized (io_integrity io)"
    "IntegrityShutdown env io = Some io'"
  shows "on_disk io' = on_disk io \<and> (\<forall>s<length (in_cache (io_integrity io')). ms_map_idx (in_cache (io_integrity io') ! s) = SLOT_EMPTY)"
proof -
  have slot: "flush_slot env s st = Some st' \<Longrightarrow> plain st \<Longrightarrow> io_seat st = io_seat io \<Longrightarrow> plain st' \<and> io_seat st' = io_seat io \<and> on_disk st' = on_disk st"
    for s st st'
  proof -
    assume f: "flush_slot env s st = Some st'" and p: "plain st" "io_seat st = io_seat io"
    let ?b = "u32_wrap (in_map_first_block (io_integrity st) + ms_map_idx (in_cache (io_integrity st) ! s))"
    let ?d = "map_block_bytes (ms_entries (in_cache (io_integrity st) ! s))"
    obtain gone st1 where g: "volume_medium_gone env st = (gone, st1)" by fastforce
    have sd: "same_disk st st1" "coherent st1" using gone_coherent [OF _ g] p(1) by (simp_all add: plain_def)
    have pl: "plain st1" "on_disk st1 = on_disk st" using plain_same_disk [OF p(1) sd(2,1)] by simp_all
    have "disk_write_block env st1 v d = None" for v d using assms(1) sd(1) p(2) by (simp add: disk_write_block_def Let_def same_disk_def)
    then have "write_map_block env ?b ?d st = Some (False, st1)"
      using g pl(1) by (simp add: write_map_block_def write_block_with_def Let_def plain_def)
    then have "st' = st \<or> st' = st1" using f by (auto simp: flush_slot_def Let_def split: if_splits)
    then show "plain st' \<and> io_seat st' = io_seat io \<and> on_disk st' = on_disk st" using p pl sd(1) by (auto simp: same_disk_def)
  qed
  have slots: "flush_slots env ss st = Some st' \<Longrightarrow> plain st \<Longrightarrow> io_seat st = io_seat io \<Longrightarrow> on_disk st' = on_disk st" for ss st st'
  proof (induction ss arbitrary: st)
    case (Cons s ss)
    then obtain st1 where "flush_slot env s st = Some st1" "flush_slots env ss st1 = Some st'" by (cases "flush_slot env s st") auto
    then show ?case using slot Cons by metis
  qed simp
  obtain io1 where f: "flush_slots env [0..<MAP_CACHE_SLOTS] io = Some io1"
    "io' = io1\<lparr>io_integrity := down_map (io_integrity io1)\<rparr>"
    using assms(3,4) by (auto simp: IntegrityShutdown_def IntegrityFlush_def down_map_def)
  show ?thesis using slots [OF f(1) assms(2)] f(2) by (simp add: down_map_def)
qed

end
