(* ===== verification/DiskBook.thy ===== *)
theory DiskBook
  imports Crypto
begin

text \<open>
  The disk book, the log of copy-on-write redirects on a TagFS volume (kernel/tagfs/disk\_book/disk\_book.c): a
  superblock in two copies, each with a CRC-32, and a run of records of two sectors, each with its own. The
  volume is a function from sectors to their 512 bytes. Which reads and writes succeed is a parameter, and so
  is what a write that fails, or that a crash cuts short, leaves in its sectors. The redirects that a replay
  hands to the copy-on-write layer (\<^verbatim>\<open>TagFS_CowRestoreRedirect\<close>) are its value; the flushing of the device's
  write cache (\<^verbatim>\<open>tagfs_flush_cache\<close>) has no effect on the state. Operations run under the book's lock.

  Shown: a replay after a new start restores exactly the redirects that were logged, in their order, and a
  crash in the middle of logging one leaves the log with or without it.
\<close>

section \<open>Data\<close>

definition DISK_BOOK_MAGIC :: u32 where "DISK_BOOK_MAGIC = 0x44424F4F"
definition DISK_BOOK_SB_MAGIC :: u32 where "DISK_BOOK_SB_MAGIC = 0x44425342"
definition DISK_BOOK_VERSION :: u32 where "DISK_BOOK_VERSION = 2"
definition DISK_BOOK_SECTORS_PER_ENTRY :: nat where "DISK_BOOK_SECTORS_PER_ENTRY = 2"
definition DISK_BOOK_CAPACITY :: nat where "DISK_BOOK_CAPACITY = 512"
definition DISK_BOOK_FLUSH_THRESH :: nat where "DISK_BOOK_FLUSH_THRESH = 64"
definition DISK_BOOK_TYPE_REDIRECT :: u16 where "DISK_BOOK_TYPE_REDIRECT = 1"

record DiskBookSuperblock =
  dk_magic :: u32
  dk_version :: u32
  dk_start_sector :: u64
  dk_capacity :: u32
  dk_count :: u32
  dk_generation :: u32
  dk_flags :: u32
  dk_crc32 :: u32
  dk_uuid :: bytes
  dk_reserved :: bytes

record DiskBookEntry =
  de_magic :: u32
  de_sequence :: u32
  de_type :: u16
  de_flags :: u16
  de_snapshot_id :: u32
  de_old_block :: u32
  de_new_block :: u32
  de_tag_bits :: u64
  de_record_crc32 :: u32
  de_reserved :: bytes

text \<open>The static variables and the volume.\<close>

record BookState =
  bk_sb :: DiskBookSuperblock
  bk_initialized :: bool
  bk_sb_sector :: nat
  bk_sb_backup_sector :: nat
  bk_redirects_logged :: u32
  bk_replay_count :: u32
  bk_crc_errors :: u32
  bk_appends_since_flush :: nat
  bk_init_time :: u64
  bk_disk :: "nat \<Rightarrow> bytes"

record DiskBookStats =
  dt_total_entries :: u32
  dt_used_entries :: u32
  dt_free_entries :: u32
  dt_redirects_logged :: u32
  dt_replay_count :: u32
  dt_crc_errors :: u32
  dt_generation :: u32
  dt_uptime_seconds :: u32

record BookIo =
  bo_read :: "nat \<Rightarrow> bool"
  bo_write :: "nat \<Rightarrow> bool"
  bo_left :: "nat \<Rightarrow> bytes"

definition sb_image :: "DiskBookSuperblock \<Rightarrow> bytes" where
  "sb_image sb = le_put 4 (dk_magic sb) @ le_put 4 (dk_version sb) @ le_put 8 (dk_start_sector sb) @ le_put 4 (dk_capacity sb) @
     le_put 4 (dk_count sb) @ le_put 4 (dk_generation sb) @ le_put 4 (dk_flags sb) @ le_put 4 (dk_crc32 sb) @ dk_uuid sb @ dk_reserved sb"

definition sb_of :: "bytes \<Rightarrow> DiskBookSuperblock" where
  "sb_of buf = \<lparr>dk_magic = le_get (take 4 buf), dk_version = le_get (take 4 (drop 4 buf)), dk_start_sector = le_get (take 8 (drop 8 buf)),
     dk_capacity = le_get (take 4 (drop 16 buf)), dk_count = le_get (take 4 (drop 20 buf)), dk_generation = le_get (take 4 (drop 24 buf)),
     dk_flags = le_get (take 4 (drop 28 buf)), dk_crc32 = le_get (take 4 (drop 32 buf)), dk_uuid = take 16 (drop 36 buf),
     dk_reserved = drop 52 buf\<rparr>"

definition entry_image :: "DiskBookEntry \<Rightarrow> bytes" where
  "entry_image e = le_put 4 (de_magic e) @ le_put 4 (de_sequence e) @ le_put 2 (de_type e) @ le_put 2 (de_flags e) @
     le_put 4 (de_snapshot_id e) @ le_put 4 (de_old_block e) @ le_put 4 (de_new_block e) @ le_put 8 (de_tag_bits e) @
     le_put 4 (de_record_crc32 e) @ de_reserved e"

definition book_entry_of :: "bytes \<Rightarrow> DiskBookEntry" where
  "book_entry_of buf = \<lparr>de_magic = le_get (take 4 buf), de_sequence = le_get (take 4 (drop 4 buf)), de_type = le_get (take 2 (drop 8 buf)),
     de_flags = le_get (take 2 (drop 10 buf)), de_snapshot_id = le_get (take 4 (drop 12 buf)), de_old_block = le_get (take 4 (drop 16 buf)),
     de_new_block = le_get (take 4 (drop 20 buf)), de_tag_bits = le_get (take 8 (drop 24 buf)),
     de_record_crc32 = le_get (take 4 (drop 32 buf)), de_reserved = drop 36 buf\<rparr>"

section \<open>Sectors\<close>

text \<open>A run of sectors is read or written by one call, which succeeds or fails as a whole.\<close>

definition disk_book_read_sectors :: "BookIo \<Rightarrow> (nat \<Rightarrow> bytes) \<Rightarrow> nat \<Rightarrow> nat \<Rightarrow> bytes option" where
  "disk_book_read_sectors io disk vlba k =
     (if bo_read io vlba then Some (concat (map disk [vlba..<vlba + k])) else None)"

definition disk_book_write_sectors :: "BookIo \<Rightarrow> (nat \<Rightarrow> bytes) \<Rightarrow> nat \<Rightarrow> nat \<Rightarrow> bytes \<Rightarrow> bool \<times> (nat \<Rightarrow> bytes)" where
  "disk_book_write_sectors io disk vlba k buf =
     (bo_write io vlba,
      \<lambda>s. if vlba \<le> s \<and> s < vlba + k
          then if bo_write io vlba then take 512 (drop (512 * (s - vlba)) buf) else bo_left io s
          else disk s)"

definition entry_crc :: "DiskBookEntry \<Rightarrow> u32" where
  "entry_crc e = KCrc32 (entry_image (e\<lparr>de_record_crc32 := 0\<rparr>))"

definition record_sector :: "BookState \<Rightarrow> nat \<Rightarrow> nat" where
  "record_sector st idx = unat (dk_start_sector (bk_sb st) + of_nat idx * of_nat DISK_BOOK_SECTORS_PER_ENTRY)"

definition sealed :: "DiskBookSuperblock \<Rightarrow> DiskBookSuperblock" where
  "sealed sb = sb\<lparr>dk_crc32 := KCrc32 (sb_image (sb\<lparr>dk_crc32 := 0\<rparr>))\<rparr>"

definition write_superblock_locked :: "BookIo \<Rightarrow> BookState \<Rightarrow> error_t \<times> BookState" where
  "write_superblock_locked io st =
     (let sb = sealed (bk_sb st);
          buf = sb_image sb;
          (ok, disk1) = disk_book_write_sectors io (bk_disk st) (bk_sb_sector st) 1 buf
      in if \<not> ok then (ERR_IO, st\<lparr>bk_sb := sb, bk_disk := disk1\<rparr>)
         else (OK, st\<lparr>bk_sb := sb, bk_disk := snd (disk_book_write_sectors io disk1 (bk_sb_backup_sector st) 1 buf)\<rparr>))"

definition sb_valid :: "DiskBookSuperblock \<Rightarrow> bool" where
  "sb_valid sb \<longleftrightarrow> dk_magic sb = DISK_BOOK_SB_MAGIC \<and> KCrc32 (sb_image (sb\<lparr>dk_crc32 := 0\<rparr>)) = dk_crc32 sb"

definition read_superblock_into :: "BookIo \<Rightarrow> BookState \<Rightarrow> DiskBookSuperblock option" where
  "read_superblock_into io st =
     (case disk_book_read_sectors io (bk_disk st) (bk_sb_sector st) 1 of
        Some buf \<Rightarrow>
          if sb_valid (sb_of buf) then Some (sb_of buf)
          else (case disk_book_read_sectors io (bk_disk st) (bk_sb_backup_sector st) 1 of
                  None \<Rightarrow> None
                | Some buf' \<Rightarrow> if sb_valid (sb_of buf') then Some (sb_of buf') else None)
      | None \<Rightarrow>
          (case disk_book_read_sectors io (bk_disk st) (bk_sb_backup_sector st) 1 of
             None \<Rightarrow> None
           | Some buf' \<Rightarrow> if sb_valid (sb_of buf') then Some (sb_of buf') else None))"

definition read_entry :: "BookIo \<Rightarrow> BookState \<Rightarrow> nat \<Rightarrow> DiskBookEntry option" where
  "read_entry io st idx =
     (if idx \<ge> unat (dk_capacity (bk_sb st)) then None
      else map_option book_entry_of (disk_book_read_sectors io (bk_disk st) (record_sector st idx) DISK_BOOK_SECTORS_PER_ENTRY))"

definition write_entry :: "BookIo \<Rightarrow> nat \<Rightarrow> DiskBookEntry \<Rightarrow> BookState \<Rightarrow> error_t \<times> BookState" where
  "write_entry io idx e st =
     (if idx \<ge> unat (dk_capacity (bk_sb st)) then (ERR_INVALID_ARGUMENT, st)
      else
        let (ok, disk) = disk_book_write_sectors io (bk_disk st) (record_sector st idx) DISK_BOOK_SECTORS_PER_ENTRY (entry_image e)
        in (if ok then OK else ERR_IO, st\<lparr>bk_disk := disk\<rparr>))"

section \<open>Operations\<close>

definition fresh_sb :: "u64 \<Rightarrow> DiskBookSuperblock" where
  "fresh_sb records_sector = \<lparr>dk_magic = DISK_BOOK_SB_MAGIC, dk_version = DISK_BOOK_VERSION, dk_start_sector = records_sector,
     dk_capacity = of_nat DISK_BOOK_CAPACITY, dk_count = 0, dk_generation = 0, dk_flags = 0, dk_crc32 = 0,
     dk_uuid = replicate 16 0, dk_reserved = replicate 460 0\<rparr>"

definition format_fresh_locked :: "u64 \<Rightarrow> BookState \<Rightarrow> BookState" where
  "format_fresh_locked records_sector st = st\<lparr>bk_sb := fresh_sb records_sector\<rparr>"

definition usable_sb :: "u64 \<Rightarrow> DiskBookSuperblock \<Rightarrow> bool" where
  "usable_sb records_sector sb \<longleftrightarrow> dk_version sb = DISK_BOOK_VERSION \<and> dk_capacity sb = of_nat DISK_BOOK_CAPACITY \<and>
     dk_count sb \<le> of_nat DISK_BOOK_CAPACITY \<and> dk_start_sector sb = records_sector"

definition DiskBookInit :: "BookIo \<Rightarrow> u64 \<Rightarrow> nat \<Rightarrow> nat \<Rightarrow> u64 \<Rightarrow> BookState \<Rightarrow> error_t \<times> BookState" where
  "DiskBookInit io now head_sector backup_sector records_sector st =
     (if bk_initialized st then (ERR_DISKBOOK_NOT_INITIALIZED, st)
      else
        let st1 = st\<lparr>bk_sb_sector := head_sector, bk_sb_backup_sector := backup_sector\<rparr>;
            ready = (\<lambda>st. (OK, st\<lparr>bk_initialized := True, bk_init_time := now\<rparr>));
            fresh = (let (err, st2) = write_superblock_locked io (format_fresh_locked records_sector st1)
                     in if err \<noteq> OK then (ERR_DISKBOOK_WRITE_FAILED, st2) else ready st2)
        in case read_superblock_into io st1 of
             None \<Rightarrow> fresh
           | Some sb \<Rightarrow> if usable_sb records_sector sb then ready (st1\<lparr>bk_sb := sb\<rparr>) else fresh)"

text \<open>The replay: the redirects that are restored, and the number of records that are not valid.\<close>

fun replay_loop :: "BookIo \<Rightarrow> BookState \<Rightarrow> nat list \<Rightarrow> (u32 \<times> u32 \<times> u32) list \<times> u32 \<Rightarrow> (u32 \<times> u32 \<times> u32) list \<times> u32" where
  "replay_loop io st [] acc = acc"
| "replay_loop io st (i # rest) (redirects, errors) =
     (case read_entry io st i of
        None \<Rightarrow> (redirects, errors)
      | Some e \<Rightarrow>
          if de_magic e \<noteq> DISK_BOOK_MAGIC \<or> entry_crc e \<noteq> de_record_crc32 e then replay_loop io st rest (redirects, errors + 1)
          else if de_type e = DISK_BOOK_TYPE_REDIRECT
          then replay_loop io st rest (redirects @ [(de_snapshot_id e, de_old_block e, de_new_block e)], errors)
          else replay_loop io st rest (redirects, errors))"

definition DiskBookValidateAndReplay :: "BookIo \<Rightarrow> BookState \<Rightarrow> error_t \<times> (u32 \<times> u32 \<times> u32) list \<times> BookState" where
  "DiskBookValidateAndReplay io st =
     (if \<not> bk_initialized st then (ERR_NOT_INITIALIZED, [], st)
      else
        let (redirects, errors) = replay_loop io st [0..<min (unat (dk_count (bk_sb st))) (unat (dk_capacity (bk_sb st)))] ([], bk_crc_errors st)
        in (OK, redirects, st\<lparr>bk_crc_errors := errors, bk_replay_count := bk_replay_count st + of_nat (length redirects)\<rparr>))"

definition redirect_entry :: "u32 \<Rightarrow> u32 \<Rightarrow> u32 \<Rightarrow> u32 \<Rightarrow> u64 \<Rightarrow> DiskBookEntry" where
  "redirect_entry generation snapshot_id old_block new_block tag_bits =
     (let e = \<lparr>de_magic = DISK_BOOK_MAGIC, de_sequence = generation, de_type = DISK_BOOK_TYPE_REDIRECT, de_flags = 0,
                de_snapshot_id = snapshot_id, de_old_block = old_block, de_new_block = new_block, de_tag_bits = tag_bits,
                de_record_crc32 = 0, de_reserved = replicate 988 0\<rparr>
      in e\<lparr>de_record_crc32 := entry_crc e\<rparr>)"

definition DiskBookLogRedirect :: "BookIo \<Rightarrow> u32 \<Rightarrow> u32 \<Rightarrow> u32 \<Rightarrow> u64 \<Rightarrow> BookState \<Rightarrow> error_t \<times> BookState" where
  "DiskBookLogRedirect io snapshot_id old_block new_block tag_bits st =
     (if \<not> bk_initialized st then (ERR_NOT_INITIALIZED, st)
      else if old_block = 0 \<or> new_block = 0 then (ERR_INVALID_ARGUMENT, st)
      else if dk_count (bk_sb st) \<ge> dk_capacity (bk_sb st) then (ERR_DISK_FULL, st)
      else
        let idx = unat (dk_count (bk_sb st));
            generation = dk_generation (bk_sb st) + 1;
            st1 = st\<lparr>bk_sb := (bk_sb st)\<lparr>dk_generation := generation\<rparr>\<rparr>;
            (err, st2) = write_entry io idx (redirect_entry generation snapshot_id old_block new_block tag_bits) st1
        in if err \<noteq> OK then (ERR_IO, st2\<lparr>bk_sb := (bk_sb st2)\<lparr>dk_generation := dk_generation (bk_sb st2) - 1\<rparr>\<rparr>)
           else
             let st3 = snd (write_superblock_locked io (st2\<lparr>bk_sb := (bk_sb st2)\<lparr>dk_count := dk_count (bk_sb st2) + 1\<rparr>\<rparr>));
                 appends = u32_wrap (bk_appends_since_flush st3 + 1)
             in (OK, st3\<lparr>bk_redirects_logged := bk_redirects_logged st3 + 1,
                   bk_appends_since_flush := (if appends \<ge> DISK_BOOK_FLUSH_THRESH then 0 else appends)\<rparr>))"

definition DiskBookResetRedirects :: "BookIo \<Rightarrow> BookState \<Rightarrow> BookState" where
  "DiskBookResetRedirects io st =
     (if \<not> bk_initialized st then st
      else snd (write_superblock_locked io (st\<lparr>bk_sb := (bk_sb st)\<lparr>dk_count := 0, dk_generation := dk_generation (bk_sb st) + 1\<rparr>\<rparr>)))"

definition DiskBookCheckpoint :: "BookIo \<Rightarrow> BookState \<Rightarrow> error_t \<times> BookState" where
  "DiskBookCheckpoint io st =
     (if \<not> bk_initialized st then (ERR_NOT_INITIALIZED, st)
      else let (err, st1) = write_superblock_locked io st in (err, st1\<lparr>bk_appends_since_flush := 0\<rparr>))"

definition DiskBookShutdown :: "BookIo \<Rightarrow> BookState \<Rightarrow> BookState" where
  "DiskBookShutdown io st = (if \<not> bk_initialized st then st else (snd (DiskBookCheckpoint io st))\<lparr>bk_initialized := False\<rparr>)"

definition DiskBookGetStats :: "u64 \<Rightarrow> BookState \<Rightarrow> error_t \<times> DiskBookStats" where
  "DiskBookGetStats now st =
     (if \<not> bk_initialized st
      then (ERR_NOT_INITIALIZED, \<lparr>dt_total_entries = 0, dt_used_entries = 0, dt_free_entries = 0, dt_redirects_logged = 0,
              dt_replay_count = 0, dt_crc_errors = 0, dt_generation = 0, dt_uptime_seconds = 0\<rparr>)
      else (OK, \<lparr>dt_total_entries = dk_capacity (bk_sb st), dt_used_entries = dk_count (bk_sb st),
              dt_free_entries = dk_capacity (bk_sb st) - dk_count (bk_sb st), dt_redirects_logged = bk_redirects_logged st,
              dt_replay_count = bk_replay_count st, dt_crc_errors = bk_crc_errors st, dt_generation = dk_generation (bk_sb st),
              dt_uptime_seconds = ucast (now - bk_init_time st)\<rparr>))"

definition DiskBookIsInitialized :: "BookState \<Rightarrow> bool" where
  "DiskBookIsInitialized st = bk_initialized st"

definition DiskBookGetCheckpointSeq :: "BookState \<Rightarrow> u32" where
  "DiskBookGetCheckpointSeq st = dk_generation (bk_sb st)"


lemmas book_defs =
  DISK_BOOK_SECTORS_PER_ENTRY_def DISK_BOOK_CAPACITY_def disk_book_read_sectors_def disk_book_write_sectors_def

section \<open>Images\<close>

definition sb_shape :: "DiskBookSuperblock \<Rightarrow> bool" where
  "sb_shape sb \<longleftrightarrow> length (dk_uuid sb) = 16 \<and> length (dk_reserved sb) = 460"

lemma length_sb_image [simp]: "sb_shape sb \<Longrightarrow> length (sb_image sb) = 512"
  by (simp add: sb_image_def sb_shape_def)

lemma sb_of_image [simp]: "sb_shape sb \<Longrightarrow> sb_of (sb_image sb) = sb"
  by (simp add: sb_of_def sb_image_def sb_shape_def)

lemma sb_shape_of: "length buf = 512 \<Longrightarrow> sb_shape (sb_of buf)"
  by (simp add: sb_of_def sb_shape_def)

lemma length_entry_image [simp]: "length (de_reserved e) = 988 \<Longrightarrow> length (entry_image e) = 1024"
  by (simp add: entry_image_def)

lemma book_entry_of_image [simp]: "length (de_reserved e) = 988 \<Longrightarrow> book_entry_of (entry_image e) = e"
  by (simp add: book_entry_of_def entry_image_def)

lemma sb_shape_simps [simp]:
  "sb_shape (sealed sb) = sb_shape sb" "sb_shape (sb\<lparr>dk_count := c\<rparr>) = sb_shape sb" "sb_shape (sb\<lparr>dk_generation := g\<rparr>) = sb_shape sb"
  "sb_shape (fresh_sb r)"
  by (simp_all add: sb_shape_def sealed_def fresh_sb_def)

lemma sealed_simps [simp]:
  "dk_magic (sealed sb) = dk_magic sb" "dk_count (sealed sb) = dk_count sb" "dk_capacity (sealed sb) = dk_capacity sb"
  "dk_start_sector (sealed sb) = dk_start_sector sb" "dk_generation (sealed sb) = dk_generation sb" "dk_version (sealed sb) = dk_version sb"
  by (simp_all add: sealed_def)

lemma sealed_sealed [simp]: "sealed (sealed sb) = sealed sb"
  by (simp add: sealed_def)

lemma sb_valid_sealed: "dk_magic sb = DISK_BOOK_SB_MAGIC \<Longrightarrow> sb_valid (sealed sb)"
  by (simp add: sb_valid_def sealed_def)

lemma sealed_valid: "sb_valid sb \<Longrightarrow> sealed sb = sb"
  by (simp add: sb_valid_def sealed_def)

lemma usable_sealed [simp]: "usable_sb r (sealed sb) = usable_sb r sb"
  by (simp add: usable_sb_def)

section \<open>The log on the volume\<close>

text \<open>Where the book lies: the two copies of the superblock, and the records at \<open>r\<close>, do not meet.\<close>

definition book_area :: "nat \<Rightarrow> nat \<Rightarrow> u64 \<Rightarrow> bool" where
  "book_area h b r \<longleftrightarrow> h \<noteq> b \<and> unat r + 1024 \<le> 2 ^ 64 \<and> h \<notin> {unat r..<unat r + 1024} \<and> b \<notin> {unat r..<unat r + 1024}"

definition record_at :: "(nat \<Rightarrow> bytes) \<Rightarrow> u64 \<Rightarrow> nat \<Rightarrow> DiskBookEntry" where
  "record_at disk r i = book_entry_of (disk (unat r + 2 * i) @ disk (unat r + 2 * i + 1))"

definition redirect_of :: "DiskBookEntry \<Rightarrow> u32 \<times> u32 \<times> u32" where
  "redirect_of e = (de_snapshot_id e, de_old_block e, de_new_block e)"

definition good_record :: "DiskBookEntry \<Rightarrow> bool" where
  "good_record e \<longleftrightarrow> de_magic e = DISK_BOOK_MAGIC \<and> entry_crc e = de_record_crc32 e \<and> de_type e = DISK_BOOK_TYPE_REDIRECT"

definition log_at :: "(nat \<Rightarrow> bytes) \<Rightarrow> u64 \<Rightarrow> (u32 \<times> u32 \<times> u32) list \<Rightarrow> bool" where
  "log_at disk r l \<longleftrightarrow> length l \<le> DISK_BOOK_CAPACITY \<and>
     (\<forall>i<length l. good_record (record_at disk r i) \<and> redirect_of (record_at disk r i) = l ! i)"

definition book_sb :: "u64 \<Rightarrow> DiskBookSuperblock \<Rightarrow> (u32 \<times> u32 \<times> u32) list \<Rightarrow> bool" where
  "book_sb r sb l \<longleftrightarrow> sb_shape sb \<and> dk_magic sb = DISK_BOOK_SB_MAGIC \<and> usable_sb r sb \<and> unat (dk_count sb) = length l"

text \<open>A running book whose log is \<open>l\<close>: the superblock in memory and the records on the volume. Nothing is said of the
  copies of the superblock on the volume, which a failed write leaves behind.\<close>

definition book_ok :: "nat \<Rightarrow> nat \<Rightarrow> u64 \<Rightarrow> BookState \<Rightarrow> (u32 \<times> u32 \<times> u32) list \<Rightarrow> bool" where
  "book_ok h b r st l \<longleftrightarrow> bk_initialized st \<and> bk_sb_sector st = h \<and> bk_sb_backup_sector st = b \<and> book_area h b r \<and>
     book_sb r (bk_sb st) l \<and> log_at (bk_disk st) r l"

lemma redirect_entry_good [simp]:
  "good_record (redirect_entry g s ob nb t)" "redirect_of (redirect_entry g s ob nb t) = (s, ob, nb)"
  "length (de_reserved (redirect_entry g s ob nb t)) = 988"
  by (simp_all add: redirect_entry_def good_record_def redirect_of_def Let_def entry_crc_def)

lemma record_sector_at:
  assumes "unat (dk_start_sector (bk_sb st)) + 1024 \<le> 2 ^ 64" "i < 512"
  shows "record_sector st i = unat (dk_start_sector (bk_sb st)) + 2 * i"
proof -
  have *: "unat (of_nat i * of_nat 2 :: u64) = 2 * i"
    using assms(2) by (simp add: unat_word_ariths unat_of_nat take_bit_eq_mod)
  have "unat (dk_start_sector (bk_sb st) + of_nat i * of_nat 2) = unat (dk_start_sector (bk_sb st)) + 2 * i"
    using assms by (subst unat_word_ariths, subst *) simp
  then show ?thesis by (simp add: record_sector_def book_defs)
qed

lemma log_at_frame:
  assumes "log_at disk r l" "\<And>s. unat r \<le> s \<Longrightarrow> s < unat r + 2 * length l \<Longrightarrow> disk' s = disk s"
  shows "log_at disk' r l"
proof -
  have "record_at disk' r i = record_at disk r i" if "i < length l" for i
    using assms(2) that by (simp add: record_at_def)
  then show ?thesis using assms(1) by (simp add: log_at_def)
qed

lemma log_at_snoc:
  assumes "log_at disk r l" "length l < 512" "good_record (record_at disk r (length l))"
  shows "log_at disk r (l @ [redirect_of (record_at disk r (length l))])"
  using assms by (auto simp: log_at_def book_defs nth_append less_Suc_eq)


section \<open>Writing\<close>

lemma book_sb_sealed [simp]: "book_sb r (sealed sb) l = book_sb r sb l"
  by (simp add: book_sb_def)

text \<open>Whatever the device does, writing the superblock touches only its two sectors; when it reports success, the
  first of them holds the image of what is in memory.\<close>

lemma write_superblock_simps [simp]:
  "bk_sb (snd (write_superblock_locked io st)) = sealed (bk_sb st)"
  "bk_initialized (snd (write_superblock_locked io st)) = bk_initialized st"
  "bk_sb_sector (snd (write_superblock_locked io st)) = bk_sb_sector st"
  "bk_sb_backup_sector (snd (write_superblock_locked io st)) = bk_sb_backup_sector st"
  by (simp_all add: write_superblock_locked_def Let_def split: prod.splits)

lemma write_superblock_frame:
  "s \<noteq> bk_sb_sector st \<Longrightarrow> s \<noteq> bk_sb_backup_sector st \<Longrightarrow> bk_disk (snd (write_superblock_locked io st)) s = bk_disk st s"
  by (auto simp: write_superblock_locked_def disk_book_write_sectors_def Let_def)

lemma write_superblock_head:
  assumes "bk_sb_sector st \<noteq> bk_sb_backup_sector st" "sb_shape (bk_sb st)"
  shows "bk_disk (snd (write_superblock_locked io st)) (bk_sb_sector st) =
    (if bo_write io (bk_sb_sector st) then sb_image (sealed (bk_sb st)) else bo_left io (bk_sb_sector st))"
  using assms by (auto simp: write_superblock_locked_def disk_book_write_sectors_def Let_def)

lemma write_superblock_result: "fst (write_superblock_locked io st) = (if bo_write io (bk_sb_sector st) then OK else ERR_IO)"
  by (simp add: write_superblock_locked_def disk_book_write_sectors_def Let_def)

lemma write_superblock_torn:
  "\<not> bo_write io (bk_sb_sector st) \<Longrightarrow> bk_sb_sector st \<noteq> bk_sb_backup_sector st \<Longrightarrow>
   bk_disk (snd (write_superblock_locked io st)) (bk_sb_backup_sector st) = bk_disk st (bk_sb_backup_sector st)"
  by (auto simp: write_superblock_locked_def disk_book_write_sectors_def Let_def)

lemma log_at_write_superblock:
  assumes "log_at (bk_disk st) r l" "book_area (bk_sb_sector st) (bk_sb_backup_sector st) r"
  shows "log_at (bk_disk (snd (write_superblock_locked io st))) r l"
proof (rule log_at_frame [OF assms(1)])
  fix s assume s: "unat r \<le> s" "s < unat r + 2 * length l"
  have "length l \<le> 512" using assms(1) by (simp add: log_at_def book_defs)
  then have "s \<noteq> bk_sb_sector st" "s \<noteq> bk_sb_backup_sector st"
    using assms(2) s by (auto simp: book_area_def)
  then show "bk_disk (snd (write_superblock_locked io st)) s = bk_disk st s" by (rule write_superblock_frame)
qed

lemma book_ok_write_superblock: "book_ok h b r st l \<Longrightarrow> book_ok h b r (snd (write_superblock_locked io st)) l"
  using log_at_write_superblock [of st r l io] by (simp add: book_ok_def)

lemma book_capacity: "book_sb r sb l \<Longrightarrow> unat (dk_capacity sb) = 512"
  by (simp add: book_sb_def usable_sb_def book_defs)

lemma book_ok_sector:
  assumes "book_ok h b r st l" "i < 512"
  shows "record_sector st i = unat r + 2 * i"
  using assms record_sector_at [of st i] by (simp add: book_ok_def book_sb_def usable_sb_def book_area_def)

lemma write_entry_effect:
  assumes "book_ok h b r st l" "i < 512"
  shows "write_entry io i e st =
    (if bo_write io (unat r + 2 * i) then OK else ERR_IO,
     st\<lparr>bk_disk := snd (disk_book_write_sectors io (bk_disk st) (unat r + 2 * i) 2 (entry_image e))\<rparr>)"
proof -
  have "unat (dk_capacity (bk_sb st)) = 512" using assms(1) by (auto simp: book_ok_def intro: book_capacity)
  then show ?thesis
    using assms(2) book_ok_sector [OF assms]
    by (simp add: write_entry_def disk_book_write_sectors_def DISK_BOOK_SECTORS_PER_ENTRY_def)
qed

text \<open>Writing the record after the last one keeps the log, and makes it longer when the write succeeds.\<close>

lemma log_at_write_record:
  assumes "log_at disk r l" "length l < 512" "good_record e" "length (de_reserved e) = 988"
  shows "log_at (snd (disk_book_write_sectors io disk (unat r + 2 * length l) 2 (entry_image e))) r
    (if bo_write io (unat r + 2 * length l) then l @ [redirect_of e] else l)"
proof -
  let ?v = "unat r + 2 * length l"
  let ?d = "snd (disk_book_write_sectors io disk ?v 2 (entry_image e))"
  have keep: "log_at ?d r l"
    by (rule log_at_frame [OF assms(1)]) (simp add: disk_book_write_sectors_def)
  show ?thesis
  proof (cases "bo_write io ?v")
    case True
    have "?d ?v @ ?d (?v + 1) = entry_image e"
      using True length_entry_image [OF assms(4)] by (simp add: disk_book_write_sectors_def flip: take_add)
    then have "record_at ?d r (length l) = e"
      using assms(4) by (simp add: record_at_def)
    then show ?thesis using True log_at_snoc [OF keep assms(2)] assms(3) by simp
  qed (simp add: keep)
qed


text \<open>Logging a redirect, on any device: the log is longer by the redirect when the call reports success, and the
  same when it does not.\<close>

lemma book_full: "book_sb r sb l \<Longrightarrow> dk_capacity sb \<le> dk_count sb \<longleftrightarrow> 512 \<le> length l"
  using book_capacity [of r sb l] by (simp add: word_le_nat_alt book_sb_def)

lemma book_sb_update:
  "book_sb r sb l \<Longrightarrow> book_sb r (sb\<lparr>dk_generation := g\<rparr>) l"
  "book_sb r sb l \<Longrightarrow> length l < 512 \<Longrightarrow> book_sb r (sb\<lparr>dk_count := dk_count sb + 1\<rparr>) (l @ [x])"
  "book_sb r sb l \<Longrightarrow> book_sb r (sb\<lparr>dk_count := 0\<rparr>) []"
proof -
  show "book_sb r sb l \<Longrightarrow> book_sb r (sb\<lparr>dk_generation := g\<rparr>) l"
    by (simp add: book_sb_def usable_sb_def)
  show "book_sb r sb l \<Longrightarrow> book_sb r (sb\<lparr>dk_count := 0\<rparr>) []"
    by (simp add: book_sb_def usable_sb_def)
  assume b: "book_sb r sb l" and l: "length l < 512"
  then have n: "unat (dk_count sb) = length l" by (simp add: book_sb_def)
  then have "unat (dk_count sb + 1) = length l + 1"
    using l by (simp add: unat_word_ariths)
  then show "book_sb r (sb\<lparr>dk_count := dk_count sb + 1\<rparr>) (l @ [x])"
    using b l by (simp add: book_sb_def usable_sb_def book_defs word_le_nat_alt)
qed

definition with_record :: "BookIo \<Rightarrow> u32 \<Rightarrow> u32 \<Rightarrow> u32 \<Rightarrow> u64 \<Rightarrow> u64 \<Rightarrow> nat \<Rightarrow> BookState \<Rightarrow> BookState" where
  "with_record io s ob nb t r n st =
     st\<lparr>bk_sb := (bk_sb st)\<lparr>dk_generation := dk_generation (bk_sb st) + 1\<rparr>,
        bk_disk := snd (disk_book_write_sectors io (bk_disk st) (unat r + 2 * n) 2
          (entry_image (redirect_entry (dk_generation (bk_sb st) + 1) s ob nb t)))\<rparr>"

definition counted :: "BookState \<Rightarrow> BookState" where
  "counted st = st\<lparr>bk_sb := (bk_sb st)\<lparr>dk_count := dk_count (bk_sb st) + 1\<rparr>\<rparr>"

lemma DiskBookLogRedirect_run:
  assumes "book_ok h b r st l" "ob \<noteq> 0" "nb \<noteq> 0" "length l < 512"
  obtains n a where "DiskBookLogRedirect io s ob nb t st =
    (if bo_write io (unat r + 2 * length l)
     then (OK, (snd (write_superblock_locked io (counted (with_record io s ob nb t r (length l) st))))
                 \<lparr>bk_redirects_logged := n, bk_appends_since_flush := a\<rparr>)
     else (ERR_IO, (with_record io s ob nb t r (length l) st)\<lparr>bk_sb := bk_sb st\<rparr>))"
proof -
  let ?g = "dk_generation (bk_sb st) + 1" and ?w = "with_record io s ob nb t r (length l) st"
  have sb: "book_sb r (bk_sb st) l" and init: "bk_initialized st" using assms(1) by (simp_all add: book_ok_def)
  have room: "\<not> dk_capacity (bk_sb st) \<le> dk_count (bk_sb st)" using book_full [OF sb] assms(4) by simp
  have n: "unat (dk_count (bk_sb st)) = length l" using sb by (simp add: book_sb_def)
  have "book_ok h b r (st\<lparr>bk_sb := (bk_sb st)\<lparr>dk_generation := ?g\<rparr>\<rparr>) l"
    using assms(1) book_sb_update(1) by (simp add: book_ok_def)
  from write_entry_effect [OF this assms(4)]
  have w: "write_entry io (length l) (redirect_entry ?g s ob nb t) (st\<lparr>bk_sb := (bk_sb st)\<lparr>dk_generation := ?g\<rparr>\<rparr>) =
    (if bo_write io (unat r + 2 * length l) then OK else ERR_IO, ?w)"
    by (simp add: with_record_def)
  have g: "(bk_sb ?w)\<lparr>dk_generation := dk_generation (bk_sb ?w) - 1\<rparr> = bk_sb st"
    by (simp add: with_record_def)
  let ?q = "snd (write_superblock_locked io (counted ?w))"
  show thesis
    by (rule that [of
          "if u32_wrap (bk_appends_since_flush ?q + 1) \<ge> DISK_BOOK_FLUSH_THRESH then 0 else u32_wrap (bk_appends_since_flush ?q + 1)"
          "bk_redirects_logged ?q + 1"])
      (use init assms(2,3) room n w g in \<open>simp add: DiskBookLogRedirect_def Let_def counted_def\<close>)
qed

lemma log_keeps_book:
  assumes "book_ok h b r st l" "DiskBookLogRedirect io s ob nb t st = (e, st')"
  shows "book_ok h b r st' (if e = OK then l @ [(s, ob, nb)] else l)"
proof -
  have sb: "book_sb r (bk_sb st) l" and init: "bk_initialized st" using assms(1) by (simp_all add: book_ok_def)
  show ?thesis
  proof (cases "ob \<noteq> 0 \<and> nb \<noteq> 0 \<and> length l < 512")
    case False
    then have "e \<noteq> OK \<and> st' = st"
      using assms(2) init book_full [OF sb] by (auto simp: DiskBookLogRedirect_def split: if_splits)
    then show ?thesis using assms(1) by simp
  next
    case True
    let ?ok = "bo_write io (unat r + 2 * length l)" and ?w = "with_record io s ob nb t r (length l) st"
    have d: "log_at (bk_disk ?w) r (if ?ok then l @ [(s, ob, nb)] else l)"
      using log_at_write_record [of "bk_disk st" r l "redirect_entry (dk_generation (bk_sb st) + 1) s ob nb t" io] assms(1) True
      by (simp add: book_ok_def with_record_def split: if_splits)
    have "book_ok h b r (counted ?w) (l @ [(s, ob, nb)])" if ?ok
      using assms(1) d that True book_sb_update(2) [OF book_sb_update(1) [OF sb]]
      by (simp add: book_ok_def with_record_def counted_def)
    then have ok: "book_ok h b r (snd (write_superblock_locked io (counted ?w))) (l @ [(s, ob, nb)])" if ?ok
      using that book_ok_write_superblock by blast
    have bad: "book_ok h b r (?w\<lparr>bk_sb := bk_sb st\<rparr>) l" if "\<not> ?ok"
      using assms(1) d that by (simp add: book_ok_def with_record_def)
    obtain n a where "DiskBookLogRedirect io s ob nb t st =
      (if ?ok then (OK, (snd (write_superblock_locked io (counted ?w)))\<lparr>bk_redirects_logged := n, bk_appends_since_flush := a\<rparr>)
       else (ERR_IO, ?w\<lparr>bk_sb := bk_sb st\<rparr>))"
      using DiskBookLogRedirect_run [OF assms(1)] True by blast
    then show ?thesis using assms(2) ok bad by (cases ?ok) (auto simp: book_ok_def)
  qed
qed


section \<open>Starting and replaying\<close>

text \<open>The state of the program before the book is started, and a start on a volume followed by the replay.\<close>

definition boot_book :: "(nat \<Rightarrow> bytes) \<Rightarrow> BookState" where
  "boot_book disk = \<lparr>bk_sb = (fresh_sb 0)\<lparr>dk_magic := 0, dk_version := 0, dk_capacity := 0\<rparr>, bk_initialized = False, bk_sb_sector = 0,
     bk_sb_backup_sector = 0, bk_redirects_logged = 0, bk_replay_count = 0, bk_crc_errors = 0, bk_appends_since_flush = 0,
     bk_init_time = 0, bk_disk = disk\<rparr>"

definition remount :: "BookIo \<Rightarrow> u64 \<Rightarrow> nat \<Rightarrow> nat \<Rightarrow> u64 \<Rightarrow> (nat \<Rightarrow> bytes) \<Rightarrow> error_t \<times> (u32 \<times> u32 \<times> u32) list \<times> BookState" where
  "remount io now h b r disk =
     (let (err, st) = DiskBookInit io now h b r (boot_book disk)
      in if err \<noteq> OK then (err, [], st) else DiskBookValidateAndReplay io st)"

definition reads_work :: "BookIo \<Rightarrow> bool" where
  "reads_work io \<longleftrightarrow> bo_read io = (\<lambda>_. True)"

lemma replay_good:
  assumes "\<And>i. i \<in> set is \<Longrightarrow> read_entry io st i = Some (f i) \<and> good_record (f i)"
  shows "replay_loop io st is (a, e) = (a @ map (\<lambda>i. redirect_of (f i)) is, e)"
  using assms by (induction "is" arbitrary: a) (simp_all add: good_record_def redirect_of_def)

lemma read_entry_record:
  assumes "book_ok h b r st l" "reads_work io" "i < 512"
  shows "read_entry io st i = Some (record_at (bk_disk st) r i)"
proof -
  have "unat (dk_capacity (bk_sb st)) = 512" using assms(1) by (auto simp: book_ok_def intro: book_capacity)
  then show ?thesis
    using assms(2,3) book_ok_sector [OF assms(1,3)]
    by (simp add: read_entry_def reads_work_def record_at_def book_defs upt_rec)
qed

text \<open>The replay of a running book gives its log, and finds no record damaged.\<close>

lemma replay_gives_log:
  assumes "book_ok h b r st l" "reads_work io"
  shows "DiskBookValidateAndReplay io st = (OK, l, st\<lparr>bk_replay_count := bk_replay_count st + of_nat (length l)\<rparr>)"
proof -
  have l: "log_at (bk_disk st) r l" and sb: "book_sb r (bk_sb st) l" and init: "bk_initialized st"
    using assms(1) by (simp_all add: book_ok_def)
  then have n: "min (unat (dk_count (bk_sb st))) (unat (dk_capacity (bk_sb st))) = length l"
    using book_capacity [OF sb] by (simp add: log_at_def book_defs book_sb_def)
  have "replay_loop io st [0..<length l] ([], bk_crc_errors st) =
      ([] @ map (\<lambda>i. redirect_of (record_at (bk_disk st) r i)) [0..<length l], bk_crc_errors st)"
    by (rule replay_good) (use l read_entry_record [OF assms] in \<open>simp add: log_at_def book_defs\<close>)
  also have "map (\<lambda>i. redirect_of (record_at (bk_disk st) r i)) [0..<length l] = l"
    using l by (intro nth_equalityI) (simp_all add: log_at_def)
  finally show ?thesis using init n by (simp add: DiskBookValidateAndReplay_def)
qed

lemma read_superblock_copy:
  assumes "reads_work io" "sb_shape sb" "dk_magic sb = DISK_BOOK_SB_MAGIC"
    "bk_disk st (bk_sb_sector st) = sb_image (sealed sb) \<or>
     \<not> sb_valid (sb_of (bk_disk st (bk_sb_sector st))) \<and> bk_disk st (bk_sb_backup_sector st) = sb_image (sealed sb)"
  shows "read_superblock_into io st = Some (sealed sb)"
  using assms sb_valid_sealed [OF assms(3)]
  by (auto simp: read_superblock_into_def disk_book_read_sectors_def reads_work_def)

lemma remount_log:
  assumes "reads_work io" "book_area h b r" "book_sb r sb l" "log_at disk r l"
    "disk h = sb_image (sealed sb) \<or> \<not> sb_valid (sb_of (disk h)) \<and> disk b = sb_image (sealed sb)"
  shows "\<exists>st. remount io now h b r disk = (OK, l, st) \<and> book_ok h b r st l \<and> bk_crc_errors st = 0"
proof -
  let ?st = "(boot_book disk)\<lparr>bk_sb_sector := h, bk_sb_backup_sector := b, bk_sb := sealed sb, bk_initialized := True, bk_init_time := now\<rparr>"
  have "read_superblock_into io ((boot_book disk)\<lparr>bk_sb_sector := h, bk_sb_backup_sector := b\<rparr>) = Some (sealed sb)"
    by (rule read_superblock_copy) (use assms in \<open>simp_all add: book_sb_def boot_book_def\<close>)
  then have init: "DiskBookInit io now h b r (boot_book disk) = (OK, ?st)"
    using assms(3) by (simp add: DiskBookInit_def boot_book_def book_sb_def)
  have ok: "book_ok h b r ?st l"
    using assms by (simp add: book_ok_def boot_book_def)
  have "remount io now h b r disk = (OK, l, ?st\<lparr>bk_replay_count := bk_replay_count ?st + of_nat (length l)\<rparr>)"
    using replay_gives_log [OF ok assms(1)] by (simp add: remount_def init)
  moreover have "book_ok h b r (?st\<lparr>bk_replay_count := bk_replay_count ?st + of_nat (length l)\<rparr>) l"
    using ok by (simp add: book_ok_def)
  ultimately show ?thesis by (auto simp: boot_book_def)
qed

text \<open>A start on a volume without a usable superblock makes an empty book.\<close>

lemma init_blank:
  assumes "book_area h b r" "\<not> sb_valid (sb_of (disk h))" "\<not> sb_valid (sb_of (disk b))"
    "DiskBookInit io now h b r (boot_book disk) = (OK, st)"
  shows "book_ok h b r st []"
proof -
  let ?s = "(boot_book disk)\<lparr>bk_sb_sector := h, bk_sb_backup_sector := b\<rparr>"
  have "read_superblock_into io ?s = None"
    using assms(2,3) by (simp add: read_superblock_into_def disk_book_read_sectors_def boot_book_def)
  then have st: "st = (snd (write_superblock_locked io (format_fresh_locked r ?s)))\<lparr>bk_initialized := True, bk_init_time := now\<rparr>"
    using assms(4) by (auto simp: DiskBookInit_def boot_book_def Let_def split: prod.splits if_splits)
  have "book_sb r (fresh_sb r) []"
    by (simp add: book_sb_def usable_sb_def fresh_sb_def sb_shape_def)
  then show ?thesis
    using assms(1) by (simp add: st book_ok_def log_at_def format_fresh_locked_def)
qed


section \<open>Histories\<close>

datatype BookOp = OpLog u32 u32 u32 u64 | OpReset | OpCheckpoint

fun book_step :: "BookIo \<Rightarrow> BookOp \<Rightarrow> BookState \<Rightarrow> error_t \<times> BookState" where
  "book_step io (OpLog s ob nb t) st = DiskBookLogRedirect io s ob nb t st"
| "book_step io OpReset st = (OK, DiskBookResetRedirects io st)"
| "book_step io OpCheckpoint st = DiskBookCheckpoint io st"

text \<open>A history gives every operation its own device; its value has the results of the operations.\<close>

fun book_run :: "(BookIo \<times> BookOp) list \<Rightarrow> BookState \<Rightarrow> error_t list \<times> BookState" where
  "book_run [] st = ([], st)"
| "book_run ((io, op) # hist) st =
     (let (e, st1) = book_step io op st; (es, st2) = book_run hist st1 in (e # es, st2))"

text \<open>What the log must be: the redirects whose logging was reported as done since the last reset.\<close>

fun acked_step :: "BookOp \<Rightarrow> error_t \<Rightarrow> (u32 \<times> u32 \<times> u32) list \<Rightarrow> (u32 \<times> u32 \<times> u32) list" where
  "acked_step (OpLog s ob nb t) e l = (if e = OK then l @ [(s, ob, nb)] else l)"
| "acked_step OpReset e l = []"
| "acked_step OpCheckpoint e l = l"

fun acked :: "BookOp list \<Rightarrow> error_t list \<Rightarrow> (u32 \<times> u32 \<times> u32) list \<Rightarrow> (u32 \<times> u32 \<times> u32) list" where
  "acked (op # ops) (e # es) l = acked ops es (acked_step op e l)"
| "acked _ _ l = l"

lemma reset_keeps_book:
  assumes "book_ok h b r st l"
  shows "book_ok h b r (DiskBookResetRedirects io st) []"
proof -
  let ?st = "st\<lparr>bk_sb := (bk_sb st)\<lparr>dk_count := 0, dk_generation := dk_generation (bk_sb st) + 1\<rparr>\<rparr>"
  have "book_ok h b r ?st []"
    using assms book_sb_update(1) [OF book_sb_update(3), of r "bk_sb st" l] by (simp add: book_ok_def log_at_def)
  then show ?thesis
    using book_ok_write_superblock assms by (simp add: DiskBookResetRedirects_def book_ok_def)
qed

lemma checkpoint_keeps_book:
  assumes "book_ok h b r st l"
  shows "book_ok h b r (snd (DiskBookCheckpoint io st)) l"
  using book_ok_write_superblock [OF assms, of io] assms
  by (cases "write_superblock_locked io st") (simp add: DiskBookCheckpoint_def book_ok_def)

lemma step_keeps_book:
  assumes "book_ok h b r st l" "book_step io op st = (e, st')"
  shows "book_ok h b r st' (acked_step op e l)"
proof (cases op)
  case (OpLog s ob nb t)
  then show ?thesis using assms log_keeps_book [OF assms(1)] by simp
next
  case OpReset
  then show ?thesis using assms reset_keeps_book [OF assms(1)] by auto
next
  case OpCheckpoint
  then show ?thesis using assms(2) checkpoint_keeps_book [OF assms(1), of io] by simp
qed

lemma run_keeps_book:
  "book_ok h b r st l \<Longrightarrow> book_run hist st = (es, st') \<Longrightarrow> book_ok h b r st' (acked (map snd hist) es l)"
proof (induction hist arbitrary: st l es st')
  case (Cons p hist)
  obtain io op where p: "p = (io, op)" by fastforce
  obtain e st1 where s: "book_step io op st = (e, st1)" by fastforce
  obtain es' st2 where r: "book_run hist st1 = (es', st2)" by fastforce
  have "book_ok h b r st1 (acked_step op e l)" by (rule step_keeps_book [OF Cons.prems(1) s])
  from Cons.IH [OF this r] show ?case using Cons.prems(2) by (auto simp: p s r)
qed simp

lemma checkpoint_writes:
  assumes "book_ok h b r st l" "DiskBookCheckpoint io st = (OK, st')"
  shows "bk_disk st' h = sb_image (sealed (bk_sb st'))"
proof -
  have st: "bk_sb_sector st = h" "h \<noteq> bk_sb_backup_sector st" "sb_shape (bk_sb st)" "bk_initialized st"
    using assms(1) by (auto simp: book_ok_def book_area_def book_sb_def)
  have "fst (write_superblock_locked io st) = OK" "st' = (snd (write_superblock_locked io st))\<lparr>bk_appends_since_flush := 0\<rparr>"
    using assms(2) st(4) by (auto simp: DiskBookCheckpoint_def split: prod.splits)
  then show ?thesis
    using write_superblock_head [of st io] st by (simp add: write_superblock_result split: if_splits)
qed

text \<open>A blank volume with a book at sectors 10, 11 and 100, and devices that work or fail at one sector.\<close>

definition blank_disk :: "nat \<Rightarrow> bytes" where "blank_disk = (\<lambda>_. replicate 512 0)"

definition device_failing :: "nat list \<Rightarrow> BookIo" where
  "device_failing bad = \<lparr>bo_read = \<lambda>_. True, bo_write = \<lambda>s. s \<notin> set bad, bo_left = \<lambda>_. replicate 512 7\<rparr>"

definition new_book :: BookState where
  "new_book = snd (DiskBookInit (device_failing []) 0 10 11 100 (boot_book blank_disk))"

lemma reads_work_device [simp]: "reads_work (device_failing bad)"
  by (simp add: reads_work_def device_failing_def)

lemma bo_write_device [simp]: "bo_write (device_failing bad) s = (s \<notin> set bad)" "bo_left (device_failing bad) s = replicate 512 7"
  by (simp_all add: device_failing_def)

lemma fill_not_valid: "\<not> sb_valid (sb_of (replicate 512 0))" "\<not> sb_valid (sb_of (replicate 512 7))"
proof -
  have magic: "dk_magic (sb_of (replicate 512 x)) = le_get [x, x, x, x]" for x
    by (simp add: sb_of_def eval_nat_numeral)
  have "le_get [0, 0, 0, 0] \<noteq> DISK_BOOK_SB_MAGIC" "le_get [7, 7, 7, 7] \<noteq> DISK_BOOK_SB_MAGIC"
    by (simp_all add: DISK_BOOK_SB_MAGIC_def)
  then show "\<not> sb_valid (sb_of (replicate 512 0))" "\<not> sb_valid (sb_of (replicate 512 7))"
    by (simp_all add: sb_valid_def magic)
qed

lemma init_fresh:
  assumes "\<not> sb_valid (sb_of (disk h))" "\<not> sb_valid (sb_of (disk b))" "bo_write io h"
  shows "DiskBookInit io now h b r (boot_book disk) =
    (OK, (snd (write_superblock_locked io (format_fresh_locked r ((boot_book disk)\<lparr>bk_sb_sector := h, bk_sb_backup_sector := b\<rparr>))))
           \<lparr>bk_initialized := True, bk_init_time := now\<rparr>)"
proof -
  let ?s = "(boot_book disk)\<lparr>bk_sb_sector := h, bk_sb_backup_sector := b\<rparr>"
  have "read_superblock_into io ?s = None"
    using assms(1,2) by (simp add: read_superblock_into_def disk_book_read_sectors_def boot_book_def)
  moreover have "fst (write_superblock_locked io (format_fresh_locked r ?s)) = OK"
    using assms(3) by (simp add: write_superblock_result format_fresh_locked_def)
  ultimately show ?thesis
    by (cases "write_superblock_locked io (format_fresh_locked r ?s)") (simp add: DiskBookInit_def boot_book_def)
qed

lemma new_book_init: "DiskBookInit (device_failing []) 0 10 11 100 (boot_book blank_disk) = (OK, new_book)"
  using init_fresh [of blank_disk 10 11 "device_failing []" 0 100] fill_not_valid(1)
  by (simp add: new_book_def blank_disk_def)

lemma book_area_example: "book_area 10 11 100"
  by (simp add: book_area_def)

lemma new_book_ok: "book_ok 10 11 100 new_book []"
  by (rule init_blank [OF book_area_example _ _ new_book_init]) (simp_all add: blank_disk_def fill_not_valid)

lemma log_result:
  assumes "book_ok h b r st l" "ob \<noteq> 0" "nb \<noteq> 0" "length l < 512"
  shows "fst (DiskBookLogRedirect io s ob nb t st) = (if bo_write io (unat r + 2 * length l) then OK else ERR_IO)"
  using DiskBookLogRedirect_run [OF assms, of io s t] by (metis fst_conv)

text \<open>C13. Whatever fails on the device during a history of the book (torn records, superblocks that are not written),
  once a checkpoint reports success a new start restores exactly the redirects whose logging was reported as done since the last
  reset, in their order, and finds no damaged record.\<close>

theorem diskbook_checkpoint_durable:
  assumes "book_ok h b r st l" "book_run hist st = (es, st1)" "DiskBookCheckpoint io st1 = (OK, st2)" "reads_work io'"
  shows "\<exists>st3. remount io' now h b r (bk_disk st2) = (OK, acked (map snd hist) es l, st3) \<and> bk_crc_errors st3 = 0"
proof -
  let ?l = "acked (map snd hist) es l"
  have run: "book_ok h b r st1 ?l" by (rule run_keeps_book [OF assms(1,2)])
  have ok: "book_ok h b r st2 ?l" using checkpoint_keeps_book [OF run, of io] assms(3) by simp
  then have "book_area h b r" "book_sb r (bk_sb st2) ?l" "log_at (bk_disk st2) r ?l" by (simp_all add: book_ok_def)
  from remount_log [OF assms(4) this] show ?thesis using checkpoint_writes [OF run assms(3)] by blast
qed

definition example_history :: "(BookIo \<times> BookOp) list" where
  "example_history = [(device_failing [10], OpLog 1 5 6 0), (device_failing [102], OpLog 1 7 8 0), (device_failing [11], OpLog 2 9 4 0)]"

lemma example_run: "fst (book_run example_history new_book) = [OK, ERR_IO, OK]"
proof -
  obtain e1 st1 where 1: "DiskBookLogRedirect (device_failing [10]) 1 5 6 0 new_book = (e1, st1)" by fastforce
  obtain e2 st2 where 2: "DiskBookLogRedirect (device_failing [102]) 1 7 8 0 st1 = (e2, st2)" by fastforce
  obtain e3 st3 where 3: "DiskBookLogRedirect (device_failing [11]) 2 9 4 0 st2 = (e3, st3)" by fastforce
  have e1: "e1 = OK" using log_result [OF new_book_ok, of 5 6 "device_failing [10]" 1 0] 1 by simp
  have ok1: "book_ok 10 11 100 st1 [(1, 5, 6)]" using log_keeps_book [OF new_book_ok 1] e1 by simp
  have e2: "e2 = ERR_IO" using log_result [OF ok1, of 7 8 "device_failing [102]" 1 0] 2 by simp
  have ok2: "book_ok 10 11 100 st2 [(1, 5, 6)]" using log_keeps_book [OF ok1 2] e2 by simp
  have e3: "e3 = OK" using log_result [OF ok2, of 9 4 "device_failing [11]" 2 0] 3 by simp
  show ?thesis by (simp add: example_history_def 1 2 3 e1 e2 e3)
qed

lemma checkpoint_result: "bk_initialized st \<Longrightarrow> fst (DiskBookCheckpoint io st) = (if bo_write io (bk_sb_sector st) then OK else ERR_IO)"
  using write_superblock_result [of io st] by (cases "write_superblock_locked io st") (simp add: DiskBookCheckpoint_def)

theorem diskbook_checkpoint_durable_witness:
  "\<exists>st3. remount (device_failing []) 0 10 11 100
      (bk_disk (snd (DiskBookCheckpoint (device_failing []) (snd (book_run example_history new_book))))) =
    (OK, [(1, 5, 6), (2, 9, 4)], st3) \<and> bk_crc_errors st3 = 0"
proof -
  obtain es st1 where run: "book_run example_history new_book = (es, st1)" by fastforce
  have es: "es = [OK, ERR_IO, OK]" using example_run run by simp
  have "book_ok 10 11 100 st1 (acked (map snd example_history) es [])" by (rule run_keeps_book [OF new_book_ok run])
  then have "fst (DiskBookCheckpoint (device_failing []) st1) = OK" by (simp add: checkpoint_result book_ok_def)
  then have c: "DiskBookCheckpoint (device_failing []) st1 = (OK, snd (DiskBookCheckpoint (device_failing []) st1))"
    by (metis prod.collapse)
  show ?thesis
    using diskbook_checkpoint_durable [OF new_book_ok run c, of "device_failing []" 0] run
    by (simp add: es example_history_def)
qed

lemma log_at_prefix: "log_at disk r (l @ m) \<Longrightarrow> log_at disk r l"
  by (auto simp: log_at_def nth_append)

lemma with_record_frame:
  assumes "book_area h b r" "n < 512" "v = h \<or> v = b"
  shows "bk_disk (with_record io s ob nb t r n st) v = bk_disk st v"
  using assms by (auto simp: with_record_def disk_book_write_sectors_def book_area_def)

lemma log_disk_cases:
  assumes "book_ok h b r st l" "DiskBookLogRedirect io s ob nb t st = (e, st')"
  shows "e \<noteq> OK \<and> bk_sb st' = bk_sb st \<and> bk_disk st' h = bk_disk st h \<and> bk_disk st' b = bk_disk st b \<or>
    e = OK \<and> bo_write io h \<and> bk_disk st' h = sb_image (sealed (bk_sb st')) \<or>
    e = OK \<and> \<not> bo_write io h \<and> bk_disk st' h = bo_left io h \<and> bk_disk st' b = bk_disk st b"
proof -
  have sb: "book_sb r (bk_sb st) l" and init: "bk_initialized st" and area: "book_area h b r"
    and sec: "bk_sb_sector st = h" "bk_sb_backup_sector st = b"
    using assms(1) by (simp_all add: book_ok_def)
  show ?thesis
  proof (cases "ob \<noteq> 0 \<and> nb \<noteq> 0 \<and> length l < 512")
    case False
    then show ?thesis
      using assms(2) init book_full [OF sb] by (auto simp: DiskBookLogRedirect_def split: if_splits)
  next
    case True
    let ?w = "with_record io s ob nb t r (length l) st"
    let ?q = "snd (write_superblock_locked io (counted ?w))"
    have frame: "bk_disk ?w h = bk_disk st h" "bk_disk ?w b = bk_disk st b"
      using with_record_frame [OF area] True by auto
    have q: "bk_sb_sector (counted ?w) = h" "bk_sb_backup_sector (counted ?w) = b" "sb_shape (bk_sb (counted ?w))" "h \<noteq> b"
        "bk_disk (counted ?w) b = bk_disk st b"
      using sb sec area frame by (simp_all add: counted_def with_record_def book_sb_def book_area_def)
    have "bk_disk ?q h = (if bo_write io h then sb_image (sealed (bk_sb ?q)) else bo_left io h)"
      "\<not> bo_write io h \<Longrightarrow> bk_disk ?q b = bk_disk st b"
      using write_superblock_head [of "counted ?w" io] write_superblock_torn [of io "counted ?w"] q by simp_all
    moreover obtain n a where "DiskBookLogRedirect io s ob nb t st =
      (if bo_write io (unat r + 2 * length l) then (OK, ?q\<lparr>bk_redirects_logged := n, bk_appends_since_flush := a\<rparr>)
       else (ERR_IO, ?w\<lparr>bk_sb := bk_sb st\<rparr>))"
      using DiskBookLogRedirect_run [OF assms(1)] True by blast
    ultimately show ?thesis using assms(2) frame by (auto split: if_splits)
  qed
qed

text \<open>What a failing write may leave of a sector that its checksum shows to be damaged: one that does not begin with
  the magic number of a superblock, or whose bytes, with those of the checksum set to 0, have another checksum than the
  one it carries.\<close>

definition seal_broken :: "bytes \<Rightarrow> bool" where
  "seal_broken buf \<longleftrightarrow> length buf = 512 \<and> (take 4 buf \<noteq> le_put 4 DISK_BOOK_SB_MAGIC \<or>
     KCrc32 (take 32 buf @ replicate 4 0 @ drop 36 buf) \<noteq> le_get (take 4 (drop 32 buf)))"

lemma le_put_get:
  assumes "length xs = n" "8 * n \<le> LENGTH('a)"
  shows "le_put n (le_get xs :: 'a::len word) = xs"
  by (rule nth_equalityI)
    (use assms in \<open>auto intro!: bit_word_eqI simp: le_put_def bit_ucast_iff bit_drop_bit_eq bit_le_get\<close>)

lemma seal_broken_rejected:
  assumes "seal_broken buf"
  shows "\<not> sb_valid (sb_of buf)"
proof -
  have len: "length buf = 512" using assms by (simp add: seal_broken_def)
  let ?at = "\<lambda>off n. take n (drop off buf)"
  have w: "le_put 4 (le_get (?at off 4) :: u32) = ?at off 4" if "off + 4 \<le> 512" for off
    using that len by (intro le_put_get) simp_all
  have q: "le_put 8 (le_get (?at 8 8) :: u64) = ?at 8 8" using len by (intro le_put_get) simp_all
  have join: "take k buf @ ?at k n @ rest = take (k + n) buf @ rest" for k n rest by (simp add: take_add)
  have "le_put 4 (dk_magic (sb_of buf)) = take 4 buf" using w [of 0] by (simp add: sb_of_def)
  moreover have "sb_image ((sb_of buf)\<lparr>dk_crc32 := 0\<rparr>) = take 32 buf @ replicate 4 0 @ drop 36 buf"
  proof -
    have "sb_image ((sb_of buf)\<lparr>dk_crc32 := 0\<rparr>) = take 4 buf @ ?at 4 4 @ ?at 8 8 @ ?at 16 4 @ ?at 20 4 @ ?at 24 4 @ ?at 28 4 @
        le_put 4 (0 :: u32) @ ?at 36 16 @ drop 52 buf"
      using w [of 0] by (simp add: sb_image_def sb_of_def w q)
    also have "\<dots> = take 32 buf @ le_put 4 (0 :: u32) @ drop 36 buf"
      using append_take_drop_id [of 16 "drop 36 buf"]
      by (simp only: join drop_drop numeral_plus_numeral add_num_simps)
    also have "le_put 4 (0 :: u32) = replicate 4 0" by (simp add: le_put_def eval_nat_numeral)
    finally show ?thesis .
  qed
  ultimately show ?thesis using assms by (auto simp: sb_valid_def seal_broken_def sb_of_def)
qed

text \<open>C18. Logging a redirect is atomic under a crash: when the first copy of the superblock is current, then however the
  writes of the operation fail, and whatever a torn record or second copy holds, a new start restores the log with or without the
  new redirect. A first copy of the superblock that could not be written may be left as it was, as it was to become, or, when
  the second copy is current, with anything that its magic number or checksum shows to be damaged.\<close>

theorem diskbook_log_atomic:
  assumes "book_ok h b r st l" "bk_disk st h = sb_image (sealed (bk_sb st))"
    and "DiskBookLogRedirect io s ob nb t st = (e, st')" "reads_work io'"
    and torn: "bo_write io h \<or> bo_left io h \<in> {sb_image (sealed (bk_sb st)), sb_image (sealed (bk_sb st'))} \<or>
      seal_broken (bo_left io h) \<and> bk_disk st b = sb_image (sealed (bk_sb st))"
  shows "\<exists>l' st3. remount io' now h b r (bk_disk st') = (OK, l', st3) \<and> (l' = l \<or> e = OK \<and> l' = l @ [(s, ob, nb)])"
proof -
  have ok': "book_ok h b r st' (if e = OK then l @ [(s, ob, nb)] else l)" by (rule log_keeps_book [OF assms(1,3)])
  have old: "book_area h b r" "book_sb r (bk_sb st) l" using assms(1) by (simp_all add: book_ok_def)
  have log: "log_at (bk_disk st') r l" using ok' by (auto simp: book_ok_def dest: log_at_prefix split: if_splits)
  have keep: "\<exists>st3. remount io' now h b r (bk_disk st') = (OK, l, st3)"
    if "bk_disk st' h = bk_disk st h \<or> \<not> sb_valid (sb_of (bk_disk st' h)) \<and> bk_disk st' b = sb_image (sealed (bk_sb st))"
    using remount_log [OF assms(4) old log] that assms(2) by metis
  have grow: "\<exists>st3. remount io' now h b r (bk_disk st') = (OK, l @ [(s, ob, nb)], st3)"
    if "e = OK" "bk_disk st' h = sb_image (sealed (bk_sb st'))"
    using remount_log [OF assms(4), of h b r "bk_sb st'" "l @ [(s, ob, nb)]" "bk_disk st'"] ok' that by (auto simp: book_ok_def)
  from log_disk_cases [OF assms(1,3)] consider (refused) "bk_disk st' h = bk_disk st h"
    | (written) "e = OK" "bk_disk st' h = sb_image (sealed (bk_sb st'))"
    | (failed) "e = OK" "\<not> bo_write io h" "bk_disk st' h = bo_left io h" "bk_disk st' b = bk_disk st b" by blast
  then show ?thesis
  proof cases
    case refused
    then show ?thesis using keep by blast
  next
    case written
    then show ?thesis using grow by blast
  next
    case failed
    with torn consider "bk_disk st' h = bk_disk st h" | "bk_disk st' h = sb_image (sealed (bk_sb st'))"
      | "seal_broken (bk_disk st' h)" "bk_disk st' b = sb_image (sealed (bk_sb st))"
      using assms(2) by auto
    then show ?thesis using keep grow failed(1) seal_broken_rejected by cases blast+
  qed
qed

lemma fill_broken: "seal_broken (replicate 512 7)"
proof -
  have "DISK_BOOK_SB_MAGIC \<noteq> le_get [7, 7, 7, 7]" by (simp add: DISK_BOOK_SB_MAGIC_def)
  moreover have "DISK_BOOK_SB_MAGIC = le_get (le_put 4 DISK_BOOK_SB_MAGIC)" by simp
  ultimately have "[7, 7, 7, 7] \<noteq> le_put 4 DISK_BOOK_SB_MAGIC" by metis
  moreover have "take 4 (replicate 512 7) = [7, 7, 7, 7::u8]" by (simp add: take_replicate numeral_eq_Suc)
  ultimately show ?thesis unfolding seal_broken_def by simp
qed

theorem diskbook_log_atomic_witness:
  "\<exists>l' st3. remount (device_failing []) 0 10 11 100 (bk_disk (snd (DiskBookLogRedirect (device_failing [10]) 1 5 6 0 new_book))) =
    (OK, l', st3) \<and> (l' = [] \<or> l' = [(1, 5, 6)])"
proof -
  let ?s = "format_fresh_locked 100 ((boot_book blank_disk)\<lparr>bk_sb_sector := 10, bk_sb_backup_sector := 11\<rparr>)"
  have nb: "new_book = (snd (write_superblock_locked (device_failing []) ?s))\<lparr>bk_initialized := True, bk_init_time := 0\<rparr>"
    using init_fresh [of blank_disk 10 11 "device_failing []" 0 100] fill_not_valid(1)
    by (simp add: new_book_def blank_disk_def)
  have synced: "bk_disk new_book 10 = sb_image (sealed (bk_sb new_book))" "bk_disk new_book 11 = sb_image (sealed (bk_sb new_book))"
    by (simp_all add: nb write_superblock_locked_def disk_book_write_sectors_def Let_def format_fresh_locked_def boot_book_def)
  obtain e st' where log: "DiskBookLogRedirect (device_failing [10]) 1 5 6 0 new_book = (e, st')" by fastforce
  show ?thesis
    using diskbook_log_atomic [OF new_book_ok synced(1) log reads_work_device, of "[]" 0] fill_broken synced(2) log by auto
qed

text \<open>The result of writing the superblock is not looked at when a redirect is logged: the call reports success and a
  new start has lost the redirect.\<close>

lemma diskbook_log_lost:
  assumes "book_ok h b r st l" "bk_disk st h = sb_image (sealed (bk_sb st))" "ob \<noteq> 0" "nb \<noteq> 0" "length l < 512"
    and "bo_write io (unat r + 2 * length l)" "\<not> bo_write io h" "bo_left io h = bk_disk st h" "reads_work io'"
  shows "\<exists>st' st3. DiskBookLogRedirect io s ob nb t st = (OK, st') \<and> remount io' now h b r (bk_disk st') = (OK, l, st3)"
proof -
  obtain st' where log: "DiskBookLogRedirect io s ob nb t st = (OK, st')"
    using DiskBookLogRedirect_run [OF assms(1,3,4,5), of io s t] assms(6) by auto
  have "book_ok h b r st' (l @ [(s, ob, nb)])" using log_keeps_book [OF assms(1) log] by simp
  then have l: "log_at (bk_disk st') r l" by (auto simp: book_ok_def dest: log_at_prefix)
  have "bk_disk st' h = sb_image (sealed (bk_sb st))"
    using log_disk_cases [OF assms(1) log] assms(2,7,8) by auto
  with remount_log [OF assms(9) _ _ l] assms(1) log show ?thesis by (simp add: book_ok_def) blast
qed

end
