(* ===== verification/Spec2Isabelle.thy ===== *)
theory Spec2Isabelle
  imports PidAllocator BoxHash Bcdc BuddyRun BuddyList ReadyQueue RunQueue TagQuery TagRegistryDisk BlockRelease VolumeLedger FileIo IntegrityMount DiskBook FileTable
begin

text \<open>
  \<^bold>\<open>BoxOS: memory, scheduling and storage of the kernel.\<close>

  BoxOS is a kernel for x86-64 written in C. This development models the components that carry its own
  core logic and that do not depend on the hardware underneath: who owns a process number and a physical
  page, which process runs next, and the whole storage stack of TagFS, its tag-based file system, from
  hashes and codecs over the allocation of blocks to the reading of a file. All paths below are relative to
  src/src.

  \<^bold>\<open>Parts and how they interact.\<close>

  Processes get a number from the PID allocator, wait in the ready queue for pending work and in the run
  queue of their core for the scheduler. Physical pages come from the buddy allocator. A TagFS volume names
  files by tags: the registry gives every tag a number, the tag index answers which files carry which tags.
  Blocks of the volume are handed out by the block allocator and released through deduplication, which
  counts the references to equal blocks; the ledger keeps the counters of the volume over a crash. A block
  is read and written through the read-ahead cache, either by Braid on several disks or directly on one,
  and the integrity map records and compares a hash of its contents. The map in turn is stored in blocks
  that come from the block allocator, at a place the ledger names. The file table finds the metadata of a
  file, a file is read through its extents, and the disk book logs the blocks that copy-on-write has moved.

  \<^bold>\<open>Theories.\<close> Each opens with what it models; the state of a component is a record, its operations keep the
  names of the C functions, and helper definitions named after a part of a function model a loop or a branch
  of it.

  \<^item> Shared: Prelude (C types, error codes, compiler builtins, little-endian stores, lemmas on lists and
    words), BitArray, ArrayMultiset, ChainTable (bit arrays, removal by swapping, chained hash tables) and
    the contracts IdPool, Codec, Fifo and RefTable: locales that state what a client may rely on, proved for
    the code by interpretations in the theories of the providers (BitArray for the word and byte arrays,
    IdPool for PIDs, Codec for the three codecs of the block compressor, Fifo for the ready queue and for
    the rings of the run queue, RefTable for deduplication).
  \<^item> PidAllocator: kernel/core/process/allocator. The lowest free number is handed out, no live number twice.
  \<^item> Buddy, BuddyRun, BuddyList: kernel/core/memory/pmm/buddy.c. Buddy has splitting, merging, seeding and
    reserving over free lists of addresses; BuddyRun a step relation of clients that allocate, write and
    free, with the invariant that gives non-overlap and conservation; BuddyList the doubly linked lists in the
    free pages themselves, shown to refine the lists of addresses, also across the change to pull-map
    addresses, for pages whose pull-map address fits in 64 bits. The loop of \<^verbatim>\<open>pages_to_order\<close> doubles at 64 bits
    and need not end, so the operations return an option.
  \<^item> ReadyQueue and RunQueue: kernel/core/ready_queue.c and kernel/core/scheduler/runqueue.c. Order of
    arrival, every interleaving of the six atomic actions that a push and a pop of the ready queue consist of (the
    claim of the flag, the store of the link, the locked list operation, and the way back), the rings with growth
    and shrinking as one list per priority, that repeated dequeueing delivers everything, and removal by index
    while the indices are right, as they are until a ring is resized (\<open>unresized_ok\<close>).
  \<^item> Crypto, Fips180, BoxHash: lib/kernel/crypto.c and kernel/tagfs/box_hash. Streaming SHA-256 is one-shot
    SHA-256, CRC-32 sees every change of a byte, the content hash stays in its buffer. Fips180 states SHA-256 as
    the standard does, without the code's tables and functions, and shows that both implementations compute it.
  \<^item> BcdcRle, BcdcLz, Bcdc: kernel/tagfs/bcdc. Round trips of the codecs on the inputs they are right for,
    round trip and checksum of stored blocks, bounds of decompression, dictionaries and policies.
  \<^item> Dedup: kernel/tagfs/dedup. Two tables over shared entries, reference counts, garbage collection.
  \<^item> TagBitmap, TagQuery: kernel/tagfs/tag_bitmap. The index as a set of pairs, queries by 64-bit words and
    their cache against the set they should return.
  \<^item> TagRegistry, TagRegistryDisk: kernel/tagfs/tag_registry. Interning as insertion into a map that
    never renumbers a tag, and the chain of blocks that flush writes and load reads through the block layer, with
    its blocks from the block allocator.
  \<^item> BlockSpace, BlockRelease: the block allocator of kernel/tagfs/tagfs.c. First fit is the lowest run; the
    list kept step by step is the one rebuilt from the bitmap; releasing a range frees exactly the blocks
    without further references.
  \<^item> VolumeLedger: the ledger of tagfs.c and include/volume_ledger.h. What is written is read; a torn write
    that its checksum shows leaves the previous ledger.
  \<^item> Braid: kernel/tagfs/braid. A mirrored or woven block survives any loss of disks that leaves one of
    its copies; healing spreads the contents more disks agree on than on any other. A failing raw write may leave anything.
  \<^item> IntegrityMap, BlockIo, Integrity, VolumeIo, IntegrityMount: kernel/tagfs/integrity and the block I/O of
    tagfs.c. IntegrityMap has the map's data and cache, BlockIo the read-ahead cache and the bodies of
    \<^verbatim>\<open>read_block\<close> and \<^verbatim>\<open>write_block\<close>, Integrity the map's operations and the full reads and writes, VolumeIo histories of
    both, IntegrityMount the map's start and shutdown over the allocator, the ledger and the registry. A read
    returns what was last written, bit rot of a block that is read from the disk is reported exactly, a remount and a
    move of the map keep every hash. In IntegrityMount the allocator and the ledger share one count of free blocks.
  \<^item> FileTable: kernel/tagfs/file_table. The array of files as a map, and its chain of blocks over the block layer
    and the block allocator: what was flushed is found at the next mount.
  \<^item> FileIo: \<^verbatim>\<open>tagfs_read\<close>. A read returns the bytes of the file.
  \<^item> DiskBook: kernel/tagfs/disk_book. The log of redirects with two copies of its superblock: after a checkpoint
    a new start restores what was logged, and logging is atomic under a crash whose damage the checksum shows.

  \<^bold>\<open>Conventions.\<close> Machine integers are words, or natural numbers with \<open>u32_wrap\<close> and its kin written at each
  operation that can wrap. An error code is a value of \<open>error_t\<close>; an operation that can read or write outside
  an object, divide by zero or not return has an \<open>option\<close> as its result, \<open>None\<close> standing for that, and the
  properties show where it does not happen. No fuel is used: loops that end are \<open>fun\<close> or \<open>function\<close> with a
  measure, loops that may not end are \<open>partial_function (option)\<close> with theorems that they return. What comes
  from outside the sources is an argument: whether \<^verbatim>\<open>kmalloc\<close> or a slab gives memory, which raw disk accesses
  succeed, the clock, whether the medium is still seated. Locks are held around each operation, so operations
  are atomic, except in ReadyQueue, whose atomic actions interleave, and where a lemma shows a race
  (\<open>prefetch_write_race\<close>). Messages to the console are left out, and so are null checks of pointers the caller
  supplies.

  \<^bold>\<open>Where the code is not right.\<close> Properties are stated for the inputs on which the code does what it means to;
  the defects met are proved as lemmas beside them, for instance \<open>stripe_reads_other_disk\<close>,
  \<open>failed_write_reads_stale\<close>, \<open>prefetch_write_race\<close>, \<open>prefetch_hides_rot\<close>, \<open>failed_update_keeps_old_hash\<close>, \<open>failed_flush_drops_hashes\<close>, \<open>read_result_negative\<close>,
  \<open>diskbook_log_lost\<close>, \<open>update_last_id_overruns\<close> and \<open>crash_in_flush_refuses_mount\<close>.

  \<^bold>\<open>Not modelled.\<close> Boot code, the architecture layer and the drivers are assembly and device registers. The
  virtual memory manager walks page tables through physical memory and is mostly hardware state; memtag,
  the decks and the process-level services (manifests, batons, bays, boardroom, brook, guide, nameplate,
  nightwatch, touch and key rings) are built on the components here and on hardware events. Of TagFS the
  mount sequence, opening, writing and truncating files, the metadata pool, copy-on-write
  snapshots, deeds and self-healing are not modelled. User space, the C++ runtime and the tools
  are outside the kernel.
\<close>

end
